(* ===== verification/Prelude.thy ===== *)
theory Prelude
  imports Main "HOL-Library.Word" "HOL-Library.Multiset"
begin

text \<open>
  Shared vocabulary of the development: the machine types of \<open>include/kernel.h\<close>, the
  outcome of a kernel routine, and the generic facts on words that the component theories use.

  A routine that can only compute returns a value. A routine that may stop the processor
  (\<open>ASSERT\<close>, \<open>panic\<close>, \<open>halt\<close>), index a kernel table out of its bounds or walk a linked
  structure that never ends returns a \<open>result\<close>, so each of those is a value of the model.
  Saving and restoring the interrupt mask (\<open>disable\<close>/\<open>restore\<close>) has no counterpart: a
  routine is one atomic step up to the point where it gives the processor away.
\<close>

unbundle bit_operations_syntax

section \<open>Machine types\<close>

type_synonym u8 = "8 word"
type_synonym u16 = "16 word"
type_synonym u32 = "32 word"
type_synonym addr = "32 word"

text \<open>The value read as a signed 32-bit or 16-bit integer, with two's complement wrap-around.\<close>

definition wrap32 :: "int \<Rightarrow> int" where
  "wrap32 x = signed_take_bit 31 x"

definition wrap16 :: "int \<Rightarrow> int" where
  "wrap16 x = signed_take_bit 15 x"

lemma wrap32_id [simp]: "- (2 ^ 31) \<le> x \<Longrightarrow> x < 2 ^ 31 \<Longrightarrow> wrap32 x = x"
  by (simp add: wrap32_def signed_take_bit_int_eq_self)

lemma wrap16_id [simp]: "- (2 ^ 15) \<le> x \<Longrightarrow> x < 2 ^ 15 \<Longrightarrow> wrap16 x = x"
  by (simp add: wrap16_def signed_take_bit_int_eq_self)

section \<open>Universal constants\<close>

definition NULL :: u32 where "NULL = 0"

definition OK :: int where "OK = 1"
definition SYSERR :: int where "SYSERR = -1"
definition TIMEOUT :: int where "TIMEOUT = -3"

text \<open>\<open>SYSERR\<close> returned through a pointer or an unsigned type.\<close>

definition USYSERR :: u32 where "USYSERR = -1"

section \<open>Outcomes\<close>

datatype 'a result =
    Ret 'a       \<comment> \<open>the routine returned\<close>
  | Halted       \<comment> \<open>an \<open>ASSERT\<close> failed, or \<open>panic\<close>/\<open>halt\<close> was called\<close>
  | Fault        \<comment> \<open>a table was indexed out of its bounds\<close>
  | Loops        \<comment> \<open>a loop of the routine does not end\<close>

primrec rbind :: "'a result \<Rightarrow> ('a \<Rightarrow> 'b result) \<Rightarrow> 'b result" where
  "rbind (Ret x) f = f x"
| "rbind Halted f = Halted"
| "rbind Fault f = Fault"
| "rbind Loops f = Loops"

definition of_loop :: "'a option \<Rightarrow> 'a result" where
  "of_loop r = (case r of None \<Rightarrow> Loops | Some x \<Rightarrow> Ret x)"

primrec rjoin :: "'a result result \<Rightarrow> 'a result" where
  "rjoin (Ret r) = r"
| "rjoin Halted = Halted"
| "rjoin Fault = Fault"
| "rjoin Loops = Loops"

definition kassert :: "bool \<Rightarrow> 'a result \<Rightarrow> 'a result" where
  "kassert b r = (if b then r else Halted)"

lemma of_loop_simps [simp]: "of_loop None = Loops" "of_loop (Some x) = Ret x"
  by (simp_all add: of_loop_def)

lemma kassert_simps [simp]: "kassert True r = r" "kassert False r = Halted"
  by (simp_all add: kassert_def)

lemma kassert_Ret [simp]: "kassert b r = Ret x \<longleftrightarrow> b \<and> r = Ret x"
  by (simp add: kassert_def)

lemma rbind_Ret_iff: "rbind r f = Ret y \<longleftrightarrow> (\<exists>x. r = Ret x \<and> f x = Ret y)"
  by (cases r) auto

lemma rbind_assoc: "rbind (rbind r f) g = rbind r (\<lambda>x. rbind (f x) g)"
  by (cases r) auto

lemma rbind_cong [fundef_cong]:
  "r = r' \<Longrightarrow> (\<And>x. r' = Ret x \<Longrightarrow> f x = f' x) \<Longrightarrow> rbind r f = rbind r' f'"
  by (cases r') auto

section \<open>Collections of facts\<close>

named_theorems layout_defs \<open>constants of the memory layout and the table sizes\<close>
named_theorems mem_simps \<open>reads after writes of the flat memory\<close>
named_theorems queue_simps \<open>reads after writes of the queue table\<close>
named_theorems kernel_defs \<open>definitions of kernel routines that unfold in symbolic execution\<close>

section \<open>Lists\<close>

lemma snoc_pairE:
  assumes "ps \<noteq> []"
  obtains ps' a l where "ps = ps' @ [(a, l)]"
  using assms by (cases ps rule: rev_exhaust) auto

text \<open>Inserting behind the entries that are not larger is one step of the stable insertion sort.\<close>

lemma sorted_split_insert:
  assumes "sorted (map f ys)"
  shows "sorted (map f (takeWhile (\<lambda>y. f y \<le> f x) ys @ x # dropWhile (\<lambda>y. f y \<le> f x) ys))"
  using assms
proof (induction ys)
  case (Cons y ys)
  show ?case
  proof (cases "f y \<le> f x")
    case True
    have "f y \<le> f z" if "z \<in> set (takeWhile (\<lambda>y. f y \<le> f x) ys @ x # dropWhile (\<lambda>y. f y \<le> f x) ys)" for z
      using that Cons.prems True by (auto dest: set_takeWhileD set_dropWhileD)
    then show ?thesis using Cons True by auto
  qed (use Cons.prems in \<open>auto intro: order_trans less_imp_le simp: not_le\<close>)
qed simp

lemma sort_key_snoc:
  "sort_key f (xs @ [x]) =
    takeWhile (\<lambda>y. f y \<le> f x) (sort_key f xs) @ x # dropWhile (\<lambda>y. f y \<le> f x) (sort_key f xs)"
proof (rule properties_for_sort_key)
  let ?s = "sort_key f xs" and ?P = "\<lambda>y. f y \<le> f x"
  show "mset (takeWhile ?P ?s @ x # dropWhile ?P ?s) = mset (xs @ [x])"
    using arg_cong [OF takeWhile_dropWhile_id [of ?P ?s], of mset] unfolding mset_append mset_sort by simp
  show "sorted (map f (takeWhile ?P ?s @ x # dropWhile ?P ?s))"
    by (rule sorted_split_insert) simp
  fix k
  have "filter (\<lambda>y. f x = f y) (dropWhile ?P ?s) = []"
  proof (cases "dropWhile ?P ?s")
    case (Cons z zs)
    have "sorted (map f (takeWhile ?P ?s @ dropWhile ?P ?s))" by simp
    then have "sorted (map f (dropWhile ?P ?s))" unfolding map_append sorted_append by blast
    moreover have "f x < f z" using hd_dropWhile [of ?P ?s] Cons by (simp add: not_le)
    ultimately show ?thesis by (auto simp: Cons filter_empty_conv)
  qed (simp only: filter.simps)
  then have "filter (\<lambda>y. f k = f y) (takeWhile ?P ?s @ x # dropWhile ?P ?s) =
      filter (\<lambda>y. f k = f y) (takeWhile ?P ?s @ dropWhile ?P ?s) @ filter (\<lambda>y. f k = f y) [x]"
    by (cases "f k = f x") (simp_all del: takeWhile_dropWhile_id)
  also have "\<dots> = filter (\<lambda>y. f k = f y) (xs @ [x])"
    using filter_sort [of "\<lambda>y. f k = f y" f xs] sort_key_stable [of f "f k" xs] by (simp add: eq_commute)
  finally show "filter (\<lambda>y. f k = f y) (takeWhile ?P ?s @ x # dropWhile ?P ?s) = filter (\<lambda>y. f k = f y) (xs @ [x])" .
qed

section \<open>Words\<close>

lemma unat_u32_less [simp]: "unat (x :: u32) < 4294967296"
  using unsigned_less [of x, where 'a = nat] by simp

lemma unat_USYSERR: "unat USYSERR = 4294967295"
  by (simp add: USYSERR_def unsigned_minus_1_eq_mask mask_eq_exp_minus_1)

lemma unat_plus_no_wrap:
  fixes a b :: u32
  shows "unat a + unat b < 2 ^ 32 \<Longrightarrow> unat (a + b) = unat a + unat b"
  by (simp add: unat_word_ariths)

lemma unat_minus_le:
  fixes a b :: u32
  shows "unat b \<le> unat a \<Longrightarrow> unat (a - b) = unat a - unat b"
  by (simp add: unat_sub_if_size)

lemma and_not_7: "x AND NOT 7 = push_bit 3 (drop_bit 3 x)" for x :: u32
proof -
  have "x AND NOT (mask 3) = push_bit 3 (drop_bit 3 x)"
    by (intro bit_word_eqI) (auto simp: bit_simps)
  moreover have "(7::u32) = mask 3" by (simp add: mask_eq_exp_minus_1)
  ultimately show ?thesis by (simp only:)
qed

lemma unat_and_not_7: "unat (x AND NOT 7) = 8 * (unat x div 8)" for x :: u32
proof -
  have "unat (x AND NOT 7) = unat (drop_bit 3 x) * 8 mod 2 ^ 32"
    by (simp only: and_not_7 push_bit_eq_mult unat_word_ariths) simp
  also have "unat (drop_bit 3 x) = unat x div 8"
    by (simp add: drop_bit_eq_div unat_div)
  also have "unat x div 8 * 8 mod 2 ^ 32 = unat x div 8 * 8"
    using le_less_trans [OF div_times_less_eq_dividend unat_u32_less, of x 8] by simp
  finally show ?thesis by simp
qed

end
