(* ===== verification/FreeList.thy ===== *)
theory FreeList
  imports Prelude
begin

text \<open>
  The free-list memory manager: \<open>include/memory.h\<close>, \<open>system/getmem.c\<close>,
  \<open>system/freemem.c\<close>, \<open>system/getstk.c\<close> and the generic copies of the same code in
  \<open>system/paging.c\<close> (\<open>__init\<close>, \<open>_getfreemem\<close>, \<open>_freemem\<close>).

  Memory is one flat array of 32-bit words, read and written at byte addresses. A
  \<open>struct memblk\<close> is two words of it: \<open>mnext\<close> at offset 0 and \<open>mlength\<close> at offset 4.
  The head of a list is such a block too, at the address the linker gave it.
\<close>

section \<open>The flat memory and the memory block header\<close>

type_synonym mem = "addr \<Rightarrow> u32"

definition mnext :: "mem \<Rightarrow> addr \<Rightarrow> addr" where
  "mnext m p = m p"

definition mlength :: "mem \<Rightarrow> addr \<Rightarrow> u32" where
  "mlength m p = m (p + 4)"

definition set_mnext :: "addr \<Rightarrow> addr \<Rightarrow> mem \<Rightarrow> mem" where
  "set_mnext p v m = m(p := v)"

definition set_mlength :: "addr \<Rightarrow> u32 \<Rightarrow> mem \<Rightarrow> mem" where
  "set_mlength p v m = m(p + 4 := v)"

definition roundmb :: "u32 \<Rightarrow> u32" where
  "roundmb x = (7 + x) AND NOT 7"

definition truncmb :: "u32 \<Rightarrow> u32" where
  "truncmb x = x AND NOT 7"

text \<open>\<open>ceil_div\<close> as the macro is written: the sum is computed modulo \<open>2 ^ 32\<close>.\<close>

definition ceil_div :: "u32 \<Rightarrow> u32 \<Rightarrow> u32" where
  "ceil_div A B = (if A mod B = 0 then A div B else (A + B) div B)"

section \<open>Allocation: first fit\<close>

partial_function (option) getfreemem_loop ::
  "addr \<Rightarrow> u32 \<Rightarrow> mem \<Rightarrow> addr \<Rightarrow> addr \<Rightarrow> (addr \<times> mem) option" where
  "getfreemem_loop lst nbytes m prev cur =
    (if cur = NULL then Some (USYSERR, m)
     else if mlength m cur = nbytes then
       (let m = set_mnext prev (mnext m cur) m;
            m = set_mlength lst (mlength m lst - nbytes) m
        in Some (cur, m))
     else if nbytes < mlength m cur then
       (let leftover = cur + nbytes;
            m = set_mnext prev leftover m;
            m = set_mnext leftover (mnext m cur) m;
            m = set_mlength leftover (mlength m cur - nbytes) m;
            m = set_mlength lst (mlength m lst - nbytes) m
        in Some (cur, m))
     else getfreemem_loop lst nbytes m cur (mnext m cur))"

definition getfreemem :: "addr \<Rightarrow> u32 \<Rightarrow> mem \<Rightarrow> (addr \<times> mem) result" where
  "getfreemem lst nbytes m =
    (if nbytes = 0 then Ret (USYSERR, m)
     else of_loop (getfreemem_loop lst (roundmb nbytes) m lst (mnext m lst)))"

text \<open>\<open>getmem\<close> is the same code over the kernel's own list \<open>memlist\<close>.\<close>

definition getmem :: "addr \<Rightarrow> u32 \<Rightarrow> mem \<Rightarrow> (addr \<times> mem) result" where
  "getmem memlist nbytes m = getfreemem memlist nbytes m"

section \<open>Release: ordered insertion with coalescing\<close>

partial_function (option) freemem_walk ::
  "mem \<Rightarrow> addr \<Rightarrow> addr \<Rightarrow> addr \<Rightarrow> (addr \<times> addr) option" where
  "freemem_walk m block prev next =
    (if next \<noteq> NULL \<and> next < block then freemem_walk m block next (mnext m next)
     else Some (prev, next))"

definition freemem_link :: "addr \<Rightarrow> addr \<Rightarrow> u32 \<Rightarrow> addr \<Rightarrow> addr \<Rightarrow> mem \<Rightarrow> int \<times> mem" where
  "freemem_link lst block nbytes prev next m =
    (let top = (if prev = lst then NULL else prev + mlength m prev) in
     if (prev \<noteq> lst \<and> block < top) \<or> (next \<noteq> NULL \<and> next < block + nbytes) then (SYSERR, m)
     else
       let m = set_mlength lst (mlength m lst + nbytes) m;
           (block, m) =
             (if top = block then (prev, set_mlength prev (mlength m prev + nbytes) m)
              else (block, set_mnext prev block (set_mlength block nbytes (set_mnext block next m))))
       in if block + mlength m block = next then
            (let m = set_mlength block (mlength m block + mlength m next) m
             in (OK, set_mnext block (mnext m next) m))
          else (OK, m))"

definition freemem_list :: "addr \<Rightarrow> addr \<Rightarrow> u32 \<Rightarrow> addr \<Rightarrow> addr \<Rightarrow> mem \<Rightarrow> (int \<times> mem) result" where
  "freemem_list lst blkaddr nbytes minstruct maxstruct m =
    (if nbytes = 0 \<or> blkaddr < minstruct \<or> blkaddr > maxstruct then Ret (SYSERR, m)
     else
       let nbytes = roundmb nbytes in
       rbind (of_loop (freemem_walk m blkaddr lst (mnext m lst))) (\<lambda>(prev, next).
       Ret (freemem_link lst blkaddr nbytes prev next m)))"

text \<open>\<open>freemem\<close> is the same code over \<open>memlist\<close>, with the heap's bounds.\<close>

definition freemem :: "addr \<Rightarrow> addr \<Rightarrow> u32 \<Rightarrow> addr \<Rightarrow> addr \<Rightarrow> mem \<Rightarrow> (int \<times> mem) result" where
  "freemem memlist blkaddr nbytes minheap maxheap m =
    freemem_list memlist blkaddr nbytes minheap maxheap m"

section \<open>Stack allocation: the last block that fits, from its top\<close>

partial_function (option) getstk_scan ::
  "mem \<Rightarrow> u32 \<Rightarrow> addr \<Rightarrow> addr \<Rightarrow> addr \<Rightarrow> addr \<Rightarrow> (addr \<times> addr) option" where
  "getstk_scan m nbytes prev cur fits fitsprev =
    (if cur \<noteq> NULL then
       if nbytes \<le> mlength m cur then getstk_scan m nbytes cur (mnext m cur) cur prev
       else getstk_scan m nbytes cur (mnext m cur) fits fitsprev
     else Some (fits, fitsprev))"

definition getstk :: "addr \<Rightarrow> u32 \<Rightarrow> mem \<Rightarrow> (addr \<times> mem) result" where
  "getstk memlist nbytes m =
    (if nbytes = 0 then Ret (USYSERR, m)
     else
       let nbytes = roundmb nbytes in
       rbind (of_loop (getstk_scan m nbytes memlist (mnext m memlist) NULL NULL)) (\<lambda>(fits, fitsprev).
       if fits = NULL then Ret (USYSERR, m)
       else
         let (fits, m) =
           (if nbytes = mlength m fits then (fits, set_mnext fitsprev (mnext m fits) m)
            else let m = set_mlength fits (mlength m fits - nbytes) m
                 in (fits + mlength m fits, m));
             m = set_mlength memlist (mlength m memlist - nbytes) m
         in Ret (fits + nbytes - 4, m)))"

text \<open>The macro \<open>freestk\<close>: the address \<open>getstk\<close> returned is that of the highest word.\<close>

definition freestk :: "addr \<Rightarrow> addr \<Rightarrow> u32 \<Rightarrow> addr \<Rightarrow> addr \<Rightarrow> mem \<Rightarrow> (int \<times> mem) result" where
  "freestk memlist p len minheap maxheap m =
    freemem memlist (p - roundmb len + 4) (roundmb len) minheap maxheap m"


section \<open>Blocks and the chain they form\<close>

type_synonym block = "addr \<times> u32"

fun chain :: "mem \<Rightarrow> addr \<Rightarrow> block list \<Rightarrow> bool" where
  "chain m p [] \<longleftrightarrow> p = NULL"
| "chain m p ((a, l) # bs) \<longleftrightarrow> p = a \<and> a \<noteq> NULL \<and> mlength m a = l \<and> chain m (mnext m a) bs"

definition bytes :: "block \<Rightarrow> addr set" where
  "bytes b = {x. unat (fst b) \<le> unat x \<and> unat x < unat (fst b) + unat (snd b)}"

definition region :: "block list \<Rightarrow> addr set" where
  "region bs = (\<Union>b \<in> set bs. bytes b)"

definition free_total :: "block list \<Rightarrow> nat" where
  "free_total bs = sum_list (map (unat \<circ> snd) bs)"

definition block_ok :: "block \<Rightarrow> bool" where
  "block_ok b \<longleftrightarrow> 8 dvd unat (fst b) \<and> 8 dvd unat (snd b) \<and> 0 < unat (fst b) \<and> 0 < unat (snd b) \<and>
     unat (fst b) + unat (snd b) < 2 ^ 32"

text \<open>
  The shape every list operation keeps: aligned, inside the address space, in ascending
  address order, and with a gap between neighbours (adjacent free blocks are one block).
\<close>

fun blocks_ok :: "block list \<Rightarrow> bool" where
  "blocks_ok [] \<longleftrightarrow> True"
| "blocks_ok (b # bs) \<longleftrightarrow> block_ok b \<and>
     (\<forall>c \<in> set bs. unat (fst b) + unat (snd b) < unat (fst c)) \<and> blocks_ok bs"

text \<open>A list head \<open>lst\<close> whose free blocks are exactly \<open>bs\<close>.\<close>

definition freelist :: "mem \<Rightarrow> addr \<Rightarrow> block list \<Rightarrow> bool" where
  "freelist m lst bs \<longleftrightarrow> chain m (mnext m lst) bs \<and> blocks_ok bs \<and>
     lst \<notin> region bs \<and> lst + 4 \<notin> region bs"

lemma region_simps [simp]:
  "region [] = {}" "region (b # bs) = bytes b \<union> region bs"
  by (simp_all add: region_def)

lemma region_append: "region (xs @ ys) = region xs \<union> region ys"
  by (simp add: region_def)

lemma free_total_simps [simp]:
  "free_total [] = 0" "free_total (b # bs) = unat (snd b) + free_total bs"
  by (simp_all add: free_total_def)

lemma free_total_append: "free_total (xs @ ys) = free_total xs + free_total ys"
  by (simp add: free_total_def)

lemma block_ok_ge_8: "block_ok b \<Longrightarrow> 8 \<le> unat (snd b)"
  by (auto simp: block_ok_def elim: dvdE)

lemma block_ok_unat_4: "block_ok b \<Longrightarrow> unat (fst b + 4) = unat (fst b) + 4"
  using block_ok_ge_8 [of b] by (subst unat_plus_no_wrap) (auto simp: block_ok_def)

lemma block_ok_header [simp]:
  "block_ok b \<Longrightarrow> fst b \<in> bytes b" "block_ok b \<Longrightarrow> fst b + 4 \<in> bytes b"
  using block_ok_ge_8 [of b] block_ok_unat_4 [of b] by (auto simp: bytes_def block_ok_def)

lemma block_ok_not_NULL: "block_ok b \<Longrightarrow> fst b \<noteq> NULL"
  by (auto simp: block_ok_def NULL_def)

lemma blocks_ok_member: "blocks_ok bs \<Longrightarrow> b \<in> set bs \<Longrightarrow> block_ok b"
  by (induction bs) auto

lemma bytes_before_region:
  "\<forall>c \<in> set bs. unat (fst b) + unat (snd b) < unat (fst c) \<Longrightarrow> bytes b \<inter> region bs = {}"
  by (fastforce simp: bytes_def region_def)

lemma blocks_ok_disjoint: "blocks_ok (b # bs) \<Longrightarrow> bytes b \<inter> region bs = {}"
  by (simp add: bytes_before_region)

lemma blocks_ok_append:
  "blocks_ok (xs @ ys) \<longleftrightarrow> blocks_ok xs \<and> blocks_ok ys \<and>
     (\<forall>b \<in> set xs. \<forall>c \<in> set ys. unat (fst b) + unat (snd b) < unat (fst c))"
  by (induction xs) auto

text \<open>The chain reads only the headers of its blocks.\<close>

lemma chain_cong:
  assumes "blocks_ok bs" and "\<And>x. x \<in> region bs \<Longrightarrow> m' x = m x"
  shows "chain m' p bs = chain m p bs"
  using assms
proof (induction bs arbitrary: p)
  case (Cons b bs)
  obtain a l where b: "b = (a, l)" by (cases b)
  from Cons.prems(1) b have ok: "block_ok (a, l)" by simp
  have "m' a = m a" "m' (a + 4) = m (a + 4)"
    using Cons.prems(2) block_ok_header [OF ok] by (auto simp: b)
  moreover have "chain m' (mnext m' a) bs = chain m (mnext m' a) bs"
    using Cons by simp
  ultimately show ?case by (simp add: b mnext_def mlength_def)
qed simp

lemma freelist_cong:
  assumes "freelist m lst bs" and "\<And>x. x \<in> region bs \<Longrightarrow> m' x = m x" and "m' lst = m lst"
  shows "freelist m' lst bs"
  using assms chain_cong [of bs m' m] by (simp add: freelist_def mnext_def)

section \<open>First fit on block lists\<close>

fun ff_alloc :: "u32 \<Rightarrow> block list \<Rightarrow> (addr \<times> block list) option" where
  "ff_alloc n [] = None"
| "ff_alloc n ((a, l) # bs) =
    (if l = n then Some (a, bs)
     else if n < l then Some (a, (a + n, l - n) # bs)
     else map_option (\<lambda>(r, bs'). (r, (a, l) # bs')) (ff_alloc n bs))"

text \<open>A request that is a positive multiple of the block granularity.\<close>

definition req_ok :: "u32 \<Rightarrow> bool" where
  "req_ok n \<longleftrightarrow> 0 < unat n \<and> 8 dvd unat n"

lemma split_block_ok:
  assumes "block_ok (a, l)" and "req_ok n" and "n < l"
  shows "block_ok (a + n, l - n)" and "unat (a + n) = unat a + unat n"
    and "unat (l - n) = unat l - unat n"
proof -
  have lt: "unat n < unat l" using assms(3) by (simp add: word_less_nat_alt)
  show a: "unat (a + n) = unat a + unat n"
    using assms(1) lt by (subst unat_plus_no_wrap) (auto simp: block_ok_def)
  show l: "unat (l - n) = unat l - unat n"
    using lt by (simp add: unat_minus_le)
  show "block_ok (a + n, l - n)"
    using assms lt by (auto simp: block_ok_def req_ok_def a l)
qed

text \<open>What an allocation does to the free bytes.\<close>

lemma ff_alloc_Some:
  assumes "ff_alloc n bs = Some (r, bs')" and "blocks_ok bs" and "req_ok n"
  shows "blocks_ok bs'" and "block_ok (r, n)" and "bytes (r, n) \<subseteq> region bs"
    and "region bs' = region bs - bytes (r, n)" and "free_total bs = free_total bs' + unat n"
    and "\<forall>c \<in> set bs'. \<exists>b \<in> set bs. unat (fst b) \<le> unat (fst c)"
proof -
  have "blocks_ok bs' \<and> block_ok (r, n) \<and> bytes (r, n) \<subseteq> region bs \<and>
    region bs' = region bs - bytes (r, n) \<and> free_total bs = free_total bs' + unat n \<and>
    (\<forall>c \<in> set bs'. \<exists>b \<in> set bs. unat (fst b) \<le> unat (fst c))"
    using assms
  proof (induction n bs arbitrary: r bs' rule: ff_alloc.induct)
    case (2 n a l bs)
    have ok: "block_ok (a, l)" "blocks_ok bs" "bytes (a, l) \<inter> region bs = {}"
      and gap: "\<forall>c \<in> set bs. unat a + unat l < unat (fst c)"
      using "2.prems"(2) blocks_ok_disjoint [of "(a, l)" bs] by auto
    consider (exact) "l = n" | (split) "l \<noteq> n" "n < l" | (small) "l \<noteq> n" "\<not> n < l" by blast
    then show ?case
    proof cases
      case exact
      then show ?thesis using "2.prems" ok by auto
    next
      case split
      note sp = split_block_ok [OF ok(1) "2.prems"(3) split(2)]
      have r: "r = a" "bs' = (a + n, l - n) # bs" using "2.prems"(1) split by auto
      have lt: "unat n < unat l" using split(2) by (simp add: word_less_nat_alt)
      have "bytes (a, n) \<subseteq> bytes (a, l)" "bytes (a + n, l - n) = bytes (a, l) - bytes (a, n)"
        using lt by (auto simp: bytes_def sp)
      moreover have "block_ok (a, n)"
        using ok(1) "2.prems"(3) lt by (auto simp: block_ok_def req_ok_def)
      ultimately show ?thesis
        using ok gap sp lt by (auto simp: r)
    next
      case small
      then obtain bs'' where al: "ff_alloc n bs = Some (r, bs'')" and bs': "bs' = (a, l) # bs''"
        using "2.prems"(1) by auto
      note IH = "2.IH" [OF small al ok(2) "2.prems"(3)]
      have "\<forall>c \<in> set bs''. unat a + unat l < unat (fst c)"
        using IH gap by force
      then show ?thesis using IH ok gap by (auto simp: bs')
    qed
  qed simp
  then show "blocks_ok bs'" "block_ok (r, n)" "bytes (r, n) \<subseteq> region bs"
    "region bs' = region bs - bytes (r, n)" "free_total bs = free_total bs' + unat n"
    "\<forall>c \<in> set bs'. \<exists>b \<in> set bs. unat (fst b) \<le> unat (fst c)" by auto
qed

lemma ff_alloc_None: "ff_alloc n bs = None \<longleftrightarrow> (\<forall>b \<in> set bs. unat (snd b) < unat n)"
  by (induction n bs rule: ff_alloc.induct)
    (auto simp: word_less_nat_alt word_unat_eq_iff)


section \<open>The pointer code implements first fit\<close>

lemma getfreemem_loop_correct:
  assumes "chain m cur bs" and "blocks_ok bs" and "req_ok n"
    and "mnext m prev = cur" and "prev \<notin> region bs" and "prev \<noteq> lst + 4" and "lst + 4 \<notin> region bs"
  shows "\<exists>m'. getfreemem_loop lst n m prev cur =
      Some (case ff_alloc n bs of None \<Rightarrow> USYSERR | Some (r, _) \<Rightarrow> r, m') \<and>
    (case ff_alloc n bs of None \<Rightarrow> m' = m
     | Some (r, bs') \<Rightarrow> chain m' (mnext m' prev) bs' \<and> mlength m' lst = mlength m lst - n \<and>
         (\<forall>x. x \<notin> region bs \<union> {prev, lst + 4} \<longrightarrow> m' x = m x))"
  using assms
proof (induction bs arbitrary: prev cur)
  case Nil
  then show ?case by (simp add: getfreemem_loop.simps)
next
  case (Cons b bs)
  obtain l where b: "b = (cur, l)" "mlength m cur = l" and ch: "chain m (mnext m cur) bs" and nz: "cur \<noteq> NULL"
    using Cons.prems(1) by (cases b) auto
  have ok: "block_ok (cur, l)" "blocks_ok bs" and disj: "bytes (cur, l) \<inter> region bs = {}"
    using Cons.prems(2) blocks_ok_disjoint [of b bs] by (auto simp: b)
  have hdr: "cur \<in> bytes (cur, l)" "cur + 4 \<in> bytes (cur, l)"
    using block_ok_header [OF ok(1)] by simp_all
  have neq: "prev \<noteq> cur" "prev \<noteq> cur + 4" "cur \<noteq> lst + 4" "cur + 4 \<noteq> lst + 4" "cur \<notin> region bs"
    using hdr Cons.prems(5,7) disj by (auto simp: b)
  consider (exact) "l = n" | (split) "l \<noteq> n" "n < l" | (small) "l \<noteq> n" "\<not> n < l" by blast
  then show ?case
  proof cases
    case exact
    let ?m1 = "set_mnext prev (mnext m cur) m"
    let ?m' = "set_mlength lst (mlength ?m1 lst - n) ?m1"
    have "chain ?m' (mnext m cur) bs = chain m (mnext m cur) bs"
      using Cons.prems(5,7) by (intro chain_cong ok(2)) (auto simp: set_mnext_def set_mlength_def)
    moreover have "getfreemem_loop lst n m prev cur = Some (cur, ?m')"
      using exact nz by (subst getfreemem_loop.simps) (simp add: b Let_def)
    ultimately show ?thesis
      using exact ch Cons.prems(6)
      by (auto simp: b(1) set_mnext_def set_mlength_def mnext_def mlength_def)
  next
    case split
    note sp = split_block_ok [OF ok(1) \<open>req_ok n\<close> split(2)]
    have lt: "unat n < unat l" using split(2) by (simp add: word_less_nat_alt)
    have sub: "bytes (cur + n, l - n) \<subseteq> bytes (cur, l)" "cur \<notin> bytes (cur + n, l - n)"
      using lt \<open>req_ok n\<close> by (auto simp: bytes_def sp req_ok_def)
    have hdr': "cur + n \<in> bytes (cur + n, l - n)" "cur + n + 4 \<in> bytes (cur + n, l - n)"
      using block_ok_header [OF sp(1)] by simp_all
    have neq': "prev \<noteq> cur + n" "prev \<noteq> cur + n + 4" "cur + n \<noteq> lst + 4" "cur + n + 4 \<noteq> lst + 4"
      "cur + n \<notin> region bs" "cur + n + 4 \<notin> region bs"
      using hdr' sub Cons.prems(5,7) disj by (auto simp: b)
    have "cur + n \<noteq> cur" "cur + n + 4 \<noteq> cur" using hdr' sub by metis+
    note neq' = neq' this
    have "cur + n \<noteq> cur + 4" using \<open>req_ok n\<close> by (auto simp: req_ok_def)
    moreover have "cur + n + 4 \<noteq> cur + 4" using \<open>cur + n \<noteq> cur\<close> by simp
    moreover have "cur + n \<noteq> NULL" using block_ok_not_NULL [OF sp(1)] by simp
    moreover
    let ?m' = "m(prev := cur + n, cur + n := m cur, cur + n + 4 := l - n, lst + 4 := m (lst + 4) - n)"
    have "chain ?m' (m cur) bs = chain m (m cur) bs"
      using Cons.prems(5,7) neq' by (intro chain_cong ok(2)) auto
    moreover have "getfreemem_loop lst n m prev cur = Some (cur, ?m')"
      using split nz b(2) neq neq' Cons.prems(6) calculation(1)
      by (subst getfreemem_loop.simps)
        (simp add: b(1) set_mnext_def set_mlength_def mnext_def mlength_def Let_def)
    ultimately show ?thesis
      using split ch neq neq' Cons.prems(6) hdr' sub
      by (auto simp: b(1) mnext_def mlength_def)
  next
    case small
    have "lst + 4 \<notin> region bs" using Cons.prems(7) by (simp add: b)
    note IH = Cons.IH [OF ch ok(2) \<open>req_ok n\<close> refl neq(5) neq(3) this]
    obtain m' where lp: "getfreemem_loop lst n m cur (mnext m cur) =
        Some (case ff_alloc n bs of None \<Rightarrow> USYSERR | Some (r, _) \<Rightarrow> r, m')"
      and post: "case ff_alloc n bs of None \<Rightarrow> m' = m
        | Some (r, bs') \<Rightarrow> chain m' (mnext m' cur) bs' \<and> mlength m' lst = mlength m lst - n \<and>
         (\<forall>x. x \<notin> region bs \<union> {cur, lst + 4} \<longrightarrow> m' x = m x)" using IH by blast
    have step: "getfreemem_loop lst n m prev cur = getfreemem_loop lst n m cur (mnext m cur)"
      using small nz by (subst getfreemem_loop.simps) (simp add: b)
    show ?thesis
    proof (cases "ff_alloc n bs")
      case None
      then show ?thesis using small lp post by (auto simp: step b)
    next
      case (Some rb)
      obtain r bs' where rb: "rb = (r, bs')" by (cases rb)
      have c4: "cur + 4 \<notin> region bs" using hdr disj by auto
      have "m' prev = m prev" "m' (cur + 4) = m (cur + 4)"
        using post Some rb neq c4 Cons.prems(5,6) by (auto simp: b)
      then have "chain m' (mnext m' prev) ((cur, l) # bs')"
        using post Some rb Cons.prems(4) nz by (simp add: mnext_def mlength_def b(2) [unfolded mlength_def])
      moreover have "m' x = m x" if "x \<notin> region (b # bs) \<union> {prev, lst + 4}" for x
        using post Some rb hdr that by (auto simp: b(1))
      ultimately show ?thesis
        using small lp post Some rb by (simp add: step b(1))
    qed
  qed
qed

lemma unat_roundmb:
  "unat n \<le> 2 ^ 32 - 8 \<Longrightarrow> unat (roundmb n) = 8 * ((unat n + 7) div 8)"
proof -
  assume n: "unat n \<le> 2 ^ 32 - 8"
  have "unat (7 :: u32) = 7" by simp
  then have "unat (7 + n) = unat n + 7" using n by (subst unat_plus_no_wrap) simp_all
  then show ?thesis unfolding roundmb_def unat_and_not_7 by simp
qed

lemma roundmb_req_ok: "n \<noteq> 0 \<Longrightarrow> unat n \<le> 2 ^ 32 - 8 \<Longrightarrow> req_ok (roundmb n)"
  using unat_gt_0 [of n] by (simp add: req_ok_def unat_roundmb)

lemma roundmb_idem: "req_ok n \<Longrightarrow> roundmb n = n"
proof -
  assume ok: "req_ok n"
  then obtain k where "unat n = 8 * k" "0 < k" by (auto simp: req_ok_def elim!: dvdE)
  moreover have "8 * k < 2 ^ 32" using unat_u32_less [of n] calculation by simp
  ultimately have "unat n \<le> 2 ^ 32 - 8" by simp
  then show ?thesis using ok by (auto simp: word_unat_eq_iff unat_roundmb req_ok_def elim!: dvdE)
qed

text \<open>
  The contract of \<open>_getfreemem\<close>: it returns, and what it returns and leaves behind is the
  first-fit allocation of the block list.
\<close>

lemma getfreemem_correct:
  assumes "freelist m lst bs" and "n \<noteq> 0" and "unat n \<le> 2 ^ 32 - 8"
  shows "\<exists>m'. getfreemem lst n m =
      Ret (case ff_alloc (roundmb n) bs of None \<Rightarrow> USYSERR | Some (r, _) \<Rightarrow> r, m') \<and>
    (case ff_alloc (roundmb n) bs of None \<Rightarrow> m' = m
     | Some (r, bs') \<Rightarrow> freelist m' lst bs' \<and> mlength m' lst = mlength m lst - roundmb n \<and>
         (\<forall>x. x \<notin> region bs \<union> {lst, lst + 4} \<longrightarrow> m' x = m x))"
proof -
  have ok: "req_ok (roundmb n)" using assms(2,3) by (rule roundmb_req_ok)
  have fl: "chain m (mnext m lst) bs" "blocks_ok bs" "lst \<notin> region bs" "lst + 4 \<notin> region bs"
    using assms(1) by (auto simp: freelist_def)
  obtain m' where "getfreemem_loop lst (roundmb n) m lst (mnext m lst) =
      Some (case ff_alloc (roundmb n) bs of None \<Rightarrow> USYSERR | Some (r, _) \<Rightarrow> r, m')"
    and "case ff_alloc (roundmb n) bs of None \<Rightarrow> m' = m
     | Some (r, bs') \<Rightarrow> chain m' (mnext m' lst) bs' \<and> mlength m' lst = mlength m lst - roundmb n \<and>
         (\<forall>x. x \<notin> region bs \<union> {lst, lst + 4} \<longrightarrow> m' x = m x)"
    using getfreemem_loop_correct [OF fl(1,2) ok refl fl(3) _ fl(4)] by auto
  then show ?thesis
    using assms(2) fl ff_alloc_Some(1,4) [OF _ fl(2) ok]
    by (cases "ff_alloc (roundmb n) bs") (auto simp: getfreemem_def freelist_def)
qed


section \<open>Ordered insertion with coalescing on block lists\<close>

definition top_of :: "block \<Rightarrow> addr" where
  "top_of b = fst b + snd b"

fun join_right :: "block \<Rightarrow> block list \<Rightarrow> block list" where
  "join_right (a, l) [] = [(a, l)]"
| "join_right (a, l) ((b, k) # ns) = (if a + l = b then (a, l + k) # ns else (a, l) # (b, k) # ns)"

definition ff_free :: "addr \<Rightarrow> u32 \<Rightarrow> block list \<Rightarrow> block list option" where
  "ff_free block n bs =
    (let ps = takeWhile (\<lambda>b. fst b < block) bs; ns = dropWhile (\<lambda>b. fst b < block) bs in
     if (ps \<noteq> [] \<and> block < top_of (last ps)) \<or> (ns \<noteq> [] \<and> fst (hd ns) < block + n) then None
     else if ps \<noteq> [] \<and> top_of (last ps) = block
       then Some (butlast ps @ join_right (fst (last ps), snd (last ps) + n) ns)
     else Some (ps @ join_right (block, n) ns))"

lemma unat_top_of: "block_ok b \<Longrightarrow> unat (top_of b) = unat (fst b) + unat (snd b)"
  by (simp add: top_of_def unat_plus_no_wrap block_ok_def)

lemma block_ok_join:
  assumes "block_ok (a, l)" and "block_ok (a + l, k)"
  shows "block_ok (a, l + k)" and "unat (l + k) = unat l + unat k"
    and "bytes (a, l + k) = bytes (a, l) \<union> bytes (a + l, k)"
proof -
  have al: "unat (a + l) = unat a + unat l"
    using assms(1) unat_top_of [of "(a, l)"] by (simp add: top_of_def)
  show lk: "unat (l + k) = unat l + unat k"
    using assms(2) by (subst unat_plus_no_wrap) (auto simp: block_ok_def al)
  show "block_ok (a, l + k)"
    using assms by (auto simp: block_ok_def lk al)
  show "bytes (a, l + k) = bytes (a, l) \<union> bytes (a + l, k)"
    by (auto simp: bytes_def lk al)
qed

lemma join_right_ok:
  assumes "block_ok (a, l)" and "blocks_ok ns" and "\<forall>c \<in> set ns. unat a + unat l \<le> unat (fst c)"
  shows "blocks_ok (join_right (a, l) ns)" and "region (join_right (a, l) ns) = bytes (a, l) \<union> region ns"
    and "free_total (join_right (a, l) ns) = unat l + free_total ns"
    and "\<forall>c \<in> set (join_right (a, l) ns). unat a \<le> unat (fst c)"
proof -
  have "blocks_ok (join_right (a, l) ns) \<and> region (join_right (a, l) ns) = bytes (a, l) \<union> region ns
    \<and> free_total (join_right (a, l) ns) = unat l + free_total ns
    \<and> (\<forall>c \<in> set (join_right (a, l) ns). unat a \<le> unat (fst c))"
  proof (cases ns)
    case Nil
    then show ?thesis using assms by simp
  next
    case (Cons b ns')
    obtain c k where b: "b = (c, k)" by (cases b)
    have al: "unat (a + l) = unat a + unat l"
      using assms(1) unat_top_of [of "(a, l)"] by (simp add: top_of_def)
    have okb: "block_ok (c, k)" "\<forall>d \<in> set ns'. unat c + unat k < unat (fst d)" "blocks_ok ns'"
      using assms(2) by (auto simp: Cons b)
    show ?thesis
    proof (cases "a + l = c")
      case True
      have okj: "block_ok (a + l, k)" using okb(1) True by simp
      note j = block_ok_join [OF assms(1) okj]
      have "\<forall>d \<in> set ns'. unat a + unat (l + k) < unat (fst d)"
        using okb(2) j(2) al True by auto
      then show ?thesis
        using True okb j assms(3) by (fastforce simp: Cons b)
    next
      case False
      have "unat (a + l) \<noteq> unat c" using False by (simp add: word_unat_eq_iff)
      then have "unat a + unat l < unat c" using assms(3) al by (simp add: Cons b)
      then show ?thesis
        using False assms okb by (fastforce simp: Cons b)
    qed
  qed
  then show "blocks_ok (join_right (a, l) ns)" "region (join_right (a, l) ns) = bytes (a, l) \<union> region ns"
    "free_total (join_right (a, l) ns) = unat l + free_total ns"
    "\<forall>c \<in> set (join_right (a, l) ns). unat a \<le> unat (fst c)" by simp_all
qed

lemma split_at_block:
  fixes block :: addr
  assumes "blocks_ok bs"
  defines "ps \<equiv> takeWhile (\<lambda>b. fst b < block) bs" and "ns \<equiv> dropWhile (\<lambda>b. fst b < block) bs"
  shows "bs = ps @ ns" and "\<forall>b \<in> set ps. unat (fst b) < unat block" and "\<forall>b \<in> set ns. unat block \<le> unat (fst b)"
proof -
  show bs: "bs = ps @ ns" by (simp add: ps_def ns_def)
  show "\<forall>b \<in> set ps. unat (fst b) < unat block"
    by (auto simp: ps_def word_less_nat_alt dest: set_takeWhileD)
  show "\<forall>b \<in> set ns. unat block \<le> unat (fst b)"
  proof (cases ns)
    case (Cons c ns')
    have "\<not> fst (hd ns) < block" using hd_dropWhile Cons by (metis ns_def list.discI)
    then have "\<not> fst c < block" using Cons by simp
    then have "unat block \<le> unat (fst c)" by (simp add: word_less_nat_alt)
    moreover have "\<forall>d \<in> set ns'. unat (fst c) < unat (fst d)"
      using assms(1) bs Cons by (auto simp: blocks_ok_append)
    ultimately show ?thesis using Cons by auto
  qed simp
qed


lemma blocks_ok_last:
  assumes "blocks_ok ps" and "ps \<noteq> []"
  obtains ps' a l where "ps = ps' @ [(a, l)]" "blocks_ok ps'" "block_ok (a, l)"
    "\<forall>b \<in> set ps'. unat (fst b) + unat (snd b) < unat a" "top_of (last ps) = a + l"
    "unat (a + l) = unat a + unat l"
proof -
  obtain ps' a l where ps: "ps = ps' @ [(a, l)]"
    using assms(2) by (rule snoc_pairE)
  have "blocks_ok ps'" "block_ok (a, l)" "\<forall>b \<in> set ps'. unat (fst b) + unat (snd b) < unat a"
    using assms(1) by (auto simp: ps blocks_ok_append)
  moreover have "top_of (last ps) = a + l" by (simp add: ps top_of_def)
  moreover have "unat (a + l) = unat a + unat l"
    using unat_top_of [OF \<open>block_ok (a, l)\<close>] by (simp add: top_of_def)
  ultimately show ?thesis using ps that by blast
qed

text \<open>The release is refused exactly when the block overlaps memory that is free already.\<close>

lemma last_block_overlap:
  assumes "blocks_ok ps" and "ps \<noteq> []" and "\<forall>b \<in> set ps. unat (fst b) < unat block" and "block_ok (block, n)"
  shows "bytes (block, n) \<inter> region ps \<noteq> {} \<longleftrightarrow> block < top_of (last ps)"
proof -
  obtain ps' a l where ps: "ps = ps' @ [(a, l)]" and before: "\<forall>b \<in> set ps'. unat (fst b) + unat (snd b) < unat a"
    and top: "top_of (last ps) = a + l" "unat (a + l) = unat a + unat l"
    using blocks_ok_last [OF assms(1,2)] by metis
  have lt: "unat a < unat block" using assms(3) by (simp add: ps)
  have "bytes (block, n) \<inter> region ps' = {}"
    using before lt by (fastforce simp: region_def bytes_def)
  then have "bytes (block, n) \<inter> region ps = bytes (block, n) \<inter> bytes (a, l)"
    by (auto simp: ps region_append)
  moreover have "bytes (block, n) \<inter> bytes (a, l) \<noteq> {} \<longleftrightarrow> unat block < unat a + unat l"
  proof
    assume "unat block < unat a + unat l"
    then have "block \<in> bytes (a, l)" using lt by (simp add: bytes_def)
    then show "bytes (block, n) \<inter> bytes (a, l) \<noteq> {}" using block_ok_header(1) [OF assms(4)] by auto
  qed (auto simp: bytes_def)
  ultimately show ?thesis by (simp add: word_less_nat_alt top)
qed

lemma first_block_overlap:
  assumes "blocks_ok ns" and "ns \<noteq> []" and "\<forall>b \<in> set ns. unat block \<le> unat (fst b)" and "block_ok (block, n)"
  shows "bytes (block, n) \<inter> region ns \<noteq> {} \<longleftrightarrow> fst (hd ns) < block + n"
proof -
  obtain c ns' where ns: "ns = c # ns'" using assms(2) by (cases ns) auto
  have top: "unat (block + n) = unat block + unat n"
    using unat_top_of [OF assms(4)] by (simp add: top_of_def)
  have ok: "block_ok c" using assms(1) by (simp add: ns)
  have after: "\<forall>d \<in> set ns. unat (fst c) \<le> unat (fst d)" using assms(1) by (auto simp: ns)
  show ?thesis
  proof
    assume "fst (hd ns) < block + n"
    then have "fst c \<in> bytes (block, n)"
      using assms(3) top by (auto simp: ns bytes_def word_less_nat_alt)
    then show "bytes (block, n) \<inter> region ns \<noteq> {}" using block_ok_header(1) [OF ok] by (auto simp: ns)
  next
    assume "bytes (block, n) \<inter> region ns \<noteq> {}"
    then obtain x d where "x \<in> bytes (block, n)" and d: "d \<in> set ns" and "x \<in> bytes d" by (auto simp: region_def)
    moreover have "unat (fst c) \<le> unat (fst d)" using after d by blast
    ultimately have "unat (fst c) < unat block + unat n" by (auto simp: bytes_def)
    then show "fst (hd ns) < block + n" using top by (simp add: ns word_less_nat_alt)
  qed
qed

lemma ff_free_None_iff:
  assumes "blocks_ok bs" and "block_ok (block, n)"
  shows "ff_free block n bs = None \<longleftrightarrow> bytes (block, n) \<inter> region bs \<noteq> {}"
proof -
  define ps where "ps = takeWhile (\<lambda>b. fst b < block) bs"
  define ns where "ns = dropWhile (\<lambda>b. fst b < block) bs"
  note sp = split_at_block [OF assms(1), of block, folded ps_def ns_def]
  have ok: "blocks_ok ps" "blocks_ok ns" using assms(1) sp(1) blocks_ok_append by metis+
  have "bytes (block, n) \<inter> region bs \<noteq> {} \<longleftrightarrow>
      bytes (block, n) \<inter> region ps \<noteq> {} \<or> bytes (block, n) \<inter> region ns \<noteq> {}"
    unfolding sp(1) region_append by blast
  also have "\<dots> \<longleftrightarrow> (ps \<noteq> [] \<and> block < top_of (last ps)) \<or> (ns \<noteq> [] \<and> fst (hd ns) < block + n)"
    using last_block_overlap [OF ok(1) _ sp(2) assms(2)] first_block_overlap [OF ok(2) _ sp(3) assms(2)]
    by (cases "ps = []"; cases "ns = []") simp_all
  finally show ?thesis
    by (simp add: ff_free_def Let_def flip: ps_def ns_def)
qed

lemma ff_free_gaps:
  fixes block :: addr
  assumes "ff_free block n bs = Some bs'" and "blocks_ok bs" and "block_ok (block, n)"
  defines "ps \<equiv> takeWhile (\<lambda>b. fst b < block) bs" and "ns \<equiv> dropWhile (\<lambda>b. fst b < block) bs"
  shows "blocks_ok ps" "blocks_ok ns" "\<forall>c \<in> set ns. unat block + unat n \<le> unat (fst c)"
    "ps \<noteq> [] \<Longrightarrow> unat (top_of (last ps)) \<le> unat block"
proof -
  note sp = split_at_block [OF assms(2), of block, folded ps_def ns_def]
  show ok: "blocks_ok ps" "blocks_ok ns" using assms(2) sp(1) blocks_ok_append by metis+
  have not: "ps = [] \<or> \<not> block < top_of (last ps)" "ns = [] \<or> \<not> fst (hd ns) < block + n"
    using assms(1) by (auto simp: ff_free_def Let_def ps_def ns_def split: if_splits)
  have "unat (block + n) = unat block + unat n"
    using unat_top_of [OF assms(3)] by (simp add: top_of_def)
  then show "\<forall>c \<in> set ns. unat block + unat n \<le> unat (fst c)"
    using not(2) ok(2) by (cases ns) (auto simp: word_less_nat_alt)
  show "unat (top_of (last ps)) \<le> unat block" if "ps \<noteq> []"
    using not(1) that by (simp add: word_less_nat_alt)
qed

lemma strict_gap:
  assumes "blocks_ok ps" and "ps \<noteq> [] \<Longrightarrow> unat (top_of (last ps)) \<le> unat block"
    and "\<not> (ps \<noteq> [] \<and> top_of (last ps) = block)"
  shows "\<forall>b \<in> set ps. unat (fst b) + unat (snd b) < unat block"
proof (cases "ps = []")
  case ne: False
  obtain ps' a l where ps: "ps = ps' @ [(a, l)]"
    and before: "\<forall>b \<in> set ps'. unat (fst b) + unat (snd b) < unat a"
    and top: "top_of (last ps) = a + l" "unat (a + l) = unat a + unat l"
    using blocks_ok_last [OF assms(1) ne] by metis
  have "unat (a + l) \<noteq> unat block" using assms(3) ne top by (simp add: word_unat_eq_iff)
  then have "unat a + unat l < unat block" using assms(2) [OF ne] top by simp
  then show ?thesis using before by (fastforce simp: ps)
qed simp

lemma ff_free_Some:
  assumes "ff_free block n bs = Some bs'" and "blocks_ok bs" and "block_ok (block, n)"
  shows "blocks_ok bs' \<and> region bs' = region bs \<union> bytes (block, n) \<and> free_total bs' = free_total bs + unat n"
proof -
  define ps where "ps = takeWhile (\<lambda>b. fst b < block) bs"
  define ns where "ns = dropWhile (\<lambda>b. fst b < block) bs"
  note g = ff_free_gaps [OF assms, folded ps_def ns_def]
  have bs: "bs = ps @ ns" by (simp add: ps_def ns_def)
  have bs': "bs' = (if ps \<noteq> [] \<and> top_of (last ps) = block
      then butlast ps @ join_right (fst (last ps), snd (last ps) + n) ns else ps @ join_right (block, n) ns)"
    using assms(1) by (auto simp: ff_free_def Let_def ps_def ns_def split: if_splits)
  show ?thesis
  proof (cases "ps \<noteq> [] \<and> top_of (last ps) = block")
    case True
    obtain ps' a l where ps: "ps = ps' @ [(a, l)]" "blocks_ok ps'" "block_ok (a, l)"
      and before: "\<forall>b \<in> set ps'. unat (fst b) + unat (snd b) < unat a"
      and top: "top_of (last ps) = a + l" "unat (a + l) = unat a + unat l"
      using blocks_ok_last [OF g(1)] True by metis
    have blk: "block = a + l" using True top by simp
    note j = block_ok_join [OF ps(3) assms(3) [unfolded blk]]
    have "\<forall>c \<in> set ns. unat a + unat (l + n) \<le> unat (fst c)"
      using g(3) j(2) blk top by auto
    note jr = join_right_ok [OF j(1) g(2) this]
    have "\<forall>b \<in> set ps'. \<forall>c \<in> set (join_right (a, l + n) ns). unat (fst b) + unat (snd b) < unat (fst c)"
      using before jr(4) by fastforce
    then show ?thesis
      using True ps jr j by (auto simp: bs bs' blocks_ok_append region_append free_total_append blk)
  next
    case False
    note jr = join_right_ok [OF assms(3) g(2,3)]
    have "\<forall>b \<in> set ps. unat (fst b) + unat (snd b) < unat block"
      using strict_gap [OF g(1,4)] False by blast
    then have "\<forall>b \<in> set ps. \<forall>c \<in> set (join_right (block, n) ns). unat (fst b) + unat (snd b) < unat (fst c)"
      using jr(4) by fastforce
    then show ?thesis
      using False g(1) jr by (auto simp: bs bs' blocks_ok_append region_append free_total_append)
  qed
qed


section \<open>The block list is determined by the free bytes\<close>

lemma region_min:
  assumes "blocks_ok (b # bs)" and "x \<in> region (b # bs)"
  shows "unat (fst b) \<le> unat x"
  using assms by (fastforce simp: region_def bytes_def)

lemma first_block_le:
  assumes "blocks_ok ((a, l) # bs)" and "blocks_ok ((a, l') # cs)"
    and "region ((a, l) # bs) = region ((a, l') # cs)"
  shows "unat l' \<le> unat l"
proof (rule ccontr)
  assume "\<not> unat l' \<le> unat l"
  moreover have top: "unat (a + l) = unat a + unat l"
    using assms(1) unat_top_of [of "(a, l)"] by (simp add: top_of_def)
  ultimately have "a + l \<in> region ((a, l') # cs)" by (simp add: bytes_def)
  then have "a + l \<in> region ((a, l) # bs)" using assms(3) by simp
  then have "a + l \<in> region bs" by (auto simp: bytes_def top)
  then show False using assms(1) by (fastforce simp: region_def bytes_def top)
qed

lemma blocks_ok_region_unique:
  "blocks_ok bs \<Longrightarrow> blocks_ok cs \<Longrightarrow> region bs = region cs \<Longrightarrow> bs = cs"
proof (induction bs arbitrary: cs)
  case Nil
  then show ?case using block_ok_header(1) by (cases cs) fastforce+
next
  case (Cons b bs)
  obtain c cs' where cs: "cs = c # cs'"
    using Cons.prems block_ok_header(1) [of b] by (cases cs) auto
  obtain a l a' l' where bc: "b = (a, l)" "c = (a', l')" by (metis surj_pair)
  have "a \<in> region (c # cs')" "a' \<in> region (b # bs)"
    using Cons.prems block_ok_header(1) [of b] block_ok_header(1) [of c] by (auto simp: cs bc)
  then have "unat a' \<le> unat a" "unat a \<le> unat a'"
    using region_min [of c cs' a] region_min [of b bs a'] Cons.prems(1,2) by (simp_all add: cs bc)
  then have a: "a' = a" by (simp add: word_unat_eq_iff)
  have "unat l' \<le> unat l" "unat l \<le> unat l'"
    using first_block_le [of a l bs l' cs'] first_block_le [of a l' cs' l bs] Cons.prems
    by (simp_all add: cs bc a)
  then have l: "l' = l" by (simp add: word_unat_eq_iff)
  have "region bs = region cs'"
    using Cons.prems blocks_ok_disjoint [of b bs] blocks_ok_disjoint [of c cs'] by (auto simp: cs bc a l)
  then show ?case using Cons by (simp add: cs bc a l)
qed

lemma ff_alloc_then_free:
  assumes "ff_alloc n bs = Some (r, bs')" and "blocks_ok bs" and "req_ok n"
  shows "ff_free r n bs' = Some bs"
proof -
  note al = ff_alloc_Some [OF assms]
  have "ff_free r n bs' \<noteq> None"
    using ff_free_None_iff [OF al(1,2)] al(4) by auto
  then obtain bs'' where fr: "ff_free r n bs' = Some bs''" by auto
  note ff = ff_free_Some [OF fr al(1,2)]
  have "region bs'' = region bs" using ff al(3,4) by auto
  then show ?thesis using fr ff assms(2) blocks_ok_region_unique by blast
qed

section \<open>The pointer code implements ordered insertion\<close>

fun seg :: "mem \<Rightarrow> addr \<Rightarrow> block list \<Rightarrow> addr \<Rightarrow> bool" where
  "seg m p [] q \<longleftrightarrow> p = q"
| "seg m p ((a, l) # bs) q \<longleftrightarrow> p = a \<and> a \<noteq> NULL \<and> mlength m a = l \<and> seg m (mnext m a) bs q"

definition head_addr :: "block list \<Rightarrow> addr" where
  "head_addr bs = (case bs of [] \<Rightarrow> NULL | b # _ \<Rightarrow> fst b)"

lemma chain_seg: "chain m p (ps @ ns) \<longleftrightarrow> seg m p ps (head_addr ns) \<and> chain m (head_addr ns) ns"
  by (induction m p ps arbitrary: ns rule: chain.induct) (auto simp: head_addr_def split: list.splits)

lemma seg_append: "seg m p (xs @ ys) q \<longleftrightarrow> (\<exists>r. seg m p xs r \<and> seg m r ys q)"
  by (induction m p xs q rule: seg.induct) auto

lemma freemem_walk_correct:
  assumes "chain m next bs"
  shows "freemem_walk m block prev next =
    Some (last (prev # map fst (takeWhile (\<lambda>b. fst b < block) bs)), head_addr (dropWhile (\<lambda>b. fst b < block) bs))"
  using assms
proof (induction bs arbitrary: prev "next")
  case Nil
  then show ?case by (simp add: freemem_walk.simps head_addr_def)
next
  case (Cons b bs)
  then obtain a l where b: "b = (a, l)" "next = a" "a \<noteq> NULL" "chain m (mnext m a) bs" by (cases b) auto
  show ?case
    using Cons.IH [OF b(4), of a] b(3)
    by (subst freemem_walk.simps) (auto simp: b(1,2) head_addr_def)
qed

lemma last_addr_mem:
  assumes "blocks_ok ps"
  shows "last (h # map fst ps) \<in> insert h (region ps)"
proof (cases "ps = []")
  case False
  then have "fst (last ps) \<in> bytes (last ps)" "last ps \<in> set ps"
    using blocks_ok_member [OF assms] block_ok_header(1) by simp_all
  then show ?thesis using False by (auto simp: region_def last_map)
qed simp

lemma seg_last: "seg m (mnext m h) ps q \<Longrightarrow> m (last (h # map fst ps)) = q"
  by (induction ps arbitrary: h) (auto simp: mnext_def)

text \<open>Re-linking the last node of a segment, everything else of it untouched.\<close>

lemma seg_relink:
  assumes "seg m (mnext m h) ps q" and "blocks_ok ps" and "h \<notin> region ps"
    and "\<And>x. x \<in> insert h (region ps) \<Longrightarrow> x \<noteq> last (h # map fst ps) \<Longrightarrow> m' x = m x"
  shows "seg m' (mnext m' h) ps (mnext m' (last (h # map fst ps)))"
  using assms
proof (induction ps arbitrary: h)
  case (Cons b ps)
  obtain l where b: "b = (mnext m h, l)" "mlength m (mnext m h) = l" "mnext m h \<noteq> NULL"
    and sg: "seg m (mnext m (mnext m h)) ps q"
    using Cons.prems(1) by (cases b) auto
  let ?a = "mnext m h"
  have ok: "block_ok (?a, l)" "blocks_ok ps" and disj: "bytes (?a, l) \<inter> region ps = {}"
    using Cons.prems(2) blocks_ok_disjoint [of b ps] by (auto simp: b(1))
  have hdr: "?a \<in> bytes (?a, l)" "?a + 4 \<in> bytes (?a, l)" using block_ok_header [OF ok(1)] by simp_all
  have lst: "last (h # map fst (b # ps)) = last (?a # map fst ps)" by (simp add: b(1))
  have "last (?a # map fst ps) \<in> insert ?a (region ps)" by (rule last_addr_mem [OF ok(2)])
  moreover have "?a + 4 \<noteq> ?a" by simp
  ultimately have "h \<noteq> last (?a # map fst ps)" "?a + 4 \<noteq> last (?a # map fst ps)"
    using Cons.prems(3) hdr disj by (auto simp: b(1))
  then have "m' h = m h" "m' (?a + 4) = m (?a + 4)"
    using Cons.prems(4) hdr by (auto simp: lst b(1))
  moreover have "seg m' (mnext m' ?a) ps (mnext m' (last (?a # map fst ps)))"
    using hdr disj Cons.prems(4) by (intro Cons.IH [OF sg ok(2)]) (auto simp: lst b(1))
  ultimately show ?case
    using b(3) by (simp add: lst b(1) mnext_def mlength_def b(2) [unfolded mlength_def mnext_def])
qed simp


lemma chain_splice:
  assumes "seg m (mnext m lst) ps q" and "blocks_ok ps" and "lst \<notin> region ps"
    and "\<And>x. x \<in> insert lst (region ps) \<Longrightarrow> x \<noteq> last (lst # map fst ps) \<Longrightarrow> m' x = m x"
    and "m' (last (lst # map fst ps)) = a" and "a \<noteq> NULL" and "m' (a + 4) = n" and "chain m' (m' a) ns"
  shows "chain m' (mnext m' lst) (ps @ (a, n) # ns)"
proof -
  have "seg m' (mnext m' lst) ps a"
    using seg_relink [OF assms(1-4)] assms(5) by (simp add: mnext_def)
  then show ?thesis
    using assms(6-8) by (simp add: chain_seg [where ns = "(a, n) # ns"] head_addr_def mnext_def mlength_def)
qed

text \<open>
  Absorbing the next block when it is adjacent, the last step of the release: the node \<open>a\<close>
  of length \<open>l\<close> becomes the head of \<open>join_right (a, l) ns\<close>.
\<close>

definition absorb_next :: "addr \<Rightarrow> addr \<Rightarrow> mem \<Rightarrow> mem" where
  "absorb_next a next m =
    (if a + mlength m a = next then
       (let m = set_mlength a (mlength m a + mlength m next) m in set_mnext a (mnext m next) m)
     else m)"

lemma absorb_next_correct:
  assumes "block_ok (a, l)" and "blocks_ok ns" and "\<forall>c \<in> set ns. unat a + unat l \<le> unat (fst c)"
    and "m (a + 4) = l" and "m a = head_addr ns" and "chain m (head_addr ns) ns"
  defines "m' \<equiv> absorb_next a (head_addr ns) m"
  shows "\<exists>n ns'. join_right (a, l) ns = (a, n) # ns' \<and> m' (a + 4) = n \<and> chain m' (m' a) ns'"
    and "\<And>x. x \<noteq> a \<Longrightarrow> x \<noteq> a + 4 \<Longrightarrow> m' x = m x"
proof -
  have al: "unat (a + l) = unat a + unat l"
    using unat_top_of [OF assms(1)] by (simp add: top_of_def)
  show "\<exists>n ns'. join_right (a, l) ns = (a, n) # ns' \<and> m' (a + 4) = n \<and> chain m' (m' a) ns'"
  proof (cases ns)
    case Nil
    have "a + l \<noteq> NULL" using al assms(1) by (auto simp: NULL_def block_ok_def word_unat_eq_iff)
    then show ?thesis
      using assms(4-6) by (simp add: Nil m'_def absorb_next_def head_addr_def mlength_def)
  next
    case (Cons b ns')
    obtain c k where b: "b = (c, k)" by (cases b)
    have ok: "block_ok (c, k)" "blocks_ok ns'" "bytes (c, k) \<inter> region ns' = {}"
      using assms(2) blocks_ok_disjoint [of b ns'] by (auto simp: Cons b)
    have ck: "m (c + 4) = k" "chain m (m c) ns'" "head_addr ns = c"
      using assms(6) by (auto simp: Cons b head_addr_def mnext_def mlength_def)
    have lt: "unat a < unat c" using assms(1,3) by (auto simp: Cons b block_ok_def)
    have bnd: "\<forall>x \<in> region ns. unat a + unat l \<le> unat x"
      using assms(2,3) region_min [of b ns'] by (fastforce simp: Cons b)
    have out: "a \<notin> region ns" "a + 4 \<notin> region ns"
      using bnd block_ok_header [OF assms(1)] by (fastforce simp: bytes_def)+
    have cin: "c \<in> region ns" "c + 4 \<in> region ns"
      using block_ok_header [OF ok(1)] by (auto simp: Cons b)
    show ?thesis
    proof (cases "a + l = c")
      case True
      have m': "m' = m(a + 4 := l + k, a := m c)"
        using True ck(1) assms(4) out cin
        by (auto simp: m'_def ck(3) absorb_next_def Let_def set_mnext_def set_mlength_def mnext_def mlength_def)
      have "chain m' (m c) ns' = chain m (m c) ns'"
        using out by (intro chain_cong ok(2)) (auto simp: m' Cons)
      then show ?thesis using True ck(2) by (simp add: Cons b m')
    next
      case False
      then have "m' = m" by (simp add: m'_def ck(3) absorb_next_def mlength_def assms(4))
      then show ?thesis using False assms(4-6) by (simp add: Cons b)
    qed
  qed
  show "m' x = m x" if "x \<noteq> a" "x \<noteq> a + 4" for x
    using that by (simp add: m'_def absorb_next_def Let_def set_mnext_def set_mlength_def)
qed

lemma freemem_link_alt:
  "freemem_link lst block nbytes prev next m =
    (let top = (if prev = lst then NULL else prev + mlength m prev) in
     if (prev \<noteq> lst \<and> block < top) \<or> (next \<noteq> NULL \<and> next < block + nbytes) then (SYSERR, m)
     else
       let m = set_mlength lst (mlength m lst + nbytes) m in
       if top = block then (OK, absorb_next prev next (set_mlength prev (mlength m prev + nbytes) m))
       else (OK, absorb_next block next (set_mnext prev block (set_mlength block nbytes (set_mnext block next m)))))"
  by (simp add: freemem_link_def absorb_next_def Let_def)


lemma absorb_splice:
  assumes "seg m (mnext m lst) ps q" and "blocks_ok ps" and "lst \<notin> region ps"
    and "chain m (head_addr ns) ns" and "blocks_ok ns" and "block_ok (a, l)"
    and "\<forall>c \<in> set ns. unat a + unat l \<le> unat (fst c)"
    and "bytes (a, l) \<inter> insert lst (region ps) = {}"
    and "m1 (last (lst # map fst ps)) = a" and "m1 (a + 4) = l" and "m1 a = head_addr ns"
    and "\<And>x. x \<in> insert lst (region ps) \<Longrightarrow> x \<noteq> last (lst # map fst ps) \<Longrightarrow> m1 x = m x"
    and "\<And>x. x \<in> region ns \<Longrightarrow> m1 x = m x"
  defines "m' \<equiv> absorb_next a (head_addr ns) m1"
  shows "chain m' (mnext m' lst) (ps @ join_right (a, l) ns)"
proof -
  have ch: "chain m1 (head_addr ns) ns" using assms(4) chain_cong [OF assms(5), of m1 m] assms(13) by simp
  note ab = absorb_next_correct [OF assms(6,5,7,10,11) ch, folded m'_def]
  obtain n ns' where j: "join_right (a, l) ns = (a, n) # ns'" "m' (a + 4) = n" "chain m' (m' a) ns'"
    using ab(1) by blast
  have hdr: "a \<in> bytes (a, l)" "a + 4 \<in> bytes (a, l)" using block_ok_header [OF assms(6)] by simp_all
  have prev: "last (lst # map fst ps) \<in> insert lst (region ps)" by (rule last_addr_mem [OF assms(2)])
  have same: "m' x = m1 x" if "x \<in> insert lst (region ps)" for x
    using that hdr assms(8) by (intro ab(2)) auto
  have "chain m' (mnext m' lst) (ps @ (a, n) # ns')"
  proof (rule chain_splice [OF assms(1-3) _ _ _ j(2,3)])
    show "m' x = m x" if "x \<in> insert lst (region ps)" "x \<noteq> last (lst # map fst ps)" for x
      using that same assms(12) by simp
    show "m' (last (lst # map fst ps)) = a" using same [OF prev] assms(9) by simp
    show "a \<noteq> NULL" using block_ok_not_NULL [OF assms(6)] by simp
  qed
  then show ?thesis by (simp add: j(1))
qed

lemma absorb_next_frame: "x \<noteq> a \<Longrightarrow> x \<noteq> a + 4 \<Longrightarrow> absorb_next a next m x = m x"
  by (simp add: absorb_next_def Let_def set_mnext_def set_mlength_def)

lemma freemem_link_left:
  assumes "seg m (mnext m lst) (ps @ [(a, l)]) (head_addr ns)" and "chain m (head_addr ns) ns"
    and "blocks_ok (ps @ (a, l) # ns)" and "lst \<notin> region (ps @ (a, l) # ns)" and "lst + 4 \<notin> region (ps @ (a, l) # ns)"
    and "block_ok (a + l, n)" and "\<forall>c \<in> set ns. unat (a + l) + unat n \<le> unat (fst c)" and "lst \<notin> bytes (a + l, n)"
  defines "m' \<equiv> absorb_next a (head_addr ns) (m(lst + 4 := m (lst + 4) + n, a + 4 := l + n))"
  shows "freemem_link lst (a + l) n a (head_addr ns) m = (OK, m')"
    and "chain m' (mnext m' lst) (ps @ join_right (a, l + n) ns)"
    and "mlength m' lst = mlength m lst + n"
    and "\<And>x. x \<notin> {a, a + 4, lst + 4} \<Longrightarrow> m' x = m x"
proof -
  have ok: "blocks_ok ps" "block_ok (a, l)" "blocks_ok ns" "bytes (a, l) \<inter> region ns = {}"
    and before: "\<forall>b \<in> set ps. unat (fst b) + unat (snd b) < unat a"
    using assms(3) blocks_ok_disjoint [of "(a, l)" ns] by (auto simp: blocks_ok_append)
  have reg: "lst \<notin> region ps" "lst \<notin> bytes (a, l)" "lst + 4 \<notin> region ps" "lst + 4 \<notin> bytes (a, l)" "lst + 4 \<notin> region ns"
    using assms(4,5) by (auto simp: region_append)
  have top: "unat (a + l) = unat a + unat l" using unat_top_of [OF ok(2)] by (simp add: top_of_def)
  have al: "a \<in> bytes (a, l)" "a + 4 \<in> bytes (a, l)" using block_ok_header [OF ok(2)] by simp_all
  have an: "a \<noteq> lst" "a + 4 \<noteq> lst + 4" "a \<noteq> lst + 4" using al reg by auto
  have sg: "seg m (mnext m lst) ps a" "m (a + 4) = l" "m a = head_addr ns"
    using assms(1) by (auto simp: seg_append mnext_def mlength_def)
  note j = block_ok_join [OF ok(2) assms(6)]
  have gap: "\<forall>c \<in> set ns. unat a + unat (l + n) \<le> unat (fst c)" using assms(7) j(2) top by auto
  have disj: "bytes (a, l + n) \<inter> insert lst (region ps) = {}"
    using before reg(2) assms(8) j(3) by (fastforce simp: region_def bytes_def top)
  have "head_addr ns = NULL \<or> \<not> head_addr ns < a + l + n"
    using assms(7) unat_top_of [OF assms(6)]
    by (cases ns) (auto simp: head_addr_def word_less_nat_alt top_of_def)
  then show "freemem_link lst (a + l) n a (head_addr ns) m = (OK, m')"
    using an sg(2) by (auto simp: freemem_link_alt Let_def m'_def set_mlength_def mlength_def)
  have prev: "last (lst # map fst ps) \<in> insert lst (region ps)" by (rule last_addr_mem [OF ok(1)])
  have out: "a + 4 \<notin> insert lst (region ps)" "a + 4 \<notin> region ns"
    using al disj j(3) ok(4) by auto
  show "chain m' (mnext m' lst) (ps @ join_right (a, l + n) ns)"
    unfolding m'_def
  proof (rule absorb_splice [OF sg(1) ok(1) reg(1) assms(2) ok(3) j(1) gap disj])
    show "(m(lst + 4 := m (lst + 4) + n, a + 4 := l + n)) (last (lst # map fst ps)) = a"
      using seg_last [OF sg(1)] prev out reg(3) by auto
  qed (use out reg sg(3) an in auto)
  show "mlength m' lst = mlength m lst + n"
    using an by (simp add: m'_def mlength_def absorb_next_frame)
  show "m' x = m x" if "x \<notin> {a, a + 4, lst + 4}" for x
    using that by (simp add: m'_def absorb_next_frame)
qed

lemma freemem_link_new:
  assumes "seg m (mnext m lst) ps (head_addr ns)" and "chain m (head_addr ns) ns"
    and "blocks_ok (ps @ ns)" and "lst \<notin> region (ps @ ns)" and "lst + 4 \<notin> region (ps @ ns)"
    and "block_ok (block, n)" and "\<forall>c \<in> set ns. unat block + unat n \<le> unat (fst c)"
    and "\<forall>b \<in> set ps. unat (fst b) + unat (snd b) < unat block"
    and "lst \<notin> bytes (block, n)" and "lst + 4 \<notin> bytes (block, n)"
  defines "prev \<equiv> last (lst # map fst ps)"
  defines "m' \<equiv> absorb_next block (head_addr ns)
    (m(lst + 4 := m (lst + 4) + n, block := head_addr ns, block + 4 := n, prev := block))"
  shows "freemem_link lst block n prev (head_addr ns) m = (OK, m')"
    and "chain m' (mnext m' lst) (ps @ join_right (block, n) ns)"
    and "mlength m' lst = mlength m lst + n"
    and "\<And>x. x \<notin> {block, block + 4, prev, lst + 4} \<Longrightarrow> m' x = m x"
proof -
  have ok: "blocks_ok ps" "blocks_ok ns" using assms(3) by (auto simp: blocks_ok_append)
  have reg: "lst \<notin> region ps" "lst + 4 \<notin> region ps" "lst + 4 \<notin> region ns" "lst \<notin> region ns"
    using assms(4,5) by (auto simp: region_append)
  have hdr: "block \<in> bytes (block, n)" "block + 4 \<in> bytes (block, n)"
    using block_ok_header [OF assms(6)] by simp_all
  have prev: "prev \<in> insert lst (region ps)" unfolding prev_def by (rule last_addr_mem [OF ok(1)])
  have disj: "bytes (block, n) \<inter> insert lst (region ps) = {}" "bytes (block, n) \<inter> region ns = {}"
    using assms(7,8,9) by (fastforce simp: region_def bytes_def)+
  have dns: "region ps \<inter> region ns = {}"
    using assms(3) by (fastforce simp: blocks_ok_append region_def bytes_def)
  have neq: "block \<noteq> lst + 4" "block + 4 \<noteq> lst + 4" "prev \<noteq> block" "prev \<noteq> block + 4" "prev \<noteq> lst + 4"
    using hdr disj prev reg(2) assms(10) by auto
  have "head_addr ns = NULL \<or> \<not> head_addr ns < block + n"
    using assms(7) unat_top_of [OF assms(6)]
    by (cases ns) (auto simp: head_addr_def word_less_nat_alt top_of_def)
  moreover have "prev = lst \<or> \<not> block < prev + m (prev + 4) \<and> prev + m (prev + 4) \<noteq> block"
  proof (cases "ps = []")
    case False
    then obtain ps' a l where ps: "ps = ps' @ [(a, l)]" by (auto elim: snoc_pairE)
    then have "m (a + 4) = l" using assms(1) by (auto simp: seg_append mlength_def)
    moreover have "unat (a + l) < unat block"
      using assms(8) ok(1) unat_top_of [of "(a, l)"] by (auto simp: ps blocks_ok_append top_of_def)
    ultimately show ?thesis by (auto simp: ps prev_def word_less_nat_alt)
  qed (simp add: prev_def)
  ultimately show "freemem_link lst block n prev (head_addr ns) m = (OK, m')"
    using neq block_ok_not_NULL [OF assms(6)]
    by (auto simp: freemem_link_alt Let_def m'_def set_mlength_def set_mnext_def mlength_def)
  show "chain m' (mnext m' lst) (ps @ join_right (block, n) ns)"
    unfolding m'_def
  proof (rule absorb_splice [OF assms(1) ok(1) reg(1) assms(2) ok(2) assms(6,7) disj(1)])
    let ?m1 = "m(lst + 4 := m (lst + 4) + n, block := head_addr ns, block + 4 := n, prev := block)"
    show "?m1 x = m x" if "x \<in> insert lst (region ps)" "x \<noteq> last (lst # map fst ps)" for x
      using that disj hdr reg by (auto simp: prev_def)
    show "?m1 x = m x" if "x \<in> region ns" for x
      using that disj hdr reg prev dns by auto
  qed (use neq in \<open>auto simp: prev_def\<close>)
  show "mlength m' lst = mlength m lst + n"
    using neq by (simp add: m'_def mlength_def absorb_next_frame)
  show "m' x = m x" if "x \<notin> {block, block + 4, prev, lst + 4}" for x
    using that by (simp add: m'_def absorb_next_frame)
qed


lemma freemem_link_refuse:
  "(prev \<noteq> lst \<and> block < prev + mlength m prev) \<or> (next \<noteq> NULL \<and> next < block + n) \<Longrightarrow>
    freemem_link lst block n prev next m = (SYSERR, m)"
  by (auto simp: freemem_link_def Let_def)

lemma freemem_link_chain:
  assumes "freelist m lst bs" and "block_ok (block, n)" and "lst \<notin> bytes (block, n)" and "lst + 4 \<notin> bytes (block, n)"
    and "ff_free block n bs = Some bs'"
  defines "ps \<equiv> takeWhile (\<lambda>b. fst b < block) bs" and "ns \<equiv> dropWhile (\<lambda>b. fst b < block) bs"
  shows "\<exists>m'. freemem_link lst block n (last (lst # map fst ps)) (head_addr ns) m = (OK, m') \<and>
    chain m' (mnext m' lst) bs' \<and> mlength m' lst = mlength m lst + n \<and>
    (\<forall>x. x \<notin> region bs \<union> bytes (block, n) \<union> {lst, lst + 4} \<longrightarrow> m' x = m x)"
proof -
  have fl: "chain m (mnext m lst) bs" "blocks_ok bs" "lst \<notin> region bs" "lst + 4 \<notin> region bs"
    using assms(1) by (auto simp: freelist_def)
  note g = ff_free_gaps [OF assms(5) fl(2) assms(2), folded ps_def ns_def]
  have bs: "bs = ps @ ns" by (simp add: ps_def ns_def)
  have sg: "seg m (mnext m lst) ps (head_addr ns)" "chain m (head_addr ns) ns"
    using fl(1) by (simp_all add: bs chain_seg)
  have bs': "bs' = (if ps \<noteq> [] \<and> top_of (last ps) = block
      then butlast ps @ join_right (fst (last ps), snd (last ps) + n) ns else ps @ join_right (block, n) ns)"
    using assms(5) by (auto simp: ff_free_def Let_def ps_def ns_def split: if_splits)
  show ?thesis
  proof (cases "ps \<noteq> [] \<and> top_of (last ps) = block")
    case True
    then obtain ps' a l where ps: "ps = ps' @ [(a, l)]" by (auto elim: snoc_pairE)
    have blk: "block = a + l" using True by (simp add: ps top_of_def)
    have "block_ok (a, l)" using fl(2) by (simp add: bs ps blocks_ok_append)
    then have in_bs: "a \<in> region bs" "a + 4 \<in> region bs"
      using block_ok_header [of "(a, l)"] by (auto simp: bs ps region_append)
    have bs2: "bs = ps' @ (a, l) # ns" by (simp add: bs ps)
    define m' where "m' = absorb_next a (head_addr ns) (m(lst + 4 := m (lst + 4) + n, a + 4 := l + n))"
    note ln = freemem_link_left [OF sg(1) [unfolded ps] sg(2) fl(2-4) [unfolded bs2]
      assms(2) [unfolded blk] g(3) [unfolded blk] assms(3) [unfolded blk], folded m'_def]
    have "m' x = m x" if "x \<notin> region bs \<union> bytes (block, n) \<union> {lst, lst + 4}" for x
      using that in_bs by (intro ln(4)) auto
    moreover have "bs' = ps' @ join_right (a, l + n) ns" using True by (simp add: bs' ps)
    moreover have "last (lst # map fst ps) = a" by (simp add: ps)
    ultimately show ?thesis using ln(1-3) by (intro exI [of _ m']) (simp add: blk)
  next
    case False
    have "\<forall>b \<in> set ps. unat (fst b) + unat (snd b) < unat block"
      using strict_gap [OF g(1,4)] False by blast
    define m' where "m' = absorb_next block (head_addr ns)
      (m(lst + 4 := m (lst + 4) + n, block := head_addr ns, block + 4 := n, last (lst # map fst ps) := block))"
    note ln = freemem_link_new [OF sg fl(2-4) [unfolded bs] assms(2) g(3)
      \<open>\<forall>b \<in> set ps. unat (fst b) + unat (snd b) < unat block\<close> assms(3,4), folded m'_def]
    have "last (lst # map fst ps) \<in> insert lst (region bs)"
      using last_addr_mem [OF g(1), of lst] unfolding bs region_append by blast
    then have "m' x = m x" if "x \<notin> region bs \<union> bytes (block, n) \<union> {lst, lst + 4}" for x
      using that block_ok_header [OF assms(2)] by (intro ln(4)) auto
    moreover have "bs' = ps @ join_right (block, n) ns" using False by (auto simp: bs')
    ultimately show ?thesis using ln(1-3) by (intro exI [of _ m']) blast
  qed
qed

text \<open>
  The contract of \<open>_freemem\<close>: it returns, it refuses the block with memory unchanged when
  \<open>ff_free\<close> does, and otherwise it leaves the list \<open>ff_free\<close> computes.
\<close>

lemma freemem_list_correct:
  assumes "freelist m lst bs" and "block_ok (block, n)" and "lst \<notin> bytes (block, n)" and "lst + 4 \<notin> bytes (block, n)"
    and "minstruct \<le> block" and "block \<le> maxstruct"
  shows "\<exists>m'. freemem_list lst block n minstruct maxstruct m =
      Ret (case ff_free block n bs of None \<Rightarrow> SYSERR | Some _ \<Rightarrow> OK, m') \<and>
    (case ff_free block n bs of None \<Rightarrow> m' = m
     | Some bs' \<Rightarrow> freelist m' lst bs' \<and> mlength m' lst = mlength m lst + n \<and>
         (\<forall>x. x \<notin> region bs \<union> bytes (block, n) \<union> {lst, lst + 4} \<longrightarrow> m' x = m x))"
proof -
  have fl: "chain m (mnext m lst) bs" "blocks_ok bs" "lst \<notin> region bs" "lst + 4 \<notin> region bs"
    using assms(1) by (auto simp: freelist_def)
  define ps where "ps = takeWhile (\<lambda>b. fst b < block) bs"
  define ns where "ns = dropWhile (\<lambda>b. fst b < block) bs"
  have bs: "bs = ps @ ns" by (simp add: ps_def ns_def)
  have "n \<noteq> 0" "roundmb n = n"
    using assms(2) roundmb_idem [of n] by (auto simp: block_ok_def req_ok_def)
  moreover have "\<not> block < minstruct" "\<not> maxstruct < block" using assms(5,6) by (simp_all add: not_less)
  ultimately have run: "freemem_list lst block n minstruct maxstruct m =
      Ret (freemem_link lst block n (last (lst # map fst ps)) (head_addr ns) m)"
    using freemem_walk_correct [OF fl(1), of block lst]
    by (simp add: freemem_list_def ps_def ns_def)
  have sg: "seg m (mnext m lst) ps (head_addr ns)" "chain m (head_addr ns) ns"
    using fl(1) unfolding bs chain_seg by simp_all
  show ?thesis
  proof (cases "ff_free block n bs")
    case None
    then have "(ps \<noteq> [] \<and> block < top_of (last ps)) \<or> (ns \<noteq> [] \<and> fst (hd ns) < block + n)"
      by (auto simp: ff_free_def Let_def ps_def ns_def split: if_splits)
    moreover have "last (lst # map fst ps) \<noteq> lst \<and> last (lst # map fst ps) + mlength m (last (lst # map fst ps)) = top_of (last ps)"
      if ne: "ps \<noteq> []"
    proof -
      obtain ps' a l where ps: "ps = ps' @ [(a, l)]" using ne by (rule snoc_pairE)
      then have "mlength m a = l" "a \<noteq> lst"
        using sg(1) fl block_ok_header(1) [of "(a, l)"]
        by (auto simp: seg_append bs blocks_ok_append region_append)
      then show ?thesis by (simp add: ps top_of_def)
    qed
    moreover have "head_addr ns = fst (hd ns) \<and> head_addr ns \<noteq> NULL" if "ns \<noteq> []"
      using that sg(2) by (cases ns) (auto simp: head_addr_def)
    ultimately have "freemem_link lst block n (last (lst # map fst ps)) (head_addr ns) m = (SYSERR, m)"
      by (intro freemem_link_refuse) (metis (no_types, lifting))
    then show ?thesis using run None by simp
  next
    case (Some bs')
    note out = ff_free_Some [OF Some fl(2) assms(2)]
    obtain m' where m': "freemem_link lst block n (last (lst # map fst ps)) (head_addr ns) m = (OK, m')"
        "chain m' (mnext m' lst) bs'" "mlength m' lst = mlength m lst + n"
        "\<forall>x. x \<notin> region bs \<union> bytes (block, n) \<union> {lst, lst + 4} \<longrightarrow> m' x = m x"
      using freemem_link_chain [OF assms(1-4) Some, folded ps_def ns_def] by blast
    have "freelist m' lst bs'" using m'(2) out fl(3,4) assms(3,4) by (simp add: freelist_def)
    then show ?thesis using run Some m' by simp
  qed
qed


section \<open>Stack allocation: the last block that fits\<close>

text \<open>The last block of at least \<open>n\<close> bytes: what precedes it, the block, what follows.\<close>

fun last_fit :: "u32 \<Rightarrow> block list \<Rightarrow> (block list \<times> block \<times> block list) option" where
  "last_fit n [] = None"
| "last_fit n (b # bs) =
    (case last_fit n bs of
       Some (xs, c, ys) \<Rightarrow> Some (b # xs, c, ys)
     | None \<Rightarrow> if n \<le> snd b then Some ([], b, bs) else None)"

definition lf_alloc :: "u32 \<Rightarrow> block list \<Rightarrow> (addr \<times> block list) option" where
  "lf_alloc n bs = map_option
    (\<lambda>(xs, (a, l), ys). if n = l then (a, xs @ ys) else (a + (l - n), xs @ (a, l - n) # ys)) (last_fit n bs)"

lemma last_fit_None: "last_fit n bs = None \<longleftrightarrow> (\<forall>b \<in> set bs. snd b < n)"
  by (induction n bs rule: last_fit.induct) (auto split: option.splits if_splits)

lemma last_fit_Some:
  "last_fit n bs = Some (xs, c, ys) \<Longrightarrow> bs = xs @ c # ys \<and> n \<le> snd c \<and> (\<forall>b \<in> set ys. snd b < n)"
  by (induction n bs arbitrary: xs rule: last_fit.induct)
    (auto split: option.splits if_splits simp: last_fit_None)

lemma lf_alloc_Some:
  assumes "lf_alloc n bs = Some (r, bs')" and "blocks_ok bs" and "req_ok n"
  shows "blocks_ok bs'" and "block_ok (r, n)" and "bytes (r, n) \<subseteq> region bs"
    and "region bs' = region bs - bytes (r, n)"
proof -
  obtain xs a l ys where lf: "last_fit n bs = Some (xs, (a, l), ys)"
    using assms(1) by (auto simp: lf_alloc_def)
  have bs: "bs = xs @ (a, l) # ys" and le: "unat n \<le> unat l"
    using last_fit_Some [OF lf] by (auto simp: word_le_nat_alt)
  have ok: "block_ok (a, l)" "blocks_ok xs" "blocks_ok ys"
    and gaps: "\<forall>b \<in> set xs. unat (fst b) + unat (snd b) < unat a" "\<forall>c \<in> set ys. unat a + unat l < unat (fst c)"
      "\<forall>b \<in> set xs. \<forall>c \<in> set ys. unat (fst b) + unat (snd b) < unat (fst c)"
    using assms(2) by (auto simp: bs blocks_ok_append)
  have disj: "bytes (a, l) \<inter> region xs = {}" "bytes (a, l) \<inter> region ys = {}"
    using gaps by (fastforce simp: region_def bytes_def)+
  have "blocks_ok bs' \<and> block_ok (r, n) \<and> bytes (r, n) \<subseteq> region bs \<and> region bs' = region bs - bytes (r, n)"
  proof (cases "n = l")
    case True
    then show ?thesis
      using assms(1) lf ok gaps disj by (auto simp: lf_alloc_def bs blocks_ok_append region_append)
  next
    case False
    then have lt: "unat n < unat l" using le by (auto simp: word_unat_eq_iff)
    have sub: "unat (l - n) = unat l - unat n" using lt by (simp add: unat_minus_le)
    have add: "unat (a + (l - n)) = unat a + (unat l - unat n)"
      using ok(1) lt sub by (subst unat_plus_no_wrap) (auto simp: block_ok_def)
    have r: "r = a + (l - n)" "bs' = xs @ (a, l - n) # ys"
      using assms(1) lf False by (auto simp: lf_alloc_def)
    have okb: "block_ok (a, l - n)" "block_ok (r, n)"
      using ok(1) assms(3) lt by (auto simp: block_ok_def req_ok_def r sub add)
    have split: "bytes (r, n) \<subseteq> bytes (a, l)" "bytes (a, l - n) = bytes (a, l) - bytes (r, n)"
      using lt by (auto simp: bytes_def r sub add)
    have "\<forall>c \<in> set ys. unat a + unat (l - n) < unat (fst c)" using gaps(2) sub by fastforce
    then show ?thesis
      using ok gaps okb split disj by (auto simp: r(2) bs blocks_ok_append region_append)
  qed
  then show "blocks_ok bs'" "block_ok (r, n)" "bytes (r, n) \<subseteq> region bs" "region bs' = region bs - bytes (r, n)"
    by simp_all
qed

lemma getstk_scan_correct:
  assumes "chain m cur bs"
  shows "getstk_scan m n prev cur fits fitsprev =
    Some (case last_fit n bs of None \<Rightarrow> (fits, fitsprev)
      | Some (xs, c, ys) \<Rightarrow> (fst c, last (prev # map fst xs)))"
  using assms
proof (induction bs arbitrary: prev cur fits fitsprev)
  case Nil
  then show ?case by (simp add: getstk_scan.simps)
next
  case (Cons b bs)
  then obtain a l where b: "b = (a, l)" "cur = a" "a \<noteq> NULL" "mlength m a = l" "chain m (mnext m a) bs"
    by (cases b) auto
  then show ?case
    using Cons.IH [OF b(5)] by (subst getstk_scan.simps) (auto split: option.splits)
qed

lemma chain_join: "seg m p xs q \<Longrightarrow> chain m q ys \<Longrightarrow> chain m p (xs @ ys)"
  by (induction m p xs q rule: seg.induct) auto

lemma getstk_exact:
  assumes "freelist m lst (xs @ (a, l) # ys)"
  defines "m' \<equiv> m(last (lst # map fst xs) := m a, lst + 4 := m (lst + 4) - l)"
  shows "chain m' (mnext m' lst) (xs @ ys)"
proof -
  have fl: "seg m (mnext m lst) xs a" "chain m (mnext m a) ys" "blocks_ok xs" "blocks_ok ys" "lst \<notin> region xs"
    "lst + 4 \<notin> region xs" "lst + 4 \<notin> region ys" "lst \<notin> region ys" "region xs \<inter> region ys = {}"
    using assms(1) unfolding freelist_def chain_seg
    by (fastforce simp: head_addr_def blocks_ok_append region_append region_def bytes_def)+
  have p: "last (lst # map fst xs) \<in> insert lst (region xs)" by (rule last_addr_mem [OF fl(3)])
  have "seg m' (mnext m' lst) xs (mnext m' (last (lst # map fst xs)))"
    using fl(6) by (intro seg_relink [OF fl(1,3,5)]) (auto simp: m'_def)
  moreover have "mnext m' (last (lst # map fst xs)) = mnext m a"
    using p fl(6) by (auto simp: m'_def mnext_def)
  moreover have "chain m' (mnext m a) ys"
    using fl p by (subst chain_cong [of ys m' m]) (auto simp: m'_def)
  ultimately show ?thesis by (auto intro: chain_join)
qed

lemma getstk_split:
  fixes n :: u32
  assumes "freelist m lst (xs @ (a, l) # ys)"
  defines "m' \<equiv> m(a + 4 := l - n, lst + 4 := m (lst + 4) - n)"
  shows "chain m' (mnext m' lst) (xs @ (a, l - n) # ys)"
proof -
  have fl: "seg m (mnext m lst) xs a" "chain m (m a) ys" "blocks_ok xs" "block_ok (a, l)" "blocks_ok ys"
    "lst \<notin> region xs" "lst + 4 \<notin> region xs" "lst + 4 \<notin> region ys" "lst \<notin> bytes (a, l)" "lst + 4 \<notin> bytes (a, l)"
    "bytes (a, l) \<inter> region xs = {}" "bytes (a, l) \<inter> region ys = {}"
    using assms(1) unfolding freelist_def chain_seg
    by (fastforce simp: head_addr_def mnext_def blocks_ok_append region_append region_def bytes_def)+
  have hdr: "a \<in> bytes (a, l)" "a + 4 \<in> bytes (a, l)" using block_ok_header [OF fl(4)] by simp_all
  have p: "last (lst # map fst xs) \<in> insert lst (region xs)" by (rule last_addr_mem [OF fl(3)])
  show ?thesis
  proof (rule chain_splice [OF fl(1,3,6)])
    show "m' x = m x" if "x \<in> insert lst (region xs)" for x
      using that hdr fl by (auto simp: m'_def)
    then show "m' (last (lst # map fst xs)) = a" using seg_last [OF fl(1)] p by simp
    show "a \<noteq> NULL" using block_ok_not_NULL [OF fl(4)] by simp
    show "m' (a + 4) = l - n" using hdr fl(10) by (auto simp: m'_def)
    have "m' a = m a" using hdr fl(10) by (auto simp: m'_def)
    moreover have "chain m' (m a) ys = chain m (m a) ys"
      using hdr fl by (intro chain_cong) (auto simp: m'_def)
    ultimately show "chain m' (m' a) ys" using fl(2) by simp
  qed
qed

lemma getstk_correct:
  assumes "freelist m lst bs" and "n \<noteq> 0" and "unat n \<le> 2 ^ 32 - 8"
  shows "\<exists>m'. getstk lst n m =
      Ret (case lf_alloc (roundmb n) bs of None \<Rightarrow> USYSERR | Some (r, _) \<Rightarrow> r + roundmb n - 4, m') \<and>
    (case lf_alloc (roundmb n) bs of None \<Rightarrow> m' = m
     | Some (r, bs') \<Rightarrow> freelist m' lst bs' \<and> mlength m' lst = mlength m lst - roundmb n \<and>
         (\<forall>x. x \<notin> region bs \<union> {lst, lst + 4} \<longrightarrow> m' x = m x))"
proof (cases "last_fit (roundmb n) bs")
  case None
  then show ?thesis
    using assms getstk_scan_correct [of m "mnext m lst" bs "roundmb n" lst NULL NULL]
    by (auto simp: getstk_def freelist_def lf_alloc_def)
next
  case (Some t)
  let ?n = "roundmb n"
  have ok: "req_ok ?n" using assms(2,3) by (rule roundmb_req_ok)
  have fl: "chain m (mnext m lst) bs" "blocks_ok bs" "lst \<notin> region bs" "lst + 4 \<notin> region bs"
    using assms(1) by (auto simp: freelist_def)
  obtain xs a l ys where t: "t = (xs, (a, l), ys)" by (metis prod.collapse)
  note lf = Some [unfolded t]
  have bs: "bs = xs @ (a, l) # ys" and le: "?n \<le> l" using last_fit_Some [OF lf] by auto
  let ?p = "last (lst # map fst xs)"
  have okb: "blocks_ok xs" "block_ok (a, l)" using fl(2) by (auto simp: bs blocks_ok_append)
  have hdr: "a \<in> region bs" "a + 4 \<in> region bs" "?p \<in> insert lst (region bs)"
    using block_ok_header [OF okb(2)] last_addr_mem [OF okb(1), of lst] unfolding bs region_append by auto
  have sg: "mlength m a = l" "a \<noteq> NULL" using fl(1) unfolding bs chain_seg by (auto simp: head_addr_def)
  have scan: "getstk_scan m ?n lst (mnext m lst) NULL NULL = Some (a, ?p)"
    using getstk_scan_correct [OF fl(1), of ?n lst] lf by simp
  define m' where "m' = (if ?n = l then m(?p := m a, lst + 4 := m (lst + 4) - l)
    else m(a + 4 := l - ?n, lst + 4 := m (lst + 4) - ?n))"
  obtain r bs' where al: "lf_alloc ?n bs = Some (r, bs')" using lf by (cases "?n = l") (auto simp: lf_alloc_def)
  note out = lf_alloc_Some [OF al fl(2) ok]
  have ne: "?p \<noteq> lst + 4" "a + 4 \<noteq> lst + 4" using hdr fl(4) by auto
  have run: "getstk lst n m = Ret (r + ?n - 4, m')"
    using assms(2) scan sg lf al ne
    by (auto simp: getstk_def lf_alloc_def Let_def m'_def set_mnext_def set_mlength_def mnext_def mlength_def split: if_splits)
  have "chain m' (mnext m' lst) bs'"
    using getstk_exact [OF assms(1) [unfolded bs]] getstk_split [OF assms(1) [unfolded bs], of ?n] lf al
    by (auto simp: lf_alloc_def m'_def split: if_splits)
  moreover have "m' x = m x" if "x \<notin> region bs \<union> {lst, lst + 4}" for x
    using that hdr by (auto simp: m'_def)
  moreover have "mlength m' lst = mlength m lst - ?n" by (simp add: m'_def mlength_def)
  ultimately show ?thesis
    using run al out fl(3,4) by (simp add: freelist_def)
qed


section \<open>The interface of a storage pool\<close>

text \<open>
  What the clients of the allocator rely on: a pool of bytes, the free blocks of it as a
  function of the memory, a request that either takes a free block away or fails because no
  block is large enough, and a release that succeeds exactly when no byte of the block is free.
\<close>

locale storage_pool =
  fixes alloc :: "u32 \<Rightarrow> mem \<Rightarrow> (addr \<times> mem) result"
    and release :: "addr \<Rightarrow> u32 \<Rightarrow> mem \<Rightarrow> (int \<times> mem) result"
    and invar :: "mem \<Rightarrow> block list \<Rightarrow> bool"
    and pool :: "addr set"
  assumes alloc_law: "invar m bs \<Longrightarrow> req_ok n \<Longrightarrow>
      (alloc n m = Ret (USYSERR, m) \<and> (\<forall>b \<in> set bs. unat (snd b) < unat n)) \<or>
      (\<exists>r m' bs'. alloc n m = Ret (r, m') \<and> invar m' bs' \<and> block_ok (r, n) \<and>
        bytes (r, n) \<subseteq> region bs \<and> region bs' = region bs - bytes (r, n))"
    and release_law: "invar m bs \<Longrightarrow> block_ok (b, n) \<Longrightarrow> bytes (b, n) \<subseteq> pool \<Longrightarrow>
      bytes (b, n) \<inter> region bs = {} \<Longrightarrow>
      \<exists>m' bs'. release b n m = Ret (OK, m') \<and> invar m' bs' \<and> region bs' = region bs \<union> bytes (b, n)"
    and refuse_law: "invar m bs \<Longrightarrow> block_ok (b, n) \<Longrightarrow> bytes (b, n) \<subseteq> pool \<Longrightarrow>
      bytes (b, n) \<inter> region bs \<noteq> {} \<Longrightarrow> release b n m = Ret (SYSERR, m)"
    and canonical: "invar m bs \<Longrightarrow> invar m' bs' \<Longrightarrow> region bs = region bs' \<Longrightarrow> bs = bs'"
    and in_pool: "invar m bs \<Longrightarrow> region bs \<subseteq> pool"
begin

lemma alloc_returns: "invar m bs \<Longrightarrow> req_ok n \<Longrightarrow> \<exists>r m' bs'. alloc n m = Ret (r, m') \<and> invar m' bs'"
  using alloc_law [of m bs n] by blast

lemma block_ok_not_USYSERR: "block_ok (r, n) \<Longrightarrow> r \<noteq> USYSERR"
proof
  assume "block_ok (r, n)" "r = USYSERR"
  then have "8 dvd unat USYSERR" by (simp add: block_ok_def)
  then show False by (simp add: unat_USYSERR)
qed

lemma alloc_ok:
  assumes "invar m bs" and "req_ok n" and "alloc n m = Ret (r, m')" and "r \<noteq> USYSERR"
  obtains bs' where "invar m' bs'" "block_ok (r, n)" "bytes (r, n) \<subseteq> region bs" "region bs' = region bs - bytes (r, n)"
  using alloc_law [OF assms(1,2)] assms(3,4) by auto

lemma two_allocs_disjoint:
  assumes "invar m bs" and "req_ok n1" and "req_ok n2"
    and "alloc n1 m = Ret (r1, m1)" and "r1 \<noteq> USYSERR" and "alloc n2 m1 = Ret (r2, m2)" and "r2 \<noteq> USYSERR"
  shows "bytes (r1, n1) \<inter> bytes (r2, n2) = {}"
proof -
  obtain bs1 where a: "invar m1 bs1" "region bs1 = region bs - bytes (r1, n1)"
    by (rule alloc_ok [OF assms(1,2,4,5)])
  have "bytes (r2, n2) \<subseteq> region bs1"
    by (rule alloc_ok [OF a(1) assms(3,6,7)])
  then show ?thesis using a(2) by auto
qed

lemma alloc_then_release:
  assumes "invar m bs" and "req_ok n" and "alloc n m = Ret (r, m1)" and "r \<noteq> USYSERR"
  shows "\<exists>m2. release r n m1 = Ret (OK, m2) \<and> invar m2 bs"
proof -
  obtain bs1 where a: "invar m1 bs1" "block_ok (r, n)" "bytes (r, n) \<subseteq> region bs" "region bs1 = region bs - bytes (r, n)"
    by (rule alloc_ok [OF assms])
  have "bytes (r, n) \<subseteq> pool" using a(3) in_pool [OF assms(1)] by auto
  then obtain m2 bs2 where b: "release r n m1 = Ret (OK, m2)" "invar m2 bs2" "region bs2 = region bs1 \<union> bytes (r, n)"
    using release_law [OF a(1,2)] a(4) by blast
  then have "region bs = region bs2" using a(3,4) by auto
  then show ?thesis using canonical [OF assms(1) b(2)] b by blast
qed

lemma double_release_refused:
  assumes "invar m bs" and "block_ok (b, n)" and "bytes (b, n) \<subseteq> pool" and "release b n m = Ret (OK, m1)"
  shows "release b n m1 = Ret (SYSERR, m1)"
proof -
  have "bytes (b, n) \<inter> region bs = {}"
    using refuse_law [OF assms(1-3)] assms(4) by (auto simp: OK_def SYSERR_def)
  then obtain m' bs' where "release b n m = Ret (OK, m')" "invar m' bs'" "region bs' = region bs \<union> bytes (b, n)"
    using release_law [OF assms(1-3)] by blast
  moreover have "b \<in> bytes (b, n)" using block_ok_header(1) [OF assms(2)] by simp
  ultimately show ?thesis using refuse_law [of m1 bs' b n] assms(2-4) by auto
qed

end

text \<open>The invariant of a free list whose blocks lie in \<open>[lo, hi]\<close>, with its head outside.\<close>

definition pool_inv :: "addr \<Rightarrow> addr \<Rightarrow> addr \<Rightarrow> mem \<Rightarrow> block list \<Rightarrow> bool" where
  "pool_inv lst lo hi m bs \<longleftrightarrow> freelist m lst bs \<and> region bs \<subseteq> {lo..hi} \<and> lst \<notin> {lo..hi} \<and> lst + 4 \<notin> {lo..hi}"

lemma req_ok_bound: "req_ok n \<Longrightarrow> n \<noteq> 0 \<and> unat n \<le> 2 ^ 32 - 8"
proof -
  assume ok: "req_ok n"
  then obtain k where k: "unat n = 8 * k" "0 < k" by (auto simp: req_ok_def elim!: dvdE)
  moreover have "8 * k < 2 ^ 32" using unat_u32_less [of n] k by simp
  ultimately show ?thesis by auto
qed

lemma block_ok_in_pool:
  "block_ok (b, n) \<Longrightarrow> bytes (b, n) \<subseteq> {lo..hi} \<Longrightarrow> lo \<le> b \<and> b \<le> hi"
  using block_ok_header(1) [of "(b, n)"] by auto

lemma pool_release:
  assumes "pool_inv lst lo hi m bs" and "block_ok (b, n)" and "bytes (b, n) \<subseteq> {lo..hi}"
  shows "bytes (b, n) \<inter> region bs = {} \<Longrightarrow>
      \<exists>m' bs'. freemem_list lst b n lo hi m = Ret (OK, m') \<and> pool_inv lst lo hi m' bs' \<and> region bs' = region bs \<union> bytes (b, n)"
    and "bytes (b, n) \<inter> region bs \<noteq> {} \<Longrightarrow> freemem_list lst b n lo hi m = Ret (SYSERR, m)"
proof -
  have fl: "freelist m lst bs" "lst \<notin> bytes (b, n)" "lst + 4 \<notin> bytes (b, n)" "blocks_ok bs"
    using assms by (auto simp: pool_inv_def freelist_def)
  have bnd: "lo \<le> b" "b \<le> hi" using block_ok_in_pool [OF assms(2,3)] by simp_all
  note fc = freemem_list_correct [OF fl(1) assms(2) fl(2,3) bnd]
  show "\<exists>m' bs'. freemem_list lst b n lo hi m = Ret (OK, m') \<and> pool_inv lst lo hi m' bs' \<and> region bs' = region bs \<union> bytes (b, n)"
    if dj: "bytes (b, n) \<inter> region bs = {}"
  proof -
    obtain bs' where bs': "ff_free b n bs = Some bs'"
      using dj ff_free_None_iff [OF fl(4) assms(2)] by auto
    then obtain m' where m': "freemem_list lst b n lo hi m = Ret (OK, m')" "freelist m' lst bs'"
      using fc by auto
    have reg: "region bs' = region bs \<union> bytes (b, n)" using ff_free_Some [OF bs' fl(4) assms(2)] by simp
    then have "pool_inv lst lo hi m' bs'"
      using m'(2) assms(1,3) unfolding pool_inv_def by blast
    then show ?thesis using m'(1) reg by blast
  qed
  show "freemem_list lst b n lo hi m = Ret (SYSERR, m)" if "bytes (b, n) \<inter> region bs \<noteq> {}"
    using fc that ff_free_None_iff [OF fl(4) assms(2)] by simp
qed

lemma pool_inv_unique: "pool_inv lst lo hi m bs \<Longrightarrow> pool_inv lst lo hi m' bs' \<Longrightarrow> region bs = region bs' \<Longrightarrow> bs = bs'"
  by (auto simp: pool_inv_def freelist_def intro: blocks_ok_region_unique)

lemma pool_getfreemem:
  assumes "pool_inv lst lo hi m bs" and "req_ok n"
  shows "(getfreemem lst n m = Ret (USYSERR, m) \<and> (\<forall>b \<in> set bs. unat (snd b) < unat n)) \<or>
    (\<exists>r m' bs'. getfreemem lst n m = Ret (r, m') \<and> pool_inv lst lo hi m' bs' \<and> block_ok (r, n) \<and>
      bytes (r, n) \<subseteq> region bs \<and> region bs' = region bs - bytes (r, n))"
proof -
  have fl: "freelist m lst bs" "blocks_ok bs" using assms(1) by (auto simp: pool_inv_def freelist_def)
  note gc = getfreemem_correct [OF fl(1)] req_ok_bound [OF assms(2)] roundmb_idem [OF assms(2)]
  show ?thesis
  proof (cases "ff_alloc n bs")
    case None
    then show ?thesis using gc ff_alloc_None [of n bs] by force
  next
    case (Some t)
    obtain r bs' where t: "t = (r, bs')" by (cases t)
    note al = ff_alloc_Some [OF Some [unfolded t] fl(2) assms(2)]
    obtain m' where "getfreemem lst n m = Ret (r, m')" "freelist m' lst bs'"
      using gc Some t by force
    moreover have "pool_inv lst lo hi m' bs'"
      using calculation(2) al(4) assms(1) unfolding pool_inv_def by blast
    ultimately show ?thesis using al by blast
  qed
qed

interpretation pool: storage_pool "getfreemem lst" "\<lambda>b n. freemem_list lst b n lo hi" "pool_inv lst lo hi" "{lo..hi}"
  for lst lo hi :: addr
proof (unfold_locales, goal_cases)
  case (1 m bs n)
  then show ?case by (rule pool_getfreemem)
next
  case (2 m bs b n)
  then show ?case by (rule pool_release(1))
next
  case (3 m bs b n)
  then show ?case by (rule pool_release(2))
next
  case (4 m bs m' bs')
  then show ?case by (rule pool_inv_unique)
next
  case (5 m bs)
  then show ?case by (simp add: pool_inv_def)
qed


text \<open>
  Stacks come from the top of the last block that fits. Read as areas (lowest byte and length),
  \<open>getstk\<close> and \<open>freestk\<close> keep the same contract as \<open>getmem\<close> and \<open>freemem\<close>.
\<close>

definition getstk_area :: "addr \<Rightarrow> u32 \<Rightarrow> mem \<Rightarrow> (addr \<times> mem) result" where
  "getstk_area lst n m =
    rbind (getstk lst n m) (\<lambda>(p, m'). Ret (if p = USYSERR then USYSERR else p - n + 4, m'))"

definition freestk_area :: "addr \<Rightarrow> addr \<Rightarrow> addr \<Rightarrow> addr \<Rightarrow> u32 \<Rightarrow> mem \<Rightarrow> (int \<times> mem) result" where
  "freestk_area lst lo hi b n m = freestk lst (b + n - 4) n lo hi m"

lemma stack_word_ok:
  assumes "block_ok (r, n)"
  shows "r + n - 4 \<noteq> USYSERR"
proof
  assume eq: "r + n - 4 = USYSERR"
  have u: "unat (r + n) = unat r + unat n" "8 dvd unat r + unat n"
    using assms by (auto simp: block_ok_def unat_plus_no_wrap)
  have "r + n = USYSERR + 4" using eq by (simp add: algebra_simps)
  then have "unat (r + n) = 3" by (simp add: USYSERR_def)
  then show False using u by simp
qed

lemma pool_getstk:
  assumes "pool_inv lst lo hi m bs" and "req_ok n"
  shows "(getstk_area lst n m = Ret (USYSERR, m) \<and> (\<forall>b \<in> set bs. unat (snd b) < unat n)) \<or>
    (\<exists>r m' bs'. getstk_area lst n m = Ret (r, m') \<and> pool_inv lst lo hi m' bs' \<and> block_ok (r, n) \<and>
      bytes (r, n) \<subseteq> region bs \<and> region bs' = region bs - bytes (r, n))"
proof -
  have fl: "freelist m lst bs" "blocks_ok bs" using assms(1) by (auto simp: pool_inv_def freelist_def)
  note gc = getstk_correct [OF fl(1)] req_ok_bound [OF assms(2)] roundmb_idem [OF assms(2)]
  show ?thesis
  proof (cases "lf_alloc n bs")
    case None
    then have "getstk lst n m = Ret (USYSERR, m)" "last_fit n bs = None" using gc by (force simp: lf_alloc_def)+
    then show ?thesis using last_fit_None [of n bs] by (simp add: getstk_area_def word_less_nat_alt)
  next
    case (Some t)
    obtain r bs' where t: "t = (r, bs')" by (cases t)
    note al = lf_alloc_Some [OF Some [unfolded t] fl(2) assms(2)]
    obtain m' where m': "getstk lst n m = Ret (r + n - 4, m')" "freelist m' lst bs'"
      using gc Some t by force
    have "pool_inv lst lo hi m' bs'"
      using m'(2) al(4) assms(1) unfolding pool_inv_def by blast
    moreover have "getstk_area lst n m = Ret (r, m')"
      using m'(1) stack_word_ok [OF al(2)] by (simp add: getstk_area_def)
    ultimately show ?thesis using al by blast
  qed
qed

lemma freestk_area_eq:
  "block_ok (b, n) \<Longrightarrow> freestk_area lst lo hi b n m = freemem_list lst b n lo hi m"
  using roundmb_idem [of n]
  by (simp add: freestk_area_def freestk_def freemem_def req_ok_def block_ok_def)

interpretation stk: storage_pool "getstk_area lst" "freestk_area lst lo hi" "pool_inv lst lo hi" "{lo..hi}"
  for lst lo hi :: addr
proof (unfold_locales, goal_cases)
  case (1 m bs n)
  then show ?case by (rule pool_getstk)
next
  case (2 m bs b n)
  then show ?case using pool_release(1) by (simp add: freestk_area_eq)
next
  case (3 m bs b n)
  then show ?case using pool_release(2) by (simp add: freestk_area_eq)
next
  case (4 m bs m' bs')
  then show ?case by (rule pool_inv_unique)
next
  case (5 m bs)
  then show ?case by (simp add: pool_inv_def)
qed

section \<open>Properties\<close>

lemma getstk_area_ok: "getstk_area lst n m = Ret (b, m') \<Longrightarrow> b \<noteq> USYSERR \<Longrightarrow> getstk lst n m = Ret (b + n - 4, m')"
  by (auto simp: getstk_area_def rbind_Ret_iff split: if_splits)

text \<open>A heap of one block of 64 bytes at address 64, its list head at 16, for the examples.\<close>

definition heap64 :: mem where
  "heap64 = (\<lambda>_. 0)(16 := 64, 20 := 64, 64 := 0, 68 := 64)"

lemma heap64_pool: "pool_inv 16 64 127 heap64 [(64, 64)]"
  by (auto simp: pool_inv_def freelist_def bytes_def block_ok_def heap64_def mnext_def mlength_def NULL_def
      word_le_nat_alt)

lemma heap64_freelist: "freelist heap64 16 [(64, 64)]"
  using heap64_pool by (simp add: pool_inv_def)

lemma roundmb_small [simp]: "roundmb 20 = 24" "roundmb 24 = 24" "roundmb 64 = 64"
  by (simp_all add: roundmb_def)

lemma heap64_alloc: "\<exists>m1. getfreemem 16 24 heap64 = Ret (64, m1)"
  using getfreemem_correct [OF heap64_freelist, of 24] by auto

text \<open>
  C3: \<open>getmem\<close> is first fit. On a well formed free list every request of 1 to \<open>2 ^ 32 - 8\<close> bytes
  returns; it fails exactly when no free block is large enough and then changes nothing; otherwise
  the address is that of the first block that fits, the list afterwards is the first-fit remainder,
  the byte count in the list head drops by the rounded size, and no word outside the free
  blocks and the list head is written.
\<close>

theorem getmem_first_fit:
  assumes "freelist m memlist bs" and "n \<noteq> 0" and "unat n \<le> 2 ^ 32 - 8"
  shows "\<exists>m'. getmem memlist n m =
      Ret (case ff_alloc (roundmb n) bs of None \<Rightarrow> USYSERR | Some (r, _) \<Rightarrow> r, m') \<and>
    (case ff_alloc (roundmb n) bs of
       None \<Rightarrow> m' = m \<and> (\<forall>b \<in> set bs. unat (snd b) < unat (roundmb n))
     | Some (r, bs') \<Rightarrow> freelist m' memlist bs' \<and> region bs' = region bs - bytes (r, roundmb n) \<and>
         bytes (r, roundmb n) \<subseteq> region bs \<and> mlength m' memlist = mlength m memlist - roundmb n \<and>
         (\<forall>x. x \<notin> region bs \<union> {memlist, memlist + 4} \<longrightarrow> m' x = m x))"
proof -
  have ok: "req_ok (roundmb n)" using assms(2,3) by (rule roundmb_req_ok)
  have bs: "blocks_ok bs" using assms(1) by (simp add: freelist_def)
  show ?thesis
  proof (cases "ff_alloc (roundmb n) bs")
    case None
    then show ?thesis
      using getfreemem_correct [OF assms] ff_alloc_None [of "roundmb n" bs] by (simp add: getmem_def)
  next
    case (Some t)
    obtain r bs' where t: "t = (r, bs')" by (cases t)
    show ?thesis
      using getfreemem_correct [OF assms] ff_alloc_Some(3,4) [OF Some [unfolded t] bs ok]
      by (simp add: getmem_def Some t)
  qed
qed

theorem getmem_first_fit_witness:
  "\<exists>m'. getmem 16 20 heap64 = Ret (64, m') \<and> freelist m' 16 [(88, 40)] \<and> mlength m' 16 = 40"
  using getmem_first_fit [OF heap64_freelist, of 20] by (auto simp: heap64_def mlength_def)

text \<open>
  C4: \<open>freemem\<close> returns a block to the list. Releasing an aligned block inside the heap's bounds
  returns \<open>OK\<close> exactly when none of its bytes is free already; the list afterwards is well formed
  (in address order, no two adjacent blocks left unmerged), its free bytes are the old ones and
  those of the block, and the byte count in the head grows by its length. An overlapping block is refused with
  \<open>SYSERR\<close> and nothing is changed.
\<close>

theorem freemem_coalesces:
  assumes "freelist m memlist bs" and "block_ok (block, n)" and "memlist \<notin> bytes (block, n)" and "memlist + 4 \<notin> bytes (block, n)"
    and "minheap \<le> block" and "block \<le> maxheap"
  shows "if bytes (block, n) \<inter> region bs \<noteq> {} then freemem memlist block n minheap maxheap m = Ret (SYSERR, m)
    else \<exists>m' bs'. freemem memlist block n minheap maxheap m = Ret (OK, m') \<and> freelist m' memlist bs' \<and>
      region bs' = region bs \<union> bytes (block, n) \<and> mlength m' memlist = mlength m memlist + n"
proof -
  have bs: "blocks_ok bs" using assms(1) by (simp add: freelist_def)
  show ?thesis
    using freemem_list_correct [OF assms] ff_free_None_iff [OF bs assms(2)] ff_free_Some [OF _ bs assms(2)]
    by (cases "ff_free block n bs") (auto simp: freemem_def)
qed

theorem freemem_coalesces_witness:
  "\<exists>m' bs'. freemem 16 128 64 64 255 heap64 = Ret (OK, m') \<and> freelist m' 16 bs' \<and>
    region bs' = region [(64, 64)] \<union> bytes (128, 64) \<and> mlength m' 16 = 128"
proof -
  have "block_ok (128, 64)" "16 \<notin> bytes (128, 64)" "20 \<notin> bytes (128, 64)" "bytes (128, 64) \<inter> bytes (64, 64) = {}"
    by (auto simp: block_ok_def bytes_def)
  then show ?thesis
    using freemem_coalesces [OF heap64_freelist, of 128 64 64 255] by (simp add: heap64_def mlength_def)
qed

text \<open>Both routines round the size up to a multiple of 8.\<close>

lemma sizes_rounded:
  assumes "n \<noteq> 0" and "unat n \<le> 2 ^ 32 - 8"
  shows "getfreemem lst n m = getfreemem lst (roundmb n) m" "freemem_list lst b n lo hi m = freemem_list lst b (roundmb n) lo hi m"
proof -
  note r = roundmb_idem [OF roundmb_req_ok [OF assms]]
  have "roundmb n \<noteq> 0" using roundmb_req_ok [OF assms] by (auto simp: req_ok_def)
  then show "getfreemem lst n m = getfreemem lst (roundmb n) m" "freemem_list lst b n lo hi m = freemem_list lst b (roundmb n) lo hi m"
    using assms(1) by (simp_all add: getfreemem_def freemem_list_def r)
qed

text \<open>
  C5: round trip. What \<open>getmem\<close> hands out for a request of any size from 1 to \<open>2 ^ 32 - 8\<close> bytes, \<open>freemem\<close> takes back when it is called with the size requested, and the
  free list is then the one before the allocation, block for block.
\<close>

theorem getmem_freemem_roundtrip:
  assumes "pool_inv memlist minheap maxheap m bs" and "n \<noteq> 0" and "unat n \<le> 2 ^ 32 - 8"
    and "getmem memlist n m = Ret (r, m1)" and "r \<noteq> USYSERR"
  shows "\<exists>m2. freemem memlist r n minheap maxheap m1 = Ret (OK, m2) \<and> pool_inv memlist minheap maxheap m2 bs"
  using pool.alloc_then_release [OF assms(1) roundmb_req_ok [OF assms(2,3)]] assms(4,5)
  unfolding getmem_def freemem_def sizes_rounded [OF assms(2,3)] by simp

theorem getmem_freemem_roundtrip_witness:
  "\<exists>m1 m2. getmem 16 20 heap64 = Ret (64, m1) \<and> freemem 16 64 20 64 127 m1 = Ret (OK, m2) \<and>
    pool_inv 16 64 127 m2 [(64, 64)]"
proof -
  obtain m1 where "getfreemem 16 24 heap64 = Ret (64, m1)" using heap64_alloc by blast
  then have m1: "getmem 16 20 heap64 = Ret (64, m1)" by (simp add: getmem_def getfreemem_def)
  show ?thesis using getmem_freemem_roundtrip [OF heap64_pool _ _ m1] m1 by (auto simp: USYSERR_def)
qed

text \<open>
  Two allocations with no release between them share no byte.
\<close>

theorem getmem_disjoint:
  assumes "pool_inv memlist minheap maxheap m bs" and "req_ok n1" and "req_ok n2"
    and "getmem memlist n1 m = Ret (r1, m1)" and "r1 \<noteq> USYSERR"
    and "getmem memlist n2 m1 = Ret (r2, m2)" and "r2 \<noteq> USYSERR"
  shows "bytes (r1, n1) \<inter> bytes (r2, n2) = {}"
  using pool.two_allocs_disjoint [OF assms(1-3)] assms(4-7) by (simp add: getmem_def)

theorem getmem_disjoint_witness:
  "\<exists>m1 m2. getmem 16 24 heap64 = Ret (64, m1) \<and> getmem 16 24 m1 = Ret (88, m2) \<and>
    bytes (64, 24) \<inter> bytes (88, 24) = {}"
proof -
  obtain m1 where m1: "getmem 16 24 heap64 = Ret (64, m1)" "freelist m1 16 [(88, 40)]"
    using getfreemem_correct [OF heap64_freelist, of 24] by (auto simp: getmem_def)
  obtain m2 where m2: "getmem 16 24 m1 = Ret (88, m2)"
    using getfreemem_correct [OF m1(2), of 24] by (auto simp: getmem_def)
  have "req_ok 24" by (simp add: req_ok_def)
  then show ?thesis
    using getmem_disjoint [OF heap64_pool _ _ m1(1) _ m2] m1(1) m2 by (auto simp: USYSERR_def)
qed

text \<open>
  A block released twice is refused the second time, and the free list stays as the first
  release left it.
\<close>

theorem freemem_double_free_refused:
  assumes "pool_inv memlist minheap maxheap m bs" and "block_ok (b, n)" and "bytes (b, n) \<subseteq> {minheap..maxheap}"
    and "freemem memlist b n minheap maxheap m = Ret (OK, m1)"
  shows "freemem memlist b n minheap maxheap m1 = Ret (SYSERR, m1)"
  using pool.double_release_refused [OF assms(1-3)] assms(4) by (simp add: freemem_def)

theorem freemem_double_free_refused_witness:
  "\<exists>m1 m2. getmem 16 24 heap64 = Ret (64, m1) \<and> freemem 16 64 24 64 127 m1 = Ret (OK, m2) \<and>
    freemem 16 64 24 64 127 m2 = Ret (SYSERR, m2)"
proof -
  have "req_ok 24" by (simp add: req_ok_def)
  obtain m1 where m1: "getfreemem 16 24 heap64 = Ret (64, m1)" using heap64_alloc by blast
  obtain bs1 where bs1: "pool_inv 16 64 127 m1 bs1"
    by (rule pool.alloc_ok [OF heap64_pool \<open>req_ok 24\<close> m1]) (simp add: USYSERR_def)
  obtain m2 where "freemem_list 16 64 24 64 127 m1 = Ret (OK, m2)"
    using pool.alloc_then_release [OF heap64_pool \<open>req_ok 24\<close> m1] by (auto simp: USYSERR_def)
  then have m2: "freemem 16 64 24 64 127 m1 = Ret (OK, m2)" by (simp add: freemem_def)
  have "block_ok (64, 24)" "bytes (64, 24) \<subseteq> {64..127}"
    by (auto simp: block_ok_def bytes_def word_le_nat_alt)
  then show ?thesis using freemem_double_free_refused [OF bs1 _ _ m2] m1 m2 by (auto simp: getmem_def)
qed

text \<open>
  Stacks. For a size that is a multiple of the block size, \<open>getstk\<close> returns the highest word of an
  area taken from the top of the last block that fits, and \<open>freestk\<close> of that word restores
  the free list.
\<close>

theorem getstk_freestk_roundtrip:
  assumes "pool_inv memlist minheap maxheap m bs" and "req_ok n" and "\<exists>b \<in> set bs. unat n \<le> unat (snd b)"
  shows "\<exists>p m1 m2. getstk memlist n m = Ret (p, m1) \<and> block_ok (p - n + 4, n) \<and> bytes (p - n + 4, n) \<subseteq> region bs \<and>
    freestk memlist p n minheap maxheap m1 = Ret (OK, m2) \<and> pool_inv memlist minheap maxheap m2 bs"
proof -
  obtain r m1 where a: "getstk_area memlist n m = Ret (r, m1)" "block_ok (r, n)" "bytes (r, n) \<subseteq> region bs"
    using pool_getstk [OF assms(1,2)] assms(3) by (auto simp: not_le [symmetric] simp del: not_le)
  have r: "r \<noteq> USYSERR" by (rule stk.block_ok_not_USYSERR [OF a(2)])
  obtain m2 where "freestk_area memlist minheap maxheap r n m1 = Ret (OK, m2)" "pool_inv memlist minheap maxheap m2 bs"
    using stk.alloc_then_release [OF assms(1,2) a(1) r] by blast
  then show ?thesis
    using getstk_area_ok [OF a(1) r] a by (intro exI [of _ "r + n - 4"] exI [of _ m1] exI [of _ m2])
      (simp add: freestk_area_def)
qed

theorem getstk_freestk_roundtrip_witness:
  "\<exists>p m1 m2. getstk 16 24 heap64 = Ret (p, m1) \<and> block_ok (p - 24 + 4, 24) \<and> bytes (p - 24 + 4, 24) \<subseteq> region [(64, 64)] \<and>
    freestk 16 p 24 64 127 m1 = Ret (OK, m2) \<and> pool_inv 16 64 127 m2 [(64, 64)]"
  by (rule getstk_freestk_roundtrip [OF heap64_pool]) (simp_all add: req_ok_def)

lemma roundmb_wraps: "unat n > 2 ^ 32 - 8 \<Longrightarrow> roundmb n = 0"
proof -
  assume n: "unat n > 2 ^ 32 - 8"
  define d where "d = unat n - 4294967289"
  have "4294967288 < unat n" using n by simp
  then have "unat n = 4294967289 + d" "d < 7" using unat_u32_less [of n] unfolding d_def by linarith+
  then have "unat (7 + n) < 8" by (simp add: unat_word_ariths)
  then have "unat (roundmb n) = 0" unfolding roundmb_def unat_and_not_7 by simp
  then show ?thesis by (simp add: unat_eq_0)
qed

text \<open>
  The rounding of a size wraps. A request of \<open>2 ^ 32 - 7\<close> bytes or more is rounded to 0
  bytes, and \<open>getmem\<close> then "allocates" the first free block without taking anything
  off the list: it returns the block's address while every free byte stays free.
\<close>

theorem getmem_oversize_wraps:
  assumes "freelist m memlist ((a, l) # bs)" and "unat n > 2 ^ 32 - 8"
  shows "\<exists>m'. getmem memlist n m = Ret (a, m') \<and> chain m' (mnext m' memlist) ((a, l) # bs)"
proof -
  have ok: "block_ok (a, l)" "memlist \<notin> bytes (a, l)" "memlist + 4 \<notin> bytes (a, l)"
    "chain m (mnext m memlist) ((a, l) # bs)" "blocks_ok ((a, l) # bs)" "memlist \<notin> region ((a, l) # bs)" "memlist + 4 \<notin> region ((a, l) # bs)"
    using assms(1) by (auto simp: freelist_def)
  have l: "l \<noteq> 0" "0 < l" "n \<noteq> 0" using ok(1) assms(2) by (auto simp: block_ok_def word_less_nat_alt)
  let ?m = "m(memlist := a, a := m a, a + 4 := m (a + 4))"
  have ne: "memlist \<noteq> a" "memlist \<noteq> a + 4" "memlist + 4 \<noteq> a" "memlist + 4 \<noteq> a + 4" "memlist \<noteq> memlist + 4" "a \<noteq> a + 4"
    using ok(2,3) block_ok_header [OF ok(1)] by auto
  have "m memlist = a" "a \<noteq> NULL" "m (a + 4) = l" using ok(4) by (auto simp: mnext_def mlength_def)
  then have "getmem memlist n m = Ret (a, ?m)"
    using l ne unfolding getmem_def getfreemem_def roundmb_wraps [OF assms(2)]
    by (subst getfreemem_loop.simps)
      (simp add: mnext_def mlength_def set_mnext_def set_mlength_def Let_def fun_upd_twist)
  moreover have "chain ?m p ((a, l) # bs) = chain m p ((a, l) # bs)" for p
    by (rule chain_cong [OF ok(5)]) (use ok(6,7) in auto)
  moreover have "mnext ?m memlist = mnext m memlist" using \<open>m memlist = a\<close> ne by (simp add: mnext_def)
  ultimately show ?thesis using ok(4) by auto
qed

theorem getmem_oversize_wraps_witness:
  "\<exists>m'. getmem 16 0xFFFFFFFD heap64 = Ret (64, m') \<and> chain m' (mnext m' 16) [(64, 64)]"
  by (rule getmem_oversize_wraps [OF heap64_freelist]) simp

end
