(* ===== verification/ProcTab.thy ===== *)
theory ProcTab
  imports FreeList
begin

text \<open>
  The process table of \<open>include/process.h\<close>: the entry as a record with the source's fields, the
  process states as a datatype, and the validity check \<open>isbadpid\<close>. The table is a function from
  the index; every access outside \<open>isbadpid\<close> goes through \<open>pread\<close>/\<open>pwrite\<close>, which make an
  index out of \<open>0 .. NPROC - 1\<close> a \<open>Fault\<close>.
\<close>

section \<open>Table sizes of \<open>include/conf.h\<close> and \<open>include/queue.h\<close>\<close>

definition NPROC :: int where "NPROC = 100"
definition NSEM :: int where "NSEM = 100"
definition NQENT :: int where "NQENT = NPROC + 4 + NSEM + NSEM"

lemmas size_defs [layout_defs] = NPROC_def NSEM_def NQENT_def

section \<open>The process table entry\<close>

datatype pstate = PR_FREE | PR_CURR | PR_READY | PR_RECV | PR_SLEEP | PR_SUSP | PR_WAIT | PR_RECTIM

record procent =
  prstate :: pstate
  prprio :: int
  prstkptr :: addr
  prstkbase :: addr
  prstklen :: u32
  prname :: string
  prsem :: int
  prparent :: int
  prmsg :: u32
  pdbr :: u32
  hsize :: u32
  vfree :: u32
  vmax :: u32
  prhasmsg :: bool
  pruser :: bool
  prdesc :: "nat \<Rightarrow> int"

type_synonym proctab = "int \<Rightarrow> procent"

definition NULLPROC :: int where "NULLPROC = 0"
definition PNMLEN :: nat where "PNMLEN = 16"

definition isbadpid :: "proctab \<Rightarrow> int \<Rightarrow> bool" where
  "isbadpid pt x \<longleftrightarrow> x < 0 \<or> x \<ge> NPROC \<or> prstate (pt x) = PR_FREE"

definition pid_ok :: "int \<Rightarrow> bool" where
  "pid_ok x \<longleftrightarrow> 0 \<le> x \<and> x < NPROC"

definition pread :: "proctab \<Rightarrow> int \<Rightarrow> procent result" where
  "pread pt x = (if pid_ok x then Ret (pt x) else Fault)"

definition pwrite :: "int \<Rightarrow> (procent \<Rightarrow> procent) \<Rightarrow> proctab \<Rightarrow> proctab result" where
  "pwrite x f pt = (if pid_ok x then Ret (pt(x := f (pt x))) else Fault)"

lemma pread_ok [simp]: "pid_ok x \<Longrightarrow> pread pt x = Ret (pt x)"
  by (simp add: pread_def)

lemma pwrite_ok [simp]: "pid_ok x \<Longrightarrow> pwrite x f pt = Ret (pt(x := f (pt x)))"
  by (simp add: pwrite_def)

lemma isbadpid_pid_ok: "isbadpid pt x \<longleftrightarrow> \<not> pid_ok x \<or> prstate (pt x) = PR_FREE"
  by (auto simp: isbadpid_def pid_ok_def)

end
