(* ===== verification/Queue.thy ===== *)
theory Queue
  imports ProcTab
begin

text \<open>
  The queue table of \<open>include/queue.h\<close> and its operations: \<open>system/newqueue.c\<close>,
  \<open>system/queue.c\<close>, \<open>system/getitem.c\<close>, \<open>system/insert.c\<close> and \<open>system/insertd.c\<close>.

  All queues live in one array \<open>queuetab\<close>: entries \<open>0 .. NPROC - 1\<close> are the processes, and a
  queue is a pair of consecutive entries (its head and its tail). The links are indices into
  the array. The model keeps the array with its links; the lemmas relate it to the lists of
  process ids it represents.
\<close>

section \<open>The queue table\<close>

record qentry =
  qkey :: int
  qnext :: int
  qprev :: int

type_synonym qtab = "int \<Rightarrow> qentry"

definition EMPTY :: int where "EMPTY = -1"
definition MAXKEY :: int where "MAXKEY = 0x7FFFFFFF"
definition MINKEY :: int where "MINKEY = - 0x80000000"

definition qread :: "qtab \<Rightarrow> int \<Rightarrow> qentry result" where
  "qread qt i = (if 0 \<le> i \<and> i < NQENT then Ret (qt i) else Fault)"

definition qwrite :: "int \<Rightarrow> (qentry \<Rightarrow> qentry) \<Rightarrow> qtab \<Rightarrow> qtab result" where
  "qwrite i f qt = (if 0 \<le> i \<and> i < NQENT then Ret (qt(i := f (qt i))) else Fault)"

definition queuehead :: "int \<Rightarrow> int" where "queuehead q = q"
definition queuetail :: "int \<Rightarrow> int" where "queuetail q = q + 1"

definition firstid :: "qtab \<Rightarrow> int \<Rightarrow> int result" where
  "firstid qt q = rbind (qread qt (queuehead q)) (\<lambda>e. Ret (qnext e))"

definition isempty :: "qtab \<Rightarrow> int \<Rightarrow> bool result" where
  "isempty qt q = rbind (firstid qt q) (\<lambda>i. Ret (i \<ge> NPROC))"

definition nonempty :: "qtab \<Rightarrow> int \<Rightarrow> bool result" where
  "nonempty qt q = rbind (firstid qt q) (\<lambda>i. Ret (i < NPROC))"

definition firstkey :: "qtab \<Rightarrow> int \<Rightarrow> int result" where
  "firstkey qt q = rbind (firstid qt q) (\<lambda>i. rbind (qread qt i) (\<lambda>e. Ret (qkey e)))"

definition isbadqid :: "int \<Rightarrow> bool" where
  "isbadqid x \<longleftrightarrow> x < NPROC \<or> x \<ge> NQENT - 1"

section \<open>Operations\<close>

text \<open>The static \<open>nextqid\<close> of \<open>newqueue\<close> is passed in and returned.\<close>

definition newqueue :: "int \<Rightarrow> qtab \<Rightarrow> (int \<times> int \<times> qtab) result" where
  "newqueue nextqid qt =
    (let q = nextqid in
     if q \<ge> NQENT then Ret (SYSERR, nextqid, qt)
     else
       let nextqid = nextqid + 2 in
       rbind (qwrite (queuehead q) (\<lambda>e. e\<lparr>qnext := queuetail q\<rparr>) qt) (\<lambda>qt.
       rbind (qwrite (queuehead q) (\<lambda>e. e\<lparr>qprev := EMPTY\<rparr>) qt) (\<lambda>qt.
       rbind (qwrite (queuehead q) (\<lambda>e. e\<lparr>qkey := MAXKEY\<rparr>) qt) (\<lambda>qt.
       rbind (qwrite (queuetail q) (\<lambda>e. e\<lparr>qnext := EMPTY\<rparr>) qt) (\<lambda>qt.
       rbind (qwrite (queuetail q) (\<lambda>e. e\<lparr>qprev := queuehead q\<rparr>) qt) (\<lambda>qt.
       rbind (qwrite (queuetail q) (\<lambda>e. e\<lparr>qkey := MINKEY\<rparr>) qt) (\<lambda>qt.
       Ret (q, nextqid, qt))))))))"

definition enqueue :: "proctab \<Rightarrow> int \<Rightarrow> int \<Rightarrow> qtab \<Rightarrow> (int \<times> qtab) result" where
  "enqueue pt pid q qt =
    (if isbadqid q \<or> isbadpid pt pid then Ret (SYSERR, qt)
     else
       let tail = queuetail q in
       rbind (qread qt tail) (\<lambda>e.
       let prev = qprev e in
       rbind (qwrite pid (\<lambda>e. e\<lparr>qnext := tail\<rparr>) qt) (\<lambda>qt.
       rbind (qwrite pid (\<lambda>e. e\<lparr>qprev := prev\<rparr>) qt) (\<lambda>qt.
       rbind (qwrite prev (\<lambda>e. e\<lparr>qnext := pid\<rparr>) qt) (\<lambda>qt.
       rbind (qwrite tail (\<lambda>e. e\<lparr>qprev := pid\<rparr>) qt) (\<lambda>qt.
       Ret (pid, qt)))))))"

definition getitem :: "int \<Rightarrow> qtab \<Rightarrow> (int \<times> qtab) result" where
  "getitem pid qt =
    rbind (qread qt pid) (\<lambda>e.
    let next = qnext e; prev = qprev e in
    rbind (qwrite prev (\<lambda>e. e\<lparr>qnext := next\<rparr>) qt) (\<lambda>qt.
    rbind (qwrite next (\<lambda>e. e\<lparr>qprev := prev\<rparr>) qt) (\<lambda>qt.
    Ret (pid, qt))))"

definition getfirst :: "int \<Rightarrow> qtab \<Rightarrow> (int \<times> qtab) result" where
  "getfirst q qt =
    rbind (isempty qt q) (\<lambda>b.
    if b then Ret (EMPTY, qt)
    else
      let head = queuehead q in
      rbind (qread qt head) (\<lambda>e. getitem (qnext e) qt))"

definition getlast :: "int \<Rightarrow> qtab \<Rightarrow> (int \<times> qtab) result" where
  "getlast q qt =
    rbind (isempty qt q) (\<lambda>b.
    if b then Ret (EMPTY, qt)
    else
      let tail = queuetail q in
      rbind (qread qt tail) (\<lambda>e. getitem (qprev e) qt))"

definition dequeue :: "int \<Rightarrow> qtab \<Rightarrow> (int \<times> qtab) result" where
  "dequeue q qt =
    (if isbadqid q then Ret (SYSERR, qt)
     else
       rbind (isempty qt q) (\<lambda>b.
       if b then Ret (EMPTY, qt)
       else
         rbind (getfirst q qt) (\<lambda>(pid, qt).
         rbind (qwrite pid (\<lambda>e. e\<lparr>qprev := EMPTY\<rparr>) qt) (\<lambda>qt.
         rbind (qwrite pid (\<lambda>e. e\<lparr>qnext := EMPTY\<rparr>) qt) (\<lambda>qt.
         Ret (pid, qt))))))"

text \<open>The scan of \<open>insert\<close> (\<open>insert_q\<close> here): the tail's \<open>MINKEY\<close> is the only thing that stops it.\<close>

partial_function (option) insert_scan :: "qtab \<Rightarrow> int \<Rightarrow> int \<Rightarrow> int result option" where
  "insert_scan qt key cur =
    (case qread qt cur of
       Ret e \<Rightarrow> if qkey e \<ge> key then insert_scan qt key (qnext e) else Some (Ret cur)
     | _ \<Rightarrow> Some Fault)"

definition insert_q :: "proctab \<Rightarrow> int \<Rightarrow> int \<Rightarrow> int \<Rightarrow> qtab \<Rightarrow> (int \<times> qtab) result" where
  "insert_q pt pid q key qt =
    (if isbadqid q \<or> isbadpid pt pid then Ret (SYSERR, qt)
     else
       rbind (firstid qt q) (\<lambda>cur.
       rbind (rjoin (of_loop (insert_scan qt key cur))) (\<lambda>cur.
       rbind (qread qt cur) (\<lambda>e.
       let prev = qprev e in
       rbind (qwrite pid (\<lambda>e. e\<lparr>qnext := cur\<rparr>) qt) (\<lambda>qt.
       rbind (qwrite pid (\<lambda>e. e\<lparr>qprev := prev\<rparr>) qt) (\<lambda>qt.
       rbind (qwrite pid (\<lambda>e. e\<lparr>qkey := key\<rparr>) qt) (\<lambda>qt.
       rbind (qwrite prev (\<lambda>e. e\<lparr>qnext := pid\<rparr>) qt) (\<lambda>qt.
       rbind (qwrite cur (\<lambda>e. e\<lparr>qprev := pid\<rparr>) qt) (\<lambda>qt.
       Ret (OK, qt))))))))))"

partial_function (option) insertd_scan ::
  "qtab \<Rightarrow> int \<Rightarrow> int \<Rightarrow> int \<Rightarrow> int \<Rightarrow> (int \<times> int \<times> int) result option" where
  "insertd_scan qt q key prev next =
    (if next \<noteq> queuetail q then
       (case qread qt next of
          Ret e \<Rightarrow>
            if qkey e \<le> key then insertd_scan qt q (wrap32 (key - qkey e)) next (qnext e)
            else Some (Ret (key, prev, next))
        | _ \<Rightarrow> Some Fault)
     else Some (Ret (key, prev, next)))"

definition insertd :: "proctab \<Rightarrow> int \<Rightarrow> int \<Rightarrow> int \<Rightarrow> qtab \<Rightarrow> (int \<times> qtab) result" where
  "insertd pt pid q key qt =
    (if isbadqid q \<or> isbadpid pt pid then Ret (SYSERR, qt)
     else
       let prev = queuehead q in
       rbind (qread qt (queuehead q)) (\<lambda>e.
       rbind (rjoin (of_loop (insertd_scan qt q key prev (qnext e)))) (\<lambda>(key, prev, next).
       rbind (qwrite pid (\<lambda>e. e\<lparr>qnext := next\<rparr>) qt) (\<lambda>qt.
       rbind (qwrite pid (\<lambda>e. e\<lparr>qprev := prev\<rparr>) qt) (\<lambda>qt.
       rbind (qwrite pid (\<lambda>e. e\<lparr>qkey := key\<rparr>) qt) (\<lambda>qt.
       rbind (qwrite prev (\<lambda>e. e\<lparr>qnext := pid\<rparr>) qt) (\<lambda>qt.
       rbind (qwrite next (\<lambda>e. e\<lparr>qprev := pid\<rparr>) qt) (\<lambda>qt.
       rbind (if next \<noteq> queuetail q
              then qwrite next (\<lambda>e. e\<lparr>qkey := wrap32 (qkey e - key)\<rparr>) qt
              else Ret qt) (\<lambda>qt.
       Ret (OK, qt))))))))))"


section \<open>The lists the table represents\<close>

text \<open>From node \<open>a\<close> through \<open>xs\<close> to node \<open>b\<close>, forward and backward links agree.\<close>

fun qlinks :: "qtab \<Rightarrow> int \<Rightarrow> int list \<Rightarrow> int \<Rightarrow> bool" where
  "qlinks qt a [] b \<longleftrightarrow> qnext (qt a) = b \<and> qprev (qt b) = a"
| "qlinks qt a (x # xs) b \<longleftrightarrow> qnext (qt a) = x \<and> qprev (qt x) = a \<and> qlinks qt x xs b"

definition qid_ok :: "int \<Rightarrow> bool" where
  "qid_ok q \<longleftrightarrow> even q \<and> NPROC \<le> q \<and> q + 1 < NQENT"

definition queue_rep :: "qtab \<Rightarrow> int \<Rightarrow> int list \<Rightarrow> bool" where
  "queue_rep qt q xs \<longleftrightarrow> qlinks qt q xs (q + 1) \<and> distinct xs \<and> (\<forall>x \<in> set xs. pid_ok x) \<and> qid_ok q \<and>
     qkey (qt q) = MAXKEY \<and> qkey (qt (q + 1)) = MINKEY"

lemma qid_ok_isbadqid: "qid_ok q \<Longrightarrow> \<not> isbadqid q"
  by (auto simp: qid_ok_def isbadqid_def)

lemma qlinks_append: "qlinks qt a (xs @ x # ys) b \<longleftrightarrow> qlinks qt a xs x \<and> qlinks qt x ys b"
  by (induction xs arbitrary: a) auto

lemma qlinks_cong:
  assumes "\<And>i. i \<in> set (a # xs) \<Longrightarrow> qnext (qt' i) = qnext (qt i)"
    and "\<And>i. i \<in> set (xs @ [b]) \<Longrightarrow> qprev (qt' i) = qprev (qt i)"
  shows "qlinks qt' a xs b = qlinks qt a xs b"
  using assms by (induction xs arbitrary: a) auto

lemma qlinks_first: "qlinks qt a xs b \<Longrightarrow> qnext (qt a) = hd (xs @ [b])"
  by (cases xs) auto

lemma qlinks_last: "qlinks qt a xs b \<Longrightarrow> qprev (qt b) = last (a # xs)"
  by (induction xs arbitrary: a) auto

text \<open>Linking a new node between two neighbours.\<close>

lemma qlinks_insert:
  assumes "qlinks qt a (xs @ ys) b" and "distinct (a # xs @ ys @ [b])" and "p \<notin> set (a # xs @ ys @ [b])"
    and "prv = last (a # xs)" and "nxt = hd (ys @ [b])"
    and "qnext (qt' p) = nxt" and "qprev (qt' p) = prv" and "qnext (qt' prv) = p" and "qprev (qt' nxt) = p"
    and "\<And>i. i \<noteq> p \<Longrightarrow> i \<noteq> prv \<Longrightarrow> qnext (qt' i) = qnext (qt i)"
    and "\<And>i. i \<noteq> p \<Longrightarrow> i \<noteq> nxt \<Longrightarrow> qprev (qt' i) = qprev (qt i)"
  shows "qlinks qt' a (xs @ p # ys) b"
  using assms(1-4)
proof (induction xs arbitrary: a)
  case Nil
  show ?case
  proof (cases ys)
    case (Cons y ys')
    have "qnext (qt' i) = qnext (qt i)" if "i \<in> set (y # ys')" for i
      using that Nil.prems(2-4) by (intro assms(10)) (auto simp: Cons)
    moreover have "qprev (qt' i) = qprev (qt i)" if "i \<in> set (ys' @ [b])" for i
      using that Nil.prems(2,3) by (intro assms(11)) (auto simp: Cons assms(5))
    ultimately have "qlinks qt' y ys' b = qlinks qt y ys' b" by (rule qlinks_cong)
    then show ?thesis using Nil.prems assms(5-9) by (simp add: Cons)
  qed (use Nil.prems assms(5-9) in simp)
next
  case (Cons x xs)
  have "prv \<in> set (x # xs)" "nxt \<in> set (ys @ [b])"
    using Cons.prems(4) assms(5) last_in_set [of "x # xs"] hd_in_set [of "ys @ [b]"] by simp_all
  then have "a \<noteq> prv" "x \<noteq> nxt" "a \<noteq> p" "x \<noteq> p"
    using Cons.prems(2,3) by auto
  moreover have "qlinks qt' x (xs @ p # ys) b"
    using Cons.prems by (intro Cons.IH) simp_all
  ultimately show ?case using Cons.prems(1) assms(10) [of a] assms(11) [of x] by simp
qed

lemma qlinks_remove:
  assumes "qlinks qt a (xs @ p # ys) b" and "distinct (a # xs @ p # ys @ [b])"
    and "prv = last (a # xs)" and "nxt = hd (ys @ [b])"
    and "qnext (qt' prv) = nxt" and "qprev (qt' nxt) = prv"
    and "\<And>i. i \<noteq> prv \<Longrightarrow> i \<noteq> p \<Longrightarrow> qnext (qt' i) = qnext (qt i)"
    and "\<And>i. i \<noteq> nxt \<Longrightarrow> i \<noteq> p \<Longrightarrow> qprev (qt' i) = qprev (qt i)"
  shows "qlinks qt' a (xs @ ys) b"
  using assms(1-3)
proof (induction xs arbitrary: a)
  case Nil
  show ?case
  proof (cases ys)
    case (Cons y ys')
    have "qnext (qt' i) = qnext (qt i)" if "i \<in> set (y # ys')" for i
      using that Nil.prems(2,3) by (intro assms(7)) (auto simp: Cons)
    moreover have "qprev (qt' i) = qprev (qt i)" if "i \<in> set (ys' @ [b])" for i
      using that Nil.prems(2) by (intro assms(8)) (auto simp: Cons assms(4))
    ultimately have "qlinks qt' y ys' b = qlinks qt y ys' b" by (rule qlinks_cong)
    then show ?thesis using Nil.prems assms(4-6) by (simp add: Cons)
  qed (use Nil.prems assms(4-6) in simp)
next
  case (Cons x xs)
  have "prv \<in> set (x # xs)" "nxt \<in> set (ys @ [b])"
    using Cons.prems(3) assms(4) last_in_set [of "x # xs"] hd_in_set [of "ys @ [b]"] by simp_all
  then have "a \<noteq> prv" "x \<noteq> nxt" "a \<noteq> p" "x \<noteq> p"
    using Cons.prems(2) by auto
  moreover have "qlinks qt' x (xs @ ys) b"
    using Cons.prems by (intro Cons.IH) simp_all
  ultimately show ?case using Cons.prems(1) assms(7) [of a] assms(8) [of x] by simp
qed

text \<open>The nodes of a queue: all in the table, all different.\<close>

lemma pid_not_queue: "pid_ok x \<Longrightarrow> qid_ok q \<Longrightarrow> x \<noteq> q \<and> x \<noteq> q + 1"
  by (auto simp: pid_ok_def qid_ok_def)

lemma pid_ok_in_table: "pid_ok x \<Longrightarrow> 0 \<le> x \<and> x < NQENT"
  by (auto simp: pid_ok_def layout_defs)

lemma qid_ok_in_table: "qid_ok q \<Longrightarrow> 0 \<le> q \<and> q < NQENT \<and> 0 \<le> q + 1 \<and> q + 1 < NQENT"
  by (auto simp: qid_ok_def layout_defs)

lemma queue_rep_distinct: "queue_rep qt q xs \<Longrightarrow> distinct (q # xs @ [q + 1])"
  using pid_not_queue by (fastforce simp: queue_rep_def)

lemma queue_rep_nodes: "queue_rep qt q xs \<Longrightarrow> i \<in> set (q # xs @ [q + 1]) \<Longrightarrow> 0 \<le> i \<and> i < NQENT"
  using pid_ok_in_table qid_ok_in_table by (auto simp: queue_rep_def)

lemma qread_ok [simp]: "0 \<le> i \<and> i < NQENT \<Longrightarrow> qread qt i = Ret (qt i)"
  by (simp add: qread_def)

lemma qwrite_ok [simp]: "0 \<le> i \<and> i < NQENT \<Longrightarrow> qwrite i f qt = Ret (qt(i := f (qt i)))"
  by (simp add: qwrite_def)

text \<open>A queue sees only its own nodes.\<close>

lemma queue_rep_frame:
  assumes "queue_rep qt q xs" and "\<And>i. i \<in> set (q # xs @ [q + 1]) \<Longrightarrow> qt' i = qt i"
  shows "queue_rep qt' q xs"
proof -
  have "qlinks qt' q xs (q + 1) = qlinks qt q xs (q + 1)" by (rule qlinks_cong) (use assms(2) in auto)
  then show ?thesis using assms by (simp add: queue_rep_def)
qed


section \<open>Each operation on one queue\<close>

definition keeps_outside :: "int \<Rightarrow> int set \<Rightarrow> qtab \<Rightarrow> qtab \<Rightarrow> bool" where
  "keeps_outside q S qt qt' \<longleftrightarrow> (\<forall>i. i \<notin> S \<union> {q, q + 1} \<longrightarrow> qt' i = qt i)"

definition keeps_keys :: "qtab \<Rightarrow> qtab \<Rightarrow> bool" where
  "keeps_keys qt qt' \<longleftrightarrow> (\<forall>i. qkey (qt' i) = qkey (qt i))"

text \<open>
  The two link patterns every operation ends with: a node spliced in between the nodes that
  follow \<open>xs\<close> and precede \<open>ys\<close>, and a node unlinked.
\<close>

definition link_in :: "int \<Rightarrow> int \<Rightarrow> int \<Rightarrow> (qentry \<Rightarrow> qentry) \<Rightarrow> qtab \<Rightarrow> qtab" where
  "link_in p prev next f qt =
    (let qt = qt(p := f ((qt p)\<lparr>qnext := next, qprev := prev\<rparr>));
         qt = qt(prev := (qt prev)\<lparr>qnext := p\<rparr>)
     in qt(next := (qt next)\<lparr>qprev := p\<rparr>))"

definition unlink :: "int \<Rightarrow> qtab \<Rightarrow> qtab" where
  "unlink p qt =
    (let next = qnext (qt p); prev = qprev (qt p);
         qt = qt(prev := (qt prev)\<lparr>qnext := next\<rparr>)
     in qt(next := (qt next)\<lparr>qprev := prev\<rparr>))"

lemma queue_rep_link_in:
  assumes "queue_rep qt q (xs @ ys)" and "pid_ok p" and "p \<notin> set (xs @ ys)"
    and "\<And>e. qnext (f e) = qnext e" and "\<And>e. qprev (f e) = qprev e"
    and "prv = last (q # xs)" and "nxt = hd (ys @ [q + 1])"
  defines "qt' \<equiv> link_in p prv nxt f qt"
  shows "queue_rep qt' q (xs @ p # ys)" and "keeps_outside q (set (xs @ p # ys)) qt qt'"
    and "\<And>i. i \<noteq> p \<Longrightarrow> qkey (qt' i) = qkey (qt i)"
    and "qkey (qt' p) = qkey (f ((qt p)\<lparr>qnext := nxt, qprev := prv\<rparr>))"
proof -
  have d: "distinct (q # xs @ ys @ [q + 1])" using queue_rep_distinct [OF assms(1)] by simp
  have p: "p \<notin> set (q # xs @ ys @ [q + 1])"
    using assms(1-3) pid_not_queue [of p q] by (auto simp: queue_rep_def)
  have mem: "prv \<in> set (q # xs)" "nxt \<in> set (ys @ [q + 1])"
    unfolding assms(6,7) by (rule last_in_set, simp, rule hd_in_set, simp)
  then have neq: "prv \<noteq> nxt" "p \<noteq> prv" "p \<noteq> nxt" using d p by auto
  have lk0: "qlinks qt q (xs @ ys) (q + 1)" using assms(1) by (simp add: queue_rep_def)
  have lk: "qlinks qt' q (xs @ p # ys) (q + 1)"
    by (rule qlinks_insert [OF lk0 d p assms(6,7)])
      (use neq assms(4,5) in \<open>simp_all add: qt'_def link_in_def Let_def\<close>)
  show key: "qkey (qt' i) = qkey (qt i)" if "i \<noteq> p" for i
    using that by (simp add: qt'_def link_in_def Let_def)
  show "qkey (qt' p) = qkey (f ((qt p)\<lparr>qnext := nxt, qprev := prv\<rparr>))"
    using neq by (simp add: qt'_def link_in_def Let_def)
  show "queue_rep qt' q (xs @ p # ys)"
    using lk assms(1-3) p key by (auto simp: queue_rep_def)
  show "keeps_outside q (set (xs @ p # ys)) qt qt'"
    using mem by (auto simp: keeps_outside_def qt'_def link_in_def Let_def)
qed

lemma queue_rep_unlink:
  assumes "queue_rep qt q (xs @ p # ys)"
  shows "queue_rep (unlink p qt) q (xs @ ys)" and "keeps_outside q (set (xs @ ys)) qt (unlink p qt)"
    and "keeps_keys qt (unlink p qt)" and "qnext (qt p) = hd (ys @ [q + 1])" and "qprev (qt p) = last (q # xs)"
proof -
  have lk: "qlinks qt q xs p" "qlinks qt p ys (q + 1)"
    using assms by (auto simp: queue_rep_def qlinks_append)
  show nx: "qnext (qt p) = hd (ys @ [q + 1])" and pv: "qprev (qt p) = last (q # xs)"
    using qlinks_first [OF lk(2)] qlinks_last [OF lk(1)] by simp_all
  define prv nxt where pn: "prv = last (q # xs)" "nxt = hd (ys @ [q + 1])"
  have d: "distinct (q # xs @ p # ys @ [q + 1])" using queue_rep_distinct [OF assms] by simp
  have mem: "prv \<in> set (q # xs)" "nxt \<in> set (ys @ [q + 1])"
    unfolding pn by (rule last_in_set, simp, rule hd_in_set, simp)
  then have neq: "prv \<noteq> nxt" "p \<noteq> prv" "p \<noteq> nxt" using d by auto
  have lk0: "qlinks qt q (xs @ p # ys) (q + 1)" using assms by (simp add: queue_rep_def)
  have un: "unlink p qt = (qt(prv := (qt prv)\<lparr>qnext := nxt\<rparr>, nxt := (qt nxt)\<lparr>qprev := prv\<rparr>))"
    using neq(1) unfolding unlink_def Let_def nx [folded pn] pv [folded pn] by simp
  have "qlinks (unlink p qt) q (xs @ ys) (q + 1)"
    by (rule qlinks_remove [OF lk0 d pn]) (use neq in \<open>simp_all add: un\<close>)
  moreover show key: "keeps_keys qt (unlink p qt)" by (simp add: keeps_keys_def un)
  ultimately show "queue_rep (unlink p qt) q (xs @ ys)"
    using assms by (auto simp: queue_rep_def keeps_keys_def)
  show "keeps_outside q (set (xs @ ys)) qt (unlink p qt)"
    using mem by (auto simp: keeps_outside_def un)
qed

lemma getitem_unlink:
  assumes "queue_rep qt q (xs @ p # ys)"
  shows "getitem p qt = Ret (p, unlink p qt)"
proof -
  have "last (q # xs) \<in> set (q # xs)" "hd (ys @ [q + 1]) \<in> set (ys @ [q + 1])"
    by (rule last_in_set, simp, rule hd_in_set, simp)
  then have "0 \<le> last (q # xs) \<and> last (q # xs) < NQENT" "0 \<le> hd (ys @ [q + 1]) \<and> hd (ys @ [q + 1]) < NQENT"
    "0 \<le> p \<and> p < NQENT"
    using queue_rep_nodes [OF assms] by auto
  then show ?thesis
    using queue_rep_unlink(4,5) [OF assms] by (simp add: getitem_def unlink_def Let_def)
qed

lemma enqueue_rep:
  assumes "queue_rep qt q xs" and "\<not> isbadpid pt p" and "p \<notin> set xs"
  shows "\<exists>qt'. enqueue pt p q qt = Ret (p, qt') \<and> queue_rep qt' q (xs @ [p]) \<and>
    keeps_outside q (set (xs @ [p])) qt qt' \<and> keeps_keys qt qt'"
proof -
  have p: "pid_ok p" using assms(2) by (simp add: isbadpid_pid_ok)
  have q: "qid_ok q" using assms(1) by (simp add: queue_rep_def)
  let ?prev = "last (q # xs)"
  have pv: "qprev (qt (q + 1)) = ?prev" using assms(1) qlinks_last by (auto simp: queue_rep_def)
  have in_t: "0 \<le> ?prev \<and> ?prev < NQENT" "0 \<le> p \<and> p < NQENT" "0 \<le> q + 1 \<and> q + 1 < NQENT"
    using queue_rep_nodes [OF assms(1), of ?prev] pid_ok_in_table [OF p] qid_ok_in_table [OF q] by auto
  note sp = queue_rep_link_in [of qt q xs "[]" p "\<lambda>e. e" ?prev "q + 1"]
  have "enqueue pt p q qt = Ret (p, link_in p ?prev (q + 1) (\<lambda>e. e) qt)"
    using assms(2) qid_ok_isbadqid [OF q] in_t pv pid_not_queue [OF p q]
    by (simp add: enqueue_def queuetail_def Let_def link_in_def)
  moreover have "keeps_keys qt (link_in p ?prev (q + 1) (\<lambda>e. e) qt)"
    by (auto simp: keeps_keys_def link_in_def Let_def)
  ultimately show ?thesis using sp assms p by simp
qed


lemma isempty_rep: "queue_rep qt q xs \<Longrightarrow> isempty qt q = Ret (xs = [])"
  using qid_ok_in_table [of q] qlinks_first [of qt q xs "q + 1"]
  by (cases xs) (auto simp: queue_rep_def isempty_def firstid_def queuehead_def qid_ok_def pid_ok_def)

lemma nonempty_rep: "queue_rep qt q xs \<Longrightarrow> nonempty qt q = Ret (xs \<noteq> [])"
  using qid_ok_in_table [of q] qlinks_first [of qt q xs "q + 1"]
  by (cases xs) (auto simp: queue_rep_def nonempty_def firstid_def queuehead_def qid_ok_def pid_ok_def)

lemma firstid_rep: "queue_rep qt q xs \<Longrightarrow> firstid qt q = Ret (hd (xs @ [q + 1]))"
  using qid_ok_in_table [of q] qlinks_first [of qt q xs "q + 1"]
  by (auto simp: queue_rep_def firstid_def queuehead_def)

lemma firstkey_rep: "queue_rep qt q xs \<Longrightarrow> firstkey qt q = Ret (qkey (qt (hd (xs @ [q + 1]))))"
  using queue_rep_nodes [of qt q xs "hd (xs @ [q + 1])"] firstid_rep [of qt q xs]
  by (cases xs) (auto simp: firstkey_def)

lemma getfirst_rep:
  assumes "queue_rep qt q (p # xs)"
  shows "getfirst q qt = Ret (p, unlink p qt)"
  using assms isempty_rep [OF assms] getitem_unlink [of qt q "[]" p xs] qid_ok_in_table [of q]
  by (auto simp: getfirst_def queuehead_def queue_rep_def Let_def)

lemma getfirst_empty: "queue_rep qt q [] \<Longrightarrow> getfirst q qt = Ret (EMPTY, qt)"
  by (simp add: getfirst_def isempty_rep)

lemma getlast_rep:
  assumes "queue_rep qt q (xs @ [p])"
  shows "getlast q qt = Ret (p, unlink p qt)"
  using assms isempty_rep [OF assms] getitem_unlink [of qt q xs p "[]"] qid_ok_in_table [of q]
    qlinks_last [of qt q "xs @ [p]" "q + 1"]
  by (auto simp: getlast_def queuetail_def queue_rep_def Let_def)

lemma dequeue_empty: "queue_rep qt q [] \<Longrightarrow> dequeue q qt = Ret (EMPTY, qt)"
  using qid_ok_isbadqid [of q] by (simp add: dequeue_def isempty_rep) (simp add: queue_rep_def)

lemma dequeue_rep:
  assumes "queue_rep qt q (p # xs)"
  shows "\<exists>qt'. dequeue q qt = Ret (p, qt') \<and> queue_rep qt' q xs \<and> keeps_outside q (set (p # xs)) qt qt' \<and> keeps_keys qt qt'"
proof -
  have q: "qid_ok q" and p: "pid_ok p" using assms by (auto simp: queue_rep_def)
  note un = queue_rep_unlink [of qt q "[]" p xs, simplified, OF assms]
  let ?qt = "(unlink p qt)(p := (unlink p qt p)\<lparr>qprev := EMPTY, qnext := EMPTY\<rparr>)"
  have "dequeue q qt = Ret (p, ?qt)"
    using getfirst_rep [OF assms] isempty_rep [OF assms] qid_ok_isbadqid [OF q] pid_ok_in_table [OF p]
    by (simp add: dequeue_def)
  moreover have "p \<notin> set (q # xs @ [q + 1])" using queue_rep_distinct [OF assms] by simp
  then have "queue_rep ?qt q xs" by (intro queue_rep_frame [OF un(1)]) auto
  moreover have "keeps_outside q (set (p # xs)) qt ?qt" using un(2) by (auto simp: keeps_outside_def)
  moreover have "keeps_keys qt ?qt" using un(3) by (auto simp: keeps_keys_def)
  ultimately show ?thesis by blast
qed

text \<open>\<open>insert\<close>: after the nodes whose key is at least the new one, before the rest.\<close>

lemma insert_scan_rep:
  assumes "qlinks qt a xs b" and "\<And>i. i \<in> set (xs @ [b]) \<Longrightarrow> 0 \<le> i \<and> i < NQENT" and "qkey (qt b) < key"
  shows "insert_scan qt key (hd (xs @ [b])) = Some (Ret (hd (dropWhile (\<lambda>i. qkey (qt i) \<ge> key) xs @ [b])))"
  using assms
proof (induction xs arbitrary: a)
  case Nil
  then show ?case by (subst insert_scan.simps) simp
next
  case (Cons x xs)
  have "insert_scan qt key (hd (xs @ [b])) = Some (Ret (hd (dropWhile (\<lambda>i. qkey (qt i) \<ge> key) xs @ [b])))"
    using Cons.prems by (intro Cons.IH [of x]) auto
  moreover have "qnext (qt x) = hd (xs @ [b])" using Cons.prems(1) qlinks_first by auto
  ultimately show ?case using Cons.prems(2) by (subst insert_scan.simps) simp
qed

definition insert_desc :: "qtab \<Rightarrow> int \<Rightarrow> int \<Rightarrow> int list \<Rightarrow> int list" where
  "insert_desc qt key p xs = takeWhile (\<lambda>i. qkey (qt i) \<ge> key) xs @ p # dropWhile (\<lambda>i. qkey (qt i) \<ge> key) xs"

lemma insert_rep:
  assumes "queue_rep qt q xs" and "\<not> isbadpid pt p" and "p \<notin> set xs" and "MINKEY < key"
  shows "\<exists>qt'. insert_q pt p q key qt = Ret (OK, qt') \<and> queue_rep qt' q (insert_desc qt key p xs) \<and>
    keeps_outside q (set (p # xs)) qt qt' \<and> (\<forall>i. i \<noteq> p \<longrightarrow> qkey (qt' i) = qkey (qt i)) \<and> qkey (qt' p) = key"
proof -
  have p: "pid_ok p" using assms(2) by (simp add: isbadpid_pid_ok)
  have q: "qid_ok q" using assms(1) by (simp add: queue_rep_def)
  define ys where "ys = takeWhile (\<lambda>i. qkey (qt i) \<ge> key) xs"
  define zs where "zs = dropWhile (\<lambda>i. qkey (qt i) \<ge> key) xs"
  let ?prev = "last (q # ys)" and ?cur = "hd (zs @ [q + 1])"
  have xs: "xs = ys @ zs" by (simp add: ys_def zs_def)
  have lk: "qlinks qt q (ys @ zs) (q + 1)" using assms(1) by (simp add: queue_rep_def xs)
  have pv: "qprev (qt ?cur) = ?prev"
    using lk qlinks_last by (cases zs) (auto simp: qlinks_append)
  have mem: "?prev \<in> set (q # ys)" "?cur \<in> set (zs @ [q + 1])"
    by (rule last_in_set, simp, rule hd_in_set, simp)
  then have in_t: "0 \<le> ?prev \<and> ?prev < NQENT" "0 \<le> ?cur \<and> ?cur < NQENT" "0 \<le> p \<and> p < NQENT"
    using queue_rep_nodes [OF assms(1)] pid_ok_in_table [OF p] unfolding xs by auto
  have "insert_scan qt key (hd (xs @ [q + 1])) = Some (Ret ?cur)"
    using insert_scan_rep [of qt q xs "q + 1" key] queue_rep_nodes [OF assms(1)] assms(1,4)
    by (auto simp: queue_rep_def zs_def)
  moreover have "p \<noteq> ?prev" "p \<noteq> ?cur" "?prev \<noteq> ?cur"
    using mem assms(3) pid_not_queue [OF p q] queue_rep_distinct [OF assms(1)] unfolding xs by auto
  ultimately have "insert_q pt p q key qt = Ret (OK, link_in p ?prev ?cur (\<lambda>e. e\<lparr>qkey := key\<rparr>) qt)"
    using assms(2) qid_ok_isbadqid [OF q] in_t pv firstid_rep [OF assms(1)]
    by (simp add: insert_q_def Let_def link_in_def)
  moreover note sp = queue_rep_link_in [of qt q ys zs p "\<lambda>e. e\<lparr>qkey := key\<rparr>" ?prev ?cur, folded xs, OF assms(1) p assms(3)]
  moreover have "insert_desc qt key p xs = ys @ p # zs" by (simp add: insert_desc_def ys_def zs_def)
  moreover have "set (p # xs) = set (ys @ p # zs)" by (auto simp: xs)
  ultimately show ?thesis using sp by simp
qed


lemma newqueue_rep:
  assumes "qid_ok q"
  shows "\<exists>qt'. newqueue q qt = Ret (q, q + 2, qt') \<and> queue_rep qt' q [] \<and> keeps_outside q {} qt qt'"
proof -
  let ?qt = "qt(q := (qt q)\<lparr>qnext := q + 1, qprev := EMPTY, qkey := MAXKEY\<rparr>,
    q + 1 := (qt (q + 1))\<lparr>qnext := EMPTY, qprev := q, qkey := MINKEY\<rparr>)"
  have "newqueue q qt = Ret (q, q + 2, ?qt)"
    using qid_ok_in_table [OF assms] by (simp add: newqueue_def queuehead_def queuetail_def Let_def fun_upd_twist)
  then show ?thesis using assms by (auto simp: queue_rep_def keeps_outside_def)
qed

lemma newqueue_full: "NQENT \<le> nextqid \<Longrightarrow> newqueue nextqid qt = Ret (SYSERR, nextqid, qt)"
  by (simp add: newqueue_def)

section \<open>Delta lists\<close>

text \<open>
  In a delta list each key counts from the node before it. \<open>wake\<close> gives every process its
  absolute delay, starting at \<open>t\<close>.
\<close>

fun wake :: "qtab \<Rightarrow> int \<Rightarrow> int list \<Rightarrow> (int \<times> int) list" where
  "wake qt t [] = []"
| "wake qt t (x # xs) = (x, t + qkey (qt x)) # wake qt (t + qkey (qt x)) xs"

definition deltas_ok :: "qtab \<Rightarrow> int list \<Rightarrow> bool" where
  "deltas_ok qt xs \<longleftrightarrow> (\<forall>x \<in> set xs. 0 \<le> qkey (qt x)) \<and> (\<forall>(x, t) \<in> set (wake qt 0 xs). t < 2 ^ 31)"

fun split_delta :: "qtab \<Rightarrow> int \<Rightarrow> int list \<Rightarrow> int list \<times> int list \<times> int" where
  "split_delta qt key [] = ([], [], key)"
| "split_delta qt key (x # xs) =
    (if qkey (qt x) \<le> key
     then (case split_delta qt (key - qkey (qt x)) xs of (ys, zs, k) \<Rightarrow> (x # ys, zs, k))
     else ([], x # xs, key))"

definition delta_sum :: "qtab \<Rightarrow> int list \<Rightarrow> int" where
  "delta_sum qt xs = sum_list (map (\<lambda>x. qkey (qt x)) xs)"

lemma delta_sum_simps [simp]: "delta_sum qt [] = 0" "delta_sum qt (x # xs) = qkey (qt x) + delta_sum qt xs"
  by (simp_all add: delta_sum_def)

lemma wake_append: "wake qt t (xs @ ys) = wake qt t xs @ wake qt (t + delta_sum qt xs) ys"
  by (induction xs arbitrary: t) (simp_all add: add.assoc)

lemma wake_cong: "(\<And>x. x \<in> set xs \<Longrightarrow> qkey (qt' x) = qkey (qt x)) \<Longrightarrow> wake qt' t xs = wake qt t xs"
  by (induction xs arbitrary: t) auto

lemma delta_sum_cong: "(\<And>x. x \<in> set xs \<Longrightarrow> qkey (qt' x) = qkey (qt x)) \<Longrightarrow> delta_sum qt' xs = delta_sum qt xs"
  by (induction xs) auto

lemma wake_ge: "\<forall>x \<in> set xs. 0 \<le> qkey (qt x) \<Longrightarrow> (x, u) \<in> set (wake qt t xs) \<Longrightarrow> t + qkey (qt x) \<le> u"
  by (induction xs arbitrary: t) fastforce+

lemma deltas_ok_bound: "deltas_ok qt xs \<Longrightarrow> x \<in> set xs \<Longrightarrow> 0 \<le> qkey (qt x) \<and> qkey (qt x) < 2 ^ 31"
proof -
  assume ok: "deltas_ok qt xs" and x: "x \<in> set xs"
  have "\<exists>u. (x, u) \<in> set (wake qt t xs)" for t using x by (induction xs arbitrary: t) auto
  then obtain u where "(x, u) \<in> set (wake qt 0 xs)" by blast
  then show ?thesis using ok x wake_ge [of xs qt x u 0] by (fastforce simp: deltas_ok_def)
qed

lemma split_delta_props:
  assumes "split_delta qt key xs = (ys, zs, k)" and "0 \<le> key"
  shows "xs = ys @ zs" and "k = key - delta_sum qt ys" and "0 \<le> k" and "zs \<noteq> [] \<Longrightarrow> k < qkey (qt (hd zs))"
proof -
  have "xs = ys @ zs \<and> k = key - delta_sum qt ys \<and> 0 \<le> k \<and> (zs \<noteq> [] \<longrightarrow> k < qkey (qt (hd zs)))"
    using assms
  proof (induction xs arbitrary: key ys)
    case (Cons x xs)
    show ?case
    proof (cases "qkey (qt x) \<le> key")
      case True
      obtain ys' where "split_delta qt (key - qkey (qt x)) xs = (ys', zs, k)" and "ys = x # ys'"
        using True Cons.prems(1) by (auto split: prod.splits)
      then show ?thesis using Cons.IH [of "key - qkey (qt x)" ys'] True by (simp, blast)
    qed (use Cons.prems in auto)
  qed simp
  then show "xs = ys @ zs" "k = key - delta_sum qt ys" "0 \<le> k" "zs \<noteq> [] \<Longrightarrow> k < qkey (qt (hd zs))" by auto
qed

lemma insertd_scan_rep:
  assumes "qlinks qt prev xs (q + 1)" and "\<And>i. i \<in> set xs \<Longrightarrow> 0 \<le> i \<and> i < NQENT \<and> i \<noteq> q + 1"
    and "\<And>i. i \<in> set xs \<Longrightarrow> 0 \<le> qkey (qt i)" and "0 \<le> key" and "key < 2 ^ 31"
    and "split_delta qt key xs = (ys, zs, k)"
  shows "insertd_scan qt q key prev (hd (xs @ [q + 1])) = Some (Ret (k, last (prev # ys), hd (zs @ [q + 1])))"
  using assms
proof (induction xs arbitrary: key prev ys)
  case Nil
  then show ?case by (subst insertd_scan.simps) (simp add: queuetail_def)
next
  case (Cons x xs)
  have lk: "qlinks qt x xs (q + 1)" using Cons.prems(1) by simp
  have x: "0 \<le> x \<and> x < NQENT" "x \<noteq> q + 1" "0 \<le> qkey (qt x)" using Cons.prems(2,3) by auto
  show ?case
  proof (cases "qkey (qt x) \<le> key")
    case True
    obtain ys' where sp: "split_delta qt (key - qkey (qt x)) xs = (ys', zs, k)" and ys: "ys = x # ys'"
      using True Cons.prems(6) by (auto split: prod.splits)
    have b: "0 \<le> key - qkey (qt x)" "key - qkey (qt x) < 2 ^ 31" using True x(3) Cons.prems(5) by linarith+
    have "insertd_scan qt q (key - qkey (qt x)) x (hd (xs @ [q + 1])) = Some (Ret (k, last (x # ys'), hd (zs @ [q + 1])))"
      by (rule Cons.IH [OF lk _ _ b sp]) (use Cons.prems(2,3) in simp_all)
    moreover have "wrap32 (key - qkey (qt x)) = key - qkey (qt x)" using b by (intro wrap32_id) simp_all
    ultimately show ?thesis
      using True x qlinks_first [OF lk]
      by (subst insertd_scan.simps) (simp add: queuetail_def ys)
  next
    case False
    then show ?thesis using x Cons.prems(6) by (subst insertd_scan.simps) (auto simp: queuetail_def)
  qed
qed

text \<open>
  \<open>insertd\<close> places the process so that it wakes after \<open>key\<close> ticks, and leaves the time every
  other process wakes at as it was.
\<close>

definition insert_delta :: "qtab \<Rightarrow> int \<Rightarrow> int \<Rightarrow> int list \<Rightarrow> int list" where
  "insert_delta qt key p xs = (case split_delta qt key xs of (ys, zs, k) \<Rightarrow> ys @ p # zs)"

definition wake_ins :: "int \<Rightarrow> int \<Rightarrow> (int \<times> int) list \<Rightarrow> (int \<times> int) list" where
  "wake_ins key p ws = takeWhile (\<lambda>(x, t). t \<le> key) ws @ (p, key) # dropWhile (\<lambda>(x, t). t \<le> key) ws"

lemma wake_split:
  assumes "split_delta qt key xs = (ys, zs, k)"
  shows "takeWhile (\<lambda>(x, u). u \<le> t + key) (wake qt t xs) = wake qt t ys"
    and "dropWhile (\<lambda>(x, u). u \<le> t + key) (wake qt t xs) = wake qt (t + delta_sum qt ys) zs"
proof -
  have "takeWhile (\<lambda>(x, u). u \<le> t + key) (wake qt t xs) = wake qt t ys \<and>
    dropWhile (\<lambda>(x, u). u \<le> t + key) (wake qt t xs) = wake qt (t + delta_sum qt ys) zs"
    using assms
  proof (induction xs arbitrary: key ys t)
    case (Cons x xs)
    show ?case
    proof (cases "qkey (qt x) \<le> key")
      case True
      obtain ys' where "split_delta qt (key - qkey (qt x)) xs = (ys', zs, k)" and "ys = x # ys'"
        using True Cons.prems(1) by (auto split: prod.splits)
      then show ?thesis using Cons.IH [of "key - qkey (qt x)" ys' "t + qkey (qt x)"] True
        by (simp add: add.assoc)
    qed (use Cons.prems in auto)
  qed simp
  then show "takeWhile (\<lambda>(x, u). u \<le> t + key) (wake qt t xs) = wake qt t ys"
    and "dropWhile (\<lambda>(x, u). u \<le> t + key) (wake qt t xs) = wake qt (t + delta_sum qt ys) zs" by auto
qed

lemma wake_snd_ge: "deltas_ok qt xs \<Longrightarrow> x \<in> set xs \<Longrightarrow> 0 \<le> qkey (qt x)"
  by (simp add: deltas_ok_def)

lemma deltas_ok_iff: "deltas_ok qt xs \<longleftrightarrow> (\<forall>x \<in> set xs. 0 \<le> qkey (qt x)) \<and> (\<forall>u \<in> set (wake qt 0 xs). snd u < 2 ^ 31)"
  by (auto simp: deltas_ok_def)

text \<open>The effect of the new keys alone: \<open>p\<close> gets the rest \<open>k\<close>, its successor is reduced by it.\<close>

lemma split_delta_wake:
  assumes sd: "split_delta qt key xs = (ys, zs, k)" and "0 \<le> key" and "key < 2 ^ 31"
    and ok: "deltas_ok qt xs" and d: "distinct (ys @ zs)" and p: "p \<notin> set (ys @ zs)"
    and k: "qkey (qt' p) = k" and nz: "zs \<noteq> [] \<Longrightarrow> qkey (qt' (hd zs)) = qkey (qt (hd zs)) - k"
    and other: "\<And>x. x \<in> set (ys @ tl zs) \<Longrightarrow> qkey (qt' x) = qkey (qt x)"
  shows "wake qt' 0 (ys @ p # zs) = wake_ins key p (wake qt 0 xs)" and "deltas_ok qt' (ys @ p # zs)"
proof -
  note sp = split_delta_props [OF sd assms(2)]
  have ys: "wake qt' 0 ys = wake qt 0 ys" "delta_sum qt' ys = delta_sum qt ys"
    using wake_cong [of ys qt' qt 0] delta_sum_cong [of ys qt' qt] other by simp_all
  have kk: "delta_sum qt ys + k = key" using sp(2) by simp
  have "wake qt' key zs = wake qt (delta_sum qt ys) zs"
  proof (cases zs)
    case (Cons z zs')
    have "wake qt' t zs' = wake qt t zs'" for t by (rule wake_cong) (use other in \<open>auto simp: Cons\<close>)
    then show ?thesis using nz by (simp add: Cons kk [symmetric])
  qed simp
  then show wk: "wake qt' 0 (ys @ p # zs) = wake_ins key p (wake qt 0 xs)"
    using k ys kk wake_split [OF sd, of 0] by (simp add: wake_append wake_ins_def)
  have "0 \<le> qkey (qt' x)" if mem: "x \<in> set (ys @ p # zs)" for x
  proof -
    consider "x \<in> set (ys @ tl zs)" | "x = p" | "zs \<noteq> []" "x = hd zs" using mem by (cases zs) auto
    then show ?thesis
    proof cases
      case 1
      then have "x \<in> set xs" unfolding sp(1) by (cases zs) auto
      then show ?thesis using 1 other ok by (simp add: deltas_ok_iff)
    qed (use k sp(3,4) nz in simp_all)
  qed
  moreover have "snd u < 2 ^ 31" if "u \<in> set (wake_ins key p (wake qt 0 xs))" for u
  proof -
    have "u = (p, key) \<or> u \<in> set (wake qt 0 xs)"
      using that by (auto simp: wake_ins_def dest: set_takeWhileD set_dropWhileD)
    then show ?thesis using assms(3) ok unfolding deltas_ok_iff by auto
  qed
  ultimately show "deltas_ok qt' (ys @ p # zs)" unfolding deltas_ok_iff wk by blast
qed

text \<open>The table \<open>insertd\<close> leaves.\<close>

definition link_delta :: "int \<Rightarrow> int \<Rightarrow> int \<Rightarrow> int \<Rightarrow> int \<Rightarrow> qtab \<Rightarrow> qtab" where
  "link_delta p prv nxt tail k qt =
    (let qt1 = link_in p prv nxt (\<lambda>e. e\<lparr>qkey := k\<rparr>) qt
     in if nxt \<noteq> tail then qt1(nxt := (qt1 nxt)\<lparr>qkey := wrap32 (qkey (qt1 nxt) - k)\<rparr>) else qt1)"

lemma insertd_run:
  assumes "queue_rep qt q xs" and "\<not> isbadpid pt p" and "p \<notin> set xs"
    and "0 \<le> key" and "key < 2 ^ 31" and "deltas_ok qt xs"
    and sd: "split_delta qt key xs = (ys, zs, k)" and pn: "prv = last (q # ys)" "nxt = hd (zs @ [q + 1])"
  shows "insertd pt p q key qt = Ret (OK, link_delta p prv nxt (q + 1) k qt)"
    and "p \<noteq> prv" and "p \<noteq> nxt" and "prv \<noteq> nxt" and "prv \<in> set (q # ys)" and "nxt \<in> set (zs @ [q + 1])"
proof -
  have p: "pid_ok p" using assms(2) by (simp add: isbadpid_pid_ok)
  have q: "qid_ok q" using assms(1) by (simp add: queue_rep_def)
  note sp = split_delta_props [OF sd assms(4)]
  show mem: "prv \<in> set (q # ys)" "nxt \<in> set (zs @ [q + 1])"
    unfolding pn by (rule last_in_set, simp, rule hd_in_set, simp)
  have in_t: "0 \<le> prv \<and> prv < NQENT" "0 \<le> nxt \<and> nxt < NQENT" "0 \<le> p \<and> p < NQENT" "0 \<le> q \<and> q < NQENT"
    using mem queue_rep_nodes [OF assms(1)] pid_ok_in_table [OF p] qid_ok_in_table [OF q] unfolding sp(1) by auto
  have lk: "qlinks qt q xs (q + 1)" using assms(1) by (simp add: queue_rep_def)
  have scan: "insertd_scan qt q key q (hd (xs @ [q + 1])) = Some (Ret (k, prv, nxt))"
    unfolding pn
    by (rule insertd_scan_rep [OF lk _ _ assms(4,5) sd])
      (use queue_rep_nodes [OF assms(1)] queue_rep_distinct [OF assms(1)] assms(6) in \<open>auto simp: deltas_ok_def\<close>)
  show neq: "p \<noteq> prv" "p \<noteq> nxt" "prv \<noteq> nxt"
    using mem assms(3) pid_not_queue [OF p q] queue_rep_distinct [OF assms(1)] unfolding sp(1) by auto
  show "insertd pt p q key qt = Ret (OK, link_delta p prv nxt (q + 1) k qt)"
    using assms(2) qid_ok_isbadqid [OF q] in_t scan qlinks_first [OF lk] neq
    by (simp add: insertd_def Let_def link_delta_def link_in_def queuehead_def queuetail_def fun_upd_twist)
qed

lemma link_delta_keys:
  assumes "p \<noteq> prv" "p \<noteq> nxt" "prv \<noteq> nxt"
  shows "qkey (link_delta p prv nxt tail k qt p) = k"
    and "i \<noteq> p \<Longrightarrow> i \<noteq> nxt \<Longrightarrow> qkey (link_delta p prv nxt tail k qt i) = qkey (qt i)"
    and "nxt \<noteq> tail \<Longrightarrow> qkey (link_delta p prv nxt tail k qt nxt) = wrap32 (qkey (qt nxt) - k)"
    and "nxt = tail \<Longrightarrow> qkey (link_delta p prv nxt tail k qt nxt) = qkey (qt nxt)"
    and "qnext (link_delta p prv nxt tail k qt i) = qnext (link_in p prv nxt (\<lambda>e. e\<lparr>qkey := k\<rparr>) qt i)"
    and "qprev (link_delta p prv nxt tail k qt i) = qprev (link_in p prv nxt (\<lambda>e. e\<lparr>qkey := k\<rparr>) qt i)"
    and "i \<noteq> nxt \<Longrightarrow> link_delta p prv nxt tail k qt i = link_in p prv nxt (\<lambda>e. e\<lparr>qkey := k\<rparr>) qt i"
  using assms by (simp_all add: link_delta_def link_in_def Let_def)

lemma insertd_rep:
  assumes "queue_rep qt q xs" and "\<not> isbadpid pt p" and "p \<notin> set xs"
    and "0 \<le> key" and "key < 2 ^ 31" and "deltas_ok qt xs"
  shows "\<exists>qt'. insertd pt p q key qt = Ret (OK, qt') \<and> queue_rep qt' q (insert_delta qt key p xs) \<and>
    keeps_outside q (set (p # xs)) qt qt' \<and> wake qt' 0 (insert_delta qt key p xs) = wake_ins key p (wake qt 0 xs) \<and>
    deltas_ok qt' (insert_delta qt key p xs)"
proof -
  have p: "pid_ok p" using assms(2) by (simp add: isbadpid_pid_ok)
  have q: "qid_ok q" using assms(1) by (simp add: queue_rep_def)
  obtain ys zs k where sd: "split_delta qt key xs = (ys, zs, k)" by (cases "split_delta qt key xs") auto
  note sp = split_delta_props [OF sd assms(4)]
  define prv nxt where pn: "prv = last (q # ys)" "nxt = hd (zs @ [q + 1])"
  note run = insertd_run [OF assms sd pn]
  define qt' where "qt' = link_delta p prv nxt (q + 1) k qt"
  note keys = link_delta_keys [OF run(2-4), where tail = "q + 1" and k = k and qt = qt, folded qt'_def]
  note li = queue_rep_link_in [of qt q ys zs p "\<lambda>e. e\<lparr>qkey := k\<rparr>" prv nxt, folded sp(1), OF assms(1) p assms(3) _ _ pn]
  have d: "distinct (q # (ys @ zs) @ [q + 1])" "p \<notin> set (ys @ zs)"
    using queue_rep_distinct [OF assms(1)] assms(3) unfolding sp(1) by simp_all
  have nq: "nxt = q + 1 \<longleftrightarrow> zs = []" "zs \<noteq> [] \<Longrightarrow> nxt = hd zs" "nxt \<notin> set ys" "nxt \<notin> set (tl zs)" "nxt \<noteq> q"
    using d(1) unfolding pn by (cases zs; auto)+
  have "qkey (qt' (hd zs)) = qkey (qt (hd zs)) - k" if "zs \<noteq> []"
  proof -
    have "qkey (qt nxt) < 2 ^ 31" "k < qkey (qt nxt)"
      using that deltas_ok_bound [OF assms(6), of "hd zs"] sp(1,4) nq(2) by auto
    then have "wrap32 (qkey (qt nxt) - k) = qkey (qt nxt) - k" using sp(3) by (intro wrap32_id) simp_all
    then show ?thesis using that nq keys(3) by simp
  qed
  moreover have "qkey (qt' x) = qkey (qt x)" if "x \<in> set (ys @ tl zs)" for x
    using that nq(3,4) d(2) keys(2) [of x] list.set_sel(2) [of zs x] by (cases zs) auto
  ultimately have wk: "wake qt' 0 (ys @ p # zs) = wake_ins key p (wake qt 0 xs)" "deltas_ok qt' (ys @ p # zs)"
    using split_delta_wake [OF sd assms(4-6) _ d(2), of qt'] d(1) keys(1) by simp_all
  have "qlinks qt' q (ys @ p # zs) (q + 1) = qlinks (link_in p prv nxt (\<lambda>e. e\<lparr>qkey := k\<rparr>) qt) q (ys @ p # zs) (q + 1)"
    by (rule qlinks_cong) (simp_all only: keys(5,6))
  then have "queue_rep qt' q (ys @ p # zs)"
    using li(1) keys(2) [of q] li(3) [of "q + 1"] keys(2) [of "q + 1"] keys(4) nq(5) pid_not_queue [OF p q] assms(1)
    unfolding queue_rep_def by auto
  moreover have "keeps_outside q (set (p # xs)) qt qt'"
    unfolding keeps_outside_def sp(1)
  proof (intro allI impI)
    fix i assume i: "i \<notin> set (p # ys @ zs) \<union> {q, q + 1}"
    then have "i \<noteq> nxt" using run(6) by auto
    then show "qt' i = qt i" using keys(7) [of i] li(2) i unfolding keeps_outside_def by auto
  qed
  moreover have "insert_delta qt key p xs = ys @ p # zs" by (simp add: insert_delta_def sd)
  ultimately show ?thesis using run(1) wk by (intro exI [of _ qt']) (simp add: qt'_def)
qed

section \<open>All the queues of the table\<close>

text \<open>
  The queues \<open>ids\<close> of one table, with the list each of them holds: no process is on two of them,
  so an operation on one leaves the others as they are.
\<close>

definition queues :: "int set \<Rightarrow> qtab \<Rightarrow> (int \<Rightarrow> int list) \<Rightarrow> bool" where
  "queues ids qt Q \<longleftrightarrow> (\<forall>q \<in> ids. queue_rep qt q (Q q)) \<and>
     (\<forall>q \<in> ids. \<forall>r \<in> ids. q \<noteq> r \<longrightarrow> set (Q q) \<inter> set (Q r) = {})"

definition unqueued :: "int set \<Rightarrow> (int \<Rightarrow> int list) \<Rightarrow> int \<Rightarrow> bool" where
  "unqueued ids Q p \<longleftrightarrow> (\<forall>q \<in> ids. p \<notin> set (Q q))"

lemma queues_rep: "queues ids qt Q \<Longrightarrow> q \<in> ids \<Longrightarrow> queue_rep qt q (Q q)"
  by (simp add: queues_def)

lemma queues_upd:
  assumes "queues ids qt Q" and "q \<in> ids" and "queue_rep qt' q ys" and "keeps_outside q (set (Q q) \<union> P) qt qt'"
    and "set ys \<subseteq> set (Q q) \<union> P" and "\<And>r x. r \<in> ids \<Longrightarrow> r \<noteq> q \<Longrightarrow> x \<in> P \<Longrightarrow> x \<notin> set (Q r)"
    and "\<And>x. x \<in> P \<Longrightarrow> pid_ok x"
  shows "queues ids qt' (Q(q := ys))"
proof -
  have rep: "queue_rep qt' r (Q r)" if r: "r \<in> ids" "r \<noteq> q" for r
  proof (rule queue_rep_frame)
    show "queue_rep qt r (Q r)" using assms(1) r by (simp add: queues_def)
    fix i assume i: "i \<in> set (r # Q r @ [r + 1])"
    have ok: "qid_ok q" "qid_ok r" using assms(1,2) r by (auto simp: queues_def queue_rep_def)
    then have qr: "r \<noteq> q + 1" "r + 1 \<noteq> q" "r + 1 \<noteq> q + 1" using r(2) unfolding qid_ok_def by presburger+
    have pids: "\<And>x. x \<in> set (Q q) \<union> set (Q r) \<union> P \<Longrightarrow> pid_ok x"
      using assms(1,2,7) r by (auto simp: queues_def queue_rep_def)
    have "i \<notin> set (Q q) \<union> P \<union> {q, q + 1}"
    proof (cases "i \<in> set (Q r)")
      case True
      have "set (Q q) \<inter> set (Q r) = {}" using assms(1,2) r by (auto simp: queues_def)
      then show ?thesis using True assms(6) [OF r] pid_not_queue [OF pids ok(1), of i] by blast
    next
      case False
      then have ir: "i = r \<or> i = r + 1" using i by auto
      then have "\<not> pid_ok i" using pid_not_queue [OF _ ok(2)] by blast
      then have "i \<notin> set (Q q) \<union> P" using pids by blast
      then show ?thesis using ir qr r(2) by auto
    qed
    then show "qt' i = qt i" using assms(4) by (auto simp: keeps_outside_def)
  qed
  moreover have "set ys \<inter> set (Q r) = {}" if r: "r \<in> ids" "r \<noteq> q" for r
    using assms(1,2,5) assms(6) [OF r] r unfolding queues_def by blast
  ultimately show ?thesis using assms(1,3) unfolding queues_def by (auto simp: Int_commute)
qed

lemma queues_enqueue:
  assumes "queues ids qt Q" and "q \<in> ids" and "\<not> isbadpid pt p" and "unqueued ids Q p"
  shows "\<exists>qt'. enqueue pt p q qt = Ret (p, qt') \<and> queues ids qt' (Q(q := Q q @ [p])) \<and> keeps_keys qt qt'"
proof -
  have p: "pid_ok p" using assms(3) by (simp add: isbadpid_pid_ok)
  obtain qt' where e: "enqueue pt p q qt = Ret (p, qt')" "queue_rep qt' q (Q q @ [p])"
    "keeps_outside q (set (Q q @ [p])) qt qt'" "keeps_keys qt qt'"
    using enqueue_rep [OF queues_rep [OF assms(1,2)] assms(3)] assms(2,4) by (auto simp: unqueued_def)
  moreover have "queues ids qt' (Q(q := Q q @ [p]))"
    by (rule queues_upd [OF assms(1,2) e(2), of "{p}"]) (use e(3) assms(4) p in \<open>auto simp: unqueued_def\<close>)
  ultimately show ?thesis by blast
qed

lemma queues_dequeue:
  assumes "queues ids qt Q" and "q \<in> ids" and "Q q = p # xs"
  shows "\<exists>qt'. dequeue q qt = Ret (p, qt') \<and> queues ids qt' (Q(q := xs)) \<and> keeps_keys qt qt'"
proof -
  obtain qt' where e: "dequeue q qt = Ret (p, qt')" "queue_rep qt' q xs"
    "keeps_outside q (set (p # xs)) qt qt'" "keeps_keys qt qt'"
    using dequeue_rep [of qt q p xs] queues_rep [OF assms(1,2)] assms(3) by auto
  moreover have "queues ids qt' (Q(q := xs))"
    by (rule queues_upd [OF assms(1,2) e(2), of "{}"]) (use e(3) assms(3) in auto)
  ultimately show ?thesis by blast
qed

lemma queues_dequeue_empty: "queues ids qt Q \<Longrightarrow> q \<in> ids \<Longrightarrow> Q q = [] \<Longrightarrow> dequeue q qt = Ret (EMPTY, qt)"
  using dequeue_empty [of qt q] queues_rep [of ids qt Q q] by simp

lemma queues_getitem:
  assumes "queues ids qt Q" and "q \<in> ids" and "Q q = xs @ p # ys"
  shows "\<exists>qt'. getitem p qt = Ret (p, qt') \<and> queues ids qt' (Q(q := xs @ ys)) \<and> keeps_keys qt qt'"
proof -
  have rep: "queue_rep qt q (xs @ p # ys)" using queues_rep [OF assms(1,2)] assms(3) by simp
  note un = queue_rep_unlink [OF rep]
  have "queues ids (unlink p qt) (Q(q := xs @ ys))"
    by (rule queues_upd [OF assms(1,2) un(1), of "{}"])
      (use un(2) assms(3) in \<open>auto simp: keeps_outside_def\<close>)
  then show ?thesis using getitem_unlink [OF rep] un(3) by simp
qed

lemma queues_insert:
  assumes "queues ids qt Q" and "q \<in> ids" and "\<not> isbadpid pt p" and "unqueued ids Q p" and "MINKEY < key"
  shows "\<exists>qt'. insert_q pt p q key qt = Ret (OK, qt') \<and> queues ids qt' (Q(q := insert_desc qt key p (Q q))) \<and>
    (\<forall>i. i \<noteq> p \<longrightarrow> qkey (qt' i) = qkey (qt i)) \<and> qkey (qt' p) = key"
proof -
  have p: "pid_ok p" using assms(3) by (simp add: isbadpid_pid_ok)
  obtain qt' where e: "insert_q pt p q key qt = Ret (OK, qt')" "queue_rep qt' q (insert_desc qt key p (Q q))"
    "keeps_outside q (set (p # Q q)) qt qt'" "\<forall>i. i \<noteq> p \<longrightarrow> qkey (qt' i) = qkey (qt i)" "qkey (qt' p) = key"
    using insert_rep [OF queues_rep [OF assms(1,2)] assms(3) _ assms(5)] assms(2,4) by (auto simp: unqueued_def)
  moreover have "set (insert_desc qt key p (Q q)) \<subseteq> set (Q q) \<union> {p}"
    by (auto simp: insert_desc_def dest: set_takeWhileD set_dropWhileD)
  then have "queues ids qt' (Q(q := insert_desc qt key p (Q q)))"
    by (rule queues_upd [OF assms(1,2) e(2), of "{p}", rotated]) (use e(3) assms(4) p in \<open>auto simp: unqueued_def\<close>)
  ultimately show ?thesis by blast
qed

lemma set_insert_delta: "set (insert_delta qt key p xs) = insert p (set xs)"
proof -
  have "set ys \<union> set zs = set xs" if "split_delta qt k xs = (ys, zs, k')" for ys zs k k'
    using that by (induction xs arbitrary: k ys) (simp, fastforce split: if_splits prod.splits)
  then show ?thesis by (cases "split_delta qt key xs") (auto simp: insert_delta_def)
qed

lemma queues_insertd:
  assumes "queues ids qt Q" and "q \<in> ids" and "\<not> isbadpid pt p" and "unqueued ids Q p"
    and "0 \<le> key" and "key < 2 ^ 31" and "deltas_ok qt (Q q)"
  shows "\<exists>qt'. insertd pt p q key qt = Ret (OK, qt') \<and> queues ids qt' (Q(q := insert_delta qt key p (Q q))) \<and>
    wake qt' 0 (insert_delta qt key p (Q q)) = wake_ins key p (wake qt 0 (Q q)) \<and>
    deltas_ok qt' (insert_delta qt key p (Q q)) \<and> (\<forall>i. i \<notin> set (p # Q q) \<union> {q, q + 1} \<longrightarrow> qt' i = qt i)"
proof -
  have p: "pid_ok p" using assms(3) by (simp add: isbadpid_pid_ok)
  obtain qt' where e: "insertd pt p q key qt = Ret (OK, qt')" "queue_rep qt' q (insert_delta qt key p (Q q))"
    "keeps_outside q (set (p # Q q)) qt qt'" "wake qt' 0 (insert_delta qt key p (Q q)) = wake_ins key p (wake qt 0 (Q q))"
    "deltas_ok qt' (insert_delta qt key p (Q q))"
    using insertd_rep [OF queues_rep [OF assms(1,2)] assms(3) _ assms(5-7)] assms(2,4) by (auto simp: unqueued_def)
  moreover have "queues ids qt' (Q(q := insert_delta qt key p (Q q)))"
    by (rule queues_upd [OF assms(1,2) e(2), of "{p}"])
      (use e(3) assms(4) p in \<open>auto simp: unqueued_def set_insert_delta\<close>)
  ultimately show ?thesis by (auto simp: keeps_outside_def)
qed

section \<open>Interfaces\<close>

text \<open>Sequences of calls: one per process, and a queue emptied from its head.\<close>

fun run_all :: "('p \<Rightarrow> 't \<Rightarrow> ('r \<times> 't) result) \<Rightarrow> 'p list \<Rightarrow> 't \<Rightarrow> 't result" where
  "run_all f [] t = Ret t"
| "run_all f (p # ps) t = rbind (f p t) (\<lambda>(_, t). run_all f ps t)"

fun take_all :: "('t \<Rightarrow> ('r \<times> 't) result) \<Rightarrow> nat \<Rightarrow> 't \<Rightarrow> ('r list \<times> 't) result" where
  "take_all f 0 t = Ret ([], t)"
| "take_all f (Suc n) t = rbind (f t) (\<lambda>(r, t). rbind (take_all f n t) (\<lambda>(rs, t). Ret (r # rs, t)))"

text \<open>First-in first-out queues, as semaphores and ports use them.\<close>

locale fifo_queues =
  fixes enq :: "proctab \<Rightarrow> int \<Rightarrow> int \<Rightarrow> 't \<Rightarrow> (int \<times> 't) result"
    and deq :: "int \<Rightarrow> 't \<Rightarrow> (int \<times> 't) result"
    and holds :: "'t \<Rightarrow> (int \<Rightarrow> int list) \<Rightarrow> bool"
    and ids :: "int set"
  assumes enq_law: "holds t Q \<Longrightarrow> q \<in> ids \<Longrightarrow> \<not> isbadpid pt p \<Longrightarrow> unqueued ids Q p \<Longrightarrow>
      \<exists>t'. enq pt p q t = Ret (p, t') \<and> holds t' (Q(q := Q q @ [p]))"
    and deq_law: "holds t Q \<Longrightarrow> q \<in> ids \<Longrightarrow> Q q = p # xs \<Longrightarrow> \<exists>t'. deq q t = Ret (p, t') \<and> holds t' (Q(q := xs))"
    and deq_empty: "holds t Q \<Longrightarrow> q \<in> ids \<Longrightarrow> Q q = [] \<Longrightarrow> deq q t = Ret (EMPTY, t)"
begin

lemma enq_many:
  "holds t Q \<Longrightarrow> q \<in> ids \<Longrightarrow> distinct ps \<Longrightarrow> (\<And>p. p \<in> set ps \<Longrightarrow> \<not> isbadpid pt p \<and> unqueued ids Q p) \<Longrightarrow>
    \<exists>t'. run_all (\<lambda>p. enq pt p q) ps t = Ret t' \<and> holds t' (Q(q := Q q @ ps))"
proof (induction ps arbitrary: t Q)
  case (Cons p ps)
  obtain t1 where t1: "enq pt p q t = Ret (p, t1)" "holds t1 (Q(q := Q q @ [p]))"
    using enq_law [of t Q q pt p] Cons.prems by auto
  have "\<exists>t'. run_all (\<lambda>p. enq pt p q) ps t1 = Ret t' \<and> holds t' ((Q(q := Q q @ [p]))(q := (Q(q := Q q @ [p])) q @ ps))"
    by (rule Cons.IH [OF t1(2) Cons.prems(2)]) (use Cons.prems(3,4) in \<open>auto simp: unqueued_def\<close>)
  then show ?case using t1(1) by (simp add: fun_upd_def cong: if_cong)
qed simp

lemma deq_many:
  "holds t Q \<Longrightarrow> q \<in> ids \<Longrightarrow> Q q = ps @ xs \<Longrightarrow> \<exists>t'. take_all (deq q) (length ps) t = Ret (ps, t') \<and> holds t' (Q(q := xs))"
proof (induction ps arbitrary: t Q)
  case (Cons p ps)
  obtain t1 where t1: "deq q t = Ret (p, t1)" "holds t1 (Q(q := ps @ xs))"
    using deq_law [of t Q q p "ps @ xs"] Cons.prems by auto
  then show ?case using Cons.IH [OF t1(2) Cons.prems(2)] by (auto simp: fun_upd_def cong: if_cong)
next
  case Nil
  then show ?case by (auto simp: fun_upd_idem)
qed

lemma first_in_first_out:
  assumes "holds t Q" and "q \<in> ids" and "distinct ps" and "\<And>p. p \<in> set ps \<Longrightarrow> \<not> isbadpid pt p \<and> unqueued ids Q p"
  shows "\<exists>t1 t2. run_all (\<lambda>p. enq pt p q) ps t = Ret t1 \<and>
    take_all (deq q) (length (Q q @ ps)) t1 = Ret (Q q @ ps, t2) \<and> holds t2 (Q(q := [])) \<and> deq q t2 = Ret (EMPTY, t2)"
proof -
  obtain t1 where t1: "run_all (\<lambda>p. enq pt p q) ps t = Ret t1" "holds t1 (Q(q := Q q @ ps))"
    using enq_many [OF assms] by blast
  obtain t2 where t2: "take_all (deq q) (length (Q q @ ps)) t1 = Ret (Q q @ ps, t2)" "holds t2 (Q(q := []))"
    using deq_many [OF t1(2) assms(2), of "Q q @ ps" "[]"] by auto
  then show ?thesis using t1(1) deq_empty [OF t2(2) assms(2)] by auto
qed

end

interpretation fifo: fifo_queues enqueue dequeue "queues ids" ids for ids :: "int set"
proof (unfold_locales, goal_cases)
  case (1 t Q q pt p)
  then show ?case using queues_enqueue by blast
next
  case (2 t Q q p xs)
  then show ?case using queues_dequeue by blast
next
  case (3 t Q q)
  then show ?case by (rule queues_dequeue_empty)
qed

text \<open>A queue kept in descending key order, as the ready list is; \<open>ws\<close> lists its processes with their keys.\<close>

locale keyed_queue =
  fixes ins :: "int \<Rightarrow> int \<Rightarrow> 't \<Rightarrow> (int \<times> 't) result"
    and deq :: "'t \<Rightarrow> (int \<times> 't) result"
    and holds :: "'t \<Rightarrow> (int \<times> int) list \<Rightarrow> bool"
    and valid :: "int \<Rightarrow> bool"
  assumes ins_law: "holds t ws \<Longrightarrow> valid p \<Longrightarrow> p \<notin> fst ` set ws \<Longrightarrow> MINKEY < k \<Longrightarrow>
      \<exists>t'. ins p k t = Ret (OK, t') \<and>
        holds t' (takeWhile (\<lambda>w. k \<le> snd w) ws @ (p, k) # dropWhile (\<lambda>w. k \<le> snd w) ws)"
    and deq_law: "holds t (w # ws) \<Longrightarrow> \<exists>t'. deq t = Ret (fst w, t') \<and> holds t' ws"
begin

lemma ins_many:
  "holds t [] \<Longrightarrow> distinct (map fst ws) \<Longrightarrow> (\<And>w. w \<in> set ws \<Longrightarrow> valid (fst w) \<and> MINKEY < snd w) \<Longrightarrow>
    \<exists>t'. run_all (\<lambda>w. ins (fst w) (snd w)) ws t = Ret t' \<and> holds t' (sort_key (\<lambda>w. - snd w) ws)"
proof (induction ws rule: rev_induct)
  case (snoc w ws)
  have app: "run_all f (xs @ ys) u = rbind (run_all f xs u) (run_all f ys)" for f :: "int \<times> int \<Rightarrow> 't \<Rightarrow> (int \<times> 't) result" and xs ys u
    by (induction xs arbitrary: u) (auto simp: rbind_assoc intro!: arg_cong [of _ _ "rbind _"] ext)
  obtain t1 where t1: "run_all (\<lambda>w. ins (fst w) (snd w)) ws t = Ret t1" "holds t1 (sort_key (\<lambda>w. - snd w) ws)"
    using snoc by auto
  have "fst w \<notin> fst ` set (sort_key (\<lambda>w. - snd w) ws)" using snoc.prems(2) by simp
  then obtain t2 where "ins (fst w) (snd w) t1 = Ret (OK, t2)"
    "holds t2 (takeWhile (\<lambda>v. snd w \<le> snd v) (sort_key (\<lambda>w. - snd w) ws) @ (fst w, snd w) #
      dropWhile (\<lambda>v. snd w \<le> snd v) (sort_key (\<lambda>w. - snd w) ws))"
    using ins_law [OF t1(2), of "fst w" "snd w"] snoc.prems(3) by auto
  then show ?case using t1(1) sort_key_snoc [of "\<lambda>w. - snd w" ws w] by (simp add: app)
qed simp

lemma deq_all: "holds t ws \<Longrightarrow> \<exists>t'. take_all deq (length ws) t = Ret (map fst ws, t') \<and> holds t' []"
proof (induction ws arbitrary: t)
  case (Cons w ws)
  then obtain t1 where "deq t = Ret (fst w, t1)" "holds t1 ws" using deq_law by blast
  then show ?case using Cons.IH [of t1] by auto
qed simp

lemma highest_key_first:
  assumes "holds t []" and "distinct (map fst ws)" and "\<And>w. w \<in> set ws \<Longrightarrow> valid (fst w) \<and> MINKEY < snd w"
  shows "\<exists>t1 t2. run_all (\<lambda>w. ins (fst w) (snd w)) ws t = Ret t1 \<and>
    take_all deq (length ws) t1 = Ret (map fst (sort_key (\<lambda>w. - snd w) ws), t2)"
proof -
  obtain t1 where t1: "run_all (\<lambda>w. ins (fst w) (snd w)) ws t = Ret t1" "holds t1 (sort_key (\<lambda>w. - snd w) ws)"
    using ins_many [OF assms] by blast
  then show ?thesis using deq_all [OF t1(2)] by auto
qed

end

definition keyed_rep :: "int \<Rightarrow> qtab \<Rightarrow> (int \<times> int) list \<Rightarrow> bool" where
  "keyed_rep q qt ws \<longleftrightarrow> queue_rep qt q (map fst ws) \<and> (\<forall>(x, k) \<in> set ws. qkey (qt x) = k)"

lemma keyed_rep_insert:
  assumes "keyed_rep q qt ws" and "\<not> isbadpid pt p" and "p \<notin> fst ` set ws" and "MINKEY < k"
  shows "\<exists>qt'. insert_q pt p q k qt = Ret (OK, qt') \<and>
    keyed_rep q qt' (takeWhile (\<lambda>w. k \<le> snd w) ws @ (p, k) # dropWhile (\<lambda>w. k \<le> snd w) ws)"
proof -
  obtain qt' where qt': "insert_q pt p q k qt = Ret (OK, qt')" "queue_rep qt' q (insert_desc qt k p (map fst ws))"
    "\<forall>i. i \<noteq> p \<longrightarrow> qkey (qt' i) = qkey (qt i)" "qkey (qt' p) = k"
    using insert_rep [of qt q "map fst ws" pt p k] assms by (auto simp: keyed_rep_def)
  have k: "\<And>w. w \<in> set ws \<Longrightarrow> qkey (qt (fst w)) = snd w" using assms(1) by (auto simp: keyed_rep_def)
  then have "takeWhile (\<lambda>w. k \<le> qkey (qt (fst w))) ws = takeWhile (\<lambda>w. k \<le> snd w) ws"
    "dropWhile (\<lambda>w. k \<le> qkey (qt (fst w))) ws = dropWhile (\<lambda>w. k \<le> snd w) ws"
    by (auto intro: takeWhile_cong dropWhile_cong)
  then have "insert_desc qt k p (map fst ws) = map fst (takeWhile (\<lambda>w. k \<le> snd w) ws @ (p, k) # dropWhile (\<lambda>w. k \<le> snd w) ws)"
    by (simp add: insert_desc_def takeWhile_map dropWhile_map comp_def)
  moreover have "qkey (qt' (fst w)) = snd w" if "w \<in> set ws" for w
    using that k [OF that] qt'(3) assms(3) by (metis image_eqI)
  ultimately show ?thesis
    using qt' by (fastforce simp: keyed_rep_def dest: set_takeWhileD set_dropWhileD)
qed

interpretation keyed: keyed_queue "\<lambda>p k. insert_q pt p q k" "dequeue q" "keyed_rep q" "\<lambda>p. \<not> isbadpid pt p"
  for pt :: proctab and q :: int
proof (unfold_locales, goal_cases)
  case (1 t ws p k)
  then show ?case by (rule keyed_rep_insert)
next
  case (2 t w ws)
  obtain t' where "dequeue q t = Ret (fst w, t')" "queue_rep t' q (map fst ws)" "keeps_keys t t'"
    using dequeue_rep [of t q "fst w" "map fst ws"] 2 by (auto simp: keyed_rep_def)
  then show ?case using 2 by (auto simp: keyed_rep_def keeps_keys_def)
qed

section \<open>Properties\<close>

text \<open>For the examples: a table with the empty queues 100 and 102, and a process table with no free entry.\<close>

definition qtab0 :: qtab where
  "qtab0 = (\<lambda>_. \<lparr>qkey = 0, qnext = 0, qprev = 0\<rparr>)
    (100 := \<lparr>qkey = MAXKEY, qnext = 101, qprev = EMPTY\<rparr>, 101 := \<lparr>qkey = MINKEY, qnext = EMPTY, qprev = 100\<rparr>,
     102 := \<lparr>qkey = MAXKEY, qnext = 103, qprev = EMPTY\<rparr>, 103 := \<lparr>qkey = MINKEY, qnext = EMPTY, qprev = 102\<rparr>)"

definition proc0 :: procent where
  "proc0 = \<lparr>prstate = PR_READY, prprio = 10, prstkptr = 0, prstkbase = 0, prstklen = 0, prname = ''p'', prsem = 0,
    prparent = 0, prmsg = 0, pdbr = 0, hsize = 0, vfree = 0, vmax = 0, prhasmsg = False, pruser = False, prdesc = (\<lambda>_. 0)\<rparr>"

lemma qtab0_rep: "queue_rep qtab0 100 []" "queue_rep qtab0 102 []"
  by (simp_all add: queue_rep_def qtab0_def qid_ok_def layout_defs)

lemma qtab0_queues: "queues {100, 102} qtab0 (\<lambda>_. [])"
  using qtab0_rep by (simp add: queues_def)

lemma proc0_ok: "\<not> isbadpid (\<lambda>_. proc0) p \<longleftrightarrow> pid_ok p"
  by (simp add: isbadpid_pid_ok proc0_def)

text \<open>
  C14: queues are first in, first out. Valid processes that are on no queue, enqueued one after
  the other, come out of \<open>dequeue\<close> in that order behind the ones that were waiting; the
  queue is then empty (\<open>dequeue\<close> returns \<open>EMPTY\<close>) and every other queue holds what it held.
\<close>

theorem queue_fifo:
  assumes "queues ids qt Q" and "q \<in> ids" and "distinct ps" and "\<forall>p \<in> set ps. \<not> isbadpid pt p \<and> unqueued ids Q p"
  shows "\<exists>qt1 qt2. run_all (\<lambda>p. enqueue pt p q) ps qt = Ret qt1 \<and>
    take_all (dequeue q) (length (Q q @ ps)) qt1 = Ret (Q q @ ps, qt2) \<and> queues ids qt2 (Q(q := [])) \<and>
    dequeue q qt2 = Ret (EMPTY, qt2)"
  using fifo.first_in_first_out [OF assms(1-3)] assms(4) by blast

theorem queue_fifo_witness:
  "\<exists>qt1 qt2. run_all (\<lambda>p. enqueue (\<lambda>_. proc0) p 100) [7, 3, 5] qtab0 = Ret qt1 \<and>
    take_all (dequeue 100) 3 qt1 = Ret ([7, 3, 5], qt2) \<and> queues {100, 102} qt2 (\<lambda>_. []) \<and> dequeue 100 qt2 = Ret (EMPTY, qt2)"
  using queue_fifo [OF qtab0_queues, of 100 "[7, 3, 5]" "\<lambda>_. proc0"]
  by (simp add: proc0_ok pid_ok_def unqueued_def layout_defs fun_upd_def eval_nat_numeral)

text \<open>
  C15: \<open>insert\<close> keeps a queue in descending key order, and processes of equal key in
  order of arrival: processes inserted into an empty queue with keys above \<open>MINKEY\<close> leave it in
  the order of the stable sort by descending key. The scan always ends.
\<close>

theorem insert_priority_order:
  assumes "queue_rep qt q []" and "distinct (map fst ws)" and "\<forall>(p, k) \<in> set ws. \<not> isbadpid pt p \<and> MINKEY < k"
  shows "\<exists>qt1 qt2. run_all (\<lambda>(p, k). insert_q pt p q k) ws qt = Ret qt1 \<and>
    take_all (dequeue q) (length ws) qt1 = Ret (map fst (sort_key (\<lambda>(p, k). - k) ws), qt2)"
  using keyed.highest_key_first [of q qt ws pt] assms by (auto simp: keyed_rep_def case_prod_unfold)

theorem insert_priority_order_witness:
  "\<exists>qt1 qt2. run_all (\<lambda>(p, k). insert_q (\<lambda>_. proc0) p 100 k) [(1, 20), (2, 50), (3, 20), (4, 90)] qtab0 = Ret qt1 \<and>
    take_all (dequeue 100) 4 qt1 = Ret ([4, 2, 1, 3], qt2)"
  using insert_priority_order [OF qtab0_rep(1), of "[(1, 20), (2, 50), (3, 20), (4, 90)]" "\<lambda>_. proc0"]
  by (simp add: proc0_ok pid_ok_def layout_defs MINKEY_def eval_nat_numeral)

text \<open>
  \<open>insertd\<close> on a delta list. The process is placed so that it wakes after exactly \<open>key\<close>
  ticks, behind those that wake at the same time; the absolute wake-up time of every process
  already on the list is unchanged, no key becomes negative and the other queues are untouched.
\<close>

theorem insertd_keeps_delays:
  assumes "queues ids qt Q" and "q \<in> ids" and "\<not> isbadpid pt p" and "unqueued ids Q p"
    and "0 \<le> key" and "key < 2 ^ 31" and "deltas_ok qt (Q q)"
  shows "\<exists>qt' xs. insertd pt p q key qt = Ret (OK, qt') \<and> queues ids qt' (Q(q := xs)) \<and> deltas_ok qt' xs \<and>
    wake qt' 0 xs = takeWhile (\<lambda>(x, t). t \<le> key) (wake qt 0 (Q q)) @ (p, key) # dropWhile (\<lambda>(x, t). t \<le> key) (wake qt 0 (Q q))"
  using queues_insertd [OF assms] by (auto simp: wake_ins_def)

theorem insertd_keeps_delays_witness:
  "\<exists>qt' xs. insertd (\<lambda>_. proc0) 5 100 30 qtab0 = Ret (OK, qt') \<and> queues {100, 102} qt' ((\<lambda>_. [])(100 := xs)) \<and>
    deltas_ok qt' xs \<and> wake qt' 0 xs = [(5, 30)]"
  using insertd_keeps_delays [OF qtab0_queues, of 100 "\<lambda>_. proc0" 5 30]
  by (simp add: proc0_ok pid_ok_def unqueued_def deltas_ok_def layout_defs)

text \<open>
  \<open>getitem\<close> takes a process out of the middle of whatever queue it is on: the others keep
  their order and keys, and every other queue is untouched.
\<close>

theorem getitem_removes:
  assumes "queues ids qt Q" and "q \<in> ids" and "Q q = xs @ p # ys"
  shows "\<exists>qt'. getitem p qt = Ret (p, qt') \<and> queues ids qt' (Q(q := xs @ ys)) \<and> (\<forall>i. qkey (qt' i) = qkey (qt i))"
  using queues_getitem [OF assms] by (auto simp: keeps_keys_def)

theorem getitem_removes_witness:
  "\<exists>qt qt'. queues {100, 102} qt ((\<lambda>_. [])(100 := [7, 3, 5])) \<and> getitem 3 qt = Ret (3, qt') \<and>
    queues {100, 102} qt' ((\<lambda>_. [])(100 := [7, 5]))"
proof -
  have "\<not> isbadpid (\<lambda>_. proc0) p \<and> unqueued {100, 102} (\<lambda>_. []) p" if "p \<in> set [7, 3, 5]" for p
    using that by (auto simp: proc0_ok pid_ok_def unqueued_def layout_defs)
  then obtain qt where qt: "queues {100, 102} qt ((\<lambda>_. [])(100 := [7, 3, 5]))"
    using fifo.enq_many [OF qtab0_queues, of 100 "[7, 3, 5]" "\<lambda>_. proc0"] by auto
  show ?thesis using getitem_removes [OF qt, of 100 "[7]" 3 "[5]"] qt by auto
qed

end
