(* ===== verification/Paging.thy ===== *)
theory Paging
  imports ProcTab
begin

text \<open>
  The memory layout and the page tables: \<open>include/paging.h\<close>, \<open>system/paging.c\<close>,
  \<open>system/meminit.c\<close> and \<open>free_vpage\<close> of \<open>system/kernel_services.c\<close>.

  The record \<open>vm\<close> holds the physical memory and the globals of those files. The four page pools
  (page directories and tables, FFS frames, swap frames, stack frames) are free lists of
  the kind of theory \<open>FreeList\<close>, whose heads sit at the addresses the linker chose. A page
  directory or table entry is the 32-bit word the processor reads; the bit fields of
  \<open>pd_t\<close>, \<open>pt_t\<close>, \<open>pdbr_t\<close> and \<open>virt_addr_t\<close> are read and written in it.

  The kernel runs with a directory that maps its addresses to themselves, so its own accesses
  are accesses to physical memory.
\<close>

section \<open>Constants\<close>

definition PAGE_SIZE :: u32 where "PAGE_SIZE = 4096"
definition PAGE_OFFSET_BITS :: nat where "PAGE_OFFSET_BITS = 12"
definition MAX_HEAP_SIZE :: u32 where "MAX_HEAP_SIZE = 4096"
definition MAX_SWAP_SIZE :: u32 where "MAX_SWAP_SIZE = 2048"
definition MAX_FSS_SIZE :: u32 where "MAX_FSS_SIZE = 2048"
definition MAX_STACK_SIZE :: u32 where "MAX_STACK_SIZE = 2048"
definition MAX_PT_SIZE :: u32 where "MAX_PT_SIZE = 256"
definition N_PAGE_ENTRIES :: u32 where "N_PAGE_ENTRIES = 1024"
definition HOLESTART :: addr where "HOLESTART = 640 * 1024"
definition HOLEEND :: addr where "HOLEEND = 1024 * 1024"
definition NULLSTK :: u32 where "NULLSTK = 8192"

lemmas paging_consts [layout_defs] =
  PAGE_SIZE_def PAGE_OFFSET_BITS_def MAX_HEAP_SIZE_def MAX_SWAP_SIZE_def MAX_FSS_SIZE_def
  MAX_STACK_SIZE_def MAX_PT_SIZE_def N_PAGE_ENTRIES_def HOLESTART_def HOLEEND_def NULLSTK_def

section \<open>Bit fields\<close>

definition put_bit :: "nat \<Rightarrow> bool \<Rightarrow> u32 \<Rightarrow> u32" where
  "put_bit n b e = (if b then set_bit n e else unset_bit n e)"

text \<open>The 20-bit field above bit 12: \<open>pd_base\<close>, \<open>pt_base\<close> and \<open>pdbr_base\<close>.\<close>

definition put_base :: "u32 \<Rightarrow> u32 \<Rightarrow> u32" where
  "put_base b e = push_bit 12 b OR (e AND mask 12)"

definition pd_pres :: "u32 \<Rightarrow> bool" where "pd_pres e = bit e 0"
definition pd_base :: "u32 \<Rightarrow> u32" where "pd_base e = drop_bit 12 e"

definition pt_pres :: "u32 \<Rightarrow> bool" where "pt_pres e = bit e 0"
definition pt_dirty :: "u32 \<Rightarrow> bool" where "pt_dirty e = bit e 6"
definition pt_isvmalloc :: "u32 \<Rightarrow> bool" where "pt_isvmalloc e = bit e 9"
definition pt_isswapped :: "u32 \<Rightarrow> bool" where "pt_isswapped e = bit e 10"
definition pt_already_swapped :: "u32 \<Rightarrow> bool" where "pt_already_swapped e = bit e 11"
definition pt_base :: "u32 \<Rightarrow> u32" where "pt_base e = drop_bit 12 e"

definition pdbr_base :: "u32 \<Rightarrow> u32" where "pdbr_base e = drop_bit 12 e"

definition pg_offset :: "addr \<Rightarrow> u32" where "pg_offset a = a AND mask 12"
definition pt_offset :: "addr \<Rightarrow> u32" where "pt_offset a = drop_bit 12 a AND mask 10"
definition pd_offset :: "addr \<Rightarrow> u32" where "pd_offset a = drop_bit 22 a"

lemmas field_defs = pd_pres_def pd_base_def pt_pres_def pt_dirty_def pt_isvmalloc_def pt_isswapped_def
  pt_already_swapped_def pt_base_def pdbr_base_def

text \<open>The address of a frame, and of entry \<open>i\<close> of the directory or table in it.\<close>

definition frame_addr :: "u32 \<Rightarrow> addr" where
  "frame_addr f = push_bit PAGE_OFFSET_BITS f"

definition entry_addr :: "addr \<Rightarrow> u32 \<Rightarrow> addr" where
  "entry_addr p i = p + 4 * i"

section \<open>State\<close>

record vm =
  vmem :: mem
  memlist :: addr
  pdptlist :: addr
  ffslist :: addr
  swaplist :: addr
  vstacklist :: addr
  minheap :: addr
  maxheap :: addr
  minpdpt :: addr
  maxpdpt :: addr
  minffs :: addr
  maxffs :: addr
  minswap :: addr
  maxswap :: addr
  minvstack :: addr
  maxvstack :: addr
  n_static_pages :: u32
  n_free_vpages :: u32
  ptmap :: "u32 \<Rightarrow> addr"
  swap2ffsmap :: "u32 \<Rightarrow> addr"
  ffs2swapmap :: "u32 \<Rightarrow> u32"

section \<open>Initialisation\<close>

text \<open>\<open>meminit\<close>: the kernel heap, in one block or in two around the hole below 1 MB; \<open>end_addr\<close> is the linker's \<open>end\<close>.\<close>

definition meminit :: "addr \<Rightarrow> vm \<Rightarrow> vm" where
  "meminit end_addr v =
    (let v = v\<lparr>minheap := end_addr\<rparr>;
         memptr = roundmb (minheap v);
         m = set_mnext (memlist v) memptr (vmem v) in
     if maxheap v + 1 > HOLESTART then
       let m = set_mnext memptr HOLEEND m;
           m = set_mlength memptr (truncmb (HOLESTART - end_addr - 4)) m;
           m = set_mnext HOLEEND NULL m;
           m = set_mlength HOLEEND (truncmb (maxheap v - HOLEEND - NULLSTK)) m
       in v\<lparr>vmem := m\<rparr>
     else
       let memptr = roundmb end_addr;
           m = set_mnext (memlist v) memptr m;
           m = set_mnext memptr NULL m;
           m = set_mlength memptr (truncmb (maxheap v - end_addr - NULLSTK)) m
       in v\<lparr>vmem := m\<rparr>)"

text \<open>\<open>__init\<close>: a pool of one block; returns the bounds it stores through its two pointers.\<close>

definition init_list :: "addr \<Rightarrow> addr \<Rightarrow> u32 \<Rightarrow> mem \<Rightarrow> (addr \<times> addr \<times> mem) result" where
  "init_list lst start listlength m =
    (let minstruct = roundmb start;
         listlength = truncmb listlength;
         memptr = minstruct;
         m = set_mnext lst memptr m;
         m = set_mlength memptr listlength m;
         m = set_mnext memptr NULL m in
     if minstruct \<le> HOLESTART then Halted
     else Ret (minstruct, minstruct + listlength - 1, m))"

definition init_paging :: "vm \<Rightarrow> vm result" where
  "init_paging v =
    rbind (init_list (pdptlist v) (maxheap v + 1) (PAGE_SIZE * MAX_PT_SIZE) (vmem v)) (\<lambda>(lo, hi, m).
    let v = v\<lparr>vmem := m, minpdpt := lo, maxpdpt := hi\<rparr>;
        v = v\<lparr>n_static_pages := - 1, n_free_vpages := MAX_HEAP_SIZE\<rparr> in
    rbind (init_list (ffslist v) (maxpdpt v + 1) (PAGE_SIZE * MAX_FSS_SIZE) (vmem v)) (\<lambda>(lo, hi, m).
    let v = v\<lparr>vmem := m, minffs := lo, maxffs := hi\<rparr>;
        v = v\<lparr>ptmap := (\<lambda>i. if i < MAX_FSS_SIZE then NULL else ptmap v i),
              ffs2swapmap := (\<lambda>i. if i < MAX_FSS_SIZE then - 1 else ffs2swapmap v i)\<rparr>;
        v = v\<lparr>swap2ffsmap := (\<lambda>i. if i < MAX_SWAP_SIZE then NULL else swap2ffsmap v i)\<rparr> in
    rbind (init_list (swaplist v) (maxffs v + 1) (PAGE_SIZE * MAX_SWAP_SIZE) (vmem v)) (\<lambda>(lo, hi, m).
    let v = v\<lparr>vmem := m, minswap := lo, maxswap := hi\<rparr> in
    rbind (init_list (vstacklist v) (maxswap v + 1) (PAGE_SIZE * MAX_STACK_SIZE) (vmem v)) (\<lambda>(lo, hi, m).
    Ret (v\<lparr>vmem := m, minvstack := lo, maxvstack := hi\<rparr>)))))"

section \<open>Page frames\<close>

definition getpdptframe :: "vm \<Rightarrow> (u32 \<times> vm) result" where
  "getpdptframe v =
    rbind (getfreemem (pdptlist v) PAGE_SIZE (vmem v)) (\<lambda>(frame, m).
    kassert (frame \<noteq> USYSERR) (Ret (drop_bit PAGE_OFFSET_BITS frame, v\<lparr>vmem := m\<rparr>)))"

definition getffsframe :: "vm \<Rightarrow> (u32 \<times> vm) result" where
  "getffsframe v =
    rbind (getfreemem (ffslist v) PAGE_SIZE (vmem v)) (\<lambda>(frame, m).
    Ret (drop_bit PAGE_OFFSET_BITS frame, v\<lparr>vmem := m\<rparr>))"

definition getswapframe :: "vm \<Rightarrow> (u32 \<times> vm) result" where
  "getswapframe v =
    rbind (getfreemem (swaplist v) PAGE_SIZE (vmem v)) (\<lambda>(frame, m).
    Ret (drop_bit PAGE_OFFSET_BITS frame, v\<lparr>vmem := m\<rparr>))"

definition getvstackframe :: "vm \<Rightarrow> (u32 \<times> vm) result" where
  "getvstackframe v =
    rbind (getfreemem (vstacklist v) PAGE_SIZE (vmem v)) (\<lambda>(frame, m).
    kassert (frame \<noteq> USYSERR) (Ret (drop_bit PAGE_OFFSET_BITS frame, v\<lparr>vmem := m\<rparr>)))"

definition freepdptframe :: "u32 \<Rightarrow> vm \<Rightarrow> (int \<times> vm) result" where
  "freepdptframe frame v =
    rbind (freemem_list (pdptlist v) (frame_addr frame) PAGE_SIZE (minpdpt v) (maxpdpt v) (vmem v)) (\<lambda>(r, m).
    Ret (r, v\<lparr>vmem := m\<rparr>))"

definition freeffsframe :: "u32 \<Rightarrow> vm \<Rightarrow> (int \<times> vm) result" where
  "freeffsframe frame v =
    rbind (freemem_list (ffslist v) (frame_addr frame) PAGE_SIZE (minffs v) (maxffs v) (vmem v)) (\<lambda>(r, m).
    Ret (r, v\<lparr>vmem := m\<rparr>))"

definition freeswapframe :: "u32 \<Rightarrow> vm \<Rightarrow> (int \<times> vm) result" where
  "freeswapframe frame v =
    rbind (freemem_list (swaplist v) (frame_addr frame) PAGE_SIZE (minswap v) (maxswap v) (vmem v)) (\<lambda>(r, m).
    Ret (r, v\<lparr>vmem := m\<rparr>))"

definition freevstackframe :: "u32 \<Rightarrow> vm \<Rightarrow> (int \<times> vm) result" where
  "freevstackframe frame v =
    rbind (freemem_list (vstacklist v) (frame_addr frame) PAGE_SIZE (minvstack v) (maxvstack v) (vmem v)) (\<lambda>(r, m).
    Ret (r, v\<lparr>vmem := m\<rparr>))"

section \<open>Directories and page tables\<close>

text \<open>The loops over the words of a page, from the word at \<open>p\<close> on.\<close>

fun zero_words :: "nat \<Rightarrow> addr \<Rightarrow> mem \<Rightarrow> mem" where
  "zero_words 0 p m = m"
| "zero_words (Suc n) p m = zero_words n (p + 4) (m(p := 0))"

text \<open>An entry as \<open>create_pagetable_entries\<close> and \<open>create_directory_entry\<close> fill it, field by field.\<close>

definition fill_pt :: "u32 \<Rightarrow> u32 \<Rightarrow> u32" where
  "fill_pt base e =
    (let e = put_bit 0 True e;    \<comment> \<open>\<open>pt_pres\<close>\<close>
         e = put_bit 1 True e;    \<comment> \<open>\<open>pt_write\<close>\<close>
         e = put_bit 2 False e;   \<comment> \<open>\<open>pt_user\<close>\<close>
         e = put_bit 3 False e;   \<comment> \<open>\<open>pt_pwt\<close>\<close>
         e = put_bit 4 True e;    \<comment> \<open>\<open>pt_pcd\<close>\<close>
         e = put_bit 5 False e;   \<comment> \<open>\<open>pt_acc\<close>\<close>
         e = put_bit 6 False e;   \<comment> \<open>\<open>pt_dirty\<close>\<close>
         e = put_bit 7 False e;   \<comment> \<open>\<open>pt_mbz\<close>\<close>
         e = put_bit 8 False e;   \<comment> \<open>\<open>pt_global\<close>\<close>
         e = put_bit 9 False e;   \<comment> \<open>\<open>pt_isvmalloc\<close>\<close>
         e = put_bit 10 False e;  \<comment> \<open>\<open>pt_isswapped\<close>\<close>
         e = put_bit 11 False e   \<comment> \<open>\<open>pt_already_swapped\<close>\<close>
     in put_base base e)"

definition fill_pd_flags :: "u32 \<Rightarrow> u32" where
  "fill_pd_flags e =
    (let e = put_bit 0 True e;    \<comment> \<open>\<open>pd_pres\<close>\<close>
         e = put_bit 1 True e;    \<comment> \<open>\<open>pd_write\<close>\<close>
         e = put_bit 2 False e;   \<comment> \<open>\<open>pd_user\<close>\<close>
         e = put_bit 3 False e;   \<comment> \<open>\<open>pd_pwt\<close>\<close>
         e = put_bit 4 True e;    \<comment> \<open>\<open>pd_pcd\<close>\<close>
         e = put_bit 5 False e;   \<comment> \<open>\<open>pd_acc\<close>\<close>
         e = put_bit 6 False e;   \<comment> \<open>\<open>pd_mbz\<close>\<close>
         e = put_bit 7 False e;   \<comment> \<open>\<open>pd_fmb\<close>\<close>
         e = put_bit 8 False e;   \<comment> \<open>\<open>pd_global\<close>\<close>
         e = put_bit 9 False e;   \<comment> \<open>\<open>pd_avail\<close>, 3 bits\<close>
         e = put_bit 10 False e
     in put_bit 11 False e)"

fun fill_pt_loop :: "nat \<Rightarrow> u32 \<Rightarrow> addr \<Rightarrow> u32 \<Rightarrow> u32 \<Rightarrow> mem \<Rightarrow> mem" where
  "fill_pt_loop 0 i pt phybaseaddr ventrystart m = m"
| "fill_pt_loop (Suc n) i pt phybaseaddr ventrystart m =
    (let j = ventrystart + i in
     fill_pt_loop n (i + 1) pt phybaseaddr ventrystart
       (m(entry_addr pt j := fill_pt (phybaseaddr + i) (m (entry_addr pt j)))))"

definition create_pagetable_entries :: "u32 \<Rightarrow> u32 \<Rightarrow> u32 \<Rightarrow> u32 \<Rightarrow> vm \<Rightarrow> (u32 \<times> vm) result" where
  "create_pagetable_entries ptbase phybaseaddr ventrystart nventries v =
    rbind (if ptbase = 0 then getpdptframe v else Ret (ptbase, v)) (\<lambda>(ptbase, v).
    let pt = frame_addr ptbase in
    Ret (ptbase, v\<lparr>vmem := fill_pt_loop (unat nventries) 0 pt phybaseaddr ventrystart (vmem v)\<rparr>))"

text \<open>\<open>null_pdbr\<close> is \<open>proctab[0].pdbr\<close>.\<close>

definition create_directory_entry :: "u32 \<Rightarrow> addr \<Rightarrow> u32 \<Rightarrow> u32 \<Rightarrow> u32 \<Rightarrow> u32 \<Rightarrow> vm \<Rightarrow> vm result" where
  "create_directory_entry null_pdbr pd nullproc_share_index phybaseaddr ventrystart nventries v =
    (let m = (vmem v)(pd := fill_pd_flags (vmem v pd));
         pageuint = frame_addr (pd_base (m pd));
         m = zero_words (unat N_PAGE_ENTRIES) pageuint m;
         v = v\<lparr>vmem := m\<rparr> in
     if n_static_pages v \<noteq> - 1 \<and> nullproc_share_index \<noteq> - 1 then
       let nullprocdir = frame_addr (pdbr_base null_pdbr);
           base = pd_base (m (entry_addr nullprocdir nullproc_share_index))
       in Ret (v\<lparr>vmem := m(pd := put_base base (m pd))\<rparr>)
     else
       rbind (create_pagetable_entries 0 phybaseaddr ventrystart nventries v) (\<lambda>(base, v).
       Ret (v\<lparr>vmem := (vmem v)(pd := put_base base (vmem v pd))\<rparr>)))"

fun directory_entries :: "nat \<Rightarrow> u32 \<Rightarrow> u32 \<Rightarrow> addr \<Rightarrow> vm \<Rightarrow> vm result" where
  "directory_entries 0 i null_pdbr diruint v = Ret v"
| "directory_entries (Suc n) i null_pdbr diruint v =
    rbind (create_directory_entry null_pdbr (entry_addr diruint i) i (i * N_PAGE_ENTRIES) 0 N_PAGE_ENTRIES v) (\<lambda>v.
    directory_entries n (i + 1) null_pdbr diruint v)"

text \<open>The register value \<open>create_directory\<close> builds: cache disabled, every other flag 0.\<close>

definition make_pdbr :: "u32 \<Rightarrow> u32" where
  "make_pdbr dirframeno = put_base dirframeno (put_bit 4 True 0)"

definition create_directory :: "u32 \<Rightarrow> vm \<Rightarrow> (u32 \<times> vm) result" where
  "create_directory null_pdbr v =
    rbind (getpdptframe v) (\<lambda>(dirframeno, v).
    let diruint = frame_addr dirframeno;
        pdbr = make_pdbr dirframeno;
        v = v\<lparr>vmem := zero_words (unat N_PAGE_ENTRIES) diruint (vmem v)\<rparr>;
        npages = ceil_div (minpdpt v) PAGE_SIZE;
        nentries = ceil_div npages N_PAGE_ENTRIES in
    rbind (directory_entries (unat nentries) 0 null_pdbr diruint v) (\<lambda>v.
    let v = (if n_static_pages v = - 1 then v\<lparr>n_static_pages := nentries\<rparr> else v)
    in Ret (pdbr, v)))"

section \<open>Releasing pages\<close>

text \<open>The three maps are arrays of \<open>MAX_FSS_SIZE\<close> or \<open>MAX_SWAP_SIZE\<close> entries.\<close>

definition set_ptmap :: "u32 \<Rightarrow> addr \<Rightarrow> vm \<Rightarrow> vm result" where
  "set_ptmap i x v = (if i < MAX_FSS_SIZE then Ret (v\<lparr>ptmap := (ptmap v)(i := x)\<rparr>) else Fault)"

definition set_ffs2swap :: "u32 \<Rightarrow> u32 \<Rightarrow> vm \<Rightarrow> vm result" where
  "set_ffs2swap i x v = (if i < MAX_FSS_SIZE then Ret (v\<lparr>ffs2swapmap := (ffs2swapmap v)(i := x)\<rparr>) else Fault)"

definition set_swap2ffs :: "u32 \<Rightarrow> addr \<Rightarrow> vm \<Rightarrow> vm result" where
  "set_swap2ffs i x v = (if i < MAX_SWAP_SIZE then Ret (v\<lparr>swap2ffsmap := (swap2ffsmap v)(i := x)\<rparr>) else Fault)"

definition get_ptmap :: "u32 \<Rightarrow> vm \<Rightarrow> addr result" where
  "get_ptmap i v = (if i < MAX_FSS_SIZE then Ret (ptmap v i) else Fault)"

definition get_ffs2swap :: "u32 \<Rightarrow> vm \<Rightarrow> u32 result" where
  "get_ffs2swap i v = (if i < MAX_FSS_SIZE then Ret (ffs2swapmap v i) else Fault)"

definition get_swap2ffs :: "u32 \<Rightarrow> vm \<Rightarrow> addr result" where
  "get_swap2ffs i v = (if i < MAX_SWAP_SIZE then Ret (swap2ffsmap v i) else Fault)"

text \<open>A frame of the FFS region given back: its page table mapping, and the copy in swap if it has one.\<close>

definition free_ffs_page :: "u32 \<Rightarrow> addr \<Rightarrow> vm \<Rightarrow> vm result" where
  "free_ffs_page frame pte v =
    (let maxpdptframe = ceil_div (maxpdpt v) PAGE_SIZE;
         maxffsframe = ceil_div (maxffs v) PAGE_SIZE;
         k = frame - maxpdptframe in
     rbind (freeffsframe frame v) (\<lambda>(_, v).
     rbind (set_ptmap k NULL v) (\<lambda>v.
     rbind (if pt_already_swapped (vmem v pte) then
              rbind (get_ffs2swap k v) (\<lambda>s.
              kassert (s \<noteq> - 1) (
              rbind (freeswapframe s v) (\<lambda>(_, v).
              rbind (get_ffs2swap k v) (\<lambda>s.
              set_swap2ffs (s - maxffsframe) NULL v))))
            else Ret v) (\<lambda>v.
     set_ffs2swap k (- 1) v))))"

definition free_vpage :: "addr \<Rightarrow> u32 \<Rightarrow> bool \<Rightarrow> vm \<Rightarrow> vm result" where
  "free_vpage dir i nofail v =
    (let maxffsframe = ceil_div (maxffs v) PAGE_SIZE;
         curraddr = i * PAGE_SIZE;
         pde = vmem v (entry_addr dir (pd_offset curraddr)) in
     kassert (pd_pres pde) (
     let pte = entry_addr (frame_addr (pd_base pde)) (pt_offset curraddr);
         e = vmem v pte in
     rbind (if pt_pres e then
              kassert (\<not> pt_isvmalloc e) (
              let frame = pt_base e in
              if frame_addr frame \<ge> minvstack v then
                rbind (freevstackframe frame v) (\<lambda>(_, v). Ret v)
              else free_ffs_page frame pte v)
            else if pt_isswapped e then
              kassert (pt_already_swapped e) (
              rbind (get_swap2ffs (pt_base e - maxffsframe) v) (\<lambda>x.
              kassert (x = NULL) (
              rbind (freeswapframe (pt_base e) v) (\<lambda>(_, v).
              set_swap2ffs (pt_base (vmem v pte) - maxffsframe) NULL v))))
            else if \<not> nofail then Halted
            else Ret v) (\<lambda>v.
     Ret (v\<lparr>vmem := (vmem v)(pte := 0)\<rparr>))))"

text \<open>\<open>destroy_directory\<close>: the tables above the shared part, which must be empty by then, and the directory itself.\<close>

fun table_empty :: "nat \<Rightarrow> addr \<Rightarrow> mem \<Rightarrow> bool" where
  "table_empty 0 p m = True"
| "table_empty (Suc n) p m = (\<not> pt_pres (m p) \<and> table_empty n (p + 4) m)"

fun destroy_tables :: "nat \<Rightarrow> u32 \<Rightarrow> addr \<Rightarrow> vm \<Rightarrow> vm result" where
  "destroy_tables 0 i frame v = Ret v"
| "destroy_tables (Suc n) i frame v =
    (let pde = vmem v (entry_addr frame i) in
     rbind (if pd_pres pde then
              kassert (table_empty (unat N_PAGE_ENTRIES) (frame_addr (pd_base pde)) (vmem v)) (
              rbind (freepdptframe (pd_base pde) v) (\<lambda>(r, v). kassert (r \<noteq> SYSERR) (Ret v)))
            else Ret v) (\<lambda>v.
     destroy_tables n (i + 1) frame v))"

definition first_private_entry :: "vm \<Rightarrow> u32" where
  "first_private_entry v = ceil_div (ceil_div (minffs v) PAGE_SIZE) N_PAGE_ENTRIES"

definition destroy_directory :: "procent \<Rightarrow> vm \<Rightarrow> vm result" where
  "destroy_directory pr v =
    (let dirno = pdbr_base (pdbr pr);
         frame = frame_addr dirno in
     if \<not> pruser pr then Ret v
     else
       let nstart = first_private_entry v in
       rbind (destroy_tables (unat N_PAGE_ENTRIES - unat nstart) nstart frame v) (\<lambda>v.
       rbind (freepdptframe dirno v) (\<lambda>(r, v). kassert (r \<noteq> SYSERR) (Ret v))))"

text \<open>\<open>freevmem\<close>: every page of every private table.\<close>

fun free_table_pages :: "nat \<Rightarrow> u32 \<Rightarrow> u32 \<Rightarrow> addr \<Rightarrow> addr \<Rightarrow> vm \<Rightarrow> vm result" where
  "free_table_pages 0 i j table frame v = Ret v"
| "free_table_pages (Suc n) i j table frame v =
    (let e = vmem v (entry_addr table j) in
     rbind (if pt_pres e \<or> pt_isswapped e then
              let addr = push_bit 22 i OR push_bit 12 j in
              rbind (free_vpage frame (drop_bit PAGE_OFFSET_BITS addr) False v) (\<lambda>v.
              kassert (\<not> pt_pres (vmem v (entry_addr table j))) (Ret v))
            else Ret v) (\<lambda>v.
     free_table_pages n i (j + 1) table frame v))"

fun free_tables_pages :: "nat \<Rightarrow> u32 \<Rightarrow> addr \<Rightarrow> vm \<Rightarrow> vm result" where
  "free_tables_pages 0 i frame v = Ret v"
| "free_tables_pages (Suc n) i frame v =
    (let pde = vmem v (entry_addr frame i) in
     rbind (if pd_pres pde
            then free_table_pages (unat N_PAGE_ENTRIES) i 0 (frame_addr (pd_base pde)) frame v
            else Ret v) (\<lambda>v.
     free_tables_pages n (i + 1) frame v))"

definition freevmem :: "procent \<Rightarrow> vm \<Rightarrow> vm result" where
  "freevmem pr v =
    (let frame = frame_addr (pdbr_base (pdbr pr)) in
     if \<not> pruser pr then Ret v
     else
       let nstart = first_private_entry v in
       rbind (free_tables_pages (unat N_PAGE_ENTRIES - unat nstart) nstart frame v) (\<lambda>v.
       let v = v\<lparr>n_free_vpages := n_free_vpages v + (hsize pr - vfree pr)\<rparr> in
       kassert (n_free_vpages v \<le> MAX_HEAP_SIZE) (Ret v)))"

section \<open>Fields of an entry\<close>

lemma bit_put_bit: "n < 32 \<Longrightarrow> bit (put_bit n b e) k = (if k = n then b else bit e k)"
  by (auto simp: put_bit_def bit_set_bit_iff bit_unset_bit_iff)

lemma bit_put_base: "bit (put_base b e) k = (k < 32 \<and> (if k < 12 then bit e k else bit b (k - 12)))"
  by (auto simp: put_base_def bit_simps dest: bit_imp_le_length)

lemma less_12_cases: "k < 12 \<Longrightarrow> k = 0 \<or> k = 1 \<or> k = 2 \<or> k = 3 \<or> k = 4 \<or> k = 5 \<or> k = 6 \<or> k = 7 \<or> k = 8 \<or> k = 9 \<or> k = 10 \<or> k = 11"
  for k :: nat by arith

lemma u32_eqI: "(\<And>k. k < 32 \<Longrightarrow> bit a k = bit b k) \<Longrightarrow> a = b" for a b :: u32
  by (rule bit_word_eqI) simp

lemma base_put_base [simp]: "drop_bit 12 (put_base b e) = take_bit 20 b" for e :: u32
  by (rule u32_eqI) (auto simp: bit_simps bit_put_base)

lemma pres_put_base [simp]: "bit (put_base b e) 0 = bit e 0"
  by (simp add: bit_put_base)

lemma fill_pt_value: "fill_pt b e = put_base b 0x13"
proof (rule u32_eqI)
  fix k :: nat assume "k < 32"
  then show "bit (fill_pt b e) k = bit (put_base b 0x13) k"
  proof (cases "k < 12")
    case True
    from less_12_cases [OF this] show ?thesis
      by (elim disjE) (simp_all add: fill_pt_def Let_def bit_put_base bit_put_bit bit_numeral_rec)
  qed (simp add: fill_pt_def Let_def bit_put_base)
qed

lemma fill_pd_flags_value: "put_base b (fill_pd_flags e) = put_base b 0x13"
proof (rule u32_eqI)
  fix k :: nat assume "k < 32"
  then show "bit (put_base b (fill_pd_flags e)) k = bit (put_base b 0x13) k"
  proof (cases "k < 12")
    case True
    from less_12_cases [OF this] show ?thesis
      by (elim disjE) (simp_all add: fill_pd_flags_def Let_def bit_put_base bit_put_bit bit_numeral_rec)
  qed (simp add: fill_pd_flags_def Let_def bit_put_base)
qed

lemma base_fill_pd_flags: "pd_base (fill_pd_flags e) = pd_base e"
  by (rule u32_eqI) (auto simp: pd_base_def fill_pd_flags_def Let_def bit_put_bit bit_simps)

text \<open>What the processor reads from such an entry.\<close>

lemma entry_fields [simp]:
  "pt_pres (put_base b 0x13)" "pd_pres (put_base b 0x13)" "pt_base (put_base b 0x13) = take_bit 20 b"
  "pd_base (put_base b 0x13) = take_bit 20 b"
  by (simp_all add: field_defs bit_put_base bit_numeral_rec)

section \<open>Pages\<close>

definition aligned :: "addr \<Rightarrow> bool" where
  "aligned a \<longleftrightarrow> 4096 dvd unat a"

abbreviation page :: "addr \<Rightarrow> addr set" where
  "page a \<equiv> bytes (a, 4096)"

lemma aligned_bound: "aligned a \<Longrightarrow> unat a + 4096 \<le> 2 ^ 32"
proof -
  assume "aligned a"
  then obtain k where k: "unat a = 4096 * k" by (auto simp: aligned_def elim: dvdE)
  have "4096 * k < 2 ^ 32" using unat_u32_less [of a] k by simp
  then show ?thesis using k by simp
qed

lemma unat_entry: "aligned a \<Longrightarrow> k < 1024 \<Longrightarrow> unat (entry_addr a (of_nat k)) = unat a + 4 * k"
proof -
  assume a: "aligned a" and k: "k < 1024"
  have "unat (of_nat k :: u32) = k" using k by (simp add: unat_of_nat)
  then have "unat (4 * of_nat k :: u32) = 4 * k" using k by (simp add: unat_word_ariths)
  then show ?thesis using aligned_bound [OF a] k unfolding entry_addr_def by (subst unat_plus_no_wrap) simp_all
qed

lemma entry_in_page: "aligned a \<Longrightarrow> k < 1024 \<Longrightarrow> entry_addr a (of_nat k) \<in> page a"
  by (simp add: bytes_def unat_entry)

lemma entry_inj: "aligned a \<Longrightarrow> j < 1024 \<Longrightarrow> k < 1024 \<Longrightarrow> entry_addr a (of_nat j) = entry_addr a (of_nat k) \<longleftrightarrow> j = k"
  using unat_entry by (auto simp: word_unat_eq_iff)

lemma pages_disjoint: "aligned a \<Longrightarrow> aligned b \<Longrightarrow> a \<noteq> b \<Longrightarrow> page a \<inter> page b = {}"
proof -
  assume al: "aligned a" "aligned b" and ne: "a \<noteq> b"
  obtain i j where ij: "unat a = 4096 * i" "unat b = 4096 * j" using al by (auto simp: aligned_def elim!: dvdE)
  have "i \<noteq> j" using ne ij by (auto simp: word_unat_eq_iff)
  then show ?thesis by (auto simp: bytes_def ij)
qed

lemma page_sep: "x \<in> page a \<Longrightarrow> aligned a \<Longrightarrow> aligned b \<Longrightarrow> a \<noteq> b \<Longrightarrow> x \<notin> page b"
  using pages_disjoint [of a b] by blast

lemma unat_frame_addr: "unat (frame_addr f) = 4096 * (unat f mod 2 ^ 20)"
proof -
  have "unat (frame_addr f) = unat f * 4096 mod 2 ^ 32"
    by (simp add: frame_addr_def PAGE_OFFSET_BITS_def push_bit_eq_mult unat_word_ariths)
  also have "\<dots> = 4096 * (unat f mod 2 ^ 20)"
    using mult_mod_right [of 4096 "unat f" "2 ^ 20"] by (simp add: mult.commute)
  finally show ?thesis .
qed

lemma aligned_frame_addr [simp]: "aligned (frame_addr f)"
  by (simp add: aligned_def unat_frame_addr)

lemma frame_addr_drop: "aligned a \<Longrightarrow> frame_addr (drop_bit 12 a) = a"
proof -
  assume "aligned a"
  then obtain k where k: "unat a = 4096 * k" by (auto simp: aligned_def elim: dvdE)
  moreover have "k < 2 ^ 20" using unat_u32_less [of a] k by simp
  ultimately show ?thesis by (simp add: word_unat_eq_iff unat_frame_addr drop_bit_eq_div unat_div)
qed

lemma frame_addr_take [simp]: "frame_addr (take_bit 20 f) = frame_addr f"
  by (rule u32_eqI) (auto simp: frame_addr_def PAGE_OFFSET_BITS_def bit_simps)

lemma frame_addr_0 [simp]: "frame_addr 0 = 0"
  by (simp add: frame_addr_def)

section \<open>The page loops\<close>

lemma zero_words_eq:
  assumes "n \<le> 2 ^ 30"
  shows "zero_words n p m x = (if \<exists>k < n. x = p + 4 * of_nat k then 0 else m x)"
  using assms
proof (induction n arbitrary: p m)
  case (Suc n)
  have "(\<exists>k < Suc n. x = p + 4 * of_nat k) \<longleftrightarrow> x = p \<or> (\<exists>k < n. x = p + 4 + 4 * of_nat k)"
  proof -
    have "(\<exists>k < Suc n. x = p + 4 * of_nat k) \<longleftrightarrow> x = p \<or> (\<exists>k < n. x = p + 4 * of_nat (Suc k))"
      using Ex_less_Suc2 [of n "\<lambda>k. x = p + 4 * of_nat k"] by simp
    then show ?thesis by (simp add: algebra_simps)
  qed
  then show ?case using Suc by auto
qed simp

lemma zero_page:
  assumes "aligned p"
  shows "k < 1024 \<Longrightarrow> zero_words (unat N_PAGE_ENTRIES) p m (entry_addr p (of_nat k)) = 0"
    and "x \<notin> page p \<Longrightarrow> zero_words (unat N_PAGE_ENTRIES) p m x = m x"
  using entry_in_page [OF assms] by (auto simp: zero_words_eq entry_addr_def N_PAGE_ENTRIES_def)

lemma fill_pt_loop_eq:
  assumes "aligned p" and "i + n \<le> 1024"
  shows "k < 1024 \<Longrightarrow> fill_pt_loop n (of_nat i) p phy 0 m (entry_addr p (of_nat k)) =
      (if i \<le> k \<and> k < i + n then put_base (phy + of_nat k) 0x13 else m (entry_addr p (of_nat k)))"
    and "x \<notin> page p \<Longrightarrow> fill_pt_loop n (of_nat i) p phy 0 m x = m x"
  using assms(2)
proof (induction n arbitrary: i m)
  case (Suc n)
  case 1
  have "fill_pt_loop n (of_nat (Suc i)) p phy 0 m' (entry_addr p (of_nat k)) =
      (if Suc i \<le> k \<and> k < Suc i + n then put_base (phy + of_nat k) 0x13 else m' (entry_addr p (of_nat k)))" for m'
    using Suc.IH(1) [of "Suc i" m'] 1 by simp
  then show ?case using 1 entry_inj [OF assms(1), of k i]
    by (auto simp: Let_def fill_pt_value add.commute)
next
  case (Suc n)
  case 2
  have "fill_pt_loop n (of_nat (Suc i)) p phy 0 m' x = m' x" for m'
    using Suc.IH(2) [of "Suc i" m'] 2 by simp
  moreover have "x \<noteq> entry_addr p (of_nat i)" using 2 entry_in_page [OF assms(1), of i] by auto
  ultimately show ?case by (simp add: Let_def add.commute)
qed auto

section \<open>Page pools\<close>

text \<open>A free list whose blocks are whole pages.\<close>

definition page_pool :: "addr \<Rightarrow> addr \<Rightarrow> addr \<Rightarrow> mem \<Rightarrow> block list \<Rightarrow> bool" where
  "page_pool lst lo hi m bs \<longleftrightarrow> pool_inv lst lo hi m bs \<and> (\<forall>b \<in> set bs. aligned (fst b) \<and> 4096 dvd unat (snd b))"

lemma req_ok_page: "req_ok PAGE_SIZE" "roundmb PAGE_SIZE = PAGE_SIZE" "PAGE_SIZE \<noteq> 0" "unat PAGE_SIZE = 4096"
  using roundmb_idem [of PAGE_SIZE] by (simp_all add: req_ok_def PAGE_SIZE_def)

lemma page_block_ge: "block_ok b \<Longrightarrow> 4096 dvd unat (snd b) \<Longrightarrow> 4096 \<le> unat (snd b)"
  by (auto simp: block_ok_def elim: dvdE)

lemma page_pool_frame:
  assumes "page_pool lst lo hi m bs" and "\<And>x. x \<in> region bs \<or> x = lst \<Longrightarrow> m' x = m x"
  shows "page_pool lst lo hi m' bs"
  using assms freelist_cong [of m lst bs m'] by (auto simp: page_pool_def pool_inv_def)

lemma ff_alloc_page:
  assumes "blocks_ok bs" and "\<forall>b \<in> set bs. aligned (fst b) \<and> 4096 dvd unat (snd b)" and "bs \<noteq> []"
  obtains a bs' where "ff_alloc PAGE_SIZE bs = Some (a, bs')" "aligned a"
    "\<forall>b \<in> set bs'. aligned (fst b) \<and> 4096 dvd unat (snd b)"
proof -
  obtain a l bs1 where bs: "bs = (a, l) # bs1" using assms(3) by (cases bs) auto
  have ok: "block_ok (a, l)" "aligned a" "4096 dvd unat l" using assms bs by auto
  show thesis
  proof (cases "l = PAGE_SIZE")
    case True
    then show thesis using that [of a bs1] assms(2) bs ok by simp
  next
    case False
    then have lt: "PAGE_SIZE < l"
      using page_block_ge [OF ok(1)] ok(3) req_ok_page(4) by (auto simp: word_less_nat_alt word_unat_eq_iff order_less_le)
    note sp = split_block_ok(2,3) [OF ok(1) req_ok_page(1) lt]
    have "aligned (a + PAGE_SIZE)" "4096 dvd unat (l - PAGE_SIZE)"
      using ok(2,3) lt by (auto simp: aligned_def sp req_ok_page(4) word_less_nat_alt intro: dvd_diff_nat)
    then show thesis
      using that [of a "(a + PAGE_SIZE, l - PAGE_SIZE) # bs1"] False lt assms(2) bs ok by simp
  qed
qed

text \<open>Taking a page: only when the pool is empty does it fail.\<close>

lemma page_alloc:
  assumes "page_pool lst lo hi m bs"
  shows "bs = [] \<Longrightarrow> getfreemem lst PAGE_SIZE m = Ret (USYSERR, m)"
    and "bs \<noteq> [] \<Longrightarrow> \<exists>a m' bs'. getfreemem lst PAGE_SIZE m = Ret (a, m') \<and> page_pool lst lo hi m' bs' \<and> aligned a \<and>
      page a \<subseteq> region bs \<and> region bs' = region bs - page a \<and> a \<noteq> USYSERR \<and> a \<noteq> 0 \<and>
      free_total bs = free_total bs' + 4096 \<and> (\<forall>x. x \<notin> region bs \<union> {lst, lst + 4} \<longrightarrow> m' x = m x)"
proof -
  have fl: "freelist m lst bs" "blocks_ok bs" using assms by (auto simp: page_pool_def pool_inv_def freelist_def)
  note gc = getfreemem_correct [OF fl(1) req_ok_page(3), unfolded req_ok_page(2), simplified req_ok_page(4), simplified]
  show "getfreemem lst PAGE_SIZE m = Ret (USYSERR, m)" if "bs = []" using gc that by auto
  show "\<exists>a m' bs'. getfreemem lst PAGE_SIZE m = Ret (a, m') \<and> page_pool lst lo hi m' bs' \<and> aligned a \<and>
      page a \<subseteq> region bs \<and> region bs' = region bs - page a \<and> a \<noteq> USYSERR \<and> a \<noteq> 0 \<and>
      free_total bs = free_total bs' + 4096 \<and> (\<forall>x. x \<notin> region bs \<union> {lst, lst + 4} \<longrightarrow> m' x = m x)" if ne: "bs \<noteq> []"
  proof -
    obtain a bs' where al: "ff_alloc PAGE_SIZE bs = Some (a, bs')" "aligned a"
      "\<forall>b \<in> set bs'. aligned (fst b) \<and> 4096 dvd unat (snd b)"
      using ff_alloc_page [OF fl(2) _ ne] assms by (auto simp: page_pool_def)
    note ff = ff_alloc_Some [OF al(1) fl(2) req_ok_page(1)]
    obtain m' where m': "getfreemem lst PAGE_SIZE m = Ret (a, m')" "freelist m' lst bs'"
      "\<forall>x. x \<notin> region bs \<union> {lst, lst + 4} \<longrightarrow> m' x = m x"
      using gc al(1) by auto
    have "page_pool lst lo hi m' bs'"
      using m'(2) ff(4) al(3) assms unfolding page_pool_def pool_inv_def by blast
    moreover have "a \<noteq> USYSERR" using ff(2) by (rule pool.block_ok_not_USYSERR)
    moreover have "a \<noteq> 0" using ff(2) by (auto simp: block_ok_def)
    ultimately show ?thesis using m' al(2) ff(3-5) unfolding req_ok_page(4) by (auto simp: PAGE_SIZE_def)
  qed
qed

lemma getpdptframe_ok:
  assumes "page_pool (pdptlist v) lo hi (vmem v) bs" and "bs \<noteq> []"
  obtains a m' bs' where "getpdptframe v = Ret (drop_bit 12 a, v\<lparr>vmem := m'\<rparr>)" "page_pool (pdptlist v) lo hi m' bs'"
    "aligned a" "page a \<subseteq> region bs" "region bs' = region bs - page a" "a \<noteq> 0" "free_total bs = free_total bs' + 4096"
    "\<forall>x. x \<notin> region bs \<union> {pdptlist v, pdptlist v + 4} \<longrightarrow> m' x = vmem v x"
proof -
  obtain a m' bs' where a: "getfreemem (pdptlist v) PAGE_SIZE (vmem v) = Ret (a, m')" "page_pool (pdptlist v) lo hi m' bs'"
    "aligned a" "page a \<subseteq> region bs" "region bs' = region bs - page a" "a \<noteq> USYSERR" "a \<noteq> 0" "free_total bs = free_total bs' + 4096"
    "\<forall>x. x \<notin> region bs \<union> {pdptlist v, pdptlist v + 4} \<longrightarrow> m' x = vmem v x"
    using page_alloc(2) [OF assms] by blast
  then have "getpdptframe v = Ret (drop_bit 12 a, v\<lparr>vmem := m'\<rparr>)"
    by (simp add: getpdptframe_def PAGE_OFFSET_BITS_def)
  then show thesis using that a by blast
qed

section \<open>Address translation\<close>

text \<open>
  The two-level walk of the processor: the page directory named by \<open>cr3\<close>, then the page
  table; \<open>None\<close> is a page fault.
\<close>

definition translate :: "mem \<Rightarrow> u32 \<Rightarrow> addr \<Rightarrow> addr option" where
  "translate m cr3 a =
    (let pde = m (entry_addr (frame_addr (pdbr_base cr3)) (pd_offset a)) in
     if pd_pres pde then
       let pte = m (entry_addr (frame_addr (pd_base pde)) (pt_offset a)) in
       if pt_pres pte then Some (frame_addr (pt_base pte) OR pg_offset a) else None
     else None)"

lemma pdbr_base_make: "frame_addr (pdbr_base (make_pdbr f)) = frame_addr f"
  by (simp add: make_pdbr_def pdbr_base_def)

lemma offsets_bound: "unat (pd_offset a) < 1024" "unat (pt_offset a) < 1024"
proof -
  have "pd_offset a = take_bit 10 (drop_bit 22 a)"
    by (rule u32_eqI) (auto simp: pd_offset_def bit_simps dest: bit_imp_le_length)
  then show "unat (pd_offset a) < 1024" using take_bit_nat_less_exp [of 10 "unat (drop_bit 22 a)"] by (simp add: unsigned_take_bit_eq)
  show "unat (pt_offset a) < 1024"
    using take_bit_nat_less_exp [of 10 "unat (drop_bit 12 a)"]
    by (simp add: pt_offset_def take_bit_eq_mask [symmetric] unsigned_take_bit_eq)
qed

lemma addr_parts: "frame_addr (pd_offset a * 1024 + pt_offset a) OR pg_offset a = a"
proof -
  have "pd_offset a * 1024 + pt_offset a = drop_bit 12 a"
  proof -
    have "push_bit 10 (pd_offset a) + pt_offset a = push_bit 10 (pd_offset a) OR pt_offset a"
      by (rule disjunctive_add) (auto simp: pt_offset_def bit_simps)
    also have "\<dots> = drop_bit 12 a"
      by (rule u32_eqI) (auto simp: pt_offset_def pd_offset_def bit_simps dest: bit_imp_le_length)
    finally show ?thesis by (simp add: push_bit_eq_mult mult.commute)
  qed
  then show ?thesis
    by (simp only:) (rule u32_eqI, auto simp: frame_addr_def PAGE_OFFSET_BITS_def pg_offset_def bit_simps)
qed

lemma u32_of_nat_unat: "of_nat (unat a) = a" for a :: u32
  by simp

section \<open>The flat map\<close>

text \<open>A directory \<open>d\<close> whose first entries are the tables \<open>ts\<close>, which map every address to itself.\<close>

definition flat_dir :: "mem \<Rightarrow> addr \<Rightarrow> addr list \<Rightarrow> bool" where
  "flat_dir m d ts \<longleftrightarrow>
    (\<forall>i < 1024. m (entry_addr d (of_nat i)) = (if i < length ts then put_base (drop_bit 12 (ts ! i)) 0x13 else 0)) \<and>
    (\<forall>i < length ts. \<forall>j < 1024. m (entry_addr (ts ! i) (of_nat j)) = put_base (of_nat (1024 * i + j)) 0x13)"

text \<open>Its pages are all different, none is free, and no list head lies in them; page 0 is kept apart too.\<close>

definition dir_pages :: "addr \<Rightarrow> block list \<Rightarrow> addr list \<Rightarrow> bool" where
  "dir_pages lst bs ps \<longleftrightarrow> distinct ps \<and>
    (\<forall>p \<in> set ps. aligned p \<and> page p \<inter> region bs = {} \<and> lst \<notin> page p \<and> lst + 4 \<notin> page p)"

lemma flat_translate:
  assumes "flat_dir m d ts" and "\<forall>t \<in> set ts. aligned t" and "frame_addr (pdbr_base cr3) = d"
  shows "translate m cr3 a = (if unat (pd_offset a) < length ts then Some a else None)"
proof -
  let ?i = "unat (pd_offset a)" and ?j = "unat (pt_offset a)"
  have pde: "m (entry_addr d (pd_offset a)) = (if ?i < length ts then put_base (drop_bit 12 (ts ! ?i)) 0x13 else 0)"
    using assms(1) offsets_bound(1) [of a] u32_of_nat_unat [of "pd_offset a"] unfolding flat_dir_def by metis
  show ?thesis
  proof (cases "?i < length ts")
    case True
    have "m (entry_addr (ts ! ?i) (pt_offset a)) = put_base (of_nat (1024 * ?i + ?j)) 0x13"
      using assms(1) True offsets_bound(2) [of a] u32_of_nat_unat [of "pt_offset a"] unfolding flat_dir_def by metis
    moreover have "of_nat (1024 * ?i + ?j) = pd_offset a * 1024 + pt_offset a" by (simp add: mult.commute)
    moreover have "frame_addr (drop_bit 12 (ts ! ?i)) = ts ! ?i" using assms(2) True by (simp add: frame_addr_drop)
    ultimately show ?thesis using True pde assms(3) addr_parts [of a] by (simp add: translate_def mult.commute)
  qed (use pde assms(3) in \<open>simp add: translate_def pd_pres_def\<close>)
qed

lemma flat_dir_frame:
  assumes "flat_dir m d ts" and "aligned d" and "\<forall>t \<in> set ts. aligned t"
    and "\<And>p x. p \<in> set (d # ts) \<Longrightarrow> x \<in> page p \<Longrightarrow> m' x = m x"
  shows "flat_dir m' d ts"
proof -
  have "m' (entry_addr d (of_nat i)) = m (entry_addr d (of_nat i))" if "i < 1024" for i
    using assms(4) [of d] entry_in_page [OF assms(2) that] by simp
  moreover have "m' (entry_addr (ts ! i) (of_nat j)) = m (entry_addr (ts ! i) (of_nat j))" if "i < length ts" "j < 1024" for i j
    using assms(4) [of "ts ! i"] entry_in_page [of "ts ! i" j] assms(3) that by simp
  ultimately show ?thesis using assms(1) unfolding flat_dir_def by simp
qed

lemma dir_pages_shrink: "dir_pages lst bs ps \<Longrightarrow> region bs' \<subseteq> region bs \<Longrightarrow> dir_pages lst bs' ps"
  by (auto simp: dir_pages_def)

lemma self_in_page: "aligned a \<Longrightarrow> a \<in> page a"
  by (simp add: bytes_def)

lemma dir_pages_alloc:
  assumes "dir_pages lst bs ps" and "aligned t" and "page t \<subseteq> region bs" and "region bs' = region bs - page t"
    and "lst \<notin> region bs" and "lst + 4 \<notin> region bs"
  shows "dir_pages lst bs' (ps @ [t])"
proof -
  have "t \<notin> set ps" using assms(1,3) self_in_page [OF assms(2)] by (auto simp: dir_pages_def)
  then show ?thesis using assms unfolding dir_pages_def by auto
qed

text \<open>
  A directory entry that was empty gets a table of its own: a frame of the pool, whose first \<open>n\<close>
  entries are filled. Beside the free frames, the list head and the entry, only page 0 is
  written: it is what the empty entry's base names when the code clears "the table".
\<close>

lemma create_directory_entry_table:
  assumes dp: "dir_pages (pdptlist v) bs (0 # d # ts)" and pd: "pd \<in> page d" and e0: "pd_base (vmem v pd) = 0"
    and pp: "page_pool (pdptlist v) lo hi (vmem v) bs" and ne: "bs \<noteq> []"
    and st: "n_static_pages v = - 1 \<or> sh = - 1" and n: "unat n \<le> 1024"
  obtains t m' bs' where "create_directory_entry np pd sh phy 0 n v = Ret (v\<lparr>vmem := m'\<rparr>)"
    "dir_pages (pdptlist v) bs' (0 # d # ts @ [t])" "page_pool (pdptlist v) lo hi m' bs'"
    "page t \<subseteq> region bs" "region bs' = region bs - page t" "free_total bs = free_total bs' + 4096"
    "m' pd = put_base (drop_bit 12 t) 0x13" "\<And>j. j < unat n \<Longrightarrow> m' (entry_addr t (of_nat j)) = put_base (phy + of_nat j) 0x13"
    "\<And>x. x \<notin> region bs \<union> {pdptlist v, pdptlist v + 4} \<union> page 0 \<Longrightarrow> x \<noteq> pd \<Longrightarrow> m' x = vmem v x"
proof -
  let ?lst = "pdptlist v"
  have al: "aligned d" "aligned 0" "d \<noteq> 0" and dp0: "page d \<inter> region bs = {}" "page 0 \<inter> region bs = {}" "?lst \<notin> page d" "?lst \<notin> page 0"
    using dp by (auto simp: dir_pages_def)
  have lst: "?lst \<notin> region bs" "?lst + 4 \<notin> region bs" using pp by (auto simp: page_pool_def pool_inv_def freelist_def)
  have pdt: "pd \<notin> region bs \<union> {?lst, ?lst + 4}" using pd dp by (auto simp: dir_pages_def)
  have pd0: "pd \<notin> page 0" using pages_disjoint [of d 0] al pd by blast
  define m1 where "m1 = (vmem v)(pd := fill_pd_flags (vmem v pd))"
  define m2 where "m2 = zero_words (unat N_PAGE_ENTRIES) 0 m1"
  have m2: "m2 pd = fill_pd_flags (vmem v pd)" "x \<notin> page 0 \<Longrightarrow> x \<noteq> pd \<Longrightarrow> m2 x = vmem v x" for x
    using zero_page(2) [OF al(2)] pd0 by (simp_all add: m2_def m1_def)
  have pp2: "page_pool (pdptlist (v\<lparr>vmem := m2\<rparr>)) lo hi (vmem (v\<lparr>vmem := m2\<rparr>)) bs"
    using page_pool_frame [OF pp, of m2] m2(2) dp0 pdt by auto
  obtain t m3 bs' where g: "getpdptframe (v\<lparr>vmem := m2\<rparr>) = Ret (drop_bit 12 t, v\<lparr>vmem := m3\<rparr>)"
    "page_pool ?lst lo hi m3 bs'" "aligned t" "page t \<subseteq> region bs" "region bs' = region bs - page t"
    "free_total bs = free_total bs' + 4096" "\<forall>x. x \<notin> region bs \<union> {?lst, ?lst + 4} \<longrightarrow> m3 x = m2 x"
    by (rule getpdptframe_ok [OF pp2 ne]) (rule that, simp_all)
  define m4 where "m4 = fill_pt_loop (unat n) (of_nat 0) t phy 0 m3"
  define m' where "m' = m4(pd := put_base (drop_bit 12 t) 0x13)"
  note fl = fill_pt_loop_eq [OF g(3), of 0 "unat n" _ phy m3, folded m4_def] fill_pt_loop_eq(2) [OF g(3), of 0 "unat n" _ phy m3, folded m4_def]
  have m4pd: "m4 pd = fill_pd_flags (vmem v pd)" using pdt fl(3) [of pd] n g(4,7) m2(1) by auto
  have run: "create_directory_entry np pd sh phy 0 n v = Ret (v\<lparr>vmem := m'\<rparr>)"
  proof -
    have "pd_base (m1 pd) = 0" by (simp add: m1_def base_fill_pd_flags e0)
    then have z: "zero_words (unat N_PAGE_ENTRIES) (frame_addr (pd_base (m1 pd))) m1 = m2" by (simp add: m2_def)
    show ?thesis
      using st unfolding create_directory_entry_def Let_def m1_def [symmetric] z
      by (auto simp: create_pagetable_entries_def g(1) frame_addr_drop [OF g(3)] m4_def [symmetric, simplified] m4pd fill_pd_flags_value m'_def)
  qed
  show thesis
  proof (rule that [OF run _ _ g(4-6)])
    show "dir_pages ?lst bs' (0 # d # ts @ [t])" using dir_pages_alloc [OF dp g(3-5) lst] by simp
    have "x \<notin> page t \<and> x \<noteq> pd" if "x \<in> region bs' \<or> x = ?lst" for x using that g(4,5) lst pdt by auto
    then show "page_pool ?lst lo hi m' bs'" using page_pool_frame [OF g(2)] fl(3) n by (simp add: m'_def)
    show "m' (entry_addr t (of_nat j)) = put_base (phy + of_nat j) 0x13" if j: "j < unat n" for j
      using fl(1) [of j] entry_in_page [OF g(3), of j] g(4) pdt n j by (auto simp: m'_def)
    show "m' x = vmem v x" if x: "x \<notin> region bs \<union> {?lst, ?lst + 4} \<union> page 0" "x \<noteq> pd" for x
      using x fl(3) [of x] g(4,7) m2(2) n by (auto simp: m'_def)
  qed (simp add: m'_def)
qed

text \<open>The next entry of a flat directory, as the first process (\<open>n_static_pages\<close> still \<open>-1\<close>) creates it.\<close>

lemma create_directory_entry_fresh:
  assumes fd: "flat_dir (vmem v) d ts" and len: "length ts < 1024" and dp: "dir_pages (pdptlist v) bs (0 # d # ts)"
    and pp: "page_pool (pdptlist v) lo hi (vmem v) bs" and ne: "bs \<noteq> []" and st: "n_static_pages v = - 1 \<or> sh = - 1"
  obtains t m' bs' where
    "create_directory_entry np (entry_addr d (of_nat (length ts))) sh (of_nat (length ts) * N_PAGE_ENTRIES) 0 N_PAGE_ENTRIES v =
      Ret (v\<lparr>vmem := m'\<rparr>)"
    "flat_dir m' d (ts @ [t])" "dir_pages (pdptlist v) bs' (0 # d # ts @ [t])" "page_pool (pdptlist v) lo hi m' bs'"
    "region bs' \<subseteq> region bs" "free_total bs = free_total bs' + 4096"
    "\<And>x. x \<notin> region bs \<union> {pdptlist v, pdptlist v + 4} \<union> page 0 \<union> page d \<Longrightarrow> m' x = vmem v x" "page t \<subseteq> region bs"
proof -
  let ?i = "length ts" and ?pd = "entry_addr d (of_nat (length ts))" and ?lst = "pdptlist v"
  have al: "aligned d" "\<forall>t \<in> set ts. aligned t" "aligned 0" "d \<noteq> 0" "\<forall>t \<in> set ts. t \<noteq> 0 \<and> t \<noteq> d"
    using dp by (auto simp: dir_pages_def)
  have pd: "?pd \<in> page d" using entry_in_page [OF al(1) len] .
  have e0: "pd_base (vmem v ?pd) = 0" using fd len by (simp add: flat_dir_def pd_base_def)
  have n: "unat N_PAGE_ENTRIES = 1024" by (simp add: N_PAGE_ENTRIES_def)
  obtain t m' bs' where g: "create_directory_entry np ?pd sh (of_nat ?i * N_PAGE_ENTRIES) 0 N_PAGE_ENTRIES v = Ret (v\<lparr>vmem := m'\<rparr>)"
    "dir_pages ?lst bs' (0 # d # ts @ [t])" "page_pool ?lst lo hi m' bs'" "page t \<subseteq> region bs"
    "region bs' = region bs - page t" "free_total bs = free_total bs' + 4096" "m' ?pd = put_base (drop_bit 12 t) 0x13"
    "\<And>j. j < 1024 \<Longrightarrow> m' (entry_addr t (of_nat j)) = put_base (of_nat ?i * N_PAGE_ENTRIES + of_nat j) 0x13"
    "\<And>x. x \<notin> region bs \<union> {?lst, ?lst + 4} \<union> page 0 \<Longrightarrow> x \<noteq> ?pd \<Longrightarrow> m' x = vmem v x"
    by (rule create_directory_entry_table [OF dp pd e0 pp ne st, of N_PAGE_ENTRIES np "of_nat ?i * N_PAGE_ENTRIES", unfolded n])
      (simp, rule that)
  have keep: "m' x = vmem v x" if "p \<in> set (d # ts)" "x \<in> page p" "x \<noteq> ?pd" for p x
    using that dp pages_disjoint [of p 0] al by (intro g(9)) (auto simp: dir_pages_def)
  have dk: "m' (entry_addr d (of_nat i)) = vmem v (entry_addr d (of_nat i))" if "i < 1024" "i \<noteq> ?i" for i
    using that keep [of d] entry_in_page [OF al(1), of i] entry_inj [OF al(1), of i ?i] len by simp
  have tk: "m' (entry_addr (ts ! i) (of_nat j)) = vmem v (entry_addr (ts ! i) (of_nat j))" if "i < ?i" "j < 1024" for i j
  proof -
    have p: "ts ! i \<in> set ts" "entry_addr (ts ! i) (of_nat j) \<in> page (ts ! i)"
      using that al(2) entry_in_page [of "ts ! i" j] by simp_all
    have "entry_addr (ts ! i) (of_nat j) \<noteq> ?pd" using page_sep [OF p(2), of d] p(1) al pd by auto
    then show ?thesis using p by (intro keep [of "ts ! i"]) simp_all
  qed
  have "flat_dir m' d (ts @ [t])"
    unfolding flat_dir_def
  proof (intro conjI allI impI)
    show "m' (entry_addr d (of_nat i)) = (if i < length (ts @ [t]) then put_base (drop_bit 12 ((ts @ [t]) ! i)) 0x13 else 0)"
      if i: "i < 1024" for i
    proof (cases "i = ?i")
      case False
      have "vmem v (entry_addr d (of_nat i)) = (if i < ?i then put_base (drop_bit 12 (ts ! i)) 0x13 else 0)"
        using fd i unfolding flat_dir_def by blast
      then show ?thesis using dk [OF i False] False by (simp add: nth_append)
    qed (simp add: g(7))
    show "m' (entry_addr ((ts @ [t]) ! i) (of_nat j)) = put_base (of_nat (1024 * i + j)) 0x13"
      if i: "i < length (ts @ [t])" "j < 1024" for i j
    proof (cases "i = ?i")
      case True
      then show ?thesis using g(8) [OF i(2)] by (simp add: N_PAGE_ENTRIES_def mult.commute)
    next
      case False
      then have lt: "i < ?i" using i(1) by simp
      have "vmem v (entry_addr (ts ! i) (of_nat j)) = put_base (of_nat (1024 * i + j)) 0x13"
        using fd lt i(2) unfolding flat_dir_def by blast
      then show ?thesis using tk [OF lt i(2)] lt by (simp add: nth_append)
    qed
  qed
  moreover have "region bs' \<subseteq> region bs" using g(5) by blast
  moreover have "m' x = vmem v x" if x: "x \<notin> region bs \<union> {?lst, ?lst + 4} \<union> page 0 \<union> page d" for x
  proof (rule g(9))
    show "x \<notin> region bs \<union> {?lst, ?lst + 4} \<union> page 0" using x by blast
    show "x \<noteq> ?pd" using x pd by blast
  qed
  ultimately show thesis by (rule that [OF g(1) _ g(2,3) _ g(6) _ g(4)])
qed

text \<open>
  The loops that fill a directory entry by entry, of \<open>create_directory\<close> and of \<open>sysinit\<close>; they differ in the entry of the null
  process they ask to share.
\<close>

fun dir_loop :: "(u32 \<Rightarrow> u32) \<Rightarrow> nat \<Rightarrow> u32 \<Rightarrow> u32 \<Rightarrow> addr \<Rightarrow> vm \<Rightarrow> vm result" where
  "dir_loop sh 0 i np d v = Ret v"
| "dir_loop sh (Suc n) i np d v =
    rbind (create_directory_entry np (entry_addr d i) (sh i) (i * N_PAGE_ENTRIES) 0 N_PAGE_ENTRIES v) (\<lambda>v. dir_loop sh n (i + 1) np d v)"

lemma directory_entries_loop: "directory_entries n i np d v = dir_loop (\<lambda>i. i) n i np d v"
proof (induction n arbitrary: i v)
  case (Suc n)
  have "directory_entries n (i + 1) np d = dir_loop (\<lambda>i. i) n (i + 1) np d" using Suc.IH by (intro ext)
  then show ?case by simp
qed simp

lemma dir_loop_fresh:
  assumes "flat_dir (vmem v) d ts" and "length ts + n \<le> 1024" and "dir_pages (pdptlist v) bs (0 # d # ts)"
    and "page_pool (pdptlist v) lo hi (vmem v) bs" and "4096 * n \<le> free_total bs" and "n_static_pages v = - 1 \<or> (\<forall>i. sh i = - 1)"
  shows "\<exists>m' ts' bs'. dir_loop sh n (of_nat (length ts)) np d v = Ret (v\<lparr>vmem := m'\<rparr>) \<and> flat_dir m' d (ts @ ts') \<and>
    length ts' = n \<and> dir_pages (pdptlist v) bs' (0 # d # ts @ ts') \<and> page_pool (pdptlist v) lo hi m' bs' \<and>
    free_total bs = free_total bs' + 4096 * n \<and> region bs' \<subseteq> region bs \<and> (\<forall>t \<in> set ts'. page t \<subseteq> region bs) \<and>
    (\<forall>x. x \<notin> region bs \<union> {pdptlist v, pdptlist v + 4} \<union> page 0 \<union> page d \<longrightarrow> m' x = vmem v x)"
  using assms
proof (induction n arbitrary: v ts bs)
  case (Suc n)
  have ne: "bs \<noteq> []" and len: "length ts < 1024" and st: "n_static_pages v = - 1 \<or> sh (of_nat (length ts)) = - 1"
    using Suc.prems(2,5,6) by auto
  obtain t m1 bs1 where s: "create_directory_entry np (entry_addr d (of_nat (length ts))) (sh (of_nat (length ts)))
      (of_nat (length ts) * N_PAGE_ENTRIES) 0 N_PAGE_ENTRIES v = Ret (v\<lparr>vmem := m1\<rparr>)"
    "flat_dir m1 d (ts @ [t])" "dir_pages (pdptlist v) bs1 (0 # d # ts @ [t])" "page_pool (pdptlist v) lo hi m1 bs1"
    "free_total bs = free_total bs1 + 4096" "region bs1 \<subseteq> region bs"
    "\<And>x. x \<notin> region bs \<union> {pdptlist v, pdptlist v + 4} \<union> page 0 \<union> page d \<Longrightarrow> m1 x = vmem v x" "page t \<subseteq> region bs"
    by (rule create_directory_entry_fresh [OF Suc.prems(1) len Suc.prems(3,4) ne st]) (rule that)
  have "\<exists>m' ts' bs'. dir_loop sh n (of_nat (length (ts @ [t]))) np d (v\<lparr>vmem := m1\<rparr>) = Ret ((v\<lparr>vmem := m1\<rparr>)\<lparr>vmem := m'\<rparr>) \<and>
      flat_dir m' d ((ts @ [t]) @ ts') \<and> length ts' = n \<and>
      dir_pages (pdptlist (v\<lparr>vmem := m1\<rparr>)) bs' (0 # d # (ts @ [t]) @ ts') \<and> page_pool (pdptlist (v\<lparr>vmem := m1\<rparr>)) lo hi m' bs' \<and>
      free_total bs1 = free_total bs' + 4096 * n \<and> region bs' \<subseteq> region bs1 \<and> (\<forall>t \<in> set ts'. page t \<subseteq> region bs1) \<and>
      (\<forall>x. x \<notin> region bs1 \<union> {pdptlist (v\<lparr>vmem := m1\<rparr>), pdptlist (v\<lparr>vmem := m1\<rparr>) + 4} \<union> page 0 \<union> page d \<longrightarrow> m' x = vmem (v\<lparr>vmem := m1\<rparr>) x)"
    by (rule Suc.IH) (use s(2-5) Suc.prems in simp_all)
  then obtain m' ts' bs' where r: "dir_loop sh n (1 + of_nat (length ts)) np d (v\<lparr>vmem := m1\<rparr>) = Ret (v\<lparr>vmem := m'\<rparr>)"
    "flat_dir m' d (ts @ t # ts')" "length ts' = n" "dir_pages (pdptlist v) bs' (0 # d # ts @ t # ts')" "page_pool (pdptlist v) lo hi m' bs'"
    "free_total bs1 = free_total bs' + 4096 * n" "region bs' \<subseteq> region bs1"
    "\<And>x. x \<notin> region bs1 \<union> {pdptlist v, pdptlist v + 4} \<union> page 0 \<union> page d \<Longrightarrow> m' x = m1 x"
    "\<forall>t \<in> set ts'. page t \<subseteq> region bs1"
    by auto
  have "m' x = vmem v x" if "x \<notin> region bs \<union> {pdptlist v, pdptlist v + 4} \<union> page 0 \<union> page d" for x
    using that s(6) s(7) [of x] r(8) [of x] by auto
  moreover have "\<forall>t \<in> set (t # ts'). page t \<subseteq> region bs" using r(9) s(6,8) by fastforce
  ultimately show ?case using s(1,5,6) r by (intro exI [of _ m'] exI [of _ "t # ts'"] exI [of _ bs']) (auto simp add: add.commute)
next
  case 0
  then show ?case by (intro exI [of _ "vmem v"] exI [of _ "[]"] exI [of _ bs]) simp
qed

text \<open>The number of directory entries the kernel's own addresses take.\<close>

definition kernel_entries :: "vm \<Rightarrow> u32" where
  "kernel_entries v = ceil_div (ceil_div (minpdpt v) PAGE_SIZE) N_PAGE_ENTRIES"

lemma flat_dir_empty: "(\<And>i. i < 1024 \<Longrightarrow> m (entry_addr d (of_nat i)) = 0) \<Longrightarrow> flat_dir m d []"
  by (simp add: flat_dir_def)

text \<open>A fresh directory: a page of the pool, cleared.\<close>

lemma fresh_directory:
  assumes pp: "page_pool (pdptlist v) lo hi (vmem v) bs" and ne: "bs \<noteq> []" and dp: "dir_pages (pdptlist v) bs (0 # ps)"
  obtains d m1 bs1 where "getpdptframe v = Ret (drop_bit 12 d, v\<lparr>vmem := m1\<rparr>)" "aligned d"
    "flat_dir (zero_words (unat N_PAGE_ENTRIES) d m1) d []" "dir_pages (pdptlist v) bs1 (0 # d # ps)"
    "page_pool (pdptlist v) lo hi (zero_words (unat N_PAGE_ENTRIES) d m1) bs1" "free_total bs = free_total bs1 + 4096"
    "\<And>x. x \<notin> region bs \<union> {pdptlist v, pdptlist v + 4} \<Longrightarrow> zero_words (unat N_PAGE_ENTRIES) d m1 x = vmem v x"
    "region bs1 \<subseteq> region bs" "page d \<subseteq> region bs"
proof -
  have lst: "pdptlist v \<notin> region bs" "pdptlist v + 4 \<notin> region bs" using pp by (auto simp: page_pool_def pool_inv_def freelist_def)
  obtain d m1 bs1 where g: "getpdptframe v = Ret (drop_bit 12 d, v\<lparr>vmem := m1\<rparr>)" "page_pool (pdptlist v) lo hi m1 bs1"
    "aligned d" "page d \<subseteq> region bs" "region bs1 = region bs - page d" "d \<noteq> 0" "free_total bs = free_total bs1 + 4096"
    "\<forall>x. x \<notin> region bs \<union> {pdptlist v, pdptlist v + 4} \<longrightarrow> m1 x = vmem v x"
    by (rule getpdptframe_ok [OF pp ne]) (rule that)
  let ?m = "zero_words (unat N_PAGE_ENTRIES) d m1"
  have "dir_pages (pdptlist v) bs1 ((0 # ps) @ [d])" by (rule dir_pages_alloc [OF dp g(3-5) lst])
  then have dp': "dir_pages (pdptlist v) bs1 (0 # d # ps)" by (auto simp: dir_pages_def)
  have fd: "flat_dir ?m d []" by (rule flat_dir_empty) (rule zero_page(1) [OF g(3)])
  have "x \<notin> page d" if "x \<in> region bs1 \<or> x = pdptlist v" for x using that g(4,5) lst by auto
  then have pp': "page_pool (pdptlist v) lo hi ?m bs1"
    using page_pool_frame [OF g(2), of ?m] zero_page(2) [OF g(3)] by blast
  have keep: "?m x = vmem v x" if x: "x \<notin> region bs \<union> {pdptlist v, pdptlist v + 4}" for x
  proof -
    have "x \<notin> page d" using x g(4) by auto
    then show ?thesis using zero_page(2) [OF g(3)] g(8) x by simp
  qed
  show thesis by (rule that [OF g(1,3) fd dp' pp' g(7) keep]) (use g(4,5) in auto)
qed

lemma create_directory_first:
  assumes pp: "page_pool (pdptlist v) lo hi (vmem v) bs" and st: "n_static_pages v = - 1"
    and dp: "dir_pages (pdptlist v) bs [0]" and room: "4096 * (unat (kernel_entries v) + 1) \<le> free_total bs"
    and small: "unat (kernel_entries v) \<le> 1024"
  shows "\<exists>pdbr m' d ts bs'. create_directory np v = Ret (pdbr, v\<lparr>vmem := m', n_static_pages := kernel_entries v\<rparr>) \<and>
    frame_addr (pdbr_base pdbr) = d \<and> flat_dir m' d ts \<and> length ts = unat (kernel_entries v) \<and>
    dir_pages (pdptlist v) bs' (0 # d # ts) \<and> page_pool (pdptlist v) lo hi m' bs' \<and>
    free_total bs = free_total bs' + 4096 * (unat (kernel_entries v) + 1) \<and> region bs' \<subseteq> region bs \<and> (\<forall>p \<in> set (d # ts). page p \<subseteq> region bs) \<and>
    (\<forall>x. x \<notin> region bs \<union> {pdptlist v, pdptlist v + 4} \<union> page 0 \<longrightarrow> m' x = vmem v x)"
proof -
  have ne: "bs \<noteq> []" using room by auto
  obtain d m1 bs1 where f: "getpdptframe v = Ret (drop_bit 12 d, v\<lparr>vmem := m1\<rparr>)" "aligned d"
    "flat_dir (zero_words (unat N_PAGE_ENTRIES) d m1) d []" "dir_pages (pdptlist v) bs1 (0 # d # [])"
    "page_pool (pdptlist v) lo hi (zero_words (unat N_PAGE_ENTRIES) d m1) bs1" "free_total bs = free_total bs1 + 4096"
    "\<And>x. x \<notin> region bs \<union> {pdptlist v, pdptlist v + 4} \<Longrightarrow> zero_words (unat N_PAGE_ENTRIES) d m1 x = vmem v x"
    "region bs1 \<subseteq> region bs" "page d \<subseteq> region bs"
    by (rule fresh_directory [OF pp ne dp]) (rule that)
  let ?n = "unat (kernel_entries v)" and ?v = "v\<lparr>vmem := zero_words (unat N_PAGE_ENTRIES) d m1\<rparr>"
  obtain m' ts bs' where e: "directory_entries ?n (of_nat 0) np d ?v = Ret (?v\<lparr>vmem := m'\<rparr>)" "flat_dir m' d ts" "length ts = ?n"
    "dir_pages (pdptlist v) bs' (0 # d # ts)" "page_pool (pdptlist v) lo hi m' bs'" "free_total bs1 = free_total bs' + 4096 * ?n"
    "region bs' \<subseteq> region bs1"
    "\<And>x. x \<notin> region bs1 \<union> {pdptlist v, pdptlist v + 4} \<union> page 0 \<union> page d \<Longrightarrow> m' x = zero_words (unat N_PAGE_ENTRIES) d m1 x"
    "\<forall>t \<in> set ts. page t \<subseteq> region bs1"
    using dir_loop_fresh [of ?v d "[]" ?n bs1 lo hi "\<lambda>i. i" np] f(3-6) room small st by (auto simp: directory_entries_loop)
  have "create_directory np v = Ret (make_pdbr (drop_bit 12 d), v\<lparr>vmem := m', n_static_pages := kernel_entries v\<rparr>)"
    using f(1) e(1) st unfolding kernel_entries_def by (simp add: create_directory_def Let_def frame_addr_drop [OF f(2)])
  moreover have "frame_addr (pdbr_base (make_pdbr (drop_bit 12 d))) = d" by (simp add: pdbr_base_make frame_addr_drop [OF f(2)])
  moreover have "free_total bs = free_total bs' + 4096 * (?n + 1)" using e(6) f(6) by simp
  moreover have "region bs' \<subseteq> region bs" using e(7) f(8) by blast
  moreover have "m' x = vmem v x" if "x \<notin> region bs \<union> {pdptlist v, pdptlist v + 4} \<union> page 0" for x
    using that e(8) [of x] f(7) [of x] f(8,9) by auto
  moreover have "\<forall>p \<in> set (d # ts). page p \<subseteq> region bs" using e(9) f(8,9) by auto
  ultimately show ?thesis using e(2-5) by blast
qed

text \<open>Later processes share the tables of the first one: only the directory itself is new.\<close>

lemma create_directory_entry_shared:
  assumes dp: "dir_pages lst bs (0 # d # d0 # ts)" and fd: "flat_dir (vmem v) d0 ts" and np: "frame_addr (pdbr_base np) = d0"
    and i: "i < length ts" "i < 1024" and e0: "pd_base (vmem v (entry_addr d (of_nat i))) = 0" and st: "n_static_pages v \<noteq> - 1"
  obtains m' where "create_directory_entry np (entry_addr d (of_nat i)) (of_nat i) phy 0 n v = Ret (v\<lparr>vmem := m'\<rparr>)"
    "m' (entry_addr d (of_nat i)) = put_base (drop_bit 12 (ts ! i)) 0x13"
    "\<And>x. x \<notin> page 0 \<Longrightarrow> x \<noteq> entry_addr d (of_nat i) \<Longrightarrow> m' x = vmem v x"
proof -
  let ?pd = "entry_addr d (of_nat i)" and ?ns = "entry_addr d0 (of_nat i)"
  have al: "aligned d" "aligned d0" "aligned 0" "d \<noteq> 0" "d \<noteq> d0" "d0 \<noteq> 0" using dp by (auto simp: dir_pages_def)
  have pd: "?pd \<in> page d" "?ns \<in> page d0" using entry_in_page al i by simp_all
  then have ne: "?pd \<notin> page 0" "?ns \<notin> page 0" "?ns \<noteq> ?pd"
    using page_sep [of ?pd d] page_sep [of ?ns d0] al by auto
  define m1 where "m1 = (vmem v)(?pd := fill_pd_flags (vmem v ?pd))"
  define m2 where "m2 = zero_words (unat N_PAGE_ENTRIES) 0 m1"
  have m2: "m2 ?pd = fill_pd_flags (vmem v ?pd)" "x \<notin> page 0 \<Longrightarrow> x \<noteq> ?pd \<Longrightarrow> m2 x = vmem v x" for x
    using zero_page(2) [OF al(3)] ne by (simp_all add: m2_def m1_def)
  have "vmem v ?ns = put_base (drop_bit 12 (ts ! i)) 0x13" using fd i unfolding flat_dir_def by metis
  then have base: "pd_base (m2 ?ns) = take_bit 20 (drop_bit 12 (ts ! i))" using m2(2) ne by simp
  have tk: "put_base (take_bit 20 b) e = put_base b e" for b e
    by (rule u32_eqI) (auto simp: bit_put_base bit_simps)
  have "of_nat i \<noteq> (- 1 :: u32)"
  proof
    assume "of_nat i = (- 1 :: u32)"
    then have "unat (of_nat i :: u32) = 4294967295" using unat_USYSERR by (simp add: USYSERR_def)
    then show False using i(2) by (simp add: unat_of_nat)
  qed
  moreover have "pd_base (m1 ?pd) = 0" by (simp add: m1_def base_fill_pd_flags e0)
  ultimately have "create_directory_entry np ?pd (of_nat i) phy 0 n v = Ret (v\<lparr>vmem := m2(?pd := put_base (drop_bit 12 (ts ! i)) 0x13)\<rparr>)"
    using st np base m2(1)
    by (simp add: create_directory_entry_def Let_def m1_def [symmetric] m2_def [symmetric] tk fill_pd_flags_value)
  then show thesis by (rule that) (use m2(2) in simp_all)
qed

lemma directory_entries_shared:
  assumes "dir_pages lst bs (0 # d # d0 # ts)" and "flat_dir (vmem v) d0 ts" and "frame_addr (pdbr_base np) = d0"
    and "n_static_pages v \<noteq> - 1" and "i + n \<le> length ts" and "i + n \<le> 1024"
    and "\<And>k. k < 1024 \<Longrightarrow> vmem v (entry_addr d (of_nat k)) = (if k < i then put_base (drop_bit 12 (ts ! k)) 0x13 else 0)"
  shows "\<exists>m'. directory_entries n (of_nat i) np d v = Ret (v\<lparr>vmem := m'\<rparr>) \<and>
    (\<forall>k < 1024. m' (entry_addr d (of_nat k)) = (if k < i + n then put_base (drop_bit 12 (ts ! k)) 0x13 else 0)) \<and>
    (\<forall>x. x \<notin> page 0 \<union> page d \<longrightarrow> m' x = vmem v x)"
  using assms(2,4-)
proof (induction n arbitrary: i v)
  case (Suc n)
  have al: "aligned d" "d \<noteq> 0" "aligned 0" "aligned d0" "\<forall>t \<in> set ts. aligned t" "d0 \<noteq> 0" "d0 \<noteq> d"
    "\<forall>t \<in> set ts. t \<noteq> 0 \<and> t \<noteq> d"
    using assms(1) by (auto simp: dir_pages_def)
  have i: "i < length ts" "i < 1024" using Suc.prems(3,4) by auto
  have e0: "pd_base (vmem v (entry_addr d (of_nat i))) = 0" using Suc.prems(5) [OF i(2)] by (simp add: pd_base_def)
  obtain m1 where s: "create_directory_entry np (entry_addr d (of_nat i)) (of_nat i) (of_nat i * N_PAGE_ENTRIES) 0 N_PAGE_ENTRIES v = Ret (v\<lparr>vmem := m1\<rparr>)"
    "m1 (entry_addr d (of_nat i)) = put_base (drop_bit 12 (ts ! i)) 0x13"
    "\<And>x. x \<notin> page 0 \<Longrightarrow> x \<noteq> entry_addr d (of_nat i) \<Longrightarrow> m1 x = vmem v x"
    by (rule create_directory_entry_shared [OF assms(1) Suc.prems(1) assms(3) i e0 Suc.prems(2)]) (rule that)
  have pd: "entry_addr d (of_nat k) \<in> page d" "entry_addr d (of_nat k) \<notin> page 0" if "k < 1024" for k
    using entry_in_page [OF al(1) that] pages_disjoint [OF al(1,3,2)] by auto
  have keep: "m1 x = vmem v x" if "p \<in> set (d0 # ts)" "x \<in> page p" for p x
  proof (rule s(3))
    have "aligned p" "p \<noteq> 0" "p \<noteq> d" using that al by auto
    then show "x \<notin> page 0" "x \<noteq> entry_addr d (of_nat i)"
      using page_sep [OF that(2)] al pd(1) [OF i(2)] by auto
  qed
  have fd: "flat_dir m1 d0 ts" by (rule flat_dir_frame [OF Suc.prems(1) al(4,5) keep])
  have "m1 (entry_addr d (of_nat k)) = (if k < Suc i then put_base (drop_bit 12 (ts ! k)) 0x13 else 0)" if k: "k < 1024" for k
  proof (cases "k = i")
    case False
    then have "m1 (entry_addr d (of_nat k)) = vmem v (entry_addr d (of_nat k))"
      using pd(2) [OF k] entry_inj [OF al(1) k i(2)] by (intro s(3)) simp_all
    then show ?thesis using Suc.prems(5) [OF k] False by simp
  qed (use s(2) in simp)
  then have "\<exists>m'. directory_entries n (of_nat (Suc i)) np d (v\<lparr>vmem := m1\<rparr>) = Ret ((v\<lparr>vmem := m1\<rparr>)\<lparr>vmem := m'\<rparr>) \<and>
      (\<forall>k < 1024. m' (entry_addr d (of_nat k)) = (if k < Suc i + n then put_base (drop_bit 12 (ts ! k)) 0x13 else 0)) \<and>
      (\<forall>x. x \<notin> page 0 \<union> page d \<longrightarrow> m' x = vmem (v\<lparr>vmem := m1\<rparr>) x)"
    by (intro Suc.IH) (use Suc.prems fd in simp_all)
  then obtain m' where m': "directory_entries n (of_nat (Suc i)) np d (v\<lparr>vmem := m1\<rparr>) = Ret (v\<lparr>vmem := m'\<rparr>)"
    "\<forall>k < 1024. m' (entry_addr d (of_nat k)) = (if k < Suc i + n then put_base (drop_bit 12 (ts ! k)) 0x13 else 0)"
    "\<forall>x. x \<notin> page 0 \<union> page d \<longrightarrow> m' x = m1 x" by auto
  have "m' x = vmem v x" if x: "x \<notin> page 0 \<union> page d" for x
  proof -
    have "x \<noteq> entry_addr d (of_nat i)" "x \<notin> page 0" using x pd(1) [OF i(2)] by blast+
    then show ?thesis using m'(3) s(3) x by simp
  qed
  moreover have "directory_entries (Suc n) (of_nat i) np d v = Ret (v\<lparr>vmem := m'\<rparr>)"
    using s(1) m'(1) by (simp add: add.commute)
  ultimately show ?case using m'(2) by (intro exI [of _ m']) simp
next
  case 0
  then show ?case by (intro exI [of _ "vmem v"]) simp
qed

lemma create_directory_shared:
  assumes pp: "page_pool (pdptlist v) lo hi (vmem v) bs" and ne: "bs \<noteq> []" and st: "n_static_pages v \<noteq> - 1"
    and dp: "dir_pages (pdptlist v) bs (0 # d0 # ts)" and fd: "flat_dir (vmem v) d0 ts" and np: "frame_addr (pdbr_base np) = d0"
    and small: "unat (kernel_entries v) \<le> length ts" "unat (kernel_entries v) \<le> 1024"
  shows "\<exists>pdbr m' d bs'. create_directory np v = Ret (pdbr, v\<lparr>vmem := m'\<rparr>) \<and> frame_addr (pdbr_base pdbr) = d \<and> d \<noteq> d0 \<and>
    flat_dir m' d (take (unat (kernel_entries v)) ts) \<and> flat_dir m' d0 ts \<and>
    dir_pages (pdptlist v) bs' (0 # d # d0 # ts) \<and> page_pool (pdptlist v) lo hi m' bs' \<and> free_total bs = free_total bs' + 4096"
proof -
  let ?n = "unat (kernel_entries v)" and ?lst = "pdptlist v"
  obtain d m1 bs1 where f: "getpdptframe v = Ret (drop_bit 12 d, v\<lparr>vmem := m1\<rparr>)" "aligned d"
    "flat_dir (zero_words (unat N_PAGE_ENTRIES) d m1) d []" "dir_pages ?lst bs1 (0 # d # d0 # ts)"
    "page_pool ?lst lo hi (zero_words (unat N_PAGE_ENTRIES) d m1) bs1" "free_total bs = free_total bs1 + 4096"
    "\<And>x. x \<notin> region bs \<union> {?lst, ?lst + 4} \<Longrightarrow> zero_words (unat N_PAGE_ENTRIES) d m1 x = vmem v x" "region bs1 \<subseteq> region bs"
    by (rule fresh_directory [OF pp ne dp]) (rule that)
  let ?v = "v\<lparr>vmem := zero_words (unat N_PAGE_ENTRIES) d m1\<rparr>"
  have al: "aligned d0" "\<forall>t \<in> set ts. aligned t" "d \<noteq> d0" using f(4) by (auto simp: dir_pages_def)
  have fd1: "flat_dir (vmem ?v) d0 ts"
  proof (rule flat_dir_frame [OF fd al(1,2)])
    fix p x assume p: "p \<in> set (d0 # ts)" and x: "x \<in> page p"
    then have "x \<notin> region bs \<union> {?lst, ?lst + 4}" using dp by (auto simp: dir_pages_def)
    then show "vmem ?v x = vmem v x" using f(7) by simp
  qed
  have "\<exists>m'. directory_entries ?n (of_nat 0) np d ?v = Ret (?v\<lparr>vmem := m'\<rparr>) \<and>
    (\<forall>k < 1024. m' (entry_addr d (of_nat k)) = (if k < 0 + ?n then put_base (drop_bit 12 (ts ! k)) 0x13 else 0)) \<and>
    (\<forall>x. x \<notin> page 0 \<union> page d \<longrightarrow> m' x = vmem ?v x)"
    by (rule directory_entries_shared [OF f(4) fd1 np]) (use st small f(3) in \<open>simp_all add: flat_dir_def\<close>)
  then obtain m' where m': "directory_entries ?n 0 np d ?v = Ret (v\<lparr>vmem := m'\<rparr>)"
    "\<forall>k < 1024. m' (entry_addr d (of_nat k)) = (if k < ?n then put_base (drop_bit 12 (ts ! k)) 0x13 else 0)"
    "\<forall>x. x \<notin> page 0 \<union> page d \<longrightarrow> m' x = vmem ?v x" by auto
  have fd2: "flat_dir m' d0 ts"
  proof (rule flat_dir_frame [OF fd1 al(1,2)])
    fix p x assume p: "p \<in> set (d0 # ts)" and x: "x \<in> page p"
    have "aligned p" "aligned 0" "p \<noteq> 0" "p \<noteq> d" using p f(4) by (auto simp: dir_pages_def)
    then have "x \<notin> page 0 \<union> page d" using page_sep [OF x] f(2) by simp
    then show "m' x = vmem ?v x" using m'(3) by blast
  qed
  then have "\<forall>i < ?n. \<forall>j < 1024. m' (entry_addr (ts ! i) (of_nat j)) = put_base (of_nat (1024 * i + j)) 0x13"
    using small(1) unfolding flat_dir_def by simp
  then have "flat_dir m' d (take ?n ts)" using m'(2) small(1) unfolding flat_dir_def by (simp add: min_def)
  moreover have "page_pool ?lst lo hi m' bs1"
    by (rule page_pool_frame [OF f(5)]) (use m'(3) f(4) in \<open>auto simp: dir_pages_def\<close>)
  moreover have "create_directory np v = Ret (make_pdbr (drop_bit 12 d), v\<lparr>vmem := m'\<rparr>)"
    using f(1) m'(1) st unfolding kernel_entries_def by (simp add: create_directory_def Let_def frame_addr_drop [OF f(2)])
  moreover have "frame_addr (pdbr_base (make_pdbr (drop_bit 12 d))) = d" by (simp add: pdbr_base_make frame_addr_drop [OF f(2)])
  ultimately show ?thesis using fd2 f(4,6) al(3) by blast
qed

lemma unat_ceil_div:
  assumes "unat A + unat B < 2 ^ 32" and "0 < unat B"
  shows "unat (ceil_div A B) = (unat A + unat B - 1) div unat B"
proof (cases "unat A mod unat B = 0")
  case True
  then obtain q where q: "unat A = unat B * q" by auto
  have "(unat B * q + unat B - 1) div unat B = q"
    using assms(2) div_mult_self4 [of "unat B" q "unat B - 1"] by (simp add: add.commute)
  moreover have "A mod B = 0" using True by (simp add: word_unat_eq_iff unat_mod)
  ultimately show ?thesis using q assms(2) by (simp add: ceil_div_def unat_div)
next
  case False
  define r q where rq: "r = unat A mod unat B" "q = unat A div unat B"
  have A: "unat A = unat B * q + r" "0 < r" "r < unat B" using False assms(2) by (simp_all add: rq)
  have "(unat A + unat B - 1) div unat B = q + 1" "(unat A + unat B) div unat B = q + 1"
  proof -
    have e: "unat A + unat B - 1 = (r - 1) + unat B * (q + 1)" "unat A + unat B = r + unat B * (q + 1)" using A by simp_all
    have dv: "(s + unat B * (q + 1)) div unat B = q + 1" if "s < unat B" for s
      using div_mult_self2 [of "unat B" s "q + 1"] that by simp
    show "(unat A + unat B - 1) div unat B = q + 1" unfolding e(1) by (rule dv) (use A(3) in simp)
    show "(unat A + unat B) div unat B = q + 1" unfolding e(2) by (rule dv) (rule A(3))
  qed
  moreover have "A mod B \<noteq> 0" using False by (simp add: word_unat_eq_iff unat_mod)
  ultimately show ?thesis using assms(1) by (simp add: ceil_div_def unat_div unat_plus_no_wrap)
qed

text \<open>The kernel entries reach up to the page pools.\<close>

lemma below_minpdpt:
  assumes "unat (minpdpt v) + 2 ^ 22 < 2 ^ 32" and "a < minpdpt v"
  shows "unat (pd_offset a) < unat (kernel_entries v)" and "unat (kernel_entries v) \<le> 1024"
proof -
  let ?M = "unat (minpdpt v)" and ?p = "ceil_div (minpdpt v) PAGE_SIZE"
  have p: "unat ?p = (?M + 4095) div 4096" using assms(1) by (subst unat_ceil_div) (simp_all add: PAGE_SIZE_def)
  have "unat ?p + 1024 < 2 ^ 32" using assms(1) by (simp add: p)
  then have k: "unat (kernel_entries v) = (unat ?p + 1023) div 1024"
    unfolding kernel_entries_def by (subst unat_ceil_div) (simp_all add: N_PAGE_ENTRIES_def)
  have "unat (pd_offset a) = unat a div 4194304" by (simp add: pd_offset_def drop_bit_eq_div unat_div)
  moreover have "unat a < ?M" using assms(2) by (simp add: word_less_nat_alt)
  ultimately show "unat (pd_offset a) < unat (kernel_entries v)" unfolding k p by linarith
  have "?M + 4194304 < 4294967296" using assms(1) by simp
  then show "unat (kernel_entries v) \<le> 1024" unfolding k p by linarith
qed

section \<open>The pools after initialisation\<close>

lemma truncmb_id: "8 dvd unat n \<Longrightarrow> truncmb n = n"
  unfolding word_unat_eq_iff truncmb_def unat_and_not_7 by (auto elim!: dvdE)

lemma aligned_8: "aligned a \<Longrightarrow> 8 dvd unat a"
  using dvd_trans [of 8 4096 "unat a"] by (simp add: aligned_def)

lemma init_list_pool:
  assumes "aligned start" and "HOLESTART < start" and "4096 dvd unat len" and "0 < unat len"
    and fit: "unat start + unat len < 2 ^ 32" and lst: "unat lst + 8 \<le> unat start"
  obtains m' where "init_list lst start len m = Ret (start, start + len - 1, m')"
    "page_pool lst start (start + len - 1) m' [(start, len)]" "\<forall>x. x \<notin> {lst, start, start + 4} \<longrightarrow> m' x = m x"
proof -
  have ok: "block_ok (start, len)"
    using assms aligned_8 [OF assms(1)] dvd_trans [of 8 4096 "unat len"] lst by (simp add: block_ok_def)
  have "roundmb start = start" by (rule roundmb_idem) (use ok in \<open>simp add: req_ok_def block_ok_def\<close>)
  moreover have "truncmb len = len" by (rule truncmb_id) (use ok in \<open>simp add: block_ok_def\<close>)
  ultimately have run: "init_list lst start len m = Ret (start, start + len - 1, m(lst := start, start + 4 := len, start := NULL))"
    using assms(2) by (simp add: init_list_def Let_def set_mnext_def set_mlength_def)
  let ?m = "m(lst := start, start + 4 := len, start := NULL)"
  have l4: "unat (lst + 4) = unat lst + 4" using lst fit by (subst unat_plus_no_wrap) simp_all
  have s4: "unat (start + 4) = unat start + 4" using block_ok_unat_4 [OF ok] by simp
  have hi: "unat (start + len - 1) = unat start + unat len - 1"
    using fit assms(4) by (subst unat_minus_le) (simp_all add: unat_plus_no_wrap)
  have "lst \<noteq> start" "lst \<noteq> start + 4" "start \<noteq> start + 4" using lst s4 by auto
  then have "freelist ?m lst [(start, len)]"
    using ok lst l4 block_ok_not_NULL [OF ok] by (auto simp: freelist_def mnext_def mlength_def bytes_def)
  moreover have "bytes (start, len) \<subseteq> {start..start + len - 1}"
    using hi by (auto simp: bytes_def word_le_nat_alt)
  moreover have "lst \<notin> {start..start + len - 1}" "lst + 4 \<notin> {start..start + len - 1}"
    using lst l4 by (auto simp: word_le_nat_alt)
  ultimately have "page_pool lst start (start + len - 1) ?m [(start, len)]"
    using assms(1,3) by (simp add: page_pool_def pool_inv_def)
  then show thesis by (rule that [OF run]) auto
qed

text \<open>The layout the four calls of \<open>__init\<close> give: the pools follow the heap and each other, page by page.\<close>

definition layout :: "vm \<Rightarrow> nat \<Rightarrow> bool" where
  "layout v b \<longleftrightarrow> unat (minpdpt v) = 4096 * b \<and> unat (maxpdpt v) = 4096 * (b + 256) - 1 \<and>
    unat (minffs v) = 4096 * (b + 256) \<and> unat (maxffs v) = 4096 * (b + 2304) - 1 \<and>
    unat (minswap v) = 4096 * (b + 2304) \<and> unat (maxswap v) = 4096 * (b + 4352) - 1 \<and>
    unat (minvstack v) = 4096 * (b + 4352) \<and> unat (maxvstack v) = 4096 * (b + 6400) - 1"

text \<open>The list heads are kernel variables: they lie below the heap's end and do not overlap.\<close>

definition heads_ok :: "vm \<Rightarrow> addr \<Rightarrow> bool" where
  "heads_ok v lim \<longleftrightarrow> (\<forall>h \<in> {pdptlist v, ffslist v, swaplist v, vstacklist v}. unat h + 8 \<le> unat lim) \<and>
    distinct [pdptlist v, ffslist v, swaplist v, vstacklist v]"

definition pools_full :: "vm \<Rightarrow> bool" where
  "pools_full v \<longleftrightarrow>
    page_pool (pdptlist v) (minpdpt v) (maxpdpt v) (vmem v) [(minpdpt v, PAGE_SIZE * MAX_PT_SIZE)] \<and>
    page_pool (ffslist v) (minffs v) (maxffs v) (vmem v) [(minffs v, PAGE_SIZE * MAX_FSS_SIZE)] \<and>
    page_pool (swaplist v) (minswap v) (maxswap v) (vmem v) [(minswap v, PAGE_SIZE * MAX_SWAP_SIZE)] \<and>
    page_pool (vstacklist v) (minvstack v) (maxvstack v) (vmem v) [(minvstack v, PAGE_SIZE * MAX_STACK_SIZE)]"

lemma page_pool_init_frame:
  assumes pp: "page_pool l0 lo0 hi0 m [(s0, n0)]" and fr: "\<forall>x. x \<notin> {lst, start, start + 4} \<longrightarrow> m' x = m x"
    and "l0 \<noteq> lst" and "unat l0 + 8 \<le> unat s0" and "unat lst + 8 \<le> unat s0"
    and "unat s0 + unat n0 \<le> unat start" and "unat start + 4 < 2 ^ 32"
  shows "page_pool l0 lo0 hi0 m' [(s0, n0)]"
proof (rule page_pool_frame [OF pp])
  fix x assume x: "x \<in> region [(s0, n0)] \<or> x = l0"
  have "unat (start + 4) = unat start + 4" using assms(7) by (subst unat_plus_no_wrap) simp_all
  then have "x \<noteq> lst" "x \<noteq> start" "x \<noteq> start + 4" using x assms(3-6) by (auto simp: bytes_def)
  then show "m' x = m x" using fr by simp
qed

lemma init_paging_pools:
  assumes top: "unat (maxheap v + 1) = 4096 * b" and hole: "HOLESTART < maxheap v + 1" and big: "b + 6400 < 2 ^ 20"
    and heads: "heads_ok v (maxheap v + 1)"
  obtains v' where "init_paging v = Ret v'" "pools_full v'" "layout v' b" "n_static_pages v' = - 1" "n_free_vpages v' = MAX_HEAP_SIZE"
    "minpdpt v' = maxheap v + 1" "pdptlist v' = pdptlist v" "ffslist v' = ffslist v" "swaplist v' = swaplist v" "vstacklist v' = vstacklist v"
    "\<And>i. i < MAX_FSS_SIZE \<Longrightarrow> ptmap v' i = NULL \<and> ffs2swapmap v' i = - 1" "\<And>i. i < MAX_SWAP_SIZE \<Longrightarrow> swap2ffsmap v' i = NULL"
    "memlist v' = memlist v" "minheap v' = minheap v" "maxheap v' = maxheap v"
    "\<And>x. unat x < 4096 * b \<Longrightarrow> x \<notin> {pdptlist v, ffslist v, swaplist v, vstacklist v} \<Longrightarrow> vmem v' x = vmem v x"
proof -
  let ?p = "PAGE_SIZE * MAX_PT_SIZE" and ?f = "PAGE_SIZE * MAX_FSS_SIZE"
  define s1 where "s1 = maxheap v + 1"
  define s2 where "s2 = s1 + ?p"
  define s3 where "s3 = s2 + ?f"
  define s4 where "s4 = s3 + ?f"
  have n: "unat ?p = 4096 * 256" "unat ?f = 4096 * 2048" by (simp_all add: layout_defs)
  have u1: "unat s1 = 4096 * b" using top by (simp add: s1_def)
  have u2: "unat s2 = 4096 * (b + 256)" unfolding s2_def using u1 n big by (subst unat_plus_no_wrap) simp_all
  have u3: "unat s3 = 4096 * (b + 2304)" unfolding s3_def using u2 n big by (subst unat_plus_no_wrap) simp_all
  have u4: "unat s4 = 4096 * (b + 4352)" unfolding s4_def using u3 n big by (subst unat_plus_no_wrap) simp_all
  have u: "unat (s2 - 1) = 4096 * (b + 256) - 1" "unat (s3 - 1) = 4096 * (b + 2304) - 1" "unat (s4 - 1) = 4096 * (b + 4352) - 1"
    by (subst unat_minus_le; simp add: u2 u3 u4)+
  have u5: "unat (s4 + ?f - 1) = 4096 * (b + 6400) - 1"
    using big u4 n by (subst unat_minus_le) (simp_all add: unat_plus_no_wrap)
  have al: "aligned s1" "aligned s2" "aligned s3" "aligned s4" by (simp_all add: aligned_def u1 u2 u3 u4)
  have hs: "HOLESTART < s1" "HOLESTART < s2" "HOLESTART < s3" "HOLESTART < s4"
    using hole u1 u2 u3 u4 unfolding s1_def [symmetric] word_less_nat_alt by simp_all
  have h: "unat h + 8 \<le> 4096 * b" if "h \<in> {pdptlist v, ffslist v, swaplist v, vstacklist v}" for h
    using heads that u1 unfolding heads_ok_def s1_def [symmetric] by auto
  have ne: "distinct [pdptlist v, ffslist v, swaplist v, vstacklist v]" using heads by (simp add: heads_ok_def)
  have h1: "unat (pdptlist v) + 8 \<le> 4096 * b" "unat (ffslist v) + 8 \<le> 4096 * b" "unat (swaplist v) + 8 \<le> 4096 * b"
    "unat (vstacklist v) + 8 \<le> 4096 * b" by (rule h, simp)+
  obtain m1 where i1: "init_list (pdptlist v) s1 ?p (vmem v) = Ret (s1, s2 - 1, m1)" "page_pool (pdptlist v) s1 (s2 - 1) m1 [(s1, ?p)]"
    "\<forall>x. x \<notin> {pdptlist v, s1, s1 + 4} \<longrightarrow> m1 x = vmem v x"
    unfolding s2_def by (rule init_list_pool [OF al(1) hs(1), of ?p "pdptlist v" "vmem v"]) (use h1 n u1 big in simp_all)
  obtain m2 where i2: "init_list (ffslist v) s2 ?f m1 = Ret (s2, s3 - 1, m2)" "page_pool (ffslist v) s2 (s3 - 1) m2 [(s2, ?f)]"
    "\<forall>x. x \<notin> {ffslist v, s2, s2 + 4} \<longrightarrow> m2 x = m1 x"
    unfolding s3_def by (rule init_list_pool [OF al(2) hs(2), of ?f "ffslist v" m1]) (use h1 n u2 big in simp_all)
  obtain m3 where i3: "init_list (swaplist v) s3 ?f m2 = Ret (s3, s4 - 1, m3)" "page_pool (swaplist v) s3 (s4 - 1) m3 [(s3, ?f)]"
    "\<forall>x. x \<notin> {swaplist v, s3, s3 + 4} \<longrightarrow> m3 x = m2 x"
    unfolding s4_def by (rule init_list_pool [OF al(3) hs(3), of ?f "swaplist v" m2]) (use h1 n u3 big in simp_all)
  obtain m4 where i4: "init_list (vstacklist v) s4 ?f m3 = Ret (s4, s4 + ?f - 1, m4)" "page_pool (vstacklist v) s4 (s4 + ?f - 1) m4 [(s4, ?f)]"
    "\<forall>x. x \<notin> {vstacklist v, s4, s4 + 4} \<longrightarrow> m4 x = m3 x"
    by (rule init_list_pool [OF al(4) hs(4), of ?f "vstacklist v" m3]) (use h1 n u4 big in simp_all)
  have p1: "page_pool (pdptlist v) s1 (s2 - 1) m4 [(s1, ?p)]"
    by (rule page_pool_init_frame [OF page_pool_init_frame [OF page_pool_init_frame [OF i1(2) i2(3)] i3(3)] i4(3)])
      (use h1 n u1 u2 u3 u4 big ne in simp_all)
  have p2: "page_pool (ffslist v) s2 (s3 - 1) m4 [(s2, ?f)]"
    by (rule page_pool_init_frame [OF page_pool_init_frame [OF i2(2) i3(3)] i4(3)]) (use h1 n u1 u2 u3 u4 big ne in simp_all)
  have p3: "page_pool (swaplist v) s3 (s4 - 1) m4 [(s3, ?f)]"
    by (rule page_pool_init_frame [OF i3(2) i4(3)]) (use h1 n u1 u2 u3 u4 big ne in simp_all)
  let ?v = "v\<lparr>vmem := m4, minpdpt := s1, maxpdpt := s2 - 1, n_static_pages := - 1, n_free_vpages := MAX_HEAP_SIZE,
    minffs := s2, maxffs := s3 - 1, ptmap := (\<lambda>i. if i < MAX_FSS_SIZE then NULL else ptmap v i),
    ffs2swapmap := (\<lambda>i. if i < MAX_FSS_SIZE then - 1 else ffs2swapmap v i),
    swap2ffsmap := (\<lambda>i. if i < MAX_SWAP_SIZE then NULL else swap2ffsmap v i), minswap := s3, maxswap := s4 - 1,
    minvstack := s4, maxvstack := s4 + ?f - 1\<rparr>"
  have sz: "MAX_SWAP_SIZE = MAX_FSS_SIZE" "MAX_STACK_SIZE = MAX_FSS_SIZE" by (simp_all add: layout_defs)
  have run: "init_paging v = Ret ?v"
    using i1(1) i2(1) i3(1) i4(1) unfolding s1_def by (simp add: init_paging_def Let_def sz cong: if_cong)
  have pf: "pools_full ?v" using p1 p2 p3 i4(2) by (simp add: pools_full_def sz)
  have ly: "layout ?v b" using u u1 u2 u3 u4 u5 by (simp add: layout_def)
  have fr: "vmem ?v x = vmem v x" if x: "unat x < 4096 * b" "x \<notin> {pdptlist v, ffslist v, swaplist v, vstacklist v}" for x
  proof -
    have "x \<noteq> s \<and> x \<noteq> s + 4" if "4096 * b \<le> unat s" "unat s + 4 < 2 ^ 32" for s
    proof -
      have "unat (s + 4) = unat s + 4" using that(2) by (subst unat_plus_no_wrap) simp_all
      then show ?thesis using x(1) that(1) by auto
    qed
    from this [of s1] this [of s2] this [of s3] this [of s4]
    have "x \<notin> {s1, s1 + 4, s2, s2 + 4, s3, s3 + 4, s4, s4 + 4}" unfolding u1 u2 u3 u4 using big by simp
    then show ?thesis using x(2) i1(3) i2(3) i3(3) i4(3) by simp
  qed
  show thesis by (rule that [OF run pf ly]) ((rule fr; assumption) | simp add: s1_def)+
qed

section \<open>Properties\<close>

text \<open>For the examples: a machine with 32 MB below the pools, its list heads at 1088 KB.\<close>

definition boot_vm :: vm where
  "boot_vm = \<lparr>vmem = (\<lambda>_. 0), memlist = 0x110000, pdptlist = 0x110008, ffslist = 0x110010, swaplist = 0x110018,
    vstacklist = 0x110020, minheap = 0, maxheap = 0x1FFFFFF, minpdpt = 0, maxpdpt = 0, minffs = 0, maxffs = 0,
    minswap = 0, maxswap = 0, minvstack = 0, maxvstack = 0, n_static_pages = 0, n_free_vpages = 0,
    ptmap = (\<lambda>_. 0), swap2ffsmap = (\<lambda>_. 0), ffs2swapmap = (\<lambda>_. 0)\<rparr>"

lemma boot_vm_ok: "unat (maxheap boot_vm + 1) = 4096 * 8192" "HOLESTART < maxheap boot_vm + 1" "heads_ok boot_vm (maxheap boot_vm + 1)"
  by (simp_all add: boot_vm_def layout_defs heads_ok_def)

text \<open>
  the page pools after \<open>init_paging\<close>. When the heap ends on a page boundary above the
  hole, all four pools fit below 4 GB and the list heads lie below them, \<open>init_paging\<close> leaves each pool
  as one well formed block: 256 frames for directories and tables, 2048 FFS frames, 2048 swap frames and
  2048 stack frames, one after the other from the end of the heap, with the maps empty.
\<close>

theorem init_paging_layout:
  assumes "unat (maxheap v + 1) = 4096 * b" and "HOLESTART < maxheap v + 1" and "b + 6400 < 2 ^ 20"
    and "heads_ok v (maxheap v + 1)"
  shows "\<exists>v'. init_paging v = Ret v' \<and> pools_full v' \<and> layout v' b \<and> n_free_vpages v' = MAX_HEAP_SIZE \<and>
    (\<forall>i. i < MAX_FSS_SIZE \<longrightarrow> ptmap v' i = NULL \<and> ffs2swapmap v' i = - 1) \<and> (\<forall>i. i < MAX_SWAP_SIZE \<longrightarrow> swap2ffsmap v' i = NULL)"
  by (rule init_paging_pools [OF assms]) auto

theorem init_paging_layout_witness:
  "\<exists>v'. init_paging boot_vm = Ret v' \<and> pools_full v' \<and> layout v' 8192 \<and> n_free_vpages v' = MAX_HEAP_SIZE \<and>
    (\<forall>i. i < MAX_FSS_SIZE \<longrightarrow> ptmap v' i = NULL \<and> ffs2swapmap v' i = - 1) \<and> (\<forall>i. i < MAX_SWAP_SIZE \<longrightarrow> swap2ffsmap v' i = NULL)"
  by (rule init_paging_layout [OF boot_vm_ok(1,2) _ boot_vm_ok(3)]) simp

text \<open>The booted machine has room for the first directory, and page 0 and the list head are apart from the pool.\<close>

lemma boot_pool:
  obtains v where "init_paging boot_vm = Ret v" "page_pool (pdptlist v) (minpdpt v) (maxpdpt v) (vmem v) [(minpdpt v, PAGE_SIZE * MAX_PT_SIZE)]"
    "dir_pages (pdptlist v) [(minpdpt v, PAGE_SIZE * MAX_PT_SIZE)] [0]" "n_static_pages v = - 1" "minpdpt v = 0x2000000"
    "kernel_entries v = 8"
proof -
  obtain v where v: "init_paging boot_vm = Ret v" "pools_full v" "n_static_pages v = - 1" "minpdpt v = maxheap boot_vm + 1"
    "pdptlist v = pdptlist boot_vm"
    by (rule init_paging_pools [OF boot_vm_ok(1,2) _ boot_vm_ok(3)]) (simp, rule that)
  have m: "minpdpt v = 0x2000000" "pdptlist v = 0x110008" using v(4,5) by (simp_all add: boot_vm_def)
  have "dir_pages (pdptlist v) [(minpdpt v, PAGE_SIZE * MAX_PT_SIZE)] [0]"
    by (auto simp: dir_pages_def aligned_def m bytes_def layout_defs)
  moreover have "kernel_entries v = 8" by (simp add: kernel_entries_def m ceil_div_def layout_defs)
  ultimately show thesis using that [of v] v(1-3) m(1) by (simp add: pools_full_def)
qed

text \<open>
  the kernel's address space is a flat map. The first call of \<open>create_directory\<close>, with enough
  frames in the pool, returns a directory through which the processor translates every address
  below \<open>minpdpt\<close> to itself, and faults on every address beyond the last table; the number of shared
  tables is recorded in \<open>n_static_pages\<close>.
\<close>

theorem create_directory_flat_map:
  assumes "page_pool (pdptlist v) lo hi (vmem v) bs" and "n_static_pages v = - 1" and "dir_pages (pdptlist v) bs [0]"
    and "4096 * (unat (kernel_entries v) + 1) \<le> free_total bs" and "unat (minpdpt v) + 2 ^ 22 < 2 ^ 32" and "0 < minpdpt v"
  shows "\<exists>pdbr v'. create_directory np v = Ret (pdbr, v') \<and> n_static_pages v' = kernel_entries v \<and>
    (\<forall>a. a < minpdpt v \<longrightarrow> translate (vmem v') pdbr a = Some a) \<and>
    (\<forall>a. unat (kernel_entries v) \<le> unat (pd_offset a) \<longrightarrow> translate (vmem v') pdbr a = None)"
proof -
  have small: "unat (kernel_entries v) \<le> 1024" using below_minpdpt(2) [OF assms(5,6)] .
  obtain pdbr m' d ts bs' where c: "create_directory np v = Ret (pdbr, v\<lparr>vmem := m', n_static_pages := kernel_entries v\<rparr>)"
    "frame_addr (pdbr_base pdbr) = d" "flat_dir m' d ts" "length ts = unat (kernel_entries v)" "dir_pages (pdptlist v) bs' (0 # d # ts)"
    using create_directory_first [OF assms(1-4) small] by blast
  have "\<forall>t \<in> set ts. aligned t" using c(5) by (simp add: dir_pages_def)
  then have "translate m' pdbr a = (if unat (pd_offset a) < unat (kernel_entries v) then Some a else None)" for a
    using flat_translate [OF c(3) _ c(2)] c(4) by simp
  then show ?thesis using c(1) below_minpdpt(1) [OF assms(5)] by auto
qed

theorem create_directory_flat_map_witness:
  "\<exists>v pdbr v'. init_paging boot_vm = Ret v \<and> create_directory 0 v = Ret (pdbr, v') \<and> n_static_pages v' = 8 \<and>
    translate (vmem v') pdbr 0x1234567 = Some 0x1234567 \<and> translate (vmem v') pdbr 0x2000000 = None"
proof -
  obtain v where v: "init_paging boot_vm = Ret v" "page_pool (pdptlist v) (minpdpt v) (maxpdpt v) (vmem v) [(minpdpt v, PAGE_SIZE * MAX_PT_SIZE)]"
    "dir_pages (pdptlist v) [(minpdpt v, PAGE_SIZE * MAX_PT_SIZE)] [0]" "n_static_pages v = - 1" "minpdpt v = 0x2000000" "kernel_entries v = 8"
    by (rule boot_pool) (rule that)
  have "pd_offset 0x2000000 = 8" by (simp add: pd_offset_def drop_bit_eq_div)
  then show ?thesis
    using create_directory_flat_map [OF v(2,4,3), of 0] v(1,5,6) by (auto simp: layout_defs)
qed

text \<open>
  every later directory shares the kernel's tables. Once \<open>n_static_pages\<close> is set, a new directory
  takes exactly one frame from the pool, maps the kernel's addresses to themselves through the very
  tables of the null process, has nothing else mapped, and leaves the null process's own map as it was.
\<close>

theorem create_directory_shares_kernel:
  assumes "page_pool (pdptlist v) lo hi (vmem v) bs" and "bs \<noteq> []" and "n_static_pages v \<noteq> - 1"
    and "dir_pages (pdptlist v) bs (0 # d0 # ts)" and "flat_dir (vmem v) d0 ts" and "frame_addr (pdbr_base np) = d0"
    and "unat (kernel_entries v) \<le> length ts" and "unat (kernel_entries v) \<le> 1024"
  shows "\<exists>pdbr v' bs'. create_directory np v = Ret (pdbr, v') \<and> page_pool (pdptlist v) lo hi (vmem v') bs' \<and>
    free_total bs = free_total bs' + 4096 \<and> frame_addr (pdbr_base pdbr) \<noteq> d0 \<and>
    (\<forall>a. translate (vmem v') pdbr a = (if unat (pd_offset a) < unat (kernel_entries v) then Some a else None)) \<and>
    (\<forall>a. translate (vmem v') np a = translate (vmem v) np a)"
proof -
  obtain pdbr m' d bs' where c: "create_directory np v = Ret (pdbr, v\<lparr>vmem := m'\<rparr>)" "frame_addr (pdbr_base pdbr) = d" "d \<noteq> d0"
    "flat_dir m' d (take (unat (kernel_entries v)) ts)" "flat_dir m' d0 ts" "dir_pages (pdptlist v) bs' (0 # d # d0 # ts)"
    "page_pool (pdptlist v) lo hi m' bs'" "free_total bs = free_total bs' + 4096"
    using create_directory_shared [OF assms] by blast
  have al: "\<forall>t \<in> set ts. aligned t" using c(6) by (simp add: dir_pages_def)
  then have "\<forall>t \<in> set (take (unat (kernel_entries v)) ts). aligned t" by (auto dest: in_set_takeD)
  then have "translate m' pdbr a = (if unat (pd_offset a) < unat (kernel_entries v) then Some a else None)" for a
    using flat_translate [OF c(4) _ c(2)] assms(7) by (simp add: min_def)
  moreover have "translate m' np a = translate (vmem v) np a" for a
    using flat_translate [OF c(5) al assms(6)] flat_translate [OF assms(5) al assms(6)] by simp
  ultimately show ?thesis using c by auto
qed

theorem create_directory_shares_kernel_witness:
  "\<exists>v np v1 pdbr v2. init_paging boot_vm = Ret v \<and> create_directory 0 v = Ret (np, v1) \<and> create_directory np v1 = Ret (pdbr, v2) \<and>
    translate (vmem v2) pdbr 0x1234567 = Some 0x1234567 \<and> translate (vmem v2) np 0x1234567 = translate (vmem v1) np 0x1234567"
proof -
  obtain v where v: "init_paging boot_vm = Ret v" "page_pool (pdptlist v) (minpdpt v) (maxpdpt v) (vmem v) [(minpdpt v, PAGE_SIZE * MAX_PT_SIZE)]"
    "dir_pages (pdptlist v) [(minpdpt v, PAGE_SIZE * MAX_PT_SIZE)] [0]" "n_static_pages v = - 1" "minpdpt v = 0x2000000" "kernel_entries v = 8"
    by (rule boot_pool) (rule that)
  obtain np m' d ts bs' where c: "create_directory 0 v = Ret (np, v\<lparr>vmem := m', n_static_pages := kernel_entries v\<rparr>)"
    "frame_addr (pdbr_base np) = d" "flat_dir m' d ts" "length ts = 8" "dir_pages (pdptlist v) bs' (0 # d # ts)"
    "page_pool (pdptlist v) (minpdpt v) (maxpdpt v) m' bs'" "free_total bs' + 9 * 4096 = 4096 * 256"
    using create_directory_first [OF v(2,4,3), where np = 0] v(6) by (auto simp: layout_defs)
  let ?v1 = "v\<lparr>vmem := m', n_static_pages := kernel_entries v\<rparr>"
  have "bs' \<noteq> []" using c(7) by auto
  moreover have "kernel_entries ?v1 = 8" using v(6) by (simp add: kernel_entries_def)
  moreover have "pd_offset 0x1234567 = 4" by (simp add: pd_offset_def drop_bit_eq_div)
  ultimately show ?thesis
    using create_directory_shares_kernel [of ?v1 "minpdpt v" "maxpdpt v" bs' d ts np] v(1,6) c by auto
qed

end
