(* ===== verification/Sched.thy ===== *)
theory Sched
  imports Queue Paging
begin

text \<open>
  The kernel state and the scheduler: \<open>system/resched.c\<close>, \<open>system/ready.c\<close>, \<open>system/resume.c\<close>,
  \<open>system/suspend.c\<close>, \<open>system/chprio.c\<close>, \<open>system/getprio.c\<close>, \<open>system/getpid.c\<close>,
  \<open>system/yield.c\<close>, \<open>include/resched.h\<close> and \<open>include/semaphore.h\<close>.

  The record \<open>kernel\<close> holds the globals of those files. \<open>resched\<close> gives the processor to the
  process at the head of the ready list: in the model \<open>currpid\<close> changes, and what the old process does when
  it is resumed later is the rest of the routine that called \<open>resched\<close>.
\<close>

section \<open>State\<close>

datatype sem_state = S_FREE | S_USED

record sentry =
  sstate :: sem_state
  scount :: int
  squeue :: int

record kernel =
  kvm :: vm
  proctab :: proctab
  currpid :: int
  prcount :: int
  readylist :: int
  queuetab :: qtab
  nextqid :: int
  nextpid :: int
  nextsem :: int
  semtab :: "int \<Rightarrow> sentry"
  sleepq :: int
  ndefers :: int
  attempt :: bool
  preempt :: u32
  clktime :: u32
  count1000 :: u32
  cr3 :: u32

definition QUANTUM :: u32 where "QUANTUM = 2"

definition isbadsem :: "int \<Rightarrow> bool" where
  "isbadsem s \<longleftrightarrow> s < 0 \<or> s \<ge> NSEM"

text \<open>\<open>DEFER_START\<close> and \<open>DEFER_STOP\<close>.\<close>

definition DEFER_START :: int where "DEFER_START = 1"
definition DEFER_STOP :: int where "DEFER_STOP = 2"

definition set_proc :: "int \<Rightarrow> (procent \<Rightarrow> procent) \<Rightarrow> kernel \<Rightarrow> kernel result" where
  "set_proc p f k = rbind (pwrite p f (proctab k)) (\<lambda>pt. Ret (k\<lparr>proctab := pt\<rparr>))"

definition getpid :: "kernel \<Rightarrow> int" where
  "getpid k = currpid k"

text \<open>Entering and leaving the kernel's address space; the stack switch has no counterpart.\<close>

definition kernel_mode_enter :: "kernel \<Rightarrow> kernel" where
  "kernel_mode_enter k = k\<lparr>cr3 := pdbr (proctab k 0)\<rparr>"

definition kernel_mode_exit :: "kernel \<Rightarrow> kernel result" where
  "kernel_mode_exit k = rbind (pread (proctab k) (currpid k)) (\<lambda>e. Ret (k\<lparr>cr3 := pdbr e\<rparr>))"

section \<open>Operations\<close>

text \<open>The switch to the head of the ready list; \<open>oldpid\<close> is the process that gives the processor away.\<close>

definition resched_switch :: "int \<Rightarrow> kernel \<Rightarrow> kernel result" where
  "resched_switch oldpid k =
    rbind (dequeue (readylist k) (queuetab k)) (\<lambda>(pid, qt).
    let k = k\<lparr>queuetab := qt, currpid := pid\<rparr> in
    rbind (set_proc (currpid k) (\<lambda>e. e\<lparr>prstate := PR_CURR\<rparr>) k) (\<lambda>k.
    let k = k\<lparr>preempt := QUANTUM\<rparr> in
    rbind (pread (proctab k) oldpid) (\<lambda>ptold.
    rbind (if prstate ptold = PR_FREE then
             let k = kernel_mode_enter k in
             rbind (destroy_directory ptold (kvm k)) (\<lambda>v.
             kernel_mode_exit (k\<lparr>kvm := v\<rparr>))
           else Ret k) (\<lambda>k.
    rbind (pread (proctab k) (currpid k)) (\<lambda>ptnew.
    Ret (k\<lparr>cr3 := pdbr ptnew\<rparr>))))))"

definition resched :: "kernel \<Rightarrow> kernel result" where
  "resched k =
    (if ndefers k > 0 then Ret (k\<lparr>attempt := True\<rparr>)
     else
       let oldpid = currpid k in
       rbind (pread (proctab k) oldpid) (\<lambda>ptold.
       if prstate ptold = PR_CURR then
         rbind (firstkey (queuetab k) (readylist k)) (\<lambda>key.
         if prprio ptold > key then Ret k
         else
           rbind (set_proc oldpid (\<lambda>e. e\<lparr>prstate := PR_READY\<rparr>) k) (\<lambda>k.
           rbind (insert_q (proctab k) oldpid (readylist k) (prprio ptold) (queuetab k)) (\<lambda>(_, qt).
           resched_switch oldpid (k\<lparr>queuetab := qt\<rparr>))))
       else resched_switch oldpid k))"

definition resched_cntl :: "int \<Rightarrow> kernel \<Rightarrow> (int \<times> kernel) result" where
  "resched_cntl defer k =
    (if defer = DEFER_START then
       let k = (if ndefers k = 0 then k\<lparr>attempt := False\<rparr> else k)
       in Ret (OK, k\<lparr>ndefers := wrap32 (ndefers k + 1)\<rparr>)
     else if defer = DEFER_STOP then
       if ndefers k \<le> 0 then Ret (SYSERR, k)
       else
         let k = k\<lparr>ndefers := ndefers k - 1\<rparr> in
         rbind (if ndefers k = 0 \<and> attempt k then resched k else Ret k) (\<lambda>k. Ret (OK, k))
     else Ret (SYSERR, k))"

definition ready :: "int \<Rightarrow> kernel \<Rightarrow> (int \<times> kernel) result" where
  "ready pid k =
    (if isbadpid (proctab k) pid then Ret (SYSERR, k)
     else
       rbind (set_proc pid (\<lambda>e. e\<lparr>prstate := PR_READY\<rparr>) k) (\<lambda>k.
       rbind (insert_q (proctab k) pid (readylist k) (prprio (proctab k pid)) (queuetab k)) (\<lambda>(_, qt).
       rbind (resched (k\<lparr>queuetab := qt\<rparr>)) (\<lambda>k.
       Ret (OK, k)))))"

definition resume :: "int \<Rightarrow> kernel \<Rightarrow> (int \<times> kernel) result" where
  "resume pid k =
    (if isbadpid (proctab k) pid then Ret (SYSERR, k)
     else if prstate (proctab k pid) \<noteq> PR_SUSP then Ret (SYSERR, k)
     else
       let prio = prprio (proctab k pid) in
       rbind (ready pid k) (\<lambda>(_, k). Ret (prio, k)))"

text \<open>
  A process that suspends itself reads its priority only when it runs again: \<open>suspend\<close> returns
  no value yet when the caller has lost the processor, and \<open>suspend_rest\<close> is what it then returns.
\<close>

definition suspend_rest :: "int \<Rightarrow> kernel \<Rightarrow> int" where
  "suspend_rest pid k = prprio (proctab k pid)"

definition suspend :: "int \<Rightarrow> kernel \<Rightarrow> (int option \<times> kernel) result" where
  "suspend pid k =
    (if isbadpid (proctab k) pid \<or> pid = NULLPROC then Ret (Some SYSERR, k)
     else if prstate (proctab k pid) \<noteq> PR_CURR \<and> prstate (proctab k pid) \<noteq> PR_READY then Ret (Some SYSERR, k)
     else if prstate (proctab k pid) = PR_READY then
       rbind (getitem pid (queuetab k)) (\<lambda>(_, qt).
       rbind (set_proc pid (\<lambda>e. e\<lparr>prstate := PR_SUSP\<rparr>) (k\<lparr>queuetab := qt\<rparr>)) (\<lambda>k.
       Ret (Some (suspend_rest pid k), k)))
     else
       rbind (set_proc pid (\<lambda>e. e\<lparr>prstate := PR_SUSP\<rparr>) k) (\<lambda>k.
       rbind (resched k) (\<lambda>k.
       Ret (if currpid k = pid then Some (suspend_rest pid k) else None, k))))"

definition chprio :: "int \<Rightarrow> int \<Rightarrow> kernel \<Rightarrow> (int \<times> kernel) result" where
  "chprio pid newprio k =
    (if isbadpid (proctab k) pid then Ret (SYSERR, k)
     else
       let oldprio = prprio (proctab k pid) in
       rbind (set_proc pid (\<lambda>e. e\<lparr>prprio := newprio\<rparr>) k) (\<lambda>k. Ret (oldprio, k)))"

definition getprio :: "int \<Rightarrow> kernel \<Rightarrow> int" where
  "getprio pid k = (if isbadpid (proctab k) pid then SYSERR else prprio (proctab k pid))"

definition yield :: "kernel \<Rightarrow> (int \<times> kernel) result" where
  "yield k = rbind (resched k) (\<lambda>k. Ret (OK, k))"

section \<open>The kernel invariant\<close>

text \<open>The queue a process in its state belongs on.\<close>

definition home :: "kernel \<Rightarrow> procent \<Rightarrow> int option" where
  "home k e = (case prstate e of
      PR_READY \<Rightarrow> Some (readylist k)
    | PR_SLEEP \<Rightarrow> Some (sleepq k)
    | PR_RECTIM \<Rightarrow> Some (sleepq k)
    | PR_WAIT \<Rightarrow> Some (squeue (semtab k (prsem e)))
    | _ \<Rightarrow> None)"

definition qids :: "kernel \<Rightarrow> int set" where
  "qids k = insert (readylist k) (insert (sleepq k) ((\<lambda>s. squeue (semtab k s)) ` {0..<NSEM}))"

definition qids_ok :: "kernel \<Rightarrow> bool" where
  "qids_ok k \<longleftrightarrow> readylist k \<noteq> sleepq k \<and> inj_on (\<lambda>s. squeue (semtab k s)) {0..<NSEM} \<and>
    (\<forall>s \<in> {0..<NSEM}. squeue (semtab k s) \<noteq> readylist k \<and> squeue (semtab k s) \<noteq> sleepq k)"

definition placed :: "kernel \<Rightarrow> (int \<Rightarrow> int list) \<Rightarrow> bool" where
  "placed k Q \<longleftrightarrow> (\<forall>p q. pid_ok p \<longrightarrow> q \<in> qids k \<longrightarrow> (p \<in> set (Q q) \<longleftrightarrow> home k (proctab k p) = Some q))"

definition desc :: "qtab \<Rightarrow> int list \<Rightarrow> bool" where
  "desc qt xs \<longleftrightarrow> sorted_wrt (\<lambda>x y. qkey (qt y) \<le> qkey (qt x)) xs"

definition sem_counts :: "kernel \<Rightarrow> (int \<Rightarrow> int list) \<Rightarrow> bool" where
  "sem_counts k Q \<longleftrightarrow> (\<forall>s \<in> {0..<NSEM}. int (length (Q (squeue (semtab k s)))) = max 0 (- scount (semtab k s)) \<and>
    scount (semtab k s) < 2 ^ 31)"

definition procs_ok :: "kernel \<Rightarrow> bool" where
  "procs_ok k \<longleftrightarrow> (\<forall>p. pid_ok p \<longrightarrow> - (2 ^ 15) \<le> prprio (proctab k p) \<and> prprio (proctab k p) < 2 ^ 15 \<and>
    (prstate (proctab k p) = PR_WAIT \<longrightarrow> \<not> isbadsem (prsem (proctab k p))))"

text \<open>
  What holds of the queues at every point where no queue operation is half done; \<open>kinv\<close> adds
  that exactly \<open>currpid\<close> is current, \<open>koff\<close> that the caller has just given up being current.
\<close>

definition kbase :: "kernel \<Rightarrow> (int \<Rightarrow> int list) \<Rightarrow> bool" where
  "kbase k Q \<longleftrightarrow> queues (qids k) (queuetab k) Q \<and> qids_ok k \<and> placed k Q \<and> desc (queuetab k) (Q (readylist k)) \<and>
    deltas_ok (queuetab k) (Q (sleepq k)) \<and> procs_ok k \<and>
    prstate (proctab k NULLPROC) \<in> {PR_READY, PR_CURR} \<and> pid_ok (currpid k) \<and> 0 \<le> ndefers k"

definition kinv :: "kernel \<Rightarrow> (int \<Rightarrow> int list) \<Rightarrow> bool" where
  "kinv k Q \<longleftrightarrow> kbase k Q \<and> (\<forall>p. pid_ok p \<longrightarrow> (prstate (proctab k p) = PR_CURR \<longleftrightarrow> p = currpid k))"

definition koff :: "kernel \<Rightarrow> (int \<Rightarrow> int list) \<Rightarrow> bool" where
  "koff k Q \<longleftrightarrow> kbase k Q \<and> (\<forall>p. pid_ok p \<longrightarrow> prstate (proctab k p) \<noteq> PR_CURR)"

lemma readylist_qids [simp]: "readylist k \<in> qids k"
  by (simp add: qids_def)

lemma sleepq_qids [simp]: "sleepq k \<in> qids k"
  by (simp add: qids_def)

lemma squeue_qids: "\<not> isbadsem s \<Longrightarrow> squeue (semtab k s) \<in> qids k"
  by (auto simp: qids_def isbadsem_def)

lemma squeue_other:
  assumes "qids_ok k" and "\<not> isbadsem s"
  shows "squeue (semtab k s) \<noteq> readylist k" "squeue (semtab k s) \<noteq> sleepq k"
    "\<not> isbadsem s' \<Longrightarrow> squeue (semtab k s') = squeue (semtab k s) \<longleftrightarrow> s' = s"
  using assms inj_onD [of "\<lambda>s. squeue (semtab k s)" "{0..<NSEM}" s' s] by (auto simp: qids_ok_def isbadsem_def)

lemma nullproc_ok [simp]: "pid_ok NULLPROC" "pid_ok 0"
  by (simp_all add: NULLPROC_def pid_ok_def layout_defs)

lemma set_proc_ok [simp]: "pid_ok p \<Longrightarrow> set_proc p f k = Ret (k\<lparr>proctab := (proctab k)(p := f (proctab k p))\<rparr>)"
  by (simp add: set_proc_def)

text \<open>Queue membership follows from the state.\<close>

lemma placed_unqueued: "placed k Q \<Longrightarrow> pid_ok p \<Longrightarrow> home k (proctab k p) = None \<Longrightarrow> unqueued (qids k) Q p"
  by (auto simp: placed_def unqueued_def)

lemma kbase_pids: "kbase k Q \<Longrightarrow> q \<in> qids k \<Longrightarrow> x \<in> set (Q q) \<Longrightarrow> pid_ok x"
  by (auto simp: kbase_def queues_def queue_rep_def)

lemma kbase_home: "kbase k Q \<Longrightarrow> q \<in> qids k \<Longrightarrow> x \<in> set (Q q) \<Longrightarrow> home k (proctab k x) = Some q"
  using kbase_pids [of k Q q x] by (auto simp: kbase_def placed_def)

lemma ready_list_iff: "kbase k Q \<Longrightarrow> pid_ok p \<Longrightarrow> p \<in> set (Q (readylist k)) \<longleftrightarrow> prstate (proctab k p) = PR_READY"
proof -
  assume k: "kbase k Q" and p: "pid_ok p"
  have "home k (proctab k p) = Some (readylist k) \<longleftrightarrow> prstate (proctab k p) = PR_READY"
    using k p squeue_other(1) [of k "prsem (proctab k p)"]
    by (auto simp: home_def kbase_def qids_ok_def procs_ok_def split: pstate.splits)
  then show ?thesis using k p by (auto simp: kbase_def placed_def)
qed

lemma sleep_list_iff: "kbase k Q \<Longrightarrow> pid_ok p \<Longrightarrow> p \<in> set (Q (sleepq k)) \<longleftrightarrow> prstate (proctab k p) \<in> {PR_SLEEP, PR_RECTIM}"
proof -
  assume k: "kbase k Q" and p: "pid_ok p"
  have "home k (proctab k p) = Some (sleepq k) \<longleftrightarrow> prstate (proctab k p) \<in> {PR_SLEEP, PR_RECTIM}"
    using k p squeue_other(2) [of k "prsem (proctab k p)"]
    by (auto simp: home_def kbase_def qids_ok_def procs_ok_def split: pstate.splits)
  then show ?thesis using k p by (auto simp: kbase_def placed_def)
qed

lemma koff_ready_nonempty:
  assumes "koff k Q"
  obtains x xs where "Q (readylist k) = x # xs" "pid_ok x" "x \<notin> set xs"
proof -
  have "prstate (proctab k NULLPROC) = PR_READY" using assms nullproc_ok(1) unfolding koff_def kbase_def by blast
  then have "NULLPROC \<in> set (Q (readylist k))" using ready_list_iff [of k Q NULLPROC] assms by (simp add: koff_def)
  then obtain x xs where x: "Q (readylist k) = x # xs" by (cases "Q (readylist k)") auto
  moreover have "pid_ok x" using kbase_pids [of k Q "readylist k" x] assms x by (simp add: koff_def)
  moreover have "distinct (x # xs)"
    using assms x readylist_qids [of k] unfolding koff_def kbase_def queues_def queue_rep_def by metis
  ultimately show thesis using that by auto
qed

section \<open>Preservation\<close>

text \<open>Parts of the state no queue depends on.\<close>

definition same_queues :: "kernel \<Rightarrow> kernel \<Rightarrow> bool" where
  "same_queues k k' \<longleftrightarrow> readylist k' = readylist k \<and> sleepq k' = sleepq k \<and> (\<forall>s. squeue (semtab k' s) = squeue (semtab k s))"

lemma same_queues_facts:
  assumes "same_queues k k'"
  shows "qids k' = qids k" "home k' e = home k e" "qids_ok k' = qids_ok k"
  using assms by (simp_all add: same_queues_def qids_def home_def qids_ok_def cong: pstate.case_cong)

text \<open>One process changes its entry and its place; everything else about the queues is checked where it changes.\<close>

lemma kbase_move:
  assumes k: "kbase k Q" and p: "pid_ok p" and sq: "same_queues k k'" and pt: "proctab k' = (proctab k)(p := e)"
    and qs: "queues (qids k) (queuetab k') Q'"
    and others: "\<And>q x. q \<in> qids k \<Longrightarrow> x \<noteq> p \<Longrightarrow> x \<in> set (Q' q) \<longleftrightarrow> x \<in> set (Q q)"
    and here: "\<And>q. q \<in> qids k \<Longrightarrow> p \<in> set (Q' q) \<longleftrightarrow> home k e = Some q"
    and srt: "desc (queuetab k') (Q' (readylist k))" and dl: "deltas_ok (queuetab k') (Q' (sleepq k))"
    and ok: "- (2 ^ 15) \<le> prprio e" "prprio e < 2 ^ 15" "prstate e = PR_WAIT \<Longrightarrow> \<not> isbadsem (prsem e)"
    and null: "p = NULLPROC \<Longrightarrow> prstate e \<in> {PR_READY, PR_CURR}" and cur: "pid_ok (currpid k')" "0 \<le> ndefers k'"
  shows "kbase k' Q'"
proof -
  note sf = same_queues_facts [OF sq]
  have "placed k' Q'"
    unfolding placed_def sf
  proof (intro allI impI)
    fix x q assume x: "pid_ok x" "q \<in> qids k"
    show "x \<in> set (Q' q) \<longleftrightarrow> home k (proctab k' x) = Some q"
      using x here others k by (cases "x = p") (auto simp: pt kbase_def placed_def)
  qed
  moreover have "procs_ok k'" using k ok by (auto simp: kbase_def procs_ok_def pt)
  moreover have "prstate (proctab k' NULLPROC) \<in> {PR_READY, PR_CURR}" using k null by (auto simp: kbase_def pt)
  ultimately show ?thesis
    using k qs srt dl cur sq unfolding kbase_def sf same_queues_def by simp
qed

text \<open>Globals outside the tables the invariant speaks of.\<close>

lemma kbase_cong:
  assumes "kbase k Q" and "readylist k' = readylist k" and "sleepq k' = sleepq k" and "semtab k' = semtab k"
    and "proctab k' = proctab k" and "queuetab k' = queuetab k" and "pid_ok (currpid k')" and "0 \<le> ndefers k'"
  shows "kbase k' Q"
proof -
  have "same_queues k k'" using assms by (simp add: same_queues_def)
  note sf = same_queues_facts [OF this]
  show ?thesis using assms unfolding kbase_def placed_def procs_ok_def sf by simp
qed

lemma kinv_cong:
  assumes "kinv k Q" and "readylist k' = readylist k" and "sleepq k' = sleepq k" and "semtab k' = semtab k"
    and "proctab k' = proctab k" and "queuetab k' = queuetab k" and "currpid k' = currpid k" and "0 \<le> ndefers k'"
  shows "kinv k' Q"
proof -
  have b: "kbase k Q" using assms(1) by (simp add: kinv_def)
  have "pid_ok (currpid k')" using b assms(7) by (simp add: kbase_def)
  then have "kbase k' Q" using kbase_cong [OF b] assms(2-6,8) by blast
  then show ?thesis using assms(1,5,7) by (simp add: kinv_def)
qed

lemma desc_cong: "(\<And>x. x \<in> set xs \<Longrightarrow> qkey (qt' x) = qkey (qt x)) \<Longrightarrow> desc qt' xs = desc qt xs"
  unfolding desc_def by (induction xs) auto

lemma deltas_ok_cong: "(\<And>x. x \<in> set xs \<Longrightarrow> qkey (qt' x) = qkey (qt x)) \<Longrightarrow> deltas_ok qt' xs = deltas_ok qt xs"
  using wake_cong [of xs qt' qt 0] by (auto simp: deltas_ok_def)

lemma desc_append: "desc qt (xs @ ys) \<longleftrightarrow> desc qt xs \<and> desc qt ys \<and> (\<forall>x \<in> set xs. \<forall>y \<in> set ys. qkey (qt y) \<le> qkey (qt x))"
  by (simp add: desc_def sorted_wrt_append)

lemma desc_Cons: "desc qt (x # xs) \<longleftrightarrow> (\<forall>y \<in> set xs. qkey (qt y) \<le> qkey (qt x)) \<and> desc qt xs"
  by (simp add: desc_def)

lemma desc_remove: "desc qt (xs @ x # ys) \<Longrightarrow> desc qt (xs @ ys)"
  by (auto simp: desc_append desc_Cons)

lemma insert_desc_desc:
  assumes "desc qt xs" and "p \<notin> set xs" and "qkey (qt' p) = key" and "\<And>i. i \<noteq> p \<Longrightarrow> qkey (qt' i) = qkey (qt i)"
  shows "desc qt' (insert_desc qt key p xs)"
proof -
  have eq: "qkey (qt' x) = qkey (qt x)" if "x \<in> set xs" for x
    using that assms(2) by (intro assms(4)) auto
  have d: "desc qt' xs" using assms(1) desc_cong [of xs qt' qt, OF eq] by simp
  have tw: "insert_desc qt key p xs = takeWhile (\<lambda>i. qkey (qt' i) \<ge> key) xs @ p # dropWhile (\<lambda>i. qkey (qt' i) \<ge> key) xs"
    unfolding insert_desc_def by (intro arg_cong2 [of _ _ _ _ "(@)"] arg_cong [of _ _ "(#) p"] takeWhile_cong dropWhile_cong) (simp_all add: eq)
  have "desc qt' (takeWhile (\<lambda>i. qkey (qt' i) \<ge> key) xs @ dropWhile (\<lambda>i. qkey (qt' i) \<ge> key) xs)" using d by simp
  then have parts: "desc qt' (takeWhile (\<lambda>i. qkey (qt' i) \<ge> key) xs)" "desc qt' (dropWhile (\<lambda>i. qkey (qt' i) \<ge> key) xs)"
    "\<forall>x \<in> set (takeWhile (\<lambda>i. qkey (qt' i) \<ge> key) xs). \<forall>y \<in> set (dropWhile (\<lambda>i. qkey (qt' i) \<ge> key) xs). qkey (qt' y) \<le> qkey (qt' x)"
    unfolding desc_append by blast+
  have "qkey (qt' y) \<le> key" if "y \<in> set (dropWhile (\<lambda>i. qkey (qt' i) \<ge> key) xs)" for y
  proof (cases "dropWhile (\<lambda>i. qkey (qt' i) \<ge> key) xs")
    case (Cons z zs)
    then have "qkey (qt' z) < key" using hd_dropWhile [of "\<lambda>i. qkey (qt' i) \<ge> key" xs] by simp
    then show ?thesis using that parts(2) Cons by (auto simp: desc_Cons)
  qed (use that in \<open>simp only: list.set empty_iff\<close>)
  moreover have "key \<le> qkey (qt' y)" if "y \<in> set (takeWhile (\<lambda>i. qkey (qt' i) \<ge> key) xs)" for y
    using set_takeWhileD [OF that] by simp
  ultimately show ?thesis using parts assms(3) unfolding tw desc_append desc_Cons by auto
qed

lemma set_insert_desc: "set (insert_desc qt key p xs) = insert p (set xs)"
  using arg_cong [OF takeWhile_dropWhile_id [of "\<lambda>i. qkey (qt i) \<ge> key" xs], of set] unfolding insert_desc_def set_append by auto

section \<open>Rescheduling\<close>

definition switched :: "int \<Rightarrow> qtab \<Rightarrow> kernel \<Rightarrow> kernel" where
  "switched x qt k = k\<lparr>queuetab := qt, currpid := x, proctab := (proctab k)(x := (proctab k x)\<lparr>prstate := PR_CURR\<rparr>),
    preempt := QUANTUM, cr3 := pdbr (proctab k x)\<rparr>"

lemma sem_counts_frame:
  "sem_counts k Q \<Longrightarrow> qids_ok k \<Longrightarrow> semtab k' = semtab k \<Longrightarrow>
    (\<And>q. q \<noteq> readylist k \<Longrightarrow> q \<noteq> sleepq k \<Longrightarrow> Q' q = Q q) \<Longrightarrow> sem_counts k' Q'"
  by (simp add: sem_counts_def qids_ok_def)

lemma resched_switch_ok:
  assumes k: "koff k Q" and old: "pid_ok old" and free: "prstate (proctab k old) = PR_FREE \<Longrightarrow> \<not> pruser (proctab k old)"
    and Q: "Q (readylist k) = x # xs"
  obtains qt' where "resched_switch old k = Ret (switched x qt' k)" "kinv (switched x qt' k) (Q(readylist k := xs))"
    "keeps_keys (queuetab k) qt'"
proof -
  have b: "kbase k Q" using k by (simp add: koff_def)
  obtain qt' where d: "dequeue (readylist k) (queuetab k) = Ret (x, qt')" "queues (qids k) qt' (Q(readylist k := xs))"
    "keeps_keys (queuetab k) qt'"
    using queues_dequeue [of "qids k" "queuetab k" Q "readylist k" x xs] b Q by (auto simp: kbase_def)
  have x: "pid_ok x" "x \<notin> set xs" using koff_ready_nonempty [OF k] Q by auto
  have run: "resched_switch old k = Ret (switched x qt' k)"
    using d(1) x(1) old free
    by (auto simp: resched_switch_def Let_def switched_def kernel_mode_enter_def kernel_mode_exit_def destroy_directory_def)
  have kb: "kbase (switched x qt' k) (Q(readylist k := xs))"
  proof (rule kbase_move [OF b x(1)])
    have qd: "q = readylist k" if "q \<in> qids k" "x \<in> set (Q q)" for q
      using kbase_home [OF b that] kbase_home [OF b readylist_qids, of x] Q by simp
    show "x \<in> set ((Q(readylist k := xs)) q) \<longleftrightarrow> home k ((proctab k x)\<lparr>prstate := PR_CURR\<rparr>) = Some q" if "q \<in> qids k" for q
      using that qd x(2) by (auto simp: home_def)
    show "y \<in> set ((Q(readylist k := xs)) q) \<longleftrightarrow> y \<in> set (Q q)" if "q \<in> qids k" "y \<noteq> x" for q y
      using that Q by auto
    show "desc (queuetab (switched x qt' k)) ((Q(readylist k := xs)) (readylist k))"
      using b Q d(3) desc_cong [of xs qt' "queuetab k"] by (simp add: kbase_def desc_Cons switched_def keeps_keys_def)
    show "deltas_ok (queuetab (switched x qt' k)) ((Q(readylist k := xs)) (sleepq k))"
      using b d(3) deltas_ok_cong [of "Q (sleepq k)" qt' "queuetab k"] by (simp add: kbase_def qids_ok_def switched_def keeps_keys_def)
  qed (use b x d(2) in \<open>auto simp: switched_def same_queues_def kbase_def procs_ok_def\<close>)
  have "\<forall>p. pid_ok p \<longrightarrow> prstate (proctab (switched x qt' k) p) = PR_CURR \<longleftrightarrow> p = currpid (switched x qt' k)"
    using k by (auto simp: koff_def switched_def)
  then show thesis using that run kb d(3) by (auto simp: kinv_def)
qed

text \<open>The current process put back on the ready list.\<close>

definition requeued :: "qtab \<Rightarrow> kernel \<Rightarrow> kernel" where
  "requeued qt k = k\<lparr>proctab := (proctab k)(currpid k := (proctab k (currpid k))\<lparr>prstate := PR_READY\<rparr>), queuetab := qt\<rparr>"

lemma isbadpid_upd [simp]: "pid_ok p \<Longrightarrow> prstate (f (pt p)) \<noteq> PR_FREE \<Longrightarrow> \<not> isbadpid (pt(p := f (pt p))) p"
  by (simp add: isbadpid_pid_ok)

text \<open>
  A process outside every queue is made ready: its entry says so and it is on the ready list behind
  those of its priority.
\<close>

lemma kbase_make_ready:
  assumes b: "kbase k Q" and p: "pid_ok p" and h: "home k (proctab k p) = None"
  defines "prio \<equiv> prprio (proctab k p)"
  obtains qt' where
    "insert_q ((proctab k)(p := (proctab k p)\<lparr>prstate := PR_READY\<rparr>)) p (readylist k) prio (queuetab k) = Ret (OK, qt')"
    "kbase (k\<lparr>proctab := (proctab k)(p := (proctab k p)\<lparr>prstate := PR_READY\<rparr>), queuetab := qt'\<rparr>)
      (Q(readylist k := insert_desc (queuetab k) prio p (Q (readylist k))))"
    "\<forall>i. i \<noteq> p \<longrightarrow> qkey (qt' i) = qkey (queuetab k i)" "qkey (qt' p) = prio"
proof -
  let ?pt = "(proctab k)(p := (proctab k p)\<lparr>prstate := PR_READY\<rparr>)"
  let ?Q = "Q(readylist k := insert_desc (queuetab k) prio p (Q (readylist k)))"
  have uq: "unqueued (qids k) Q p" using placed_unqueued [OF _ p h] b by (simp add: kbase_def)
  have ok: "\<not> isbadpid ?pt p" using p by (simp add: isbadpid_pid_ok)
  have pr: "- (2 ^ 15) \<le> prio" "prio < 2 ^ 15" "MINKEY < prio" using b p by (auto simp: kbase_def procs_ok_def prio_def MINKEY_def)
  obtain qt' where i: "insert_q ?pt p (readylist k) prio (queuetab k) = Ret (OK, qt')" "queues (qids k) qt' ?Q"
    "\<forall>i. i \<noteq> p \<longrightarrow> qkey (qt' i) = qkey (queuetab k i)" "qkey (qt' p) = prio"
    using queues_insert [OF _ readylist_qids ok uq pr(3)] b by (auto simp: kbase_def)
  let ?k = "k\<lparr>proctab := ?pt, queuetab := qt'\<rparr>"
  have np: "p \<notin> set (Q q)" if "q \<in> qids k" for q using uq that by (simp add: unqueued_def)
  have "kbase ?k ?Q"
  proof (rule kbase_move [OF b p])
    show "x \<in> set (?Q q) \<longleftrightarrow> x \<in> set (Q q)" if "q \<in> qids k" "x \<noteq> p" for q x using that by (simp add: set_insert_desc)
    show "p \<in> set (?Q q) \<longleftrightarrow> home k ((proctab k p)\<lparr>prstate := PR_READY\<rparr>) = Some q" if "q \<in> qids k" for q
      using np [OF that] by (auto simp: set_insert_desc home_def)
    show "desc (queuetab ?k) (?Q (readylist k))"
      using insert_desc_desc [of "queuetab k" "Q (readylist k)" p qt' prio] b i(3,4) np by (simp add: kbase_def)
    have "qkey (qt' x) = qkey (queuetab k x)" if "x \<in> set (Q (sleepq k))" for x
      using that np [OF sleepq_qids] i(3) by metis
    then show "deltas_ok (queuetab ?k) (?Q (sleepq k))"
      using b deltas_ok_cong [of "Q (sleepq k)" qt' "queuetab k"] by (simp add: kbase_def qids_ok_def)
  qed (use b p pr i(2) in \<open>auto simp: same_queues_def kbase_def prio_def\<close>)
  then show thesis using that i by blast
qed

text \<open>What a call of \<open>resched\<close> leaves alone: everything but the states of ready and current processes.\<close>

definition sched_frame :: "kernel \<Rightarrow> kernel \<Rightarrow> bool" where
  "sched_frame k k' \<longleftrightarrow>
    k' = k\<lparr>queuetab := queuetab k', currpid := currpid k', proctab := proctab k', preempt := preempt k', cr3 := cr3 k', attempt := attempt k'\<rparr> \<and>
    (\<forall>p. proctab k' p = (proctab k p)\<lparr>prstate := prstate (proctab k' p)\<rparr>) \<and>
    (\<forall>p. prstate (proctab k p) \<notin> {PR_READY, PR_CURR} \<longrightarrow> proctab k' p = proctab k p) \<and>
    (\<forall>p. prstate (proctab k p) \<in> {PR_READY, PR_CURR} \<longrightarrow> prstate (proctab k' p) \<in> {PR_READY, PR_CURR})"

lemma sched_frame_refl: "sched_frame k k"
  by (simp add: sched_frame_def)

lemma kinv_currpid: "kinv k Q \<Longrightarrow> pid_ok (currpid k) \<and> prstate (proctab k (currpid k)) = PR_CURR \<and> home k (proctab k (currpid k)) = None"
proof -
  assume "kinv k Q"
  then have "pid_ok (currpid k)" "prstate (proctab k (currpid k)) = PR_CURR" by (auto simp: kinv_def kbase_def)
  then show ?thesis by (simp add: home_def)
qed

lemma requeue_koff:
  assumes k: "kinv k Q"
  defines "prio \<equiv> prprio (proctab k (currpid k))"
  defines "Q1 \<equiv> Q(readylist k := insert_desc (queuetab k) prio (currpid k) (Q (readylist k)))"
  obtains qt' where "insert_q ((proctab k)(currpid k := (proctab k (currpid k))\<lparr>prstate := PR_READY\<rparr>)) (currpid k) (readylist k) prio (queuetab k) = Ret (OK, qt')"
    "koff (requeued qt' k) Q1" "\<forall>i. i \<noteq> currpid k \<longrightarrow> qkey (qt' i) = qkey (queuetab k i)" "qkey (qt' (currpid k)) = prio"
proof -
  have c: "pid_ok (currpid k)" "home k (proctab k (currpid k)) = None" using kinv_currpid [OF k] by auto
  obtain qt' where i: "insert_q ((proctab k)(currpid k := (proctab k (currpid k))\<lparr>prstate := PR_READY\<rparr>)) (currpid k) (readylist k) prio (queuetab k) = Ret (OK, qt')"
    "kbase (requeued qt' k) Q1" "\<forall>i. i \<noteq> currpid k \<longrightarrow> qkey (qt' i) = qkey (queuetab k i)" "qkey (qt' (currpid k)) = prio"
    using kbase_make_ready [OF _ c, of Q] k by (auto simp: kinv_def requeued_def prio_def Q1_def)
  moreover have "koff (requeued qt' k) Q1" using i(2) k by (auto simp: koff_def kinv_def requeued_def)
  ultimately show thesis using that by blast
qed

lemma firstkey_kbase: "kbase k Q \<Longrightarrow> firstkey (queuetab k) (readylist k) = Ret (qkey (queuetab k (hd (Q (readylist k) @ [readylist k + 1]))))"
  using queues_rep [of "qids k" "queuetab k" Q "readylist k"] by (intro firstkey_rep) (simp add: kbase_def)

text \<open>The two outcomes for a current process that remains eligible.\<close>

lemma resched_kinv:
  assumes k: "kinv k Q" and nd: "ndefers k = 0"
  obtains (stay) "resched k = Ret k" "\<forall>p \<in> set (Q (readylist k)). qkey (queuetab k p) < prprio (proctab k (currpid k))"
  | (switch) qt1 x xs qt' where "insert_desc (queuetab k) (prprio (proctab k (currpid k))) (currpid k) (Q (readylist k)) = x # xs"
    "koff (requeued qt1 k) (Q(readylist k := x # xs))" "resched k = Ret (switched x qt' (requeued qt1 k))"
    "kinv (switched x qt' (requeued qt1 k)) (Q(readylist k := xs))" "keeps_keys qt1 qt'"
    "\<forall>i. i \<noteq> currpid k \<longrightarrow> qkey (qt1 i) = qkey (queuetab k i)" "qkey (qt1 (currpid k)) = prprio (proctab k (currpid k))"
    "Q (readylist k) \<noteq> []" "prprio (proctab k (currpid k)) \<le> qkey (queuetab k (hd (Q (readylist k))))"
proof -
  let ?c = "currpid k" and ?prio = "prprio (proctab k (currpid k))"
  have c: "pid_ok ?c" "prstate (proctab k ?c) = PR_CURR" using kinv_currpid [OF k] by auto
  have b: "kbase k Q" using k by (simp add: kinv_def)
  note fk = firstkey_kbase [OF b]
  show thesis
  proof (cases "?prio > qkey (queuetab k (hd (Q (readylist k) @ [readylist k + 1])))")
    case True
    have "\<forall>p \<in> set (Q (readylist k)). qkey (queuetab k p) < ?prio"
      using True b by (cases "Q (readylist k)") (auto simp: kbase_def desc_Cons)
    moreover have "resched k = Ret k" using True c nd fk by (simp add: resched_def Let_def)
    ultimately show thesis using stay by blast
  next
    case False
    obtain qt1 where i: "insert_q ((proctab k)(?c := (proctab k ?c)\<lparr>prstate := PR_READY\<rparr>)) ?c (readylist k) ?prio (queuetab k) = Ret (OK, qt1)"
      "koff (requeued qt1 k) (Q(readylist k := insert_desc (queuetab k) ?prio ?c (Q (readylist k))))"
      "\<forall>i. i \<noteq> ?c \<longrightarrow> qkey (qt1 i) = qkey (queuetab k i)" "qkey (qt1 ?c) = ?prio"
      by (rule requeue_koff [OF k]) (rule that)
    obtain x xs where x: "insert_desc (queuetab k) ?prio ?c (Q (readylist k)) = x # xs"
      by (cases "insert_desc (queuetab k) ?prio ?c (Q (readylist k))") (auto simp: insert_desc_def)
    have o: "koff (requeued qt1 k) (Q(readylist k := x # xs))" using i(2) x by simp
    obtain qt' where s: "resched_switch ?c (requeued qt1 k) = Ret (switched x qt' (requeued qt1 k))"
      "kinv (switched x qt' (requeued qt1 k)) ((Q(readylist k := x # xs))(readylist (requeued qt1 k) := xs))"
      "keeps_keys (queuetab (requeued qt1 k)) qt'"
      by (rule resched_switch_ok [OF o c(1), of x xs]) (auto simp: requeued_def)
    have "resched k = Ret (switched x qt' (requeued qt1 k))"
      using False c nd fk i(1) s(1) by (simp add: resched_def Let_def requeued_def)
    moreover have nz: "Q (readylist k) \<noteq> []"
    proof
      assume "Q (readylist k) = []"
      then have "?prio \<le> MINKEY" using False b queues_rep [of "qids k" "queuetab k" Q "readylist k"] by (simp add: kbase_def queue_rep_def)
      then show False using b c(1) by (auto simp: kbase_def procs_ok_def MINKEY_def)
    qed
    moreover have "?prio \<le> qkey (queuetab k (hd (Q (readylist k))))" using False nz by simp
    ultimately show thesis using switch [OF x o _ _ _ i(3,4)] s(2,3) by (simp add: requeued_def)
  qed
qed

lemma resched_kinv_frame:
  assumes k: "kinv k Q"
  obtains k' Q' where "resched k = Ret k'" "kinv k' Q'" "sched_frame k k'" "\<And>q. q \<noteq> readylist k \<Longrightarrow> Q' q = Q q"
    "\<forall>i. i \<noteq> currpid k \<longrightarrow> qkey (queuetab k' i) = qkey (queuetab k i)"
proof (cases "ndefers k = 0")
  case True
  show thesis
  proof (cases rule: resched_kinv [OF k True])
    case 1
    then show thesis using that [of k Q] k by (simp add: sched_frame_refl)
  next
    case (2 qt1 x xs qt')
    have "pid_ok x" "prstate (proctab (requeued qt1 k) x) = PR_READY"
      using 2(2) kbase_pids [of "requeued qt1 k" _ "readylist k" x] ready_list_iff [of "requeued qt1 k" "Q(readylist k := x # xs)" x]
        readylist_qids [of "requeued qt1 k"]
      by (auto simp: koff_def requeued_def)
    then have "sched_frame k (switched x qt' (requeued qt1 k))"
      using kinv_currpid [OF k] by (auto simp: sched_frame_def switched_def requeued_def split: if_splits)
    moreover have "\<forall>i. i \<noteq> currpid k \<longrightarrow> qkey (queuetab (switched x qt' (requeued qt1 k)) i) = qkey (queuetab k i)"
      using 2(5,6) by (simp add: switched_def requeued_def keeps_keys_def)
    ultimately show thesis using that [OF 2(3,4)] by simp
  qed
next
  case False
  then have "resched k = Ret (k\<lparr>attempt := True\<rparr>)" using k by (simp add: resched_def kinv_def kbase_def)
  moreover have "kinv (k\<lparr>attempt := True\<rparr>) Q"
    by (rule kinv_cong [OF k]) (use k in \<open>simp_all add: kinv_def kbase_def\<close>)
  ultimately show thesis using that [of "k\<lparr>attempt := True\<rparr>" Q] by (simp add: sched_frame_def)
qed

lemma resched_koff:
  assumes k: "koff k Q" and nd: "ndefers k = 0" and free: "prstate (proctab k (currpid k)) = PR_FREE \<Longrightarrow> \<not> pruser (proctab k (currpid k))"
  obtains k' x xs where "resched k = Ret k'" "Q (readylist k) = x # xs" "kinv k' (Q(readylist k := xs))" "sched_frame k k'"
    "currpid k' = x" "keeps_keys (queuetab k) (queuetab k')"
proof -
  obtain x xs where x: "Q (readylist k) = x # xs" "pid_ok x" "x \<notin> set xs" by (rule koff_ready_nonempty [OF k])
  have c: "pid_ok (currpid k)" "prstate (proctab k (currpid k)) \<noteq> PR_CURR" using k by (auto simp: koff_def kbase_def)
  obtain qt' where s: "resched_switch (currpid k) k = Ret (switched x qt' k)" "kinv (switched x qt' k) (Q(readylist k := xs))"
    "keeps_keys (queuetab k) qt'"
    by (rule resched_switch_ok [OF k c(1) free x(1)]) (auto intro: that)
  have "resched k = Ret (switched x qt' k)" using c nd s(1) by (simp add: resched_def Let_def)
  moreover have "prstate (proctab k x) = PR_READY"
    using ready_list_iff [of k Q x] k x by (simp add: koff_def)
  then have "sched_frame k (switched x qt' k)" by (auto simp: sched_frame_def switched_def)
  ultimately show thesis using that [OF _ x(1) s(2)] s(3) by (simp add: switched_def)
qed

section \<open>Making a process ready\<close>

text \<open>
  A process just taken off a queue and about to be made ready: \<open>ready\<close> overwrites its state,
  so it may as well be suspended in between.
\<close>

definition limbo :: "int \<Rightarrow> kernel \<Rightarrow> kernel" where
  "limbo p k = k\<lparr>proctab := (proctab k)(p := (proctab k p)\<lparr>prstate := PR_SUSP\<rparr>)\<rparr>"

lemma ready_limbo: "\<not> isbadpid (proctab k) p \<Longrightarrow> ready p (limbo p k) = ready p k"
  by (simp add: ready_def limbo_def isbadpid_pid_ok)

lemma kinv_unqueue:
  assumes k: "kinv k Q" and q: "q \<in> qids k" and Q: "Q q = xs @ p # ys" and null: "p \<noteq> NULLPROC"
    and qs: "queues (qids k) qt' (Q(q := xs @ ys))" and sq: "\<And>s. squeue (st' s) = squeue (semtab k s)"
    and srt: "desc qt' ((Q(q := xs @ ys)) (readylist k))" and dl: "deltas_ok qt' ((Q(q := xs @ ys)) (sleepq k))"
  shows "kinv (limbo p (k\<lparr>queuetab := qt', semtab := st'\<rparr>)) (Q(q := xs @ ys))"
proof -
  have b: "kbase k Q" using k by (simp add: kinv_def)
  have p: "pid_ok p" using kbase_pids [OF b q, of p] Q by simp
  have hm: "home k (proctab k p) = Some q" using kbase_home [OF b q, of p] Q by simp
  have pq: "p \<notin> set (xs @ ys)" using queues_rep [of "qids k" "queuetab k" Q q] b q Q by (auto simp: kbase_def queue_rep_def)
  have nc: "p \<noteq> currpid k" using hm kinv_currpid [OF k] by auto
  have "kbase (limbo p (k\<lparr>queuetab := qt', semtab := st'\<rparr>)) (Q(q := xs @ ys))"
  proof (rule kbase_move [OF b p, where e = "(proctab k p)\<lparr>prstate := PR_SUSP\<rparr>"])
    show "p \<in> set ((Q(q := xs @ ys)) r) \<longleftrightarrow> home k ((proctab k p)\<lparr>prstate := PR_SUSP\<rparr>) = Some r" if r: "r \<in> qids k" for r
      using pq hm kbase_home [OF b r, of p] by (auto simp: home_def [of _ "_\<lparr>prstate := _\<rparr>"])
  qed (use b p null qs srt dl Q sq in \<open>auto simp: limbo_def same_queues_def kbase_def procs_ok_def\<close>)
  then show ?thesis using k nc by (auto simp: kinv_def limbo_def)
qed

lemma ready_ok:
  assumes k: "kinv k Q" and p: "\<not> isbadpid (proctab k) p" and h: "home k (proctab k p) = None" and nc: "p \<noteq> currpid k"
  obtains k1 k' Q' where "ready p k = Ret (OK, k')" "kinv k' Q'" "sched_frame k1 k'" "\<And>q. q \<noteq> readylist k \<Longrightarrow> Q' q = Q q"
    "k1 = k\<lparr>proctab := (proctab k)(p := (proctab k p)\<lparr>prstate := PR_READY\<rparr>), queuetab := queuetab k1\<rparr>"
    "\<forall>i. i \<noteq> p \<longrightarrow> i \<noteq> currpid k \<longrightarrow> qkey (queuetab k' i) = qkey (queuetab k i)"
proof -
  have ok: "pid_ok p" using p by (simp add: isbadpid_pid_ok)
  obtain qt' where i: "insert_q ((proctab k)(p := (proctab k p)\<lparr>prstate := PR_READY\<rparr>)) p (readylist k) (prprio (proctab k p)) (queuetab k) = Ret (OK, qt')"
    "kbase (k\<lparr>proctab := (proctab k)(p := (proctab k p)\<lparr>prstate := PR_READY\<rparr>), queuetab := qt'\<rparr>)
      (Q(readylist k := insert_desc (queuetab k) (prprio (proctab k p)) p (Q (readylist k))))"
    "\<forall>i. i \<noteq> p \<longrightarrow> qkey (qt' i) = qkey (queuetab k i)"
    by (rule kbase_make_ready [OF _ ok h, of Q]) (use k in \<open>simp add: kinv_def\<close>, rule that)
  let ?k1 = "k\<lparr>proctab := (proctab k)(p := (proctab k p)\<lparr>prstate := PR_READY\<rparr>), queuetab := qt'\<rparr>"
  have k1: "kinv ?k1 (Q(readylist k := insert_desc (queuetab k) (prprio (proctab k p)) p (Q (readylist k))))"
    using i(2) k nc by (auto simp: kinv_def)
  obtain k' Q' where r: "resched ?k1 = Ret k'" "kinv k' Q'" "sched_frame ?k1 k'"
    "\<And>q. q \<noteq> readylist ?k1 \<Longrightarrow> Q' q = (Q(readylist k := insert_desc (queuetab k) (prprio (proctab k p)) p (Q (readylist k)))) q"
    "\<forall>i. i \<noteq> currpid ?k1 \<longrightarrow> qkey (queuetab k' i) = qkey (queuetab ?k1 i)"
    by (rule resched_kinv_frame [OF k1]) (rule that)
  have "ready p k = Ret (OK, k')" using p ok i(1) r(1) by (simp add: ready_def)
  then show thesis using that [OF _ r(2,3)] r(4,5) i(3) by simp
qed

text \<open>The same for a process that was taken off its queue a moment ago.\<close>

lemma ready_limbo_ok:
  assumes k: "kinv (limbo p k) Q" and p: "\<not> isbadpid (proctab k) p" and nc: "p \<noteq> currpid k"
  obtains k1 k' Q' where "ready p k = Ret (OK, k')" "kinv k' Q'" "sched_frame k1 k'" "\<And>q. q \<noteq> readylist k \<Longrightarrow> Q' q = Q q"
    "k1 = k\<lparr>proctab := (proctab k)(p := (proctab k p)\<lparr>prstate := PR_READY\<rparr>), queuetab := queuetab k1\<rparr>"
    "\<forall>i. i \<noteq> p \<longrightarrow> i \<noteq> currpid k \<longrightarrow> qkey (queuetab k' i) = qkey (queuetab k i)"
proof -
  have p': "\<not> isbadpid (proctab (limbo p k)) p" using p by (simp add: limbo_def isbadpid_pid_ok)
  have h: "home (limbo p k) (proctab (limbo p k) p) = None" by (simp add: limbo_def home_def)
  have nc': "p \<noteq> currpid (limbo p k)" using nc by (simp add: limbo_def)
  obtain k1 k' Q' where r: "ready p (limbo p k) = Ret (OK, k')" "kinv k' Q'" "sched_frame k1 k'"
    "\<And>q. q \<noteq> readylist (limbo p k) \<Longrightarrow> Q' q = Q q"
    "k1 = (limbo p k)\<lparr>proctab := (proctab (limbo p k))(p := (proctab (limbo p k) p)\<lparr>prstate := PR_READY\<rparr>), queuetab := queuetab k1\<rparr>"
    "\<forall>i. i \<noteq> p \<longrightarrow> i \<noteq> currpid (limbo p k) \<longrightarrow> qkey (queuetab k' i) = qkey (queuetab (limbo p k) i)"
    by (rule ready_ok [OF k p' h nc']) (rule that)
  have r5: "k1 = k\<lparr>proctab := (proctab k)(p := (proctab k p)\<lparr>prstate := PR_READY\<rparr>), queuetab := queuetab k1\<rparr>"
    using r(5) by (simp add: limbo_def)
  show thesis by (rule that [OF _ r(2,3) _ r5]) (use r(1,4,6) ready_limbo [OF p] in \<open>simp_all add: limbo_def\<close>)
qed

section \<open>The system calls of the scheduler\<close>

text \<open>Between system calls rescheduling is not deferred and the semaphore counts agree with the queues.\<close>

definition kidle :: "kernel \<Rightarrow> (int \<Rightarrow> int list) \<Rightarrow> bool" where
  "kidle k Q \<longleftrightarrow> kinv k Q \<and> sem_counts k Q \<and> ndefers k = 0"

lemma sched_frame_fields:
  assumes "sched_frame k k'"
  shows "readylist k' = readylist k" "sleepq k' = sleepq k" "semtab k' = semtab k" "ndefers k' = ndefers k"
    "prprio (proctab k' p) = prprio (proctab k p)" "kvm k' = kvm k" "prcount k' = prcount k"
proof -
  have e: "k' = k\<lparr>queuetab := queuetab k', currpid := currpid k', proctab := proctab k', preempt := preempt k', cr3 := cr3 k', attempt := attempt k'\<rparr>"
    and p: "proctab k' p = (proctab k p)\<lparr>prstate := prstate (proctab k' p)\<rparr>"
    using assms unfolding sched_frame_def by blast+
  show "readylist k' = readylist k" "sleepq k' = sleepq k" "semtab k' = semtab k" "ndefers k' = ndefers k"
    "kvm k' = kvm k" "prcount k' = prcount k" by (subst e, simp)+
  show "prprio (proctab k' p) = prprio (proctab k p)" by (subst p) simp
qed

lemma kidle_intro:
  assumes "kidle k Q" and "kinv k' Q'" and "ndefers k' = ndefers k" and "semtab k' = semtab k"
    and "\<And>q. q \<noteq> readylist k \<Longrightarrow> q \<noteq> sleepq k \<Longrightarrow> Q' q = Q q"
  shows "kidle k' Q'"
  using assms sem_counts_frame [of k Q k' Q'] by (auto simp: kidle_def kinv_def kbase_def)

lemma resume_kidle:
  assumes "kidle k Q"
  shows "\<exists>r k' Q'. resume p k = Ret (r, k') \<and> kidle k' Q'"
proof (cases "isbadpid (proctab k) p \<or> prstate (proctab k p) \<noteq> PR_SUSP")
  case True
  then show ?thesis using assms by (auto simp: resume_def)
next
  case False
  have k: "kinv k Q" using assms by (simp add: kidle_def)
  have h: "home k (proctab k p) = None" "p \<noteq> currpid k" using False kinv_currpid [OF k] by (auto simp: home_def)
  obtain k1 k' Q' where r: "ready p k = Ret (OK, k')" "kinv k' Q'" "sched_frame k1 k'" "\<And>q. q \<noteq> readylist k \<Longrightarrow> Q' q = Q q"
    "k1 = k\<lparr>proctab := (proctab k)(p := (proctab k p)\<lparr>prstate := PR_READY\<rparr>), queuetab := queuetab k1\<rparr>"
    by (rule ready_ok [OF k _ h]) (use False in simp, rule that)
  have "ndefers k1 = ndefers k" "semtab k1 = semtab k" by (subst r(5), simp)+
  then have "kidle k' Q'" using kidle_intro [OF assms r(2)] r(4) sched_frame_fields(3,4) [OF r(3)] by simp
  then show ?thesis using False r(1) by (auto simp: resume_def)
qed

lemma koff_suspend:
  assumes k: "kinv k Q" and c: "currpid k \<noteq> NULLPROC" and h: "home k e = None" and s: "prstate e \<noteq> PR_CURR"
    and e: "prprio e = prprio (proctab k (currpid k))"
  shows "koff (k\<lparr>proctab := (proctab k)(currpid k := e)\<rparr>) Q"
proof -
  let ?k = "k\<lparr>proctab := (proctab k)(currpid k := e)\<rparr>"
  have b: "kbase k Q" and cp: "pid_ok (currpid k)" "home k (proctab k (currpid k)) = None"
    using k kinv_currpid [OF k] by (auto simp: kinv_def)
  have uq: "unqueued (qids k) Q (currpid k)" using placed_unqueued [OF _ cp] b by (simp add: kbase_def)
  have pr: "- (2 ^ 15) \<le> prprio e" "prprio e < 2 ^ 15" using b cp(1) e by (auto simp: kbase_def procs_ok_def)
  have w: "prstate e \<noteq> PR_WAIT" using h by (auto simp: home_def)
  have "kbase ?k Q"
    by (rule kbase_move [OF b cp(1), where e = e])
      (use b c uq h w pr in \<open>auto simp: same_queues_def kbase_def unqueued_def\<close>)
  then show ?thesis using k s by (auto simp: koff_def kinv_def)
qed

text \<open>The current process blocks on a queue; \<open>xs\<close> is that queue with the process on it.\<close>

lemma koff_block:
  assumes k: "kinv k Q" and c: "currpid k \<noteq> NULLPROC" and q: "q \<in> qids k" "home k e = Some q" "q \<noteq> readylist k"
    and e: "prprio e = prprio (proctab k (currpid k))" "prstate e = PR_WAIT \<Longrightarrow> \<not> isbadsem (prsem e)"
    and qs: "queues (qids k) qt' (Q(q := xs))" "set xs = insert (currpid k) (set (Q q))"
    and rk: "\<And>x. x \<in> set (Q (readylist k)) \<Longrightarrow> qkey (qt' x) = qkey (queuetab k x)"
    and dl: "deltas_ok qt' ((Q(q := xs)) (sleepq k))"
  shows "koff (k\<lparr>proctab := (proctab k)(currpid k := e), queuetab := qt'\<rparr>) (Q(q := xs))"
proof -
  let ?k = "k\<lparr>proctab := (proctab k)(currpid k := e), queuetab := qt'\<rparr>"
  have b: "kbase k Q" and cp: "pid_ok (currpid k)" "home k (proctab k (currpid k)) = None"
    using k kinv_currpid [OF k] by (auto simp: kinv_def)
  have uq: "unqueued (qids k) Q (currpid k)" using placed_unqueued [OF _ cp] b by (simp add: kbase_def)
  have pr: "- (2 ^ 15) \<le> prprio e" "prprio e < 2 ^ 15" using b cp(1) e(1) by (auto simp: kbase_def procs_ok_def)
  have "kbase ?k (Q(q := xs))"
  proof (rule kbase_move [OF b cp(1), where e = e])
    show "x \<in> set ((Q(q := xs)) r) \<longleftrightarrow> x \<in> set (Q r)" if "r \<in> qids k" "x \<noteq> currpid k" for r x using that qs(2) by simp
    show "currpid k \<in> set ((Q(q := xs)) r) \<longleftrightarrow> home k e = Some r" if "r \<in> qids k" for r
      using that uq qs(2) q(2) by (auto simp: unqueued_def)
    show "desc (queuetab ?k) ((Q(q := xs)) (readylist k))"
      using b q(3) desc_cong [of "Q (readylist k)" qt' "queuetab k", OF rk] by (simp add: kbase_def)
  qed (use b c e(2) pr qs(1) dl in \<open>auto simp: same_queues_def kbase_def\<close>)
  moreover have "prstate e \<noteq> PR_CURR" using q(2) by (auto simp: home_def)
  ultimately show ?thesis using k by (auto simp: koff_def kinv_def)
qed

lemma suspend_kidle:
  assumes "kidle k Q"
  shows "\<exists>r k' Q'. suspend p k = Ret (r, k') \<and> kidle k' Q'"
proof -
  have k: "kinv k Q" and b: "kbase k Q" and nd: "ndefers k = 0" using assms by (auto simp: kidle_def kinv_def)
  consider (bad) "isbadpid (proctab k) p \<or> p = NULLPROC \<or> prstate (proctab k p) \<notin> {PR_CURR, PR_READY}"
    | (rdy) "pid_ok p" "p \<noteq> NULLPROC" "prstate (proctab k p) = PR_READY"
    | (cur) "p \<noteq> NULLPROC" "p = currpid k"
    using k by (auto simp: kinv_def isbadpid_pid_ok)
  then show ?thesis
  proof cases
    case bad
    then show ?thesis using assms by (auto simp: suspend_def)
  next
    case rdy
    obtain xs ys where Q: "Q (readylist k) = xs @ p # ys" using ready_list_iff [OF b rdy(1)] rdy(3) by (auto simp: in_set_conv_decomp)
    obtain qt' where g: "getitem p (queuetab k) = Ret (p, qt')" "queues (qids k) qt' (Q(readylist k := xs @ ys))" "keeps_keys (queuetab k) qt'"
      using queues_getitem [of "qids k" "queuetab k" Q "readylist k" xs p ys] b Q by (auto simp: kbase_def)
    have "kinv (limbo p (k\<lparr>queuetab := qt', semtab := semtab k\<rparr>)) (Q(readylist k := xs @ ys))"
    proof (rule kinv_unqueue [OF k readylist_qids Q rdy(2) g(2)])
      show "desc qt' ((Q(readylist k := xs @ ys)) (readylist k))"
        using b Q g(3) desc_remove [of "queuetab k" xs p ys] desc_cong [of "xs @ ys" qt' "queuetab k"] by (simp add: kbase_def keeps_keys_def)
      show "deltas_ok qt' ((Q(readylist k := xs @ ys)) (sleepq k))"
        using b g(3) deltas_ok_cong [of "Q (sleepq k)" qt' "queuetab k"] by (simp add: kbase_def keeps_keys_def qids_ok_def)
    qed simp
    moreover have "suspend p k = Ret (Some (prprio (proctab k p)), limbo p (k\<lparr>queuetab := qt', semtab := semtab k\<rparr>))"
      using rdy g(1) by (simp add: suspend_def isbadpid_pid_ok limbo_def suspend_rest_def)
    ultimately show ?thesis
      using kidle_intro [OF assms, of "limbo p (k\<lparr>queuetab := qt', semtab := semtab k\<rparr>)" "Q(readylist k := xs @ ys)"]
      by (auto simp: limbo_def)
  next
    case cur
    let ?e = "(proctab k p)\<lparr>prstate := PR_SUSP\<rparr>"
    have c: "pid_ok p" "prstate (proctab k p) = PR_CURR" using kinv_currpid [OF k] cur by auto
    have off: "koff (k\<lparr>proctab := (proctab k)(p := ?e)\<rparr>) Q"
      using koff_suspend [OF k, of ?e] cur by (simp add: home_def)
    obtain k' x xs where r: "resched (k\<lparr>proctab := (proctab k)(p := ?e)\<rparr>) = Ret k'" "kinv k' (Q(readylist k := xs))"
      "sched_frame (k\<lparr>proctab := (proctab k)(p := ?e)\<rparr>) k'"
      by (rule resched_koff [OF off]) (use nd cur that in auto)
    have "kidle k' (Q(readylist k := xs))" using kidle_intro [OF assms r(2)] sched_frame_fields(3,4) [OF r(3)] by simp
    then show ?thesis using cur c r(1) by (auto simp: suspend_def isbadpid_pid_ok)
  qed
qed

lemma chprio_kidle:
  assumes "kidle k Q" and "- (2 ^ 15) \<le> newprio" and "newprio < 2 ^ 15"
  shows "\<exists>r k'. chprio p newprio k = Ret (r, k') \<and> kidle k' Q"
proof (cases "isbadpid (proctab k) p")
  case True
  then show ?thesis using assms by (simp add: chprio_def)
next
  case False
  have p: "pid_ok p" using False by (simp add: isbadpid_pid_ok)
  have k: "kinv k Q" and b: "kbase k Q" using assms by (auto simp: kidle_def kinv_def)
  let ?e = "(proctab k p)\<lparr>prprio := newprio\<rparr>" and ?k = "k\<lparr>proctab := (proctab k)(p := (proctab k p)\<lparr>prprio := newprio\<rparr>)\<rparr>"
  have h: "home k ?e = home k (proctab k p)" by (simp add: home_def cong: pstate.case_cong)
  have "kbase ?k Q"
    by (rule kbase_move [OF b p, where e = ?e])
      (use b p assms h in \<open>auto simp: same_queues_def kbase_def placed_def procs_ok_def\<close>)
  then have "kinv ?k Q" using k by (auto simp: kinv_def)
  then have "kidle ?k Q" using kidle_intro [OF assms(1), of ?k Q] by simp
  then show ?thesis using False p by (simp add: chprio_def)
qed

lemma yield_kidle:
  assumes "kidle k Q"
  shows "\<exists>k' Q'. yield k = Ret (OK, k') \<and> kidle k' Q'"
proof -
  have k: "kinv k Q" using assms by (simp add: kidle_def)
  obtain k' Q' where r: "resched k = Ret k'" "kinv k' Q'" "sched_frame k k'" "\<And>q. q \<noteq> readylist k \<Longrightarrow> Q' q = Q q"
    by (rule resched_kinv_frame [OF k]) (rule that)
  then have "kidle k' Q'" using kidle_intro [OF assms r(2)] sched_frame_fields(3,4) [OF r(3)] by simp
  then show ?thesis using r(1) by (simp add: yield_def) blast
qed

section \<open>Priorities\<close>

text \<open>The key of a ready process is the priority it had when it was made ready; only \<open>chprio\<close> can part them.\<close>

definition keys_ok :: "kernel \<Rightarrow> (int \<Rightarrow> int list) \<Rightarrow> bool" where
  "keys_ok k Q \<longleftrightarrow> (\<forall>p \<in> set (Q (readylist k)). qkey (queuetab k p) = prprio (proctab k p))"

lemma switch_other:
  assumes "insert_desc qt key c xs = x # ys" and "c \<notin> set xs" and "xs \<noteq> []" and "key \<le> qkey (qt (hd xs))"
  shows "x = hd xs"
  using assms by (cases xs) (auto simp: insert_desc_def)

lemma resched_switch_keys:
  assumes ins: "insert_desc (queuetab k) (prprio (proctab k (currpid k))) (currpid k) (Q (readylist k)) = x # xs"
    and off: "koff (requeued qt1 k) (Q(readylist k := x # xs))" and kk: "keeps_keys qt1 qt'"
    and o: "\<forall>i. i \<noteq> currpid k \<longrightarrow> qkey (qt1 i) = qkey (queuetab k i)" "qkey (qt1 (currpid k)) = prprio (proctab k (currpid k))"
    and ko: "keys_ok k Q"
  shows "keys_ok (switched x qt' (requeued qt1 k)) (Q(readylist k := xs))" and "\<forall>p \<in> set xs. prprio (proctab k p) \<le> prprio (proctab k x)"
proof -
  have key: "qkey (qt1 p) = prprio (proctab k p)" if "p \<in> set (x # xs)" for p
  proof (cases "p = currpid k")
    case False
    then have "p \<in> set (Q (readylist k))" using that set_insert_desc [of "queuetab k" "prprio (proctab k (currpid k))" "currpid k" "Q (readylist k)"] ins by auto
    then show ?thesis using ko o(1) False by (simp add: keys_ok_def)
  qed (use o(2) in simp)
  then show "keys_ok (switched x qt' (requeued qt1 k)) (Q(readylist k := xs))"
    using kk by (auto simp: keys_ok_def switched_def requeued_def keeps_keys_def)
  have "desc qt1 (x # xs)" using off by (simp add: koff_def kbase_def requeued_def)
  then show "\<forall>p \<in> set xs. prprio (proctab k p) \<le> prprio (proctab k x)" using key by (auto simp: desc_Cons)
qed

section \<open>Properties\<close>

text \<open>
  For the examples: process 1 runs at priority 20 and the null process is ready; semaphore \<open>s\<close> has
  queue \<open>100 + 2 s\<close>, the ready list is queue 300 and the sleep queue is 302.
\<close>

definition qtab1 :: qtab where
  "qtab1 i = (if i = 0 then \<lparr>qkey = 0, qnext = 301, qprev = 300\<rparr>
    else if i = 300 then \<lparr>qkey = MAXKEY, qnext = 0, qprev = EMPTY\<rparr>
    else if i = 301 then \<lparr>qkey = MINKEY, qnext = EMPTY, qprev = 0\<rparr>
    else if even i then \<lparr>qkey = MAXKEY, qnext = i + 1, qprev = EMPTY\<rparr>
    else \<lparr>qkey = MINKEY, qnext = EMPTY, qprev = i - 1\<rparr>)"

definition kernel1 :: kernel where
  "kernel1 = \<lparr>kvm = boot_vm,
    proctab = (\<lambda>p. if p = 0 then proc0\<lparr>prprio := 0\<rparr> else if p = 1 then proc0\<lparr>prstate := PR_CURR, prprio := 20\<rparr>
      else proc0\<lparr>prstate := PR_FREE\<rparr>),
    currpid = 1, prcount = 2, readylist = 300, queuetab = qtab1, nextqid = 304, nextpid = 2, nextsem = 0,
    semtab = (\<lambda>s. \<lparr>sstate = if s = 0 then S_USED else S_FREE, scount = 0, squeue = 100 + 2 * s\<rparr>), sleepq = 302,
    ndefers = 0, attempt = False, preempt = 2, clktime = 0, count1000 = 1000, cr3 = 0\<rparr>"

definition queues1 :: "int \<Rightarrow> int list" where
  "queues1 = (\<lambda>_. [])(300 := [0])"

lemma qids1: "q \<in> qids kernel1 \<Longrightarrow> even q \<and> 100 \<le> q \<and> q \<le> 302"
  by (auto simp: qids_def kernel1_def layout_defs)

lemma kidle1: "kidle kernel1 queues1"
proof -
  have "queue_rep qtab1 q (queues1 q)" if q: "q \<in> qids kernel1" for q
  proof -
    have "\<not> even (301 :: int)" by simp
    then have "q \<noteq> 301" "even q" "100 \<le> q" "q \<le> 302" using qids1 [OF q] by auto
    then show ?thesis
      by (cases "q = 300") (auto simp: queue_rep_def qtab1_def queues1_def qid_ok_def pid_ok_def layout_defs)
  qed
  then have "queues (qids kernel1) (queuetab kernel1) queues1" by (auto simp: queues_def kernel1_def queues1_def)
  moreover have "qids_ok kernel1" by (auto simp: qids_ok_def kernel1_def layout_defs inj_on_def)
  moreover have "placed kernel1 queues1" by (auto simp: placed_def queues1_def home_def kernel1_def proc0_def)
  moreover have "sem_counts kernel1 queues1" by (auto simp: sem_counts_def queues1_def kernel1_def layout_defs)
  moreover have "procs_ok kernel1" by (auto simp: procs_ok_def kernel1_def proc0_def)
  ultimately show ?thesis
    by (auto simp: kidle_def kinv_def kbase_def kernel1_def queues1_def desc_def deltas_ok_def proc0_def NULLPROC_def pid_ok_def layout_defs)
qed

text \<open>
  C18: \<open>resched\<close> runs the highest priority. From a consistent state whose ready processes are keyed by
  their priorities, \<open>resched\<close> returns in such a state; no ready process then has a higher priority
  than the current one; and the caller keeps the processor exactly when every ready process has
  a lower priority, so processes of equal priority take turns.
\<close>

theorem resched_highest_priority:
  assumes "kidle k Q" and "keys_ok k Q"
  shows "\<exists>k' Q'. resched k = Ret k' \<and> kidle k' Q' \<and> keys_ok k' Q' \<and>
    (\<forall>p. pid_ok p \<and> prstate (proctab k' p) = PR_READY \<longrightarrow> prprio (proctab k' p) \<le> prprio (proctab k' (currpid k'))) \<and>
    (currpid k' = currpid k \<longleftrightarrow> (\<forall>p. pid_ok p \<and> prstate (proctab k p) = PR_READY \<longrightarrow> prprio (proctab k p) < prprio (proctab k (currpid k))))"
proof -
  have k: "kinv k Q" and b: "kbase k Q" and nd: "ndefers k = 0" using assms(1) by (auto simp: kidle_def kinv_def)
  have rd: "p \<in> set (Q (readylist k)) \<longleftrightarrow> pid_ok p \<and> prstate (proctab k p) = PR_READY" for p
    using ready_list_iff [OF b] kbase_pids [OF b readylist_qids] by blast
  show ?thesis
  proof (cases rule: resched_kinv [OF k nd])
    case 1
    have "prprio (proctab k p) < prprio (proctab k (currpid k))" if "p \<in> set (Q (readylist k))" for p
      using 1(2) assms(2) that by (auto simp: keys_ok_def)
    then show ?thesis using 1(1) assms rd by (intro exI [of _ k] exI [of _ Q]) (auto intro: less_imp_le)
  next
    case (2 qt1 x xs qt')
    let ?k = "switched x qt' (requeued qt1 k)"
    have b': "kbase ?k (Q(readylist k := xs))" using 2(4) by (simp add: kinv_def)
    note sk = resched_switch_keys [OF 2(1,2,5-7) assms(2)]
    have prio: "prprio (proctab ?k p) = prprio (proctab k p)" for p by (simp add: switched_def requeued_def)
    have rdx: "p \<in> set xs" if "pid_ok p" "prstate (proctab ?k p) = PR_READY" for p
      using ready_list_iff [OF b' that(1)] that by (simp add: switched_def requeued_def)
    have "currpid k \<notin> set (Q (readylist k))" using rd kinv_currpid [OF k] by auto
    moreover have "hd (Q (readylist k)) \<in> set (Q (readylist k))" using 2(8) by simp
    ultimately have x: "x = hd (Q (readylist k))" "x \<noteq> currpid k" "x \<in> set (Q (readylist k))"
      using switch_other [OF 2(1) _ 2(8,9)] by auto
    have "prprio (proctab k (currpid k)) \<le> prprio (proctab k x)" using 2(9) x assms(2) by (simp add: keys_ok_def)
    moreover have "currpid ?k = x" by (simp add: switched_def requeued_def)
    moreover have "kidle ?k (Q(readylist k := xs))"
      by (rule kidle_intro [OF assms(1) 2(4)]) (simp_all add: switched_def requeued_def)
    ultimately show ?thesis
      using 2(3) sk x(2,3) rd [of x] rdx
      by (intro exI [of _ ?k] exI [of _ "Q(readylist k := xs)"]) (auto simp: prio dest: leD)
  qed
qed

theorem resched_highest_priority_witness:
  "\<exists>k' Q'. resched kernel1 = Ret k' \<and> kidle k' Q' \<and> keys_ok k' Q' \<and> currpid k' = 1"
proof -
  have "keys_ok kernel1 queues1" by (simp add: keys_ok_def kernel1_def queues1_def qtab1_def proc0_def)
  then obtain k' Q' where "resched kernel1 = Ret k'" "kidle k' Q'" "keys_ok k' Q'"
    "currpid k' = currpid kernel1 \<longleftrightarrow> (\<forall>p. pid_ok p \<and> prstate (proctab kernel1 p) = PR_READY \<longrightarrow>
      prprio (proctab kernel1 p) < prprio (proctab kernel1 (currpid kernel1)))"
    using resched_highest_priority [OF kidle1] by blast
  then show ?thesis by (auto simp: kernel1_def proc0_def)
qed

text \<open>
  The calls of the scheduler keep the kernel consistent. From a consistent state between
  calls, \<open>resume\<close>, \<open>suspend\<close>, \<open>yield\<close> and \<open>chprio\<close> (with a 16-bit priority) of any process id
  return, whichever branch they take: no table is indexed out of bounds, no loop runs forever,
  nothing halts, and the state is consistent again: every process is on exactly the queue its
  state names, the ready list is sorted, one process is current.
\<close>

theorem scheduler_calls_consistent:
  assumes "kidle k Q" and "- (2 ^ 15) \<le> prio" and "prio < 2 ^ 15"
  shows "(\<exists>r k' Q'. resume p k = Ret (r, k') \<and> kidle k' Q') \<and> (\<exists>r k' Q'. suspend p k = Ret (r, k') \<and> kidle k' Q') \<and>
    (\<exists>k' Q'. yield k = Ret (OK, k') \<and> kidle k' Q') \<and> (\<exists>r k'. chprio p prio k = Ret (r, k') \<and> kidle k' Q)"
  using resume_kidle [OF assms(1)] suspend_kidle [OF assms(1)] yield_kidle [OF assms(1)] chprio_kidle [OF assms] by blast

theorem scheduler_calls_consistent_witness:
  "(\<exists>r k' Q'. resume 1 kernel1 = Ret (r, k') \<and> kidle k' Q') \<and> (\<exists>r k' Q'. suspend 1 kernel1 = Ret (r, k') \<and> kidle k' Q') \<and>
    (\<exists>k' Q'. yield kernel1 = Ret (OK, k') \<and> kidle k' Q') \<and> (\<exists>r k'. chprio 1 30 kernel1 = Ret (r, k') \<and> kidle k' queues1)"
  by (rule scheduler_calls_consistent [OF kidle1]) simp_all

end
