(* ===== verification/Semaphores.thy ===== *)
theory Semaphores
  imports Sched
begin

text \<open>
  Counting semaphores: \<open>system/semcreate.c\<close>, \<open>system/wait.c\<close>, \<open>system/signal.c\<close>,
  \<open>system/signaln.c\<close>, \<open>system/semdelete.c\<close>, \<open>system/semreset.c\<close> and \<open>system/semcount.c\<close>.

  A negative count is the number of processes on the semaphore's queue. \<open>wait\<close> returns \<open>OK\<close> to its
  caller when that process runs again, which is the only thing left to do after the switch.
\<close>

section \<open>Operations\<close>

definition upd_sem :: "int \<Rightarrow> (sentry \<Rightarrow> sentry) \<Rightarrow> kernel \<Rightarrow> kernel" where
  "upd_sem s f k = k\<lparr>semtab := (semtab k)(s := f (semtab k s))\<rparr>"

definition set_scount :: "int \<Rightarrow> int \<Rightarrow> kernel \<Rightarrow> kernel" where
  "set_scount s c = upd_sem s (\<lambda>e. e\<lparr>scount := c\<rparr>)"

fun newsem_loop :: "nat \<Rightarrow> kernel \<Rightarrow> int \<times> kernel" where
  "newsem_loop 0 k = (SYSERR, k)"
| "newsem_loop (Suc n) k =
    (let sem = nextsem k;
         k = k\<lparr>nextsem := nextsem k + 1\<rparr>;
         k = (if nextsem k \<ge> NSEM then k\<lparr>nextsem := 0\<rparr> else k) in
     if sstate (semtab k sem) = S_FREE then (sem, upd_sem sem (\<lambda>e. e\<lparr>sstate := S_USED\<rparr>) k)
     else newsem_loop n k)"

definition newsem :: "kernel \<Rightarrow> int \<times> kernel" where
  "newsem k = newsem_loop (nat NSEM) k"

definition semcreate :: "int \<Rightarrow> kernel \<Rightarrow> int \<times> kernel" where
  "semcreate cnt k =
    (if cnt < 0 then (SYSERR, k)
     else case newsem k of (sem, k) \<Rightarrow>
       if sem = SYSERR then (SYSERR, k) else (sem, set_scount sem cnt k))"

definition wait :: "int \<Rightarrow> kernel \<Rightarrow> (int \<times> kernel) result" where
  "wait sem k =
    (if isbadsem sem then Ret (SYSERR, k)
     else if sstate (semtab k sem) = S_FREE then Ret (SYSERR, k)
     else
       let c = wrap32 (scount (semtab k sem) - 1);
           k = set_scount sem c k in
       if c < 0 then
         rbind (set_proc (currpid k) (\<lambda>e. e\<lparr>prstate := PR_WAIT, prsem := sem\<rparr>) k) (\<lambda>k.
         rbind (enqueue (proctab k) (currpid k) (squeue (semtab k sem)) (queuetab k)) (\<lambda>(_, qt).
         rbind (resched (k\<lparr>queuetab := qt\<rparr>)) (\<lambda>k.
         Ret (OK, k))))
       else Ret (OK, k))"

text \<open>\<open>if ((semptr->scount++) < 0) ready(dequeue(semptr->squeue));\<close> as \<open>signal\<close> and \<open>signaln\<close> have it.\<close>

definition signal_one :: "int \<Rightarrow> kernel \<Rightarrow> kernel result" where
  "signal_one sem k =
    (let c = scount (semtab k sem);
         k = set_scount sem (wrap32 (c + 1)) k in
     if c < 0 then
       rbind (dequeue (squeue (semtab k sem)) (queuetab k)) (\<lambda>(pid, qt).
       rbind (ready pid (k\<lparr>queuetab := qt\<rparr>)) (\<lambda>(_, k). Ret k))
     else Ret k)"

definition signal :: "int \<Rightarrow> kernel \<Rightarrow> (int \<times> kernel) result" where
  "signal sem k =
    (if isbadsem sem then Ret (SYSERR, k)
     else if sstate (semtab k sem) = S_FREE then Ret (SYSERR, k)
     else rbind (signal_one sem k) (\<lambda>k. Ret (OK, k)))"

fun signaln_loop :: "nat \<Rightarrow> int \<Rightarrow> kernel \<Rightarrow> kernel result" where
  "signaln_loop 0 sem k = Ret k"
| "signaln_loop (Suc n) sem k = rbind (signal_one sem k) (signaln_loop n sem)"

definition signaln :: "int \<Rightarrow> int \<Rightarrow> kernel \<Rightarrow> (int \<times> kernel) result" where
  "signaln sem cnt k =
    (if isbadsem sem \<or> cnt < 0 then Ret (SYSERR, k)
     else if sstate (semtab k sem) = S_FREE then Ret (SYSERR, k)
     else
       rbind (resched_cntl DEFER_START k) (\<lambda>(_, k).
       rbind (signaln_loop (nat cnt) sem k) (\<lambda>k.
       rbind (resched_cntl DEFER_STOP k) (\<lambda>(_, k).
       Ret (OK, k)))))"

partial_function (option) semdelete_loop :: "int \<Rightarrow> kernel \<Rightarrow> kernel result option" where
  "semdelete_loop sem k =
    (let c = scount (semtab k sem);
         k = set_scount sem (wrap32 (c + 1)) k in
     if c < 0 then
       (case rbind (getfirst (squeue (semtab k sem)) (queuetab k)) (\<lambda>(pid, qt). ready pid (k\<lparr>queuetab := qt\<rparr>)) of
          Ret (_, k) \<Rightarrow> semdelete_loop sem k
        | Halted \<Rightarrow> Some Halted
        | Fault \<Rightarrow> Some Fault
        | Loops \<Rightarrow> Some Loops)
     else Some (Ret k))"

definition semdelete :: "int \<Rightarrow> kernel \<Rightarrow> (int \<times> kernel) result" where
  "semdelete sem k =
    (if isbadsem sem then Ret (SYSERR, k)
     else if sstate (semtab k sem) = S_FREE then Ret (SYSERR, k)
     else
       let k = upd_sem sem (\<lambda>e. e\<lparr>sstate := S_FREE\<rparr>) k in
       rbind (resched_cntl DEFER_START k) (\<lambda>(_, k).
       rbind (rjoin (of_loop (semdelete_loop sem k))) (\<lambda>k.
       rbind (resched_cntl DEFER_STOP k) (\<lambda>(_, k).
       Ret (OK, k)))))"

partial_function (option) semreset_loop :: "int \<Rightarrow> kernel \<Rightarrow> kernel result option" where
  "semreset_loop semqueue k =
    (case getfirst semqueue (queuetab k) of
       Ret (pid, qt) \<Rightarrow>
         (let k = k\<lparr>queuetab := qt\<rparr> in
          if pid \<noteq> EMPTY then
            (case ready pid k of
               Ret (_, k) \<Rightarrow> semreset_loop semqueue k
             | Halted \<Rightarrow> Some Halted
             | Fault \<Rightarrow> Some Fault
             | Loops \<Rightarrow> Some Loops)
          else Some (Ret k))
     | Halted \<Rightarrow> Some Halted
     | Fault \<Rightarrow> Some Fault
     | Loops \<Rightarrow> Some Loops)"

definition semreset :: "int \<Rightarrow> int \<Rightarrow> kernel \<Rightarrow> (int \<times> kernel) result" where
  "semreset sem cnt k =
    (if cnt < 0 \<or> isbadsem sem \<or> sstate (semtab k sem) = S_FREE then Ret (SYSERR, k)
     else
       let semqueue = squeue (semtab k sem) in
       rbind (resched_cntl DEFER_START k) (\<lambda>(_, k).
       rbind (rjoin (of_loop (semreset_loop semqueue k))) (\<lambda>k.
       let k = set_scount sem cnt k in
       rbind (resched_cntl DEFER_STOP k) (\<lambda>(_, k).
       Ret (OK, k)))))"

definition semcount :: "int \<Rightarrow> kernel \<Rightarrow> int" where
  "semcount semid k =
    (if isbadsem semid \<or> sstate (semtab k semid) = S_FREE then SYSERR else scount (semtab k semid))"

section \<open>Counts and queues\<close>

text \<open>A queue holds at most \<open>NPROC\<close> processes, so a count never comes near the low end of its type.\<close>

lemma queue_length:
  assumes "queue_rep qt q xs"
  shows "int (length xs) \<le> NPROC"
proof -
  have "set xs \<subseteq> {0..<NPROC}" "distinct xs" using assms by (auto simp: queue_rep_def pid_ok_def)
  then have "card (set xs) \<le> card {0..<NPROC}" by (intro card_mono) auto
  then show ?thesis using distinct_card [OF \<open>distinct xs\<close>] by (simp add: layout_defs)
qed

lemma scount_range:
  assumes "kidle k Q" and "\<not> isbadsem s"
  shows "- 100 \<le> scount (semtab k s)" "scount (semtab k s) < 2 ^ 31" "int (length (Q (squeue (semtab k s)))) = max 0 (- scount (semtab k s))"
proof -
  have "queue_rep (queuetab k) (squeue (semtab k s)) (Q (squeue (semtab k s)))"
    using assms squeue_qids [OF assms(2)] by (simp add: kidle_def kinv_def kbase_def queues_def)
  then have "int (length (Q (squeue (semtab k s)))) \<le> 100" using queue_length by (fastforce simp: layout_defs)
  moreover show "scount (semtab k s) < 2 ^ 31" "int (length (Q (squeue (semtab k s)))) = max 0 (- scount (semtab k s))"
    using assms by (auto simp: kidle_def sem_counts_def isbadsem_def)
  ultimately show "- 100 \<le> scount (semtab k s)" by simp
qed

lemma set_scount_fields [simp]:
  "proctab (set_scount s c k) = proctab k" "queuetab (set_scount s c k) = queuetab k" "currpid (set_scount s c k) = currpid k"
  "readylist (set_scount s c k) = readylist k" "sleepq (set_scount s c k) = sleepq k" "ndefers (set_scount s c k) = ndefers k"
  "attempt (set_scount s c k) = attempt k" "squeue (semtab (set_scount s c k) s') = squeue (semtab k s')"
  "scount (semtab (set_scount s c k) s') = (if s' = s then c else scount (semtab k s'))"
  "sstate (semtab (set_scount s c k) s') = sstate (semtab k s')"
  by (simp_all add: set_scount_def upd_sem_def)

text \<open>The entry of a semaphore other than its queue does not matter to the scheduler.\<close>

lemma kinv_semtab:
  assumes k: "kinv k Q" and sq: "\<And>s. squeue (st s) = squeue (semtab k s)"
  shows "kinv (k\<lparr>semtab := st\<rparr>) Q"
proof -
  have "same_queues k (k\<lparr>semtab := st\<rparr>)" using sq by (simp add: same_queues_def)
  note sf = same_queues_facts [OF this]
  have "kbase k Q" using k by (simp add: kinv_def)
  then have "kbase (k\<lparr>semtab := st\<rparr>) Q" unfolding kbase_def placed_def procs_ok_def sf by simp
  then show ?thesis using k by (simp add: kinv_def)
qed

lemma kinv_scount: "kinv k Q \<Longrightarrow> kinv (set_scount s c k) Q"
  unfolding set_scount_def upd_sem_def by (rule kinv_semtab) auto

text \<open>The counts beside the one that changes together with its queue.\<close>

lemma sem_counts_one:
  assumes "sem_counts k Q" and "qids_ok k" and "\<not> isbadsem s"
    and "\<And>s'. squeue (semtab k' s') = squeue (semtab k s')" and "\<And>s'. s' \<noteq> s \<Longrightarrow> scount (semtab k' s') = scount (semtab k s')"
    and "int (length (Q' (squeue (semtab k s)))) = max 0 (- scount (semtab k' s))" and "scount (semtab k' s) < 2 ^ 31"
    and "\<And>q. q \<noteq> squeue (semtab k s) \<Longrightarrow> q \<noteq> readylist k \<Longrightarrow> Q' q = Q q"
  shows "sem_counts k' Q'"
  unfolding sem_counts_def
proof (intro ballI conjI)
  fix s' assume s': "s' \<in> {0..<NSEM}"
  have "squeue (semtab k s') = squeue (semtab k s) \<longleftrightarrow> s' = s" "squeue (semtab k s') \<noteq> readylist k"
    using squeue_other [OF assms(2), of s'] squeue_other(3) [OF assms(2,3), of s'] s' by (simp_all add: isbadsem_def)
  then show "int (length (Q' (squeue (semtab k' s')))) = max 0 (- scount (semtab k' s'))" "scount (semtab k' s') < 2 ^ 31"
    using assms s' by (auto simp: sem_counts_def)
qed

section \<open>Releasing the process that has waited longest\<close>

lemma release_first:
  assumes k: "kinv k Q" and s: "\<not> isbadsem s" and Q: "Q (squeue (semtab k s)) = p # xs"
    and qs: "queues (qids k) qt' (Q(squeue (semtab k s) := xs))" and kk: "keeps_keys (queuetab k) qt'"
  obtains k1 k' Q' where "ready p (k\<lparr>queuetab := qt'\<rparr>) = Ret (OK, k')" "kinv k' Q'" "semtab k' = semtab k" "ndefers k' = ndefers k"
    "readylist k' = readylist k" "Q' (squeue (semtab k s)) = xs" "\<And>q. q \<noteq> squeue (semtab k s) \<Longrightarrow> q \<noteq> readylist k \<Longrightarrow> Q' q = Q q"
    "prstate (proctab k' p) \<in> {PR_READY, PR_CURR}"
proof -
  let ?q = "squeue (semtab k s)"
  have b: "kbase k Q" using k by (simp add: kinv_def)
  have qi: "?q \<in> qids k" by (rule squeue_qids [OF s])
  have rs: "?q \<noteq> readylist k" "?q \<noteq> sleepq k" using squeue_other [OF _ s] b by (auto simp: kbase_def)
  have hm: "home k (proctab k p) = Some ?q" "pid_ok p" using kbase_home [OF b qi, of p] kbase_pids [OF b qi, of p] Q by auto
  then have pw: "prstate (proctab k p) \<noteq> PR_FREE" "p \<noteq> currpid k" "p \<noteq> NULLPROC"
    using kinv_currpid [OF k] b rs by (auto simp: home_def kbase_def)
  have "kinv (limbo p (k\<lparr>queuetab := qt', semtab := semtab k\<rparr>)) (Q(?q := [] @ xs))"
  proof (rule kinv_unqueue [OF k qi _ pw(3)])
    show "desc qt' ((Q(?q := [] @ xs)) (readylist k))"
      using b kk rs desc_cong [of "Q (readylist k)" qt' "queuetab k"] by (simp add: kbase_def keeps_keys_def)
    show "deltas_ok qt' ((Q(?q := [] @ xs)) (sleepq k))"
      using b kk rs deltas_ok_cong [of "Q (sleepq k)" qt' "queuetab k"] by (simp add: kbase_def keeps_keys_def)
  qed (use Q qs in simp_all)
  then have lim: "kinv (limbo p (k\<lparr>queuetab := qt'\<rparr>)) (Q(?q := xs))" by simp
  obtain k1 k' Q' where r: "ready p (k\<lparr>queuetab := qt'\<rparr>) = Ret (OK, k')" "kinv k' Q'" "sched_frame k1 k'"
    "\<And>q. q \<noteq> readylist (k\<lparr>queuetab := qt'\<rparr>) \<Longrightarrow> Q' q = (Q(?q := xs)) q"
    "k1 = (k\<lparr>queuetab := qt'\<rparr>)\<lparr>proctab := (proctab (k\<lparr>queuetab := qt'\<rparr>))(p := (proctab (k\<lparr>queuetab := qt'\<rparr>) p)\<lparr>prstate := PR_READY\<rparr>), queuetab := queuetab k1\<rparr>"
    by (rule ready_limbo_ok [OF lim]) (use hm pw in \<open>simp add: isbadpid_pid_ok\<close>, use pw in simp, rule that)
  have k1: "ndefers k1 = ndefers k" "semtab k1 = semtab k" "readylist k1 = readylist k" "prstate (proctab k1 p) = PR_READY"
    by (subst r(5), simp)+
  have "prstate (proctab k' p) \<in> {PR_READY, PR_CURR}" using r(3) k1(4) unfolding sched_frame_def by auto
  then show thesis using that [OF r(1,2)] sched_frame_fields(1,3,4) [OF r(3)] k1 r(4) rs by simp
qed

text \<open>One signal, seen from the semaphore: \<open>Q'\<close> is \<open>Q\<close> without the head of the queue when the count was negative.\<close>

lemma signal_one_kinv:
  assumes k: "kinv k Q" and s: "\<not> isbadsem s" and c: "- (2 ^ 31) \<le> scount (semtab k s)" "scount (semtab k s) < 2 ^ 31 - 1"
    and ne: "scount (semtab k s) < 0 \<Longrightarrow> Q (squeue (semtab k s)) \<noteq> []"
  obtains k' Q' where "signal_one s k = Ret k'" "kinv k' Q'" "ndefers k' = ndefers k" "semtab k' = semtab (set_scount s (scount (semtab k s) + 1) k)"
    "readylist k' = readylist k" "Q' (squeue (semtab k s)) = (if scount (semtab k s) < 0 then tl (Q (squeue (semtab k s))) else Q (squeue (semtab k s)))"
    "\<And>q. q \<noteq> squeue (semtab k s) \<Longrightarrow> q \<noteq> readylist k \<Longrightarrow> Q' q = Q q"
    "scount (semtab k s) < 0 \<Longrightarrow> prstate (proctab k' (hd (Q (squeue (semtab k s))))) \<in> {PR_READY, PR_CURR}"
proof -
  let ?c = "scount (semtab k s) + 1" and ?q = "squeue (semtab k s)"
  let ?k = "set_scount s ?c k"
  have k': "kinv ?k Q" by (rule kinv_scount [OF k])
  have w: "wrap32 ?c = ?c" using c by (intro wrap32_id) auto
  show thesis
  proof (cases "scount (semtab k s) < 0")
    case False
    then have "signal_one s k = Ret ?k" using w by (simp add: signal_one_def)
    then show thesis using that [of ?k Q] k' False by simp
  next
    case True
    obtain p xs where Q: "Q ?q = p # xs" using ne [OF True] by (cases "Q ?q") auto
    have qi: "?q \<in> qids ?k" using squeue_qids [OF s, of ?k] by simp
    obtain qt' where d: "dequeue ?q (queuetab ?k) = Ret (p, qt')" "queues (qids ?k) qt' (Q(?q := xs))" "keeps_keys (queuetab ?k) qt'"
      using queues_dequeue [of "qids ?k" "queuetab ?k" Q ?q p xs] qi Q k' by (auto simp: kinv_def kbase_def)
    obtain k1 Q' where r: "ready p (?k\<lparr>queuetab := qt'\<rparr>) = Ret (OK, k1)" "kinv k1 Q'" "semtab k1 = semtab ?k" "ndefers k1 = ndefers ?k"
      "readylist k1 = readylist ?k" "Q' (squeue (semtab ?k s)) = xs" "\<And>q. q \<noteq> squeue (semtab ?k s) \<Longrightarrow> q \<noteq> readylist ?k \<Longrightarrow> Q' q = Q q"
      "prstate (proctab k1 p) \<in> {PR_READY, PR_CURR}"
      by (rule release_first [OF k' s, of p xs qt']) (use Q d in simp, use d in simp, use d in simp, rule that)
    have "signal_one s k = Ret k1" using True w d(1) r(1) by (simp add: signal_one_def Let_def)
    then show thesis using that [OF _ r(2)] r(3-8) Q True by simp
  qed
qed

lemma getfirst_queues:
  assumes "queues ids qt Q" and "q \<in> ids" and "Q q = p # xs"
  shows "\<exists>qt'. getfirst q qt = Ret (p, qt') \<and> queues ids qt' (Q(q := xs)) \<and> keeps_keys qt qt'"
proof -
  have rep: "queue_rep qt q (p # xs)" using queues_rep [OF assms(1,2)] assms(3) by simp
  have "getfirst q qt = getitem p qt" using getfirst_rep [OF rep] getitem_unlink [of qt q "[]" p xs] rep by simp
  then show ?thesis using queues_getitem [of ids qt Q q "[]" p xs] assms by simp
qed


section \<open>Wait and signal\<close>

lemma semaphore_kidle:
  assumes k: "kidle k Q" and s: "\<not> isbadsem s" and k': "kinv k' Q'" "ndefers k' = 0"
    and st: "semtab k' = semtab (set_scount s c k)" and c: "int (length (Q' (squeue (semtab k s)))) = max 0 (- c)" "c < 2 ^ 31"
    and Q: "\<And>q. q \<noteq> squeue (semtab k s) \<Longrightarrow> q \<noteq> readylist k \<Longrightarrow> Q' q = Q q"
  shows "kidle k' Q'"
proof -
  have "sem_counts k' Q'"
    by (rule sem_counts_one [where k = k and s = s and Q = Q])
      (use k s st c Q in \<open>simp_all add: kidle_def kinv_def kbase_def set_scount_def upd_sem_def\<close>)
  then show ?thesis using k' by (simp add: kidle_def)
qed

lemma wait_kidle:
  assumes k: "kidle k Q" and s: "\<not> isbadsem s" "sstate (semtab k s) \<noteq> S_FREE" and c: "currpid k \<noteq> NULLPROC"
  obtains k' Q' where "wait s k = Ret (OK, k')" "kidle k' Q'" "semtab k' = semtab (set_scount s (scount (semtab k s) - 1) k)"
    "Q' (squeue (semtab k s)) = (if scount (semtab k s) \<le> 0 then Q (squeue (semtab k s)) @ [currpid k] else Q (squeue (semtab k s)))"
    "scount (semtab k s) \<le> 0 \<Longrightarrow> prstate (proctab k' (currpid k)) = PR_WAIT \<and> currpid k' \<noteq> currpid k"
    "scount (semtab k s) > 0 \<Longrightarrow> currpid k' = currpid k"
proof -
  let ?q = "squeue (semtab k s)" and ?n = "scount (semtab k s)"
  let ?k = "set_scount s (?n - 1) k"
  have kk: "kinv k Q" "ndefers k = 0" using k by (simp_all add: kidle_def)
  have k1: "kinv ?k Q" by (rule kinv_scount [OF kk(1)])
  have w: "wrap32 (?n - 1) = ?n - 1" using scount_range [OF k s(1)] by (intro wrap32_id) auto
  show thesis
  proof (cases "?n \<le> 0")
    case False
    then have "wait s k = Ret (OK, ?k)" using s w by (simp add: wait_def)
    moreover have "kidle ?k Q"
      by (rule semaphore_kidle [OF k s(1) k1, where c = "?n - 1"]) (use kk False scount_range [OF k s(1)] in simp_all)
    ultimately show thesis using that [of ?k Q] False by simp
  next
    case True
    let ?e = "(proctab k (currpid k))\<lparr>prstate := PR_WAIT, prsem := s\<rparr>"
    have b: "kbase ?k Q" and cp: "pid_ok (currpid k)" using k1 kinv_currpid [OF kk(1)] by (auto simp: kinv_def)
    have q: "?q \<in> qids ?k" "?q \<noteq> readylist k" "?q \<noteq> sleepq k"
      using squeue_qids [OF s(1), of ?k] squeue_other [OF _ s(1), of k] kk by (auto simp: kinv_def kbase_def)
    have uq: "unqueued (qids ?k) Q (currpid k)"
      using placed_unqueued [of ?k Q "currpid k"] kinv_currpid [OF k1] b by (auto simp: kbase_def)
    obtain qt' where e: "enqueue ((proctab k)(currpid k := ?e)) (currpid k) ?q (queuetab k) = Ret (currpid k, qt')"
      "queues (qids ?k) qt' (Q(?q := Q ?q @ [currpid k]))" "keeps_keys (queuetab k) qt'"
      using queues_enqueue [of "qids ?k" "queuetab ?k" Q ?q "(proctab k)(currpid k := ?e)" "currpid k"] b q uq cp
      by (auto simp: kbase_def isbadpid_pid_ok)
    have off: "koff (?k\<lparr>proctab := (proctab ?k)(currpid ?k := ?e), queuetab := qt'\<rparr>) (Q(?q := Q ?q @ [currpid k]))"
    proof (rule koff_block [OF k1])
      show "deltas_ok qt' ((Q(?q := Q ?q @ [currpid k])) (sleepq ?k))"
        using b q e(3) deltas_ok_cong [of "Q (sleepq k)" qt' "queuetab k"] by (simp add: kbase_def keeps_keys_def)
    qed (use c q s e(2,3) in \<open>simp_all add: home_def keeps_keys_def\<close>)
    obtain k' x xs where r: "resched (?k\<lparr>proctab := (proctab ?k)(currpid ?k := ?e), queuetab := qt'\<rparr>) = Ret k'"
      "(Q(?q := Q ?q @ [currpid k])) (readylist ?k) = x # xs" "kinv k' ((Q(?q := Q ?q @ [currpid k]))(readylist ?k := xs))"
      "sched_frame (?k\<lparr>proctab := (proctab ?k)(currpid ?k := ?e), queuetab := qt'\<rparr>) k'" "currpid k' = x"
      by (rule resched_koff [OF off]) (use kk(2) in simp, simp, rule that, simp_all)
    note sf = sched_frame_fields [OF r(4)]
    have run: "wait s k = Ret (OK, k')" using s w True cp e(1) r(1) by (simp add: wait_def Let_def)
    have idle: "kidle k' ((Q(?q := Q ?q @ [currpid k]))(readylist ?k := xs))"
      by (rule semaphore_kidle [OF k s(1) r(3), where c = "?n - 1"]) (use sf kk True scount_range [OF k s(1)] q in simp_all)
    have w: "prstate (proctab k' (currpid k)) = PR_WAIT" using r(4) by (auto simp: sched_frame_def)
    moreover have "currpid k' \<noteq> currpid k" using w kinv_currpid [OF r(3)] by auto
    ultimately show thesis using that [OF run idle] sf True q by simp
  qed
qed

lemma signal_kidle:
  assumes k: "kidle k Q" and s: "\<not> isbadsem s" "sstate (semtab k s) \<noteq> S_FREE" and c: "scount (semtab k s) < 2 ^ 31 - 1"
  obtains k' Q' where "signal s k = Ret (OK, k')" "kidle k' Q'" "semtab k' = semtab (set_scount s (scount (semtab k s) + 1) k)"
    "Q' (squeue (semtab k s)) = (if scount (semtab k s) < 0 then tl (Q (squeue (semtab k s))) else Q (squeue (semtab k s)))"
    "scount (semtab k s) < 0 \<Longrightarrow> prstate (proctab k' (hd (Q (squeue (semtab k s))))) \<in> {PR_READY, PR_CURR}"
proof -
  have kk: "kinv k Q" "ndefers k = 0" using k by (simp_all add: kidle_def)
  note sr = scount_range [OF k s(1)]
  obtain k' Q' where o: "signal_one s k = Ret k'" "kinv k' Q'" "ndefers k' = ndefers k" "semtab k' = semtab (set_scount s (scount (semtab k s) + 1) k)"
    "readylist k' = readylist k" "Q' (squeue (semtab k s)) = (if scount (semtab k s) < 0 then tl (Q (squeue (semtab k s))) else Q (squeue (semtab k s)))"
    "\<And>q. q \<noteq> squeue (semtab k s) \<Longrightarrow> q \<noteq> readylist k \<Longrightarrow> Q' q = Q q"
    "scount (semtab k s) < 0 \<Longrightarrow> prstate (proctab k' (hd (Q (squeue (semtab k s))))) \<in> {PR_READY, PR_CURR}"
    by (rule signal_one_kinv [OF kk(1) s(1)]) (use sr c in simp, use c in simp, use sr in force, rule that)
  have "kidle k' Q'"
    by (rule semaphore_kidle [OF k s(1) o(2) _ o(4)]) (use o kk sr c in auto)
  moreover have "signal s k = Ret (OK, k')" using o(1) s by (simp add: signal_def)
  ultimately show thesis using that [of k' Q'] o(4,6,8) by blast
qed


section \<open>Calls that defer rescheduling\<close>

lemma defer_start:
  assumes "kinv k Q" and "ndefers k = 0"
  shows "resched_cntl DEFER_START k = Ret (OK, k\<lparr>attempt := False, ndefers := 1\<rparr>)" "kinv (k\<lparr>attempt := False, ndefers := 1\<rparr>) Q"
  using assms(2) by (simp add: resched_cntl_def Let_def) (rule kinv_cong [OF assms(1)], simp_all)

lemma defer_stop:
  assumes k: "kinv k Q" and nd: "ndefers k = 1"
  obtains k' Q' where "resched_cntl DEFER_STOP k = Ret (OK, k')" "kinv k' Q'" "ndefers k' = 0" "semtab k' = semtab k"
    "\<And>q. q \<noteq> readylist k \<Longrightarrow> Q' q = Q q" "sched_frame (k\<lparr>ndefers := 0\<rparr>) k'"
    "\<forall>i. i \<noteq> currpid k \<longrightarrow> qkey (queuetab k' i) = qkey (queuetab k i)"
proof -
  have k0: "kinv (k\<lparr>ndefers := 0\<rparr>) Q" by (rule kinv_cong [OF k]) simp_all
  obtain k' Q' where r: "resched (k\<lparr>ndefers := 0\<rparr>) = Ret k'" "kinv k' Q'" "sched_frame (k\<lparr>ndefers := 0\<rparr>) k'"
    "\<And>q. q \<noteq> readylist (k\<lparr>ndefers := 0\<rparr>) \<Longrightarrow> Q' q = Q q"
    "\<forall>i. i \<noteq> currpid (k\<lparr>ndefers := 0\<rparr>) \<longrightarrow> qkey (queuetab k' i) = qkey (queuetab (k\<lparr>ndefers := 0\<rparr>) i)"
    by (rule resched_kinv_frame [OF k0]) (rule that)
  have run: "resched_cntl DEFER_STOP k = rbind (if attempt k then resched (k\<lparr>ndefers := 0\<rparr>) else Ret (k\<lparr>ndefers := 0\<rparr>)) (\<lambda>k. Ret (OK, k))"
    using nd by (simp add: resched_cntl_def DEFER_START_def DEFER_STOP_def Let_def)
  show thesis
  proof (cases "attempt k")
    case True
    then show thesis using that [of k' Q'] run r sched_frame_fields(3,4) [OF r(3)] by simp
  next
    case False
    then show thesis using that [of "k\<lparr>ndefers := 0\<rparr>" Q] run k0 by (simp add: sched_frame_refl)
  qed
qed

text \<open>What a deferring call on semaphore \<open>s\<close> does between \<open>DEFER_START\<close> and \<open>DEFER_STOP\<close>.\<close>

lemma deferred_kidle:
  assumes k: "kidle k Q" and s: "\<not> isbadsem s" and k1: "kinv k1 Q1" "ndefers k1 = 1"
    and st: "\<And>s'. squeue (semtab k1 s') = squeue (semtab k s')" "\<And>s'. s' \<noteq> s \<Longrightarrow> scount (semtab k1 s') = scount (semtab k s')"
    and c: "int (length (Q1 (squeue (semtab k s)))) = max 0 (- scount (semtab k1 s))" "scount (semtab k1 s) < 2 ^ 31"
    and Q: "\<And>q. q \<noteq> squeue (semtab k s) \<Longrightarrow> q \<noteq> readylist k \<Longrightarrow> Q1 q = Q q" "readylist k1 = readylist k"
  shows "\<exists>k' Q'. resched_cntl DEFER_STOP k1 = Ret (OK, k') \<and> kidle k' Q' \<and> semtab k' = semtab k1 \<and>
    Q' (squeue (semtab k s)) = Q1 (squeue (semtab k s))"
proof -
  obtain k' Q' where r: "resched_cntl DEFER_STOP k1 = Ret (OK, k')" "kinv k' Q'" "ndefers k' = 0" "semtab k' = semtab k1"
    "\<And>q. q \<noteq> readylist k1 \<Longrightarrow> Q' q = Q1 q"
    by (rule defer_stop [OF k1]) (rule that)
  have rs: "squeue (semtab k s) \<noteq> readylist k" using squeue_other [OF _ s, of k] k by (auto simp: kidle_def kinv_def kbase_def)
  then have Q': "Q' (squeue (semtab k s)) = Q1 (squeue (semtab k s))" using r(5) Q(2) by simp
  have "sem_counts k' Q'"
    by (rule sem_counts_one [where k = k and s = s and Q = Q])
      (use k s st c Q r(4,5) Q' in \<open>simp_all add: kidle_def kinv_def kbase_def\<close>)
  then have "kidle k' Q'" using r(2,3) by (simp add: kidle_def)
  then show ?thesis using r(1,4) Q' by blast
qed

lemma signaln_loop_ok:
  assumes "kinv k Q" and s: "\<not> isbadsem s" and "int (length (Q (squeue (semtab k s)))) = max 0 (- scount (semtab k s))"
    and "- 100 \<le> scount (semtab k s)" and "scount (semtab k s) + int n < 2 ^ 31"
  shows "\<exists>k' Q'. signaln_loop n s k = Ret k' \<and> kinv k' Q' \<and> ndefers k' = ndefers k \<and> semtab k' = semtab (set_scount s (scount (semtab k s) + int n) k) \<and>
    readylist k' = readylist k \<and> Q' (squeue (semtab k s)) = drop n (Q (squeue (semtab k s))) \<and>
    (\<forall>q. q \<noteq> squeue (semtab k s) \<longrightarrow> q \<noteq> readylist k \<longrightarrow> Q' q = Q q)"
  using assms
proof (induction n arbitrary: k Q)
  case 0
  then show ?case by (intro exI [of _ k] exI [of _ Q]) (simp add: set_scount_def upd_sem_def)
next
  case (Suc n)
  let ?c = "scount (semtab k s)" and ?q = "squeue (semtab k s)"
  obtain k1 Q1 where o: "signal_one s k = Ret k1" "kinv k1 Q1" "ndefers k1 = ndefers k" "semtab k1 = semtab (set_scount s (?c + 1) k)"
    "readylist k1 = readylist k" "Q1 ?q = (if ?c < 0 then tl (Q ?q) else Q ?q)"
    "\<And>q. q \<noteq> ?q \<Longrightarrow> q \<noteq> readylist k \<Longrightarrow> Q1 q = Q q"
    by (rule signal_one_kinv [OF Suc.prems(1) s]) (use Suc.prems in simp, use Suc.prems in simp, use Suc.prems in force, rule that)
  have sq: "squeue (semtab k1 s) = ?q" "scount (semtab k1 s) = ?c + 1" using o(4) by simp_all
  have Q1: "Q1 ?q = drop 1 (Q ?q)" using o(6) Suc.prems(3) by (auto simp: drop_Suc)
  have len: "int (length (Q1 ?q)) = max 0 (- (?c + 1))" using Q1 Suc.prems(3) by auto
  obtain k' Q' where r: "signaln_loop n s k1 = Ret k'" "kinv k' Q'" "ndefers k' = ndefers k1" "semtab k' = semtab (set_scount s (?c + 1 + int n) k1)"
    "readylist k' = readylist k1" "Q' ?q = drop n (Q1 ?q)" "\<forall>q. q \<noteq> ?q \<longrightarrow> q \<noteq> readylist k1 \<longrightarrow> Q' q = Q1 q"
    using Suc.IH [OF o(2) s] unfolding sq using len Suc.prems by auto
  have "semtab k' = semtab (set_scount s (?c + int (Suc n)) k)" using r(4) o(4) by (simp add: set_scount_def upd_sem_def algebra_simps)
  then show ?case using o(1,3,5,7) r(1-3,5-7) Q1 by (intro exI [of _ k'] exI [of _ Q']) simp
qed

lemma signaln_kidle:
  assumes k: "kidle k Q" and s: "\<not> isbadsem s" "sstate (semtab k s) \<noteq> S_FREE" and n: "0 \<le> n" "scount (semtab k s) + n < 2 ^ 31"
  obtains k' Q' where "signaln s n k = Ret (OK, k')" "kidle k' Q'" "semtab k' = semtab (set_scount s (scount (semtab k s) + n) k)"
    "Q' (squeue (semtab k s)) = drop (nat n) (Q (squeue (semtab k s)))"
proof -
  let ?k = "k\<lparr>attempt := False, ndefers := 1\<rparr>" and ?q = "squeue (semtab k s)"
  have kk: "kinv k Q" "ndefers k = 0" using k by (simp_all add: kidle_def)
  note sr = scount_range [OF k s(1)] and d = defer_start [OF kk]
  obtain k1 Q1 where l: "signaln_loop (nat n) s ?k = Ret k1" "kinv k1 Q1" "ndefers k1 = 1" "semtab k1 = semtab (set_scount s (scount (semtab k s) + n) ?k)"
    "readylist k1 = readylist k" "Q1 ?q = drop (nat n) (Q ?q)" "\<forall>q. q \<noteq> ?q \<longrightarrow> q \<noteq> readylist k \<longrightarrow> Q1 q = Q q"
    using signaln_loop_ok [OF d(2) s(1), of "nat n"] sr n by auto
  have len: "int (length (Q1 ?q)) = max 0 (- (scount (semtab k s) + n))" unfolding l(6) length_drop using sr n by linarith
  obtain k' Q' where r: "resched_cntl DEFER_STOP k1 = Ret (OK, k')" "kidle k' Q'" "semtab k' = semtab k1" "Q' ?q = Q1 ?q"
    using deferred_kidle [OF k s(1) l(2,3)] l len sr n by auto
  have "signaln s n k = Ret (OK, k')" using s n d(1) l(1) r(1) by (simp add: signaln_def)
  then show thesis using that r l by (simp add: set_scount_def upd_sem_def)
qed

text \<open>Releasing every waiting process, as \<open>semdelete\<close> and \<open>semreset\<close> do.\<close>

lemma semdelete_loop_ok:
  assumes "kinv k Q" and s: "\<not> isbadsem s" and "int (length (Q (squeue (semtab k s)))) = max 0 (- scount (semtab k s))"
    and "- 100 \<le> scount (semtab k s)" and "scount (semtab k s) < 2 ^ 31 - 1"
  shows "\<exists>k' Q'. semdelete_loop s k = Some (Ret k') \<and> kinv k' Q' \<and> ndefers k' = ndefers k \<and>
    semtab k' = semtab (set_scount s (max 0 (scount (semtab k s)) + 1) k) \<and>
    readylist k' = readylist k \<and> Q' (squeue (semtab k s)) = [] \<and> (\<forall>q. q \<noteq> squeue (semtab k s) \<longrightarrow> q \<noteq> readylist k \<longrightarrow> Q' q = Q q)"
  using assms
proof (induction "length (Q (squeue (semtab k s)))" arbitrary: k Q)
  case 0
  let ?k = "set_scount s (scount (semtab k s) + 1) k"
  have c: "0 \<le> scount (semtab k s)" using 0 by simp
  have "semdelete_loop s k = Some (Ret ?k)"
    using c 0(6) by (subst semdelete_loop.simps) (simp add: Let_def)
  then show ?case using c 0 kinv_scount [OF 0(2), of s "scount (semtab k s) + 1"]
    by (intro exI [of _ ?k] exI [of _ Q]) simp
next
  case (Suc n)
  let ?c = "scount (semtab k s)" and ?q = "squeue (semtab k s)"
  let ?k = "set_scount s (?c + 1) k"
  have c: "?c < 0" using Suc(2,5) by simp
  have k1: "kinv ?k Q" by (rule kinv_scount [OF Suc(3)])
  obtain p xs where Q: "Q ?q = p # xs" using Suc(2) by (cases "Q ?q") auto
  have qi: "?q \<in> qids ?k" using squeue_qids [OF s, of ?k] by simp
  obtain qt' where g: "getfirst ?q (queuetab k) = Ret (p, qt')" "queues (qids ?k) qt' (Q(?q := xs))" "keeps_keys (queuetab k) qt'"
    using getfirst_queues [of "qids ?k" "queuetab ?k" Q ?q p xs] qi Q k1 by (auto simp: kinv_def kbase_def)
  obtain k2 Q2 where r: "ready p (?k\<lparr>queuetab := qt'\<rparr>) = Ret (OK, k2)" "kinv k2 Q2" "semtab k2 = semtab ?k" "ndefers k2 = ndefers ?k"
    "readylist k2 = readylist ?k" "Q2 (squeue (semtab ?k s)) = xs" "\<And>q. q \<noteq> squeue (semtab ?k s) \<Longrightarrow> q \<noteq> readylist ?k \<Longrightarrow> Q2 q = Q q"
    by (rule release_first [OF k1 s, of p xs qt']) (use Q g in simp, use g in simp, use g in simp, rule that)
  have "semdelete_loop s k = semdelete_loop s k2"
    using c Suc(6) g(1) r(1) by (subst semdelete_loop.simps) (simp add: Let_def)
  moreover obtain k' Q' where "semdelete_loop s k2 = Some (Ret k')" "kinv k' Q'" "ndefers k' = ndefers k2"
    "semtab k' = semtab (set_scount s (max 0 (?c + 1) + 1) k2)" "readylist k' = readylist k2" "Q' ?q = []"
    "\<forall>q. q \<noteq> ?q \<longrightarrow> q \<noteq> readylist k2 \<longrightarrow> Q' q = Q2 q"
    using Suc(1) [of Q2 k2] Suc(2,5,6,7) r Q c s by auto
  ultimately show ?case using r c by (intro exI [of _ k'] exI [of _ Q']) (simp add: set_scount_def upd_sem_def)
qed

lemma semreset_loop_ok:
  assumes "kinv k Q" and s: "\<not> isbadsem s"
  shows "\<exists>k' Q'. semreset_loop (squeue (semtab k s)) k = Some (Ret k') \<and> kinv k' Q' \<and> ndefers k' = ndefers k \<and> semtab k' = semtab k \<and>
    readylist k' = readylist k \<and> Q' (squeue (semtab k s)) = [] \<and> (\<forall>q. q \<noteq> squeue (semtab k s) \<longrightarrow> q \<noteq> readylist k \<longrightarrow> Q' q = Q q)"
  using assms
proof (induction "Q (squeue (semtab k s))" arbitrary: k Q)
  case Nil
  let ?q = "squeue (semtab k s)"
  have "queue_rep (queuetab k) ?q []"
    using queues_rep [of "qids k" "queuetab k" Q ?q] squeue_qids [OF s, of k] Nil by (simp add: kinv_def kbase_def)
  then have "semreset_loop ?q k = Some (Ret k)"
    using getfirst_empty by (subst semreset_loop.simps) simp
  then show ?case using Nil by (intro exI [of _ k] exI [of _ Q]) simp
next
  case (Cons p xs)
  let ?q = "squeue (semtab k s)"
  have p: "pid_ok p" using kbase_pids [of k Q ?q p] squeue_qids [OF s, of k] Cons(3) Cons(2) [symmetric] by (simp add: kinv_def)
  obtain qt' where g: "getfirst ?q (queuetab k) = Ret (p, qt')" "queues (qids k) qt' (Q(?q := xs))" "keeps_keys (queuetab k) qt'"
    using getfirst_queues [of "qids k" "queuetab k" Q ?q p xs] squeue_qids [OF s, of k] Cons(3) Cons(2) [symmetric] by (auto simp: kinv_def kbase_def)
  obtain k2 Q2 where r: "ready p (k\<lparr>queuetab := qt'\<rparr>) = Ret (OK, k2)" "kinv k2 Q2" "semtab k2 = semtab k" "ndefers k2 = ndefers k"
    "readylist k2 = readylist k" "Q2 ?q = xs" "\<And>q. q \<noteq> ?q \<Longrightarrow> q \<noteq> readylist k \<Longrightarrow> Q2 q = Q q"
    by (rule release_first [OF Cons(3) s, of p xs qt']) (use Cons(2) in simp, use g in simp, use g in simp, rule that)
  have "semreset_loop ?q k = semreset_loop ?q k2"
    using g(1) r(1) p by (subst semreset_loop.simps) (auto simp: Let_def pid_ok_def EMPTY_def)
  moreover obtain k' Q' where "semreset_loop ?q k2 = Some (Ret k')" "kinv k' Q'" "ndefers k' = ndefers k2"
    "semtab k' = semtab k2" "readylist k' = readylist k2" "Q' ?q = []" "\<forall>q. q \<noteq> ?q \<longrightarrow> q \<noteq> readylist k2 \<longrightarrow> Q' q = Q2 q"
    using Cons(1) [of Q2 k2] r s by auto
  ultimately show ?case using r by (intro exI [of _ k'] exI [of _ Q']) simp
qed

lemma semdelete_kidle:
  assumes k: "kidle k Q" and s: "\<not> isbadsem s" "sstate (semtab k s) \<noteq> S_FREE" and c: "scount (semtab k s) < 2 ^ 31 - 1"
  shows "\<exists>k' Q'. semdelete s k = Ret (OK, k') \<and> kidle k' Q' \<and> sstate (semtab k' s) = S_FREE \<and> Q' (squeue (semtab k s)) = []"
proof -
  let ?k = "upd_sem s (\<lambda>e. e\<lparr>sstate := S_FREE\<rparr>) k" and ?q = "squeue (semtab k s)"
  let ?kd = "?k\<lparr>attempt := False, ndefers := 1\<rparr>"
  have kk: "kinv k Q" "ndefers k = 0" using k by (simp_all add: kidle_def)
  note sr = scount_range [OF k s(1)]
  have k1: "kinv ?k Q" unfolding upd_sem_def by (rule kinv_semtab [OF kk(1)]) simp
  have nd: "ndefers ?k = 0" using kk by (simp add: upd_sem_def)
  note d = defer_start [OF k1 nd]
  have st: "squeue (semtab ?kd s') = squeue (semtab k s')" "scount (semtab ?kd s') = scount (semtab k s')" for s' by (simp_all add: upd_sem_def)
  obtain k2 Q2 where l: "semdelete_loop s ?kd = Some (Ret k2)" "kinv k2 Q2" "ndefers k2 = 1"
    "semtab k2 = semtab (set_scount s (max 0 (scount (semtab k s)) + 1) ?kd)"
    "readylist k2 = readylist k" "Q2 ?q = []" "\<forall>q. q \<noteq> ?q \<longrightarrow> q \<noteq> readylist k \<longrightarrow> Q2 q = Q q"
    using semdelete_loop_ok [OF d(2) s(1)] sr c unfolding st by (auto simp: upd_sem_def)
  have st2: "squeue (semtab k2 s') = squeue (semtab k s')" "scount (semtab k2 s') = (if s' = s then max 0 (scount (semtab k s)) + 1 else scount (semtab k s'))"
    "sstate (semtab k2 s) = S_FREE" for s'
    unfolding l(4) by (simp_all add: upd_sem_def)
  obtain k' Q' where r: "resched_cntl DEFER_STOP k2 = Ret (OK, k')" "kidle k' Q'" "semtab k' = semtab k2" "Q' ?q = Q2 ?q"
    using deferred_kidle [OF k s(1) l(2,3)] st2 l(5-7) c by auto
  have "semdelete s k = Ret (OK, k')" using s d(1) l(1) r(1) by (simp add: semdelete_def Let_def)
  then show ?thesis using r l st2 by auto
qed

lemma semreset_kidle:
  assumes k: "kidle k Q" and s: "\<not> isbadsem s" "sstate (semtab k s) \<noteq> S_FREE" and c: "0 \<le> c" "c < 2 ^ 31"
  shows "\<exists>k' Q'. semreset s c k = Ret (OK, k') \<and> kidle k' Q' \<and> scount (semtab k' s) = c \<and> Q' (squeue (semtab k s)) = []"
proof -
  let ?q = "squeue (semtab k s)" and ?kd = "k\<lparr>attempt := False, ndefers := 1\<rparr>"
  have kk: "kinv k Q" "ndefers k = 0" using k by (simp_all add: kidle_def)
  note d = defer_start [OF kk]
  obtain k2 Q2 where l: "semreset_loop ?q ?kd = Some (Ret k2)" "kinv k2 Q2" "ndefers k2 = 1" "semtab k2 = semtab k"
    "readylist k2 = readylist k" "Q2 ?q = []" "\<forall>q. q \<noteq> ?q \<longrightarrow> q \<noteq> readylist k \<longrightarrow> Q2 q = Q q"
    using semreset_loop_ok [OF d(2) s(1)] by auto
  have k3: "kinv (set_scount s c k2) Q2" "ndefers (set_scount s c k2) = 1" using kinv_scount [OF l(2)] l(3) by simp_all
  obtain k' Q' where r: "resched_cntl DEFER_STOP (set_scount s c k2) = Ret (OK, k')" "kidle k' Q'" "semtab k' = semtab (set_scount s c k2)" "Q' ?q = Q2 ?q"
    using deferred_kidle [OF k s(1) k3] l(4-7) c by auto
  have "semreset s c k = Ret (OK, k')" using s c d(1) l(1) r(1) by (simp add: semreset_def Let_def)
  then show ?thesis using r l by auto
qed

text \<open>The search for an unused semaphore goes once round the table from where the last one stopped.\<close>

lemma newsem_loop_ok:
  assumes "0 \<le> nextsem k" and "nextsem k < NSEM" and "int n \<le> NSEM"
  shows "(\<exists>i < n. let s = (nextsem k + int i) mod NSEM in sstate (semtab k s) = S_FREE \<and>
      newsem_loop n k = (s, (upd_sem s (\<lambda>e. e\<lparr>sstate := S_USED\<rparr>) k)\<lparr>nextsem := (s + 1) mod NSEM\<rparr>)) \<or>
    (\<forall>i < n. sstate (semtab k ((nextsem k + int i) mod NSEM)) \<noteq> S_FREE) \<and>
      newsem_loop n k = (SYSERR, k\<lparr>nextsem := (nextsem k + int n) mod NSEM\<rparr>)"
  using assms
proof (induction n arbitrary: k)
  case (Suc n)
  let ?k = "k\<lparr>nextsem := (nextsem k + 1) mod NSEM\<rparr>"
  have m: "(if nextsem k + 1 \<ge> NSEM then k\<lparr>nextsem := 0\<rparr> else k\<lparr>nextsem := nextsem k + 1\<rparr>) = ?k"
  proof (cases "nextsem k + 1 = NSEM")
    case True
    then show ?thesis by simp
  qed (use Suc.prems in simp)
  have now: "nextsem k mod NSEM = nextsem k" using Suc.prems by simp
  have step: "newsem_loop (Suc n) k = (if sstate (semtab k (nextsem k)) = S_FREE then (nextsem k, upd_sem (nextsem k) (\<lambda>e. e\<lparr>sstate := S_USED\<rparr>) ?k) else newsem_loop n ?k)"
    using m by (auto simp: Let_def upd_sem_def split: if_splits)
  show ?case
  proof (cases "sstate (semtab k (nextsem k)) = S_FREE")
    case True
    then have "newsem_loop (Suc n) k = (nextsem k, (upd_sem (nextsem k) (\<lambda>e. e\<lparr>sstate := S_USED\<rparr>) k)\<lparr>nextsem := (nextsem k + 1) mod NSEM\<rparr>)"
      unfolding step upd_sem_def by simp
    then show ?thesis using True now by (intro disjI1 exI [of _ 0]) simp
  next
    case False
    have sh: "(nextsem ?k + int i) mod NSEM = (nextsem k + int (Suc i)) mod NSEM" for i
      by (simp add: mod_simps algebra_simps)
    have "(\<exists>i < n. let s = (nextsem k + int (Suc i)) mod NSEM in sstate (semtab k s) = S_FREE \<and>
        newsem_loop n ?k = (s, (upd_sem s (\<lambda>e. e\<lparr>sstate := S_USED\<rparr>) k)\<lparr>nextsem := (s + 1) mod NSEM\<rparr>)) \<or>
      (\<forall>i < n. sstate (semtab k ((nextsem k + int (Suc i)) mod NSEM)) \<noteq> S_FREE) \<and>
        newsem_loop n ?k = (SYSERR, k\<lparr>nextsem := (nextsem k + int (Suc n)) mod NSEM\<rparr>)"
      using Suc.IH [of ?k] Suc.prems(3) unfolding sh by (simp add: upd_sem_def layout_defs)
    then show ?thesis using False now step by (auto simp: less_Suc_eq_0_disj)
  qed
qed simp

lemma semcreate_kidle:
  assumes k: "kidle k Q" and n: "0 \<le> nextsem k" "nextsem k < NSEM" and c: "0 \<le> c" "c < 2 ^ 31"
    and idle: "\<forall>s \<in> {0..<NSEM}. sstate (semtab k s) = S_FREE \<longrightarrow> Q (squeue (semtab k s)) = []"
  shows "\<exists>s k'. semcreate c k = (s, k') \<and> kidle k' Q \<and> 0 \<le> nextsem k' \<and> nextsem k' < NSEM \<and>
    (if \<exists>s \<in> {0..<NSEM}. sstate (semtab k s) = S_FREE then \<not> isbadsem s \<and> sstate (semtab k s) = S_FREE \<and> sstate (semtab k' s) = S_USED \<and> scount (semtab k' s) = c
     else s = SYSERR \<and> semtab k' = semtab k)"
proof -
  have kk: "kinv k Q" "ndefers k = 0" using k by (simp_all add: kidle_def)
  have dom: "\<exists>i < nat NSEM. s = (nextsem k + int i) mod NSEM" if "s \<in> {0..<NSEM}" for s
    using that by (intro exI [of _ "nat ((s - nextsem k) mod NSEM)"]) (simp add: layout_defs mod_simps)
  from newsem_loop_ok [OF n, of "nat NSEM"] consider
    (found) i where "i < nat NSEM" "let s = (nextsem k + int i) mod NSEM in sstate (semtab k s) = S_FREE \<and>
      newsem k = (s, (upd_sem s (\<lambda>e. e\<lparr>sstate := S_USED\<rparr>) k)\<lparr>nextsem := (s + 1) mod NSEM\<rparr>)"
    | (none) "\<forall>i < nat NSEM. sstate (semtab k ((nextsem k + int i) mod NSEM)) \<noteq> S_FREE"
      "newsem k = (SYSERR, k\<lparr>nextsem := (nextsem k + int (nat NSEM)) mod NSEM\<rparr>)"
    unfolding newsem_def by (auto simp: layout_defs)
  then show ?thesis
  proof cases
    case found
    let ?s = "(nextsem k + int i) mod NSEM"
    let ?k = "set_scount ?s c ((upd_sem ?s (\<lambda>e. e\<lparr>sstate := S_USED\<rparr>) k)\<lparr>nextsem := (?s + 1) mod NSEM\<rparr>)"
    have s: "\<not> isbadsem ?s" "?s \<in> {0..<NSEM}" by (simp_all add: isbadsem_def layout_defs not_less not_le)
    have f: "sstate (semtab k ?s) = S_FREE" using found by (simp add: Let_def)
    have eq: "semcreate c k = (?s, ?k)" using found(2) c s(2) by (simp add: semcreate_def Let_def SYSERR_def)
    have "kinv ((k\<lparr>semtab := semtab ?k\<rparr>)\<lparr>nextsem := nextsem ?k\<rparr>) Q"
      by (rule kinv_cong [OF kinv_semtab [OF kk(1), of "semtab ?k"]]) (use kk in \<open>simp_all add: upd_sem_def\<close>)
    moreover have "(k\<lparr>semtab := semtab ?k\<rparr>)\<lparr>nextsem := nextsem ?k\<rparr> = ?k" by (rule kernel.equality) (simp_all add: set_scount_def upd_sem_def)
    ultimately have k1: "kinv ?k Q" by simp
    have "sem_counts ?k Q"
      by (rule sem_counts_one [where k = k and s = ?s and Q = Q])
        (use k s f c idle in \<open>simp_all add: kidle_def kinv_def kbase_def upd_sem_def\<close>)
    then have "kidle ?k Q" using k1 kk by (simp add: kidle_def upd_sem_def)
    moreover have "0 \<le> nextsem ?k" "nextsem ?k < NSEM" by (simp_all add: set_scount_def upd_sem_def layout_defs)
    moreover have "sstate (semtab ?k ?s) = S_USED" "scount (semtab ?k ?s) = c" by (simp_all add: upd_sem_def)
    ultimately show ?thesis using eq s f by auto
  next
    case none
    let ?k = "k\<lparr>nextsem := (nextsem k + int (nat NSEM)) mod NSEM\<rparr>"
    have "semcreate c k = (SYSERR, ?k)" using none(2) c by (simp add: semcreate_def)
    moreover have "kinv ?k Q" by (rule kinv_cong [OF kk(1)]) (use kk in simp_all)
    then have "kidle ?k Q" by (rule kidle_intro [OF k]) simp_all
    moreover have "\<not> (\<exists>s \<in> {0..<NSEM}. sstate (semtab k s) = S_FREE)" using none(1) dom by metis
    ultimately show ?thesis by (simp add: layout_defs)
  qed
qed

section \<open>The contract of a counting semaphore\<close>

text \<open>A semaphore seen from outside: its count and the processes that wait, longest first.\<close>

definition abs_wait :: "'p \<Rightarrow> int \<times> 'p list \<Rightarrow> int \<times> 'p list" where
  "abs_wait p v = (case v of (c, ws) \<Rightarrow> (c - 1, if c \<le> 0 then ws @ [p] else ws))"

definition abs_signal :: "int \<times> 'p list \<Rightarrow> int \<times> 'p list" where
  "abs_signal v = (case v of (c, ws) \<Rightarrow> (c + 1, if c < 0 then tl ws else ws))"

datatype sem_op = Down | Up

text \<open>Calls made one after the other by whichever process runs, and that none of them may not block.\<close>

fun sem_ops :: "('k \<Rightarrow> (int \<times> 'k) result) \<Rightarrow> ('k \<Rightarrow> (int \<times> 'k) result) \<Rightarrow> sem_op list \<Rightarrow> 'k \<Rightarrow> 'k result" where
  "sem_ops down up [] k = Ret k"
| "sem_ops down up (Down # os) k = rbind (down k) (\<lambda>(_, k). sem_ops down up os k)"
| "sem_ops down up (Up # os) k = rbind (up k) (\<lambda>(_, k). sem_ops down up os k)"

fun may_run :: "('k \<Rightarrow> (int \<times> 'k) result) \<Rightarrow> ('k \<Rightarrow> (int \<times> 'k) result) \<Rightarrow> ('k \<Rightarrow> bool) \<Rightarrow> sem_op list \<Rightarrow> 'k \<Rightarrow> bool" where
  "may_run down up g [] k \<longleftrightarrow> True"
| "may_run down up g (Down # os) k \<longleftrightarrow> g k \<and> (case down k of Ret (_, k) \<Rightarrow> may_run down up g os k | _ \<Rightarrow> True)"
| "may_run down up g (Up # os) k \<longleftrightarrow> (case up k of Ret (_, k) \<Rightarrow> may_run down up g os k | _ \<Rightarrow> True)"

definition downs :: "sem_op list \<Rightarrow> int" where "downs os = int (length (filter (\<lambda>x. x = Down) os))"
definition ups :: "sem_op list \<Rightarrow> int" where "ups os = int (length (filter (\<lambda>x. x = Up) os))"

locale counting_semaphore =
  fixes down up :: "'k \<Rightarrow> (int \<times> 'k) result" and rep :: "'k \<Rightarrow> int \<times> 'p list \<Rightarrow> bool"
    and me :: "'k \<Rightarrow> 'p" and can_block :: "'k \<Rightarrow> bool" and maxcount :: int
  assumes rep_counts: "rep k (c, ws) \<Longrightarrow> int (length ws) = max 0 (- c)"
    and down_law: "rep k v \<Longrightarrow> can_block k \<Longrightarrow> \<exists>k'. down k = Ret (OK, k') \<and> rep k' (abs_wait (me k) v)"
    and up_law: "rep k v \<Longrightarrow> fst v < maxcount \<Longrightarrow> \<exists>k'. up k = Ret (OK, k') \<and> rep k' (abs_signal v)"
begin

lemma ops_count:
  assumes "rep k (c, ws)" and "may_run down up can_block os k" and "c + ups os \<le> maxcount"
  shows "\<exists>k' ws'. sem_ops down up os k = Ret k' \<and> rep k' (c + ups os - downs os, ws')"
  using assms
proof (induction os arbitrary: k c ws)
  case Nil
  then show ?case by (auto simp: ups_def downs_def)
next
  case (Cons x os)
  show ?case
  proof (cases x)
    case Down
    obtain k1 ws1 where "down k = Ret (OK, k1)" "rep k1 (c - 1, ws1)"
      using down_law [OF Cons.prems(1)] Cons.prems(2) Down by (auto simp: abs_wait_def)
    then show ?thesis using Cons.IH [of k1 "c - 1" ws1] Cons.prems Down by (auto simp: ups_def downs_def algebra_simps)
  next
    case Up
    have "c < maxcount" using Cons.prems(3) Up by (simp add: ups_def)
    then obtain k1 ws1 where "up k = Ret (OK, k1)" "rep k1 (c + 1, ws1)"
      using up_law [OF Cons.prems(1)] by (auto simp: abs_signal_def)
    then show ?thesis using Cons.IH [of k1 "c + 1" ws1] Cons.prems Up by (auto simp: ups_def downs_def algebra_simps)
  qed
qed

text \<open>Of the callers of \<open>down\<close>, exactly as many have got through as there were units and \<open>up\<close>s for.\<close>

lemma passed_bound:
  assumes "rep k (c, [])" and "may_run down up can_block os k" and "c + ups os \<le> maxcount"
  shows "\<exists>k' ws. sem_ops down up os k = Ret k' \<and> rep k' (c + ups os - downs os, ws) \<and>
    downs os - int (length ws) = min (downs os) (c + ups os)"
proof -
  obtain k' ws where k': "sem_ops down up os k = Ret k'" "rep k' (c + ups os - downs os, ws)"
    using ops_count [OF assms] by blast
  then show ?thesis using rep_counts [OF k'(2)] by (intro exI [of _ k'] exI [of _ ws]) auto
qed

end

text \<open>The model's semaphores satisfy it.\<close>

definition sem_rep :: "int \<Rightarrow> kernel \<Rightarrow> int \<times> int list \<Rightarrow> bool" where
  "sem_rep s k v \<longleftrightarrow> \<not> isbadsem s \<and> sstate (semtab k s) \<noteq> S_FREE \<and>
    (\<exists>Q. kidle k Q \<and> v = (scount (semtab k s), Q (squeue (semtab k s))))"

interpretation counting: counting_semaphore "wait s" "signal s" "sem_rep s" currpid "\<lambda>k. currpid k \<noteq> NULLPROC" "2 ^ 31 - 1" for s
proof
  fix k c ws
  assume "sem_rep s k (c, ws)"
  then show "int (length ws) = max 0 (- c)" using scount_range(3) by (auto simp: sem_rep_def)
next
  fix k v
  assume r: "sem_rep s k v" and c: "currpid k \<noteq> NULLPROC"
  obtain Q where Q: "kidle k Q" "v = (scount (semtab k s), Q (squeue (semtab k s)))" "\<not> isbadsem s" "sstate (semtab k s) \<noteq> S_FREE"
    using r by (auto simp: sem_rep_def)
  show "\<exists>k'. wait s k = Ret (OK, k') \<and> sem_rep s k' (abs_wait (currpid k) v)"
    by (rule wait_kidle [OF Q(1,3,4) c]) (use Q in \<open>auto simp: sem_rep_def abs_wait_def\<close>)
next
  fix k v
  assume r: "sem_rep s k v" and c: "fst v < 2 ^ 31 - 1"
  obtain Q where Q: "kidle k Q" "v = (scount (semtab k s), Q (squeue (semtab k s)))" "\<not> isbadsem s" "sstate (semtab k s) \<noteq> S_FREE"
    using r by (auto simp: sem_rep_def)
  show "\<exists>k'. signal s k = Ret (OK, k') \<and> sem_rep s k' (abs_signal v)"
    by (rule signal_kidle [OF Q(1,3,4)]) (use Q c in \<open>auto simp: sem_rep_def abs_signal_def\<close>)
qed

section \<open>Properties\<close>

text \<open>
  C19: \<open>wait\<close> and \<open>signal\<close> implement a counting semaphore. On a semaphore in use, \<open>wait\<close> takes
  one from the count and returns at once when the count was positive; otherwise the caller goes
  to the end of the queue in state \<open>PR_WAIT\<close> and another process runs. \<open>signal\<close> adds one and,
  when the count was negative, makes the process that has waited longest ready (it may already run
  when \<open>signal\<close> returns). Both leave the kernel consistent.
\<close>

theorem wait_signal_refine:
  assumes "kidle k Q" and "\<not> isbadsem s" and "sstate (semtab k s) \<noteq> S_FREE" and "currpid k \<noteq> NULLPROC" and "scount (semtab k s) < 2 ^ 31 - 1"
  shows "(\<exists>k' Q'. wait s k = Ret (OK, k') \<and> kidle k' Q' \<and>
      (scount (semtab k' s), Q' (squeue (semtab k' s))) = abs_wait (currpid k) (scount (semtab k s), Q (squeue (semtab k s))) \<and>
      (if scount (semtab k s) > 0 then currpid k' = currpid k else currpid k' \<noteq> currpid k \<and> prstate (proctab k' (currpid k)) = PR_WAIT)) \<and>
    (\<exists>k' Q'. signal s k = Ret (OK, k') \<and> kidle k' Q' \<and>
      (scount (semtab k' s), Q' (squeue (semtab k' s))) = abs_signal (scount (semtab k s), Q (squeue (semtab k s))) \<and>
      (scount (semtab k s) < 0 \<longrightarrow> prstate (proctab k' (hd (Q (squeue (semtab k s))))) \<in> {PR_READY, PR_CURR}))"
proof
  show "\<exists>k' Q'. wait s k = Ret (OK, k') \<and> kidle k' Q' \<and>
      (scount (semtab k' s), Q' (squeue (semtab k' s))) = abs_wait (currpid k) (scount (semtab k s), Q (squeue (semtab k s))) \<and>
      (if scount (semtab k s) > 0 then currpid k' = currpid k else currpid k' \<noteq> currpid k \<and> prstate (proctab k' (currpid k)) = PR_WAIT)"
    by (rule wait_kidle [OF assms(1-4)]) (auto simp: abs_wait_def not_less)
  show "\<exists>k' Q'. signal s k = Ret (OK, k') \<and> kidle k' Q' \<and>
      (scount (semtab k' s), Q' (squeue (semtab k' s))) = abs_signal (scount (semtab k s), Q (squeue (semtab k s))) \<and>
      (scount (semtab k s) < 0 \<longrightarrow> prstate (proctab k' (hd (Q (squeue (semtab k s))))) \<in> {PR_READY, PR_CURR})"
    by (rule signal_kidle [OF assms(1-3,5)]) (auto simp: abs_signal_def)
qed

theorem wait_signal_refine_witness:
  "\<exists>k' Q'. wait 0 kernel1 = Ret (OK, k') \<and> kidle k' Q' \<and> scount (semtab k' 0) = - 1 \<and> Q' (squeue (semtab k' 0)) = [1] \<and> currpid k' \<noteq> 1"
  using wait_signal_refine [OF kidle1, of 0]
  by (auto simp: kernel1_def queues1_def isbadsem_def layout_defs NULLPROC_def abs_wait_def)

text \<open>
  C20: a semaphore never lets more callers through than it has units. Start with a semaphore of count
  \<open>c\<close> and no waiting process and let the running processes make any sequence of \<open>wait\<close> and
  \<open>signal\<close> calls on it (the null process must not be the one that waits, and the count must
  stay in its type). Every call returns, the count is \<open>c\<close> plus the signals minus the waits, and the number of
  callers of \<open>wait\<close> not on the queue is exactly the smaller of the waits and \<open>c\<close> plus the signals.
\<close>

theorem semaphore_passes:
  assumes "sem_rep s k (c, [])" and "may_run (wait s) (signal s) (\<lambda>k. currpid k \<noteq> NULLPROC) os k" and "c + ups os \<le> 2 ^ 31 - 1"
  shows "\<exists>k' ws. sem_ops (wait s) (signal s) os k = Ret k' \<and> sem_rep s k' (c + ups os - downs os, ws) \<and>
    downs os - int (length ws) = min (downs os) (c + ups os)"
  by (rule counting.passed_bound [OF assms])

theorem semaphore_passes_witness:
  "\<exists>k' ws. sem_ops (wait 0) (signal 0) [Up, Up, Down] kernel1 = Ret k' \<and> sem_rep 0 k' (1, ws) \<and> ws = []"
proof -
  have "sem_rep 0 kernel1 (0, [])"
    using kidle1 by (auto simp: sem_rep_def kernel1_def queues1_def isbadsem_def layout_defs intro!: exI [of _ queues1])
  moreover have "may_run (wait 0) (signal 0) (\<lambda>k. currpid k \<noteq> NULLPROC) [Up, Up, Down] kernel1"
    by (simp add: signal_def signal_one_def set_scount_def upd_sem_def kernel1_def isbadsem_def layout_defs NULLPROC_def Let_def wait_def)
  ultimately show ?thesis using semaphore_passes [of 0 kernel1 0 "[Up, Up, Down]"] by (auto simp: ups_def downs_def)
qed

text \<open>
  the calls that release several processes. \<open>signaln\<close> releases the \<open>n\<close> processes that have waited
  longest (all of them if fewer wait) and adds \<open>n\<close> to the count; \<open>semreset\<close> releases all of
  them and sets the count; \<open>semdelete\<close> releases all of them and frees the entry. Rescheduling is
  put off until the end and each call leaves the kernel consistent; the loops end.
\<close>

theorem semaphore_bulk_release:
  assumes "kidle k Q" and "\<not> isbadsem s" and "sstate (semtab k s) \<noteq> S_FREE" and "0 \<le> n" and "n < 2 ^ 31"
    and "scount (semtab k s) + n < 2 ^ 31" and "scount (semtab k s) < 2 ^ 31 - 1"
  shows "(\<exists>k' Q'. signaln s n k = Ret (OK, k') \<and> kidle k' Q' \<and> scount (semtab k' s) = scount (semtab k s) + n \<and>
      Q' (squeue (semtab k' s)) = drop (nat n) (Q (squeue (semtab k s)))) \<and>
    (\<exists>k' Q'. semreset s n k = Ret (OK, k') \<and> kidle k' Q' \<and> scount (semtab k' s) = n \<and> Q' (squeue (semtab k s)) = []) \<and>
    (\<exists>k' Q'. semdelete s k = Ret (OK, k') \<and> kidle k' Q' \<and> sstate (semtab k' s) = S_FREE \<and> Q' (squeue (semtab k s)) = [])"
proof -
  have "\<exists>k' Q'. signaln s n k = Ret (OK, k') \<and> kidle k' Q' \<and> scount (semtab k' s) = scount (semtab k s) + n \<and>
      Q' (squeue (semtab k' s)) = drop (nat n) (Q (squeue (semtab k s)))"
    by (rule signaln_kidle [OF assms(1-4,6)]) auto
  then show ?thesis using semreset_kidle [OF assms(1-5)] semdelete_kidle [OF assms(1-3,7)] by blast
qed

theorem semaphore_bulk_release_witness:
  "(\<exists>k' Q'. signaln 0 5 kernel1 = Ret (OK, k') \<and> kidle k' Q' \<and> scount (semtab k' 0) = 5) \<and>
    (\<exists>k' Q'. semreset 0 5 kernel1 = Ret (OK, k') \<and> kidle k' Q' \<and> scount (semtab k' 0) = 5)"
  using semaphore_bulk_release [OF kidle1, of 0 5] by (auto simp: kernel1_def isbadsem_def layout_defs)

text \<open>
  \<open>semcreate\<close> finds a semaphore exactly when one is free. From a consistent state in which no process
  waits on a free entry, \<open>semcreate\<close> with a count of its type returns the id of an entry that was
  free, marks it used and gives it the count; when every entry is in use it returns \<open>SYSERR\<close> and
  changes no entry. The kernel stays consistent.
\<close>

theorem semcreate_allocates:
  assumes "kidle k Q" and "0 \<le> nextsem k" and "nextsem k < NSEM" and "0 \<le> c" and "c < 2 ^ 31"
    and "\<forall>s \<in> {0..<NSEM}. sstate (semtab k s) = S_FREE \<longrightarrow> Q (squeue (semtab k s)) = []"
  shows "\<exists>s k'. semcreate c k = (s, k') \<and> kidle k' Q \<and> 0 \<le> nextsem k' \<and> nextsem k' < NSEM \<and>
    (if \<exists>s \<in> {0..<NSEM}. sstate (semtab k s) = S_FREE
     then \<not> isbadsem s \<and> sstate (semtab k s) = S_FREE \<and> sstate (semtab k' s) = S_USED \<and> scount (semtab k' s) = c
     else s = SYSERR \<and> semtab k' = semtab k)"
  by (rule semcreate_kidle [OF assms])

theorem semcreate_allocates_witness:
  "\<exists>s k'. semcreate 7 kernel1 = (s, k') \<and> kidle k' queues1 \<and> sstate (semtab k' s) = S_USED \<and> scount (semtab k' s) = 7"
proof -
  have "\<exists>s \<in> {0..<NSEM}. sstate (semtab kernel1 s) = S_FREE" by (rule bexI [of _ 1]) (simp_all add: kernel1_def layout_defs)
  moreover have "\<forall>s \<in> {0..<NSEM}. sstate (semtab kernel1 s) = S_FREE \<longrightarrow> queues1 (squeue (semtab kernel1 s)) = []"
    by (auto simp: kernel1_def queues1_def layout_defs)
  ultimately show ?thesis using semcreate_allocates [OF kidle1, of 7] by (auto simp: kernel1_def layout_defs)
qed

end
