(* ===== verification/Clock.thy ===== *)
theory Clock
  imports Semaphores
begin

text \<open>
  Delays: \<open>system/sleep.c\<close>, \<open>system/unsleep.c\<close>, \<open>system/wakeup.c\<close> and the clock interrupt
  \<open>system/clkhandler.c\<close>.

  A sleeping process is on the delta queue \<open>sleepq\<close>: its key is the number of clock ticks between the wake-up of
  its predecessor and its own. \<open>wake\<close> of theory \<open>Queue\<close> turns the keys into times from now.
\<close>

section \<open>Operations\<close>

definition MAXSECONDS :: int where "MAXSECONDS = 2147483"

definition sleepms :: "int \<Rightarrow> kernel \<Rightarrow> (int \<times> kernel) result" where
  "sleepms delay k =
    (if delay < 0 then Ret (SYSERR, k)
     else if delay = 0 then rbind (yield k) (\<lambda>(_, k). Ret (OK, k))
     else
       rbind (insertd (proctab k) (currpid k) (sleepq k) delay (queuetab k)) (\<lambda>(r, qt).
       let k = k\<lparr>queuetab := qt\<rparr> in
       if r = SYSERR then Ret (SYSERR, k)
       else
         rbind (set_proc (currpid k) (\<lambda>e. e\<lparr>prstate := PR_SLEEP\<rparr>) k) (\<lambda>k.
         rbind (resched k) (\<lambda>k.
         Ret (OK, k)))))"

definition sleep :: "int \<Rightarrow> kernel \<Rightarrow> (int \<times> kernel) result" where
  "sleep delay k =
    (if delay < 0 \<or> delay > MAXSECONDS then Ret (SYSERR, k)
     else rbind (sleepms (wrap32 (1000 * delay)) k) (\<lambda>(_, k). Ret (OK, k)))"

definition unsleep :: "int \<Rightarrow> kernel \<Rightarrow> (int \<times> kernel) result" where
  "unsleep pid k =
    (if isbadpid (proctab k) pid then Ret (SYSERR, k)
     else if prstate (proctab k pid) \<noteq> PR_SLEEP \<and> prstate (proctab k pid) \<noteq> PR_RECTIM then Ret (SYSERR, k)
     else
       rbind (qread (queuetab k) pid) (\<lambda>e.
       let pidnext = qnext e in
       rbind (if pidnext < NPROC
              then qwrite pidnext (\<lambda>n. n\<lparr>qkey := wrap32 (qkey n + qkey e)\<rparr>) (queuetab k)
              else Ret (queuetab k)) (\<lambda>qt.
       rbind (getitem pid qt) (\<lambda>(_, qt).
       Ret (OK, k\<lparr>queuetab := qt\<rparr>)))))"

text \<open>The condition and the body of the loop of \<open>wakeup\<close>.\<close>

definition wakeup_due :: "kernel \<Rightarrow> bool result" where
  "wakeup_due k =
    rbind (nonempty (queuetab k) (sleepq k)) (\<lambda>b.
    if b then rbind (firstkey (queuetab k) (sleepq k)) (\<lambda>key. Ret (key \<le> 0)) else Ret False)"

definition wakeup_one :: "kernel \<Rightarrow> kernel result" where
  "wakeup_one k =
    rbind (dequeue (sleepq k) (queuetab k)) (\<lambda>(pid, qt).
    rbind (ready pid (k\<lparr>queuetab := qt\<rparr>)) (\<lambda>(_, k). Ret k))"

partial_function (option) wakeup_loop :: "kernel \<Rightarrow> kernel result option" where
  "wakeup_loop k =
    (case rbind (wakeup_due k) (\<lambda>b. if b then rbind (wakeup_one k) (\<lambda>k. Ret (Some k)) else Ret None) of
       Ret (Some k) \<Rightarrow> wakeup_loop k
     | Ret None \<Rightarrow> Some (Ret k)
     | Halted \<Rightarrow> Some Halted
     | Fault \<Rightarrow> Some Fault
     | Loops \<Rightarrow> Some Loops)"

definition wakeup :: "kernel \<Rightarrow> kernel result" where
  "wakeup k =
    rbind (resched_cntl DEFER_START k) (\<lambda>(_, k).
    rbind (rjoin (of_loop (wakeup_loop k))) (\<lambda>k.
    rbind (resched_cntl DEFER_STOP k) (\<lambda>(_, k). Ret k)))"

text \<open>The three parts of the clock interrupt handler.\<close>

definition clk_seconds :: "kernel \<Rightarrow> kernel" where
  "clk_seconds k =
    (let k = k\<lparr>count1000 := count1000 k - 1\<rparr> in
     if count1000 k \<le> 0 then k\<lparr>clktime := clktime k + 1, count1000 := 1000\<rparr> else k)"

definition clk_sleepers :: "kernel \<Rightarrow> kernel result" where
  "clk_sleepers k =
    rbind (isempty (queuetab k) (sleepq k)) (\<lambda>b.
    if b then Ret k
    else
      rbind (firstid (queuetab k) (sleepq k)) (\<lambda>i.
      rbind (qwrite i (\<lambda>e. e\<lparr>qkey := wrap32 (qkey e - 1)\<rparr>) (queuetab k)) (\<lambda>qt.
      let k = k\<lparr>queuetab := qt\<rparr> in
      if qkey (queuetab k i) \<le> 0 then wakeup k else Ret k)))"

definition clk_preempt :: "kernel \<Rightarrow> kernel result" where
  "clk_preempt k =
    (let k = k\<lparr>preempt := preempt k - 1\<rparr> in
     if preempt k \<le> 0 then resched (k\<lparr>preempt := QUANTUM\<rparr>) else Ret k)"

definition clkhandler :: "kernel \<Rightarrow> kernel result" where
  "clkhandler k = rbind (clk_sleepers (clk_seconds k)) clk_preempt"

section \<open>Going to sleep\<close>

text \<open>The current process leaves the processor for the sleep queue in state \<open>st\<close>.\<close>

lemma sleep_block:
  assumes k: "kidle k Q" and c: "currpid k \<noteq> NULLPROC" and d: "0 \<le> delay" "delay < 2 ^ 31" and st: "st = PR_SLEEP \<or> st = PR_RECTIM"
  obtains qt k' Q' where "insertd (proctab k) (currpid k) (sleepq k) delay (queuetab k) = Ret (OK, qt)"
    "resched (k\<lparr>queuetab := qt, proctab := (proctab k)(currpid k := (proctab k (currpid k))\<lparr>prstate := st\<rparr>)\<rparr>) = Ret k'" "kidle k' Q'"
    "wake (queuetab k') 0 (Q' (sleepq k')) = wake_ins delay (currpid k) (wake (queuetab k) 0 (Q (sleepq k)))"
    "sched_frame (k\<lparr>proctab := (proctab k)(currpid k := (proctab k (currpid k))\<lparr>prstate := st\<rparr>), queuetab := qt\<rparr>) k'" "currpid k' \<noteq> currpid k"
proof -
  let ?e = "(proctab k (currpid k))\<lparr>prstate := st\<rparr>" and ?xs = "insert_delta (queuetab k) delay (currpid k) (Q (sleepq k))"
  have kk: "kinv k Q" "kbase k Q" "ndefers k = 0" using k by (simp_all add: kidle_def kinv_def)
  have cp: "pid_ok (currpid k)" "prstate (proctab k (currpid k)) = PR_CURR" "home k (proctab k (currpid k)) = None" using kinv_currpid [OF kk(1)] by auto
  have uq: "unqueued (qids k) Q (currpid k)" using placed_unqueued [OF _ cp(1,3)] kk by (simp add: kbase_def)
  have rs: "sleepq k \<noteq> readylist k" using kk by (auto simp: kbase_def qids_ok_def)
  obtain qt where i: "insertd (proctab k) (currpid k) (sleepq k) delay (queuetab k) = Ret (OK, qt)" "queues (qids k) qt (Q(sleepq k := ?xs))"
    "wake qt 0 ?xs = wake_ins delay (currpid k) (wake (queuetab k) 0 (Q (sleepq k)))" "deltas_ok qt ?xs"
    "\<forall>i. i \<notin> set (currpid k # Q (sleepq k)) \<union> {sleepq k, sleepq k + 1} \<longrightarrow> qt i = queuetab k i"
    using queues_insertd [of "qids k" "queuetab k" Q "sleepq k" "proctab k" "currpid k" delay] kk uq cp d by (auto simp: kbase_def isbadpid_pid_ok)
  have disj: "x \<notin> set (currpid k # Q (sleepq k)) \<union> {sleepq k, sleepq k + 1}" if x: "x \<in> set (Q (readylist k))" for x
  proof -
    have "pid_ok x" "prstate (proctab k x) = PR_READY" using x kbase_pids [OF kk(2) readylist_qids x] ready_list_iff [OF kk(2)] by auto
    moreover have "qid_ok (sleepq k)" using kk(2) sleepq_qids [of k] by (auto simp: kbase_def queues_def queue_rep_def)
    ultimately show ?thesis using sleep_list_iff [OF kk(2)] pid_not_queue [of x "sleepq k"] cp by auto
  qed
  have off: "koff (k\<lparr>proctab := (proctab k)(currpid k := ?e), queuetab := qt\<rparr>) (Q(sleepq k := ?xs))"
    by (rule koff_block [OF kk(1) c]) (use st rs i disj in \<open>auto simp: home_def set_insert_delta\<close>)
  obtain k' x xs where r: "resched (k\<lparr>proctab := (proctab k)(currpid k := ?e), queuetab := qt\<rparr>) = Ret k'"
    "kinv k' ((Q(sleepq k := ?xs))(readylist k := xs))" "sched_frame (k\<lparr>proctab := (proctab k)(currpid k := ?e), queuetab := qt\<rparr>) k'"
    "keeps_keys qt (queuetab k')"
    by (rule resched_koff [OF off]) (use kk st in \<open>auto intro: that\<close>)
  have eq: "k\<lparr>queuetab := qt, proctab := (proctab k)(currpid k := ?e)\<rparr> = k\<lparr>proctab := (proctab k)(currpid k := ?e), queuetab := qt\<rparr>" by simp
  note sf = sched_frame_fields [OF r(3)]
  have "kidle k' ((Q(sleepq k := ?xs))(readylist k := xs))" by (rule kidle_intro [OF k r(2)]) (use sf in simp_all)
  moreover have "wake (queuetab k') 0 ?xs = wake qt 0 ?xs" using r(4) by (intro wake_cong) (simp add: keeps_keys_def)
  moreover have "prstate (proctab k' (currpid k)) = st" using r(3) st by (auto simp: sched_frame_def)
  then have "currpid k' \<noteq> currpid k" using kinv_currpid [OF r(2)] st by auto
  ultimately show thesis using that [of qt k'] i(1,3) r(1,3) sf rs eq by simp
qed

lemma sleepms_kidle:
  assumes k: "kidle k Q" and c: "currpid k \<noteq> NULLPROC" and d: "0 < delay" "delay < 2 ^ 31"
  shows "\<exists>k' Q'. sleepms delay k = Ret (OK, k') \<and> kidle k' Q' \<and> currpid k' \<noteq> currpid k \<and>
    wake (queuetab k') 0 (Q' (sleepq k')) = wake_ins delay (currpid k) (wake (queuetab k) 0 (Q (sleepq k)))"
proof -
  have cp: "pid_ok (currpid k)" using k kinv_currpid by (auto simp: kidle_def)
  show ?thesis
    by (rule sleep_block [OF k c, of delay PR_SLEEP]) (use d cp in \<open>auto simp: sleepms_def Let_def OK_def SYSERR_def\<close>)
qed

section \<open>Changing the key of a process\<close>

lemma queues_key:
  assumes "queues ids qt Q" and "pid_ok y"
  shows "queues ids (qt(y := (qt y)\<lparr>qkey := v\<rparr>)) Q"
proof -
  have "queue_rep (qt(y := (qt y)\<lparr>qkey := v\<rparr>)) q xs" if r: "queue_rep qt q xs" for q xs
  proof -
    have "qlinks (qt(y := (qt y)\<lparr>qkey := v\<rparr>)) q xs (q + 1) = qlinks qt q xs (q + 1)" by (rule qlinks_cong) auto
    then show ?thesis using r pid_not_queue [OF assms(2), of q] by (auto simp: queue_rep_def)
  qed
  then show ?thesis using assms(1) by (simp add: queues_def)
qed

text \<open>Taking a process off a delta queue leaves every other wake-up time as it was when its key goes to its successor.\<close>

definition pass_on :: "qtab \<Rightarrow> int \<Rightarrow> int list \<Rightarrow> qtab" where
  "pass_on qt p ys = (case ys of [] \<Rightarrow> qt | y # _ \<Rightarrow> qt(y := (qt y)\<lparr>qkey := qkey (qt y) + qkey (qt p)\<rparr>))"

lemma wake_pass_on:
  assumes "distinct (xs @ p # ys)"
  shows "wake (pass_on qt p ys) t (xs @ ys) = filter (\<lambda>(x, _). x \<noteq> p) (wake qt t (xs @ p # ys))"
proof -
  have out: "filter (\<lambda>(x, _). x \<noteq> p) (wake qt u zs) = wake qt u zs" if "p \<notin> set zs" for zs u
    using that by (induction zs arbitrary: u) auto
  have "wake (pass_on qt p ys) t xs = wake qt t xs" "delta_sum (pass_on qt p ys) xs = delta_sum qt xs"
    using assms by (auto simp: pass_on_def split: list.split intro!: wake_cong delta_sum_cong)
  moreover have "wake (pass_on qt p ys) u ys = wake qt (u + qkey (qt p)) ys" for u
  proof (cases ys)
    case (Cons y zs)
    have "wake (pass_on qt p ys) v zs = wake qt v zs" for v
      using assms Cons by (intro wake_cong) (auto simp: pass_on_def)
    then show ?thesis using Cons by (simp add: pass_on_def algebra_simps)
  qed simp
  ultimately show ?thesis using assms out by (simp add: wake_append)
qed

lemma deltas_ok_pass_on:
  assumes d: "distinct (xs @ p # ys)" and ok: "deltas_ok qt (xs @ p # ys)"
  shows "deltas_ok (pass_on qt p ys) (xs @ ys)" and "ys \<noteq> [] \<Longrightarrow> qkey (qt (hd ys)) + qkey (qt p) < 2 ^ 31"
proof -
  have k: "0 \<le> qkey (qt x)" if "x \<in> set (xs @ p # ys)" for x using ok that by (auto simp: deltas_ok_def)
  then have nn: "\<forall>x \<in> set (xs @ ys). 0 \<le> qkey (pass_on qt p ys x)" by (auto simp: pass_on_def split: list.split)
  moreover have "\<forall>u \<in> set (wake (pass_on qt p ys) 0 (xs @ ys)). snd u < 2 ^ 31"
    using ok unfolding wake_pass_on [OF d] deltas_ok_iff by auto
  ultimately show d': "deltas_ok (pass_on qt p ys) (xs @ ys)" by (simp add: deltas_ok_iff)
  show "qkey (qt (hd ys)) + qkey (qt p) < 2 ^ 31" if "ys \<noteq> []"
    using deltas_ok_bound [OF d', of "hd ys"] that by (cases ys) (auto simp: pass_on_def)
qed

lemma unsleep_ok:
  assumes k: "kinv k Q" and Q: "Q (sleepq k) = xs @ p # ys"
  obtains qt' where "unsleep p k = Ret (OK, k\<lparr>queuetab := qt'\<rparr>)" "kinv (limbo p (k\<lparr>queuetab := qt'\<rparr>)) (Q(sleepq k := xs @ ys))"
    "wake qt' 0 (xs @ ys) = filter (\<lambda>(x, _). x \<noteq> p) (wake (queuetab k) 0 (Q (sleepq k)))" "pid_ok p" "prstate (proctab k p) \<in> {PR_SLEEP, PR_RECTIM}"
proof -
  have b: "kbase k Q" using k by (simp add: kinv_def)
  have rep: "queue_rep (queuetab k) (sleepq k) (xs @ p # ys)" and dl: "deltas_ok (queuetab k) (xs @ p # ys)"
    using b Q queues_rep [of "qids k" "queuetab k" Q "sleepq k"] by (auto simp: kbase_def)
  have d: "distinct (xs @ p # ys)" and pk: "\<forall>x \<in> set (xs @ p # ys). pid_ok x" using rep by (auto simp: queue_rep_def)
  have st: "prstate (proctab k p) \<in> {PR_SLEEP, PR_RECTIM}" using sleep_list_iff [OF b, of p] pk Q by auto
  have null: "p \<noteq> NULLPROC" using st b by (auto simp: kbase_def)
  let ?qt = "pass_on (queuetab k) p ys"
  have nx: "qnext (queuetab k p) = hd (ys @ [sleepq k + 1])" using rep by (auto simp: queue_rep_def qlinks_append dest: qlinks_first)
  have qid: "NPROC \<le> sleepq k" using rep by (auto simp: queue_rep_def qid_ok_def)
  have add: "(if qnext (queuetab k p) < NPROC then qwrite (qnext (queuetab k p)) (\<lambda>n. n\<lparr>qkey := wrap32 (qkey n + qkey (queuetab k p))\<rparr>) (queuetab k)
      else Ret (queuetab k)) = Ret ?qt"
  proof (cases ys)
    case Nil
    then show ?thesis using nx qid by (simp add: pass_on_def)
  next
    case (Cons y zs)
    have "pid_ok y" using pk Cons by simp
    moreover have "wrap32 (qkey (queuetab k y) + qkey (queuetab k p)) = qkey (queuetab k y) + qkey (queuetab k p)"
      using deltas_ok_pass_on(2) [OF d dl] Cons dl by (intro wrap32_id) (auto simp: deltas_ok_def)
    ultimately show ?thesis using nx Cons pid_ok_in_table [of y] by (simp add: pass_on_def pid_ok_def)
  qed
  have qs: "queues (qids k) ?qt Q"
  proof (cases ys)
    case (Cons y zs)
    then show ?thesis using queues_key [of "qids k" "queuetab k" Q y] b pk by (simp add: pass_on_def kbase_def)
  qed (use b in \<open>simp add: pass_on_def kbase_def\<close>)
  obtain qt' where g: "getitem p ?qt = Ret (p, qt')" "queues (qids k) qt' (Q(sleepq k := xs @ ys))" "keeps_keys ?qt qt'"
    using queues_getitem [OF qs sleepq_qids Q] by auto
  have run: "unsleep p k = Ret (OK, k\<lparr>queuetab := qt'\<rparr>)"
    using st pk pid_ok_in_table [of p] add g(1) by (auto simp: unsleep_def isbadpid_pid_ok Let_def)
  have rk: "qkey (qt' x) = qkey (queuetab k x)" if "x \<in> set (Q (readylist k))" for x
  proof -
    have "pid_ok x" "prstate (proctab k x) = PR_READY" using that kbase_pids [OF b readylist_qids that] ready_list_iff [OF b] by auto
    then have "x \<notin> set ys" using sleep_list_iff [OF b, of x] Q by auto
    then show ?thesis using g(3) by (auto simp: keeps_keys_def pass_on_def split: list.split)
  qed
  have "kinv (limbo p (k\<lparr>queuetab := qt', semtab := semtab k\<rparr>)) (Q(sleepq k := xs @ ys))"
  proof (rule kinv_unqueue [OF k sleepq_qids Q null g(2)])
    show "desc qt' ((Q(sleepq k := xs @ ys)) (readylist k))"
      using b desc_cong [of "Q (readylist k)" qt' "queuetab k", OF rk] by (auto simp: kbase_def qids_ok_def)
    show "deltas_ok qt' ((Q(sleepq k := xs @ ys)) (sleepq k))"
      using deltas_ok_pass_on(1) [OF d dl] g(3) deltas_ok_cong [of "xs @ ys" qt' ?qt] by (simp add: keeps_keys_def)
  qed simp
  moreover have "wake qt' 0 (xs @ ys) = wake ?qt 0 (xs @ ys)" using g(3) by (intro wake_cong) (simp add: keeps_keys_def)
  ultimately show thesis using that [OF run] wake_pass_on [OF d] Q st pk by simp
qed

section \<open>Waking up\<close>

lemma wake_shift: "wake qt (s + d) xs = map (\<lambda>(x, u). (x, u + d)) (wake qt s xs)"
proof (induction xs arbitrary: s)
  case (Cons x xs)
  then show ?case using Cons.IH [of "s + qkey (qt x)"] by (simp add: algebra_simps)
qed simp

lemma wake_fst: "(x, u) \<in> set (wake qt t xs) \<Longrightarrow> x \<in> set xs"
  by (induction xs arbitrary: t) auto

lemma wake_later: "\<forall>v \<in> set (wake qt t xs). snd v < b \<Longrightarrow> s \<le> t \<Longrightarrow> \<forall>u \<in> set (wake qt s xs). snd u < b"
proof
  fix u assume b: "\<forall>v \<in> set (wake qt t xs). snd v < b" and st: "s \<le> t" and u: "u \<in> set (wake qt s xs)"
  have "(fst u, snd u + (t - s)) \<in> set (wake qt (s + (t - s)) xs)" unfolding wake_shift using u by force
  then have "snd u + (t - s) < b" using b by force
  then show "snd u < b" using st by simp
qed

text \<open>
  One round of the loop. The table \<open>qt0\<close> differs from the actual one at most in the key of the head:
  the clock may have taken that one below zero a moment ago.
\<close>

lemma wakeup_one_ok:
  assumes k0: "kinv (k\<lparr>queuetab := qt0\<rparr>) Q" and Q: "Q (sleepq k) = p # xs"
    and keys: "\<forall>x. x \<noteq> p \<longrightarrow> qkey (qt0 x) = qkey (queuetab k x)" and qs: "queues (qids k) (queuetab k) Q"
  obtains k' Q' where "wakeup_one k = Ret k'" "kinv k' Q'" "ndefers k' = ndefers k" "semtab k' = semtab k" "sleepq k' = sleepq k" "readylist k' = readylist k"
    "Q' (sleepq k) = xs" "\<And>q. q \<noteq> sleepq k \<Longrightarrow> q \<noteq> readylist k \<Longrightarrow> Q' q = Q q" "\<forall>x \<in> set xs. qkey (queuetab k' x) = qkey (queuetab k x)"
    "prstate (proctab k' p) \<in> {PR_READY, PR_CURR}"
    "\<forall>x. prstate (proctab k x) \<in> {PR_READY, PR_CURR} \<longrightarrow> prstate (proctab k' x) \<in> {PR_READY, PR_CURR}"
proof -
  let ?k0 = "k\<lparr>queuetab := qt0\<rparr>"
  have b: "kbase ?k0 Q" using k0 by (simp add: kinv_def)
  have ids: "qids ?k0 = qids k" by (simp add: qids_def)
  have st: "pid_ok p" "prstate (proctab k p) \<in> {PR_SLEEP, PR_RECTIM}"
    using kbase_pids [OF b sleepq_qids, of p] sleep_list_iff [OF b, of p] Q by auto
  have dx: "p \<notin> set xs" using qs Q queues_rep [of "qids k" "queuetab k" Q "sleepq k"] by (simp add: queue_rep_def)
  have null: "p \<noteq> NULLPROC" using st b by (auto simp: kbase_def)
  have nc: "p \<noteq> currpid k" using st(2) kinv_currpid [OF k0] by auto
  obtain qt' where d: "dequeue (sleepq k) (queuetab k) = Ret (p, qt')" "queues (qids k) qt' (Q(sleepq k := xs))" "keeps_keys (queuetab k) qt'"
    using queues_dequeue [OF qs sleepq_qids Q] by auto
  have np: "x \<noteq> p" if "x \<in> set (Q (readylist k))" for x
    using ready_list_iff [OF b st(1)] st(2) that by auto
  have "kinv (limbo p (?k0\<lparr>queuetab := qt', semtab := semtab k\<rparr>)) (Q(sleepq ?k0 := [] @ xs))"
  proof (rule kinv_unqueue [OF k0 sleepq_qids])
    show "desc qt' ((Q(sleepq ?k0 := [] @ xs)) (readylist ?k0))"
      using b d(3) keys np desc_cong [of "Q (readylist k)" qt' qt0] by (auto simp: kbase_def keeps_keys_def qids_ok_def)
    have "deltas_ok qt0 (p # xs)" using b Q by (simp add: kbase_def)
    then have nn: "\<forall>x \<in> set xs. 0 \<le> qkey (qt0 x)" and w: "\<forall>u \<in> set (wake qt0 (qkey (qt0 p)) xs). snd u < 2 ^ 31" "0 \<le> qkey (qt0 p)"
      by (auto simp: deltas_ok_iff)
    have "\<forall>u \<in> set (wake qt0 0 xs). snd u < 2 ^ 31"
      using w wake_later [of qt0 "qkey (qt0 p)" xs "2 ^ 31" 0] by simp
    then have "deltas_ok qt0 xs" using nn by (simp add: deltas_ok_iff)
    moreover have "qkey (qt' x) = qkey (qt0 x)" if "x \<in> set xs" for x
      using d(3) keys dx that by (cases "x = p") (simp_all add: keeps_keys_def)
    ultimately show "deltas_ok qt' ((Q(sleepq ?k0 := [] @ xs)) (sleepq ?k0))"
      using deltas_ok_cong [of xs qt' qt0] by simp
  qed (use Q null d(2) ids in simp_all)
  then have lim: "kinv (limbo p (k\<lparr>queuetab := qt'\<rparr>)) (Q(sleepq k := xs))" by simp
  obtain k1 k' Q' where r: "ready p (k\<lparr>queuetab := qt'\<rparr>) = Ret (OK, k')" "kinv k' Q'" "sched_frame k1 k'"
    "\<And>q. q \<noteq> readylist (k\<lparr>queuetab := qt'\<rparr>) \<Longrightarrow> Q' q = (Q(sleepq k := xs)) q"
    "k1 = (k\<lparr>queuetab := qt'\<rparr>)\<lparr>proctab := (proctab (k\<lparr>queuetab := qt'\<rparr>))(p := (proctab (k\<lparr>queuetab := qt'\<rparr>) p)\<lparr>prstate := PR_READY\<rparr>), queuetab := queuetab k1\<rparr>"
    "\<forall>i. i \<noteq> p \<longrightarrow> i \<noteq> currpid (k\<lparr>queuetab := qt'\<rparr>) \<longrightarrow> qkey (queuetab k' i) = qkey (queuetab (k\<lparr>queuetab := qt'\<rparr>) i)"
    by (rule ready_limbo_ok [OF lim]) (use st nc in \<open>auto simp: isbadpid_pid_ok intro: that\<close>)
  have k1: "ndefers k1 = ndefers k" "semtab k1 = semtab k" "readylist k1 = readylist k" "sleepq k1 = sleepq k"
    "proctab k1 = (proctab k)(p := (proctab k p)\<lparr>prstate := PR_READY\<rparr>)"
    by (subst r(5), simp)+
  have run: "wakeup_one k = Ret k'" using d(1) r(1) by (simp add: wakeup_one_def)
  have cs: "currpid k \<notin> set xs"
  proof
    assume "currpid k \<in> set xs"
    then have "prstate (proctab k (currpid k)) \<in> {PR_SLEEP, PR_RECTIM}"
      using sleep_list_iff [OF b, of "currpid k"] kbase_pids [OF b sleepq_qids, of "currpid k"] Q by auto
    then show False using kinv_currpid [OF k0] by auto
  qed
  have rd: "prstate (proctab k1 x) \<in> {PR_READY, PR_CURR}" if "x = p \<or> prstate (proctab k x) \<in> {PR_READY, PR_CURR}" for x
    using that st(2) k1(5) by auto
  have rf: "prstate (proctab k1 x) \<in> {PR_READY, PR_CURR} \<Longrightarrow> prstate (proctab k' x) \<in> {PR_READY, PR_CURR}" for x
    using r(3) unfolding sched_frame_def by blast
  have "\<forall>x \<in> set xs. qkey (queuetab k' x) = qkey (queuetab k x)" using r(6) dx cs d(3) by (auto simp: keeps_keys_def)
  moreover have "prstate (proctab k' p) \<in> {PR_READY, PR_CURR}"
    "\<forall>x. prstate (proctab k x) \<in> {PR_READY, PR_CURR} \<longrightarrow> prstate (proctab k' x) \<in> {PR_READY, PR_CURR}"
    using rd rf by blast+
  moreover have "sleepq k \<noteq> readylist k" using b by (auto simp: kbase_def qids_ok_def)
  ultimately show thesis using that [OF run r(2)] sched_frame_fields [OF r(3)] k1 r(4) by simp
qed

lemma wakeup_due_ok: "queues (qids k) (queuetab k) Q \<Longrightarrow> wakeup_due k = Ret (Q (sleepq k) \<noteq> [] \<and> qkey (queuetab k (hd (Q (sleepq k)))) \<le> 0)"
  using queues_rep [of "qids k" "queuetab k" Q "sleepq k"]
  by (cases "Q (sleepq k)") (simp_all add: wakeup_due_def nonempty_rep firstkey_rep)

lemma wakeup_loop_step: "queues (qids k) (queuetab k) Q \<Longrightarrow> Q (sleepq k) \<noteq> [] \<Longrightarrow> qkey (queuetab k (hd (Q (sleepq k)))) \<le> 0 \<Longrightarrow>
  wakeup_one k = Ret k' \<Longrightarrow> wakeup_loop k = wakeup_loop k'"
  by (subst wakeup_loop.simps) (simp add: wakeup_due_ok)

lemma wakeup_loop_ok:
  assumes "kinv k Q"
  shows "\<exists>k' Q'. wakeup_loop k = Some (Ret k') \<and> kinv k' Q' \<and> ndefers k' = ndefers k \<and> semtab k' = semtab k \<and> sleepq k' = sleepq k \<and>
    readylist k' = readylist k \<and> Q' (sleepq k) = dropWhile (\<lambda>x. qkey (queuetab k x) \<le> 0) (Q (sleepq k)) \<and>
    (\<forall>q. q \<noteq> sleepq k \<longrightarrow> q \<noteq> readylist k \<longrightarrow> Q' q = Q q) \<and>
    (\<forall>x \<in> set (Q' (sleepq k)). qkey (queuetab k' x) = qkey (queuetab k x)) \<and>
    (\<forall>x. prstate (proctab k x) \<in> {PR_READY, PR_CURR} \<longrightarrow> prstate (proctab k' x) \<in> {PR_READY, PR_CURR}) \<and>
    (\<forall>x \<in> set (takeWhile (\<lambda>x. qkey (queuetab k x) \<le> 0) (Q (sleepq k))). prstate (proctab k' x) \<in> {PR_READY, PR_CURR})"
  using assms
proof (induction "Q (sleepq k)" arbitrary: k Q)
  case Nil
  have "wakeup_loop k = Some (Ret k)"
    using Nil wakeup_due_ok [of k Q] by (subst wakeup_loop.simps) (simp add: kinv_def kbase_def)
  then show ?case using Nil(2) by (intro exI [of _ k] exI [of _ Q]) (simp flip: Nil(1))
next
  case (Cons p xs)
  have qs: "queues (qids k) (queuetab k) Q" using Cons(3) by (simp add: kinv_def kbase_def)
  show ?case
  proof (cases "qkey (queuetab k p) \<le> 0")
    case False
    then have "wakeup_loop k = Some (Ret k)"
      using wakeup_due_ok [OF qs] Cons(2) [symmetric] by (subst wakeup_loop.simps) simp
    then show ?thesis using Cons(3) False by (intro exI [of _ k] exI [of _ Q]) (simp flip: Cons(2))
  next
    case True
    obtain k1 Q1 where o: "wakeup_one k = Ret k1" "kinv k1 Q1" "ndefers k1 = ndefers k" "semtab k1 = semtab k" "sleepq k1 = sleepq k" "readylist k1 = readylist k"
      "Q1 (sleepq k) = xs" "\<And>q. q \<noteq> sleepq k \<Longrightarrow> q \<noteq> readylist k \<Longrightarrow> Q1 q = Q q" "\<forall>x \<in> set xs. qkey (queuetab k1 x) = qkey (queuetab k x)"
      "prstate (proctab k1 p) \<in> {PR_READY, PR_CURR}"
      "\<forall>x. prstate (proctab k x) \<in> {PR_READY, PR_CURR} \<longrightarrow> prstate (proctab k1 x) \<in> {PR_READY, PR_CURR}"
      by (rule wakeup_one_ok [of "queuetab k" k Q p xs]) (use Cons(2,3) qs in \<open>auto intro: that\<close>)
    have step: "wakeup_loop k = wakeup_loop k1" by (rule wakeup_loop_step [OF qs]) (use True o(1) in \<open>simp_all flip: Cons(2)\<close>)
    have cg: "takeWhile (\<lambda>x. qkey (queuetab k1 x) \<le> 0) xs = takeWhile (\<lambda>x. qkey (queuetab k x) \<le> 0) xs"
      "dropWhile (\<lambda>x. qkey (queuetab k1 x) \<le> 0) xs = dropWhile (\<lambda>x. qkey (queuetab k x) \<le> 0) xs"
      using o(9) by (simp_all cong: takeWhile_cong dropWhile_cong)
    obtain k' Q' where l: "wakeup_loop k1 = Some (Ret k')" "kinv k' Q'" "ndefers k' = ndefers k" "semtab k' = semtab k" "sleepq k' = sleepq k" "readylist k' = readylist k"
      "Q' (sleepq k) = dropWhile (\<lambda>x. qkey (queuetab k x) \<le> 0) xs" "\<forall>q. q \<noteq> sleepq k \<longrightarrow> q \<noteq> readylist k \<longrightarrow> Q' q = Q1 q"
      "\<forall>x \<in> set (Q' (sleepq k)). qkey (queuetab k' x) = qkey (queuetab k1 x)"
      "\<forall>x. prstate (proctab k1 x) \<in> {PR_READY, PR_CURR} \<longrightarrow> prstate (proctab k' x) \<in> {PR_READY, PR_CURR}"
      "\<forall>x \<in> set (takeWhile (\<lambda>x. qkey (queuetab k x) \<le> 0) xs). prstate (proctab k' x) \<in> {PR_READY, PR_CURR}"
      using Cons(1) [of Q1 k1] o cg by auto
    have "\<forall>x \<in> set (Q' (sleepq k)). qkey (queuetab k' x) = qkey (queuetab k x)" using l(7,9) o(9) by (auto dest: set_dropWhileD)
    moreover have "\<forall>x. prstate (proctab k x) \<in> {PR_READY, PR_CURR} \<longrightarrow> prstate (proctab k' x) \<in> {PR_READY, PR_CURR}"
      "prstate (proctab k' p) \<in> {PR_READY, PR_CURR}"
      using l(10) o(10,11) by blast+
    ultimately show ?thesis using step l(1-8,11) o(8) True by (intro exI [of _ k'] exI [of _ Q']) (simp flip: Cons(2))
  qed
qed

section \<open>The clock interrupt\<close>

text \<open>
  What a tick does to the wake-up times. When the first process to wake has a time of 0 left
  (\<open>recvtime(0)\<close> puts it there), the tick is spent on taking its key below zero and the others keep their times.
\<close>

definition abs_tick :: "(int \<times> int) list \<Rightarrow> (int \<times> int) list" where
  "abs_tick ws = filter (\<lambda>(_, t). 0 < t) (map (\<lambda>(p, t). (p, if snd (hd ws) = 0 then t else t - 1)) ws)"

lemma wake_prefix: "\<forall>x \<in> set xs. 0 \<le> qkey (qt x) \<Longrightarrow> filter (\<lambda>(_, t). 0 < t) (wake qt 0 xs) = wake qt 0 (dropWhile (\<lambda>x. qkey (qt x) \<le> 0) xs)"
proof (induction xs)
  case (Cons x xs)
  show ?case
  proof (cases "qkey (qt x) \<le> 0")
    case True
    then have "qkey (qt x) = 0" using Cons.prems by force
    then show ?thesis using Cons by simp
  next
    case False
    have "0 < t" if "(y, t) \<in> set (wake qt (qkey (qt x)) xs)" for y t
      using wake_ge [of xs qt y t "qkey (qt x)"] that Cons.prems False wake_fst [OF that] by force
    then have "filter (\<lambda>(_, t). 0 < t) (wake qt (qkey (qt x)) xs) = wake qt (qkey (qt x)) xs" by (auto intro!: filter_True)
    then show ?thesis using False by simp
  qed
qed simp

lemma clk_seconds_kidle: "kidle k Q \<Longrightarrow> kidle (clk_seconds k) Q \<and> queuetab (clk_seconds k) = queuetab k \<and> sleepq (clk_seconds k) = sleepq k"
  using kidle_intro [of k Q "clk_seconds k" Q] kinv_cong [of k Q "clk_seconds k"]
  by (auto simp: clk_seconds_def Let_def kidle_def)

lemma clk_preempt_kidle:
  assumes k: "kidle k Q"
  shows "\<exists>k' Q'. clk_preempt k = Ret k' \<and> kidle k' Q' \<and> sleepq k' = sleepq k \<and> wake (queuetab k') 0 (Q' (sleepq k)) = wake (queuetab k) 0 (Q (sleepq k))"
proof -
  have kk: "kinv k Q" "ndefers k = 0" using k by (simp_all add: kidle_def)
  have cong: "kinv (k\<lparr>preempt := v\<rparr>) Q" for v by (rule kinv_cong [OF kk(1)]) (use kk in simp_all)
  obtain k' Q' where r: "resched (k\<lparr>preempt := QUANTUM\<rparr>) = Ret k'" "kinv k' Q'" "sched_frame (k\<lparr>preempt := QUANTUM\<rparr>) k'"
    "\<And>q. q \<noteq> readylist (k\<lparr>preempt := QUANTUM\<rparr>) \<Longrightarrow> Q' q = Q q"
    "\<forall>i. i \<noteq> currpid (k\<lparr>preempt := QUANTUM\<rparr>) \<longrightarrow> qkey (queuetab k' i) = qkey (queuetab (k\<lparr>preempt := QUANTUM\<rparr>) i)"
    by (rule resched_kinv_frame [OF cong]) (rule that)
  have rs: "sleepq k \<noteq> readylist k" "currpid k \<notin> set (Q (sleepq k))"
    using kk(1) kinv_currpid [OF kk(1)] sleep_list_iff [of k Q "currpid k"] by (auto simp: kinv_def kbase_def qids_ok_def)
  have ne: "x \<noteq> currpid k" if "x \<in> set (Q (sleepq k))" for x using rs that by auto
  have w: "wake (queuetab k') 0 (Q (sleepq k)) = wake (queuetab k) 0 (Q (sleepq k))"
    using r(5) ne by (intro wake_cong) simp
  show ?thesis
  proof (cases "preempt k - 1 \<le> 0")
    case True
    have "kidle k' Q'" by (rule kidle_intro [OF k r(2)]) (use r(4) sched_frame_fields [OF r(3)] in simp_all)
    then show ?thesis using True r(1,4) rs w sched_frame_fields(2) [OF r(3)]
      by (intro exI [of _ k'] exI [of _ Q']) (simp add: clk_preempt_def Let_def)
  next
    case False
    have "kidle (k\<lparr>preempt := preempt k - 1\<rparr>) Q" using cong kidle_intro [OF k] by simp
    then show ?thesis using False by (intro exI [of _ "k\<lparr>preempt := preempt k - 1\<rparr>"] exI [of _ Q]) (simp add: clk_preempt_def Let_def)
  qed
qed

text \<open>A new key for a sleeping process.\<close>

lemma kinv_sleep_key:
  assumes k: "kinv k Q" and p: "p \<in> set (Q (sleepq k))" and dl: "deltas_ok ((queuetab k)(p := (queuetab k p)\<lparr>qkey := v\<rparr>)) (Q (sleepq k))"
  shows "kinv (k\<lparr>queuetab := (queuetab k)(p := (queuetab k p)\<lparr>qkey := v\<rparr>)\<rparr>) Q"
proof -
  let ?qt = "(queuetab k)(p := (queuetab k p)\<lparr>qkey := v\<rparr>)"
  have b: "kbase k Q" using k by (simp add: kinv_def)
  have pk: "pid_ok p" using kbase_pids [OF b sleepq_qids p] .
  have st: "prstate (proctab k p) \<in> {PR_SLEEP, PR_RECTIM}" using sleep_list_iff [OF b pk] p by simp
  have "p \<notin> set (Q (readylist k))" using ready_list_iff [OF b pk] st by auto
  then have "qkey (?qt x) = qkey (queuetab k x)" if "x \<in> set (Q (readylist k))" for x using that by auto
  then have d: "desc ?qt (Q (readylist k))" using b desc_cong [of "Q (readylist k)" ?qt "queuetab k"] by (simp add: kbase_def)
  have sq: "same_queues k (k\<lparr>queuetab := ?qt\<rparr>)" by (simp add: same_queues_def)
  have "kbase (k\<lparr>queuetab := ?qt\<rparr>) Q"
    using b d dl queues_key [of "qids k" "queuetab k" Q p v] pk
    unfolding kbase_def placed_def procs_ok_def same_queues_facts [OF sq] by simp
  then show ?thesis using k by (simp add: kinv_def)
qed

text \<open>\<open>wakeup\<close> after the clock took the head's key to 0 or below.\<close>

lemma wakeup_kidle:
  assumes k: "kidle k Q" and k0: "kinv (k\<lparr>queuetab := qt0\<rparr>) Q" and Q: "Q (sleepq k) = p # xs"
    and qt: "qkey (qt p) \<le> 0" "qkey (qt0 p) \<le> 0" "\<forall>x. x \<noteq> p \<longrightarrow> qt0 x = qt x" "qt p = (queuetab k p)\<lparr>qkey := qkey (qt p)\<rparr>" "\<forall>x. x \<noteq> p \<longrightarrow> qt x = queuetab k x"
  shows "\<exists>k' Q'. wakeup (k\<lparr>queuetab := qt\<rparr>) = Ret k' \<and> kidle k' Q' \<and> sleepq k' = sleepq k \<and>
    wake (queuetab k') 0 (Q' (sleepq k)) = wake qt0 0 (dropWhile (\<lambda>x. qkey (qt0 x) \<le> 0) (p # xs))"
proof -
  let ?k = "k\<lparr>queuetab := qt, attempt := False, ndefers := 1\<rparr>"
  have b: "kbase k Q" "ndefers k = 0" using k by (simp_all add: kidle_def kinv_def)
  have pk: "pid_ok p" using kbase_pids [OF b(1) sleepq_qids, of p] Q by simp
  have "qt = (queuetab k)(p := (queuetab k p)\<lparr>qkey := qkey (qt p)\<rparr>)" using qt(4,5) by (intro ext) simp
  then have qs: "queues (qids ?k) (queuetab ?k) Q"
    using queues_key [of "qids k" "queuetab k" Q p "qkey (qt p)"] b pk by (simp add: kbase_def qids_def)
  have k1: "kinv (?k\<lparr>queuetab := qt0\<rparr>) Q" by (rule kinv_cong [OF k0]) simp_all
  obtain k2 Q2 where o: "wakeup_one ?k = Ret k2" "kinv k2 Q2" "ndefers k2 = 1" "semtab k2 = semtab k" "sleepq k2 = sleepq k" "readylist k2 = readylist k"
    "Q2 (sleepq k) = xs" "\<And>q. q \<noteq> sleepq k \<Longrightarrow> q \<noteq> readylist k \<Longrightarrow> Q2 q = Q q" "\<forall>x \<in> set xs. qkey (queuetab k2 x) = qkey (qt x)"
    by (rule wakeup_one_ok [OF k1, of p xs]) (use Q qt(3) qs in \<open>auto intro: that\<close>)
  have np: "p \<notin> set xs" using queues_rep [of "qids k" "queuetab k" Q "sleepq k"] b Q by (simp add: kbase_def queue_rep_def)
  have keys: "\<forall>x \<in> set xs. qkey (queuetab k2 x) = qkey (qt0 x)" using o(9) qt(3) np by auto
  have step: "wakeup_loop ?k = wakeup_loop k2" by (rule wakeup_loop_step [OF qs]) (use Q qt o(1) in simp_all)
  obtain k3 Q3 where l: "wakeup_loop k2 = Some (Ret k3)" "kinv k3 Q3" "ndefers k3 = 1" "semtab k3 = semtab k" "sleepq k3 = sleepq k" "readylist k3 = readylist k"
    "Q3 (sleepq k) = dropWhile (\<lambda>x. qkey (queuetab k2 x) \<le> 0) xs" "\<forall>q. q \<noteq> sleepq k \<longrightarrow> q \<noteq> readylist k \<longrightarrow> Q3 q = Q q"
    "\<forall>x \<in> set (Q3 (sleepq k)). qkey (queuetab k3 x) = qkey (queuetab k2 x)"
    using wakeup_loop_ok [OF o(2)] o by auto
  obtain k' Q' where r: "resched_cntl DEFER_STOP k3 = Ret (OK, k')" "kinv k' Q'" "ndefers k' = 0" "semtab k' = semtab k3"
    "\<And>q. q \<noteq> readylist k3 \<Longrightarrow> Q' q = Q3 q" "sched_frame (k3\<lparr>ndefers := 0\<rparr>) k'" "\<forall>i. i \<noteq> currpid k3 \<longrightarrow> qkey (queuetab k' i) = qkey (queuetab k3 i)"
    by (rule defer_stop [OF l(2,3)]) (rule that)
  have rs: "sleepq k \<noteq> readylist k" using b by (auto simp: kbase_def qids_ok_def)
  have "kidle k' Q'" by (rule kidle_intro [OF k r(2)]) (use r l b in simp_all)
  moreover have "wakeup (k\<lparr>queuetab := qt\<rparr>) = Ret k'"
    using b(2) step l(1) r(1) by (simp add: wakeup_def resched_cntl_def [of DEFER_START] Let_def)
  moreover have "currpid k3 \<notin> set (Q3 (sleepq k))"
    using kinv_currpid [OF l(2)] sleep_list_iff [of k3 Q3 "currpid k3"] l(2,5) by (auto simp: kinv_def)
  then have "wake (queuetab k') 0 (Q3 (sleepq k)) = wake qt0 0 (Q3 (sleepq k))"
    using r(7) l(7,9) keys by (intro wake_cong) (metis set_dropWhileD)
  moreover have "Q3 (sleepq k) = dropWhile (\<lambda>x. qkey (qt0 x) \<le> 0) (p # xs)"
    using l(7) qt(2) keys by (simp cong: dropWhile_cong)
  ultimately show ?thesis using r(5) l(6,5) rs sched_frame_fields(2) [OF r(6)] by (intro exI [of _ k'] exI [of _ Q']) simp
qed

text \<open>The sleep queue after the decrement, with the head's key kept at 0 if it was 0.\<close>

definition ticked :: "qtab \<Rightarrow> int \<Rightarrow> qtab" where
  "ticked qt p = qt(p := (qt p)\<lparr>qkey := if qkey (qt p) = 0 then 0 else qkey (qt p) - 1\<rparr>)"

lemma ticked_wake:
  assumes d: "distinct (p # xs)" and ok: "deltas_ok qt (p # xs)"
  shows "deltas_ok (ticked qt p) (p # xs)" "filter (\<lambda>(_, t). 0 < t) (wake (ticked qt p) 0 (p # xs)) = abs_tick (wake qt 0 (p # xs))"
proof -
  let ?d = "if qkey (qt p) = 0 then 0 else - 1 :: int"
  have kp: "0 \<le> qkey (qt p)" using ok by (simp add: deltas_ok_def)
  have "wake (ticked qt p) t xs = wake qt t xs" for t using d by (intro wake_cong) (auto simp: ticked_def)
  then have w: "wake (ticked qt p) 0 (p # xs) = map (\<lambda>(x, t). (x, t + ?d)) (wake qt 0 (p # xs))"
    using wake_shift [of qt "qkey (qt p)" ?d xs] by (cases "qkey (qt p) = 0") (simp_all add: ticked_def)
  also have "\<dots> = map (\<lambda>(x, t). (x, if snd (hd (wake qt 0 (p # xs))) = 0 then t else t - 1)) (wake qt 0 (p # xs))" by simp
  finally show "filter (\<lambda>(_, t). 0 < t) (wake (ticked qt p) 0 (p # xs)) = abs_tick (wake qt 0 (p # xs))" by (simp only: abs_tick_def)
  have "\<forall>x \<in> set (p # xs). 0 \<le> qkey (ticked qt p x)" using ok kp by (auto simp: deltas_ok_def ticked_def)
  moreover have "\<forall>u \<in> set (wake (ticked qt p) 0 (p # xs)). snd u < 2 ^ 31" using ok unfolding w deltas_ok_iff by force
  ultimately show "deltas_ok (ticked qt p) (p # xs)" by (simp add: deltas_ok_iff)
qed

lemma clk_sleepers_kidle:
  assumes k: "kidle k Q"
  shows "\<exists>k' Q'. clk_sleepers k = Ret k' \<and> kidle k' Q' \<and> sleepq k' = sleepq k \<and> wake (queuetab k') 0 (Q' (sleepq k)) = abs_tick (wake (queuetab k) 0 (Q (sleepq k)))"
proof -
  have kk: "kinv k Q" "kbase k Q" "ndefers k = 0" using k by (simp_all add: kidle_def kinv_def)
  have rep: "queue_rep (queuetab k) (sleepq k) (Q (sleepq k))" using queues_rep [of "qids k" "queuetab k" Q "sleepq k"] kk(2) by (simp add: kbase_def)
  show ?thesis
  proof (cases "Q (sleepq k)")
    case Nil
    then have "clk_sleepers k = Ret k" using isempty_rep [OF rep] by (simp add: clk_sleepers_def)
    then show ?thesis using k Nil by (intro exI [of _ k] exI [of _ Q]) (simp add: abs_tick_def)
  next
    case (Cons p xs)
    let ?key = "qkey (queuetab k p)" and ?qt = "(queuetab k)(p := (queuetab k p)\<lparr>qkey := qkey (queuetab k p) - 1\<rparr>)"
    have d: "distinct (p # xs)" and pk: "pid_ok p" using rep Cons by (auto simp: queue_rep_def)
    have dl: "deltas_ok (queuetab k) (p # xs)" using kk(2) Cons by (simp add: kbase_def)
    have kr: "0 \<le> ?key" "?key < 2 ^ 31" using deltas_ok_bound [OF dl, of p] by auto
    note tw = ticked_wake [OF d dl]
    have k0: "kinv (k\<lparr>queuetab := ticked (queuetab k) p\<rparr>) Q"
      unfolding ticked_def by (rule kinv_sleep_key [OF kk(1)]) (use Cons tw(1) in \<open>simp_all add: ticked_def\<close>)
    have run: "clk_sleepers k = (if ?key - 1 \<le> 0 then wakeup (k\<lparr>queuetab := ?qt\<rparr>) else Ret (k\<lparr>queuetab := ?qt\<rparr>))"
      using isempty_rep [OF rep] firstid_rep [OF rep] Cons pid_ok_in_table [OF pk] kr by (simp add: clk_sleepers_def Let_def)
    show ?thesis
    proof (cases "?key - 1 \<le> 0")
      case False
      then have eq: "ticked (queuetab k) p = ?qt" by (simp add: ticked_def)
      have "kidle (k\<lparr>queuetab := ?qt\<rparr>) Q" using kidle_intro [OF k] k0 eq by simp
      moreover have "wake ?qt 0 (p # xs) = abs_tick (wake (queuetab k) 0 (p # xs))"
        using tw wake_prefix [of "p # xs" "ticked (queuetab k) p"] False unfolding eq by (simp add: deltas_ok_def)
      ultimately show ?thesis using run False Cons by (intro exI [of _ "k\<lparr>queuetab := ?qt\<rparr>"] exI [of _ Q]) simp
    next
      case True
      have "\<exists>k' Q'. wakeup (k\<lparr>queuetab := ?qt\<rparr>) = Ret k' \<and> kidle k' Q' \<and> sleepq k' = sleepq k \<and>
        wake (queuetab k') 0 (Q' (sleepq k)) = wake (ticked (queuetab k) p) 0 (dropWhile (\<lambda>x. qkey (ticked (queuetab k) p x) \<le> 0) (p # xs))"
        by (rule wakeup_kidle [OF k k0 Cons]) (use True kr in \<open>auto simp: ticked_def\<close>)
      then show ?thesis using run True tw wake_prefix [of "p # xs" "ticked (queuetab k) p"] Cons by (auto simp: deltas_ok_def)
    qed
  qed
qed

lemma clkhandler_kidle:
  assumes "kidle k Q"
  shows "\<exists>k' Q'. clkhandler k = Ret k' \<and> kidle k' Q' \<and> wake (queuetab k') 0 (Q' (sleepq k')) = abs_tick (wake (queuetab k) 0 (Q (sleepq k)))"
proof -
  have k1: "kidle (clk_seconds k) Q" "queuetab (clk_seconds k) = queuetab k" "sleepq (clk_seconds k) = sleepq k" using clk_seconds_kidle [OF assms] by auto
  obtain k2 Q2 where k2: "clk_sleepers (clk_seconds k) = Ret k2" "kidle k2 Q2" "sleepq k2 = sleepq k"
    "wake (queuetab k2) 0 (Q2 (sleepq k)) = abs_tick (wake (queuetab k) 0 (Q (sleepq k)))"
    using clk_sleepers_kidle [OF k1(1)] k1(2,3) by auto
  obtain k' Q' where "clk_preempt k2 = Ret k'" "kidle k' Q'" "sleepq k' = sleepq k2" "wake (queuetab k') 0 (Q' (sleepq k2)) = wake (queuetab k2) 0 (Q2 (sleepq k2))"
    using clk_preempt_kidle [OF k2(2)] by auto
  then show ?thesis using k2 by (intro exI [of _ k'] exI [of _ Q']) (simp add: clkhandler_def)
qed

section \<open>The contract of the alarm clock\<close>

text \<open>\<open>rep k ws\<close>: in \<open>k\<close> the sleepers and the ticks they still sleep are \<open>ws\<close>.\<close>

fun run_ticks :: "('k \<Rightarrow> 'k result) \<Rightarrow> nat \<Rightarrow> 'k \<Rightarrow> 'k result" where
  "run_ticks tick 0 k = Ret k"
| "run_ticks tick (Suc n) k = rbind (tick k) (run_ticks tick n)"

locale alarm_clock =
  fixes tick :: "'k \<Rightarrow> 'k result" and rep :: "'k \<Rightarrow> (int \<times> int) list \<Rightarrow> bool"
  assumes rep_sorted: "rep k ws \<Longrightarrow> sorted (map snd ws) \<and> (\<forall>w \<in> set ws. 0 \<le> snd w)"
    and tick_law: "rep k ws \<Longrightarrow> \<exists>k'. tick k = Ret k' \<and> rep k' (abs_tick ws)"
begin

text \<open>If everyone still sleeps at least one tick, after \<open>n\<close> ticks the sleepers are those with more than \<open>n\<close> to go.\<close>

lemma ticks:
  assumes "rep k ws" and "\<forall>w \<in> set ws. 0 < snd w"
  shows "\<exists>k'. run_ticks tick n k = Ret k' \<and> rep k' (map (\<lambda>(p, t). (p, t - int n)) (filter (\<lambda>(p, t). int n < t) ws))"
  using assms
proof (induction n arbitrary: k ws)
  case 0
  then have "filter (\<lambda>(p, t). 0 < t) ws = ws" by (auto intro!: filter_True)
  then show ?case using 0 by simp
next
  case (Suc n)
  obtain k1 where k1: "tick k = Ret k1" "rep k1 (abs_tick ws)" using tick_law [OF Suc.prems(1)] by auto
  have hd: "ws = [] \<or> snd (hd ws) \<noteq> 0" using Suc.prems(2) by (cases ws) force+
  have at: "abs_tick ws = map (\<lambda>(p, t). (p, t - 1)) (filter (\<lambda>(p, t). 1 < t) ws)"
    using hd by (elim disjE) (simp_all add: abs_tick_def filter_map comp_def case_prod_unfold)
  have "\<forall>w \<in> set (abs_tick ws). 0 < snd w" unfolding at by auto
  then obtain k' where k': "run_ticks tick n k1 = Ret k'" "rep k' (map (\<lambda>(p, t). (p, t - int n)) (filter (\<lambda>(p, t). int n < t) (abs_tick ws)))"
    using Suc.IH [OF k1(2)] by auto
  have "map (\<lambda>(p, t). (p, t - int n)) (filter (\<lambda>(p, t). int n < t) (abs_tick ws)) =
    map (\<lambda>(p, t). (p, t - int (Suc n))) (filter (\<lambda>(p, t). int (Suc n) < t) ws)"
    unfolding at by (simp add: filter_map comp_def case_prod_unfold algebra_simps) (intro arg_cong2 [of _ _ _ _ map] filter_cong, auto)
  then show ?case using k1(1) k' by simp
qed

end

definition sleepers :: "kernel \<Rightarrow> (int \<times> int) list \<Rightarrow> bool" where
  "sleepers k ws \<longleftrightarrow> (\<exists>Q. kidle k Q \<and> ws = wake (queuetab k) 0 (Q (sleepq k)))"

lemma wake_sorted: "\<forall>x \<in> set xs. 0 \<le> qkey (qt x) \<Longrightarrow> sorted (map snd (wake qt t xs)) \<and> (\<forall>w \<in> set (wake qt t xs). t \<le> snd w)"
  by (induction xs arbitrary: t) (force intro: order_trans)+

interpretation clk: alarm_clock clkhandler sleepers
proof
  fix k ws assume s: "sleepers k ws"
  then obtain Q where "kidle k Q" "ws = wake (queuetab k) 0 (Q (sleepq k))" by (auto simp: sleepers_def)
  then show "sorted (map snd ws) \<and> (\<forall>w \<in> set ws. 0 \<le> snd w)" using wake_sorted [of "Q (sleepq k)" "queuetab k" 0]
    by (auto simp: kidle_def kinv_def kbase_def deltas_ok_def)
  show "\<exists>k'. clkhandler k = Ret k' \<and> sleepers k' (abs_tick ws)"
    using s clkhandler_kidle unfolding sleepers_def by fastforce
qed

section \<open>Properties\<close>

lemma sleepers_state:
  assumes "sleepers k ws" and "pid_ok p"
  shows "prstate (proctab k p) \<in> {PR_SLEEP, PR_RECTIM} \<longleftrightarrow> p \<in> fst ` set ws"
proof -
  obtain Q where Q: "kidle k Q" "ws = wake (queuetab k) 0 (Q (sleepq k))" using assms(1) by (auto simp: sleepers_def)
  have "fst ` set (wake qt t xs) = set xs" for qt t xs by (induction xs arbitrary: t) auto
  then show ?thesis using sleep_list_iff [of k Q p] Q assms(2) by (simp add: kidle_def kinv_def)
qed

lemma wake_ins_set: "set (wake_ins d p ws) = insert (p, d) (set ws)"
  using arg_cong [OF takeWhile_dropWhile_id [of "\<lambda>(x, t). t \<le> d" ws], of set] unfolding wake_ins_def set_append by auto

text \<open>
  C21: a process sleeps as long as it asked to. In a consistent state in which every sleeper has at least one
  tick to go, \<open>sleepms(d)\<close> by a process other than the null process gives the processor away; after
  any number \<open>n\<close> of clock interrupts with no other call in between, the process is asleep exactly if \<open>n < d\<close>, and
  no other sleeper's wake-up time has changed: those asleep are those with more than \<open>n\<close> ticks to go.
\<close>

theorem sleepms_wakes_on_time:
  assumes "sleepers k ws" and "\<forall>w \<in> set ws. 0 < snd w" and "currpid k \<noteq> NULLPROC" and "0 < d" and "d < 2 ^ 31"
  shows "\<exists>k1. sleepms d k = Ret (OK, k1) \<and> (\<forall>n. \<exists>k2. run_ticks clkhandler n k1 = Ret k2 \<and>
    sleepers k2 (map (\<lambda>(p, t). (p, t - int n)) (filter (\<lambda>(p, t). int n < t) (wake_ins d (currpid k) ws))) \<and>
    (prstate (proctab k2 (currpid k)) \<in> {PR_SLEEP, PR_RECTIM} \<longleftrightarrow> int n < d))"
proof -
  obtain Q where Q: "kidle k Q" "ws = wake (queuetab k) 0 (Q (sleepq k))" using assms(1) by (auto simp: sleepers_def)
  have c: "pid_ok (currpid k)" "prstate (proctab k (currpid k)) = PR_CURR" using kinv_currpid [of k Q] Q by (auto simp: kidle_def)
  have out: "currpid k \<notin> fst ` set ws" using sleepers_state [OF assms(1) c(1)] c(2) by auto
  obtain k1 where k1: "sleepms d k = Ret (OK, k1)" "sleepers k1 (wake_ins d (currpid k) ws)"
    using sleepms_kidle [OF Q(1) assms(3-5)] Q(2) unfolding sleepers_def by metis
  have pos: "\<forall>w \<in> set (wake_ins d (currpid k) ws). 0 < snd w" using assms(2,4) by (auto simp: wake_ins_set)
  show ?thesis
  proof (rule exI [of _ k1], rule conjI [OF k1(1)], rule allI)
    fix n
    obtain k2 where k2: "run_ticks clkhandler n k1 = Ret k2"
      "sleepers k2 (map (\<lambda>(p, t). (p, t - int n)) (filter (\<lambda>(p, t). int n < t) (wake_ins d (currpid k) ws)))"
      using clk.ticks [OF k1(2) pos, of n] by auto
    have "currpid k \<in> fst ` set (map (\<lambda>(p, t). (p, t - int n)) (filter (\<lambda>(p, t). int n < t) (wake_ins d (currpid k) ws))) \<longleftrightarrow> int n < d"
      using out by (auto simp: wake_ins_set image_iff)
    then show "\<exists>k2. run_ticks clkhandler n k1 = Ret k2 \<and>
        sleepers k2 (map (\<lambda>(p, t). (p, t - int n)) (filter (\<lambda>(p, t). int n < t) (wake_ins d (currpid k) ws))) \<and>
        (prstate (proctab k2 (currpid k)) \<in> {PR_SLEEP, PR_RECTIM} \<longleftrightarrow> int n < d)"
      using k2 sleepers_state [OF k2(2) c(1)] by blast
  qed
qed

lemma sleepers1: "sleepers kernel1 []"
  using kidle1 by (auto simp: sleepers_def kernel1_def queues1_def intro!: exI [of _ queues1])

theorem sleepms_wakes_on_time_witness:
  "\<exists>k1 k2 k3. sleepms 5 kernel1 = Ret (OK, k1) \<and> run_ticks clkhandler 4 k1 = Ret k2 \<and> prstate (proctab k2 1) \<in> {PR_SLEEP, PR_RECTIM} \<and>
    run_ticks clkhandler 5 k1 = Ret k3 \<and> prstate (proctab k3 1) \<notin> {PR_SLEEP, PR_RECTIM}"
proof -
  have cp: "currpid kernel1 = 1" by (simp add: kernel1_def)
  obtain k1 where k1: "sleepms 5 kernel1 = Ret (OK, k1)"
    "\<forall>n. \<exists>k2. run_ticks clkhandler n k1 = Ret k2 \<and> (prstate (proctab k2 1) \<in> {PR_SLEEP, PR_RECTIM} \<longleftrightarrow> int n < 5)"
    using sleepms_wakes_on_time [OF sleepers1, of 5] unfolding cp by (fastforce simp: NULLPROC_def)
  show ?thesis using k1(1) spec [OF k1(2), of 4] spec [OF k1(2), of 5] by fastforce
qed

text \<open>
  every clock interrupt advances every sleeper by one tick and wakes those whose time is up, and returns in
  a consistent state. The exception is a first sleeper with no time left, which only \<open>recvtime(0)\<close> leaves
  behind: the decrement is then lost on it, it is woken, and every other sleeper keeps its remaining time, so all of
  them wake one tick late.
\<close>

theorem clkhandler_tick:
  assumes "sleepers k ws"
  shows "\<exists>k'. clkhandler k = Ret k' \<and> sleepers k' (filter (\<lambda>(_, t). 0 < t) (map (\<lambda>(p, t). (p, if snd (hd ws) = 0 then t else t - 1)) ws))"
  using clk.tick_law [OF assms] by (simp add: abs_tick_def)

theorem clkhandler_tick_witness: "\<exists>k'. clkhandler kernel1 = Ret k' \<and> sleepers k' []"
  using clkhandler_tick [OF sleepers1] by simp

end
