(* ===== verification/Messages.thy ===== *)
theory Messages
  imports Clock
begin

text \<open>
  One-word messages between processes: \<open>system/send.c\<close>, \<open>system/receive.c\<close>,
  \<open>system/recvclr.c\<close> and \<open>system/recvtime.c\<close>.

  A receiver that blocks picks its message up when it runs again: \<open>receive\<close> and \<open>recvtime\<close>
  return no value yet when the caller has lost the processor, and \<open>receive_rest\<close> and
  \<open>recvtime_rest\<close> are the statements after their call of \<open>resched\<close>.
\<close>

section \<open>Operations\<close>

definition send :: "int \<Rightarrow> u32 \<Rightarrow> kernel \<Rightarrow> (int \<times> kernel) result" where
  "send pid msg k =
    (if isbadpid (proctab k) pid then Ret (SYSERR, k)
     else if prhasmsg (proctab k pid) then Ret (SYSERR, k)
     else
       rbind (set_proc pid (\<lambda>e. e\<lparr>prmsg := msg, prhasmsg := True\<rparr>) k) (\<lambda>k.
       if prstate (proctab k pid) = PR_RECV then
         rbind (ready pid k) (\<lambda>(_, k). Ret (OK, k))
       else if prstate (proctab k pid) = PR_RECTIM then
         rbind (unsleep pid k) (\<lambda>(_, k).
         rbind (ready pid k) (\<lambda>(_, k). Ret (OK, k)))
       else Ret (OK, k)))"

definition receive_rest :: "int \<Rightarrow> kernel \<Rightarrow> (u32 \<times> kernel) result" where
  "receive_rest p k =
    rbind (pread (proctab k) p) (\<lambda>e.
    let msg = prmsg e in
    rbind (set_proc p (\<lambda>e. e\<lparr>prhasmsg := False\<rparr>) k) (\<lambda>k.
    Ret (msg, k)))"

text \<open>The value when the caller still runs after its call of \<open>resched\<close>, none when another process runs.\<close>

definition when_running :: "int \<Rightarrow> (kernel \<Rightarrow> (u32 \<times> kernel) result) \<Rightarrow> kernel \<Rightarrow> (u32 option \<times> kernel) result" where
  "when_running p rest k =
    (if currpid k = p then rbind (rest k) (\<lambda>(m, k). Ret (Some m, k)) else Ret (None, k))"

definition receive :: "kernel \<Rightarrow> (u32 option \<times> kernel) result" where
  "receive k =
    (let p = currpid k in
     rbind (pread (proctab k) p) (\<lambda>e.
     if \<not> prhasmsg e then
       rbind (set_proc p (\<lambda>e. e\<lparr>prstate := PR_RECV\<rparr>) k) (\<lambda>k.
       rbind (resched k) (\<lambda>k.
       when_running p (receive_rest p) k))
     else when_running p (receive_rest p) k))"

definition recvclr :: "kernel \<Rightarrow> (u32 \<times> kernel) result" where
  "recvclr k =
    (let p = currpid k in
     rbind (pread (proctab k) p) (\<lambda>e.
     if prhasmsg e then
       let msg = prmsg e in
       rbind (set_proc p (\<lambda>e. e\<lparr>prhasmsg := False\<rparr>) k) (\<lambda>k.
       Ret (msg, k))
     else Ret (word_of_int OK, k)))"

definition recvtime_rest :: "int \<Rightarrow> kernel \<Rightarrow> (u32 \<times> kernel) result" where
  "recvtime_rest p k =
    rbind (pread (proctab k) p) (\<lambda>e.
    if prhasmsg e then
      let msg = prmsg e in
      rbind (set_proc p (\<lambda>e. e\<lparr>prhasmsg := False\<rparr>) k) (\<lambda>k.
      Ret (msg, k))
    else Ret (word_of_int TIMEOUT, k))"

definition recvtime :: "int \<Rightarrow> kernel \<Rightarrow> (u32 option \<times> kernel) result" where
  "recvtime maxwait k =
    (if maxwait < 0 then Ret (Some USYSERR, k)
     else
       let p = currpid k in
       rbind (pread (proctab k) p) (\<lambda>e.
       if \<not> prhasmsg e then
         rbind (insertd (proctab k) p (sleepq k) maxwait (queuetab k)) (\<lambda>(r, qt).
         let k = k\<lparr>queuetab := qt\<rparr> in
         if r = SYSERR then Ret (Some USYSERR, k)
         else
           rbind (set_proc p (\<lambda>e. e\<lparr>prstate := PR_RECTIM\<rparr>) k) (\<lambda>k.
           rbind (resched k) (\<lambda>k.
           when_running p (recvtime_rest p) k)))
       else when_running p (recvtime_rest p) k))"

section \<open>Message fields\<close>

text \<open>The message in a process entry does not matter to the scheduler.\<close>

lemma kinv_msg:
  assumes k: "kinv k Q" and p: "pid_ok p" and e: "prstate e = prstate (proctab k p)" "prprio e = prprio (proctab k p)" "prsem e = prsem (proctab k p)"
  shows "kinv (k\<lparr>proctab := (proctab k)(p := e)\<rparr>) Q"
proof -
  have b: "kbase k Q" using k by (simp add: kinv_def)
  have h: "home k e = home k (proctab k p)" using e by (simp add: home_def cong: pstate.case_cong)
  have "kbase (k\<lparr>proctab := (proctab k)(p := e)\<rparr>) Q"
    by (rule kbase_move [OF b p, where e = e]) (use b p e h in \<open>auto simp: same_queues_def kbase_def placed_def procs_ok_def\<close>)
  then show ?thesis using k e(1) by (auto simp: kinv_def)
qed

lemma kidle_msg:
  assumes k: "kidle k Q" and p: "pid_ok p" and e: "prstate e = prstate (proctab k p)" "prprio e = prprio (proctab k p)" "prsem e = prsem (proctab k p)"
  shows "kidle (k\<lparr>proctab := (proctab k)(p := e)\<rparr>) Q"
  by (rule kidle_intro [OF k]) (use kinv_msg [OF _ p e] k in \<open>simp_all add: kidle_def\<close>)

lemma sched_frame_msg:
  assumes "sched_frame k k'"
  shows "prmsg (proctab k' p) = prmsg (proctab k p)" "prhasmsg (proctab k' p) = prhasmsg (proctab k p)"
proof -
  have p: "proctab k' p = (proctab k p)\<lparr>prstate := prstate (proctab k' p)\<rparr>" using assms unfolding sched_frame_def by blast
  show "prmsg (proctab k' p) = prmsg (proctab k p)" "prhasmsg (proctab k' p) = prhasmsg (proctab k p)" by (subst p, simp)+
qed

section \<open>Sending\<close>

text \<open>Making a receiver ready that waits with or without a time limit.\<close>

lemma ready_receiver:
  assumes k: "kidle k Q" and p: "pid_ok p" "prstate (proctab k p) = PR_RECV"
  obtains k' Q' where "ready p k = Ret (OK, k')" "kidle k' Q'" "prmsg (proctab k' p) = prmsg (proctab k p)" "prhasmsg (proctab k' p) = prhasmsg (proctab k p)"
    "prstate (proctab k' p) \<in> {PR_READY, PR_CURR}"
proof -
  have kk: "kinv k Q" using k by (simp add: kidle_def)
  have h: "home k (proctab k p) = None" "p \<noteq> currpid k" using p kinv_currpid [OF kk] by (auto simp: home_def)
  obtain k1 k' Q' where r: "ready p k = Ret (OK, k')" "kinv k' Q'" "sched_frame k1 k'" "\<And>q. q \<noteq> readylist k \<Longrightarrow> Q' q = Q q"
    "k1 = k\<lparr>proctab := (proctab k)(p := (proctab k p)\<lparr>prstate := PR_READY\<rparr>), queuetab := queuetab k1\<rparr>"
    by (rule ready_ok [OF kk _ h]) (use p in \<open>simp add: isbadpid_pid_ok\<close>, rule that)
  have k1: "ndefers k1 = ndefers k" "semtab k1 = semtab k" "proctab k1 p = (proctab k p)\<lparr>prstate := PR_READY\<rparr>" by (subst r(5), simp)+
  have "kidle k' Q'" by (rule kidle_intro [OF k r(2)]) (use r(4) k1 sched_frame_fields(3,4) [OF r(3)] in simp_all)
  moreover have "prstate (proctab k' p) \<in> {PR_READY, PR_CURR}" using r(3) k1(3) unfolding sched_frame_def by auto
  ultimately show thesis using that [OF r(1)] sched_frame_msg [OF r(3)] k1(3) by simp
qed

lemma ready_timed_receiver:
  assumes k: "kidle k Q" and p: "pid_ok p" "prstate (proctab k p) = PR_RECTIM"
  obtains k1 k' Q' where "unsleep p k = Ret (OK, k1)" "ready p k1 = Ret (OK, k')" "kidle k' Q'" "prmsg (proctab k' p) = prmsg (proctab k p)" "prhasmsg (proctab k' p) = prhasmsg (proctab k p)"
    "prstate (proctab k' p) \<in> {PR_READY, PR_CURR}"
proof -
  have kk: "kinv k Q" "kbase k Q" using k by (simp_all add: kidle_def kinv_def)
  obtain xs ys where Q: "Q (sleepq k) = xs @ p # ys" using sleep_list_iff [OF kk(2) p(1)] p(2) by (auto simp: in_set_conv_decomp)
  obtain qt where u: "unsleep p k = Ret (OK, k\<lparr>queuetab := qt\<rparr>)" "kinv (limbo p (k\<lparr>queuetab := qt\<rparr>)) (Q(sleepq k := xs @ ys))"
    by (rule unsleep_ok [OF kk(1) Q]) (rule that)
  have nc: "p \<noteq> currpid (k\<lparr>queuetab := qt\<rparr>)" using p kinv_currpid [OF kk(1)] by auto
  obtain k1 k' Q' where r: "ready p (k\<lparr>queuetab := qt\<rparr>) = Ret (OK, k')" "kinv k' Q'" "sched_frame k1 k'"
    "\<And>q. q \<noteq> readylist (k\<lparr>queuetab := qt\<rparr>) \<Longrightarrow> Q' q = (Q(sleepq k := xs @ ys)) q"
    "k1 = (k\<lparr>queuetab := qt\<rparr>)\<lparr>proctab := (proctab (k\<lparr>queuetab := qt\<rparr>))(p := (proctab (k\<lparr>queuetab := qt\<rparr>) p)\<lparr>prstate := PR_READY\<rparr>), queuetab := queuetab k1\<rparr>"
    by (rule ready_limbo_ok [OF u(2) _ nc]) (use p in \<open>simp add: isbadpid_pid_ok\<close>, rule that)
  have k1: "ndefers k1 = ndefers k" "semtab k1 = semtab k" "proctab k1 p = (proctab k p)\<lparr>prstate := PR_READY\<rparr>" by (subst r(5), simp)+
  have "kidle k' Q'" by (rule kidle_intro [OF k r(2)]) (use r(4) k1 sched_frame_fields(3,4) [OF r(3)] in simp_all)
  moreover have "prstate (proctab k' p) \<in> {PR_READY, PR_CURR}" using r(3) k1(3) unfolding sched_frame_def by auto
  ultimately show thesis using that [OF u(1) r(1)] sched_frame_msg [OF r(3)] k1(3) by simp
qed

lemma send_kidle:
  assumes k: "kidle k Q"
  shows "\<exists>k' Q'. send p msg k = Ret (if isbadpid (proctab k) p \<or> prhasmsg (proctab k p) then SYSERR else OK, k') \<and> kidle k' Q' \<and>
    (if isbadpid (proctab k) p \<or> prhasmsg (proctab k p) then k' = k
     else prmsg (proctab k' p) = msg \<and> prhasmsg (proctab k' p) \<and>
       (prstate (proctab k p) \<in> {PR_RECV, PR_RECTIM} \<longrightarrow> prstate (proctab k' p) \<in> {PR_READY, PR_CURR}))"
proof (cases "isbadpid (proctab k) p \<or> prhasmsg (proctab k p)")
  case True
  then show ?thesis using k by (auto simp: send_def)
next
  case False
  let ?k = "k\<lparr>proctab := (proctab k)(p := (proctab k p)\<lparr>prmsg := msg, prhasmsg := True\<rparr>)\<rparr>"
  have p: "pid_ok p" using False by (simp add: isbadpid_pid_ok)
  have k1: "kidle ?k Q" by (rule kidle_msg [OF k p]) simp_all
  consider (recv) "prstate (proctab ?k p) = PR_RECV" | (rectim) "prstate (proctab ?k p) = PR_RECTIM"
    | (other) "prstate (proctab k p) \<notin> {PR_RECV, PR_RECTIM}" by auto
  then show ?thesis
  proof cases
    case recv
    show ?thesis by (rule ready_receiver [OF k1 p recv]) (use False p recv in \<open>auto simp: send_def\<close>)
  next
    case rectim
    show ?thesis by (rule ready_timed_receiver [OF k1 p rectim]) (use False p rectim in \<open>auto simp: send_def\<close>)
  next
    case other
    then show ?thesis using False p k1 by (intro exI [of _ ?k] exI [of _ Q]) (auto simp: send_def)
  qed
qed

section \<open>Receiving\<close>

lemma take_message_kidle: "kidle k Q \<Longrightarrow> pid_ok p \<Longrightarrow> kidle (k\<lparr>proctab := (proctab k)(p := (proctab k p)\<lparr>prhasmsg := False\<rparr>)\<rparr>) Q"
  by (rule kidle_msg) simp_all

lemma receive_rest_ok: "pid_ok p \<Longrightarrow> receive_rest p k = Ret (prmsg (proctab k p), k\<lparr>proctab := (proctab k)(p := (proctab k p)\<lparr>prhasmsg := False\<rparr>)\<rparr>)"
  by (simp add: receive_rest_def)

lemma recvtime_rest_ok: "pid_ok p \<Longrightarrow> prhasmsg (proctab k p) \<Longrightarrow> recvtime_rest p k = receive_rest p k"
  by (simp add: recvtime_rest_def receive_rest_def)

lemma receive_kidle:
  assumes k: "kidle k Q" and c: "prhasmsg (proctab k (currpid k)) \<or> currpid k \<noteq> NULLPROC"
  shows "\<exists>m k' Q'. receive k = Ret (m, k') \<and> kidle k' Q' \<and>
    (if prhasmsg (proctab k (currpid k)) then m = Some (prmsg (proctab k (currpid k))) \<and> \<not> prhasmsg (proctab k' (currpid k)) \<and> currpid k' = currpid k
     else m = None \<and> prstate (proctab k' (currpid k)) = PR_RECV \<and> currpid k' \<noteq> currpid k)"
proof -
  have kk: "kinv k Q" "ndefers k = 0" and cp: "pid_ok (currpid k)" using k kinv_currpid [of k Q] by (auto simp: kidle_def)
  show ?thesis
  proof (cases "prhasmsg (proctab k (currpid k))")
    case True
    then show ?thesis using cp take_message_kidle [OF k cp]
      by (intro exI [of _ "Some (prmsg (proctab k (currpid k)))"] exI [of _ "k\<lparr>proctab := (proctab k)(currpid k := (proctab k (currpid k))\<lparr>prhasmsg := False\<rparr>)\<rparr>"] exI [of _ Q])
        (simp add: receive_def when_running_def receive_rest_ok Let_def)
  next
    case False
    let ?e = "(proctab k (currpid k))\<lparr>prstate := PR_RECV\<rparr>"
    have off: "koff (k\<lparr>proctab := (proctab k)(currpid k := ?e)\<rparr>) Q" by (rule koff_suspend [OF kk(1)]) (use c False in \<open>auto simp: home_def\<close>)
    obtain k' x xs where r: "resched (k\<lparr>proctab := (proctab k)(currpid k := ?e)\<rparr>) = Ret k'" "kinv k' (Q(readylist k := xs))"
      "sched_frame (k\<lparr>proctab := (proctab k)(currpid k := ?e)\<rparr>) k'"
      by (rule resched_koff [OF off]) (use kk in \<open>auto intro: that\<close>)
    have idle: "kidle k' (Q(readylist k := xs))" using kidle_intro [OF k r(2)] sched_frame_fields(3,4) [OF r(3)] by simp
    have st: "prstate (proctab k' (currpid k)) = PR_RECV" using r(3) by (auto simp: sched_frame_def)
    then have "currpid k' \<noteq> currpid k" using kinv_currpid [OF r(2)] by auto
    then show ?thesis using False cp r(1) idle st
      by (intro exI [of _ None] exI [of _ k'] exI [of _ "Q(readylist k := xs)"]) (simp add: receive_def when_running_def Let_def)
  qed
qed

lemma recvclr_kidle:
  assumes k: "kidle k Q"
  shows "\<exists>k'. recvclr k = Ret (if prhasmsg (proctab k (currpid k)) then prmsg (proctab k (currpid k)) else 1, k') \<and> kidle k' Q \<and>
    \<not> prhasmsg (proctab k' (currpid k)) \<and> currpid k' = currpid k"
proof -
  have cp: "pid_ok (currpid k)" using k kinv_currpid [of k Q] by (auto simp: kidle_def)
  show ?thesis using cp k take_message_kidle [OF k cp] by (auto simp: recvclr_def OK_def Let_def)
qed

lemma recvtime_kidle:
  assumes k: "kidle k Q" and c: "prhasmsg (proctab k (currpid k)) \<or> currpid k \<noteq> NULLPROC" and w: "0 \<le> maxwait" "maxwait < 2 ^ 31"
  shows "\<exists>m k' Q'. recvtime maxwait k = Ret (m, k') \<and> kidle k' Q' \<and>
    (if prhasmsg (proctab k (currpid k)) then m = Some (prmsg (proctab k (currpid k))) \<and> \<not> prhasmsg (proctab k' (currpid k)) \<and> currpid k' = currpid k
     else m = None \<and> prstate (proctab k' (currpid k)) = PR_RECTIM \<and> currpid k' \<noteq> currpid k \<and>
       wake (queuetab k') 0 (Q' (sleepq k')) = wake_ins maxwait (currpid k) (wake (queuetab k) 0 (Q (sleepq k))))"
proof -
  have cp: "pid_ok (currpid k)" using k kinv_currpid [of k Q] by (auto simp: kidle_def)
  show ?thesis
  proof (cases "prhasmsg (proctab k (currpid k))")
    case True
    then show ?thesis using cp w take_message_kidle [OF k cp]
      by (intro exI [of _ "Some (prmsg (proctab k (currpid k)))"] exI [of _ "k\<lparr>proctab := (proctab k)(currpid k := (proctab k (currpid k))\<lparr>prhasmsg := False\<rparr>)\<rparr>"] exI [of _ Q])
        (simp add: recvtime_def when_running_def recvtime_rest_ok receive_rest_ok Let_def)
  next
    case False
    let ?pt = "(proctab k)(currpid k := (proctab k (currpid k))\<lparr>prstate := PR_RECTIM\<rparr>)"
    have c': "currpid k \<noteq> NULLPROC" using c False by simp
    obtain qt k' Q' where b: "insertd (proctab k) (currpid k) (sleepq k) maxwait (queuetab k) = Ret (OK, qt)"
      "resched (k\<lparr>queuetab := qt, proctab := ?pt\<rparr>) = Ret k'" "kidle k' Q'"
      "wake (queuetab k') 0 (Q' (sleepq k')) = wake_ins maxwait (currpid k) (wake (queuetab k) 0 (Q (sleepq k)))"
      "sched_frame (k\<lparr>proctab := ?pt, queuetab := qt\<rparr>) k'" "currpid k' \<noteq> currpid k"
      by (rule sleep_block [OF k c' w, of PR_RECTIM]) (simp, rule that)
    have "prstate (proctab k' (currpid k)) = PR_RECTIM" using b(5) by (auto simp: sched_frame_def)
    moreover have "recvtime maxwait k = Ret (None, k')"
      using False w cp b(1,2,6) by (simp add: recvtime_def Let_def when_running_def OK_def SYSERR_def)
    ultimately show ?thesis using False b by auto
  qed
qed

section \<open>Properties\<close>

text \<open>
  C22: a message reaches its receiver. When \<open>send\<close> returns \<open>OK\<close>, the receiver's buffer holds the
  message, a receiver that was blocked in \<open>receive\<close> or \<open>recvtime\<close> is ready or running, a further \<open>send\<close> is
  refused and changes nothing, and what the receiver does after it is resumed returns that message and
  empties the buffer. \<open>send\<close> returns \<open>SYSERR\<close>, with no change, exactly for an invalid process or a full buffer.
\<close>

theorem send_receive_roundtrip:
  assumes "kidle k Q"
  shows "\<exists>r k'. send p msg k = Ret (r, k') \<and> (\<exists>Q'. kidle k' Q') \<and>
    (r = OK \<longleftrightarrow> \<not> isbadpid (proctab k) p \<and> \<not> prhasmsg (proctab k p)) \<and> (r \<noteq> OK \<longrightarrow> r = SYSERR \<and> k' = k) \<and>
    (r = OK \<longrightarrow> (prstate (proctab k p) \<in> {PR_RECV, PR_RECTIM} \<longrightarrow> prstate (proctab k' p) \<in> {PR_READY, PR_CURR}) \<and>
      send p msg' k' = Ret (SYSERR, k') \<and>
      (\<exists>k''. receive_rest p k' = Ret (msg, k'') \<and> recvtime_rest p k' = Ret (msg, k'') \<and> \<not> prhasmsg (proctab k'' p)))"
proof (cases "isbadpid (proctab k) p \<or> prhasmsg (proctab k p)")
  case True
  then show ?thesis using assms by (auto simp: send_def OK_def SYSERR_def)
next
  case False
  then obtain k' Q' where s: "send p msg k = Ret (OK, k')" "kidle k' Q'" "prmsg (proctab k' p) = msg" "prhasmsg (proctab k' p)"
    "prstate (proctab k p) \<in> {PR_RECV, PR_RECTIM} \<longrightarrow> prstate (proctab k' p) \<in> {PR_READY, PR_CURR}"
    using send_kidle [OF assms, of p msg] by auto
  have "pid_ok p" using False by (simp add: isbadpid_pid_ok)
  then show ?thesis
    using s False by (intro exI [of _ OK] exI [of _ k']) (auto simp: send_def [of p msg'] receive_rest_ok recvtime_rest_ok)
qed

theorem send_receive_roundtrip_witness:
  "\<exists>k' k''. send 1 42 kernel1 = Ret (OK, k') \<and> send 1 43 k' = Ret (SYSERR, k') \<and> receive_rest 1 k' = Ret (42, k'')"
proof -
  have "\<not> isbadpid (proctab kernel1) 1" "\<not> prhasmsg (proctab kernel1 1)" by (simp_all add: kernel1_def proc0_def isbadpid_def layout_defs)
  then show ?thesis using send_receive_roundtrip [OF kidle1, of 1 42 43] by auto
qed

text \<open>
  Receivers take a waiting message at once and otherwise give the processor away. \<open>receive\<close> and
  \<open>recvtime\<close> (by a process other than the null process) return the message when there is one; otherwise
  they return nothing yet, the caller is in state \<open>PR_RECV\<close> or \<open>PR_RECTIM\<close> and another process runs; \<open>recvtime\<close>
  also schedules the caller's wake-up after \<open>maxwait\<close> ticks. \<open>recvclr\<close> never blocks. All of them keep the kernel consistent.
\<close>

theorem receive_calls_consistent:
  assumes "kidle k Q" and "currpid k \<noteq> NULLPROC" and "0 \<le> maxwait" and "maxwait < 2 ^ 31"
  shows "(\<exists>m k' Q'. receive k = Ret (m, k') \<and> kidle k' Q' \<and>
      (if prhasmsg (proctab k (currpid k)) then m = Some (prmsg (proctab k (currpid k))) \<and> currpid k' = currpid k
       else m = None \<and> prstate (proctab k' (currpid k)) = PR_RECV \<and> currpid k' \<noteq> currpid k)) \<and>
    (\<exists>m k' Q'. recvtime maxwait k = Ret (m, k') \<and> kidle k' Q' \<and>
      (if prhasmsg (proctab k (currpid k)) then m = Some (prmsg (proctab k (currpid k))) \<and> currpid k' = currpid k
       else m = None \<and> prstate (proctab k' (currpid k)) = PR_RECTIM \<and> currpid k' \<noteq> currpid k \<and>
         wake (queuetab k') 0 (Q' (sleepq k')) = wake_ins maxwait (currpid k) (wake (queuetab k) 0 (Q (sleepq k))))) \<and>
    (\<exists>m k'. recvclr k = Ret (m, k') \<and> kidle k' Q \<and> \<not> prhasmsg (proctab k' (currpid k)))"
proof (intro conjI)
  show "\<exists>m k' Q'. receive k = Ret (m, k') \<and> kidle k' Q' \<and>
      (if prhasmsg (proctab k (currpid k)) then m = Some (prmsg (proctab k (currpid k))) \<and> currpid k' = currpid k
       else m = None \<and> prstate (proctab k' (currpid k)) = PR_RECV \<and> currpid k' \<noteq> currpid k)"
    using receive_kidle [OF assms(1)] assms(2) by (metis (full_types))
  show "\<exists>m k' Q'. recvtime maxwait k = Ret (m, k') \<and> kidle k' Q' \<and>
      (if prhasmsg (proctab k (currpid k)) then m = Some (prmsg (proctab k (currpid k))) \<and> currpid k' = currpid k
       else m = None \<and> prstate (proctab k' (currpid k)) = PR_RECTIM \<and> currpid k' \<noteq> currpid k \<and>
         wake (queuetab k') 0 (Q' (sleepq k')) = wake_ins maxwait (currpid k) (wake (queuetab k) 0 (Q (sleepq k))))"
    using recvtime_kidle [OF assms(1) _ assms(3,4)] assms(2) by (metis (full_types))
  show "\<exists>m k'. recvclr k = Ret (m, k') \<and> kidle k' Q \<and> \<not> prhasmsg (proctab k' (currpid k))"
    using recvclr_kidle [OF assms(1)] by blast
qed

theorem receive_calls_consistent_witness:
  "\<exists>k' Q'. recvtime 10 kernel1 = Ret (None, k') \<and> kidle k' Q' \<and> prstate (proctab k' 1) = PR_RECTIM \<and> wake (queuetab k') 0 (Q' (sleepq k')) = [(1, 10)]"
proof -
  have k: "currpid kernel1 = 1" "\<not> prhasmsg (proctab kernel1 1)" "wake (queuetab kernel1) 0 (queues1 (sleepq kernel1)) = []"
    by (simp_all add: kernel1_def proc0_def queues1_def)
  have "\<exists>m k' Q'. recvtime 10 kernel1 = Ret (m, k') \<and> kidle k' Q' \<and>
      (if prhasmsg (proctab kernel1 (currpid kernel1)) then m = Some (prmsg (proctab kernel1 (currpid kernel1))) \<and> currpid k' = currpid kernel1
       else m = None \<and> prstate (proctab k' (currpid kernel1)) = PR_RECTIM \<and> currpid k' \<noteq> currpid kernel1 \<and>
         wake (queuetab k') 0 (Q' (sleepq k')) = wake_ins 10 (currpid kernel1) (wake (queuetab kernel1) 0 (queues1 (sleepq kernel1))))"
    by (rule receive_calls_consistent [OF kidle1, THEN conjunct2, THEN conjunct1]) (simp_all add: k NULLPROC_def)
  then show ?thesis unfolding k using k(2) by (auto simp: wake_ins_def)
qed

end
