(* ===== verification/Lib.thy ===== *)
theory Lib
  imports Prelude "HOL-Library.Sublist"
begin

text \<open>
  The C library routines of \<open>lib/\<close> on byte memory: copying and comparing blocks, the string routines, the conversion of
  decimal numbers and the random number generator.

  Memory is a function from 32-bit addresses to bytes; a \<open>char\<close> is signed, as on the target. Loops over a string stop
  at its terminating null byte only, so they are partial functions: \<open>None\<close> is a loop that does not end.
\<close>

section \<open>Blocks of memory\<close>

type_synonym bmem = "addr \<Rightarrow> u8"

text \<open>A byte read as a signed \<open>char\<close>.\<close>

definition schar :: "u8 \<Rightarrow> int" where
  "schar b = sint b"

fun memcpy_loop :: "nat \<Rightarrow> addr \<Rightarrow> addr \<Rightarrow> bmem \<Rightarrow> bmem" where
  "memcpy_loop 0 dst src m = m"
| "memcpy_loop (Suc n) dst src m = memcpy_loop n (dst + 1) (src + 1) (m(dst := m src))"

definition memcpy :: "addr \<Rightarrow> addr \<Rightarrow> int \<Rightarrow> bmem \<Rightarrow> addr \<times> bmem" where
  "memcpy s ct n m = (s, memcpy_loop (nat n) s ct m)"

fun memset_loop :: "nat \<Rightarrow> addr \<Rightarrow> u8 \<Rightarrow> bmem \<Rightarrow> bmem" where
  "memset_loop 0 cp c m = m"
| "memset_loop (Suc n) cp c m = memset_loop n (cp + 1) c (m(cp := c))"

definition memset :: "addr \<Rightarrow> int \<Rightarrow> int \<Rightarrow> bmem \<Rightarrow> addr \<times> bmem" where
  "memset s c n m = (s, memset_loop (nat n) s (word_of_int c) m)"

definition bzero :: "addr \<Rightarrow> int \<Rightarrow> bmem \<Rightarrow> bmem" where
  "bzero p len m = (if len \<le> 0 then m else memset_loop (nat len) p 0 m)"

fun memcmp_loop :: "nat \<Rightarrow> addr \<Rightarrow> addr \<Rightarrow> bmem \<Rightarrow> int" where
  "memcmp_loop 0 c1 c2 m = 0"
| "memcmp_loop (Suc n) c1 c2 m = (if m c1 \<noteq> m c2 then uint (m c1) - uint (m c2) else memcmp_loop n (c1 + 1) (c2 + 1) m)"

definition memcmp :: "addr \<Rightarrow> addr \<Rightarrow> int \<Rightarrow> bmem \<Rightarrow> int" where
  "memcmp s1 s2 n m = memcmp_loop (nat n) s1 s2 m"

section \<open>Strings\<close>

partial_function (option) strlen_loop :: "bmem \<Rightarrow> addr \<Rightarrow> int \<Rightarrow> int option" where
  "strlen_loop m str len = (if m str \<noteq> 0 then strlen_loop m (str + 1) (wrap32 (len + 1)) else Some len)"

definition strlen :: "addr \<Rightarrow> bmem \<Rightarrow> int option" where
  "strlen str m = strlen_loop m str 0"

fun strnlen_loop :: "nat \<Rightarrow> addr \<Rightarrow> nat \<Rightarrow> bmem \<Rightarrow> nat" where
  "strnlen_loop 0 s n m = n"
| "strnlen_loop (Suc k) s n m = (if m s \<noteq> 0 then strnlen_loop k (s + 1) (n + 1) m else n)"

definition strnlen :: "addr \<Rightarrow> u32 \<Rightarrow> bmem \<Rightarrow> int" where
  "strnlen s len m = wrap32 (int (strnlen_loop (unat len) s 0 m))"

partial_function (option) strcpy :: "addr \<Rightarrow> addr \<Rightarrow> bmem \<Rightarrow> bmem option" where
  "strcpy tar src m =
    (let m = m(tar := m src) in
     if m tar \<noteq> 0 then strcpy (tar + 1) (src + 1) m else Some m)"

fun strncpy_loop :: "nat \<Rightarrow> addr \<Rightarrow> addr \<Rightarrow> bmem \<Rightarrow> bmem" where
  "strncpy_loop 0 s1 s2 m = m"
| "strncpy_loop (Suc n) s1 s2 m =
    (let m = m(s1 := m s2) in
     if m s1 = 0 then memset_loop n (s1 + 1) 0 m else strncpy_loop n (s1 + 1) (s2 + 1) m)"

definition strncpy :: "addr \<Rightarrow> addr \<Rightarrow> int \<Rightarrow> bmem \<Rightarrow> addr \<times> bmem" where
  "strncpy s1 s2 n m = (s1, strncpy_loop (nat n) s1 s2 m)"

partial_function (option) str_end :: "bmem \<Rightarrow> addr \<Rightarrow> addr option" where
  "str_end m s = (if m s \<noteq> 0 then str_end m (s + 1) else Some s)"

partial_function (option) strncat_loop :: "int \<Rightarrow> addr \<Rightarrow> addr \<Rightarrow> bmem \<Rightarrow> bmem option" where
  "strncat_loop n s1 s2 m =
    (let m = m(s1 := m s2) in
     if m s1 \<noteq> 0 then
       if n - 1 < 0 then Some (m(s1 := 0)) else strncat_loop (n - 1) (s1 + 1) (s2 + 1) m
     else Some m)"

definition strncat :: "addr \<Rightarrow> addr \<Rightarrow> int \<Rightarrow> bmem \<Rightarrow> (addr \<times> bmem) option" where
  "strncat s1 s2 n m =
    (case str_end m s1 of
       None \<Rightarrow> None
     | Some e \<Rightarrow> (case strncat_loop n e s2 m of None \<Rightarrow> None | Some m \<Rightarrow> Some (s1, m)))"

partial_function (option) strcmp :: "bmem \<Rightarrow> addr \<Rightarrow> addr \<Rightarrow> int option" where
  "strcmp m str1 str2 =
    (if m str1 = m str2 then
       if m str1 = 0 then Some 0 else strcmp m (str1 + 1) (str2 + 1)
     else if schar (m str1) < schar (m str2) then Some (- 1) else Some 1)"

fun strncmp_loop :: "nat \<Rightarrow> bmem \<Rightarrow> addr \<Rightarrow> addr \<Rightarrow> int" where
  "strncmp_loop 0 m s1 s2 = 0"
| "strncmp_loop (Suc n) m s1 s2 =
    (if m s1 = m s2 then
       if m s1 = 0 then 0 else strncmp_loop n m (s1 + 1) (s2 + 1)
     else schar (m s1) - schar (m s2))"

definition strncmp :: "addr \<Rightarrow> addr \<Rightarrow> int \<Rightarrow> bmem \<Rightarrow> int" where
  "strncmp s1 s2 n m = strncmp_loop (nat n) m s1 s2"

partial_function (option) strchr :: "bmem \<Rightarrow> addr \<Rightarrow> u8 \<Rightarrow> addr option" where
  "strchr m s c =
    (if m s \<noteq> 0 then
       if m s = c then Some s else strchr m (s + 1) c
     else if c = m s then Some s else Some NULL)"

partial_function (option) strrchr_loop :: "bmem \<Rightarrow> addr \<Rightarrow> u8 \<Rightarrow> addr \<Rightarrow> addr option" where
  "strrchr_loop m s c r =
    (if m s \<noteq> 0 then strrchr_loop m (s + 1) c (if m s = c then s else r)
     else if c = m s then Some s else Some r)"

definition strrchr :: "bmem \<Rightarrow> addr \<Rightarrow> u8 \<Rightarrow> addr option" where
  "strrchr m s c = strrchr_loop m s c NULL"

text \<open>The inner loop of \<open>strstr\<close> returns where \<open>cr\<close> stopped.\<close>

partial_function (option) strstr_match :: "bmem \<Rightarrow> addr \<Rightarrow> addr \<Rightarrow> addr option" where
  "strstr_match m cq cr =
    (if m cq \<noteq> 0 \<and> m cr \<noteq> 0 then
       if m cq \<noteq> m cr then Some cr else strstr_match m (cq + 1) (cr + 1)
     else Some cr)"

partial_function (option) strstr :: "bmem \<Rightarrow> addr \<Rightarrow> addr \<Rightarrow> addr option" where
  "strstr m cs ct =
    (if m cs \<noteq> 0 then
       if m cs = m ct then
         (case strstr_match m cs ct of
            None \<Rightarrow> None
          | Some cr \<Rightarrow> if m cr = 0 then Some cs else strstr m (cs + 1) ct)
       else strstr m (cs + 1) ct
     else Some NULL)"

section \<open>Numbers\<close>

text \<open>Blanks and a sign: where the digits start, and whether there was a minus sign.\<close>

partial_function (option) atoi_sign :: "bmem \<Rightarrow> addr \<Rightarrow> (addr \<times> bool) option" where
  "atoi_sign m p =
    (if m p = 32 \<or> m p = 9 then atoi_sign m (p + 1)
     else if m p = 45 then Some (p + 1, True)
     else if m p = 43 then Some (p + 1, False)
     else Some (p, False))"

partial_function (option) atoi_digits :: "bmem \<Rightarrow> addr \<Rightarrow> int \<Rightarrow> int option" where
  "atoi_digits m p n =
    (if schar (m p) \<ge> 48 \<and> schar (m p) \<le> 57 then atoi_digits m (p + 1) (wrap32 (n * 10 + schar (m p) - 48))
     else Some n)"

definition atoi :: "addr \<Rightarrow> bmem \<Rightarrow> int option" where
  "atoi p m =
    (case atoi_sign m p of
       None \<Rightarrow> None
     | Some (p, f) \<Rightarrow> (case atoi_digits m p 0 of None \<Rightarrow> None | Some n \<Rightarrow> Some (if f then wrap32 (- n) else n)))"

text \<open>\<open>long\<close> is 32 bits wide on the target: \<open>atol\<close> is the same computation.\<close>

definition atol :: "addr \<Rightarrow> bmem \<Rightarrow> int option" where
  "atol p m =
    (case atoi_sign m p of
       None \<Rightarrow> None
     | Some (p, f) \<Rightarrow> (case atoi_digits m p 0 of None \<Rightarrow> None | Some n \<Rightarrow> Some (if f then wrap32 (- n) else n)))"

definition abs_c :: "int \<Rightarrow> int" where
  "abs_c arg = (if arg < 0 then wrap32 (- arg) else arg)"

definition labs_c :: "int \<Rightarrow> int" where
  "labs_c arg = (if arg < 0 then wrap32 (- arg) else arg)"

definition RAND_MAX :: int where "RAND_MAX = 2147483646"

text \<open>The seed is an unsigned variable; the product wraps before the remainder is taken.\<close>

definition rand_r :: "u32 \<Rightarrow> int \<times> u32" where
  "rand_r seed =
    (let seed = (16807 * seed) mod word_of_int (RAND_MAX + 1)
     in (sint seed, seed))"

definition rand :: "u32 \<Rightarrow> int \<times> u32" where
  "rand rand_seed = rand_r rand_seed"

definition srand :: "u32 \<Rightarrow> u32" where
  "srand seed = seed"

section \<open>Blocks as lists of bytes\<close>

fun load :: "bmem \<Rightarrow> addr \<Rightarrow> nat \<Rightarrow> u8 list" where
  "load m a 0 = []"
| "load m a (Suc n) = m a # load m (a + 1) n"

fun store :: "bmem \<Rightarrow> addr \<Rightarrow> u8 list \<Rightarrow> bmem" where
  "store m a [] = m"
| "store m a (b # bs) = store (m(a := b)) (a + 1) bs"

definition region_of :: "addr \<Rightarrow> nat \<Rightarrow> addr set" where
  "region_of a n = (\<lambda>i. a + of_nat i) ` {..<n}"

text \<open>The null-terminated string \<open>s\<close> at \<open>p\<close>.\<close>

fun cstr :: "bmem \<Rightarrow> addr \<Rightarrow> u8 list \<Rightarrow> bool" where
  "cstr m p [] \<longleftrightarrow> m p = 0"
| "cstr m p (c # s) \<longleftrightarrow> m p = c \<and> c \<noteq> 0 \<and> cstr m (p + 1) s"

lemma region_of_Suc: "region_of a (Suc n) = insert a (region_of (a + 1) n)"
proof -
  have "{..<Suc n} = insert 0 (Suc ` {..<n})" using lessThan_Suc_eq_insert_0 by blast
  then show ?thesis by (simp add: region_of_def image_image ac_simps)
qed

lemma region_of_0 [simp]: "region_of a 0 = {}"
  by (simp add: region_of_def)

lemma store_other: "x \<notin> region_of a (length bs) \<Longrightarrow> store m a bs x = m x"
  by (induction bs arbitrary: m a) (simp_all add: region_of_Suc)

lemma start_not_later: "length bs < 2 ^ 32 \<Longrightarrow> a \<notin> region_of (a + 1) (length bs)"
proof
  assume len: "length bs < 2 ^ 32" and "a \<in> region_of (a + 1) (length bs)"
  then obtain i where i: "i < length bs" "a = a + 1 + of_nat i" by (auto simp: region_of_def)
  then have "of_nat (Suc i) = (0 :: u32)" by (simp add: add.assoc)
  then have "(2 :: nat) ^ 32 dvd Suc i" unfolding word_of_nat_eq_0_iff by simp
  then show False using i(1) len by (auto dest: dvd_imp_le)
qed

lemma load_cong: "(\<And>x. x \<in> region_of a n \<Longrightarrow> m' x = m x) \<Longrightarrow> load m' a n = load m a n"
  by (induction n arbitrary: a) (simp_all add: region_of_Suc)

lemma load_store: "length bs \<le> 2 ^ 32 \<Longrightarrow> load (store m a bs) a (length bs) = bs"
proof (induction bs arbitrary: m a)
  case (Cons b bs)
  then show ?case using start_not_later [of bs a] by (simp add: store_other)
qed simp

lemma length_load [simp]: "length (load m a n) = n"
  by (induction n arbitrary: a) simp_all

lemma memcpy_loop_store:
  "region_of dst n \<inter> region_of src n = {} \<Longrightarrow> memcpy_loop n dst src m = store m dst (load m src n)"
proof (induction n arbitrary: dst src m)
  case (Suc n)
  have "load (m(dst := m src)) (src + 1) n = load m (src + 1) n"
    using Suc.prems by (intro load_cong) (auto simp: region_of_Suc)
  moreover have "region_of (dst + 1) n \<inter> region_of (src + 1) n = {}" using Suc.prems by (auto simp: region_of_Suc)
  ultimately show ?case by (simp add: Suc.IH fun_upd_def)
qed simp

lemma memset_loop_store: "memset_loop n p c m = store m p (replicate n c)"
  by (induction n arbitrary: p m) simp_all

lemma memcmp_loop_zero: "memcmp_loop n p q m = 0 \<longleftrightarrow> load m p n = load m q n"
  by (induction n arbitrary: p q) (auto simp flip: word_uint_eq_iff)

text \<open>The sign of \<open>memcmp\<close>: the order of the two areas as strings of unsigned bytes.\<close>

lemma memcmp_loop_less: "memcmp_loop n p q m < 0 \<longleftrightarrow> ord_class.lexordp (load m p n) (load m q n)"
proof (induction n arbitrary: p q)
  case (Suc n)
  then show ?case using linorder_less_linear [of "m p" "m q"] by (auto simp: word_less_def word_uint_eq_iff)
qed simp

section \<open>Strings as lists of bytes\<close>

lemma cstr_cong: "(\<And>x. x \<in> region_of p (Suc (length s)) \<Longrightarrow> m' x = m x) \<Longrightarrow> cstr m' p s = cstr m p s"
proof (induction s arbitrary: p)
  case (Cons c s)
  have "cstr m' (p + 1) s = cstr m (p + 1) s" by (rule Cons.IH) (use Cons.prems in \<open>simp add: region_of_Suc\<close>)
  then show ?case using Cons.prems [of p] by (simp add: region_of_Suc)
qed (simp add: region_of_Suc)

lemma cstr_load: "cstr m p s \<longleftrightarrow> load m p (Suc (length s)) = s @ [0] \<and> 0 \<notin> set s"
  by (induction s arbitrary: p) auto

lemma strlen_loop_cstr: "cstr m p s \<Longrightarrow> 0 \<le> n \<Longrightarrow> n + int (length s) < 2 ^ 31 \<Longrightarrow> strlen_loop m p n = Some (n + int (length s))"
  by (induction s arbitrary: p n) (subst strlen_loop.simps, simp)+

lemma strnlen_loop_cstr: "cstr m p s \<Longrightarrow> strnlen_loop k p n m = n + min k (length s)"
proof (induction k arbitrary: p n s)
  case (Suc k)
  then show ?case by (cases s) auto
qed simp

lemma str_end_cstr: "cstr m p s \<Longrightarrow> str_end m p = Some (p + of_nat (length s))"
proof (induction s arbitrary: p)
  case (Cons c s)
  then show ?case by (subst str_end.simps) (simp add: ac_simps)
qed (subst str_end.simps, simp)

text \<open>The order of two strings: that of their signed characters up to and including the null byte.\<close>

definition str_less :: "u8 list \<Rightarrow> u8 list \<Rightarrow> bool" where
  "str_less s t \<longleftrightarrow> ord_class.lexordp (map schar (s @ [0])) (map schar (t @ [0]))"

lemma schar_inj: "schar a = schar b \<longleftrightarrow> a = b"
  using signed_word_eqI [of a b] by (auto simp: schar_def)

lemma str_less_Cons: "str_less (c # s) (d # t) \<longleftrightarrow> schar c < schar d \<or> c = d \<and> str_less s t"
  by (auto simp: str_less_def schar_inj)

lemma str_less_Nil: "str_less [] (d # t) \<longleftrightarrow> schar 0 < schar d \<or> d = 0" "str_less (c # s) [] \<longleftrightarrow> schar c < schar 0" "\<not> str_less [] []"
  using schar_inj [of 0 d] by (auto simp: str_less_def)

lemma strcmp_cstr: "cstr m p s \<Longrightarrow> cstr m q t \<Longrightarrow> strcmp m p q = Some (if s = t then 0 else if str_less s t then - 1 else 1)"
proof (induction s arbitrary: p q t)
  case Nil
  then show ?case by (cases t; subst strcmp.simps) (auto simp: str_less_Nil)
next
  case (Cons c s)
  then show ?case by (cases t; subst strcmp.simps) (auto simp: str_less_Nil str_less_Cons)
qed

lemma strncmp_loop_cstr:
  "cstr m p s \<Longrightarrow> cstr m q t \<Longrightarrow> (strncmp_loop n m p q = 0 \<longleftrightarrow> take n s = take n t) \<and> (strncmp_loop n m p q < 0 \<longleftrightarrow> take n s \<noteq> take n t \<and> str_less s t)"
proof (induction n arbitrary: p q s t)
  case (Suc n)
  show ?case
  proof (cases "m p = m q")
    case True
    show ?thesis
    proof (cases s)
      case Nil
      then show ?thesis using Suc.prems True by (cases t) auto
    next
      case (Cons c s')
      then obtain t' where t: "t = c # t'" using Suc.prems True by (cases t) auto
      then show ?thesis using Suc.IH [of "p + 1" s' "q + 1" t'] Suc.prems Cons by (auto simp: str_less_Cons)
    qed
  next
    case False
    then show ?thesis using Suc.prems by (cases s; cases t) (auto simp: str_less_Cons str_less_Nil schar_inj)
  qed
qed simp

lemma strchr_cstr:
  "cstr m p s \<Longrightarrow> strchr m p c = Some (if c \<in> set (s @ [0]) then p + of_nat (length (takeWhile ((\<noteq>) c) s)) else NULL)"
proof (induction s arbitrary: p)
  case (Cons d s)
  then show ?case by (subst strchr.simps) (auto simp: ac_simps)
qed (subst strchr.simps, auto)

text \<open>The last occurrence of a character, the null byte included.\<close>

lemma find_append_c: "find P (xs @ ys) = (case find P xs of None \<Rightarrow> find P ys | Some x \<Rightarrow> Some x)"
  by (induction xs) simp_all

lemma find_map_c: "find P (map f xs) = map_option f (find (\<lambda>x. P (f x)) xs)"
  by (induction xs) simp_all

lemma strrchr_loop_cstr:
  "cstr m p s \<Longrightarrow> strrchr_loop m p c r =
    Some (case find (\<lambda>i. (s @ [0]) ! i = c) (rev [0..<Suc (length s)]) of None \<Rightarrow> r | Some i \<Rightarrow> p + of_nat i)"
proof (induction s arbitrary: p r)
  case Nil
  then show ?case by (subst strrchr_loop.simps) auto
next
  case (Cons d s)
  let ?f = "\<lambda>s. find (\<lambda>i. (s @ [0]) ! i = c) (rev [0..<Suc (length s)])"
  have "rev [0..<Suc (length (d # s))] = map Suc (rev [0..<Suc (length s)]) @ [0]"
    by (simp add: upt_conv_Cons map_Suc_upt [symmetric] rev_map del: upt_Suc)
  then have "?f (d # s) = (case ?f s of Some i \<Rightarrow> Some (Suc i) | None \<Rightarrow> if d = c then Some 0 else None)"
    by (simp add: find_append_c find_map_c del: upt_Suc split: option.splits)
  then show ?case using Cons by (subst strrchr_loop.simps) (auto simp: add.assoc simp del: upt_Suc split: option.splits)
qed

lemma strcpy_cstr:
  "cstr m src t \<Longrightarrow> region_of tar (Suc (length t)) \<inter> region_of src (Suc (length t)) = {} \<Longrightarrow> strcpy tar src m = Some (store m tar (t @ [0]))"
proof (induction t arbitrary: m tar src)
  case Nil
  then show ?case by (subst strcpy.simps) simp
next
  case (Cons c t)
  let ?m = "m(tar := c)"
  have "cstr ?m (src + 1) t"
    using cstr_cong [of "src + 1" t ?m m] Cons.prems by (force simp: region_of_Suc)
  moreover have "region_of (tar + 1) (Suc (length t)) \<inter> region_of (src + 1) (Suc (length t)) = {}"
    using Cons.prems(2) by (auto simp: region_of_Suc)
  ultimately have "strcpy (tar + 1) (src + 1) ?m = Some (store ?m (tar + 1) (t @ [0]))" by (rule Cons.IH)
  then show ?case using Cons.prems(1) by (subst strcpy.simps) simp
qed

lemma strncpy_loop_cstr:
  "cstr m s2 t \<Longrightarrow> region_of s1 n \<inter> region_of s2 (Suc (length t)) = {} \<Longrightarrow> strncpy_loop n s1 s2 m = store m s1 (take n (t @ replicate n 0))"
proof (induction n arbitrary: m s1 s2 t)
  case (Suc n)
  show ?case
  proof (cases t)
    case Nil
    then show ?thesis using Suc.prems by (simp add: memset_loop_store)
  next
    case (Cons c t')
    let ?m = "m(s1 := c)"
    have "cstr ?m (s2 + 1) t'" using cstr_cong [of "s2 + 1" t' ?m m] Suc.prems Cons by (force simp: region_of_Suc)
    moreover have "region_of (s1 + 1) n \<inter> region_of (s2 + 1) (Suc (length t')) = {}" using Suc.prems(2) Cons by (auto simp: region_of_Suc)
    ultimately have "strncpy_loop n (s1 + 1) (s2 + 1) ?m = store ?m (s1 + 1) (take n (t' @ replicate n 0))" by (rule Suc.IH)
    moreover have "take n (t' @ replicate (Suc n) 0) = take n (t' @ replicate n (0 :: u8))"
      by (simp add: replicate_append_same [symmetric] del: replicate_Suc)
    ultimately show ?thesis using Suc.prems Cons by simp
  qed
qed simp

lemma strncat_loop_cstr:
  "cstr m s2 t \<Longrightarrow> region_of e (Suc (min n (length t))) \<inter> region_of s2 (Suc (length t)) = {} \<Longrightarrow>
    strncat_loop (int n) e s2 m = Some (store m e (take n t @ [0]))"
proof (induction n arbitrary: m e s2 t)
  case 0
  then show ?case by (subst strncat_loop.simps) (cases t, auto)
next
  case (Suc n)
  show ?case
  proof (cases t)
    case Nil
    then show ?thesis using Suc.prems by (subst strncat_loop.simps) simp
  next
    case (Cons c t')
    let ?m = "m(e := c)"
    have "cstr ?m (s2 + 1) t'" using cstr_cong [of "s2 + 1" t' ?m m] Suc.prems Cons by (force simp: region_of_Suc)
    moreover have "region_of (e + 1) (Suc (min n (length t'))) \<inter> region_of (s2 + 1) (Suc (length t')) = {}"
      using Suc.prems(2) Cons by (auto simp: region_of_Suc)
    ultimately have "strncat_loop (int n) (e + 1) (s2 + 1) ?m = Some (store ?m (e + 1) (take n t' @ [0]))" by (rule Suc.IH)
    then show ?thesis using Suc.prems(1) Cons by (subst strncat_loop.simps) simp
  qed
qed

section \<open>Searching for a substring\<close>

lemma strstr_match_cstr:
  "cstr m p s \<Longrightarrow> cstr m q t \<Longrightarrow> \<exists>r. strstr_match m p q = Some r \<and> (m r = 0 \<longleftrightarrow> prefix t s)"
proof (induction t arbitrary: p q s)
  case Nil
  then show ?case by (subst strstr_match.simps) auto
next
  case (Cons c t)
  show ?case
  proof (cases "s \<noteq> [] \<and> hd s = c")
    case True
    then obtain s' where s: "s = c # s'" by (cases s) auto
    then show ?thesis using Cons.IH [of "p + 1" s' "q + 1"] Cons.prems by (subst strstr_match.simps) simp
  next
    case False
    then show ?thesis using Cons.prems by (subst strstr_match.simps) (cases s, auto)
  qed
qed

lemma strstr_cstr:
  "cstr m p s \<Longrightarrow> cstr m q t \<Longrightarrow> t \<noteq> [] \<Longrightarrow>
    strstr m p q = Some (case find (\<lambda>i. prefix t (drop i s)) [0..<length s] of None \<Rightarrow> NULL | Some i \<Rightarrow> p + of_nat i)"
proof (induction s arbitrary: p)
  case Nil
  then show ?case by (subst strstr.simps) simp
next
  case (Cons c s)
  have ne: "prefix t (c # s) \<Longrightarrow> m p = m q" using Cons.prems by (cases t) auto
  obtain r where r: "strstr_match m p q = Some r" "m r = 0 \<longleftrightarrow> prefix t (c # s)" using strstr_match_cstr [OF Cons.prems(1,2)] by blast
  have up: "[0..<length (c # s)] = 0 # map Suc [0..<length s]" by (simp add: map_Suc_upt upt_conv_Cons del: upt_Suc)
  have fm: "find P (map Suc xs) = map_option Suc (find (P \<circ> Suc) xs)" for P xs by (induction xs) auto
  show ?case
  proof (cases "prefix t (c # s)")
    case True
    then have "strstr m p q = Some p" using r ne Cons.prems by (subst strstr.simps) simp
    then show ?thesis unfolding up using True by simp
  next
    case False
    then have "strstr m p q = strstr m (p + 1) q" using r Cons.prems by (subst strstr.simps) simp
    also have "\<dots> = Some (case find (\<lambda>i. prefix t (drop i s)) [0..<length s] of None \<Rightarrow> NULL | Some i \<Rightarrow> p + 1 + of_nat i)"
      by (rule Cons.IH) (use Cons.prems in simp_all)
    finally show ?thesis unfolding up using False by (simp add: fm comp_def ac_simps split: option.split)
  qed
qed

section \<open>Decimal numbers\<close>

text \<open>The number a list of digits denotes.\<close>

definition is_digit :: "u8 \<Rightarrow> bool" where
  "is_digit c \<longleftrightarrow> 48 \<le> schar c \<and> schar c \<le> 57"

definition decimal :: "u8 list \<Rightarrow> int" where
  "decimal ds = foldl (\<lambda>n d. n * 10 + (schar d - 48)) 0 ds"

lemma decimal_ge: "\<forall>d \<in> set ds. is_digit d \<Longrightarrow> 0 \<le> n \<Longrightarrow> n \<le> foldl (\<lambda>n d. n * 10 + (schar d - 48)) n ds"
proof (induction ds arbitrary: n)
  case (Cons d ds)
  have "n \<le> n * 10 + (schar d - 48)" using Cons.prems by (simp add: is_digit_def)
  moreover have "\<dots> \<le> foldl (\<lambda>n d. n * 10 + (schar d - 48)) (n * 10 + (schar d - 48)) ds"
    by (rule Cons.IH) (use Cons.prems in \<open>simp_all add: is_digit_def\<close>)
  ultimately show ?case by simp
qed simp

lemma atoi_digits_cstr:
  assumes "cstr m p (ds @ rest)" and "\<forall>d \<in> set ds. is_digit d" and "rest = [] \<or> \<not> is_digit (hd rest)"
    and "0 \<le> n" and "foldl (\<lambda>n d. n * 10 + (schar d - 48)) n ds < 2 ^ 31"
  shows "atoi_digits m p n = Some (foldl (\<lambda>n d. n * 10 + (schar d - 48)) n ds)"
  using assms
proof (induction ds arbitrary: p n)
  case Nil
  then have "\<not> is_digit (m p)" by (cases rest) (auto simp: is_digit_def schar_def)
  then show ?case by (subst atoi_digits.simps) (auto simp: is_digit_def)
next
  case (Cons d ds)
  let ?n = "n * 10 + (schar d - 48)"
  have n: "0 \<le> ?n" "?n < 2 ^ 31" using Cons.prems decimal_ge [of ds ?n] by (simp_all add: is_digit_def)
  have "atoi_digits m (p + 1) ?n = Some (foldl (\<lambda>n d. n * 10 + (schar d - 48)) ?n ds)"
    by (rule Cons.IH) (use Cons.prems n in simp_all)
  then show ?case using Cons.prems(1,2) n by (subst atoi_digits.simps) (simp add: is_digit_def algebra_simps)
qed

definition is_blank :: "u8 \<Rightarrow> bool" where
  "is_blank c \<longleftrightarrow> c = 32 \<or> c = 9"

lemma atoi_sign_cstr:
  "cstr m p (bs @ s) \<Longrightarrow> \<forall>b \<in> set bs. is_blank b \<Longrightarrow> s \<noteq> [] \<Longrightarrow> \<not> is_blank (hd s) \<Longrightarrow>
    atoi_sign m p = Some (p + of_nat (length bs) + (if hd s = 45 \<or> hd s = 43 then 1 else 0), hd s = 45)"
proof (induction bs arbitrary: p)
  case Nil
  then show ?case by (subst atoi_sign.simps) (cases s, auto simp: is_blank_def)
next
  case (Cons b bs)
  then have "atoi_sign m p = atoi_sign m (p + 1)" by (subst atoi_sign.simps) (simp add: is_blank_def)
  also have "\<dots> = Some (p + 1 + of_nat (length bs) + (if hd s = 45 \<or> hd s = 43 then 1 else 0), hd s = 45)"
    by (rule Cons.IH) (use Cons.prems in simp_all)
  finally show ?case by (simp add: ac_simps)
qed

lemma cstr_append: "cstr m p (s @ t) \<Longrightarrow> cstr m (p + of_nat (length s)) t"
proof (induction s arbitrary: p)
  case (Cons c s)
  then show ?case using Cons.IH [of "p + 1"] by (simp add: ac_simps)
qed simp

lemma mod_rand_range: "0 \<le> sint (x mod 2147483647) \<and> sint (x mod 2147483647) \<le> 2147483646" for x :: u32
proof -
  have "uint (2147483647 :: u32) = 2147483647" by simp
  then have "uint (x mod 2147483647) = uint x mod 2147483647" by (simp only: uint_mod)
  moreover have "0 \<le> uint x mod 2147483647" "uint x mod 2147483647 < 2147483647" by (rule pos_mod_sign, simp, rule pos_mod_bound, simp)
  ultimately have u: "0 \<le> uint (x mod 2147483647)" "uint (x mod 2147483647) < 2147483647" by (simp_all only:)
  have b: "- (2 ^ 31) \<le> (0 :: int)" "2147483647 < (2 :: int) ^ 31" by simp_all
  have "sint (x mod 2147483647) = signed_take_bit 31 (uint (x mod 2147483647))" by (simp add: sint_uint)
  also have "\<dots> = uint (x mod 2147483647)" by (rule signed_take_bit_int_eq_self) (use u b in linarith)+
  finally show ?thesis using u by linarith
qed

lemma rand_r_range: "0 \<le> fst (rand_r seed) \<and> fst (rand_r seed) \<le> RAND_MAX"
  using mod_rand_range [of "16807 * seed"] by (simp add: rand_r_def RAND_MAX_def Let_def)

section \<open>Properties\<close>


text \<open>Two strings for the examples: \<open>abc\<close> at address 16 and \<open>bc\<close> at 32.\<close>

definition bmem0 :: bmem where
  "bmem0 = store (store (\<lambda>_. 0) 16 [97, 98, 99]) 32 [98, 99]"

lemma bmem0_strings: "cstr bmem0 16 [97, 98, 99]" "cstr bmem0 32 [98, 99]"
  by (simp_all add: bmem0_def)


text \<open>
  the routines that write store exactly the bytes they should. For source and destination that do not overlap,
  \<open>memcpy\<close> stores the \<open>n\<close> bytes of the source, \<open>strcpy\<close> the string with its null byte, \<open>strncpy\<close> exactly \<open>n\<close> bytes of
  the string padded with null bytes, and \<open>strncat\<close> appends at most \<open>n\<close> characters and a null byte; \<open>memset\<close> and \<open>bzero\<close>
  store \<open>n\<close> equal bytes. No other byte changes, the copies read back, and the loops end.
\<close>

theorem string_writes_correct:
  assumes "cstr m q t" and "cstr m p s" and "length t < 2 ^ 31" and "n < 2 ^ 31"
    and "region_of p (Suc (length s + n + length t)) \<inter> region_of q (Suc (length t + n)) = {}"
  shows "memcpy p q (int n) m = (p, store m p (load m q n)) \<and> load (store m p (load m q n)) p n = load m q n \<and>
    strcpy p q m = Some (store m p (t @ [0])) \<and> cstr (store m p (t @ [0])) p t \<and>
    strncpy p q (int n) m = (p, store m p (take n (t @ replicate n 0))) \<and>
    strncat p q (int n) m = Some (p, store m (p + of_nat (length s)) (take n t @ [0])) \<and>
    memset p c (int n) m = (p, store m p (replicate n (word_of_int c))) \<and> bzero p (int n) m = store m p (replicate n 0) \<and>
    (\<forall>x bs. x \<notin> region_of p (length bs) \<longrightarrow> store m p bs x = m x)"
proof -
  have sub: "region_of a i \<subseteq> region_of a j" if "i \<le> j" for a i j using that by (auto simp: region_of_def)
  have dis: "region_of p i \<inter> region_of q j = {}" if "i \<le> Suc (length s + n + length t)" "j \<le> Suc (length t + n)" for i j
    using assms(5) sub [OF that(1), of p] sub [OF that(2), of q] by blast
  have shift: "region_of (p + of_nat (length s)) i \<subseteq> region_of p (length s + i)" for i
    by (auto simp: region_of_def image_iff intro!: bexI [of _ "length s + _"])
  have e: "region_of (p + of_nat (length s)) (Suc (min n (length t))) \<inter> region_of q (Suc (length t)) = {}"
    using shift [of "Suc (min n (length t))"] dis [of "length s + Suc (min n (length t))" "Suc (length t)"] by fastforce
  have "load (store m p (t @ [0])) p (length (t @ [0])) = t @ [0]" by (rule load_store) (use assms(3) in simp)
  then have c: "cstr (store m p (t @ [0])) p t" using assms(1) by (simp add: cstr_load)
  have l: "load (store m p (load m q n)) p n = load m q n" using load_store [of "load m q n" m p] assms(4) by simp
  show ?thesis
    using memcpy_loop_store [OF dis [of n n], of m] l strcpy_cstr [OF assms(1) dis [of "Suc (length t)" "Suc (length t)"]] c
      strncpy_loop_cstr [OF assms(1) dis [of n "Suc (length t)"]] str_end_cstr [OF assms(2)] strncat_loop_cstr [OF assms(1) e] store_other
    by (auto simp: memcpy_def strncpy_def strncat_def memset_def bzero_def memset_loop_store)
qed

theorem string_writes_correct_witness:
  "strcpy 64 32 bmem0 = Some (store bmem0 64 [98, 99, 0]) \<and> strncpy 64 32 4 bmem0 = (64, store bmem0 64 [98, 99, 0, 0])"
proof -
  have "region_of 64 (Suc (0 + 4 + 2)) \<inter> region_of 32 (Suc (2 + 4)) = ({} :: addr set)"
    by (simp add: region_of_def lessThan_nat_numeral lessThan_Suc)
  moreover have "cstr bmem0 64 []" by (simp add: bmem0_def)
  moreover have "replicate 2 (0 :: u8) = [0, 0]" by (simp add: numeral_2_eq_2)
  ultimately show ?thesis using string_writes_correct [of bmem0 32 "[98, 99]" 64 "[]" 4 0] bmem0_strings by simp
qed

text \<open>
  \<open>atoi\<close> reads decimal numbers. For blanks, an optional sign and digits that denote a number of the \<open>int\<close> type,
  followed by something that is not a digit, \<open>atoi\<close> and \<open>atol\<close> return that number; \<open>rand_r\<close> returns a value from 0
  to \<open>RAND_MAX\<close> for every seed.
\<close>

theorem numbers_correct:
  assumes "cstr m p (bs @ sign @ ds @ rest)" and "\<forall>b \<in> set bs. is_blank b" and "sign \<in> {[], [45], [43]}"
    and "\<forall>d \<in> set ds. is_digit d" and "ds \<noteq> []" and "rest = [] \<or> \<not> is_digit (hd rest)" and "decimal ds < 2 ^ 31"
  shows "atoi p m = Some (if sign = [45] then - decimal ds else decimal ds) \<and> atol p m = atoi p m \<and>
    0 \<le> fst (rand_r seed) \<and> fst (rand_r seed) \<le> RAND_MAX"
proof -
  let ?q = "p + of_nat (length bs)"
  have dig: "\<not> is_blank d \<and> d \<noteq> 45 \<and> d \<noteq> 43" if "is_digit d" for d using that by (auto simp: is_digit_def is_blank_def schar_def)
  have s: "cstr m ?q (sign @ ds @ rest)" using cstr_append [OF assms(1)] .
  have hd: "\<not> is_blank (hd (sign @ ds @ rest))" "(hd (sign @ ds @ rest) = 45) = (sign = [45])" "(hd (sign @ ds @ rest) = 43) = (sign = [43])"
    using assms(3,4,5) dig [of "hd ds"] by (auto simp: is_blank_def hd_append)
  have sg: "atoi_sign m p = Some (?q + (if sign = [45] \<or> sign = [43] then 1 else 0), sign = [45])"
    using atoi_sign_cstr [OF assms(1,2)] hd assms(5) by auto
  have "cstr m (?q + (if sign = [45] \<or> sign = [43] then 1 else 0)) (ds @ rest)"
    using assms(3) s by (auto simp: ac_simps)
  then have d: "atoi_digits m (?q + (if sign = [45] \<or> sign = [43] then 1 else 0)) 0 = Some (decimal ds)"
    using atoi_digits_cstr [OF _ assms(4,6), of m _ 0] assms(7) by (simp add: decimal_def)
  have "0 \<le> decimal ds" using decimal_ge [OF assms(4), of 0] by (simp add: decimal_def)
  then have "wrap32 (- decimal ds) = - decimal ds" using assms(7) by (intro wrap32_id) simp_all
  then have "atoi p m = Some (if sign = [45] then - decimal ds else decimal ds)" using sg d by (simp add: atoi_def)
  moreover have "0 \<le> fst (rand_r seed) \<and> fst (rand_r seed) \<le> RAND_MAX"
    using rand_r_range by blast
  ultimately show ?thesis by (simp add: atol_def atoi_def)
qed

theorem numbers_correct_witness: "atoi 0 (store (\<lambda>_. 0) 0 [32, 45, 52, 50]) = Some (- 42)"
proof -
  have "schar 52 = 52" "schar 50 = 50" by (simp_all add: schar_def)
  then show ?thesis
    using numbers_correct [of "store (\<lambda>_. 0) 0 [32, 45, 52, 50]" 0 "[32]" "[45]" "[52, 50]" "[]" 1]
    by (simp add: is_blank_def is_digit_def decimal_def)
qed

end
