(* ===== verification/DevSwitch.thy ===== *)
theory DevSwitch
  imports Lib
begin

text \<open>
  The device switch: the calls \<open>init\<close>, \<open>open\<close>, \<open>close\<close>, \<open>read\<close>, \<open>write\<close>, \<open>seek\<close>, \<open>getc\<close>, \<open>putc\<close> and
  \<open>control\<close> of \<open>system/\<close> with \<open>getdev\<close>, \<open>ioerr\<close> and \<open>ionull\<close>, and the table entry of \<open>include/conf.h\<close>.

  The table is an argument of the calls: a function from the device number to the entry, whose routines act on a state of any type and get the device number in
  place of the pointer to the entry. \<open>conf_devtab\<close> is the table of \<open>system/conf.c\<close>; the routines of the drivers in it are arguments, because they act on different parts of
  the state.
\<close>

section \<open>The device table\<close>

record 'st dentry =
  dvnum :: int
  dvminor :: int
  dvname :: addr
  dvinit :: "int \<Rightarrow> 'st \<Rightarrow> (int \<times> 'st) result"
  dvopen :: "int \<Rightarrow> addr \<Rightarrow> addr \<Rightarrow> 'st \<Rightarrow> (int \<times> 'st) result"
  dvclose :: "int \<Rightarrow> 'st \<Rightarrow> (int \<times> 'st) result"
  dvread :: "int \<Rightarrow> addr \<Rightarrow> u32 \<Rightarrow> 'st \<Rightarrow> (int \<times> 'st) result"
  dvwrite :: "int \<Rightarrow> addr \<Rightarrow> u32 \<Rightarrow> 'st \<Rightarrow> (int \<times> 'st) result"
  dvseek :: "int \<Rightarrow> u32 \<Rightarrow> 'st \<Rightarrow> (int \<times> 'st) result"
  dvgetc :: "int \<Rightarrow> 'st \<Rightarrow> (int \<times> 'st) result"
  dvputc :: "int \<Rightarrow> u8 \<Rightarrow> 'st \<Rightarrow> (int \<times> 'st) result"
  dvcntl :: "int \<Rightarrow> int \<Rightarrow> int \<Rightarrow> int \<Rightarrow> 'st \<Rightarrow> (int \<times> 'st) result"
  dvcsr :: addr
  dvirq :: u8

type_synonym 'st devtab = "int \<Rightarrow> 'st dentry"

definition NDEVS :: int where "NDEVS = 24"
definition DEVNAMLEN :: int where "DEVNAMLEN = 16"
definition CONSOLE :: int where "CONSOLE = 0"

definition isbaddev :: "int \<Rightarrow> bool" where
  "isbaddev f \<longleftrightarrow> f < 0 \<or> f \<ge> NDEVS"

section \<open>Operations\<close>

definition ioerr :: "'st \<Rightarrow> (int \<times> 'st) result" where
  "ioerr st = Ret (SYSERR, st)"

definition ionull :: "'st \<Rightarrow> (int \<times> 'st) result" where
  "ionull st = Ret (OK, st)"

definition init_dev :: "'st devtab \<Rightarrow> int \<Rightarrow> 'st \<Rightarrow> (int \<times> 'st) result" where
  "init_dev devtab descrp st = (if isbaddev descrp then Ret (SYSERR, st) else dvinit (devtab descrp) descrp st)"

definition open_dev :: "'st devtab \<Rightarrow> int \<Rightarrow> addr \<Rightarrow> addr \<Rightarrow> 'st \<Rightarrow> (int \<times> 'st) result" where
  "open_dev devtab descrp name mode st =
    (if isbaddev descrp then Ret (SYSERR, st) else dvopen (devtab descrp) descrp name mode st)"

definition close_dev :: "'st devtab \<Rightarrow> int \<Rightarrow> 'st \<Rightarrow> (int \<times> 'st) result" where
  "close_dev devtab descrp st = (if isbaddev descrp then Ret (SYSERR, st) else dvclose (devtab descrp) descrp st)"

definition read_dev :: "'st devtab \<Rightarrow> int \<Rightarrow> addr \<Rightarrow> u32 \<Rightarrow> 'st \<Rightarrow> (int \<times> 'st) result" where
  "read_dev devtab descrp buffer cnt st =
    (if isbaddev descrp then Ret (SYSERR, st) else dvread (devtab descrp) descrp buffer cnt st)"

definition write_dev :: "'st devtab \<Rightarrow> int \<Rightarrow> addr \<Rightarrow> u32 \<Rightarrow> 'st \<Rightarrow> (int \<times> 'st) result" where
  "write_dev devtab descrp buffer cnt st =
    (if isbaddev descrp then Ret (SYSERR, st) else dvwrite (devtab descrp) descrp buffer cnt st)"

definition seek_dev :: "'st devtab \<Rightarrow> int \<Rightarrow> u32 \<Rightarrow> 'st \<Rightarrow> (int \<times> 'st) result" where
  "seek_dev devtab descrp pos st = (if isbaddev descrp then Ret (SYSERR, st) else dvseek (devtab descrp) descrp pos st)"

definition getc_dev :: "'st devtab \<Rightarrow> int \<Rightarrow> 'st \<Rightarrow> (int \<times> 'st) result" where
  "getc_dev devtab descrp st = (if isbaddev descrp then Ret (SYSERR, st) else dvgetc (devtab descrp) descrp st)"

definition putc_dev :: "'st devtab \<Rightarrow> int \<Rightarrow> u8 \<Rightarrow> 'st \<Rightarrow> (int \<times> 'st) result" where
  "putc_dev devtab descrp ch st = (if isbaddev descrp then Ret (SYSERR, st) else dvputc (devtab descrp) descrp ch st)"

definition control_dev :: "'st devtab \<Rightarrow> int \<Rightarrow> int \<Rightarrow> int \<Rightarrow> int \<Rightarrow> 'st \<Rightarrow> (int \<times> 'st) result" where
  "control_dev devtab descrp func arg1 arg2 st =
    (if isbaddev descrp then Ret (SYSERR, st) else dvcntl (devtab descrp) descrp func arg1 arg2 st)"

fun getdev_loop :: "nat \<Rightarrow> int \<Rightarrow> 'st devtab \<Rightarrow> addr \<Rightarrow> bmem \<Rightarrow> int" where
  "getdev_loop 0 d devtab devname m = SYSERR"
| "getdev_loop (Suc n) d devtab devname m =
    (if strncmp devname (dvname (devtab d)) DEVNAMLEN m \<noteq> 0 then d else getdev_loop n (d + 1) devtab devname m)"

definition getdev :: "'st devtab \<Rightarrow> addr \<Rightarrow> bmem \<Rightarrow> int" where
  "getdev devtab devname m = getdev_loop (nat NDEVS) 0 devtab devname m"

section \<open>The table of the configuration\<close>

text \<open>The types of devices. A driver has the routines of its type; the entries that are \<open>ionull\<close> or \<open>ioerr\<close> in the table are not the driver's.\<close>

datatype dvtype = Dv_tty | Dv_eth | Dv_nam | Dv_rds | Dv_ram | Dv_rfs | Dv_rfl | Dv_lfs | Dv_lfl

type_synonym 'st drivers = "dvtype \<Rightarrow> 'st dentry"

definition conf_tty :: "'st drivers \<Rightarrow> 'st dentry" where
  "conf_tty drv = (drv Dv_tty)\<lparr>dvopen := \<lambda>_ _ _. ionull, dvclose := \<lambda>_. ionull, dvseek := \<lambda>_ _. ioerr, dvcsr := 0x3f8, dvirq := 36\<rparr>"

definition conf_null :: "'st dentry" where
  "conf_null = \<lparr>dvnum = 1, dvminor = 0, dvname = 0, dvinit = \<lambda>_. ionull, dvopen = \<lambda>_ _ _. ionull, dvclose = \<lambda>_. ionull,
    dvread = \<lambda>_ _ _. ionull, dvwrite = \<lambda>_ _ _. ionull, dvseek = \<lambda>_ _. ioerr, dvgetc = \<lambda>_. ionull, dvputc = \<lambda>_ _. ionull,
    dvcntl = \<lambda>_ _ _ _. ioerr, dvcsr = 0, dvirq = 0\<rparr>"

definition conf_eth :: "'st drivers \<Rightarrow> 'st dentry" where
  "conf_eth drv = (drv Dv_eth)\<lparr>dvopen := \<lambda>_ _ _. ioerr, dvclose := \<lambda>_. ioerr, dvseek := \<lambda>_ _. ioerr, dvgetc := \<lambda>_. ioerr, dvputc := \<lambda>_ _. ioerr,
    dvcsr := 0, dvirq := 0\<rparr>"

definition conf_nam :: "'st drivers \<Rightarrow> 'st dentry" where
  "conf_nam drv = (drv Dv_nam)\<lparr>dvclose := \<lambda>_. ioerr, dvread := \<lambda>_ _ _. ioerr, dvwrite := \<lambda>_ _ _. ioerr, dvseek := \<lambda>_ _. ioerr,
    dvgetc := \<lambda>_. ioerr, dvputc := \<lambda>_ _. ioerr, dvcntl := \<lambda>_ _ _ _. ioerr, dvcsr := 0, dvirq := 0\<rparr>"

definition conf_rds :: "'st drivers \<Rightarrow> 'st dentry" where
  "conf_rds drv = (drv Dv_rds)\<lparr>dvseek := \<lambda>_ _. ioerr, dvgetc := \<lambda>_. ioerr, dvputc := \<lambda>_ _. ioerr, dvcsr := 0, dvirq := 0\<rparr>"

definition conf_ram :: "'st drivers \<Rightarrow> 'st dentry" where
  "conf_ram drv = (drv Dv_ram)\<lparr>dvseek := \<lambda>_ _. ioerr, dvgetc := \<lambda>_. ioerr, dvputc := \<lambda>_ _. ioerr, dvcntl := \<lambda>_ _ _ _. ioerr, dvcsr := 0, dvirq := 0\<rparr>"

definition conf_rfs :: "'st drivers \<Rightarrow> 'st dentry" where
  "conf_rfs drv = (drv Dv_rfs)\<lparr>dvclose := \<lambda>_. ioerr, dvread := \<lambda>_ _ _. ioerr, dvwrite := \<lambda>_ _ _. ioerr, dvseek := \<lambda>_ _. ioerr,
    dvgetc := \<lambda>_. ioerr, dvputc := \<lambda>_ _. ioerr, dvcsr := 0, dvirq := 0\<rparr>"

definition conf_rfl :: "'st drivers \<Rightarrow> 'st dentry" where
  "conf_rfl drv = (drv Dv_rfl)\<lparr>dvopen := \<lambda>_ _ _. ioerr, dvcntl := \<lambda>_ _ _ _. ioerr, dvcsr := 0, dvirq := 0\<rparr>"

definition conf_lfs :: "'st drivers \<Rightarrow> 'st dentry" where
  "conf_lfs drv = (drv Dv_lfs)\<lparr>dvclose := \<lambda>_. ioerr, dvread := \<lambda>_ _ _. ioerr, dvwrite := \<lambda>_ _ _. ioerr, dvseek := \<lambda>_ _. ioerr,
    dvgetc := \<lambda>_. ioerr, dvputc := \<lambda>_ _. ioerr, dvcntl := \<lambda>_ _ _ _. ioerr, dvcsr := 0, dvirq := 0\<rparr>"

definition conf_lfl :: "'st drivers \<Rightarrow> 'st dentry" where
  "conf_lfl drv = (drv Dv_lfl)\<lparr>dvopen := \<lambda>_ _ _. ioerr, dvcsr := 0, dvirq := 0\<rparr>"

text \<open>The whole table; \<open>names\<close> are the addresses of the name strings. No call looks behind its end.\<close>

definition conf_devtab :: "'st drivers \<Rightarrow> (int \<Rightarrow> addr) \<Rightarrow> 'st devtab" where
  "conf_devtab drv names d =
    (let (minor, e) =
      (if d = 0 then (0, conf_tty drv) else if d = 1 then (0, conf_null) else if d = 2 then (0, conf_eth drv) else if d = 3 then (0, conf_nam drv)
       else if d = 4 then (0, conf_rds drv) else if d = 5 then (0, conf_ram drv) else if d = 6 then (0, conf_rfs drv)
       else if d \<le> 16 then (d - 7, conf_rfl drv) else if d = 17 then (0, conf_lfs drv) else (d - 18, conf_lfl drv))
     in e\<lparr>dvnum := d, dvminor := minor, dvname := names d\<rparr>)"

lemma conf_console_close [simp]: "dvclose (conf_devtab drv names CONSOLE) = (\<lambda>_. ionull)"
  by (simp add: conf_devtab_def conf_tty_def CONSOLE_def)

section \<open>Properties\<close>

lemma getdev_loop_first:
  assumes "\<forall>i \<in> {d..<d + int n}. cstr m (dvname (devtab i)) (nm i)" and "cstr m p s"
  shows "getdev_loop n d devtab p m =
    (case find (\<lambda>i. take 16 (nm i) \<noteq> take 16 s) (map (\<lambda>j. d + int j) [0..<n]) of None \<Rightarrow> SYSERR | Some i \<Rightarrow> i)"
  using assms(1)
proof (induction n arbitrary: d)
  case (Suc n)
  have "cstr m (dvname (devtab d)) (nm d)" using Suc.prems by simp
  then have eq: "strncmp p (dvname (devtab d)) DEVNAMLEN m = 0 \<longleftrightarrow> take 16 s = take 16 (nm d)"
    using strncmp_loop_cstr [OF assms(2), of "dvname (devtab d)" "nm d" 16] by (simp add: strncmp_def DEVNAMLEN_def)
  have "getdev_loop n (d + 1) devtab p m =
    (case find (\<lambda>i. take 16 (nm i) \<noteq> take 16 s) (map (\<lambda>j. d + 1 + int j) [0..<n]) of None \<Rightarrow> SYSERR | Some i \<Rightarrow> i)"
    by (rule Suc.IH) (use Suc.prems in auto)
  moreover have "map (\<lambda>j. d + int j) [0..<Suc n] = d # map (\<lambda>j. d + 1 + int j) [0..<n]"
    by (simp add: upt_conv_Cons map_Suc_upt [symmetric] ac_simps del: upt_Suc)
  ultimately show ?case using eq by (auto simp del: upt_Suc)
qed simp

text \<open>
  \<open>getdev\<close> returns the first device whose name differs from the one asked for. With null-terminated names, the result
  is the smallest device number whose name does not agree with the argument in its first 16 characters, and \<open>SYSERR\<close> when all
  agree; so whenever device 0 has another name, the result is 0, whichever device has the name.
\<close>

theorem getdev_finds_mismatch:
  assumes "\<forall>i \<in> {0..<NDEVS}. cstr m (dvname (devtab i)) (nm i)" and "cstr m p s"
  shows "getdev devtab p m = (case find (\<lambda>i. take 16 (nm i) \<noteq> take 16 s) (map int [0..<nat NDEVS]) of None \<Rightarrow> SYSERR | Some i \<Rightarrow> i)"
  using getdev_loop_first [of 0 "nat NDEVS" m devtab nm p s] assms by (simp add: getdev_def NDEVS_def)

text \<open>For the example every device is called \<open>abc\<close>, and the name asked for is \<open>bc\<close>.\<close>

definition dentry0 :: "unit dentry" where
  "dentry0 = \<lparr>dvnum = 0, dvminor = 0, dvname = 16, dvinit = \<lambda>_. ionull, dvopen = \<lambda>_ _ _. ionull, dvclose = \<lambda>_. ionull,
    dvread = \<lambda>_ _ _. ionull, dvwrite = \<lambda>_ _ _. ionull, dvseek = \<lambda>_ _. ioerr, dvgetc = \<lambda>_. ionull, dvputc = \<lambda>_ _. ionull,
    dvcntl = \<lambda>_ _ _ _. ioerr, dvcsr = 0, dvirq = 0\<rparr>"

theorem getdev_finds_mismatch_witness: "getdev (\<lambda>_. dentry0) 32 bmem0 = 0"
  using getdev_finds_mismatch [of bmem0 "\<lambda>_. dentry0" "\<lambda>_. [97, 98, 99]" 32 "[98, 99]"] bmem0_strings
  by (simp add: dentry0_def NDEVS_def upt_rec)

end
