(* ===== verification/Process.thy ===== *)
theory Process
  imports Messages DevSwitch
begin

text \<open>
  Creating and ending processes: \<open>system/create.c\<close>, \<open>system/kill.c\<close>, \<open>system/exit.c\<close>, \<open>system/userret.c\<close> and
  \<open>system/xdone.c\<close>.

  \<open>create\<close> builds the stack of the new process in physical memory; the addresses of the function and of \<open>userret\<close> are
  the linker's, so they are arguments. \<open>kill\<close> closes the victim's descriptors through the device table and keeps what it needs
  in global variables, because it may lose the processor in its call of \<open>send\<close>: the record \<open>killg\<close>.
\<close>

section \<open>Creating a process\<close>

definition MINSTK :: u32 where "MINSTK = 400"
definition STACKMAGIC :: u32 where "STACKMAGIC = 0x0A0AAAA9"

fun newpid_loop :: "nat \<Rightarrow> proctab \<Rightarrow> int \<Rightarrow> int \<times> int" where
  "newpid_loop 0 pt nx = (SYSERR, nx)"
| "newpid_loop (Suc n) pt nx =
    (let nx = nx mod NPROC in
     if prstate (pt nx) = PR_FREE then (nx, nx + 1) else newpid_loop n pt (nx + 1))"

definition newpid :: "kernel \<Rightarrow> int \<times> kernel" where
  "newpid k = (case newpid_loop (nat NPROC) (proctab k) (nextpid k) of (pid, nx) \<Rightarrow> (pid, k\<lparr>nextpid := nx\<rparr>))"

text \<open>\<open>*--saddr = v\<close>.\<close>

definition push :: "u32 \<Rightarrow> addr \<times> mem \<Rightarrow> addr \<times> mem" where
  "push v s = (case s of (saddr, m) \<Rightarrow> (saddr - 4, m(saddr - 4 := v)))"

text \<open>
  The stack as if the new process were half-way through a call of \<open>ctxsw\<close>: the arguments with the first on top, the return
  address, the address of the function, \<open>ebp\<close>, the flags and the eight registers that \<open>pushal\<close> saves.
\<close>

definition build_stack :: "addr \<Rightarrow> addr \<Rightarrow> u32 list \<Rightarrow> addr \<Rightarrow> mem \<Rightarrow> addr \<times> mem" where
  "build_stack initret funcaddr args saddr m =
    (let m = m(saddr := STACKMAGIC);
         savsp = saddr;
         s = fold push (rev args) (saddr, m);
         s = push initret s;
         s = push funcaddr s;
         s = push savsp s;
         savsp = fst s;
         s = push 0x200 s;
         s = push 0 (push 0 (push 0 (push 0 (push 0 s))));
         pushsp = fst s;
         s = push savsp s;
         s = push 0 (push 0 s)
     in case s of (saddr, m) \<Rightarrow> (saddr, m(pushsp := saddr)))"

definition new_entry :: "u32 \<Rightarrow> int \<Rightarrow> string \<Rightarrow> int \<Rightarrow> bool \<Rightarrow> procent \<Rightarrow> procent" where
  "new_entry ssize priority name parent user e =
    e\<lparr>prstate := PR_SUSP, prprio := priority, prstklen := ssize,
      prname := take (PNMLEN - 1) (takeWhile (\<lambda>c. c \<noteq> CHR 0x00) name),
      prsem := - 1, prparent := parent, prhasmsg := False, pruser := user,
      prdesc := (prdesc e)(0 := CONSOLE, 1 := CONSOLE, 2 := CONSOLE)\<rparr>"

text \<open>
  A failed \<open>getstk\<close> is not noticed: the code stores through the returned \<open>SYSERR\<close>, an address no directory maps, which is
  the \<open>Fault\<close> of the model.
\<close>

definition create :: "addr \<Rightarrow> addr \<Rightarrow> u32 \<Rightarrow> int \<Rightarrow> string \<Rightarrow> u32 list \<Rightarrow> kernel \<Rightarrow> (int \<times> kernel) result" where
  "create initret funcaddr ssize priority name args k =
    (let ssize = (if ssize < MINSTK then MINSTK else ssize);
         ssize = roundmb ssize in
     if priority < 1 then Ret (SYSERR, k)
     else case newpid k of (pid, k) \<Rightarrow>
       if pid = SYSERR then Ret (SYSERR, k)
       else
         let k = k\<lparr>prcount := wrap32 (prcount k + 1)\<rparr> in
         rbind (set_proc pid (new_entry ssize priority name (getpid k) False) k) (\<lambda>k.
         rbind (set_proc pid (\<lambda>e. e\<lparr>pdbr := pdbr (proctab k 0), hsize := 0, vfree := 0\<rparr>) k) (\<lambda>k.
         rbind (getstk (memlist (kvm k)) ssize (vmem (kvm k))) (\<lambda>(saddr, m).
         if saddr = USYSERR then Fault
         else
           let (sp, m) = build_stack initret funcaddr args saddr m;
               k = k\<lparr>kvm := (kvm k)\<lparr>vmem := m\<rparr>\<rparr> in
           rbind (set_proc pid (\<lambda>e. e\<lparr>prstkbase := saddr, prstkptr := sp\<rparr>) k) (\<lambda>k.
           Ret (pid, k))))))"

section \<open>Ending a process\<close>

record killg =
  g_pid :: int
  g_prstate :: pstate
  g_prsem :: int
  g_pruser :: bool
  g_prparent :: int

definition xdone :: "'a result" where
  "xdone = Halted"

fun close_loop :: "kernel devtab \<Rightarrow> int \<Rightarrow> nat list \<Rightarrow> kernel \<Rightarrow> kernel result" where
  "close_loop devtab pid [] k = Ret k"
| "close_loop devtab pid (i # is) k =
    rbind (close_dev devtab (prdesc (proctab k pid) i) k) (\<lambda>(_, k). close_loop devtab pid is k)"

text \<open>The \<open>switch\<close> on the state the victim had; the flag says that the caller was the victim and another process runs now.\<close>

definition kill_switch :: "int \<Rightarrow> killg \<Rightarrow> kernel \<Rightarrow> (bool \<times> kernel) result" where
  "kill_switch caller g k =
    (case g_prstate g of
       PR_CURR \<Rightarrow>
         rbind (resched k) (\<lambda>k.
         if currpid k = caller then rbind (unsleep (g_pid g) k) (\<lambda>(_, k). Ret (False, k)) else Ret (True, k))
     | PR_SLEEP \<Rightarrow> rbind (unsleep (g_pid g) k) (\<lambda>(_, k). Ret (False, k))
     | PR_RECTIM \<Rightarrow> rbind (unsleep (g_pid g) k) (\<lambda>(_, k). Ret (False, k))
     | PR_WAIT \<Rightarrow>
         let k = set_scount (g_prsem g) (wrap32 (scount (semtab k (g_prsem g)) + 1)) k in
         rbind (getitem (g_pid g) (queuetab k)) (\<lambda>(_, qt). Ret (False, k\<lparr>queuetab := qt\<rparr>))
     | PR_READY \<Rightarrow> rbind (getitem (g_pid g) (queuetab k)) (\<lambda>(_, qt). Ret (False, k\<lparr>queuetab := qt\<rparr>))
     | _ \<Rightarrow> Ret (False, k))"

text \<open>What is left of \<open>kill\<close> after its call of \<open>send\<close>.\<close>

definition kill_rest :: "int \<Rightarrow> killg \<Rightarrow> kernel \<Rightarrow> (int option \<times> kernel) result" where
  "kill_rest caller g k =
    rbind (kill_switch caller g k) (\<lambda>(gone, k).
    if gone then Ret (None, k)
    else
      rbind (pread (proctab k) (g_pid g)) (\<lambda>e.
      rbind (destroy_directory e (kvm k)) (\<lambda>v.
      rbind (kernel_mode_exit (k\<lparr>kvm := v\<rparr>)) (\<lambda>k.
      Ret (Some OK, k)))))"

text \<open>Up to the marking of the entry as free.\<close>

definition kill_release :: "kernel devtab \<Rightarrow> int \<Rightarrow> kernel \<Rightarrow> (killg \<times> kernel) result" where
  "kill_release devtab pid k =
    rbind (close_loop devtab pid [0, 1, 2] k) (\<lambda>k.
    let e = proctab k pid; v = kvm k in
    rbind (freestk (memlist v) (prstkbase e) (prstklen e) (minheap v) (maxheap v) (vmem v)) (\<lambda>(_, m).
    let k = k\<lparr>kvm := v\<lparr>vmem := m\<rparr>\<rparr>;
        g = \<lparr>g_pid = pid, g_prstate = prstate e, g_prsem = prsem e, g_pruser = pruser e, g_prparent = prparent e\<rparr> in
    rbind (set_proc pid (\<lambda>e. e\<lparr>prstate := PR_FREE\<rparr>) k) (\<lambda>k.
    Ret (g, k))))"

definition kill :: "kernel devtab \<Rightarrow> int \<Rightarrow> kernel \<Rightarrow> (int option \<times> killg option \<times> kernel) result" where
  "kill devtab pid k =
    (if isbadpid (proctab k) pid \<or> pid = NULLPROC \<or> prstate (proctab k pid) = PR_FREE then Ret (Some SYSERR, None, k)
     else
       let caller = currpid k;
           k = k\<lparr>prcount := wrap32 (prcount k - 1)\<rparr> in
       if prcount k \<le> 1 then xdone
       else
         rbind (kill_release devtab pid k) (\<lambda>(g, k).
         let k = kernel_mode_enter k in
         rbind (pread (proctab k) (g_pid g)) (\<lambda>e.
         rbind (freevmem e (kvm k)) (\<lambda>v.
         let k = k\<lparr>kvm := v\<rparr> in
         rbind (if g_pruser g then rbind (send (g_prparent g) (word_of_int (g_pid g)) k) (\<lambda>(_, k). Ret k) else Ret k) (\<lambda>k.
         if currpid k \<noteq> caller then Ret (None, Some g, k)
         else rbind (kill_rest caller g k) (\<lambda>(r, k). Ret (r, Some g, k)))))))"

definition exit_proc :: "kernel devtab \<Rightarrow> kernel \<Rightarrow> (int option \<times> killg option \<times> kernel) result" where
  "exit_proc devtab k = kill devtab (getpid k) k"

definition userret :: "kernel devtab \<Rightarrow> kernel \<Rightarrow> (int option \<times> killg option \<times> kernel) result" where
  "userret devtab k = kill devtab (getpid k) k"

section \<open>The stack of a new process\<close>

definition words :: "addr \<Rightarrow> nat \<Rightarrow> addr set" where
  "words s n = (\<lambda>i. s + 4 * of_nat i) ` {..<n}"

text \<open>The words from \<open>s\<close> upwards are \<open>xs\<close>.\<close>

fun stack_is :: "mem \<Rightarrow> addr \<Rightarrow> u32 list \<Rightarrow> bool" where
  "stack_is m s [] \<longleftrightarrow> True"
| "stack_is m s (x # xs) \<longleftrightarrow> m s = x \<and> stack_is m (s + 4) xs"

lemma words_Suc: "words s (Suc n) = insert s (words (s + 4) n)"
proof -
  have "{..<Suc n} = insert 0 (Suc ` {..<n})" using lessThan_Suc_eq_insert_0 by blast
  then show ?thesis by (simp add: words_def image_image algebra_simps)
qed

lemma words_0 [simp]: "words s 0 = {}"
  by (simp add: words_def)

lemma stack_is_cong: "(\<And>x. x \<in> words s (length xs) \<Longrightarrow> m' x = m x) \<Longrightarrow> stack_is m' s xs = stack_is m s xs"
proof (induction xs arbitrary: s)
  case (Cons x xs)
  then show ?case using Cons.IH [of "s + 4"] by (simp add: words_Suc)
qed simp

lemma word_below: "n < 2 ^ 30 \<Longrightarrow> s \<notin> words (s + 4) n"
proof
  assume n: "n < 2 ^ 30" and "s \<in> words (s + 4) n"
  then obtain i where i: "i < n" "s = s + 4 + 4 * of_nat i" by (auto simp: words_def)
  then have "of_nat (4 * Suc i) = (0 :: u32)" by (simp add: add.assoc algebra_simps)
  then have "(2 :: nat) ^ 32 dvd 4 * Suc i" unfolding word_of_nat_eq_0_iff by simp
  then have "(2 :: nat) ^ 32 \<le> 4 * Suc i" by (rule dvd_imp_le) simp
  then show False using i(1) n by simp
qed

definition stk :: "addr \<times> mem \<Rightarrow> u32 list \<Rightarrow> bool" where
  "stk s xs \<longleftrightarrow> stack_is (snd s) (fst s) xs"

lemma stk_push:
  assumes "stk s xs" and "length xs < 2 ^ 30"
  shows "stk (push v s) (v # xs)"
proof -
  obtain p m where s: "s = (p, m)" by (cases s)
  have "stack_is (m(p - 4 := v)) p xs = stack_is m p xs"
    using word_below [OF assms(2), of "p - 4"] by (intro stack_is_cong) auto
  then show ?thesis using assms(1) by (simp add: stk_def push_def s)
qed

lemma fst_push [simp]: "fst (push v s) = fst s - 4"
  by (cases s) (simp add: push_def)

lemma snd_push: "x \<noteq> fst s - 4 \<Longrightarrow> snd (push v s) x = snd s x"
  by (cases s) (simp add: push_def)

lemma push_args:
  assumes "stk s xs" and "length xs + length args < 2 ^ 30"
  shows "stk (fold push (rev args) s) (args @ xs)" and "fst (fold push (rev args) s) = fst s - 4 * of_nat (length args)"
    and "x \<notin> words (fst s - 4 * of_nat (length args)) (length args) \<Longrightarrow> snd (fold push (rev args) s) x = snd s x"
  using assms(2)
proof (induction args)
  case (Cons a args)
  let ?s = "fold push (rev args) s"
  case 1
  then have "stk ?s (args @ xs)" using Cons(1) by simp
  then show ?case using stk_push [of ?s "args @ xs" a] 1 by simp
next
  case (Cons a args)
  case 2
  then show ?case using Cons(2) by (simp add: algebra_simps)
next
  case (Cons a args)
  case 3
  let ?s = "fold push (rev args) s"
  have l: "length (a # args) = Suc (length args)" by simp
  have f: "fst ?s - 4 = fst s - 4 * of_nat (Suc (length args))" using Cons(2) 3 by (simp add: algebra_simps)
  have g: "fst s - 4 * of_nat (Suc (length args)) + 4 = fst s - 4 * of_nat (length args)" by (simp add: algebra_simps)
  have "x \<notin> insert (fst ?s - 4) (words (fst s - 4 * of_nat (length args)) (length args))"
    using 3(1) unfolding f l words_Suc g .
  then have "x \<noteq> fst ?s - 4" "x \<notin> words (fst s - 4 * of_nat (length args)) (length args)" by simp_all
  then show ?case using Cons(3) 3 by (simp add: snd_push)
qed (use assms in simp_all)

lemma build_stack_ok:
  fixes saddr :: addr and args :: "u32 list"
  assumes n: "length args + 13 < 2 ^ 30"
  defines "sp \<equiv> saddr - 4 * of_nat (length args + 12)"
  shows "fst (build_stack initret funcaddr args saddr m) = sp"
    and "stack_is (snd (build_stack initret funcaddr args saddr m)) sp
      ([0, 0, saddr - 4 * of_nat (length args + 3), sp, 0, 0, 0, 0, 0x200, saddr, funcaddr, initret] @ args @ [STACKMAGIC])"
    and "x \<notin> words sp (length args + 13) \<Longrightarrow> snd (build_stack initret funcaddr args saddr m) x = m x"
proof -
  define a where "a = fold push (rev args) (saddr, m(saddr := STACKMAGIC))"
  have stk0: "stk (saddr, m(saddr := STACKMAGIC)) [STACKMAGIC]" by (simp add: stk_def)
  have a: "stk a (args @ [STACKMAGIC])" "fst a = saddr - 4 * of_nat (length args)"
    "\<And>x. x \<notin> words (saddr - 4 * of_nat (length args)) (length args) \<Longrightarrow> snd a x = (m(saddr := STACKMAGIC)) x"
    using push_args [OF stk0, of args] n by (simp_all add: a_def)
  define b where "b = push saddr (push funcaddr (push initret a))"
  have b: "stk b ([saddr, funcaddr, initret] @ args @ [STACKMAGIC])"
    using push_args(1) [OF a(1), of "[saddr, funcaddr, initret]"] n by (simp add: b_def)
  have fb: "fst b = saddr - 4 * of_nat (length args + 3)" by (simp add: b_def a algebra_simps)
  define c where "c = push 0 (push 0 (push (fst b) (push 0 (push 0 (push 0 (push 0 (push 0 (push 0x200 b))))))))"
  have c: "stk c ([0, 0, fst b, 0, 0, 0, 0, 0, 0x200, saddr, funcaddr, initret] @ args @ [STACKMAGIC])"
    using push_args(1) [OF b, of "[0, 0, fst b, 0, 0, 0, 0, 0, 0x200]"] n by (simp add: c_def)
  have fc: "fst c = sp" by (simp add: c_def fb sp_def algebra_simps)
  have eq: "build_stack initret funcaddr args saddr m = (sp, (snd c)(sp + 12 := sp))"
    by (simp add: fc [symmetric]) (simp add: build_stack_def Let_def case_prod_beta a_def b_def c_def algebra_simps)
  show "fst (build_stack initret funcaddr args saddr m) = sp" by (simp add: eq)
  define ys where "ys = [0, 0, 0, 0, 0x200, saddr, funcaddr, initret] @ args @ [STACKMAGIC]"
  have "length ys = length args + 9" by (simp add: ys_def)
  then have "sp + 12 \<notin> words (sp + 16) (length ys)" using word_below [of "length args + 9" "sp + 12"] n by (simp add: add.assoc)
  then have "stack_is ((snd c)(sp + 12 := sp)) (sp + 16) ys = stack_is (snd c) (sp + 16) ys"
    by (intro stack_is_cong) auto
  moreover have "stk c ([0, 0, fst b, 0] @ ys)" using c by (simp add: ys_def)
  ultimately have "stack_is ((snd c)(sp + 12 := sp)) sp ([0, 0, fst b, sp] @ ys)"
    by (simp add: stk_def fc add.assoc)
  then show "stack_is (snd (build_stack initret funcaddr args saddr m)) sp
      ([0, 0, saddr - 4 * of_nat (length args + 3), sp, 0, 0, 0, 0, 0x200, saddr, funcaddr, initret] @ args @ [STACKMAGIC])"
    unfolding eq fb snd_conv ys_def append_Cons append_Nil .
  show "snd (build_stack initret funcaddr args saddr m) x = m x" if x: "x \<notin> words sp (length args + 13)"
  proof -
    have w: "x \<noteq> sp + 4 * of_nat i" if "i < length args + 13" for i using x that by (auto simp: words_def)
    have nx: "x \<noteq> sp" "x \<noteq> sp + 4" "x \<noteq> sp + 8" "x \<noteq> sp + 12" "x \<noteq> sp + 16" "x \<noteq> sp + 20" "x \<noteq> sp + 24" "x \<noteq> sp + 28"
      "x \<noteq> sp + 32" "x \<noteq> sp + 36" "x \<noteq> sp + 40" "x \<noteq> sp + 44"
      using w [of 0] w [of 1] w [of 2] w [of 3] w [of 4] w [of 5] w [of 6] w [of 7] w [of 8] w [of 9] w [of 10] w [of 11] by simp_all
    have fb: "fst b = sp + 36" and fa: "fst a = sp + 48" by (simp_all add: fb a(2) sp_def algebra_simps)
    have "snd c x = snd b x" unfolding c_def using nx by (simp add: snd_push fb add_diff_eq [symmetric])
    also have "\<dots> = snd a x" unfolding b_def using nx by (simp add: snd_push fa add_diff_eq [symmetric])
    also have "\<dots> = (m(saddr := STACKMAGIC)) x"
    proof (rule a(3))
      have "saddr - 4 * of_nat (length args) = sp + 48" using fa a(2) by simp
      moreover have "x \<noteq> sp + 48 + 4 * of_nat i" if "i < length args" for i using w [of "i + 12"] that by (simp add: algebra_simps)
      ultimately show "x \<notin> words (saddr - 4 * of_nat (length args)) (length args)" by (auto simp: words_def)
    qed
    also have "\<dots> = m x" using w [of "length args + 12"] by (simp add: sp_def)
    finally show ?thesis using nx by (simp add: eq)
  qed
qed

text \<open>The words of a stack lie in the block \<open>getstk\<close> took.\<close>

lemma unat_of_nat_u32: "n < 2 ^ 32 \<Longrightarrow> unat (of_nat n :: u32) = n"
  by (simp add: unsigned_of_nat take_bit_nat_eq_self)

lemma words_in_block:
  assumes "block_ok (r, S)" and "4 * n \<le> unat S"
  shows "words (r + S - 4 * of_nat n) n \<subseteq> bytes (r, S)"
proof
  fix x assume "x \<in> words (r + S - 4 * of_nat n) n"
  then obtain i where i: "i < n" "x = r + S - 4 * of_nat n + 4 * of_nat i" by (auto simp: words_def)
  have "of_nat (unat r + (unat S - 4 * n) + 4 * i) = r + (S - 4 * of_nat n) + 4 * of_nat i"
    using assms(2) by (simp add: of_nat_diff)
  moreover have "\<dots> = x" unfolding i(2) by (simp add: algebra_simps)
  ultimately have x: "x = of_nat (unat r + (unat S - 4 * n) + 4 * i)" by simp
  have "unat r + (unat S - 4 * n) + 4 * i < unat r + unat S" "unat r + unat S < 2 ^ 32"
    using assms i(1) by (auto simp: block_ok_def)
  then have "unat x = unat r + (unat S - 4 * n) + 4 * i" unfolding x
    by (intro unat_of_nat_u32) linarith
  then show "x \<in> bytes (r, S)" using assms(2) i(1) unfolding bytes_def fst_conv snd_conv mem_Collect_eq by linarith
qed

section \<open>Choosing a process id\<close>

lemma newpid_loop_spec:
  assumes "newpid_loop n pt nx = (p, nx')" and "0 \<le> nx"
  shows "0 \<le> nx'" and "p \<noteq> SYSERR \<Longrightarrow> pid_ok p \<and> prstate (pt p) = PR_FREE"
    and "p = SYSERR \<Longrightarrow> i < n \<Longrightarrow> prstate (pt ((nx + int i) mod NPROC)) \<noteq> PR_FREE"
  using assms
proof (induction n arbitrary: nx i)
  case (Suc n)
  { case 1
    then show ?case using Suc(1) [of "nx mod NPROC + 1"] by (auto simp: Let_def layout_defs split: if_splits)
  next
    case 2
    then show ?case using Suc(2) [of "nx mod NPROC + 1"] by (auto simp: Let_def pid_ok_def layout_defs split: if_splits)
  next
    case 3
    then have "nx mod NPROC \<noteq> SYSERR" by (simp add: SYSERR_def layout_defs)
    then have here: "prstate (pt (nx mod NPROC)) \<noteq> PR_FREE" "newpid_loop n pt (nx mod NPROC + 1) = (p, nx')"
      using 3 by (auto simp: Let_def split: if_splits)
    show ?case
    proof (cases i)
      case 0
      then show ?thesis using here by simp
    next
      case (Suc j)
      have "(nx mod NPROC + 1 + int j) mod NPROC = (nx + int i) mod NPROC"
        unfolding Suc using mod_add_left_eq [of nx NPROC "1 + int j"] by (simp add: add.assoc)
      then show ?thesis using Suc.IH(3) [of j "nx mod NPROC + 1"] here 3 Suc by (simp add: layout_defs)
    qed }
qed simp_all

lemma newpid_spec:
  assumes "newpid k = (p, k')" and "0 \<le> nextpid k"
  shows "k' = k\<lparr>nextpid := nextpid k'\<rparr>" and "0 \<le> nextpid k'"
    and "p \<noteq> SYSERR \<Longrightarrow> pid_ok p \<and> prstate (proctab k p) = PR_FREE"
    and "p = SYSERR \<Longrightarrow> pid_ok x \<Longrightarrow> prstate (proctab k x) \<noteq> PR_FREE"
proof -
  obtain nx where l: "newpid_loop (nat NPROC) (proctab k) (nextpid k) = (p, nx)" and k': "k' = k\<lparr>nextpid := nx\<rparr>"
    using assms(1) by (auto simp: newpid_def split: prod.splits)
  note s = newpid_loop_spec [OF l assms(2)]
  show "k' = k\<lparr>nextpid := nextpid k'\<rparr>" "0 \<le> nextpid k'" using s(1) by (simp_all add: k')
  show "p \<noteq> SYSERR \<Longrightarrow> pid_ok p \<and> prstate (proctab k p) = PR_FREE" by (rule s(2))
  assume "p = SYSERR" and x: "pid_ok x"
  let ?i = "nat ((x - nextpid k) mod NPROC)"
  have "(nextpid k + int ?i) mod NPROC = x" using x by (simp add: layout_defs mod_simps pid_ok_def)
  then show "prstate (proctab k x) \<noteq> PR_FREE" using s(3) [OF \<open>p = SYSERR\<close>, of ?i] by (simp add: layout_defs nat_less_iff)
qed

section \<open>What a new process looks like\<close>

text \<open>An entry on no queue may change to another such entry, with everything outside the queues.\<close>

lemma kidle_entry:
  assumes k: "kidle k Q" and p: "pid_ok p" "p \<noteq> currpid k" "p \<noteq> NULLPROC"
    and h: "home k (proctab k p) = None" "home k e = None" "prstate e \<noteq> PR_CURR" "- (2 ^ 15) \<le> prprio e" "prprio e < 2 ^ 15"
    and pt: "proctab k' = (proctab k)(p := e)"
    and fr: "queuetab k' = queuetab k" "readylist k' = readylist k" "sleepq k' = sleepq k" "semtab k' = semtab k"
      "currpid k' = currpid k" "ndefers k' = ndefers k"
  shows "kidle k' Q"
proof -
  have b: "kbase k Q" and i: "kinv k Q" using k by (auto simp: kidle_def kinv_def)
  have "prstate e \<noteq> PR_WAIT" using h(2) by (auto simp: home_def)
  moreover have "pid_ok (currpid k)" "0 \<le> ndefers k" using b by (auto simp: kbase_def)
  ultimately have "kbase k' Q"
    using b p h fr by (intro kbase_move [OF b p(1) _ pt]) (auto simp: same_queues_def kbase_def placed_def)
  then have "kinv k' Q" using i p(2) h(3) by (auto simp: kinv_def pt fr)
  then show ?thesis by (rule kidle_intro [OF k]) (simp_all add: fr)
qed

definition stack_size :: "u32 \<Rightarrow> u32" where
  "stack_size ssize = roundmb (if ssize < MINSTK then MINSTK else ssize)"

text \<open>The block of a stack whose highest word is \<open>saddr\<close>.\<close>

definition stack_block :: "addr \<Rightarrow> u32 \<Rightarrow> block" where
  "stack_block saddr len = (saddr - len + 4, len)"

text \<open>The heap: its free list has the blocks \<open>bs\<close>.\<close>

definition heap_inv :: "vm \<Rightarrow> block list \<Rightarrow> bool" where
  "heap_inv v bs \<longleftrightarrow> pool_inv (memlist v) (minheap v) (maxheap v) (vmem v) bs"

lemma stack_size_ok:
  assumes "unat ssize \<le> 2 ^ 32 - 8"
  shows "req_ok (stack_size ssize)" "400 \<le> unat (stack_size ssize)"
proof -
  let ?s = "if ssize < MINSTK then MINSTK else ssize"
  have s: "?s \<noteq> 0" "unat ?s \<le> 2 ^ 32 - 8" "400 \<le> unat ?s"
    using assms by (auto simp: MINSTK_def word_less_nat_alt)
  show "req_ok (stack_size ssize)" unfolding stack_size_def by (rule roundmb_req_ok [OF s(1,2)])
  have "unat ?s \<le> unat (roundmb ?s)" using unat_roundmb [OF s(2)] by linarith
  then show "400 \<le> unat (stack_size ssize)" using s(3) by (simp add: stack_size_def)
qed

text \<open>The frame a new process starts with, from its stack pointer upwards.\<close>

definition start_frame :: "addr \<Rightarrow> addr \<Rightarrow> u32 list \<Rightarrow> addr \<Rightarrow> addr \<Rightarrow> u32 list" where
  "start_frame initret funcaddr args saddr sp =
    [0, 0, saddr - 4 * of_nat (length args + 3), sp, 0, 0, 0, 0, 0x200, saddr, funcaddr, initret] @ args @ [STACKMAGIC]"

lemma stack_built:
  assumes h: "heap_inv v bs" and n: "unat ssize \<le> 2 ^ 32 - 8" and b: "\<exists>b \<in> set bs. unat (stack_size ssize) \<le> unat (snd b)"
    and a: "4 * (length args + 13) \<le> unat (stack_size ssize)"
  shows "\<exists>saddr m sp m' bs'. getstk (memlist v) (stack_size ssize) (vmem v) = Ret (saddr, m) \<and> saddr \<noteq> USYSERR \<and>
    build_stack initret funcaddr args saddr m = (sp, m') \<and> stack_is m' sp (start_frame initret funcaddr args saddr sp) \<and>
    words sp (length args + 13) \<subseteq> region bs - region bs' \<and> heap_inv (v\<lparr>vmem := m'\<rparr>) bs' \<and>
    block_ok (stack_block saddr (stack_size ssize)) \<and> bytes (stack_block saddr (stack_size ssize)) \<subseteq> region bs \<and>
    region bs' = region bs - bytes (stack_block saddr (stack_size ssize))"
proof -
  let ?S = "stack_size ssize"
  note ok = stack_size_ok [OF n]
  obtain r m bs' where g: "getstk_area (memlist v) ?S (vmem v) = Ret (r, m)" "pool_inv (memlist v) (minheap v) (maxheap v) m bs'"
    "block_ok (r, ?S)" "bytes (r, ?S) \<subseteq> region bs" "region bs' = region bs - bytes (r, ?S)"
    using pool_getstk [OF h [unfolded heap_inv_def] ok(1)] b by (auto simp: not_le [symmetric])
  let ?p = "r + ?S - 4"
  let ?sp = "?p - 4 * of_nat (length args + 12)" and ?m = "snd (build_stack initret funcaddr args ?p m)"
  have "r \<noteq> USYSERR" using pool.block_ok_not_USYSERR g(3) by blast
  then have gs: "getstk (memlist v) ?S (vmem v) = Ret (?p, m)" "?p \<noteq> USYSERR"
    using getstk_area_ok [OF g(1)] stack_word_ok [OF g(3)] by auto
  have "4 * (length args + 13) < 4294967296" using a unat_u32_less [of ?S] by (rule le_less_trans)
  then have len: "length args + 13 < 2 ^ 30" by simp
  note bs = build_stack_ok [OF len, where initret = initret and funcaddr = funcaddr and saddr = ?p and m = m]
  have "?sp = r + ?S - 4 * of_nat (length args + 13)" by (simp add: algebra_simps)
  then have w: "words ?sp (length args + 13) \<subseteq> bytes (r, ?S)" using words_in_block [OF g(3) a] by (simp only:)
  have out: "x \<notin> region bs'" "x \<noteq> memlist v" "x \<noteq> memlist v + 4" if "x \<in> words ?sp (length args + 13)" for x
    using that w g(4,5) h unfolding heap_inv_def pool_inv_def by blast+
  have fr: "?m x = m x" if "x \<notin> words ?sp (length args + 13)" for x using bs(3) that by simp
  have fl: "freelist m (memlist v) bs'" using g(2) by (simp add: pool_inv_def)
  have "freelist ?m (memlist v) bs'"
    by (rule freelist_cong [OF fl]) (use out fr in blast)+
  then have "heap_inv (v\<lparr>vmem := ?m\<rparr>) bs'" using g(2) by (simp add: heap_inv_def pool_inv_def)
  moreover have "build_stack initret funcaddr args ?p m = (?sp, ?m)" using bs(1) by (metis prod.collapse)
  moreover have "stack_is ?m ?sp (start_frame initret funcaddr args ?p ?sp)" using bs(2) by (simp add: start_frame_def)
  moreover have "words ?sp (length args + 13) \<subseteq> region bs - region bs'" using w g(4,5) by auto
  moreover have "stack_block ?p ?S = (r, ?S)" by (simp add: stack_block_def)
  ultimately show ?thesis using gs g(3-5) by metis
qed

text \<open>The process table entry of a new process.\<close>

definition fresh_entry :: "int \<Rightarrow> addr \<Rightarrow> addr \<Rightarrow> u32 \<Rightarrow> int \<Rightarrow> string \<Rightarrow> kernel \<Rightarrow> procent" where
  "fresh_entry pid saddr sp ssize priority name k =
    (new_entry (stack_size ssize) priority name (currpid k) False (proctab k pid))
      \<lparr>pdbr := pdbr (proctab k 0), hsize := 0, vfree := 0, prstkbase := saddr, prstkptr := sp\<rparr>"

lemma create_eq:
  assumes "1 \<le> priority" and "newpid k = (pid, k1)" and "k1 = k\<lparr>nextpid := nx\<rparr>" and "pid_ok pid" and "pid \<noteq> 0"
    and "getstk (memlist (kvm k)) (stack_size ssize) (vmem (kvm k)) = Ret (saddr, m)" and "saddr \<noteq> USYSERR"
    and "build_stack initret funcaddr args saddr m = (sp, m')"
  shows "create initret funcaddr ssize priority name args k = Ret (pid,
    k\<lparr>nextpid := nx, prcount := wrap32 (prcount k + 1), kvm := (kvm k)\<lparr>vmem := m'\<rparr>,
      proctab := (proctab k)(pid := fresh_entry pid saddr sp ssize priority name k)\<rparr>)"
proof -
  have "pid \<noteq> SYSERR" using assms(4) by (auto simp: pid_ok_def SYSERR_def)
  then show ?thesis
    using assms by (simp add: create_def Let_def stack_size_def [symmetric] fresh_entry_def new_entry_def getpid_def)
qed

lemma create_ok:
  assumes k: "kidle k Q" and h: "heap_inv (kvm k) bs" and nx: "0 \<le> nextpid k" and pr: "1 \<le> priority" "priority < 2 ^ 15"
    and f: "\<exists>p. pid_ok p \<and> prstate (proctab k p) = PR_FREE" and n: "unat ssize \<le> 2 ^ 32 - 8"
    and b: "\<exists>b \<in> set bs. unat (stack_size ssize) \<le> unat (snd b)" and a: "4 * (length args + 13) \<le> unat (stack_size ssize)"
  shows "\<exists>pid saddr sp k' bs'. create initret funcaddr ssize priority name args k = Ret (pid, k') \<and>
    pid_ok pid \<and> prstate (proctab k pid) = PR_FREE \<and> pid \<noteq> NULLPROC \<and> pid \<noteq> currpid k \<and>
    proctab k' = (proctab k)(pid := fresh_entry pid saddr sp ssize priority name k) \<and>
    stack_is (vmem (kvm k')) sp (start_frame initret funcaddr args saddr sp) \<and>
    words sp (length args + 13) \<subseteq> region bs - region bs' \<and> kidle k' Q \<and> heap_inv (kvm k') bs' \<and>
    block_ok (stack_block saddr (stack_size ssize)) \<and> bytes (stack_block saddr (stack_size ssize)) \<subseteq> region bs \<and>
    region bs' = region bs - bytes (stack_block saddr (stack_size ssize)) \<and> prcount k' = wrap32 (prcount k + 1) \<and>
    0 \<le> nextpid k' \<and> currpid k' = currpid k \<and> minheap (kvm k') = minheap (kvm k) \<and> maxheap (kvm k') = maxheap (kvm k)"
proof -
  obtain pid k1 where np: "newpid k = (pid, k1)" by (cases "newpid k")
  note s = newpid_spec [OF np nx]
  have "pid \<noteq> SYSERR" using s(4) f by blast
  then have pid: "pid_ok pid" "prstate (proctab k pid) = PR_FREE" using s(3) by simp_all
  have i: "kinv k Q" "prstate (proctab k NULLPROC) \<noteq> PR_FREE" using k by (auto simp: kidle_def kinv_def kbase_def)
  have ne: "pid \<noteq> NULLPROC" "pid \<noteq> currpid k" using pid(2) i kinv_currpid [OF i(1)] by auto
  obtain saddr m sp m' bs' where st: "getstk (memlist (kvm k)) (stack_size ssize) (vmem (kvm k)) = Ret (saddr, m)" "saddr \<noteq> USYSERR"
    "build_stack initret funcaddr args saddr m = (sp, m')" "stack_is m' sp (start_frame initret funcaddr args saddr sp)"
    "words sp (length args + 13) \<subseteq> region bs - region bs'" "heap_inv ((kvm k)\<lparr>vmem := m'\<rparr>) bs'"
    "block_ok (stack_block saddr (stack_size ssize))" "bytes (stack_block saddr (stack_size ssize)) \<subseteq> region bs"
    "region bs' = region bs - bytes (stack_block saddr (stack_size ssize))"
    using stack_built [OF h n b a, of initret funcaddr] by blast
  let ?e = "fresh_entry pid saddr sp ssize priority name k"
  let ?k = "k\<lparr>nextpid := nextpid k1, prcount := wrap32 (prcount k + 1), kvm := (kvm k)\<lparr>vmem := m'\<rparr>, proctab := (proctab k)(pid := ?e)\<rparr>"
  have "create initret funcaddr ssize priority name args k = Ret (pid, ?k)"
    by (rule create_eq [OF pr(1) np s(1) pid(1) _ st(1-3)]) (use ne in \<open>simp add: NULLPROC_def\<close>)
  moreover have "kidle ?k Q"
    by (rule kidle_entry [OF k pid(1) ne(2,1), where e = ?e]) (use pid(2) pr in \<open>simp_all add: home_def fresh_entry_def new_entry_def\<close>)
  ultimately show ?thesis
    using pid ne st(4-9) s(2)
    by (intro exI [of _ pid] exI [of _ saddr] exI [of _ sp] exI [of _ ?k] exI [of _ bs']) simp
qed

section \<open>Ending a process keeps the kernel consistent\<close>

definition stack_taken :: "kernel \<Rightarrow> int \<Rightarrow> block list \<Rightarrow> bool" where
  "stack_taken k p bs \<longleftrightarrow> (let b = stack_block (prstkbase (proctab k p)) (prstklen (proctab k p)) in
    block_ok b \<and> bytes b \<subseteq> {minheap (kvm k)..maxheap (kvm k)} \<and> bytes b \<inter> region bs = {})"

text \<open>The descriptors that \<open>create\<close> gives a process are the console's; nothing happens to the kernel when the console is closed.\<close>

definition on_console :: "procent \<Rightarrow> bool" where
  "on_console e \<longleftrightarrow> (\<forall>i < 3. prdesc e i = CONSOLE)"

definition console_plain :: "kernel devtab \<Rightarrow> bool" where
  "console_plain devtab \<longleftrightarrow> dvclose (devtab CONSOLE) = (\<lambda>_. ionull)"

lemma console_plain_conf [simp]: "console_plain (conf_devtab drv names)"
  by (simp add: console_plain_def)

lemma close_console: "console_plain devtab \<Longrightarrow> close_dev devtab CONSOLE k = Ret (OK, k)"
  by (simp add: close_dev_def console_plain_def ionull_def isbaddev_def CONSOLE_def NDEVS_def)

lemma close_loop_console: "console_plain devtab \<Longrightarrow> on_console (proctab k p) \<Longrightarrow> close_loop devtab p [0, 1, 2] k = Ret k"
  by (simp add: close_console on_console_def)

definition freed :: "int \<Rightarrow> mem \<Rightarrow> kernel \<Rightarrow> kernel" where
  "freed p m k = k\<lparr>kvm := (kvm k)\<lparr>vmem := m\<rparr>, proctab := (proctab k)(p := (proctab k p)\<lparr>prstate := PR_FREE\<rparr>)\<rparr>"

definition victim :: "int \<Rightarrow> procent \<Rightarrow> killg" where
  "victim p e = \<lparr>g_pid = p, g_prstate = prstate e, g_prsem = prsem e, g_pruser = pruser e, g_prparent = prparent e\<rparr>"

lemma kill_release_ok:
  assumes c: "console_plain devtab" "on_console (proctab k p)" and p: "pid_ok p" and h: "heap_inv (kvm k) bs" and t: "stack_taken k p bs"
  obtains m bs' where "kill_release devtab p k = Ret (victim p (proctab k p), freed p m k)"
    "heap_inv ((kvm k)\<lparr>vmem := m\<rparr>) bs'" "region bs' = region bs \<union> bytes (stack_block (prstkbase (proctab k p)) (prstklen (proctab k p)))"
proof -
  let ?v = "kvm k" and ?e = "proctab k p"
  let ?b = "prstkbase ?e - prstklen ?e + 4" and ?n = "prstklen ?e"
  have b: "block_ok (?b, ?n)" "bytes (?b, ?n) \<subseteq> {minheap ?v..maxheap ?v}" "bytes (?b, ?n) \<inter> region bs = {}"
    using t by (auto simp: stack_taken_def stack_block_def Let_def)
  obtain m bs' where m: "freestk_area (memlist ?v) (minheap ?v) (maxheap ?v) ?b ?n (vmem ?v) = Ret (OK, m)"
    "pool_inv (memlist ?v) (minheap ?v) (maxheap ?v) m bs'" "region bs' = region bs \<union> bytes (?b, ?n)"
    using stk.release_law [OF h [unfolded heap_inv_def] b] by blast
  have "freestk (memlist ?v) (prstkbase ?e) ?n (minheap ?v) (maxheap ?v) (vmem ?v) = Ret (OK, m)"
    using m(1) by (simp add: freestk_area_def)
  then show thesis
    using that [of m bs'] m close_loop_console [OF c] p
    by (simp add: kill_release_def Let_def freed_def victim_def heap_inv_def stack_block_def del: close_loop.simps)
qed

text \<open>A waiting or ready process leaves its queue.\<close>

definition bump :: "int \<Rightarrow> kernel \<Rightarrow> kernel" where
  "bump p k = (if prstate (proctab k p) = PR_WAIT
    then set_scount (prsem (proctab k p)) (wrap32 (scount (semtab k (prsem (proctab k p))) + 1)) k else k)"

lemma unqueue_kidle:
  assumes k: "kidle k Q" and p: "pid_ok p" "p \<noteq> NULLPROC" and s: "prstate (proctab k p) \<in> {PR_READY, PR_WAIT}"
  obtains qt' Q' where "getitem p (queuetab k) = Ret (p, qt')" "kidle (limbo p ((bump p k)\<lparr>queuetab := qt'\<rparr>)) Q'"
proof -
  have i: "kinv k Q" and b: "kbase k Q" and sc: "sem_counts k Q" using k by (auto simp: kidle_def kinv_def)
  let ?s = "prsem (proctab k p)"
  obtain q where q: "home k (proctab k p) = Some q" "q \<in> qids k" "q \<noteq> sleepq k"
    "prstate (proctab k p) = PR_READY \<Longrightarrow> q = readylist k" "prstate (proctab k p) = PR_WAIT \<Longrightarrow> q = squeue (semtab k ?s) \<and> \<not> isbadsem ?s \<and> q \<noteq> readylist k"
    using s p b squeue_qids [of ?s k] squeue_other [of k ?s] by (auto simp: home_def kbase_def qids_ok_def procs_ok_def)
  have "p \<in> set (Q q)" using b p(1) q(1,2) by (simp add: kbase_def placed_def)
  then obtain xs ys where Q: "Q q = xs @ p # ys" by (auto simp: in_set_conv_decomp)
  obtain qt' where g: "getitem p (queuetab k) = Ret (p, qt')" "queues (qids k) qt' (Q(q := xs @ ys))" "keeps_keys (queuetab k) qt'"
    using queues_getitem [of "qids k" "queuetab k" Q q xs p ys] b Q q(2) by (auto simp: kbase_def)
  let ?Q = "Q(q := xs @ ys)" and ?k = "limbo p ((bump p k)\<lparr>queuetab := qt'\<rparr>)"
  have sq: "squeue (semtab (bump p k) s) = squeue (semtab k s)" for s by (simp add: bump_def)
  have bk: "k\<lparr>queuetab := qt', semtab := semtab (bump p k)\<rparr> = (bump p k)\<lparr>queuetab := qt'\<rparr>"
    by (simp add: bump_def set_scount_def upd_sem_def)
  have "kinv (limbo p (k\<lparr>queuetab := qt', semtab := semtab (bump p k)\<rparr>)) ?Q"
  proof (rule kinv_unqueue [OF i q(2) Q p(2) g(2) sq])
    show "desc qt' (?Q (readylist k))"
      using b Q g(3) desc_remove [of "queuetab k" xs p ys] desc_cong [of "?Q (readylist k)" qt' "queuetab k"]
      by (auto simp: kbase_def keeps_keys_def)
    show "deltas_ok qt' (?Q (sleepq k))"
      using b g(3) q(3) deltas_ok_cong [of "Q (sleepq k)" qt' "queuetab k"] by (simp add: kbase_def keeps_keys_def)
  qed
  then have inv: "kinv ?k ?Q" by (simp only: bk)
  have nd: "ndefers ?k = 0" using k by (simp add: kidle_def limbo_def bump_def)
  have "sem_counts ?k ?Q"
  proof (cases "prstate (proctab k p) = PR_WAIT")
    case True
    note r = scount_range [OF k, of ?s] q(5) [OF True]
    have "scount (semtab k ?s) < 0" "int (length (xs @ ys)) = - scount (semtab k ?s) - 1" using r Q by auto
    then have "scount (semtab ?k ?s) = scount (semtab k ?s) + 1" "int (length (xs @ ys)) = max 0 (- scount (semtab ?k ?s))" "scount (semtab ?k ?s) < 2 ^ 31"
      using r by (simp_all add: limbo_def bump_def True)
    then show ?thesis
      using r b True by (intro sem_counts_one [OF sc, of ?s]) (auto simp: limbo_def bump_def kbase_def)
  next
    case False
    then show ?thesis
      using q(4) s b by (intro sem_counts_frame [OF sc, of ?k ?Q]) (auto simp: kbase_def limbo_def bump_def)
  qed
  then show thesis using that g(1) inv nd by (simp add: kidle_def)
qed

text \<open>\<open>kill\<close> of a process that has no address space of its own, up to the \<open>switch\<close>.\<close>

definition killing :: "int \<Rightarrow> mem \<Rightarrow> kernel \<Rightarrow> kernel" where
  "killing p m k = kernel_mode_enter (freed p m (k\<lparr>prcount := prcount k - 1\<rparr>))"

lemma killing_fields [simp]:
  "queuetab (killing p m k) = queuetab k" "readylist (killing p m k) = readylist k" "sleepq (killing p m k) = sleepq k"
  "semtab (killing p m k) = semtab k" "currpid (killing p m k) = currpid k" "ndefers (killing p m k) = ndefers k"
  "proctab (killing p m k) = (proctab k)(p := (proctab k p)\<lparr>prstate := PR_FREE\<rparr>)" "kvm (killing p m k) = (kvm k)\<lparr>vmem := m\<rparr>"
  "prcount (killing p m k) = prcount k - 1"
  by (simp_all add: killing_def freed_def kernel_mode_enter_def)

lemma kill_eq:
  assumes c: "console_plain devtab" "on_console (proctab k p)" and p: "pid_ok p" "p \<noteq> NULLPROC" "prstate (proctab k p) \<noteq> PR_FREE" "\<not> pruser (proctab k p)"
    and n: "2 < prcount k" "prcount k < 2 ^ 31" and h: "heap_inv (kvm k) bs" and t: "stack_taken k p bs"
  obtains m bs' where "kill devtab p k = rbind (kill_rest (currpid k) (victim p (proctab k p)) (killing p m k)) (\<lambda>(r, k'). Ret (r, Some (victim p (proctab k p)), k'))"
    "heap_inv ((kvm k)\<lparr>vmem := m\<rparr>) bs'" "region bs' = region bs \<union> bytes (stack_block (prstkbase (proctab k p)) (prstklen (proctab k p)))"
proof -
  let ?k = "k\<lparr>prcount := prcount k - 1\<rparr>"
  have hk: "heap_inv (kvm ?k) bs" "stack_taken ?k p bs" "on_console (proctab ?k p)" using h t c(2) by (simp_all add: stack_taken_def)
  obtain m bs' where r: "kill_release devtab p ?k = Ret (victim p (proctab ?k p), freed p m ?k)"
    "heap_inv ((kvm ?k)\<lparr>vmem := m\<rparr>) bs'" "region bs' = region bs \<union> bytes (stack_block (prstkbase (proctab ?k p)) (prstklen (proctab ?k p)))"
    by (rule kill_release_ok [OF c(1) hk(3) p(1) hk(1,2)]) (rule that)
  have w: "wrap32 (prcount k - 1) = prcount k - 1" using n by simp
  have "kill devtab p k = rbind (kill_rest (currpid k) (victim p (proctab k p)) (killing p m k)) (\<lambda>(r, k'). Ret (r, Some (victim p (proctab k p)), k'))"
  proof -
    define K where "K = killing p m k"
    have K: "kernel_mode_enter (freed p m ?k) = K" "proctab K p = (proctab k p)\<lparr>prstate := PR_FREE\<rparr>" "currpid K = currpid k"
      by (simp_all add: K_def) (simp add: killing_def)
    have vk: "K\<lparr>kvm := kvm K\<rparr> = K" by simp
    show ?thesis
      unfolding K_def [symmetric] using p n r(1) by (simp add: kill_def Let_def w isbadpid_pid_ok freevmem_def K vk victim_def)
  qed
  then show thesis using that [of m bs'] r(2,3) by simp
qed

lemma kill_rest_stay:
  assumes "kill_switch c (victim p e) k = Ret (False, k')" and "pid_ok p" and "\<not> pruser (proctab k' p)" and "pid_ok (currpid k')"
  shows "kill_rest c (victim p e) k = Ret (Some OK, k'\<lparr>cr3 := pdbr (proctab k' (currpid k'))\<rparr>)"
  using assms by (simp add: kill_rest_def victim_def destroy_directory_def kernel_mode_exit_def)

lemma kill_other:
  assumes k: "kidle k Q" and c: "console_plain devtab" "on_console (proctab k p)" and p: "pid_ok p" "p \<noteq> NULLPROC" "p \<noteq> currpid k" "\<not> pruser (proctab k p)"
    and s: "prstate (proctab k p) \<in> {PR_READY, PR_WAIT, PR_SUSP, PR_RECV}"
    and n: "2 < prcount k" "prcount k < 2 ^ 31" and h: "heap_inv (kvm k) bs" and t: "stack_taken k p bs"
  shows "\<exists>g k' Q' bs'. kill devtab p k = Ret (Some OK, g, k') \<and> kidle k' Q' \<and> prstate (proctab k' p) = PR_FREE \<and> prcount k' = prcount k - 1 \<and>
    currpid k' = currpid k \<and> heap_inv (kvm k') bs' \<and> region bs' = region bs \<union> bytes (stack_block (prstkbase (proctab k p)) (prstklen (proctab k p)))"
proof -
  let ?g = "victim p (proctab k p)" and ?e = "(proctab k p)\<lparr>prstate := PR_FREE\<rparr>"
  have fr: "prstate (proctab k p) \<noteq> PR_FREE" using s by auto
  obtain m bs' where e: "kill devtab p k = rbind (kill_rest (currpid k) ?g (killing p m k)) (\<lambda>(r, k'). Ret (r, Some ?g, k'))"
    "heap_inv ((kvm k)\<lparr>vmem := m\<rparr>) bs'" "region bs' = region bs \<union> bytes (stack_block (prstkbase (proctab k p)) (prstklen (proctab k p)))"
    by (rule kill_eq [OF c p(1,2) fr p(4) n h t]) (rule that)
  have i: "kinv k Q" "pid_ok (currpid k)" "- (2 ^ 15) \<le> prprio (proctab k p)" "prprio (proctab k p) < 2 ^ 15"
    using k p(1) by (auto simp: kidle_def kinv_def kbase_def procs_ok_def)
  obtain k1 Q' where sw: "kill_switch (currpid k) ?g (killing p m k) = Ret (False, k1)" "kidle k1 Q'"
    "proctab k1 = (proctab k)(p := ?e)" "currpid k1 = currpid k" "kvm k1 = (kvm k)\<lparr>vmem := m\<rparr>" "prcount k1 = prcount k - 1"
  proof (cases "prstate (proctab k p) \<in> {PR_READY, PR_WAIT}")
    case True
    obtain qt' Q' where u: "getitem p (queuetab k) = Ret (p, qt')" "kidle (limbo p ((bump p k)\<lparr>queuetab := qt'\<rparr>)) Q'"
      by (rule unqueue_kidle [OF k p(1,2) True]) (rule that)
    let ?k1 = "(killing p m k)\<lparr>queuetab := qt', semtab := semtab (bump p k)\<rparr>"
    have "kidle ?k1 Q'"
      by (rule kidle_entry [OF u(2) p(1) _ p(2), where e = ?e]) (use p(3) i in \<open>simp_all add: limbo_def bump_def home_def\<close>)
    moreover have "kill_switch (currpid k) ?g (killing p m k) = Ret (False, ?k1)"
      using u(1) True by (auto simp: kill_switch_def victim_def bump_def set_scount_def upd_sem_def)
    ultimately show ?thesis using that by simp
  next
    case False
    then have "kill_switch (currpid k) ?g (killing p m k) = Ret (False, killing p m k)"
      using s by (auto simp: kill_switch_def victim_def)
    moreover have "kidle (killing p m k) Q"
      by (rule kidle_entry [OF k p(1,3,2), where e = ?e]) (use False s i in \<open>auto simp: home_def\<close>)
    ultimately show ?thesis using that by simp
  qed
  define K where "K = k1\<lparr>cr3 := pdbr (proctab k1 (currpid k1))\<rparr>"
  have KF: "prstate (proctab K p) = PR_FREE" "currpid K = currpid k" "kvm K = (kvm k)\<lparr>vmem := m\<rparr>" "prcount K = prcount k - 1"
    unfolding K_def using sw(3-6) by simp_all
  have "kill_rest (currpid k) ?g (killing p m k) = Ret (Some OK, K)"
    unfolding K_def by (rule kill_rest_stay [OF sw(1) p(1)]) (use sw(3,4) p(4) i(2) in simp_all)
  then have "kill devtab p k = Ret (Some OK, Some ?g, K)" using e(1) by simp
  moreover have "kidle K Q'"
  proof -
    have k1: "kinv k1 Q'" "0 \<le> ndefers k1" using sw(2) by (auto simp: kidle_def)
    have "kinv K Q'" unfolding K_def by (rule kinv_cong [OF k1(1)]) (use k1(2) in simp_all)
    then show ?thesis by (rule kidle_intro [OF sw(2)]) (simp_all add: K_def)
  qed
  moreover have "heap_inv (kvm K) bs'" unfolding KF(3) by (rule e(2))
  ultimately show ?thesis using KF(1,2,4) e(3) by blast
qed

lemma kill_self:
  assumes k: "kidle k Q" and c: "console_plain devtab" "on_console (proctab k (currpid k))" and p: "currpid k \<noteq> NULLPROC" "\<not> pruser (proctab k (currpid k))"
    and n: "2 < prcount k" "prcount k < 2 ^ 31" and h: "heap_inv (kvm k) bs" and t: "stack_taken k (currpid k) bs"
  shows "\<exists>g k' Q' bs'. kill devtab (currpid k) k = Ret (None, g, k') \<and> kidle k' Q' \<and> prstate (proctab k' (currpid k)) = PR_FREE \<and>
    prcount k' = prcount k - 1 \<and> currpid k' \<noteq> currpid k \<and> heap_inv (kvm k') bs' \<and>
    region bs' = region bs \<union> bytes (stack_block (prstkbase (proctab k (currpid k))) (prstklen (proctab k (currpid k))))"
proof -
  let ?p = "currpid k"
  let ?g = "victim ?p (proctab k ?p)" and ?e = "(proctab k ?p)\<lparr>prstate := PR_FREE\<rparr>"
  have i: "kinv k Q" "pid_ok ?p" "prstate (proctab k ?p) = PR_CURR" "ndefers k = 0" using k kinv_currpid [of k Q] by (auto simp: kidle_def)
  have fr: "prstate (proctab k ?p) \<noteq> PR_FREE" using i by simp
  obtain m bs' where e: "kill devtab ?p k = rbind (kill_rest ?p ?g (killing ?p m k)) (\<lambda>(r, k'). Ret (r, Some ?g, k'))"
    "heap_inv ((kvm k)\<lparr>vmem := m\<rparr>) bs'" "region bs' = region bs \<union> bytes (stack_block (prstkbase (proctab k ?p)) (prstklen (proctab k ?p)))"
    by (rule kill_eq [OF c i(2) p(1) fr p(2) n h t]) (rule that)
  have off: "koff (k\<lparr>proctab := (proctab k)(?p := ?e)\<rparr>) Q"
    by (rule koff_suspend [OF i(1) p(1)]) (simp_all add: home_def)
  then have "kbase (killing ?p m k) Q"
    using i by (intro kbase_cong [of "k\<lparr>proctab := (proctab k)(?p := ?e)\<rparr>" Q "killing ?p m k"]) (simp_all add: koff_def)
  then have off': "koff (killing ?p m k) Q" using off by (simp add: koff_def)
  obtain k' x xs where r: "resched (killing ?p m k) = Ret k'" "Q (readylist (killing ?p m k)) = x # xs"
    "kinv k' (Q(readylist (killing ?p m k) := xs))" "sched_frame (killing ?p m k) k'" "currpid k' = x"
    by (rule resched_koff [OF off']) (use i p(2) in simp, use p(2) in simp, rule that)
  note sf = sched_frame_fields [OF r(4)]
  have "x \<noteq> ?p" using ready_list_iff [of k Q ?p] i r(2) by (auto simp: kinv_def)
  then have "kill_rest ?p ?g (killing ?p m k) = Ret (None, k')"
    using r(1,5) i(3) by (simp add: kill_rest_def kill_switch_def victim_def)
  then have "kill devtab ?p k = Ret (None, Some ?g, k')" using e(1) by simp
  moreover have "kidle k' (Q(readylist k := xs))"
    by (rule kidle_intro [OF k]) (use r(3) sf(3,4) in simp_all)
  moreover have "prstate (proctab k' ?p) = PR_FREE"
    using r(4) by (auto simp: sched_frame_def)
  moreover have "heap_inv (kvm k') bs'" using e(2) sf(6) by simp
  moreover have "prcount k' = prcount k - 1" "currpid k' \<noteq> ?p" using sf(7) r(5) \<open>x \<noteq> ?p\<close> by simp_all
  ultimately show ?thesis using e(3) by blast
qed

section \<open>Properties\<close>

text \<open>For the examples: the kernel with a heap of one block of 1024 bytes and a third process, whose stack is above it.\<close>

definition vm2 :: vm where
  "vm2 = boot_vm\<lparr>vmem := (\<lambda>_. 0)(16 := 64, 20 := 1024, 64 := 0, 68 := 1024), memlist := 16, minheap := 64, maxheap := 2047\<rparr>"

definition kernel2 :: "pstate \<Rightarrow> kernel" where
  "kernel2 s = kernel1\<lparr>kvm := vm2, prcount := 4,
    proctab := (proctab kernel1)(5 := (proctab kernel1 5)\<lparr>prstate := s, prprio := 10, prstkbase := 1596, prstklen := 400, pruser := False\<rparr>)\<rparr>"

definition driver2 :: "kernel dentry" where
  "driver2 = \<lparr>dvnum = 0, dvminor = 0, dvname = 0, dvinit = \<lambda>_. ioerr, dvopen = \<lambda>_ _ _. ioerr, dvclose = \<lambda>_. ioerr, dvread = \<lambda>_ _ _. ioerr,
    dvwrite = \<lambda>_ _ _. ioerr, dvseek = \<lambda>_ _. ioerr, dvgetc = \<lambda>_. ioerr, dvputc = \<lambda>_ _. ioerr, dvcntl = \<lambda>_ _ _ _. ioerr, dvcsr = 0, dvirq = 0\<rparr>"

abbreviation "devtab2 \<equiv> conf_devtab (\<lambda>_. driver2) (\<lambda>_. 0)"

lemma heap_inv2: "heap_inv (kvm (kernel2 s)) [(64, 1024)]"
  by (auto simp: heap_inv_def pool_inv_def freelist_def bytes_def block_ok_def kernel2_def vm2_def mnext_def mlength_def NULL_def
      word_le_nat_alt)

lemma stack_taken2: "stack_taken (kernel2 s) 5 [(64, 1024)]"
  by (auto simp: stack_taken_def stack_block_def Let_def kernel2_def vm2_def block_ok_def bytes_def word_le_nat_alt)

lemma kidle2: "s \<in> {PR_FREE, PR_SUSP} \<Longrightarrow> kidle (kernel2 s) queues1"
  by (rule kidle_entry [OF kidle1, of 5])
    (auto simp: kernel2_def kernel1_def home_def pid_ok_def layout_defs NULLPROC_def)

lemma on_console2 [simp]: "on_console (proctab (kernel2 s) p)"
  by (simp add: on_console_def kernel2_def kernel1_def proc0_def CONSOLE_def)

text \<open>
  C24: \<open>create\<close> makes a process. When the kernel is consistent, an entry of the table is free and the heap has a block for the
  stack, \<open>create\<close> returns the id of an entry that was free; the entry is suspended with the given priority and the current process
  as its parent, no other entry changes, and the kernel and the heap are consistent. The words on top of its stack, all of them in
  memory that was free and is not free any more, are what \<open>ctxsw\<close> will pop: the saved registers and flags, the address of the
  function, the address it returns to, and its arguments in order, above the magic word at the base.
\<close>

theorem create_makes_process:
  assumes "kidle k Q" and "heap_inv (kvm k) bs" and "0 \<le> nextpid k" and "1 \<le> priority" and "priority < 2 ^ 15"
    and "\<exists>p. pid_ok p \<and> prstate (proctab k p) = PR_FREE" and "unat ssize \<le> 2 ^ 32 - 8"
    and "\<exists>b \<in> set bs. unat (stack_size ssize) \<le> unat (snd b)" and "4 * (length args + 13) \<le> unat (stack_size ssize)"
  shows "\<exists>pid k' bs'. create initret funcaddr ssize priority name args k = Ret (pid, k') \<and>
    pid_ok pid \<and> prstate (proctab k pid) = PR_FREE \<and> (\<forall>p. p \<noteq> pid \<longrightarrow> proctab k' p = proctab k p) \<and>
    kidle k' Q \<and> heap_inv (kvm k') bs' \<and> prcount k' = wrap32 (prcount k + 1) \<and>
    (let e = proctab k' pid in prstate e = PR_SUSP \<and> prprio e = priority \<and> prparent e = currpid k \<and> \<not> prhasmsg e \<and>
      stack_is (vmem (kvm k')) (prstkptr e) (start_frame initret funcaddr args (prstkbase e) (prstkptr e)) \<and>
      words (prstkptr e) (length args + 13) \<subseteq> region bs - region bs')"
proof -
  obtain pid saddr sp k' bs' where c: "create initret funcaddr ssize priority name args k = Ret (pid, k')" "pid_ok pid" "prstate (proctab k pid) = PR_FREE"
    "proctab k' = (proctab k)(pid := fresh_entry pid saddr sp ssize priority name k)"
    "stack_is (vmem (kvm k')) sp (start_frame initret funcaddr args saddr sp)"
    "words sp (length args + 13) \<subseteq> region bs - region bs'" "kidle k' Q" "heap_inv (kvm k') bs'" "prcount k' = wrap32 (prcount k + 1)"
    using create_ok [OF assms, of initret funcaddr name] by blast
  have "prstate (proctab k' pid) = PR_SUSP" "prprio (proctab k' pid) = priority" "prparent (proctab k' pid) = currpid k"
    "\<not> prhasmsg (proctab k' pid)" "prstkptr (proctab k' pid) = sp" "prstkbase (proctab k' pid) = saddr"
    by (simp_all add: c(4) fresh_entry_def new_entry_def)
  then show ?thesis using c by (intro exI [of _ pid] exI [of _ k'] exI [of _ bs']) (simp add: Let_def)
qed

theorem create_makes_process_witness:
  "\<exists>pid k' bs'. create 0x1000 0x2000 100 20 ''main'' [7, 8] (kernel2 PR_SUSP) = Ret (pid, k') \<and>
    pid_ok pid \<and> prstate (proctab (kernel2 PR_SUSP) pid) = PR_FREE \<and> (\<forall>p. p \<noteq> pid \<longrightarrow> proctab k' p = proctab (kernel2 PR_SUSP) p) \<and>
    kidle k' queues1 \<and> heap_inv (kvm k') bs' \<and> prcount k' = wrap32 (prcount (kernel2 PR_SUSP) + 1) \<and>
    (let e = proctab k' pid in prstate e = PR_SUSP \<and> prprio e = 20 \<and> prparent e = currpid (kernel2 PR_SUSP) \<and> \<not> prhasmsg e \<and>
      stack_is (vmem (kvm k')) (prstkptr e) (start_frame 0x1000 0x2000 [7, 8] (prstkbase e) (prstkptr e)) \<and>
      words (prstkptr e) (length [7 :: u32, 8] + 13) \<subseteq> region [(64, 1024)] - region bs')"
proof (rule create_makes_process)
  have s: "stack_size 100 = 400" by (simp add: stack_size_def MINSTK_def roundmb_def)
  show "\<exists>p. pid_ok p \<and> prstate (proctab (kernel2 PR_SUSP) p) = PR_FREE"
    by (rule exI [of _ 9]) (simp add: pid_ok_def layout_defs kernel2_def kernel1_def)
  show "\<exists>b \<in> set [(64 :: addr, 1024 :: u32)]. unat (stack_size 100) \<le> unat (snd b)" by (simp add: s)
  show "4 * (length [7 :: u32, 8] + 13) \<le> unat (stack_size 100)" by (simp add: s)
  show "0 \<le> nextpid (kernel2 PR_SUSP)" by (simp add: kernel2_def kernel1_def)
qed (use kidle2 heap_inv2 in simp_all)



text \<open>
  \<open>kill\<close> undoes \<open>create\<close>. Killing a process right after creating it returns \<open>OK\<close> and leaves the heap with exactly the
  blocks it had, the number of processes as it was, the entry free again and the kernel consistent.
\<close>

theorem create_kill_roundtrip:
  assumes "kidle k Q" and "heap_inv (kvm k) bs" and "0 \<le> nextpid k" and "1 \<le> priority" and "priority < 2 ^ 15"
    and "\<exists>p. pid_ok p \<and> prstate (proctab k p) = PR_FREE" and "unat ssize \<le> 2 ^ 32 - 8"
    and "\<exists>b \<in> set bs. unat (stack_size ssize) \<le> unat (snd b)" and "4 * (length args + 13) \<le> unat (stack_size ssize)"
    and "2 \<le> prcount k" and "prcount k < 2 ^ 31 - 1"
  shows "\<exists>pid k1 g k2 Q'. create initret funcaddr ssize priority name args k = Ret (pid, k1) \<and> kill (conf_devtab drv names) pid k1 = Ret (Some OK, g, k2) \<and>
    kidle k2 Q' \<and> heap_inv (kvm k2) bs \<and> prcount k2 = prcount k \<and> prstate (proctab k2 pid) = PR_FREE \<and> prstate (proctab k pid) = PR_FREE"
proof -
  obtain pid saddr sp k1 bs1 where c: "create initret funcaddr ssize priority name args k = Ret (pid, k1)" "pid_ok pid" "prstate (proctab k pid) = PR_FREE"
    "pid \<noteq> NULLPROC" "pid \<noteq> currpid k" "proctab k1 = (proctab k)(pid := fresh_entry pid saddr sp ssize priority name k)"
    "kidle k1 Q" "heap_inv (kvm k1) bs1" "block_ok (stack_block saddr (stack_size ssize))" "bytes (stack_block saddr (stack_size ssize)) \<subseteq> region bs"
    "region bs1 = region bs - bytes (stack_block saddr (stack_size ssize))" "prcount k1 = wrap32 (prcount k + 1)" "currpid k1 = currpid k"
    "minheap (kvm k1) = minheap (kvm k)" "maxheap (kvm k1) = maxheap (kvm k)"
    using create_ok [OF assms(1-9), of initret funcaddr name] by blast
  have e: "prstate (proctab k1 pid) = PR_SUSP" "\<not> pruser (proctab k1 pid)" "prstkbase (proctab k1 pid) = saddr" "prstklen (proctab k1 pid) = stack_size ssize"
    "on_console (proctab k1 pid)"
    by (simp_all add: c(6) fresh_entry_def new_entry_def on_console_def less_Suc_eq eval_nat_numeral)
  have n: "prcount k1 = prcount k + 1" using assms(10,11) by (simp add: c(12))
  have "bytes (stack_block saddr (stack_size ssize)) \<subseteq> {minheap (kvm k)..maxheap (kvm k)}"
    using c(10) assms(2) unfolding heap_inv_def pool_inv_def by blast
  then have t: "stack_taken k1 pid bs1" using c(9,11) by (auto simp: stack_taken_def e c(14,15))
  obtain g k2 Q' bs2 where r: "kill (conf_devtab drv names) pid k1 = Ret (Some OK, g, k2)" "kidle k2 Q'" "prstate (proctab k2 pid) = PR_FREE" "prcount k2 = prcount k1 - 1"
    "heap_inv (kvm k2) bs2" "region bs2 = region bs1 \<union> bytes (stack_block saddr (stack_size ssize))"
    using kill_other [OF c(7) console_plain_conf [of drv names] e(5) c(2,4) _ e(2) _ _ _ c(8) t] e(1,3,4) c(5,13) n assms(10,11) by auto
  have "region bs = region bs2" using r(6) c(10,11) by blast
  then have "bs2 = bs" using assms(2) r(5) blocks_ok_region_unique by (fastforce simp: heap_inv_def pool_inv_def freelist_def)
  then show ?thesis using c(1,3) r n by auto
qed

theorem create_kill_roundtrip_witness:
  "\<exists>pid k1 g k2 Q'. create 0x1000 0x2000 100 20 ''main'' [7, 8] (kernel2 PR_SUSP) = Ret (pid, k1) \<and> kill devtab2 pid k1 = Ret (Some OK, g, k2) \<and>
    kidle k2 Q' \<and> heap_inv (kvm k2) [(64, 1024)] \<and> prcount k2 = prcount (kernel2 PR_SUSP) \<and> prstate (proctab k2 pid) = PR_FREE \<and>
    prstate (proctab (kernel2 PR_SUSP) pid) = PR_FREE"
proof (rule create_kill_roundtrip)
  have s: "stack_size 100 = 400" by (simp add: stack_size_def MINSTK_def roundmb_def)
  show "\<exists>p. pid_ok p \<and> prstate (proctab (kernel2 PR_SUSP) p) = PR_FREE"
    by (rule exI [of _ 9]) (simp add: pid_ok_def layout_defs kernel2_def kernel1_def)
  show "\<exists>b \<in> set [(64 :: addr, 1024 :: u32)]. unat (stack_size 100) \<le> unat (snd b)" by (simp add: s)
  show "4 * (length [7 :: u32, 8] + 13) \<le> unat (stack_size 100)" by (simp add: s)
  show "0 \<le> nextpid (kernel2 PR_SUSP)" "2 \<le> prcount (kernel2 PR_SUSP)" "prcount (kernel2 PR_SUSP) < 2 ^ 31 - 1"
    by (simp_all add: kernel2_def kernel1_def)
  show "kidle (kernel2 PR_SUSP) queues1" by (simp add: kidle2)
qed (use heap_inv2 in simp_all)

text \<open>
  C26: with the device table of the configuration, \<open>kill\<close> leaves a sleeping process, one with the console as its descriptors, on the sleep queue. The entry is marked free before \<open>unsleep\<close> is called, which refuses a
  free entry, so no queue changes: a consistent kernel in which a process slept becomes one in which a free entry is on the sleep
  queue, and the clock will later make it ready.
\<close>

theorem kill_leaves_sleeper_queued:
  assumes "kidle k Q" and "on_console (proctab k p)" and "\<not> isbadpid (proctab k) p" and "p \<noteq> NULLPROC" and "\<not> pruser (proctab k p)"
    and "prstate (proctab k p) \<in> {PR_SLEEP, PR_RECTIM}" and "2 < prcount k" and "prcount k < 2 ^ 31"
    and "heap_inv (kvm k) bs" and "stack_taken k p bs"
  shows "\<exists>g k'. kill (conf_devtab drv names) p k = Ret (Some OK, g, k') \<and> prstate (proctab k' p) = PR_FREE \<and> queuetab k' = queuetab k \<and>
    p \<in> set (Q (sleepq k')) \<and> queue_rep (queuetab k') (sleepq k') (Q (sleepq k'))"
proof -
  have b: "kbase k Q" "pid_ok (currpid k)" using assms(1) by (auto simp: kidle_def kinv_def kbase_def)
  have p: "pid_ok p" "prstate (proctab k p) \<noteq> PR_FREE" using assms(3) by (auto simp: isbadpid_pid_ok)
  let ?g = "victim p (proctab k p)"
  obtain m bs' where e: "kill (conf_devtab drv names) p k = rbind (kill_rest (currpid k) ?g (killing p m k)) (\<lambda>(r, k'). Ret (r, Some ?g, k'))"
    by (rule kill_eq [OF console_plain_conf assms(2) p(1) assms(4) p(2) assms(5,7-10)]) (rule that)
  have u: "unsleep p (killing p m k) = Ret (SYSERR, killing p m k)"
    by (simp add: unsleep_def isbadpid_pid_ok)
  then have sw: "kill_switch (currpid k) ?g (killing p m k) = Ret (False, killing p m k)"
    using assms(6) by (auto simp: kill_switch_def victim_def)
  have rest: "kill_rest (currpid k) ?g (killing p m k) = Ret (Some OK, (killing p m k)\<lparr>cr3 := pdbr (proctab (killing p m k) (currpid k))\<rparr>)"
    using kill_rest_stay [OF sw p(1)] assms(5) b(2) by simp
  have "p \<in> set (Q (sleepq k))" using sleep_list_iff [OF b(1) p(1)] assms(6) by simp
  moreover have "queue_rep (queuetab k) (sleepq k) (Q (sleepq k))" using b(1) by (simp add: kbase_def queues_def)
  ultimately show ?thesis unfolding e rest by simp
qed

text \<open>The same kernel with process 5 asleep.\<close>

definition kernel3 :: kernel where
  "kernel3 = (kernel2 PR_SLEEP)\<lparr>queuetab := qtab1
    (5 := \<lparr>qkey = 100, qnext = 303, qprev = 302\<rparr>, 302 := \<lparr>qkey = MAXKEY, qnext = 5, qprev = EMPTY\<rparr>, 303 := \<lparr>qkey = MINKEY, qnext = EMPTY, qprev = 5\<rparr>)\<rparr>"

lemma kidle3: "kidle kernel3 (queues1(302 := [5]))"
proof -
  let ?Q = "queues1(302 := [5])"
  have ids: "qids kernel3 = qids kernel1" by (simp add: qids_def kernel3_def kernel2_def)
  have "queue_rep (queuetab kernel3) q (?Q q)" if q: "q \<in> qids kernel1" for q
  proof -
    have "\<not> even (301 :: int)" "\<not> even (303 :: int)" by simp_all
    then have "q \<noteq> 301" "q \<noteq> 303" "even q" "100 \<le> q" "q \<le> 302" using qids1 [OF q] by auto
    then show ?thesis
      by (cases "q = 300"; cases "q = 302") (auto simp: queue_rep_def kernel3_def qtab1_def queues1_def qid_ok_def pid_ok_def layout_defs)
  qed
  then have "queues (qids kernel3) (queuetab kernel3) ?Q" by (auto simp: queues_def ids queues1_def)
  moreover have "qids_ok kernel3" by (auto simp: qids_ok_def kernel3_def kernel2_def kernel1_def layout_defs inj_on_def)
  moreover have "placed kernel3 ?Q" by (auto simp: placed_def queues1_def home_def kernel3_def kernel2_def kernel1_def proc0_def)
  moreover have "sem_counts kernel3 ?Q" by (auto simp: sem_counts_def queues1_def kernel3_def kernel2_def kernel1_def layout_defs)
  moreover have "procs_ok kernel3" by (auto simp: procs_ok_def kernel3_def kernel2_def kernel1_def proc0_def)
  ultimately show ?thesis
    by (auto simp: kidle_def kinv_def kbase_def kernel3_def kernel2_def kernel1_def queues1_def desc_def deltas_ok_def proc0_def NULLPROC_def pid_ok_def layout_defs)
qed

theorem kill_leaves_sleeper_queued_witness:
  "\<exists>g k'. kill devtab2 5 kernel3 = Ret (Some OK, g, k') \<and> prstate (proctab k' 5) = PR_FREE \<and> queuetab k' = queuetab kernel3 \<and>
    5 \<in> set ((queues1(302 := [5])) (sleepq k')) \<and> queue_rep (queuetab k') (sleepq k') ((queues1(302 := [5])) (sleepq k'))"
proof (rule kill_leaves_sleeper_queued [OF kidle3])
  show "heap_inv (kvm kernel3) [(64, 1024)]" using heap_inv2 by (simp add: kernel3_def)
  show "stack_taken kernel3 5 [(64, 1024)]" using stack_taken2 by (simp add: kernel3_def stack_taken_def)
qed (simp_all add: isbadpid_def layout_defs kernel3_def kernel2_def kernel1_def NULLPROC_def proc0_def on_console_def CONSOLE_def)

end
