(* ===== verification/KernelServices.thy ===== *)
theory KernelServices
  imports Process
begin

text \<open>
  Virtual memory as processes use it: \<open>system/kernel_services.c\<close>, \<open>system/vmalloc.c\<close>, \<open>system/vfree.c\<close> and
  \<open>system/vcreate.c\<close>.

  \<open>vmalloc\<close>, \<open>getvstk\<close> and \<open>vfree\<close> start a process of higher priority that runs the service with the kernel's directory, where
  addresses are physical; so the service itself works on \<open>vm\<close> directly, while \<open>vcreate\<close> writes the stack of the new process
  through the directory of that process.
\<close>

section \<open>The services\<close>

text \<open>The fields of a page table entry in the order they are stored, \<open>pt_base\<close> last.\<close>

definition malloc_entry :: "bool \<Rightarrow> u32 \<Rightarrow> u32" where
  "malloc_entry is_stack e =
    (let e = put_bit 0 is_stack e;          \<comment> \<open>\<open>pt_pres\<close>\<close>
         e = put_bit 1 True e;              \<comment> \<open>\<open>pt_write\<close>\<close>
         e = put_bit 2 False e;             \<comment> \<open>\<open>pt_user\<close>\<close>
         e = put_bit 3 False e;             \<comment> \<open>\<open>pt_pwt\<close>\<close>
         e = put_bit 4 True e;              \<comment> \<open>\<open>pt_pcd\<close>\<close>
         e = put_bit 5 False e;             \<comment> \<open>\<open>pt_acc\<close>\<close>
         e = put_bit 6 False e;             \<comment> \<open>\<open>pt_dirty\<close>\<close>
         e = put_bit 7 False e;             \<comment> \<open>\<open>pt_mbz\<close>\<close>
         e = put_bit 8 False e;             \<comment> \<open>\<open>pt_global\<close>\<close>
         e = put_bit 9 (\<not> is_stack) e;      \<comment> \<open>\<open>pt_isvmalloc\<close>\<close>
         e = put_bit 10 False e             \<comment> \<open>\<open>pt_isswapped\<close>\<close>
     in put_bit 11 False e)"                \<comment> \<open>\<open>pt_already_swapped\<close>\<close>

definition malloc_page :: "u32 \<Rightarrow> addr \<Rightarrow> bool \<Rightarrow> addr \<Rightarrow> vm \<Rightarrow> vm result" where
  "malloc_page null_pdbr dir is_stack vaddr v =
    (let pd = entry_addr dir (pd_offset vaddr) in
     rbind (if \<not> pd_pres (vmem v pd) then create_directory_entry null_pdbr pd (- 1) (- 1) 0 0 v else Ret v) (\<lambda>v.
     let pte = entry_addr (frame_addr (pd_base (vmem v pd))) (pt_offset vaddr);
         v = v\<lparr>vmem := (vmem v)(pte := malloc_entry is_stack (vmem v pte))\<rparr> in
     rbind (if is_stack then getvstackframe v else Ret (0, v)) (\<lambda>(base, v).
     Ret (v\<lparr>vmem := (vmem v)(pte := put_base base (vmem v pte))\<rparr>))))"

fun malloc_pages :: "nat \<Rightarrow> u32 \<Rightarrow> addr \<Rightarrow> bool \<Rightarrow> addr \<Rightarrow> vm \<Rightarrow> vm result" where
  "malloc_pages 0 null_pdbr dir is_stack vaddr v = Ret v"
| "malloc_pages (Suc n) null_pdbr dir is_stack vaddr v =
    rbind (malloc_page null_pdbr dir is_stack vaddr v) (\<lambda>v. malloc_pages n null_pdbr dir is_stack (vaddr + PAGE_SIZE) v)"

definition kernel_service_malloc :: "u32 \<Rightarrow> bool \<Rightarrow> int \<Rightarrow> kernel \<Rightarrow> kernel result" where
  "kernel_service_malloc nbytes is_stack pid k =
    rbind (pread (proctab k) pid) (\<lambda>prptr.
    let npages = ceil_div nbytes PAGE_SIZE in
    kassert (\<not> (nbytes = 0 \<or> \<not> is_stack \<and> npages > vfree prptr)) (
    let vaddr = push_bit PAGE_OFFSET_BITS (vmax prptr);
        dir = frame_addr (pdbr_base (pdbr prptr)) in
    rbind (malloc_pages (unat npages) (pdbr (proctab k 0)) dir is_stack vaddr (kvm k)) (\<lambda>v.
    rbind (set_proc pid (\<lambda>e. e\<lparr>vmax := vmax e + npages\<rparr>) (k\<lparr>kvm := v\<rparr>)) (\<lambda>k.
    if \<not> is_stack then
      rbind (set_proc pid (\<lambda>e. e\<lparr>vfree := vfree e - npages\<rparr>) k) (\<lambda>k.
      Ret (k\<lparr>kvm := (kvm k)\<lparr>n_free_vpages := n_free_vpages (kvm k) - npages\<rparr>\<rparr>))
    else Ret k))))"

text \<open>The loop of \<open>kernel_service_free\<close>; \<open>i\<close> is a signed counter compared with an unsigned bound.\<close>

fun free_pages :: "nat \<Rightarrow> addr \<Rightarrow> u32 \<Rightarrow> vm \<Rightarrow> vm result" where
  "free_pages 0 dir i v = Ret v"
| "free_pages (Suc n) dir i v = rbind (free_vpage dir i True v) (\<lambda>v. free_pages n dir (i + 1) v)"

definition kernel_service_free :: "addr \<Rightarrow> u32 \<Rightarrow> int \<Rightarrow> kernel \<Rightarrow> kernel result" where
  "kernel_service_free ptr nbytes pid k =
    rbind (pread (proctab k) pid) (\<lambda>prptr.
    let start_page = ptr div PAGE_SIZE;
        end_page = ceil_div (ptr + nbytes - 1) PAGE_SIZE in
    kassert (nbytes \<noteq> 0) (
    let dir = frame_addr (pdbr_base (pdbr prptr));
        npages = (if start_page < end_page then end_page - start_page else 0) in
    rbind (free_pages (unat npages) dir start_page (kvm k)) (\<lambda>v.
    rbind (set_proc pid (\<lambda>e. e\<lparr>vfree := vfree e + npages\<rparr>) (k\<lparr>kvm := v\<rparr>)) (\<lambda>k.
    let k = k\<lparr>kvm := (kvm k)\<lparr>n_free_vpages := n_free_vpages (kvm k) + npages\<rparr>\<rparr> in
    kassert (n_free_vpages (kvm k) \<le> MAX_HEAP_SIZE) (Ret k)))))"

section \<open>The calls that start a service\<close>

text \<open>\<open>resume(create(service, 1024, priority, name, 3, ...))\<close>; \<open>service\<close> is the address of the routine.\<close>

definition start_service :: "addr \<Rightarrow> addr \<Rightarrow> int \<Rightarrow> string \<Rightarrow> u32 list \<Rightarrow> kernel \<Rightarrow> kernel result" where
  "start_service initret service priority name args k =
    rbind (create initret service 1024 (wrap16 priority) name args k) (\<lambda>(pid, k).
    rbind (resume pid k) (\<lambda>(_, k). Ret k))"

definition vmalloc :: "addr \<Rightarrow> addr \<Rightarrow> u32 \<Rightarrow> kernel \<Rightarrow> (addr \<times> kernel) result" where
  "vmalloc initret service nbytes k =
    rbind (pread (proctab k) (getpid k)) (\<lambda>prptr.
    let npages = ceil_div nbytes PAGE_SIZE in
    if nbytes = 0 \<or> npages > vfree prptr \<or> npages > n_free_vpages (kvm k) then Ret (USYSERR, k)
    else
      let vaddr = push_bit PAGE_OFFSET_BITS (vmax prptr) in
      rbind (start_service initret service (prprio prptr + 1) ''malloc'' [nbytes, 0, word_of_int (getpid k)] k) (\<lambda>k.
      Ret (vaddr, k)))"

definition getvstk :: "addr \<Rightarrow> addr \<Rightarrow> u32 \<Rightarrow> int \<Rightarrow> kernel \<Rightarrow> (addr \<times> kernel) result" where
  "getvstk initret service nbytes pid k =
    rbind (pread (proctab k) pid) (\<lambda>prptr.
    if nbytes = 0 then Ret (USYSERR, k)
    else
      let vaddr = push_bit PAGE_OFFSET_BITS (vmax prptr) in
      rbind (pread (proctab k) (getpid k)) (\<lambda>me.
      rbind (start_service initret service (prprio me + 1) ''getvstk'' [nbytes, 1, word_of_int pid] k) (\<lambda>k.
      Ret (vaddr + nbytes - 4, k))))"

definition vfree_sys :: "addr \<Rightarrow> addr \<Rightarrow> addr \<Rightarrow> u32 \<Rightarrow> kernel \<Rightarrow> kernel result" where
  "vfree_sys initret service ptr nbytes k =
    rbind (pread (proctab k) (getpid k)) (\<lambda>prptr.
    start_service initret service (prprio prptr + 1) ''free'' [ptr, nbytes, word_of_int (getpid k)] k)"

section \<open>Creating a process with an address space\<close>

text \<open>What \<open>vcreate\<close> keeps in globals, because another process runs during its call of \<open>getvstk\<close>.\<close>

record vcreateg =
  vg_pid :: int
  vg_funcaddr :: addr
  vg_args :: "u32 list"

text \<open>
  Up to the call of \<open>getvstk\<close>, which is the last thing before the new process's directory is loaded; the copy of the arguments in
  \<open>arg_container\<close> is in reverse order. \<open>Inl\<close> is the early return.
\<close>

definition vcreate_start ::
  "addr \<Rightarrow> u32 \<Rightarrow> u32 \<Rightarrow> int \<Rightarrow> string \<Rightarrow> u32 list \<Rightarrow> kernel \<Rightarrow> ((int \<times> kernel) + (u32 \<times> vcreateg \<times> kernel)) result" where
  "vcreate_start funcaddr ssize heapsize priority name args k =
    (let ssize = (if ssize < MINSTK then MINSTK else ssize);
         ssize = roundmb ssize in
     if priority < 1 then Ret (Inl (SYSERR, k))
     else case newpid k of (pid, k) \<Rightarrow>
       if pid = SYSERR \<or> heapsize > MAX_HEAP_SIZE then Ret (Inl (SYSERR, k))
       else
         let k = k\<lparr>prcount := wrap32 (prcount k + 1)\<rparr> in
         rbind (set_proc pid (new_entry ssize priority name (getpid k) True) k) (\<lambda>k.
         let k = kernel_mode_enter k in
         rbind (create_directory (pdbr (proctab k 0)) (kvm k)) (\<lambda>(pd, v).
         rbind (set_proc pid (\<lambda>e. e\<lparr>pdbr := pd\<rparr>) (k\<lparr>kvm := v\<rparr>)) (\<lambda>k.
         rbind (kernel_mode_exit k) (\<lambda>k.
         rbind (set_proc pid (\<lambda>e. e\<lparr>hsize := heapsize, vmax := ceil_div (maxvstack (kvm k) + 1) PAGE_SIZE, vfree := heapsize\<rparr>) k) (\<lambda>k.
         if length args > 1024 then Fault
         else Ret (Inr (ssize, \<lparr>vg_pid = pid, vg_funcaddr = funcaddr, vg_args = rev args\<rparr>, k))))))))"

text \<open>A store to a virtual address through the directory \<open>pd\<close>; with interrupts off there is nobody to handle a page fault.\<close>

definition vstore :: "u32 \<Rightarrow> addr \<Rightarrow> u32 \<Rightarrow> mem \<Rightarrow> mem result" where
  "vstore pd a x m = (case translate m pd a of None \<Rightarrow> Fault | Some p \<Rightarrow> Ret (m(p := x)))"

definition vpush :: "u32 \<Rightarrow> u32 \<Rightarrow> addr \<times> mem \<Rightarrow> (addr \<times> mem) result" where
  "vpush pd x s = (case s of (saddr, m) \<Rightarrow> rbind (vstore pd (saddr - 4) x m) (\<lambda>m. Ret (saddr - 4, m)))"

fun vpushes :: "u32 \<Rightarrow> u32 list \<Rightarrow> addr \<times> mem \<Rightarrow> (addr \<times> mem) result" where
  "vpushes pd [] s = Ret s"
| "vpushes pd (x # xs) s = rbind (vpush pd x s) (vpushes pd xs)"

definition build_vstack :: "u32 \<Rightarrow> addr \<Rightarrow> addr \<Rightarrow> u32 list \<Rightarrow> addr \<Rightarrow> mem \<Rightarrow> (addr \<times> mem) result" where
  "build_vstack pd initret funcaddr container saddr m =
    rbind (vstore pd saddr STACKMAGIC m) (\<lambda>m.
    let savsp = saddr in
    rbind (vpushes pd container (saddr, m)) (\<lambda>s.
    rbind (vpushes pd [initret, funcaddr, savsp] s) (\<lambda>s.
    let savsp = fst s in
    rbind (vpushes pd [0x200, 0, 0, 0, 0, 0] s) (\<lambda>s.
    let pushsp = fst s in
    rbind (vpushes pd [savsp, 0, 0] s) (\<lambda>(saddr, m).
    rbind (vstore pd pushsp saddr m) (\<lambda>m.
    Ret (saddr, m)))))))"

text \<open>The rest, when the caller runs again with the address \<open>getvstk\<close> returned.\<close>

definition vcreate_rest :: "addr \<Rightarrow> vcreateg \<Rightarrow> addr \<Rightarrow> kernel \<Rightarrow> (int \<times> kernel) result" where
  "vcreate_rest initret g saddr k =
    rbind (pread (proctab k) (vg_pid g)) (\<lambda>e.
    let k = k\<lparr>cr3 := pdbr e\<rparr> in
    rbind (set_proc (vg_pid g) (\<lambda>e. e\<lparr>prstkbase := saddr\<rparr>) k) (\<lambda>k.
    rbind (build_vstack (cr3 k) initret (vg_funcaddr g) (vg_args g) saddr (vmem (kvm k))) (\<lambda>(sp, m).
    let k = k\<lparr>kvm := (kvm k)\<lparr>vmem := m\<rparr>\<rparr> in
    rbind (set_proc (vg_pid g) (\<lambda>e. e\<lparr>prstkptr := sp\<rparr>) k) (\<lambda>k.
    rbind (pread (proctab k) (getpid k)) (\<lambda>me.
    Ret (vg_pid g, k\<lparr>cr3 := pdbr me\<rparr>))))))"

definition vcreate :: "addr \<Rightarrow> addr \<Rightarrow> addr \<Rightarrow> u32 \<Rightarrow> u32 \<Rightarrow> int \<Rightarrow> string \<Rightarrow> u32 list \<Rightarrow> kernel \<Rightarrow>
    ((int \<times> kernel) + (addr \<times> vcreateg \<times> kernel)) result" where
  "vcreate initret service funcaddr ssize heapsize priority name args k =
    rbind (vcreate_start funcaddr ssize heapsize priority name args k) (\<lambda>r.
    case r of Inl x \<Rightarrow> Ret (Inl x)
    | Inr (ssize, g, k) \<Rightarrow>
        rbind (getvstk initret service ssize (vg_pid g) k) (\<lambda>(saddr, k). Ret (Inr (saddr, g, k))))"

section \<open>The entries of an address\<close>

text \<open>The directory and the table of an address, and what \<open>translate\<close> makes of them.\<close>

definition pde_addr :: "u32 \<Rightarrow> addr \<Rightarrow> addr" where
  "pde_addr pd a = entry_addr (frame_addr (pdbr_base pd)) (pd_offset a)"

definition pte_addr :: "mem \<Rightarrow> u32 \<Rightarrow> addr \<Rightarrow> addr" where
  "pte_addr m pd a = entry_addr (frame_addr (pd_base (m (pde_addr pd a)))) (pt_offset a)"

lemma translate_eq:
  "translate m pd a = (if pd_pres (m (pde_addr pd a)) \<and> pt_pres (m (pte_addr m pd a))
    then Some (frame_addr (pt_base (m (pte_addr m pd a))) OR pg_offset a) else None)"
  by (simp add: translate_def Let_def pde_addr_def pte_addr_def)

section \<open>Reserving pages\<close>

text \<open>The entry of a reserved page: not present, writable, uncached, marked for the page fault handler.\<close>

abbreviation "reserved_entry \<equiv> (0x212 :: u32)"

lemma malloc_entry_heap: "put_base 0 (malloc_entry False e) = reserved_entry"
proof (rule u32_eqI)
  fix k :: nat assume "k < 32"
  then show "bit (put_base 0 (malloc_entry False e)) k = bit (reserved_entry) k"
  proof (cases "k < 12")
    case True
    from less_12_cases [OF this] show ?thesis
      by (elim disjE) (simp_all add: malloc_entry_def Let_def bit_put_base bit_put_bit bit_numeral_rec)
  next
    case False
    have "take_bit 12 (reserved_entry) = reserved_entry" by (simp add: take_bit_eq_mod)
    then have "\<not> bit (reserved_entry) k" using False by (metis bit_take_bit_iff)
    then show ?thesis using False by (simp add: bit_put_base)
  qed
qed

lemma reserved_fields [simp]: "\<not> pt_pres reserved_entry" "pt_isvmalloc reserved_entry" "\<not> pt_isswapped reserved_entry"
  by (simp_all add: field_defs bit_numeral_rec)

text \<open>
  A directory \<open>d\<close> whose present entries name tables of \<open>ts\<close>, in pages of their own apart from the free frames \<open>bs\<close> of the pool; an entry that is not present has no base, as
  \<open>create_directory\<close> leaves it.
\<close>

definition space_ok :: "vm \<Rightarrow> u32 \<Rightarrow> block list \<Rightarrow> addr list \<Rightarrow> bool" where
  "space_ok v pd bs ts \<longleftrightarrow> dir_pages (pdptlist v) bs (0 # frame_addr (pdbr_base pd) # ts) \<and> (\<exists>lo hi. page_pool (pdptlist v) lo hi (vmem v) bs) \<and>
    (\<forall>a. let e = vmem v (pde_addr pd a) in if pd_pres e then frame_addr (pd_base e) \<in> set ts else pd_base e = 0)"

text \<open>The address of page \<open>i\<close> of a range, and the directory entries of the range without a table.\<close>

definition nth_page :: "addr \<Rightarrow> nat \<Rightarrow> addr" where
  "nth_page a i = a + PAGE_SIZE * of_nat i"

definition missing :: "mem \<Rightarrow> u32 \<Rightarrow> addr \<Rightarrow> nat \<Rightarrow> addr set" where
  "missing m pd a n = {pde_addr pd (nth_page a i) | i. i < n \<and> \<not> pd_pres (m (pde_addr pd (nth_page a i)))}"

lemma nth_page_simps [simp]: "nth_page a 0 = a" "nth_page (a + PAGE_SIZE) i = nth_page a (Suc i)"
  by (simp_all add: nth_page_def algebra_simps)

lemma finite_missing [simp]: "finite (missing m pd a n)"
  unfolding missing_def by (rule finite_subset [of _ "(\<lambda>i. pde_addr pd (nth_page a i)) ` {..<n}"]) auto

lemma entry_in_frame: "unat k < 1024 \<Longrightarrow> entry_addr (frame_addr f) k \<in> page (frame_addr f)"
  using entry_in_page [OF aligned_frame_addr, of "unat k" f] by simp

lemma pde_in_page: "pde_addr pd a \<in> page (frame_addr (pdbr_base pd))"
  unfolding pde_addr_def by (rule entry_in_frame) (rule offsets_bound)

lemma pte_in_page: "pte_addr m pd a \<in> page (frame_addr (pd_base (m (pde_addr pd a))))"
  unfolding pte_addr_def by (rule entry_in_frame) (rule offsets_bound)

text \<open>What a step may write: the entry of the page and, when a table is missing, the directory entry, the pool with its list head, and page 0, which is cleared.\<close>

definition pool_words :: "vm \<Rightarrow> block list \<Rightarrow> addr set" where
  "pool_words v bs = region bs \<union> {pdptlist v, pdptlist v + 4} \<union> page 0"

lemma table_apart:
  assumes "space_ok v pd bs ts" and "t \<in> set ts" and "x \<in> page t"
  shows "x \<notin> pool_words v bs" "x \<notin> page (frame_addr (pdbr_base pd))"
proof -
  have d: "dir_pages (pdptlist v) bs (0 # frame_addr (pdbr_base pd) # ts)" using assms(1) by (simp add: space_ok_def)
  then have t: "aligned t" "t \<noteq> 0" "t \<noteq> frame_addr (pdbr_base pd)" "aligned 0" using assms(2) by (auto simp: dir_pages_def)
  then show "x \<notin> page (frame_addr (pdbr_base pd))" using page_sep [OF assms(3) t(1) aligned_frame_addr] by blast
  have "x \<notin> page 0" using page_sep [OF assms(3) t(1,4,2)] .
  then show "x \<notin> pool_words v bs" using d assms(2,3) by (auto simp: pool_words_def dir_pages_def)
qed

lemma pde_apart:
  assumes "space_ok v pd bs ts"
  shows "pde_addr pd a \<notin> pool_words v bs"
proof -
  have d: "dir_pages (pdptlist v) bs (0 # frame_addr (pdbr_base pd) # ts)" using assms by (simp add: space_ok_def)
  then have z: "frame_addr (pdbr_base pd) \<noteq> 0" "aligned 0" by (auto simp: dir_pages_def)
  have "pde_addr pd a \<notin> page 0" using page_sep [OF pde_in_page aligned_frame_addr z(2,1)] .
  then show ?thesis using d pde_in_page [of pd a] by (auto simp: pool_words_def dir_pages_def)
qed

text \<open>The entry of a page whose table is there.\<close>

lemma reserve_entry:
  assumes "space_ok v pd bs ts" and "pd_pres (vmem v (pde_addr pd a))"
  defines "v' \<equiv> v\<lparr>vmem := (vmem v)(pte_addr (vmem v) pd a := reserved_entry)\<rparr>"
  shows "malloc_page np (frame_addr (pdbr_base pd)) False a v = Ret v'" "space_ok v' pd bs ts" "\<And>b. vmem v' (pde_addr pd b) = vmem v (pde_addr pd b)"
    "pte_addr (vmem v) pd a \<notin> pool_words v bs"
proof -
  have t: "frame_addr (pd_base (vmem v (pde_addr pd a))) \<in> set ts" using assms(1,2) by (auto simp: space_ok_def Let_def split: if_splits)
  note ap = table_apart [OF assms(1) t pte_in_page [of "vmem v" pd a]]
  show p: "pte_addr (vmem v) pd a \<notin> pool_words v bs" by (rule ap(1))
  show pde: "vmem v' (pde_addr pd b) = vmem v (pde_addr pd b)" for b
    using ap(2) pde_in_page [of pd b] by (auto simp: v'_def)
  have ne: "pte_addr (vmem v) pd a \<noteq> pde_addr pd a" using ap(2) pde_in_page [of pd a] by metis
  show "malloc_page np (frame_addr (pdbr_base pd)) False a v = Ret v'"
    using assms(2) ne by (simp add: malloc_page_def Let_def pde_addr_def [symmetric] pte_addr_def [symmetric] malloc_entry_heap v'_def)
  obtain lo hi where "page_pool (pdptlist v) lo hi (vmem v) bs" using assms(1) by (auto simp: space_ok_def)
  then have "page_pool (pdptlist v) lo hi (vmem v') bs"
    by (rule page_pool_frame) (use p in \<open>auto simp: v'_def pool_words_def\<close>)
  then show "space_ok v' pd bs ts" using assms(1) pde by (auto simp: space_ok_def v'_def)
qed

lemma malloc_page_step:
  assumes s: "space_ok v pd bs ts" and ne: "\<not> pd_pres (vmem v (pde_addr pd a)) \<longrightarrow> bs \<noteq> []"
  obtains m bs' ts' where "malloc_page np (frame_addr (pdbr_base pd)) False a v = Ret (v\<lparr>vmem := m\<rparr>)" "space_ok (v\<lparr>vmem := m\<rparr>) pd bs' ts'"
    "pd_pres (m (pde_addr pd a))" "m (pte_addr m pd a) = reserved_entry" "set ts \<subseteq> set ts'" "region bs' \<subseteq> region bs"
    "free_total bs = free_total bs' + (if pd_pres (vmem v (pde_addr pd a)) then 0 else 4096)"
    "\<And>b. pde_addr pd b \<noteq> pde_addr pd a \<or> pd_pres (vmem v (pde_addr pd a)) \<Longrightarrow> m (pde_addr pd b) = vmem v (pde_addr pd b)"
    "\<And>x. x \<noteq> pte_addr m pd a \<Longrightarrow> pd_pres (vmem v (pde_addr pd a)) \<or> x \<notin> pool_words v bs \<and> x \<noteq> pde_addr pd a \<Longrightarrow> m x = vmem v x"
proof (cases "pd_pres (vmem v (pde_addr pd a))")
  case True
  note r = reserve_entry [OF s True]
  let ?m = "(vmem v)(pte_addr (vmem v) pd a := reserved_entry)"
  have pde: "?m (pde_addr pd b) = vmem v (pde_addr pd b)" for b using r(3) [of b] by simp
  have pte: "pte_addr ?m pd a = pte_addr (vmem v) pd a" using pde by (simp add: pte_addr_def)
  show thesis by (rule that [OF r(1,2)]) (use True pde pte in auto)
next
  case False
  let ?d = "frame_addr (pdbr_base pd)" and ?pd = "pde_addr pd a" and ?lst = "pdptlist v"
  have dp: "dir_pages ?lst bs (0 # ?d # ts)" and e0: "pd_base (vmem v ?pd) = 0" using s False by (auto simp: space_ok_def Let_def split: if_splits)
  obtain lo hi where pp: "page_pool ?lst lo hi (vmem v) bs" using s by (auto simp: space_ok_def)
  obtain t m1 bs' where g: "create_directory_entry np ?pd (- 1) (- 1) 0 0 v = Ret (v\<lparr>vmem := m1\<rparr>)"
    "dir_pages ?lst bs' (0 # ?d # ts @ [t])" "page_pool ?lst lo hi m1 bs'"
    "page t \<subseteq> region bs" "region bs' = region bs - page t" "free_total bs = free_total bs' + 4096"
    "m1 ?pd = put_base (drop_bit 12 t) 0x13"
    "\<And>x. x \<notin> region bs \<union> {?lst, ?lst + 4} \<union> page 0 \<Longrightarrow> x \<noteq> ?pd \<Longrightarrow> m1 x = vmem v x"
    by (rule create_directory_entry_table [OF dp pde_in_page e0 pp, of "- 1" 0 np "- 1"]) (use ne False in simp, simp, simp, rule that)
  have al: "aligned t" using g(2) by (simp add: dir_pages_def)
  let ?v1 = "v\<lparr>vmem := m1\<rparr>"
  have keep: "m1 (pde_addr pd b) = vmem v (pde_addr pd b)" if "pde_addr pd b \<noteq> ?pd" for b
    using pde_apart [OF s, of b] that by (intro g(8)) (simp_all add: pool_words_def)
  have "let e = m1 (pde_addr pd b) in if pd_pres e then frame_addr (pd_base e) \<in> set (ts @ [t]) else pd_base e = 0" for b
  proof (cases "pde_addr pd b = ?pd")
    case True
    then show ?thesis using frame_addr_drop [OF al] by (simp add: g(7))
  next
    case False
    then show ?thesis using s keep [OF False] by (auto simp: space_ok_def Let_def split: if_splits)
  qed
  then have s1: "space_ok ?v1 pd bs' (ts @ [t])" using g(2,3) by (auto simp: space_ok_def)
  have pr: "pd_pres (vmem ?v1 ?pd)" by (simp add: g(7))
  note r = reserve_entry [OF s1 pr]
  let ?m = "m1(pte_addr m1 pd a := reserved_entry)"
  have "malloc_page np ?d False a v = malloc_page np ?d False a ?v1"
    using False g(1) pr by (simp add: malloc_page_def pde_addr_def [symmetric])
  then have run: "malloc_page np ?d False a v = Ret (v\<lparr>vmem := ?m\<rparr>)" using r(1) by simp
  have pde: "?m (pde_addr pd b) = m1 (pde_addr pd b)" for b using r(3) [of b] by simp
  have pte: "pte_addr ?m pd a = pte_addr m1 pd a" using pde by (simp add: pte_addr_def)
  show thesis
  proof (rule that [OF run])
    show "space_ok (v\<lparr>vmem := ?m\<rparr>) pd bs' (ts @ [t])" using r(2) by simp
    show "?m x = vmem v x" if "x \<noteq> pte_addr ?m pd a" "pd_pres (vmem v ?pd) \<or> x \<notin> pool_words v bs \<and> x \<noteq> ?pd" for x
      using that False g(8) [of x] pte by (auto simp: pool_words_def)
    show "?m (pde_addr pd b) = vmem v (pde_addr pd b)" if "pde_addr pd b \<noteq> ?pd \<or> pd_pres (vmem v ?pd)" for b
      using pde [of b] keep [of b] that False by auto
  qed (use False pr g(5,6) pde pte in auto)
qed

lemma malloc_pages_heap:
  assumes "space_ok v pd bs ts" and "4096 * card (missing (vmem v) pd a n) \<le> free_total bs"
  shows "\<exists>m. malloc_pages n np (frame_addr (pdbr_base pd)) False a v = Ret (v\<lparr>vmem := m\<rparr>) \<and>
    (\<forall>i < n. pd_pres (m (pde_addr pd (nth_page a i))) \<and> m (pte_addr m pd (nth_page a i)) = reserved_entry) \<and>
    (\<forall>b. pd_pres (vmem v (pde_addr pd b)) \<longrightarrow> m (pde_addr pd b) = vmem v (pde_addr pd b)) \<and>
    (\<forall>x. (\<forall>i < n. x \<noteq> pte_addr m pd (nth_page a i)) \<longrightarrow>
      missing (vmem v) pd a n = {} \<or> x \<notin> missing (vmem v) pd a n \<union> pool_words v bs \<longrightarrow> m x = vmem v x)"
  using assms
proof (induction n arbitrary: a v bs ts)
  case 0
  then show ?case by (auto intro: exI [of _ "vmem v"])
next
  case (Suc n)
  let ?miss = "missing (vmem v) pd a (Suc n)" and ?a = "a + PAGE_SIZE"
  have first: "pde_addr pd a \<in> ?miss \<longleftrightarrow> \<not> pd_pres (vmem v (pde_addr pd a))"
    by (force simp: missing_def intro: exI [of _ 0])
  have ne: "\<not> pd_pres (vmem v (pde_addr pd a)) \<longrightarrow> bs \<noteq> []"
  proof
    assume "\<not> pd_pres (vmem v (pde_addr pd a))"
    then have "0 < card ?miss" using first by (auto simp: card_gt_0_iff)
    then show "bs \<noteq> []" using Suc.prems(2) by auto
  qed
  obtain m1 bs' ts' where g: "malloc_page np (frame_addr (pdbr_base pd)) False a v = Ret (v\<lparr>vmem := m1\<rparr>)" "space_ok (v\<lparr>vmem := m1\<rparr>) pd bs' ts'"
    "pd_pres (m1 (pde_addr pd a))" "m1 (pte_addr m1 pd a) = reserved_entry" "set ts \<subseteq> set ts'" "region bs' \<subseteq> region bs"
    "free_total bs = free_total bs' + (if pd_pres (vmem v (pde_addr pd a)) then 0 else 4096)"
    "\<And>b. pde_addr pd b \<noteq> pde_addr pd a \<or> pd_pres (vmem v (pde_addr pd a)) \<Longrightarrow> m1 (pde_addr pd b) = vmem v (pde_addr pd b)"
    "\<And>x. x \<noteq> pte_addr m1 pd a \<Longrightarrow> pd_pres (vmem v (pde_addr pd a)) \<or> x \<notin> pool_words v bs \<and> x \<noteq> pde_addr pd a \<Longrightarrow> m1 x = vmem v x"
    by (rule malloc_page_step [OF Suc.prems(1) ne, where np = np]) (rule that)
  let ?v1 = "v\<lparr>vmem := m1\<rparr>" and ?miss1 = "missing m1 pd ?a n"
  have sub: "?miss1 \<subseteq> ?miss - {pde_addr pd a}"
  proof
    fix x assume "x \<in> ?miss1"
    then obtain i where i: "i < n" "x = pde_addr pd (nth_page a (Suc i))" "\<not> pd_pres (m1 x)" by (auto simp: missing_def)
    then have ne: "x \<noteq> pde_addr pd a" using g(3) by auto
    then have "m1 x = vmem v x" using g(8) [of "nth_page a (Suc i)"] i(2) by simp
    then have "\<exists>j. x = pde_addr pd (nth_page a j) \<and> j < Suc n \<and> \<not> pd_pres (vmem v (pde_addr pd (nth_page a j)))"
      using i by (intro exI [of _ "Suc i"]) simp
    then show "x \<in> ?miss - {pde_addr pd a}" using ne by (simp add: missing_def)
  qed
  have "card ?miss1 \<le> card (?miss - {pde_addr pd a})" by (rule card_mono [OF _ sub]) simp
  then have "4096 * card ?miss1 \<le> free_total bs'"
    using Suc.prems(2) g(7) first by (auto simp: card_Diff_singleton_if split: if_splits)
  then have "4096 * card (missing (vmem ?v1) pd ?a n) \<le> free_total bs'" by simp
  note ih = Suc.IH [OF g(2) this, unfolded nth_page_simps]
  obtain m where "malloc_pages n np (frame_addr (pdbr_base pd)) False ?a ?v1 = Ret (?v1\<lparr>vmem := m\<rparr>) \<and>
      (\<forall>i < n. pd_pres (m (pde_addr pd (nth_page a (Suc i)))) \<and> m (pte_addr m pd (nth_page a (Suc i))) = reserved_entry) \<and>
      (\<forall>b. pd_pres (vmem ?v1 (pde_addr pd b)) \<longrightarrow> m (pde_addr pd b) = vmem ?v1 (pde_addr pd b)) \<and>
      (\<forall>x. (\<forall>i < n. x \<noteq> pte_addr m pd (nth_page a (Suc i))) \<longrightarrow>
        missing (vmem ?v1) pd ?a n = {} \<or> x \<notin> missing (vmem ?v1) pd ?a n \<union> pool_words ?v1 bs' \<longrightarrow> m x = vmem ?v1 x)"
    by (rule exE [OF ih]) (rule that)
  then have m: "malloc_pages n np (frame_addr (pdbr_base pd)) False ?a ?v1 = Ret (?v1\<lparr>vmem := m\<rparr>)"
    "\<And>i. i < n \<Longrightarrow> pd_pres (m (pde_addr pd (nth_page a (Suc i)))) \<and> m (pte_addr m pd (nth_page a (Suc i))) = reserved_entry"
    "\<And>b. pd_pres (m1 (pde_addr pd b)) \<Longrightarrow> m (pde_addr pd b) = m1 (pde_addr pd b)"
    "\<And>x. \<forall>i < n. x \<noteq> pte_addr m pd (nth_page a (Suc i)) \<Longrightarrow> ?miss1 = {} \<or> x \<notin> ?miss1 \<union> pool_words ?v1 bs' \<Longrightarrow> m x = m1 x"
    by (simp, simp, simp, auto)
  have pw: "pool_words ?v1 bs' \<subseteq> pool_words v bs" using g(6) by (auto simp: pool_words_def)
  have pde: "m (pde_addr pd a) = m1 (pde_addr pd a)" by (rule m(3)) (rule g(3))
  then have pte: "pte_addr m pd a = pte_addr m1 pd a" by (simp add: pte_addr_def)
  have res: "m (pte_addr m pd a) = reserved_entry"
  proof (cases "\<exists>i < n. pte_addr m pd a = pte_addr m pd (nth_page a (Suc i))")
    case True
    then show ?thesis using m(2) by auto
  next
    case False
    have t: "frame_addr (pd_base (m1 (pde_addr pd a))) \<in> set ts'"
      using g(2,3) by (auto simp: space_ok_def Let_def split: if_splits)
    note ap = table_apart [OF g(2) t pte_in_page [of m1 pd a]]
    have "pte_addr m1 pd a \<notin> ?miss1" using ap(2) pde_in_page [of pd] by (auto simp: missing_def)
    then have "m (pte_addr m pd a) = m1 (pte_addr m pd a)" using ap(1) False pte by (intro m(4)) auto
    then show ?thesis using g(4) pte by simp
  qed
  have "pd_pres (m (pde_addr pd (nth_page a i))) \<and> m (pte_addr m pd (nth_page a i)) = reserved_entry" if "i < Suc n" for i
    using that m(2) res pde g(3) by (cases i) auto
  moreover have "m (pde_addr pd b) = vmem v (pde_addr pd b)" if "pd_pres (vmem v (pde_addr pd b))" for b
  proof -
    have "m1 (pde_addr pd b) = vmem v (pde_addr pd b)" using g(8) [of b] that by (cases "pde_addr pd b = pde_addr pd a") auto
    then show ?thesis using m(3) [of b] that by simp
  qed
  moreover have "m x = vmem v x" if x: "\<forall>i < Suc n. x \<noteq> pte_addr m pd (nth_page a i)" "?miss = {} \<or> x \<notin> ?miss \<union> pool_words v bs" for x
  proof -
    have "m x = m1 x" using x sub pw by (intro m(4)) auto
    moreover have "m1 x = vmem v x" using x(1) [rule_format, of 0] x(2) first pte by (intro g(9)) auto
    ultimately show ?thesis by simp
  qed
  moreover have "malloc_pages (Suc n) np (frame_addr (pdbr_base pd)) False a v = Ret (v\<lparr>vmem := m\<rparr>)" using g(1) m(1) by simp
  ultimately show ?case by blast
qed

section \<open>Properties\<close>

text \<open>
  C30: the service behind \<open>vmalloc\<close> reserves pages. For a process with \<open>n\<close> pages left in its heap, whose directory
  may lack tables of the range, and a pool with a frame for each table that is missing, the service marks the next \<open>n\<close> pages as
  reserved, so that an access to one of them faults with an entry the page fault handler accepts. Directory entries in use stay.
  No word changes but the entries of those pages when every table is there; when one is missing, its directory entry, the pool and
  page 0, which \<open>create_directory_entry\<close> clears in place of the new table, may change too. The range is taken from the
  process and from the total, and the next allocation starts behind it.
\<close>

theorem malloc_reserves_pages:
  assumes "pid_ok pid" and "nbytes \<noteq> 0" and "ceil_div nbytes PAGE_SIZE \<le> vfree (proctab k pid)" and "n = unat (ceil_div nbytes PAGE_SIZE)"
    and "pd = pdbr (proctab k pid)" and "a = push_bit PAGE_OFFSET_BITS (vmax (proctab k pid))"
    and "space_ok (kvm k) pd bs ts" and "4096 * card (missing (vmem (kvm k)) pd a n) \<le> free_total bs"
  shows "\<exists>k'. kernel_service_malloc nbytes False pid k = Ret k' \<and>
    (\<forall>i < n. let e = vmem (kvm k') (pte_addr (vmem (kvm k')) pd (nth_page a i)) in
      pd_pres (vmem (kvm k') (pde_addr pd (nth_page a i))) \<and>
      \<not> pt_pres e \<and> pt_isvmalloc e \<and> \<not> pt_isswapped e \<and> translate (vmem (kvm k')) pd (nth_page a i) = None) \<and>
    (\<forall>b. pd_pres (vmem (kvm k) (pde_addr pd b)) \<longrightarrow> vmem (kvm k') (pde_addr pd b) = vmem (kvm k) (pde_addr pd b)) \<and>
    (\<forall>x. (\<forall>i < n. x \<noteq> pte_addr (vmem (kvm k')) pd (nth_page a i)) \<longrightarrow>
      missing (vmem (kvm k)) pd a n = {} \<or> x \<notin> missing (vmem (kvm k)) pd a n \<union> pool_words (kvm k) bs \<longrightarrow>
      vmem (kvm k') x = vmem (kvm k) x) \<and>
    proctab k' = (proctab k)(pid := (proctab k pid)\<lparr>vmax := vmax (proctab k pid) + of_nat n, vfree := vfree (proctab k pid) - of_nat n\<rparr>) \<and>
    n_free_vpages (kvm k') = n_free_vpages (kvm k) - of_nat n"
proof -
  obtain m where m: "malloc_pages n (pdbr (proctab k 0)) (frame_addr (pdbr_base pd)) False a (kvm k) = Ret ((kvm k)\<lparr>vmem := m\<rparr>)"
    "\<forall>i < n. pd_pres (m (pde_addr pd (nth_page a i))) \<and> m (pte_addr m pd (nth_page a i)) = reserved_entry"
    "\<forall>b. pd_pres (vmem (kvm k) (pde_addr pd b)) \<longrightarrow> m (pde_addr pd b) = vmem (kvm k) (pde_addr pd b)"
    "\<forall>x. (\<forall>i < n. x \<noteq> pte_addr m pd (nth_page a i)) \<longrightarrow>
      missing (vmem (kvm k)) pd a n = {} \<or> x \<notin> missing (vmem (kvm k)) pd a n \<union> pool_words (kvm k) bs \<longrightarrow> m x = vmem (kvm k) x"
    using malloc_pages_heap [OF assms(7,8)] by blast
  let ?k = "k\<lparr>kvm := (kvm k)\<lparr>vmem := m, n_free_vpages := n_free_vpages (kvm k) - of_nat n\<rparr>,
    proctab := (proctab k)(pid := (proctab k pid)\<lparr>vmax := vmax (proctab k pid) + of_nat n, vfree := vfree (proctab k pid) - of_nat n\<rparr>)\<rparr>"
  have n: "of_nat n = ceil_div nbytes PAGE_SIZE" using assms(4) by simp
  have "kernel_service_malloc nbytes False pid k = Ret ?k"
    using m(1) assms(1-6) n by (simp add: kernel_service_malloc_def Let_def not_less)
  moreover have "\<forall>i < n. let e = m (pte_addr m pd (nth_page a i)) in pd_pres (m (pde_addr pd (nth_page a i))) \<and>
      \<not> pt_pres e \<and> pt_isvmalloc e \<and> \<not> pt_isswapped e \<and> translate m pd (nth_page a i) = None"
    using m(2) by (simp add: translate_eq)
  ultimately show ?thesis using m(3,4) by (intro exI [of _ ?k]) (simp del: Un_iff)
qed

text \<open>
  For the example: process 5 with a directory at the bottom of the page table region, one table, and a free frame for another.
  Its next three pages begin with the last page of the table and go on where the table is missing.
\<close>

definition kernel6 :: kernel where
  "kernel6 = kernel1\<lparr>kvm := boot_vm\<lparr>vmem := (\<lambda>_. 0)(0x2000040 := 0x2001013, 0x110008 := 0x2002000, 0x2002004 := 4096), n_free_vpages := 4096\<rparr>,
    proctab := (proctab kernel1)(5 := (proctab kernel1 5)\<lparr>pdbr := 0x2000010, vfree := 10, vmax := 0x43FF\<rparr>)\<rparr>"

lemma kernel6_pdes:
  "pde_addr 0x2000010 (nth_page 0x43FF000 0) = 0x2000040"
  "pde_addr 0x2000010 (nth_page 0x43FF000 (Suc 0)) = 0x2000044"
  "pde_addr 0x2000010 (nth_page 0x43FF000 2) = 0x2000044"
  by (simp_all add: pde_addr_def entry_addr_def frame_addr_def pdbr_base_def pd_offset_def PAGE_OFFSET_BITS_def PAGE_SIZE_def
      drop_bit_eq_div push_bit_eq_mult nth_page_def take_bit_eq_mask [symmetric] take_bit_eq_mod)

lemma kernel6_missing: "missing (vmem (kvm kernel6)) 0x2000010 0x43FF000 3 = {0x2000044}"
proof -
  have v: "pd_pres (vmem (kvm kernel6) 0x2000040)" "\<not> pd_pres (vmem (kvm kernel6) 0x2000044)"
    by (simp_all add: kernel6_def pd_pres_def bit_numeral_rec)
  have "i < 3 \<longleftrightarrow> i = 0 \<or> i = Suc 0 \<or> i = 2" for i :: nat by arith
  then have "missing (vmem (kvm kernel6)) 0x2000010 0x43FF000 3 =
    {pde_addr 0x2000010 (nth_page 0x43FF000 i) | i. (i = 0 \<or> i = Suc 0 \<or> i = 2) \<and> \<not> pd_pres (vmem (kvm kernel6) (pde_addr 0x2000010 (nth_page 0x43FF000 i)))}"
    by (simp only: missing_def)
  also have "\<dots> = {0x2000044}" using v kernel6_pdes by auto
  finally show ?thesis .
qed

lemma kernel6_space: "space_ok (kvm kernel6) 0x2000010 [(0x2002000, 4096)] [0x2001000]"
proof -
  have fr: "frame_addr (pdbr_base 0x2000010) = 0x2000000" "frame_addr (pd_base 0x2001013) = 0x2001000" "pd_pres 0x2001013" "\<not> pd_pres 0" "pd_base 0 = 0"
    by (simp_all add: frame_addr_def pdbr_base_def pd_base_def PAGE_OFFSET_BITS_def drop_bit_eq_div push_bit_eq_mult pd_pres_def bit_numeral_rec)
  have v: "pdptlist (kvm kernel6) = 0x110008" "vmem (kvm kernel6) = (\<lambda>_. 0)(0x2000040 := 0x2001013, 0x110008 := 0x2002000, 0x2002004 := 4096)"
    by (simp_all add: kernel6_def boot_vm_def)
  have e: "vmem (kvm kernel6) (pde_addr 0x2000010 a) \<in> {0x2001013, 0}" for a
    using pde_in_page [of "0x2000010" a] by (auto simp: fr v PAGE_SIZE_def bytes_def word_le_nat_alt)
  have "let e = vmem (kvm kernel6) (pde_addr 0x2000010 a) in if pd_pres e then frame_addr (pd_base e) \<in> set [0x2001000] else pd_base e = 0" for a
    using e [of a] fr by (auto simp: Let_def)
  moreover have "page_pool 0x110008 0x2002000 0x2002FFF (vmem (kvm kernel6)) [(0x2002000, 4096)]"
    by (auto simp: v page_pool_def pool_inv_def freelist_def mnext_def mlength_def NULL_def bytes_def block_ok_def aligned_def word_le_nat_alt)
  moreover have "dir_pages 0x110008 [(0x2002000, 4096)] [0, 0x2000000, 0x2001000]"
    by (auto simp: dir_pages_def aligned_def PAGE_SIZE_def bytes_def word_le_nat_alt)
  ultimately show ?thesis by (auto simp: space_ok_def fr v(1))
qed

theorem malloc_reserves_pages_witness:
  "\<exists>k'. kernel_service_malloc 10000 False 5 kernel6 = Ret k' \<and>
    (\<forall>i < 3. let e = vmem (kvm k') (pte_addr (vmem (kvm k')) 0x2000010 (nth_page 0x43FF000 i)) in
      \<not> pt_pres e \<and> pt_isvmalloc e \<and> translate (vmem (kvm k')) 0x2000010 (nth_page 0x43FF000 i) = None) \<and>
    vmem (kvm k') 0x2000040 = 0x2001013 \<and> pd_pres (vmem (kvm k') 0x2000044) \<and>
    vfree (proctab k' 5) = 7 \<and> vmax (proctab k' 5) = 0x4402"
proof -
  have e: "proctab kernel6 5 = (proctab kernel1 5)\<lparr>pdbr := 0x2000010, vfree := 10, vmax := 0x43FF\<rparr>" by (simp add: kernel6_def)
  have c: "ceil_div 10000 PAGE_SIZE = 3" by (simp add: ceil_div_def PAGE_SIZE_def)
  have h: "pid_ok 5" "(10000 :: u32) \<noteq> 0" "ceil_div 10000 PAGE_SIZE \<le> vfree (proctab kernel6 5)" "3 = unat (ceil_div 10000 PAGE_SIZE)"
    "0x2000010 = pdbr (proctab kernel6 5)" "0x43FF000 = push_bit PAGE_OFFSET_BITS (vmax (proctab kernel6 5))"
    "4096 * card (missing (vmem (kvm kernel6)) 0x2000010 0x43FF000 3) \<le> free_total [(0x2002000, 4096)]"
    by (simp_all only: c) (simp_all add: e PAGE_OFFSET_BITS_def push_bit_eq_mult pid_ok_def layout_defs kernel6_missing free_total_def)
  obtain k' where k': "kernel_service_malloc 10000 False 5 kernel6 = Ret k'"
    "\<forall>i < 3. let e = vmem (kvm k') (pte_addr (vmem (kvm k')) 0x2000010 (nth_page 0x43FF000 i)) in
      pd_pres (vmem (kvm k') (pde_addr 0x2000010 (nth_page 0x43FF000 i))) \<and>
      \<not> pt_pres e \<and> pt_isvmalloc e \<and> \<not> pt_isswapped e \<and> translate (vmem (kvm k')) 0x2000010 (nth_page 0x43FF000 i) = None"
    "\<forall>b. pd_pres (vmem (kvm kernel6) (pde_addr 0x2000010 b)) \<longrightarrow> vmem (kvm k') (pde_addr 0x2000010 b) = vmem (kvm kernel6) (pde_addr 0x2000010 b)"
    "proctab k' 5 = (proctab kernel6 5)\<lparr>vmax := vmax (proctab kernel6 5) + of_nat 3, vfree := vfree (proctab kernel6 5) - of_nat 3\<rparr>"
    using malloc_reserves_pages [OF h(1-6) kernel6_space h(7)] by auto
  have w: "vmem (kvm kernel6) 0x2000040 = 0x2001013" "pd_pres (0x2001013 :: u32)" by (simp_all add: kernel6_def pd_pres_def bit_numeral_rec)
  have "vmem (kvm k') 0x2000040 = 0x2001013"
    using k'(3) [rule_format, of "nth_page 0x43FF000 0"] w by (simp only: kernel6_pdes)
  moreover have "pd_pres (vmem (kvm k') 0x2000044)"
    using k'(2) [rule_format, of 2] by (simp add: Let_def kernel6_pdes)
  moreover have "vfree (proctab k' 5) = 7" "vmax (proctab k' 5) = 0x4402" using k'(4) by (simp_all add: e)
  ultimately show ?thesis using k'(1,2) by (intro exI [of _ k'] conjI) (auto simp: Let_def)
qed

text \<open>
  \<open>vfree\<close> may keep a page. The service computes the end of the range from the last byte instead of the byte behind it:
  releasing a range of one byte at the start of a page releases nothing and changes nothing, although \<open>vmalloc\<close> reserves a whole
  page for one byte.
\<close>

theorem vfree_keeps_last_page:
  assumes "pid_ok pid" and "aligned ptr" and "n_free_vpages (kvm k) \<le> MAX_HEAP_SIZE"
  shows "ceil_div 1 PAGE_SIZE = 1 \<and> kernel_service_free ptr 1 pid k = Ret k"
proof -
  have "ptr mod PAGE_SIZE = 0" using assms(2) by (simp add: word_unat_eq_iff unat_mod PAGE_SIZE_def aligned_def dvd_eq_mod_eq_0)
  then have "ceil_div ptr PAGE_SIZE = ptr div PAGE_SIZE" by (simp add: ceil_div_def)
  then have "kernel_service_free ptr 1 pid k = Ret k"
    using assms(1,3) by (simp add: kernel_service_free_def Let_def)
  moreover have "ceil_div 1 PAGE_SIZE = 1" by (simp add: ceil_div_def PAGE_SIZE_def)
  ultimately show ?thesis by simp
qed

theorem vfree_keeps_last_page_witness:
  "ceil_div 1 PAGE_SIZE = 1 \<and> kernel_service_free 0x4000000 1 5 kernel6 = Ret kernel6"
  using vfree_keeps_last_page [of 5 "0x4000000" kernel6]
  by (simp add: pid_ok_def layout_defs aligned_def kernel6_def)

end
