(* ===== verification/PageFault.thy ===== *)
theory PageFault
  imports KernelServices
begin

text \<open>
  The page fault handler and the swapping of pages between the FFS region and the swap region:
  \<open>system/pagefault_handler.c\<close>.

  Page table entries are changed through pointers that are kept in the arrays \<open>ptmap\<close> and \<open>swap2ffsmap\<close>, so every access to
  an entry is an access to memory at its address. The state of \<open>rand\<close> is passed along; the error code and the faulting address
  are what the processor pushes and keeps in \<open>cr2\<close>.
\<close>

section \<open>Copying pages\<close>

fun copy_words :: "nat \<Rightarrow> addr \<Rightarrow> addr \<Rightarrow> mem \<Rightarrow> mem" where
  "copy_words 0 src dst m = m"
| "copy_words (Suc n) src dst m = copy_words n (src + 4) (dst + 4) (m(dst := m src))"

fun swap_words :: "nat \<Rightarrow> addr \<Rightarrow> addr \<Rightarrow> mem \<Rightarrow> mem" where
  "swap_words 0 src dst m = m"
| "swap_words (Suc n) src dst m =
    (let temp = m src;
         m = m(src := m dst);
         m = m(dst := temp) in
     swap_words n (src + 4) (dst + 4) m)"

definition copy_page :: "u32 \<Rightarrow> u32 \<Rightarrow> bool \<Rightarrow> vm \<Rightarrow> vm" where
  "copy_page fromframe toframe bothways v =
    v\<lparr>vmem := (if bothways then swap_words else copy_words) (unat N_PAGE_ENTRIES) (frame_addr fromframe) (frame_addr toframe) (vmem v)\<rparr>"

section \<open>Choosing a place in swap\<close>

fun swap_scan :: "nat \<Rightarrow> u32 \<Rightarrow> vm \<Rightarrow> u32" where
  "swap_scan 0 i v = USYSERR"
| "swap_scan (Suc n) i v =
    (if swap2ffsmap v i \<noteq> NULL \<and> pt_pres (vmem v (swap2ffsmap v i)) then i else swap_scan n (i + 1) v)"

definition swap_get_evict_candidate :: "vm \<Rightarrow> u32" where
  "swap_get_evict_candidate v = swap_scan (unat MAX_SWAP_SIZE) 0 v"

text \<open>Stores to fields of the entry at \<open>p\<close>.\<close>

definition set_flag :: "nat \<Rightarrow> bool \<Rightarrow> addr \<Rightarrow> vm \<Rightarrow> vm" where
  "set_flag n b p v = v\<lparr>vmem := (vmem v)(p := put_bit n b (vmem v p))\<rparr>"

definition set_base :: "u32 \<Rightarrow> addr \<Rightarrow> vm \<Rightarrow> vm" where
  "set_base b p v = v\<lparr>vmem := (vmem v)(p := put_base b (vmem v p))\<rparr>"

abbreviation "PRES \<equiv> (0 :: nat)"
abbreviation "DIRTY \<equiv> (6 :: nat)"
abbreviation "ISVMALLOC \<equiv> (9 :: nat)"
abbreviation "ISSWAPPED \<equiv> (10 :: nat)"
abbreviation "ALREADY_SWAPPED \<equiv> (11 :: nat)"

text \<open>
  When the swap region is full: take the swap copy of a page that is in the FFS region, or else exchange the two pages in place.
\<close>

definition reclaim_swapframe :: "addr \<Rightarrow> vm \<Rightarrow> (u32 \<times> bool \<times> vm) result" where
  "reclaim_swapframe ptP v =
    (let maxpdptframe = ceil_div (maxpdpt v) PAGE_SIZE;
         maxffsframe = ceil_div (maxffs v) PAGE_SIZE;
         swapframe = swap_get_evict_candidate v in
     rbind (if swapframe = USYSERR
            then kassert (pt_isswapped (vmem v ptP)) (Ret (pt_base (vmem v ptP) - maxffsframe, True, ptP))
            else rbind (get_swap2ffs swapframe v) (\<lambda>tmpPtP. Ret (swapframe, False, tmpPtP))) (\<lambda>(swapframe, inplace, tmpPtP).
     let v = set_flag ALREADY_SWAPPED False tmpPtP v;
         v = set_flag DIRTY True tmpPtP v in
     rbind (if \<not> inplace then set_ffs2swap (pt_base (vmem v tmpPtP) - maxpdptframe) (- 1) v else Ret v) (\<lambda>v.
     Ret (swapframe + maxffsframe, inplace, v))))"

definition choose_swapframe :: "u32 \<Rightarrow> addr \<Rightarrow> vm \<Rightarrow> (u32 \<times> bool \<times> vm) result" where
  "choose_swapframe ptmapindex ptP v =
    rbind (get_ptmap ptmapindex v) (\<lambda>victim.
    rbind (get_ffs2swap ptmapindex v) (\<lambda>s.
    if pt_already_swapped (vmem v victim) then
      kassert (s \<noteq> - 1) (Ret (s, False, v))
    else
      kassert (s = - 1) (
      rbind (getswapframe v) (\<lambda>(swapframe, v).
      if swapframe = drop_bit PAGE_OFFSET_BITS USYSERR then reclaim_swapframe ptP v
      else Ret (swapframe, False, v)))))"

section \<open>Making room in the FFS region\<close>

definition evict :: "u32 \<Rightarrow> addr \<Rightarrow> vm \<Rightarrow> (u32 \<times> vm) result" where
  "evict ptmapindex ptP v =
    (let maxpdptframe = ceil_div (maxpdpt v) PAGE_SIZE;
         maxffsframe = ceil_div (maxffs v) PAGE_SIZE;
         evict_frame = maxpdptframe + ptmapindex in
     rbind (choose_swapframe ptmapindex ptP v) (\<lambda>(swapframe, inplace, v).
     rbind (set_ffs2swap ptmapindex (- 1) v) (\<lambda>v.
     rbind (set_swap2ffs (swapframe - maxffsframe) NULL v) (\<lambda>v.
     rbind (get_ptmap ptmapindex v) (\<lambda>victim.
     let v = set_base swapframe victim v;
         v = set_flag PRES False victim v;
         v = set_flag ISSWAPPED True victim v;
         v = set_flag ALREADY_SWAPPED True victim v;
         v = (if pt_dirty (vmem v victim) \<or> pt_isswapped (vmem v ptP) then copy_page evict_frame swapframe inplace v else v);
         v = set_flag DIRTY False victim v in
     if pt_isswapped (vmem v ptP) \<and> \<not> inplace then
       kassert (pt_already_swapped (vmem v ptP)) (
       rbind (set_ffs2swap ptmapindex (pt_base (vmem v ptP)) v) (\<lambda>v.
       rbind (set_swap2ffs (pt_base (vmem v ptP) - maxffsframe) ptP v) (\<lambda>v.
       Ret (evict_frame, copy_page (pt_base (vmem v ptP)) evict_frame False v))))
     else Ret (evict_frame, v))))))"

text \<open>A free frame: a page that is in swap is copied back and keeps its place there.\<close>

definition bring_back :: "u32 \<Rightarrow> u32 \<Rightarrow> addr \<Rightarrow> vm \<Rightarrow> vm result" where
  "bring_back phys_frame ptmapindex ptP v =
    (let maxffsframe = ceil_div (maxffs v) PAGE_SIZE in
     if pt_isswapped (vmem v ptP) then
       rbind (get_ffs2swap ptmapindex v) (\<lambda>s.
       kassert (s = - 1) (
       rbind (get_swap2ffs (pt_base (vmem v ptP) - maxffsframe) v) (\<lambda>x.
       kassert (x = NULL) (
       let v = copy_page (pt_base (vmem v ptP)) phys_frame False v in
       rbind (set_ffs2swap ptmapindex (pt_base (vmem v ptP)) v) (\<lambda>v.
       set_swap2ffs (pt_base (vmem v ptP) - maxffsframe) ptP v)))))
     else kassert (pt_isvmalloc (vmem v ptP)) (Ret v))"

text \<open>The entry of the page is made present.\<close>

definition map_page :: "u32 \<Rightarrow> u32 \<Rightarrow> addr \<Rightarrow> vm \<Rightarrow> vm result" where
  "map_page phys_frame ptmapindex ptP v =
    rbind (get_ptmap ptmapindex v) (\<lambda>old.
    kassert (old = NULL \<or> \<not> pt_pres (vmem v old)) (
    rbind (set_ptmap ptmapindex ptP v) (\<lambda>v.
    let v = set_base phys_frame ptP v;
        v = set_flag PRES True ptP v;
        v = set_flag ISVMALLOC False ptP v;
        v = set_flag ISSWAPPED False ptP v in
    Ret (set_flag DIRTY False ptP v))))"

definition fault_in :: "u32 \<Rightarrow> addr \<Rightarrow> vm \<Rightarrow> (u32 \<times> vm) result" where
  "fault_in seed ptP v =
    rbind (getffsframe v) (\<lambda>(phys_frame, v).
    let maxpdptframe = ceil_div (maxpdpt v) PAGE_SIZE in
    if phys_frame = drop_bit PAGE_OFFSET_BITS USYSERR then
      case rand seed of (r, seed) \<Rightarrow>
        let ptmapindex = word_of_int r mod MAX_FSS_SIZE in
        rbind (evict ptmapindex ptP v) (\<lambda>(phys_frame, v).
        rbind (map_page phys_frame ptmapindex ptP v) (\<lambda>v. Ret (seed, v)))
    else
      let ptmapindex = phys_frame - maxpdptframe in
      rbind (bring_back phys_frame ptmapindex ptP v) (\<lambda>v.
      rbind (map_page phys_frame ptmapindex ptP v) (\<lambda>v. Ret (seed, v))))"

section \<open>The handler\<close>

definition pagefault_handler :: "u32 \<Rightarrow> u32 \<Rightarrow> addr \<Rightarrow> kernel \<Rightarrow> (u32 \<times> kernel) result" where
  "pagefault_handler seed error_code cr2 k =
    (let old_cr3 = cr3 k;
         k = kernel_mode_enter k in
     rbind (if \<not> bit error_code 0 then
              rbind (pread (proctab k) (getpid k)) (\<lambda>pr.
              kassert (old_cr3 = pdbr pr) (
              kassert (cr2 > maxvstack (kvm k)) (
              let dir = frame_addr (pdbr_base (pdbr pr));
                  pde = vmem (kvm k) (entry_addr dir (pd_offset cr2)) in
              if pd_pres pde then
                let ptP = entry_addr (frame_addr (pd_base pde)) (pt_offset cr2);
                    e = vmem (kvm k) ptP in
                kassert (\<not> pt_pres e) (
                if pt_isvmalloc e \<or> pt_isswapped e then
                  kassert (\<not> (pt_isvmalloc e \<and> pt_isswapped e)) (
                  rbind (fault_in seed ptP (kvm k)) (\<lambda>(seed, v). Ret (seed, k\<lparr>kvm := v\<rparr>)))
                else Halted)
              else Halted)))
            else Ret (seed, k)) (\<lambda>(seed, k).
     rbind (kernel_mode_exit k) (\<lambda>k.
     Ret (seed, k))))"

section \<open>Frames of the regions\<close>

lemma layout_top: "layout v b \<Longrightarrow> b + 6400 \<le> 2 ^ 20"
proof -
  assume "layout v b"
  then have "unat (maxvstack v) = 4096 * (b + 6400) - 1" by (simp add: layout_def)
  then have "4096 * (b + 6400) < 4294967297" using unat_u32_less [of "maxvstack v"] by linarith
  then show ?thesis by simp
qed

lemma first_ffs_frame: "layout v b \<Longrightarrow> unat (ceil_div (maxpdpt v) PAGE_SIZE) = b + 256"
  using layout_top [of v b] by (subst unat_ceil_div) (simp_all add: layout_def PAGE_SIZE_def)

lemma first_swap_frame: "layout v b \<Longrightarrow> unat (ceil_div (maxffs v) PAGE_SIZE) = b + 2304"
  using layout_top [of v b] by (subst unat_ceil_div) (simp_all add: layout_def PAGE_SIZE_def)

lemma unat_frame_no: "unat (drop_bit 12 a) = unat a div 4096" for a :: u32
  by (simp add: drop_bit_eq_div unat_div)

text \<open>A page of the FFS region has a place in the arrays, and its frame number is not the one that reports failure.\<close>

definition ffs_index :: "vm \<Rightarrow> addr \<Rightarrow> u32" where
  "ffs_index v a = drop_bit 12 a - ceil_div (maxpdpt v) PAGE_SIZE"

lemma ffs_page:
  assumes l: "layout v b" and a: "aligned a" and r: "page a \<subseteq> {minffs v..maxffs v}"
  shows "ffs_index v a < MAX_FSS_SIZE" "drop_bit 12 a \<noteq> drop_bit 12 USYSERR" "frame_addr (drop_bit 12 a) = a"
proof -
  obtain j where j: "unat a = 4096 * j" using a by (auto simp: aligned_def elim: dvdE)
  have "a \<in> page a" by (rule self_in_page [OF a])
  then have "minffs v \<le> a" "a \<le> maxffs v" using r by auto
  then have "4096 * (b + 256) \<le> 4096 * j" "4096 * j \<le> 4096 * (b + 2304) - 1"
    using l j by (simp_all add: layout_def word_le_nat_alt)
  then have bnd: "b + 256 \<le> j" "j < b + 2304" by simp_all
  have f: "unat (drop_bit 12 a) = j" by (simp add: unat_frame_no j)
  have "unat (ffs_index v a) = j - (b + 256)"
    unfolding ffs_index_def using f first_ffs_frame [OF l] bnd by (subst unat_minus_le) (simp_all add: word_le_nat_alt)
  then show "ffs_index v a < MAX_FSS_SIZE" using bnd by (simp add: word_less_nat_alt MAX_FSS_SIZE_def)
  have "unat (drop_bit 12 USYSERR) = 1048575" by (simp add: unat_frame_no unat_USYSERR)
  moreover have "j < 1048575" using bnd layout_top [OF l] by simp
  ultimately show "drop_bit 12 a \<noteq> drop_bit 12 USYSERR" using f by (metis nat_neq_iff)
  show "frame_addr (drop_bit 12 a) = a" by (rule frame_addr_drop [OF a])
qed

text \<open>The free frames of the FFS region; no page and no swap copy is recorded for them.\<close>

definition ffs_free :: "vm \<Rightarrow> block list \<Rightarrow> bool" where
  "ffs_free v bs \<longleftrightarrow> page_pool (ffslist v) (minffs v) (maxffs v) (vmem v) bs \<and>
    (\<forall>a. aligned a \<longrightarrow> page a \<subseteq> region bs \<longrightarrow> ptmap v (ffs_index v a) = NULL \<and> ffs2swapmap v (ffs_index v a) = - 1)"

lemma getffsframe_ok:
  assumes l: "layout v b" and f: "ffs_free v bs" and ne: "bs \<noteq> []"
  obtains a m' bs' where "getffsframe v = Ret (drop_bit 12 a, v\<lparr>vmem := m'\<rparr>)" "page_pool (ffslist v) (minffs v) (maxffs v) m' bs'"
    "aligned a" "page a \<subseteq> region bs" "region bs' = region bs - page a" "ffs_index v a < MAX_FSS_SIZE" "drop_bit 12 a \<noteq> drop_bit 12 USYSERR"
    "ptmap v (ffs_index v a) = NULL" "ffs2swapmap v (ffs_index v a) = - 1" "region bs \<subseteq> {minffs v..maxffs v}"
    "\<forall>x. x \<notin> region bs \<union> {ffslist v, ffslist v + 4} \<longrightarrow> m' x = vmem v x"
proof -
  have pp: "page_pool (ffslist v) (minffs v) (maxffs v) (vmem v) bs" using f by (simp add: ffs_free_def)
  obtain a m' bs' where a: "getfreemem (ffslist v) PAGE_SIZE (vmem v) = Ret (a, m')" "page_pool (ffslist v) (minffs v) (maxffs v) m' bs'"
    "aligned a" "page a \<subseteq> region bs" "region bs' = region bs - page a" "a \<noteq> USYSERR"
    "\<forall>x. x \<notin> region bs \<union> {ffslist v, ffslist v + 4} \<longrightarrow> m' x = vmem v x"
    using page_alloc(2) [OF pp ne] by blast
  have r: "region bs \<subseteq> {minffs v..maxffs v}" using pp by (simp add: page_pool_def pool_inv_def)
  note fp = ffs_page [OF l a(3) order_trans [OF a(4) r]]
  have "getffsframe v = Ret (drop_bit 12 a, v\<lparr>vmem := m'\<rparr>)" using a(1) by (simp add: getffsframe_def PAGE_OFFSET_BITS_def)
  then show thesis using that a fp r f by (simp add: ffs_free_def)
qed

section \<open>Copied pages\<close>

lemma copy_words_frame: "x \<notin> words dst n \<Longrightarrow> copy_words n src dst m x = m x"
  by (induction n arbitrary: src dst m) (simp_all add: words_Suc)

lemma copy_words_eq:
  assumes "words dst n \<inter> words src n = {}" and "n \<le> 2 ^ 30" and "i < n"
  shows "copy_words n src dst m (dst + 4 * of_nat i) = m (src + 4 * of_nat i)"
  using assms
proof (induction n arbitrary: src dst m i)
  case (Suc n)
  have sub: "words (dst + 4) n \<inter> words (src + 4) n = {}" using Suc.prems by (auto simp: words_Suc)
  have d: "dst \<notin> words (dst + 4) n" using word_below [of n dst] Suc.prems by simp
  have ds: "dst \<notin> words (src + 4) n" using Suc.prems by (auto simp: words_Suc)
  show ?case
  proof (cases i)
    case 0
    then show ?thesis using copy_words_frame [OF d] by simp
  next
    case (Suc j)
    have j: "j < n" using Suc.prems Suc by simp
    then have "src + 4 + 4 * of_nat j \<noteq> dst" using ds by (auto simp: words_def)
    then show ?thesis
      using Suc.IH [OF sub _ j, of "m(dst := m src)"] Suc.prems(2) Suc by (simp add: algebra_simps fun_upd_def)
  qed
qed simp

text \<open>Whole pages.\<close>

lemma words_page:
  assumes "aligned a"
  shows "words a 1024 \<subseteq> page a"
proof
  fix x assume "x \<in> words a 1024"
  then obtain i where i: "i < 1024" "x = entry_addr a (of_nat i)" by (auto simp: words_def entry_addr_def)
  then show "x \<in> page a" using entry_in_page [OF assms] by simp
qed

definition same_page :: "mem \<Rightarrow> addr \<Rightarrow> mem \<Rightarrow> addr \<Rightarrow> bool" where
  "same_page m a m' a' \<longleftrightarrow> (\<forall>i < 1024. m (a + 4 * of_nat i) = m' (a' + 4 * of_nat i))"

lemma copy_page_ok:
  assumes "frame_addr f \<noteq> frame_addr g"
  shows "same_page (vmem (copy_page f g False v)) (frame_addr g) (vmem v) (frame_addr f)"
    and "x \<notin> page (frame_addr g) \<Longrightarrow> vmem (copy_page f g False v) x = vmem v x"
    and "copy_page f g False v = v\<lparr>vmem := vmem (copy_page f g False v)\<rparr>"
proof -
  have c: "vmem (copy_page f g False v) = copy_words 1024 (frame_addr f) (frame_addr g) (vmem v)"
    by (simp add: copy_page_def N_PAGE_ENTRIES_def)
  have dj: "words (frame_addr g) 1024 \<inter> words (frame_addr f) 1024 = {}"
    using words_page [OF aligned_frame_addr, of g] words_page [OF aligned_frame_addr, of f]
      pages_disjoint [OF aligned_frame_addr aligned_frame_addr assms] by blast
  show "same_page (vmem (copy_page f g False v)) (frame_addr g) (vmem v) (frame_addr f)"
    unfolding c same_page_def by (intro allI impI copy_words_eq [OF dj]) simp_all
  show "vmem (copy_page f g False v) x = vmem v x" if "x \<notin> page (frame_addr g)"
    unfolding c using that words_page [OF aligned_frame_addr] by (intro copy_words_frame) blast
qed (simp add: copy_page_def)

section \<open>The regions are apart\<close>

definition vm_ok :: "vm \<Rightarrow> bool" where
  "vm_ok v \<longleftrightarrow> (\<exists>b. layout v b) \<and> heads_ok v (minpdpt v)"

lemma regions_apart:
  assumes "vm_ok v"
  shows "{minpdpt v..maxpdpt v} \<inter> {minffs v..maxffs v} = {}" "{minpdpt v..maxpdpt v} \<inter> {minswap v..maxswap v} = {}"
    "{minffs v..maxffs v} \<inter> {minswap v..maxswap v} = {}"
    "{ffslist v, ffslist v + 4, swaplist v, swaplist v + 4} \<inter> ({minpdpt v..maxpdpt v} \<union> {minffs v..maxffs v} \<union> {minswap v..maxswap v}) = {}"
proof -
  obtain b where b: "layout v b" using assms by (auto simp: vm_ok_def)
  note l = b [unfolded layout_def]
  show "{minpdpt v..maxpdpt v} \<inter> {minffs v..maxffs v} = {}" "{minpdpt v..maxpdpt v} \<inter> {minswap v..maxswap v} = {}"
    "{minffs v..maxffs v} \<inter> {minswap v..maxswap v} = {}"
    using l by (auto simp: word_le_nat_alt)
  have h: "unat h < unat (minpdpt v)" "unat (h + 4) < unat (minpdpt v)" if "h \<in> {ffslist v, swaplist v}" for h
  proof -
    have h: "unat h + 8 \<le> unat (minpdpt v)" using that assms by (auto simp: vm_ok_def heads_ok_def)
    have "unat h < 4294967292" using h unat_u32_less [of "minpdpt v"] by linarith
    then have "unat (h + 4) = unat h + 4" by (subst unat_plus_no_wrap) simp_all
    then show "unat h < unat (minpdpt v)" "unat (h + 4) < unat (minpdpt v)" using h by simp_all
  qed
  have "x \<notin> {minpdpt v..maxpdpt v} \<union> {minffs v..maxffs v} \<union> {minswap v..maxswap v}" if "unat x < unat (minpdpt v)" for x
    using that l by (auto simp: word_le_nat_alt)
  then show "{ffslist v, ffslist v + 4, swaplist v, swaplist v + 4} \<inter> ({minpdpt v..maxpdpt v} \<union> {minffs v..maxffs v} \<union> {minswap v..maxswap v}) = {}"
    using h by blast
qed

lemma frame_page_in:
  assumes "unat f = n" and "lo = 4096 * c" and "4096 * d - 1 = unat hi" and "unat l = lo" and "c \<le> n" and "n < d" and "n < 2 ^ 20"
  shows "page (frame_addr f) \<subseteq> {l..hi}"
proof
  fix x assume "x \<in> page (frame_addr f)"
  then have "4096 * n \<le> unat x" "unat x < 4096 * n + 4096"
    using assms(1,7) by (simp_all add: bytes_def unat_frame_addr)
  then show "x \<in> {l..hi}" using assms by (simp add: word_le_nat_alt)
qed

lemma frames_apart:
  assumes "page (frame_addr f) \<subseteq> A" and "page (frame_addr g) \<subseteq> B" and "A \<inter> B = {}"
  shows "frame_addr f \<noteq> frame_addr g"
proof
  assume eq: "frame_addr f = frame_addr g"
  have "frame_addr f \<in> A" using assms(1) self_in_page [OF aligned_frame_addr, of f] by (rule subsetD)
  moreover have "frame_addr g \<in> B" using assms(2) self_in_page [OF aligned_frame_addr, of g] by (rule subsetD)
  ultimately show False using assms(3) unfolding eq by (simp add: disjoint_iff)
qed

lemma swap_page_in:
  assumes "vm_ok v" and "f - ceil_div (maxffs v) PAGE_SIZE < MAX_SWAP_SIZE"
  shows "page (frame_addr f) \<subseteq> {minswap v..maxswap v}"
proof -
  obtain b where b: "layout v b" using assms by (auto simp: vm_ok_def)
  let ?i = "f - ceil_div (maxffs v) PAGE_SIZE"
  have i: "unat ?i < 2048" using assms(2) by (simp add: word_less_nat_alt MAX_SWAP_SIZE_def)
  have "f = ceil_div (maxffs v) PAGE_SIZE + ?i" by simp
  moreover have "unat (ceil_div (maxffs v) PAGE_SIZE + ?i) = b + 2304 + unat ?i"
    using first_swap_frame [OF b] layout_top [OF b] i by (subst unat_plus_no_wrap) simp_all
  ultimately have f: "unat f = b + 2304 + unat ?i" by simp
  show ?thesis by (rule frame_page_in [OF f, of _ "b + 2304" "b + 4352"]) (use b i layout_top [OF b] in \<open>simp_all add: layout_def\<close>)
qed

lemma ffs_page_in:
  assumes "vm_ok v" and "i < MAX_FSS_SIZE"
  shows "page (frame_addr (ceil_div (maxpdpt v) PAGE_SIZE + i)) \<subseteq> {minffs v..maxffs v}"
proof -
  obtain b where b: "layout v b" using assms by (auto simp: vm_ok_def)
  have i: "unat i < 2048" using assms(2) by (simp add: word_less_nat_alt MAX_FSS_SIZE_def)
  have f: "unat (ceil_div (maxpdpt v) PAGE_SIZE + i) = b + 256 + unat i"
    using first_ffs_frame [OF b] layout_top [OF b] i by (subst unat_plus_no_wrap) simp_all
  show ?thesis by (rule frame_page_in [OF f, of _ "b + 256" "b + 2304"]) (use b i layout_top [OF b] in \<open>simp_all add: layout_def\<close>)
qed

section \<open>A page that finds a free frame\<close>

text \<open>The entry that \<open>map_page\<close> leaves.\<close>

definition mapped_entry :: "u32 \<Rightarrow> u32 \<Rightarrow> u32" where
  "mapped_entry frame e = put_bit DIRTY False (put_bit ISSWAPPED False (put_bit ISVMALLOC False (put_bit PRES True (put_base frame e))))"

lemma mapped_entry_fields [simp]:
  "pt_pres (mapped_entry f e)" "pt_base (mapped_entry f e) = take_bit 20 f" "\<not> pt_isvmalloc (mapped_entry f e)"
  "\<not> pt_isswapped (mapped_entry f e)" "\<not> pt_dirty (mapped_entry f e)" "pt_already_swapped (mapped_entry f e) = pt_already_swapped e"
  by (simp_all add: mapped_entry_def field_defs bit_put_bit bit_put_base) (rule u32_eqI, auto simp: bit_simps bit_put_bit bit_put_base)

lemma map_page_eq:
  assumes "i < MAX_FSS_SIZE" and "ptmap v i = NULL \<or> \<not> pt_pres (vmem v (ptmap v i))"
  shows "map_page f i p v = Ret (v\<lparr>ptmap := (ptmap v)(i := p), vmem := (vmem v)(p := mapped_entry f (vmem v p))\<rparr>)"
  using assms by (simp add: map_page_def get_ptmap_def set_ptmap_def set_base_def set_flag_def mapped_entry_def Let_def)

text \<open>What the entry of a page that may be faulted in says: reserved and never touched, or in swap with no copy in the FFS region.\<close>

definition swap_index :: "vm \<Rightarrow> u32 \<Rightarrow> u32" where
  "swap_index v e = pt_base e - ceil_div (maxffs v) PAGE_SIZE"

definition waiting_entry :: "vm \<Rightarrow> u32 \<Rightarrow> bool" where
  "waiting_entry v e \<longleftrightarrow> \<not> pt_pres e \<and> (pt_isvmalloc e \<longleftrightarrow> \<not> pt_isswapped e) \<and>
    (pt_isswapped e \<longrightarrow> swap_index v e < MAX_SWAP_SIZE \<and> swap2ffsmap v (swap_index v e) = NULL)"

text \<open>Nothing but the memory and the three maps changes.\<close>

definition vm_frame :: "vm \<Rightarrow> vm \<Rightarrow> bool" where
  "vm_frame v v' \<longleftrightarrow> v' = v\<lparr>vmem := vmem v', ptmap := ptmap v', ffs2swapmap := ffs2swapmap v', swap2ffsmap := swap2ffsmap v'\<rparr>"

lemma vm_frame_fields:
  assumes "vm_frame v v'"
  shows "maxpdpt v' = maxpdpt v" "minpdpt v' = minpdpt v" "minffs v' = minffs v" "maxffs v' = maxffs v" "minswap v' = minswap v"
    "maxswap v' = maxswap v" "ffslist v' = ffslist v" "swaplist v' = swaplist v" "ffs_index v' = ffs_index v" "vm_ok v' = vm_ok v"
    "maxvstack v' = maxvstack v" "swap_index v' = swap_index v"
proof -
  note e = assms [unfolded vm_frame_def]
  show "maxpdpt v' = maxpdpt v" "minpdpt v' = minpdpt v" "minffs v' = minffs v" "maxffs v' = maxffs v" "minswap v' = minswap v"
    "maxswap v' = maxswap v" "ffslist v' = ffslist v" "swaplist v' = swaplist v" "maxvstack v' = maxvstack v" by (subst e, simp)+
  show "ffs_index v' = ffs_index v" "swap_index v' = swap_index v" by (subst e, simp add: ffs_index_def swap_index_def fun_eq_iff)+
  show "vm_ok v' = vm_ok v" by (subst e) (simp add: vm_ok_def layout_def heads_ok_def)
qed

lemma fault_in_free:
  assumes ok: "vm_ok v" and f: "ffs_free v bs" and ne: "bs \<noteq> []" and pd: "p \<in> {minpdpt v..maxpdpt v}"
    and w: "waiting_entry v (vmem v p)"
  obtains a v' bs' where "fault_in seed p v = Ret (seed, v')" "aligned a" "page a \<subseteq> region bs" "region bs' = region bs - page a"
    "page_pool (ffslist v) (minffs v) (maxffs v) (vmem v') bs'" "vmem v' p = mapped_entry (drop_bit 12 a) (vmem v p)"
    "\<And>x. x \<noteq> p \<Longrightarrow> x \<notin> region bs \<union> {ffslist v, ffslist v + 4} \<Longrightarrow> vmem v' x = vmem v x"
    "vm_frame v v'" "pt_isswapped (vmem v p) \<Longrightarrow> same_page (vmem v') a (vmem v) (frame_addr (pt_base (vmem v p)))"
    "ptmap v' = (ptmap v)(ffs_index v a := p)"
    "ffs2swapmap v' = (if pt_isswapped (vmem v p) then (ffs2swapmap v)(ffs_index v a := pt_base (vmem v p)) else ffs2swapmap v)"
proof -
  obtain b where l: "layout v b" using ok by (auto simp: vm_ok_def)
  note ap = regions_apart [OF ok]
  have hd: "region bs \<subseteq> {minffs v..maxffs v}" "ffslist v \<notin> {minffs v..maxffs v}" using f by (auto simp: ffs_free_def page_pool_def pool_inv_def)
  have p: "p \<notin> region bs \<union> {ffslist v, ffslist v + 4}" using pd hd(1) ap(1,4) by blast
  have dj: "page (frame_addr (pt_base (vmem v p))) \<inter> (region bs \<union> {ffslist v, ffslist v + 4}) = {}" if "pt_isswapped (vmem v p)"
  proof -
    have "page (frame_addr (pt_base (vmem v p))) \<subseteq> {minswap v..maxswap v}"
      by (rule swap_page_in [OF ok]) (use that w in \<open>simp add: waiting_entry_def swap_index_def\<close>)
    then show ?thesis using hd(1) ap(3,4) by blast
  qed
  obtain a m1 bs' where a: "getffsframe v = Ret (drop_bit 12 a, v\<lparr>vmem := m1\<rparr>)" "page_pool (ffslist v) (minffs v) (maxffs v) m1 bs'"
    "aligned a" "page a \<subseteq> region bs" "region bs' = region bs - page a" "ffs_index v a < MAX_FSS_SIZE" "drop_bit 12 a \<noteq> drop_bit 12 USYSERR"
    "ptmap v (ffs_index v a) = NULL" "ffs2swapmap v (ffs_index v a) = - 1"
    "\<forall>x. x \<notin> region bs \<union> {ffslist v, ffslist v + 4} \<longrightarrow> m1 x = vmem v x"
    by (rule getffsframe_ok [OF l f ne]) (rule that)
  let ?e = "vmem v p" and ?i = "ffs_index v a" and ?s = "swap_index v (vmem v p)" and ?v1 = "v\<lparr>vmem := m1\<rparr>"
  have m1p: "m1 p = ?e" using a(10) p by simp
  have fa: "frame_addr (drop_bit 12 a) = a" by (rule frame_addr_drop [OF a(3)])
  obtain v2 where b: "bring_back (drop_bit 12 a) ?i p ?v1 = Ret v2" "ptmap v2 = ptmap v" "vmem v2 p = ?e"
    "\<And>x. x \<notin> page a \<Longrightarrow> vmem v2 x = m1 x" "pt_isswapped ?e \<Longrightarrow> same_page (vmem v2) a m1 (frame_addr (pt_base ?e))"
    "ffs2swapmap v2 = (if pt_isswapped ?e then (ffs2swapmap v)(?i := pt_base ?e) else ffs2swapmap v)" "vm_frame v v2"
  proof (cases "pt_isswapped ?e")
    case False
    then have "bring_back (drop_bit 12 a) ?i p ?v1 = Ret ?v1" using w m1p by (simp add: bring_back_def waiting_entry_def)
    then show thesis using that [of ?v1] m1p False by (simp add: vm_frame_def)
  next
    case True
    have sw: "?s < MAX_SWAP_SIZE" "swap2ffsmap v ?s = NULL" "page (frame_addr (pt_base ?e)) \<inter> region bs = {}"
      using w True dj by (auto simp: waiting_entry_def)
    have ne: "frame_addr (pt_base ?e) \<noteq> frame_addr (drop_bit 12 a)"
      unfolding fa using self_in_page [OF a(3)] sw(3) a(4) by blast
    let ?c = "copy_page (pt_base ?e) (drop_bit 12 a) False ?v1"
    note cp = copy_page_ok [OF ne, where v = ?v1, unfolded fa]
    have pa: "p \<notin> page a" using p a(4) by blast
    have cm: "vmem ?c p = ?e" using cp(2) [OF pa] m1p by simp
    have cf: "ffs2swapmap ?c = ffs2swapmap v" "swap2ffsmap ?c = swap2ffsmap v" "ptmap ?c = ptmap v" "maxffs ?c = maxffs v"
      by (simp_all add: copy_page_def)
    let ?v2 = "?c\<lparr>ffs2swapmap := (ffs2swapmap v)(?i := pt_base ?e), swap2ffsmap := (swap2ffsmap v)(?s := p)\<rparr>"
    have "bring_back (drop_bit 12 a) ?i p ?v1 = Ret ?v2"
      using True m1p a(6,9) sw cm cf
      by (simp add: bring_back_def Let_def get_ffs2swap_def get_swap2ffs_def set_ffs2swap_def set_swap2ffs_def swap_index_def)
    moreover have "vm_frame v ?v2" by (simp add: vm_frame_def copy_page_def)
    ultimately show thesis using that [of ?v2] True cm cf cp by simp
  qed
  let ?v3 = "v2\<lparr>ptmap := (ptmap v2)(?i := p), vmem := (vmem v2)(p := mapped_entry (drop_bit 12 a) (vmem v2 p))\<rparr>"
  have run: "fault_in seed p v = Ret (seed, ?v3)"
    using a(1,7) b(1) map_page_eq [of ?i v2 "drop_bit 12 a" p] a(6,8) b(2)
    by (simp add: fault_in_def Let_def ffs_index_def PAGE_OFFSET_BITS_def)
  have la: "ffslist v \<notin> page a" using hd a(4) by blast
  have "page_pool (ffslist v) (minffs v) (maxffs v) (vmem ?v3) bs'"
    by (rule page_pool_frame [OF a(2)]) (use a(4,5) b(4) p la in auto)
  moreover have "vmem ?v3 x = vmem v x" if "x \<noteq> p" "x \<notin> region bs \<union> {ffslist v, ffslist v + 4}" for x
    using that b(4) [of x] a(4,10) by auto
  moreover have "same_page (vmem ?v3) a (vmem v) (frame_addr (pt_base ?e))" if sw: "pt_isswapped ?e"
  proof -
    have "m1 (frame_addr (pt_base ?e) + 4 * of_nat i) = vmem v (frame_addr (pt_base ?e) + 4 * of_nat i)" if "i < 1024" for i
    proof -
      have "frame_addr (pt_base ?e) + 4 * of_nat i \<in> page (frame_addr (pt_base ?e))"
        using entry_in_page [OF aligned_frame_addr that] by (simp add: entry_addr_def)
      then show ?thesis using a(10) dj [OF sw] by blast
    qed
    moreover have "a + 4 * of_nat i \<noteq> p" if "i < 1024" for i
      using entry_in_page [OF a(3) that] p a(4) by (auto simp: entry_addr_def)
    ultimately show ?thesis using b(5) [OF sw] by (simp add: same_page_def)
  qed
  moreover have "vm_frame v ?v3" using b(7) by (cases v, cases v2) (simp add: vm_frame_def)
  ultimately show thesis by (intro that [OF run a(3,4,5)]) (use b(2,3,6) in auto)
qed

section \<open>A page that takes another's frame\<close>

text \<open>
  The page in the frame that is given up, and the frame of the swap region its copy goes to: the one it has, or a new one.
\<close>

definition evicted_entry :: "u32 \<Rightarrow> u32 \<Rightarrow> u32" where
  "evicted_entry s e = put_bit DIRTY False (put_bit ALREADY_SWAPPED True (put_bit ISSWAPPED True (put_bit PRES False (put_base s e))))"

lemma evicted_entry_fields [simp]:
  "\<not> pt_pres (evicted_entry f e)" "pt_base (evicted_entry f e) = take_bit 20 f" "pt_isvmalloc (evicted_entry f e) = pt_isvmalloc e"
  "pt_isswapped (evicted_entry f e)" "\<not> pt_dirty (evicted_entry f e)" "pt_already_swapped (evicted_entry f e)"
  by (simp_all add: evicted_entry_def field_defs bit_put_bit bit_put_base) (rule u32_eqI, auto simp: bit_simps bit_put_bit bit_put_base)

lemma dirty_evicting [simp]:
  "pt_dirty (put_bit ALREADY_SWAPPED True (put_bit ISSWAPPED True (put_bit PRES False (put_base s e)))) = pt_dirty e"
  by (simp add: field_defs bit_put_bit bit_put_base)

definition swap_free :: "vm \<Rightarrow> block list \<Rightarrow> bool" where
  "swap_free v ss \<longleftrightarrow> page_pool (swaplist v) (minswap v) (maxswap v) (vmem v) ss"

definition has_swap_copy :: "vm \<Rightarrow> block list \<Rightarrow> u32 \<Rightarrow> bool" where
  "has_swap_copy v ss i \<longleftrightarrow> (let e = vmem v (ptmap v i); s = ffs2swapmap v i in
    pt_already_swapped e \<and> s \<noteq> - 1 \<and> s - ceil_div (maxffs v) PAGE_SIZE < MAX_SWAP_SIZE \<and> page (frame_addr s) \<inter> region ss = {})"

definition needs_swap_copy :: "vm \<Rightarrow> block list \<Rightarrow> u32 \<Rightarrow> bool" where
  "needs_swap_copy v ss i \<longleftrightarrow> \<not> pt_already_swapped (vmem v (ptmap v i)) \<and> ffs2swapmap v i = - 1 \<and> ss \<noteq> []"

lemma choose_swapframe_ok:
  assumes ok: "vm_ok v" and i: "i < MAX_FSS_SIZE" and ss: "swap_free v ss" and c: "has_swap_copy v ss i \<or> needs_swap_copy v ss i"
  obtains s m' ss' where "choose_swapframe i p v = Ret (s, False, v\<lparr>vmem := m'\<rparr>)" "page_pool (swaplist v) (minswap v) (maxswap v) m' ss'"
    "s - ceil_div (maxffs v) PAGE_SIZE < MAX_SWAP_SIZE" "page (frame_addr s) \<inter> region ss' = {}" "region ss' \<subseteq> region ss"
    "if has_swap_copy v ss i then s = ffs2swapmap v i \<and> m' = vmem v else page (frame_addr s) \<subseteq> region ss"
    "\<forall>x. x \<notin> {minswap v..maxswap v} \<union> {swaplist v, swaplist v + 4} \<longrightarrow> m' x = vmem v x"
    "\<forall>x. x \<notin> region ss \<union> {swaplist v, swaplist v + 4} \<longrightarrow> m' x = vmem v x" "frame_addr s = frame_addr (take_bit 20 s)"
proof (cases "has_swap_copy v ss i")
  case True
  then have h: "pt_already_swapped (vmem v (ptmap v i))" "ffs2swapmap v i \<noteq> - 1"
    "ffs2swapmap v i - ceil_div (maxffs v) PAGE_SIZE < MAX_SWAP_SIZE" "page (frame_addr (ffs2swapmap v i)) \<inter> region ss = {}"
    by (simp_all add: has_swap_copy_def Let_def)
  have r: "choose_swapframe i p v = Ret (ffs2swapmap v i, False, v\<lparr>vmem := vmem v\<rparr>)"
    using i h(1,2) by (simp add: choose_swapframe_def get_ptmap_def get_ffs2swap_def)
  show thesis by (rule that [OF r _ h(3,4)]) (use True ss in \<open>simp_all add: swap_free_def\<close>)
next
  case False
  obtain b where b: "layout v b" using ok by (auto simp: vm_ok_def)
  have n: "needs_swap_copy v ss i" using c False by simp
  obtain a m' ss' where a: "getfreemem (swaplist v) PAGE_SIZE (vmem v) = Ret (a, m')" "page_pool (swaplist v) (minswap v) (maxswap v) m' ss'"
    "aligned a" "page a \<subseteq> region ss" "region ss' = region ss - page a"
    "\<forall>x. x \<notin> region ss \<union> {swaplist v, swaplist v + 4} \<longrightarrow> m' x = vmem v x"
    using page_alloc(2) [of "swaplist v" "minswap v" "maxswap v" "vmem v" ss] ss n by (auto simp: swap_free_def needs_swap_copy_def)
  have r: "region ss \<subseteq> {minswap v..maxswap v}" using ss by (simp add: swap_free_def page_pool_def pool_inv_def)
  obtain j where j: "unat a = 4096 * j" using a(3) by (auto simp: aligned_def elim: dvdE)
  have "a \<in> {minswap v..maxswap v}" using self_in_page [OF a(3)] a(4) r by blast
  then have "4096 * (b + 2304) \<le> 4096 * j" "4096 * j \<le> 4096 * (b + 4352) - 1" using b j by (simp_all add: layout_def word_le_nat_alt)
  then have bnd: "b + 2304 \<le> j" "j < b + 4352" by simp_all
  have f: "unat (drop_bit 12 a) = j" by (simp add: unat_frame_no j)
  have "unat (drop_bit 12 a - ceil_div (maxffs v) PAGE_SIZE) = j - (b + 2304)"
    using f first_swap_frame [OF b] bnd by (subst unat_minus_le) (simp_all add: word_le_nat_alt)
  then have idx: "drop_bit 12 a - ceil_div (maxffs v) PAGE_SIZE < MAX_SWAP_SIZE" using bnd by (simp add: word_less_nat_alt MAX_SWAP_SIZE_def)
  have "unat (drop_bit 12 USYSERR) = 1048575" by (simp add: unat_frame_no unat_USYSERR)
  moreover have "j < 1048575" using bnd layout_top [OF b] by simp
  ultimately have ne: "drop_bit 12 a \<noteq> drop_bit 12 USYSERR" using f by (metis nat_neq_iff)
  have fa: "frame_addr (drop_bit 12 a) = a" by (rule frame_addr_drop [OF a(3)])
  have "choose_swapframe i p v = Ret (drop_bit 12 a, False, v\<lparr>vmem := m'\<rparr>)"
    using i n a(1) ne by (simp add: choose_swapframe_def get_ptmap_def get_ffs2swap_def needs_swap_copy_def getswapframe_def PAGE_OFFSET_BITS_def)
  then show thesis by (rule that [OF _ a(2) idx]) (use a(4-6) r fa False in auto)
qed

lemma same_page_cong:
  assumes "same_page m a m1 a1" and "aligned a" and "aligned a1" and "\<And>x. x \<in> page a \<Longrightarrow> m' x = m x" and "\<And>x. x \<in> page a1 \<Longrightarrow> m1' x = m1 x"
  shows "same_page m' a m1' a1"
  using assms entry_in_page by (simp add: same_page_def entry_addr_def)

lemma same_page_refl: "same_page m a m a"
  by (simp add: same_page_def)

definition evict_frame :: "vm \<Rightarrow> u32 \<Rightarrow> u32" where
  "evict_frame v i = ceil_div (maxpdpt v) PAGE_SIZE + i"

text \<open>The page that asks for the frame; one that is in swap has a frame there that is not free and not the one about to be written.\<close>

definition swapped_in_ok :: "vm \<Rightarrow> block list \<Rightarrow> u32 \<Rightarrow> u32 \<Rightarrow> bool" where
  "swapped_in_ok v ss i e \<longleftrightarrow> \<not> pt_pres e \<and> (pt_isvmalloc e \<longleftrightarrow> \<not> pt_isswapped e) \<and>
    (pt_isswapped e \<longrightarrow> pt_already_swapped e \<and> swap_index v e < MAX_SWAP_SIZE \<and> page (frame_addr (pt_base e)) \<inter> region ss = {} \<and>
      (has_swap_copy v ss i \<longrightarrow> frame_addr (pt_base e) \<noteq> frame_addr (ffs2swapmap v i)))"

text \<open>The contents of the frame are in its swap frame afterwards: they are copied, or the copy was up to date.\<close>

definition clean_copy :: "vm \<Rightarrow> block list \<Rightarrow> u32 \<Rightarrow> bool" where
  "clean_copy v ss i \<longleftrightarrow> has_swap_copy v ss i \<and> same_page (vmem v) (frame_addr (ffs2swapmap v i)) (vmem v) (frame_addr (evict_frame v i))"

lemma evict_ok:
  assumes ok: "vm_ok v" and i: "i < MAX_FSS_SIZE" and ss: "swap_free v ss" and c: "has_swap_copy v ss i \<or> needs_swap_copy v ss i"
    and V: "ptmap v i \<in> {minpdpt v..maxpdpt v}" and p: "p \<in> {minpdpt v..maxpdpt v}" "p \<noteq> ptmap v i"
    and e: "swapped_in_ok v ss i (vmem v p)" and d: "pt_dirty (vmem v (ptmap v i)) \<or> clean_copy v ss i"
  obtains s v' where "evict i p v = Ret (evict_frame v i, v')" "vmem v' (ptmap v i) = evicted_entry s (vmem v (ptmap v i))"
    "vmem v' p = vmem v p" "\<And>x. x \<in> {minpdpt v..maxpdpt v} \<Longrightarrow> x \<noteq> ptmap v i \<Longrightarrow> vmem v' x = vmem v x"
    "same_page (vmem v') (frame_addr (take_bit 20 s)) (vmem v) (frame_addr (evict_frame v i))"
    "pt_isswapped (vmem v p) \<Longrightarrow> same_page (vmem v') (frame_addr (evict_frame v i)) (vmem v) (frame_addr (pt_base (vmem v p)))"
    "ptmap v' = ptmap v" "ffs2swapmap v' = (ffs2swapmap v)(i := if pt_isswapped (vmem v p) then pt_base (vmem v p) else - 1)"
    "s - ceil_div (maxffs v) PAGE_SIZE < MAX_SWAP_SIZE" "swap2ffsmap v' (s - ceil_div (maxffs v) PAGE_SIZE) = NULL" "vm_frame v v'"
proof -
  obtain s m1 ss' where s: "choose_swapframe i p v = Ret (s, False, v\<lparr>vmem := m1\<rparr>)"
    "s - ceil_div (maxffs v) PAGE_SIZE < MAX_SWAP_SIZE"
    "if has_swap_copy v ss i then s = ffs2swapmap v i \<and> m1 = vmem v else page (frame_addr s) \<subseteq> region ss"
    "\<forall>x. x \<notin> {minswap v..maxswap v} \<union> {swaplist v, swaplist v + 4} \<longrightarrow> m1 x = vmem v x"
    "\<forall>x. x \<notin> region ss \<union> {swaplist v, swaplist v + 4} \<longrightarrow> m1 x = vmem v x" "frame_addr s = frame_addr (take_bit 20 s)"
    by (rule choose_swapframe_ok [OF ok i ss c]) (rule that)
  let ?V = "ptmap v i" and ?e = "vmem v p" and ?E = "evict_frame v i" and ?k = "s - ceil_div (maxffs v) PAGE_SIZE"
  let ?sw = "pt_isswapped (vmem v p)"
  note ap = regions_apart [OF ok]
  have pE: "page (frame_addr ?E) \<subseteq> {minffs v..maxffs v}" unfolding evict_frame_def by (rule ffs_page_in [OF ok i])
  have ps: "page (frame_addr s) \<subseteq> {minswap v..maxswap v}" by (rule swap_page_in [OF ok s(2)])
  have Vp: "?V \<notin> page (frame_addr ?E)" "?V \<notin> page (frame_addr s)" "p \<notin> page (frame_addr ?E)" "p \<notin> page (frame_addr s)"
    using V p(1) pE ps ap(1,2) by blast+
  have Es: "frame_addr ?E \<noteq> frame_addr s"
    by (rule frames_apart [OF pE ps ap(3)])
  have m1: "m1 x = vmem v x" if "x \<in> {minpdpt v..maxpdpt v} \<or> x \<in> {minffs v..maxffs v}" for x
  proof -
    have "x \<notin> {minswap v..maxswap v} \<union> {swaplist v, swaplist v + 4}" using that ap(2,3,4) by blast
    then show ?thesis using s(4) by blast
  qed
  have m1V: "m1 ?V = vmem v ?V" "m1 p = ?e" using m1 V p(1) by blast+
  define e1 where "e1 = put_bit ALREADY_SWAPPED True (put_bit ISSWAPPED True (put_bit PRES False (put_base s (m1 ?V))))"
  define v2 where "v2 = v\<lparr>vmem := m1(?V := e1), ffs2swapmap := (ffs2swapmap v)(i := - 1), swap2ffsmap := (swap2ffsmap v)(?k := NULL)\<rparr>"
  define v3 where "v3 = (if pt_dirty (vmem v ?V) \<or> ?sw then copy_page ?E s False v2 else v2)"
  have m2: "vmem v2 = m1(?V := e1)" by (simp add: v2_def)
  note cp = copy_page_ok [OF Es, where v = v2, unfolded m2]
  have v3: "ptmap v3 = ptmap v" "ffs2swapmap v3 = (ffs2swapmap v)(i := - 1)" "swap2ffsmap v3 = (swap2ffsmap v)(?k := NULL)"
    by (simp_all add: v3_def v2_def copy_page_def)
  have m3: "vmem v3 x = (m1(?V := e1)) x" if "x \<notin> page (frame_addr s)" for x using cp(2) [OF that] by (auto simp: v3_def m2)
  have m3V: "vmem v3 ?V = e1" "vmem v3 p = ?e" using m3 Vp m1V p(2) by simp_all
  define v4 where "v4 = v3\<lparr>vmem := (vmem v3)(?V := evicted_entry s (m1 ?V))\<rparr>"
  have v4: "vmem v4 = (vmem v3)(?V := evicted_entry s (m1 ?V))" "ptmap v4 = ptmap v" "ffs2swapmap v4 = (ffs2swapmap v)(i := - 1)"
    "swap2ffsmap v4 ?k = NULL"
    by (simp_all add: v4_def v3)
  have v4f: "vm_frame v v4" by (simp add: vm_frame_def v4_def v3_def v2_def copy_page_def)
  have keepE: "same_page (vmem v4) (frame_addr s) (vmem v) (frame_addr ?E)"
  proof (cases "pt_dirty (vmem v ?V) \<or> ?sw")
    case True
    then have "v3 = copy_page ?E s False v2" by (simp add: v3_def)
    then have "same_page (vmem v3) (frame_addr s) (m1(?V := e1)) (frame_addr ?E)" using cp(1) by simp
    then show ?thesis
      by (rule same_page_cong [OF _ aligned_frame_addr aligned_frame_addr]) (use Vp m1 pE v4(1) in auto)
  next
    case False
    then have cc: "clean_copy v ss i" "v3 = v2" using d by (auto simp: v3_def m2)
    then have "same_page (vmem v) (frame_addr s) (vmem v) (frame_addr ?E)" "m1 = vmem v" using s(3) by (auto simp: clean_copy_def)
    then show ?thesis
      by (elim same_page_cong [OF _ aligned_frame_addr aligned_frame_addr]) (use Vp cc(2) m2 v4(1) in auto)
  qed
  have m4: "vmem v4 x = m1 x" if "x \<noteq> ?V" "x \<notin> page (frame_addr s)" for x using that m3 by (simp add: v4)
  have dirty: "put_bit DIRTY False e1 = evicted_entry s (m1 ?V)" by (simp add: evicted_entry_def e1_def)
  have v2_eq: "set_flag ALREADY_SWAPPED True ?V (set_flag ISSWAPPED True ?V (set_flag PRES False ?V (set_base s ?V
      (v\<lparr>vmem := m1, ffs2swapmap := (ffs2swapmap v)(i := - 1), swap2ffsmap := (swap2ffsmap v)(?k := NULL)\<rparr>)))) = v2"
    by (simp add: set_flag_def set_base_def v2_def e1_def)
  have v2p: "pt_dirty (vmem v2 ?V) = pt_dirty (vmem v ?V)" "vmem v2 p = ?e" using m1V p(2) by (simp_all add: m2) (simp add: e1_def m1V)
  have v4_eq: "set_flag DIRTY False ?V v3 = v4" using m3V dirty by (simp add: set_flag_def v4_def)
  have v4p: "vmem v4 p = ?e" "vmem v4 ?V = evicted_entry s (vmem v ?V)" using m3V p(2) m1V by (simp_all add: v4)
  have v4x: "vmem v4 x = vmem v x" if "x \<in> {minpdpt v..maxpdpt v}" "x \<noteq> ?V" for x
  proof -
    have "x \<notin> page (frame_addr s)" using that(1) ps ap(2) by blast
    then show ?thesis using m4 m1 that by simp
  qed
  have eq: "evict i p v = (if ?sw
     then kassert (pt_already_swapped ?e) (
       rbind (set_ffs2swap i (pt_base ?e) v4) (\<lambda>w.
       rbind (set_swap2ffs (pt_base (vmem w p) - ceil_div (maxffs v) PAGE_SIZE) p w) (\<lambda>w.
       Ret (?E, copy_page (pt_base (vmem w p)) ?E False w))))
     else Ret (?E, v4))"
  proof (cases "pt_dirty (vmem v ?V) \<or> ?sw")
    case True
    then have "set_flag DIRTY False ?V (copy_page (ceil_div (maxpdpt v) PAGE_SIZE + i) s False v2) = v4"
      using v4_eq by (simp add: v3_def evict_frame_def)
    then show ?thesis using True s(1,2) i v2_eq v2p v4p(1)
      by (auto simp: evict_def Let_def set_ffs2swap_def [of i "- 1"] set_swap2ffs_def [of _ NULL] get_ptmap_def evict_frame_def)
  next
    case False
    then have "set_flag DIRTY False ?V v2 = v4" using v4_eq by (simp add: v3_def)
    then show ?thesis using False s(1,2) i v2_eq v2p v4p(1)
      by (simp add: evict_def Let_def set_ffs2swap_def [of i "- 1"] set_swap2ffs_def [of _ NULL] get_ptmap_def evict_frame_def)
  qed
  show thesis
  proof (cases ?sw)
    case False
    have run: "evict i p v = Ret (?E, v4)" using eq False by simp
    have k: "same_page (vmem v4) (frame_addr (take_bit 20 s)) (vmem v) (frame_addr ?E)" using keepE unfolding s(6) [symmetric] .
    show thesis
    proof (rule that [OF run v4p(2,1) v4x k _ v4(2) _ s(2) v4(4) v4f])
      show "ffs2swapmap v4 = (ffs2swapmap v)(i := if ?sw then pt_base ?e else - 1)" using False by (simp add: v4(3))
    qed (use False in simp_all)
  next
    case True
    note sw = e [unfolded swapped_in_ok_def swap_index_def] True
    let ?f = "frame_addr (pt_base ?e)"
    have f: "page ?f \<subseteq> {minswap v..maxswap v}" by (rule swap_page_in [OF ok]) (use sw in simp)
    have Ef: "?f \<noteq> frame_addr ?E" using frames_apart [OF pE f ap(3)] by (rule not_sym)
    have fs: "?f \<noteq> frame_addr s"
    proof (cases "has_swap_copy v ss i")
      case True
      then show ?thesis using sw s(3) by simp
    next
      case False
      then have "page (frame_addr s) \<subseteq> region ss" using s(3) by simp
      then show ?thesis using sw self_in_page [OF aligned_frame_addr, of s] by auto
    qed
    define v5 where "v5 = v4\<lparr>ffs2swapmap := (ffs2swapmap v4)(i := pt_base ?e), swap2ffsmap := (swap2ffsmap v4)(pt_base ?e - ceil_div (maxffs v) PAGE_SIZE := p)\<rparr>"
    have v5: "vmem v5 = vmem v4" "ptmap v5 = ptmap v" "ffs2swapmap v5 = (ffs2swapmap v)(i := pt_base ?e)" by (simp_all add: v5_def v4)
    note cp5 = copy_page_ok [OF Ef, where v = v5, unfolded v5(1)]
    let ?v6 = "copy_page (pt_base ?e) ?E False v5"
    have run: "evict i p v = Ret (?E, ?v6)"
      using eq True sw i v4p(1) by (simp add: set_ffs2swap_def set_swap2ffs_def v5_def)
    have v6: "vmem ?v6 x = vmem v4 x" if "x \<notin> page (frame_addr ?E)" for x using cp5(2) [OF that] .
    have v6m: "ptmap ?v6 = ptmap v" "ffs2swapmap ?v6 = (ffs2swapmap v)(i := pt_base ?e)" by (simp_all add: copy_page_def v5)
    have pd: "x \<notin> page (frame_addr ?E)" if "x \<in> {minpdpt v..maxpdpt v}" for x using that pE ap(1) by blast
    have sE: "x \<notin> page (frame_addr ?E)" if "x \<in> page (frame_addr s)" for x using that pE ps ap(3) by blast
    have fv: "vmem v4 x = vmem v x" if "x \<in> page ?f" for x
    proof -
      have "x \<noteq> ?V" "x \<notin> page (frame_addr s)" "x \<notin> region ss \<union> {swaplist v, swaplist v + 4}"
        using that f V ap(2,4) pages_disjoint [OF aligned_frame_addr aligned_frame_addr fs] sw by blast+
      then show ?thesis using m4 s(5) by auto
    qed
    have "pt_base ?e \<noteq> s" using fs by auto
    then have v6s: "swap2ffsmap ?v6 ?k = NULL" by (simp add: copy_page_def v5_def v4(4))
    have v6f: "vm_frame v ?v6" using v4f by (cases v, cases v4) (simp add: vm_frame_def v5_def copy_page_def)
    show thesis
    proof (rule that [OF run _ _ _ _ _ v6m(1) _ s(2) v6s v6f])
      show "vmem ?v6 ?V = evicted_entry s (vmem v ?V)" "vmem ?v6 p = ?e" using v6 Vp v4p by simp_all
      show "vmem ?v6 x = vmem v x" if "x \<in> {minpdpt v..maxpdpt v}" "x \<noteq> ?V" for x using v6 pd v4x that by simp
      show "same_page (vmem ?v6) (frame_addr (take_bit 20 s)) (vmem v) (frame_addr ?E)"
        unfolding s(6) [symmetric] using keepE by (elim same_page_cong [OF _ aligned_frame_addr aligned_frame_addr]) (use v6 sE in auto)
      show "same_page (vmem ?v6) (frame_addr ?E) (vmem v) ?f"
        using cp5(1) by (elim same_page_cong [OF _ aligned_frame_addr aligned_frame_addr]) (use fv in auto)
      show "ffs2swapmap ?v6 = (ffs2swapmap v)(i := if ?sw then pt_base ?e else - 1)" using v6m(2) True by simp
    qed
  qed
qed

lemma swap_frame_small:
  assumes "vm_ok v" and "s - ceil_div (maxffs v) PAGE_SIZE < MAX_SWAP_SIZE"
  shows "take_bit 20 s = s"
proof -
  obtain b where b: "layout v b" using assms by (auto simp: vm_ok_def)
  let ?i = "s - ceil_div (maxffs v) PAGE_SIZE"
  have i: "unat ?i < 2048" using assms(2) by (simp add: word_less_nat_alt MAX_SWAP_SIZE_def)
  have "s = ceil_div (maxffs v) PAGE_SIZE + ?i" by simp
  moreover have "unat (ceil_div (maxffs v) PAGE_SIZE + ?i) = b + 2304 + unat ?i"
    using first_swap_frame [OF b] layout_top [OF b] i by (subst unat_plus_no_wrap) simp_all
  ultimately have "unat s < 2 ^ 20" using i layout_top [OF b] by simp
  then show ?thesis by (simp add: word_unat_eq_iff unsigned_take_bit_eq take_bit_nat_eq_self)
qed

lemma fault_in_full:
  assumes "ffs_free v []" and "rand seed = (r, seed')" and "evict (word_of_int r mod MAX_FSS_SIZE) p v = Ret (f, v1)"
    and "\<not> pt_pres (vmem v1 (ptmap v1 (word_of_int r mod MAX_FSS_SIZE)))"
  shows "fault_in seed p v = Ret (seed', v1\<lparr>ptmap := (ptmap v1)(word_of_int r mod MAX_FSS_SIZE := p), vmem := (vmem v1)(p := mapped_entry f (vmem v1 p))\<rparr>)"
proof -
  have "getfreemem (ffslist v) PAGE_SIZE (vmem v) = Ret (USYSERR, vmem v)"
    by (rule page_alloc(1) [of _ "minffs v" "maxffs v" _ "[]"]) (use assms(1) in \<open>simp_all add: ffs_free_def\<close>)
  then have g: "getffsframe v = Ret (drop_bit 12 USYSERR, v)" by (simp add: getffsframe_def PAGE_OFFSET_BITS_def)
  have i: "word_of_int r mod MAX_FSS_SIZE < MAX_FSS_SIZE" by (simp add: word_less_nat_alt unat_mod MAX_FSS_SIZE_def)
  show ?thesis
    using g assms(2-4) map_page_eq [OF i, of v1 f p] by (simp add: fault_in_def Let_def PAGE_OFFSET_BITS_def)
qed

section \<open>The handler on the kernel\<close>

text \<open>
  A fault on a page that is not present, of the current process and above the regions, with the directory and the table of the
  address in the region of page tables.
\<close>

definition legal_fault :: "u32 \<Rightarrow> addr \<Rightarrow> kernel \<Rightarrow> bool" where
  "legal_fault error_code a k \<longleftrightarrow> (let v = kvm k; m = vmem v; pd = cr3 k in
    \<not> bit error_code 0 \<and> pid_ok (currpid k) \<and> pd = pdbr (proctab k (currpid k)) \<and> vm_ok v \<and> maxvstack v < a \<and>
    pd_pres (m (pde_addr pd a)) \<and> {pde_addr pd a, pte_addr m pd a} \<subseteq> {minpdpt v..maxpdpt v} \<and> pde_addr pd a \<noteq> pte_addr m pd a \<and>
    \<not> pt_pres (m (pte_addr m pd a)) \<and> (pt_isvmalloc (m (pte_addr m pd a)) \<longleftrightarrow> \<not> pt_isswapped (m (pte_addr m pd a))))"

lemma handler_eq:
  assumes "legal_fault ec a k" and "fault_in seed (pte_addr (vmem (kvm k)) (cr3 k) a) (kvm k) = Ret (seed', v')"
  shows "pagefault_handler seed ec a k = Ret (seed', k\<lparr>kvm := v'\<rparr>)"
proof -
  have k: "k\<lparr>cr3 := c, kvm := v', cr3 := cr3 k\<rparr> = k\<lparr>kvm := v'\<rparr>" for c by (cases k) simp
  show ?thesis
    using assms k [of "pdbr (proctab k 0)"]
    by (auto simp: legal_fault_def pagefault_handler_def Let_def kernel_mode_enter_def kernel_mode_exit_def getpid_def pde_addr_def pte_addr_def)
qed

lemma translate_mapped:
  assumes "pd_pres (m (pde_addr pd a))" and "m' (pde_addr pd a) = m (pde_addr pd a)" and "m' (pte_addr m pd a) = mapped_entry f e"
  shows "translate m' pd a = Some (frame_addr f OR pg_offset a)"
proof -
  have "pte_addr m' pd a = pte_addr m pd a" using assms(2) by (simp add: pte_addr_def)
  then show ?thesis using assms by (simp add: translate_eq)
qed

section \<open>Properties\<close>

text \<open>For the examples: a directory at the bottom of the page table region with one table, and one free FFS frame.\<close>

definition vm4 :: "u32 \<Rightarrow> vm" where
  "vm4 e = boot_vm\<lparr>minpdpt := 0x2000000, maxpdpt := 0x20FFFFF, minffs := 0x2100000, maxffs := 0x28FFFFF, minswap := 0x2900000,
    maxswap := 0x30FFFFF, minvstack := 0x3100000, maxvstack := 0x38FFFFF, ptmap := (\<lambda>_. NULL), ffs2swapmap := (\<lambda>_. - 1),
    swap2ffsmap := (\<lambda>_. NULL),
    vmem := (\<lambda>_. 0)(0x2000040 := 0x2001013, 0x2001000 := e, ffslist boot_vm := 0x2100000, 0x2100000 := 0, 0x2100004 := 4096, 0x2900008 := 42)\<rparr>"

definition kernel4 :: "u32 \<Rightarrow> kernel" where
  "kernel4 e = kernel1\<lparr>kvm := vm4 e, cr3 := 0x2000010, proctab := (proctab kernel1)(1 := (proctab kernel1 1)\<lparr>pdbr := 0x2000010\<rparr>)\<rparr>"

lemma vm4_ok: "vm_ok (vm4 e)"
proof -
  have "layout (vm4 e) 8192" by (simp add: layout_def vm4_def)
  moreover have "heads_ok (vm4 e) (minpdpt (vm4 e))" by (auto simp: heads_ok_def vm4_def boot_vm_def)
  ultimately show ?thesis by (auto simp: vm_ok_def)
qed

lemma vm4_ffs: "ffs_free (vm4 e) [(0x2100000, 4096)]"
  by (auto simp: ffs_free_def page_pool_def pool_inv_def freelist_def mnext_def mlength_def NULL_def block_ok_def bytes_def
      vm4_def boot_vm_def word_le_nat_alt aligned_def)

lemma vm4_addrs: "pde_addr 0x2000010 0x4000000 = 0x2000040" "pte_addr (vmem (vm4 e)) 0x2000010 0x4000000 = 0x2001000"
  "vmem (vm4 e) 0x2000040 = 0x2001013" "vmem (vm4 e) 0x2001000 = e"
  by (simp_all add: pde_addr_def pte_addr_def entry_addr_def frame_addr_def pdbr_base_def pd_base_def pd_offset_def pt_offset_def PAGE_OFFSET_BITS_def
      drop_bit_eq_div push_bit_eq_mult vm4_def boot_vm_def take_bit_eq_mask [symmetric] take_bit_eq_mod)

text \<open>
  C27: a page fault is resolved when a frame is free. For a legal fault on a page that was reserved by \<open>vmalloc\<close> or is in
  swap, the handler returns, takes one frame \<open>a\<close> from the free ones of the FFS region, and afterwards the processor translates the
  address into that frame, so the access succeeds when it is repeated; a page that was in swap finds there the contents of
  its swap frame. Nothing of the kernel outside virtual memory changes, and no other word of the page tables.
\<close>

theorem fault_takes_free_frame:
  assumes "legal_fault ec x k" and "ffs_free (kvm k) bs" and "bs \<noteq> []" and "e = vmem (kvm k) (pte_addr (vmem (kvm k)) (cr3 k) x)"
    and "pt_isswapped e \<Longrightarrow> swap_index (kvm k) e < MAX_SWAP_SIZE \<and> swap2ffsmap (kvm k) (swap_index (kvm k) e) = NULL"
  shows "\<exists>v a bs'. pagefault_handler seed ec x k = Ret (seed, k\<lparr>kvm := v\<rparr>) \<and> aligned a \<and> page a \<subseteq> region bs \<and>
    translate (vmem v) (cr3 k) x = Some (a OR pg_offset x) \<and> ffs_free v bs' \<and> region bs' = region bs - page a \<and>
    (pt_isswapped e \<longrightarrow> same_page (vmem v) a (vmem (kvm k)) (frame_addr (pt_base e))) \<and>
    (\<forall>y \<in> {minpdpt (kvm k)..maxpdpt (kvm k)}. y \<noteq> pte_addr (vmem (kvm k)) (cr3 k) x \<longrightarrow> vmem v y = vmem (kvm k) y)"
proof -
  let ?v = "kvm k" and ?p = "pte_addr (vmem (kvm k)) (cr3 k) x" and ?d = "pde_addr (cr3 k) x"
  have L: "vm_ok ?v" "?p \<in> {minpdpt ?v..maxpdpt ?v}" "?d \<in> {minpdpt ?v..maxpdpt ?v}" "?d \<noteq> ?p" "pd_pres (vmem ?v ?d)"
    "\<not> pt_pres e" "pt_isvmalloc e \<longleftrightarrow> \<not> pt_isswapped e"
    using assms(1,4) by (auto simp: legal_fault_def Let_def)
  have w: "waiting_entry ?v (vmem ?v ?p)" using L assms(4,5) by (simp add: waiting_entry_def)
  obtain a v bs' where f: "fault_in seed ?p ?v = Ret (seed, v)" "aligned a" "page a \<subseteq> region bs" "region bs' = region bs - page a"
    "page_pool (ffslist ?v) (minffs ?v) (maxffs ?v) (vmem v) bs'" "vmem v ?p = mapped_entry (drop_bit 12 a) (vmem ?v ?p)"
    "\<And>x. x \<noteq> ?p \<Longrightarrow> x \<notin> region bs \<union> {ffslist ?v, ffslist ?v + 4} \<Longrightarrow> vmem v x = vmem ?v x" "vm_frame ?v v"
    "pt_isswapped (vmem ?v ?p) \<Longrightarrow> same_page (vmem v) a (vmem ?v) (frame_addr (pt_base (vmem ?v ?p)))"
    "ptmap v = (ptmap ?v)(ffs_index ?v a := ?p)"
    "ffs2swapmap v = (if pt_isswapped (vmem ?v ?p) then (ffs2swapmap ?v)(ffs_index ?v a := pt_base (vmem ?v ?p)) else ffs2swapmap ?v)"
    by (rule fault_in_free [OF L(1) assms(2,3) L(2) w]) (rule that)
  note vf = vm_frame_fields [OF f(8)]
  have fr: "vmem v y = vmem ?v y" if "y \<in> {minpdpt ?v..maxpdpt ?v}" "y \<noteq> ?p" for y
  proof (rule f(7) [OF that(2)])
    have "region bs \<subseteq> {minffs ?v..maxffs ?v}" using assms(2) by (simp add: ffs_free_def page_pool_def pool_inv_def)
    then show "y \<notin> region bs \<union> {ffslist ?v, ffslist ?v + 4}" using that(1) regions_apart(1,4) [OF L(1)] by blast
  qed
  have "ffs_free v bs'"
  proof -
    have "ffs_index ?v c \<noteq> ffs_index ?v a" if "aligned c" "page c \<subseteq> region bs'" for c
    proof -
      have "c \<noteq> a" using that f(4) self_in_page [OF f(2)] by blast
      then show ?thesis using frame_addr_drop [OF f(2)] frame_addr_drop [OF that(1)] by (auto simp: ffs_index_def)
    qed
    then show ?thesis using f(4,5,10,11) assms(2) vf by (auto simp: ffs_free_def)
  qed
  moreover have "translate (vmem v) (cr3 k) x = Some (a OR pg_offset x)"
    using translate_mapped [OF L(5) fr [OF L(3,4)] f(6)] frame_addr_drop [OF f(2)] by simp
  moreover have "pagefault_handler seed ec x k = Ret (seed, k\<lparr>kvm := v\<rparr>)" by (rule handler_eq [OF assms(1) f(1)])
  ultimately show ?thesis using f(2-4,9) fr assms(4) by blast
qed

theorem fault_takes_free_frame_witness:
  "\<exists>v a bs'. pagefault_handler 7 2 0x4000000 (kernel4 0x2900C12) = Ret (7, (kernel4 0x2900C12)\<lparr>kvm := v\<rparr>) \<and> aligned a \<and> page a \<subseteq> region [(0x2100000, 4096)] \<and>
    translate (vmem v) 0x2000010 0x4000000 = Some (a OR pg_offset 0x4000000) \<and> ffs_free v bs' \<and> region bs' = region [(0x2100000, 4096)] - page a \<and>
    same_page (vmem v) a (vmem (vm4 0x2900C12)) 0x2900000"
proof -
  let ?k = "kernel4 0x2900C12"
  have k: "kvm ?k = vm4 0x2900C12" "cr3 ?k = 0x2000010" "currpid ?k = 1" "pdbr (proctab ?k 1) = 0x2000010" by (simp_all add: kernel4_def kernel1_def)
  have e: "\<not> pt_pres 0x2900C12" "pt_isswapped 0x2900C12" "\<not> pt_isvmalloc 0x2900C12" "pt_base 0x2900C12 = 0x2900"
    by (simp_all add: field_defs bit_numeral_rec drop_bit_eq_div)
  have s: "swap_index (vm4 0x2900C12) 0x2900C12 = 0" "swap2ffsmap (vm4 0x2900C12) 0 = NULL"
    by (simp_all add: swap_index_def e ceil_div_def vm4_def PAGE_SIZE_def)
  have L: "legal_fault 2 0x4000000 ?k"
    using e vm4_ok [of "0x2900C12"]
    by (simp add: legal_fault_def Let_def k vm4_addrs pid_ok_def layout_defs pd_pres_def bit_numeral_rec) (simp add: vm4_def)
  have f: "ffs_free (kvm ?k) [(0x2100000, 4096)]" using vm4_ffs by (simp add: k)
  have "frame_addr 0x2900 = 0x2900000" by (simp add: frame_addr_def PAGE_OFFSET_BITS_def push_bit_eq_mult)
  then show ?thesis
    using fault_takes_free_frame [OF L f, of "0x2900C12" 7] s e by (simp add: k vm4_addrs MAX_SWAP_SIZE_def) blast
qed

text \<open>
  C28: a page fault is resolved by swapping when no frame is free. The handler takes the frame that \<open>rand\<close> picks; when the page
  in it is dirty, or has an up-to-date copy in swap, and swap has room for it, the address that faulted is translated into that
  frame afterwards, with the contents of its swap frame if it came from swap; and the page that lost the frame is left as a page
  in swap that a later fault can bring back, its swap frame holding exactly what the frame held.
\<close>

theorem fault_swaps_pages:
  assumes "legal_fault ec x k" and "ffs_free (kvm k) []" and "rand seed = (r, seed')" and "i = word_of_int r mod MAX_FSS_SIZE"
    and "p = pte_addr (vmem (kvm k)) (cr3 k) x" and "ptmap (kvm k) i \<in> {minpdpt (kvm k)..maxpdpt (kvm k)} - {p, pde_addr (cr3 k) x}"
    and "swap_free (kvm k) ss" and "has_swap_copy (kvm k) ss i \<or> needs_swap_copy (kvm k) ss i" and "swapped_in_ok (kvm k) ss i (vmem (kvm k) p)"
    and "pt_dirty (vmem (kvm k) (ptmap (kvm k) i)) \<or> clean_copy (kvm k) ss i" and "\<not> pt_isvmalloc (vmem (kvm k) (ptmap (kvm k) i))"
  shows "\<exists>v. pagefault_handler seed ec x k = Ret (seed', k\<lparr>kvm := v\<rparr>) \<and>
    translate (vmem v) (cr3 k) x = Some (frame_addr (evict_frame (kvm k) i) OR pg_offset x) \<and>
    (let e = vmem v (ptmap (kvm k) i) in waiting_entry v e \<and> pt_isswapped e \<and>
      same_page (vmem v) (frame_addr (pt_base e)) (vmem (kvm k)) (frame_addr (evict_frame (kvm k) i))) \<and>
    (pt_isswapped (vmem (kvm k) p) \<longrightarrow>
      same_page (vmem v) (frame_addr (evict_frame (kvm k) i)) (vmem (kvm k)) (frame_addr (pt_base (vmem (kvm k) p))))"
proof -
  let ?v = "kvm k" and ?V = "ptmap (kvm k) i" and ?d = "pde_addr (cr3 k) x" and ?E = "evict_frame (kvm k) i"
  have L: "vm_ok ?v" "p \<in> {minpdpt ?v..maxpdpt ?v}" "?d \<in> {minpdpt ?v..maxpdpt ?v}" "?d \<noteq> p" "pd_pres (vmem ?v ?d)"
    using assms(1,5) by (auto simp: legal_fault_def Let_def)
  have V: "?V \<in> {minpdpt ?v..maxpdpt ?v}" "p \<noteq> ?V" "?d \<noteq> ?V" using assms(6) by auto
  have i: "i < MAX_FSS_SIZE" unfolding assms(4) by (simp add: word_less_nat_alt unat_mod MAX_FSS_SIZE_def)
  obtain s v1 where e: "evict i p ?v = Ret (?E, v1)" "vmem v1 ?V = evicted_entry s (vmem ?v ?V)" "vmem v1 p = vmem ?v p"
    "\<And>x. x \<in> {minpdpt ?v..maxpdpt ?v} \<Longrightarrow> x \<noteq> ?V \<Longrightarrow> vmem v1 x = vmem ?v x"
    "same_page (vmem v1) (frame_addr (take_bit 20 s)) (vmem ?v) (frame_addr ?E)"
    "pt_isswapped (vmem ?v p) \<Longrightarrow> same_page (vmem v1) (frame_addr ?E) (vmem ?v) (frame_addr (pt_base (vmem ?v p)))"
    "ptmap v1 = ptmap ?v" "ffs2swapmap v1 = (ffs2swapmap ?v)(i := if pt_isswapped (vmem ?v p) then pt_base (vmem ?v p) else - 1)"
    "s - ceil_div (maxffs ?v) PAGE_SIZE < MAX_SWAP_SIZE" "swap2ffsmap v1 (s - ceil_div (maxffs ?v) PAGE_SIZE) = NULL" "vm_frame ?v v1"
    by (rule evict_ok [OF L(1) i assms(7,8) V(1) L(2) V(2) assms(9,10)]) (rule that)
  define v where "v = v1\<lparr>ptmap := (ptmap v1)(i := p), vmem := (vmem v1)(p := mapped_entry ?E (vmem v1 p))\<rparr>"
  have vm: "vmem v = (vmem v1)(p := mapped_entry ?E (vmem v1 p))" by (simp add: v_def)
  have "fault_in seed p ?v = Ret (seed', v)"
    using fault_in_full [OF assms(2,3), of p] e(1,2,7) by (simp add: v_def assms(4) [symmetric])
  then have run: "pagefault_handler seed ec x k = Ret (seed', k\<lparr>kvm := v\<rparr>)" using handler_eq [OF assms(1)] assms(5) by simp
  have s: "take_bit 20 s = s" by (rule swap_frame_small [OF L(1) e(9)])
  have fr: "vm_frame ?v v" using e(11) by (cases "kvm k", cases v1) (simp add: vm_frame_def v_def)
  have vV: "vmem v ?V = evicted_entry s (vmem ?v ?V)" using e(2) V(2) by (simp add: vm)
  have "waiting_entry v (evicted_entry s (vmem ?v ?V))"
    using e(9,10) assms(11) vm_frame_fields(4) [OF fr] by (simp add: waiting_entry_def swap_index_def s) (simp add: v_def)
  moreover have out: "p \<notin> page (frame_addr f)" if "page (frame_addr f) \<subseteq> {minswap ?v..maxswap ?v} \<or> page (frame_addr f) \<subseteq> {minffs ?v..maxffs ?v}" for f
    using that L(2) regions_apart(1,2) [OF L(1)] by blast
  have ps: "p \<notin> page (frame_addr s)" "p \<notin> page (frame_addr ?E)"
    using out [of s] out [of ?E] swap_page_in [OF L(1) e(9)] ffs_page_in [OF L(1) i] by (auto simp: evict_frame_def)
  have "same_page (vmem v) (frame_addr s) (vmem ?v) (frame_addr ?E)"
    using e(5) unfolding s by (elim same_page_cong [OF _ aligned_frame_addr aligned_frame_addr]) (use ps in \<open>auto simp: vm\<close>)
  moreover have "same_page (vmem v) (frame_addr ?E) (vmem ?v) (frame_addr (pt_base (vmem ?v p)))" if "pt_isswapped (vmem ?v p)"
    using e(6) [OF that] by (elim same_page_cong [OF _ aligned_frame_addr aligned_frame_addr]) (use ps in \<open>auto simp: vm\<close>)
  moreover have "translate (vmem v) (cr3 k) x = Some (frame_addr ?E OR pg_offset x)"
    using translate_mapped [where m = "vmem ?v" and m' = "vmem v" and pd = "cr3 k" and a = x] L(3,4,5) e(4) [OF L(3) V(3)] assms(5) by (simp add: vm)
  ultimately show ?thesis using run vV s by (intro exI [of _ v]) (simp add: Let_def)
qed

text \<open>For the example: the FFS region is full, the frame that \<open>rand\<close> picks holds a dirty page, and swap has one free frame.\<close>

definition vm5 :: vm where
  "vm5 = (vm4 0x212)\<lparr>ptmap := (\<lambda>_. 0x2001004),
    vmem := (\<lambda>_. 0)(0x2000040 := 0x2001013, 0x2001000 := 0x212, 0x2001004 := 0x2491053, swaplist boot_vm := 0x2900000, 0x2900000 := 0, 0x2900004 := 4096,
      0x2491008 := 42)\<rparr>"

definition kernel5 :: kernel where
  "kernel5 = (kernel4 0)\<lparr>kvm := vm5\<rparr>"

lemma vm5_addrs: "pde_addr 0x2000010 0x4000000 = 0x2000040" "pte_addr (vmem vm5) 0x2000010 0x4000000 = 0x2001000"
  "vmem vm5 0x2000040 = 0x2001013" "vmem vm5 0x2001000 = 0x212" "vmem vm5 0x2001004 = 0x2491053" "ptmap vm5 i = 0x2001004"
  by (simp_all add: pde_addr_def pte_addr_def entry_addr_def frame_addr_def pdbr_base_def pd_base_def pd_offset_def pt_offset_def PAGE_OFFSET_BITS_def
      drop_bit_eq_div push_bit_eq_mult vm5_def boot_vm_def take_bit_eq_mask [symmetric] take_bit_eq_mod)

lemma vm5_pools: "ffs_free vm5 []" "swap_free vm5 [(0x2900000, 4096)]" "vm_ok vm5"
proof -
  show "ffs_free vm5 []"
    by (auto simp: ffs_free_def page_pool_def pool_inv_def freelist_def mnext_def NULL_def vm5_def vm4_def boot_vm_def word_le_nat_alt bytes_def aligned_def
        dest: self_in_page)
  show "swap_free vm5 [(0x2900000, 4096)]"
    by (auto simp: swap_free_def page_pool_def pool_inv_def freelist_def mnext_def mlength_def NULL_def block_ok_def bytes_def
      vm5_def vm4_def boot_vm_def word_le_nat_alt aligned_def)
  have "vm_frame (vm4 0x212) vm5" by (simp add: vm_frame_def vm5_def)
  then show "vm_ok vm5" using vm_frame_fields(10) vm4_ok by simp
qed

theorem fault_swaps_pages_witness:
  "\<exists>v. pagefault_handler 7 2 0x4000000 kernel5 = Ret (117649, kernel5\<lparr>kvm := v\<rparr>) \<and>
    translate (vmem v) 0x2000010 0x4000000 = Some (0x2491000 OR pg_offset 0x4000000) \<and>
    waiting_entry v (vmem v 0x2001004) \<and> pt_isswapped (vmem v 0x2001004) \<and>
    same_page (vmem v) (frame_addr (pt_base (vmem v 0x2001004))) (vmem vm5) 0x2491000"
proof -
  have k: "kvm kernel5 = vm5" "cr3 kernel5 = 0x2000010" "currpid kernel5 = 1" "pdbr (proctab kernel5 1) = 0x2000010"
    by (simp_all add: kernel5_def kernel4_def kernel1_def)
  have lim: "minpdpt vm5 = 0x2000000" "maxpdpt vm5 = 0x20FFFFF" "maxvstack vm5 = 0x38FFFFF" "ffs2swapmap vm5 j = - 1" for j by (simp_all add: vm5_def vm4_def)
  have e: "\<not> pt_pres 0x212" "\<not> pt_isswapped 0x212" "pt_isvmalloc 0x212" "pt_dirty 0x2491053" "\<not> pt_isvmalloc 0x2491053" "\<not> pt_already_swapped 0x2491053"
    by (simp_all add: field_defs bit_numeral_rec)
  have L: "legal_fault 2 0x4000000 kernel5"
    using e vm5_pools(3) by (simp add: legal_fault_def Let_def k vm5_addrs pid_ok_def layout_defs pd_pres_def bit_numeral_rec lim)
  have r: "rand 7 = (117649, 117649)" by (simp add: rand_def rand_r_def RAND_MAX_def)
  have i: "word_of_int 117649 mod MAX_FSS_SIZE = 913" by (simp add: MAX_FSS_SIZE_def)
  have E: "frame_addr (evict_frame vm5 913) = 0x2491000"
    by (simp add: evict_frame_def ceil_div_def lim PAGE_SIZE_def frame_addr_def PAGE_OFFSET_BITS_def push_bit_eq_mult)
  have n: "needs_swap_copy vm5 [(0x2900000, 4096)] 913" using e by (simp add: needs_swap_copy_def vm5_addrs lim)
  have w: "swapped_in_ok vm5 [(0x2900000, 4096)] 913 (vmem vm5 0x2001000)" using e by (simp add: swapped_in_ok_def vm5_addrs)
  have "\<exists>v. pagefault_handler 7 2 0x4000000 kernel5 = Ret (117649, kernel5\<lparr>kvm := v\<rparr>) \<and>
    translate (vmem v) (cr3 kernel5) 0x4000000 = Some (frame_addr (evict_frame (kvm kernel5) 913) OR pg_offset 0x4000000) \<and>
    (let e = vmem v (ptmap (kvm kernel5) 913) in waiting_entry v e \<and> pt_isswapped e \<and>
      same_page (vmem v) (frame_addr (pt_base e)) (vmem (kvm kernel5)) (frame_addr (evict_frame (kvm kernel5) 913))) \<and>
    (pt_isswapped (vmem (kvm kernel5) 0x2001000) \<longrightarrow>
      same_page (vmem v) (frame_addr (evict_frame (kvm kernel5) 913)) (vmem (kvm kernel5)) (frame_addr (pt_base (vmem (kvm kernel5) 0x2001000))))"
    by (rule fault_swaps_pages [OF L _ r i [symmetric]]) (use vm5_pools n w e in \<open>simp_all add: k vm5_addrs lim\<close>)
  then show ?thesis by (auto simp: k vm5_addrs E Let_def)
qed

end
