(* ===== verification/BufPool.thy ===== *)
theory BufPool
  imports Process
begin

text \<open>
  Buffer pools: \<open>system/bufinit.c\<close>, \<open>system/mkbufpool.c\<close>, \<open>system/getbuf.c\<close>, \<open>system/freebuf.c\<close> and \<open>include/bufpool.h\<close>.

  The free buffers of a pool are linked through their first word in physical memory. A caller of \<open>getbuf\<close> that has to wait
  goes on with \<open>getbuf_rest\<close> when it runs again; until then there is no value.
\<close>

section \<open>State\<close>

definition NBPOOLS :: int where "NBPOOLS = 20"
definition BP_MAXB :: int where "BP_MAXB = 8192"
definition BP_MINB :: int where "BP_MINB = 8"
definition BP_MAXN :: int where "BP_MAXN = 2048"

lemmas bp_consts = NBPOOLS_def BP_MAXB_def BP_MINB_def BP_MAXN_def

record bpentry =
  bpnext :: addr
  bpsem :: int
  bpsize :: u32

record bufs =
  bkern :: kernel
  buftab :: "int \<Rightarrow> bpentry"
  nbpools :: int

abbreviation bmemory :: "bufs \<Rightarrow> mem" where
  "bmemory b \<equiv> vmem (kvm (bkern b))"

definition set_bmemory :: "mem \<Rightarrow> bufs \<Rightarrow> bufs" where
  "set_bmemory m b = b\<lparr>bkern := (bkern b)\<lparr>kvm := (kvm (bkern b))\<lparr>vmem := m\<rparr>\<rparr>\<rparr>"

definition upd_pool :: "int \<Rightarrow> (bpentry \<Rightarrow> bpentry) \<Rightarrow> bufs \<Rightarrow> bufs" where
  "upd_pool p f b = b\<lparr>buftab := (buftab b)(p := f (buftab b p))\<rparr>"

lemma whole_records:
  "e\<lparr>bpnext := r, bpsize := z, bpsem := s\<rparr> = \<lparr>bpnext = r, bpsem = s, bpsize = z\<rparr>"
  "b\<lparr>nbpools := n, buftab := t, bkern := k\<rparr> = \<lparr>bkern = k, buftab = t, nbpools = n\<rparr>"
  by (cases e, simp, cases b, simp)

section \<open>Operations\<close>

definition bufinit :: "bufs \<Rightarrow> int \<times> bufs" where
  "bufinit b = (OK, b\<lparr>nbpools := 0\<rparr>)"

text \<open>The loop that links the buffers; \<open>n\<close> more follow the one at \<open>buf\<close>.\<close>

fun link_bufs :: "nat \<Rightarrow> addr \<Rightarrow> u32 \<Rightarrow> mem \<Rightarrow> mem" where
  "link_bufs 0 buf bufsiz m = m(buf := NULL)"
| "link_bufs (Suc n) buf bufsiz m = link_bufs n (buf + bufsiz) bufsiz (m(buf := buf + bufsiz))"

definition mkbufpool :: "int \<Rightarrow> int \<Rightarrow> bufs \<Rightarrow> (int \<times> bufs) result" where
  "mkbufpool bufsiz numbufs b =
    (if bufsiz < BP_MINB \<or> bufsiz > BP_MAXB \<or> numbufs < 1 \<or> numbufs > BP_MAXN \<or> nbpools b \<ge> NBPOOLS then Ret (SYSERR, b)
     else
       let bufsiz = 4 * ((bufsiz + 3) div 4);
           nbytes = word_of_int (numbufs * (bufsiz + 4));
           v = kvm (bkern b) in
       rbind (getmem (memlist v) nbytes (vmem v)) (\<lambda>(buf, m).
       let b = set_bmemory m b in
       if buf = USYSERR then Ret (SYSERR, b)
       else
         let poolid = nbpools b;
             b = b\<lparr>nbpools := nbpools b + 1\<rparr>;
             b = upd_pool poolid (\<lambda>e. e\<lparr>bpnext := buf, bpsize := word_of_int bufsiz\<rparr>) b in
         case semcreate numbufs (bkern b) of (sem, k) \<Rightarrow>
         let b = upd_pool poolid (\<lambda>e. e\<lparr>bpsem := sem\<rparr>) (b\<lparr>bkern := k\<rparr>) in
         if sem = SYSERR then
           let v = kvm (bkern b) in
           rbind (freemem (memlist v) buf nbytes (minheap v) (maxheap v) (vmem v)) (\<lambda>(_, m).
           Ret (SYSERR, (set_bmemory m b)\<lparr>nbpools := nbpools b - 1\<rparr>))
         else
           Ret (poolid, set_bmemory (link_bufs (nat (numbufs - 1)) buf (word_of_int (bufsiz + 4)) (bmemory b)) b)))"

text \<open>What is left of \<open>getbuf\<close> after its call of \<open>wait\<close>.\<close>

definition getbuf_rest :: "int \<Rightarrow> bufs \<Rightarrow> addr \<times> bufs" where
  "getbuf_rest poolid b =
    (let bufptr = bpnext (buftab b poolid);
         b = upd_pool poolid (\<lambda>e. e\<lparr>bpnext := bmemory b bufptr\<rparr>) b;
         b = set_bmemory ((bmemory b)(bufptr := word_of_int poolid)) b in
     (bufptr + 4, b))"

definition getbuf :: "int \<Rightarrow> bufs \<Rightarrow> (addr option \<times> bufs) result" where
  "getbuf poolid b =
    (if poolid < 0 \<or> poolid \<ge> nbpools b then Ret (Some USYSERR, b)
     else
       let caller = currpid (bkern b) in
       rbind (wait (bpsem (buftab b poolid)) (bkern b)) (\<lambda>(_, k).
       let b = b\<lparr>bkern := k\<rparr> in
       if currpid k = caller then case getbuf_rest poolid b of (a, b) \<Rightarrow> Ret (Some a, b)
       else Ret (None, b)))"

definition freebuf :: "addr \<Rightarrow> bufs \<Rightarrow> (int \<times> bufs) result" where
  "freebuf bufaddr b =
    (let bufaddr = bufaddr - 4;
         poolid = sint (bmemory b bufaddr) in
     if poolid < 0 \<or> poolid \<ge> nbpools b then Ret (SYSERR, b)
     else
       let b = set_bmemory ((bmemory b)(bufaddr := bpnext (buftab b poolid))) b;
           b = upd_pool poolid (\<lambda>e. e\<lparr>bpnext := bufaddr\<rparr>) b in
       rbind (signal (bpsem (buftab b poolid)) (bkern b)) (\<lambda>(_, k).
       Ret (OK, b\<lparr>bkern := k\<rparr>)))"

section \<open>The contract of a pool\<close>

text \<open>Taking \<open>n\<close> buffers one after the other, and giving a list of them back.\<close>

fun take_n :: "('s \<Rightarrow> (addr option \<times> 's) result) \<Rightarrow> nat \<Rightarrow> 's \<Rightarrow> (addr option list \<times> 's) result" where
  "take_n get 0 s = Ret ([], s)"
| "take_n get (Suc n) s = rbind (get s) (\<lambda>(x, s). rbind (take_n get n s) (\<lambda>(xs, s). Ret (x # xs, s)))"

fun give_all :: "(addr \<Rightarrow> 's \<Rightarrow> (int \<times> 's) result) \<Rightarrow> addr list \<Rightarrow> 's \<Rightarrow> 's result" where
  "give_all put [] s = Ret s"
| "give_all put (x # xs) s = rbind (put x s) (\<lambda>(_, s). give_all put xs s)"

text \<open>
  \<open>rep s xs\<close>: the free buffers are \<open>xs\<close>, the next one to be handed out first; \<open>mine s x\<close>: buffer \<open>x\<close> has been handed
  out and the word in front of it is intact.
\<close>

locale buffer_stack =
  fixes get :: "'s \<Rightarrow> (addr option \<times> 's) result"
    and put :: "addr \<Rightarrow> 's \<Rightarrow> (int \<times> 's) result"
    and rep :: "'s \<Rightarrow> addr list \<Rightarrow> bool"
    and mine :: "'s \<Rightarrow> addr \<Rightarrow> bool"
    and cap :: nat
  assumes get_law: "rep s (x # xs) \<Longrightarrow> \<exists>s'. get s = Ret (Some x, s') \<and> rep s' xs \<and> mine s' x \<and> (\<forall>y. y \<noteq> x \<longrightarrow> mine s y \<longrightarrow> mine s' y)"
    and put_law: "rep s xs \<Longrightarrow> mine s x \<Longrightarrow> x \<notin> set xs \<Longrightarrow> length xs < cap \<Longrightarrow>
      \<exists>s'. put x s = Ret (OK, s') \<and> rep s' (x # xs) \<and> (\<forall>y. y \<noteq> x \<longrightarrow> mine s y \<longrightarrow> mine s' y)"
    and rep_distinct: "rep s xs \<Longrightarrow> distinct xs"
begin

lemma take_some:
  "rep s (xs @ ys) \<Longrightarrow> \<exists>s'. take_n get (length xs) s = Ret (map Some xs, s') \<and> rep s' ys \<and> (\<forall>x \<in> set xs. mine s' x) \<and>
    (\<forall>y. y \<notin> set xs \<longrightarrow> mine s y \<longrightarrow> mine s' y)"
proof (induction xs arbitrary: s)
  case (Cons x xs)
  obtain s1 where g: "get s = Ret (Some x, s1)" "rep s1 (xs @ ys)" "mine s1 x" "\<forall>y. y \<noteq> x \<longrightarrow> mine s y \<longrightarrow> mine s1 y"
    using get_law Cons.prems by fastforce
  obtain s2 where r: "take_n get (length xs) s1 = Ret (map Some xs, s2)" "rep s2 ys" "\<forall>z \<in> set xs. mine s2 z"
    "\<forall>y. y \<notin> set xs \<longrightarrow> mine s1 y \<longrightarrow> mine s2 y"
    using Cons.IH [OF g(2)] by blast
  have "x \<notin> set xs" using rep_distinct [OF Cons.prems] by simp
  then show ?case using g r by auto
qed simp

lemma give_some:
  assumes "rep s xs" and "distinct ys" and "set ys \<inter> set xs = {}" and "\<forall>y \<in> set ys. mine s y" and "length xs + length ys \<le> cap"
  shows "\<exists>s'. give_all put ys s = Ret s' \<and> rep s' (rev ys @ xs)"
  using assms
proof (induction ys arbitrary: s xs)
  case (Cons y ys)
  obtain s1 where p: "put y s = Ret (OK, s1)" "rep s1 (y # xs)" "\<forall>z. z \<noteq> y \<longrightarrow> mine s z \<longrightarrow> mine s1 z"
    using put_law [OF Cons.prems(1), of y] Cons.prems by auto
  have "\<forall>z \<in> set ys. mine s1 z" using p(3) Cons.prems by auto
  then obtain s2 where "give_all put ys s1 = Ret s2" "rep s2 (rev ys @ y # xs)"
    using Cons.IH [OF p(2)] Cons.prems by auto
  then show ?case using p(1) by simp
qed auto

lemma take_give:
  assumes "rep s (xs @ ys)" and "set zs = set xs" and "distinct zs" and "length xs + length ys \<le> cap"
  shows "\<exists>s1 s2. take_n get (length xs) s = Ret (map Some xs, s1) \<and> rep s1 ys \<and> give_all put zs s1 = Ret s2 \<and> rep s2 (rev zs @ ys)"
proof -
  obtain s1 where t: "take_n get (length xs) s = Ret (map Some xs, s1)" "rep s1 ys" "\<forall>x \<in> set xs. mine s1 x"
    using take_some [OF assms(1)] by blast
  have d: "distinct (xs @ ys)" by (rule rep_distinct [OF assms(1)])
  then have "length zs = length xs" using assms(2,3) by (metis distinct_append distinct_card)
  then show ?thesis using give_some [OF t(2) assms(3)] t assms d by auto
qed

end

section \<open>The pool in memory\<close>

fun bufchain :: "mem \<Rightarrow> addr \<Rightarrow> addr list \<Rightarrow> bool" where
  "bufchain m p [] \<longleftrightarrow> p = NULL"
| "bufchain m p (y # ys) \<longleftrightarrow> p = y - 4 \<and> p \<noteq> NULL \<and> bufchain m (m p) ys"

lemma bufchain_cong: "(\<And>y. y \<in> set ys \<Longrightarrow> m' (y - 4) = m (y - 4)) \<Longrightarrow> bufchain m' p ys = bufchain m p ys"
  by (induction ys arbitrary: p) auto

lemma bufchain_upd: "x \<notin> set ys \<Longrightarrow> bufchain (m(x - 4 := w)) p ys = bufchain m p ys"
  by (induction ys arbitrary: p) auto

definition pool_free :: "int \<Rightarrow> bufs \<Rightarrow> addr list \<Rightarrow> bool" where
  "pool_free p b ys \<longleftrightarrow> 0 \<le> p \<and> p < nbpools b \<and> nbpools b \<le> NBPOOLS \<and> distinct ys \<and> bufchain (bmemory b) (bpnext (buftab b p)) ys \<and>
    currpid (bkern b) \<noteq> NULLPROC \<and>
    (let s = bpsem (buftab b p); k = bkern b in
      \<not> isbadsem s \<and> sstate (semtab k s) \<noteq> S_FREE \<and> scount (semtab k s) = int (length ys) \<and> (\<exists>Q. kidle k Q))"

definition pool_mine :: "int \<Rightarrow> bufs \<Rightarrow> addr \<Rightarrow> bool" where
  "pool_mine p b y \<longleftrightarrow> y \<noteq> 4 \<and> bmemory b (y - 4) = word_of_int p"

lemma kidle_kvm: "kidle k Q \<Longrightarrow> kidle (k\<lparr>kvm := v\<rparr>) Q"
  by (rule kidle_intro, assumption, rule kinv_cong [of k Q]) (auto simp: kidle_def)

lemma sint_small: "0 \<le> p \<Longrightarrow> p < NBPOOLS \<Longrightarrow> sint (word_of_int p :: u32) = p"
  by (simp add: bp_consts signed_of_int signed_take_bit_int_eq_self)

lemma wait_free:
  assumes "kidle k Q" and "\<not> isbadsem s" and "sstate (semtab k s) \<noteq> S_FREE" and "currpid k \<noteq> NULLPROC" and "0 < scount (semtab k s)"
  shows "wait s k = Ret (OK, set_scount s (scount (semtab k s) - 1) k)" and "\<exists>Q'. kidle (set_scount s (scount (semtab k s) - 1) k) Q'"
proof -
  have c: "scount (semtab k s) < 2 ^ 31" using scount_range(2) [OF assms(1,2)] .
  show w: "wait s k = Ret (OK, set_scount s (scount (semtab k s) - 1) k)"
    using assms c by (simp add: wait_def)
  obtain k' Q' where "wait s k = Ret (OK, k')" "kidle k' Q'" by (rule wait_kidle [OF assms(1-4)])
  then show "\<exists>Q'. kidle (set_scount s (scount (semtab k s) - 1) k) Q'" using w by auto
qed

lemma signal_free:
  assumes "kidle k Q" and "\<not> isbadsem s" and "sstate (semtab k s) \<noteq> S_FREE" and "0 \<le> scount (semtab k s)" and "scount (semtab k s) < 2 ^ 31 - 1"
  shows "signal s k = Ret (OK, set_scount s (scount (semtab k s) + 1) k)" and "\<exists>Q'. kidle (set_scount s (scount (semtab k s) + 1) k) Q'"
proof -
  show w: "signal s k = Ret (OK, set_scount s (scount (semtab k s) + 1) k)"
    using assms by (simp add: signal_def signal_one_def Let_def)
  obtain k' Q' where "signal s k = Ret (OK, k')" "kidle k' Q'" by (rule signal_kidle [OF assms(1-3,5)])
  then show "\<exists>Q'. kidle (set_scount s (scount (semtab k s) + 1) k) Q'" using w by auto
qed

interpretation bufpool: buffer_stack "getbuf p" freebuf "pool_free p" "pool_mine p" "2 ^ 31 - 1" for p
proof
  fix b x xs
  assume r: "pool_free p b (x # xs)"
  let ?s = "bpsem (buftab b p)" and ?k = "bkern b"
  obtain Q where k: "kidle ?k Q" "\<not> isbadsem ?s" "sstate (semtab ?k ?s) \<noteq> S_FREE" "scount (semtab ?k ?s) = int (length (x # xs))" "currpid ?k \<noteq> NULLPROC"
    using r by (auto simp: pool_free_def Let_def)
  have c: "bpnext (buftab b p) = x - 4" "x - 4 \<noteq> NULL" "bufchain (bmemory b) (bmemory b (x - 4)) xs" "distinct (x # xs)" "0 \<le> p" "p < nbpools b" "nbpools b \<le> NBPOOLS"
    using r by (auto simp: pool_free_def)
  have pos: "0 < scount (semtab ?k ?s)" using k(4) by simp
  note w = wait_free [OF k(1-3,5) pos]
  let ?k1 = "set_scount ?s (scount (semtab ?k ?s) - 1) ?k"
  let ?b1 = "set_bmemory ((bmemory b)(x - 4 := word_of_int p)) (upd_pool p (\<lambda>e. e\<lparr>bpnext := bmemory b (x - 4)\<rparr>) (b\<lparr>bkern := ?k1\<rparr>))"
  have kv: "kvm ?k1 = kvm ?k" by (simp add: set_scount_def upd_sem_def)
  have run: "getbuf p b = Ret (Some x, ?b1)"
    using w(1) c kv by (simp add: getbuf_def getbuf_rest_def Let_def upd_pool_def)
  have ch: "bufchain ((bmemory b)(x - 4 := word_of_int p)) (bmemory b (x - 4)) xs"
    using c(3,4) by (simp add: bufchain_upd)
  obtain Q' where "kidle ?k1 Q'" using w(2) by blast
  then have "kidle (bkern ?b1) Q'" using kidle_kvm [of ?k1 Q'] by (simp add: set_bmemory_def upd_pool_def)
  then have "pool_free p ?b1 xs"
    using c k ch by (auto simp: pool_free_def Let_def set_bmemory_def upd_pool_def)
  moreover have "x \<noteq> 4" using c(2) by (auto simp: NULL_def)
  then have "pool_mine p ?b1 x" by (simp add: pool_mine_def set_bmemory_def upd_pool_def)
  moreover have "pool_mine p ?b1 y" if "pool_mine p b y" for y
    using that kv by (auto simp: pool_mine_def set_bmemory_def upd_pool_def)
  ultimately show "\<exists>b'. getbuf p b = Ret (Some x, b') \<and> pool_free p b' xs \<and> pool_mine p b' x \<and> (\<forall>y. y \<noteq> x \<longrightarrow> pool_mine p b y \<longrightarrow> pool_mine p b' y)"
    using run by blast
next
  fix b xs x
  assume r: "pool_free p b xs" and m: "pool_mine p b x" and nx: "x \<notin> set xs" and len: "length xs < 2 ^ 31 - 1"
  let ?s = "bpsem (buftab b p)" and ?m = "(bmemory b)(x - 4 := bpnext (buftab b p))"
  let ?b1 = "upd_pool p (\<lambda>e. e\<lparr>bpnext := x - 4\<rparr>) (set_bmemory ?m b)"
  let ?k = "bkern ?b1"
  obtain Q where k0: "kidle (bkern b) Q" "\<not> isbadsem ?s" "sstate (semtab (bkern b) ?s) \<noteq> S_FREE" "scount (semtab (bkern b) ?s) = int (length xs)"
    "currpid (bkern b) \<noteq> NULLPROC"
    using r by (auto simp: pool_free_def Let_def)
  have k: "kidle ?k Q" "sstate (semtab ?k ?s) \<noteq> S_FREE" "scount (semtab ?k ?s) = int (length xs)" "currpid ?k \<noteq> NULLPROC"
    using k0 kidle_kvm [OF k0(1)] by (simp_all add: upd_pool_def set_bmemory_def)
  have c: "bufchain (bmemory b) (bpnext (buftab b p)) xs" "distinct xs" "0 \<le> p" "p < nbpools b" "nbpools b \<le> NBPOOLS" using r by (auto simp: pool_free_def)
  have sp: "sint (bmemory b (x - 4)) = p" using m c sint_small by (simp add: pool_mine_def)
  have z: "0 \<le> scount (semtab ?k ?s)" "scount (semtab ?k ?s) < 2 ^ 31 - 1" unfolding k(3) using len by simp_all
  note sg = signal_free [OF k(1) k0(2) k(2) z]
  let ?b2 = "?b1\<lparr>bkern := set_scount ?s (scount (semtab ?k ?s) + 1) ?k\<rparr>"
  have bs: "bpsem (buftab ?b1 p) = ?s" by (simp add: upd_pool_def set_bmemory_def)
  have run: "freebuf x b = Ret (OK, ?b2)"
    using sg(1) sp c by (simp add: freebuf_def Let_def bs)
  have x4: "x - 4 \<noteq> NULL" using m by (auto simp: pool_mine_def NULL_def)
  have ch: "bufchain ?m (bpnext (buftab b p)) xs"
    using c(1) nx by (simp add: bufchain_upd)
  have bm: "bmemory ?b2 = ?m" "bpnext (buftab ?b2 p) = x - 4" "nbpools ?b2 = nbpools b" "currpid (bkern ?b2) = currpid (bkern b)" "bpsem (buftab ?b2 p) = ?s"
    by (simp_all add: set_scount_def upd_sem_def upd_pool_def set_bmemory_def)
  have sm: "sstate (semtab (bkern ?b2) ?s) \<noteq> S_FREE" "scount (semtab (bkern ?b2) ?s) = int (length (x # xs))" "\<exists>Q. kidle (bkern ?b2) Q"
    using k sg(2) by simp_all
  have "pool_free p ?b2 (x # xs)"
    unfolding pool_free_def Let_def bm using c k0 sm x4 ch nx by simp
  moreover have "pool_mine p ?b2 y" if "y \<noteq> x" "pool_mine p b y" for y
    using that unfolding pool_mine_def bm(1) by auto
  ultimately show "\<exists>b'. freebuf x b = Ret (OK, b') \<and> pool_free p b' (x # xs) \<and> (\<forall>y. y \<noteq> x \<longrightarrow> pool_mine p b y \<longrightarrow> pool_mine p b' y)"
    using run by blast
next
  show "pool_free p b xs \<Longrightarrow> distinct xs" for b xs by (simp add: pool_free_def)
qed

section \<open>A new pool\<close>

definition nth_buf :: "addr \<Rightarrow> u32 \<Rightarrow> nat \<Rightarrow> addr" where
  "nth_buf buf siz i = buf + of_nat i * siz"

lemma nth_buf_simps: "nth_buf buf siz 0 = buf" "nth_buf (buf + siz) siz i = nth_buf buf siz (Suc i)"
  by (simp_all add: nth_buf_def algebra_simps)

lemma unat_nth_buf:
  assumes "unat buf + unat siz * n < 2 ^ 32" and "i \<le> n"
  shows "unat (nth_buf buf siz i) = unat buf + unat siz * i"
proof -
  have "nth_buf buf siz i = of_nat (unat buf + unat siz * i)" by (simp add: nth_buf_def mult.commute)
  moreover have "unat siz * i \<le> unat siz * n" using assms(2) by simp
  then have "unat buf + unat siz * i < 2 ^ 32" using assms(1) by linarith
  ultimately show ?thesis using unat_of_nat_u32 by metis
qed

lemma link_bufs_frame: "(\<And>i. i \<le> n \<Longrightarrow> x \<noteq> nth_buf buf siz i) \<Longrightarrow> link_bufs n buf siz m x = m x"
proof (induction n arbitrary: buf m)
  case 0
  then show ?case using 0 [of 0] by (simp add: nth_buf_simps)
next
  case (Suc n)
  have "x \<noteq> buf" using Suc.prems [of 0] by (simp add: nth_buf_simps)
  moreover have "x \<noteq> nth_buf (buf + siz) siz i" if "i \<le> n" for i using Suc.prems [of "Suc i"] that by (simp add: nth_buf_simps)
  ultimately show ?case using Suc.IH [of "buf + siz"] by simp
qed

lemma link_bufs_chain:
  assumes "\<And>i j. i \<le> n \<Longrightarrow> j \<le> n \<Longrightarrow> nth_buf buf siz i = nth_buf buf siz j \<Longrightarrow> i = j" and "\<And>i. i \<le> n \<Longrightarrow> nth_buf buf siz i \<noteq> NULL"
  shows "bufchain (link_bufs n buf siz m) buf (map (\<lambda>i. nth_buf buf siz i + 4) [0..<Suc n])"
  using assms
proof (induction n arbitrary: buf m)
  case 0
  then show ?case using "0.prems"(2) [of 0] by (simp add: nth_buf_simps)
next
  case (Suc n)
  let ?m = "m(buf := buf + siz)"
  have ih: "bufchain (link_bufs n (buf + siz) siz ?m) (buf + siz) (map (\<lambda>i. nth_buf (buf + siz) siz i + 4) [0..<Suc n])"
  proof (rule Suc.IH)
    show "i = j" if "i \<le> n" "j \<le> n" "nth_buf (buf + siz) siz i = nth_buf (buf + siz) siz j" for i j
      using Suc.prems(1) [of "Suc i" "Suc j"] that by (simp add: nth_buf_simps)
    show "nth_buf (buf + siz) siz i \<noteq> NULL" if "i \<le> n" for i using Suc.prems(2) [of "Suc i"] that by (simp add: nth_buf_simps)
  qed
  have "buf \<noteq> nth_buf (buf + siz) siz i" if "i \<le> n" for i
    using Suc.prems(1) [of 0 "Suc i"] that by (auto simp: nth_buf_simps)
  then have "link_bufs n (buf + siz) siz ?m buf = buf + siz" using link_bufs_frame [of n buf "buf + siz" siz ?m] by simp
  moreover have "buf \<noteq> NULL" using Suc.prems(2) [of 0] by (simp add: nth_buf_simps)
  moreover have eq: "map (\<lambda>i. nth_buf buf siz i + 4) [0..<Suc (Suc n)] = (buf + 4) # map (\<lambda>i. nth_buf (buf + siz) siz i + 4) [0..<Suc n]"
    by (simp only: upt_conv_Cons [of 0 "Suc (Suc n)"] map_Suc_upt [symmetric] list.map map_map comp_def nth_buf_simps zero_less_Suc)
  ultimately show ?case unfolding eq using ih by (simp del: upt_Suc)
qed

text \<open>Memory for the buffers of a pool.\<close>

lemma getmem_block:
  assumes h: "heap_inv v bs" and n: "n \<noteq> 0" "unat n \<le> 2 ^ 32 - 8" and b: "\<exists>c \<in> set bs. unat (roundmb n) \<le> unat (snd c)"
  shows "\<exists>r m bs'. getmem (memlist v) n (vmem v) = Ret (r, m) \<and> heap_inv (v\<lparr>vmem := m\<rparr>) bs' \<and> block_ok (r, roundmb n) \<and>
    bytes (r, roundmb n) \<subseteq> region bs \<and> region bs' = region bs - bytes (r, roundmb n) \<and> unat n \<le> unat (roundmb n) \<and> r \<noteq> USYSERR"
proof -
  have fl: "freelist (vmem v) (memlist v) bs" "blocks_ok bs" using h by (auto simp: heap_inv_def pool_inv_def freelist_def)
  have ok: "req_ok (roundmb n)" by (rule roundmb_req_ok [OF n])
  have "ff_alloc (roundmb n) bs \<noteq> None" using b ff_alloc_None [of "roundmb n" bs] by (auto simp: not_less)
  then obtain r bs' where a: "ff_alloc (roundmb n) bs = Some (r, bs')" by auto
  note ff = ff_alloc_Some [OF a fl(2) ok]
  obtain m where m: "getmem (memlist v) n (vmem v) = Ret (r, m)" "freelist m (memlist v) bs'"
    using getfreemem_correct [OF fl(1) n] a by (auto simp: getmem_def)
  have "heap_inv (v\<lparr>vmem := m\<rparr>) bs'" using h m(2) ff(4) unfolding heap_inv_def pool_inv_def by auto
  moreover have "unat n \<le> unat (roundmb n)" using unat_roundmb [OF n(2)] by linarith
  moreover have "r \<noteq> USYSERR" using pool.block_ok_not_USYSERR ff(2) by blast
  ultimately show ?thesis using m(1) ff by blast
qed


lemma heap_inv_writes:
  assumes h: "heap_inv v bs" "heap_inv (v\<lparr>vmem := m\<rparr>) bs'" and b: "B \<subseteq> region bs" "region bs' = region bs - B"
    and fr: "\<And>x. x \<notin> B \<Longrightarrow> M x = m x"
  shows "heap_inv (v\<lparr>vmem := M\<rparr>) bs'"
proof -
  have i: "freelist m (memlist v) bs'" "memlist v \<notin> region bs" using h unfolding heap_inv_def pool_inv_def by auto
  have "M x = m x" if "x \<in> region bs'" for x using fr that b by blast
  moreover have "M (memlist v) = m (memlist v)" using fr i(2) b by blast
  ultimately have "freelist M (memlist v) bs'" by (rule freelist_cong [OF i(1)])
  then show ?thesis using h(2) by (simp add: heap_inv_def pool_inv_def)
qed

lemma newsem_loop_kvm: "newsem_loop n k = (s, k') \<Longrightarrow> kvm k' = kvm k \<and> currpid k' = currpid k"
  by (induction n arbitrary: k) (auto simp: Let_def upd_sem_def split: if_splits)

lemma semcreate_kvm: "semcreate c k = (s, k') \<Longrightarrow> kvm k' = kvm k \<and> currpid k' = currpid k"
  using newsem_loop_kvm
  by (fastforce simp: semcreate_def newsem_def set_scount_def upd_sem_def split: if_splits prod.splits)

text \<open>The size of a buffer with the word in front of it, and of all the buffers of a pool.\<close>

definition slot :: "int \<Rightarrow> int" where
  "slot bufsiz = 4 * ((bufsiz + 3) div 4) + 4"

definition pool_bytes :: "int \<Rightarrow> nat \<Rightarrow> u32" where
  "pool_bytes bufsiz n = word_of_int (int n * slot bufsiz)"

lemma slot_bounds:
  assumes "BP_MINB \<le> sz" and "sz \<le> BP_MAXB"
  shows "sz + 4 \<le> slot sz" "12 \<le> slot sz" "slot sz \<le> 8196"
  using assms by (auto simp: slot_def bp_consts)

lemma unat_slot:
  assumes "BP_MINB \<le> sz" and "sz \<le> BP_MAXB"
  shows "unat (word_of_int (slot sz) :: u32) = nat (slot sz)"
  using slot_bounds [OF assms] by (simp add: unat_eq_nat_uint uint_word_of_int)

lemma unat_pool_bytes:
  assumes "BP_MINB \<le> sz" and "sz \<le> BP_MAXB" and "int n \<le> BP_MAXN"
  shows "unat (pool_bytes sz n) = nat (slot sz) * n" and "nat (slot sz) * n \<le> 2 ^ 32 - 8"
proof -
  have "nat (slot sz) * n \<le> 8196 * 2048" using slot_bounds [OF assms(1,2)] assms(3) by (intro mult_le_mono) (auto simp: bp_consts)
  then show *: "nat (slot sz) * n \<le> 2 ^ 32 - 8" by simp
  have "int n * slot sz = int (nat (slot sz) * n)" using slot_bounds(2) [OF assms(1,2)] by simp
  then have "pool_bytes sz n = of_nat (nat (slot sz) * n)" by (simp only: pool_bytes_def of_int_of_nat_eq)
  then show "unat (pool_bytes sz n) = nat (slot sz) * n" using * unat_of_nat_u32 by (metis (no_types, lifting) diff_less le_less_trans zero_less_numeral zero_less_power)
qed

lemma buffers_in_block:
  assumes ok: "block_ok (r, l)" and le: "unat S * n \<le> unat l" and S: "0 < unat S"
  shows "i < n \<Longrightarrow> unat (nth_buf r S i) = unat r + unat S * i"
    and "i < n \<Longrightarrow> nth_buf r S i \<in> bytes (r, l)"
    and "i < n \<Longrightarrow> nth_buf r S i \<noteq> NULL"
    and "i < n \<Longrightarrow> j < n \<Longrightarrow> nth_buf r S i = nth_buf r S j \<Longrightarrow> i = j"
proof -
  have b: "unat r + unat S * n < 2 ^ 32" "0 < unat r" using ok le unfolding block_ok_def by simp_all
  have u: "unat (nth_buf r S i) = unat r + unat S * i" if "i < n" for i using unat_nth_buf [OF b(1)] that by simp
  show "i < n \<Longrightarrow> unat (nth_buf r S i) = unat r + unat S * i" by (rule u)
  show "i < n \<Longrightarrow> nth_buf r S i \<in> bytes (r, l)"
  proof -
    assume i: "i < n"
    then have "unat S * i < unat S * n" using S by simp
    then have "unat S * i < unat l" using le by (rule less_le_trans)
    then show ?thesis using u [OF i] unfolding bytes_def by simp
  qed
  show "i < n \<Longrightarrow> nth_buf r S i \<noteq> NULL" using u [of i] b(2) by (metis NULL_def add_is_0 less_numeral_extra(3) unat_0)
  show "i < n \<Longrightarrow> j < n \<Longrightarrow> nth_buf r S i = nth_buf r S j \<Longrightarrow> i = j"
    using u [of i] u [of j] S by (metis add_left_cancel mult_cancel1 less_numeral_extra(3))
qed


lemma buffer_place:
  assumes sz: "BP_MINB \<le> sz" "sz \<le> BP_MAXB" and ok: "block_ok (r, l)" and le: "nat (slot sz) * n \<le> unat l" and i: "i < n"
  shows "unat (nth_buf r (word_of_int (slot sz)) i + 4) = unat r + nat (slot sz) * i + 4"
    and "bytes (nth_buf r (word_of_int (slot sz)) i + 4, word_of_int sz) \<subseteq> bytes (r, l)"
proof -
  let ?S = "word_of_int (slot sz) :: u32" and ?y = "nth_buf r (word_of_int (slot sz)) i"
  note sb = slot_bounds [OF sz] and us = unat_slot [OF sz]
  have u: "unat ?y = unat r + nat (slot sz) * i" using buffers_in_block(1) [OF ok, of ?S n i] le us sb(2) i by simp
  have "nat (slot sz) * Suc i \<le> nat (slot sz) * n" using i by (intro mult_le_mono2) simp
  then have lt: "unat r + nat (slot sz) * i + nat (slot sz) \<le> unat r + unat l" using le by simp
  have hi: "unat r + unat l < 2 ^ 32" using ok by (simp add: block_ok_def)
  have sl: "nat sz + 4 \<le> nat (slot sz)" using sb sz by (simp add: bp_consts)
  have "unat ?y + unat (4 :: u32) < 2 ^ 32" using u lt hi sl by simp
  then show y: "unat (?y + 4) = unat r + nat (slot sz) * i + 4" using u by (simp add: unat_word_ariths)
  have "unat (word_of_int sz :: u32) = nat sz" using sz by (simp add: bp_consts unat_eq_nat_uint uint_word_of_int)
  then show "bytes (?y + 4, word_of_int sz) \<subseteq> bytes (r, l)" using y lt sl unfolding bytes_def by auto
qed

text \<open>What the caller of \<open>mkbufpool\<close> finds: a consistent kernel, room in the buffer table, a free semaphore.\<close>

definition can_make_pool :: "bufs \<Rightarrow> (int \<Rightarrow> int list) \<Rightarrow> bool" where
  "can_make_pool b Q \<longleftrightarrow> kidle (bkern b) Q \<and> currpid (bkern b) \<noteq> NULLPROC \<and> 0 \<le> nbpools b \<and> nbpools b < NBPOOLS \<and>
    0 \<le> nextsem (bkern b) \<and> nextsem (bkern b) < NSEM \<and> (\<exists>s \<in> {0..<NSEM}. sstate (semtab (bkern b) s) = S_FREE) \<and>
    (\<forall>s \<in> {0..<NSEM}. sstate (semtab (bkern b) s) = S_FREE \<longrightarrow> Q (squeue (semtab (bkern b) s)) = [])"

lemma mkbufpool_ok:
  assumes cm: "can_make_pool b Q" and h: "heap_inv (kvm (bkern b)) bs" and sz: "BP_MINB \<le> sz" "sz \<le> BP_MAXB" and n: "1 \<le> n" "int n \<le> BP_MAXN"
    and blk: "\<exists>c \<in> set bs. unat (roundmb (pool_bytes sz n)) \<le> unat (snd c)"
  shows "\<exists>r b' bs'. let ys = map (\<lambda>i. nth_buf r (word_of_int (slot sz)) i + 4) [0..<n] in
    mkbufpool sz (int n) b = Ret (nbpools b, b') \<and> pool_free (nbpools b) b' ys \<and> nbpools b' = nbpools b + 1 \<and>
    heap_inv (kvm (bkern b')) bs' \<and> block_ok (r, roundmb (pool_bytes sz n)) \<and> nat (slot sz) * n \<le> unat (roundmb (pool_bytes sz n)) \<and>
    bytes (r, roundmb (pool_bytes sz n)) \<subseteq> region bs - region bs'"
proof -
  let ?v = "kvm (bkern b)" and ?nb = "pool_bytes sz n" and ?S = "word_of_int (slot sz) :: u32" and ?p = "nbpools b"
  note sb = slot_bounds [OF sz] and ub = unat_pool_bytes [OF sz n(2)] and us = unat_slot [OF sz]
  have "0 < nat (slot sz) * n" using sb n by simp
  then have nb: "?nb \<noteq> 0" "unat ?nb \<le> 2 ^ 32 - 8" using ub by (auto simp: unat_eq_zero [symmetric])
  obtain r m bs' where g: "getmem (memlist ?v) ?nb (vmem ?v) = Ret (r, m)" "heap_inv (?v\<lparr>vmem := m\<rparr>) bs'" "block_ok (r, roundmb ?nb)"
    "bytes (r, roundmb ?nb) \<subseteq> region bs" "region bs' = region bs - bytes (r, roundmb ?nb)" "unat ?nb \<le> unat (roundmb ?nb)" "r \<noteq> USYSERR"
    using getmem_block [OF h nb blk] by blast
  have in_block: "unat ?S * n \<le> unat (roundmb ?nb)" "0 < unat ?S" using g(6) ub(1) us sb(2) by simp_all
  note bl = buffers_in_block [OF g(3) in_block]
  define k1 where "k1 = (bkern b)\<lparr>kvm := ?v\<lparr>vmem := m\<rparr>\<rparr>"
  have c1: "kidle k1 Q" "currpid k1 = currpid (bkern b)" "nextsem k1 = nextsem (bkern b)" "semtab k1 = semtab (bkern b)"
    using cm kidle_kvm by (auto simp: can_make_pool_def k1_def)
  obtain s k2 where sc: "semcreate (int n) k1 = (s, k2)" "kidle k2 Q" "\<not> isbadsem s" "sstate (semtab k2 s) = S_USED" "scount (semtab k2 s) = int n"
    using semcreate_kidle [OF c1(1), of "int n"] cm n(2) unfolding can_make_pool_def c1(2-4) by (auto simp: bp_consts)
  have kv: "kvm k2 = ?v\<lparr>vmem := m\<rparr>" "currpid k2 = currpid (bkern b)"
    using semcreate_kvm [OF sc(1)] c1(2) by (auto simp: k1_def)
  define M where "M = link_bufs (n - 1) r ?S m"
  define b' where "b' = \<lparr>bkern = k2\<lparr>kvm := ?v\<lparr>vmem := M\<rparr>\<rparr>, buftab = (buftab b)(?p := \<lparr>bpnext = r, bpsem = s, bpsize = word_of_int (slot sz - 4)\<rparr>), nbpools = ?p + 1\<rparr>"
  have slot_eq: "4 * ((sz + 3) div 4) = slot sz - 4" "slot sz - 4 + 4 = slot sz" by (simp_all add: slot_def)
  have nbytes: "word_of_int (int n * slot sz) = ?nb" by (simp add: pool_bytes_def)
  have nm: "nat (int n - 1) = n - Suc 0" by simp
  have ns: "s \<noteq> SYSERR" using sc(3) by (auto simp: isbadsem_def SYSERR_def)
  have args: "\<not> (sz < BP_MINB \<or> sz > BP_MAXB \<or> int n < 1 \<or> int n > BP_MAXN \<or> nbpools b \<ge> NBPOOLS)" using sz n cm by (auto simp: can_make_pool_def)
  have "mkbufpool sz (int n) b = Ret (?p, b')"
    unfolding mkbufpool_def Let_def slot_eq nbytes if_not_P [OF args] g(1)
    using g(7) sc(1) ns kv by (simp add: set_bmemory_def upd_pool_def k1_def [symmetric] M_def b'_def nm whole_records)
  moreover have ch: "bufchain M r (map (\<lambda>i. nth_buf r ?S i + 4) [0..<n])"
    using link_bufs_chain [of "n - 1" r ?S m] bl(3,4) n(1) by (simp add: M_def Suc_le_eq del: upt_Suc)
  have fr: "M x = m x" if "x \<notin> bytes (r, roundmb ?nb)" for x
    unfolding M_def by (rule link_bufs_frame) (use that bl(2) n(1) in \<open>auto simp: Suc_le_eq\<close>)
  have d: "distinct (map (\<lambda>i. nth_buf r ?S i + 4) [0..<n])" using bl(4) by (auto simp: distinct_map inj_on_def)
  have "pool_free ?p b' (map (\<lambda>i. nth_buf r ?S i + 4) [0..<n])"
    using ch d cm sc(2-5) kv kidle_kvm [OF sc(2)] by (auto simp: pool_free_def b'_def Let_def can_make_pool_def)
  moreover have "heap_inv (?v\<lparr>vmem := M\<rparr>) bs'" by (rule heap_inv_writes [OF h g(2,4,5) fr])
  then have "heap_inv (kvm (bkern b')) bs'" by (simp add: b'_def)
  moreover have "bytes (r, roundmb ?nb) \<subseteq> region bs - region bs'" using g(4,5) by blast
  ultimately show ?thesis using g(3,6) ub(1) by (intro exI [of _ r] exI [of _ b'] exI [of _ bs']) (simp add: Let_def b'_def)
qed


section \<open>Properties\<close>

text \<open>
  C31: The life of a buffer pool. When the caller asks for a number and a size of buffers within the limits, the heap has a block for them,
  and a semaphore and an entry of the table are free, \<open>mkbufpool\<close> makes a pool of that many buffers: each has the requested size, lies in
  memory that was free and is not free any more, and ends before the next one begins. Then that many calls of \<open>getbuf\<close> succeed without
  waiting and return the buffers of the pool, each once, and handing them back to \<open>freebuf\<close> in any order makes the pool whole again.
\<close>

theorem bufpool_lifecycle:
  assumes "can_make_pool b Q" and "heap_inv (kvm (bkern b)) bs" and "BP_MINB \<le> sz" and "sz \<le> BP_MAXB" and "1 \<le> n" and "int n \<le> BP_MAXN"
    and "\<exists>c \<in> set bs. unat (roundmb (pool_bytes sz n)) \<le> unat (snd c)"
  shows "\<exists>b1 bs1 ys. mkbufpool sz (int n) b = Ret (nbpools b, b1) \<and> heap_inv (kvm (bkern b1)) bs1 \<and> length ys = n \<and>
    (\<forall>i < n. bytes (ys ! i, word_of_int sz) \<subseteq> region bs - region bs1) \<and>
    (\<forall>i j. i < j \<and> j < n \<longrightarrow> unat (ys ! i) + nat sz \<le> unat (ys ! j)) \<and>
    (\<forall>zs. distinct zs \<and> set zs = set ys \<longrightarrow> (\<exists>b2 b3. take_n (getbuf (nbpools b)) n b1 = Ret (map Some ys, b2) \<and>
      pool_free (nbpools b) b2 [] \<and> give_all freebuf zs b2 = Ret b3 \<and> pool_free (nbpools b) b3 (rev zs)))"
proof -
  let ?S = "word_of_int (slot sz) :: u32" and ?p = "nbpools b"
  obtain r b1 bs1 where m: "mkbufpool sz (int n) b = Ret (?p, b1)" "pool_free ?p b1 (map (\<lambda>i. nth_buf r ?S i + 4) [0..<n])"
    "heap_inv (kvm (bkern b1)) bs1" "block_ok (r, roundmb (pool_bytes sz n))" "nat (slot sz) * n \<le> unat (roundmb (pool_bytes sz n))"
    "bytes (r, roundmb (pool_bytes sz n)) \<subseteq> region bs - region bs1"
    using mkbufpool_ok [OF assms] unfolding Let_def by blast
  define ys where "ys = map (\<lambda>i. nth_buf r ?S i + 4) [0..<n]"
  have len: "length ys = n" by (simp add: ys_def)
  have at: "unat (ys ! i) = unat r + nat (slot sz) * i + 4 \<and> bytes (ys ! i, word_of_int sz) \<subseteq> bytes (r, roundmb (pool_bytes sz n))" if "i < n" for i
    using buffer_place [OF assms(3,4) m(4,5) that] that by (simp add: ys_def)
  have "unat (ys ! i) + nat sz \<le> unat (ys ! j)" if "i < j" "j < n" for i j
  proof -
    have "nat (slot sz) * Suc i \<le> nat (slot sz) * j" using that by (intro mult_le_mono2) simp
    moreover have "nat sz \<le> nat (slot sz)" using slot_bounds [OF assms(3,4)] by linarith
    ultimately show ?thesis using at [of i] at [of j] that by simp
  qed
  moreover have "\<exists>b2 b3. take_n (getbuf ?p) n b1 = Ret (map Some ys, b2) \<and> pool_free ?p b2 [] \<and> give_all freebuf zs b2 = Ret b3 \<and> pool_free ?p b3 (rev zs)"
    if "distinct zs" "set zs = set ys" for zs
    using bufpool.take_give [of ?p b1 ys "[]" zs] m(2) that len assms(6) by (simp add: ys_def [symmetric] bp_consts)
  moreover have "bytes (ys ! i, word_of_int sz) \<subseteq> region bs - region bs1" if "i < n" for i using at [OF that] m(6) by blast
  ultimately show ?thesis using m(1,3) len by blast
qed

theorem bufpool_lifecycle_witness:
  "\<exists>b1 ys. mkbufpool 32 5 \<lparr>bkern = kernel2 PR_SUSP, buftab = \<lambda>_. \<lparr>bpnext = 0, bpsem = 0, bpsize = 0\<rparr>, nbpools = 0\<rparr> = Ret (0, b1) \<and>
    length ys = 5 \<and> (\<exists>b2. take_n (getbuf 0) 5 b1 = Ret (map Some ys, b2))"
proof -
  let ?b = "\<lparr>bkern = kernel2 PR_SUSP, buftab = \<lambda>_. \<lparr>bpnext = 0, bpsem = 0, bpsize = 0\<rparr>, nbpools = 0\<rparr>"
  have "can_make_pool ?b queues1"
    using kidle2 [of PR_SUSP] by (auto simp: can_make_pool_def kernel2_def kernel1_def queues1_def layout_defs bp_consts NULLPROC_def intro!: bexI [of _ 1])
  moreover have "\<exists>c \<in> set [(64, 1024)]. unat (roundmb (pool_bytes 32 5)) \<le> unat (snd c :: u32)"
    by (simp add: pool_bytes_def slot_def roundmb_def)
  ultimately have "\<exists>b1 bs1 ys. mkbufpool 32 (int 5) ?b = Ret (nbpools ?b, b1) \<and> heap_inv (kvm (bkern b1)) bs1 \<and> length ys = 5 \<and>
    (\<forall>i < 5. bytes (ys ! i, word_of_int 32) \<subseteq> region [(64, 1024)] - region bs1) \<and>
    (\<forall>i j. i < j \<and> j < 5 \<longrightarrow> unat (ys ! i) + nat 32 \<le> unat (ys ! j)) \<and>
    (\<forall>zs. distinct zs \<and> set zs = set ys \<longrightarrow> (\<exists>b2 b3. take_n (getbuf (nbpools ?b)) 5 b1 = Ret (map Some ys, b2) \<and>
      pool_free (nbpools ?b) b2 [] \<and> give_all freebuf zs b2 = Ret b3 \<and> pool_free (nbpools ?b) b3 (rev zs)))"
    using heap_inv2 [of PR_SUSP] by (intro bufpool_lifecycle) (auto simp: bp_consts)
  then obtain b1 ys where o: "mkbufpool 32 5 ?b = Ret (0, b1)" "length ys = 5"
    "\<And>zs. distinct zs \<Longrightarrow> set zs = set ys \<Longrightarrow> \<exists>b2. take_n (getbuf 0) 5 b1 = Ret (map Some ys, b2)"
    by fastforce
  have "\<exists>b2. take_n (getbuf 0) 5 b1 = Ret (map Some ys, b2)" by (rule o(3) [of "remdups ys"]) simp_all
  then show ?thesis using o(1,2) by blast
qed

end
