(* ===== verification/Ports.thy ===== *)
theory Ports
  imports BufPool
begin

text \<open>
  Ports: \<open>include/ports.h\<close>, \<open>system/ptinit.c\<close>, \<open>system/ptcreate.c\<close>, \<open>system/ptsend.c\<close>, \<open>system/ptrecv.c\<close>, \<open>system/ptclear.c\<close>,
  \<open>system/ptdelete.c\<close>, \<open>system/ptreset.c\<close> and \<open>system/ptcount.c\<close>.

  The message nodes are pairs of words in physical memory, the message in the first and the link in the second. Where a call can give
  the processor away in the middle, the rest of it is a definition of its own (\<open>ptsend_rest\<close>, \<open>ptrecv_rest\<close>, the later steps of
  \<open>ptclear\<close>) that runs when the caller is current again; until then there is no value.
\<close>

section \<open>State\<close>

definition NPORTS :: int where "NPORTS = 30"
definition PT_MSGS :: int where "PT_MSGS = 100"

datatype port_state = PT_FREE | PT_LIMBO | PT_ALLOC

record ptentry =
  ptssem :: int
  ptrsem :: int
  ptstate :: port_state
  ptmaxcnt :: u16
  ptseq :: int
  pthead :: addr
  pttail :: addr

record ports =
  pkern :: kernel
  porttab :: "int \<Rightarrow> ptentry"
  ptfree :: addr
  ptnextid :: int

definition isbadport :: "int \<Rightarrow> bool" where
  "isbadport portid \<longleftrightarrow> portid < 0 \<or> portid \<ge> NPORTS"

abbreviation pmemory :: "ports \<Rightarrow> mem" where
  "pmemory s \<equiv> vmem (kvm (pkern s))"

definition set_pmemory :: "mem \<Rightarrow> ports \<Rightarrow> ports" where
  "set_pmemory m s = s\<lparr>pkern := (pkern s)\<lparr>kvm := (kvm (pkern s))\<lparr>vmem := m\<rparr>\<rparr>\<rparr>"

definition upd_port :: "int \<Rightarrow> (ptentry \<Rightarrow> ptentry) \<Rightarrow> ports \<Rightarrow> ports" where
  "upd_port p f s = s\<lparr>porttab := (porttab s)(p := f (porttab s p))\<rparr>"

text \<open>The fields of a node.\<close>

definition ptmsg :: "mem \<Rightarrow> addr \<Rightarrow> u32" where "ptmsg m a = m a"
definition ptnext :: "mem \<Rightarrow> addr \<Rightarrow> addr" where "ptnext m a = m (a + 4)"
definition set_ptmsg :: "addr \<Rightarrow> u32 \<Rightarrow> mem \<Rightarrow> mem" where "set_ptmsg a v m = m(a := v)"
definition set_ptnext :: "addr \<Rightarrow> addr \<Rightarrow> mem \<Rightarrow> mem" where "set_ptnext a v m = m(a + 4 := v)"

lemmas ptnode_defs = ptmsg_def ptnext_def set_ptmsg_def set_ptnext_def

section \<open>Operations\<close>

text \<open>The loop that builds the list of free nodes; \<open>n\<close> nodes follow the one at \<open>a\<close>.\<close>

fun link_nodes :: "nat \<Rightarrow> addr \<Rightarrow> mem \<Rightarrow> mem" where
  "link_nodes 0 a m = set_ptnext a NULL m"
| "link_nodes (Suc n) a m = link_nodes n (a + 8) (set_ptnext a (a + 8) m)"

definition ptinit :: "int \<Rightarrow> ports \<Rightarrow> (int \<times> ports) result" where
  "ptinit maxmsgs s =
    (let v = kvm (pkern s) in
     rbind (getmem (memlist v) (word_of_int maxmsgs * 8) (vmem v)) (\<lambda>(a, m).
     let s = (set_pmemory m s)\<lparr>ptfree := a\<rparr> in
     if a = USYSERR then Halted
     else
       let s = s\<lparr>porttab := (\<lambda>i. if 0 \<le> i \<and> i < NPORTS then (porttab s i)\<lparr>ptstate := PT_FREE, ptseq := 0\<rparr> else porttab s i), ptnextid := 0\<rparr> in
       Ret (OK, set_pmemory (link_nodes (nat (maxmsgs - 1)) a (pmemory s)) s)))"

text \<open>What \<open>ptcreate\<close> does with the free entry it found.\<close>

definition ptcreate_entry :: "int \<Rightarrow> int \<Rightarrow> ports \<Rightarrow> int \<times> ports" where
  "ptcreate_entry ptnum cnt s =
    (let s = upd_port ptnum (\<lambda>e. e\<lparr>ptstate := PT_ALLOC\<rparr>) s in
     case semcreate cnt (pkern s) of (ssem, k) \<Rightarrow>
     let s = upd_port ptnum (\<lambda>e. e\<lparr>ptssem := ssem\<rparr>) (s\<lparr>pkern := k\<rparr>) in
     case semcreate 0 (pkern s) of (rsem, k) \<Rightarrow>
     let s = upd_port ptnum (\<lambda>e. e\<lparr>ptrsem := rsem\<rparr>) (s\<lparr>pkern := k\<rparr>);
         s = upd_port ptnum (\<lambda>e. e\<lparr>pthead := NULL, pttail := NULL, ptseq := wrap32 (ptseq e + 1), ptmaxcnt := word_of_int cnt\<rparr>) s in
     (ptnum, s))"

fun ptcreate_loop :: "nat \<Rightarrow> int \<Rightarrow> ports \<Rightarrow> int \<times> ports" where
  "ptcreate_loop 0 cnt s = (SYSERR, s)"
| "ptcreate_loop (Suc n) cnt s =
    (let ptnum = ptnextid s;
         s = s\<lparr>ptnextid := ptnextid s + 1\<rparr>;
         s = (if ptnextid s \<ge> NPORTS then s\<lparr>ptnextid := 0\<rparr> else s) in
     if ptstate (porttab s ptnum) = PT_FREE then ptcreate_entry ptnum cnt s
     else ptcreate_loop n cnt s)"

definition ptcreate :: "int \<Rightarrow> ports \<Rightarrow> int \<times> ports" where
  "ptcreate cnt s = (if cnt < 0 then (SYSERR, s) else ptcreate_loop (nat NPORTS) cnt s)"

text \<open>What follows the call of \<open>wait\<close> in \<open>ptsend\<close>; \<open>r\<close> is what \<open>wait\<close> returned, \<open>seq\<close> the number noted before it.\<close>

definition ptsend_rest :: "int \<Rightarrow> u32 \<Rightarrow> int \<Rightarrow> int \<Rightarrow> ports \<Rightarrow> (int \<times> ports) result" where
  "ptsend_rest portid msg seq r s =
    (if r = SYSERR \<or> ptstate (porttab s portid) \<noteq> PT_ALLOC \<or> ptseq (porttab s portid) \<noteq> seq then Ret (SYSERR, s)
     else if ptfree s = NULL then Halted
     else
       let msgnode = ptfree s;
           s = s\<lparr>ptfree := ptnext (pmemory s) msgnode\<rparr>;
           s = set_pmemory (set_ptmsg msgnode msg (set_ptnext msgnode NULL (pmemory s))) s;
           tailnode = pttail (porttab s portid);
           s = (if tailnode = NULL then upd_port portid (\<lambda>e. e\<lparr>pttail := msgnode, pthead := msgnode\<rparr>) s
                else upd_port portid (\<lambda>e. e\<lparr>pttail := msgnode\<rparr>) (set_pmemory (set_ptnext tailnode msgnode (pmemory s)) s)) in
       rbind (signal (ptrsem (porttab s portid)) (pkern s)) (\<lambda>(_, k). Ret (OK, s\<lparr>pkern := k\<rparr>)))"

definition ptsend :: "int \<Rightarrow> u32 \<Rightarrow> ports \<Rightarrow> (int option \<times> ports) result" where
  "ptsend portid msg s =
    (if isbadport portid \<or> ptstate (porttab s portid) \<noteq> PT_ALLOC then Ret (Some SYSERR, s)
     else
       let seq = ptseq (porttab s portid); caller = currpid (pkern s) in
       rbind (wait (ptssem (porttab s portid)) (pkern s)) (\<lambda>(r, k).
       let s = s\<lparr>pkern := k\<rparr> in
       if currpid k = caller then rbind (ptsend_rest portid msg seq r s) (\<lambda>(x, s). Ret (Some x, s))
       else Ret (None, s)))"

definition ptrecv_rest :: "int \<Rightarrow> int \<Rightarrow> int \<Rightarrow> ports \<Rightarrow> (u32 \<times> ports) result" where
  "ptrecv_rest portid seq r s =
    (if r = SYSERR \<or> ptstate (porttab s portid) \<noteq> PT_ALLOC \<or> ptseq (porttab s portid) \<noteq> seq then Ret (USYSERR, s)
     else
       let msgnode = pthead (porttab s portid);
           msg = ptmsg (pmemory s) msgnode;
           s = (if pthead (porttab s portid) = pttail (porttab s portid) then upd_port portid (\<lambda>e. e\<lparr>pthead := NULL, pttail := NULL\<rparr>) s
                else upd_port portid (\<lambda>e. e\<lparr>pthead := ptnext (pmemory s) msgnode\<rparr>) s);
           s = (set_pmemory (set_ptnext msgnode (ptfree s) (pmemory s)) s)\<lparr>ptfree := msgnode\<rparr> in
       rbind (signal (ptssem (porttab s portid)) (pkern s)) (\<lambda>(_, k). Ret (msg, s\<lparr>pkern := k\<rparr>)))"

definition ptrecv :: "int \<Rightarrow> ports \<Rightarrow> (u32 option \<times> ports) result" where
  "ptrecv portid s =
    (if isbadport portid \<or> ptstate (porttab s portid) \<noteq> PT_ALLOC then Ret (Some USYSERR, s)
     else
       let seq = ptseq (porttab s portid); caller = currpid (pkern s) in
       rbind (wait (ptrsem (porttab s portid)) (pkern s)) (\<lambda>(r, k).
       let s = s\<lparr>pkern := k\<rparr> in
       if currpid k = caller then rbind (ptrecv_rest portid seq r s) (\<lambda>(x, s). Ret (Some x, s))
       else Ret (None, s)))"

text \<open>
  \<open>_ptclear\<close> hands every message to the function \<open>dispose\<close> that its caller was given. It can give the processor away at each of
  its two calls that free the waiting processes: \<open>Some step\<close> says where it goes on.
\<close>

partial_function (option) dispose_loop :: "(u32 \<Rightarrow> ports \<Rightarrow> (int \<times> ports) result) \<Rightarrow> addr \<Rightarrow> ports \<Rightarrow> ports result option" where
  "dispose_loop dispose walk s =
    (if walk = NULL then Some (Ret s)
     else case dispose (ptmsg (pmemory s) walk) s of
         Ret (_, s) \<Rightarrow> dispose_loop dispose (ptnext (pmemory s) walk) s
       | Halted \<Rightarrow> Some Halted
       | Fault \<Rightarrow> Some Fault
       | Loops \<Rightarrow> Some Loops)"

datatype clear_step = Clear_senders | Clear_receivers | Clear_done

definition ptclear_done :: "int \<Rightarrow> port_state \<Rightarrow> ports \<Rightarrow> (clear_step option \<times> ports) result" where
  "ptclear_done p newstate s = Ret (None, upd_port p (\<lambda>e. e\<lparr>ptstate := newstate\<rparr>) s)"

definition ptclear_receivers :: "int \<Rightarrow> port_state \<Rightarrow> ports \<Rightarrow> (clear_step option \<times> ports) result" where
  "ptclear_receivers p newstate s =
    (let caller = currpid (pkern s); sem = ptrsem (porttab s p) in
     rbind (if newstate = PT_ALLOC then semreset sem 0 (pkern s) else semdelete sem (pkern s)) (\<lambda>(_, k).
     let s = s\<lparr>pkern := k\<rparr> in
     if currpid k = caller then ptclear_done p newstate s else Ret (Some Clear_done, s)))"

definition ptclear_senders :: "int \<Rightarrow> port_state \<Rightarrow> ports \<Rightarrow> (clear_step option \<times> ports) result" where
  "ptclear_senders p newstate s =
    (let caller = currpid (pkern s); sem = ptssem (porttab s p) in
     rbind (if newstate = PT_ALLOC then semreset sem (uint (ptmaxcnt (porttab s p))) (pkern s) else semdelete sem (pkern s)) (\<lambda>(_, k).
     let s = s\<lparr>pkern := k\<rparr> in
     if currpid k = caller then ptclear_receivers p newstate s else Ret (Some Clear_receivers, s)))"

definition ptclear :: "int \<Rightarrow> port_state \<Rightarrow> (u32 \<Rightarrow> ports \<Rightarrow> (int \<times> ports) result) \<Rightarrow> ports \<Rightarrow> (clear_step option \<times> ports) result" where
  "ptclear p newstate dispose s =
    (let s = upd_port p (\<lambda>e. e\<lparr>ptstate := PT_LIMBO, ptseq := wrap32 (ptseq e + 1)\<rparr>) s;
         walk = pthead (porttab s p) in
     rbind
       (if walk \<noteq> NULL then
          rbind (rjoin (of_loop (dispose_loop dispose walk s))) (\<lambda>s.
          Ret ((set_pmemory (set_ptnext (pttail (porttab s p)) (ptfree s) (pmemory s)) s)\<lparr>ptfree := pthead (porttab s p)\<rparr>))
        else Ret s) (\<lambda>s.
     let s = (if newstate = PT_ALLOC then upd_port p (\<lambda>e. e\<lparr>pttail := NULL, pthead := NULL\<rparr>) s else s) in
     ptclear_senders p newstate s))"

text \<open>Going on after the processor came back.\<close>

fun ptclear_resume :: "clear_step \<Rightarrow> int \<Rightarrow> port_state \<Rightarrow> ports \<Rightarrow> (clear_step option \<times> ports) result" where
  "ptclear_resume Clear_senders p newstate s = ptclear_senders p newstate s"
| "ptclear_resume Clear_receivers p newstate s = ptclear_receivers p newstate s"
| "ptclear_resume Clear_done p newstate s = ptclear_done p newstate s"

definition ptdelete :: "int \<Rightarrow> (u32 \<Rightarrow> ports \<Rightarrow> (int \<times> ports) result) \<Rightarrow> ports \<Rightarrow> (int option \<times> ports) result" where
  "ptdelete portid disp s =
    (if isbadport portid \<or> ptstate (porttab s portid) \<noteq> PT_ALLOC then Ret (Some SYSERR, s)
     else rbind (ptclear portid PT_FREE disp s) (\<lambda>(c, s).
       if c = None then Ret (Some OK, s\<lparr>ptnextid := portid\<rparr>) else Ret (None, s)))"

definition ptreset :: "int \<Rightarrow> (u32 \<Rightarrow> ports \<Rightarrow> (int \<times> ports) result) \<Rightarrow> ports \<Rightarrow> (int option \<times> ports) result" where
  "ptreset portid disp s =
    (if isbadport portid \<or> ptstate (porttab s portid) \<noteq> PT_ALLOC then Ret (Some SYSERR, s)
     else rbind (ptclear portid PT_ALLOC disp s) (\<lambda>(c, s).
       if c = None then Ret (Some OK, s) else Ret (None, s)))"

definition ptcount :: "int \<Rightarrow> ports \<Rightarrow> int" where
  "ptcount portid s =
    (if isbadport portid \<or> ptstate (porttab s portid) \<noteq> PT_ALLOC then SYSERR
     else
       let cnt = semcount (ptrsem (porttab s portid)) (pkern s) in
       if cnt \<ge> 0 then
         let sndcnt = semcount (ptssem (porttab s portid)) (pkern s) in
         if sndcnt < 0 then wrap32 (cnt + - sndcnt) else cnt
       else cnt)"

section \<open>The contract: mailboxes of bounded size\<close>

datatype pt_op = Snd int u32 | Rcv int

datatype pt_out = Sent int | Got u32 | Waits

text \<open>The specification: a queue of messages for every port and a number of messages the system still has room for.\<close>

fun box_step :: "(int \<Rightarrow> nat option) \<Rightarrow> pt_op \<Rightarrow> (int \<Rightarrow> u32 list) \<times> nat \<Rightarrow> (pt_out \<times> (int \<Rightarrow> u32 list) \<times> nat) option" where
  "box_step cap (Snd p x) (B, f) =
    (case cap p of None \<Rightarrow> None
     | Some c \<Rightarrow> if length (B p) < c \<and> 0 < f then Some (Sent OK, B(p := B p @ [x]), f - 1) else None)"
| "box_step cap (Rcv p) (B, f) =
    (case cap p of None \<Rightarrow> None
     | Some c \<Rightarrow> (case B p of [] \<Rightarrow> None | x # xs \<Rightarrow> Some (Got x, B(p := xs), f + 1)))"

fun box_run :: "(int \<Rightarrow> nat option) \<Rightarrow> pt_op list \<Rightarrow> (int \<Rightarrow> u32 list) \<times> nat \<Rightarrow> (pt_out list \<times> (int \<Rightarrow> u32 list) \<times> nat) option" where
  "box_run cap [] b = Some ([], b)"
| "box_run cap (op # ops) b =
    (case box_step cap op b of None \<Rightarrow> None
     | Some (x, b) \<Rightarrow> (case box_run cap ops b of None \<Rightarrow> None | Some (xs, b) \<Rightarrow> Some (x # xs, b)))"

fun pt_exec :: "(int \<Rightarrow> u32 \<Rightarrow> 's \<Rightarrow> (int option \<times> 's) result) \<Rightarrow> (int \<Rightarrow> 's \<Rightarrow> (u32 option \<times> 's) result) \<Rightarrow> pt_op \<Rightarrow> 's \<Rightarrow> (pt_out \<times> 's) result" where
  "pt_exec put get (Snd p x) s = rbind (put p x s) (\<lambda>(r, s). Ret (case r of None \<Rightarrow> Waits | Some r \<Rightarrow> Sent r, s))"
| "pt_exec put get (Rcv p) s = rbind (get p s) (\<lambda>(r, s). Ret (case r of None \<Rightarrow> Waits | Some x \<Rightarrow> Got x, s))"

fun pt_run :: "(int \<Rightarrow> u32 \<Rightarrow> 's \<Rightarrow> (int option \<times> 's) result) \<Rightarrow> (int \<Rightarrow> 's \<Rightarrow> (u32 option \<times> 's) result) \<Rightarrow> pt_op list \<Rightarrow> 's \<Rightarrow> (pt_out list \<times> 's) result" where
  "pt_run put get [] s = Ret ([], s)"
| "pt_run put get (op # ops) s = rbind (pt_exec put get op s) (\<lambda>(x, s). rbind (pt_run put get ops s) (\<lambda>(xs, s). Ret (x # xs, s)))"

locale message_ports =
  fixes put :: "int \<Rightarrow> u32 \<Rightarrow> 's \<Rightarrow> (int option \<times> 's) result"
    and get :: "int \<Rightarrow> 's \<Rightarrow> (u32 option \<times> 's) result"
    and rep :: "'s \<Rightarrow> (int \<Rightarrow> u32 list) \<Rightarrow> nat \<Rightarrow> bool"
    and cap :: "int \<Rightarrow> nat option"
  assumes send_law: "rep s B (Suc f) \<Longrightarrow> cap p = Some c \<Longrightarrow> length (B p) < c \<Longrightarrow>
      \<exists>s'. put p x s = Ret (Some OK, s') \<and> rep s' (B(p := B p @ [x])) f"
    and recv_law: "rep s B f \<Longrightarrow> cap p = Some c \<Longrightarrow> B p = x # xs \<Longrightarrow> \<exists>s'. get p s = Ret (Some x, s') \<and> rep s' (B(p := xs)) (Suc f)"
begin

lemma step_refines:
  assumes "box_step cap op (B, f) = Some (x, B', f')" and "rep s B f"
  shows "\<exists>s'. pt_exec put get op s = Ret (x, s') \<and> rep s' B' f'"
proof (cases op)
  case (Snd p y)
  then obtain c f1 where c: "cap p = Some c" "length (B p) < c" "f = Suc f1" "x = Sent OK" "B' = B(p := B p @ [y])" "f' = f1"
    using assms(1) by (cases f) (auto split: option.splits if_splits)
  then show ?thesis using send_law [of s B f1 p c y] assms(2) Snd by auto
next
  case (Rcv p)
  then obtain c y ys where c: "cap p = Some c" "B p = y # ys" "x = Got y" "B' = B(p := ys)" "f' = Suc f"
    using assms(1) by (auto split: option.splits list.splits)
  then show ?thesis using recv_law [OF assms(2) c(1,2)] Rcv by auto
qed

lemma run_refines:
  "box_run cap ops (B, f) = Some (xs, B', f') \<Longrightarrow> rep s B f \<Longrightarrow> \<exists>s'. pt_run put get ops s = Ret (xs, s') \<and> rep s' B' f'"
proof (induction ops arbitrary: s B f xs)
  case (Cons op ops)
  then obtain x B1 f1 ys where b: "box_step cap op (B, f) = Some (x, B1, f1)" "box_run cap ops (B1, f1) = Some (ys, B', f')" "xs = x # ys"
    by (auto split: option.splits)
  obtain s1 where "pt_exec put get op s = Ret (x, s1)" "rep s1 B1 f1" using step_refines [OF b(1) Cons.prems(2)] by blast
  then show ?case using Cons.IH [OF b(2)] b(3) by fastforce
qed simp

end

section \<open>Ports in memory\<close>

fun node_chain :: "mem \<Rightarrow> addr \<Rightarrow> addr list \<Rightarrow> bool" where
  "node_chain m h [] \<longleftrightarrow> h = NULL"
| "node_chain m h (a # as) \<longleftrightarrow> h = a \<and> a \<noteq> NULL \<and> node_chain m (ptnext m a) as"

lemma node_chain_cong: "(\<And>a. a \<in> set as \<Longrightarrow> ptnext m' a = ptnext m a) \<Longrightarrow> node_chain m' h as = node_chain m h as"
  by (induction as arbitrary: h) auto

lemma node_chain_NULL: "node_chain m h as \<Longrightarrow> h = NULL \<longleftrightarrow> as = []"
  by (cases as) auto

lemma node_chain_not_NULL: "node_chain m h as \<Longrightarrow> NULL \<notin> set as"
  by (induction as arbitrary: h) auto

lemma node_chain_snoc:
  "node_chain m h as \<Longrightarrow> as \<noteq> [] \<Longrightarrow> distinct as \<Longrightarrow> n \<notin> set as \<Longrightarrow> n \<noteq> NULL \<Longrightarrow>
    node_chain (m(n + 4 := NULL, last as + 4 := n)) h (as @ [n])"
proof (induction as arbitrary: h)
  case (Cons a as)
  show ?case
  proof (cases "as = []")
    case True
    then show ?thesis using Cons.prems by (auto simp: ptnext_def)
  next
    case False
    then have "a \<noteq> last as" "a \<noteq> n" using Cons.prems by auto
    then show ?thesis using Cons False by (simp add: ptnext_def)
  qed
qed simp

definition port_mem :: "mem \<Rightarrow> ptentry \<Rightarrow> addr list \<Rightarrow> u32 list \<Rightarrow> bool" where
  "port_mem m e ns ms \<longleftrightarrow> node_chain m (pthead e) ns \<and> distinct ns \<and> pttail e = (if ns = [] then NULL else last ns) \<and> map (ptmsg m) ns = ms"

definition port_sem :: "kernel \<Rightarrow> ptentry \<Rightarrow> nat \<Rightarrow> nat \<Rightarrow> bool" where
  "port_sem k e c n \<longleftrightarrow> ptssem e \<noteq> ptrsem e \<and> \<not> isbadsem (ptssem e) \<and> \<not> isbadsem (ptrsem e) \<and>
    sstate (semtab k (ptssem e)) \<noteq> S_FREE \<and> sstate (semtab k (ptrsem e)) \<noteq> S_FREE \<and>
    scount (semtab k (ptrsem e)) = int n \<and> scount (semtab k (ptssem e)) = int c - int n \<and> n \<le> c \<and> c < 2 ^ 31"

definition node_set :: "(int \<Rightarrow> nat option) \<Rightarrow> (int \<Rightarrow> addr list) \<Rightarrow> addr list \<Rightarrow> addr set" where
  "node_set C N F = set F \<union> (\<Union>p \<in> dom C. set (N p))"

text \<open>No two nodes overlap, and each node is in one list.\<close>

definition nodes_apart :: "(int \<Rightarrow> nat option) \<Rightarrow> (int \<Rightarrow> addr list) \<Rightarrow> addr list \<Rightarrow> bool" where
  "nodes_apart C N F \<longleftrightarrow> (\<forall>a \<in> node_set C N F. \<forall>b \<in> node_set C N F. a \<noteq> b + 4) \<and> distinct F \<and>
    (\<forall>p \<in> dom C. set (N p) \<inter> set F = {} \<and> (\<forall>q \<in> dom C. p \<noteq> q \<longrightarrow> set (N p) \<inter> set (N q) = {}))"

definition sems_apart :: "(int \<Rightarrow> nat option) \<Rightarrow> (int \<Rightarrow> ptentry) \<Rightarrow> bool" where
  "sems_apart C t \<longleftrightarrow> (\<forall>p \<in> dom C. \<forall>q \<in> dom C. p \<noteq> q \<longrightarrow> {ptssem (t p), ptrsem (t p)} \<inter> {ptssem (t q), ptrsem (t q)} = {})"

definition ports_inv :: "(int \<Rightarrow> nat option) \<Rightarrow> (int \<Rightarrow> addr list) \<Rightarrow> addr list \<Rightarrow> ports \<Rightarrow> (int \<Rightarrow> u32 list) \<Rightarrow> bool" where
  "ports_inv C N F s B \<longleftrightarrow> (\<exists>Q. kidle (pkern s) Q) \<and> currpid (pkern s) \<noteq> NULLPROC \<and> dom C \<subseteq> {0..<NPORTS} \<and>
    node_chain (pmemory s) (ptfree s) F \<and> nodes_apart C N F \<and> sems_apart C (porttab s) \<and>
    (\<forall>p c. C p = Some c \<longrightarrow> ptstate (porttab s p) = PT_ALLOC \<and> port_mem (pmemory s) (porttab s p) (N p) (B p) \<and>
      port_sem (pkern s) (porttab s p) c (length (B p)))"

definition ports_rep :: "(int \<Rightarrow> nat option) \<Rightarrow> ports \<Rightarrow> (int \<Rightarrow> u32 list) \<Rightarrow> nat \<Rightarrow> bool" where
  "ports_rep C s B f \<longleftrightarrow> (\<exists>N F. ports_inv C N F s B \<and> length F = f)"

lemma node_set_split: "p \<in> dom C \<Longrightarrow> node_set C N F = set (N p) \<union> set F \<union> (\<Union>q \<in> dom C - {p}. set (N q))"
  unfolding node_set_def by blast

text \<open>One step on port \<open>p\<close> moves nodes between its list and the free list and changes nothing else.\<close>

lemma ports_inv_step:
  assumes i: "ports_inv C N F s B" and c: "C p = Some c" and k: "\<exists>Q. kidle (pkern s') Q" "currpid (pkern s') \<noteq> NULLPROC"
    and t: "porttab s' = (porttab s)(p := e')" "ptssem e' = ptssem (porttab s p)" "ptrsem e' = ptrsem (porttab s p)" "ptstate e' = PT_ALLOC"
    and m: "port_mem (pmemory s') e' ns ms" "node_chain (pmemory s') (ptfree s') F'"
    and fr: "\<And>a. a \<in> node_set C N F \<Longrightarrow> a \<notin> set (N p) \<Longrightarrow> a \<notin> set F \<Longrightarrow> pmemory s' a = pmemory s a \<and> pmemory s' (a + 4) = pmemory s (a + 4)"
    and n: "set ns \<union> set F' = set (N p) \<union> set F" "set ns \<inter> set F' = {}" "distinct F'"
    and sm: "port_sem (pkern s') e' c' (length ms)" "\<And>x. x \<noteq> ptssem e' \<Longrightarrow> x \<noteq> ptrsem e' \<Longrightarrow> semtab (pkern s') x = semtab (pkern s) x"
  shows "ports_inv (C(p := Some c')) (N(p := ns)) F' s' (B(p := ms))"
proof -
  have d: "dom (C(p := Some c')) = dom C" "p \<in> dom C" using c by auto
  have ns: "node_set (C(p := Some c')) (N(p := ns)) F' = node_set C N F" 
    using n(1) node_set_split [OF d(2), of N F] node_set_split [of p "C(p := Some c')" "N(p := ns)" F'] d by simp
  have na: "nodes_apart C N F" and sa: "sems_apart C (porttab s)" using i by (auto simp: ports_inv_def)
  have other: "set ns \<inter> set (N q) = {}" "set F' \<inter> set (N q) = {}" if "q \<in> dom C" "q \<noteq> p" for q
    using na n(1) d(2) that unfolding nodes_apart_def by blast+
  have "nodes_apart (C(p := Some c')) (N(p := ns)) F'"
    using na n(2,3) other unfolding nodes_apart_def ns d(1) by (auto simp: Int_commute)
  moreover have "sems_apart (C(p := Some c')) (porttab s')" using sa t unfolding sems_apart_def d(1) by auto
  moreover have "ptstate (porttab s' q) = PT_ALLOC \<and> port_mem (pmemory s') (porttab s' q) (N q) (B q) \<and> port_sem (pkern s') (porttab s' q) cq (length (B q))"
    if q: "C q = Some cq" "q \<noteq> p" for q cq
  proof -
    have o: "ptstate (porttab s q) = PT_ALLOC" "port_mem (pmemory s) (porttab s q) (N q) (B q)" "port_sem (pkern s) (porttab s q) cq (length (B q))"
      using i q(1) by (auto simp: ports_inv_def)
    have dq: "q \<in> dom C" using q by auto
    then have "\<And>a. a \<in> set (N q) \<Longrightarrow> a \<in> node_set C N F \<and> a \<notin> set (N p) \<and> a \<notin> set F"
      using na d(2) q(2) unfolding nodes_apart_def node_set_def by blast
    then have fq: "\<And>a. a \<in> set (N q) \<Longrightarrow> ptmsg (pmemory s') a = ptmsg (pmemory s) a \<and> ptnext (pmemory s') a = ptnext (pmemory s) a"
      using fr by (simp add: ptnode_defs)
    then have mp: "map (ptmsg (pmemory s')) (N q) = map (ptmsg (pmemory s)) (N q)" by simp
    have "port_mem (pmemory s') (porttab s q) (N q) (B q)"
      using o(2) fq node_chain_cong [of "N q" "pmemory s'" "pmemory s"] unfolding port_mem_def mp by simp
    moreover have "port_sem (pkern s') (porttab s q) cq (length (B q))"
      using o(3) sm(2) sa dq d(2) q(2) t(2,3) unfolding sems_apart_def port_sem_def by (metis disjoint_insert(1) insertCI)
    ultimately show ?thesis using o(1) t(1) q(2) by simp
  qed
  moreover have "dom C \<subseteq> {0..<NPORTS}" using i by (simp add: ports_inv_def)
  ultimately show ?thesis using k m sm(1) t(1,4) d(1) unfolding ports_inv_def by (auto simp: fun_upd_def)
qed

text \<open>What a send and a receive do to the lists.\<close>

definition send_mem :: "addr \<Rightarrow> u32 \<Rightarrow> ptentry \<Rightarrow> mem \<Rightarrow> mem" where
  "send_mem n x e m = (let m = m(n + 4 := NULL, n := x) in if pttail e = NULL then m else m(pttail e + 4 := n))"

definition send_entry :: "addr \<Rightarrow> ptentry \<Rightarrow> ptentry" where
  "send_entry n e = (if pttail e = NULL then e\<lparr>pttail := n, pthead := n\<rparr> else e\<lparr>pttail := n\<rparr>)"

definition recv_entry :: "mem \<Rightarrow> ptentry \<Rightarrow> ptentry" where
  "recv_entry m e = (if pthead e = pttail e then e\<lparr>pthead := NULL, pttail := NULL\<rparr> else e\<lparr>pthead := m (pthead e + 4)\<rparr>)"

lemma entry_sems [simp]:
  "ptssem (send_entry n e) = ptssem e" "ptrsem (send_entry n e) = ptrsem e" "ptstate (send_entry n e) = ptstate e"
  "ptssem (recv_entry m e) = ptssem e" "ptrsem (recv_entry m e) = ptrsem e" "ptstate (recv_entry m e) = ptstate e"
  by (simp_all add: send_entry_def recv_entry_def)

lemma send_mem_ok:
  assumes m: "port_mem m e ns ms" "node_chain m h (n # F)" and d: "set ns \<inter> set (n # F) = {}" "distinct (n # F)"
    and ap: "\<forall>a \<in> set ns \<union> set (n # F). \<forall>b \<in> set ns \<union> set (n # F). a \<noteq> b + 4"
  shows "port_mem (send_mem n x e m) (send_entry n e) (ns @ [n]) (ms @ [x])" and "node_chain (send_mem n x e m) (m (n + 4)) F"
    and "a \<noteq> n \<Longrightarrow> a \<notin> set ns \<Longrightarrow> send_mem n x e m (a + 4) = m (a + 4) \<or> a + 4 = n"
    and "a \<noteq> n \<Longrightarrow> (\<forall>b \<in> set ns \<union> set (n # F). a \<noteq> b + 4) \<Longrightarrow> send_mem n x e m a = m a"
proof -
  have c: "node_chain m (pthead e) ns" "distinct ns" "pttail e = (if ns = [] then NULL else last ns)" "map (ptmsg m) ns = ms"
    using m(1) by (auto simp: port_mem_def)
  have n: "n \<noteq> NULL" "n \<notin> set ns" "node_chain m (m (n + 4)) F" "n \<notin> set F" using m(2) d by (auto simp: ptnext_def)
  have tl: "pttail e = NULL \<longleftrightarrow> ns = []" using c(3) node_chain_not_NULL [OF c(1)] by (metis last_in_set)
  have tin: "ns \<noteq> [] \<Longrightarrow> pttail e \<in> set ns" using c(3) by simp
  have keep: "send_mem n x e m a = m a" if "a \<noteq> n" "\<forall>b \<in> set ns \<union> set (n # F). a \<noteq> b + 4" for a
    using that tl tin by (auto simp: send_mem_def Let_def)
  then show "a \<noteq> n \<Longrightarrow> (\<forall>b \<in> set ns \<union> set (n # F). a \<noteq> b + 4) \<Longrightarrow> send_mem n x e m a = m a" .
  have link: "send_mem n x e m (a + 4) = m (a + 4) \<or> a + 4 = n" if "a \<noteq> n" "a \<notin> set ns" for a
    using that tl tin by (auto simp: send_mem_def Let_def)
  then show "a \<noteq> n \<Longrightarrow> a \<notin> set ns \<Longrightarrow> send_mem n x e m (a + 4) = m (a + 4) \<or> a + 4 = n" .
  have "ptnext (send_mem n x e m) a = ptnext m a" if "a \<in> set F" for a
    using link [of a] that d ap n(4) unfolding ptnext_def by (metis Un_iff disjoint_iff list.set_intros)
  then show "node_chain (send_mem n x e m) (m (n + 4)) F" using node_chain_cong n(3) by blast
  have "ptmsg (send_mem n x e m) n = x" using tl tin ap by (auto simp: send_mem_def ptmsg_def Let_def)
  moreover have "ptmsg (send_mem n x e m) a = ptmsg m a" if "a \<in> set ns" for a
    using keep [of a] that n(2) ap unfolding ptmsg_def by blast
  ultimately have mp: "map (ptmsg (send_mem n x e m)) (ns @ [n]) = ms @ [x]" using c(4) by auto
  have "node_chain (send_mem n x e m) (pthead (send_entry n e)) (ns @ [n])"
  proof (cases "ns = []")
    case True
    then have "send_entry n e = e\<lparr>pttail := n, pthead := n\<rparr>" "send_mem n x e m = m(n + 4 := NULL, n := x)"
      using tl by (simp_all add: send_entry_def send_mem_def Let_def)
    moreover have "n + 4 \<noteq> n" using ap by auto
    ultimately show ?thesis using True n(1) by (simp add: ptnext_def)
  next
    case False
    have se: "pthead (send_entry n e) = pthead e" and
      sm: "send_mem n x e m = m(n + 4 := NULL, n := x, last ns + 4 := n)" using tl False c(3) by (simp_all add: send_entry_def send_mem_def Let_def)
    have "ptnext (send_mem n x e m) a = ptnext (m(n + 4 := NULL, last ns + 4 := n)) a" if "a \<in> set (ns @ [n])" for a
    proof -
      have "a + 4 \<noteq> n" using that ap by auto
      then show ?thesis unfolding sm ptnext_def by simp
    qed
    then show ?thesis unfolding se using node_chain_cong node_chain_snoc [OF c(1) False c(2) n(2,1)] by blast
  qed
  then show "port_mem (send_mem n x e m) (send_entry n e) (ns @ [n]) (ms @ [x])"
    using mp c(2) n(2) by (simp add: port_mem_def send_entry_def)
qed

lemma recv_mem_ok:
  assumes m: "port_mem m e (n # ns) (x # ms)" "node_chain m h F" and d: "set (n # ns) \<inter> set F = {}"
    and ap: "\<forall>a \<in> set (n # ns) \<union> set F. \<forall>b \<in> set (n # ns) \<union> set F. a \<noteq> b + 4"
  shows "pthead e = n" "m n = x" and "port_mem (m(n + 4 := h)) (recv_entry m e) ns ms" and "node_chain (m(n + 4 := h)) n (n # F)"
proof -
  have c: "pthead e = n" "n \<noteq> NULL" "node_chain m (m (n + 4)) ns" "distinct (n # ns)" "pttail e = last (n # ns)" "m n = x" "map (ptmsg m) ns = ms"
    using m(1) by (auto simp: port_mem_def ptnode_defs)
  show "pthead e = n" "m n = x" using c by simp_all
  have nx: "ptnext (m(n + 4 := h)) a = ptnext m a" if "a \<noteq> n" for a using that by (simp add: ptnext_def)
  have "node_chain (m(n + 4 := h)) h F = node_chain m h F" by (intro node_chain_cong nx) (use d in auto)
  then show "node_chain (m(n + 4 := h)) n (n # F)" using c(2) m(2) by (simp add: ptnext_def)
  have ch: "node_chain (m(n + 4 := h)) (m (n + 4)) ns" 
    using c(3,4) by (subst node_chain_cong [of ns _ m]) (auto intro!: nx)
  have mp: "map (ptmsg (m(n + 4 := h))) ns = ms" using c(7) ap by (auto simp: ptmsg_def)
  have "pthead e = pttail e \<longleftrightarrow> ns = []" using c(1,4,5) by (auto split: if_splits)
  then show "port_mem (m(n + 4 := h)) (recv_entry m e) ns ms"
    using ch mp c by (auto simp: port_mem_def recv_entry_def)
qed

lemma set_scount_kvm [simp]: "kvm (set_scount s c k) = kvm k" "currpid (set_scount s c k) = currpid k"
  by (simp_all add: set_scount_def upd_sem_def)

lemma node_writes:
  assumes "nodes_apart C N F" and "p \<in> dom C" and "a \<in> node_set C N F" and "a \<notin> set (N p)" and "a \<notin> set F"
  shows "b \<in> set (N p) \<union> set F \<Longrightarrow> a \<noteq> b \<and> a \<noteq> b + 4 \<and> a + 4 \<noteq> b"
  using assms unfolding nodes_apart_def node_set_def by blast

lemma ports_invD:
  assumes "ports_inv C N F s B" and "C p = Some c"
  shows "\<not> isbadport p" "ptstate (porttab s p) = PT_ALLOC" "port_mem (pmemory s) (porttab s p) (N p) (B p)"
    "port_sem (pkern s) (porttab s p) c (length (B p))" "set (N p) \<inter> set F = {}" "distinct F"
    "\<forall>a \<in> set (N p) \<union> set F. \<forall>b \<in> set (N p) \<union> set F. a \<noteq> b + 4"
proof -
  have na: "nodes_apart C N F" "p \<in> dom C" using assms by (auto simp: ports_inv_def)
  show "\<not> isbadport p" using assms by (fastforce simp: ports_inv_def isbadport_def)
  show "ptstate (porttab s p) = PT_ALLOC" "port_mem (pmemory s) (porttab s p) (N p) (B p)" "port_sem (pkern s) (porttab s p) c (length (B p))"
    using assms by (auto simp: ports_inv_def)
  show "set (N p) \<inter> set F = {}" "distinct F" using na by (auto simp: nodes_apart_def)
  show "\<forall>a \<in> set (N p) \<union> set F. \<forall>b \<in> set (N p) \<union> set F. a \<noteq> b + 4" using na unfolding nodes_apart_def node_set_def by blast
qed

lemma OK_not_SYSERR [simp]: "OK \<noteq> SYSERR"
  by (simp add: OK_def SYSERR_def)

lemma ptsend_rest_eq:
  assumes "ptstate (porttab s p) = PT_ALLOC" and "ptfree s = n" and "n \<noteq> NULL"
  and "ptseq (porttab s p) = seq"
  shows "ptsend_rest p x seq OK s =
    rbind (signal (ptrsem (porttab s p)) ((pkern s)\<lparr>kvm := (kvm (pkern s))\<lparr>vmem := send_mem n x (porttab s p) (pmemory s)\<rparr>\<rparr>))
      (\<lambda>(_, k). Ret (OK, s\<lparr>pkern := k, porttab := (porttab s)(p := send_entry n (porttab s p)), ptfree := pmemory s (n + 4)\<rparr>))"
  using assms by (cases s) (simp add: ptsend_rest_def Let_def set_pmemory_def upd_port_def ptnode_defs send_mem_def send_entry_def)

lemma ptrecv_rest_eq:
  assumes "ptstate (porttab s p) = PT_ALLOC" and "pthead (porttab s p) = n"
  and "ptseq (porttab s p) = seq"
  shows "ptrecv_rest p seq OK s =
    rbind (signal (ptssem (porttab s p)) ((pkern s)\<lparr>kvm := (kvm (pkern s))\<lparr>vmem := (pmemory s)(n + 4 := ptfree s)\<rparr>\<rparr>))
      (\<lambda>(_, k). Ret (pmemory s n, s\<lparr>pkern := k, porttab := (porttab s)(p := recv_entry (pmemory s) (porttab s p)), ptfree := n\<rparr>))"
  using assms by (cases s) (simp add: ptrecv_rest_def Let_def set_pmemory_def upd_port_def ptnode_defs recv_entry_def)

lemma ptsend_law:
  assumes r: "ports_rep C s B (Suc f)" and c: "C p = Some c" and len: "length (B p) < c"
  shows "\<exists>s'. ptsend p x s = Ret (Some OK, s') \<and> ports_rep C s' (B(p := B p @ [x])) f"
proof -
  obtain N F Q where i: "ports_inv C N F s B" "length F = Suc f" "kidle (pkern s) Q" "currpid (pkern s) \<noteq> NULLPROC"
    using r by (auto simp: ports_rep_def ports_inv_def)
  then obtain n F1 where F: "F = n # F1" by (cases F) auto
  let ?e = "porttab s p" and ?k = "pkern s" and ?m = "pmemory s"
  note D = ports_invD [OF i(1) c]
  have ps: "\<not> isbadsem (ptssem ?e)" "\<not> isbadsem (ptrsem ?e)" "sstate (semtab ?k (ptssem ?e)) \<noteq> S_FREE" "sstate (semtab ?k (ptrsem ?e)) \<noteq> S_FREE"
    "scount (semtab ?k (ptrsem ?e)) = int (length (B p))" "scount (semtab ?k (ptssem ?e)) = int c - int (length (B p))" "ptssem ?e \<noteq> ptrsem ?e" "c < 2 ^ 31"
    using D(4) by (auto simp: port_sem_def)
  have fr: "node_chain ?m (ptfree s) (n # F1)" using i(1) F by (simp add: ports_inv_def)
  note S = send_mem_ok [OF D(3) fr D(5-7) [unfolded F], where x = x]
  have pos: "0 < scount (semtab ?k (ptssem ?e))" using ps(6) len by simp
  note w = wait_free [OF i(3) ps(1,3) i(4) pos]
  define k1 where "k1 = (set_scount (ptssem ?e) (scount (semtab ?k (ptssem ?e)) - 1) ?k)\<lparr>kvm := (kvm ?k)\<lparr>vmem := send_mem n x ?e ?m\<rparr>\<rparr>"
  obtain Q1 where k1: "kidle k1 Q1" using w(2) kidle_kvm unfolding k1_def by blast
  have st1: "semtab k1 (ptrsem ?e) = semtab ?k (ptrsem ?e)" using ps(7) by (simp add: k1_def)
  have z: "0 \<le> scount (semtab k1 (ptrsem ?e))" "scount (semtab k1 (ptrsem ?e)) < 2 ^ 31 - 1" unfolding st1 ps(5) using len ps(8) by simp_all
  note g = signal_free [OF k1 ps(2) _ z, unfolded st1, OF ps(4)]
  define s' where "s' = s\<lparr>pkern := set_scount (ptrsem ?e) (scount (semtab ?k (ptrsem ?e)) + 1) k1, porttab := (porttab s)(p := send_entry n ?e), ptfree := ?m (n + 4)\<rparr>"
  have fn: "ptfree s = n" "n \<noteq> NULL" using fr by auto
  have run: "ptsend p x s = Ret (Some OK, s')"
    using D(1,2) w(1) g(1) fn
    by (simp add: ptsend_def ptsend_rest_eq k1_def [symmetric] s'_def)
  have mem': "pmemory s' = send_mem n x ?e ?m" by (simp add: s'_def k1_def)
  have apt: "nodes_apart C N F" "p \<in> dom C" using i(1) c by (auto simp: ports_inv_def)
  have "ports_inv (C(p := Some c)) (N(p := N p @ [n])) F1 s' (B(p := B p @ [x]))"
  proof (rule ports_inv_step [OF i(1) c])
    show "\<exists>Q. kidle (pkern s') Q" using g(2) by (simp add: s'_def)
    show "currpid (pkern s') \<noteq> NULLPROC" using i(4) by (simp add: s'_def k1_def)
    show "porttab s' = (porttab s)(p := send_entry n ?e)" by (simp add: s'_def)
    show "port_mem (pmemory s') (send_entry n ?e) (N p @ [n]) (B p @ [x])" unfolding mem' by (rule S(1))
    show "node_chain (pmemory s') (ptfree s') F1" unfolding mem' using S(2) by (simp add: s'_def)
    show "pmemory s' a = pmemory s a \<and> pmemory s' (a + 4) = pmemory s (a + 4)" if "a \<in> node_set C N F" "a \<notin> set (N p)" "a \<notin> set F" for a
      using node_writes [OF apt that] S(3) [where a = a] S(4) [where a = a] that F unfolding mem' by auto
    show "set (N p @ [n]) \<union> set F1 = set (N p) \<union> set F" "set (N p @ [n]) \<inter> set F1 = {}" "distinct F1"
      using F D(5,6) by auto
    show "port_sem (pkern s') (send_entry n ?e) c (length (B p @ [x]))"
      using ps len by (simp add: port_sem_def s'_def k1_def)
    show "semtab (pkern s') y = semtab (pkern s) y" if "y \<noteq> ptssem (send_entry n ?e)" "y \<noteq> ptrsem (send_entry n ?e)" for y
      using that by (simp add: s'_def k1_def)
  qed (use D(2) in simp_all)
  then show ?thesis using run F i(2) c by (auto simp: ports_rep_def fun_upd_idem)
qed

lemma ptrecv_law:
  assumes r: "ports_rep C s B f" and c: "C p = Some c" and b: "B p = x # xs"
  shows "\<exists>s'. ptrecv p s = Ret (Some x, s') \<and> ports_rep C s' (B(p := xs)) (Suc f)"
proof -
  obtain N F Q where i: "ports_inv C N F s B" "length F = f" "kidle (pkern s) Q" "currpid (pkern s) \<noteq> NULLPROC"
    using r by (auto simp: ports_rep_def ports_inv_def)
  let ?e = "porttab s p" and ?k = "pkern s" and ?m = "pmemory s"
  note D = ports_invD [OF i(1) c]
  obtain n ns where N: "N p = n # ns" using D(3) b by (cases "N p") (auto simp: port_mem_def)
  have ps: "\<not> isbadsem (ptssem ?e)" "\<not> isbadsem (ptrsem ?e)" "sstate (semtab ?k (ptssem ?e)) \<noteq> S_FREE" "sstate (semtab ?k (ptrsem ?e)) \<noteq> S_FREE"
    "scount (semtab ?k (ptrsem ?e)) = int (length (B p))" "scount (semtab ?k (ptssem ?e)) = int c - int (length (B p))" "ptssem ?e \<noteq> ptrsem ?e" "c < 2 ^ 31"
    "length (B p) \<le> c"
    using D(4) by (auto simp: port_sem_def)
  have fr: "node_chain ?m (ptfree s) F" using i(1) by (simp add: ports_inv_def)
  note S = recv_mem_ok [OF D(3) [unfolded N b] fr D(5,7) [unfolded N]]
  have pos: "0 < scount (semtab ?k (ptrsem ?e))" using ps(5) b by simp
  note w = wait_free [OF i(3) ps(2,4) i(4) pos]
  define k1 where "k1 = (set_scount (ptrsem ?e) (scount (semtab ?k (ptrsem ?e)) - 1) ?k)\<lparr>kvm := (kvm ?k)\<lparr>vmem := ?m(n + 4 := ptfree s)\<rparr>\<rparr>"
  obtain Q1 where k1: "kidle k1 Q1" using w(2) kidle_kvm unfolding k1_def by blast
  have st1: "semtab k1 (ptssem ?e) = semtab ?k (ptssem ?e)" using ps(7) by (simp add: k1_def)
  have z: "0 \<le> scount (semtab k1 (ptssem ?e))" "scount (semtab k1 (ptssem ?e)) < 2 ^ 31 - 1" unfolding st1 ps(6) using b ps(8,9) by simp_all
  note g = signal_free [OF k1 ps(1) _ z, unfolded st1, OF ps(3)]
  define s' where "s' = s\<lparr>pkern := set_scount (ptssem ?e) (scount (semtab ?k (ptssem ?e)) + 1) k1, porttab := (porttab s)(p := recv_entry ?m ?e), ptfree := n\<rparr>"
  have run: "ptrecv p s = Ret (Some x, s')"
    using D(1,2) w(1) g(1) S(1,2)
    by (simp add: ptrecv_def ptrecv_rest_eq k1_def [symmetric] s'_def)
  have mem': "pmemory s' = ?m(n + 4 := ptfree s)" by (simp add: s'_def k1_def)
  have apt: "nodes_apart C N F" "p \<in> dom C" using i(1) c by (auto simp: ports_inv_def)
  have "ports_inv (C(p := Some c)) (N(p := ns)) (n # F) s' (B(p := xs))"
  proof (rule ports_inv_step [OF i(1) c])
    show "\<exists>Q. kidle (pkern s') Q" using g(2) by (simp add: s'_def)
    show "currpid (pkern s') \<noteq> NULLPROC" using i(4) by (simp add: s'_def k1_def)
    show "porttab s' = (porttab s)(p := recv_entry ?m ?e)" by (simp add: s'_def)
    show "port_mem (pmemory s') (recv_entry ?m ?e) ns xs" unfolding mem' by (rule S(3))
    show "node_chain (pmemory s') (ptfree s') (n # F)" unfolding mem' using S(4) by (simp add: s'_def)
    show "pmemory s' a = pmemory s a \<and> pmemory s' (a + 4) = pmemory s (a + 4)" if "a \<in> node_set C N F" "a \<notin> set (N p)" "a \<notin> set F" for a
      using node_writes [OF apt that, of n] N unfolding mem' by simp
    show "set ns \<union> set (n # F) = set (N p) \<union> set F" "set ns \<inter> set (n # F) = {}" "distinct (n # F)"
      using N D(3,5,6) by (auto simp: port_mem_def)
    show "port_sem (pkern s') (recv_entry ?m ?e) c (length xs)"
      using ps b by (simp add: port_sem_def s'_def k1_def)
    show "semtab (pkern s') y = semtab (pkern s) y" if "y \<noteq> ptssem (recv_entry ?m ?e)" "y \<noteq> ptrsem (recv_entry ?m ?e)" for y
      using that by (simp add: s'_def k1_def)
  qed (use D(2) in simp_all)
  then have "ports_rep C s' (B(p := xs)) (Suc f)" using i(2) c unfolding ports_rep_def by (intro exI [of _ "N(p := ns)"] exI [of _ "n # F"]) (simp add: fun_upd_idem)
  then show ?thesis using run by blast
qed

interpretation xports: message_ports ptsend ptrecv "ports_rep C" C for C
  by unfold_locales (fact ptsend_law, fact ptrecv_law)

section \<open>Setting up\<close>

lemma node_list_ok:
  assumes ok: "block_ok (a, l)" and le: "8 * n \<le> unat l"
  shows "distinct (map (nth_buf a 8) [0..<n])" and "\<And>i. i < n \<Longrightarrow> nth_buf a 8 i \<in> bytes (a, l) \<and> nth_buf a 8 i + 4 \<in> bytes (a, l)"
    and "\<And>i. i < n \<Longrightarrow> nth_buf a 8 i \<noteq> NULL"
    and "\<And>i j. i < n \<Longrightarrow> j < n \<Longrightarrow> nth_buf a 8 i \<noteq> nth_buf a 8 j + 4"
proof -
  have S: "unat (8 :: u32) * n \<le> unat l" "0 < unat (8 :: u32)" using le by simp_all
  note b = buffers_in_block [OF ok S]
  show "distinct (map (nth_buf a 8) [0..<n])" using b(4) by (auto simp: distinct_map inj_on_def)
  have hi: "unat a + unat l < 2 ^ 32" using ok by (simp add: block_ok_def)
  have u: "unat (nth_buf a 8 i) = unat a + 8 * i" if "i < n" for i using b(1) [OF that] by simp
  have u4: "unat (nth_buf a 8 i + 4) = unat a + 8 * i + 4" if "i < n" for i
  proof -
    have "unat (nth_buf a 8 i) + unat (4 :: u32) < 2 ^ 32" using u [OF that] that le hi by simp
    then show ?thesis using u [OF that] by (simp add: unat_word_ariths)
  qed
  show "\<And>i. i < n \<Longrightarrow> nth_buf a 8 i \<in> bytes (a, l) \<and> nth_buf a 8 i + 4 \<in> bytes (a, l)"
    using u u4 le unfolding bytes_def by simp
  show "\<And>i. i < n \<Longrightarrow> nth_buf a 8 i \<noteq> NULL" by (rule b(3))
  fix i j
  assume "i < n" "j < n"
  then have "unat (nth_buf a 8 i) \<noteq> unat (nth_buf a 8 j + 4)" using u u4 by presburger
  then show "nth_buf a 8 i \<noteq> nth_buf a 8 j + 4" by metis
qed

lemma link_nodes_frame: "(\<And>i. i \<le> n \<Longrightarrow> x \<noteq> nth_buf a 8 i + 4) \<Longrightarrow> link_nodes n a m x = m x"
proof (induction n arbitrary: a m)
  case 0
  then show ?case using 0 [of 0] by (simp add: nth_buf_simps ptnode_defs)
next
  case (Suc n)
  have "x \<noteq> a + 4" using Suc.prems [of 0] by (simp add: nth_buf_simps)
  moreover have "x \<noteq> nth_buf (a + 8) 8 i + 4" if "i \<le> n" for i using Suc.prems [of "Suc i"] that by (simp add: nth_buf_simps)
  ultimately show ?case using Suc.IH [of "a + 8"] by (simp add: ptnode_defs)
qed

lemma link_nodes_chain:
  assumes "\<And>i j. i \<le> n \<Longrightarrow> j \<le> n \<Longrightarrow> nth_buf a 8 i = nth_buf a 8 j \<Longrightarrow> i = j" and "\<And>i. i \<le> n \<Longrightarrow> nth_buf a 8 i \<noteq> NULL"
  shows "node_chain (link_nodes n a m) a (map (nth_buf a 8) [0..<Suc n])"
  using assms
proof (induction n arbitrary: a m)
  case 0
  then show ?case using "0.prems"(2) [of 0] by (simp add: nth_buf_simps ptnode_defs)
next
  case (Suc n)
  let ?m = "set_ptnext a (a + 8) m"
  have ih: "node_chain (link_nodes n (a + 8) ?m) (a + 8) (map (nth_buf (a + 8) 8) [0..<Suc n])"
  proof (rule Suc.IH)
    show "i = j" if "i \<le> n" "j \<le> n" "nth_buf (a + 8) 8 i = nth_buf (a + 8) 8 j" for i j
      using Suc.prems(1) [of "Suc i" "Suc j"] that by (simp add: nth_buf_simps)
    show "nth_buf (a + 8) 8 i \<noteq> NULL" if "i \<le> n" for i using Suc.prems(2) [of "Suc i"] that by (simp add: nth_buf_simps)
  qed
  have "a + 4 \<noteq> nth_buf (a + 8) 8 i + 4" if "i \<le> n" for i
    using Suc.prems(1) [of 0 "Suc i"] that by (auto simp: nth_buf_simps)
  then have "link_nodes n (a + 8) ?m (a + 4) = a + 8" using link_nodes_frame [of n "a + 4" "a + 8" ?m] by (simp add: ptnode_defs)
  moreover have "a \<noteq> NULL" using Suc.prems(2) [of 0] by (simp add: nth_buf_simps)
  moreover have eq: "map (nth_buf a 8) [0..<Suc (Suc n)] = a # map (nth_buf (a + 8) 8) [0..<Suc n]"
    by (simp only: upt_conv_Cons [of 0 "Suc (Suc n)"] map_Suc_upt [symmetric] list.map map_map comp_def nth_buf_simps(1) zero_less_Suc)
      (simp add: nth_buf_simps del: upt_Suc)
  ultimately show ?case unfolding eq using ih by (simp add: ptnext_def del: upt_Suc)
qed

lemma ptinit_ok:
  assumes k: "kidle (pkern s) Q" "currpid (pkern s) \<noteq> NULLPROC" and h: "heap_inv (kvm (pkern s)) bs" and n: "1 \<le> n" "n < 2 ^ 29"
    and blk: "\<exists>c \<in> set bs. 8 * n \<le> unat (snd c)"
  shows "\<exists>s' bs'. ptinit (int n) s = Ret (OK, s') \<and> ports_rep Map.empty s' B n \<and> heap_inv (kvm (pkern s')) bs' \<and> ptnextid s' = 0 \<and>
    (\<forall>q \<in> {0..<NPORTS}. ptstate (porttab s' q) = PT_FREE) \<and> semtab (pkern s') = semtab (pkern s) \<and> nextsem (pkern s') = nextsem (pkern s) \<and>
    kidle (pkern s') Q"
proof -
  let ?v = "kvm (pkern s)" and ?nb = "word_of_int (int n) * 8 :: u32"
  have nb: "?nb = of_nat (8 * n)" by simp
  have u: "unat ?nb = 8 * n" unfolding nb using n(2) by (intro unat_of_nat_u32) simp
  have n0: "?nb \<noteq> 0" "unat ?nb \<le> 2 ^ 32 - 8" using u n by (auto simp: unat_eq_zero [symmetric])
  have rm: "unat (roundmb ?nb) = 8 * n" using unat_roundmb [OF n0(2)] u by simp
  obtain a m bs' where g: "getmem (memlist ?v) ?nb (vmem ?v) = Ret (a, m)" "heap_inv (?v\<lparr>vmem := m\<rparr>) bs'" "block_ok (a, roundmb ?nb)"
    "bytes (a, roundmb ?nb) \<subseteq> region bs" "region bs' = region bs - bytes (a, roundmb ?nb)" "a \<noteq> USYSERR"
    using getmem_block [OF h n0] blk rm by metis
  note L = node_list_ok [OF g(3), of n, unfolded rm, OF order_refl]
  define M where "M = link_nodes (n - 1) a m"
  define s' where "s' = s\<lparr>pkern := (pkern s)\<lparr>kvm := ?v\<lparr>vmem := M\<rparr>\<rparr>, porttab := (\<lambda>i. if 0 \<le> i \<and> i < NPORTS then (porttab s i)\<lparr>ptstate := PT_FREE, ptseq := 0\<rparr> else porttab s i),
    ptfree := a, ptnextid := 0\<rparr>"
  have nm: "nat (int n - 1) = n - Suc 0" by simp
  have run: "ptinit (int n) s = Ret (OK, s')"
    using g(1,6) nm by (auto simp: ptinit_def Let_def set_pmemory_def s'_def M_def cong: if_cong intro!: ports.equality)
  have "node_chain M a (map (nth_buf a 8) [0..<n])"
    using link_nodes_chain [of "n - 1" a m] L(1,3) n(1) by (simp add: M_def Suc_le_eq distinct_map inj_on_def del: upt_Suc)
  moreover have kk: "kidle (pkern s') Q" using kidle_kvm [OF k(1)] by (simp add: s'_def)
  ultimately have "ports_inv Map.empty (\<lambda>_. []) (map (nth_buf a 8) [0..<n]) s' B"
    using k(2) L(1,4) by (auto simp: ports_inv_def s'_def nodes_apart_def node_set_def sems_apart_def)
  then have "ports_rep Map.empty s' B n" unfolding ports_rep_def by fastforce
  moreover have "M x = m x" if "x \<notin> bytes (a, roundmb ?nb)" for x
    unfolding M_def by (rule link_nodes_frame) (use that L(2) n(1) in \<open>auto simp: Suc_le_eq\<close>)
  then have "heap_inv (?v\<lparr>vmem := M\<rparr>) bs'" by (rule heap_inv_writes [OF h g(2,4,5)])
  ultimately show ?thesis using run kk by (intro exI [of _ s'] exI [of _ bs']) (simp add: s'_def)
qed

lemma newsem_loop_other: "newsem_loop n k = (s, k') \<Longrightarrow> x \<noteq> s \<Longrightarrow> semtab k' x = semtab k x"
  by (induction n arbitrary: k) (auto simp: Let_def upd_sem_def split: if_splits)

lemma semcreate_other: "semcreate c k = (s, k') \<Longrightarrow> x \<noteq> s \<Longrightarrow> semtab k' x = semtab k x"
  using newsem_loop_other
  by (fastforce simp: semcreate_def newsem_def set_scount_def upd_sem_def split: if_splits prod.splits)

definition free_sems :: "nat \<Rightarrow> kernel \<Rightarrow> (int \<Rightarrow> int list) \<Rightarrow> bool" where
  "free_sems n k Q \<longleftrightarrow> 0 \<le> nextsem k \<and> nextsem k < NSEM \<and> n \<le> card {x \<in> {0..<NSEM}. sstate (semtab k x) = S_FREE} \<and>
    (\<forall>x \<in> {0..<NSEM}. sstate (semtab k x) = S_FREE \<longrightarrow> Q (squeue (semtab k x)) = [])"

lemma semcreate_new:
  assumes k: "kidle k Q" and f: "free_sems (Suc n) k Q" and c: "0 \<le> c" "c < 2 ^ 31"
  shows "\<exists>x k'. semcreate c k = (x, k') \<and> kidle k' Q \<and> free_sems n k' Q \<and> \<not> isbadsem x \<and> sstate (semtab k x) = S_FREE \<and>
    sstate (semtab k' x) = S_USED \<and> scount (semtab k' x) = c \<and> (\<forall>y. y \<noteq> x \<longrightarrow> semtab k' y = semtab k y) \<and> kvm k' = kvm k \<and> currpid k' = currpid k"
proof -
  let ?A = "\<lambda>k. {x \<in> {0..<NSEM}. sstate (semtab k x) = S_FREE}"
  have fin: "finite (?A k)" for k :: kernel by (rule finite_subset [of _ "{0..<NSEM}"]) auto
  have "card (?A k) \<noteq> 0" using f by (auto simp: free_sems_def)
  then have ex: "\<exists>x \<in> {0..<NSEM}. sstate (semtab k x) = S_FREE" by (metis (mono_tags, lifting) Collect_empty_eq card.empty)
  obtain x k' where s: "semcreate c k = (x, k')" "kidle k' Q" "0 \<le> nextsem k'" "nextsem k' < NSEM" "\<not> isbadsem x" "sstate (semtab k x) = S_FREE"
    "sstate (semtab k' x) = S_USED" "scount (semtab k' x) = c"
    using semcreate_kidle [OF k _ _ c] f ex unfolding free_sems_def by auto
  have o: "semtab k' y = semtab k y" if "y \<noteq> x" for y using semcreate_other [OF s(1) that] .
  have "x \<in> {0..<NSEM}" using s(5) by (auto simp: isbadsem_def)
  then have A: "?A k' = ?A k - {x}" "x \<in> ?A k" using s(6,7) o by (auto, metis sem_state.distinct(1))
  have "Suc n \<le> card (?A k)" using f by (simp add: free_sems_def)
  then have "n \<le> card (?A k')" unfolding A(1) card_Diff_singleton [OF A(2)] by linarith
  moreover have "Q (squeue (semtab k' y)) = []" if "y \<in> {0..<NSEM}" "sstate (semtab k' y) = S_FREE" for y
    using that f o [of y] s(7) unfolding free_sems_def by (cases "y = x") auto
  ultimately have "free_sems n k' Q" using s(3,4) by (simp add: free_sems_def)
  then show ?thesis using s o semcreate_kvm [OF s(1)] by blast
qed

lemma ptcreate_loop_finds:
  assumes "0 \<le> ptnextid s" and "ptnextid s < NPORTS" and "\<exists>i < n. ptstate (porttab s ((ptnextid s + int i) mod NPORTS)) = PT_FREE"
  shows "\<exists>q \<in> {0..<NPORTS}. ptstate (porttab s q) = PT_FREE \<and> ptcreate_loop n cnt s = ptcreate_entry q cnt (s\<lparr>ptnextid := (q + 1) mod NPORTS\<rparr>)"
  using assms
proof (induction n arbitrary: s)
  case (Suc n)
  let ?q = "ptnextid s" and ?s = "s\<lparr>ptnextid := (ptnextid s + 1) mod NPORTS\<rparr>"
  have wrap: "(if ?q + 1 \<ge> NPORTS then s\<lparr>ptnextid := 0\<rparr> else s\<lparr>ptnextid := ?q + 1\<rparr>) = ?s"
  proof (cases "?q + 1 = NPORTS")
    case False
    then show ?thesis using Suc.prems(1,2) by simp
  qed simp
  have step: "ptcreate_loop (Suc n) cnt s = (if ptstate (porttab s ?q) = PT_FREE then ptcreate_entry ?q cnt ?s else ptcreate_loop n cnt ?s)"
    using wrap by (auto simp: Let_def split: if_splits)
  show ?case
  proof (cases "ptstate (porttab s ?q) = PT_FREE")
    case False
    have q0: "?q mod NPORTS = ?q" using Suc.prems(1,2) by simp
    obtain i where i: "i < Suc n" "ptstate (porttab s ((?q + int i) mod NPORTS)) = PT_FREE" using Suc.prems(3) by blast
    then obtain j where j: "i = Suc j" using False q0 by (cases i) auto
    have "(ptnextid ?s + int j) mod NPORTS = (?q + int i) mod NPORTS" using j by (simp add: mod_simps algebra_simps)
    then have "\<exists>j < n. ptstate (porttab ?s ((ptnextid ?s + int j) mod NPORTS)) = PT_FREE" using i j by auto
    moreover have "0 \<le> ptnextid ?s" "ptnextid ?s < NPORTS" by (simp_all add: NPORTS_def)
    ultimately show ?thesis using Suc.IH [of ?s] False step by simp
  qed (use Suc.prems step in auto)
qed simp

lemma ptcreate_ok:
  assumes r: "ports_rep C s B f" and k: "kidle (pkern s) Q" "free_sems (Suc (Suc n)) (pkern s) Q" and id: "0 \<le> ptnextid s" "ptnextid s < NPORTS"
    and fr: "q0 \<in> {0..<NPORTS}" "ptstate (porttab s q0) = PT_FREE" and c: "c < 2 ^ 31"
  shows "\<exists>p s'. ptcreate (int c) s = (p, s') \<and> p \<in> {0..<NPORTS} \<and> C p = None \<and> ports_rep (C(p := Some c)) s' (B(p := [])) f \<and>
    ptmaxcnt (porttab s' p) = word_of_nat c \<and> kidle (pkern s') Q \<and> free_sems n (pkern s') Q \<and> 0 \<le> ptnextid s' \<and> ptnextid s' < NPORTS"
proof -
  have "\<exists>i < nat NPORTS. ptstate (porttab s ((ptnextid s + int i) mod NPORTS)) = PT_FREE"
    using fr id by (intro exI [of _ "nat ((q0 - ptnextid s) mod NPORTS)"]) (simp add: NPORTS_def mod_simps)
  then obtain p where p: "p \<in> {0..<NPORTS}" "ptstate (porttab s p) = PT_FREE" "ptcreate (int c) s = ptcreate_entry p (int c) (s\<lparr>ptnextid := (p + 1) mod NPORTS\<rparr>)"
    using ptcreate_loop_finds [OF id, of "nat NPORTS" "int c"] by (auto simp: ptcreate_def)
  obtain x k1 where s1: "semcreate (int c) (pkern s) = (x, k1)" "kidle k1 Q" "free_sems (Suc n) k1 Q" "\<not> isbadsem x" "sstate (semtab (pkern s) x) = S_FREE"
    "sstate (semtab k1 x) = S_USED" "scount (semtab k1 x) = int c" "\<forall>y. y \<noteq> x \<longrightarrow> semtab k1 y = semtab (pkern s) y" "kvm k1 = kvm (pkern s)" "currpid k1 = currpid (pkern s)"
    using semcreate_new [OF k, of "int c"] c by auto
  obtain y k2 where s2: "semcreate 0 k1 = (y, k2)" "kidle k2 Q" "free_sems n k2 Q" "\<not> isbadsem y" "sstate (semtab k1 y) = S_FREE"
    "sstate (semtab k2 y) = S_USED" "scount (semtab k2 y) = 0" "\<forall>z. z \<noteq> y \<longrightarrow> semtab k2 z = semtab k1 z" "kvm k2 = kvm k1" "currpid k2 = currpid k1"
    using semcreate_new [OF s1(2,3), of 0] by auto
  have xy: "x \<noteq> y" "sstate (semtab (pkern s) y) = S_FREE" using s1(6,8) s2(5) by (metis sem_state.distinct(1))+
  define e where "e = (porttab s p)\<lparr>ptstate := PT_ALLOC, ptssem := x, ptrsem := y, pthead := NULL, pttail := NULL, ptseq := wrap32 (ptseq (porttab s p) + 1), ptmaxcnt := word_of_nat c\<rparr>"
  define s' where "s' = s\<lparr>pkern := k2, porttab := (porttab s)(p := e), ptnextid := (p + 1) mod NPORTS\<rparr>"
  have run: "ptcreate (int c) s = (p, s')"
    using s1(1) s2(1) unfolding p(3) by (cases s) (simp add: ptcreate_entry_def Let_def upd_port_def e_def s'_def)
  obtain N F where i: "ports_inv C N F s B" "length F = f" using r by (auto simp: ports_rep_def)
  have new: "C p = None" using i(1) p(2) by (cases "C p") (auto simp: ports_inv_def)
  have old: "porttab s' q = porttab s q" "port_sem k2 (porttab s q) cq (length (B q))" "{ptssem (porttab s q), ptrsem (porttab s q)} \<inter> {x, y} = {}" if "C q = Some cq" for q cq
  proof -
    have ps: "port_sem (pkern s) (porttab s q) cq (length (B q))" using i(1) that by (simp add: ports_inv_def)
    then show d: "{ptssem (porttab s q), ptrsem (porttab s q)} \<inter> {x, y} = {}" using s1(5) xy(2) by (auto simp: port_sem_def)
    then show "port_sem k2 (porttab s q) cq (length (B q))" using ps s1(8) s2(8) by (simp add: port_sem_def)
    show "porttab s' q = porttab s q" using that new by (auto simp: s'_def)
  qed
  have d: "dom (C(p := Some c)) = insert p (dom C)" "p \<notin> dom C" using new by auto
  have ns: "node_set (C(p := Some c)) (N(p := [])) F = node_set C N F"
  proof -
    have "(\<Union>q \<in> dom C. set ((N(p := [])) q)) = (\<Union>q \<in> dom C. set (N q))" by (rule SUP_cong) (use d(2) in auto)
    then show ?thesis unfolding node_set_def d(1) by simp
  qed
  have "nodes_apart C N F" using i(1) by (simp add: ports_inv_def)
  then have "nodes_apart (C(p := Some c)) (N(p := [])) F" unfolding nodes_apart_def ns d(1) by auto
  moreover have "sems_apart (C(p := Some c)) (porttab s')"
  proof -
    let ?S = "\<lambda>t q. {ptssem (t q), ptrsem (t q)}"
    have o: "?S (porttab s') q = ?S (porttab s) q" "?S (porttab s) q \<inter> ?S (porttab s') p = {}" if dq: "q \<in> dom C" for q
    proof -
      have xy: "ptssem (porttab s' p) = x" "ptrsem (porttab s' p) = y" by (simp_all add: s'_def e_def)
      obtain cq where "C q = Some cq" using dq by blast
      then show "?S (porttab s') q = ?S (porttab s) q" "?S (porttab s) q \<inter> ?S (porttab s') p = {}" unfolding xy using old by simp_all
    qed
    have "?S (porttab s) a \<inter> ?S (porttab s) b = {}" if "a \<in> dom C" "b \<in> dom C" "a \<noteq> b" for a b
      using i(1) that by (simp add: ports_inv_def sems_apart_def)
    then have "?S (porttab s') a \<inter> ?S (porttab s') b = {}" if "a \<in> insert p (dom C)" "b \<in> insert p (dom C)" "a \<noteq> b" for a b
      using that o by (metis Int_commute insertE)
    then show ?thesis unfolding sems_apart_def d(1) by blast
  qed
  moreover have "port_mem (pmemory s') (porttab s' p) [] [] \<and> ptstate (porttab s' p) = PT_ALLOC \<and> port_sem k2 (porttab s' p) c 0"
    using s1(4,6,7) s2(4,6-8) xy(1) c by (simp add: port_mem_def port_sem_def s'_def e_def)
  moreover have mem': "pmemory s' = pmemory s" using s1(9) s2(9) by (simp add: s'_def)
  ultimately have "ports_inv (C(p := Some c)) (N(p := [])) F s' (B(p := []))"
    using i(1) old(1,2) s1(10) s2(2,10) p(1) unfolding ports_inv_def mem' d(1) by (auto simp: s'_def split: if_splits)
  then have "ports_rep (C(p := Some c)) s' (B(p := [])) f" using i(2) unfolding ports_rep_def by blast
  then show ?thesis using run p(1) new s2(2,3) by (intro exI [of _ p] exI [of _ s']) (simp add: s'_def e_def NPORTS_def)
qed

section \<open>Resetting a port\<close>

lemma semreset_free:
  assumes k: "kidle k Q" and s: "\<not> isbadsem x" "sstate (semtab k x) \<noteq> S_FREE" "0 \<le> scount (semtab k x)" and c: "0 \<le> c" "c < 2 ^ 31"
  shows "semreset x c k = Ret (OK, (set_scount x c k)\<lparr>attempt := False\<rparr>)" and "\<exists>Q'. kidle ((set_scount x c k)\<lparr>attempt := False\<rparr>) Q'"
proof -
  let ?q = "squeue (semtab k x)"
  have kk: "kinv k Q" "ndefers k = 0" "sem_counts k Q" using k by (simp_all add: kidle_def)
  have "x \<in> {0..<NSEM}" using s(1) by (auto simp: isbadsem_def)
  then have "int (length (Q ?q)) = max 0 (- scount (semtab k x))" using kk(3) unfolding sem_counts_def by blast
  then have "Q ?q = []" using s(3) by simp
  then have "queue_rep (queuetab k) ?q []"
    using queues_rep [of "qids k" "queuetab k" Q ?q] squeue_qids [OF s(1), of k] kk(1) by (simp add: kinv_def kbase_def)
  then have l: "semreset_loop ?q (k\<lparr>attempt := False, ndefers := 1\<rparr>) = Some (Ret (k\<lparr>attempt := False, ndefers := 1\<rparr>))"
    using getfirst_empty by (subst semreset_loop.simps) simp
  show run: "semreset x c k = Ret (OK, (set_scount x c k)\<lparr>attempt := False\<rparr>)"
    using s c kk(2) l defer_start(1) [OF kk(1,2)]
    by (cases k) (simp add: semreset_def Let_def resched_cntl_def DEFER_START_def DEFER_STOP_def set_scount_def upd_sem_def)
  show "\<exists>Q'. kidle ((set_scount x c k)\<lparr>attempt := False\<rparr>) Q'" using semreset_kidle [OF k s(1,2) c] run by auto
qed

lemma dispose_loop_ok:
  assumes d: "\<And>x s. \<exists>r. d x s = Ret (r, s)"
  shows "node_chain (pmemory s) h ns \<Longrightarrow> dispose_loop d h s = Some (Ret s)"
proof (induction ns arbitrary: h)
  case Nil
  then show ?case by (subst dispose_loop.simps) simp
next
  case (Cons a ns)
  obtain r where "d (ptmsg (pmemory s) h) s = Ret (r, s)" using d by blast
  then show ?case using Cons by (subst dispose_loop.simps) simp
qed

lemma node_chain_join:
  "node_chain m h ns \<Longrightarrow> ns \<noteq> [] \<Longrightarrow> distinct ns \<Longrightarrow> node_chain m g F \<Longrightarrow> set ns \<inter> set F = {} \<Longrightarrow> node_chain (m(last ns + 4 := g)) h (ns @ F)"
proof (induction ns arbitrary: h)
  case (Cons a ns)
  let ?m = "m(last (a # ns) + 4 := g)"
  show ?case
  proof (cases "ns = []")
    case True
    have "ptnext ?m b = ptnext m b" if "b \<in> set F" for b using that Cons.prems(5) True by (auto simp: ptnext_def)
    then have "node_chain ?m g F" using Cons.prems(4) node_chain_cong by blast
    moreover have "ptnext ?m a = g" using True by (simp add: ptnext_def)
    ultimately show ?thesis using Cons.prems(1) True by (metis append_Cons append_Nil node_chain.simps(2))
  next
    case False
    have "distinct ns" "set ns \<inter> set F = {}" "node_chain m (ptnext m a) ns" "h = a \<and> a \<noteq> NULL" using Cons.prems by auto
    moreover from this have "node_chain (m(last ns + 4 := g)) (ptnext m a) (ns @ F)" by (intro Cons.IH False Cons.prems(4))
    moreover have "ptnext ?m a = ptnext m a" "last (a # ns) = last ns" using False Cons.prems(3) by (auto simp: ptnext_def)
    ultimately show ?thesis by (metis append_Cons node_chain.simps(2))
  qed
qed simp

definition reset_entry :: "ptentry \<Rightarrow> ptentry" where
  "reset_entry e = e\<lparr>ptseq := wrap32 (ptseq e + 1), pttail := NULL, pthead := NULL, ptstate := PT_ALLOC\<rparr>"

definition reset_mem :: "ptentry \<Rightarrow> addr \<Rightarrow> mem \<Rightarrow> mem" where
  "reset_mem e g m = (if pthead e = NULL then m else m(pttail e + 4 := g))"

lemma ptreset_eq:
  assumes d: "\<And>x s. \<exists>r. d x s = Ret (r, s)" and p: "\<not> isbadport p" "ptstate (porttab s p) = PT_ALLOC"
    and ch: "node_chain (pmemory s) (pthead (porttab s p)) ns"
    and k1: "semreset (ptssem (porttab s p)) (uint (ptmaxcnt (porttab s p))) ((pkern s)\<lparr>kvm := (kvm (pkern s))\<lparr>vmem := reset_mem (porttab s p) (ptfree s) (pmemory s)\<rparr>\<rparr>) = Ret (OK, k1)"
    and k2: "semreset (ptrsem (porttab s p)) 0 k1 = Ret (OK, k2)" and cp: "currpid k1 = currpid (pkern s)" "currpid k2 = currpid k1"
  shows "ptreset p d s = Ret (Some OK, s\<lparr>pkern := k2, porttab := (porttab s)(p := reset_entry (porttab s p)),
    ptfree := (if pthead (porttab s p) = NULL then ptfree s else pthead (porttab s p))\<rparr>)"
proof -
  let ?f = "\<lambda>e :: ptentry. e\<lparr>ptstate := PT_LIMBO, ptseq := wrap32 (ptseq e + 1)\<rparr>"
  have dl: "dispose_loop d (pthead (porttab s p)) (upd_port p ?f s) = Some (Ret (upd_port p ?f s))"
    by (rule dispose_loop_ok [OF d]) (use ch in \<open>simp add: upd_port_def\<close>)
  have hd: "pthead (porttab (upd_port p ?f s) p) = pthead (porttab s p)" by (simp add: upd_port_def)
  show ?thesis
  proof (cases "pthead (porttab s p) = NULL")
    case True
    then show ?thesis using p k1 k2 cp
      by (cases s) (simp add: ptreset_def ptclear_def ptclear_senders_def ptclear_receivers_def ptclear_done_def Let_def upd_port_def
          reset_mem_def reset_entry_def)
  next
    case False
    then show ?thesis using p k1 k2 cp unfolding ptreset_def ptclear_def Let_def hd dl
      by (cases s) (simp add: ptclear_senders_def ptclear_receivers_def ptclear_done_def Let_def upd_port_def set_pmemory_def
        reset_mem_def reset_entry_def ptnode_defs)
  qed
qed

lemma ptreset_ok:
  assumes r: "ports_rep C s B f" and c: "C p = Some c" and d: "\<And>x s. \<exists>r. d x s = Ret (r, s)"
  shows "\<exists>s'. ptreset p d s = Ret (Some OK, s') \<and> ports_rep (C(p := Some (unat (ptmaxcnt (porttab s p))))) s' (B(p := [])) (f + length (B p))"
proof -
  obtain N F Q where i: "ports_inv C N F s B" "length F = f" "kidle (pkern s) Q" "currpid (pkern s) \<noteq> NULLPROC"
    using r by (auto simp: ports_rep_def ports_inv_def)
  let ?e = "porttab s p" and ?k = "pkern s" and ?m = "pmemory s"
  let ?M = "reset_mem ?e (ptfree s) ?m"
  let ?x = "ptssem ?e" and ?y = "ptrsem ?e" and ?c = "uint (ptmaxcnt ?e)"
  note D = ports_invD [OF i(1) c]
  have ps: "\<not> isbadsem ?x" "\<not> isbadsem ?y" "sstate (semtab ?k ?x) \<noteq> S_FREE" "sstate (semtab ?k ?y) \<noteq> S_FREE"
    "scount (semtab ?k ?y) = int (length (B p))" "0 \<le> scount (semtab ?k ?x)" "?x \<noteq> ?y"
    using D(4) by (auto simp: port_sem_def)
  have ch: "node_chain ?m (pthead ?e) (N p)" "distinct (N p)" "pttail ?e = (if N p = [] then NULL else last (N p))" "length (N p) = length (B p)"
    using D(3) by (auto simp: port_mem_def dest: arg_cong [of _ _ length])
  have fr: "node_chain ?m (ptfree s) F" using i(1) by (simp add: ports_inv_def)
  have hn: "pthead ?e = NULL \<longleftrightarrow> N p = []" using node_chain_NULL [OF ch(1)] .
  have c16: "0 \<le> ?c" "?c < 2 ^ 31" using uint_bounded [of "ptmaxcnt ?e"] by auto
  have um: "int (unat (ptmaxcnt ?e)) = ?c" "unat (ptmaxcnt ?e) < 2147483648" using unsigned_less [of "ptmaxcnt ?e", where 'a = nat] by simp_all
  define k0 where "k0 = ?k\<lparr>kvm := (kvm ?k)\<lparr>vmem := ?M\<rparr>\<rparr>"
  have k0: "kidle k0 Q" "semtab k0 = semtab ?k" using kidle_kvm [OF i(3)] by (simp_all add: k0_def)
  define k1 where "k1 = (set_scount ?x ?c k0)\<lparr>attempt := False\<rparr>"
  have r1: "semreset ?x ?c k0 = Ret (OK, k1)" "\<exists>Q. kidle k1 Q" using semreset_free [OF k0(1) ps(1) _ _ c16] ps(3,6) unfolding k0(2) k1_def by simp_all
  then obtain Q1 where Q1: "kidle k1 Q1" by blast
  define k2 where "k2 = (set_scount ?y 0 k1)\<lparr>attempt := False\<rparr>"
  have st1: "semtab k1 ?y = semtab ?k ?y" using ps(7) k0(2) by (simp add: k1_def)
  have r2: "semreset ?y 0 k1 = Ret (OK, k2)" "\<exists>Q. kidle k2 Q" using semreset_free [OF Q1 ps(2), of 0] ps(4,5) unfolding st1 k2_def by simp_all
  define s' where "s' = s\<lparr>pkern := k2, porttab := (porttab s)(p := reset_entry ?e), ptfree := (if pthead ?e = NULL then ptfree s else pthead ?e)\<rparr>"
  have run: "ptreset p d s = Ret (Some OK, s')" unfolding s'_def
    by (rule ptreset_eq [OF d D(1,2) ch(1) r1(1) [unfolded k0_def] r2(1)]) (simp_all add: k0_def k1_def k2_def)
  have mem': "pmemory s' = ?M" by (simp add: s'_def k2_def k1_def k0_def)
  have apt: "nodes_apart C N F" "p \<in> dom C" using i(1) c by (auto simp: ports_inv_def)
  have "ports_inv (C(p := Some (unat (ptmaxcnt ?e)))) (N(p := [])) (N p @ F) s' (B(p := []))"
  proof (rule ports_inv_step [OF i(1) c])
    show "\<exists>Q. kidle (pkern s') Q" using r2(2) by (simp add: s'_def)
    show "currpid (pkern s') \<noteq> NULLPROC" using i(4) by (simp add: s'_def k2_def k1_def k0_def)
    show "porttab s' = (porttab s)(p := reset_entry ?e)" by (simp add: s'_def)
    show "ptssem (reset_entry ?e) = ?x" "ptrsem (reset_entry ?e) = ?y" "ptstate (reset_entry ?e) = PT_ALLOC" by (simp_all add: reset_entry_def)
    show "port_mem (pmemory s') (reset_entry ?e) [] []" by (simp add: port_mem_def reset_entry_def)
    show "node_chain (pmemory s') (ptfree s') (N p @ F)"
      unfolding mem' using node_chain_join [OF ch(1) _ ch(2) fr D(5)] fr hn ch(3) by (auto simp: reset_mem_def s'_def)
    show "pmemory s' a = pmemory s a \<and> pmemory s' (a + 4) = pmemory s (a + 4)" if "a \<in> node_set C N F" "a \<notin> set (N p)" "a \<notin> set F" for a
      using node_writes [OF apt that, of "last (N p)"] hn ch(3) unfolding mem' by (auto simp: reset_mem_def)
    show "set [] \<union> set (N p @ F) = set (N p) \<union> set F" "set [] \<inter> set (N p @ F) = {}" "distinct (N p @ F)"
      using D(5,6) ch(2) by auto
    show "port_sem (pkern s') (reset_entry ?e) (unat (ptmaxcnt ?e)) (length [])"
      using ps um k0(2) by (simp add: port_sem_def s'_def k2_def k1_def reset_entry_def)
    show "semtab (pkern s') z = semtab (pkern s) z" if "z \<noteq> ptssem (reset_entry ?e)" "z \<noteq> ptrsem (reset_entry ?e)" for z
      using that k0(2) by (simp add: s'_def k2_def k1_def reset_entry_def)
  qed
  moreover have "length (N p @ F) = f + length (B p)" using i(2) ch(4) by simp
  ultimately have "ports_rep (C(p := Some (unat (ptmaxcnt ?e)))) s' (B(p := [])) (f + length (B p))" unfolding ports_rep_def by blast
  then show ?thesis using run by blast
qed

lemma new_port:
  assumes "kidle (pkern s) Q" and "currpid (pkern s) \<noteq> NULLPROC" and "heap_inv (kvm (pkern s)) bs" and "1 \<le> n" and "n < 2 ^ 29"
    and "\<exists>b \<in> set bs. 8 * n \<le> unat (snd b)" and "free_sems 2 (pkern s) Q" and "c < 2 ^ 31"
  shows "\<exists>s1 p s2. ptinit (int n) s = Ret (OK, s1) \<and> ptcreate (int c) s1 = (p, s2) \<and> p \<in> {0..<NPORTS} \<and>
    ports_rep (Map.empty(p := Some c)) s2 (\<lambda>_. []) n \<and> ptmaxcnt (porttab s2 p) = word_of_nat c"
proof -
  obtain s1 where i: "ptinit (int n) s = Ret (OK, s1)" "ports_rep Map.empty s1 (\<lambda>_. []) n" "ptnextid s1 = 0"
    "\<forall>q \<in> {0..<NPORTS}. ptstate (porttab s1 q) = PT_FREE" "semtab (pkern s1) = semtab (pkern s)" "nextsem (pkern s1) = nextsem (pkern s)" "kidle (pkern s1) Q"
    using ptinit_ok [OF assms(1-6), of "\<lambda>_. []"] by blast
  have fs: "free_sems (Suc (Suc 0)) (pkern s1) Q" using assms(7) i(5,6) unfolding free_sems_def by (simp add: numeral_2_eq_2)
  have z: "0 \<le> ptnextid s1" "ptnextid s1 < NPORTS" "0 \<in> {0..<NPORTS}" using i(3) by (simp_all add: NPORTS_def)
  then have pf: "ptstate (porttab s1 0) = PT_FREE" using i(4) by blast
  obtain p s2 where c: "ptcreate (int c) s1 = (p, s2)" "p \<in> {0..<NPORTS}" "ports_rep (Map.empty(p := Some c)) s2 ((\<lambda>_. [])(p := [])) n"
    "ptmaxcnt (porttab s2 p) = word_of_nat c"
    using ptcreate_ok [OF i(2,7) fs z pf assms(8)] by blast
  have "(\<lambda>_. [])(p := []) = (\<lambda>_. [] :: u32 list)" by (rule ext) simp
  then show ?thesis using i(1) c by metis
qed

section \<open>Properties\<close>

definition ports0 :: ports where
  "ports0 = \<lparr>pkern = kernel2 PR_SUSP, porttab = \<lambda>_. \<lparr>ptssem = 0, ptrsem = 0, ptstate = PT_LIMBO, ptmaxcnt = 0, ptseq = 0, pthead = 0, pttail = 0\<rparr>,
    ptfree = 0, ptnextid = 0\<rparr>"

lemma free_sems0: "free_sems 2 (pkern ports0) queues1"
proof -
  have "{1, 2} \<subseteq> {x \<in> {0..<NSEM}. sstate (semtab (pkern ports0) x) = S_FREE}"
    by (simp add: ports0_def kernel2_def kernel1_def layout_defs)
  then have "card {1, 2 :: int} \<le> card {x \<in> {0..<NSEM}. sstate (semtab (pkern ports0) x) = S_FREE}"
    by (intro card_mono) (auto intro: finite_subset [of _ "{0..<NSEM}"])
  then show ?thesis by (auto simp: free_sems_def ports0_def kernel2_def kernel1_def queues1_def layout_defs)
qed

lemma ports0_ok: "kidle (pkern ports0) queues1" "currpid (pkern ports0) \<noteq> NULLPROC" "heap_inv (kvm (pkern ports0)) [(64, 1024)]"
  using kidle2 [of PR_SUSP] heap_inv2 [of PR_SUSP] by (simp_all add: ports0_def kernel2_def kernel1_def NULLPROC_def)

text \<open>
  C40: Ports are bounded mailboxes. Whatever the open ports are, what they hold and how many nodes are free: a sequence of sends and
  receives on them that never finds a full port, an empty port or no node left runs to its end without waiting, every send
  succeeds, every receive returns the oldest message of its port, and what the ports hold in the end is what the specification says.
\<close>

theorem ports_refine_mailboxes:
  assumes "ports_rep C s B f" and "box_run C ops (B, f) = Some (xs, B', f')"
  shows "\<exists>s'. pt_run ptsend ptrecv ops s = Ret (xs, s') \<and> ports_rep C s' B' f'"
  by (rule xports.run_refines [OF assms(2,1)])

text \<open>
  a new port system. When the heap has a block for \<open>n\<close> message nodes and two semaphores are free, \<open>ptinit\<close> with \<open>n\<close> and then
  \<open>ptcreate\<close> with \<open>c\<close> open a port that is empty and holds up to \<open>c\<close> messages, with \<open>n\<close> free nodes behind it.
\<close>

theorem ptinit_ptcreate_opens:
  assumes "kidle (pkern s) Q" and "currpid (pkern s) \<noteq> NULLPROC" and "heap_inv (kvm (pkern s)) bs" and "1 \<le> n" and "n < 2 ^ 29"
    and "\<exists>b \<in> set bs. 8 * n \<le> unat (snd b)" and "free_sems 2 (pkern s) Q" and "c < 2 ^ 31"
  shows "\<exists>s1 p s2. ptinit (int n) s = Ret (OK, s1) \<and> ptcreate (int c) s1 = (p, s2) \<and> p \<in> {0..<NPORTS} \<and>
    ports_rep (Map.empty(p := Some c)) s2 (\<lambda>_. []) n"
  using new_port [OF assms] by blast

theorem ptinit_ptcreate_opens_witness:
  "\<exists>s1 p s2. ptinit 100 ports0 = Ret (OK, s1) \<and> ptcreate 5 s1 = (p, s2) \<and> p \<in> {0..<NPORTS} \<and> ports_rep (Map.empty(p := Some 5)) s2 (\<lambda>_. []) 100"
  using ptinit_ptcreate_opens [OF ports0_ok, of 100 5] free_sems0 by simp

text \<open>A port of the example, opened with room for \<open>c\<close> messages.\<close>

lemma port_example:
  assumes "c < 2 ^ 31"
  shows "\<exists>s1 p s2. ptinit 100 ports0 = Ret (OK, s1) \<and> ptcreate (int c) s1 = (p, s2) \<and> ports_rep (Map.empty(p := Some c)) s2 (\<lambda>_. []) 100 \<and>
    ptmaxcnt (porttab s2 p) = word_of_nat c"
  using new_port [OF ports0_ok, of 100 c] free_sems0 assms by auto

theorem ports_refine_mailboxes_witness:
  "\<exists>s1 p s2 s3. ptinit 100 ports0 = Ret (OK, s1) \<and> ptcreate 2 s1 = (p, s2) \<and>
    pt_run ptsend ptrecv [Snd p 7, Snd p 8, Rcv p, Snd p 9, Rcv p] s2 = Ret ([Sent OK, Sent OK, Got 7, Sent OK, Got 8], s3)"
proof -
  obtain s1 p s2 where e: "ptinit 100 ports0 = Ret (OK, s1)" "ptcreate 2 s1 = (p, s2)" "ports_rep (Map.empty(p := Some 2)) s2 (\<lambda>_. []) 100"
    using port_example [of 2] by auto
  have "box_run (Map.empty(p := Some 2)) [Snd p 7, Snd p 8, Rcv p, Snd p 9, Rcv p] (\<lambda>_. [], 100) =
    Some ([Sent OK, Sent OK, Got 7, Sent OK, Got 8], (\<lambda>_. [])(p := [9]), 99)" by simp
  from ports_refine_mailboxes [OF e(3) this] show ?thesis using e(1,2) by blast
qed

text \<open>
  \<open>ptreset\<close> does not give a port back the size it was created with. The size is kept in a 16-bit field, so after a reset a port
  created for \<open>c\<close> messages is empty, its nodes are free again, and it holds up to \<open>c mod 65536\<close> messages.
\<close>

theorem ptreset_truncates_size:
  assumes "ports_rep C s B f" and "C p = Some c" and "ptmaxcnt (porttab s p) = word_of_nat c" and "\<And>x s. \<exists>r. dispose x s = Ret (r, s)"
  shows "\<exists>s'. ptreset p dispose s = Ret (Some OK, s') \<and> ports_rep (C(p := Some (c mod 65536))) s' (B(p := [])) (f + length (B p))"
  using ptreset_ok [OF assms(1,2,4)] unfolding assms(3) by (simp add: unsigned_of_nat take_bit_eq_mod)

theorem ptreset_truncates_size_witness:
  "\<exists>s1 p s2 s3. ptinit 100 ports0 = Ret (OK, s1) \<and> ptcreate 65537 s1 = (p, s2) \<and>
    ptreset p (\<lambda>_ s. Ret (OK, s)) s2 = Ret (Some OK, s3) \<and> ports_rep (Map.empty(p := Some 1)) s3 (\<lambda>_. []) 100"
proof -
  obtain s1 p s2 where e: "ptinit 100 ports0 = Ret (OK, s1)" "ptcreate 65537 s1 = (p, s2)" "ports_rep (Map.empty(p := Some 65537)) s2 (\<lambda>_. []) 100"
    "ptmaxcnt (porttab s2 p) = word_of_nat 65537"
    using port_example [of 65537] by auto
  obtain s3 where "ptreset p (\<lambda>_ s. Ret (OK, s)) s2 = Ret (Some OK, s3)"
    "ports_rep (Map.empty(p := Some 65537, p := Some (65537 mod 65536))) s3 ((\<lambda>_. [])(p := [])) (100 + length ((\<lambda>_. []) p :: u32 list))"
    using ptreset_truncates_size [OF e(3) _ e(4), of "\<lambda>_ s. Ret (OK, s)"] by auto
  then show ?thesis using e(1,2) by (auto simp: fun_upd_idem)
qed

end
