(* ===== verification/SysCalls.thy ===== *)
theory SysCalls
  imports Process
begin

text \<open>
  The system calls and the clock interrupt as transitions of the kernel: every call of the theories \<open>Sched\<close>, \<open>Semaphores\<close>, \<open>Clock\<close>,
  \<open>Messages\<close> and \<open>Process\<close> in any order, with the processor changing hands wherever \<open>resched\<close> gives it away.

  A call runs from its entry to its return or to the point where its caller loses the processor; interrupts are off in between, so a
  sequence of such steps is what the machine does. \<open>Receive_rest\<close> and \<open>Recvtime_rest\<close> are what a receiver that was blocked
  does first when it runs again.
\<close>

section \<open>What a call leaves alone\<close>

text \<open>
  The scheduler does not touch the semaphores, the counters that choose the next process and semaphore and the descriptors of the processes; a semaphore call changes the
  count of one semaphore.
\<close>

definition same_desc :: "kernel \<Rightarrow> kernel \<Rightarrow> bool" where
  "same_desc k k' \<longleftrightarrow> (\<forall>p. prdesc (proctab k' p) = prdesc (proctab k p))"

definition kept :: "kernel \<Rightarrow> kernel \<Rightarrow> bool" where
  "kept k k' \<longleftrightarrow> nextsem k' = nextsem k \<and> nextpid k' = nextpid k \<and> semtab k' = semtab k \<and> same_desc k k'"

definition only_count :: "int \<Rightarrow> kernel \<Rightarrow> kernel \<Rightarrow> bool" where
  "only_count s k k' \<longleftrightarrow> nextsem k' = nextsem k \<and> nextpid k' = nextpid k \<and> same_desc k k' \<and> (\<forall>t. t \<noteq> s \<longrightarrow> semtab k' t = semtab k t) \<and>
    sstate (semtab k' s) = sstate (semtab k s) \<and> squeue (semtab k' s) = squeue (semtab k s)"

lemma same_desc_refl [simp]: "same_desc k k"
  by (simp add: same_desc_def)

lemma same_desc_trans: "same_desc a b \<Longrightarrow> same_desc b c \<Longrightarrow> same_desc a c"
  by (simp add: same_desc_def)

lemma same_desc_updates [simp]:
  "same_desc k (k'\<lparr>queuetab := qt\<rparr>) = same_desc k k'" "same_desc k (k'\<lparr>currpid := c\<rparr>) = same_desc k k'"
  "same_desc k (k'\<lparr>preempt := q\<rparr>) = same_desc k k'" "same_desc k (k'\<lparr>cr3 := d\<rparr>) = same_desc k k'" "same_desc k (k'\<lparr>kvm := v\<rparr>) = same_desc k k'"
  "same_desc k (k'\<lparr>attempt := a\<rparr>) = same_desc k k'" "same_desc k (k'\<lparr>ndefers := n\<rparr>) = same_desc k k'" "same_desc k (k'\<lparr>prcount := n\<rparr>) = same_desc k k'"
  "same_desc k (k'\<lparr>semtab := st\<rparr>) = same_desc k k'" "same_desc k (k'\<lparr>nextpid := n\<rparr>) = same_desc k k'"
  "same_desc (k\<lparr>queuetab := qt\<rparr>) k' = same_desc k k'" "same_desc (k\<lparr>currpid := c\<rparr>) k' = same_desc k k'"
  "same_desc (k\<lparr>preempt := q\<rparr>) k' = same_desc k k'" "same_desc (k\<lparr>cr3 := d\<rparr>) k' = same_desc k k'" "same_desc (k\<lparr>kvm := v\<rparr>) k' = same_desc k k'"
  "same_desc (k\<lparr>attempt := a\<rparr>) k' = same_desc k k'" "same_desc (k\<lparr>ndefers := n\<rparr>) k' = same_desc k k'" "same_desc (k\<lparr>prcount := n\<rparr>) k' = same_desc k k'"
  "same_desc (k\<lparr>semtab := st\<rparr>) k' = same_desc k k'" "same_desc (k\<lparr>count1000 := u\<rparr>) k' = same_desc k k'" "same_desc (k\<lparr>clktime := u\<rparr>) k' = same_desc k k'"
  by (simp_all add: same_desc_def)

lemma same_desc_entry [simp]:
  "prdesc e = prdesc (proctab k' p) \<Longrightarrow> same_desc k (k'\<lparr>proctab := (proctab k')(p := e)\<rparr>) = same_desc k k'"
  by (auto simp: same_desc_def)

lemma kept_refl [simp]: "kept k k"
  by (simp add: kept_def)

lemma kept_trans [trans]: "kept a b \<Longrightarrow> kept b c \<Longrightarrow> kept a c"
  by (auto simp: kept_def intro: same_desc_trans)

lemma kept_only_count: "kept k k' \<Longrightarrow> only_count s k k'"
  by (simp add: kept_def only_count_def)

lemma only_count_trans [trans]: "only_count s a b \<Longrightarrow> only_count s b c \<Longrightarrow> only_count s a c"
  by (auto simp: only_count_def intro: same_desc_trans)

lemma set_scount_only [simp]: "only_count s k (set_scount s c k)"
  by (simp add: only_count_def set_scount_def upd_sem_def)

lemma kept_updates [simp]:
  "kept k (k'\<lparr>queuetab := qt\<rparr>) = kept k k'" "kept k (k'\<lparr>currpid := c\<rparr>) = kept k k'"
  "kept k (k'\<lparr>preempt := q\<rparr>) = kept k k'" "kept k (k'\<lparr>cr3 := d\<rparr>) = kept k k'" "kept k (k'\<lparr>kvm := v\<rparr>) = kept k k'"
  "kept k (k'\<lparr>attempt := a\<rparr>) = kept k k'" "kept k (k'\<lparr>ndefers := n\<rparr>) = kept k k'" "kept k (k'\<lparr>prcount := n\<rparr>) = kept k k'"
  "kept (k\<lparr>queuetab := qt\<rparr>) k' = kept k k'" "kept (k\<lparr>currpid := c\<rparr>) k' = kept k k'"
  "kept (k\<lparr>preempt := q\<rparr>) k' = kept k k'" "kept (k\<lparr>cr3 := d\<rparr>) k' = kept k k'" "kept (k\<lparr>kvm := v\<rparr>) k' = kept k k'"
  "kept (k\<lparr>attempt := a\<rparr>) k' = kept k k'" "kept (k\<lparr>ndefers := n\<rparr>) k' = kept k k'" "kept (k\<lparr>prcount := n\<rparr>) k' = kept k k'"
  "kept (k\<lparr>count1000 := u\<rparr>) k' = kept k k'" "kept (k\<lparr>clktime := u\<rparr>) k' = kept k k'"
  by (simp_all add: kept_def)

lemma kept_entry [simp]: "prdesc e = prdesc (proctab k' p) \<Longrightarrow> kept k (k'\<lparr>proctab := (proctab k')(p := e)\<rparr>) = kept k k'"
  by (simp add: kept_def)

named_theorems kept_intros \<open>calls that leave the semaphores and the counters alone\<close>

lemma set_proc_kept [kept_intros]: "set_proc p f k = Ret k' \<Longrightarrow> (\<And>e. prdesc (f e) = prdesc e) \<Longrightarrow> kept k k'"
  by (auto simp: set_proc_def rbind_Ret_iff pwrite_def split: if_splits)

lemma kernel_mode_kept [kept_intros]: "kernel_mode_exit k = Ret k' \<Longrightarrow> kept k k'"
  by (auto simp: kernel_mode_exit_def rbind_Ret_iff)

lemma resched_switch_kept [kept_intros]: "resched_switch p k = Ret k' \<Longrightarrow> kept k k'"
  by (auto simp: resched_switch_def rbind_Ret_iff kernel_mode_enter_def Let_def split: if_splits dest!: kept_intros intro: kept_trans)

lemma resched_kept [kept_intros]: "resched k = Ret k' \<Longrightarrow> kept k k'"
  by (auto simp: resched_def rbind_Ret_iff Let_def split: if_splits dest!: kept_intros intro: kept_trans)

lemma resched_cntl_kept [kept_intros]: "resched_cntl d k = Ret (r, k') \<Longrightarrow> kept k k'"
  by (auto simp: resched_cntl_def rbind_Ret_iff Let_def split: if_splits dest!: kept_intros)

lemma ready_kept [kept_intros]: "ready p k = Ret (r, k') \<Longrightarrow> kept k k'"
  by (auto simp: ready_def rbind_Ret_iff split: if_splits dest!: kept_intros intro: kept_trans)

lemma resume_kept [kept_intros]: "resume p k = Ret (r, k') \<Longrightarrow> kept k k'"
  by (auto simp: resume_def rbind_Ret_iff Let_def split: if_splits dest!: kept_intros)

lemma suspend_kept [kept_intros]: "suspend p k = Ret (r, k') \<Longrightarrow> kept k k'"
  by (auto simp: suspend_def rbind_Ret_iff split: if_splits dest!: kept_intros intro: kept_trans)

lemma chprio_kept [kept_intros]: "chprio p n k = Ret (r, k') \<Longrightarrow> kept k k'"
  by (auto simp: chprio_def rbind_Ret_iff Let_def split: if_splits dest!: kept_intros)

lemma yield_kept [kept_intros]: "yield k = Ret (r, k') \<Longrightarrow> kept k k'"
  by (auto simp: yield_def rbind_Ret_iff dest!: kept_intros)

lemma sleepms_kept [kept_intros]: "sleepms d k = Ret (r, k') \<Longrightarrow> kept k k'"
  by (auto simp: sleepms_def rbind_Ret_iff Let_def split: if_splits dest!: kept_intros intro: kept_trans)

lemma unsleep_kept [kept_intros]: "unsleep p k = Ret (r, k') \<Longrightarrow> kept k k'"
  by (auto simp: unsleep_def rbind_Ret_iff Let_def split: if_splits)

lemma send_kept [kept_intros]: "send p m k = Ret (r, k') \<Longrightarrow> kept k k'"
  by (auto simp: send_def rbind_Ret_iff split: if_splits dest!: kept_intros intro: kept_trans)

lemma receive_rest_kept [kept_intros]: "receive_rest p k = Ret (m, k') \<Longrightarrow> kept k k'"
  by (auto simp: receive_rest_def rbind_Ret_iff Let_def dest!: kept_intros)

lemma recvtime_rest_kept [kept_intros]: "recvtime_rest p k = Ret (m, k') \<Longrightarrow> kept k k'"
  by (auto simp: recvtime_rest_def rbind_Ret_iff Let_def split: if_splits dest!: kept_intros)

lemma receive_kept [kept_intros]: "receive k = Ret (m, k') \<Longrightarrow> kept k k'"
  by (auto simp: receive_def when_running_def rbind_Ret_iff Let_def split: if_splits dest!: kept_intros intro: kept_trans)

lemma recvclr_kept [kept_intros]: "recvclr k = Ret (m, k') \<Longrightarrow> kept k k'"
  by (auto simp: recvclr_def rbind_Ret_iff Let_def split: if_splits dest!: kept_intros)

lemma recvtime_kept [kept_intros]: "recvtime w k = Ret (m, k') \<Longrightarrow> kept k k'"
  by (auto simp: recvtime_def when_running_def rbind_Ret_iff Let_def split: if_splits dest!: kept_intros intro: kept_trans)

lemma wakeup_one_kept [kept_intros]: "wakeup_one k = Ret k' \<Longrightarrow> kept k k'"
  by (auto simp: wakeup_one_def rbind_Ret_iff dest!: kept_intros)

lemma wakeup_loop_kept:
  assumes "wakeup_loop k = Some r"
  shows "\<forall>k'. r = Ret k' \<longrightarrow> kept k k'"
proof (rule wakeup_loop.raw_induct [OF _ assms])
  fix f :: "kernel \<Rightarrow> kernel result option" and k r
  assume f: "\<And>k r. f k = Some r \<Longrightarrow> \<forall>k'. r = Ret k' \<longrightarrow> kept k k'"
    and b: "(case rbind (wakeup_due k) (\<lambda>b. if b then rbind (wakeup_one k) (\<lambda>k. Ret (Some k)) else Ret None) of
      Ret None \<Rightarrow> Some (Ret k) | Ret (Some k) \<Rightarrow> f k | Halted \<Rightarrow> Some Halted | Fault \<Rightarrow> Some Fault | Loops \<Rightarrow> Some Loops) = Some r"
  show "\<forall>k'. r = Ret k' \<longrightarrow> kept k k'"
  proof (intro allI impI)
    fix k' assume r: "r = Ret k'"
    from b consider "Ret k' = Ret k" | k1 where "wakeup_one k = Ret k1" "f k1 = Some (Ret k')"
      unfolding r by (auto simp: rbind_Ret_iff split: result.splits option.splits if_splits)
    then show "kept k k'" by cases (auto dest!: f kept_intros intro: kept_trans)
  qed
qed

lemma wakeup_kept [kept_intros]: "wakeup k = Ret k' \<Longrightarrow> kept k k'"
proof -
  assume "wakeup k = Ret k'"
  then obtain a k1 k2 b where "resched_cntl DEFER_START k = Ret (a, k1)" "wakeup_loop k1 = Some (Ret k2)" "resched_cntl DEFER_STOP k2 = Ret (b, k')"
    by (cases "resched_cntl DEFER_START k") (auto simp: wakeup_def rbind_Ret_iff of_loop_def split: option.splits)
  then show ?thesis using wakeup_loop_kept by (blast dest: kept_intros intro: kept_trans)
qed

lemma clk_parts_kept [kept_intros]:
  "clk_sleepers k = Ret k' \<Longrightarrow> kept k k'" "clk_preempt k = Ret k' \<Longrightarrow> kept k k'"
  by (auto simp: clk_sleepers_def clk_preempt_def rbind_Ret_iff Let_def split: if_splits dest!: kept_intros)

lemma clk_seconds_kept: "kept k (clk_seconds k)"
  by (simp add: clk_seconds_def Let_def kept_def same_desc_def)

lemma clkhandler_kept [kept_intros]: "clkhandler k = Ret k' \<Longrightarrow> kept k k'"
  unfolding clkhandler_def rbind_Ret_iff using clk_parts_kept clk_seconds_kept kept_trans by blast

section \<open>Semaphore calls\<close>

lemma only_count_set [simp]:
  "only_count s ((set_scount s c k)\<lparr>queuetab := qt\<rparr>) k' = only_count s k k'" "only_count s (set_scount s c k) k' = only_count s k k'"
  by (auto simp: only_count_def set_scount_def upd_sem_def)

lemma signal_one_only: "signal_one s k = Ret k' \<Longrightarrow> only_count s k k'"
  by (auto simp: signal_one_def rbind_Ret_iff Let_def split: if_splits dest!: ready_kept kept_only_count [of _ _ s])

lemma signaln_loop_only: "signaln_loop n s k = Ret k' \<Longrightarrow> only_count s k k'"
  by (induction n arbitrary: k) (auto simp: rbind_Ret_iff kept_only_count dest!: signal_one_only intro: only_count_trans)

lemma semdelete_loop_only:
  assumes "semdelete_loop s k = Some r"
  shows "\<forall>k'. r = Ret k' \<longrightarrow> only_count s k k'"
proof (rule semdelete_loop.raw_induct [OF _ assms])
  fix f :: "int \<Rightarrow> kernel \<Rightarrow> kernel result option" and s k r
  assume f: "\<And>s k r. f s k = Some r \<Longrightarrow> \<forall>k'. r = Ret k' \<longrightarrow> only_count s k k'"
    and b: "(let c = scount (semtab k s); k = set_scount s (wrap32 (c + 1)) k in if c < 0 then
      (case rbind (getfirst (squeue (semtab k s)) (queuetab k)) (\<lambda>(pid, qt). ready pid (k\<lparr>queuetab := qt\<rparr>)) of
        Ret (_, k) \<Rightarrow> f s k | Halted \<Rightarrow> Some Halted | Fault \<Rightarrow> Some Fault | Loops \<Rightarrow> Some Loops) else Some (Ret k)) = Some r"
  show "\<forall>k'. r = Ret k' \<longrightarrow> only_count s k k'"
  proof (intro allI impI)
    fix k' assume r: "r = Ret k'"
    from b consider c where "k' = set_scount s c k"
      | c qt p a k1 where "ready p ((set_scount s c k)\<lparr>queuetab := qt\<rparr>) = Ret (a, k1)" "f s k1 = Some (Ret k')"
      unfolding r by (auto simp: Let_def rbind_Ret_iff split: result.splits if_splits)
    then show "only_count s k k'"
    proof cases
      case 2
      then show ?thesis using ready_kept [OF 2(1), THEN kept_only_count, of s] f [OF 2(2)] by (auto intro: only_count_trans)
    qed simp
  qed
qed

lemma semreset_loop_kept:
  assumes "semreset_loop q k = Some r"
  shows "\<forall>k'. r = Ret k' \<longrightarrow> kept k k'"
proof (rule semreset_loop.raw_induct [OF _ assms])
  fix f :: "int \<Rightarrow> kernel \<Rightarrow> kernel result option" and q k r
  assume f: "\<And>q k r. f q k = Some r \<Longrightarrow> \<forall>k'. r = Ret k' \<longrightarrow> kept k k'"
    and b: "(case getfirst q (queuetab k) of
        Ret (pid, qt) \<Rightarrow> (let k = k\<lparr>queuetab := qt\<rparr> in if pid \<noteq> EMPTY then
          (case ready pid k of Ret (_, k) \<Rightarrow> f q k | Halted \<Rightarrow> Some Halted | Fault \<Rightarrow> Some Fault | Loops \<Rightarrow> Some Loops) else Some (Ret k))
      | Halted \<Rightarrow> Some Halted | Fault \<Rightarrow> Some Fault | Loops \<Rightarrow> Some Loops) = Some r"
  show "\<forall>k'. r = Ret k' \<longrightarrow> kept k k'"
  proof (intro allI impI)
    fix k' assume r: "r = Ret k'"
    from b consider qt where "k' = k\<lparr>queuetab := qt\<rparr>" | p qt a k1 where "ready p (k\<lparr>queuetab := qt\<rparr>) = Ret (a, k1)" "f q k1 = Some (Ret k')"
      unfolding r by (auto simp: Let_def split: result.splits if_splits)
    then show "kept k k'" by cases (auto dest!: f kept_intros intro: kept_trans)
  qed
qed

lemma deferred_only:
  assumes "rbind (resched_cntl DEFER_START k) (\<lambda>(_, k). rbind (f k) (\<lambda>k. rbind (resched_cntl DEFER_STOP k) (\<lambda>(_, k). Ret (OK, k)))) = Ret (r, k')"
    and "\<And>k1 k2. f k1 = Ret k2 \<Longrightarrow> only_count s k1 k2"
  shows "only_count s k k'"
proof -
  from assms(1) obtain a k1 k2 b where "resched_cntl DEFER_START k = Ret (a, k1)" "f k1 = Ret k2" "resched_cntl DEFER_STOP k2 = Ret (b, k')"
    by (auto simp: rbind_Ret_iff)
  then show ?thesis using assms(2) by (meson kept_only_count only_count_trans resched_cntl_kept)
qed

lemma wait_only: "wait s k = Ret (r, k') \<Longrightarrow> only_count s k k'"
proof -
  assume w: "wait s k = Ret (r, k')"
  let ?k = "set_scount s (wrap32 (scount (semtab k s) - 1)) k"
  consider "k' = k" | "k' = ?k" | k1 qt where "set_proc (currpid ?k) (\<lambda>e. e\<lparr>prstate := PR_WAIT, prsem := s\<rparr>) ?k = Ret k1"
    "resched (k1\<lparr>queuetab := qt\<rparr>) = Ret k'"
    using w by (auto simp: wait_def Let_def rbind_Ret_iff split: if_splits)
  then show ?thesis
  proof cases
    case 3
    then have "kept ?k k'" by (auto dest!: kept_intros intro: kept_trans)
    then show ?thesis by (metis kept_only_count only_count_set(2))
  qed (simp_all add: kept_only_count)
qed

lemma signal_only: "signal s k = Ret (r, k') \<Longrightarrow> only_count s k k'"
  by (auto simp: signal_def rbind_Ret_iff kept_only_count split: if_splits dest!: signal_one_only)

lemma signaln_only: "signaln s n k = Ret (r, k') \<Longrightarrow> only_count s k k'"
  unfolding signaln_def using deferred_only [OF _ signaln_loop_only] by (auto simp: kept_only_count split: if_splits)

lemma of_loop_Ret: "rjoin (of_loop x) = Ret y \<longleftrightarrow> x = Some (Ret y)"
  by (cases x) simp_all

lemma semreset_only: "semreset s c k = Ret (r, k') \<Longrightarrow> only_count s k k'"
proof -
  assume r: "semreset s c k = Ret (r, k')"
  let ?f = "\<lambda>q k. rbind (rjoin (of_loop (semreset_loop q k))) (\<lambda>k. Ret (set_scount s c k))"
  have "only_count s k1 k2" if f: "?f q k1 = Ret k2" for q k1 k2
  proof -
    obtain x where "semreset_loop q k1 = Some (Ret x)" "k2 = set_scount s c x" using f by (auto simp: rbind_Ret_iff of_loop_Ret)
    then show ?thesis using semreset_loop_kept kept_only_count [of k1 x s] only_count_trans [OF _ set_scount_only] by blast
  qed
  then have "only_count s k k'" if "rbind (resched_cntl DEFER_START k) (\<lambda>(_, k). rbind (?f q k) (\<lambda>k. rbind (resched_cntl DEFER_STOP k) (\<lambda>(_, k). Ret (OK, k)))) = Ret (r, k')" for q
    using deferred_only [OF that] by blast
  then show ?thesis using r unfolding semreset_def by (auto simp: Let_def kept_only_count rbind_assoc split: if_splits)
qed

lemma semdelete_only: "semdelete s k = Ret (r, k') \<Longrightarrow> k' = k \<or> only_count s (upd_sem s (\<lambda>e. e\<lparr>sstate := S_FREE\<rparr>) k) k'"
proof -
  assume r: "semdelete s k = Ret (r, k')"
  have "only_count s k1 k2" if "rjoin (of_loop (semdelete_loop s k1)) = Ret k2" for k1 k2
    using that semdelete_loop_only by (auto simp: of_loop_Ret)
  then show ?thesis using r deferred_only [where f = "\<lambda>k. rjoin (of_loop (semdelete_loop s k))" and s = s] unfolding semdelete_def Let_def
    by (auto split: if_splits)
qed

section \<open>The state between calls\<close>

definition sems_ok :: "kernel \<Rightarrow> bool" where
  "sems_ok k \<longleftrightarrow> 0 \<le> nextsem k \<and> nextsem k < NSEM \<and> 0 \<le> nextpid k \<and> (\<forall>s \<in> {0..<NSEM}. sstate (semtab k s) = S_FREE \<longrightarrow> 0 \<le> scount (semtab k s))"

text \<open>Every entry has the console as its descriptors: 0 is the console in the static table, and no call but \<open>create\<close> changes them.\<close>

definition consoles :: "kernel \<Rightarrow> bool" where
  "consoles k \<longleftrightarrow> (\<forall>p. pid_ok p \<longrightarrow> on_console (proctab k p))"

definition sys_ok :: "kernel \<Rightarrow> bool" where
  "sys_ok k \<longleftrightarrow> (\<exists>Q. kidle k Q) \<and> sems_ok k \<and> consoles k"

lemma consoles_same: "same_desc k k' \<Longrightarrow> consoles k' = consoles k"
  by (simp add: consoles_def on_console_def same_desc_def)

lemma sys_kept: "sys_ok k \<Longrightarrow> kidle k' Q' \<Longrightarrow> kept k k' \<Longrightarrow> sys_ok k'"
  using consoles_same [of k k'] by (auto simp: sys_ok_def sems_ok_def kept_def)

lemma sys_only:
  assumes "sys_ok k" and "kidle k' Q'" and "only_count s k k'" and "sstate (semtab k s) \<noteq> S_FREE"
  shows "sys_ok k'"
proof -
  have "0 \<le> scount (semtab k' t)" if "t \<in> {0..<NSEM}" "sstate (semtab k' t) = S_FREE" for t
    using assms(1,3,4) that by (cases "t = s") (auto simp: sys_ok_def sems_ok_def only_count_def)
  then show ?thesis using assms(1-3) consoles_same [of k k'] by (auto simp: sys_ok_def sems_ok_def only_count_def)
qed

lemma sys_currpid: "sys_ok k \<Longrightarrow> pid_ok (currpid k)"
  using kinv_currpid by (auto simp: sys_ok_def kidle_def)

lemma sys_wait:
  assumes "sys_ok k" and "currpid k \<noteq> NULLPROC"
  shows "\<exists>r k'. wait s k = Ret (r, k') \<and> sys_ok k'"
proof (cases "isbadsem s \<or> sstate (semtab k s) = S_FREE")
  case False
  obtain Q where q: "kidle k Q" using assms(1) by (auto simp: sys_ok_def)
  obtain k' Q' where "wait s k = Ret (OK, k')" "kidle k' Q'" using wait_kidle [OF q _ _ assms(2), of s] False by blast
  then show ?thesis using sys_only [OF assms(1) _ wait_only] False by blast
qed (use assms(1) in \<open>auto simp: wait_def\<close>)

lemma sys_signal:
  assumes "sys_ok k" and "scount (semtab k s) < 2 ^ 31 - 1"
  shows "\<exists>r k'. signal s k = Ret (r, k') \<and> sys_ok k'"
proof (cases "isbadsem s \<or> sstate (semtab k s) = S_FREE")
  case False
  obtain Q where q: "kidle k Q" using assms(1) by (auto simp: sys_ok_def)
  obtain k' Q' where "signal s k = Ret (OK, k')" "kidle k' Q'" using signal_kidle [OF q _ _ assms(2)] False by blast
  then show ?thesis using sys_only [OF assms(1) _ signal_only] False by blast
qed (use assms(1) in \<open>auto simp: signal_def\<close>)

lemma sys_signaln:
  assumes "sys_ok k" and "scount (semtab k s) + n < 2 ^ 31"
  shows "\<exists>r k'. signaln s n k = Ret (r, k') \<and> sys_ok k'"
proof (cases "isbadsem s \<or> n < 0 \<or> sstate (semtab k s) = S_FREE")
  case False
  obtain Q where q: "kidle k Q" using assms(1) by (auto simp: sys_ok_def)
  obtain k' Q' where "signaln s n k = Ret (OK, k')" "kidle k' Q'" using signaln_kidle [OF q _ _ _ assms(2)] False by (metis not_less)
  then show ?thesis using sys_only [OF assms(1) _ signaln_only] False by blast
qed (use assms(1) in \<open>auto simp: signaln_def\<close>)

lemma sys_semreset:
  assumes "sys_ok k" and "c < 2 ^ 31"
  shows "\<exists>r k'. semreset s c k = Ret (r, k') \<and> sys_ok k'"
proof (cases "c < 0 \<or> isbadsem s \<or> sstate (semtab k s) = S_FREE")
  case False
  obtain Q where q: "kidle k Q" using assms(1) by (auto simp: sys_ok_def)
  obtain k' Q' where "semreset s c k = Ret (OK, k')" "kidle k' Q'" using semreset_kidle [OF q _ _ _ assms(2)] False by (meson not_less)
  then show ?thesis using sys_only [OF assms(1) _ semreset_only] False by blast
qed (use assms(1) in \<open>auto simp: semreset_def\<close>)

lemma sys_semdelete:
  assumes "sys_ok k" and "scount (semtab k s) < 2 ^ 31 - 1"
  shows "\<exists>r k'. semdelete s k = Ret (r, k') \<and> sys_ok k'"
proof (cases "isbadsem s \<or> sstate (semtab k s) = S_FREE")
  case False
  obtain Q where q: "kidle k Q" using assms(1) by (auto simp: sys_ok_def)
  obtain k' Q' where d: "semdelete s k = Ret (OK, k')" "kidle k' Q'" "Q' (squeue (semtab k s)) = []" "sstate (semtab k' s) = S_FREE"
    using semdelete_kidle [OF q _ _ assms(2)] False by blast
  have ne: "k' \<noteq> k" using d(4) False by auto
  then have o: "only_count s (upd_sem s (\<lambda>e. e\<lparr>sstate := S_FREE\<rparr>) k) k'" using semdelete_only [OF d(1)] by blast
  then have "squeue (semtab k' s) = squeue (semtab k s)" by (simp add: only_count_def upd_sem_def)
  then have "0 \<le> scount (semtab k' s)" using scount_range(3) [OF d(2), of s] d(3) False by simp
  moreover have "0 \<le> scount (semtab k' t)" if "t \<noteq> s" "t \<in> {0..<NSEM}" "sstate (semtab k' t) = S_FREE" for t
    using o assms(1) that by (auto simp: only_count_def upd_sem_def sys_ok_def sems_ok_def)
  ultimately have "sems_ok k'" using o assms(1) by (auto simp: sems_ok_def sys_ok_def only_count_def upd_sem_def)
  moreover have "same_desc k k'" using o by (auto simp: only_count_def upd_sem_def same_desc_def)
  ultimately show ?thesis using d(1,2) assms(1) consoles_same [of k k'] by (auto simp: sys_ok_def)
qed (use assms(1) in \<open>auto simp: semdelete_def\<close>)

lemma newsem_loop_frame: "newsem_loop n k = (s, k') \<Longrightarrow> nextpid k' = nextpid k \<and> proctab k' = proctab k \<and> (\<forall>t. t \<noteq> s \<longrightarrow> semtab k' t = semtab k t)"
  by (induction n arbitrary: k) (force simp: Let_def upd_sem_def split: if_splits)+

lemma semcreate_frame: "semcreate c k = (s, k') \<Longrightarrow> nextpid k' = nextpid k \<and> proctab k' = proctab k \<and> (\<forall>t. t \<noteq> s \<longrightarrow> semtab k' t = semtab k t)"
  by (auto simp: semcreate_def newsem_def set_scount_def upd_sem_def split: if_splits prod.splits dest!: newsem_loop_frame)

lemma sys_semcreate:
  assumes "sys_ok k" and "c < 2 ^ 31" and "semcreate c k = (s, k')"
  shows "sys_ok k'"
proof (cases "c < 0")
  case False
  obtain Q where q: "kidle k Q" and n: "0 \<le> nextsem k" "nextsem k < NSEM" using assms(1) by (auto simp: sys_ok_def sems_ok_def)
  have "Q (squeue (semtab k s)) = []" if "s \<in> {0..<NSEM}" "sstate (semtab k s) = S_FREE" for s
    using scount_range(3) [OF q, of s] assms(1) that by (simp add: sys_ok_def sems_ok_def isbadsem_def)
  then have "\<forall>s \<in> {0..<NSEM}. sstate (semtab k s) = S_FREE \<longrightarrow> Q (squeue (semtab k s)) = []" by blast
  from semcreate_kidle [OF q n _ assms(2) this] False assms(3) have r: "kidle k' Q" "0 \<le> nextsem k'" "nextsem k' < NSEM"
    "if \<exists>s \<in> {0..<NSEM}. sstate (semtab k s) = S_FREE then \<not> isbadsem s \<and> sstate (semtab k s) = S_FREE \<and> sstate (semtab k' s) = S_USED \<and> scount (semtab k' s) = c
     else s = SYSERR \<and> semtab k' = semtab k" by auto
  have "0 \<le> scount (semtab k' t)" if "t \<in> {0..<NSEM}" "sstate (semtab k' t) = S_FREE" for t
    using r(4) semcreate_frame [OF assms(3)] assms(1) that by (cases "t = s") (auto simp: sys_ok_def sems_ok_def split: if_splits)
  moreover have "consoles k'" using semcreate_frame [OF assms(3)] assms(1) by (simp add: sys_ok_def consoles_def)
  ultimately show ?thesis using r semcreate_frame [OF assms(3)] assms(1) by (auto simp: sys_ok_def sems_ok_def)
qed (use assms in \<open>auto simp: semcreate_def\<close>)

section \<open>Creating and ending processes\<close>

lemma newpid_frame: "newpid k = (p, k1) \<Longrightarrow> \<exists>n. k1 = k\<lparr>nextpid := n\<rparr>"
  by (auto simp: newpid_def split: prod.splits)

lemma kidle_nextpid:
  assumes "kidle k Q"
  shows "kidle (k\<lparr>nextpid := n\<rparr>) Q"
proof -
  have "kinv (k\<lparr>nextpid := n\<rparr>) Q" by (rule kinv_cong [where k = k]) (use assms in \<open>simp_all add: kidle_def\<close>)
  then show ?thesis by (rule kidle_intro [OF assms]) simp_all
qed

lemma create_frame:
  assumes "create initret funcaddr ssize priority name args k = Ret (r, k')"
  shows "nextsem k' = nextsem k \<and> semtab k' = semtab k"
proof -
  have sp: "nextsem k2 = nextsem k1 \<and> semtab k2 = semtab k1" if "set_proc p f k1 = Ret k2" for p f k1 k2
    using that by (auto simp: set_proc_def rbind_Ret_iff)
  show ?thesis
    using assms by (auto simp: create_def Let_def rbind_Ret_iff split: if_splits prod.splits dest!: newpid_frame sp)
qed

definition room :: "u32 \<Rightarrow> u32 list \<Rightarrow> kernel \<Rightarrow> bool" where
  "room ssize args k \<longleftrightarrow> unat ssize \<le> 2 ^ 32 - 8 \<and> 4 * (length args + 13) \<le> unat (stack_size ssize) \<and>
    (\<exists>bs. heap_inv (kvm k) bs \<and> (\<exists>b \<in> set bs. unat (stack_size ssize) \<le> unat (snd b)))"

lemma sys_create:
  assumes ok: "sys_ok k" and rm: "room ssize args k" and pr: "priority < 2 ^ 15"
  shows "\<exists>r k'. create initret funcaddr ssize priority name args k = Ret (r, k') \<and> sys_ok k'"
proof -
  obtain Q where q: "kidle k Q" and n: "0 \<le> nextpid k" using ok by (auto simp: sys_ok_def sems_ok_def)
  obtain pid k1 where np: "newpid k = (pid, k1)" by (cases "newpid k")
  note s = newpid_spec [OF np n]
  consider "priority < 1" | "\<not> priority < 1" "pid = SYSERR" | "1 \<le> priority" "pid \<noteq> SYSERR" by linarith
  then show ?thesis
  proof cases
    case 1
    then show ?thesis using ok by (simp add: create_def Let_def)
  next
    case 2
    obtain i where "k1 = k\<lparr>nextpid := i\<rparr>" using newpid_frame [OF np] by blast
    then have "sys_ok k1" using kidle_nextpid [OF q, of i] s(2) ok by (auto simp: sys_ok_def sems_ok_def consoles_def)
    then show ?thesis using 2 np by (simp add: create_def Let_def)
  next
    case 3
    obtain bs where b: "unat ssize \<le> 2 ^ 32 - 8" "4 * (length args + 13) \<le> unat (stack_size ssize)" "heap_inv (kvm k) bs"
      "\<exists>b \<in> set bs. unat (stack_size ssize) \<le> unat (snd b)" using rm by (auto simp: room_def)
    have "\<exists>p. pid_ok p \<and> prstate (proctab k p) = PR_FREE" using s(3) 3(2) by blast
    from create_ok [OF q b(3) n 3(1) pr this b(1) b(4,2), of initret funcaddr name]
    obtain pid saddr sp k' where c: "create initret funcaddr ssize priority name args k = Ret (pid, k')" "kidle k' Q" "0 \<le> nextpid k'"
      "proctab k' = (proctab k)(pid := fresh_entry pid saddr sp ssize priority name k)" by blast
    have "consoles k'"
      using ok by (auto simp: sys_ok_def consoles_def on_console_def c(4) fresh_entry_def new_entry_def less_Suc_eq eval_nat_numeral)
    then have "sys_ok k'" using c(2,3) create_frame [OF c(1)] ok by (auto simp: sys_ok_def sems_ok_def)
    then show ?thesis using c(1) by blast
  qed
qed

text \<open>
  A process that may be ended: one with memory for its stack to give back, not asleep (\<open>kill\<close> leaves a sleeping process on its
  queue) and without an address space of its own, with another process beside the null process left.
\<close>

definition mortal :: "int \<Rightarrow> kernel \<Rightarrow> bool" where
  "mortal p k \<longleftrightarrow> \<not> pruser (proctab k p) \<and> prstate (proctab k p) \<notin> {PR_SLEEP, PR_RECTIM} \<and> 2 < prcount k \<and> prcount k < 2 ^ 31 \<and>
    (\<exists>bs. heap_inv (kvm k) bs \<and> stack_taken k p bs)"

lemma kill_switch_frame:
  assumes "kill_switch c g k = Ret (b, k')"
  shows "if g_prstate g = PR_WAIT then only_count (g_prsem g) k k' else kept k k'"
  using assms unfolding kill_switch_def
  by (auto simp: rbind_Ret_iff Let_def kept_only_count only_count_def set_scount_def upd_sem_def split: pstate.splits if_splits
    dest!: resched_kept unsleep_kept intro: kept_trans)

lemma kill_rest_frame:
  assumes "kill_rest c g k = Ret (r, k')"
  shows "if g_prstate g = PR_WAIT then only_count (g_prsem g) k k' else kept k k'"
proof -
  obtain b k1 where s: "kill_switch c g k = Ret (b, k1)" and "k' = k1 \<or> (\<exists>v. kernel_mode_exit (k1\<lparr>kvm := v\<rparr>) = Ret k')"
    using assms by (auto simp: kill_rest_def rbind_Ret_iff split: if_splits)
  then have k1: "kept k1 k'" by (auto dest!: kernel_mode_kept)
  then show ?thesis using kill_switch_frame [OF s] kept_only_count [OF k1] by (auto intro: kept_trans only_count_trans split: if_splits)
qed

lemma waiting_used:
  assumes "sys_ok k" and "pid_ok p" and "prstate (proctab k p) = PR_WAIT"
  shows "sstate (semtab k (prsem (proctab k p))) \<noteq> S_FREE"
proof -
  let ?s = "prsem (proctab k p)"
  obtain Q where q: "kidle k Q" using assms(1) by (auto simp: sys_ok_def)
  then have b: "placed k Q" "\<not> isbadsem ?s" using assms by (auto simp: kidle_def kinv_def kbase_def procs_ok_def)
  have "home k (proctab k p) = Some (squeue (semtab k ?s))" using assms(3) by (simp add: home_def)
  then have "p \<in> set (Q (squeue (semtab k ?s)))" using b assms(2) squeue_qids [OF b(2)] by (auto simp: placed_def)
  then have "Q (squeue (semtab k ?s)) \<noteq> []" by auto
  then have "scount (semtab k ?s) < 0" using scount_range(3) [OF q b(2)] by (cases "0 \<le> scount (semtab k ?s)") auto
  then show ?thesis using assms(1) b(2) by (auto simp: sys_ok_def sems_ok_def isbadsem_def)
qed

lemma sys_kill:
  assumes ok: "sys_ok k" and d: "console_plain devtab" and m: "isbadpid (proctab k) p \<or> p = NULLPROC \<or> mortal p k"
  shows "\<exists>r g k'. kill devtab p k = Ret (r, g, k') \<and> sys_ok k'"
proof (cases "isbadpid (proctab k) p \<or> p = NULLPROC")
  case False
  then have p: "pid_ok p" "prstate (proctab k p) \<noteq> PR_FREE" "p \<noteq> NULLPROC" by (auto simp: isbadpid_pid_ok)
  obtain Q where q: "kidle k Q" using ok by (auto simp: sys_ok_def)
  obtain bs where t: "\<not> pruser (proctab k p)" "prstate (proctab k p) \<notin> {PR_SLEEP, PR_RECTIM}" "2 < prcount k" "prcount k < 2 ^ 31"
    "heap_inv (kvm k) bs" "stack_taken k p bs" using m False by (auto simp: mortal_def)
  have oc: "on_console (proctab k p)" using ok p(1) by (simp add: sys_ok_def consoles_def)
  obtain r g k' Q' where r: "kill devtab p k = Ret (r, g, k')" "kidle k' Q'"
  proof (cases "p = currpid k")
    case True
    then show ?thesis using kill_self [OF q d _ _ _ t(3-5)] p(3) t(1,6) oc that by blast
  next
    case False
    have "prstate (proctab k p) \<noteq> PR_CURR" using q p(1) False by (auto simp: kidle_def kinv_def)
    then have "prstate (proctab k p) \<in> {PR_READY, PR_WAIT, PR_SUSP, PR_RECV}" using p(2) t(2) by (cases "prstate (proctab k p)") auto
    then show ?thesis using kill_other [OF q d oc p(1,3) False t(1) _ t(3-6)] that by blast
  qed
  obtain m where "kill devtab p k = rbind (kill_rest (currpid k) (victim p (proctab k p)) (killing p m k)) (\<lambda>(r, k'). Ret (r, Some (victim p (proctab k p)), k'))"
    using kill_eq [OF d oc p(1,3,2) t(1,3-6)] by blast
  then have "rbind (kill_rest (currpid k) (victim p (proctab k p)) (killing p m k)) (\<lambda>(r, k'). Ret (r, Some (victim p (proctab k p)), k')) = Ret (r, g, k')"
    using r(1) by simp
  then have "kill_rest (currpid k) (victim p (proctab k p)) (killing p m k) = Ret (r, k')" unfolding rbind_Ret_iff by auto
  note f = kill_rest_frame [OF this]
  have e: "kept k (killing p m k)" by (simp add: kept_def) (simp add: killing_def freed_def kernel_mode_enter_def same_desc_def)
  show ?thesis
  proof (cases "prstate (proctab k p) = PR_WAIT")
    case True
    then have "only_count (prsem (proctab k p)) k k'" using f kept_only_count [OF e] by (auto simp: victim_def intro: only_count_trans)
    then show ?thesis using r sys_only [OF ok r(2) _ waiting_used [OF ok p(1) True]] by blast
  next
    case False
    then have "kept k k'" using f e by (auto simp: victim_def intro: kept_trans)
    then show ?thesis using r sys_kept [OF ok r(2)] by blast
  qed
qed (use ok in \<open>auto simp: kill_def\<close>)

section \<open>The transition system\<close>

datatype syscall =
    Resume int | Suspend int | Chprio int int | Yield
  | Wait int | Signal int | Signaln int int | Semcreate int | Semdelete int | Semreset int int
  | Sleepms int | Send int u32 | Receive | Receive_rest | Recvclr | Recvtime int | Recvtime_rest
  | Create addr addr u32 int string "u32 list" | Kill int | Clock_tick

text \<open>The state after a call; its value goes to the caller.\<close>

definition after :: "('a \<times> kernel) result \<Rightarrow> kernel result" where
  "after r = rbind r (\<lambda>(_, k). Ret k)"

fun exec :: "kernel devtab \<Rightarrow> syscall \<Rightarrow> kernel \<Rightarrow> kernel result" where
  "exec d (Resume p) k = after (resume p k)"
| "exec d (Suspend p) k = after (suspend p k)"
| "exec d (Chprio p n) k = after (chprio p n k)"
| "exec d Yield k = after (yield k)"
| "exec d (Wait s) k = after (wait s k)"
| "exec d (Signal s) k = after (signal s k)"
| "exec d (Signaln s n) k = after (signaln s n k)"
| "exec d (Semcreate c) k = Ret (snd (semcreate c k))"
| "exec d (Semdelete s) k = after (semdelete s k)"
| "exec d (Semreset s c) k = after (semreset s c k)"
| "exec d (Sleepms t) k = after (sleepms t k)"
| "exec d (Send p m) k = after (send p m k)"
| "exec d Receive k = after (receive k)"
| "exec d Receive_rest k = after (receive_rest (currpid k) k)"
| "exec d Recvclr k = after (recvclr k)"
| "exec d (Recvtime w) k = after (recvtime w k)"
| "exec d Recvtime_rest k = after (recvtime_rest (currpid k) k)"
| "exec d (Create initret f ssize prio name args) k = after (create initret f ssize prio name args k)"
| "exec d (Kill p) k = after (rbind (kill d p k) (\<lambda>(r, _, k). Ret (r, k)))"
| "exec d Clock_tick k = clkhandler k"

text \<open>
  What the callers keep to: arguments within their C types, no call that blocks from the null process, no semaphore counted past the
  largest integer, memory for the stacks of new processes, and the conditions on \<open>kill\<close> above.
\<close>

fun admissible :: "syscall \<Rightarrow> kernel \<Rightarrow> bool" where
  "admissible (Chprio p n) k \<longleftrightarrow> - (2 ^ 15) \<le> n \<and> n < 2 ^ 15"
| "admissible (Wait s) k \<longleftrightarrow> currpid k \<noteq> NULLPROC"
| "admissible (Signal s) k \<longleftrightarrow> scount (semtab k s) < 2 ^ 31 - 1"
| "admissible (Signaln s n) k \<longleftrightarrow> scount (semtab k s) + n < 2 ^ 31"
| "admissible (Semcreate c) k \<longleftrightarrow> c < 2 ^ 31"
| "admissible (Semdelete s) k \<longleftrightarrow> scount (semtab k s) < 2 ^ 31 - 1"
| "admissible (Semreset s c) k \<longleftrightarrow> c < 2 ^ 31"
| "admissible (Sleepms t) k \<longleftrightarrow> currpid k \<noteq> NULLPROC \<and> t < 2 ^ 31"
| "admissible Receive k \<longleftrightarrow> currpid k \<noteq> NULLPROC"
| "admissible (Recvtime w) k \<longleftrightarrow> currpid k \<noteq> NULLPROC \<and> w < 2 ^ 31"
| "admissible (Create initret f ssize prio name args) k \<longleftrightarrow> prio < 2 ^ 15 \<and> room ssize args k"
| "admissible (Kill p) k \<longleftrightarrow> isbadpid (proctab k) p \<or> p = NULLPROC \<or> mortal p k"
| "admissible _ k \<longleftrightarrow> True"

inductive runs :: "kernel devtab \<Rightarrow> kernel \<Rightarrow> syscall list \<Rightarrow> kernel \<Rightarrow> bool" for d where
  runs_none: "runs d k [] k"
| runs_call: "runs d k cs k1 \<Longrightarrow> admissible c k1 \<Longrightarrow> exec d c k1 = Ret k2 \<Longrightarrow> runs d k (cs @ [c]) k2"

inductive_cases runs_snocE: "runs d k (cs @ [c]) k2"

lemma after_ok: "\<exists>r k'. x = Ret (r, k') \<and> sys_ok k' \<Longrightarrow> \<exists>k'. after x = Ret k' \<and> sys_ok k'"
  by (auto simp: after_def)

lemma after_kept:
  assumes "sys_ok k" and "\<And>Q. kidle k Q \<Longrightarrow> \<exists>r k' Q'. x = Ret (r, k') \<and> kidle k' Q'" and "\<And>r k'. x = Ret (r, k') \<Longrightarrow> kept k k'"
  shows "\<exists>k'. after x = Ret k' \<and> sys_ok k'"
proof -
  obtain Q where "kidle k Q" using assms(1) by (auto simp: sys_ok_def)
  then obtain r k' Q' where "x = Ret (r, k')" "kidle k' Q'" using assms(2) by blast
  then show ?thesis using sys_kept [OF assms(1)] assms(3) by (auto simp: after_def)
qed

lemma sleepms_idle:
  assumes "kidle k Q" and "currpid k \<noteq> NULLPROC" and "t < 2 ^ 31"
  shows "\<exists>r k' Q'. sleepms t k = Ret (r, k') \<and> kidle k' Q'"
proof (cases "0 < t")
  case True
  then show ?thesis using sleepms_kidle [OF assms(1,2) True assms(3)] by blast
next
  case False
  then show ?thesis using assms(1) yield_kidle [OF assms(1)] by (cases "t = 0") (auto simp: sleepms_def)
qed

lemma recvtime_idle:
  assumes "kidle k Q" and "currpid k \<noteq> NULLPROC" and "w < 2 ^ 31"
  shows "\<exists>r k' Q'. recvtime w k = Ret (r, k') \<and> kidle k' Q'"
proof (cases "0 \<le> w")
  case True
  then show ?thesis using recvtime_kidle [OF assms(1) _ True assms(3)] assms(2) by blast
qed (use assms(1) in \<open>auto simp: recvtime_def\<close>)

lemma rest_idle:
  assumes "kidle k Q"
  shows "\<exists>r k' Q'. receive_rest (currpid k) k = Ret (r, k') \<and> kidle k' Q'" "\<exists>r k' Q'. recvtime_rest (currpid k) k = Ret (r, k') \<and> kidle k' Q'"
proof -
  have p: "pid_ok (currpid k)" using assms kinv_currpid by (auto simp: kidle_def)
  show r: "\<exists>r k' Q'. receive_rest (currpid k) k = Ret (r, k') \<and> kidle k' Q'" using receive_rest_ok [OF p] take_message_kidle [OF assms p] by auto
  show "\<exists>r k' Q'. recvtime_rest (currpid k) k = Ret (r, k') \<and> kidle k' Q'"
    using r recvtime_rest_ok [OF p] assms p by (cases "prhasmsg (proctab k (currpid k))") (auto simp: recvtime_rest_def)
qed

lemma exec_ok:
  assumes "sys_ok k" and "console_plain d" and "admissible c k"
  shows "\<exists>k'. exec d c k = Ret k' \<and> sys_ok k'"
proof (cases c)
  case (Resume p)
  show ?thesis unfolding Resume exec.simps by (rule after_kept [OF assms(1) resume_kidle resume_kept])
next
  case (Suspend p)
  show ?thesis unfolding Suspend exec.simps by (rule after_kept [OF assms(1) suspend_kidle suspend_kept])
next
  case (Chprio p n)
  show ?thesis unfolding Chprio exec.simps by (rule after_kept [OF assms(1) _ chprio_kept]) (use chprio_kidle assms(3) Chprio in \<open>auto, blast\<close>)
next
  case Yield
  show ?thesis unfolding Yield exec.simps by (rule after_kept [OF assms(1) _ yield_kept]) (use yield_kidle in blast)
next
  case (Wait s)
  show ?thesis unfolding Wait exec.simps by (rule after_ok [OF sys_wait [OF assms(1)]]) (use assms(3) Wait in simp)
next
  case (Signal s)
  show ?thesis unfolding Signal exec.simps by (rule after_ok [OF sys_signal [OF assms(1)]]) (use assms(3) Signal in simp)
next
  case (Signaln s n)
  show ?thesis unfolding Signaln exec.simps by (rule after_ok [OF sys_signaln [OF assms(1)]]) (use assms(3) Signaln in simp)
next
  case (Semcreate n)
  show ?thesis using sys_semcreate [OF assms(1), of n "fst (semcreate n k)"] assms(3) by (simp add: Semcreate)
next
  case (Semdelete s)
  show ?thesis unfolding Semdelete exec.simps by (rule after_ok [OF sys_semdelete [OF assms(1)]]) (use assms(3) Semdelete in simp)
next
  case (Semreset s n)
  show ?thesis unfolding Semreset exec.simps by (rule after_ok [OF sys_semreset [OF assms(1)]]) (use assms(3) Semreset in simp)
next
  case (Sleepms t)
  show ?thesis unfolding Sleepms exec.simps by (rule after_kept [OF assms(1) sleepms_idle sleepms_kept]) (use assms(3) Sleepms in simp_all)
next
  case (Send p m)
  show ?thesis unfolding Send exec.simps by (rule after_kept [OF assms(1) _ send_kept]) (use send_kidle in blast)
next
  case Receive
  show ?thesis unfolding Receive exec.simps by (rule after_kept [OF assms(1) _ receive_kept]) (use receive_kidle assms(3) Receive in \<open>auto, blast\<close>)
next
  case Receive_rest
  show ?thesis unfolding Receive_rest exec.simps by (rule after_kept [OF assms(1) rest_idle(1) receive_rest_kept])
next
  case Recvclr
  show ?thesis unfolding Recvclr exec.simps by (rule after_kept [OF assms(1) _ recvclr_kept]) (use recvclr_kidle in blast)
next
  case (Recvtime w)
  show ?thesis unfolding Recvtime exec.simps by (rule after_kept [OF assms(1) recvtime_idle recvtime_kept]) (use assms(3) Recvtime in simp_all)
next
  case Recvtime_rest
  show ?thesis unfolding Recvtime_rest exec.simps by (rule after_kept [OF assms(1) rest_idle(2) recvtime_rest_kept])
next
  case (Create i f ssize prio name args)
  show ?thesis unfolding Create exec.simps by (rule after_ok [OF sys_create [OF assms(1)]]) (use assms(3) Create in simp_all)
next
  case (Kill p)
  show ?thesis using sys_kill [OF assms(1,2), of p] assms(3) by (auto simp: Kill after_def)
next
  case Clock_tick
  obtain Q where "kidle k Q" using assms(1) by (auto simp: sys_ok_def)
  then obtain k' Q' where "clkhandler k = Ret k'" "kidle k' Q'" using clkhandler_kidle by blast
  then show ?thesis using sys_kept [OF assms(1) _ clkhandler_kept] by (auto simp: Clock_tick)
qed

lemma runs_ok: "runs d k cs k' \<Longrightarrow> sys_ok k \<Longrightarrow> console_plain d \<Longrightarrow> sys_ok k'"
proof (induction rule: runs.induct)
  case (runs_call k cs k1 c k2)
  then show ?case using exec_ok [of k1 d c] by simp
qed

text \<open>The waiting processes of a semaphore are those its count says.\<close>

lemma waiting_count:
  assumes q: "kidle k Q" and s: "s \<in> {0..<NSEM}"
  shows "int (card {p. pid_ok p \<and> prstate (proctab k p) = PR_WAIT \<and> prsem (proctab k p) = s}) = max 0 (- scount (semtab k s))"
proof -
  let ?q = "squeue (semtab k s)"
  have g: "\<not> isbadsem s" using s by (simp add: isbadsem_def)
  have b: "kbase k Q" using q by (simp add: kidle_def kinv_def)
  have qq: "?q \<in> qids k" by (rule squeue_qids [OF g])
  have inj: "t = s" if "\<not> isbadsem t" "squeue (semtab k t) = ?q" for t
    using b s that by (auto simp: kbase_def qids_ok_def inj_on_def isbadsem_def)
  have o: "?q \<noteq> readylist k" "?q \<noteq> sleepq k" using b s by (auto simp: kbase_def qids_ok_def)
  have "p \<in> set (Q ?q) \<longleftrightarrow> pid_ok p \<and> prstate (proctab k p) = PR_WAIT \<and> prsem (proctab k p) = s" for p
  proof -
    have "p \<in> set (Q ?q) \<longleftrightarrow> pid_ok p \<and> home k (proctab k p) = Some ?q" using b qq kbase_pids [OF b qq] by (auto simp: kbase_def placed_def)
    moreover have "home k (proctab k p) = Some ?q \<longleftrightarrow> prstate (proctab k p) = PR_WAIT \<and> prsem (proctab k p) = s" if "pid_ok p"
      using b o that inj [of "prsem (proctab k p)"] by (auto simp: home_def kbase_def procs_ok_def split: pstate.splits)
    ultimately show ?thesis by blast
  qed
  then have "{p. pid_ok p \<and> prstate (proctab k p) = PR_WAIT \<and> prsem (proctab k p) = s} = set (Q ?q)" by blast
  moreover have "distinct (Q ?q)" using b qq by (auto simp: kbase_def queues_def queue_rep_def)
  ultimately show ?thesis using scount_range(3) [OF q g] by (simp add: distinct_card)
qed

text \<open>For the examples: the kernel with the null process and one more.\<close>

lemma sys_ok1: "sys_ok kernel1"
proof -
  have "sems_ok kernel1" by (auto simp: sems_ok_def kernel1_def layout_defs)
  moreover have "consoles kernel1" by (simp add: consoles_def on_console_def kernel1_def proc0_def CONSOLE_def)
  ultimately show ?thesis using kidle1 by (auto simp: sys_ok_def)
qed

end
