(* ===== verification/Initialize.thy ===== *)
theory Initialize
  imports BufPool SysCalls
begin

text \<open>
  System start: \<open>sysinit\<close> of \<open>system/initialize.c\<close> and \<open>system/clkinit.c\<close>.

  What talks to the hardware or the console has no counterpart: \<open>kprintf\<close>, \<open>initevec\<close>, \<open>pci_init\<close>, the programming of the timer, and
  \<open>enable_paging\<close>, which sets a bit of \<open>CR0\<close>. The drivers' initialisation routines are those of the device table, an argument.
\<close>

section \<open>Operations\<close>

text \<open>The directory entries for the four page pools, from entry \<open>i\<close> on.\<close>

fun map_pools :: "nat \<Rightarrow> u32 \<Rightarrow> u32 \<Rightarrow> addr \<Rightarrow> vm \<Rightarrow> vm result" where
  "map_pools 0 i null_pdbr dir v = Ret v"
| "map_pools (Suc n) i null_pdbr dir v =
    rbind (create_directory_entry null_pdbr (entry_addr dir i) (- 1) (i * N_PAGE_ENTRIES) 0 N_PAGE_ENTRIES v) (\<lambda>v.
    map_pools n (i + 1) null_pdbr dir v)"

text \<open>The memory part of \<open>sysinit\<close>; the loop \<open>for (i = start_dir; i <= end_dir; i++)\<close> runs \<open>end_dir - start_dir + 1\<close> times.\<close>

definition sysinit_memory :: "addr \<Rightarrow> u32 \<Rightarrow> vm \<Rightarrow> (u32 \<times> vm) result" where
  "sysinit_memory end_addr proc0_pdbr v =
    rbind (init_paging (meminit end_addr v)) (\<lambda>v.
    rbind (create_directory proc0_pdbr v) (\<lambda>(null_pdbr, v).
    let start_page = minpdpt v div PAGE_SIZE;
        end_page = ceil_div (maxvstack v) PAGE_SIZE;
        start_dir = start_page div N_PAGE_ENTRIES;
        end_dir = ceil_div end_page N_PAGE_ENTRIES;
        dir = push_bit PAGE_OFFSET_BITS (pdbr_base null_pdbr) in
    rbind (map_pools (if start_dir \<le> end_dir then unat (end_dir - start_dir) + 1 else 0) start_dir proc0_pdbr dir v) (\<lambda>v.
    Ret (null_pdbr, v))))"

text \<open>A queue of its own for every semaphore, from semaphore \<open>i\<close> on.\<close>

fun init_sems :: "nat \<Rightarrow> int \<Rightarrow> kernel \<Rightarrow> kernel result" where
  "init_sems 0 i k = Ret k"
| "init_sems (Suc n) i k =
    rbind (newqueue (nextqid k) (queuetab k)) (\<lambda>(q, nq, qt).
    let k = upd_sem i (\<lambda>e. e\<lparr>sstate := S_FREE, scount := 0, squeue := q\<rparr>) k in
    init_sems n (i + 1) (k\<lparr>nextqid := nq, queuetab := qt\<rparr>))"

definition init_procs :: "proctab \<Rightarrow> proctab" where
  "init_procs t = (\<lambda>i. if 0 \<le> i \<and> i < NPROC then (t i)\<lparr>prstate := PR_FREE, prname := '''', prstkbase := NULL, prprio := 0\<rparr> else t i)"

definition clkinit :: "kernel \<Rightarrow> kernel result" where
  "clkinit k =
    rbind (newqueue (nextqid k) (queuetab k)) (\<lambda>(q, nq, qt).
    Ret (k\<lparr>sleepq := q, nextqid := nq, queuetab := qt, preempt := QUANTUM, clktime := 0\<rparr>))"

fun init_devs :: "nat \<Rightarrow> int \<Rightarrow> bufs devtab \<Rightarrow> bufs \<Rightarrow> bufs result" where
  "init_devs 0 i devtab b = Ret b"
| "init_devs (Suc n) i devtab b = rbind (init_dev devtab i b) (\<lambda>(_, b). init_devs n (i + 1) devtab b)"

definition sysinit :: "addr \<Rightarrow> bufs devtab \<Rightarrow> bufs \<Rightarrow> bufs result" where
  "sysinit end_addr devtab b =
    (let k = bkern b in
     rbind (sysinit_memory end_addr (pdbr (proctab k 0)) (kvm k)) (\<lambda>(null_pdbr, v).
     let k = k\<lparr>kvm := v, prcount := 1, ndefers := 0, cr3 := null_pdbr, proctab := init_procs (proctab k)\<rparr> in
     rbind (getstk (memlist (kvm k)) NULLSTK (vmem (kvm k))) (\<lambda>(stk, m).
     let k = k\<lparr>kvm := (kvm k)\<lparr>vmem := m\<rparr>\<rparr> in
     rbind (set_proc NULLPROC (\<lambda>e. e\<lparr>prstate := PR_CURR, prprio := 0, prname := ''prnull'', prstkbase := stk,
       prstklen := NULLSTK, prstkptr := 0, pdbr := null_pdbr\<rparr>) k) (\<lambda>k.
     let k = k\<lparr>currpid := NULLPROC\<rparr> in
     rbind (init_sems (nat NSEM) 0 k) (\<lambda>k.
     case bufinit b of (_, b) \<Rightarrow>
     rbind (newqueue (nextqid k) (queuetab k)) (\<lambda>(q, nq, qt).
     let k = k\<lparr>readylist := q, nextqid := nq, queuetab := qt\<rparr> in
     rbind (clkinit k) (\<lambda>k.
     init_devs (nat NDEVS) 0 devtab (b\<lparr>bkern := k\<rparr>))))))))"

section \<open>The tables\<close>

lemma init_sems_ok:
  assumes "\<And>j. j < n \<Longrightarrow> qid_ok (nextqid k + 2 * int j)"
  shows "\<exists>st qt. init_sems n i k = Ret (k\<lparr>semtab := st, queuetab := qt, nextqid := nextqid k + 2 * int n\<rparr>) \<and>
    (\<forall>j < n. st (i + int j) = \<lparr>sstate = S_FREE, scount = 0, squeue = nextqid k + 2 * int j\<rparr> \<and> queue_rep qt (nextqid k + 2 * int j) []) \<and>
    (\<forall>x. x < i \<longrightarrow> st x = semtab k x) \<and> (\<forall>x. x < nextqid k \<longrightarrow> qt x = queuetab k x)"
  using assms
proof (induction n arbitrary: i k)
  case 0
  then show ?case by (intro exI [of _ "semtab k"] exI [of _ "queuetab k"]) simp
next
  case (Suc n)
  let ?q = "nextqid k"
  have q: "qid_ok ?q" using Suc.prems [of 0] by simp
  obtain qt1 where nq: "newqueue ?q (queuetab k) = Ret (?q, ?q + 2, qt1)" "queue_rep qt1 ?q []" "keeps_outside ?q {} (queuetab k) qt1"
    using newqueue_rep [OF q] by blast
  define st1 where "st1 = (semtab k)(i := \<lparr>sstate = S_FREE, scount = 0, squeue = ?q\<rparr>)"
  let ?k = "k\<lparr>semtab := st1, nextqid := ?q + 2, queuetab := qt1\<rparr>"
  have e: "(upd_sem i (\<lambda>e. e\<lparr>sstate := S_FREE, scount := 0, squeue := ?q\<rparr>) k)\<lparr>nextqid := ?q + 2, queuetab := qt1\<rparr> = ?k"
    by (cases "semtab k i") (simp add: upd_sem_def st1_def)
  have "qid_ok (nextqid ?k + 2 * int j)" if "j < n" for j using Suc.prems [of "Suc j"] that by (simp add: algebra_simps)
  from Suc.IH [of ?k "i + 1", OF this] obtain st qt where r: "init_sems n (i + 1) ?k = Ret (?k\<lparr>semtab := st, queuetab := qt, nextqid := ?q + 2 + 2 * int n\<rparr>)"
    "\<forall>j < n. st (i + 1 + int j) = \<lparr>sstate = S_FREE, scount = 0, squeue = ?q + 2 + 2 * int j\<rparr> \<and> queue_rep qt (?q + 2 + 2 * int j) []"
    "\<forall>x. x < i + 1 \<longrightarrow> st x = st1 x" "\<forall>x. x < ?q + 2 \<longrightarrow> qt x = qt1 x"
    by auto
  have run: "init_sems (Suc n) i k = Ret (k\<lparr>semtab := st, queuetab := qt, nextqid := ?q + 2 * int (Suc n)\<rparr>)"
    using nq(1) e r(1) by (simp add: Let_def algebra_simps)
  have here: "queue_rep qt ?q []" using nq(2) r(4) by (simp add: queue_rep_def)
  have "st (i + int j) = \<lparr>sstate = S_FREE, scount = 0, squeue = ?q + 2 * int j\<rparr> \<and> queue_rep qt (?q + 2 * int j) []" if "j < Suc n" for j
  proof (cases j)
    case 0
    then show ?thesis using r(3) here by (simp add: st1_def)
  next
    case (Suc l)
    then show ?thesis using r(2) that by (auto simp: algebra_simps)
  qed
  moreover have "st x = semtab k x" if "x < i" for x using r(3) that by (simp add: st1_def)
  moreover have "qt x = queuetab k x" if "x < ?q" for x using r(4) nq(3) that by (simp add: keeps_outside_def)
  ultimately show ?case using run by blast
qed

text \<open>The kernel the tables describe after the start.\<close>

definition fresh_tables :: "kernel \<Rightarrow> bool" where
  "fresh_tables k \<longleftrightarrow> currpid k = NULLPROC \<and> ndefers k = 0 \<and> readylist k = NPROC + 2 * NSEM \<and> sleepq k = NPROC + 2 * NSEM + 2 \<and>
    (\<forall>s \<in> {0..<NSEM}. semtab k s = \<lparr>sstate = S_FREE, scount = 0, squeue = NPROC + 2 * s\<rparr>) \<and>
    (\<forall>p. pid_ok p \<longrightarrow> prprio (proctab k p) = 0 \<and> prstate (proctab k p) = (if p = NULLPROC then PR_CURR else PR_FREE)) \<and>
    (\<forall>j \<in> {0..NSEM + 1}. queue_rep (queuetab k) (NPROC + 2 * j) [])"

lemma fresh_kidle:
  assumes "fresh_tables k"
  shows "kidle k (\<lambda>_. [])"
proof -
  have sq: "squeue (semtab k s) = NPROC + 2 * s" "scount (semtab k s) = 0" if "s \<in> {0..<NSEM}" for s
    using assms that by (auto simp: fresh_tables_def)
  have ids: "readylist k = NPROC + 2 * NSEM" "sleepq k = NPROC + 2 * (NSEM + 1)" using assms by (simp_all add: fresh_tables_def)
  have qid: "q = NPROC + 2 * NSEM \<or> q = NPROC + 2 * (NSEM + 1) \<or> (\<exists>s \<in> {0..<NSEM}. q = NPROC + 2 * s)" if "q \<in> qids k" for q
    using that sq(1) unfolding qids_def ids by auto
  have "\<exists>j \<in> {0..NSEM + 1}. q = NPROC + 2 * j" if q: "q \<in> qids k" for q
  proof -
    consider "q = NPROC + 2 * NSEM" | "q = NPROC + 2 * (NSEM + 1)" | s where "s \<in> {0..<NSEM}" "q = NPROC + 2 * s"
      using qid [OF q] by blast
    then show ?thesis by cases (auto simp: layout_defs)
  qed
  then have "queue_rep (queuetab k) q []" if "q \<in> qids k" for q using assms that unfolding fresh_tables_def by metis
  then have "queues (qids k) (queuetab k) (\<lambda>_. [])" by (simp add: queues_def)
  moreover have "qids_ok k" using assms sq(1) by (auto simp: qids_ok_def fresh_tables_def inj_on_def)
  moreover have "placed k (\<lambda>_. [])" using assms by (auto simp: placed_def fresh_tables_def home_def)
  moreover have "procs_ok k" using assms by (auto simp: procs_ok_def fresh_tables_def)
  ultimately have "kbase k (\<lambda>_. [])" using assms by (simp add: kbase_def fresh_tables_def desc_def deltas_ok_def)
  then have "kinv k (\<lambda>_. [])" using assms by (auto simp: kinv_def fresh_tables_def)
  moreover have "sem_counts k (\<lambda>_. [])" using sq(2) by (simp add: sem_counts_def)
  ultimately show ?thesis using assms by (simp add: kidle_def fresh_tables_def)
qed

section \<open>Memory\<close>

text \<open>
  The machine at the start: the image of the kernel begins at 1 MB (\<open>compile/ld.script\<close>) and ends at \<open>e\<close>, with the list heads among its
  variables, and the heap ends at a multiple of 4 MB (32 MB in \<open>i386.c\<close>).
\<close>

definition list_heads :: "vm \<Rightarrow> addr list" where
  "list_heads v = [memlist v, pdptlist v, ffslist v, swaplist v, vstacklist v]"

definition boots_at :: "vm \<Rightarrow> addr \<Rightarrow> nat \<Rightarrow> bool" where
  "boots_at v e c \<longleftrightarrow> unat (maxheap v + 1) = 4194304 * c \<and> c \<le> 247 \<and> unat e + 16384 \<le> 4194304 * c \<and>
    (\<forall>h \<in> set (list_heads v). unat HOLEEND + 8 \<le> unat h \<and> unat h + 8 \<le> unat e) \<and>
    distinct (list_heads v) \<and> (\<forall>h \<in> set (list_heads v). \<forall>g \<in> set (list_heads v). h \<noteq> g + 4)"

text \<open>The free list \<open>meminit\<close> makes for such a machine, as the words of memory that hold it.\<close>

definition boot_heap :: "vm \<Rightarrow> addr \<Rightarrow> mem \<Rightarrow> bool" where
  "boot_heap v e m \<longleftrightarrow> m (memlist v) = roundmb e \<and> m (roundmb e) = HOLEEND \<and> m (roundmb e + 4) = truncmb (HOLESTART - e - 4) \<and>
    m HOLEEND = NULL \<and> m (HOLEEND + 4) = truncmb (maxheap v - HOLEEND - NULLSTK)"

definition boot_words :: "vm \<Rightarrow> addr \<Rightarrow> addr set" where
  "boot_words v e = {memlist v, roundmb e, roundmb e + 4, HOLEEND, HOLEEND + 4}"

lemma HOLE_unat: "unat HOLEEND = 1048576" "unat HOLESTART = 655360"
  by (simp_all add: HOLEEND_def HOLESTART_def)

lemma boot_end:
  assumes "boots_at v e c"
  shows "unat e \<le> unat (roundmb e)" "unat (roundmb e) < unat e + 8" "unat (roundmb e + 4) = unat (roundmb e) + 4" "1048576 + 16 \<le> unat e" "unat e + 16384 \<le> 4194304 * c" "c \<le> 247"
proof -
  have b: "unat e + 16384 \<le> 4194304 * c" "c \<le> 247" using assms by (simp_all add: boots_at_def)
  then show "unat e + 16384 \<le> 4194304 * c" "c \<le> 247" by simp_all
  have "unat HOLEEND + 8 \<le> unat (memlist v)" "unat (memlist v) + 8 \<le> unat e" using assms by (simp_all add: boots_at_def list_heads_def)
  then show "1048576 + 16 \<le> unat e" by (simp add: HOLE_unat)
  have "unat e \<le> 2 ^ 32 - 8" using b by simp
  then have r: "unat (roundmb e) = 8 * ((unat e + 7) div 8)" using unat_roundmb by simp
  then show "unat e \<le> unat (roundmb e)" "unat (roundmb e) < unat e + 8" by linarith+
  then have "unat (roundmb e) + 4 < 2 ^ 32" using b by simp
  then show "unat (roundmb e + 4) = unat (roundmb e) + 4" by (subst unat_plus_no_wrap) simp_all
qed

lemma boot_word_range:
  assumes "boots_at v e c" and "x \<in> boot_words v e"
  shows "4096 \<le> unat x" "unat x < 4194304 * c" "\<And>h. h \<in> set (tl (list_heads v)) \<Longrightarrow> x \<noteq> h \<and> x \<noteq> h + 4"
proof -
  note r = boot_end [OF assms(1)]
  have ml: "memlist v \<in> set (list_heads v)" by (simp add: list_heads_def)
  have hd: "1048576 + 8 \<le> unat h" "unat h + 8 \<le> unat e" "unat (h + 4) = unat h + 4" if "h \<in> set (list_heads v)" for h
  proof -
    show h: "1048576 + 8 \<le> unat h" "unat h + 8 \<le> unat e" using assms(1) that by (auto simp: boots_at_def HOLE_unat)
    have "unat h + 4 < 2 ^ 32" using h(2) r(5,6) by simp
    then show "unat (h + 4) = unat h + 4" by (subst unat_plus_no_wrap) simp_all
  qed
  have he4: "unat (HOLEEND + 4) = 1048580" by (simp add: HOLEEND_def)
  show "4096 \<le> unat x" "unat x < 4194304 * c"
    using assms(2) r hd(1,2) [OF ml] he4 by (auto simp: boot_words_def HOLE_unat)
  fix h assume t: "h \<in> set (tl (list_heads v))"
  then have h: "h \<in> set (list_heads v)" by (simp add: list_heads_def)
  have "memlist v \<noteq> h" "memlist v \<noteq> h + 4" using assms(1) t h ml by (auto simp: boots_at_def list_heads_def)
  moreover have "unat (h + 4) < unat (roundmb e)" "unat h < unat (roundmb e)" "unat (h + 4) < unat (roundmb e + 4)" "unat h < unat (roundmb e + 4)"
    "unat HOLEEND < unat h" "unat HOLEEND < unat (h + 4)" "unat (HOLEEND + 4) < unat h" "unat (HOLEEND + 4) < unat (h + 4)"
    using hd [OF h] r(1,3) he4 unfolding HOLE_unat by linarith+
  then have "roundmb e \<noteq> h + 4" "roundmb e \<noteq> h" "roundmb e + 4 \<noteq> h + 4" "roundmb e + 4 \<noteq> h" "HOLEEND \<noteq> h" "HOLEEND \<noteq> h + 4" "HOLEEND + 4 \<noteq> h" "HOLEEND + 4 \<noteq> h + 4"
    by (metis less_irrefl)+
  ultimately show "x \<noteq> h \<and> x \<noteq> h + 4" using assms(2) unfolding boot_words_def by (elim insertE emptyE) (hypsubst, intro conjI, assumption+)+
qed

lemma meminit_boot:
  assumes "boots_at v e c"
  shows "meminit e v = v\<lparr>minheap := e, vmem := vmem (meminit e v)\<rparr>" "boot_heap v e (vmem (meminit e v))"
proof -
  note r = boot_end [OF assms]
  have top: "unat (maxheap v + 1) = 4194304 * c" using assms by (simp add: boots_at_def)
  have ml: "unat (memlist v) + 8 \<le> unat e" "1048576 + 8 \<le> unat (memlist v)" using assms by (simp_all add: boots_at_def list_heads_def HOLE_unat)
  have hole: "maxheap v + 1 > HOLESTART" unfolding word_less_nat_alt top HOLE_unat using r(4,5) by linarith
  have he4: "unat (HOLEEND + 4) = 1048580" by (simp add: HOLEEND_def)
  have "unat (memlist v) \<noteq> unat (roundmb e)" "unat (memlist v) \<noteq> unat (roundmb e + 4)" "unat (memlist v) \<noteq> unat HOLEEND" "unat (memlist v) \<noteq> unat (HOLEEND + 4)"
    "unat (roundmb e) \<noteq> unat (roundmb e + 4)" "unat (roundmb e) \<noteq> unat HOLEEND" "unat (roundmb e) \<noteq> unat (HOLEEND + 4)" "unat (roundmb e + 4) \<noteq> unat HOLEEND"
    "unat (roundmb e + 4) \<noteq> unat (HOLEEND + 4)" "unat HOLEEND \<noteq> unat (HOLEEND + 4)"
    using r ml he4 by (auto simp: HOLE_unat)
  then have ne: "memlist v \<noteq> roundmb e" "memlist v \<noteq> roundmb e + 4" "memlist v \<noteq> HOLEEND" "memlist v \<noteq> HOLEEND + 4"
    "roundmb e \<noteq> roundmb e + 4" "roundmb e \<noteq> HOLEEND" "roundmb e \<noteq> HOLEEND + 4" "roundmb e + 4 \<noteq> HOLEEND" "roundmb e + 4 \<noteq> HOLEEND + 4" "HOLEEND \<noteq> HOLEEND + 4"
    by metis+
  have eq: "meminit e v = v\<lparr>minheap := e, vmem := (vmem v)(memlist v := roundmb e, roundmb e := HOLEEND, roundmb e + 4 := truncmb (HOLESTART - e - 4),
      HOLEEND := NULL, HOLEEND + 4 := truncmb (maxheap v - HOLEEND - NULLSTK))\<rparr>"
    using hole by (simp add: meminit_def Let_def set_mnext_def set_mlength_def)
  then show "meminit e v = v\<lparr>minheap := e, vmem := vmem (meminit e v)\<rparr>" by simp
  show "boot_heap v e (vmem (meminit e v))" unfolding eq boot_heap_def using ne by simp
qed

lemma map_pools_loop: "map_pools n i np d v = dir_loop (\<lambda>_. - 1) n i np d v"
proof (induction n arbitrary: i v)
  case (Suc n)
  have "map_pools n (i + 1) np d = dir_loop (\<lambda>_. - 1) n (i + 1) np d" using Suc.IH by (intro ext)
  then show ?case by simp
qed simp

text \<open>The directory entries that the pools take: eight, from the one at the end of the heap on.\<close>

lemma pool_entries:
  assumes ly: "layout v (1024 * c)" and c: "c \<le> 247"
  shows "minpdpt v div PAGE_SIZE div N_PAGE_ENTRIES = of_nat c" "unat (ceil_div (ceil_div (maxvstack v) PAGE_SIZE) N_PAGE_ENTRIES) = c + 7"
    "unat (kernel_entries v) = c"
proof -
  have lo: "unat (minpdpt v) = 4194304 * c" and hi: "unat (maxvstack v) = 4194304 * c + 26214399" using ly by (simp_all add: layout_def)
  have "unat (minpdpt v div PAGE_SIZE div N_PAGE_ENTRIES) = c" using lo by (simp add: unat_div PAGE_SIZE_def N_PAGE_ENTRIES_def)
  then show "minpdpt v div PAGE_SIZE div N_PAGE_ENTRIES = of_nat c" by (metis u32_of_nat_unat)
  let ?p = "ceil_div (maxvstack v) PAGE_SIZE" and ?q = "ceil_div (minpdpt v) PAGE_SIZE"
  have p: "unat ?p = 1024 * c + 6400" using hi c by (subst unat_ceil_div) (simp_all add: PAGE_SIZE_def)
  show "unat (ceil_div ?p N_PAGE_ENTRIES) = c + 7" using p c by (subst unat_ceil_div) (simp_all add: N_PAGE_ENTRIES_def)
  have q: "unat ?q = 1024 * c" using lo c by (subst unat_ceil_div) (simp_all add: PAGE_SIZE_def)
  show "unat (kernel_entries v) = c" unfolding kernel_entries_def using q c by (subst unat_ceil_div) (simp_all add: N_PAGE_ENTRIES_def)
qed

lemma sysinit_memory_ok:
  assumes bt: "boots_at v e c"
  shows "\<exists>cr v'. sysinit_memory e np v = Ret (cr, v') \<and> 
    (\<forall>m a. (\<forall>x. 4194304 * c \<le> unat x \<longrightarrow> m x = vmem v' x) \<longrightarrow> unat a < 4194304 * (c + 8) \<longrightarrow> translate m cr a = Some a) \<and>
    memlist v' = memlist v \<and> boot_heap v e (vmem v')"
proof -
  define v1 where "v1 = meminit e v"
  note b = boot_end [OF bt] and mi = meminit_boot [OF bt, folded v1_def]
  have f1: "maxheap v1 = maxheap v" "memlist v1 = memlist v" "list_heads v1 = list_heads v" "pdptlist v1 = pdptlist v"
    by (subst mi(1), simp add: list_heads_def)+
  have top: "unat (maxheap v1 + 1) = 4096 * (1024 * c)" using bt f1 by (simp add: boots_at_def)
  have hole: "HOLESTART < maxheap v1 + 1" unfolding word_less_nat_alt top HOLE_unat using b(4,5) by linarith
  have big: "1024 * c + 6400 < 2 ^ 20" using b(6) by simp
  have hl: "distinct (list_heads v1)" "\<And>h. h \<in> set (list_heads v1) \<Longrightarrow> 1048576 + 8 \<le> unat h \<and> unat h + 8 \<le> unat e"
    using bt unfolding f1 boots_at_def HOLE_unat by auto
  have hd: "heads_ok v1 (maxheap v1 + 1)" using hl b(5) top by (fastforce simp: heads_ok_def list_heads_def)
  obtain v2 where v2: "init_paging v1 = Ret v2" "pools_full v2" "layout v2 (1024 * c)" "n_static_pages v2 = - 1" "minpdpt v2 = maxheap v1 + 1" "pdptlist v2 = pdptlist v1"
    "memlist v2 = memlist v1"
    "\<And>x. unat x < 4096 * (1024 * c) \<Longrightarrow> x \<notin> {pdptlist v1, ffslist v1, swaplist v1, vstacklist v1} \<Longrightarrow> vmem v2 x = vmem v1 x"
    by (rule init_paging_pools [OF top hole big hd]) (rule that)
  let ?bs = "[(minpdpt v2, PAGE_SIZE * MAX_PT_SIZE)]" and ?l = "pdptlist v2"
  note pe = pool_entries [OF v2(3) b(6)]
  have lo: "unat (minpdpt v2) = 4194304 * c" using v2(3) by (simp add: layout_def)
  have sz: "unat (PAGE_SIZE * MAX_PT_SIZE) = 4096 * 256" by (simp add: layout_defs)
  have pp: "page_pool ?l (minpdpt v2) (maxpdpt v2) (vmem v2) ?bs" using v2(2) by (simp add: pools_full_def)
  have rg: "4194304 * c \<le> unat x" if "x \<in> region ?bs" for x using that lo by (simp add: bytes_def)
  have c1: "4096 \<le> 4194304 * c" using b(4,5) by linarith
  have pl: "1048576 + 8 \<le> unat ?l" "unat (?l + 4) = unat ?l + 4"
  proof -
    have h: "1048576 + 8 \<le> unat ?l \<and> unat ?l + 8 \<le> unat e" using hl(2) [of ?l] v2(6) by (simp add: list_heads_def)
    then show "1048576 + 8 \<le> unat ?l" by simp
    have "unat ?l + 4 < 2 ^ 32" using h b(5,6) by simp
    then show "unat (?l + 4) = unat ?l + 4" by (subst unat_plus_no_wrap) simp_all
  qed
  have p0: "unat x < 4096" if "x \<in> page 0" for x using that by (simp add: bytes_def)
  have dp: "dir_pages ?l ?bs [0]"
    using rg p0 pl c1 by (fastforce simp: dir_pages_def aligned_def)
  have room: "4096 * (unat (kernel_entries v2) + 1) \<le> free_total ?bs" unfolding pe(3) using sz b(6) by simp
  have small: "unat (kernel_entries v2) \<le> 1024" unfolding pe(3) using b(6) by simp
  obtain cr m3 d ts bs3 where cd: "create_directory np v2 = Ret (cr, v2\<lparr>vmem := m3, n_static_pages := kernel_entries v2\<rparr>)" "frame_addr (pdbr_base cr) = d"
    "flat_dir m3 d ts" "length ts = c" "dir_pages ?l bs3 (0 # d # ts)" "page_pool ?l (minpdpt v2) (maxpdpt v2) m3 bs3"
    "free_total ?bs = free_total bs3 + 4096 * (c + 1)" "region bs3 \<subseteq> region ?bs" "\<forall>p \<in> set (d # ts). page p \<subseteq> region ?bs"
    "\<And>x. x \<notin> region ?bs \<union> {?l, ?l + 4} \<union> page 0 \<Longrightarrow> m3 x = vmem v2 x"
    using create_directory_first [OF pp v2(4) dp room small, of np] unfolding pe(3) by blast
  define v3 where "v3 = v2\<lparr>vmem := m3, n_static_pages := kernel_entries v2\<rparr>"
  have r3: "4096 * 8 \<le> free_total bs3" using cd(7) sz b(6) by simp
  have "\<exists>m4 ts' bs4. dir_loop (\<lambda>_. - 1) 8 (of_nat (length ts)) np d v3 = Ret (v3\<lparr>vmem := m4\<rparr>) \<and> flat_dir m4 d (ts @ ts') \<and>
    length ts' = 8 \<and> dir_pages (pdptlist v3) bs4 (0 # d # ts @ ts') \<and> page_pool (pdptlist v3) (minpdpt v2) (maxpdpt v2) m4 bs4 \<and>
    free_total bs3 = free_total bs4 + 4096 * 8 \<and> region bs4 \<subseteq> region bs3 \<and> (\<forall>t \<in> set ts'. page t \<subseteq> region bs3) \<and>
    (\<forall>x. x \<notin> region bs3 \<union> {pdptlist v3, pdptlist v3 + 4} \<union> page 0 \<union> page d \<longrightarrow> m4 x = vmem v3 x)"
    by (rule dir_loop_fresh) (use cd(3-6) r3 b(6) in \<open>simp_all add: v3_def\<close>)
  then obtain m4 ts' bs4 where mp: "dir_loop (\<lambda>_. - 1) 8 (of_nat c) np d v3 = Ret (v3\<lparr>vmem := m4\<rparr>)" "flat_dir m4 d (ts @ ts')" "length ts' = 8"
    "dir_pages ?l bs4 (0 # d # ts @ ts')" "\<And>x. x \<notin> region bs3 \<union> {?l, ?l + 4} \<union> page 0 \<union> page d \<Longrightarrow> m4 x = m3 x"
    "\<forall>t \<in> set ts'. page t \<subseteq> region bs3"
    using cd(4) by (auto simp: v3_def)
  have "unat (of_nat c :: u32) = c" using b(6) by (intro unat_of_nat_u32) simp
  then have n8: "(if minpdpt v3 div PAGE_SIZE div N_PAGE_ENTRIES \<le> ceil_div (ceil_div (maxvstack v3) PAGE_SIZE) N_PAGE_ENTRIES
      then unat (ceil_div (ceil_div (maxvstack v3) PAGE_SIZE) N_PAGE_ENTRIES - minpdpt v3 div PAGE_SIZE div N_PAGE_ENTRIES) + 1 else 0) = 8"
    using pe(1,2) by (simp add: v3_def word_le_nat_alt unat_minus_le)
  have sd: "minpdpt v3 div PAGE_SIZE div N_PAGE_ENTRIES = of_nat c" using pe(1) by (simp add: v3_def)
  have run: "sysinit_memory e np v = Ret (cr, v3\<lparr>vmem := m4\<rparr>)"
    using v2(1) cd(1,2) mp(1) n8 sd
    by (simp add: sysinit_memory_def v1_def [symmetric] v3_def [symmetric] map_pools_loop frame_addr_def Let_def)
  have pages: "page p \<subseteq> region ?bs" if "p \<in> set (d # ts @ ts')" for p using that cd(8,9) mp(6) by auto
  have tr: "translate m cr a = Some a" if m: "\<forall>x. 4194304 * c \<le> unat x \<longrightarrow> m x = m4 x" and a: "unat a < 4194304 * (c + 8)" for m a
  proof -
    have al: "aligned d" "\<forall>t \<in> set (ts @ ts'). aligned t" using mp(4) by (simp_all add: dir_pages_def)
    have "flat_dir m d (ts @ ts')"
      by (rule flat_dir_frame [OF mp(2) al]) (use pages rg m in blast)
    then have "translate m cr a = (if unat (pd_offset a) < c + 8 then Some a else None)"
      using flat_translate [OF _ al(2) cd(2)] mp(3) cd(4) by simp
    moreover have "unat (pd_offset a) < c + 8"
      using a by (simp add: pd_offset_def drop_bit_eq_div unat_div less_mult_imp_div_less mult.commute)
    ultimately show ?thesis by simp
  qed
  have keep: "m4 x = vmem v1 x" if x: "x \<in> boot_words v e" for x
  proof -
    note w = boot_word_range [OF bt x]
    have h: "x \<notin> {pdptlist v1, ffslist v1, swaplist v1, vstacklist v1}" "x \<notin> {?l, ?l + 4}"
      using w(3) v2(6) unfolding f1(3) [symmetric] by (auto simp: list_heads_def)
    have "x \<notin> region ?bs" "x \<notin> page 0" using rg [of x] p0 [of x] w(1,2) by linarith+
    then have "m4 x = m3 x" "m3 x = vmem v2 x" using mp(5) [of x] cd(8,10) pages [of d] h(2) by auto
    moreover have "vmem v2 x = vmem v1 x" using v2(8) [OF _ h(1)] w(2) by simp
    ultimately show ?thesis by simp
  qed
  then have "boot_heap v e m4" using mi(2) unfolding boot_heap_def by (simp add: boot_words_def)
  then show ?thesis using run tr v2(7) f1(2) by (intro exI [of _ cr] exI [of _ "v3\<lparr>vmem := m4\<rparr>"]) (auto simp: v3_def)
qed

text \<open>The lengths of the two blocks: the first comes from a subtraction that wraps around, as the image lies above \<open>HOLESTART\<close>.\<close>

lemma boot_lengths:
  assumes bt: "boots_at v e c"
  shows "4194304 * c \<le> 1048576 + unat (truncmb (maxheap v - HOLEEND - NULLSTK)) + 8200"
    and "2 ^ 32 \<le> unat (roundmb e) + unat (truncmb (HOLESTART - e - 4))"
proof -
  note b = boot_end [OF bt]
  have top: "unat (maxheap v + 1) = 4194304 * c" using bt by (simp add: boots_at_def)
  have "unat ((maxheap v + 1) - 1) = unat (maxheap v + 1) - unat (1 :: u32)" using top b(4,5) by (intro unat_minus_le) simp
  then have mx: "unat (maxheap v) = 4194304 * c - 1" using top by simp
  have u1: "unat (maxheap v - HOLEEND) = 4194304 * c - 1 - 1048576" using mx b(4,5) by (subst unat_minus_le) (simp_all add: HOLE_unat)
  have u2: "unat (maxheap v - HOLEEND - NULLSTK) = 4194304 * c - 1 - 1048576 - 8192"
    using u1 b(4,5) by (subst unat_minus_le) (simp_all add: NULLSTK_def)
  have "unat (truncmb (maxheap v - HOLEEND - NULLSTK)) = 8 * ((4194304 * c - 1 - 1048576 - 8192) div 8)" unfolding truncmb_def unat_and_not_7 u2 by simp
  then show "4194304 * c \<le> 1048576 + unat (truncmb (maxheap v - HOLEEND - NULLSTK)) + 8200" using b(4,5) by linarith
  have d: "unat (e + 4 - HOLESTART) = unat e + 4 - 655360"
  proof -
    have "unat (e + 4) = unat e + 4" using b(5,6) by (subst unat_plus_no_wrap) simp_all
    then show ?thesis using b(4) by (subst unat_minus_le) (simp_all add: HOLE_unat)
  qed
  have "(unat (HOLESTART - e - 4) + unat (e + 4 - HOLESTART)) mod 2 ^ 32 = unat ((HOLESTART - e - 4) + (e + 4 - HOLESTART))"
    unfolding unat_word_ariths(1) [of "HOLESTART - e - 4"] by simp
  then have "2 ^ 32 dvd unat (HOLESTART - e - 4) + unat (e + 4 - HOLESTART)" by (simp add: dvd_eq_mod_eq_0)
  then have "2 ^ 32 \<le> unat (HOLESTART - e - 4) + unat (e + 4 - HOLESTART)" by (rule dvd_imp_le) (use d b(4) in linarith)
  then have "2 ^ 32 + 655356 \<le> unat (HOLESTART - e - 4) + unat e" using d b(4) by linarith
  then show "2 ^ 32 \<le> unat (roundmb e) + unat (truncmb (HOLESTART - e - 4))" unfolding truncmb_def unat_and_not_7 using b(1) by linarith
qed

lemma getstk_boot:
  assumes bt: "boots_at v e c" and h: "boot_heap v e m"
  shows "\<exists>a m'. getstk (memlist v) NULLSTK m = Ret (a, m') \<and> (\<forall>x. x \<notin> {memlist v + 4, HOLEEND + 4} \<longrightarrow> m' x = m x)"
proof -
  let ?L = "truncmb (maxheap v - HOLEEND - NULLSTK)" and ?E = "roundmb e"
  note b = boot_end [OF bt]
  have L: "8192 < unat ?L" using boot_lengths(1) [OF bt] b(4,5) by linarith
  have n: "roundmb NULLSTK = NULLSTK" by (simp add: roundmb_def NULLSTK_def)
  have fit: "NULLSTK \<le> ?L" "NULLSTK \<noteq> ?L" using L by (auto simp: NULLSTK_def word_le_nat_alt)
  have E: "?E \<noteq> NULL" "HOLEEND \<noteq> NULL" using b(1,4) by (auto simp: NULL_def HOLEEND_def)
  have "getstk_scan m NULLSTK ?E HOLEEND fits fp = Some (HOLEEND, ?E)" for fits fp
    using h E fit by (subst getstk_scan.simps, subst getstk_scan.simps) (simp add: boot_heap_def mnext_def mlength_def)
  then have "getstk_scan m NULLSTK (memlist v) ?E NULL NULL = Some (HOLEEND, ?E)"
    using h E by (subst getstk_scan.simps) (simp add: boot_heap_def mnext_def)
  then have "getstk (memlist v) NULLSTK m = Ret (HOLEEND + (?L - NULLSTK) + NULLSTK - 4,
      (m(HOLEEND + 4 := ?L - NULLSTK))(memlist v + 4 := (m(HOLEEND + 4 := ?L - NULLSTK)) (memlist v + 4) - NULLSTK))"
    using h E fit n by (simp add: getstk_def Let_def boot_heap_def mnext_def mlength_def set_mlength_def NULLSTK_def)
  then show ?thesis by auto
qed

section \<open>The whole start\<close>

definition booted :: "nat \<Rightarrow> bufs \<Rightarrow> bool" where
  "booted c b \<longleftrightarrow> (let k = bkern b in kidle k (\<lambda>_. []) \<and> sems_ok k \<and> consoles k \<and> currpid k = NULLPROC \<and> prcount k = 1 \<and> cr3 k = pdbr (proctab k NULLPROC) \<and>
    (\<forall>a. unat a < 4194304 * (c + 8) \<longrightarrow> translate (vmem (kvm k)) (cr3 k) a = Some a))"

text \<open>The static variables before the start, as the linker initialises them; the descriptors in the process table are 0, which is the console.\<close>

definition cold :: "kernel \<Rightarrow> bool" where
  "cold k \<longleftrightarrow> nextqid k = NPROC \<and> nextsem k = 0 \<and> nextpid k = 1 \<and> consoles k"

lemma sysinit_ok:
  assumes bt: "boots_at (kvm (bkern b)) e c" and cd: "cold (bkern b)"
  shows "\<exists>b'. booted c b' \<and> (\<forall>devtab. sysinit e devtab b = init_devs (nat NDEVS) 0 devtab b')"
proof -
  let ?k = "bkern b"
  obtain cr v where sm: "sysinit_memory e (pdbr (proctab ?k 0)) (kvm ?k) = Ret (cr, v)"
    "\<And>m a. \<forall>x. 4194304 * c \<le> unat x \<longrightarrow> m x = vmem v x \<Longrightarrow> unat a < 4194304 * (c + 8) \<Longrightarrow> translate m cr a = Some a"
    "memlist v = memlist (kvm ?k)" "boot_heap (kvm ?k) e (vmem v)"
    using sysinit_memory_ok [OF bt, of "pdbr (proctab ?k 0)"] by blast
  obtain stk m where gs: "getstk (memlist v) NULLSTK (vmem v) = Ret (stk, m)" "\<forall>x. x \<notin> {memlist v + 4, HOLEEND + 4} \<longrightarrow> m x = vmem v x"
    using getstk_boot [OF bt sm(4)] sm(3) by metis
  define pt where "pt = (init_procs (proctab ?k))(NULLPROC := (init_procs (proctab ?k) NULLPROC)\<lparr>prstate := PR_CURR, prprio := 0, prname := ''prnull'', prstkbase := stk,
       prstklen := NULLSTK, prstkptr := 0, pdbr := cr\<rparr>)"
  define k1 where "k1 = ?k\<lparr>prcount := 1, ndefers := 0, cr3 := cr, kvm := v\<lparr>vmem := m\<rparr>, proctab := pt, currpid := NULLPROC\<rparr>"
  have nq1: "nextqid k1 = NPROC" using cd by (simp add: k1_def cold_def)
  have qok: "qid_ok (NPROC + 2 * int j)" if "j < 102" for j using that by (simp add: qid_ok_def layout_defs)
  have ns: "nat NSEM = 100" by (simp add: layout_defs)
  obtain st qt where se: "init_sems (nat NSEM) 0 k1 = Ret (k1\<lparr>semtab := st, queuetab := qt, nextqid := NPROC + 200\<rparr>)"
    "\<And>j. j < 100 \<Longrightarrow> st (int j) = \<lparr>sstate = S_FREE, scount = 0, squeue = NPROC + 2 * int j\<rparr> \<and> queue_rep qt (NPROC + 2 * int j) []"
    using init_sems_ok [of 100 k1 0] qok unfolding nq1 ns by auto
  obtain qt2 where q2: "newqueue (NPROC + 200) qt = Ret (NPROC + 200, NPROC + 200 + 2, qt2)" "queue_rep qt2 (NPROC + 200) []" "keeps_outside (NPROC + 200) {} qt qt2"
    using newqueue_rep [OF qok [of 100]] by auto
  obtain qt3 where q3: "newqueue (NPROC + 202) qt2 = Ret (NPROC + 202, NPROC + 202 + 2, qt3)" "queue_rep qt3 (NPROC + 202) []" "keeps_outside (NPROC + 202) {} qt2 qt3"
    using newqueue_rep [OF qok [of 101]] by auto
  define k4 where "k4 = k1\<lparr>semtab := st, queuetab := qt3, nextqid := NPROC + 204, readylist := NPROC + 200, sleepq := NPROC + 202, preempt := QUANTUM, clktime := 0\<rparr>"
  define b4 where "b4 = b\<lparr>nbpools := 0, bkern := k4\<rparr>"
  have "booted c b4"
  proof -
    have "fresh_tables k4"
      unfolding fresh_tables_def
    proof (intro conjI ballI allI impI)
      show "semtab k4 s = \<lparr>sstate = S_FREE, scount = 0, squeue = NPROC + 2 * s\<rparr>" if "s \<in> {0..<NSEM}" for s
        using se(2) [of "nat s"] that by (simp add: k4_def layout_defs nat_less_iff)
      show "queue_rep (queuetab k4) (NPROC + 2 * j) []" if j: "j \<in> {0..NSEM + 1}" for j
      proof -
        have "0 \<le> j" "j \<le> 101" using j by (simp_all add: layout_defs)
        then consider "j = 100" | "j = 101" | "0 \<le> j" "j < 100" by linarith
        then show ?thesis
        proof cases
          case 3
          then have "queue_rep qt (NPROC + 2 * j) []" using se(2) [of "nat j"] by (simp add: nat_less_iff)
          then show ?thesis using 3 q2(3) q3(3) by (simp add: k4_def queue_rep_def keeps_outside_def)
        qed (use q2(2) q3 in \<open>auto simp: k4_def queue_rep_def keeps_outside_def\<close>)
      qed
    qed (auto simp: k4_def k1_def pt_def init_procs_def pid_ok_def layout_defs)
    then have "kidle k4 (\<lambda>_. [])" by (rule fresh_kidle)
    moreover have "translate m cr a = Some a" if "unat a < 4194304 * (c + 8)" for a
    proof (rule sm(2) [OF _ that], intro allI impI)
      fix x :: addr assume x: "4194304 * c \<le> unat x"
      have "unat (memlist v) + 8 \<le> unat e" using bt sm(3) by (simp add: boots_at_def list_heads_def)
      moreover from this have "unat (memlist v + 4) = unat (memlist v) + 4" using boot_end(5,6) [OF bt] by (subst unat_plus_no_wrap) simp_all
      ultimately have "unat (memlist v + 4) < unat x" "unat (HOLEEND + 4) < unat x" using x boot_end(4,5) [OF bt] by (simp_all add: HOLEEND_def)
      then have "x \<notin> {memlist v + 4, HOLEEND + 4}" by (metis insertE emptyE less_irrefl)
      then show "m x = vmem v x" using gs(2) by blast
    qed
    moreover have "sems_ok k4"
      using \<open>fresh_tables k4\<close> cd by (auto simp: sems_ok_def fresh_tables_def k4_def k1_def cold_def layout_defs)
    moreover have "consoles k4"
      using cd by (auto simp: cold_def consoles_def on_console_def k4_def k1_def pt_def init_procs_def)
    ultimately show ?thesis by (simp add: booted_def b4_def k4_def k1_def pt_def Let_def)
  qed
  moreover have "sysinit e devtab b = rbind (init_sems (nat NSEM) 0 k1) (\<lambda>k.
     rbind (newqueue (nextqid k) (queuetab k)) (\<lambda>(q, nq, qt).
     rbind (clkinit (k\<lparr>readylist := q, nextqid := nq, queuetab := qt\<rparr>)) (\<lambda>k.
     init_devs (nat NDEVS) 0 devtab (b\<lparr>nbpools := 0, bkern := k\<rparr>))))" for devtab
    using sm(1) gs(1) by (simp add: sysinit_def Let_def bufinit_def k1_def pt_def)
  moreover have "b\<lparr>nbpools := 0, bkern := k1\<lparr>semtab := st, readylist := NPROC + 200, sleepq := NPROC + 202, nextqid := NPROC + 204, queuetab := qt3, preempt := QUANTUM, clktime := 0\<rparr>\<rparr> = b4"
    by (simp add: b4_def k4_def)
  ultimately show ?thesis using se(1) q2(1) q3(1) by (intro exI [of _ b4]) (simp add: clkinit_def add.commute)
qed

section \<open>Properties\<close>

text \<open>
  C16: system start up to the drivers. On a machine whose image begins at 1 MB and whose heap ends at a multiple of 4 MB, with the static variables as the linker sets them,
  \<open>sysinit\<close> does all of its own work without a fault and comes to the loop over the devices, whatever the device table is. The kernel it hands to the drivers has one process, the
  null process, running alone with every queue empty and in order; it is a state from which any calls may follow; and the page directory in use maps every address below the
  end of the page pools to itself, so that the kernel runs on when paging is enabled.
\<close>

theorem sysinit_boots:
  assumes "boots_at (kvm (bkern b)) e c" and "cold (bkern b)"
  shows "\<exists>b'. (\<forall>devtab. sysinit e devtab b = init_devs (nat NDEVS) 0 devtab b') \<and> sys_ok (bkern b') \<and> currpid (bkern b') = NULLPROC \<and> prcount (bkern b') = 1 \<and>
    kidle (bkern b') (\<lambda>_. []) \<and> cr3 (bkern b') = pdbr (proctab (bkern b') NULLPROC) \<and>
    (\<forall>a. unat a < 4194304 * (c + 8) \<longrightarrow> translate (vmem (kvm (bkern b'))) (cr3 (bkern b')) a = Some a)"
  using sysinit_ok [OF assms] by (auto simp: booted_def sys_ok_def Let_def)

text \<open>For the example: 32 MB of memory and an image that ends at 1152 KB.\<close>

definition machine1 :: bufs where
  "machine1 = \<lparr>bkern = kernel1\<lparr>nextqid := NPROC, nextpid := 1\<rparr>, buftab = (\<lambda>_. undefined), nbpools = 0\<rparr>"

lemma boots1: "boots_at boot_vm 0x120000 8"
  by (simp add: boots_at_def list_heads_def boot_vm_def HOLE_unat)

theorem sysinit_boots_witness:
  "\<exists>b'. (\<forall>devtab. sysinit 0x120000 devtab machine1 = init_devs (nat NDEVS) 0 devtab b') \<and> sys_ok (bkern b') \<and> prcount (bkern b') = 1"
proof -
  have "boots_at (kvm (bkern machine1)) 0x120000 8" using boots1 by (simp add: machine1_def kernel1_def)
  moreover have "cold (bkern machine1)"
    by (simp add: machine1_def cold_def kernel1_def consoles_def on_console_def proc0_def CONSOLE_def)
  ultimately show ?thesis using sysinit_boots [of machine1] by blast
qed

text \<open>
  C17: the heap \<open>meminit\<close> makes above the hole. The image is linked at 1 MB, so \<open>HOLESTART - end - 4\<close> wraps around: the first free block begins
  behind the image and runs past the top of the address space, over the page pools, and the second begins at \<open>HOLEEND\<close> and holds
  the whole image of the kernel and the start of the first block.
\<close>

theorem meminit_frees_image:
  assumes "boots_at v e c"
  shows "\<exists>l1 l2. chain (vmem (meminit e v)) (mnext (vmem (meminit e v)) (memlist v)) [(roundmb e, l1), (HOLEEND, l2)] \<and>
    2 ^ 32 \<le> unat (roundmb e) + unat l1 \<and> (\<forall>x. HOLEEND \<le> x \<and> x \<le> roundmb e \<longrightarrow> x \<in> bytes (HOLEEND, l2))"
proof -
  note b = boot_end [OF assms] and l = boot_lengths [OF assms]
  let ?l1 = "truncmb (HOLESTART - e - 4)" and ?l2 = "truncmb (maxheap v - HOLEEND - NULLSTK)"
  have "roundmb e \<noteq> NULL" "HOLEEND \<noteq> NULL" using b(1,4) by (auto simp: NULL_def HOLEEND_def)
  then have "chain (vmem (meminit e v)) (mnext (vmem (meminit e v)) (memlist v)) [(roundmb e, ?l1), (HOLEEND, ?l2)]"
    using meminit_boot(2) [OF assms] by (simp add: boot_heap_def mnext_def mlength_def)
  moreover have "x \<in> bytes (HOLEEND, ?l2)" if "HOLEEND \<le> x" "x \<le> roundmb e" for x
    using that l(1) b by (simp add: bytes_def word_le_nat_alt HOLE_unat)
  ultimately show ?thesis using l(2) by blast
qed

theorem meminit_frees_image_witness:
  "\<exists>l1 l2. chain (vmem (meminit 0x120000 boot_vm)) (mnext (vmem (meminit 0x120000 boot_vm)) (memlist boot_vm)) [(roundmb 0x120000, l1), (HOLEEND, l2)] \<and>
    2 ^ 32 \<le> unat (roundmb 0x120000) + unat l1 \<and> (\<forall>x. HOLEEND \<le> x \<and> x \<le> roundmb 0x120000 \<longrightarrow> x \<in> bytes (HOLEEND, l2))"
  by (rule meminit_frees_image [OF boots1])

end
