(* ===== verification/Names.thy ===== *)
theory Names
  imports DevSwitch
begin

text \<open>
  The syntactic name space: \<open>include/name.h\<close> and \<open>device/nam/\<close> (\<open>mount.c\<close>, \<open>naminit.c\<close>, \<open>nammap.c\<close>, \<open>namopen.c\<close>).

  A string is the bytes from its pointer on, a function of the offset. The buffers on the stack of a routine start with what the stack held, which
  is an argument. A table entry keeps its two character arrays; the walk over a prefix that has no null byte does not end and is \<open>None\<close>.
\<close>

section \<open>State\<close>

type_synonym buf = "nat \<Rightarrow> u8"

definition NM_PRELEN :: nat where "NM_PRELEN = 64"
definition NM_REPLLEN :: nat where "NM_REPLLEN = 96"
definition NM_MAXLEN :: nat where "NM_MAXLEN = 256"
definition NNAMES :: nat where "NNAMES = 40"

record nmentry =
  nprefix :: buf
  nreplace :: buf
  ndevice :: int

record names =
  nametab :: "nat \<Rightarrow> nmentry"
  nnames :: nat

text \<open>The bytes of a string literal, and the literal as a string.\<close>

definition bytes :: "string \<Rightarrow> u8 list" where
  "bytes s = map of_char s"

definition lit :: "u8 list \<Rightarrow> buf" where
  "lit s = (\<lambda>i. if i < length s then s ! i else 0)"

section \<open>Adding a prefix\<close>

fun namlen_loop :: "nat \<Rightarrow> nat \<Rightarrow> buf \<Rightarrow> int" where
  "namlen_loop 0 i name = SYSERR"
| "namlen_loop (Suc n) i name = (if name i = 0 then int i + 1 else namlen_loop n (i + 1) name)"

definition namlen :: "buf \<Rightarrow> nat \<Rightarrow> int" where
  "namlen name maxlen = namlen_loop maxlen 0 name"

text \<open>\<open>n\<close> times \<open>*to++ = *from++\<close>.\<close>

fun copy_bytes :: "nat \<Rightarrow> buf \<Rightarrow> nat \<Rightarrow> buf \<Rightarrow> nat \<Rightarrow> buf" where
  "copy_bytes 0 from i to j = to"
| "copy_bytes (Suc n) from i to j = copy_bytes n from (i + 1) (to(j := from i)) (j + 1)"

definition mount :: "buf \<Rightarrow> buf \<Rightarrow> int \<Rightarrow> names \<Rightarrow> int \<times> names" where
  "mount pfx replace device st =
    (let psiz = namlen pfx NM_PRELEN; rsiz = namlen replace NM_REPLLEN in
     if psiz = SYSERR \<or> rsiz = SYSERR \<or> isbaddev device \<or> nnames st \<ge> NNAMES then (SYSERR, st)
     else
       let e = nametab st (nnames st);
           e = e\<lparr>nprefix := copy_bytes (nat psiz) pfx 0 (nprefix e) 0\<rparr>;
           e = e\<lparr>nreplace := copy_bytes (nat rsiz) replace 0 (nreplace e) 0\<rparr>;
           e = e\<lparr>ndevice := device\<rparr>
       in (OK, st\<lparr>nametab := (nametab st)(nnames st := e), nnames := nnames st + 1\<rparr>))"

section \<open>Mapping a name\<close>

fun namcpy_loop :: "nat \<Rightarrow> nat \<Rightarrow> buf \<Rightarrow> buf \<Rightarrow> int \<times> buf" where
  "namcpy_loop 0 i newname oldname = (SYSERR, newname)"
| "namcpy_loop (Suc n) i newname oldname =
    (let newname = newname(i := oldname i) in
     if newname i = 0 then (OK, newname) else namcpy_loop n (i + 1) newname oldname)"

definition namcpy :: "buf \<Rightarrow> buf \<Rightarrow> nat \<Rightarrow> int \<times> buf" where
  "namcpy newname oldname buflen = namcpy_loop buflen 0 newname oldname"

text \<open>Where the comparison of a prefix with the name stops.\<close>

partial_function (option) match_prefix :: "buf \<Rightarrow> buf \<Rightarrow> nat \<Rightarrow> nat option" where
  "match_prefix pptr optr plen =
    (if pptr plen \<noteq> 0 then
       if pptr plen \<noteq> optr plen then Some plen else match_prefix pptr optr (plen + 1)
     else Some plen)"

text \<open>\<open>olen\<close> is a \<open>char\<close>, so the length is cut to eight bits and read with its sign.\<close>

definition namsubst :: "nmentry \<Rightarrow> nat \<Rightarrow> buf \<Rightarrow> buf \<Rightarrow> int \<times> buf" where
  "namsubst namptr plen name newname =
    (let olen = schar (word_of_int (namlen name NM_MAXLEN));
         rlen = namlen (nreplace namptr) NM_MAXLEN - 1;
         remain = olen - int plen in
     if rlen + remain > int NM_MAXLEN then (SYSERR, newname)
     else
       let newname = copy_bytes (nat rlen) (nreplace namptr) 0 newname 0;
           newname = copy_bytes (nat remain) name plen newname (nat rlen)
       in (ndevice namptr, newname))"

fun namrepl_loop :: "nat \<Rightarrow> nat \<Rightarrow> names \<Rightarrow> buf \<Rightarrow> buf \<Rightarrow> (int \<times> buf) option" where
  "namrepl_loop 0 i st name newname = Some (SYSERR, newname)"
| "namrepl_loop (Suc n) i st name newname =
    (let namptr = nametab st i in
     case match_prefix (nprefix namptr) name 0 of
       None \<Rightarrow> None
     | Some plen \<Rightarrow>
         if nprefix namptr plen \<noteq> 0 then namrepl_loop n (i + 1) st name newname
         else Some (namsubst namptr plen name newname))"

definition namrepl :: "buf \<Rightarrow> buf \<Rightarrow> names \<Rightarrow> (int \<times> buf) option" where
  "namrepl name newname st = namrepl_loop (nnames st) 0 st name newname"

fun nammap_loop :: "nat \<Rightarrow> buf \<Rightarrow> buf \<Rightarrow> int \<Rightarrow> names \<Rightarrow> (int \<times> buf) option" where
  "nammap_loop 0 tmpname newname namdev st = Some (SYSERR, newname)"
| "nammap_loop (Suc n) tmpname newname namdev st =
    (case namrepl tmpname newname st of
       None \<Rightarrow> None
     | Some (newdev, newname) \<Rightarrow>
         if newdev \<noteq> namdev then Some (newdev, newname)
         else nammap_loop n (snd (namcpy tmpname newname NM_MAXLEN)) newname namdev st)"

definition nammap :: "buf \<Rightarrow> buf \<Rightarrow> buf \<Rightarrow> int \<Rightarrow> names \<Rightarrow> (int \<times> buf) option" where
  "nammap tmpname name newname namdev st =
    (case namcpy tmpname name NM_MAXLEN of (r, tmpname) \<Rightarrow>
     if r = SYSERR then Some (SYSERR, newname) else nammap_loop (nnames st) tmpname newname namdev st)"

text \<open>\<open>namopen\<close> goes on through the device switch; \<open>opn\<close> is the open routine of a device, with the name by its bytes.\<close>

definition namopen ::
  "(int \<Rightarrow> buf \<Rightarrow> 'm \<Rightarrow> 'st \<Rightarrow> (int \<times> 'st) result) \<Rightarrow> buf \<Rightarrow> buf \<Rightarrow> int \<Rightarrow> buf \<Rightarrow> 'm \<Rightarrow> names \<Rightarrow> 'st \<Rightarrow> (int \<times> 'st) result" where
  "namopen opn tmpname newname self name mode st s =
    rbind (of_loop (nammap tmpname name newname self st)) (\<lambda>(newdev, newname).
    if newdev = SYSERR then Ret (SYSERR, s)
    else if isbaddev newdev then Ret (SYSERR, s)
    else opn newdev newname mode s)"

section \<open>The names of the devices\<close>

definition NULLDEV :: int where "NULLDEV = 1"
definition RFILESYS :: int where "RFILESYS = 6"
definition LFILESYS :: int where "LFILESYS = 17"

definition lower :: "u8 \<Rightarrow> u8" where
  "lower ch = (if schar ch \<ge> 65 \<and> schar ch \<le> 90 then ch + 32 else ch)"

text \<open>The device name in lower case goes behind the prefix; the loop counts the length.\<close>

function append_name :: "nat \<Rightarrow> nat \<Rightarrow> nat \<Rightarrow> buf \<Rightarrow> buf \<Rightarrow> nat \<times> buf" where
  "append_name len t n nptr tmpstr =
    (if len + 1 < NM_MAXLEN then
       let ch = lower (nptr n); tmpstr = tmpstr(t := ch) in
       if ch = 0 then (len + 1, tmpstr) else append_name (len + 1) (t + 1) (n + 1) nptr tmpstr
     else (len + 1, tmpstr))"
  by pat_completeness auto
termination by (relation "measure (\<lambda>(len, _). NM_MAXLEN - len)") auto

definition devprefix :: "u8 list" where
  "devprefix = bytes ''/dev/''"

fun mount_devices :: "nat \<Rightarrow> nat \<Rightarrow> (nat \<Rightarrow> buf) \<Rightarrow> buf \<Rightarrow> names \<Rightarrow> names" where
  "mount_devices 0 i dvnames tmpstr st = st"
| "mount_devices (Suc n) i dvnames tmpstr st =
    (let len = length devprefix;
         tmpstr = copy_bytes (len + 1) (lit devprefix) 0 tmpstr 0 in
     case append_name len len 0 (dvnames i) tmpstr of (len, tmpstr) \<Rightarrow>
     if len > NM_MAXLEN then mount_devices n (i + 1) dvnames tmpstr st
     else mount_devices n (i + 1) dvnames tmpstr (snd (mount tmpstr (lit []) (int i) st)))"

fun mount_all :: "(u8 list \<times> u8 list \<times> int) list \<Rightarrow> names \<Rightarrow> names" where
  "mount_all [] st = st"
| "mount_all ((p, r, d) # ms) st = mount_all ms (snd (mount (lit p) (lit r) d st))"

definition standard_mounts :: "(u8 list \<times> u8 list \<times> int) list" where
  "standard_mounts =
    [(bytes ''/dev/null'', [], NULLDEV),
     (bytes ''/remote/'', bytes ''remote:'', RFILESYS),
     (bytes ''/local/'', [], LFILESYS),
     (bytes ''/dev/'', [], SYSERR),
     (bytes ''~/'', [], LFILESYS),
     (bytes ''/'', bytes ''root:'', RFILESYS),
     ([], [], LFILESYS)]"

definition naminit :: "(nat \<Rightarrow> buf) \<Rightarrow> buf \<Rightarrow> names \<Rightarrow> int \<times> names" where
  "naminit dvnames tmpstr st =
    (OK, mount_all standard_mounts (mount_devices (nat NDEVS) 0 dvnames tmpstr (st\<lparr>nnames := 0\<rparr>)))"

section \<open>Strings as lists\<close>

definition cbuf :: "buf \<Rightarrow> u8 list \<Rightarrow> bool" where
  "cbuf b s \<longleftrightarrow> (\<forall>i < length s. b i = s ! i) \<and> b (length s) = 0 \<and> 0 \<notin> set s"

lemma cbuf_nth: "cbuf b s \<Longrightarrow> i < length s \<Longrightarrow> b i = s ! i \<and> s ! i \<noteq> 0"
  by (metis cbuf_def nth_mem)

lemma cbuf_end: "cbuf b s \<Longrightarrow> b (length s) = 0"
  by (simp add: cbuf_def)

lemma cbuf_lit: "0 \<notin> set s \<Longrightarrow> cbuf (lit s) s"
  by (simp add: cbuf_def lit_def)

lemma copy_bytes_apply: "copy_bytes n from i to j k = (if j \<le> k \<and> k < j + n then from (i + (k - j)) else to k)"
  by (induction n arbitrary: i to j) (auto simp: Suc_diff_le Suc_diff_Suc intro!: arg_cong [where f = "from"])

lemma cbuf_copy: "cbuf b s \<Longrightarrow> cbuf (copy_bytes (Suc (length s)) b 0 to 0) s"
  by (simp add: cbuf_def copy_bytes_apply del: copy_bytes.simps)

lemma namlen_loop_cbuf: "cbuf b s \<Longrightarrow> i \<le> length s \<Longrightarrow>
  namlen_loop n i b = (if length s < i + n then int (length s) + 1 else SYSERR)"
proof (induction n arbitrary: i)
  case (Suc n)
  then show ?case using cbuf_nth [OF Suc.prems(1), of i] cbuf_end [OF Suc.prems(1)]
    by (cases "i = length s") auto
qed simp

lemma namlen_cbuf: "cbuf b s \<Longrightarrow> namlen b n = (if length s < n then int (length s) + 1 else SYSERR)"
  by (simp add: namlen_def namlen_loop_cbuf)

lemma namcpy_loop_cbuf: "cbuf b s \<Longrightarrow> i \<le> length s \<Longrightarrow> length s < i + n \<Longrightarrow> (\<forall>j < i. new j = b j) \<Longrightarrow>
  \<exists>new'. namcpy_loop n i new b = (OK, new') \<and> cbuf new' s"
proof (induction n arbitrary: i new)
  case (Suc n)
  let ?new = "new(i := b i)"
  show ?case
  proof (cases "i = length s")
    case True
    then show ?thesis using Suc.prems cbuf_end [OF Suc.prems(1)] by (auto simp: cbuf_def)
  next
    case False
    then have "b i \<noteq> 0" "i < length s" using Suc.prems cbuf_nth [OF Suc.prems(1), of i] by auto
    moreover have "\<exists>new'. namcpy_loop n (i + 1) ?new b = (OK, new') \<and> cbuf new' s"
      by (rule Suc.IH) (use Suc.prems \<open>i < length s\<close> in \<open>auto simp: less_Suc_eq\<close>)
    ultimately show ?thesis by (simp add: Let_def)
  qed
qed simp

lemma namcpy_cbuf: "cbuf b s \<Longrightarrow> length s < n \<Longrightarrow> \<exists>new'. namcpy new b n = (OK, new') \<and> cbuf new' s"
  unfolding namcpy_def by (rule namcpy_loop_cbuf) auto

lemma match_prefix_cbuf:
  assumes "cbuf pre p" "cbuf name s" "n \<le> length p" "n \<le> length s" "take n p = take n s"
  shows "\<exists>m. match_prefix pre name n = Some m \<and> (pre m = 0 \<longleftrightarrow> prefix p s) \<and> (pre m = 0 \<longrightarrow> m = length p)"
  using assms(3-5)
proof (induction "length p - n" arbitrary: n)
  case 0
  then have "n = length p" by simp
  then show ?case using 0 cbuf_end [OF assms(1)]
    by (subst match_prefix.simps) (metis order_refl take_all take_is_prefix)
next
  case (Suc k)
  then have n: "n < length p" by simp
  note pn = cbuf_nth [OF assms(1) n]
  show ?case
  proof (cases "n < length s \<and> p ! n = s ! n")
    case True
    then have "take (Suc n) p = take (Suc n) s" using Suc n by (simp add: take_Suc_conv_app_nth)
    moreover have "pre n = name n" using True pn cbuf_nth [OF assms(2), of n] by simp
    ultimately show ?thesis using Suc.hyps(1) [of "Suc n"] Suc.hyps(2) n True pn
      by (subst match_prefix.simps) auto
  next
    case False
    have "\<not> prefix p s"
    proof
      assume "prefix p s"
      then obtain t where "s = p @ t" by (auto simp: prefix_def)
      then show False using False n by (auto simp: nth_append)
    qed
    moreover have "pre n \<noteq> name n"
    proof (cases "n < length s")
      case True
      then show ?thesis using False pn cbuf_nth [OF assms(2), of n] by simp
    next
      case False
      then show ?thesis using pn Suc.prems cbuf_end [OF assms(2)] by (cases "n = length s") auto
    qed
    ultimately show ?thesis using pn by (subst match_prefix.simps) auto
  qed
qed

section \<open>The table as a list of substitutions\<close>

type_synonym subst = "u8 list \<times> u8 list \<times> int"

definition entry_rep :: "nmentry \<Rightarrow> subst \<Rightarrow> bool" where
  "entry_rep e m \<longleftrightarrow> (case m of (p, r, d) \<Rightarrow>
    cbuf (nprefix e) p \<and> cbuf (nreplace e) r \<and> ndevice e = d \<and> length p < NM_PRELEN \<and> length r < NM_REPLLEN)"

definition names_rep :: "names \<Rightarrow> subst list \<Rightarrow> bool" where
  "names_rep st tab \<longleftrightarrow> nnames st = length tab \<and> (\<forall>i < length tab. entry_rep (nametab st i) (tab ! i))"

text \<open>The first prefix that matches is replaced, up to \<open>n\<close> times while the result belongs to the name space.\<close>

definition first_match :: "subst list \<Rightarrow> u8 list \<Rightarrow> (int \<times> u8 list) option" where
  "first_match tab s =
    (case find (\<lambda>(p, _). prefix p s) tab of None \<Rightarrow> None | Some (p, r, d) \<Rightarrow> Some (d, r @ drop (length p) s))"

fun resolve :: "nat \<Rightarrow> subst list \<Rightarrow> int \<Rightarrow> u8 list \<Rightarrow> (int \<times> u8 list) option" where
  "resolve 0 tab self s = None"
| "resolve (Suc n) tab self s =
    (case first_match tab s of
       None \<Rightarrow> None
     | Some (d, t) \<Rightarrow> if d \<noteq> self then Some (d, t) else resolve n tab self t)"

text \<open>No substitution that stays in the name space makes the name longer.\<close>

definition no_growth :: "subst list \<Rightarrow> int \<Rightarrow> bool" where
  "no_growth tab self \<longleftrightarrow> (\<forall>(p, r, d) \<in> set tab. d = self \<longrightarrow> length r \<le> length p)"

definition mountable :: "subst \<Rightarrow> bool" where
  "mountable m \<longleftrightarrow> (case m of (p, r, d) \<Rightarrow> length p < NM_PRELEN \<and> length r < NM_REPLLEN \<and> \<not> isbaddev d)"

lemma mount_rep:
  assumes "names_rep st tab" "cbuf a p" "cbuf b r"
  shows "mount a b d st = (if mountable (p, r, d) \<and> length tab < NNAMES then (OK, snd (mount a b d st)) else (SYSERR, st))"
    and "mountable (p, r, d) \<Longrightarrow> length tab < NNAMES \<Longrightarrow> names_rep (snd (mount a b d st)) (tab @ [(p, r, d)])"
proof -
  have n: "nnames st = length tab" using assms(1) by (simp add: names_rep_def)
  note len = namlen_cbuf [OF assms(2)] namlen_cbuf [OF assms(3)]
  show "mount a b d st = (if mountable (p, r, d) \<and> length tab < NNAMES then (OK, snd (mount a b d st)) else (SYSERR, st))"
    by (simp add: mount_def len n mountable_def Let_def SYSERR_def)
  assume m: "mountable (p, r, d)" "length tab < NNAMES"
  have "nat (int (length xs) + 1) = Suc (length xs)" for xs :: "u8 list" by simp
  then show "names_rep (snd (mount a b d st)) (tab @ [(p, r, d)])"
    using assms(1) m cbuf_copy [OF assms(2)] cbuf_copy [OF assms(3)]
    by (auto simp: mount_def len n mountable_def Let_def SYSERR_def names_rep_def entry_rep_def nth_append less_Suc_eq simp del: copy_bytes.simps)
qed

lemma entry_rep_match:
  assumes "entry_rep e (p, r, d)" "cbuf name s"
  obtains m where "match_prefix (nprefix e) name 0 = Some m"
    "nprefix e m = 0 \<longleftrightarrow> prefix p s" "prefix p s \<Longrightarrow> m = length p"
  using match_prefix_cbuf [of "nprefix e" p name s 0] assms by (auto simp: entry_rep_def)

lemma namrepl_loop_find:
  assumes "\<forall>j < length tab. entry_rep (nametab st (i + j)) (tab ! j)" "cbuf name s"
  shows "case find (\<lambda>(p, _). prefix p s) tab of
      None \<Rightarrow> namrepl_loop (length tab) i st name new = Some (SYSERR, new)
    | Some (p, r, d) \<Rightarrow> prefix p s \<and> (p, r, d) \<in> set tab \<and> (\<exists>e. entry_rep e (p, r, d) \<and>
        namrepl_loop (length tab) i st name new = Some (namsubst e (length p) name new))"
  using assms(1)
proof (induction tab arbitrary: i)
  case (Cons m tab)
  obtain p r d where m: "m = (p, r, d)" by (cases m)
  have e: "entry_rep (nametab st i) (p, r, d)" using Cons.prems m by force
  obtain k where k: "match_prefix (nprefix (nametab st i)) name 0 = Some k"
    "nprefix (nametab st i) k = 0 \<longleftrightarrow> prefix p s" "prefix p s \<Longrightarrow> k = length p"
    using entry_rep_match [OF e assms(2)] by blast
  have "\<forall>j < length tab. entry_rep (nametab st (Suc i + j)) (tab ! j)"
    using Cons.prems by (metis Suc_less_eq add_Suc_shift length_Cons nth_Cons_Suc)
  from Cons.IH [OF this] show ?case
    using e k by (cases "prefix p s") (auto simp: m Let_def split: option.splits prod.splits)
qed simp

lemma schar_of_int: "schar (word_of_int x) = (x + 128) mod 256 - 128"
  by (simp add: schar_def int_word_sint)

lemma namsubst_short:
  assumes "entry_rep e (p, r, d)" "cbuf name s" "prefix p s" "length s < 127"
  shows "\<exists>new'. namsubst e (length p) name new = (d, new') \<and> cbuf new' (r @ drop (length p) s)"
proof -
  obtain t where s: "s = p @ t" using assms(3) by (auto simp: prefix_def)
  have r: "cbuf (nreplace e) r" "length r < 96" "ndevice e = d"
    using assms(1) by (auto simp: entry_rep_def NM_REPLLEN_def)
  have olen: "schar (word_of_int (namlen name NM_MAXLEN)) = int (length s) + 1"
    using assms(4) namlen_cbuf [OF assms(2), of NM_MAXLEN]
    by (simp only: schar_of_int) (simp add: NM_MAXLEN_def)
  have rlen: "namlen (nreplace e) NM_MAXLEN = int (length r) + 1"
    using r namlen_cbuf [OF r(1), of NM_MAXLEN] by (simp add: NM_MAXLEN_def)
  let ?new = "copy_bytes (Suc (length t)) name (length p) (copy_bytes (length r) (nreplace e) 0 new 0) (length r)"
  have "namsubst e (length p) name new = (d, ?new)"
    using assms(4) r s
    by (simp only: namsubst_def olen rlen Let_def) (simp add: NM_MAXLEN_def nat_add_distrib del: copy_bytes.simps)
  moreover have "cbuf ?new (r @ t)"
    unfolding cbuf_def
  proof (intro conjI allI impI)
    fix i assume i: "i < length (r @ t)"
    show "?new i = (r @ t) ! i"
    proof (cases "i < length r")
      case True
      then show ?thesis using cbuf_nth [OF r(1) True] by (simp add: copy_bytes_apply nth_append del: copy_bytes.simps)
    next
      case False
      then show ?thesis using i cbuf_nth [OF assms(2), of "length p + (i - length r)"] s
        by (auto simp: copy_bytes_apply nth_append simp del: copy_bytes.simps)
    qed
  next
    show "?new (length (r @ t)) = 0"
      using cbuf_end [OF assms(2)] s by (simp add: copy_bytes_apply del: copy_bytes.simps)
  next
    show "0 \<notin> set (r @ t)" using r(1) assms(2) s by (auto simp: cbuf_def)
  qed
  ultimately show ?thesis using s by auto
qed

lemma namrepl_first:
  assumes "names_rep st tab" "cbuf name s" "length s < 127"
  shows "case first_match tab s of
      None \<Rightarrow> namrepl name new st = Some (SYSERR, new)
    | Some (d, t) \<Rightarrow> \<exists>new'. namrepl name new st = Some (d, new') \<and> cbuf new' t"
proof -
  have "\<forall>j < length tab. entry_rep (nametab st (0 + j)) (tab ! j)" "nnames st = length tab"
    using assms(1) by (auto simp: names_rep_def)
  with namrepl_loop_find [OF this(1) assms(2), of new] namsubst_short [OF _ assms(2) _ assms(3)] show ?thesis
    by (fastforce simp: first_match_def namrepl_def split: option.splits prod.splits)
qed

lemma first_match_shrinks:
  assumes "first_match tab s = Some (self, t)" "no_growth tab self"
  shows "length t \<le> length s"
proof -
  obtain p r where f: "find (\<lambda>(p, _). prefix p s) tab = Some (p, r, self)" "t = r @ drop (length p) s"
    using assms(1) by (auto simp: first_match_def split: option.splits)
  then have "(p, r, self) \<in> set tab" "prefix p s" by (auto simp: find_Some_iff) (metis nth_mem)
  moreover have "length r \<le> length p" using assms(2) calculation(1) by (auto simp: no_growth_def)
  ultimately show ?thesis using f(2) by (auto simp: prefix_def)
qed

lemma nammap_loop_resolves:
  assumes "names_rep st tab" "no_growth tab self" "self \<noteq> SYSERR" "cbuf tmp s" "length s < 127"
  shows "\<exists>b. nammap_loop n tmp new self st = Some (case resolve n tab self s of None \<Rightarrow> SYSERR | Some (d, _) \<Rightarrow> d, b) \<and>
    (\<forall>d t. resolve n tab self s = Some (d, t) \<longrightarrow> cbuf b t)"
  using assms(4,5)
proof (induction n arbitrary: tmp new s)
  case (Suc n)
  show ?case
  proof (cases "first_match tab s")
    case None
    then show ?thesis using namrepl_first [OF assms(1) Suc.prems, of new] assms(3) by simp
  next
    case (Some dt)
    obtain d t where dt: "dt = (d, t)" by (cases dt)
    obtain b where b: "namrepl tmp new st = Some (d, b)" "cbuf b t"
      using namrepl_first [OF assms(1) Suc.prems, of new] Some dt by auto
    show ?thesis
    proof (cases "d = self")
      case True
      have t: "length t < 127" using first_match_shrinks [OF _ assms(2)] Some dt True Suc.prems(2) le_less_trans by blast
      obtain b' where b': "namcpy tmp b NM_MAXLEN = (OK, b')" "cbuf b' t"
        using namcpy_cbuf [OF b(2), of NM_MAXLEN tmp] t by (auto simp: NM_MAXLEN_def)
      show ?thesis using Suc.IH [OF b'(2) t, of b] b b' Some dt True by auto
    next
      case False
      then show ?thesis using b Some dt by auto
    qed
  qed
qed simp

section \<open>The table \<open>naminit\<close> builds\<close>

declare append_name.simps [simp del]

lemma lower_zero [simp]: "lower 0 = 0" "c \<noteq> 0 \<Longrightarrow> lower c \<noteq> 0"
proof -
  show "lower 0 = 0" by (simp add: lower_def schar_def)
  assume "c \<noteq> 0"
  moreover have "sint c = - 32" if "c + 32 = 0"
  proof -
    have "c = - 32" using that by (simp add: add_eq_0_iff2)
    then show ?thesis by simp
  qed
  ultimately show "lower c \<noteq> 0" by (auto simp: lower_def schar_def)
qed

lemma append_name_run:
  assumes "cbuf b s" "n \<le> length s" "len + (length s - n) + 1 < NM_MAXLEN"
  shows "append_name len t n b tmp = (len + (length s - n) + 1,
    \<lambda>k. if t \<le> k \<and> k < t + (length s - n) then lower (s ! (n + (k - t))) else if k = t + (length s - n) then 0 else tmp k)"
  using assms(2,3)
proof (induction "length s - n" arbitrary: len t n tmp)
  case 0
  then show ?case using cbuf_end [OF assms(1)] by (subst append_name.simps) (auto simp: Let_def fun_eq_iff)
next
  case (Suc m)
  then have n: "n < length s" by simp
  have "append_name (len + 1) (t + 1) (n + 1) b (tmp(t := lower (b n))) = (len + 1 + (length s - (n + 1)) + 1,
    \<lambda>k. if t + 1 \<le> k \<and> k < t + 1 + (length s - (n + 1)) then lower (s ! (n + 1 + (k - (t + 1))))
      else if k = t + 1 + (length s - (n + 1)) then 0 else (tmp(t := lower (b n))) k)"
    by (rule Suc.hyps(1)) (use Suc n in auto)
  moreover have "b n = s ! n" "s ! n \<noteq> 0" using cbuf_nth [OF assms(1) n] by auto
  ultimately show ?case using Suc.prems(2) n
    by (subst append_name.simps) (auto simp: Let_def fun_eq_iff Suc_diff_Suc)
qed

definition dev_mount :: "(nat \<Rightarrow> u8 list) \<Rightarrow> nat \<Rightarrow> subst" where
  "dev_mount nm i = (devprefix @ map lower (nm i), [], int i)"

definition boot_mounts :: "(nat \<Rightarrow> u8 list) \<Rightarrow> subst list" where
  "boot_mounts nm = map (dev_mount nm) [0..<24] @
    [(bytes ''/dev/null'', [], NULLDEV), (bytes ''/remote/'', bytes ''remote:'', RFILESYS), (bytes ''/local/'', [], LFILESYS),
     (bytes ''~/'', [], LFILESYS), (bytes ''/'', bytes ''root:'', RFILESYS), ([], [], LFILESYS)]"

lemma mountable_standard:
  "filter mountable standard_mounts =
    [(bytes ''/dev/null'', [], NULLDEV), (bytes ''/remote/'', bytes ''remote:'', RFILESYS), (bytes ''/local/'', [], LFILESYS),
     (bytes ''~/'', [], LFILESYS), (bytes ''/'', bytes ''root:'', RFILESYS), ([], [], LFILESYS)]"
  by (simp add: standard_mounts_def mountable_def isbaddev_def NDEVS_def NULLDEV_def RFILESYS_def LFILESYS_def SYSERR_def bytes_def NM_PRELEN_def NM_REPLLEN_def)

lemma devprefix_facts: "length devprefix = 5" "0 \<notin> set devprefix"
  by (simp_all add: devprefix_def bytes_def)

lemma device_name:
  assumes "cbuf b s" "length s \<le> 58"
  obtains tmp' where "append_name 5 5 0 b (copy_bytes 6 (lit devprefix) 0 tmp 0) = (length s + 6, tmp')"
    "cbuf tmp' (devprefix @ map lower s)"
proof -
  let ?t = "copy_bytes 6 (lit devprefix) 0 tmp 0"
  let ?t' = "\<lambda>k. if 5 \<le> k \<and> k < 5 + length s then lower (s ! (k - 5)) else if k = 5 + length s then 0 else ?t k"
  have "append_name 5 5 0 b ?t = (length s + 6, ?t')"
    using append_name_run [OF assms(1), of 0 5 5 ?t] assms(2) by (simp add: NM_MAXLEN_def fun_eq_iff)
  moreover have "cbuf ?t' (devprefix @ map lower s)"
    unfolding cbuf_def
  proof (intro conjI allI impI)
    fix i assume "i < length (devprefix @ map lower s)"
    then show "?t' i = (devprefix @ map lower s) ! i"
      by (auto simp: devprefix_facts nth_append copy_bytes_apply lit_def)
  next
    have "lower x \<noteq> 0" if "x \<in> set s" for x using that assms(1) lower_zero(2) by (metis cbuf_def)
    then show "0 \<notin> set (devprefix @ map lower s)" using devprefix_facts(2) by force
  qed (simp add: devprefix_facts)
  ultimately show ?thesis by (rule that)
qed

lemma mount_devices_rep:
  assumes "names_rep st tab" "\<forall>j < n. cbuf (dvnames (i + j)) (nm (i + j)) \<and> length (nm (i + j)) \<le> 58"
    "i + n \<le> 24" "length tab + n \<le> NNAMES"
  shows "names_rep (mount_devices n i dvnames tmp st) (tab @ map (dev_mount nm) [i..<i + n])"
  using assms
proof (induction n arbitrary: i tab tmp st)
  case (Suc n)
  have b: "cbuf (dvnames i) (nm i)" "length (nm i) \<le> 58" using Suc.prems(2) by force+
  obtain tmp' where tmp': "append_name 5 5 0 (dvnames i) (copy_bytes 6 (lit devprefix) 0 tmp 0) = (length (nm i) + 6, tmp')"
    "cbuf tmp' (devprefix @ map lower (nm i))" using device_name [OF b] by blast
  let ?st = "snd (mount tmp' (lit []) (int i) st)"
  have "mountable (devprefix @ map lower (nm i), [], int i)"
    using b(2) Suc.prems(3) by (simp add: mountable_def devprefix_facts NM_PRELEN_def NM_REPLLEN_def isbaddev_def NDEVS_def)
  then have "names_rep ?st (tab @ [dev_mount nm i])"
    using mount_rep(2) [OF Suc.prems(1) tmp'(2) cbuf_lit, of "[]" "int i"] Suc.prems(4) by (simp add: dev_mount_def)
  moreover have "\<forall>j < n. cbuf (dvnames (Suc i + j)) (nm (Suc i + j)) \<and> length (nm (Suc i + j)) \<le> 58"
    using Suc.prems(2) by (metis Suc_less_eq add_Suc_shift)
  ultimately have "names_rep (mount_devices n (Suc i) dvnames tmp' ?st) ((tab @ [dev_mount nm i]) @ map (dev_mount nm) [Suc i..<Suc i + n])"
    using Suc.prems by (intro Suc.IH) auto
  then show ?case using b(2) tmp'(1)
    by (simp add: devprefix_facts NM_MAXLEN_def upt_conv_Cons del: copy_bytes.simps upt_Suc)
qed simp

lemma find_app: "find P (xs @ ys) = (case find P xs of None \<Rightarrow> find P ys | Some x \<Rightarrow> Some x)"
  by (induction xs) auto

lemma mount_all_rep:
  assumes "names_rep st tab" "length tab + length ms \<le> NNAMES" "\<forall>(p, r, d) \<in> set ms. 0 \<notin> set p \<and> 0 \<notin> set r"
  shows "names_rep (mount_all ms st) (tab @ filter mountable ms)"
  using assms
proof (induction ms arbitrary: st tab)
  case (Cons m ms)
  obtain p r d where m: "m = (p, r, d)" by (cases m)
  have "cbuf (lit p) p" "cbuf (lit r) r" using Cons.prems(3) m by (auto intro: cbuf_lit)
  note rep = mount_rep [OF Cons.prems(1) this, of d]
  show ?case
  proof (cases "mountable m")
    case True
    then have "names_rep (snd (mount (lit p) (lit r) d st)) (tab @ [m])" using rep(2) m Cons.prems(2) by simp
    then show ?thesis using Cons.IH [of _ "tab @ [m]"] Cons.prems True m by simp
  next
    case False
    then have "mount (lit p) (lit r) d st = (SYSERR, st)" using rep(1) m by simp
    then show ?thesis using Cons.IH [OF Cons.prems(1)] Cons.prems False m by simp
  qed
qed simp

section \<open>Properties\<close>

text \<open>
  What \<open>naminit\<close> sets up. For device names of at most 58 characters the table gets an entry \<open>/dev/\<close> with the name in lower case for each of the 24
  devices, then \<open>/dev/null\<close>, \<open>/remote/\<close>, \<open>/local/\<close>, \<open>~/\<close>, \<open>/\<close> and the empty prefix. The entry for \<open>/dev/\<close> itself, with \<open>SYSERR\<close> as its device, is refused by
  \<open>mount\<close>: a name below \<open>/dev/\<close> that is no device is therefore not refused but goes to the remote file system, with \<open>root:\<close> in place of the slash.
\<close>

theorem naminit_table:
  assumes "\<forall>i < 24. cbuf (dvnames i) (nm i) \<and> length (nm i) \<le> 58"
  shows "(\<exists>st'. naminit dvnames tmp st = (OK, st') \<and> names_rep st' (boot_mounts nm)) \<and>
    (\<forall>t. (\<forall>i < 24. \<not> prefix (map lower (nm i)) t) \<and> \<not> prefix (bytes ''null'') t \<longrightarrow>
      first_match (boot_mounts nm) (bytes ''/dev/'' @ t) = Some (RFILESYS, bytes ''root:dev/'' @ t))"
proof (intro conjI allI impI)
  have "names_rep (mount_devices 24 0 dvnames tmp (st\<lparr>nnames := 0\<rparr>)) ([] @ map (dev_mount nm) [0..<0 + 24])"
    by (rule mount_devices_rep) (use assms in \<open>auto simp: names_rep_def NNAMES_def\<close>)
  then have dev: "names_rep (mount_devices 24 0 dvnames tmp (st\<lparr>nnames := 0\<rparr>)) (map (dev_mount nm) [0..<24])"
    by (simp only: append_Nil add_0)
  have "names_rep (mount_all standard_mounts (mount_devices 24 0 dvnames tmp (st\<lparr>nnames := 0\<rparr>)))
      (map (dev_mount nm) [0..<24] @ filter mountable standard_mounts)"
    by (rule mount_all_rep [OF dev]) (simp_all add: standard_mounts_def NNAMES_def bytes_def)
  then show "\<exists>st'. naminit dvnames tmp st = (OK, st') \<and> names_rep st' (boot_mounts nm)"
    by (simp add: naminit_def NDEVS_def boot_mounts_def mountable_standard del: upt_Suc)
next
  fix t assume no: "(\<forall>i < 24. \<not> prefix (map lower (nm i)) t) \<and> \<not> prefix (bytes ''null'') t"
  then have "find (\<lambda>(p, _). prefix p (devprefix @ t)) (map (dev_mount nm) [0..<24]) = None"
    by (auto simp: find_None_iff dev_mount_def)
  then show "first_match (boot_mounts nm) (bytes ''/dev/'' @ t) = Some (RFILESYS, bytes ''root:dev/'' @ t)"
    using no by (simp add: boot_mounts_def first_match_def find_app bytes_def devprefix_def)
qed

text \<open>The device names of \<open>system/conf.c\<close>.\<close>

definition dev_names :: "string list" where
  "dev_names = [''CONSOLE'', ''NULLDEV'', ''ETHER0'', ''NAMESPACE'', ''RDISK'', ''RAM0'', ''RFILESYS'', ''RFILE0'', ''RFILE1'', ''RFILE2'', ''RFILE3'',
    ''RFILE4'', ''RFILE5'', ''RFILE6'', ''RFILE7'', ''RFILE8'', ''RFILE9'', ''LFILESYS'', ''LFILE0'', ''LFILE1'', ''LFILE2'', ''LFILE3'', ''LFILE4'', ''LFILE5'']"

definition dev_nm :: "nat \<Rightarrow> u8 list" where
  "dev_nm i = bytes (dev_names ! i)"

definition names0 :: names where
  "names0 = \<lparr>nametab = \<lambda>_. \<lparr>nprefix = \<lambda>_. 0, nreplace = \<lambda>_. 0, ndevice = 0\<rparr>, nnames = 0\<rparr>"

lemma all_less_24: "(\<forall>i < 24. P i) \<longleftrightarrow> (\<forall>i \<in> set [0..<24]. P (i :: nat))"
  by auto

lemma dev_nm_ok: "\<forall>i < 24. 0 \<notin> set (dev_nm i) \<and> length (dev_nm i) \<le> 58"
  unfolding all_less_24 by (simp add: dev_nm_def dev_names_def bytes_def upt_rec)

lemma dev_nm_cbuf: "\<forall>i < 24. cbuf (lit (dev_nm i)) (dev_nm i) \<and> length (dev_nm i) \<le> 58"
  using dev_nm_ok cbuf_lit by blast

theorem naminit_table_witness:
  "(\<exists>st'. naminit (\<lambda>i. lit (dev_nm i)) (\<lambda>_. 0) names0 = (OK, st') \<and> names_rep st' (boot_mounts dev_nm)) \<and>
    first_match (boot_mounts dev_nm) (bytes ''/dev/tape'') = Some (RFILESYS, bytes ''root:dev/tape'')"
proof -
  have "\<forall>i < 24. \<not> prefix (map lower (dev_nm i)) (bytes ''tape'')"
    unfolding all_less_24 by (simp add: dev_nm_def dev_names_def bytes_def upt_rec lower_def schar_def)
  then show ?thesis
    using naminit_table [OF dev_nm_cbuf, of "\<lambda>_. 0" names0] by (auto simp: bytes_def dest!: spec [of _ "bytes ''tape''"])
qed

text \<open>
  C34: A name is resolved by first match. With a table that stands for the substitutions \<open>tab\<close> and a name shorter than 127 characters, \<open>nammap\<close> returns
  the device and the new name that come from replacing, at most as often as the table has entries, the first prefix that matches until the device is
  not the name space itself, and \<open>SYSERR\<close> when nothing matches or the limit is reached. Here no entry that leads back to the name space makes a name longer.
\<close>

theorem nammap_resolves:
  assumes "names_rep st tab" and "no_growth tab self" and "self \<noteq> SYSERR" and "cbuf name s" and "length s < 127"
  shows "\<exists>b. nammap tmp name new self st = Some (case resolve (length tab) tab self s of None \<Rightarrow> SYSERR | Some (d, _) \<Rightarrow> d, b) \<and>
    (\<forall>d t. resolve (length tab) tab self s = Some (d, t) \<longrightarrow> cbuf b t)"
proof -
  obtain tmp' where "namcpy tmp name NM_MAXLEN = (OK, tmp')" "cbuf tmp' s"
    using namcpy_cbuf [OF assms(4), of NM_MAXLEN tmp] assms(5) by (auto simp: NM_MAXLEN_def)
  moreover have "nnames st = length tab" using assms(1) by (simp add: names_rep_def)
  ultimately show ?thesis
    using nammap_loop_resolves [OF assms(1-3) _ assms(5), of tmp' "length tab" new] by (simp add: nammap_def OK_def SYSERR_def)
qed

text \<open>One entry: a name that starts with a slash goes to the remote file system.\<close>

definition names1 :: names where
  "names1 = snd (mount (lit (bytes ''/'')) (lit (bytes ''root:'')) RFILESYS names0)"

lemma names1_rep: "names_rep names1 [(bytes ''/'', bytes ''root:'', RFILESYS)]"
proof -
  have "names_rep names0 []" by (simp add: names_rep_def names0_def)
  moreover have "cbuf (lit (bytes ''/'')) (bytes ''/'')" "cbuf (lit (bytes ''root:'')) (bytes ''root:'')"
    by (simp_all add: cbuf_lit bytes_def)
  moreover have "mountable (bytes ''/'', bytes ''root:'', RFILESYS)"
    by (simp add: mountable_def isbaddev_def NDEVS_def RFILESYS_def bytes_def NM_PRELEN_def NM_REPLLEN_def)
  ultimately show ?thesis using mount_rep(2) [of names0 "[]"] by (simp add: names1_def NNAMES_def)
qed

theorem nammap_resolves_witness:
  "\<exists>b. nammap (\<lambda>_. 0) (lit (bytes ''/etc'')) (\<lambda>_. 0) 3 names1 = Some (RFILESYS, b) \<and> cbuf b (bytes ''root:etc'')"
  using nammap_resolves [OF names1_rep, of 3 "lit (bytes ''/etc'')" "bytes ''/etc''" "\<lambda>_. 0" "\<lambda>_. 0"]
  by (simp add: no_growth_def SYSERR_def RFILESYS_def cbuf_lit first_match_def bytes_def)

text \<open>
  C35: A name of 127 to 254 characters is lost. The length is kept in a \<open>char\<close> and becomes negative, so when the first matching prefix leads to
  another device, \<open>nammap\<close> returns that device but copies only the replacement: no character of the rest and no null byte is stored, and what the
  buffer held behind the replacement stays there.
\<close>

theorem nammap_long_name_lost:
  assumes "names_rep st tab" and "cbuf name s" and "127 \<le> length s" and "length s < 255"
    and "find (\<lambda>(p, _). prefix p s) tab = Some (p, r, d)" and "d \<noteq> self"
  shows "nammap tmp name new self st = Some (d, \<lambda>i. if i < length r then r ! i else new i)"
proof -
  obtain tmp' where tmp': "namcpy tmp name NM_MAXLEN = (OK, tmp')" "cbuf tmp' s"
    using namcpy_cbuf [OF assms(2), of NM_MAXLEN tmp] assms(4) by (auto simp: NM_MAXLEN_def)
  have n: "nnames st = length tab" "\<forall>j < length tab. entry_rep (nametab st (0 + j)) (tab ! j)"
    using assms(1) by (auto simp: names_rep_def)
  obtain e where e: "entry_rep e (p, r, d)" "namrepl tmp' new st = Some (namsubst e (length p) tmp' new)"
    using namrepl_loop_find [OF n(2) tmp'(2), of new] assms(5) n(1) by (auto simp: namrepl_def)
  have r: "cbuf (nreplace e) r" "length r < 96" "ndevice e = d" using e(1) by (auto simp: entry_rep_def NM_REPLLEN_def)
  have olen: "schar (word_of_int (namlen tmp' NM_MAXLEN)) = int (length s) - 255"
  proof -
    have "(int (length s) + 1 + 128) mod 256 = int (length s) + 1 + 128 - 256"
      using assms(3,4) by (subst minus_mod_self2 [symmetric]) (simp add: mod_pos_pos_trivial)
    then show ?thesis
      using assms(4) namlen_cbuf [OF tmp'(2), of NM_MAXLEN] by (simp only: schar_of_int) (simp add: NM_MAXLEN_def)
  qed
  have rlen: "namlen (nreplace e) NM_MAXLEN = int (length r) + 1"
    using r namlen_cbuf [OF r(1), of NM_MAXLEN] by (simp add: NM_MAXLEN_def)
  have "namsubst e (length p) tmp' new = (d, copy_bytes (length r) (nreplace e) 0 new 0)"
    using assms(4) r by (simp only: namsubst_def olen rlen Let_def) (simp add: NM_MAXLEN_def)
  moreover have "copy_bytes (length r) (nreplace e) 0 new 0 = (\<lambda>i. if i < length r then r ! i else new i)"
    using cbuf_nth [OF r(1)] by (auto simp: copy_bytes_apply)
  moreover have "length tab \<noteq> 0" using assms(5) by auto
  then obtain k where "length tab = Suc k" using not0_implies_Suc by blast
  ultimately show ?thesis using tmp'(1) e(2) assms(6) n(1) by (simp add: nammap_def OK_def SYSERR_def)
qed

theorem nammap_long_name_lost_witness:
  "nammap (\<lambda>_. 0) (lit (replicate 200 47)) (\<lambda>_. 1) 3 names1 = Some (RFILESYS, \<lambda>i. if i < 5 then bytes ''root:'' ! i else 1)"
proof -
  have "replicate 200 (47 :: u8) = 47 # replicate 199 47" using replicate_Suc [of 199 "47 :: u8"] by simp
  then have "prefix (bytes ''/'') (replicate 200 47)" by (simp add: bytes_def)
  moreover have "length (bytes ''root:'') = 5" by (simp add: bytes_def)
  ultimately show ?thesis
    using nammap_long_name_lost [OF names1_rep, of "lit (replicate 200 47)" "replicate 200 47" "bytes ''/''" "bytes ''root:''" RFILESYS 3 "\<lambda>_. 0" "\<lambda>_. 1"]
    by (simp add: cbuf_lit RFILESYS_def)
qed

end
