(* ===== verification/Shell.thy ===== *)
theory Shell
  imports Names
begin

text \<open>
  The shell: \<open>include/shell.h\<close>, \<open>shell/lexan.c\<close> and the part of \<open>shell/shell.c\<close> that turns a line into a command (background, redirection, look-up).

  The line is the bytes from its pointer on. The walks over it stop at a newline or null byte only; on a line without either they do not end, which is
  \<open>None\<close>.
\<close>

section \<open>Lexical analysis\<close>

definition SHELL_BUFLEN :: nat where "SHELL_BUFLEN = 128 + 1"
definition SHELL_MAXTOK :: nat where "SHELL_MAXTOK = 32"
definition SH_NEWLINE :: u8 where "SH_NEWLINE = 10"
definition SH_AMPER :: u8 where "SH_AMPER = 38"
definition SH_BLANK :: u8 where "SH_BLANK = 32"
definition SH_TAB :: u8 where "SH_TAB = 9"
definition SH_SQUOTE :: u8 where "SH_SQUOTE = 39"
definition SH_DQUOTE :: u8 where "SH_DQUOTE = 34"
definition SH_LESS :: u8 where "SH_LESS = 60"
definition SH_GREATER :: u8 where "SH_GREATER = 62"

lemmas sh_chars = SH_NEWLINE_def SH_AMPER_def SH_BLANK_def SH_TAB_def SH_SQUOTE_def SH_DQUOTE_def SH_LESS_def SH_GREATER_def

datatype toktype = SH_TOK_AMPER | SH_TOK_LESS | SH_TOK_GREATER | SH_TOK_OTHER

text \<open>The arrays \<open>lexan\<close> fills, its counters, and the length it reports.\<close>

record lexst =
  tokbuf :: buf
  tbindex :: nat
  tok :: "nat \<Rightarrow> nat"
  toktyp :: "nat \<Rightarrow> toktype"
  ntok :: nat
  tlen :: nat

definition put_ch :: "u8 \<Rightarrow> lexst \<Rightarrow> lexst" where
  "put_ch ch s = s\<lparr>tokbuf := (tokbuf s)(tbindex s := ch), tbindex := tbindex s + 1\<rparr>"

definition start_tok :: "toktype \<Rightarrow> lexst \<Rightarrow> lexst" where
  "start_tok ty s = s\<lparr>tok := (tok s)(ntok s := tbindex s), toktyp := (toktyp s)(ntok s := ty)\<rparr>"

definition count_tok :: "lexst \<Rightarrow> lexst" where
  "count_tok s = s\<lparr>ntok := ntok s + 1\<rparr>"

partial_function (option) skip_blanks :: "buf \<Rightarrow> nat \<Rightarrow> nat option" where
  "skip_blanks line p = (if line p = SH_BLANK \<or> line p = SH_TAB then skip_blanks line (p + 1) else Some p)"

text \<open>Both copying loops return the character they stopped at.\<close>

partial_function (option) copy_quoted :: "u8 \<Rightarrow> buf \<Rightarrow> nat \<Rightarrow> lexst \<Rightarrow> (u8 \<times> nat \<times> lexst) option" where
  "copy_quoted quote line p s =
    (let ch = line p in
     if ch \<noteq> quote \<and> ch \<noteq> SH_NEWLINE \<and> ch \<noteq> 0 then copy_quoted quote line (p + 1) (put_ch ch s)
     else Some (ch, p + 1, s))"

definition word_char :: "u8 \<Rightarrow> bool" where
  "word_char ch \<longleftrightarrow> ch \<noteq> SH_NEWLINE \<and> ch \<noteq> 0 \<and> ch \<noteq> SH_LESS \<and> ch \<noteq> SH_GREATER \<and> ch \<noteq> SH_BLANK \<and> ch \<noteq> SH_TAB \<and>
    ch \<noteq> SH_AMPER \<and> ch \<noteq> SH_SQUOTE \<and> ch \<noteq> SH_DQUOTE"

partial_function (option) copy_word :: "buf \<Rightarrow> nat \<Rightarrow> lexst \<Rightarrow> (u8 \<times> nat \<times> lexst) option" where
  "copy_word line p s =
    (let ch = line p in
     if word_char ch then copy_word line (p + 1) (put_ch ch s) else Some (ch, p, s))"

definition special_type :: "u8 \<Rightarrow> toktype option" where
  "special_type ch =
    (if ch = SH_AMPER then Some SH_TOK_AMPER
     else if ch = SH_LESS then Some SH_TOK_LESS
     else if ch = SH_GREATER then Some SH_TOK_GREATER
     else None)"

partial_function (option) lexan_loop :: "buf \<Rightarrow> nat \<Rightarrow> lexst \<Rightarrow> (int \<times> lexst) option" where
  "lexan_loop line p s =
    (if line p = 0 \<or> line p = SH_NEWLINE then Some (int (ntok s), s\<lparr>tlen := tbindex s\<rparr>)
     else if ntok s \<ge> SHELL_MAXTOK then Some (SYSERR, s)
     else
       case skip_blanks line p of
         None \<Rightarrow> None
       | Some p \<Rightarrow>
           let ch = line p in
           if ch = SH_NEWLINE \<or> ch = 0 then Some (int (ntok s), s\<lparr>tlen := tbindex s\<rparr>)
           else
             case special_type ch of
               Some ty \<Rightarrow> lexan_loop line (p + 1) (count_tok (put_ch 0 (put_ch ch (start_tok ty s))))
             | None \<Rightarrow>
                 let s = start_tok SH_TOK_OTHER s in
                 if ch = SH_SQUOTE \<or> ch = SH_DQUOTE then
                   (case copy_quoted ch line (p + 1) s of
                      None \<Rightarrow> None
                    | Some (c, p, s) \<Rightarrow>
                        if c \<noteq> ch then Some (SYSERR, s) else lexan_loop line p (count_tok (put_ch 0 s)))
                 else
                   case copy_word line (p + 1) (put_ch ch s) of
                     None \<Rightarrow> None
                   | Some (c, p, s) \<Rightarrow>
                       if c = SH_SQUOTE \<or> c = SH_DQUOTE \<or> c = SH_LESS \<or> c = SH_GREATER then Some (SYSERR, s)
                       else lexan_loop line p (count_tok (put_ch 0 s)))"

definition lexan :: "buf \<Rightarrow> lexst \<Rightarrow> (int \<times> lexst) option" where
  "lexan line s = lexan_loop line 0 (s\<lparr>ntok := 0, tbindex := 0\<rparr>)"

section \<open>The command\<close>

text \<open>Redirected names are the token that holds them; \<open>None\<close> is a null pointer.\<close>

record command =
  backgnd :: bool
  inname :: "nat option"
  outname :: "nat option"
  cntok :: nat
  ctlen :: nat

definition background :: "lexst \<Rightarrow> command" where
  "background s =
    (if toktyp s (ntok s - 1) = SH_TOK_AMPER
     then \<lparr>backgnd = True, inname = None, outname = None, cntok = ntok s - 1, ctlen = tlen s - 2\<rparr>
     else \<lparr>backgnd = False, inname = None, outname = None, cntok = ntok s, ctlen = tlen s\<rparr>)"

text \<open>
  One redirection at the end of the line, \<open>None\<close> for a syntax error. The second one in the source also refuses a name that is already set; at the first
  none is set, so the same step serves both.
\<close>

definition redirect :: "lexst \<Rightarrow> command \<Rightarrow> command option" where
  "redirect s c =
    (let n = cntok c in
     if n \<ge> 3 \<and> (toktyp s (n - 2) = SH_TOK_LESS \<or> toktyp s (n - 2) = SH_TOK_GREATER) then
       if toktyp s (n - 1) \<noteq> SH_TOK_OTHER then None
       else if toktyp s (n - 2) = SH_TOK_LESS then
         if inname c \<noteq> None then None else Some (c\<lparr>inname := Some (n - 1), cntok := n - 2, ctlen := tok s (n - 2)\<rparr>)
       else
         if outname c \<noteq> None then None else Some (c\<lparr>outname := Some (n - 1), cntok := n - 2, ctlen := tok s (n - 2)\<rparr>)
     else Some c)"

fun all_other :: "nat \<Rightarrow> lexst \<Rightarrow> bool" where
  "all_other 0 s \<longleftrightarrow> True"
| "all_other (Suc i) s \<longleftrightarrow> all_other i s \<and> toktyp s i = SH_TOK_OTHER"

definition parse_command :: "lexst \<Rightarrow> command option" where
  "parse_command s =
    (case redirect s (background s) of
       None \<Rightarrow> None
     | Some c \<Rightarrow>
         (case redirect s c of
            None \<Rightarrow> None
          | Some c \<Rightarrow> if cntok c = 0 \<or> \<not> all_other (cntok c) s then None else Some c))"

text \<open>The comparison of a command's name with the first token.\<close>

partial_function (option) same_name :: "buf \<Rightarrow> buf \<Rightarrow> nat \<Rightarrow> bool option" where
  "same_name src cmp i =
    (if src i \<noteq> 0 then if cmp i \<noteq> src i then Some False else same_name src cmp (i + 1)
     else Some (cmp i = 0))"

fun lookup_cmd :: "nat \<Rightarrow> nat \<Rightarrow> (nat \<Rightarrow> buf) \<Rightarrow> buf \<Rightarrow> nat option" where
  "lookup_cmd 0 j cname cmp = Some j"
| "lookup_cmd (Suc n) j cname cmp =
    (case same_name (cname j) cmp 0 of
       None \<Rightarrow> None
     | Some eq \<Rightarrow> if eq then Some j else lookup_cmd n (j + 1) cname cmp)"

section \<open>Tokens as a list\<close>

datatype token = Amper | Less | Greater | Other "u8 list"

fun tok_bytes :: "token \<Rightarrow> u8 list" where
  "tok_bytes Amper = [38]"
| "tok_bytes Less = [60]"
| "tok_bytes Greater = [62]"
| "tok_bytes (Other w) = w"

fun tok_type :: "token \<Rightarrow> toktype" where
  "tok_type Amper = SH_TOK_AMPER"
| "tok_type Less = SH_TOK_LESS"
| "tok_type Greater = SH_TOK_GREATER"
| "tok_type (Other w) = SH_TOK_OTHER"

definition flat :: "token list \<Rightarrow> u8 list" where
  "flat ts = concat (map (\<lambda>t. tok_bytes t @ [0]) ts)"

definition holds :: "lexst \<Rightarrow> u8 list \<Rightarrow> bool" where
  "holds s bs \<longleftrightarrow> tbindex s = length bs \<and> (\<forall>i < length bs. tokbuf s i = bs ! i)"

definition toks_rep :: "lexst \<Rightarrow> token list \<Rightarrow> bool" where
  "toks_rep s ts \<longleftrightarrow> ntok s = length ts \<and>
    (\<forall>i < length ts. tok s i = length (flat (take i ts)) \<and> toktyp s i = tok_type (ts ! i))"

text \<open>
  The reference, with the classes of characters written out by their codes: tab and space separate tokens; quotes, the ampersand and the angle brackets end a word.
  \<open>n\<close> tokens were found before the characters given, which are those before the end of the line; a line has at most 32 tokens.
\<close>

definition blank :: "u8 \<Rightarrow> bool" where
  "blank ch \<longleftrightarrow> ch \<in> {9, 32}"

definition quote_char :: "u8 \<Rightarrow> bool" where
  "quote_char ch \<longleftrightarrow> ch \<in> {34, 39}"

definition ends_word :: "u8 \<Rightarrow> bool" where
  "ends_word ch \<longleftrightarrow> ch \<in> {0, 9, 10, 32, 34, 38, 39, 60, 62}"

definition special_tok :: "u8 \<Rightarrow> token option" where
  "special_tok ch = map_of [(38, Amper), (60, Less), (62, Greater)] ch"

function lex_ref :: "nat \<Rightarrow> u8 list \<Rightarrow> token list option" where
  "lex_ref n cs =
    (if cs = [] then Some []
     else if n \<ge> 32 then None
     else
       case dropWhile blank cs of
         [] \<Rightarrow> Some []
       | c # r \<Rightarrow>
           (case special_tok c of
              Some t \<Rightarrow> map_option ((#) t) (lex_ref (Suc n) r)
            | None \<Rightarrow>
                if quote_char c then
                  (case dropWhile (\<lambda>x. x \<noteq> c) r of
                     [] \<Rightarrow> None
                   | _ # r' \<Rightarrow> map_option ((#) (Other (takeWhile (\<lambda>x. x \<noteq> c) r))) (lex_ref (Suc n) r'))
                else
                  let r' = dropWhile (\<lambda>x. \<not> ends_word x) r in
                  if r' \<noteq> [] \<and> hd r' \<in> {34, 39, 60, 62} then None
                  else map_option ((#) (Other (c # takeWhile (\<lambda>x. \<not> ends_word x) r))) (lex_ref (Suc n) r')))"
  by pat_completeness auto
termination by (relation "measure (\<lambda>(n, _). 32 - n)") auto

declare lex_ref.simps [simp del]

text \<open>The same classes in the code.\<close>

lemma blank_code: "blank ch \<longleftrightarrow> ch = SH_BLANK \<or> ch = SH_TAB"
  by (auto simp: blank_def sh_chars)

lemma quote_char_code: "quote_char ch \<longleftrightarrow> ch = SH_SQUOTE \<or> ch = SH_DQUOTE"
  by (auto simp: quote_char_def sh_chars)

lemma word_char_code: "(\<lambda>x. \<not> ends_word x) = word_char"
  by (rule ext) (auto simp: ends_word_def word_char_def sh_chars)

lemma special_tok_code:
  "special_tok ch = (if ch = SH_AMPER then Some Amper else if ch = SH_LESS then Some Less else if ch = SH_GREATER then Some Greater else None)"
  by (simp add: special_tok_def sh_chars)

lemma lex_ref_code:
  "lex_ref n cs =
    (if cs = [] then Some []
     else if n \<ge> SHELL_MAXTOK then None
     else
       case dropWhile blank cs of
         [] \<Rightarrow> Some []
       | c # r \<Rightarrow>
           (case special_tok c of
              Some t \<Rightarrow> map_option ((#) t) (lex_ref (Suc n) r)
            | None \<Rightarrow>
                if quote_char c then
                  (case dropWhile (\<lambda>x. x \<noteq> c) r of
                     [] \<Rightarrow> None
                   | _ # r' \<Rightarrow> map_option ((#) (Other (takeWhile (\<lambda>x. x \<noteq> c) r))) (lex_ref (Suc n) r'))
                else
                  let r' = dropWhile word_char r in
                  if r' \<noteq> [] \<and> (quote_char (hd r') \<or> hd r' = SH_LESS \<or> hd r' = SH_GREATER) then None
                  else map_option ((#) (Other (c # takeWhile word_char r))) (lex_ref (Suc n) r')))"
proof -
  have h: "hd r' \<in> {34, 39, 60, 62} \<longleftrightarrow> quote_char (hd r') \<or> hd r' = SH_LESS \<or> hd r' = SH_GREATER" for r'
    by (auto simp: quote_char_def sh_chars)
  show ?thesis unfolding word_char_code [symmetric] h [symmetric] SHELL_MAXTOK_def by (rule lex_ref.simps)
qed

lemma lex_ref_length: "lex_ref n cs = Some ts \<Longrightarrow> n \<le> 32 \<Longrightarrow> n + length ts \<le> 32"
proof (induction "32 - n" arbitrary: n cs ts)
  case 0
  then show ?case by (simp add: lex_ref.simps [of 32 cs] split: if_splits)
next
  case (Suc k)
  have IH: "Suc n + length us \<le> 32" if "lex_ref (Suc n) r = Some us" for r us
    using Suc.hyps(1) [of "Suc n" r us] Suc.hyps(2) that by simp
  show ?case
    using Suc.prems Suc.hyps(2) by (auto simp: lex_ref.simps [of n cs] Let_def dest!: IH split: if_splits list.splits option.splits)
qed

section \<open>\<open>lexan\<close> computes the reference\<close>

primrec line_at :: "buf \<Rightarrow> nat \<Rightarrow> u8 list \<Rightarrow> bool" where
  "line_at line p [] \<longleftrightarrow> line p = 0 \<or> line p = SH_NEWLINE"
| "line_at line p (c # cs) \<longleftrightarrow> line p = c \<and> c \<noteq> 0 \<and> c \<noteq> SH_NEWLINE \<and> line_at line (Suc p) cs"

definition same_toks :: "lexst \<Rightarrow> lexst \<Rightarrow> bool" where
  "same_toks s s' \<longleftrightarrow> tok s' = tok s \<and> toktyp s' = toktyp s \<and> ntok s' = ntok s"

lemma same_toks_intros [simp, intro]:
  "same_toks s s" "same_toks s s' \<Longrightarrow> same_toks s (put_ch c s')" "same_toks (put_ch c s) s' \<Longrightarrow> same_toks s s'"
  by (auto simp: same_toks_def put_ch_def)

lemma holds_put: "holds s bs \<Longrightarrow> holds (put_ch c s) (bs @ [c])"
  by (auto simp: holds_def put_ch_def nth_append less_Suc_eq)

lemma holds_start [simp]: "holds (start_tok ty s) bs = holds s bs"
  by (simp add: holds_def start_tok_def)

lemma skip_blanks_run: "line_at line p cs \<Longrightarrow> \<exists>q. skip_blanks line p = Some q \<and> line_at line q (dropWhile blank cs)"
proof (induction cs arbitrary: p)
  case Nil
  then show ?case by (subst skip_blanks.simps) (auto simp: sh_chars)
next
  case (Cons c cs)
  then show ?case by (subst skip_blanks.simps) (auto simp: blank_code [of c])
qed

lemma copy_quoted_run:
  assumes "line_at line p cs" "holds s bs" "quote_char q"
  shows "\<exists>c p' s'. copy_quoted q line p s = Some (c, p', s') \<and> holds s' (bs @ takeWhile (\<lambda>x. x \<noteq> q) cs) \<and> same_toks s s' \<and>
    (case dropWhile (\<lambda>x. x \<noteq> q) cs of [] \<Rightarrow> c \<noteq> q | _ # r \<Rightarrow> c = q \<and> line_at line p' r)"
  using assms(1,2)
proof (induction cs arbitrary: p s bs)
  case Nil
  then show ?case using assms(3) by (subst copy_quoted.simps) (auto simp: Let_def quote_char_code sh_chars)
next
  case (Cons c cs)
  show ?case
  proof (cases "c = q")
    case True
    then show ?thesis using Cons.prems by (subst copy_quoted.simps) (auto simp: Let_def)
  next
    case False
    have "holds (put_ch c s) (bs @ [c])" using Cons.prems(2) by (rule holds_put)
    with Cons.IH [of "Suc p" "put_ch c s" "bs @ [c]"] False Cons.prems(1) show ?thesis
      by (subst copy_quoted.simps) (fastforce simp: Let_def split: list.splits)
  qed
qed

lemma copy_word_run:
  assumes "line_at line p cs" "holds s bs"
  shows "\<exists>p' s'. copy_word line p s = Some (line p', p', s') \<and> holds s' (bs @ takeWhile word_char cs) \<and> same_toks s s' \<and>
    line_at line p' (dropWhile word_char cs)"
  using assms
proof (induction cs arbitrary: p s bs)
  case Nil
  then show ?case by (subst copy_word.simps) (auto simp: Let_def word_char_def)
next
  case (Cons c cs)
  show ?case
  proof (cases "word_char c")
    case True
    have "holds (put_ch c s) (bs @ [c])" using Cons.prems(2) by (rule holds_put)
    with Cons.IH [of "Suc p" "put_ch c s" "bs @ [c]"] True Cons.prems(1) show ?thesis
      by (subst copy_word.simps) (fastforce simp: Let_def)
  next
    case False
    then show ?thesis using Cons.prems by (subst copy_word.simps) (auto simp: Let_def)
  qed
qed

lemma flat_snoc: "flat (ts @ [t]) = flat ts @ tok_bytes t @ [0]"
  by (simp add: flat_def)

lemma tok_step:
  assumes "holds s (flat ts)" "toks_rep s ts" "holds s1 (flat ts @ tok_bytes t)" "same_toks (start_tok (tok_type t) s) s1"
  shows "holds (count_tok (put_ch 0 s1)) (flat (ts @ [t])) \<and> toks_rep (count_tok (put_ch 0 s1)) (ts @ [t])"
proof
  have "holds (put_ch 0 s1) ((flat ts @ tok_bytes t) @ [0])" using assms(3) by (rule holds_put)
  then show "holds (count_tok (put_ch 0 s1)) (flat (ts @ [t]))" by (simp add: flat_snoc holds_def count_tok_def)
  show "toks_rep (count_tok (put_ch 0 s1)) (ts @ [t])"
    using assms(1,2,4)
    by (auto simp: toks_rep_def count_tok_def put_ch_def same_toks_def start_tok_def holds_def nth_append less_Suc_eq)
qed

lemma special_match: "special_type c = map_option tok_type (special_tok c)" "special_tok c = Some t \<Longrightarrow> tok_bytes t = [c]"
  by (auto simp: special_type_def special_tok_code sh_chars split: if_splits)

text \<open>What the loop promises from a state that holds the tokens \<open>ts\<close>.\<close>

definition lex_post :: "token list \<Rightarrow> u8 list \<Rightarrow> token list option \<Rightarrow> int \<times> lexst \<Rightarrow> bool" where
  "lex_post ts cs r out \<longleftrightarrow> (case out of (v, s') \<Rightarrow>
    tbindex s' \<le> length (flat ts) + length cs + (SHELL_MAXTOK - length ts) \<and>
    (case r of
       None \<Rightarrow> v = SYSERR
     | Some us \<Rightarrow> v = int (length (ts @ us)) \<and> holds s' (flat (ts @ us)) \<and> toks_rep s' (ts @ us) \<and> tlen s' = length (flat (ts @ us))))"

lemma lex_post_step:
  assumes "lex_post (ts @ [t]) r' (lex_ref (Suc (length ts)) r') out" "length (tok_bytes t) + length r' \<le> length cs" "length ts < SHELL_MAXTOK"
  shows "lex_post ts cs (map_option ((#) t) (lex_ref (Suc (length ts)) r')) out"
  using assms by (cases out; cases "lex_ref (Suc (length ts)) r'") (auto simp: lex_post_def flat_snoc)

lemma lex_post_done:
  assumes "holds s (flat ts)" "toks_rep s ts"
  shows "lex_post ts cs (Some []) (int (ntok s), s\<lparr>tlen := tbindex s\<rparr>)"
  using assms by (auto simp: lex_post_def holds_def toks_rep_def)

lemma lex_post_error: "holds s (flat ts @ bs) \<Longrightarrow> length bs \<le> length cs \<Longrightarrow> lex_post ts cs None (SYSERR, s)"
  by (simp add: lex_post_def holds_def)

definition lex_ok :: "buf \<Rightarrow> nat \<Rightarrow> lexst \<Rightarrow> token list \<Rightarrow> u8 list \<Rightarrow> token list option \<Rightarrow> bool" where
  "lex_ok line p s ts cs r \<longleftrightarrow> (\<exists>out. lexan_loop line p s = Some out \<and> lex_post ts cs r out)"

text \<open>The rest of the line is handled once a token \<open>t\<close> is in the buffer: what the induction gives for one pass of the loop.\<close>

definition goes_on :: "buf \<Rightarrow> lexst \<Rightarrow> token list \<Rightarrow> u8 list \<Rightarrow> bool" where
  "goes_on line s ts cs \<longleftrightarrow> (\<forall>s1 t q r. holds s1 (flat ts @ tok_bytes t) \<longrightarrow> same_toks (start_tok (tok_type t) s) s1 \<longrightarrow>
    line_at line q r \<longrightarrow> length (tok_bytes t) + length r \<le> length cs \<longrightarrow>
    lex_ok line q (count_tok (put_ch 0 s1)) ts cs (map_option ((#) t) (lex_ref (Suc (length ts)) r)))"

text \<open>The loop at a token whose first character is \<open>c\<close>.\<close>

definition at_token :: "buf \<Rightarrow> nat \<Rightarrow> lexst \<Rightarrow> token list \<Rightarrow> u8 list \<Rightarrow> nat \<Rightarrow> u8 \<Rightarrow> u8 list \<Rightarrow> bool" where
  "at_token line p s ts cs q c r \<longleftrightarrow> holds s (flat ts) \<and> ntok s = length ts \<and> length ts < SHELL_MAXTOK \<and> cs \<noteq> [] \<and>
    line p \<noteq> 0 \<and> line p \<noteq> SH_NEWLINE \<and> skip_blanks line p = Some q \<and> dropWhile blank cs = c # r \<and>
    line q = c \<and> c \<noteq> 0 \<and> c \<noteq> SH_NEWLINE \<and> line_at line (Suc q) r \<and> Suc (length r) \<le> length cs"

lemma lex_ok_special:
  assumes "at_token line p s ts cs q c r" "goes_on line s ts cs" "special_tok c = Some t"
  shows "lex_ok line p s ts cs (lex_ref (length ts) cs)"
proof -
  have "holds (put_ch c (start_tok (tok_type t) s)) (flat ts @ tok_bytes t)"
    using holds_put [of "start_tok (tok_type t) s" "flat ts" c] assms(1) special_match(2) [OF assms(3)] by (simp add: at_token_def)
  then have "lex_ok line (Suc q) (count_tok (put_ch 0 (put_ch c (start_tok (tok_type t) s)))) ts cs (map_option ((#) t) (lex_ref (Suc (length ts)) r))"
    using assms(1,2) special_match(2) [OF assms(3)] by (auto simp: goes_on_def at_token_def)
  then show ?thesis using assms(1,3)
    by (auto simp: lex_ok_def at_token_def special_match(1) lexan_loop.simps [of line p s] lex_ref_code [of "length ts" cs])
qed

lemma lex_ok_quoted:
  assumes "at_token line p s ts cs q c r" "goes_on line s ts cs" "special_tok c = None" "quote_char c"
  shows "lex_ok line p s ts cs (lex_ref (length ts) cs)"
proof -
  let ?o = "start_tok SH_TOK_OTHER s" and ?w = "takeWhile (\<lambda>x. x \<noteq> c) r"
  note unf = lex_ok_def at_token_def special_match(1) quote_char_code lexan_loop.simps [of line p s] lex_ref_code [of "length ts" cs]
  have at: "line_at line (Suc q) r" "holds ?o (flat ts)" "Suc (length r) \<le> length cs" using assms(1) by (auto simp: at_token_def)
  obtain c' p' s' where cq: "copy_quoted c line (Suc q) ?o = Some (c', p', s')" "holds s' (flat ts @ ?w)" "same_toks ?o s'"
    "case dropWhile (\<lambda>x. x \<noteq> c) r of [] \<Rightarrow> c' \<noteq> c | _ # r \<Rightarrow> c' = c \<and> line_at line p' r"
    using copy_quoted_run [OF at(1,2) assms(4)] by auto
  show ?thesis
  proof (cases "dropWhile (\<lambda>x. x \<noteq> c) r")
    case Nil
    have "length ?w \<le> length cs" using length_takeWhile_le [of _ r] at(3) by (meson Suc_leD le_trans)
    from lex_post_error [OF cq(2) this] have "lex_post ts cs None (SYSERR, s')" .
    moreover have "c' \<noteq> c" using cq(4) by (simp only: Nil) simp
    moreover have "lex_ref (length ts) cs = None"
      using assms(1,3,4) by (simp add: lex_ref_code [of "length ts" cs] at_token_def Nil del: dropWhile_eq_Nil_conv)
    ultimately show ?thesis using assms(1,3,4) cq(1) by (simp add: lex_ok_def at_token_def special_match(1) quote_char_code lexan_loop.simps [of line p s])
  next
    case (Cons x r')
    have "length ?w + length r' \<le> length r"
      using arg_cong [OF takeWhile_dropWhile_id [of "\<lambda>x. x \<noteq> c" r], of length] Cons unfolding length_append by simp
    then have "lex_ok line p' (count_tok (put_ch 0 s')) ts cs (map_option ((#) (Other ?w)) (lex_ref (Suc (length ts)) r'))"
      using assms(2) cq(2-4) at(3) Cons unfolding goes_on_def by force
    then show ?thesis using assms(1,3,4) Cons cq(1,4) by (auto simp: unf)
  qed
qed

lemma lex_ok_word:
  assumes "at_token line p s ts cs q c r" "goes_on line s ts cs" "special_tok c = None" "\<not> quote_char c"
  shows "lex_ok line p s ts cs (lex_ref (length ts) cs)"
proof -
  let ?o = "start_tok SH_TOK_OTHER s" and ?r = "dropWhile word_char r" and ?w = "takeWhile word_char r"
  note unf = lex_ok_def at_token_def special_match(1) quote_char_code Let_def lexan_loop.simps [of line p s] lex_ref_code [of "length ts" cs]
  have at: "line_at line (Suc q) r" "holds ?o (flat ts)" "Suc (length r) \<le> length cs" using assms(1) by (auto simp: at_token_def)
  from copy_word_run [OF at(1) holds_put [OF at(2), of c]] obtain p' s' where
    cw: "copy_word line (Suc q) (put_ch c ?o) = Some (line p', p', s')" "holds s' (flat ts @ (c # ?w))" "same_toks ?o s'" "line_at line p' ?r"
    by auto
  have len: "length ?w + length ?r = length r"
    using arg_cong [OF takeWhile_dropWhile_id [of word_char r], of length] unfolding length_append .
  show ?thesis
  proof (cases "?r \<noteq> [] \<and> (quote_char (hd ?r) \<or> hd ?r = SH_LESS \<or> hd ?r = SH_GREATER)")
    case True
    then have "line p' = hd ?r" using cw(4) by (cases ?r) auto
    moreover have "length (c # ?w) \<le> length cs" using len at(3) by simp
    ultimately show ?thesis using lex_post_error [OF cw(2)] assms(1,3,4) True cw(1) by (auto simp: unf)
  next
    case False
    have "\<not> (line p' = SH_SQUOTE \<or> line p' = SH_DQUOTE \<or> line p' = SH_LESS \<or> line p' = SH_GREATER)"
      using False cw(4) by (cases ?r) (auto simp: quote_char_code sh_chars)
    moreover have "lex_ok line p' (count_tok (put_ch 0 s')) ts cs (map_option ((#) (Other (c # ?w))) (lex_ref (Suc (length ts)) ?r))"
      using assms(2) cw(2-4) at(3) len unfolding goes_on_def by force
    ultimately show ?thesis using assms(1,3,4) False cw(1) by (auto simp: unf)
  qed
qed

lemma lexan_loop_lex:
  assumes "line_at line p cs" "holds s (flat ts)" "toks_rep s ts"
  shows "lex_ok line p s ts cs (lex_ref (length ts) cs)"
  using assms
proof (induction "SHELL_MAXTOK - length ts" arbitrary: p cs s ts)
  case 0
  then have "SHELL_MAXTOK \<le> length ts" "ntok s = length ts" by (simp_all add: toks_rep_def)
  then show ?case using "0.prems" lex_post_done [of s ts] lex_post_error [of s ts "[]"]
    by (cases cs) (auto simp: lex_ok_def lexan_loop.simps [of line p s] lex_ref_code [of _ "[]"] lex_ref_code [of _ "_ # _"])
next
  case (Suc k)
  have n: "ntok s = length ts" "length ts < SHELL_MAXTOK" using Suc.prems(3) Suc.hyps(2) by (auto simp: toks_rep_def)
  have "lex_ok line q (count_tok (put_ch 0 s1)) ts cs (map_option ((#) t) (lex_ref (Suc (length ts)) r))"
    if that: "holds s1 (flat ts @ tok_bytes t)" "same_toks (start_tok (tok_type t) s) s1" "line_at line q r"
      "length (tok_bytes t) + length r \<le> length cs" for s1 t q r
  proof -
    have "lex_ok line q (count_tok (put_ch 0 s1)) (ts @ [t]) r (lex_ref (length (ts @ [t])) r)"
      using tok_step [OF Suc.prems(2,3) that(1,2)] Suc.hyps(2) that(3) by (intro Suc.hyps(1)) auto
    then show ?thesis using lex_post_step [of ts t r _ cs] that(4) n(2) by (auto simp: lex_ok_def)
  qed
  then have go: "goes_on line s ts cs" by (simp add: goes_on_def)
  obtain q where q: "skip_blanks line p = Some q" "line_at line q (dropWhile blank cs)" using skip_blanks_run [OF Suc.prems(1)] by blast
  have "length (dropWhile blank cs) \<le> length cs" by (rule length_dropWhile_le)
  then have at: "at_token line p s ts cs q c r" if "dropWhile blank cs = c # r" for c r
    using that q n Suc.prems by (cases cs) (auto simp: at_token_def)
  show ?case
  proof (cases "dropWhile blank cs")
    case Nil
    then have "line q = SH_NEWLINE \<or> line q = 0" using q(2) by (simp only: Nil) auto
    then have "lexan_loop line p s = Some (int (ntok s), s\<lparr>tlen := tbindex s\<rparr>)"
      using q(1) n by (simp add: lexan_loop.simps [of line p s])
    moreover have "lex_ref (length ts) cs = Some []" using n(2) by (simp add: lex_ref_code [of "length ts" cs] Nil del: dropWhile_eq_Nil_conv)
    ultimately show ?thesis using lex_post_done [OF Suc.prems(2,3)] by (simp add: lex_ok_def)
  next
    case (Cons c r)
    from at [OF this] show ?thesis
      using lex_ok_special [OF _ go] lex_ok_quoted [OF _ go] lex_ok_word [OF _ go] by (cases "special_tok c"; cases "quote_char c") blast+
  qed
qed

lemma lexan_lex:
  assumes "line_at line 0 cs"
  obtains v s' where "lexan line s = Some (v, s')" "lex_post [] cs (lex_ref 0 cs) (v, s')"
proof -
  have "lex_ok line 0 (s\<lparr>ntok := 0, tbindex := 0\<rparr>) [] cs (lex_ref (length ([] :: token list)) cs)"
    by (rule lexan_loop_lex [OF assms]) (simp_all add: holds_def flat_def toks_rep_def)
  then show ?thesis using that by (auto simp: lex_ok_def lexan_def)
qed

section \<open>Writing tokens down\<close>

text \<open>A word is written with quotes when it is empty or has a character that ends a word; a word with both kinds of quotes cannot be written.\<close>

definition quoted :: "u8 list \<Rightarrow> u8 list" where
  "quoted w = (let q = (if SH_DQUOTE \<in> set w then SH_SQUOTE else SH_DQUOTE) in q # w @ [q])"

fun show_tok :: "token \<Rightarrow> u8 list" where
  "show_tok (Other w) = (if w \<noteq> [] \<and> list_all word_char w then w else quoted w)"
| "show_tok t = tok_bytes t"

definition show_line :: "token list \<Rightarrow> u8 list" where
  "show_line ts = concat (map (\<lambda>t. SH_BLANK # show_tok t) ts)"

fun writable :: "token \<Rightarrow> bool" where
  "writable (Other w) \<longleftrightarrow> 0 \<notin> set w \<and> SH_NEWLINE \<notin> set w \<and> \<not> (SH_DQUOTE \<in> set w \<and> SH_SQUOTE \<in> set w)"
| "writable t \<longleftrightarrow> True"

lemma word_char_not: "word_char c \<Longrightarrow> special_tok c = None \<and> \<not> quote_char c \<and> \<not> blank c"
  by (auto simp: word_char_def special_tok_code quote_char_code blank_code)

lemma show_line_Cons: "show_line (t # ts) = SH_BLANK # show_tok t @ show_line ts"
  by (simp add: show_line_def)

lemma show_line_cases: "show_line ts = [] \<or> (\<exists>r. show_line ts = SH_BLANK # r)"
  by (cases ts) (auto simp: show_line_def)

lemma takeWhile_word: "list_all word_char w \<Longrightarrow>
  takeWhile word_char (w @ show_line ts) = w \<and> dropWhile word_char (w @ show_line ts) = show_line ts"
proof -
  assume "list_all word_char w"
  moreover have "takeWhile word_char (show_line ts) = []" "dropWhile word_char (show_line ts) = show_line ts"
    using show_line_cases [of ts] by (auto simp: word_char_def)
  ultimately show ?thesis by (simp add: list_all_iff)
qed

lemma lex_ref_show:
  assumes "\<forall>t \<in> set ts. writable t" "n + length ts \<le> SHELL_MAXTOK"
  shows "lex_ref n (show_line ts) = Some ts"
  using assms
proof (induction ts arbitrary: n)
  case Nil
  then show ?case by (simp add: show_line_def lex_ref_code)
next
  case (Cons t ts)
  have IH: "lex_ref (Suc n) (show_line ts) = Some ts" and n: "n < SHELL_MAXTOK" using Cons by auto
  have bl: "blank SH_BLANK" by (simp add: blank_code)
  show ?case
  proof (cases t)
    case (Other w)
    show ?thesis
    proof (cases "w \<noteq> [] \<and> list_all word_char w")
      case True
      then obtain c v where w: "w = c # v" "word_char c" "list_all word_char v" by (cases w) auto
      have "show_line ts \<noteq> [] \<Longrightarrow> hd (show_line ts) = SH_BLANK" using show_line_cases [of ts] by auto
      then show ?thesis using IH n bl w word_char_not [OF w(2)] takeWhile_word [OF w(3), of ts] Other
        by (subst lex_ref_code) (cases "show_line ts", auto simp: show_line_Cons quote_char_code sh_chars Let_def simp del: dropWhile_eq_Nil_conv)
    next
      case False
      let ?q = "if SH_DQUOTE \<in> set w then SH_SQUOTE else SH_DQUOTE"
      have q: "?q \<notin> set w" "quote_char ?q" "special_tok ?q = None" "\<not> blank ?q"
        using Cons.prems(1) Other by (auto simp: quote_char_code special_tok_code blank_code sh_chars)
      have "takeWhile (\<lambda>x. x \<noteq> ?q) (w @ ?q # show_line ts) = w" "dropWhile (\<lambda>x. x \<noteq> ?q) (w @ ?q # show_line ts) = ?q # show_line ts"
        using q(1) by (subst takeWhile_append2 dropWhile_append2; auto)+
      moreover have "show_line (t # ts) = SH_BLANK # ?q # w @ ?q # show_line ts" using False Other by (auto simp: show_line_Cons quoted_def Let_def)
      ultimately show ?thesis using IH n bl q Other by (simp only:) (subst lex_ref_code, simp)
    qed
  qed (use IH n bl in \<open>subst lex_ref_code, auto simp: show_line_Cons special_tok_code blank_code sh_chars\<close>)+
qed

section \<open>Commands\<close>

text \<open>A command line: the words, the redirections in their order (\<open>True\<close> for input) and whether it ends with an ampersand.\<close>

definition redir_toks :: "bool \<times> u8 list \<Rightarrow> token list" where
  "redir_toks r = [if fst r then Less else Greater, Other (snd r)]"

definition cmd_toks :: "u8 list list \<Rightarrow> (bool \<times> u8 list) list \<Rightarrow> bool \<Rightarrow> token list" where
  "cmd_toks ws rs bg = map Other ws @ concat (map redir_toks rs) @ (if bg then [Amper] else [])"

definition word_at :: "lexst \<Rightarrow> nat \<Rightarrow> u8 list \<Rightarrow> bool" where
  "word_at s i w \<longleftrightarrow> cbuf (\<lambda>k. tokbuf s (tok s i + k)) w"

lemma flat_append: "flat (ts @ us) = flat ts @ flat us"
  by (simp add: flat_def)

lemma word_at_rep:
  assumes "holds s (flat ts)" "toks_rep s ts" "i < length ts" "ts ! i = Other w" "0 \<notin> set w"
  shows "word_at s i w"
proof -
  have "flat ts = flat (take i ts) @ w @ 0 # flat (drop (Suc i) ts)"
    using id_take_nth_drop [OF assms(3)] assms(4) flat_append [of "take i ts" "Other w # drop (Suc i) ts"] by (simp add: flat_def)
  moreover have "tok s i = length (flat (take i ts))" using assms(2,3) by (simp add: toks_rep_def)
  ultimately show ?thesis using assms(1,5) by (auto simp: word_at_def cbuf_def holds_def nth_append)
qed

lemma redir_toks_length [simp]: "length (redir_toks r) = 2"
  by (simp add: redir_toks_def)

lemma all_other_iff: "all_other n s \<longleftrightarrow> (\<forall>i < n. toktyp s i = SH_TOK_OTHER)"
  by (induction n) (auto simp: less_Suc_eq)

definition add_redir :: "nat \<Rightarrow> bool \<times> u8 list \<Rightarrow> command \<Rightarrow> command" where
  "add_redir j r c = (if fst r then c\<lparr>inname := Some j\<rparr> else c\<lparr>outname := Some j\<rparr>)"

text \<open>One redirection is taken off the end; with none left nothing changes.\<close>

lemma redirect_step:
  assumes "toks_rep s (map Other ws @ us @ redir_toks r @ vs)" "ws \<noteq> []" "cntok c = length ws + length us + 2"
    "if fst r then inname c = None else outname c = None"
  shows "redirect s c = Some ((add_redir (length ws + length us + 1) r c)\<lparr>cntok := length ws + length us,
    ctlen := length (flat (map Other ws @ us))\<rparr>)"
proof -
  let ?n = "length ws + length us" and ?ts = "map Other ws @ us @ redir_toks r @ vs"
  have rep: "tok s i = length (flat (take i ?ts)) \<and> toktyp s i = tok_type (?ts ! i)" if "i < length ?ts" for i
    using that assms(1) unfolding toks_rep_def by blast
  have "toktyp s ?n = (if fst r then SH_TOK_LESS else SH_TOK_GREATER)" "toktyp s (?n + 1) = SH_TOK_OTHER"
    "tok s ?n = length (flat (map Other ws @ us))"
    using rep [of ?n] rep [of "?n + 1"] by (auto simp: redir_toks_def nth_append)
  moreover have "1 \<le> length ws" using assms(2) by (cases ws) auto
  ultimately show ?thesis using assms(3,4) by (auto simp: redirect_def Let_def add_redir_def)
qed

lemma redirect_none:
  assumes "toks_rep s (map Other ws @ vs)" "cntok c = length ws"
  shows "redirect s c = Some c"
proof -
  have "toktyp s i = SH_TOK_OTHER" if "i < length ws" for i using assms(1) that by (auto simp: toks_rep_def nth_append)
  from this [of "length ws - 2"] have "\<not> (cntok c \<ge> 3 \<and> (toktyp s (cntok c - 2) = SH_TOK_LESS \<or> toktyp s (cntok c - 2) = SH_TOK_GREATER))"
    using assms(2) by auto
  then show ?thesis unfolding redirect_def Let_def by (rule if_not_P)
qed

definition bg_toks :: "bool \<Rightarrow> token list" where
  "bg_toks bg = (if bg then [Amper] else [])"

lemma background_run:
  assumes "toks_rep s (us @ bg_toks bg)" "tlen s = length (flat (us @ bg_toks bg))" "us \<noteq> []" "last us \<noteq> Amper"
  shows "background s = \<lparr>backgnd = bg, inname = None, outname = None, cntok = length us, ctlen = length (flat us)\<rparr>"
proof (cases bg)
  case True
  then have "toktyp s (length us) = SH_TOK_AMPER" using assms(1) by (auto simp: toks_rep_def nth_append bg_toks_def)
  then show ?thesis using True assms(1,2) by (auto simp: background_def toks_rep_def bg_toks_def flat_append) (simp add: flat_def)
next
  case False
  then have "toktyp s (length us - 1) = tok_type (last us)" using assms(1,3) by (auto simp: toks_rep_def bg_toks_def last_conv_nth)
  then show ?thesis using False assms by (cases "last us") (auto simp: background_def toks_rep_def bg_toks_def)
qed

lemma rs_cases:
  fixes rs :: "(bool \<times> 'b) list"
  assumes "distinct (map fst rs)"
  obtains "rs = []" | r where "rs = [r]" | r1 r2 where "rs = [r1, r2]" "fst r1 \<noteq> fst r2"
proof -
  have "card (set (map fst rs)) \<le> card (UNIV :: bool set)" by (rule card_mono) simp_all
  then have "length rs \<le> 2" using distinct_card [OF assms] by simp
  then consider "length rs = 0" | "length rs = 1" | "length rs = 2" by linarith
  then show ?thesis using that assms by cases (auto simp: length_Suc_conv numeral_2_eq_2)
qed

text \<open>Where the name of a redirection is, if there is one of that kind.\<close>

definition name_at :: "lexst \<Rightarrow> (bool \<times> u8 list) list \<Rightarrow> bool \<Rightarrow> nat option \<Rightarrow> bool" where
  "name_at s rs k j \<longleftrightarrow> (case j of None \<Rightarrow> k \<notin> set (map fst rs) | Some i \<Rightarrow> \<exists>w. (k, w) \<in> set rs \<and> word_at s i w)"

lemma parse_run:
  assumes rep: "toks_rep s (cmd_toks ws rs bg)" "holds s (flat (cmd_toks ws rs bg))" "tlen s = length (flat (cmd_toks ws rs bg))"
    and ws: "ws \<noteq> []" and rs: "distinct (map fst rs)" "\<forall>r \<in> set rs. 0 \<notin> set (snd r)"
  shows "\<exists>c. parse_command s = Some c \<and> backgnd c = bg \<and> cntok c = length ws \<and> ctlen c = length (flat (map Other ws)) \<and>
    name_at s rs True (inname c) \<and> name_at s rs False (outname c)"
proof -
  let ?us = "map Other ws @ concat (map redir_toks rs)"
  have bg: "cmd_toks ws rs bg = ?us @ bg_toks bg" by (simp add: cmd_toks_def bg_toks_def)
  have "last ?us \<noteq> Amper"
    using ws by (cases rs rule: rev_exhaust) (auto simp: redir_toks_def last_map)
  then have b: "background s = \<lparr>backgnd = bg, inname = None, outname = None, cntok = length ?us, ctlen = length (flat ?us)\<rparr>"
    using background_run [of s ?us bg] rep(1,3) ws unfolding bg by simp
  then have bf: "backgnd (background s) = bg" "inname (background s) = None" "outname (background s) = None"
    "cntok (background s) = length ws + 2 * length rs"
    using length_concat [of "map redir_toks rs"] by (simp_all add: comp_def sum_list_triv)
  have other: "all_other (length ws) s" using rep(1) by (auto simp: all_other_iff toks_rep_def cmd_toks_def nth_append)
  have word: "word_at s i w" if "i < length (cmd_toks ws rs bg)" "cmd_toks ws rs bg ! i = Other w" "w \<in> snd ` set rs" for i w
    using word_at_rep [OF rep(2,1) that(1,2)] that(3) rs(2) by auto
  from rs(1) show ?thesis
  proof (cases rule: rs_cases)
    case 1
    then have "redirect s (background s) = Some (background s)"
      using redirect_none [of s ws "bg_toks bg"] rep(1) b by (simp add: cmd_toks_def bg_toks_def)
    then show ?thesis using b 1 ws other by (simp add: parse_command_def name_at_def)
  next
    case (2 r)
    have "redirect s (background s) = Some ((add_redir (length ws + 1) r (background s))\<lparr>cntok := length ws, ctlen := length (flat (map Other ws))\<rparr>)"
      using redirect_step [of s ws "[]" r "bg_toks bg" "background s"] rep(1) bf ws 2 unfolding bg by simp
    moreover have "redirect s c = Some c" if "cntok c = length ws" for c
      using redirect_none [OF _ that] rep(1) by (simp add: cmd_toks_def)
    moreover have "word_at s (Suc (length ws)) (snd r)" by (rule word) (auto simp: 2 cmd_toks_def nth_append redir_toks_def)
    ultimately show ?thesis using 2 ws other bf by (cases r) (auto simp: parse_command_def name_at_def add_redir_def)
  next
    case (3 r1 r2)
    let ?c = "(add_redir (length ws + 3) r2 (background s))\<lparr>cntok := length ws + 2, ctlen := length (flat (map Other ws @ redir_toks r1))\<rparr>"
    have "redirect s (background s) = Some ?c"
      using redirect_step [of s ws "redir_toks r1" r2 "bg_toks bg" "background s"] rep(1) bf ws 3 unfolding bg by (simp add: numeral_3_eq_3)
    moreover have "if fst r1 then inname ?c = None else outname ?c = None" using 3(2) bf by (simp add: add_redir_def)
    then have "redirect s ?c = Some ((add_redir (length ws + 1) r1 ?c)\<lparr>cntok := length ws, ctlen := length (flat (map Other ws))\<rparr>)"
      using redirect_step [of s ws "[]" r1 "redir_toks r2 @ bg_toks bg" ?c] rep(1) ws 3(1) unfolding bg by simp
    moreover have "word_at s (Suc (length ws)) (snd r1)" by (rule word) (auto simp: 3 cmd_toks_def nth_append redir_toks_def)
    moreover have "word_at s (length ws + 3) (snd r2)" by (rule word) (auto simp: 3 cmd_toks_def nth_append redir_toks_def)
    ultimately show ?thesis using 3 ws other bf
      by (cases r1; cases r2) (auto simp: parse_command_def name_at_def add_redir_def split: if_splits)
  qed
qed

lemma same_name_cbuf:
  assumes "cbuf a s" "cbuf b w" "i \<le> length s" "i \<le> length w" "take i s = take i w"
  shows "same_name a b i = Some (s = w)"
  using assms(3-5)
proof (induction "length s - i" arbitrary: i)
  case 0
  then have i: "i = length s" by simp
  moreover have "b (length s) = 0 \<longleftrightarrow> length w = length s"
    using cbuf_nth [OF assms(2), of "length s"] cbuf_end [OF assms(2)] 0 i by (cases "length s < length w") auto
  moreover have "length w = length s \<longleftrightarrow> s = w" using "0.prems"(3) by (metis i order_refl take_all)
  ultimately show ?case using cbuf_end [OF assms(1)] by (subst same_name.simps) simp
next
  case (Suc k)
  then have i: "i < length s" by simp
  note si = cbuf_nth [OF assms(1) i]
  show ?case
  proof (cases "i < length w \<and> s ! i = w ! i")
    case True
    then have "take (Suc i) s = take (Suc i) w" using Suc i by (simp add: take_Suc_conv_app_nth)
    moreover have "b i = a i" using True si cbuf_nth [OF assms(2), of i] by simp
    ultimately show ?thesis using Suc.hyps(1) [of "Suc i"] Suc.hyps(2) i True si by (subst same_name.simps) auto
  next
    case False
    then have "s \<noteq> w" using i by auto
    moreover have "b i \<noteq> a i"
      using False si cbuf_nth [OF assms(2), of i] cbuf_end [OF assms(2)] Suc.prems by (cases "i < length w") auto
    ultimately show ?thesis using si by (subst same_name.simps) auto
  qed
qed

lemma lookup_cmd_first:
  assumes "\<forall>j < length cmds. cbuf (cname (k + j)) (cmds ! j)" "cbuf b w"
  shows "lookup_cmd (length cmds) k cname b = Some (k + length (takeWhile (\<lambda>c. c \<noteq> w) cmds))"
  using assms(1)
proof (induction cmds arbitrary: k)
  case (Cons c cmds)
  have "cbuf (cname k) c" using Cons.prems by force
  then have "same_name (cname k) b 0 = Some (c = w)" using same_name_cbuf [OF _ assms(2)] by simp
  moreover have "\<forall>j < length cmds. cbuf (cname (Suc k + j)) (cmds ! j)"
    using Cons.prems by (metis Suc_less_eq add_Suc_shift length_Cons nth_Cons_Suc)
  ultimately show ?case using Cons.IH [of "Suc k"] by simp
qed simp

section \<open>Properties\<close>

text \<open>
  C32: \<open>lexan\<close> divides every line into its tokens. On a line that ends with a newline or null byte it returns; the result is the number of tokens of the
  reference \<open>lex_ref\<close>, at most 32, with their characters, each followed by a null byte, in the buffer and their positions and types in the arrays, or \<open>SYSERR\<close> exactly when
  the reference has an error. Whatever the outcome, at most one byte per character and one per token is stored: on a line of at most 129 characters, the shell's
  line buffer, never more than the 161 bytes of the shell's token buffer.
\<close>

theorem lexan_tokenizes:
  assumes "line_at line 0 cs"
  shows "\<exists>v s'. lexan line s = Some (v, s') \<and> tbindex s' \<le> length cs + 32 \<and> (length cs \<le> SHELL_BUFLEN \<longrightarrow> tbindex s' \<le> 161) \<and>
    (case lex_ref 0 cs of
       None \<Rightarrow> v = SYSERR
     | Some ts \<Rightarrow> v = int (length ts) \<and> v \<le> 32 \<and> holds s' (flat ts) \<and> toks_rep s' ts \<and> tlen s' = length (flat ts))"
proof -
  obtain v s' where "lexan line s = Some (v, s')" "lex_post [] cs (lex_ref 0 cs) (v, s')" using lexan_lex [OF assms] by blast
  then show ?thesis using lex_ref_length [of 0 cs]
    by (auto simp: lex_post_def flat_def SHELL_BUFLEN_def SHELL_MAXTOK_def split: option.splits)
qed

text \<open>The line \<open>cat <f &\<close> with a blank before each token, and a table with two commands.\<close>

definition line0 :: buf where
  "line0 = lit (bytes '' cat < f &'')"

definition lexst0 :: lexst where
  "lexst0 = \<lparr>tokbuf = \<lambda>_. 0, tbindex = 0, tok = \<lambda>_. 0, toktyp = \<lambda>_. SH_TOK_OTHER, ntok = 0, tlen = 0\<rparr>"

lemma line0_at: "line_at line0 0 (bytes '' cat < f &'')"
  by (simp add: line0_def lit_def bytes_def sh_chars)

theorem lexan_tokenizes_witness:
  "\<exists>v s'. lexan line0 lexst0 = Some (v, s') \<and> v = 4 \<and> holds s' (flat [Other (bytes ''cat''), Less, Other (bytes ''f''), Amper])"
proof -
  have "lex_ref 0 (bytes '' cat < f &'') = Some [Other (bytes ''cat''), Less, Other (bytes ''f''), Amper]"
    by (simp add: lex_ref.simps bytes_def blank_def special_tok_def quote_char_def ends_word_def)
  then show ?thesis using lexan_tokenizes [OF line0_at, of lexst0] by auto
qed

text \<open>
  C33: A command line is read back as it was written. Take words, at most one input and one output redirection and an optional ampersand, at most 32 tokens
  whose words have no null byte, newline or both kinds of quotes, written with blanks between them and quotes where needed. Then \<open>lexan\<close> and the parser of the
  shell give the command with these words, the names of the redirections and the background flag, and the look-up finds the first command of that name.
\<close>

theorem shell_line_roundtrip:
  assumes "line_at line 0 (show_line (cmd_toks ws rs bg))" and "ws \<noteq> []" and "distinct (map fst rs)"
    and "\<forall>t \<in> set (cmd_toks ws rs bg). writable t" and "length (cmd_toks ws rs bg) \<le> SHELL_MAXTOK"
    and "\<forall>j < length cmds. cbuf (cname j) (cmds ! j)"
  shows "\<exists>s' c. lexan line s = Some (int (length (cmd_toks ws rs bg)), s') \<and> parse_command s' = Some c \<and>
    backgnd c = bg \<and> cntok c = length ws \<and> ctlen c = length (flat (map Other ws)) \<and> (\<forall>i < length ws. word_at s' i (ws ! i)) \<and>
    name_at s' rs True (inname c) \<and> name_at s' rs False (outname c) \<and>
    lookup_cmd (length cmds) 0 cname (tokbuf s') = Some (length (takeWhile (\<lambda>n. n \<noteq> hd ws) cmds))"
proof -
  let ?ts = "cmd_toks ws rs bg"
  have lr: "lex_ref 0 (show_line ?ts) = Some ?ts" using lex_ref_show [OF assms(4), of 0] assms(5) by simp
  obtain v s' where s': "lexan line s = Some (v, s')" "lex_post [] (show_line ?ts) (Some ?ts) (v, s')"
    using lexan_lex [OF assms(1)] lr by metis
  then have rep: "toks_rep s' ?ts" "holds s' (flat ?ts)" "tlen s' = length (flat ?ts)" "v = int (length ?ts)" by (simp_all add: lex_post_def)
  have "Other w \<in> set ?ts" if "w \<in> set ws \<or> w \<in> snd ` set rs" for w
    using that by (auto simp: cmd_toks_def redir_toks_def)
  then have "writable (Other w)" if "w \<in> set ws \<or> w \<in> snd ` set rs" for w using that assms(4) by blast
  then have nz: "0 \<notin> set w" if "w \<in> set ws \<or> w \<in> snd ` set rs" for w using that by (metis writable.simps(1))
  have words: "word_at s' i (ws ! i)" if "i < length ws" for i
    using word_at_rep [OF rep(2,1), of i "ws ! i"] that nz [of "ws ! i"] by (simp add: cmd_toks_def nth_append)
  have "tok s' 0 = 0" using rep(1) assms(2) by (auto simp: toks_rep_def cmd_toks_def flat_def)
  then have "cbuf (tokbuf s') (hd ws)" using words [of 0] assms(2) by (simp add: word_at_def hd_conv_nth)
  then have "lookup_cmd (length cmds) 0 cname (tokbuf s') = Some (length (takeWhile (\<lambda>n. n \<noteq> hd ws) cmds))"
    using lookup_cmd_first [of cmds cname 0] assms(6) by simp
  moreover obtain c where "parse_command s' = Some c" "backgnd c = bg" "cntok c = length ws" "ctlen c = length (flat (map Other ws))"
    "name_at s' rs True (inname c)" "name_at s' rs False (outname c)"
    using parse_run [OF rep(1-3) assms(2,3)] nz by auto
  ultimately show ?thesis using s'(1) rep(4) words by blast
qed

theorem shell_line_roundtrip_witness:
  "\<exists>s' c. lexan line0 lexst0 = Some (4, s') \<and> parse_command s' = Some c \<and> backgnd c \<and> cntok c = 1 \<and> word_at s' 0 (bytes ''cat'') \<and>
    name_at s' [(True, bytes ''f'')] True (inname c) \<and> lookup_cmd 2 0 (\<lambda>j. lit ([bytes ''ps'', bytes ''cat''] ! j)) (tokbuf s') = Some 1"
proof -
  let ?ws = "[bytes ''cat'']" and ?rs = "[(True, bytes ''f'')]" and ?cmds = "[bytes ''ps'', bytes ''cat'']"
  have ts: "cmd_toks ?ws ?rs True = [Other (bytes ''cat''), Less, Other (bytes ''f''), Amper]" by (simp add: cmd_toks_def redir_toks_def)
  have line: "show_line (cmd_toks ?ws ?rs True) = bytes '' cat < f &''"
    unfolding ts by (simp add: show_line_def bytes_def word_char_def sh_chars)
  have wr: "\<forall>t \<in> set (cmd_toks ?ws ?rs True). writable t" unfolding ts by (simp add: bytes_def sh_chars)
  have cmds: "\<forall>j < length ?cmds. cbuf (lit (?cmds ! j)) (?cmds ! j)"
    by (auto simp: less_Suc_eq bytes_def intro: cbuf_lit)
  have "takeWhile (\<lambda>n. n \<noteq> bytes ''cat'') ?cmds = [bytes ''ps'']" by (simp add: bytes_def)
  then show ?thesis
    using shell_line_roundtrip [of line0 ?ws ?rs True ?cmds "\<lambda>j. lit (?cmds ! j)" lexst0, unfolded line, OF line0_at _ _ wr _ cmds]
    by (simp add: ts SHELL_MAXTOK_def numeral_2_eq_2) blast
qed

end
