(* ===== verification/Tty.thy ===== *)
theory Tty
  imports SysCalls
begin

text \<open>
  The terminal driver: \<open>include/tty.h\<close> and \<open>device/tty/\<close> (\<open>ttyinit.c\<close>, \<open>ttyhandler.c\<close>, \<open>ttyhandle_in.c\<close>, \<open>ttyhandle_out.c\<close>,
  \<open>ttyread.c\<close>, \<open>ttygetc.c\<close>, \<open>ttyputc.c\<close>, \<open>ttywrite.c\<close>, \<open>ttycontrol.c\<close>, \<open>ttykickout.c\<close>).

  A pointer into one of the three character buffers is its index there; a store through an index outside the buffer is a \<open>Fault\<close>.
  Of the serial chip the model has what the driver uses: the characters received and not yet read, the characters sent, and the interrupt
  enable register. A caller that waits for characters or for space goes on with \<open>ttygetc_rest\<close> or \<open>ttyputc_rest\<close> when it runs again.
\<close>

section \<open>State\<close>

definition TY_EBUFLEN :: int where [layout_defs]: "TY_EBUFLEN = 20"
definition TY_IBUFLEN :: int where [layout_defs]: "TY_IBUFLEN = 128"
definition TY_OBUFLEN :: int where [layout_defs]: "TY_OBUFLEN = 64"
definition UART_FIFO_SIZE :: nat where "UART_FIFO_SIZE = 16"
definition EOF :: int where "EOF = -2"

datatype tymode = TY_IMRAW | TY_IMCOOKED | TY_IMCBREAK

definition TY_BACKSP :: u8 where "TY_BACKSP = 8"
definition TY_BACKSP2 :: u8 where "TY_BACKSP2 = 0x7F"
definition TY_BELL :: u8 where "TY_BELL = 7"
definition TY_EOFCH :: u8 where "TY_EOFCH = 4"
definition TY_BLANK :: u8 where "TY_BLANK = 0x20"
definition TY_NEWLINE :: u8 where "TY_NEWLINE = 10"
definition TY_RETURN :: u8 where "TY_RETURN = 13"
definition TY_STOPCH :: u8 where "TY_STOPCH = 0x13"
definition TY_STRTCH :: u8 where "TY_STRTCH = 0x11"
definition TY_KILLCH :: u8 where "TY_KILLCH = 0x15"
definition TY_UPARROW :: u8 where "TY_UPARROW = 0x5E"
definition TY_FULLCH :: u8 where "TY_FULLCH = TY_BELL"

record ttycblk =
  tyihead :: int
  tyitail :: int
  tyibuff :: "int \<Rightarrow> u8"
  tyisem :: int
  tyohead :: int
  tyotail :: int
  tyobuff :: "int \<Rightarrow> u8"
  tyosem :: int
  tyehead :: int
  tyetail :: int
  tyebuff :: "int \<Rightarrow> u8"
  tyimode :: tymode
  tyiecho :: bool
  tyieback :: bool
  tyevis :: bool
  tyecrlf :: bool
  tyicrlf :: bool
  tyierase :: bool
  tyierasec :: u8
  tyierasec2 :: u8
  tyeof :: bool
  tyeofch :: u8
  tyikill :: bool
  tyikillc :: u8
  tyicursor :: int
  tyoflow :: bool
  tyoheld :: bool
  tyostop :: u8
  tyostart :: u8
  tyocrlf :: bool
  tyifullc :: u8

text \<open>The line (\<open>Ntty\<close> is 1), the kernel below it and the chip.\<close>

record tty =
  tkern :: kernel
  tyb :: ttycblk
  uart_rx :: "u8 list"
  uart_tx :: "u8 list"
  uart_ier :: u8

definition upd_ty :: "(ttycblk \<Rightarrow> ttycblk) \<Rightarrow> tty \<Rightarrow> tty" where
  "upd_ty f s = s\<lparr>tyb := f (tyb s)\<rparr>"

definition UART_IER_ERBFI :: u8 where "UART_IER_ERBFI = 1"
definition UART_IER_ETBEI :: u8 where "UART_IER_ETBEI = 2"

text \<open>Reading the receive buffer takes the oldest character.\<close>

definition uart_get :: "tty \<Rightarrow> u8 \<times> tty" where
  "uart_get s = (case uart_rx s of [] \<Rightarrow> (0, s) | c # cs \<Rightarrow> (c, s\<lparr>uart_rx := cs\<rparr>))"

definition uart_put :: "u8 \<Rightarrow> tty \<Rightarrow> tty" where
  "uart_put c s = s\<lparr>uart_tx := uart_tx s @ [c]\<rparr>"

section \<open>Echo\<close>

definition ttykickout :: "tty \<Rightarrow> tty" where
  "ttykickout s = s\<lparr>uart_ier := UART_IER_ERBFI OR UART_IER_ETBEI\<rparr>"

definition eputc :: "u8 \<Rightarrow> tty \<Rightarrow> tty result" where
  "eputc ch s =
    (let t = tyetail (tyb s) in
     if t < 0 \<or> t \<ge> TY_EBUFLEN then Fault
     else
       let s = upd_ty (\<lambda>b. b\<lparr>tyebuff := (tyebuff b)(t := ch), tyetail := t + 1\<rparr>) s;
           s = (if tyetail (tyb s) \<ge> TY_EBUFLEN then upd_ty (\<lambda>b. b\<lparr>tyetail := 0\<rparr>) s else s)
       in Ret (ttykickout s))"

fun eputs :: "u8 list \<Rightarrow> tty \<Rightarrow> tty result" where
  "eputs [] s = Ret s"
| "eputs (c # cs) s = rbind (eputc c s) (eputs cs)"

definition unprintable :: "u8 \<Rightarrow> bool" where
  "unprintable ch \<longleftrightarrow> sint ch < sint TY_BLANK \<or> ch = 0x7F"

definition echoch :: "u8 \<Rightarrow> tty \<Rightarrow> tty result" where
  "echoch ch s =
    (if (ch = TY_NEWLINE \<or> ch = TY_RETURN) \<and> tyecrlf (tyb s) then eputs [TY_RETURN, TY_NEWLINE] s
     else if unprintable ch \<and> tyevis (tyb s) then eputs [TY_UPARROW, ch + 0x40] s
     else eputc ch s)"

definition erase1 :: "tty \<Rightarrow> tty result" where
  "erase1 s =
    (let s = upd_ty (\<lambda>b. b\<lparr>tyitail := tyitail b - 1\<rparr>) s;
         s = (if tyitail (tyb s) < 0 then upd_ty (\<lambda>b. b\<lparr>tyitail := tyitail b + TY_IBUFLEN\<rparr>) s else s);
         b = tyb s;
         ch = tyibuff b (tyitail b);
         wipe = (if tyieback b then [TY_BACKSP, TY_BLANK, TY_BACKSP] else [TY_BACKSP]) in
     if tyitail b < 0 \<or> tyitail b \<ge> TY_IBUFLEN then Fault
     else if tyiecho b then
       if unprintable ch then rbind (if tyevis b then eputs wipe s else Ret s) (eputs wipe)
       else eputs wipe s
     else Ret s)"

section \<open>Input\<close>

text \<open>\<open>*typtr->tyitail++ = ch;\<close> and the wrap-around that follows it everywhere but in one place.\<close>

definition put_in :: "u8 \<Rightarrow> tty \<Rightarrow> tty result" where
  "put_in ch s =
    (let t = tyitail (tyb s) in
     if t < 0 \<or> t \<ge> TY_IBUFLEN then Fault
     else Ret (upd_ty (\<lambda>b. b\<lparr>tyibuff := (tyibuff b)(t := ch), tyitail := t + 1\<rparr>) s))"

definition wrap_in :: "tty \<Rightarrow> tty" where
  "wrap_in s = (if tyitail (tyb s) \<ge> TY_IBUFLEN then upd_ty (\<lambda>b. b\<lparr>tyitail := 0\<rparr>) s else s)"

definition tty_signal :: "int \<Rightarrow> tty \<Rightarrow> tty result" where
  "tty_signal sem s = rbind (signal sem (tkern s)) (\<lambda>(_, k). Ret (s\<lparr>tkern := k\<rparr>))"

definition tty_signaln :: "int \<Rightarrow> int \<Rightarrow> tty \<Rightarrow> tty result" where
  "tty_signaln sem n s = rbind (signaln sem n (tkern s)) (\<lambda>(_, k). Ret (s\<lparr>tkern := k\<rparr>))"

definition tty_avail :: "tty \<Rightarrow> int" where
  "tty_avail s = max 0 (semcount (tyisem (tyb s)) (tkern s))"

definition tty_raw :: "u8 \<Rightarrow> tty \<Rightarrow> tty result" where
  "tty_raw ch s =
    (if tty_avail s \<ge> TY_IBUFLEN then Ret s
     else rbind (put_in ch s) (\<lambda>s. let s = wrap_in s in tty_signal (tyisem (tyb s)) s))"

definition tty_cbreak :: "u8 \<Rightarrow> int \<Rightarrow> tty \<Rightarrow> tty result" where
  "tty_cbreak ch avail s =
    (if avail \<ge> TY_IBUFLEN then eputc (tyifullc (tyb s)) s
     else
       rbind (put_in ch s) (\<lambda>s.
       let s = wrap_in s in
       rbind (if tyiecho (tyb s) then echoch ch s else Ret s) (\<lambda>s.
       tty_signal (tyisem (tyb s)) s)))"

definition tty_kill :: "tty \<Rightarrow> tty result" where
  "tty_kill s =
    (let s = upd_ty (\<lambda>b. b\<lparr>tyitail := tyitail b - tyicursor b\<rparr>) s;
         s = (if tyitail (tyb s) < 0 then upd_ty (\<lambda>b. b\<lparr>tyitail := tyitail b + TY_IBUFLEN\<rparr>) s else s);
         s = upd_ty (\<lambda>b. b\<lparr>tyicursor := 0\<rparr>) s
     in eputs [TY_RETURN, TY_NEWLINE] s)"

definition tty_endline :: "u8 \<Rightarrow> tty \<Rightarrow> tty result" where
  "tty_endline ch s =
    rbind (if tyiecho (tyb s) then echoch ch s else Ret s) (\<lambda>s.
    rbind (put_in ch s) (\<lambda>s.
    let s = wrap_in s in
    rbind (tty_signaln (tyisem (tyb s)) (tyicursor (tyb s) + 1) s) (\<lambda>s.
    Ret (upd_ty (\<lambda>b. b\<lparr>tyicursor := 0\<rparr>) s))))"

definition tty_eof :: "u8 \<Rightarrow> tty \<Rightarrow> tty result" where
  "tty_eof ch s =
    rbind (if tyiecho (tyb s) then echoch ch s else Ret s) (\<lambda>s.
    if tyicursor (tyb s) \<noteq> 0 then Ret s
    else rbind (put_in ch s) (\<lambda>s. tty_signal (tyisem (tyb s)) s))"

definition tty_cooked :: "u8 \<Rightarrow> tty \<Rightarrow> tty result" where
  "tty_cooked ch s =
    (let b = tyb s in
     if ch = tyikillc b \<and> tyikill b then tty_kill s
     else if (ch = tyierasec b \<or> ch = tyierasec2 b) \<and> tyierase b then
       if tyicursor b > 0 then erase1 (upd_ty (\<lambda>b. b\<lparr>tyicursor := tyicursor b - 1\<rparr>) s) else Ret s
     else if ch = TY_NEWLINE \<or> ch = TY_RETURN then tty_endline ch s
     else if tty_avail s + tyicursor b \<ge> TY_IBUFLEN - 1 then eputc (tyifullc b) s
     else if ch = tyeofch b \<and> tyeof b then tty_eof ch s
     else
       rbind (if tyiecho b then echoch ch s else Ret s) (\<lambda>s.
       let s = upd_ty (\<lambda>b. b\<lparr>tyicursor := tyicursor b + 1\<rparr>) s in
       rbind (put_in ch s) (\<lambda>s. Ret (wrap_in s))))"

definition ttyhandle_in :: "tty \<Rightarrow> tty result" where
  "ttyhandle_in s =
    (case uart_get s of (ch, s) \<Rightarrow>
     let avail = tty_avail s in
     if tyimode (tyb s) = TY_IMRAW then tty_raw ch s
     else
       let ch = (if ch = TY_RETURN \<and> tyicrlf (tyb s) then TY_NEWLINE else ch) in
       if tyoflow (tyb s) \<and> ch = tyostart (tyb s) then Ret (ttykickout (upd_ty (\<lambda>b. b\<lparr>tyoheld := False\<rparr>) s))
       else if tyoflow (tyb s) \<and> ch = tyostop (tyb s) then Ret (upd_ty (\<lambda>b. b\<lparr>tyoheld := True\<rparr>) s)
       else
         let s = upd_ty (\<lambda>b. b\<lparr>tyoheld := False\<rparr>) s in
         if tyimode (tyb s) = TY_IMCBREAK then tty_cbreak ch avail s else tty_cooked ch s)"

section \<open>Output\<close>

text \<open>The two loops of \<open>ttyhandle_out\<close>; \<open>uspace\<close> counts down.\<close>

fun send_echo :: "nat \<Rightarrow> tty \<Rightarrow> nat \<times> tty" where
  "send_echo 0 s = (0, s)"
| "send_echo (Suc uspace) s =
    (if tyehead (tyb s) = tyetail (tyb s) then (Suc uspace, s)
     else
       let s = uart_put (tyebuff (tyb s) (tyehead (tyb s))) s;
           s = upd_ty (\<lambda>b. b\<lparr>tyehead := tyehead b + 1\<rparr>) s;
           s = (if tyehead (tyb s) \<ge> TY_EBUFLEN then upd_ty (\<lambda>b. b\<lparr>tyehead := 0\<rparr>) s else s)
       in send_echo uspace s)"

fun send_out :: "nat \<Rightarrow> int \<Rightarrow> int \<Rightarrow> tty \<Rightarrow> int \<times> tty" where
  "send_out 0 avail ochars s = (ochars, s)"
| "send_out (Suc uspace) avail ochars s =
    (if avail \<le> 0 then (ochars, s)
     else
       let s = uart_put (tyobuff (tyb s) (tyohead (tyb s))) s;
           s = upd_ty (\<lambda>b. b\<lparr>tyohead := tyohead b + 1\<rparr>) s;
           s = (if tyohead (tyb s) \<ge> TY_OBUFLEN then upd_ty (\<lambda>b. b\<lparr>tyohead := 0\<rparr>) s else s)
       in send_out uspace (avail - 1) (ochars + 1) s)"

definition ttyhandle_out :: "tty \<Rightarrow> tty result" where
  "ttyhandle_out s =
    (if tyoheld (tyb s) then Ret s
     else if tyehead (tyb s) = tyetail (tyb s) \<and> semcount (tyosem (tyb s)) (tkern s) \<ge> TY_OBUFLEN then
       Ret (s\<lparr>uart_ier := uart_ier s AND NOT UART_IER_ETBEI\<rparr>)
     else
       case send_echo UART_FIFO_SIZE s of (uspace, s) \<Rightarrow>
       let avail = TY_OBUFLEN - semcount (tyosem (tyb s)) (tkern s) in
       case send_out uspace avail 0 s of (ochars, s) \<Rightarrow>
       if ochars > 0 then tty_signaln (tyosem (tyb s)) ochars s else Ret s)"

section \<open>The interrupt\<close>

datatype uart_cause = UART_IIR_RLSI | UART_IIR_RDA | UART_IIR_RTO | UART_IIR_THRE | UART_IIR_MSC

text \<open>While the chip has characters.\<close>

partial_function (option) tty_drain :: "tty \<Rightarrow> tty result option" where
  "tty_drain s =
    (if uart_rx s \<noteq> [] then
       (case ttyhandle_in s of
          Ret s \<Rightarrow> tty_drain s
        | Halted \<Rightarrow> Some Halted
        | Fault \<Rightarrow> Some Fault
        | Loops \<Rightarrow> Some Loops)
     else Some (Ret s))"

definition ttyhandler :: "uart_cause option \<Rightarrow> tty \<Rightarrow> tty result" where
  "ttyhandler iir s =
    (case iir of
       None \<Rightarrow> Ret s
     | Some UART_IIR_RLSI \<Rightarrow> Ret s
     | Some UART_IIR_MSC \<Rightarrow> Ret s
     | Some UART_IIR_THRE \<Rightarrow> ttyhandle_out s
     | Some _ \<Rightarrow>
         rbind (resched_cntl DEFER_START (tkern s)) (\<lambda>(_, k).
         rbind (rjoin (of_loop (tty_drain (s\<lparr>tkern := k\<rparr>)))) (\<lambda>s.
         rbind (resched_cntl DEFER_STOP (tkern s)) (\<lambda>(_, k).
         Ret (s\<lparr>tkern := k\<rparr>)))))"

section \<open>The calls\<close>

definition ttygetc_rest :: "tty \<Rightarrow> (int \<times> tty) result" where
  "ttygetc_rest s =
    (let h = tyihead (tyb s) in
     if h < 0 \<or> h \<ge> TY_IBUFLEN then Fault
     else
       let ch = tyibuff (tyb s) h;
           s = upd_ty (\<lambda>b. b\<lparr>tyihead := h + 1\<rparr>) s;
           s = (if tyihead (tyb s) \<ge> TY_IBUFLEN then upd_ty (\<lambda>b. b\<lparr>tyihead := 0\<rparr>) s else s) in
       if tyimode (tyb s) = TY_IMCOOKED \<and> tyeof (tyb s) \<and> ch = tyeofch (tyb s) then Ret (EOF, s)
       else Ret (sint ch, s))"

definition ttygetc :: "tty \<Rightarrow> (int option \<times> tty) result" where
  "ttygetc s =
    (let caller = currpid (tkern s) in
     rbind (wait (tyisem (tyb s)) (tkern s)) (\<lambda>(_, k).
     let s = s\<lparr>tkern := k\<rparr> in
     if currpid k = caller then rbind (ttygetc_rest s) (\<lambda>(ch, s). Ret (Some ch, s)) else Ret (None, s)))"

text \<open>
  The characters stored at \<open>buff\<close> so far are \<open>acc\<close>, in order. The result is the number read and the characters; no number when the caller waits,
  who goes on with \<open>ttygetc_rest\<close> and the rest of the loop.
\<close>

fun read_chars :: "nat \<Rightarrow> u8 list \<Rightarrow> tty \<Rightarrow> (int option \<times> u8 list \<times> tty) result" where
  "read_chars 0 acc s = Ret (Some (int (length acc)), acc, s)"
| "read_chars (Suc n) acc s =
    rbind (ttygetc s) (\<lambda>(r, s).
    case r of None \<Rightarrow> Ret (None, acc, s) | Some ch \<Rightarrow> read_chars n (acc @ [word_of_int ch]) s)"

fun read_line :: "nat \<Rightarrow> u8 list \<Rightarrow> tty \<Rightarrow> (int option \<times> u8 list \<times> tty) result" where
  "read_line 0 acc s = Ret (Some (int (length acc)), acc, s)"
| "read_line (Suc n) acc s =
    (if last acc = TY_NEWLINE \<or> last acc = TY_RETURN then Ret (Some (int (length acc)), acc, s)
     else
       rbind (ttygetc s) (\<lambda>(r, s).
       case r of None \<Rightarrow> Ret (None, acc, s) | Some ch \<Rightarrow> read_line n (acc @ [word_of_int ch]) s))"

definition ttyread :: "int \<Rightarrow> tty \<Rightarrow> (int option \<times> u8 list \<times> tty) result" where
  "ttyread cnt s =
    (if cnt < 0 then Ret (Some SYSERR, [], s)
     else if tyimode (tyb s) \<noteq> TY_IMCOOKED then
       if cnt = 0 then
         let avail = semcount (tyisem (tyb s)) (tkern s) in
         if avail = 0 then Ret (Some 0, [], s) else read_chars (nat avail) [] s
       else read_chars (nat cnt) [] s
     else
       rbind (ttygetc s) (\<lambda>(r, s).
       case r of
         None \<Rightarrow> Ret (None, [], s)
       | Some firstch \<Rightarrow>
           if firstch = EOF then Ret (Some EOF, [], s)
           else read_line (nat (cnt - 1)) [word_of_int firstch] s))"

definition ttyputc_rest :: "u8 \<Rightarrow> tty \<Rightarrow> tty result" where
  "ttyputc_rest ch s =
    (let t = tyotail (tyb s) in
     if t < 0 \<or> t \<ge> TY_OBUFLEN then Fault
     else
       let s = upd_ty (\<lambda>b. b\<lparr>tyobuff := (tyobuff b)(t := ch), tyotail := t + 1\<rparr>) s;
           s = (if tyotail (tyb s) \<ge> TY_OBUFLEN then upd_ty (\<lambda>b. b\<lparr>tyotail := 0\<rparr>) s else s)
       in Ret (ttykickout s))"

text \<open>One character; the flag says that the caller still runs. \<open>ttyputc\<close> calls itself once, for the carriage return before a newline.\<close>

definition ttyputc_one :: "u8 \<Rightarrow> tty \<Rightarrow> (bool \<times> tty) result" where
  "ttyputc_one ch s =
    (let caller = currpid (tkern s) in
     rbind (wait (tyosem (tyb s)) (tkern s)) (\<lambda>(_, k).
     let s = s\<lparr>tkern := k\<rparr> in
     if currpid k = caller then rbind (ttyputc_rest ch s) (\<lambda>s. Ret (True, s)) else Ret (False, s)))"

definition ttyputc :: "u8 \<Rightarrow> tty \<Rightarrow> (bool \<times> tty) result" where
  "ttyputc ch s =
    rbind (if ch = TY_NEWLINE \<and> tyocrlf (tyb s) then ttyputc_one TY_RETURN s else Ret (True, s)) (\<lambda>(on, s).
    if on then ttyputc_one ch s else Ret (False, s))"

fun write_chars :: "u8 list \<Rightarrow> tty \<Rightarrow> (bool \<times> tty) result" where
  "write_chars [] s = Ret (True, s)"
| "write_chars (c # cs) s = rbind (ttyputc c s) (\<lambda>(on, s). if on then write_chars cs s else Ret (False, s))"

text \<open>\<open>buff\<close> holds the characters \<open>cs\<close>.\<close>

definition ttywrite :: "u8 list \<Rightarrow> int \<Rightarrow> tty \<Rightarrow> (int option \<times> tty) result" where
  "ttywrite cs cnt s =
    (if cnt < 0 then Ret (Some SYSERR, s)
     else if cnt = 0 then Ret (Some OK, s)
     else rbind (write_chars (take (nat cnt) cs) s) (\<lambda>(on, s). Ret (if on then Some OK else None, s)))"

definition ttyinit :: "tty \<Rightarrow> tty" where
  "ttyinit s =
    (case semcreate 0 (tkern s) of (isem, k) \<Rightarrow>
     case semcreate TY_OBUFLEN k of (osem, k) \<Rightarrow>
     ttykickout (upd_ty (\<lambda>b. b\<lparr>tyihead := 0, tyitail := 0, tyisem := isem, tyohead := 0, tyotail := 0, tyosem := osem, tyehead := 0, tyetail := 0,
       tyimode := TY_IMCOOKED, tyiecho := True, tyieback := True, tyevis := True, tyecrlf := True, tyicrlf := True, tyierase := True,
       tyierasec := TY_BACKSP, tyierasec2 := TY_BACKSP2, tyeof := True, tyeofch := TY_EOFCH, tyikill := True, tyikillc := TY_KILLCH,
       tyicursor := 0, tyoflow := True, tyoheld := False, tyostop := TY_STOPCH, tyostart := TY_STRTCH, tyocrlf := True,
       tyifullc := TY_FULLCH\<rparr>) (s\<lparr>tkern := k\<rparr>)))"

datatype tty_func = TC_NEXTC | TC_MODER | TC_MODEC | TC_MODEK | TC_ICHARS | TC_ECHO | TC_NOECHO | TC_OTHER

text \<open>The look-ahead after its \<open>wait\<close>.\<close>

definition nextc_rest :: "tty \<Rightarrow> (int \<times> tty) result" where
  "nextc_rest s =
    (let t = tyitail (tyb s) in
     if t < 0 \<or> t \<ge> TY_IBUFLEN then Fault
     else rbind (tty_signal (tyisem (tyb s)) s) (\<lambda>s'. Ret (sint (tyibuff (tyb s) t), s')))"

definition ttycontrol :: "tty_func \<Rightarrow> tty \<Rightarrow> (int option \<times> tty) result" where
  "ttycontrol func s =
    (case func of
       TC_NEXTC \<Rightarrow>
         let caller = currpid (tkern s) in
         rbind (wait (tyisem (tyb s)) (tkern s)) (\<lambda>(_, k).
         let s = s\<lparr>tkern := k\<rparr> in
         if currpid k = caller then rbind (nextc_rest s) (\<lambda>(ch, s). Ret (Some ch, s)) else Ret (None, s))
     | TC_MODER \<Rightarrow> Ret (Some OK, upd_ty (\<lambda>b. b\<lparr>tyimode := TY_IMRAW\<rparr>) s)
     | TC_MODEC \<Rightarrow> Ret (Some OK, upd_ty (\<lambda>b. b\<lparr>tyimode := TY_IMCOOKED\<rparr>) s)
     | TC_MODEK \<Rightarrow> Ret (Some OK, upd_ty (\<lambda>b. b\<lparr>tyimode := TY_IMCBREAK\<rparr>) s)
     | TC_ICHARS \<Rightarrow> Ret (Some (semcount (tyisem (tyb s)) (tkern s)), s)
     | TC_ECHO \<Rightarrow> Ret (Some OK, upd_ty (\<lambda>b. b\<lparr>tyiecho := True\<rparr>) s)
     | TC_NOECHO \<Rightarrow> Ret (Some OK, upd_ty (\<lambda>b. b\<lparr>tyiecho := False\<rparr>) s)
     | TC_OTHER \<Rightarrow> Ret (Some SYSERR, s))"

section \<open>Semaphores as the driver uses them\<close>

text \<open>
  In the handler rescheduling is deferred, in the calls it is not; what the driver relies on is the same: signalling a semaphore in use returns,
  adds to its count and changes no other.
\<close>

locale signalling =
  fixes K :: "kernel \<Rightarrow> bool"
  assumes signal_ok: "K k \<Longrightarrow> \<not> isbadsem s \<Longrightarrow> sstate (semtab k s) \<noteq> S_FREE \<Longrightarrow> scount (semtab k s) < 2 ^ 31 - 1 \<Longrightarrow>
      \<exists>k'. signal s k = Ret (OK, k') \<and> K k' \<and> semtab k' = semtab (set_scount s (scount (semtab k s) + 1) k)"
    and signaln_ok: "K k \<Longrightarrow> \<not> isbadsem s \<Longrightarrow> sstate (semtab k s) \<noteq> S_FREE \<Longrightarrow> 0 \<le> n \<Longrightarrow> scount (semtab k s) + n < 2 ^ 31 \<Longrightarrow>
      \<exists>k'. signaln s n k = Ret (OK, k') \<and> K k' \<and> semtab k' = semtab (set_scount s (scount (semtab k s) + n) k)"

definition at_ease :: "kernel \<Rightarrow> bool" where
  "at_ease k \<longleftrightarrow> (\<exists>Q. kidle k Q)"

text \<open>Inside \<open>DEFER_START\<close> and \<open>DEFER_STOP\<close>.\<close>

definition deferring :: "kernel \<Rightarrow> bool" where
  "deferring k \<longleftrightarrow> (\<exists>Q. kinv k Q \<and> sem_counts k Q) \<and> ndefers k = 1"

lemma sem_range:
  assumes "kinv k Q" and "sem_counts k Q" and "\<not> isbadsem s"
  shows "- 100 \<le> scount (semtab k s)" "scount (semtab k s) < 2 ^ 31" "int (length (Q (squeue (semtab k s)))) = max 0 (- scount (semtab k s))"
proof -
  have "kinv (k\<lparr>ndefers := 0\<rparr>) Q" by (rule kinv_cong [OF assms(1)]) simp_all
  then have "kidle (k\<lparr>ndefers := 0\<rparr>) Q" using assms(2) by (simp add: kidle_def sem_counts_def)
  from scount_range [OF this assms(3)] show "- 100 \<le> scount (semtab k s)" "scount (semtab k s) < 2 ^ 31" "int (length (Q (squeue (semtab k s)))) = max 0 (- scount (semtab k s))"
    by simp_all
qed

lemma counted:
  assumes k: "kinv k Q" "sem_counts k Q" and s: "\<not> isbadsem s" and k': "kinv k' Q'" and st: "semtab k' = semtab (set_scount s c k)"
    and c: "int (length (Q' (squeue (semtab k s)))) = max 0 (- c)" "c < 2 ^ 31"
    and Q: "\<And>q. q \<noteq> squeue (semtab k s) \<Longrightarrow> q \<noteq> readylist k \<Longrightarrow> Q' q = Q q"
  shows "sem_counts k' Q'"
  by (rule sem_counts_one [where k = k and s = s and Q = Q]) (use k s st c Q in \<open>simp_all add: kinv_def kbase_def set_scount_def upd_sem_def\<close>)

lemma deferred_signal:
  assumes d: "deferring k" and s: "\<not> isbadsem s" "sstate (semtab k s) \<noteq> S_FREE" and c: "scount (semtab k s) < 2 ^ 31 - 1"
  shows "\<exists>k'. signal s k = Ret (OK, k') \<and> deferring k' \<and> semtab k' = semtab (set_scount s (scount (semtab k s) + 1) k)"
proof -
  obtain Q where q: "kinv k Q" "sem_counts k Q" and n: "ndefers k = 1" using d by (auto simp: deferring_def)
  note r = sem_range [OF q s(1)]
  obtain k' Q' where o: "signal_one s k = Ret k'" "kinv k' Q'" "ndefers k' = ndefers k" "semtab k' = semtab (set_scount s (scount (semtab k s) + 1) k)"
    "Q' (squeue (semtab k s)) = (if scount (semtab k s) < 0 then tl (Q (squeue (semtab k s))) else Q (squeue (semtab k s)))"
    "\<And>q. q \<noteq> squeue (semtab k s) \<Longrightarrow> q \<noteq> readylist k \<Longrightarrow> Q' q = Q q"
    by (rule signal_one_kinv [OF q(1) s(1)]) (use r c that in auto)
  have "int (length (Q' (squeue (semtab k s)))) = max 0 (- (scount (semtab k s) + 1))" unfolding o(5) using r(3) by auto
  then have "sem_counts k' Q'" using counted [OF q s(1) o(2,4) _ _ o(6)] c by simp
  then show ?thesis using o s n by (auto simp: signal_def deferring_def)
qed

lemma deferred_signaln:
  assumes d: "deferring k" and s: "\<not> isbadsem s" "sstate (semtab k s) \<noteq> S_FREE" and c: "0 \<le> n" "scount (semtab k s) + n < 2 ^ 31"
  shows "\<exists>k'. signaln s n k = Ret (OK, k') \<and> deferring k' \<and> semtab k' = semtab (set_scount s (scount (semtab k s) + n) k)"
proof -
  obtain Q where q: "kinv k Q" "sem_counts k Q" and nd: "ndefers k = 1" using d by (auto simp: deferring_def)
  note r = sem_range [OF q s(1)]
  let ?k = "k\<lparr>ndefers := 2\<rparr>"
  have st: "resched_cntl DEFER_START k = Ret (OK, ?k)" using nd by (simp add: resched_cntl_def Let_def)
  have "kinv ?k Q" by (rule kinv_cong [OF q(1)]) simp_all
  then obtain k1 Q1 where l: "signaln_loop (nat n) s ?k = Ret k1" "kinv k1 Q1" "ndefers k1 = 2" "semtab k1 = semtab (set_scount s (scount (semtab k s) + n) k)"
    "Q1 (squeue (semtab k s)) = drop (nat n) (Q (squeue (semtab k s)))" "\<And>q. q \<noteq> squeue (semtab k s) \<Longrightarrow> q \<noteq> readylist k \<Longrightarrow> Q1 q = Q q"
    using signaln_loop_ok [of ?k Q s "nat n"] r s(1) c by (auto simp: set_scount_def upd_sem_def)
  let ?k1 = "k1\<lparr>ndefers := 1\<rparr>"
  have k1: "kinv ?k1 Q1" by (rule kinv_cong [OF l(2)]) simp_all
  have "int (length (Q1 (squeue (semtab k s)))) = max 0 (- (scount (semtab k s) + n))" unfolding l(5) using r(3) c(1) by auto
  then have "sem_counts ?k1 Q1" using counted [OF q s(1) k1 _ _ c(2) l(6)] l(4) by simp
  moreover have "resched_cntl DEFER_STOP k1 = Ret (OK, ?k1)" using l(3) by (simp add: resched_cntl_def DEFER_START_def DEFER_STOP_def Let_def)
  ultimately show ?thesis using s c(1) st l(1,4) k1 by (auto simp: signaln_def deferring_def)
qed

interpretation calm: signalling at_ease
proof (unfold_locales, goal_cases)
  case (1 k s)
  then show ?case unfolding at_ease_def using signal_kidle by (metis (no_types, lifting))
next
  case (2 k s n)
  then show ?case unfolding at_ease_def using signaln_kidle by (metis (no_types, lifting))
qed

interpretation deferred: signalling deferring
  by unfold_locales (rule deferred_signal, assumption+, rule deferred_signaln)

section \<open>Rings of characters\<close>

text \<open>The characters \<open>xs\<close> from index \<open>h\<close> on in a buffer of \<open>n\<close> characters.\<close>

definition ring :: "int \<Rightarrow> (int \<Rightarrow> u8) \<Rightarrow> int \<Rightarrow> u8 list \<Rightarrow> bool" where
  "ring n f h xs \<longleftrightarrow> int (length xs) \<le> n \<and> (\<forall>j < length xs. f ((h + int j) mod n) = xs ! j)"

lemma ring_put:
  assumes "ring n f h xs" and "int (length xs) < n" and "t = (h + int (length xs)) mod n"
  shows "ring n (f(t := c)) h (xs @ [c])"
proof -
  have "(h + int j) mod n \<noteq> t" if "j < length xs" for j
  proof
    assume "(h + int j) mod n = t"
    then have "(h + int (length xs) - (h + int j)) mod n = 0" unfolding assms(3) by (metis mod_diff_cong diff_self mod_0)
    then have "(int (length xs) - int j) mod n = 0" by simp
    moreover have "0 < int (length xs) - int j" "int (length xs) - int j < n" using that assms(2) by simp_all
    ultimately show False by simp
  qed
  then show ?thesis using assms by (auto simp: ring_def nth_append less_Suc_eq)
qed

lemma ring_butlast: "ring n f h (xs @ [c]) \<Longrightarrow> ring n f h xs"
  by (auto simp: ring_def nth_append split: if_splits)

lemma ring_take: "ring n f h (xs @ ys) \<Longrightarrow> ring n f h xs"
  by (induction ys rule: rev_induct) (auto simp: ring_butlast simp flip: append_assoc)

lemma ring_hd: "ring n f h (c # xs) \<Longrightarrow> 0 \<le> h \<Longrightarrow> h < n \<Longrightarrow> f h = c"
  by (auto simp: ring_def dest: spec [of _ 0])

lemma ring_tl: "ring n f h (c # xs) \<Longrightarrow> ring n f ((h + 1) mod n) xs"
  unfolding ring_def
proof (elim conjE, intro conjI allI impI)
  fix j assume r: "\<forall>j < length (c # xs). f ((h + int j) mod n) = (c # xs) ! j" and j: "j < length xs"
  have "((h + 1) mod n + int j) mod n = (h + int (Suc j)) mod n" by (simp add: mod_simps algebra_simps)
  then show "f (((h + 1) mod n + int j) mod n) = xs ! j" using r [rule_format, of "Suc j"] j by simp
qed simp

text \<open>A pointer that is advanced and set back at the end of the buffer, and one that is moved back.\<close>

lemma ring_wrap: "0 \<le> t \<Longrightarrow> t < n \<Longrightarrow> (if t + 1 \<ge> n then 0 else t + 1) = (t + 1) mod (n :: int)"
  by (cases "t + 1 = n") auto

lemma ring_back: "0 \<le> t \<Longrightarrow> t < n \<Longrightarrow> 0 \<le> d \<Longrightarrow> d \<le> n \<Longrightarrow> (if t - d < 0 then t - d + n else t - d) = (t - d) mod (n :: int)"
proof -
  assume a: "0 \<le> t" "t < n" "0 \<le> d" "d \<le> n"
  have "(t - d + n) mod n = (t - d) mod n" by simp
  moreover have "(t - d + n) mod n = t - d + n" if "t - d < 0" using a that by (intro mod_pos_pos_trivial) linarith+
  moreover have "(t - d) mod n = t - d" if "\<not> t - d < 0" using a that by (intro mod_pos_pos_trivial) linarith+
  ultimately show ?thesis by auto
qed

section \<open>Echo does not touch the input\<close>

definition same_line :: "ttycblk \<Rightarrow> ttycblk \<Rightarrow> bool" where
  "same_line b b' \<longleftrightarrow> tyihead b' = tyihead b \<and> tyisem b' = tyisem b \<and> tyohead b' = tyohead b \<and> tyotail b' = tyotail b \<and> tyobuff b' = tyobuff b \<and>
    tyosem b' = tyosem b \<and> tyehead b' = tyehead b \<and> tyimode b' = tyimode b \<and> tyiecho b' = tyiecho b \<and> tyieback b' = tyieback b \<and>
    tyevis b' = tyevis b \<and> tyecrlf b' = tyecrlf b \<and> tyicrlf b' = tyicrlf b \<and> tyierase b' = tyierase b \<and> tyierasec b' = tyierasec b \<and>
    tyierasec2 b' = tyierasec2 b \<and> tyeof b' = tyeof b \<and> tyeofch b' = tyeofch b \<and> tyikill b' = tyikill b \<and> tyikillc b' = tyikillc b \<and>
    tyoflow b' = tyoflow b \<and> tyostop b' = tyostop b \<and> tyostart b' = tyostart b \<and> tyocrlf b' = tyocrlf b \<and> tyifullc b' = tyifullc b"

definition echo_ok :: "tty \<Rightarrow> bool" where
  "echo_ok s \<longleftrightarrow> 0 \<le> tyetail (tyb s) \<and> tyetail (tyb s) < TY_EBUFLEN"

definition echoed :: "tty \<Rightarrow> tty \<Rightarrow> bool" where
  "echoed s s' \<longleftrightarrow> same_line (tyb s) (tyb s') \<and> tyitail (tyb s') = tyitail (tyb s) \<and> tyibuff (tyb s') = tyibuff (tyb s) \<and>
    tyicursor (tyb s') = tyicursor (tyb s) \<and> tkern s' = tkern s \<and> uart_rx s' = uart_rx s \<and> uart_tx s' = uart_tx s \<and> echo_ok s'"

lemma echoed_refl: "echo_ok s \<Longrightarrow> echoed s s"
  by (simp add: echoed_def same_line_def)

lemma echoed_trans: "echoed s s' \<Longrightarrow> echoed s' s'' \<Longrightarrow> echoed s s''"
  by (simp add: echoed_def same_line_def)

lemma eputc_echoed: "echo_ok s \<Longrightarrow> \<exists>s'. eputc c s = Ret s' \<and> echoed s s'"
  by (auto simp: eputc_def Let_def upd_ty_def ttykickout_def echoed_def same_line_def echo_ok_def TY_EBUFLEN_def)

lemma eputs_echoed: "echo_ok s \<Longrightarrow> \<exists>s'. eputs cs s = Ret s' \<and> echoed s s'"
proof (induction cs arbitrary: s)
  case (Cons c cs)
  obtain s1 where s1: "eputc c s = Ret s1" "echoed s s1" using eputc_echoed [OF Cons.prems] by blast
  then obtain s' where "eputs cs s1 = Ret s'" "echoed s1 s'" using Cons.IH [of s1] by (auto simp: echoed_def)
  then show ?case using s1 echoed_trans by auto
qed (simp add: echoed_refl)

lemma echoch_echoed: "echo_ok s \<Longrightarrow> \<exists>s'. echoch c s = Ret s' \<and> echoed s s'"
  using eputs_echoed eputc_echoed by (simp add: echoch_def del: eputs.simps)

lemma echo_opt: "echo_ok s \<Longrightarrow> \<exists>s'. (if e then echoch c s else Ret s) = Ret s' \<and> echoed s s'"
  using echoch_echoed by (auto simp: echoed_refl)

lemma wipe_echoed:
  assumes "echo_ok s"
  shows "\<exists>s'. (if e then if u then rbind (if v then eputs w s else Ret s) (eputs w) else eputs w s else Ret s) = Ret s' \<and> echoed s s'"
proof -
  obtain s1 where s1: "eputs w s = Ret s1" "echoed s s1" using eputs_echoed [OF assms] by blast
  obtain s2 where s2: "eputs w s1 = Ret s2" "echoed s1 s2" using eputs_echoed [of s1] s1(2) by (auto simp: echoed_def)
  show ?thesis using s1 s2 echoed_trans [OF s1(2) s2(2)] echoed_refl [OF assms] by simp
qed

section \<open>The line editor\<close>

text \<open>
  What the input side promises: characters available to readers, in order, and the line being typed. The flags and special characters
  are those of the control block \<open>b\<close>; \<open>n\<close> is the number of characters no reader has claimed.
\<close>

definition in_char :: "ttycblk \<Rightarrow> u8 \<Rightarrow> u8" where
  "in_char b c = (if c = TY_RETURN \<and> tyicrlf b then TY_NEWLINE else c)"

definition edit :: "ttycblk \<Rightarrow> nat \<Rightarrow> u8 \<Rightarrow> u8 list \<times> u8 list \<Rightarrow> u8 list \<times> u8 list" where
  "edit b n ch e = (case e of (av, ln) \<Rightarrow>
    if tyoflow b \<and> (ch = tyostart b \<or> ch = tyostop b) then (av, ln)
    else if ch = tyikillc b \<and> tyikill b then (av, [])
    else if (ch = tyierasec b \<or> ch = tyierasec2 b) \<and> tyierase b then (av, butlast ln)
    else if ch = TY_NEWLINE \<or> ch = TY_RETURN then (av @ ln @ [ch], [])
    else if int (n + length ln) \<ge> TY_IBUFLEN - 1 then (av, ln)
    else if ch = tyeofch b \<and> tyeof b then (if ln = [] then (av @ [ch], ln) else (av, ln))
    else (av, ln @ [ch]))"

text \<open>
  The buffer holds the characters available and then the line. The count of the semaphore, when positive, is the number of characters no
  reader has claimed: the other available characters are for readers that have been woken and have not read yet.
\<close>

definition tty_buf :: "u8 list \<Rightarrow> tty \<Rightarrow> bool" where
  "tty_buf xs s \<longleftrightarrow> (let b = tyb s in
    0 \<le> tyihead b \<and> tyihead b < TY_IBUFLEN \<and> ring TY_IBUFLEN (tyibuff b) (tyihead b) xs \<and>
    tyitail b = (tyihead b + int (length xs)) mod TY_IBUFLEN \<and>
    \<not> isbadsem (tyisem b) \<and> sstate (semtab (tkern s) (tyisem b)) \<noteq> S_FREE \<and> echo_ok s)"

definition in_count :: "tty \<Rightarrow> int" where
  "in_count s = scount (semtab (tkern s) (tyisem (tyb s)))"

definition tty_in :: "u8 list \<Rightarrow> u8 list \<Rightarrow> tty \<Rightarrow> bool" where
  "tty_in av ln s \<longleftrightarrow> tty_buf (av @ ln) s \<and> tyicursor (tyb s) = int (length ln) \<and> in_count s \<le> int (length av)"

lemma tty_in_echoed: "tty_in av ln s \<Longrightarrow> echoed s s' \<Longrightarrow> tty_in av ln s'"
  by (simp add: tty_in_def tty_buf_def in_count_def echoed_def same_line_def Let_def)

lemma tty_in_tail: "tty_in av ln s \<Longrightarrow> 0 \<le> tyitail (tyb s) \<and> tyitail (tyb s) < TY_IBUFLEN"
  by (simp add: tty_in_def tty_buf_def in_count_def Let_def TY_IBUFLEN_def)

lemma tty_in_avail: "tty_in av ln s \<Longrightarrow> tty_avail s = max 0 (in_count s)"
  by (auto simp: tty_in_def tty_buf_def in_count_def Let_def tty_avail_def semcount_def)

lemma tty_in_bound: "tty_in av ln s \<Longrightarrow> int (length (av @ ln)) \<le> TY_IBUFLEN"
  by (simp add: tty_in_def tty_buf_def in_count_def Let_def ring_def)

text \<open>What a routine of the input side leaves of the rest of the state.\<close>

definition in_frame :: "tty \<Rightarrow> tty \<Rightarrow> bool" where
  "in_frame s s' \<longleftrightarrow> same_line (tyb s) (tyb s') \<and> uart_rx s' = uart_rx s \<and> uart_tx s' = uart_tx s"

lemma in_frame_trans: "in_frame s s' \<Longrightarrow> in_frame s' s'' \<Longrightarrow> in_frame s s''"
  by (simp add: in_frame_def same_line_def)

lemma echoed_in_frame: "echoed s s' \<Longrightarrow> in_frame s s'"
  by (simp add: echoed_def in_frame_def)

text \<open>Storing a character and advancing the tail.\<close>

lemma put_wrap:
  assumes "tty_buf xs s" and "int (length xs) < TY_IBUFLEN"
  shows "\<exists>s1. put_in c s = Ret s1 \<and> tty_buf (xs @ [c]) (wrap_in s1) \<and> in_frame s (wrap_in s1) \<and> tkern (wrap_in s1) = tkern s \<and>
    tyicursor (tyb (wrap_in s1)) = tyicursor (tyb s) \<and> (tyitail (tyb s) \<noteq> TY_IBUFLEN - 1 \<longrightarrow> wrap_in s1 = s1)"
proof -
  let ?b = "tyb s"
  have i: "ring TY_IBUFLEN (tyibuff ?b) (tyihead ?b) xs" "tyitail ?b = (tyihead ?b + int (length xs)) mod TY_IBUFLEN" "echo_ok s"
    using assms(1) by (simp_all add: tty_buf_def Let_def)
  have t: "0 \<le> tyitail ?b" "tyitail ?b < TY_IBUFLEN" unfolding i(2) by (simp_all add: TY_IBUFLEN_def)
  have "(tyitail ?b + 1) mod TY_IBUFLEN = (tyihead ?b + int (length (xs @ [c]))) mod TY_IBUFLEN"
    unfolding i(2) by (simp add: mod_simps algebra_simps)
  then have w: "(if tyitail ?b + 1 \<ge> TY_IBUFLEN then 0 else tyitail ?b + 1) = (tyihead ?b + int (length (xs @ [c]))) mod TY_IBUFLEN"
    using ring_wrap [OF t] by simp
  let ?s1 = "s\<lparr>tyb := ?b\<lparr>tyitail := tyitail ?b + 1, tyibuff := (tyibuff ?b)(tyitail ?b := c)\<rparr>\<rparr>"
  define f where "f = (tyibuff ?b)(tyitail ?b := c)"
  have "put_in c s = Ret ?s1" using t by (simp add: put_in_def upd_ty_def Let_def)
  moreover have "wrap_in ?s1 = s\<lparr>tyb := ?b\<lparr>tyitail := (tyihead ?b + int (length (xs @ [c]))) mod TY_IBUFLEN, tyibuff := f\<rparr>\<rparr>"
    unfolding w [symmetric] by (simp add: wrap_in_def upd_ty_def f_def)
  moreover have "ring TY_IBUFLEN f (tyihead ?b) (xs @ [c])" unfolding f_def by (rule ring_put [OF i(1) assms(2) i(2)])
  then have "tty_buf (xs @ [c]) (s\<lparr>tyb := ?b\<lparr>tyitail := (tyihead ?b + int (length (xs @ [c]))) mod TY_IBUFLEN, tyibuff := f\<rparr>\<rparr>)"
    using assms(1) by (simp add: tty_buf_def echo_ok_def Let_def)
  moreover have "wrap_in ?s1 = ?s1" if "tyitail ?b \<noteq> TY_IBUFLEN - 1" using that t(2) by (simp add: wrap_in_def)
  ultimately show ?thesis by (intro exI [of _ ?s1]) (simp add: in_frame_def same_line_def)
qed

lemma kill_line:
  assumes "tty_in av ln s"
  shows "\<exists>s'. tty_kill s = Ret s' \<and> tty_in av [] s' \<and> in_frame s s' \<and> tkern s' = tkern s"
proof -
  let ?b = "tyb s"
  let ?t = "(if tyitail ?b - tyicursor ?b < 0 then tyitail ?b - tyicursor ?b + TY_IBUFLEN else tyitail ?b - tyicursor ?b)"
  let ?s = "s\<lparr>tyb := ?b\<lparr>tyitail := ?t, tyicursor := 0\<rparr>\<rparr>"
  have i: "ring TY_IBUFLEN (tyibuff ?b) (tyihead ?b) (av @ ln)" "tyitail ?b = (tyihead ?b + int (length (av @ ln))) mod TY_IBUFLEN" "tyicursor ?b = int (length ln)" "echo_ok s"
    using assms by (simp_all add: tty_in_def tty_buf_def in_count_def Let_def)
  have "?t = (tyitail ?b - tyicursor ?b) mod TY_IBUFLEN"
    by (rule ring_back) (use tty_in_tail [OF assms] tty_in_bound [OF assms] i(3) in simp_all)
  also have "\<dots> = (tyihead ?b + int (length av)) mod TY_IBUFLEN" unfolding i(2,3) by (simp add: mod_simps algebra_simps)
  finally have s: "tty_in av [] ?s" using assms ring_take [OF i(1)] by (simp add: tty_in_def tty_buf_def in_count_def Let_def echo_ok_def)
  have "tty_kill s = eputs [TY_RETURN, TY_NEWLINE] ?s" by (simp add: tty_kill_def upd_ty_def Let_def del: eputs.simps)
  moreover obtain s' where "eputs [TY_RETURN, TY_NEWLINE] ?s = Ret s'" "echoed ?s s'"
    using eputs_echoed [of ?s] i(4) by (auto simp: echo_ok_def simp del: eputs.simps)
  ultimately show ?thesis using tty_in_echoed [OF s] by (auto simp: echoed_def in_frame_def same_line_def)
qed

lemma erase_char:
  assumes "tty_in av (ln @ [c]) s"
  shows "\<exists>s'. erase1 (upd_ty (\<lambda>b. b\<lparr>tyicursor := tyicursor b - 1\<rparr>) s) = Ret s' \<and> tty_in av ln s' \<and> in_frame s s' \<and> tkern s' = tkern s"
proof -
  let ?b = "tyb s"
  let ?t = "(if tyitail ?b - 1 < 0 then tyitail ?b - 1 + TY_IBUFLEN else tyitail ?b - 1)"
  let ?s = "s\<lparr>tyb := ?b\<lparr>tyicursor := tyicursor ?b - 1, tyitail := ?t\<rparr>\<rparr>"
  have i: "ring TY_IBUFLEN (tyibuff ?b) (tyihead ?b) (av @ ln @ [c])" "tyitail ?b = (tyihead ?b + int (length (av @ ln @ [c]))) mod TY_IBUFLEN" "echo_ok s"
    using assms by (simp_all add: tty_in_def tty_buf_def in_count_def Let_def)
  have "?t = (tyitail ?b - 1) mod TY_IBUFLEN"
    by (rule ring_back) (use tty_in_tail [OF assms] in \<open>simp_all add: TY_IBUFLEN_def\<close>)
  also have "\<dots> = (tyihead ?b + int (length (av @ ln))) mod TY_IBUFLEN" unfolding i(2) by (simp add: mod_simps algebra_simps)
  finally have t: "?t = (tyihead ?b + int (length (av @ ln))) mod TY_IBUFLEN" .
  then have s: "tty_in av ln ?s" using assms ring_butlast [of _ _ _ "av @ ln" c] i(1) by (simp add: tty_in_def tty_buf_def in_count_def Let_def echo_ok_def)
  have r: "0 \<le> ?t" "?t < TY_IBUFLEN" unfolding t by (simp_all add: TY_IBUFLEN_def)
  have e: "echo_ok ?s" using i(3) by (simp add: echo_ok_def)
  define wipe where "wipe = (if tyieback ?b then [TY_BACKSP, TY_BLANK, TY_BACKSP] else [TY_BACKSP])"
  obtain s' where w: "(if tyiecho ?b then if unprintable (tyibuff ?b ?t) then rbind (if tyevis ?b then eputs wipe ?s else Ret ?s) (eputs wipe) else eputs wipe ?s else Ret ?s) = Ret s'"
    "echoed ?s s'" using wipe_echoed [OF e] by blast
  have "erase1 (upd_ty (\<lambda>b. b\<lparr>tyicursor := tyicursor b - 1\<rparr>) s) =
    (if tyiecho ?b then if unprintable (tyibuff ?b ?t) then rbind (if tyevis ?b then eputs wipe ?s else Ret ?s) (eputs wipe) else eputs wipe ?s else Ret ?s)"
    using r by (cases "tyitail ?b < 1") (simp_all add: erase1_def upd_ty_def Let_def wipe_def del: eputs.simps)
  then have run: "erase1 (upd_ty (\<lambda>b. b\<lparr>tyicursor := tyicursor b - 1\<rparr>) s) = Ret s'" using w(1) by (rule trans)
  have "in_frame s ?s" "tkern ?s = tkern s" by (simp_all add: in_frame_def same_line_def)
  moreover have "tkern s' = tkern ?s" using w(2) unfolding echoed_def by blast
  ultimately have "in_frame s s'" "tkern s' = tkern s" using in_frame_trans [OF _ echoed_in_frame [OF w(2)]] by simp_all
  then show ?thesis using tty_in_echoed [OF s w(2)] run by blast
qed

context signalling
begin

lemma tty_signaln_ok:
  assumes "K (tkern s)" and "tty_buf xs s" and "0 \<le> n" and "in_count s + n < 2 ^ 31"
  shows "\<exists>s'. tty_signaln (tyisem (tyb s)) n s = Ret s' \<and> tty_buf xs s' \<and> tyb s' = tyb s \<and> in_frame s s' \<and> K (tkern s') \<and> in_count s' = in_count s + n"
proof -
  have b: "\<not> isbadsem (tyisem (tyb s))" "sstate (semtab (tkern s) (tyisem (tyb s))) \<noteq> S_FREE" using assms(2) by (simp_all add: tty_buf_def Let_def)
  obtain k' where "signaln (tyisem (tyb s)) n (tkern s) = Ret (OK, k')" "K k'"
    "semtab k' = semtab (set_scount (tyisem (tyb s)) (scount (semtab (tkern s) (tyisem (tyb s))) + n) (tkern s))"
    using signaln_ok [OF assms(1) b assms(3)] assms(4) by (auto simp: in_count_def)
  then show ?thesis using assms(2)
    by (intro exI [of _ "s\<lparr>tkern := k'\<rparr>"]) (simp add: tty_signaln_def tty_buf_def in_frame_def same_line_def in_count_def echo_ok_def Let_def)
qed

lemma tty_signal_ok:
  assumes "K (tkern s)" and "tty_buf xs s" and "in_count s < 2 ^ 31 - 1"
  shows "\<exists>s'. tty_signal (tyisem (tyb s)) s = Ret s' \<and> tty_buf xs s' \<and> tyb s' = tyb s \<and> in_frame s s' \<and> K (tkern s') \<and> in_count s' = in_count s + 1"
proof -
  have b: "\<not> isbadsem (tyisem (tyb s))" "sstate (semtab (tkern s) (tyisem (tyb s))) \<noteq> S_FREE" using assms(2) by (simp_all add: tty_buf_def Let_def)
  obtain k' where "signal (tyisem (tyb s)) (tkern s) = Ret (OK, k')" "K k'"
    "semtab k' = semtab (set_scount (tyisem (tyb s)) (scount (semtab (tkern s) (tyisem (tyb s))) + 1) (tkern s))"
    using signal_ok [OF assms(1) b] assms(3) by (auto simp: in_count_def)
  then show ?thesis using assms(2)
    by (intro exI [of _ "s\<lparr>tkern := k'\<rparr>"]) (simp add: tty_signal_def tty_buf_def in_frame_def same_line_def in_count_def echo_ok_def Let_def)
qed

end

lemma echoed_buf: "tty_buf xs s \<Longrightarrow> echoed s s' \<Longrightarrow> tty_buf xs s' \<and> in_count s' = in_count s"
  by (simp add: tty_buf_def echoed_def same_line_def in_count_def Let_def)

lemma buf_echo_ok: "tty_buf xs s \<Longrightarrow> echo_ok s"
  by (simp add: tty_buf_def Let_def)

lemma in_frame_sem: "in_frame s s' \<Longrightarrow> tyisem (tyb s') = tyisem (tyb s)"
  by (simp add: in_frame_def same_line_def)

context signalling
begin

lemma end_line:
  assumes k: "K (tkern s)" and i: "tty_in av ln s" and l: "int (length (av @ ln)) < TY_IBUFLEN"
  shows "\<exists>s'. tty_endline c s = Ret s' \<and> tty_in (av @ ln @ [c]) [] s' \<and> in_frame s s' \<and> K (tkern s') \<and> in_count s' = in_count s + int (length ln) + 1"
proof -
  have b: "tty_buf (av @ ln) s" "tyicursor (tyb s) = int (length ln)" "in_count s \<le> int (length av)" using i by (simp_all add: tty_in_def)
  obtain s1 where s1: "(if tyiecho (tyb s) then echoch c s else Ret s) = Ret s1" "echoed s s1" using echo_opt [OF buf_echo_ok [OF b(1)]] by blast
  have b1: "tty_buf (av @ ln) s1" "in_count s1 = in_count s" "tyicursor (tyb s1) = int (length ln)" "tkern s1 = tkern s"
    using echoed_buf [OF b(1) s1(2)] s1(2) b(2) by (simp_all add: echoed_def)
  obtain s2 where s2: "put_in c s1 = Ret s2" "tty_buf ((av @ ln) @ [c]) (wrap_in s2)" "in_frame s1 (wrap_in s2)" "tkern (wrap_in s2) = tkern s1"
    "tyicursor (tyb (wrap_in s2)) = tyicursor (tyb s1)" using put_wrap [OF b1(1) l] by blast
  let ?s2 = "wrap_in s2"
  have c2: "in_count ?s2 = in_count s" using b1(2) in_frame_sem [OF s2(3)] s2(4) by (simp add: in_count_def)
  have k2: "K (tkern ?s2)" using k b1(4) s2(4) by simp
  have "in_count ?s2 + (int (length ln) + 1) < 2 ^ 31" using c2 b(3) l by (simp add: TY_IBUFLEN_def)
  then obtain s3 where s3: "tty_signaln (tyisem (tyb ?s2)) (int (length ln) + 1) ?s2 = Ret s3" "tty_buf ((av @ ln) @ [c]) s3" "in_frame ?s2 s3" "K (tkern s3)"
    "in_count s3 = in_count s + (int (length ln) + 1)" using tty_signaln_ok [OF k2 s2(2), of "int (length ln) + 1"] c2 by auto
  let ?s = "upd_ty (\<lambda>b. b\<lparr>tyicursor := 0\<rparr>) s3"
  have "tty_endline c s = Ret ?s" using s1(1) s2(1,5) s3(1) b1(3) by (simp add: tty_endline_def Let_def)
  moreover have "tty_in (av @ ln @ [c]) [] ?s" using s3(2,5) b(3) by (simp add: tty_in_def tty_buf_def in_count_def upd_ty_def echo_ok_def Let_def)
  moreover have "in_frame s3 ?s" "in_count ?s = in_count s3" "tkern ?s = tkern s3" by (simp_all add: in_frame_def same_line_def upd_ty_def in_count_def)
  moreover have "in_frame s s3" using s3(3) s2(3) echoed_in_frame [OF s1(2)] in_frame_trans by blast
  ultimately show ?thesis using s3(4,5) in_frame_trans [of s s3 ?s] by simp
qed

lemma end_file:
  assumes k: "K (tkern s)" and i: "tty_in av ln s" and l: "int (length (av @ ln)) < TY_IBUFLEN" and t: "ln = [] \<longrightarrow> tyitail (tyb s) \<noteq> TY_IBUFLEN - 1"
  shows "\<exists>s'. tty_eof c s = Ret s' \<and> tty_in (if ln = [] then av @ [c] else av) ln s' \<and> in_frame s s' \<and> K (tkern s') \<and>
    in_count s' = in_count s + (if ln = [] then 1 else 0)"
proof -
  have b: "tty_buf (av @ ln) s" "tyicursor (tyb s) = int (length ln)" "in_count s \<le> int (length av)" using i by (simp_all add: tty_in_def)
  obtain s1 where s1: "(if tyiecho (tyb s) then echoch c s else Ret s) = Ret s1" "echoed s s1" using echo_opt [OF buf_echo_ok [OF b(1)]] by blast
  have b1: "tty_buf (av @ ln) s1" "in_count s1 = in_count s" "tyicursor (tyb s1) = int (length ln)" "tkern s1 = tkern s" "tyitail (tyb s1) = tyitail (tyb s)"
    using echoed_buf [OF b(1) s1(2)] s1(2) b(2) by (simp_all add: echoed_def)
  show ?thesis
  proof (cases "ln = []")
    case False
    then have "tty_eof c s = Ret s1" using s1(1) b1(3) by (simp add: tty_eof_def)
    moreover have "tty_in av ln s1" using b1 b(3) by (simp add: tty_in_def)
    ultimately show ?thesis using False echoed_in_frame [OF s1(2)] b1(2,4) k by simp
  next
    case True
    obtain s2 where s2: "put_in c s1 = Ret s2" "tty_buf ((av @ ln) @ [c]) s2" "in_frame s1 s2" "tkern s2 = tkern s1" "tyicursor (tyb s2) = tyicursor (tyb s1)"
      using put_wrap [OF b1(1) l, of c] t True b1(5) by auto
    have c2: "in_count s2 = in_count s" using b1(2) in_frame_sem [OF s2(3)] s2(4) by (simp add: in_count_def)
    have k2: "K (tkern s2)" using k b1(4) s2(4) by simp
    have "in_count s2 < 2 ^ 31 - 1" using c2 b(3) l by (simp add: TY_IBUFLEN_def)
    then obtain s3 where s3: "tty_signal (tyisem (tyb s2)) s2 = Ret s3" "tty_buf ((av @ ln) @ [c]) s3" "tyb s3 = tyb s2" "in_frame s2 s3" "K (tkern s3)"
      "in_count s3 = in_count s + 1" using tty_signal_ok [OF k2 s2(2)] c2 by auto
    have "tty_eof c s = Ret s3" using s1(1) s2(1) s3(1) b1(3) True by (simp add: tty_eof_def)
    moreover have "tty_in (av @ [c]) [] s3" using s3(2,3,6) s2(5) b1(3) b(3) True by (simp add: tty_in_def)
    moreover have "in_frame s s3" using s3(4) s2(3) echoed_in_frame [OF s1(2)] in_frame_trans by blast
    ultimately show ?thesis using True s3(5,6) by simp
  qed
qed

lemma cooked_step:
  assumes k: "K (tkern s)" and i: "tty_in av ln s" and l: "int (length (av @ ln)) < TY_IBUFLEN"
    and t: "c = tyeofch (tyb s) \<and> tyeof (tyb s) \<and> ln = [] \<longrightarrow> tyitail (tyb s) \<noteq> TY_IBUFLEN - 1"
    and f: "\<not> (tyoflow (tyb s) \<and> (c = tyostart (tyb s) \<or> c = tyostop (tyb s)))"
    and e: "edit (tyb s) (nat (max 0 (in_count s))) c (av, ln) = (av', ln')"
  shows "\<exists>s'. tty_cooked c s = Ret s' \<and> tty_in av' ln' s' \<and> in_frame s s' \<and> K (tkern s') \<and> in_count s' = in_count s + int (length av') - int (length av)"
proof -
  let ?b = "tyb s"
  have b: "tty_buf (av @ ln) s" "tyicursor ?b = int (length ln)" "in_count s \<le> int (length av)" using i by (simp_all add: tty_in_def)
  have av: "tty_avail s + tyicursor ?b \<ge> TY_IBUFLEN - 1 \<longleftrightarrow> int (nat (max 0 (in_count s)) + length ln) \<ge> TY_IBUFLEN - 1"
    using tty_in_avail [OF i] b(2) by simp
  have nil: "in_frame s s" by (simp add: in_frame_def same_line_def)
  have cnt: "in_count s' = in_count s" if "in_frame s s'" "tkern s' = tkern s" for s' using that in_frame_sem by (simp add: in_count_def)
  consider (kill) "c = tyikillc ?b \<and> tyikill ?b"
    | (erase) "\<not> (c = tyikillc ?b \<and> tyikill ?b)" "(c = tyierasec ?b \<or> c = tyierasec2 ?b) \<and> tyierase ?b"
    | (eol) "\<not> (c = tyikillc ?b \<and> tyikill ?b)" "\<not> ((c = tyierasec ?b \<or> c = tyierasec2 ?b) \<and> tyierase ?b)" "c = TY_NEWLINE \<or> c = TY_RETURN"
    | (full) "\<not> (c = tyikillc ?b \<and> tyikill ?b)" "\<not> ((c = tyierasec ?b \<or> c = tyierasec2 ?b) \<and> tyierase ?b)" "\<not> (c = TY_NEWLINE \<or> c = TY_RETURN)"
      "tty_avail s + tyicursor ?b \<ge> TY_IBUFLEN - 1"
    | (eof) "\<not> (c = tyikillc ?b \<and> tyikill ?b)" "\<not> ((c = tyierasec ?b \<or> c = tyierasec2 ?b) \<and> tyierase ?b)" "\<not> (c = TY_NEWLINE \<or> c = TY_RETURN)"
      "\<not> tty_avail s + tyicursor ?b \<ge> TY_IBUFLEN - 1" "c = tyeofch ?b \<and> tyeof ?b"
    | (plain) "\<not> (c = tyikillc ?b \<and> tyikill ?b)" "\<not> ((c = tyierasec ?b \<or> c = tyierasec2 ?b) \<and> tyierase ?b)" "\<not> (c = TY_NEWLINE \<or> c = TY_RETURN)"
      "\<not> tty_avail s + tyicursor ?b \<ge> TY_IBUFLEN - 1" "\<not> (c = tyeofch ?b \<and> tyeof ?b)"
    by blast
  then show ?thesis
  proof cases
    case kill
    then have "av' = av" "ln' = []" "tty_cooked c s = tty_kill s" using e f by (auto simp: edit_def tty_cooked_def Let_def)
    then show ?thesis using kill_line [OF i] cnt k by auto
  next
    case erase
    then have r: "av' = av" "ln' = butlast ln"
      "tty_cooked c s = (if tyicursor ?b > 0 then erase1 (upd_ty (\<lambda>b. b\<lparr>tyicursor := tyicursor b - 1\<rparr>) s) else Ret s)"
      using e f by (auto simp: edit_def tty_cooked_def Let_def)
    show ?thesis
    proof (cases ln rule: rev_cases)
      case Nil
      then show ?thesis using r i nil k b(2) by auto
    next
      case (snoc ln0 d)
      then show ?thesis using r erase_char [of av ln0 d s] i b(2) cnt k by auto
    qed
  next
    case eol
    then have "av' = av @ ln @ [c]" "ln' = []" "tty_cooked c s = tty_endline c s" using e f by (auto simp: edit_def tty_cooked_def Let_def)
    then show ?thesis using end_line [OF k i l, of c] by auto
  next
    case full
    then have r: "av' = av" "ln' = ln" "tty_cooked c s = eputc (tyifullc ?b) s" using e f av by (auto simp: edit_def tty_cooked_def Let_def)
    obtain s' where s': "eputc (tyifullc ?b) s = Ret s'" "echoed s s'" using eputc_echoed [OF buf_echo_ok [OF b(1)]] by blast
    moreover have "tkern s' = tkern s" using s'(2) by (simp add: echoed_def)
    ultimately show ?thesis using r tty_in_echoed [OF i s'(2)] echoed_in_frame [OF s'(2)] cnt k by auto
  next
    case eof
    then have "av' = (if ln = [] then av @ [c] else av)" "ln' = ln" "tty_cooked c s = tty_eof c s" using e f av by (auto simp: edit_def tty_cooked_def Let_def split: if_splits)
    then show ?thesis using end_file [OF k i l, of c] t eof by auto
  next
    case plain
    obtain s1 where s1: "(if tyiecho ?b then echoch c s else Ret s) = Ret s1" "echoed s s1" using echo_opt [OF buf_echo_ok [OF b(1)]] by blast
    let ?s1 = "upd_ty (\<lambda>b. b\<lparr>tyicursor := tyicursor b + 1\<rparr>) s1"
    have b1: "tty_buf (av @ ln) ?s1" "in_count ?s1 = in_count s" "tyicursor (tyb ?s1) = int (length ln) + 1" "tkern ?s1 = tkern s" "in_frame s ?s1"
      using echoed_buf [OF b(1) s1(2)] s1(2) b(2) by (simp_all add: echoed_def upd_ty_def tty_buf_def in_count_def echo_ok_def in_frame_def same_line_def Let_def)
    obtain s2 where s2: "put_in c ?s1 = Ret s2" "tty_buf ((av @ ln) @ [c]) (wrap_in s2)" "in_frame ?s1 (wrap_in s2)" "tkern (wrap_in s2) = tkern ?s1"
      "tyicursor (tyb (wrap_in s2)) = tyicursor (tyb ?s1)" using put_wrap [OF b1(1) l] by blast
    have fr: "in_frame s (wrap_in s2)" "tkern (wrap_in s2) = tkern s" using in_frame_trans [OF b1(5) s2(3)] s2(4) b1(4) by simp_all
    have r: "av' = av" "ln' = ln @ [c]" using e f plain av by (auto simp: edit_def Let_def)
    have "tty_cooked c s = Ret (wrap_in s2)"
      unfolding tty_cooked_def Let_def if_not_P [OF plain(1)] if_not_P [OF plain(2)] if_not_P [OF plain(3)] if_not_P [OF plain(4)] if_not_P [OF plain(5)] s1(1) rbind.simps s2(1) ..
    moreover have "tty_in av (ln @ [c]) (wrap_in s2)" using s2(2,5) b1(3) b(3) cnt [OF fr] by (simp add: tty_in_def)
    ultimately show ?thesis using r fr cnt [OF fr] k by auto
  qed
qed

end

text \<open>One interrupt character in cooked mode: the state is the available characters, the line and the count of the semaphore.\<close>

definition typed1 :: "ttycblk \<Rightarrow> u8 \<Rightarrow> u8 list \<times> u8 list \<times> int \<Rightarrow> u8 list \<times> u8 list \<times> int" where
  "typed1 b c e = (case e of (av, ln, n) \<Rightarrow>
    case edit b (nat (max 0 n)) (in_char b c) (av, ln) of (av', ln') \<Rightarrow> (av', ln', n + int (length av') - int (length av)))"

text \<open>
  The two places where the code does not look at the space it has: a line end goes into a full buffer, and after an end-of-file character the
  tail is not set back to the start of the buffer.
\<close>

definition fits1 :: "ttycblk \<Rightarrow> u8 \<Rightarrow> u8 list \<times> u8 list \<times> int \<Rightarrow> bool" where
  "fits1 b c e = (case e of (av, ln, n) \<Rightarrow> int (length (av @ ln)) < TY_IBUFLEN \<and>
    (in_char b c = tyeofch b \<and> tyeof b \<and> ln = [] \<longrightarrow> (tyihead b + int (length av)) mod TY_IBUFLEN \<noteq> TY_IBUFLEN - 1))"

fun fits :: "ttycblk \<Rightarrow> u8 list \<Rightarrow> u8 list \<times> u8 list \<times> int \<Rightarrow> bool" where
  "fits b [] e \<longleftrightarrow> True"
| "fits b (c # cs) e \<longleftrightarrow> fits1 b c e \<and> fits b cs (typed1 b c e)"

lemma edit_same_line: "same_line b b' \<Longrightarrow> edit b' n c x = edit b n c x"
  unfolding same_line_def edit_def by (elim conjE) (simp cong: if_cong)

lemma same_line_edit: "same_line b b' \<Longrightarrow> typed1 b' = typed1 b \<and> fits1 b' = fits1 b \<and> in_char b' = in_char b"
proof -
  assume s: "same_line b b'"
  note e = edit_same_line [OF s]
  have i: "in_char b' c = in_char b c" for c using s by (simp add: same_line_def in_char_def)
  have "fits1 b' c x = fits1 b c x" for c x using s by (simp add: fits1_def i) (simp add: same_line_def)
  then show ?thesis using e i by (auto simp: typed1_def fun_eq_iff)
qed

lemma same_line_fits: "same_line b b' \<Longrightarrow> fits b' cs e = fits b cs e"
  by (induction cs arbitrary: e) (simp_all add: same_line_edit)

context signalling
begin

lemma handle_in_cooked:
  assumes k: "K (tkern s)" and i: "tty_in av ln s" and m: "tyimode (tyb s) = TY_IMCOOKED" and r: "uart_rx s = c # cs"
    and f: "fits1 (tyb s) c (av, ln, in_count s)" and e: "typed1 (tyb s) c (av, ln, in_count s) = (av', ln', n')"
  shows "\<exists>s'. ttyhandle_in s = Ret s' \<and> tty_in av' ln' s' \<and> same_line (tyb s) (tyb s') \<and> K (tkern s') \<and> in_count s' = n' \<and> uart_rx s' = cs"
proof -
  let ?c = "in_char (tyb s) c" and ?b = "tyb s"
  let ?s = "\<lambda>h. s\<lparr>uart_rx := cs, tyb := ?b\<lparr>tyoheld := h\<rparr>\<rparr>"
  have g: "uart_get s = (c, s\<lparr>uart_rx := cs\<rparr>)" using r by (simp add: uart_get_def)
  have ed: "edit ?b (nat (max 0 (in_count s))) ?c (av, ln) = (av', ln')" and n': "n' = in_count s + int (length av') - int (length av)"
    using e by (auto simp: typed1_def split: prod.splits)
  have si: "tty_in av ln (?s h)" "in_count (?s h) = in_count s" for h using i by (simp_all add: tty_in_def tty_buf_def in_count_def echo_ok_def Let_def)
  have run: "ttyhandle_in s = (if tyoflow ?b \<and> ?c = tyostart ?b then Ret (ttykickout (?s False)) else if tyoflow ?b \<and> ?c = tyostop ?b then Ret (?s True)
    else tty_cooked ?c (?s False))" using m by (simp add: ttyhandle_in_def g upd_ty_def in_char_def [symmetric] Let_def)
  show ?thesis
  proof (cases "tyoflow ?b \<and> (?c = tyostart ?b \<or> ?c = tyostop ?b)")
    case True
    let ?s' = "if ?c = tyostart ?b then ttykickout (?s False) else ?s True"
    have "ttyhandle_in s = Ret ?s'" using True unfolding run by auto
    moreover have "av' = av" "ln' = ln" using True ed by (simp_all add: edit_def)
    moreover have "tty_in av ln ?s'" "in_count ?s' = in_count s"
      using si by (simp_all add: ttykickout_def tty_in_def tty_buf_def in_count_def echo_ok_def Let_def)
    ultimately show ?thesis using k n' by (intro exI [of _ ?s']) (simp add: ttykickout_def same_line_def)
  next
    case False
    have run': "ttyhandle_in s = tty_cooked ?c (?s False)" using False unfolding run by auto
    have "\<exists>s'. tty_cooked ?c (?s False) = Ret s' \<and> tty_in av' ln' s' \<and> in_frame (?s False) s' \<and> K (tkern s') \<and>
      in_count s' = in_count (?s False) + int (length av') - int (length av)"
    proof (rule cooked_step [OF _ si(1)])
      show "edit (tyb (?s False)) (nat (max 0 (in_count (?s False)))) ?c (av, ln) = (av', ln')"
        using ed edit_same_line [of ?b "tyb (?s False)"] unfolding si(2) by (simp add: same_line_def)
      show "?c = tyeofch (tyb (?s False)) \<and> tyeof (tyb (?s False)) \<and> ln = [] \<longrightarrow> tyitail (tyb (?s False)) \<noteq> TY_IBUFLEN - 1"
        using f i by (auto simp: fits1_def tty_in_def tty_buf_def Let_def)
    qed (use k f False in \<open>simp_all add: fits1_def\<close>)
    then obtain s' where s': "tty_cooked ?c (?s False) = Ret s'" "tty_in av' ln' s'" "in_frame (?s False) s'" "K (tkern s')"
      "in_count s' = in_count (?s False) + int (length av') - int (length av)" by blast
    have "same_line ?b (tyb s')" "uart_rx s' = cs" using s'(3) by (simp_all add: in_frame_def same_line_def)
    then show ?thesis using run' s'(1,2,4,5) n' si(2) by auto
  qed
qed

text \<open>All the characters the chip has.\<close>

lemma drain_cooked:
  assumes "K (tkern s)" and "tty_in av ln s" and "tyimode (tyb s) = TY_IMCOOKED" and "fits (tyb s) (uart_rx s) (av, ln, in_count s)"
    and "fold (typed1 (tyb s)) (uart_rx s) (av, ln, in_count s) = (av', ln', n')"
  shows "\<exists>s'. tty_drain s = Some (Ret s') \<and> tty_in av' ln' s' \<and> same_line (tyb s) (tyb s') \<and> K (tkern s') \<and> in_count s' = n' \<and> uart_rx s' = []"
  using assms
proof (induction "uart_rx s" arbitrary: s av ln)
  case Nil
  then show ?case by (subst tty_drain.simps) (auto simp: same_line_def)
next
  case (Cons c cs)
  obtain av1 ln1 n1 where t: "typed1 (tyb s) c (av, ln, in_count s) = (av1, ln1, n1)" by (cases "typed1 (tyb s) c (av, ln, in_count s)") auto
  have rx: "uart_rx s = c # cs" using Cons(2) by simp
  have f: "fits1 (tyb s) c (av, ln, in_count s)" "fits (tyb s) cs (av1, ln1, n1)" using Cons.prems(4) t by (simp_all add: rx)
  obtain s1 where s1: "ttyhandle_in s = Ret s1" "tty_in av1 ln1 s1" "same_line (tyb s) (tyb s1)" "K (tkern s1)" "in_count s1 = n1" "uart_rx s1 = cs"
    using handle_in_cooked [OF Cons.prems(1-3) rx f(1) t] by blast
  have "tyimode (tyb s1) = TY_IMCOOKED" using s1(3) Cons.prems(3) by (simp add: same_line_def)
  moreover have "fits (tyb s1) (uart_rx s1) (av1, ln1, in_count s1)" using f(2) s1(5,6) same_line_fits [OF s1(3)] by simp
  moreover have "fold (typed1 (tyb s1)) (uart_rx s1) (av1, ln1, in_count s1) = (av', ln', n')"
    using Cons.prems(5) t s1(5,6) same_line_edit [OF s1(3)] by (simp add: rx)
  ultimately obtain s' where "tty_drain s1 = Some (Ret s')" "tty_in av' ln' s'" "same_line (tyb s1) (tyb s')" "K (tkern s')" "in_count s' = n'" "uart_rx s' = []"
    using Cons.hyps(1) [OF s1(6) [symmetric] s1(4,2)] by blast
  moreover have "tty_drain s = tty_drain s1" using rx s1(1) by (subst tty_drain.simps) simp
  ultimately show ?case using s1(3) by (auto simp: same_line_def)
qed

end

section \<open>The interrupt and the readers\<close>

lemma start_deferring: "at_ease k \<Longrightarrow> \<exists>k'. resched_cntl DEFER_START k = Ret (OK, k') \<and> deferring k' \<and> semtab k' = semtab k"
proof -
  assume "at_ease k"
  then obtain Q where q: "kinv k Q" "sem_counts k Q" "ndefers k = 0" by (auto simp: at_ease_def kidle_def)
  have "sem_counts (k\<lparr>attempt := False, ndefers := 1\<rparr>) Q" using q(2) by (simp add: sem_counts_def)
  then show ?thesis using defer_start [OF q(1,3)] by (auto simp: deferring_def)
qed

lemma stop_deferring: "deferring k \<Longrightarrow> \<exists>k'. resched_cntl DEFER_STOP k = Ret (OK, k') \<and> at_ease k' \<and> semtab k' = semtab k"
proof -
  assume "deferring k"
  then obtain Q where q: "kinv k Q" "sem_counts k Q" "ndefers k = 1" by (auto simp: deferring_def)
  obtain k' Q' where r: "resched_cntl DEFER_STOP k = Ret (OK, k')" "kinv k' Q'" "ndefers k' = 0" "semtab k' = semtab k" "\<And>q. q \<noteq> readylist k \<Longrightarrow> Q' q = Q q"
    by (rule defer_stop [OF q(1,3)]) (rule that)
  have "kinv (k\<lparr>ndefers := 0\<rparr>) Q" by (rule kinv_cong [OF q(1)]) simp_all
  then have "kidle (k\<lparr>ndefers := 0\<rparr>) Q" using q(2) by (simp add: kidle_def sem_counts_def)
  then have "kidle k' Q'" by (rule kidle_intro [OF _ r(2)]) (use r in simp_all)
  then show ?thesis using r by (auto simp: at_ease_def)
qed

lemma tty_in_kern: "tty_in av ln s \<Longrightarrow> semtab k = semtab (tkern s) \<Longrightarrow> tty_in av ln (s\<lparr>tkern := k\<rparr>) \<and> in_count (s\<lparr>tkern := k\<rparr>) = in_count s"
  by (simp add: tty_in_def tty_buf_def in_count_def echo_ok_def Let_def)

lemma handler_cooked:
  assumes k: "at_ease (tkern s)" and i: "tty_in av ln s" and m: "tyimode (tyb s) = TY_IMCOOKED" and f: "fits (tyb s) (uart_rx s) (av, ln, in_count s)"
    and e: "fold (typed1 (tyb s)) (uart_rx s) (av, ln, in_count s) = (av', ln', n')"
  shows "\<exists>s'. ttyhandler (Some UART_IIR_RDA) s = Ret s' \<and> tty_in av' ln' s' \<and> same_line (tyb s) (tyb s') \<and> at_ease (tkern s') \<and> in_count s' = n' \<and> uart_rx s' = []"
proof -
  obtain k1 where k1: "resched_cntl DEFER_START (tkern s) = Ret (OK, k1)" "deferring k1" "semtab k1 = semtab (tkern s)" using start_deferring [OF k] by blast
  let ?s1 = "s\<lparr>tkern := k1\<rparr>"
  note i1 = tty_in_kern [OF i k1(3)]
  have "deferring (tkern ?s1)" using k1(2) by simp
  from deferred.drain_cooked [OF this, of av ln av' ln' n'] i1 m f e
  obtain s2 where s2: "tty_drain ?s1 = Some (Ret s2)" "tty_in av' ln' s2" "same_line (tyb s) (tyb s2)" "deferring (tkern s2)" "in_count s2 = n'" "uart_rx s2 = []" by auto
  obtain k3 where k3: "resched_cntl DEFER_STOP (tkern s2) = Ret (OK, k3)" "at_ease k3" "semtab k3 = semtab (tkern s2)" using stop_deferring [OF s2(4)] by blast
  have "ttyhandler (Some UART_IIR_RDA) s = Ret (s2\<lparr>tkern := k3\<rparr>)" using k1(1) s2(1) k3(1) by (simp add: ttyhandler_def)
  then show ?thesis using tty_in_kern [OF s2(2) k3(3)] s2(3,5,6) k3(2) by auto
qed

text \<open>Taking a unit that is there does not block.\<close>

lemma wait_ready:
  assumes k: "at_ease k" and s: "\<not> isbadsem s" "sstate (semtab k s) \<noteq> S_FREE" and c: "0 < scount (semtab k s)"
  shows "wait s k = Ret (OK, set_scount s (scount (semtab k s) - 1) k)" "at_ease (set_scount s (scount (semtab k s) - 1) k)"
proof -
  obtain Q where q: "kidle k Q" using k by (auto simp: at_ease_def)
  note r = scount_range [OF q s(1)]
  show "wait s k = Ret (OK, set_scount s (scount (semtab k s) - 1) k)" using s c r(2) by (simp add: wait_def Let_def)
  have "kidle (set_scount s (scount (semtab k s) - 1) k) Q"
    by (rule semaphore_kidle [OF q s(1), where c = "scount (semtab k s) - 1"]) (use q r c kinv_scount in \<open>auto simp: kidle_def\<close>)
  then show "at_ease (set_scount s (scount (semtab k s) - 1) k)" by (auto simp: at_ease_def)
qed

lemma getc_ready:
  assumes k: "at_ease (tkern s)" and i: "tty_in (c # av) ln s" and n: "0 < in_count s"
  shows "\<exists>s'. ttygetc s = Ret (Some (if tyimode (tyb s) = TY_IMCOOKED \<and> tyeof (tyb s) \<and> c = tyeofch (tyb s) then EOF else sint c), s') \<and>
    tty_in av ln s' \<and> at_ease (tkern s') \<and> in_count s' = in_count s - 1 \<and> tyb s' = (tyb s)\<lparr>tyihead := tyihead (tyb s')\<rparr>"
proof -
  let ?b = "tyb s" and ?h = "(tyihead (tyb s) + 1) mod TY_IBUFLEN"
  have b: "\<not> isbadsem (tyisem ?b)" "sstate (semtab (tkern s) (tyisem ?b)) \<noteq> S_FREE" "0 < scount (semtab (tkern s) (tyisem ?b))"
    "0 \<le> tyihead ?b" "tyihead ?b < TY_IBUFLEN" "ring TY_IBUFLEN (tyibuff ?b) (tyihead ?b) (c # av @ ln)"
    "tyitail ?b = (tyihead ?b + int (length (c # av @ ln))) mod TY_IBUFLEN" "echo_ok s" "tyicursor ?b = int (length ln)" "in_count s \<le> int (length (c # av))"
    using i n by (simp_all add: tty_in_def tty_buf_def in_count_def Let_def)
  note w = wait_ready [OF k b(1-3)]
  let ?k = "set_scount (tyisem ?b) (scount (semtab (tkern s) (tyisem ?b)) - 1) (tkern s)"
  let ?s = "s\<lparr>tkern := ?k, tyb := ?b\<lparr>tyihead := ?h\<rparr>\<rparr>"
  have hd: "tyibuff ?b (tyihead ?b) = c" by (rule ring_hd [OF b(6,4,5)])
  have "(?h + int (length (av @ ln))) mod TY_IBUFLEN = tyitail ?b"
    unfolding b(7) mod_add_left_eq by (simp add: algebra_simps)
  then have "tty_in av ln ?s" using b ring_tl [OF b(6)]
    by (simp add: tty_in_def tty_buf_def in_count_def echo_ok_def Let_def TY_IBUFLEN_def)
  moreover have "ttygetc s = Ret (Some (if tyimode ?b = TY_IMCOOKED \<and> tyeof ?b \<and> c = tyeofch ?b then EOF else sint c), ?s)"
    using w(1) hd b(4,5) ring_wrap [OF b(4,5)] by (auto simp: ttygetc_def ttygetc_rest_def upd_ty_def set_scount_def upd_sem_def Let_def)
  ultimately show ?thesis using w(2) by (intro exI [of _ ?s]) (simp add: in_count_def)
qed

text \<open>Reading on to the end of the line or of the buffer of the reader.\<close>

definition line_end :: "u8 \<Rightarrow> bool" where
  "line_end c \<longleftrightarrow> c = TY_NEWLINE \<or> c = TY_RETURN"

definition data :: "ttycblk \<Rightarrow> u8 \<Rightarrow> bool" where
  "data b c \<longleftrightarrow> \<not> (tyeof b \<and> c = tyeofch b)"

lemma getc_data:
  assumes "at_ease (tkern s)" and "tty_in (c # av) ln s" and "0 < in_count s" and "data (tyb s) c"
  shows "\<exists>s'. ttygetc s = Ret (Some (sint c), s') \<and> tty_in av ln s' \<and> at_ease (tkern s') \<and> in_count s' = in_count s - 1 \<and> tyb s' = (tyb s)\<lparr>tyihead := tyihead (tyb s')\<rparr>"
  using getc_ready [OF assms(1-3)] assms(4) by (auto simp: data_def)

lemma read_line_ready:
  assumes "at_ease (tkern s)" and "tty_in (xs @ c # av) ln s" and "int (length xs) < in_count s" and "acc \<noteq> []" and "\<not> line_end (last acc)"
    and "\<forall>x \<in> set xs. \<not> line_end x" and "line_end c" and "\<forall>x \<in> set (xs @ [c]). data (tyb s) x"
  shows "\<exists>s'. read_line n acc s = Ret (Some (int (length acc + min n (Suc (length xs)))), acc @ take n (xs @ [c]), s') \<and>
    tty_in (drop n (xs @ [c]) @ av) ln s' \<and> at_ease (tkern s')"
  using assms
proof (induction n arbitrary: acc xs s)
  case 0
  then show ?case by auto
next
  case (Suc n)
  have go: "\<not> (last acc = TY_NEWLINE \<or> last acc = TY_RETURN)" using Suc.prems(5) by (simp add: line_end_def)
  show ?case
  proof (cases xs)
    case Nil
    obtain s1 where s1: "ttygetc s = Ret (Some (sint c), s1)" "tty_in av ln s1" "at_ease (tkern s1)"
      using getc_data [of s c av ln] Suc.prems Nil by auto
    have stop: "read_line n (acc @ [c]) s1 = Ret (Some (int (length (acc @ [c]))), acc @ [c], s1)"
      using Suc.prems(7) by (cases n) (simp_all add: line_end_def)
    have "read_line (Suc n) acc s = Ret (Some (int (length (acc @ [c]))), acc @ [c], s1)" using go s1(1) stop by simp
    then show ?thesis using Nil s1 by auto
  next
    case (Cons x xs')
    obtain s1 where s1: "ttygetc s = Ret (Some (sint x), s1)" "tty_in (xs' @ c # av) ln s1" "at_ease (tkern s1)" "in_count s1 = in_count s - 1"
      "tyb s1 = (tyb s)\<lparr>tyihead := tyihead (tyb s1)\<rparr>"
      using getc_data [of s x "xs' @ c # av" ln] Suc.prems Cons by auto
    have d: "data (tyb s1) y = data (tyb s) y" for y by (subst s1(5)) (simp add: data_def)
    have "\<exists>s'. read_line n (acc @ [x]) s1 = Ret (Some (int (length (acc @ [x]) + min n (Suc (length xs')))), (acc @ [x]) @ take n (xs' @ [c]), s') \<and>
      tty_in (drop n (xs' @ [c]) @ av) ln s' \<and> at_ease (tkern s')"
      by (rule Suc.IH [OF s1(3,2)]) (use s1(4) Suc.prems Cons d in auto)
    then show ?thesis using go s1(1) Cons by auto
  qed
qed

lemma ttyread_line:
  assumes k: "at_ease (tkern s)" and i: "tty_in (xs @ c # av) ln s" and n: "int (length xs) < in_count s" and m: "tyimode (tyb s) = TY_IMCOOKED"
    and x: "\<forall>x \<in> set xs. \<not> line_end x" "line_end c" "\<forall>x \<in> set (xs @ [c]). data (tyb s) x" "\<forall>x \<in> set (xs @ [c]). sint x \<noteq> EOF" and cnt: "0 < cnt"
  shows "\<exists>s'. ttyread (int cnt) s = Ret (Some (int (min cnt (Suc (length xs)))), take cnt (xs @ [c]), s') \<and> tty_in (drop cnt (xs @ [c]) @ av) ln s' \<and> at_ease (tkern s')"
proof (cases xs)
  case Nil
  obtain s1 where s1: "ttygetc s = Ret (Some (sint c), s1)" "tty_in av ln s1" "at_ease (tkern s1)" using getc_data [of s c av ln] k i n x Nil by auto
  have stop: "read_line j [c] s1 = Ret (Some 1, [c], s1)" for j using x(2) by (cases j) (simp_all add: line_end_def)
  have "ttyread (int cnt) s = Ret (Some 1, [c], s1)" using s1(1) stop m x(4) by (simp add: ttyread_def)
  then show ?thesis using Nil s1 cnt by auto
next
  case (Cons y ys)
  obtain s1 where s1: "ttygetc s = Ret (Some (sint y), s1)" "tty_in (ys @ c # av) ln s1" "at_ease (tkern s1)" "in_count s1 = in_count s - 1"
    "tyb s1 = (tyb s)\<lparr>tyihead := tyihead (tyb s1)\<rparr>" using getc_data [of s y "ys @ c # av" ln] k i n x Cons by auto
  have d: "data (tyb s1) z = data (tyb s) z" for z by (subst s1(5)) (simp add: data_def)
  have "\<exists>s'. read_line (cnt - 1) [y] s1 = Ret (Some (int (length [y] + min (cnt - 1) (Suc (length ys)))), [y] @ take (cnt - 1) (ys @ [c]), s') \<and>
    tty_in (drop (cnt - 1) (ys @ [c]) @ av) ln s' \<and> at_ease (tkern s')"
    by (rule read_line_ready [OF s1(3,2)]) (use s1(4) n x Cons d in auto)
  then obtain s' where s': "read_line (cnt - 1) [y] s1 = Ret (Some (int (length [y] + min (cnt - 1) (Suc (length ys)))), [y] @ take (cnt - 1) (ys @ [c]), s')"
    "tty_in (drop (cnt - 1) (ys @ [c]) @ av) ln s'" "at_ease (tkern s')" by blast
  have "nat (int cnt - 1) = cnt - 1" by simp
  then have "ttyread (int cnt) s = Ret (Some (int (length [y] + min (cnt - 1) (Suc (length ys)))), [y] @ take (cnt - 1) (ys @ [c]), s')"
    using s1(1) s'(1) m x(4) Cons by (simp add: ttyread_def)
  moreover obtain j where "cnt = Suc j" using cnt by (cases cnt) auto
  ultimately show ?thesis using s'(2,3) Cons by auto
qed

section \<open>Output\<close>

text \<open>Characters to echo and characters written, both waiting for the chip; every free place of the output buffer is a unit of its semaphore.\<close>

definition tty_out :: "u8 list \<Rightarrow> u8 list \<Rightarrow> tty \<Rightarrow> bool" where
  "tty_out es os s \<longleftrightarrow> (let b = tyb s; e = semtab (tkern s) (tyosem b) in
    0 \<le> tyehead b \<and> tyehead b < TY_EBUFLEN \<and> ring TY_EBUFLEN (tyebuff b) (tyehead b) es \<and> int (length es) < TY_EBUFLEN \<and>
    tyetail b = (tyehead b + int (length es)) mod TY_EBUFLEN \<and>
    0 \<le> tyohead b \<and> tyohead b < TY_OBUFLEN \<and> ring TY_OBUFLEN (tyobuff b) (tyohead b) os \<and>
    tyotail b = (tyohead b + int (length os)) mod TY_OBUFLEN \<and>
    \<not> isbadsem (tyosem b) \<and> sstate e \<noteq> S_FREE \<and> scount e = TY_OBUFLEN - int (length os))"

lemma out_step: "(h + 1 + n) mod N = ((h + 1) mod N + n) mod (N :: int)"
  by (simp add: mod_add_left_eq)

lemma send_echo_ok:
  assumes "tty_out es os s"
  shows "\<exists>s'. send_echo n s = (n - length es, s') \<and> uart_tx s' = uart_tx s @ take n es \<and> tty_out (drop n es) os s' \<and>
    tkern s' = tkern s \<and> tyosem (tyb s') = tyosem (tyb s) \<and> tyoheld (tyb s') = tyoheld (tyb s)"
  using assms
proof (induction n arbitrary: es s)
  case 0
  then show ?case by simp
next
  case (Suc n)
  let ?b = "tyb s"
  have o: "0 \<le> tyehead ?b" "tyehead ?b < TY_EBUFLEN" "ring TY_EBUFLEN (tyebuff ?b) (tyehead ?b) es" "tyetail ?b = (tyehead ?b + int (length es)) mod TY_EBUFLEN" "int (length es) < TY_EBUFLEN"
    using Suc.prems by (simp_all add: tty_out_def Let_def)
  show ?case
  proof (cases es)
    case Nil
    then have "tyehead ?b = tyetail ?b" using o(1,2,4) by simp
    then show ?thesis using Suc.prems Nil by simp
  next
    case (Cons e es')
    have ne: "tyehead ?b \<noteq> tyetail ?b"
    proof
      assume "tyehead ?b = tyetail ?b"
      then have "(int (length es)) mod TY_EBUFLEN = 0" using o(1,2,4) by (metis add_cancel_right_right add_diff_cancel_left' mod_diff_left_eq mod_pos_pos_trivial diff_self mod_0)
      then show False using o(5) Cons by simp
    qed
    let ?s = "s\<lparr>uart_tx := uart_tx s @ [e], tyb := ?b\<lparr>tyehead := (tyehead ?b + 1) mod TY_EBUFLEN\<rparr>\<rparr>"
    have hd: "tyebuff ?b (tyehead ?b) = e" using ring_hd [of _ _ _ e es'] o(1-3) Cons by simp
    have run: "send_echo (Suc n) s = send_echo n ?s"
      using ne hd ring_wrap [OF o(1,2)] by (cases "TY_EBUFLEN \<le> tyehead ?b + 1") (simp_all add: uart_put_def upd_ty_def Let_def)
    have "tyetail ?b = ((tyehead ?b + 1) mod TY_EBUFLEN + int (length es')) mod TY_EBUFLEN" 
      unfolding out_step [symmetric] using o(4) Cons by (simp add: algebra_simps)
    moreover have "ring TY_EBUFLEN (tyebuff ?b) ((tyehead ?b + 1) mod TY_EBUFLEN) es'" using ring_tl [of _ _ _ e es'] o(3) Cons by simp
    ultimately have "tty_out es' os ?s" using Suc.prems o(5) Cons by (simp add: tty_out_def TY_EBUFLEN_def Let_def)
    then show ?thesis using Suc.IH [of es' ?s] Cons run by simp
  qed
qed

text \<open>The semaphore is behind the buffer until the characters sent have been signalled.\<close>

lemma send_out_ok:
  assumes "0 \<le> tyohead (tyb s)" and "tyohead (tyb s) < TY_OBUFLEN" and "ring TY_OBUFLEN (tyobuff (tyb s)) (tyohead (tyb s)) os"
  shows "send_out n (int (length os)) m s = (m + int (min n (length os)),
    s\<lparr>uart_tx := uart_tx s @ take n os, tyb := (tyb s)\<lparr>tyohead := (tyohead (tyb s) + int (min n (length os))) mod TY_OBUFLEN\<rparr>\<rparr>) \<and>
    ring TY_OBUFLEN (tyobuff (tyb s)) ((tyohead (tyb s) + int (min n (length os))) mod TY_OBUFLEN) (drop n os)"
  using assms
proof (induction n arbitrary: os m s)
  case 0
  then show ?case by simp
next
  case (Suc n)
  let ?b = "tyb s"
  show ?case
  proof (cases os)
    case Nil
    then show ?thesis using Suc.prems by simp
  next
    case (Cons c os')
    let ?h = "(tyohead ?b + 1) mod TY_OBUFLEN"
    let ?s = "s\<lparr>uart_tx := uart_tx s @ [c], tyb := ?b\<lparr>tyohead := ?h\<rparr>\<rparr>"
    have hd: "tyobuff ?b (tyohead ?b) = c" using ring_hd [of _ _ _ c os'] Suc.prems Cons by simp
    have run: "send_out (Suc n) (int (length os)) m s = send_out n (int (length os')) (m + 1) ?s"
      using hd Cons ring_wrap [OF Suc.prems(1,2)] by (cases "TY_OBUFLEN \<le> tyohead ?b + 1") (simp_all add: uart_put_def upd_ty_def Let_def)
    have h: "0 \<le> ?h" "?h < TY_OBUFLEN" by (simp_all add: TY_OBUFLEN_def)
    have r: "ring TY_OBUFLEN (tyobuff ?b) ?h os'" using ring_tl [of _ _ _ c os'] Suc.prems(3) Cons by simp
    have e: "(?h + int (min n (length os'))) mod TY_OBUFLEN = (tyohead ?b + int (min (Suc n) (length os))) mod TY_OBUFLEN"
      unfolding out_step [symmetric] using Cons by (simp add: algebra_simps)
    from Suc.IH [of ?s os' "m + 1"] h r have "send_out n (int (length os')) (m + 1) ?s = (m + 1 + int (min n (length os')),
      ?s\<lparr>uart_tx := uart_tx ?s @ take n os', tyb := (tyb ?s)\<lparr>tyohead := (?h + int (min n (length os'))) mod TY_OBUFLEN\<rparr>\<rparr>)"
      "ring TY_OBUFLEN (tyobuff ?b) ((?h + int (min n (length os'))) mod TY_OBUFLEN) (drop n os')" by simp_all
    then show ?thesis unfolding run e using Cons by simp
  qed
qed

lemma handle_out_ok:
  assumes k: "at_ease (tkern s)" and o: "tty_out es os s" and h: "\<not> tyoheld (tyb s)"
  shows "\<exists>s'. ttyhandle_out s = Ret s' \<and> uart_tx s' = uart_tx s @ take UART_FIFO_SIZE (es @ os) \<and>
    tty_out (drop UART_FIFO_SIZE es) (drop (UART_FIFO_SIZE - length es) os) s' \<and> at_ease (tkern s') \<and> \<not> tyoheld (tyb s')"
proof (cases "es = [] \<and> os = []")
  case True
  then have "tyehead (tyb s) = tyetail (tyb s)" "semcount (tyosem (tyb s)) (tkern s) \<ge> TY_OBUFLEN" using o by (auto simp: tty_out_def semcount_def Let_def)
  then have "ttyhandle_out s = Ret (s\<lparr>uart_ier := uart_ier s AND NOT UART_IER_ETBEI\<rparr>)" using h by (simp add: ttyhandle_out_def)
  then show ?thesis using True o k h by (simp add: tty_out_def Let_def)
next
  case False
  have on: "\<not> (tyehead (tyb s) = tyetail (tyb s) \<and> semcount (tyosem (tyb s)) (tkern s) \<ge> TY_OBUFLEN)"
  proof
    assume a: "tyehead (tyb s) = tyetail (tyb s) \<and> semcount (tyosem (tyb s)) (tkern s) \<ge> TY_OBUFLEN"
    have e: "fst (send_echo 1 s) = 1 - length es" using send_echo_ok [OF o, of 1] by auto
    moreover have "fst (send_echo 1 s) = 1" using a by simp
    ultimately have "es = []" by (cases es) auto
    moreover have "os = []" using a o by (auto simp: tty_out_def semcount_def Let_def)
    ultimately show False using False by simp
  qed
  obtain s1 where s1: "send_echo UART_FIFO_SIZE s = (UART_FIFO_SIZE - length es, s1)" "uart_tx s1 = uart_tx s @ take UART_FIFO_SIZE es"
    "tty_out (drop UART_FIFO_SIZE es) os s1" "tkern s1 = tkern s" "tyosem (tyb s1) = tyosem (tyb s)" "tyoheld (tyb s1) = tyoheld (tyb s)"
    using send_echo_ok [OF o] by blast
  let ?n = "UART_FIFO_SIZE - length es"
  let ?m = "min ?n (length os)"
  let ?s2 = "s1\<lparr>uart_tx := uart_tx s1 @ take ?n os, tyb := (tyb s1)\<lparr>tyohead := (tyohead (tyb s1) + int ?m) mod TY_OBUFLEN\<rparr>\<rparr>"
  have b: "0 \<le> tyohead (tyb s1)" "tyohead (tyb s1) < TY_OBUFLEN" "ring TY_OBUFLEN (tyobuff (tyb s1)) (tyohead (tyb s1)) os"
    "\<not> isbadsem (tyosem (tyb s1))" "sstate (semtab (tkern s1) (tyosem (tyb s1))) \<noteq> S_FREE" "scount (semtab (tkern s1) (tyosem (tyb s1))) = TY_OBUFLEN - int (length os)"
    using s1(3) by (simp_all add: tty_out_def Let_def)
  have avail: "TY_OBUFLEN - semcount (tyosem (tyb s1)) (tkern s1) = int (length os)" using b(4-6) by (simp add: semcount_def)
  note so = send_out_ok [OF b(1-3), of ?n 0]
  have "\<exists>k'. (if 0 < ?m then tty_signaln (tyosem (tyb ?s2)) (int ?m) ?s2 else Ret ?s2) = Ret (?s2\<lparr>tkern := k'\<rparr>) \<and> at_ease k' \<and>
    semtab k' = semtab (set_scount (tyosem (tyb s1)) (TY_OBUFLEN - int (length os) + int ?m) (tkern s1))"
  proof (cases "0 < ?m")
    case True
    have "TY_OBUFLEN - int (length os) + int ?m < 2 ^ 31" by (simp add: TY_OBUFLEN_def)
    then show ?thesis using calm.signaln_ok [of "tkern s1" "tyosem (tyb s1)" "int ?m"] k s1(4) b(4-6) True by (auto simp: tty_signaln_def)
  next
    case False
    then show ?thesis using k s1(4) b(6) by (intro exI [of _ "tkern s1"]) (auto simp: set_scount_def upd_sem_def)
  qed
  then obtain k' where k': "(if 0 < ?m then tty_signaln (tyosem (tyb ?s2)) (int ?m) ?s2 else Ret ?s2) = Ret (?s2\<lparr>tkern := k'\<rparr>)" "at_ease k'"
    "semtab k' = semtab (set_scount (tyosem (tyb s1)) (TY_OBUFLEN - int (length os) + int ?m) (tkern s1))" by blast
  have "send_out ?n (int (length os)) 0 s1 = (int ?m, ?s2)" using so by simp
  moreover have "(if 0 < int ?m then tty_signaln (tyosem (tyb ?s2)) (int ?m) ?s2 else Ret ?s2) = Ret (?s2\<lparr>tkern := k'\<rparr>)" using k'(1) by simp
  ultimately have "ttyhandle_out s = Ret (?s2\<lparr>tkern := k'\<rparr>)"
    unfolding ttyhandle_out_def if_not_P [OF h] if_not_P [OF on] s1(1) prod.case Let_def avail by (simp only: prod.case)
  moreover have "tty_out (drop UART_FIFO_SIZE es) (drop ?n os) (?s2\<lparr>tkern := k'\<rparr>)"
  proof -
    have "tyotail (tyb s1) = ((tyohead (tyb s1) + int ?m) mod TY_OBUFLEN + int (length (drop ?n os))) mod TY_OBUFLEN"
      using s1(3) unfolding mod_add_left_eq by (simp add: tty_out_def Let_def) (simp add: algebra_simps of_nat_diff min_def)
    then show ?thesis using s1(3) so k'(3) by (simp add: tty_out_def Let_def TY_OBUFLEN_def min_def of_nat_diff)
  qed
  ultimately show ?thesis using s1(2,6) k'(2) h by (intro exI [of _ "?s2\<lparr>tkern := k'\<rparr>"]) simp
qed

text \<open>Writing: a newline goes out behind a carriage return.\<close>

definition crlf :: "ttycblk \<Rightarrow> u8 \<Rightarrow> u8 list" where
  "crlf b c = (if c = TY_NEWLINE \<and> tyocrlf b then [TY_RETURN, c] else [c])"

lemma putc_one_ok:
  assumes k: "at_ease (tkern s)" and o: "tty_out es os s" and l: "int (length os) < TY_OBUFLEN"
  shows "\<exists>s'. ttyputc_one c s = Ret (True, s') \<and> tty_out es (os @ [c]) s' \<and> at_ease (tkern s') \<and> uart_tx s' = uart_tx s \<and>
    tyocrlf (tyb s') = tyocrlf (tyb s) \<and> tyoheld (tyb s') = tyoheld (tyb s)"
proof -
  let ?b = "tyb s" and ?t = "(tyohead (tyb s) + int (length (os @ [c]))) mod TY_OBUFLEN"
  have b: "\<not> isbadsem (tyosem ?b)" "sstate (semtab (tkern s) (tyosem ?b)) \<noteq> S_FREE" "0 < scount (semtab (tkern s) (tyosem ?b))"
    "ring TY_OBUFLEN (tyobuff ?b) (tyohead ?b) os" "tyotail ?b = (tyohead ?b + int (length os)) mod TY_OBUFLEN"
    using o l by (simp_all add: tty_out_def Let_def)
  have t: "0 \<le> tyotail ?b" "tyotail ?b < TY_OBUFLEN" unfolding b(5) by (simp_all add: TY_OBUFLEN_def)
  note w = wait_ready [OF k b(1-3)]
  let ?k = "set_scount (tyosem ?b) (scount (semtab (tkern s) (tyosem ?b)) - 1) (tkern s)"
  define f where "f = (tyobuff ?b)(tyotail ?b := c)"
  let ?s = "ttykickout (s\<lparr>tkern := ?k, tyb := ?b\<lparr>tyobuff := f, tyotail := ?t\<rparr>\<rparr>)"
  have r: "ring TY_OBUFLEN f (tyohead ?b) (os @ [c])" unfolding f_def by (rule ring_put [OF b(4) l b(5)])
  have "?t = (tyotail ?b + 1) mod TY_OBUFLEN" unfolding b(5) mod_add_left_eq by (simp add: algebra_simps)
  then have t1: "(if tyotail ?b + 1 \<ge> TY_OBUFLEN then 0 else tyotail ?b + 1) = ?t" using ring_wrap [OF t] by simp
  have cp: "currpid ?k = currpid (tkern s)" by (simp add: set_scount_def upd_sem_def)
  have "ttyputc_one c s = Ret (True, ?s)"
    using w(1) cp t t1 by (cases "TY_OBUFLEN \<le> tyotail ?b + 1") (simp_all add: ttyputc_one_def ttyputc_rest_def upd_ty_def f_def Let_def)
  moreover have "tty_out es (os @ [c]) ?s" using o r by (simp add: tty_out_def ttykickout_def Let_def)
  ultimately show ?thesis using w(2) by (intro exI [of _ ?s]) (simp add: ttykickout_def)
qed

lemma putc_ok:
  assumes k: "at_ease (tkern s)" and o: "tty_out es os s" and l: "int (length (os @ crlf (tyb s) c)) \<le> TY_OBUFLEN"
  shows "\<exists>s'. ttyputc c s = Ret (True, s') \<and> tty_out es (os @ crlf (tyb s) c) s' \<and> at_ease (tkern s') \<and> uart_tx s' = uart_tx s \<and>
    tyocrlf (tyb s') = tyocrlf (tyb s) \<and> tyoheld (tyb s') = tyoheld (tyb s)"
proof (cases "c = TY_NEWLINE \<and> tyocrlf (tyb s)")
  case True
  then have l2: "int (length os) < TY_OBUFLEN" "int (length (os @ [TY_RETURN])) < TY_OBUFLEN" using l by (simp_all add: crlf_def)
  obtain s1 where s1: "ttyputc_one TY_RETURN s = Ret (True, s1)" "tty_out es (os @ [TY_RETURN]) s1" "at_ease (tkern s1)" "uart_tx s1 = uart_tx s"
    "tyocrlf (tyb s1) = tyocrlf (tyb s)" "tyoheld (tyb s1) = tyoheld (tyb s)" using putc_one_ok [OF k o l2(1)] by blast
  then show ?thesis using True putc_one_ok [OF s1(3,2) l2(2), of c] by (auto simp: ttyputc_def crlf_def)
next
  case False
  then have "int (length os) < TY_OBUFLEN" using l by (auto simp: crlf_def)
  then show ?thesis using False putc_one_ok [OF k o, of c] by (auto simp: ttyputc_def crlf_def)
qed

lemma write_chars_ok:
  assumes "at_ease (tkern s)" and "tty_out es os s" and "int (length (os @ concat (map (crlf (tyb s)) cs))) \<le> TY_OBUFLEN"
  shows "\<exists>s'. write_chars cs s = Ret (True, s') \<and> tty_out es (os @ concat (map (crlf (tyb s)) cs)) s' \<and> at_ease (tkern s') \<and> uart_tx s' = uart_tx s \<and>
    tyoheld (tyb s') = tyoheld (tyb s)"
  using assms
proof (induction cs arbitrary: s os)
  case Nil
  then show ?case by simp
next
  case (Cons c cs)
  obtain s1 where s1: "ttyputc c s = Ret (True, s1)" "tty_out es (os @ crlf (tyb s) c) s1" "at_ease (tkern s1)" "uart_tx s1 = uart_tx s"
    "tyocrlf (tyb s1) = tyocrlf (tyb s)" "tyoheld (tyb s1) = tyoheld (tyb s)"
    using putc_ok [OF Cons.prems(1,2), of c] Cons.prems(3) by auto
  have c: "crlf (tyb s1) = crlf (tyb s)" using s1(5) by (simp add: crlf_def fun_eq_iff)
  show ?case using Cons.IH [OF s1(3,2)] Cons.prems(3) s1(1,4,6) unfolding c by auto
qed

text \<open>Transmit interrupts one after the other.\<close>

fun transmit :: "nat \<Rightarrow> tty \<Rightarrow> tty result" where
  "transmit 0 s = Ret s"
| "transmit (Suc n) s = rbind (ttyhandler (Some UART_IIR_THRE) s) (transmit n)"

lemma transmit_ok:
  assumes "at_ease (tkern s)" and "tty_out es os s" and "\<not> tyoheld (tyb s)"
  shows "\<exists>s'. transmit n s = Ret s' \<and> uart_tx s' = uart_tx s @ take (n * UART_FIFO_SIZE) (es @ os)"
  using assms
proof (induction n arbitrary: es os s)
  case (Suc n)
  let ?f = UART_FIFO_SIZE
  obtain s1 where s1: "ttyhandle_out s = Ret s1" "uart_tx s1 = uart_tx s @ take ?f (es @ os)" "tty_out (drop ?f es) (drop (?f - length es) os) s1"
    "at_ease (tkern s1)" "\<not> tyoheld (tyb s1)" using handle_out_ok [OF Suc.prems] by blast
  have "drop ?f es @ drop (?f - length es) os = drop ?f (es @ os)" by simp
  moreover have "take (Suc n * ?f) (es @ os) = take ?f (es @ os) @ take (n * ?f) (drop ?f (es @ os))" using take_add [of ?f "n * ?f" "es @ os"] by simp
  ultimately show ?case using Suc.IH [OF s1(4,3,5)] s1(1,2) by (auto simp: ttyhandler_def)
qed simp

section \<open>The line after initialisation\<close>

text \<open>The settings \<open>ttyinit\<close> makes.\<close>

definition defaults :: "ttycblk \<Rightarrow> bool" where
  "defaults b \<longleftrightarrow> tyimode b = TY_IMCOOKED \<and> tyiecho b \<and> tyicrlf b \<and> tyierase b \<and> tyierasec b = TY_BACKSP \<and> tyierasec2 b = TY_BACKSP2 \<and>
    tyeof b \<and> tyeofch b = TY_EOFCH \<and> tyikill b \<and> tyikillc b = TY_KILLCH \<and> tyoflow b \<and> tyostop b = TY_STOPCH \<and> tyostart b = TY_STRTCH \<and> tyocrlf b"

lemma semcreate_fresh:
  assumes k: "sys_ok k" and c: "0 \<le> c" "c < 2 ^ 31" and f: "\<exists>s \<in> {0..<NSEM}. sstate (semtab k s) = S_FREE"
  shows "\<exists>s k'. semcreate c k = (s, k') \<and> sys_ok k' \<and> \<not> isbadsem s \<and> sstate (semtab k s) = S_FREE \<and> sstate (semtab k' s) = S_USED \<and> scount (semtab k' s) = c \<and>
    (\<forall>t. t \<noteq> s \<longrightarrow> semtab k' t = semtab k t)"
proof -
  obtain Q where q: "kidle k Q" and n: "0 \<le> nextsem k" "nextsem k < NSEM" using k by (auto simp: sys_ok_def sems_ok_def)
  have "Q (squeue (semtab k s)) = []" if "s \<in> {0..<NSEM}" "sstate (semtab k s) = S_FREE" for s
    using scount_range(3) [OF q, of s] k that by (simp add: sys_ok_def sems_ok_def isbadsem_def)
  then have "\<forall>s \<in> {0..<NSEM}. sstate (semtab k s) = S_FREE \<longrightarrow> Q (squeue (semtab k s)) = []" by blast
  from semcreate_kidle [OF q n c this] f obtain s k' where r: "semcreate c k = (s, k')" "\<not> isbadsem s" "sstate (semtab k s) = S_FREE" "sstate (semtab k' s) = S_USED" "scount (semtab k' s) = c"
    by auto
  then show ?thesis using sys_semcreate [OF k c(2) r(1)] semcreate_frame [OF r(1)] by blast
qed

lemma ttyinit_ok:
  assumes k: "sys_ok (tkern s)" and f: "s1 \<in> {0..<NSEM}" "s2 \<in> {0..<NSEM}" "s1 \<noteq> s2" "sstate (semtab (tkern s) s1) = S_FREE" "sstate (semtab (tkern s) s2) = S_FREE"
  shows "tty_in [] [] (ttyinit s) \<and> in_count (ttyinit s) = 0 \<and> tty_out [] [] (ttyinit s) \<and> sys_ok (tkern (ttyinit s)) \<and> defaults (tyb (ttyinit s)) \<and>
    \<not> tyoheld (tyb (ttyinit s)) \<and> tyihead (tyb (ttyinit s)) = 0 \<and> uart_rx (ttyinit s) = uart_rx s \<and> uart_tx (ttyinit s) = uart_tx s"
proof -
  have f0: "\<exists>t \<in> {0..<NSEM}. sstate (semtab (tkern s) t) = S_FREE" using f by blast
  obtain i k1 where i: "semcreate 0 (tkern s) = (i, k1)" "sys_ok k1" "\<not> isbadsem i" "sstate (semtab (tkern s) i) = S_FREE" "sstate (semtab k1 i) = S_USED" "scount (semtab k1 i) = 0"
    "\<forall>t. t \<noteq> i \<longrightarrow> semtab k1 t = semtab (tkern s) t" using semcreate_fresh [OF k, of 0] f0 by auto
  have "\<exists>s \<in> {0..<NSEM}. sstate (semtab k1 s) = S_FREE" using f i(7) by (metis (no_types, lifting))
  then obtain o' k2 where o: "semcreate TY_OBUFLEN k1 = (o', k2)" "sys_ok k2" "\<not> isbadsem o'" "sstate (semtab k1 o') = S_FREE" "sstate (semtab k2 o') = S_USED"
    "scount (semtab k2 o') = TY_OBUFLEN" "\<forall>t. t \<noteq> o' \<longrightarrow> semtab k2 t = semtab k1 t"
    using semcreate_fresh [OF i(2), of TY_OBUFLEN] by (auto simp: TY_OBUFLEN_def)
  have ne: "i \<noteq> o'" using i(5) o(4) by auto
  show ?thesis using i o ne
    by (simp add: ttyinit_def ttykickout_def upd_ty_def tty_in_def tty_buf_def tty_out_def in_count_def echo_ok_def ring_def defaults_def Let_def)
      (simp add: TY_EBUFLEN_def TY_IBUFLEN_def TY_OBUFLEN_def)
qed

lemma sys_at_ease: "sys_ok k \<Longrightarrow> at_ease k"
  by (simp add: sys_ok_def at_ease_def)

section \<open>Properties\<close>

text \<open>For the examples: the line of a kernel with two processes, as \<open>ttyinit\<close> leaves it, with the characters \<open>cs\<close> received.\<close>

definition line0 :: "u8 list \<Rightarrow> tty" where
  "line0 cs = \<lparr>tkern = kernel1, tyb = \<lparr>tyihead = 0, tyitail = 0, tyibuff = (\<lambda>_. 0), tyisem = 0, tyohead = 0, tyotail = 0, tyobuff = (\<lambda>_. 0), tyosem = 0,
    tyehead = 0, tyetail = 0, tyebuff = (\<lambda>_. 0), tyimode = TY_IMRAW, tyiecho = False, tyieback = False, tyevis = False, tyecrlf = False, tyicrlf = False,
    tyierase = False, tyierasec = 0, tyierasec2 = 0, tyeof = False, tyeofch = 0, tyikill = False, tyikillc = 0, tyicursor = 0, tyoflow = False,
    tyoheld = False, tyostop = 0, tyostart = 0, tyocrlf = False, tyifullc = 0\<rparr>, uart_rx = cs, uart_tx = [], uart_ier = 0\<rparr>"

definition line1 :: "u8 list \<Rightarrow> tty" where
  "line1 cs = ttyinit (line0 cs)"

lemma line1_ok:
  "tty_in [] [] (line1 cs)" "in_count (line1 cs) = 0" "tty_out [] [] (line1 cs)" "at_ease (tkern (line1 cs))" "defaults (tyb (line1 cs))" "\<not> tyoheld (tyb (line1 cs))"
  "tyihead (tyb (line1 cs)) = 0" "uart_rx (line1 cs) = cs" "uart_tx (line1 cs) = []"
  using ttyinit_ok [of "line0 cs" 1 2] sys_ok1 sys_at_ease by (simp_all add: line1_def) (simp_all add: line0_def layout_defs kernel1_def)

lemma typed1_defaults:
  assumes "defaults b"
  shows "typed1 b c (av, ln, n) =
    (let c = (if c = 13 then 10 else c) in
     if c = 0x11 \<or> c = 0x13 then (av, ln, n)
     else if c = 0x15 then (av, [], n)
     else if c = 8 \<or> c = 0x7F then (av, butlast ln, n)
     else if c = 10 then (av @ ln @ [c], [], n + int (length ln) + 1)
     else if int (nat (max 0 n) + length ln) \<ge> 127 then (av, ln, n)
     else if c = 4 then (if ln = [] then (av @ [c], ln, n + 1) else (av, ln, n))
     else (av, ln @ [c], n))"
  using assms by (simp add: typed1_def edit_def in_char_def defaults_def TY_NEWLINE_def TY_RETURN_def TY_BACKSP_def TY_BACKSP2_def TY_KILLCH_def TY_STOPCH_def TY_STRTCH_def
    TY_EOFCH_def TY_IBUFLEN_def Let_def)

text \<open>
  C37: cooked input is a line editor. An interrupt that finds the characters \<open>cs\<close> in the chip returns, and what readers can take and the line
  being typed are then what editing gives, character by character: erase takes back the last character of the line, kill the whole line, a line end
  makes the line available, end-of-file at the start of a line is delivered, flow control characters leave no trace, and the semaphore counts what has become
  available. This holds as long as no line end meets a full buffer and no end-of-file character is stored in the last place of the buffer.
\<close>

theorem tty_line_discipline:
  assumes "at_ease (tkern s)" and "tty_in av ln s" and "tyimode (tyb s) = TY_IMCOOKED" and "fits (tyb s) (uart_rx s) (av, ln, in_count s)"
  shows "\<exists>s' av' ln'. ttyhandler (Some UART_IIR_RDA) s = Ret s' \<and> tty_in av' ln' s' \<and> at_ease (tkern s') \<and>
    (av', ln', in_count s') = fold (typed1 (tyb s)) (uart_rx s) (av, ln, in_count s)"
proof -
  obtain av' ln' n' where e: "fold (typed1 (tyb s)) (uart_rx s) (av, ln, in_count s) = (av', ln', n')" by (cases "fold (typed1 (tyb s)) (uart_rx s) (av, ln, in_count s)") auto
  then show ?thesis using handler_cooked [OF assms e] by auto
qed

theorem tty_line_discipline_witness:
  "\<exists>s'. ttyhandler (Some UART_IIR_RDA) (line1 [0x61, 0x62, 8, 13]) = Ret s' \<and> tty_in [0x61, 10] [] s' \<and> in_count s' = 2"
proof -
  let ?s = "line1 [0x61, 0x62, 8, 13]"
  note l = line1_ok [of "[0x61, 0x62, 8, 13]"]
  have m: "tyimode (tyb ?s) = TY_IMCOOKED" using l(5) by (simp add: defaults_def)
  have t: "fold (typed1 (tyb ?s)) (uart_rx ?s) ([], [], in_count ?s) = ([0x61, 10], [], 2)" unfolding l(2,8) by (simp add: typed1_defaults [OF l(5)])
  have "fits (tyb ?s) (uart_rx ?s) ([], [], in_count ?s)"
    unfolding l(2,8) using l(5) by (simp add: typed1_defaults [OF l(5)] fits1_def in_char_def defaults_def TY_EOFCH_def TY_IBUFLEN_def TY_RETURN_def TY_NEWLINE_def)
  then show ?thesis using tty_line_discipline [OF l(4,1) m] unfolding t by auto
qed

text \<open>
  reading a line. When a whole line is available, \<open>ttyread\<close> returns at once with the line up to its end, or with as much of it as was
  asked for, and leaves the rest for the next reader. (A character whose code reads as the value of \<open>EOF\<close> is excluded, as are end-of-file characters.)
\<close>

theorem tty_read_line:
  assumes "at_ease (tkern s)" and "tty_in (xs @ c # av) ln s" and "int (length xs) < in_count s" and "tyimode (tyb s) = TY_IMCOOKED"
    and "\<forall>x \<in> set xs. \<not> line_end x" and "line_end c" and "\<forall>x \<in> set (xs @ [c]). data (tyb s) x" and "\<forall>x \<in> set (xs @ [c]). sint x \<noteq> EOF" and "0 < cnt"
  shows "\<exists>s'. ttyread (int cnt) s = Ret (Some (int (min cnt (Suc (length xs)))), take cnt (xs @ [c]), s') \<and> tty_in (drop cnt (xs @ [c]) @ av) ln s' \<and> at_ease (tkern s')"
  using assms by (rule ttyread_line)

theorem tty_read_line_witness:
  "\<exists>s s'. ttyhandler (Some UART_IIR_RDA) (line1 [0x61, 0x62, 13]) = Ret s \<and> ttyread 80 s = Ret (Some 3, [0x61, 0x62, 10], s') \<and> tty_in [] [] s'"
proof -
  let ?s = "line1 [0x61, 0x62, 13]"
  note l = line1_ok [of "[0x61, 0x62, 13]"]
  have m: "tyimode (tyb ?s) = TY_IMCOOKED" using l(5) by (simp add: defaults_def)
  have t: "fold (typed1 (tyb ?s)) (uart_rx ?s) ([], [], in_count ?s) = ([0x61, 0x62, 10], [], 3)" unfolding l(2,8) by (simp add: typed1_defaults [OF l(5)])
  have "fits (tyb ?s) (uart_rx ?s) ([], [], in_count ?s)"
    unfolding l(2,8) using l(5) by (simp add: typed1_defaults [OF l(5)] fits1_def in_char_def defaults_def TY_EOFCH_def TY_IBUFLEN_def TY_RETURN_def TY_NEWLINE_def)
  then obtain s where s: "ttyhandler (Some UART_IIR_RDA) ?s = Ret s" "tty_in [0x61, 0x62, 10] [] s" "same_line (tyb ?s) (tyb s)" "at_ease (tkern s)" "in_count s = 3"
    using handler_cooked [OF l(4,1) m _ t] by blast
  have d: "tyimode (tyb s) = TY_IMCOOKED" "tyeofch (tyb s) = 4" using s(3) l(5) by (simp_all add: same_line_def defaults_def TY_EOFCH_def)
  have "\<exists>s'. ttyread (int 80) s = Ret (Some (int (min 80 (Suc (length [0x61 :: u8, 0x62])))), take 80 ([0x61, 0x62] @ [10]), s') \<and>
    tty_in (drop 80 ([0x61, 0x62] @ [10]) @ []) [] s' \<and> at_ease (tkern s')"
    by (rule tty_read_line [OF s(4)]) (use s(2,5) d in \<open>simp_all add: line_end_def data_def TY_NEWLINE_def TY_RETURN_def EOF_def\<close>)
  then show ?thesis using s(1) by auto
qed

text \<open>
  C38: what is written is sent. \<open>ttywrite\<close> of characters for which the output buffer has room returns at once, and after enough transmit
  interrupts the chip has been given, in order and each once, the characters that were to be echoed, those written before, and those of the call with a carriage return before each newline.
\<close>

theorem tty_write_transmits:
  assumes "at_ease (tkern s)" and "tty_out es os s" and "\<not> tyoheld (tyb s)" and "cs \<noteq> []"
    and "int (length (os @ concat (map (crlf (tyb s)) cs))) \<le> TY_OBUFLEN" and "length (es @ os @ concat (map (crlf (tyb s)) cs)) \<le> n * UART_FIFO_SIZE"
  shows "\<exists>s1 s2. ttywrite cs (int (length cs)) s = Ret (Some OK, s1) \<and> transmit n s1 = Ret s2 \<and>
    uart_tx s2 = uart_tx s @ es @ os @ concat (map (crlf (tyb s)) cs)"
proof -
  let ?xs = "concat (map (crlf (tyb s)) cs)"
  obtain s1 where s1: "write_chars cs s = Ret (True, s1)" "tty_out es (os @ ?xs) s1" "at_ease (tkern s1)" "uart_tx s1 = uart_tx s" "tyoheld (tyb s1) = tyoheld (tyb s)"
    using write_chars_ok [OF assms(1,2,5)] by blast
  obtain s2 where s2: "transmit n s1 = Ret s2" "uart_tx s2 = uart_tx s1 @ take (n * UART_FIFO_SIZE) (es @ os @ ?xs)"
    using transmit_ok [OF s1(3,2)] assms(3) s1(5) by auto
  have "ttywrite cs (int (length cs)) s = Ret (Some OK, s1)" using s1(1) assms(4) by (simp add: ttywrite_def)
  then show ?thesis using s2 s1(4) assms(6) by auto
qed

theorem tty_write_transmits_witness:
  "\<exists>s1 s2. ttywrite [0x68, 0x69, 10] 3 (line1 []) = Ret (Some OK, s1) \<and> transmit 1 s1 = Ret s2 \<and> uart_tx s2 = [0x68, 0x69, 13, 10]"
proof -
  note l = line1_ok [of "[]"]
  have c: "concat (map (crlf (tyb (line1 []))) [0x68, 0x69, 10]) = [0x68, 0x69, 13, 10]"
    using l(5) by (simp add: crlf_def defaults_def TY_NEWLINE_def TY_RETURN_def)
  have "\<exists>s1 s2. ttywrite [0x68, 0x69, 10] (int (length [0x68 :: u8, 0x69, 10])) (line1 []) = Ret (Some OK, s1) \<and> transmit 1 s1 = Ret s2 \<and>
    uart_tx s2 = uart_tx (line1 []) @ [] @ [] @ concat (map (crlf (tyb (line1 []))) [0x68, 0x69, 10])"
    by (rule tty_write_transmits [OF l(4,3,6)]) (unfold c, simp_all add: TY_OBUFLEN_def UART_FIFO_SIZE_def)
  then show ?thesis unfolding c l(9) by simp
qed

text \<open>
  C39: the missing wrap-around after end-of-file. When the end-of-file character arrives at the start of a line and its place is the last of the input buffer,
  the tail is left one past the end of the buffer, and any next ordinary character is stored outside it.
\<close>

theorem tty_eof_overruns:
  assumes k: "at_ease (tkern s)" and i: "tty_in av [] s" and d: "defaults (tyb s)" and r: "uart_rx s = [TY_EOFCH]"
    and t: "tyitail (tyb s) = TY_IBUFLEN - 1" and l: "int (length av) < TY_IBUFLEN - 2"
    and c: "c \<notin> {TY_BACKSP, TY_BACKSP2, TY_KILLCH, TY_STOPCH, TY_STRTCH, TY_EOFCH}"
  shows "\<exists>s'. ttyhandle_in s = Ret s' \<and> tyitail (tyb s') = TY_IBUFLEN \<and> ttyhandle_in (s'\<lparr>uart_rx := [c]\<rparr>) = Fault"
proof -
  let ?b = "tyb s"
  let ?s = "s\<lparr>uart_rx := [], tyb := ?b\<lparr>tyoheld := False\<rparr>\<rparr>"
  note special = TY_BACKSP_def TY_BACKSP2_def TY_KILLCH_def TY_STOPCH_def TY_STRTCH_def TY_EOFCH_def TY_NEWLINE_def TY_RETURN_def
  have b: "tty_buf av s" "tyicursor ?b = 0" "in_count s \<le> int (length av)" "echo_ok s" using i by (simp_all add: tty_in_def tty_buf_def Let_def)
  have e: "echo_ok ?s" using b(4) by (simp add: echo_ok_def)
  obtain s1 where s1: "echoch TY_EOFCH ?s = Ret s1" "echoed ?s s1" using echoch_echoed [OF e] by blast
  have f1: "tyicursor (tyb s1) = 0" "tyitail (tyb s1) = TY_IBUFLEN - 1" "tkern s1 = tkern s" "tyisem (tyb s1) = tyisem ?b" "same_line ?b (tyb s1)" "echo_ok s1"
    using s1(2) b(2) t by (simp_all add: echoed_def same_line_def)
  let ?s2 = "s1\<lparr>tyb := (tyb s1)\<lparr>tyitail := TY_IBUFLEN, tyibuff := (tyibuff (tyb s1))(TY_IBUFLEN - 1 := TY_EOFCH)\<rparr>\<rparr>"
  have put: "put_in TY_EOFCH s1 = Ret ?s2" using f1(2) by (simp add: put_in_def upd_ty_def TY_IBUFLEN_def)
  have sem: "\<not> isbadsem (tyisem ?b)" "sstate (semtab (tkern s) (tyisem ?b)) \<noteq> S_FREE" using b(1) by (simp_all add: tty_buf_def Let_def)
  obtain k' where k': "signal (tyisem ?b) (tkern s) = Ret (OK, k')"
    "semtab k' = semtab (set_scount (tyisem ?b) (scount (semtab (tkern s) (tyisem ?b)) + 1) (tkern s))"
    using calm.signal_ok [OF k sem] b(3) l by (auto simp: in_count_def TY_IBUFLEN_def)
  have av: "tty_avail ?s = max 0 (in_count s)" using sem by (auto simp: tty_avail_def semcount_def in_count_def)
  have full: "\<not> TY_IBUFLEN - 1 \<le> tty_avail ?s + tyicursor (tyb ?s)" unfolding av using b(2,3) l by simp
  have "ttyhandle_in s = tty_eof TY_EOFCH ?s"
    using r d full by (simp add: ttyhandle_in_def uart_get_def tty_cooked_def upd_ty_def defaults_def Let_def special)
  also have "\<dots> = Ret (?s2\<lparr>tkern := k'\<rparr>)" using s1(1) f1(1,3,4) put k'(1) d by (simp add: tty_eof_def tty_signal_def defaults_def)
  finally have run: "ttyhandle_in s = Ret (?s2\<lparr>tkern := k'\<rparr>)" .
  let ?s3 = "?s2\<lparr>tkern := k', uart_rx := [c]\<rparr>" and ?c = "if c = TY_RETURN then TY_NEWLINE else c"
  let ?s4 = "?s3\<lparr>uart_rx := [], tyb := (tyb ?s3)\<lparr>tyoheld := False\<rparr>\<rparr>"
  have d3: "defaults (tyb s1)" using d f1(5) by (simp add: defaults_def same_line_def)
  have e4: "echo_ok ?s4" using f1(6) by (simp add: echo_ok_def)
  have bad: "put_in x y = Fault" if "tyitail (tyb y) = TY_IBUFLEN" for x y using that by (simp add: put_in_def)
  have "tty_cooked ?c ?s4 = Fault"
  proof (cases "?c = TY_NEWLINE")
    case True
    obtain s5 where s5: "echoch ?c ?s4 = Ret s5" "echoed ?s4 s5" using echoch_echoed [OF e4] by blast
    have "tyitail (tyb s5) = TY_IBUFLEN" using s5(2) by (simp add: echoed_def)
    then show ?thesis using True s5(1) d3 bad by (simp add: tty_cooked_def tty_endline_def defaults_def special)
  next
    case False
    then have cr: "?c = c" "c \<noteq> TY_NEWLINE" "c \<noteq> TY_RETURN" by (auto split: if_splits)
    obtain s5 where s5: "echoch c ?s4 = Ret s5" "echoed ?s4 s5" using echoch_echoed [OF e4] by blast
    have "tyitail (tyb (upd_ty (\<lambda>b. b\<lparr>tyicursor := tyicursor b + 1\<rparr>) s5)) = TY_IBUFLEN" using s5(2) by (simp add: echoed_def upd_ty_def)
    moreover have "\<not> TY_IBUFLEN - 1 \<le> tty_avail ?s4 + tyicursor (tyb ?s4)"
      using f1(1,4) k'(2) sem b(3) l by (simp add: tty_avail_def semcount_def in_count_def TY_IBUFLEN_def)
    ultimately show ?thesis unfolding cr(1) using cr(2,3) s5(1) d3 bad c by (simp add: tty_cooked_def defaults_def Let_def)
  qed
  moreover have "ttyhandle_in ?s3 = tty_cooked ?c ?s4" using d3 c by (simp add: ttyhandle_in_def uart_get_def upd_ty_def defaults_def special)
  ultimately have "ttyhandle_in ((?s2\<lparr>tkern := k'\<rparr>)\<lparr>uart_rx := [c]\<rparr>) = Fault" by simp
  then show ?thesis using run by (intro exI [of _ "?s2\<lparr>tkern := k'\<rparr>"]) simp
qed

theorem tty_eof_overruns_witness:
  "\<exists>s'. ttyhandle_in ((line1 [TY_EOFCH])\<lparr>tyb := (tyb (line1 [TY_EOFCH]))\<lparr>tyihead := 127, tyitail := 127\<rparr>\<rparr>) = Ret s' \<and> tyitail (tyb s') = 128 \<and>
    ttyhandle_in (s'\<lparr>uart_rx := [0x61]\<rparr>) = Fault"
proof -
  note l = line1_ok [of "[TY_EOFCH]"]
  let ?s = "(line1 [TY_EOFCH])\<lparr>tyb := (tyb (line1 [TY_EOFCH]))\<lparr>tyihead := 127, tyitail := 127\<rparr>\<rparr>"
  have "tty_in [] [] ?s" using l(1) by (simp add: tty_in_def tty_buf_def in_count_def echo_ok_def ring_def TY_IBUFLEN_def Let_def)
  moreover have "defaults (tyb ?s)" using l(5) by (simp add: defaults_def)
  ultimately have "\<exists>s'. ttyhandle_in ?s = Ret s' \<and> tyitail (tyb s') = TY_IBUFLEN \<and> ttyhandle_in (s'\<lparr>uart_rx := [0x61]\<rparr>) = Fault"
    using l(4,8) by (intro tty_eof_overruns [of ?s "[]"])
      (simp_all add: TY_IBUFLEN_def TY_BACKSP_def TY_BACKSP2_def TY_KILLCH_def TY_STOPCH_def TY_STRTCH_def TY_EOFCH_def)
  then show ?thesis unfolding TY_IBUFLEN_def .
qed

text \<open>A line end is stored without a look at the space left: into a full buffer it goes over the character that would be read next.\<close>

theorem tty_newline_overwrites:
  assumes k: "at_ease (tkern s)" and i: "tty_in av [] s" and d: "defaults (tyb s)" and r: "uart_rx s = [TY_NEWLINE]" and l: "int (length av) = TY_IBUFLEN"
  shows "\<exists>s'. ttyhandle_in s = Ret s' \<and> tyihead (tyb s') = tyihead (tyb s) \<and> tyibuff (tyb s') (tyihead (tyb s')) = TY_NEWLINE"
proof -
  let ?b = "tyb s"
  let ?s = "s\<lparr>uart_rx := [], tyb := ?b\<lparr>tyoheld := False\<rparr>\<rparr>"
  have b: "tty_buf av s" "tyicursor ?b = 0" "in_count s \<le> int (length av)" "echo_ok s" "tyitail ?b = (tyihead ?b + int (length av)) mod TY_IBUFLEN" "0 \<le> tyihead ?b" "tyihead ?b < TY_IBUFLEN"
    using i by (simp_all add: tty_in_def tty_buf_def Let_def)
  have tl: "tyitail ?b = tyihead ?b" unfolding b(5) l using b(6,7) by simp
  have "echo_ok ?s" using b(4) by (simp add: echo_ok_def)
  then obtain s1 where s1: "echoch TY_NEWLINE ?s = Ret s1" "echoed ?s s1" using echoch_echoed by blast
  have f1: "tyicursor (tyb s1) = 0" "tyitail (tyb s1) = tyihead ?b" "tkern s1 = tkern s" "tyisem (tyb s1) = tyisem ?b" "tyihead (tyb s1) = tyihead ?b"
    using s1(2) b(2) tl by (simp_all add: echoed_def same_line_def)
  let ?s2 = "s1\<lparr>tyb := (tyb s1)\<lparr>tyibuff := (tyibuff (tyb s1))(tyihead ?b := TY_NEWLINE), tyitail := tyihead ?b + 1\<rparr>\<rparr>"
  have put: "put_in TY_NEWLINE s1 = Ret ?s2" using f1(2) b(6,7) by (simp add: put_in_def upd_ty_def Let_def)
  have w: "tyibuff (tyb (wrap_in ?s2)) (tyihead ?b) = TY_NEWLINE" "tyihead (tyb (wrap_in ?s2)) = tyihead ?b" "tkern (wrap_in ?s2) = tkern s" "tyisem (tyb (wrap_in ?s2)) = tyisem ?b"
    "tyicursor (tyb (wrap_in ?s2)) = 0" using f1 by (simp_all add: wrap_in_def upd_ty_def)
  have sem: "\<not> isbadsem (tyisem ?b)" "sstate (semtab (tkern s) (tyisem ?b)) \<noteq> S_FREE" using b(1) by (simp_all add: tty_buf_def Let_def)
  obtain k' where k': "signaln (tyisem ?b) 1 (tkern s) = Ret (OK, k')"
    using calm.signaln_ok [OF k sem, of 1] b(3) l by (auto simp: in_count_def TY_IBUFLEN_def)
  have "ttyhandle_in s = tty_endline TY_NEWLINE ?s"
    using r d by (simp add: ttyhandle_in_def uart_get_def tty_cooked_def upd_ty_def defaults_def Let_def
      TY_BACKSP_def TY_BACKSP2_def TY_KILLCH_def TY_STOPCH_def TY_STRTCH_def TY_NEWLINE_def TY_RETURN_def)
  also have "\<dots> = Ret (upd_ty (\<lambda>b. b\<lparr>tyicursor := 0\<rparr>) ((wrap_in ?s2)\<lparr>tkern := k'\<rparr>))"
    using s1(1) put w(3-5) k' d by (simp add: tty_endline_def tty_signaln_def defaults_def)
  finally show ?thesis using w by (intro exI conjI) (assumption, simp_all add: upd_ty_def)
qed

end
