(* ===== verification/LfsDisk.thy ===== *)
theory LfsDisk
  imports Names "HOL-Library.Signed_Division"
begin

text \<open>
  The disk below the local file system: the ram disk (\<open>device/ram/\<close>, \<open>include/ramdisk.h\<close>), the layout of \<open>include/lfilesys.h\<close>, and the routines that
  work on the disk only: \<open>lfibget.c\<close>, \<open>lfibput.c\<close>, \<open>lfibclear.c\<close>, \<open>lfscreate.c\<close>, \<open>lfscheck.c\<close> and \<open>lfsckfmt.c\<close> of \<open>device/lfs/\<close>.

  The configuration puts the file system on the device \<open>RAM0\<close>, so \<open>read\<close> and \<open>write\<close> of the disk device are \<open>ramread\<close> and \<open>ramwrite\<close>. They do not test the
  block number; a block outside the array is a \<open>Fault\<close>. Structures on the disk are their bytes in the order of the little-endian target.
\<close>

section \<open>The ram disk\<close>

definition RM_BLKSIZ :: nat where "RM_BLKSIZ = 512"
definition RM_BLKS :: nat where "RM_BLKS = 200"

type_synonym disk = "nat \<Rightarrow> u8"

definition ramread :: "u32 \<Rightarrow> disk \<Rightarrow> (int \<times> u8 list) result" where
  "ramread blk d =
    (let bpos = sint (word_of_nat RM_BLKSIZ * blk) in
     if bpos < 0 \<or> bpos + int RM_BLKSIZ > int (RM_BLKSIZ * RM_BLKS) then Fault
     else Ret (OK, map (\<lambda>i. d (nat bpos + i)) [0..<RM_BLKSIZ]))"

definition ramwrite :: "u32 \<Rightarrow> u8 list \<Rightarrow> disk \<Rightarrow> (int \<times> disk) result" where
  "ramwrite blk buff d =
    (let bpos = sint (word_of_nat RM_BLKSIZ * blk) in
     if bpos < 0 \<or> bpos + int RM_BLKSIZ > int (RM_BLKSIZ * RM_BLKS) then Fault
     else Ret (OK, \<lambda>i. if nat bpos \<le> i \<and> i < nat bpos + RM_BLKSIZ then buff ! (i - nat bpos) else d i))"

definition ramopen :: "int \<Rightarrow> int" where
  "ramopen dev = dev"

definition ramclose :: int where
  "ramclose = OK"

fun ram_copy :: "nat \<Rightarrow> nat \<Rightarrow> nat \<Rightarrow> disk \<Rightarrow> disk" where
  "ram_copy 0 dst src d = d"
| "ram_copy (Suc n) dst src d = ram_copy n (dst + 1) (src + 1) (d(dst := d src))"

definition raminit :: "disk \<Rightarrow> int \<times> disk" where
  "raminit d =
    (let d = copy_bytes 8 (lit (bytes ''hopeless'')) 0 d 0;
         d = ram_copy (RM_BLKSIZ * RM_BLKS - 8) 8 0 d
     in (OK, d))"

section \<open>Structures on the disk\<close>

definition LF_BLKSIZ :: nat where "LF_BLKSIZ = 512"
definition LF_NAME_LEN :: nat where "LF_NAME_LEN = 16"
definition LF_NUM_DIR_ENT :: nat where "LF_NUM_DIR_ENT = 20"
definition LF_INULL :: u32 where "LF_INULL = -1"
definition LF_DNULL :: u32 where "LF_DNULL = -1"
definition LF_IBLEN :: nat where "LF_IBLEN = 16"
definition LF_IDATA :: u32 where "LF_IDATA = 8192"
definition LF_IMASK :: u32 where "LF_IMASK = 0x1fff"
definition LF_DMASK :: u32 where "LF_DMASK = 0x1ff"
definition LF_AREA_IB :: int where "LF_AREA_IB = 1"
definition LF_AREA_DIR :: u32 where "LF_AREA_DIR = 0"
definition LFS_ID :: u32 where "LFS_ID = 0x58696E75"

record lfiblk =
  ib_next :: u32
  ib_offset :: u32
  ib_dba :: "u32 list"

record ldentry =
  ld_size :: u32
  ld_ilist :: u32
  ld_name :: "u8 list"

record lfdir =
  lfd_fsysid :: u32
  lfd_vers :: u16
  lfd_subvers :: u16
  lfd_allzeros :: u32
  lfd_allones :: u32
  lfd_dfree :: u32
  lfd_ifree :: u32
  lfd_nfiles :: u32
  lfd_files :: "ldentry list"
  lfd_revid :: u32

definition enc32 :: "u32 \<Rightarrow> u8 list" where
  "enc32 w = [ucast w, ucast (drop_bit 8 w), ucast (drop_bit 16 w), ucast (drop_bit 24 w)]"

definition enc16 :: "u16 \<Rightarrow> u8 list" where
  "enc16 w = [ucast w, ucast (drop_bit 8 w)]"

definition dec32 :: "u8 list \<Rightarrow> u32" where
  "dec32 bs = ucast (bs ! 0) OR push_bit 8 (ucast (bs ! 1)) OR push_bit 16 (ucast (bs ! 2)) OR push_bit 24 (ucast (bs ! 3))"

definition dec16 :: "u8 list \<Rightarrow> u16" where
  "dec16 bs = ucast (bs ! 0) OR push_bit 8 (ucast (bs ! 1))"

definition enc_ib :: "lfiblk \<Rightarrow> u8 list" where
  "enc_ib ib = enc32 (ib_next ib) @ enc32 (ib_offset ib) @ concat (map enc32 (ib_dba ib))"

definition dec_ib :: "u8 list \<Rightarrow> lfiblk" where
  "dec_ib bs = \<lparr>ib_next = dec32 bs, ib_offset = dec32 (drop 4 bs), ib_dba = map (\<lambda>i. dec32 (drop (8 + 4 * i) bs)) [0..<LF_IBLEN]\<rparr>"

definition enc_ld :: "ldentry \<Rightarrow> u8 list" where
  "enc_ld e = enc32 (ld_size e) @ enc32 (ld_ilist e) @ ld_name e"

definition dec_ld :: "u8 list \<Rightarrow> ldentry" where
  "dec_ld bs = \<lparr>ld_size = dec32 bs, ld_ilist = dec32 (drop 4 bs), ld_name = take LF_NAME_LEN (drop 8 bs)\<rparr>"

definition enc_dir :: "lfdir \<Rightarrow> u8 list" where
  "enc_dir r = enc32 (lfd_fsysid r) @ enc16 (lfd_vers r) @ enc16 (lfd_subvers r) @ enc32 (lfd_allzeros r) @ enc32 (lfd_allones r) @
    enc32 (lfd_dfree r) @ enc32 (lfd_ifree r) @ enc32 (lfd_nfiles r) @ concat (map enc_ld (lfd_files r)) @ enc32 (lfd_revid r)"

definition dec_dir :: "u8 list \<Rightarrow> lfdir" where
  "dec_dir bs = \<lparr>lfd_fsysid = dec32 bs, lfd_vers = dec16 (drop 4 bs), lfd_subvers = dec16 (drop 6 bs), lfd_allzeros = dec32 (drop 8 bs),
    lfd_allones = dec32 (drop 12 bs), lfd_dfree = dec32 (drop 16 bs), lfd_ifree = dec32 (drop 20 bs), lfd_nfiles = dec32 (drop 24 bs),
    lfd_files = map (\<lambda>i. dec_ld (drop (28 + 24 * i) bs)) [0..<LF_NUM_DIR_ENT], lfd_revid = dec32 (drop 508 bs)\<rparr>"

section \<open>Index blocks\<close>

definition ib2sect :: "u32 \<Rightarrow> u32" where
  "ib2sect ib = word_of_int (sint ib sdiv 7 + LF_AREA_IB)"

definition ib2disp :: "u32 \<Rightarrow> int" where
  "ib2disp ib = (sint ib smod 7) * 72"

definition lfibget :: "u32 \<Rightarrow> disk \<Rightarrow> lfiblk result" where
  "lfibget inum d =
    rbind (ramread (ib2sect inum) d) (\<lambda>(_, dbuff).
    if ib2disp inum < 0 then Fault else Ret (dec_ib (drop (nat (ib2disp inum)) dbuff)))"

definition lfibput :: "u32 \<Rightarrow> lfiblk \<Rightarrow> disk \<Rightarrow> (int \<times> disk) result" where
  "lfibput inum ibuff d =
    rbind (ramread (ib2sect inum) d) (\<lambda>(r, dbuff).
    if r = SYSERR then Ret (SYSERR, d)
    else if ib2disp inum < 0 then Fault
    else
      let p = nat (ib2disp inum); dbuff = take p dbuff @ enc_ib ibuff @ drop (p + 72) dbuff in
      rbind (ramwrite (ib2sect inum) dbuff d) (\<lambda>(_, d). Ret (OK, d)))"

definition lfibclear :: "u32 \<Rightarrow> lfiblk" where
  "lfibclear offset = \<lparr>ib_next = LF_INULL, ib_offset = offset, ib_dba = replicate LF_IBLEN LF_DNULL\<rparr>"

section \<open>Making and checking a file system\<close>

definition zero_entry :: ldentry where
  "zero_entry = \<lparr>ld_size = 0, ld_ilist = 0, ld_name = replicate LF_NAME_LEN 0\<rparr>"

definition zero_dir :: lfdir where
  "zero_dir = \<lparr>lfd_fsysid = 0, lfd_vers = 0, lfd_subvers = 0, lfd_allzeros = 0, lfd_allones = 0, lfd_dfree = 0, lfd_ifree = 0, lfd_nfiles = 0,
    lfd_files = replicate LF_NUM_DIR_ENT zero_entry, lfd_revid = 0\<rparr>"

fun make_ibs :: "nat \<Rightarrow> u32 \<Rightarrow> lfiblk \<Rightarrow> disk \<Rightarrow> (u32 \<times> disk) result" where
  "make_ibs 0 i iblock d = Ret (i, d)"
| "make_ibs (Suc n) i iblock d = rbind (lfibput i (iblock\<lparr>ib_next := i + 1\<rparr>) d) (\<lambda>(_, d). make_ibs n (i + 1) iblock d)"

definition free_block :: "u32 \<Rightarrow> u8 list" where
  "free_block nextdb = enc32 nextdb @ replicate (LF_BLKSIZ - 4) 0"

fun make_dbs :: "nat \<Rightarrow> u32 \<Rightarrow> disk \<Rightarrow> (u32 \<times> disk) result" where
  "make_dbs 0 dbindex d = Ret (dbindex, d)"
| "make_dbs (Suc n) dbindex d = rbind (ramwrite dbindex (free_block (dbindex + 1)) d) (\<lambda>(_, d). make_dbs n (dbindex + 1) d)"

text \<open>The number of index blocks is signed, that of data blocks unsigned, so the first loop compares signed and the second unsigned.\<close>

definition lfscreate :: "u32 \<Rightarrow> u32 \<Rightarrow> disk \<Rightarrow> (int \<times> disk) result" where
  "lfscreate lfiblks dsiz d =
    (let sectors = dsiz div word_of_nat LF_BLKSIZ;
         ibpersector = 512 div 72 :: u32;
         ibsectors = (lfiblks + (ibpersector - 1)) div ibpersector;
         lfiblks = ibsectors * ibpersector in
     if ibsectors > sectors div 2 then Ret (SYSERR, d)
     else
       let dbindex = ibsectors + 1;
           dir = zero_dir\<lparr>lfd_nfiles := 0, lfd_dfree := dbindex\<rparr>;
           dblks = sectors - ibsectors - 1 in
       rbind (ramwrite LF_AREA_DIR (enc_dir dir) d) (\<lambda>(r, d).
       if r = SYSERR then Ret (SYSERR, d)
       else
         let iblock = lfibclear 0 in
         rbind (make_ibs (nat (sint (lfiblks - 1))) 0 iblock d) (\<lambda>(i, d).
         rbind (lfibput i (iblock\<lparr>ib_next := LF_INULL\<rparr>) d) (\<lambda>(_, d).
         rbind (make_dbs (unat (dblks - 1)) dbindex d) (\<lambda>(dbindex, d).
         rbind (ramwrite dbindex (free_block LF_DNULL) d) (\<lambda>(_, d).
         let _ = ramclose in   \<comment> \<open>\<open>close(disk)\<close>, its result not used\<close>
         Ret (OK, d)))))))"

definition lfscheck :: "lfdir \<Rightarrow> int" where
  "lfscheck dirptr =
    (let reverse = (drop_bit 24 LFS_ID AND 0x000000ff) OR (drop_bit 8 LFS_ID AND 0x0000ff00) OR
           (push_bit 8 LFS_ID AND 0x00ff0000) OR (push_bit 24 LFS_ID AND 0xff000000) in
     if lfd_fsysid dirptr \<noteq> LFS_ID \<or> lfd_allzeros dirptr \<noteq> 0 \<or> lfd_allones dirptr \<noteq> 0xffffffff then SYSERR
     else if lfd_revid dirptr \<noteq> reverse then SYSERR
     else if sint (lfd_nfiles dirptr) < 0 then SYSERR
     else OK)"

text \<open>The walks along the free lists count their blocks.\<close>

partial_function (option) count_ibs :: "disk \<Rightarrow> u32 \<Rightarrow> nat \<Rightarrow> nat result option" where
  "count_ibs d nextib n =
    (if nextib = LF_INULL then Some (Ret n)
     else
       case lfibget nextib d of
         Ret ib \<Rightarrow> count_ibs d (ib_next ib) (n + 1)
       | Halted \<Rightarrow> Some Halted
       | Fault \<Rightarrow> Some Fault
       | Loops \<Rightarrow> Some Loops)"

partial_function (option) count_dbs :: "disk \<Rightarrow> u32 \<Rightarrow> nat \<Rightarrow> nat result option" where
  "count_dbs d nextdb n =
    (if nextdb = LF_DNULL then Some (Ret n)
     else
       case ramread nextdb d of
         Ret (_, dblock) \<Rightarrow> count_dbs d (dec32 dblock) (n + 1)
       | Halted \<Rightarrow> Some Halted
       | Fault \<Rightarrow> Some Fault
       | Loops \<Rightarrow> Some Loops)"

text \<open>The result is the status with the numbers of index and data blocks that are printed.\<close>

definition lfsckfmt :: "disk \<Rightarrow> (int \<times> nat \<times> nat) result" where
  "lfsckfmt d =
    rbind (ramread LF_AREA_DIR d) (\<lambda>(r, buf).
    let dir = dec_dir buf in
    if r = SYSERR then Halted
    else if lfscheck dir = SYSERR then Halted
    else
      rbind (rjoin (of_loop (count_ibs d (lfd_ifree dir) 0))) (\<lambda>lfiblks.
      rbind (rjoin (of_loop (count_dbs d (lfd_dfree dir) 0))) (\<lambda>dblks.
      Ret (OK, lfiblks, dblks))))"

section \<open>Encodings\<close>

lemma enc_lengths [simp]: "length (enc32 w) = 4" "length (enc16 v) = 2"
  by (simp_all add: enc32_def enc16_def)

lemma dec32_enc32 [simp]: "dec32 (enc32 w @ xs) = w"
proof (rule bit_word_eqI)
  fix n assume "n < LENGTH(32)"
  then consider "n < 8" | "8 \<le> n" "n < 16" | "16 \<le> n" "n < 24" | "24 \<le> n" "n < 32" by force
  then show "bit (dec32 (enc32 w @ xs)) n = bit w n"
    by cases (auto simp: dec32_def enc32_def bit_simps)
qed

lemma dec16_enc16 [simp]: "dec16 (enc16 w @ xs) = w"
proof (rule bit_word_eqI)
  fix n assume "n < LENGTH(16)"
  then consider "n < 8" | "8 \<le> n" "n < 16" by force
  then show "bit (dec16 (enc16 w @ xs)) n = bit w n"
    by cases (auto simp: dec16_def enc16_def bit_simps)
qed

text \<open>Element \<open>i\<close> of an array of structures of \<open>k\<close> bytes each.\<close>

lemma length_concat_const: "(\<And>x. x \<in> set l \<Longrightarrow> length (f x) = k) \<Longrightarrow> length (concat (map f l)) = k * length l"
  by (induction l) auto

lemma drop_concat:
  assumes "\<And>x. x \<in> set l \<Longrightarrow> length (f x) = k" "i < length l"
  shows "drop (k * i) (concat (map f l) @ xs) = f (l ! i) @ concat (map f (drop (Suc i) l)) @ xs"
  using assms
proof (induction l arbitrary: i)
  case (Cons y l)
  then show ?case by (cases i) auto
qed simp

lemma dec_ib_enc [simp]:
  assumes "length (ib_dba ib) = LF_IBLEN"
  shows "dec_ib (enc_ib ib @ xs) = ib" and "length (enc_ib ib) = 72"
proof -
  have arr: "drop (8 + 4 * i) (enc_ib ib @ xs) = enc32 (ib_dba ib ! i) @ concat (map enc32 (drop (Suc i) (ib_dba ib))) @ xs" if "i < LF_IBLEN" for i
    using drop_concat [of "ib_dba ib" enc32 4 i xs] assms that by (simp add: enc_ib_def)
  have "ib_dba (dec_ib (enc_ib ib @ xs)) = ib_dba ib"
    using assms by (intro nth_equalityI) (simp_all add: dec_ib_def arr del: drop_append)
  moreover have "ib_next (dec_ib (enc_ib ib @ xs)) = ib_next ib" "ib_offset (dec_ib (enc_ib ib @ xs)) = ib_offset ib"
    by (simp_all add: dec_ib_def enc_ib_def)
  ultimately show "dec_ib (enc_ib ib @ xs) = ib" by (intro lfiblk.equality) simp_all
  show "length (enc_ib ib) = 72" using length_concat_const [of "ib_dba ib" enc32 4] assms by (simp add: enc_ib_def LF_IBLEN_def)
qed

definition dir_ok :: "lfdir \<Rightarrow> bool" where
  "dir_ok r \<longleftrightarrow> length (lfd_files r) = LF_NUM_DIR_ENT \<and> (\<forall>e \<in> set (lfd_files r). length (ld_name e) = LF_NAME_LEN)"

lemma dec_ld_enc: "length (ld_name e) = LF_NAME_LEN \<Longrightarrow> dec_ld (enc_ld e @ xs) = e \<and> length (enc_ld e) = 24"
  by (simp add: dec_ld_def enc_ld_def LF_NAME_LEN_def)

lemma enc_dir_parts:
  obtains hd where "enc_dir r = hd @ concat (map enc_ld (lfd_files r)) @ enc32 (lfd_revid r)" "length hd = 28"
  by (rule that [of "enc32 (lfd_fsysid r) @ enc16 (lfd_vers r) @ enc16 (lfd_subvers r) @ enc32 (lfd_allzeros r) @ enc32 (lfd_allones r) @
    enc32 (lfd_dfree r) @ enc32 (lfd_ifree r) @ enc32 (lfd_nfiles r)"]) (simp_all add: enc_dir_def)

lemma dec_dir_enc:
  assumes "dir_ok r"
  shows "dec_dir (enc_dir r) = r" and "length (enc_dir r) = 512"
proof -
  have len: "length (enc_ld e) = 24" if "e \<in> set (lfd_files r)" for e using assms that dec_ld_enc by (auto simp: dir_ok_def)
  have n: "length (lfd_files r) = 20" using assms by (simp add: dir_ok_def LF_NUM_DIR_ENT_def)
  have files: "length (concat (map enc_ld (lfd_files r))) = 480" using length_concat_const [of "lfd_files r" enc_ld 24] len n by simp
  obtain hd where hd: "enc_dir r = hd @ concat (map enc_ld (lfd_files r)) @ enc32 (lfd_revid r)" "length hd = 28" by (rule enc_dir_parts)
  show "length (enc_dir r) = 512" using hd files by simp
  have "dec_ld (drop (28 + 24 * i) (enc_dir r)) = lfd_files r ! i" if "i < 20" for i
    using drop_concat [of "lfd_files r" enc_ld 24 i "enc32 (lfd_revid r)"] len n that hd assms dec_ld_enc by (simp add: dir_ok_def)
  then have "lfd_files (dec_dir (enc_dir r)) = lfd_files r"
    using n by (intro nth_equalityI) (simp_all add: dec_dir_def LF_NUM_DIR_ENT_def)
  moreover have "lfd_revid (dec_dir (enc_dir r)) = lfd_revid r"
    using hd files dec32_enc32 [of "lfd_revid r" "[]"] by (simp add: dec_dir_def)
  ultimately show "dec_dir (enc_dir r) = r"
    by (intro lfdir.equality) (simp_all add: dec_dir_def enc_dir_def)
qed

section \<open>Sectors\<close>

text \<open>A block number that the disk has, and the contents of a sector.\<close>

definition on_disk :: "nat \<Rightarrow> bool" where
  "on_disk b \<longleftrightarrow> b < RM_BLKS"

definition sect :: "disk \<Rightarrow> nat \<Rightarrow> u8 list" where
  "sect d b = map (\<lambda>i. d (512 * b + i)) [0..<512]"

definition put_sect :: "nat \<Rightarrow> u8 list \<Rightarrow> disk \<Rightarrow> disk" where
  "put_sect b bs d = (\<lambda>i. if 512 * b \<le> i \<and> i < 512 * b + 512 then bs ! (i - 512 * b) else d i)"

lemma sect_length [simp]: "length (sect d b) = 512"
  by (simp add: sect_def)

lemma sect_put: "length bs = 512 \<Longrightarrow> sect (put_sect b bs d) b' = (if b' = b then bs else sect d b')"
proof -
  assume "length bs = 512"
  moreover have "\<not> (512 * b \<le> 512 * b' + i \<and> 512 * b' + i < 512 * b + 512)" if "b' \<noteq> b" "i < 512" for i
    using that by (cases "b < b'") auto
  ultimately show ?thesis by (auto simp: sect_def put_sect_def intro!: nth_equalityI)
qed

lemma block_pos:
  fixes blk :: u32
  assumes "unat blk = b" "on_disk b"
  shows "sint (word_of_nat RM_BLKSIZ * blk) = int (512 * b)"
proof -
  have "word_of_nat RM_BLKSIZ * blk = word_of_nat (512 * b)" using assms(1) by (auto simp: RM_BLKSIZ_def)
  moreover have "sint (word_of_nat (512 * b) :: u32) = int (512 * b)"
    using signed_take_bit_int_eq_self [of 31 "int (512 * b)"] assms(2)
    by (simp only: signed_of_nat on_disk_def RM_BLKS_def) simp
  ultimately show ?thesis by simp
qed

lemma ramread_ok: "unat blk = b \<Longrightarrow> on_disk b \<Longrightarrow> ramread blk d = Ret (OK, sect d b)"
  unfolding ramread_def block_pos Let_def nat_int by (simp add: on_disk_def RM_BLKSIZ_def RM_BLKS_def sect_def)

lemma ramwrite_ok: "unat blk = b \<Longrightarrow> on_disk b \<Longrightarrow> ramwrite blk bs d = Ret (OK, put_sect b bs d)"
  unfolding ramwrite_def block_pos Let_def nat_int by (simp add: on_disk_def RM_BLKSIZ_def RM_BLKS_def put_sect_def fun_eq_iff)

section \<open>Index blocks as an array\<close>

text \<open>Sector 0 is the directory, sectors 1 to \<open>ds - 1\<close> hold seven index blocks each.\<close>

definition disk_ib :: "disk \<Rightarrow> nat \<Rightarrow> lfiblk" where
  "disk_ib d n = dec_ib (drop (72 * (n mod 7)) (sect d (n div 7 + 1)))"

definition put_ib :: "nat \<Rightarrow> lfiblk \<Rightarrow> disk \<Rightarrow> disk" where
  "put_ib n ib d = (let s = sect d (n div 7 + 1); p = 72 * (n mod 7) in put_sect (n div 7 + 1) (take p s @ enc_ib ib @ drop (p + 72) s) d)"

lemma sint_id:
  fixes w :: u32
  shows "unat w = n \<Longrightarrow> n < 2 ^ 31 \<Longrightarrow> sint w = int n"
proof -
  assume w: "unat w = n" "n < 2 ^ 31"
  then have "w = word_of_nat n" by auto
  then show ?thesis using signed_take_bit_int_eq_self [of 31 "int n"] w(2) by (simp only: signed_of_nat) simp
qed

lemma ib_address:
  assumes "unat w = n" "n < 1400"
  shows "unat (ib2sect w) = n div 7 + 1" and "ib2disp w = int (72 * (n mod 7))"
proof -
  have s: "sint w = int n" by (rule sint_id [OF assms(1)]) (use assms(2) in simp)
  have "sint w sdiv 7 + 1 = int (n div 7 + 1)" unfolding s by (simp add: signed_divide_int_def sgn_if zdiv_int)
  moreover have "unat (word_of_int (int (n div 7 + 1)) :: u32) = n div 7 + 1"
    using assms(2) by (simp only: of_int_of_nat_eq unat_of_nat) (simp add: take_bit_nat_eq_self)
  ultimately show "unat (ib2sect w) = n div 7 + 1" by (simp only: ib2sect_def LF_AREA_IB_def)
  show "ib2disp w = int (72 * (n mod 7))"
    unfolding ib2disp_def s by (simp add: signed_modulo_int_def signed_divide_int_def sgn_if zmod_int minus_div_mult_eq_mod)
qed

lemma lfibget_ok: "unat w = n \<Longrightarrow> on_disk (n div 7 + 1) \<Longrightarrow> lfibget w d = Ret (disk_ib d n)"
proof -
  assume a: "unat w = n" "on_disk (n div 7 + 1)"
  then have "n < 1400" by (simp add: on_disk_def RM_BLKS_def)
  note adr = ib_address [OF a(1) this]
  show ?thesis unfolding lfibget_def ramread_ok [OF adr(1) a(2)] adr(2) disk_ib_def rbind.simps prod.case nat_int by simp
qed

lemma lfibput_ok: "unat w = n \<Longrightarrow> on_disk (n div 7 + 1) \<Longrightarrow> lfibput w ib d = Ret (OK, put_ib n ib d)"
proof -
  assume a: "unat w = n" "on_disk (n div 7 + 1)"
  then have "n < 1400" by (simp add: on_disk_def RM_BLKS_def)
  note adr = ib_address [OF a(1) this]
  show ?thesis unfolding lfibput_def ramread_ok [OF adr(1) a(2)] adr(2) ramwrite_ok [OF adr(1) a(2)] put_ib_def Let_def nat_int
    by (simp add: OK_def SYSERR_def)
qed

lemma ib_slot: "n mod 7 \<le> 6" "72 * (n mod 7) + 72 \<le> 512" for n :: nat
proof -
  show "n mod 7 \<le> 6" using mod_less_divisor [of 7 n] by linarith
  then show "72 * (n mod 7) + 72 \<le> 512" by linarith
qed

lemma drop_dec_ib: "length bs \<ge> 72 \<Longrightarrow> dec_ib (bs @ ys) = dec_ib bs"
  by (auto simp: dec_ib_def dec32_def nth_append LF_IBLEN_def)

lemma disk_ib_put:
  assumes "length (ib_dba ib) = LF_IBLEN"
  shows "disk_ib (put_ib n ib d) m = (if m = n then ib else disk_ib d m)"
proof -
  let ?s = "sect d (n div 7 + 1)" and ?p = "72 * (n mod 7)" and ?q = "72 * (m mod 7)"
  let ?new = "take ?p ?s @ enc_ib ib @ drop (?p + 72) ?s"
  note sl = ib_slot [of n] ib_slot [of m]
  have len: "length ?new = 512" using sl assms by simp
  show ?thesis
  proof (cases "m div 7 = n div 7")
    case False
    then show ?thesis using sect_put [OF len] by (auto simp: disk_ib_def put_ib_def Let_def)
  next
    case same: True
    show ?thesis
    proof (cases "m mod 7 = n mod 7")
      case True
      then have "m = n" using same by (metis div_mult_mod_eq)
      moreover have "drop ?p ?new = enc_ib ib @ drop (?p + 72) ?s" using sl by simp
      ultimately show ?thesis using sect_put [OF len] assms by (simp add: disk_ib_def put_ib_def Let_def del: drop_append)
    next
      case False
      then have ne: "m \<noteq> n" by auto
      have eq: "take 72 (drop ?q ?new) = take 72 (drop ?q ?s)"
      proof (cases "m mod 7 < n mod 7")
        case True
        then have "?q + 72 \<le> ?p" by simp
        then show ?thesis using sl by (simp add: take_drop)
      next
        case f: False
        then have "?p + 72 \<le> ?q" using False by simp
        then show ?thesis using sl assms by simp
      qed
      have cut: "dec_ib (drop ?q l) = dec_ib (take 72 (drop ?q l))" if "length l = 512" for l
        using drop_dec_ib [of "take 72 (drop ?q l)" "drop 72 (drop ?q l)"] that sl unfolding append_take_drop_id by simp
      show ?thesis using ne same sect_put [OF len] eq cut [OF len] cut [OF sect_length] by (simp add: disk_ib_def put_ib_def Let_def)
    qed
  qed
qed

lemma sect_put_ib:
  assumes "length (ib_dba ib) = LF_IBLEN" "b \<noteq> n div 7 + 1"
  shows "sect (put_ib n ib d) b = sect d b"
  using assms ib_slot [of n] by (simp add: put_ib_def Let_def sect_put)

lemma disk_ib_put_sect: "length bs = 512 \<Longrightarrow> b \<noteq> n div 7 + 1 \<Longrightarrow> disk_ib (put_sect b bs d) n = disk_ib d n"
  by (simp add: disk_ib_def sect_put)

section \<open>A new file system\<close>

lemma unat_of_nat_small [simp]: "n < 4294967296 \<Longrightarrow> unat (word_of_nat n :: u32) = n"
  by (simp add: unat_of_nat take_bit_nat_eq_self)

lemma make_ibs_run:
  assumes "length (ib_dba ib) = LF_IBLEN" "i + n \<le> 7 * k" "k < 200"
  shows "\<exists>d'. make_ibs n (word_of_nat i) ib d = Ret (word_of_nat (i + n), d') \<and>
    (\<forall>m. disk_ib d' m = (if i \<le> m \<and> m < i + n then ib\<lparr>ib_next := word_of_nat (m + 1)\<rparr> else disk_ib d m)) \<and>
    (\<forall>b. b = 0 \<or> b > k \<longrightarrow> sect d' b = sect d b)"
  using assms(2)
proof (induction n arbitrary: i d)
  case (Suc n)
  let ?ib = "ib\<lparr>ib_next := word_of_nat (i + 1)\<rparr>"
  have i: "unat (word_of_nat i :: u32) = i" "i div 7 + 1 \<le> k" using Suc.prems assms(3) by auto
  then have "on_disk (i div 7 + 1)" using assms(3) by (simp add: on_disk_def RM_BLKS_def)
  then have put: "lfibput (word_of_nat i) ?ib d = Ret (OK, put_ib i ?ib d)" by (rule lfibput_ok [OF i(1)])
  have len: "length (ib_dba ?ib) = LF_IBLEN" using assms(1) by simp
  obtain d' where d': "make_ibs n (word_of_nat (Suc i)) ib (put_ib i ?ib d) = Ret (word_of_nat (Suc i + n), d')"
    "\<forall>m. disk_ib d' m = (if Suc i \<le> m \<and> m < Suc i + n then ib\<lparr>ib_next := word_of_nat (m + 1)\<rparr> else disk_ib (put_ib i ?ib d) m)"
    "\<forall>b. b = 0 \<or> b > k \<longrightarrow> sect d' b = sect (put_ib i ?ib d) b"
    using Suc.IH [of "Suc i" "put_ib i ?ib d"] Suc.prems by auto
  have "word_of_nat i + 1 = (word_of_nat (Suc i) :: u32)" by simp
  then have "make_ibs (Suc n) (word_of_nat i) ib d = Ret (word_of_nat (i + Suc n), d')" using put d'(1) by (simp add: ac_simps)
  moreover have "disk_ib d' m = (if i \<le> m \<and> m < i + Suc n then ib\<lparr>ib_next := word_of_nat (m + 1)\<rparr> else disk_ib d m)" for m
    unfolding d'(2) [rule_format, of m] disk_ib_put [OF len] by auto
  moreover have "sect d' b = sect d b" if "b = 0 \<or> b > k" for b
    using d'(3) that sect_put_ib [OF len, of b i d] i(2) by auto
  ultimately show ?case by blast
qed auto

lemma free_block_length [simp]: "length (free_block w) = 512"
  by (simp add: free_block_def LF_BLKSIZ_def)

lemma make_dbs_run:
  assumes "i + n \<le> 200"
  shows "\<exists>d'. make_dbs n (word_of_nat i) d = Ret (word_of_nat (i + n), d') \<and>
    (\<forall>b. sect d' b = (if i \<le> b \<and> b < i + n then free_block (word_of_nat (b + 1)) else sect d b))"
  using assms
proof (induction n arbitrary: i d)
  case (Suc n)
  let ?d = "put_sect i (free_block (word_of_nat (i + 1))) d"
  have i: "unat (word_of_nat i :: u32) = i" "on_disk i" using Suc.prems by (auto simp: on_disk_def RM_BLKS_def)
  obtain d' where d': "make_dbs n (word_of_nat (Suc i)) ?d = Ret (word_of_nat (Suc i + n), d')"
    "\<forall>b. sect d' b = (if Suc i \<le> b \<and> b < Suc i + n then free_block (word_of_nat (b + 1)) else sect ?d b)"
    using Suc.IH [of "Suc i" ?d] Suc.prems by auto
  have "word_of_nat i + 1 = (word_of_nat (Suc i) :: u32)" by simp
  then have "make_dbs (Suc n) (word_of_nat i) d = Ret (word_of_nat (i + Suc n), d')" using ramwrite_ok [OF i] d'(1) by (simp add: ac_simps)
  moreover have "sect d' b = (if i \<le> b \<and> b < i + Suc n then free_block (word_of_nat (b + 1)) else sect d b)" for b
    unfolding d'(2) [rule_format, of b] by (auto simp: sect_put)
  ultimately show ?case by blast
qed auto

text \<open>What \<open>lfscreate\<close> leaves on the disk: \<open>k\<close> sectors of index blocks and all others up to \<open>sectors\<close> on the free lists, and no mark of a file system.\<close>

definition fresh_disk :: "nat \<Rightarrow> nat \<Rightarrow> disk \<Rightarrow> bool" where
  "fresh_disk k sectors d \<longleftrightarrow>
    (\<forall>n < 7 * k. disk_ib d n = (lfibclear 0)\<lparr>ib_next := if n + 1 < 7 * k then word_of_nat (n + 1) else LF_INULL\<rparr>) \<and>
    (\<forall>b. k < b \<and> b < sectors \<longrightarrow> sect d b = free_block (if b + 1 < sectors then word_of_nat (b + 1) else LF_DNULL)) \<and>
    dec_dir (sect d 0) = zero_dir\<lparr>lfd_dfree := word_of_nat (k + 1)\<rparr>"

lemma zero_dir_ok: "dir_ok (zero_dir\<lparr>lfd_nfiles := a, lfd_dfree := b\<rparr>)"
  by (simp add: dir_ok_def zero_dir_def zero_entry_def)

lemma create_steps:
  assumes k: "1 \<le> k" "k < s" "s \<le> 200" "k + 1 < s"
  shows "\<exists>d'. rbind (make_ibs (7 * k - 1) (word_of_nat 0) (lfibclear 0) (put_sect 0 (enc_dir (zero_dir\<lparr>lfd_nfiles := 0, lfd_dfree := word_of_nat (k + 1)\<rparr>)) d)) (\<lambda>(i, d).
      rbind (lfibput i ((lfibclear 0)\<lparr>ib_next := LF_INULL\<rparr>) d) (\<lambda>(_, d).
      rbind (make_dbs (s - k - 2) (word_of_nat (k + 1)) d) (\<lambda>(dbindex, d).
      rbind (ramwrite dbindex (free_block LF_DNULL) d) (\<lambda>(_, d). Ret (OK, d))))) = Ret (OK, d') \<and> fresh_disk k s d'"
proof -
  let ?dir = "zero_dir\<lparr>lfd_nfiles := 0, lfd_dfree := word_of_nat (k + 1)\<rparr>" and ?ib = "lfibclear 0"
  let ?d0 = "put_sect 0 (enc_dir ?dir) d" and ?last = "?ib\<lparr>ib_next := LF_INULL\<rparr>"
  have len: "length (ib_dba ?ib) = LF_IBLEN" "length (ib_dba ?last) = LF_IBLEN" by (simp_all add: lfibclear_def)
  obtain d1 where d1: "make_ibs (7 * k - 1) (word_of_nat 0) ?ib ?d0 = Ret (word_of_nat (0 + (7 * k - 1)), d1)"
    "\<forall>m. disk_ib d1 m = (if 0 \<le> m \<and> m < 0 + (7 * k - 1) then ?ib\<lparr>ib_next := word_of_nat (m + 1)\<rparr> else disk_ib ?d0 m)"
    "\<forall>b. b = 0 \<or> b > k \<longrightarrow> sect d1 b = sect ?d0 b"
    using make_ibs_run [OF len(1), of 0 "7 * k - 1" k ?d0] k by auto
  let ?n = "7 * k - 1"
  have "?n < 4294967296" using k by simp
  then have n: "unat (word_of_nat (0 + ?n) :: u32) = ?n" unfolding add_0 by (rule unat_of_nat_small)
  have n7: "?n div 7 + 1 = k" using k by auto
  have "on_disk (?n div 7 + 1)" using k n7 by (simp add: on_disk_def RM_BLKS_def)
  note put = lfibput_ok [OF n this, of ?last d1]
  let ?d2 = "put_ib ?n ?last d1"
  have dbs_fit: "k + 1 + (s - k - 2) \<le> 200" using k by simp
  obtain d3 where d3: "make_dbs (s - k - 2) (word_of_nat (k + 1)) ?d2 = Ret (word_of_nat (k + 1 + (s - k - 2)), d3)"
    "\<forall>b. sect d3 b = (if k + 1 \<le> b \<and> b < k + 1 + (s - k - 2) then free_block (word_of_nat (b + 1)) else sect ?d2 b)"
    using make_dbs_run [OF dbs_fit, of ?d2] by blast
  have e: "k + 1 + (s - k - 2) = s - 1" using k by simp
  have "unat (word_of_nat (k + 1 + (s - k - 2)) :: u32) = s - 1" "on_disk (s - 1)"
    unfolding e using unat_of_nat_small [of "s - 1"] k by (auto simp: on_disk_def RM_BLKS_def)
  note wr = ramwrite_ok [OF this, of "free_block LF_DNULL" d3]
  let ?d4 = "put_sect (s - 1) (free_block LF_DNULL) d3"
  have ds: "sect d3 b = sect ?d2 b" if "b \<le> k" for b using d3(2) that by simp
  have "disk_ib ?d4 m = ?ib\<lparr>ib_next := if m + 1 < 7 * k then word_of_nat (m + 1) else LF_INULL\<rparr>" if m: "m < 7 * k" for m
  proof -
    have mk: "m div 7 + 1 \<le> k" using m by auto
    then have "disk_ib ?d4 m = disk_ib d3 m" using k by (intro disk_ib_put_sect) auto
    also have "\<dots> = disk_ib ?d2 m" using ds [OF mk] by (simp add: disk_ib_def)
    also have "\<dots> = (if m = ?n then ?last else disk_ib d1 m)" by (rule disk_ib_put [OF len(2)])
    finally show ?thesis using d1(2) m by auto
  qed
  moreover have "sect ?d4 b = free_block (if b + 1 < s then word_of_nat (b + 1) else LF_DNULL)" if "k < b" "b < s" for b
    using that d3(2) k by (auto simp: sect_put)
  moreover have "sect ?d4 0 = enc_dir ?dir"
    using ds [of 0] sect_put_ib [OF len(2), of 0 ?n d1] d1(3) dec_dir_enc(2) [OF zero_dir_ok] k by (simp add: sect_put)
  then have "dec_dir (sect ?d4 0) = zero_dir\<lparr>lfd_dfree := word_of_nat (k + 1)\<rparr>"
    using dec_dir_enc(1) [OF zero_dir_ok] by (simp add: zero_dir_def)
  ultimately have "fresh_disk k s ?d4" by (simp add: fresh_disk_def)
  then show ?thesis using d1(1) put d3(1) wr by simp
qed

section \<open>Properties\<close>

text \<open>
  C36: A file system that \<open>lfscreate\<close> makes is not accepted. For a disk of 3 to 200 sectors and at least one and at most half of them for index blocks,
  \<open>lfscreate\<close> returns \<open>OK\<close> with the free lists of index and data blocks in order, but it never sets the identification in the directory: \<open>lfscheck\<close>, which
  \<open>lfsopen\<close> calls, gives \<open>SYSERR\<close>, and \<open>lfsckfmt\<close>, the check for a new disk, halts the machine.
\<close>

theorem lfscreate_not_recognised:
  assumes "sectors = unat dsiz div 512" and "k = (unat lfiblks + 6) div 7" and "1 \<le> k" and "k \<le> sectors div 2"
    and "3 \<le> sectors" and "sectors \<le> 200"
  shows "\<exists>d'. lfscreate lfiblks dsiz d = Ret (OK, d') \<and> fresh_disk k sectors d' \<and>
    lfscheck (dec_dir (sect d' 0)) = SYSERR \<and> lfsckfmt d' = Halted"
proof -
  have bl: "unat lfiblks < 4294967290" using assms(2,4,6) by simp
  have k100: "k \<le> 100" using assms(4,6) by simp
  have s: "dsiz div word_of_nat LF_BLKSIZ = word_of_nat sectors"
    using assms(1) by (simp add: LF_BLKSIZ_def word_arith_nat_div)
  have kw: "(lfiblks + (512 div 72 - 1)) div (512 div 72) = (word_of_nat k :: u32)"
    using assms(2) bl by (simp add: word_arith_nat_div unat_word_ariths)
  have le: "\<not> word_of_nat sectors div 2 < (word_of_nat k :: u32)"
    using assms(3-6) by (simp add: word_less_nat_alt unat_div)
  have n1: "nat (sint (word_of_nat k * (512 div 72) - 1 :: u32)) = 7 * k - 1"
  proof -
    have "word_of_nat k * (512 div 72) - 1 = (word_of_nat (7 * k - 1) :: u32)" using assms(3) by (simp add: of_nat_diff)
    moreover have "unat (word_of_nat (7 * k - 1) :: u32) = 7 * k - 1" by (rule unat_of_nat_small) (use k100 in simp)
    ultimately show ?thesis using sint_id [of "word_of_nat (7 * k - 1)" "7 * k - 1"] k100 by auto
  qed
  have n2: "unat (word_of_nat sectors - word_of_nat k - 1 - 1 :: u32) = sectors - k - 2"
  proof -
    have "k + 2 \<le> sectors" using assms(3-5) by linarith
    then obtain j where j: "sectors = k + 2 + j" using le_Suc_ex by blast
    then have "word_of_nat sectors - word_of_nat k - 1 - 1 = (word_of_nat (sectors - k - 2) :: u32)" by (simp add: algebra_simps)
    moreover have "unat (word_of_nat (sectors - k - 2) :: u32) = sectors - k - 2" by (rule unat_of_nat_small) (use assms(6) in linarith)
    ultimately show ?thesis by (simp only:)
  qed
  have k: "k < sectors" "k + 1 < sectors" using assms(3-5) by linarith+
  obtain d' where d': "rbind (make_ibs (7 * k - 1) (word_of_nat 0) (lfibclear 0)
        (put_sect 0 (enc_dir (zero_dir\<lparr>lfd_nfiles := 0, lfd_dfree := word_of_nat (k + 1)\<rparr>)) d)) (\<lambda>(i, d).
      rbind (lfibput i ((lfibclear 0)\<lparr>ib_next := LF_INULL\<rparr>) d) (\<lambda>(_, d).
      rbind (make_dbs (sectors - k - 2) (word_of_nat (k + 1)) d) (\<lambda>(dbindex, d).
      rbind (ramwrite dbindex (free_block LF_DNULL) d) (\<lambda>(_, d). Ret (OK, d))))) = Ret (OK, d')" "fresh_disk k sectors d'"
    using create_steps [OF assms(3) k(1) assms(6) k(2)] by blast
  have w0: "ramwrite LF_AREA_DIR bs d = Ret (OK, put_sect 0 bs d)" for bs
    by (rule ramwrite_ok) (simp_all add: LF_AREA_DIR_def on_disk_def RM_BLKS_def)
  have one: "word_of_nat k + 1 = (word_of_nat (k + 1) :: u32)" by simp
  have "lfscreate lfiblks dsiz d = Ret (OK, d')"
    using d'(1) by (simp only: lfscreate_def Let_def s kw le n1 n2 w0 one if_False rbind.simps prod.case) (simp add: OK_def SYSERR_def)
  moreover have "lfscheck (dec_dir (sect d' 0)) = SYSERR"
    using d'(2) by (simp add: fresh_disk_def lfscheck_def zero_dir_def LFS_ID_def)
  moreover have "ramread LF_AREA_DIR d' = Ret (OK, sect d' 0)"
    by (rule ramread_ok) (simp_all add: LF_AREA_DIR_def on_disk_def RM_BLKS_def)
  ultimately show ?thesis using d'(2) by (auto simp: lfsckfmt_def OK_def SYSERR_def)
qed

theorem lfscreate_not_recognised_witness:
  "\<exists>d'. lfscreate 20 102400 (\<lambda>_. 0) = Ret (OK, d') \<and> fresh_disk 3 200 d' \<and> lfsckfmt d' = Halted"
  using lfscreate_not_recognised [of 200 102400 3 20 "\<lambda>_. 0"] by simp blast

end
