(* ===== verification/Lfs.thy ===== *)
theory Lfs
  imports Tty LfsDisk
begin

text \<open>
  Files of the local file system: the routines of \<open>device/lfs/\<close> on the directory and the open files (\<open>lfsinit.c\<close>, \<open>lflinit.c\<close>, \<open>lfgetmode.c\<close>, \<open>lfsopen.c\<close>,
  \<open>lfiballoc.c\<close>, \<open>lfdballoc.c\<close>, \<open>lfdbfree.c\<close>, \<open>lfflush.c\<close>, \<open>lfsetup.c\<close>, \<open>lflgetc.c\<close>, \<open>lflputc.c\<close>, \<open>lflread.c\<close>, \<open>lflwrite.c\<close>, \<open>lflseek.c\<close>, \<open>lftruncate.c\<close>,
  \<open>lflcontrol.c\<close>, \<open>lflclose.c\<close>).

  The directory entry of an open file is its index in the directory, the byte pointer into the data block its offset there. The mutual exclusion semaphores
  are those of the kernel; a caller that has to wait for one has no result yet (\<open>None\<close>) and goes on with the \<open>_rest\<close> routine when it runs again.
\<close>

section \<open>State\<close>

definition Nlfl :: nat where "Nlfl = 6"
definition LF_MODE_R :: int where "LF_MODE_R = 1"
definition LF_MODE_W :: int where "LF_MODE_W = 2"
definition LF_MODE_RW :: int where "LF_MODE_RW = 3"
definition LF_MODE_N :: int where "LF_MODE_N = 4"
definition LF_MODE_O :: int where "LF_MODE_O = 8"
definition LF_CTL_TRUNC :: int where "LF_CTL_TRUNC = 2"

datatype lf_state = LF_FREE | LF_USED

record lflcblk =
  lfstate :: lf_state
  lfdev :: int
  lfmutex :: int
  lfdirptr :: nat
  lfmode :: int
  lfpos :: u32
  lfname :: "u8 list"
  lfinum :: u32
  lfiblock :: lfiblk
  lfdnum :: u32
  lfdblock :: "u8 list"
  lfbyte :: nat
  lfibdirty :: bool
  lfdbdirty :: bool

text \<open>\<open>Lf_data\<close>, the open file table, the disk and the kernel.\<close>

record lfs =
  lkern :: kernel
  lf_mutex :: int
  lf_dir :: lfdir
  lf_dirpresent :: bool
  lf_dirdirty :: bool
  lfltab :: "nat \<Rightarrow> lflcblk"
  Ram :: disk

definition upd_lf :: "nat \<Rightarrow> (lflcblk \<Rightarrow> lflcblk) \<Rightarrow> lfs \<Rightarrow> lfs" where
  "upd_lf c f s = s\<lparr>lfltab := (lfltab s)(c := f (lfltab s c))\<rparr>"

definition upd_ld :: "nat \<Rightarrow> (ldentry \<Rightarrow> ldentry) \<Rightarrow> lfs \<Rightarrow> lfs" where
  "upd_ld i f s = s\<lparr>lf_dir := (lf_dir s)\<lparr>lfd_files := (lfd_files (lf_dir s))[i := f (lfd_files (lf_dir s) ! i)]\<rparr>\<rparr>"

abbreviation dir_entry :: "lfs \<Rightarrow> nat \<Rightarrow> ldentry" where
  "dir_entry s i \<equiv> lfd_files (lf_dir s) ! i"

text \<open>\<open>wait\<close> and \<open>signal\<close> on one of the mutexes; the first result says whether the caller still has the processor.\<close>

definition lf_wait :: "int \<Rightarrow> lfs \<Rightarrow> (bool \<times> lfs) result" where
  "lf_wait sem s = rbind (wait sem (lkern s)) (\<lambda>(_, k). Ret (currpid k = currpid (lkern s), s\<lparr>lkern := k\<rparr>))"

definition lf_signal :: "int \<Rightarrow> lfs \<Rightarrow> lfs result" where
  "lf_signal sem s = rbind (signal sem (lkern s)) (\<lambda>(_, k). Ret (s\<lparr>lkern := k\<rparr>))"

text \<open>Signal and return a value.\<close>

definition lf_return :: "int \<Rightarrow> int \<Rightarrow> lfs \<Rightarrow> (int option \<times> lfs) result" where
  "lf_return sem v s = rbind (lf_signal sem s) (\<lambda>s. Ret (Some v, s))"

section \<open>Disk blocks\<close>

text \<open>\<open>write(Lf_data.lf_dskdev, ...)\<close>, whose result is ignored.\<close>

definition lf_write :: "u32 \<Rightarrow> u8 list \<Rightarrow> lfs \<Rightarrow> lfs result" where
  "lf_write blk bs s = rbind (ramwrite blk bs (Ram s)) (\<lambda>(_, d). Ret (s\<lparr>Ram := d\<rparr>))"

definition write_dir :: "lfs \<Rightarrow> lfs result" where
  "write_dir s = lf_write LF_AREA_DIR (enc_dir (lf_dir s)) s"

definition lfiballoc :: "lfs \<Rightarrow> (u32 \<times> lfs) result" where
  "lfiballoc s =
    (let ibnum = lfd_ifree (lf_dir s) in
     if ibnum = LF_INULL then Halted
     else
       rbind (lfibget ibnum (Ram s)) (\<lambda>iblock.
       let s = s\<lparr>lf_dir := (lf_dir s)\<lparr>lfd_ifree := ib_next iblock\<rparr>\<rparr> in
       rbind (write_dir s) (\<lambda>s.
       Ret (ibnum, s\<lparr>lf_dirdirty := False\<rparr>))))"

definition DFILL :: u8 where "DFILL = 43"

text \<open>The buffer the block is read into is returned filled.\<close>

definition lfdballoc :: "lfs \<Rightarrow> (u32 \<times> u8 list \<times> lfs) result" where
  "lfdballoc s =
    (let dnum = lfd_dfree (lf_dir s) in
     if dnum = LF_DNULL then Halted
     else
       rbind (ramread dnum (Ram s)) (\<lambda>(r, dbuff).
       if r = SYSERR then Halted
       else
         let s = s\<lparr>lf_dir := (lf_dir s)\<lparr>lfd_dfree := dec32 dbuff\<rparr>\<rparr> in
         rbind (write_dir s) (\<lambda>s.
         Ret (dnum, replicate LF_BLKSIZ DFILL, s\<lparr>lf_dirdirty := False\<rparr>))))"

text \<open>The block goes to the disk with what the stack holds behind its first word, \<open>junk\<close>.\<close>

definition lfdbfree :: "u8 list \<Rightarrow> u32 \<Rightarrow> lfs \<Rightarrow> lfs result" where
  "lfdbfree junk dnum s =
    (let buf = enc32 (lfd_dfree (lf_dir s)) @ junk;
         s = s\<lparr>lf_dir := (lf_dir s)\<lparr>lfd_dfree := dnum\<rparr>\<rparr> in
     rbind (lf_write dnum buf s) write_dir)"

definition lfflush :: "nat \<Rightarrow> lfs \<Rightarrow> (int \<times> lfs) result" where
  "lfflush c s =
    (if lfstate (lfltab s c) = LF_FREE then Ret (SYSERR, s)
     else
       rbind (if lf_dirdirty s then rbind (write_dir s) (\<lambda>s. Ret (s\<lparr>lf_dirdirty := False\<rparr>)) else Ret s) (\<lambda>s.
       rbind (if lfdbdirty (lfltab s c) then
                rbind (lf_write (lfdnum (lfltab s c)) (lfdblock (lfltab s c)) s) (\<lambda>s. Ret (upd_lf c (\<lambda>b. b\<lparr>lfdbdirty := False\<rparr>) s))
              else Ret s) (\<lambda>s.
       rbind (if lfibdirty (lfltab s c) then
                rbind (lfibput (lfinum (lfltab s c)) (lfiblock (lfltab s c)) (Ram s)) (\<lambda>(_, d).
                Ret (upd_lf c (\<lambda>b. b\<lparr>lfibdirty := False\<rparr>) (s\<lparr>Ram := d\<rparr>)))
              else Ret s) (\<lambda>s.
       Ret (OK, s)))))"

section \<open>The block of the current position\<close>

definition read_ib :: "nat \<Rightarrow> u32 \<Rightarrow> lfs \<Rightarrow> lfs result" where
  "read_ib c ibnum s = rbind (lfibget ibnum (Ram s)) (\<lambda>ib. Ret (upd_lf c (\<lambda>b. b\<lparr>lfiblock := ib, lfinum := ibnum\<rparr>) s))"

definition setup_ib :: "nat \<Rightarrow> lfs \<Rightarrow> lfs result" where
  "setup_ib c s =
    (let b = lfltab s c; f = lfdirptr b in
     if lfinum b = LF_INULL then
       if ld_ilist (dir_entry s f) = LF_INULL then
         rbind (lfiballoc s) (\<lambda>(ibnum, s).
         let s = upd_lf c (\<lambda>b. b\<lparr>lfiblock := lfibclear 0\<rparr>) s;
             s = upd_ld f (\<lambda>e. e\<lparr>ld_ilist := ibnum\<rparr>) s
         in Ret (upd_lf c (\<lambda>b. b\<lparr>lfibdirty := True, lfinum := ibnum\<rparr>) s))
       else read_ib c (ld_ilist (dir_entry s f)) s
     else if lfpos b < ib_offset (lfiblock b) then read_ib c (ld_ilist (dir_entry s f)) s
     else Ret s)"

definition walk_step :: "nat \<Rightarrow> lfs \<Rightarrow> lfs result" where
  "walk_step c s =
    (let b = lfltab s c; ibnum = ib_next (lfiblock b) in
     rbind (if ibnum = LF_INULL then
              rbind (lfiballoc s) (\<lambda>(ibnum, s).
              let s = upd_lf c (\<lambda>b. b\<lparr>lfiblock := (lfiblock b)\<lparr>ib_next := ibnum\<rparr>\<rparr>) s in
              rbind (lfibput (lfinum (lfltab s c)) (lfiblock (lfltab s c)) (Ram s)) (\<lambda>(_, d).
              let s = s\<lparr>Ram := d\<rparr>;
                  newoffset = ib_offset (lfiblock (lfltab s c)) + LF_IDATA
              in Ret (upd_lf c (\<lambda>b. b\<lparr>lfinum := ibnum, lfiblock := lfibclear newoffset, lfibdirty := True\<rparr>) s)))
            else read_ib c ibnum s) (\<lambda>s.
     Ret (upd_lf c (\<lambda>b. b\<lparr>lfdnum := LF_DNULL\<rparr>) s)))"

partial_function (option) walk_ib :: "nat \<Rightarrow> lfs \<Rightarrow> lfs result option" where
  "walk_ib c s =
    (if (lfpos (lfltab s c) AND NOT LF_IMASK) > ib_offset (lfiblock (lfltab s c)) then
       (case walk_step c s of
          Ret s \<Rightarrow> walk_ib c s
        | Halted \<Rightarrow> Some Halted
        | Fault \<Rightarrow> Some Fault
        | Loops \<Rightarrow> Some Loops)
     else Some (Ret s))"

definition setup_db :: "nat \<Rightarrow> lfs \<Rightarrow> lfs result" where
  "setup_db c s =
    (let b = lfltab s c;
         dindex = unat (drop_bit 9 (lfpos b AND LF_IMASK));
         dnum = ib_dba (lfiblock b) ! dindex in
     rbind (if dnum = LF_DNULL then
              rbind (lfdballoc s) (\<lambda>(dnum, dblock, s).
              let s = upd_lf c (\<lambda>b. b\<lparr>lfdblock := dblock\<rparr>) s;
                  s = upd_lf c (\<lambda>b. b\<lparr>lfiblock := (lfiblock b)\<lparr>ib_dba := (ib_dba (lfiblock b))[dindex := dnum]\<rparr>\<rparr>) s
              in Ret (dnum, upd_lf c (\<lambda>b. b\<lparr>lfibdirty := True\<rparr>) s))
            else if dnum \<noteq> lfdnum b then
              rbind (ramread dnum (Ram s)) (\<lambda>(_, dblock).
              Ret (dnum, upd_lf c (\<lambda>b. b\<lparr>lfdblock := dblock, lfdbdirty := False\<rparr>) s))
            else Ret (dnum, s)) (\<lambda>(dnum, s).
     let s = upd_lf c (\<lambda>b. b\<lparr>lfdnum := dnum\<rparr>) s
     in Ret (upd_lf c (\<lambda>b. b\<lparr>lfbyte := unat (lfpos b AND LF_DMASK)\<rparr>) s)))"

definition lfsetup_rest :: "nat \<Rightarrow> lfs \<Rightarrow> lfs result" where
  "lfsetup_rest c s =
    rbind (if lfibdirty (lfltab s c) \<or> lfdbdirty (lfltab s c) then rbind (lfflush c s) (\<lambda>(_, s). Ret s) else Ret s) (\<lambda>s.
    rbind (setup_ib c s) (\<lambda>s.
    rbind (rjoin (of_loop (walk_ib c s))) (\<lambda>s.
    rbind (setup_db c s) (\<lambda>s.
    lf_signal (lf_mutex s) s))))"

definition lfsetup :: "nat \<Rightarrow> lfs \<Rightarrow> (bool \<times> lfs) result" where
  "lfsetup c s =
    rbind (lf_wait (lf_mutex s) s) (\<lambda>(runs, s).
    if runs then rbind (lfsetup_rest c s) (\<lambda>s. Ret (True, s)) else Ret (False, s))"

section \<open>Operations on an open file\<close>

text \<open>Obtain exclusive use of the file and go on.\<close>

definition with_mutex :: "(nat \<Rightarrow> lfs \<Rightarrow> (int option \<times> lfs) result) \<Rightarrow> nat \<Rightarrow> lfs \<Rightarrow> (int option \<times> lfs) result" where
  "with_mutex rest c s =
    rbind (lf_wait (lfmutex (lfltab s c)) s) (\<lambda>(runs, s). if runs then rest c s else Ret (None, s))"

text \<open>Set up the data block when the byte pointer is beyond it, and go on.\<close>

definition with_block :: "(nat \<Rightarrow> lfs \<Rightarrow> (int option \<times> lfs) result) \<Rightarrow> nat \<Rightarrow> lfs \<Rightarrow> (int option \<times> lfs) result" where
  "with_block rest c s =
    (if lfbyte (lfltab s c) \<ge> LF_BLKSIZ then
       rbind (lfsetup c s) (\<lambda>(runs, s). if runs then rest c s else Ret (None, s))
     else rest c s)"

definition lflgetc_byte :: "nat \<Rightarrow> lfs \<Rightarrow> (int option \<times> lfs) result" where
  "lflgetc_byte c s =
    (let onebyte = lfdblock (lfltab s c) ! lfbyte (lfltab s c);
         s = upd_lf c (\<lambda>b. b\<lparr>lfpos := lfpos b + 1, lfbyte := lfbyte b + 1\<rparr>) s
     in lf_return (lfmutex (lfltab s c)) (uint onebyte) s)"

definition lflgetc_rest :: "nat \<Rightarrow> lfs \<Rightarrow> (int option \<times> lfs) result" where
  "lflgetc_rest c s =
    (let b = lfltab s c in
     if lfstate b \<noteq> LF_USED then lf_return (lfmutex b) SYSERR s
     else if lfpos b \<ge> ld_size (dir_entry s (lfdirptr b)) then lf_return (lfmutex b) EOF s
     else with_block lflgetc_byte c s)"

definition lflgetc :: "nat \<Rightarrow> lfs \<Rightarrow> (int option \<times> lfs) result" where
  "lflgetc = with_mutex lflgetc_rest"

definition lflputc_byte :: "u8 \<Rightarrow> nat \<Rightarrow> lfs \<Rightarrow> (int option \<times> lfs) result" where
  "lflputc_byte ch c s =
    (let b = lfltab s c; f = lfdirptr b;
         s = (if lfpos b \<ge> ld_size (dir_entry s f)
              then (upd_ld f (\<lambda>e. e\<lparr>ld_size := ld_size e + 1\<rparr>) s)\<lparr>lf_dirdirty := True\<rparr> else s);
         s = upd_lf c (\<lambda>b. b\<lparr>lfpos := lfpos b + 1, lfdblock := (lfdblock b)[lfbyte b := ch], lfbyte := lfbyte b + 1, lfdbdirty := True\<rparr>) s
     in lf_return (lfmutex (lfltab s c)) OK s)"

definition lflputc_rest :: "u8 \<Rightarrow> nat \<Rightarrow> lfs \<Rightarrow> (int option \<times> lfs) result" where
  "lflputc_rest ch c s =
    (let b = lfltab s c in
     if lfstate b \<noteq> LF_USED then lf_return (lfmutex b) SYSERR s
     else if lfpos b > ld_size (dir_entry s (lfdirptr b)) then lf_return (lfmutex b) SYSERR s
     else with_block (lflputc_byte ch) c s)"

definition lflputc :: "u8 \<Rightarrow> nat \<Rightarrow> lfs \<Rightarrow> (int option \<times> lfs) result" where
  "lflputc ch = with_mutex (lflputc_rest ch)"

definition lflseek_rest :: "u32 \<Rightarrow> nat \<Rightarrow> lfs \<Rightarrow> (int option \<times> lfs) result" where
  "lflseek_rest offset c s =
    (let b = lfltab s c in
     if lfstate b \<noteq> LF_USED then lf_return (lfmutex b) SYSERR s
     else if offset > ld_size (dir_entry s (lfdirptr b)) then lf_return (lfmutex b) SYSERR s
     else lf_return (lfmutex b) OK (upd_lf c (\<lambda>b. b\<lparr>lfpos := offset, lfbyte := LF_BLKSIZ\<rparr>) s))"

definition lflseek :: "u32 \<Rightarrow> nat \<Rightarrow> lfs \<Rightarrow> (int option \<times> lfs) result" where
  "lflseek offset = with_mutex (lflseek_rest offset)"

definition lflclose_rest :: "nat \<Rightarrow> lfs \<Rightarrow> (int option \<times> lfs) result" where
  "lflclose_rest c s =
    (let b = lfltab s c in
     if lfstate b \<noteq> LF_USED then lf_return (lfmutex b) SYSERR s
     else
       rbind (if lf_dirdirty s \<or> lfdbdirty b \<or> lfibdirty b then rbind (lfflush c s) (\<lambda>(_, s). Ret s) else Ret s) (\<lambda>s.
       lf_return (lfmutex b) OK (upd_lf c (\<lambda>b. b\<lparr>lfstate := LF_FREE\<rparr>) s)))"

definition lflclose :: "nat \<Rightarrow> lfs \<Rightarrow> (int option \<times> lfs) result" where
  "lflclose = with_mutex lflclose_rest"

text \<open>Reading stores the bytes \<open>acc\<close>; no value when the caller waits within the loop.\<close>

fun lflread_loop :: "nat \<Rightarrow> u8 list \<Rightarrow> nat \<Rightarrow> lfs \<Rightarrow> (int option \<times> u8 list \<times> lfs) result" where
  "lflread_loop 0 acc c s = Ret (Some (int (length acc)), acc, s)"
| "lflread_loop (Suc n) acc c s =
    rbind (lflgetc c s) (\<lambda>(r, s).
    case r of
      None \<Rightarrow> Ret (None, acc, s)
    | Some nxtbyte \<Rightarrow>
        if nxtbyte = SYSERR then Ret (Some SYSERR, acc, s)
        else if nxtbyte = EOF then Ret (Some (if acc = [] then EOF else int (length acc)), acc, s)
        else lflread_loop n (acc @ [word_of_int nxtbyte]) c s)"

definition lflread :: "int \<Rightarrow> nat \<Rightarrow> lfs \<Rightarrow> (int option \<times> u8 list \<times> lfs) result" where
  "lflread cnt c s = (if cnt < 0 then Ret (Some SYSERR, [], s) else lflread_loop (nat cnt) [] c s)"

fun lflwrite_loop :: "nat \<Rightarrow> nat \<Rightarrow> buf \<Rightarrow> nat \<Rightarrow> lfs \<Rightarrow> (int option \<times> lfs) result" where
  "lflwrite_loop 0 i buff c s = Ret (Some (int i), s)"
| "lflwrite_loop (Suc n) i buff c s =
    rbind (lflputc (buff i) c s) (\<lambda>(r, s).
    case r of
      None \<Rightarrow> Ret (None, s)
    | Some v \<Rightarrow> if v = SYSERR then Ret (Some SYSERR, s) else lflwrite_loop n (i + 1) buff c s)"

definition lflwrite :: "buf \<Rightarrow> int \<Rightarrow> nat \<Rightarrow> lfs \<Rightarrow> (int option \<times> lfs) result" where
  "lflwrite buff cnt c s = (if cnt < 0 then Ret (Some SYSERR, s) else lflwrite_loop (nat cnt) 0 buff c s)"

section \<open>Truncation\<close>

fun free_dbs :: "u8 list \<Rightarrow> u32 list \<Rightarrow> lfs \<Rightarrow> lfs result" where
  "free_dbs junk [] s = Ret s"
| "free_dbs junk (nextdb # ds) s =
    rbind (if nextdb \<noteq> LF_DNULL then lfdbfree junk nextdb s else Ret s) (free_dbs junk ds)"

text \<open>One index block of the file is cleared; the last one is linked to the free list.\<close>

definition trunc_ib :: "u8 list \<Rightarrow> u32 \<Rightarrow> u32 \<Rightarrow> lfs \<Rightarrow> (u32 \<times> lfs) result" where
  "trunc_ib junk ifree nextib s =
    rbind (lfibget nextib (Ram s)) (\<lambda>iblock.
    rbind (free_dbs junk (ib_dba iblock) s) (\<lambda>s.
    let iblock = iblock\<lparr>ib_dba := replicate LF_IBLEN LF_DNULL, ib_offset := 0\<rparr>;
        iblock = (if ib_next iblock = LF_INULL then iblock\<lparr>ib_next := ifree\<rparr> else iblock) in
    rbind (lfibput nextib iblock (Ram s)) (\<lambda>(_, d).
    Ret (ib_next iblock, s\<lparr>Ram := d\<rparr>))))"

partial_function (option) trunc_loop :: "u8 list \<Rightarrow> u32 \<Rightarrow> u32 \<Rightarrow> lfs \<Rightarrow> lfs result option" where
  "trunc_loop junk ifree nextib s =
    (if nextib \<noteq> ifree then
       (case trunc_ib junk ifree nextib s of
          Ret x \<Rightarrow> trunc_loop junk ifree (fst x) (snd x)
        | Halted \<Rightarrow> Some Halted
        | Fault \<Rightarrow> Some Fault
        | Loops \<Rightarrow> Some Loops)
     else Some (Ret s))"

definition lftruncate :: "u8 list \<Rightarrow> nat \<Rightarrow> lfs \<Rightarrow> (int \<times> lfs) result" where
  "lftruncate junk c s =
    (let f = lfdirptr (lfltab s c) in
     if ld_size (dir_entry s f) = 0 then Ret (OK, s)
     else
       rbind (if lfibdirty (lfltab s c) \<or> lfdbdirty (lfltab s c) then rbind (lfflush c s) (\<lambda>(_, s). Ret s) else Ret s) (\<lambda>s.
       let s = upd_lf c (\<lambda>b. b\<lparr>lfpos := 0, lfinum := LF_INULL, lfdnum := LF_DNULL, lfbyte := LF_BLKSIZ\<rparr>) s;
           ifree = lfd_ifree (lf_dir s);
           firstib = ld_ilist (dir_entry s f);
           s = (upd_ld f (\<lambda>e. e\<lparr>ld_size := 0, ld_ilist := LF_INULL\<rparr>) s)\<lparr>lf_dirdirty := True\<rparr> in
       rbind (rjoin (of_loop (trunc_loop junk ifree firstib s))) (\<lambda>s.
       Ret (OK, s\<lparr>lf_dir := (lf_dir s)\<lparr>lfd_ifree := firstib\<rparr>, lf_dirdirty := True\<rparr>))))"

definition trunc_locked :: "u8 list \<Rightarrow> nat \<Rightarrow> lfs \<Rightarrow> (int option \<times> lfs) result" where
  "trunc_locked junk c s =
    rbind (lftruncate junk c s) (\<lambda>(retval, s).
    rbind (lf_signal (lf_mutex s) s) (\<lambda>s.
    lf_return (lfmutex (lfltab s c)) retval s))"

definition lflcontrol_rest :: "u8 list \<Rightarrow> int \<Rightarrow> nat \<Rightarrow> lfs \<Rightarrow> (int option \<times> lfs) result" where
  "lflcontrol_rest junk func c s =
    (if lfstate (lfltab s c) \<noteq> LF_USED then lf_return (lfmutex (lfltab s c)) SYSERR s
     else if func = LF_CTL_TRUNC then
       rbind (lf_wait (lf_mutex s) s) (\<lambda>(runs, s). if runs then trunc_locked junk c s else Ret (None, s))
     else lf_return (lfmutex (lfltab s c)) SYSERR s)"

definition lflcontrol :: "u8 list \<Rightarrow> int \<Rightarrow> nat \<Rightarrow> lfs \<Rightarrow> (int option \<times> lfs) result" where
  "lflcontrol junk func = with_mutex (lflcontrol_rest junk func)"

section \<open>Opening a file\<close>

definition lfsinit :: "lfs \<Rightarrow> int \<times> lfs" where
  "lfsinit s =
    (case semcreate 1 (lkern s) of (sem, k) \<Rightarrow>
     (OK, s\<lparr>lkern := k, lf_mutex := sem, lf_dir := zero_dir, lf_dirpresent := False, lf_dirdirty := False\<rparr>))"

text \<open>No entry of the directory has the index that stands for the null pointer.\<close>

definition lflinit :: "nat \<Rightarrow> int \<Rightarrow> lfs \<Rightarrow> int \<times> lfs" where
  "lflinit minor dev s =
    (case semcreate 1 (lkern s) of (sem, k) \<Rightarrow>
     (OK, upd_lf minor (\<lambda>b. b\<lparr>lfstate := LF_FREE, lfdev := dev, lfmutex := sem, lfdirptr := LF_NUM_DIR_ENT, lfpos := 0,
       lfname := replicate LF_NAME_LEN 0, lfinum := LF_INULL, lfiblock := \<lparr>ib_next = 0, ib_offset = 0, ib_dba = replicate LF_IBLEN 0\<rparr>,
       lfdnum := 0, lfdblock := replicate LF_BLKSIZ 0, lfbyte := LF_BLKSIZ, lfibdirty := False, lfdbdirty := False\<rparr>) (s\<lparr>lkern := k\<rparr>)))"

partial_function (option) getmode_loop :: "buf \<Rightarrow> nat \<Rightarrow> int \<Rightarrow> int option" where
  "getmode_loop mode i mbits =
    (let ch = mode i in
     if ch = 0 then Some (if mbits AND LF_MODE_RW = 0 then mbits OR LF_MODE_RW else mbits)
     else if ch = 114 then if mbits AND LF_MODE_R \<noteq> 0 then Some SYSERR else getmode_loop mode (i + 1) (mbits OR LF_MODE_R)
     else if ch = 119 then if mbits AND LF_MODE_W \<noteq> 0 then Some SYSERR else getmode_loop mode (i + 1) (mbits OR LF_MODE_W)
     else if ch = 111 then
       if mbits AND LF_MODE_O \<noteq> 0 \<or> mbits AND LF_MODE_N \<noteq> 0 then Some SYSERR else getmode_loop mode (i + 1) (mbits OR LF_MODE_O)
     else if ch = 110 then
       if mbits AND LF_MODE_O \<noteq> 0 \<or> mbits AND LF_MODE_N \<noteq> 0 then Some SYSERR else getmode_loop mode (i + 1) (mbits OR LF_MODE_N)
     else Some SYSERR)"

definition lfgetmode :: "buf \<Rightarrow> int option" where
  "lfgetmode mode = getmode_loop mode 0 0"

fun name_length :: "nat \<Rightarrow> nat \<Rightarrow> buf \<Rightarrow> nat" where
  "name_length 0 i name = i"
| "name_length (Suc n) i name = (if name i = 0 then i else name_length n (i + 1) name)"

partial_function (option) same_file :: "buf \<Rightarrow> u8 list \<Rightarrow> nat \<Rightarrow> bool option" where
  "same_file nam cmp i =
    (if nam i \<noteq> 0 then if nam i \<noteq> cmp ! i then Some False else same_file nam cmp (i + 1)
     else Some (cmp ! i = 0))"

text \<open>The first free entry, or \<open>None\<close> when the file is open already.\<close>

fun scan_open :: "nat \<Rightarrow> nat \<Rightarrow> buf \<Rightarrow> int \<Rightarrow> lfs \<Rightarrow> int option result" where
  "scan_open 0 i name lfnext s = Ret (Some lfnext)"
| "scan_open (Suc n) i name lfnext s =
    (if lfstate (lfltab s i) = LF_FREE then scan_open n (i + 1) name (if lfnext = SYSERR then int i else lfnext) s
     else
       rbind (of_loop (same_file name (lfname (lfltab s i)) 0)) (\<lambda>same.
       if same then Ret None else scan_open n (i + 1) name lfnext s))"

fun find_file :: "nat \<Rightarrow> nat \<Rightarrow> buf \<Rightarrow> lfdir \<Rightarrow> nat option result" where
  "find_file 0 i name dir = Ret None"
| "find_file (Suc n) i name dir =
    (if i \<ge> LF_NUM_DIR_ENT then Fault
     else
       rbind (of_loop (same_file name (ld_name (lfd_files dir ! i)) 0)) (\<lambda>same.
       if same then Ret (Some i) else find_file n (i + 1) name dir))"

text \<open>The name has its null byte within the array, so the copy ends there.\<close>

fun copy_name :: "nat \<Rightarrow> nat \<Rightarrow> buf \<Rightarrow> u8 list \<Rightarrow> u8 list" where
  "copy_name 0 i from to = to"
| "copy_name (Suc n) i from to =
    (let to = to[i := from i] in if from i = 0 then to else copy_name n (i + 1) from to)"

definition open_slot :: "nat \<Rightarrow> nat \<Rightarrow> int \<Rightarrow> buf \<Rightarrow> lfs \<Rightarrow> (int option \<times> lfs) result" where
  "open_slot c f mbits name s =
    (let s = upd_lf c (\<lambda>b. b\<lparr>lfstate := LF_USED, lfdirptr := f, lfmode := mbits AND LF_MODE_RW, lfpos := 0,
           lfname := copy_name LF_NAME_LEN 0 name (lfname b), lfinum := LF_INULL, lfdnum := LF_DNULL, lfbyte := LF_BLKSIZ,
           lfibdirty := False, lfdbdirty := False\<rparr>) s
     in rbind (lf_signal (lf_mutex s) s) (\<lambda>s. Ret (Some (lfdev (lfltab s c)), s)))"

definition add_entry :: "buf \<Rightarrow> lfs \<Rightarrow> nat \<times> lfs" where
  "add_entry name s =
    (let f = unat (lfd_nfiles (lf_dir s));
         s = s\<lparr>lf_dir := (lf_dir s)\<lparr>lfd_nfiles := lfd_nfiles (lf_dir s) + 1\<rparr>\<rparr>;
         s = upd_ld f (\<lambda>e. e\<lparr>ld_size := 0, ld_name := copy_name LF_NAME_LEN 0 name (ld_name e), ld_ilist := LF_INULL\<rparr>) s
     in (f, s))"

definition lfsopen_search :: "buf \<Rightarrow> int \<Rightarrow> nat \<Rightarrow> lfs \<Rightarrow> (int option \<times> lfs) result" where
  "lfsopen_search name mbits c s =
    rbind (find_file (nat (sint (lfd_nfiles (lf_dir s)))) 0 name (lf_dir s)) (\<lambda>found.
    case found of
      None \<Rightarrow>
        if mbits AND LF_MODE_O \<noteq> 0 then lf_return (lf_mutex s) SYSERR s
        else if sint (lfd_nfiles (lf_dir s)) \<ge> int LF_NUM_DIR_ENT then lf_return (lf_mutex s) SYSERR s
        else (case add_entry name s of (f, s) \<Rightarrow> open_slot c f mbits name s)
    | Some f \<Rightarrow>
        if mbits AND LF_MODE_N \<noteq> 0 then lf_return (lf_mutex s) SYSERR s
        else open_slot c f mbits name s)"

definition lfsopen_rest :: "buf \<Rightarrow> int \<Rightarrow> nat \<Rightarrow> lfs \<Rightarrow> (int option \<times> lfs) result" where
  "lfsopen_rest name mbits c s =
    (if lf_dirpresent s then lfsopen_search name mbits c s
     else
       rbind (ramread LF_AREA_DIR (Ram s)) (\<lambda>(retval, bs).
       let s = s\<lparr>lf_dir := dec_dir bs\<rparr> in
       if retval = SYSERR then lf_return (lf_mutex s) SYSERR s
       else if lfscheck (lf_dir s) = SYSERR then lf_return (lf_mutex s) SYSERR s
       else lfsopen_search name mbits c (s\<lparr>lf_dirpresent := True\<rparr>)))"

definition lfsopen :: "buf \<Rightarrow> buf \<Rightarrow> lfs \<Rightarrow> (int option \<times> lfs) result" where
  "lfsopen name mode s =
    (if name_length LF_NAME_LEN 0 name \<ge> LF_NAME_LEN then Ret (Some SYSERR, s)
     else
       rbind (of_loop (lfgetmode mode)) (\<lambda>mbits.
       if mbits = SYSERR then Ret (Some SYSERR, s)
       else
         rbind (scan_open Nlfl 0 name SYSERR s) (\<lambda>slot.
         case slot of
           None \<Rightarrow> Ret (Some SYSERR, s)
         | Some lfnext \<Rightarrow>
             if lfnext = SYSERR then Ret (Some SYSERR, s)
             else
               rbind (lf_wait (lf_mutex s) s) (\<lambda>(runs, s).
               if runs then lfsopen_rest name mbits (nat lfnext) s else Ret (None, s)))))"

end
