(* ===== verification/LfsFile.thy ===== *)
theory LfsFile
  imports Lfs
begin

text \<open>
  Correctness of the files of the local file system. An open file is a sequence of bytes with a position; the theory relates it to the index and data blocks,
  the two blocks an open file keeps in memory, the directory and the free lists, and shows that reading, writing, seeking, truncating and closing implement the
  operations on the sequence.
\<close>

section \<open>States that differ in one file\<close>

text \<open>The state with control block \<open>b\<close> for file \<open>c\<close>, the disk, the directory and its dirty flag replaced.\<close>

definition put :: "lfs \<Rightarrow> nat \<Rightarrow> lflcblk \<Rightarrow> disk \<Rightarrow> lfdir \<Rightarrow> bool \<Rightarrow> lfs" where
  "put s c b d r x = s\<lparr>lfltab := (lfltab s)(c := b), Ram := d, lf_dir := r, lf_dirdirty := x\<rparr>"

lemma put_sel [simp]:
  "lfltab (put s c b d r x) = (lfltab s)(c := b)" "Ram (put s c b d r x) = d" "lf_dir (put s c b d r x) = r"
  "lf_dirdirty (put s c b d r x) = x" "lkern (put s c b d r x) = lkern s" "lf_mutex (put s c b d r x) = lf_mutex s"
  "lf_dirpresent (put s c b d r x) = lf_dirpresent s"
  by (simp_all add: put_def)

lemma put_upd [simp]:
  "upd_lf c f (put s c b d r x) = put s c (f b) d r x"
  "(put s c b d r x)\<lparr>Ram := d'\<rparr> = put s c b d' r x"
  "(put s c b d r x)\<lparr>lf_dir := r'\<rparr> = put s c b d r' x"
  "(put s c b d r x)\<lparr>lf_dirdirty := x'\<rparr> = put s c b d r x'"
  "(put s c b d r x)\<lparr>lkern := k\<rparr> = put (s\<lparr>lkern := k\<rparr>) c b d r x"
  "upd_ld i g (put s c b d r x) = put s c b d (r\<lparr>lfd_files := (lfd_files r)[i := g (lfd_files r ! i)]\<rparr>) x"
  "put (put s c b d r x) c b' d' r' x' = put s c b' d' r' x'"
  by (simp_all add: put_def upd_lf_def upd_ld_def)

lemma put_id: "s = put s c (lfltab s c) (Ram s) (lf_dir s) (lf_dirdirty s)"
  by (simp add: put_def)

section \<open>Linked blocks\<close>

definition first :: "nat list \<Rightarrow> u32" where
  "first l = (case l of [] \<Rightarrow> -1 | n # _ \<Rightarrow> word_of_nat n)"

primrec linked :: "(nat \<Rightarrow> u32) \<Rightarrow> nat list \<Rightarrow> bool" where
  "linked nx [] \<longleftrightarrow> True"
| "linked nx (n # l) \<longleftrightarrow> nx n = first l \<and> linked nx l"

lemma first_simps [simp]: "first [] = -1" "first (n # l) = word_of_nat n"
  by (simp_all add: first_def)

lemma linked_cong: "(\<And>n. n \<in> set l \<Longrightarrow> f n = g n) \<Longrightarrow> linked f l = linked g l"
  by (induction l) auto

lemma block_word_null [simp]: "n < 4294967295 \<Longrightarrow> (word_of_nat n :: u32) \<noteq> -1" "n < 4294967295 \<Longrightarrow> -1 \<noteq> (word_of_nat n :: u32)"
proof -
  assume n: "n < 4294967295"
  then have "unat (word_of_nat n :: u32) = n" by (intro unat_of_nat_small) simp
  moreover have "unat (-1 :: u32) = 4294967295" using unat_USYSERR by (simp add: USYSERR_def)
  ultimately have "unat (word_of_nat n :: u32) \<noteq> unat (-1 :: u32)" using n by linarith
  then show "(word_of_nat n :: u32) \<noteq> -1" "-1 \<noteq> (word_of_nat n :: u32)" by auto
qed

lemma block_word [simp]: "n < 4294967295 \<Longrightarrow> m < 4294967295 \<Longrightarrow> (word_of_nat n :: u32) = word_of_nat m \<longleftrightarrow> n = m"
proof -
  assume "n < 4294967295" "m < 4294967295"
  then have "unat (word_of_nat n :: u32) = n" "unat (word_of_nat m :: u32) = m" by (simp_all add: unat_of_nat_small)
  then show ?thesis by metis
qed

section \<open>The representation of an open file\<close>

text \<open>The blocks as the file sees them: those in memory are newer than those on the disk.\<close>

definition ibv :: "lflcblk \<Rightarrow> disk \<Rightarrow> nat \<Rightarrow> lfiblk" where
  "ibv b d n = (if lfinum b = word_of_nat n then lfiblock b else disk_ib d n)"

definition dbv :: "lflcblk \<Rightarrow> disk \<Rightarrow> nat \<Rightarrow> u8 list" where
  "dbv b d m = (if lfdnum b = word_of_nat m then lfdblock b else sect d m)"

text \<open>Index block \<open>j\<close> of a file with index blocks \<open>ns\<close> and data blocks \<open>bs\<close>.\<close>

definition mk_ib :: "nat list \<Rightarrow> nat list \<Rightarrow> nat \<Rightarrow> lfiblk" where
  "mk_ib ns bs j = \<lparr>ib_next = first (drop (Suc j) ns), ib_offset = word_of_nat (8192 * j),
    ib_dba = map (\<lambda>i. if 16 * j + i < length bs then word_of_nat (bs ! (16 * j + i)) else LF_DNULL) [0..<LF_IBLEN]\<rparr>"

text \<open>Index blocks are in the sectors below \<open>ds\<close>, data blocks in the others; no block is used twice.\<close>

definition geometry :: "nat \<Rightarrow> nat list \<Rightarrow> nat list \<Rightarrow> nat list \<Rightarrow> nat list \<Rightarrow> bool" where
  "geometry ds ns bs ifl dfl \<longleftrightarrow> 1 \<le> ds \<and> ds \<le> RM_BLKS \<and> (\<forall>n \<in> set ns \<union> set ifl. n < 7 * (ds - 1)) \<and>
    (\<forall>m \<in> set bs \<union> set dfl. ds \<le> m \<and> m < RM_BLKS) \<and> distinct (ns @ ifl) \<and> distinct (bs @ dfl)"

definition cached :: "lflcblk \<Rightarrow> disk \<Rightarrow> nat list \<Rightarrow> nat list \<Rightarrow> bool" where
  "cached b d ns bs \<longleftrightarrow>
    (lfinum b = -1 \<and> \<not> lfibdirty b \<or> (\<exists>n \<in> set ns. lfinum b = word_of_nat n \<and> (\<not> lfibdirty b \<longrightarrow> disk_ib d n = lfiblock b))) \<and>
    (lfdnum b = -1 \<and> \<not> lfdbdirty b \<or> (\<exists>m \<in> set bs. lfdnum b = word_of_nat m \<and> (\<not> lfdbdirty b \<longrightarrow> sect d m = lfdblock b))) \<and>
    length (lfdblock b) = 512"

definition file_inv :: "nat \<Rightarrow> lflcblk \<Rightarrow> disk \<Rightarrow> lfdir \<Rightarrow> nat list \<Rightarrow> nat list \<Rightarrow> nat list \<Rightarrow> nat list \<Rightarrow> bool" where
  "file_inv ds b d r ns bs ifl dfl \<longleftrightarrow> geometry ds ns bs ifl dfl \<and> dir_ok r \<and> lfdirptr b < LF_NUM_DIR_ENT \<and> lfstate b = LF_USED \<and>
    ld_ilist (lfd_files r ! lfdirptr b) = first ns \<and> length bs \<le> 16 * length ns \<and>
    (\<forall>j < length ns. ibv b d (ns ! j) = mk_ib ns bs j) \<and> cached b d ns bs \<and>
    lfd_ifree r = first ifl \<and> linked (\<lambda>n. ib_next (disk_ib d n)) ifl \<and>
    lfd_dfree r = first dfl \<and> linked (\<lambda>m. dec32 (sect d m)) dfl"

text \<open>What a step on the file leaves alone: other blocks, other directory entries, the contents of the blocks and the position.\<close>

definition disk_frame :: "nat \<Rightarrow> nat set \<Rightarrow> nat set \<Rightarrow> disk \<Rightarrow> disk \<Rightarrow> bool" where
  "disk_frame ds I B d d' \<longleftrightarrow> (\<forall>n. n < 7 * (ds - 1) \<and> n \<notin> I \<longrightarrow> disk_ib d' n = disk_ib d n) \<and>
    (\<forall>m. ds \<le> m \<and> m < RM_BLKS \<and> m \<notin> B \<longrightarrow> sect d' m = sect d m)"

definition dir_head :: "lfdir \<Rightarrow> u32 list" where
  "dir_head r = [lfd_fsysid r, lfd_nfiles r, ucast (lfd_vers r), ucast (lfd_subvers r), lfd_allzeros r, lfd_allones r, lfd_revid r]"

lemma dir_head_upd [simp]:
  "dir_head (r\<lparr>lfd_ifree := n\<rparr>) = dir_head r" "dir_head (r\<lparr>lfd_dfree := n\<rparr>) = dir_head r" "dir_head (r\<lparr>lfd_files := fs\<rparr>) = dir_head r"
  by (simp_all add: dir_head_def)

definition dir_frame :: "nat \<Rightarrow> lfdir \<Rightarrow> lfdir \<Rightarrow> bool" where
  "dir_frame f r r' \<longleftrightarrow> dir_head r' = dir_head r \<and> (\<forall>g. g \<noteq> f \<longrightarrow> lfd_files r' ! g = lfd_files r ! g) \<and>
    ld_name (lfd_files r' ! f) = ld_name (lfd_files r ! f) \<and> ld_size (lfd_files r' ! f) = ld_size (lfd_files r ! f)"

definition evolves :: "nat \<Rightarrow> nat list \<Rightarrow> nat list \<Rightarrow> nat list \<Rightarrow> nat list \<Rightarrow>
    lflcblk \<times> disk \<times> lfdir \<Rightarrow> lflcblk \<times> disk \<times> lfdir \<Rightarrow> bool" where
  "evolves ds ns bs ifl dfl x y \<longleftrightarrow> (case (x, y) of ((b, d, r), (b', d', r')) \<Rightarrow>
    disk_frame ds (set ns \<union> set ifl) (set bs \<union> set dfl) d d' \<and> dir_frame (lfdirptr b) r r' \<and>
    (\<forall>m \<in> set bs. dbv b' d' m = dbv b d m) \<and>
    lfpos b' = lfpos b \<and> lfdirptr b' = lfdirptr b \<and> lfmutex b' = lfmutex b \<and> lfdev b' = lfdev b \<and> lfname b' = lfname b)"

lemma evolves_refl: "evolves ds ns bs ifl dfl x x"
  by (auto simp: evolves_def disk_frame_def dir_frame_def split: prod.splits)

lemma evolves_trans:
  assumes "evolves ds ns bs ifl dfl x y" "evolves ds ns' bs' ifl' dfl' y z"
    "set ns' \<union> set ifl' = set ns \<union> set ifl" "set bs' \<union> set dfl' = set bs \<union> set dfl" "set bs \<subseteq> set bs'"
  shows "evolves ds ns bs ifl dfl x z"
  using assms by (auto simp: evolves_def disk_frame_def dir_frame_def subset_iff split: prod.splits)

section \<open>Writing blocks\<close>

text \<open>A block number of the file system as a word.\<close>

lemma geometry_index:
  assumes "geometry ds ns bs ifl dfl" "n \<in> set ns \<union> set ifl"
  shows "n < 4294967295" and "unat (word_of_nat n :: u32) = n" and "on_disk (n div 7 + 1)" and "n div 7 + 1 < ds" and "n < 7 * (ds - 1)"
proof -
  show n: "n < 7 * (ds - 1)" using assms unfolding geometry_def by blast
  have ds: "1 \<le> ds" "ds \<le> 200" using assms by (auto simp: geometry_def RM_BLKS_def)
  then show m: "n < 4294967295" using n by simp
  then show "unat (word_of_nat n :: u32) = n" by (intro unat_of_nat_small) simp
  show "n div 7 + 1 < ds" using n ds by (simp add: less_mult_imp_div_less mult.commute less_diff_conv)
  then show "on_disk (n div 7 + 1)" using ds by (simp add: on_disk_def RM_BLKS_def)
qed

lemma geometry_data:
  assumes "geometry ds ns bs ifl dfl" "m \<in> set bs \<union> set dfl"
  shows "m < 4294967295" and "unat (word_of_nat m :: u32) = m" and "on_disk m" and "ds \<le> m" and "m < RM_BLKS" and "m \<noteq> 0"
proof -
  show m: "ds \<le> m" "m < RM_BLKS" using assms by (auto simp: geometry_def)
  then show k: "m < 4294967295" by (simp add: RM_BLKS_def)
  then show "unat (word_of_nat m :: u32) = m" by (intro unat_of_nat_small) simp
  show "on_disk m" using m by (simp add: on_disk_def)
  show "m \<noteq> 0" using m assms(1) by (auto simp: geometry_def)
qed

text \<open>Nothing of a file depends on more than its blocks and those of the free lists.\<close>

lemma file_inv_disk:
  assumes "file_inv ds b d r ns bs ifl dfl" "\<And>n. n < 7 * (ds - 1) \<Longrightarrow> disk_ib d' n = disk_ib d n"
    "\<And>m. ds \<le> m \<Longrightarrow> m < RM_BLKS \<Longrightarrow> sect d' m = sect d m"
  shows "file_inv ds b d' r ns bs ifl dfl" and "m \<in> set bs \<union> set dfl \<Longrightarrow> dbv b d' m = dbv b d m"
proof -
  have g: "geometry ds ns bs ifl dfl" using assms(1) by (simp add: file_inv_def)
  have i: "disk_ib d' n = disk_ib d n" if "n \<in> set ns \<union> set ifl" for n using geometry_index(5) [OF g that] assms(2) by blast
  have m: "sect d' m = sect d m" if "m \<in> set bs \<union> set dfl" for m using geometry_data [OF g that] assms(3) by blast
  have "linked (\<lambda>n. ib_next (disk_ib d' n)) ifl = linked (\<lambda>n. ib_next (disk_ib d n)) ifl" by (rule linked_cong) (simp add: i)
  moreover have "linked (\<lambda>m. dec32 (sect d' m)) dfl = linked (\<lambda>m. dec32 (sect d m)) dfl" by (rule linked_cong) (simp add: m)
  moreover have "cached b d' ns bs = cached b d ns bs" using i m by (auto simp: cached_def)
  moreover have "ibv b d' (ns ! j) = ibv b d (ns ! j)" if "j < length ns" for j using i that by (simp add: ibv_def)
  ultimately show "file_inv ds b d' r ns bs ifl dfl" using assms(1) by (simp add: file_inv_def)
  show "dbv b d' m = dbv b d m" if "m \<in> set bs \<union> set dfl" using m [OF that] by (simp add: dbv_def)
qed

lemma write_dir_put:
  assumes "dir_ok r"
  shows "write_dir (put s c b d r x) = Ret (put s c b (put_sect 0 (enc_dir r) d) r x)"
proof -
  have "ramwrite LF_AREA_DIR (enc_dir r) d = Ret (OK, put_sect 0 (enc_dir r) d)"
    by (rule ramwrite_ok) (simp_all add: LF_AREA_DIR_def on_disk_def RM_BLKS_def)
  then show ?thesis by (simp add: write_dir_def lf_write_def)
qed

lemma put_dir_sector:
  assumes "dir_ok r" "1 \<le> ds"
  shows "disk_ib (put_sect 0 (enc_dir r) d) n = disk_ib d n" and "ds \<le> m \<Longrightarrow> sect (put_sect 0 (enc_dir r) d) m = sect d m"
  using assms dec_dir_enc(2) [OF assms(1)] by (simp_all add: disk_ib_put_sect sect_put)

lemma put_data_sector:
  assumes "geometry ds ns bs ifl dfl" "m \<in> set bs \<union> set dfl" "length z = 512"
  shows "n < 7 * (ds - 1) \<Longrightarrow> disk_ib (put_sect m z d) n = disk_ib d n" and "sect (put_sect m z d) k = (if k = m then z else sect d k)"
proof -
  have "ds \<le> m" by (rule geometry_data(4) [OF assms(1,2)])
  moreover assume "n < 7 * (ds - 1)"
  then have "n div 7 + 1 < ds" using assms(1) by (simp add: less_mult_imp_div_less mult.commute less_diff_conv geometry_def)
  ultimately show "disk_ib (put_sect m z d) n = disk_ib d n" using assms(3) by (intro disk_ib_put_sect) auto
qed (rule sect_put [OF assms(3)])

lemma mk_ib_length [simp]: "length (ib_dba (mk_ib ns bs j)) = LF_IBLEN"
  by (simp add: mk_ib_def)

lemma cached_index:
  assumes "file_inv ds b d r ns bs ifl dfl" "lfinum b \<noteq> -1"
  obtains j where "j < length ns" "lfinum b = word_of_nat (ns ! j)" "lfiblock b = mk_ib ns bs j" "\<not> lfibdirty b \<Longrightarrow> disk_ib d (ns ! j) = lfiblock b"
proof -
  obtain n where n: "n \<in> set ns" "lfinum b = word_of_nat n" "\<not> lfibdirty b \<longrightarrow> disk_ib d n = lfiblock b"
    using assms by (auto simp: file_inv_def cached_def)
  then obtain j where j: "j < length ns" "n = ns ! j" by (auto simp: in_set_conv_nth)
  have "ibv b d (ns ! j) = mk_ib ns bs j" using assms(1) j by (simp add: file_inv_def)
  then show ?thesis using that [of j] n j by (simp add: ibv_def)
qed

lemma put_index_block:
  assumes "geometry ds ns bs ifl dfl" "n \<in> set ns \<union> set ifl" "length (ib_dba ib) = LF_IBLEN"
  shows "disk_ib (put_ib n ib d) k = (if k = n then ib else disk_ib d k)" and "ds \<le> m \<Longrightarrow> sect (put_ib n ib d) m = sect d m"
proof -
  show "disk_ib (put_ib n ib d) k = (if k = n then ib else disk_ib d k)" by (rule disk_ib_put [OF assms(3)])
  assume "ds \<le> m"
  then show "sect (put_ib n ib d) m = sect d m" using geometry_index(4) [OF assms(1,2)] by (intro sect_put_ib [OF assms(3)]) auto
qed

section \<open>Flushing\<close>

lemma flush_db_inv:
  assumes inv: "file_inv ds b d r ns bs ifl dfl" and dirty: "lfdbdirty b"
  obtains m where "m \<in> set bs" "lfdnum b = word_of_nat m"
    "file_inv ds (b\<lparr>lfdbdirty := False\<rparr>) (put_sect m (lfdblock b) d) r ns bs ifl dfl"
    "evolves ds ns bs ifl dfl (b, d, r) (b\<lparr>lfdbdirty := False\<rparr>, put_sect m (lfdblock b) d, r)"
proof -
  have g: "geometry ds ns bs ifl dfl" and len: "length (lfdblock b) = 512" using inv by (auto simp: file_inv_def cached_def)
  obtain m where m: "m \<in> set bs" "lfdnum b = word_of_nat m" using inv dirty by (auto simp: file_inv_def cached_def)
  let ?b = "b\<lparr>lfdbdirty := False\<rparr>" and ?d = "put_sect m (lfdblock b) d"
  have mb: "m \<in> set bs \<union> set dfl" using m by simp
  note w = put_data_sector [OF g mb len]
  have ib: "disk_ib ?d n = disk_ib d n" if "n \<in> set ns \<union> set ifl" for n using w(1) geometry_index(5) [OF g that] .
  have nd: "m \<notin> set dfl" using g m(1) by (auto simp: geometry_def)
  have "linked (\<lambda>n. ib_next (disk_ib ?d n)) ifl = linked (\<lambda>n. ib_next (disk_ib d n)) ifl" by (rule linked_cong) (simp add: ib)
  moreover have "linked (\<lambda>k. dec32 (sect ?d k)) dfl = linked (\<lambda>k. dec32 (sect d k)) dfl" by (rule linked_cong) (use nd in \<open>auto simp: w(2)\<close>)
  moreover have "ibv ?b ?d (ns ! j) = ibv b d (ns ! j)" if "j < length ns" for j using ib that by (simp add: ibv_def)
  moreover have "cached ?b ?d ns bs" using inv m ib by (auto simp: file_inv_def cached_def w(2))
  ultimately have "file_inv ds ?b ?d r ns bs ifl dfl" using inv by (simp add: file_inv_def)
  moreover have "dbv ?b ?d k = dbv b d k" if "k \<in> set bs" for k
    using that m(1) geometry_data(1) [OF g, of k] geometry_data(1) [OF g mb] by (auto simp: dbv_def w(2) m(2))
  then have "evolves ds ns bs ifl dfl (b, d, r) (?b, ?d, r)"
    using m(1) by (auto simp: evolves_def disk_frame_def dir_frame_def w)
  ultimately show ?thesis using that m by blast
qed

lemma flush_ib_inv:
  assumes inv: "file_inv ds b d r ns bs ifl dfl" and dirty: "lfibdirty b"
  obtains n where "n \<in> set ns" "lfinum b = word_of_nat n"
    "file_inv ds (b\<lparr>lfibdirty := False\<rparr>) (put_ib n (lfiblock b) d) r ns bs ifl dfl"
    "evolves ds ns bs ifl dfl (b, d, r) (b\<lparr>lfibdirty := False\<rparr>, put_ib n (lfiblock b) d, r)"
proof -
  have g: "geometry ds ns bs ifl dfl" using inv by (simp add: file_inv_def)
  have "lfinum b \<noteq> -1" using inv dirty geometry_index(1) [OF g] by (auto simp: file_inv_def cached_def)
  then obtain j where j: "j < length ns" "lfinum b = word_of_nat (ns ! j)" "lfiblock b = mk_ib ns bs j" using cached_index [OF inv] by metis
  let ?n = "ns ! j" and ?b = "b\<lparr>lfibdirty := False\<rparr>"
  let ?d = "put_ib ?n (lfiblock b) d"
  have n: "?n \<in> set ns" "?n \<in> set ns \<union> set ifl" using j(1) by auto
  have len: "length (ib_dba (lfiblock b)) = LF_IBLEN" by (simp add: j(3))
  note w = put_index_block [OF g n(2) len]
  have nd: "?n \<notin> set ifl" using g n(1) by (auto simp: geometry_def)
  have db: "sect ?d m = sect d m" if "m \<in> set bs \<union> set dfl" for m using w(2) geometry_data(4) [OF g that] .
  have "linked (\<lambda>n. ib_next (disk_ib ?d n)) ifl = linked (\<lambda>n. ib_next (disk_ib d n)) ifl" by (rule linked_cong) (use nd in \<open>auto simp: w(1)\<close>)
  moreover have "linked (\<lambda>k. dec32 (sect ?d k)) dfl = linked (\<lambda>k. dec32 (sect d k)) dfl" by (rule linked_cong) (simp add: db)
  moreover have "ibv ?b ?d k = ibv b d k" if "k \<in> set ns" for k
    using that geometry_index(1) [OF g, of k] geometry_index(1) [OF g n(2)] by (auto simp: ibv_def w(1) j(2))
  moreover have "cached ?b ?d ns bs" using inv n(1) j(2) db by (auto simp: file_inv_def cached_def w(1))
  ultimately have "file_inv ds ?b ?d r ns bs ifl dfl" using inv by (simp add: file_inv_def)
  moreover have "evolves ds ns bs ifl dfl (b, d, r) (?b, ?d, r)"
    using n(1) db by (auto simp: evolves_def disk_frame_def dir_frame_def w dbv_def)
  ultimately show ?thesis using that n(1) j(2) by blast
qed

lemma flush_dir_inv:
  assumes "file_inv ds b d r ns bs ifl dfl"
  shows "file_inv ds b (put_sect 0 (enc_dir r) d) r ns bs ifl dfl" "evolves ds ns bs ifl dfl (b, d, r) (b, put_sect 0 (enc_dir r) d, r)"
proof -
  have "dir_ok r" "1 \<le> ds" using assms by (auto simp: file_inv_def geometry_def)
  note w = put_dir_sector [OF this]
  show "file_inv ds b (put_sect 0 (enc_dir r) d) r ns bs ifl dfl" by (rule file_inv_disk(1) [OF assms]) (simp_all add: w)
  have "dbv b (put_sect 0 (enc_dir r) d) m = dbv b d m" if "m \<in> set bs" for m
    using file_inv_disk(2) [OF assms, of "put_sect 0 (enc_dir r) d"] that by (simp add: w)
  then show "evolves ds ns bs ifl dfl (b, d, r) (b, put_sect 0 (enc_dir r) d, r)"
    by (simp add: evolves_def disk_frame_def dir_frame_def w)
qed

text \<open>After \<open>lfflush\<close> both blocks and the directory are on the disk.\<close>

lemma lfflush_run:
  assumes inv: "file_inv ds b d r ns bs ifl dfl"
  obtains d' where "lfflush c (put s c b d r x) = Ret (OK, put s c (b\<lparr>lfdbdirty := False, lfibdirty := False\<rparr>) d' r False)"
    "file_inv ds (b\<lparr>lfdbdirty := False, lfibdirty := False\<rparr>) d' r ns bs ifl dfl"
    "evolves ds ns bs ifl dfl (b, d, r) (b\<lparr>lfdbdirty := False, lfibdirty := False\<rparr>, d', r)"
    "x \<Longrightarrow> sect d' 0 = enc_dir r" "\<not> x \<Longrightarrow> sect d' 0 = sect d 0"
proof -
  have g: "geometry ds ns bs ifl dfl" "dir_ok r" "lfstate b \<noteq> LF_FREE" using inv by (auto simp: file_inv_def)
  define d1 where "d1 = (if x then put_sect 0 (enc_dir r) d else d)"
  have 1: "file_inv ds b d1 r ns bs ifl dfl" "evolves ds ns bs ifl dfl (b, d, r) (b, d1, r)"
    using flush_dir_inv [OF inv] inv evolves_refl by (auto simp: d1_def)
  have s1: "x \<Longrightarrow> sect d1 0 = enc_dir r" "\<not> x \<Longrightarrow> sect d1 0 = sect d 0" using dec_dir_enc(2) [OF g(2)] by (auto simp: d1_def sect_put)
  define b2 where "b2 = b\<lparr>lfdbdirty := False\<rparr>"
  obtain d2 where 2: "(if lfdbdirty b then rbind (lf_write (lfdnum b) (lfdblock b) (put s c b d1 r y)) (\<lambda>s. Ret (upd_lf c (\<lambda>b. b\<lparr>lfdbdirty := False\<rparr>) s))
      else Ret (put s c b d1 r y)) = Ret (put s c b2 d2 r y)"
    "file_inv ds b2 d2 r ns bs ifl dfl" "evolves ds ns bs ifl dfl (b, d1, r) (b2, d2, r)" "sect d2 0 = sect d1 0" for y
  proof (cases "lfdbdirty b")
    case True
    obtain m where m: "m \<in> set bs" "lfdnum b = word_of_nat m" "file_inv ds b2 (put_sect m (lfdblock b) d1) r ns bs ifl dfl"
      "evolves ds ns bs ifl dfl (b, d1, r) (b2, put_sect m (lfdblock b) d1, r)"
      using flush_db_inv [OF 1(1) True] by (metis b2_def)
    note gm = geometry_data [OF g(1), of m]
    have "sect (put_sect m (lfdblock b) d1) 0 = sect d1 0" using gm m(1) inv by (simp add: sect_put file_inv_def cached_def)
    then show ?thesis using that [of "put_sect m (lfdblock b) d1"] True m ramwrite_ok [OF gm(2,3)] by (simp add: lf_write_def b2_def)
  next
    case False
    then have "b2 = b" by (simp add: b2_def)
    then show ?thesis using that [of d1] False 1(1) evolves_refl by simp
  qed
  define b3 where "b3 = b2\<lparr>lfibdirty := False\<rparr>"
  obtain d3 where 3: "(if lfibdirty b2 then rbind (lfibput (lfinum b2) (lfiblock b2) d2) (\<lambda>(_, d).
        Ret (upd_lf c (\<lambda>b. b\<lparr>lfibdirty := False\<rparr>) ((put s c b2 d2 r y)\<lparr>Ram := d\<rparr>)))
      else Ret (put s c b2 d2 r y)) = Ret (put s c b3 d3 r y)"
    "file_inv ds b3 d3 r ns bs ifl dfl" "evolves ds ns bs ifl dfl (b2, d2, r) (b3, d3, r)" "sect d3 0 = sect d2 0" for y
  proof (cases "lfibdirty b2")
    case True
    obtain n where n: "n \<in> set ns" "lfinum b2 = word_of_nat n" "file_inv ds b3 (put_ib n (lfiblock b2) d2) r ns bs ifl dfl"
      "evolves ds ns bs ifl dfl (b2, d2, r) (b3, put_ib n (lfiblock b2) d2, r)"
      using flush_ib_inv [OF 2(2) True] by (metis b3_def)
    note gn = geometry_index [OF g(1), of n]
    have "lfinum b2 \<noteq> -1" using n(1,2) gn(1) by simp
    then have "length (ib_dba (lfiblock b2)) = LF_IBLEN" using cached_index [OF 2(2)] by (metis mk_ib_length)
    then have "sect (put_ib n (lfiblock b2) d2) 0 = sect d2 0" by (simp add: sect_put_ib)
    then show ?thesis using that [of "put_ib n (lfiblock b2) d2"] True n lfibput_ok [OF gn(2,3)] by (simp add: b3_def)
  next
    case False
    then have "b3 = b2" by (simp add: b3_def)
    then show ?thesis using that [of d2] False 2(2) evolves_refl by simp
  qed
  have b3: "b3 = b\<lparr>lfdbdirty := False, lfibdirty := False\<rparr>" by (simp add: b3_def b2_def)
  have dir: "(if x then rbind (write_dir (put s c b d r x)) (\<lambda>s. Ret (s\<lparr>lf_dirdirty := False\<rparr>)) else Ret (put s c b d r x)) = Ret (put s c b d1 r False)"
    using write_dir_put [OF g(2)] by (simp add: d1_def)
  have "lfflush c (put s c b d r x) = Ret (OK, put s c b3 d3 r False)"
    by (simp only: lfflush_def put_sel fun_upd_same g(3) if_False dir rbind.simps 2(1) 3(1))
  then show ?thesis
    using that [of d3] 3(2,4) 2(4) s1 evolves_trans [OF 1(2) evolves_trans [OF 2(3) 3(3)]] unfolding b3 by simp
qed

section \<open>Taking blocks from the free lists\<close>

lemma lfiballoc_run:
  assumes "geometry ds ns bs ifl dfl" "dir_ok r" "lfd_ifree r = first ifl" "linked (\<lambda>n. ib_next (disk_ib d n)) ifl"
  shows "ifl = [] \<Longrightarrow> lfiballoc (put s c b d r x) = Halted"
    and "ifl = n # l \<Longrightarrow> lfiballoc (put s c b d r x) =
      Ret (word_of_nat n, put s c b (put_sect 0 (enc_dir (r\<lparr>lfd_ifree := first l\<rparr>)) d) (r\<lparr>lfd_ifree := first l\<rparr>) False)"
proof -
  show "ifl = [] \<Longrightarrow> lfiballoc (put s c b d r x) = Halted" using assms(3) by (simp add: lfiballoc_def LF_INULL_def)
  assume i: "ifl = n # l"
  then have g: "unat (word_of_nat n :: u32) = n" "on_disk (n div 7 + 1)" "n < 4294967295" using geometry_index [OF assms(1), of n] by auto
  have "dir_ok (r\<lparr>lfd_ifree := first l\<rparr>)" using assms(2) by (simp add: dir_ok_def)
  then show "lfiballoc (put s c b d r x) =
      Ret (word_of_nat n, put s c b (put_sect 0 (enc_dir (r\<lparr>lfd_ifree := first l\<rparr>)) d) (r\<lparr>lfd_ifree := first l\<rparr>) False)"
    using i assms(3,4) g lfibget_ok [OF g(1,2), of d] write_dir_put [of "r\<lparr>lfd_ifree := first l\<rparr>"]
    by (simp add: lfiballoc_def LF_INULL_def Let_def)
qed

lemma lfdballoc_run:
  assumes "geometry ds ns bs ifl dfl" "dir_ok r" "lfd_dfree r = first dfl" "linked (\<lambda>m. dec32 (sect d m)) dfl"
  shows "dfl = [] \<Longrightarrow> lfdballoc (put s c b d r x) = Halted"
    and "dfl = m # l \<Longrightarrow> lfdballoc (put s c b d r x) = Ret (word_of_nat m, replicate LF_BLKSIZ DFILL,
      put s c b (put_sect 0 (enc_dir (r\<lparr>lfd_dfree := first l\<rparr>)) d) (r\<lparr>lfd_dfree := first l\<rparr>) False)"
proof -
  show "dfl = [] \<Longrightarrow> lfdballoc (put s c b d r x) = Halted" using assms(3) by (simp add: lfdballoc_def LF_DNULL_def)
  assume i: "dfl = m # l"
  then have g: "unat (word_of_nat m :: u32) = m" "on_disk m" "m < 4294967295" using geometry_data [OF assms(1), of m] by auto
  have "dir_ok (r\<lparr>lfd_dfree := first l\<rparr>)" using assms(2) by (simp add: dir_ok_def)
  then show "lfdballoc (put s c b d r x) = Ret (word_of_nat m, replicate LF_BLKSIZ DFILL,
      put s c b (put_sect 0 (enc_dir (r\<lparr>lfd_dfree := first l\<rparr>)) d) (r\<lparr>lfd_dfree := first l\<rparr>) False)"
    using i assms(3,4) g ramread_ok [OF g(1,2), of d] write_dir_put [of "r\<lparr>lfd_dfree := first l\<rparr>"]
    by (simp add: lfdballoc_def LF_DNULL_def Let_def OK_def SYSERR_def)
qed

section \<open>Finding the index block\<close>

lemma geometry_bounds:
  assumes "geometry ds ns bs ifl dfl"
  shows "length bs \<le> 200" and "length ns \<le> 1400" and "length bs + length dfl \<le> 200"
proof -
  have ds: "ds \<le> 200" using assms by (simp add: geometry_def RM_BLKS_def)
  have "n < 1400" if "n \<in> set ns" for n
  proof -
    have "n < 7 * (ds - 1)" by (rule geometry_index(5) [OF assms]) (simp add: that)
    then show ?thesis using ds by arith
  qed
  then have sub: "set (bs @ dfl) \<subseteq> {..<200}" "set ns \<subseteq> {..<1400}" using assms by (auto simp: geometry_def RM_BLKS_def)
  have dis: "distinct (bs @ dfl)" "distinct ns" using assms by (simp_all add: geometry_def)
  show *: "length bs + length dfl \<le> 200" using card_mono [OF _ sub(1)] distinct_card [OF dis(1)] by simp
  then show "length bs \<le> 200" by simp
  show "length ns \<le> 1400" using card_mono [OF _ sub(2)] distinct_card [OF dis(2)] by simp
qed

lemma clean_ib:
  assumes "file_inv ds b d r ns bs ifl dfl" "\<not> lfibdirty b" "n \<in> set ns"
  shows "ibv b d n = disk_ib d n"
proof -
  have g: "geometry ds ns bs ifl dfl" using assms(1) by (simp add: file_inv_def)
  have "disk_ib d n = lfiblock b" if "lfinum b = word_of_nat n"
    using assms that geometry_index(1) [OF g] by (auto simp: file_inv_def cached_def)
  then show ?thesis by (simp add: ibv_def)
qed

text \<open>Loading another index block of the file when the one in memory is clean.\<close>

lemma load_ib:
  assumes inv: "file_inv ds b d r ns bs ifl dfl" and "\<not> lfibdirty b" and j: "j < length ns"
    and b': "b' = b\<lparr>lfiblock := mk_ib ns bs j, lfinum := word_of_nat (ns ! j)\<rparr>"
  shows "read_ib c (word_of_nat (ns ! j)) (put s c b d r x) = Ret (put s c b' d r x)"
    and "file_inv ds b' d r ns bs ifl dfl" and "evolves ds ns bs ifl dfl (b, d, r) (b', d, r)"
proof -
  have g: "geometry ds ns bs ifl dfl" using inv by (simp add: file_inv_def)
  have n: "ns ! j \<in> set ns" using j by simp
  note gn = geometry_index [OF g, of "ns ! j"]
  have di: "disk_ib d (ns ! i) = mk_ib ns bs i" if "i < length ns" for i
    using clean_ib [OF inv assms(2), of "ns ! i"] inv that by (simp add: file_inv_def)
  show "read_ib c (word_of_nat (ns ! j)) (put s c b d r x) = Ret (put s c b' d r x)"
    using lfibget_ok [OF gn(2,3), of d] n di [OF j] by (simp add: read_ib_def b')
  have "ibv b' d (ns ! i) = mk_ib ns bs i" if i: "i < length ns" for i
    using di [OF i] di [OF j] gn(1) n geometry_index(1) [OF g, of "ns ! i"] i by (auto simp: ibv_def b')
  moreover have "cached b' d ns bs" using inv assms(2) di [OF j] n by (auto simp: file_inv_def cached_def b')
  ultimately show "file_inv ds b' d r ns bs ifl dfl" using inv by (simp add: file_inv_def b')
  show "evolves ds ns bs ifl dfl (b, d, r) (b', d, r)" using evolves_refl [of ds ns bs ifl dfl "(b, d, r)"] by (simp add: evolves_def dbv_def b')
qed

lemma offset_less:
  assumes "i < 524288" "p < 4294967296"
  shows "word_of_nat p < (word_of_nat (8192 * i) :: u32) \<longleftrightarrow> p < 8192 * i"
proof -
  have "unat (word_of_nat (8192 * i) :: u32) = 8192 * i" "unat (word_of_nat p :: u32) = p" by (rule unat_of_nat_small; use assms in simp)+
  then show ?thesis unfolding word_less_nat_alt by simp
qed

text \<open>An empty file gets its first index block.\<close>

lemma first_index_block:
  assumes inv: "file_inv ds b d r [] [] (n # l) dfl"
    and r': "r' = r\<lparr>lfd_ifree := first l, lfd_files := (lfd_files r)[lfdirptr b := (lfd_files r ! lfdirptr b)\<lparr>ld_ilist := word_of_nat n\<rparr>]\<rparr>"
    and b': "b' = b\<lparr>lfiblock := mk_ib [n] [] 0, lfibdirty := True, lfinum := word_of_nat n\<rparr>"
    and d': "d' = put_sect 0 z d" "length z = 512"
  shows "file_inv ds b' d' r' [n] [] l dfl" and "evolves ds [] [] (n # l) dfl (b, d, r) (b', d', r')"
proof -
  have g: "geometry ds [] [] (n # l) dfl" "dir_ok r" "lfdirptr b < LF_NUM_DIR_ENT" using inv by (auto simp: file_inv_def)
  have files: "length (lfd_files r) = LF_NUM_DIR_ENT" using g(2) by (simp add: dir_ok_def)
  have ib: "disk_ib d' k = disk_ib d k" for k by (simp add: d' disk_ib_put_sect)
  have db: "sect d' m = sect d m" if "m \<noteq> 0" for m using that by (simp add: d' sect_put)
  have "linked (\<lambda>m. dec32 (sect d' m)) dfl = linked (\<lambda>m. dec32 (sect d m)) dfl"
    by (rule linked_cong) (use geometry_data(6) [OF g(1)] db in auto)
  moreover have "geometry ds [n] [] l dfl" using g(1) by (auto simp: geometry_def)
  moreover have "dir_ok r'" using g(2,3) files by (auto simp: r' dir_ok_def dest!: set_update_subset_insert [THEN subsetD])
  moreover have "cached b' d' [n] []" using inv by (auto simp: b' file_inv_def cached_def)
  ultimately show "file_inv ds b' d' r' [n] [] l dfl" using inv files by (simp add: file_inv_def b' r' ibv_def ib)
  have "1 \<le> ds" using g(1) by (simp add: geometry_def)
  then show "evolves ds [] [] (n # l) dfl (b, d, r) (b', d', r')"
    using db files g(3) by (auto simp: evolves_def disk_frame_def dir_frame_def ib b' r')
qed

text \<open>The index block in memory is number \<open>j\<close> of the file.\<close>

definition at_index :: "lflcblk \<Rightarrow> nat list \<Rightarrow> nat list \<Rightarrow> nat \<Rightarrow> bool" where
  "at_index b ns bs j \<longleftrightarrow> j < length ns \<and> lfinum b = word_of_nat (ns ! j) \<and> lfiblock b = mk_ib ns bs j"

text \<open>The outcome of a step that takes a new index block: the machine halts when there is none.\<close>

definition grown :: "nat \<Rightarrow> nat \<Rightarrow> lfs \<Rightarrow> nat list \<Rightarrow> nat list \<Rightarrow> nat list \<Rightarrow> nat list \<Rightarrow> lflcblk \<times> disk \<times> lfdir \<Rightarrow> lfs result \<Rightarrow> bool" where
  "grown ds c s ns bs ifl dfl x res \<longleftrightarrow>
    (case ifl of
       [] \<Rightarrow> res = Halted
     | n # l \<Rightarrow> \<exists>b' d' r'. res = Ret (put s c b' d' r' False) \<and> file_inv ds b' d' r' (ns @ [n]) bs l dfl \<and>
         evolves ds ns bs ifl dfl x (b', d', r') \<and> at_index b' (ns @ [n]) bs (length ns) \<and> \<not> lfdbdirty b')"

lemma grown_intros:
  "grown ds c s ns bs [] dfl x Halted"
  "file_inv ds b' d' r' (ns @ [n]) bs l dfl \<Longrightarrow> evolves ds ns bs (n # l) dfl x (b', d', r') \<Longrightarrow> at_index b' (ns @ [n]) bs (length ns) \<Longrightarrow>
    \<not> lfdbdirty b' \<Longrightarrow> grown ds c s ns bs (n # l) dfl x (Ret (put s c b' d' r' False))"
  by (auto simp: grown_def)

lemma setup_ib_empty:
  assumes inv: "file_inv ds b d r [] [] ifl dfl" and "\<not> lfibdirty b" "\<not> lfdbdirty b"
  shows "grown ds c s [] [] ifl dfl (b, d, r) (setup_ib c (put s c b d r x))"
proof -
  have g: "geometry ds [] [] ifl dfl" "dir_ok r" "lfd_ifree r = first ifl" "linked (\<lambda>n. ib_next (disk_ib d n)) ifl"
    and e: "lfinum b = -1" "ld_ilist (lfd_files r ! lfdirptr b) = -1" using inv by (auto simp: file_inv_def cached_def)
  note al = lfiballoc_run [OF g, where s = s and c = c and b = b and x = x]
  show ?thesis
  proof (cases ifl)
    case Nil
    then have "setup_ib c (put s c b d r x) = Halted" using al(1) e by (simp add: setup_ib_def LF_INULL_def Let_def)
    then show ?thesis using Nil grown_intros(1) by simp
  next
    case i: (Cons n l)
    let ?r = "r\<lparr>lfd_ifree := first l\<rparr>"
    let ?r' = "?r\<lparr>lfd_files := (lfd_files r)[lfdirptr b := (lfd_files r ! lfdirptr b)\<lparr>ld_ilist := word_of_nat n\<rparr>]\<rparr>"
    let ?b' = "b\<lparr>lfiblock := mk_ib [n] [] 0, lfibdirty := True, lfinum := word_of_nat n\<rparr>"
    let ?d' = "put_sect 0 (enc_dir ?r) d"
    have "lfibclear 0 = mk_ib [n] [] 0" by (simp add: lfibclear_def mk_ib_def LF_INULL_def map_replicate_const)
    moreover have "b\<lparr>lfinum := word_of_nat n, lfiblock := mk_ib [n] [] 0, lfibdirty := True\<rparr> = ?b'" by simp
    ultimately have run: "setup_ib c (put s c b d r x) = Ret (put s c ?b' ?d' ?r' False)"
      using al(2) [OF i] e by (simp add: setup_ib_def LF_INULL_def Let_def)
    have "length (enc_dir ?r) = 512" using g(2) by (intro dec_dir_enc(2)) (simp add: dir_ok_def)
    note fi = first_index_block [OF inv [unfolded i] refl refl refl this]
    show ?thesis unfolding run i by (rule grown_intros(2)) (use fi assms(3) in \<open>simp_all add: at_index_def\<close>)
  qed
qed

lemma setup_ib_nonempty:
  assumes inv: "file_inv ds b d r ns bs ifl dfl" and clean: "\<not> lfibdirty b" and ns: "ns \<noteq> []"
    and pos: "lfpos b = word_of_nat pos" "pos < 4294967296"
  shows "\<exists>b' j. setup_ib c (put s c b d r x) = Ret (put s c b' d r x) \<and> file_inv ds b' d r ns bs ifl dfl \<and>
    evolves ds ns bs ifl dfl (b, d, r) (b', d, r) \<and> at_index b' ns bs j \<and> 8192 * j \<le> pos \<and> \<not> lfibdirty b' \<and> lfdbdirty b' = lfdbdirty b"
proof -
  have g: "geometry ds ns bs ifl dfl" and il: "ld_ilist (lfd_files r ! lfdirptr b) = first ns" using inv by (auto simp: file_inv_def)
  have f: "first ns = word_of_nat (ns ! 0)" "0 < length ns" using ns by (cases ns; simp)+
  have fn: "first ns \<noteq> -1" using f geometry_index(1) [OF g, of "ns ! 0"] by simp
  let ?b0 = "b\<lparr>lfiblock := mk_ib ns bs 0, lfinum := word_of_nat (ns ! 0)\<rparr>"
  note ld = load_ib [OF inv clean f(2) refl]
  have at0: "at_index ?b0 ns bs 0" using f by (simp add: at_index_def)
  show ?thesis
  proof (cases "lfinum b = -1")
    case True
    then have "setup_ib c (put s c b d r x) = Ret (put s c ?b0 d r x)"
      using il f(1) fn ld(1) by (simp add: setup_ib_def LF_INULL_def Let_def)
    then show ?thesis using ld(2,3) at0 clean by (intro exI [of _ ?b0] exI [of _ 0]) simp
  next
    case False
    then obtain j where j: "j < length ns" "lfinum b = word_of_nat (ns ! j)" "lfiblock b = mk_ib ns bs j" using cached_index [OF inv] by metis
    have off: "lfpos b < ib_offset (lfiblock b) \<longleftrightarrow> pos < 8192 * j"
      using offset_less [of j pos] geometry_bounds(2) [OF g] j pos by (simp add: mk_ib_def)
    show ?thesis
    proof (cases "pos < 8192 * j")
      case True
      then have "setup_ib c (put s c b d r x) = Ret (put s c ?b0 d r x)"
        using False il f(1) ld(1) off by (simp add: setup_ib_def LF_INULL_def Let_def)
      then show ?thesis using ld(2,3) at0 clean by (intro exI [of _ ?b0] exI [of _ 0]) simp
    next
      case le: False
      then have "setup_ib c (put s c b d r x) = Ret (put s c b d r x)" using False off by (simp add: setup_ib_def LF_INULL_def Let_def)
      then show ?thesis using inv j le clean evolves_refl by (intro exI [of _ b] exI [of _ j]) (simp add: at_index_def)
    qed
  qed
qed

section \<open>Walking along the index blocks\<close>

lemma unat_and_imask: "unat (w AND NOT LF_IMASK) = 8192 * (unat w div 8192)" for w :: u32
proof -
  have "w AND NOT (mask 13) = push_bit 13 (drop_bit 13 w)" by (intro bit_word_eqI) (auto simp: bit_simps)
  moreover have "LF_IMASK = mask 13" by (simp add: LF_IMASK_def mask_eq_exp_minus_1)
  ultimately have "unat (w AND NOT LF_IMASK) = unat (drop_bit 13 w) * 8192 mod 2 ^ 32"
    by (simp only: push_bit_eq_mult unat_word_ariths) simp
  also have "unat (drop_bit 13 w) = unat w div 8192" by (simp add: drop_bit_eq_div unat_div)
  also have "unat w div 8192 * 8192 mod 2 ^ 32 = unat w div 8192 * 8192"
    using le_less_trans [OF div_times_less_eq_dividend unat_u32_less, of w 8192] by simp
  finally show ?thesis by simp
qed

lemma walk_unfold:
  assumes "at_index b ns bs j" "lfpos b = word_of_nat pos" "pos < 4294967296" "j < 524288"
  shows "walk_ib c (put s c b d r x) =
    (if j < pos div 8192 then
       (case walk_step c (put s c b d r x) of Ret s \<Rightarrow> walk_ib c s | Halted \<Rightarrow> Some Halted | Fault \<Rightarrow> Some Fault | Loops \<Rightarrow> Some Loops)
     else Some (Ret (put s c b d r x)))"
proof -
  have "unat (lfpos b AND NOT LF_IMASK) = 8192 * (pos div 8192)" unfolding unat_and_imask assms(2) using assms(3) by (simp add: unat_of_nat_small)
  moreover have "unat (ib_offset (lfiblock b)) = 8192 * j"
    using assms(1,4) unat_of_nat_small [of "8192 * j"] by (simp add: at_index_def mk_ib_def del: of_nat_mult)
  ultimately have "ib_offset (lfiblock b) < (lfpos b AND NOT LF_IMASK) \<longleftrightarrow> j < pos div 8192" unfolding word_less_nat_alt by simp
  then show ?thesis by (subst walk_ib.simps) simp
qed

lemma clean_db:
  assumes "file_inv ds b d r ns bs ifl dfl" "\<not> lfdbdirty b" "m \<in> set bs"
  shows "dbv b d m = sect d m"
proof -
  have g: "geometry ds ns bs ifl dfl" using assms(1) by (simp add: file_inv_def)
  have "sect d m = lfdblock b" if "lfdnum b = word_of_nat m"
    using assms that geometry_data(1) [OF g] by (auto simp: file_inv_def cached_def)
  then show ?thesis by (simp add: dbv_def)
qed

lemma forget_db:
  assumes inv: "file_inv ds b d r ns bs ifl dfl" and "\<not> lfdbdirty b"
  shows "file_inv ds (b\<lparr>lfdnum := -1\<rparr>) d r ns bs ifl dfl" and "evolves ds ns bs ifl dfl (b, d, r) (b\<lparr>lfdnum := -1\<rparr>, d, r)"
proof -
  have g: "geometry ds ns bs ifl dfl" using inv by (simp add: file_inv_def)
  show "file_inv ds (b\<lparr>lfdnum := -1\<rparr>) d r ns bs ifl dfl" using inv assms(2) by (auto simp: file_inv_def cached_def ibv_def)
  have "dbv (b\<lparr>lfdnum := -1\<rparr>) d m = dbv b d m" if "m \<in> set bs" for m
    using clean_db [OF assms that] geometry_data(1) [OF g, of m] that by (simp add: dbv_def)
  then show "evolves ds ns bs ifl dfl (b, d, r) (b\<lparr>lfdnum := -1\<rparr>, d, r)" by (simp add: evolves_def disk_frame_def dir_frame_def)
qed

lemma drop_first: "Suc j < length ns \<Longrightarrow> first (drop (Suc j) ns) = word_of_nat (ns ! Suc j)"
  by (simp add: Cons_nth_drop_Suc [symmetric])

lemma walk_next:
  assumes inv: "file_inv ds b d r ns bs ifl dfl" and clean: "\<not> lfibdirty b" "\<not> lfdbdirty b"
    and at: "at_index b ns bs j" "Suc j < length ns"
  shows "\<exists>b'. walk_step c (put s c b d r x) = Ret (put s c b' d r x) \<and> file_inv ds b' d r ns bs ifl dfl \<and>
    evolves ds ns bs ifl dfl (b, d, r) (b', d, r) \<and> at_index b' ns bs (Suc j) \<and> \<not> lfibdirty b' \<and> \<not> lfdbdirty b'"
proof -
  have g: "geometry ds ns bs ifl dfl" using inv by (simp add: file_inv_def)
  let ?n = "word_of_nat (ns ! Suc j)"
  define b1 where "b1 = b\<lparr>lfiblock := mk_ib ns bs (Suc j), lfinum := ?n\<rparr>"
  note ld = load_ib [OF inv clean(1) at(2) b1_def]
  have nx: "ib_next (lfiblock b) = ?n" using at by (simp add: at_index_def mk_ib_def drop_first)
  have "(?n :: u32) \<noteq> -1" using geometry_index(1) [OF g, of "ns ! Suc j"] at(2) by simp
  then have "walk_step c (put s c b d r x) = Ret (put s c (b1\<lparr>lfdnum := -1\<rparr>) d r x)"
    using nx ld(1) by (simp add: walk_step_def LF_INULL_def LF_DNULL_def)
  moreover have "\<not> lfdbdirty b1" using clean(2) by (simp add: b1_def)
  note fd = forget_db [OF ld(2) this]
  ultimately show ?thesis using fd evolves_trans [OF ld(3) fd(2)] clean at(2)
    by (intro exI [of _ "b1\<lparr>lfdnum := -1\<rparr>"]) (simp add: at_index_def b1_def)
qed

lemma walk_ib_run:
  assumes "file_inv ds b d r ns bs ifl dfl" "\<not> lfibdirty b" "\<not> lfdbdirty b" "at_index b ns bs j"
    "lfpos b = word_of_nat pos" "pos < 4294967296" "j \<le> k" "k < length ns" "k \<le> pos div 8192"
  shows "\<exists>b'. walk_ib c (put s c b d r x) = walk_ib c (put s c b' d r x) \<and> file_inv ds b' d r ns bs ifl dfl \<and>
    evolves ds ns bs ifl dfl (b, d, r) (b', d, r) \<and> at_index b' ns bs k \<and> \<not> lfibdirty b' \<and> \<not> lfdbdirty b'"
  using assms(1-5,7)
proof (induction "k - j" arbitrary: b j)
  case 0
  then have "j = k" by simp
  then show ?case using 0 evolves_refl by (intro exI [of _ b]) simp
next
  case (Suc i)
  have jk: "j < k" using Suc.hyps(2) by simp
  have "Suc j < length ns" using jk assms(8) by simp
  from walk_next [OF Suc.prems(1-4) this] obtain b1 where b1: "walk_step c (put s c b d r x) = Ret (put s c b1 d r x)"
    "file_inv ds b1 d r ns bs ifl dfl" "evolves ds ns bs ifl dfl (b, d, r) (b1, d, r)" "at_index b1 ns bs (Suc j)" "\<not> lfibdirty b1" "\<not> lfdbdirty b1"
    by blast
  have "length ns \<le> 1400" using geometry_bounds(2) Suc.prems(1) by (auto simp: file_inv_def)
  then have "j < 524288" using jk assms(8) by simp
  then have "walk_ib c (put s c b d r x) = walk_ib c (put s c b1 d r x)"
    using walk_unfold [OF Suc.prems(4,5) assms(6)] b1(1) jk assms(9) by simp
  moreover have "lfpos b1 = word_of_nat pos" using b1(3) Suc.prems(5) by (simp add: evolves_def)
  moreover have "i = k - Suc j" "Suc j \<le> k" using Suc.hyps(2) jk by simp_all
  ultimately obtain b' where "walk_ib c (put s c b d r x) = walk_ib c (put s c b' d r x)" "file_inv ds b' d r ns bs ifl dfl"
    "evolves ds ns bs ifl dfl (b1, d, r) (b', d, r)" "at_index b' ns bs k" "\<not> lfibdirty b'" "\<not> lfdbdirty b'"
    using Suc.hyps(1) [OF _ b1(2,5,6,4)] by metis
  then show ?case using evolves_trans [OF b1(3)] by blast
qed

lemma first_append: "xs \<noteq> [] \<Longrightarrow> first (xs @ ys) = first xs"
  by (cases xs) simp_all

lemma mk_ib_snoc:
  "Suc i < length ns \<Longrightarrow> mk_ib (ns @ [n]) bs i = mk_ib ns bs i"
  "Suc i = length ns \<Longrightarrow> mk_ib (ns @ [n]) bs i = (mk_ib ns bs i)\<lparr>ib_next := word_of_nat n\<rparr>"
  "length bs = 16 * length ns \<Longrightarrow> mk_ib (ns @ [n]) bs (length ns) = lfibclear (word_of_nat (8192 * length ns))"
  by (auto simp: mk_ib_def lfibclear_def first_append nth_append LF_INULL_def map_replicate_const)

text \<open>A full file gets another index block behind its last one, which is written first.\<close>

lemma new_index_block:
  assumes inv: "file_inv ds b d r ns bs (n # l) dfl" and clean: "\<not> lfibdirty b" "\<not> lfdbdirty b"
    and at: "at_index b ns bs j" "Suc j = length ns" "length bs = 16 * length ns"
    and r': "r' = r\<lparr>lfd_ifree := first l\<rparr>" and d': "d' = put_ib (ns ! j) (mk_ib (ns @ [n]) bs j) (put_sect 0 z d)" "length z = 512"
    and b': "b' = b\<lparr>lfinum := word_of_nat n, lfiblock := mk_ib (ns @ [n]) bs (length ns), lfibdirty := True, lfdnum := -1\<rparr>"
  shows "file_inv ds b' d' r' (ns @ [n]) bs l dfl" and "evolves ds ns bs (n # l) dfl (b, d, r) (b', d', r')"
proof -
  have g: "geometry ds ns bs (n # l) dfl" and ds: "1 \<le> ds" using inv by (auto simp: file_inv_def geometry_def)
  have nj: "ns ! j \<in> set ns \<union> set (n # l)" using at(2) by simp
  note w = put_index_block [OF g nj, where ib = "mk_ib (ns @ [n]) bs j" and d = "put_sect 0 z d", OF mk_ib_length]
  have ib: "disk_ib d' k = (if k = ns ! j then mk_ib (ns @ [n]) bs j else disk_ib d k)" for k
    using w(1) d'(2) by (simp add: d'(1) disk_ib_put_sect)
  have db: "sect d' m = sect d m" if "ds \<le> m" for m using w(2) [OF that] that ds d'(2) by (simp add: d'(1) sect_put)
  have new: "n \<notin> set ns" "n \<notin> set l" "distinct ns" "set ns \<inter> set l = {}" using g by (auto simp: geometry_def)
  have "ibv b' d' ((ns @ [n]) ! i) = mk_ib (ns @ [n]) bs i" if i: "i < length (ns @ [n])" for i
  proof (cases "i = length ns")
    case True
    then show ?thesis by (simp add: ibv_def b')
  next
    case False
    then have i': "i < length ns" using i by simp
    then have "ns ! i \<in> set ns" by simp
    then have "word_of_nat (ns ! i) \<noteq> (word_of_nat n :: u32)"
      using new(1) geometry_index(1) [OF g, of "ns ! i"] geometry_index(1) [OF g, of n] by auto
    then have "ibv b' d' ((ns @ [n]) ! i) = disk_ib d' (ns ! i)" using i' by (simp add: ibv_def b' nth_append)
    also have "\<dots> = mk_ib (ns @ [n]) bs i"
    proof (cases "i = j")
      case False
      then have "Suc i < length ns" "ns ! i \<noteq> ns ! j" using i' at(2) new(3) by (auto simp: nth_eq_iff_index_eq)
      then show ?thesis using clean_ib [OF inv clean(1), of "ns ! i"] inv i' by (simp add: ib file_inv_def mk_ib_snoc(1))
    qed (simp add: ib)
    finally show ?thesis .
  qed
  moreover have "ns ! j \<in> set ns" using at(2) by simp
  then have "ns ! j \<notin> set l" using new(4) by blast
  then have "linked (\<lambda>k. ib_next (disk_ib d' k)) l = linked (\<lambda>k. ib_next (disk_ib d k)) l"
    by (intro linked_cong) (auto simp: ib)
  moreover have "linked (\<lambda>m. dec32 (sect d' m)) dfl = linked (\<lambda>m. dec32 (sect d m)) dfl"
    by (rule linked_cong) (use geometry_data(4) [OF g] db in auto)
  moreover have "geometry ds (ns @ [n]) bs l dfl" using g by (auto simp: geometry_def)
  moreover have "first (ns @ [n]) = first ns" using at(2) by (cases ns) auto
  moreover have "cached b' d' (ns @ [n]) bs" using inv clean(2) by (auto simp: b' file_inv_def cached_def)
  ultimately show "file_inv ds b' d' r' (ns @ [n]) bs l dfl" using inv at(3) by (simp add: file_inv_def b' r' dir_ok_def)
  have "dbv b' d' m = dbv b d m" if "m \<in> set bs" for m
    using clean_db [OF inv clean(2) that] geometry_data(1,4) [OF g, of m] that db by (simp add: dbv_def b')
  then show "evolves ds ns bs (n # l) dfl (b, d, r) (b', d', r')"
    using db nj by (auto simp: evolves_def disk_frame_def dir_frame_def ib b' r')
qed

lemma walk_extend:
  assumes inv: "file_inv ds b d r ns bs ifl dfl" and clean: "\<not> lfibdirty b" "\<not> lfdbdirty b"
    and at: "at_index b ns bs j" "Suc j = length ns" "length bs = 16 * length ns"
  shows "grown ds c s ns bs ifl dfl (b, d, r) (walk_step c (put s c b d r x))"
proof -
  have g: "geometry ds ns bs ifl dfl" "dir_ok r" "lfd_ifree r = first ifl" "linked (\<lambda>n. ib_next (disk_ib d n)) ifl"
    using inv by (auto simp: file_inv_def)
  note al = lfiballoc_run [OF g, where s = s and c = c and b = b and x = x]
  have nx: "ib_next (lfiblock b) = -1" using at(1,2) by (simp add: at_index_def mk_ib_def)
  show ?thesis
  proof (cases ifl)
    case Nil
    then have "walk_step c (put s c b d r x) = Halted" using al(1) nx by (simp add: walk_step_def LF_INULL_def Let_def)
    then show ?thesis using Nil grown_intros(1) by simp
  next
    case i: (Cons n l)
    let ?r = "r\<lparr>lfd_ifree := first l\<rparr>" and ?ib = "mk_ib (ns @ [n]) bs j"
    let ?d1 = "put_sect 0 (enc_dir ?r) d"
    let ?d' = "put_ib (ns ! j) ?ib ?d1"
    let ?b' = "b\<lparr>lfinum := word_of_nat n, lfiblock := mk_ib (ns @ [n]) bs (length ns), lfibdirty := True, lfdnum := -1\<rparr>"
    note gn = geometry_index [OF g(1), of "ns ! j"]
    have put: "lfibput (lfinum b) ?ib ?d1 = Ret (OK, ?d')" using at(1) lfibput_ok [OF gn(2,3)] by (simp add: at_index_def)
    have ib: "(lfiblock b)\<lparr>ib_next := word_of_nat n\<rparr> = ?ib" using at(1,2) mk_ib_snoc(2) by (simp add: at_index_def)
    have "ib_offset ?ib + LF_IDATA = word_of_nat (8192 * length ns)" using at(2) by (simp add: mk_ib_def LF_IDATA_def flip: at(2))
    then have cl: "lfibclear (ib_offset ?ib + LF_IDATA) = mk_ib (ns @ [n]) bs (length ns)" using mk_ib_snoc(3) [OF at(3)] by simp
    have run: "walk_step c (put s c b d r x) = Ret (put s c ?b' ?d' ?r False)"
      using al(2) [OF i] nx put ib cl by (simp add: walk_step_def LF_INULL_def LF_DNULL_def Let_def)
    have "length (enc_dir ?r) = 512" using g(2) by (intro dec_dir_enc(2)) (simp add: dir_ok_def)
    note ni = new_index_block [OF inv [unfolded i] clean at refl refl this refl]
    show ?thesis unfolding run unfolding i by (rule grown_intros(2)) (use ni clean(2) in \<open>simp_all add: at_index_def\<close>)
  qed
qed

definition index_stage :: "nat \<Rightarrow> lfs \<Rightarrow> lfs result" where
  "index_stage c s = rbind (setup_ib c s) (\<lambda>s. rjoin (of_loop (walk_ib c s)))"

lemma index_keep:
  assumes inv: "file_inv ds b d r ns bs ifl dfl" and clean: "\<not> lfibdirty b" "\<not> lfdbdirty b"
    and pos: "lfpos b = word_of_nat pos" "pos < 4294967296" "pos div 8192 < length ns"
  shows "\<exists>b'. index_stage c (put s c b d r x) = Ret (put s c b' d r x) \<and> file_inv ds b' d r ns bs ifl dfl \<and>
    evolves ds ns bs ifl dfl (b, d, r) (b', d, r) \<and> at_index b' ns bs (pos div 8192) \<and> \<not> lfdbdirty b'"
proof -
  have ns: "ns \<noteq> []" using pos(3) by auto
  have ln: "length ns \<le> 1400" using geometry_bounds(2) inv by (auto simp: file_inv_def)
  obtain b1 j where 1: "setup_ib c (put s c b d r x) = Ret (put s c b1 d r x)" "file_inv ds b1 d r ns bs ifl dfl"
    "evolves ds ns bs ifl dfl (b, d, r) (b1, d, r)" "at_index b1 ns bs j" "8192 * j \<le> pos" "\<not> lfibdirty b1" "lfdbdirty b1 = lfdbdirty b"
    using setup_ib_nonempty [OF inv clean(1) ns pos(1,2)] by blast
  have p1: "lfpos b1 = word_of_nat pos" "\<not> lfdbdirty b1" using 1(3,7) pos(1) clean(2) by (simp_all add: evolves_def)
  have "j \<le> pos div 8192" using 1(5) by (simp add: less_eq_div_iff_mult_less_eq mult.commute)
  then obtain b2 where 2: "walk_ib c (put s c b1 d r x) = walk_ib c (put s c b2 d r x)" "file_inv ds b2 d r ns bs ifl dfl"
    "evolves ds ns bs ifl dfl (b1, d, r) (b2, d, r)" "at_index b2 ns bs (pos div 8192)" "\<not> lfdbdirty b2"
    using walk_ib_run [OF 1(2,6) p1(2) 1(4) p1(1) pos(2) _ pos(3) order_refl] by blast
  have "lfpos b2 = word_of_nat pos" using 2(3) p1(1) by (simp add: evolves_def)
  from walk_unfold [OF 2(4) this pos(2)] have "walk_ib c (put s c b2 d r x) = Some (Ret (put s c b2 d r x))" using pos(3) ln by simp
  then show ?thesis using 1(1) 2 evolves_trans [OF 1(3) 2(3)] by (intro exI [of _ b2]) (simp add: index_stage_def)
qed

text \<open>Once the new index block is there the walk ends.\<close>

lemma grown_stop:
  assumes "grown ds c s ns bs ifl dfl (b1, d1, r1) res" "evolves ds ns bs ifl dfl (b, d, r) (b1, d1, r1)"
    and pos: "lfpos b = word_of_nat pos" "pos < 4294967296" "pos div 8192 = length ns" "length ns \<le> 1400"
  shows "grown ds c s ns bs ifl dfl (b, d, r) (rbind res (\<lambda>s. rjoin (of_loop (walk_ib c s))))"
proof (cases ifl)
  case Nil
  then show ?thesis using assms(1) by (simp add: grown_def)
next
  case (Cons n l)
  then obtain b' d' r' where b': "res = Ret (put s c b' d' r' False)" "file_inv ds b' d' r' (ns @ [n]) bs l dfl"
    "evolves ds ns bs (n # l) dfl (b1, d1, r1) (b', d', r')" "at_index b' (ns @ [n]) bs (length ns)" "\<not> lfdbdirty b'"
    using assms(1) by (auto simp: grown_def)
  have ev: "evolves ds ns bs (n # l) dfl (b, d, r) (b', d', r')" using evolves_trans [OF assms(2) [unfolded Cons] b'(3)] by simp
  then have "lfpos b' = word_of_nat pos" using pos(1) by (simp add: evolves_def)
  from walk_unfold [OF b'(4) this pos(2)] have "walk_ib c (put s c b' d' r' False) = Some (Ret (put s c b' d' r' False))" using pos(3,4) by simp
  then have "rbind res (\<lambda>s. rjoin (of_loop (walk_ib c s))) = Ret (put s c b' d' r' False)" by (simp add: b'(1))
  then show ?thesis unfolding Cons using grown_intros(2) [OF b'(2) ev b'(4,5)] by simp
qed

lemma index_extend:
  assumes inv: "file_inv ds b d r ns bs ifl dfl" and clean: "\<not> lfibdirty b" "\<not> lfdbdirty b"
    and pos: "lfpos b = word_of_nat pos" "pos < 4294967296" "pos div 8192 = length ns" "length bs = 16 * length ns"
  shows "grown ds c s ns bs ifl dfl (b, d, r) (index_stage c (put s c b d r x))"
proof -
  have ln: "length ns \<le> 1400" using geometry_bounds(2) inv by (auto simp: file_inv_def)
  show ?thesis
  proof (cases "ns = []")
    case True
    then have e: "ns = []" "bs = []" using pos(4) by simp_all
    from setup_ib_empty [OF inv [unfolded e] clean] have "grown ds c s ns bs ifl dfl (b, d, r) (setup_ib c (put s c b d r x))" unfolding e .
    then show ?thesis unfolding index_stage_def by (rule grown_stop [OF _ evolves_refl pos(1-3) ln])
  next
    case False
    obtain b1 j where 1: "setup_ib c (put s c b d r x) = Ret (put s c b1 d r x)" "file_inv ds b1 d r ns bs ifl dfl"
      "evolves ds ns bs ifl dfl (b, d, r) (b1, d, r)" "at_index b1 ns bs j" "8192 * j \<le> pos" "\<not> lfibdirty b1" "lfdbdirty b1 = lfdbdirty b"
      using setup_ib_nonempty [OF inv clean(1) False pos(1,2)] by blast
    have p1: "lfpos b1 = word_of_nat pos" "\<not> lfdbdirty b1" using 1(3,7) pos(1) clean(2) by (simp_all add: evolves_def)
    let ?k = "length ns - 1"
    have k: "j \<le> ?k" "?k < length ns" "?k \<le> pos div 8192" "Suc ?k = length ns" using 1(4) False pos(3) by (auto simp: at_index_def)
    obtain b2 where 2: "walk_ib c (put s c b1 d r x) = walk_ib c (put s c b2 d r x)" "file_inv ds b2 d r ns bs ifl dfl"
      "evolves ds ns bs ifl dfl (b1, d, r) (b2, d, r)" "at_index b2 ns bs ?k" "\<not> lfibdirty b2" "\<not> lfdbdirty b2"
      using walk_ib_run [OF 1(2,6) p1(2) 1(4) p1(1) pos(2) k(1-3)] by blast
    have e12: "evolves ds ns bs ifl dfl (b, d, r) (b2, d, r)" using evolves_trans [OF 1(3) 2(3)] by simp
    then have "lfpos b2 = word_of_nat pos" using pos(1) by (simp add: evolves_def)
    then have "rjoin (of_loop (walk_ib c (put s c b2 d r x))) = rbind (walk_step c (put s c b2 d r x)) (\<lambda>s. rjoin (of_loop (walk_ib c s)))"
      using walk_unfold [OF 2(4) _ pos(2)] pos(3) ln k(2) by (cases "walk_step c (put s c b2 d r x)") simp_all
    then have "index_stage c (put s c b d r x) = rbind (walk_step c (put s c b2 d r x)) (\<lambda>s. rjoin (of_loop (walk_ib c s)))"
      using 1(1) 2(1) by (simp add: index_stage_def)
    then show ?thesis using grown_stop [OF walk_extend [OF 2(2,5,6,4) k(4) pos(4)] e12 pos(1-3) ln] by simp
  qed
qed

section \<open>The data block\<close>

lemma pos_parts:
  assumes "pos < 4294967296"
  shows "unat (drop_bit 9 (word_of_nat pos AND LF_IMASK)) = pos div 512 mod 16" and "unat (word_of_nat pos AND LF_DMASK) = pos mod 512"
proof -
  have u: "unat (word_of_nat pos :: u32) = pos" using assms by (rule unat_of_nat_small)
  have m: "LF_IMASK = mask 13" "LF_DMASK = mask 9" by (simp_all add: LF_IMASK_def LF_DMASK_def mask_eq_exp_minus_1)
  show "unat (word_of_nat pos AND LF_DMASK) = pos mod 512" using u by (simp add: m take_bit_eq_mod unat_mod flip: take_bit_eq_mask)
  have "unat (word_of_nat pos AND LF_IMASK) = pos mod 8192" using u by (simp add: m take_bit_eq_mod unat_mod flip: take_bit_eq_mask)
  then have "unat (drop_bit 9 (word_of_nat pos AND LF_IMASK)) = pos mod 8192 div 512" by (simp add: drop_bit_eq_div unat_div)
  also have "\<dots> = pos div 512 mod 16" using div_mult2_eq [of pos 512 16] mod_mult2_eq [of pos 512 16] by simp
  finally show "unat (drop_bit 9 (word_of_nat pos AND LF_IMASK)) = pos div 512 mod 16" .
qed

text \<open>The entry of the index block for a position.\<close>

lemma index_entry:
  assumes "at_index b ns bs (pos div 8192)"
  shows "ib_dba (lfiblock b) ! (pos div 512 mod 16) = (if pos div 512 < length bs then word_of_nat (bs ! (pos div 512)) else LF_DNULL)"
proof -
  have "16 * (pos div 8192) + pos div 512 mod 16 = pos div 512" using div_mult2_eq [of pos 512 16] by simp
  then show ?thesis using assms by (simp add: at_index_def mk_ib_def LF_IBLEN_def)
qed

text \<open>The data block in memory is the one of position \<open>pos\<close>, and the byte pointer is there.\<close>

definition at_byte :: "lflcblk \<Rightarrow> nat list \<Rightarrow> nat \<Rightarrow> bool" where
  "at_byte b bs pos \<longleftrightarrow> pos div 512 < length bs \<and> lfdnum b = word_of_nat (bs ! (pos div 512)) \<and> lfbyte b = pos mod 512"

lemma setup_db_keep:
  assumes inv: "file_inv ds b d r ns bs ifl dfl" and clean: "\<not> lfdbdirty b" and at: "at_index b ns bs (pos div 8192)"
    and pos: "lfpos b = word_of_nat pos" "pos < 4294967296" "pos div 512 < length bs"
  shows "\<exists>b'. setup_db c (put s c b d r x) = Ret (put s c b' d r x) \<and> file_inv ds b' d r ns bs ifl dfl \<and>
    evolves ds ns bs ifl dfl (b, d, r) (b', d, r) \<and> at_byte b' bs pos"
proof -
  have g: "geometry ds ns bs ifl dfl" using inv by (simp add: file_inv_def)
  let ?m = "bs ! (pos div 512)"
  have m: "?m \<in> set bs" using pos(3) by simp
  note gm = geometry_data [OF g, of ?m]
  have v: "dbv b d k = sect d k" if "k \<in> set bs" for k by (rule clean_db [OF inv clean that])
  let ?b' = "b\<lparr>lfdblock := sect d ?m, lfdnum := word_of_nat ?m, lfbyte := pos mod 512\<rparr>"
  have clr: "b\<lparr>lfdbdirty := False\<rparr> = b" using clean by simp
  have same: "lfdblock b = sect d ?m" if "lfdnum b = word_of_nat ?m" using v [OF m] that by (simp add: dbv_def)
  have dn: "ib_dba (lfiblock b) ! unat (drop_bit 9 (lfpos b AND LF_IMASK)) = word_of_nat ?m"
    unfolding pos(1) pos_parts(1) [OF pos(2)] using index_entry [OF at] pos(3) by simp
  have nn: "(word_of_nat ?m :: u32) \<noteq> -1" using gm(1) m by simp
  have byt: "unat (lfpos b AND LF_DMASK) = pos mod 512" using pos_parts(2) [OF pos(2)] pos(1) by simp
  have "setup_db c (put s c b d r x) = Ret (put s c ?b' d r x)"
  proof (cases "lfdnum b = word_of_nat ?m")
    case True
    then have "b\<lparr>lfdnum := word_of_nat ?m, lfbyte := pos mod 512\<rparr> = ?b'" using same by simp
    then show ?thesis using True dn nn by (simp add: setup_db_def LF_DNULL_def Let_def byt del: drop_bit_and)
  next
    case False
    have "b\<lparr>lfdblock := sect d ?m, lfdbdirty := False\<rparr> = b\<lparr>lfdblock := sect d ?m\<rparr>" using clean by simp
    then show ?thesis using False dn nn ramread_ok [OF gm(2,3), of d] m by (simp add: setup_db_def LF_DNULL_def Let_def byt del: drop_bit_and)
  qed
  moreover have "file_inv ds ?b' d r ns bs ifl dfl" using inv clean m by (auto simp: file_inv_def cached_def ibv_def)
  moreover have "dbv ?b' d k = dbv b d k" if "k \<in> set bs" for k
    using v [OF that] gm(1) m geometry_data(1) [OF g, of k] that by (auto simp: dbv_def)
  then have "evolves ds ns bs ifl dfl (b, d, r) (?b', d, r)" by (simp add: evolves_def disk_frame_def dir_frame_def)
  ultimately show ?thesis using pos(3) by (intro exI [of _ ?b']) (simp add: at_byte_def)
qed

lemma mk_ib_append:
  assumes "16 * k \<le> length bs" "length bs < 16 * k + 16"
  shows "i \<noteq> k \<Longrightarrow> mk_ib ns (bs @ [m]) i = mk_ib ns bs i"
    and "mk_ib ns (bs @ [m]) k = (mk_ib ns bs k)\<lparr>ib_dba := (ib_dba (mk_ib ns bs k))[length bs mod 16 := word_of_nat m]\<rparr>"
proof -
  have e: "16 * k + length bs mod 16 = length bs"
  proof -
    have "length bs div 16 = k" using assms by (intro div_nat_eqI) auto
    then show ?thesis using mult_div_mod_eq [of 16 "length bs"] by simp
  qed
  show "mk_ib ns (bs @ [m]) i = mk_ib ns bs i" if "i \<noteq> k"
    using assms that by (cases "i < k") (auto simp: mk_ib_def nth_append LF_IBLEN_def)
  have "map (\<lambda>i. if 16 * k + i < length (bs @ [m]) then word_of_nat ((bs @ [m]) ! (16 * k + i)) else LF_DNULL) [0..<LF_IBLEN] =
      (map (\<lambda>i. if 16 * k + i < length bs then word_of_nat (bs ! (16 * k + i)) else LF_DNULL) [0..<LF_IBLEN])[length bs mod 16 := word_of_nat m]"
    using e by (intro nth_equalityI) (auto simp: nth_append nth_list_update LF_IBLEN_def)
  then show "mk_ib ns (bs @ [m]) k = (mk_ib ns bs k)\<lparr>ib_dba := (ib_dba (mk_ib ns bs k))[length bs mod 16 := word_of_nat m]\<rparr>"
    by (simp add: mk_ib_def)
qed

text \<open>A new data block; it becomes dirty as soon as the byte is stored.\<close>

lemma new_data_block:
  assumes inv: "file_inv ds b d r ns bs ifl (m # l)" and clean: "\<not> lfdbdirty b" and at: "at_index b ns bs k"
    and k: "16 * k \<le> length bs" "length bs < 16 * k + 16"
    and r': "r' = r\<lparr>lfd_dfree := first l\<rparr>" and d': "d' = put_sect 0 z d" "length z = 512"
    and b': "b' = b\<lparr>lfiblock := mk_ib ns (bs @ [m]) k, lfdnum := word_of_nat m, lfdblock := w, lfbyte := y, lfibdirty := True, lfdbdirty := True\<rparr>"
      "length w = 512"
  shows "file_inv ds b' d' r' ns (bs @ [m]) ifl l" and "evolves ds ns bs ifl (m # l) (b, d, r) (b', d', r')"
proof -
  have g: "geometry ds ns bs ifl (m # l)" and ds: "1 \<le> ds" using inv by (auto simp: file_inv_def geometry_def)
  have ib: "disk_ib d' n = disk_ib d n" for n using d' by (simp add: disk_ib_put_sect)
  have db: "sect d' i = sect d i" if "ds \<le> i" for i using that ds d' by (simp add: sect_put)
  have kn: "k < length ns" "lfinum b = word_of_nat (ns ! k)" using at by (auto simp: at_index_def)
  have "ibv b' d' (ns ! i) = mk_ib ns (bs @ [m]) i" if i: "i < length ns" for i
  proof (cases "i = k")
    case True
    then show ?thesis using kn(2) by (simp add: ibv_def b')
  next
    case False
    then have "ns ! i \<noteq> ns ! k" using g i kn(1) by (simp add: geometry_def nth_eq_iff_index_eq)
    then have ne: "lfinum b \<noteq> word_of_nat (ns ! i)"
      using kn i geometry_index(1) [OF g, of "ns ! i"] geometry_index(1) [OF g, of "ns ! k"] by simp
    then have "ibv b' d' (ns ! i) = ibv b d (ns ! i)" by (simp add: ibv_def b' ib)
    then show ?thesis using inv i mk_ib_append(1) [OF k False] by (simp add: file_inv_def)
  qed
  moreover have "linked (\<lambda>i. dec32 (sect d' i)) l = linked (\<lambda>i. dec32 (sect d i)) l"
    by (rule linked_cong) (use geometry_data(4) [OF g] db in auto)
  moreover have "geometry ds ns (bs @ [m]) ifl l" using g by (auto simp: geometry_def)
  moreover have "cached b' d' ns (bs @ [m])" using kn b'(2) by (auto simp: b'(1) cached_def)
  moreover have "length (bs @ [m]) \<le> 16 * length ns" using k(2) kn(1) by simp
  ultimately show "file_inv ds b' d' r' ns (bs @ [m]) ifl l" using inv by (simp add: file_inv_def b'(1) r' ib dir_ok_def)
  have mb: "m \<notin> set bs" using g by (auto simp: geometry_def)
  have "dbv b' d' i = dbv b d i" if "i \<in> set bs" for i
  proof -
    have "(word_of_nat m :: u32) \<noteq> word_of_nat i" using mb that geometry_data(1) [OF g, of m] geometry_data(1) [OF g, of i] by auto
    then show ?thesis using clean_db [OF inv clean that] geometry_data(4) [OF g, of i] that db by (simp add: dbv_def b'(1))
  qed
  then show "evolves ds ns bs ifl (m # l) (b, d, r) (b', d', r')"
    using db by (simp add: evolves_def disk_frame_def dir_frame_def ib b'(1) r')
qed

lemma setup_db_extend:
  assumes inv: "file_inv ds b d r ns bs ifl dfl" and clean: "\<not> lfdbdirty b" and at: "at_index b ns bs (pos div 8192)"
    and pos: "lfpos b = word_of_nat pos" "pos < 4294967296" "pos = 512 * length bs"
  shows "dfl = [] \<Longrightarrow> setup_db c (put s c b d r x) = Halted"
    and "dfl = m # l \<Longrightarrow> \<exists>b' d' r'. setup_db c (put s c b d r x) = Ret (put s c b' d' r' False) \<and>
      file_inv ds (b'\<lparr>lfdbdirty := True\<rparr>) d' r' ns (bs @ [m]) ifl l \<and>
      evolves ds ns bs ifl dfl (b, d, r) (b'\<lparr>lfdbdirty := True\<rparr>, d', r') \<and> at_byte b' (bs @ [m]) pos"
proof -
  have g: "geometry ds ns bs ifl dfl" "dir_ok r" "lfd_dfree r = first dfl" "linked (\<lambda>m. dec32 (sect d m)) dfl"
    using inv by (auto simp: file_inv_def)
  note al = lfdballoc_run [OF g, where s = s and c = c and b = b and x = x]
  have D: "pos div 512 = length bs" "pos mod 512 = 0" "pos div 8192 = length bs div 16" using pos(3) div_mult2_eq [of pos 512 16] by simp_all
  have dn: "ib_dba (lfiblock b) ! unat (drop_bit 9 (lfpos b AND LF_IMASK)) = -1"
    unfolding pos(1) pos_parts(1) [OF pos(2)] using index_entry [OF at] D by (simp add: LF_DNULL_def)
  show "dfl = [] \<Longrightarrow> setup_db c (put s c b d r x) = Halted" using al(1) dn by (simp add: setup_db_def LF_DNULL_def Let_def del: drop_bit_and)
  assume i: "dfl = m # l"
  let ?k = "pos div 8192" and ?r = "r\<lparr>lfd_dfree := first l\<rparr>"
  have k: "16 * ?k \<le> length bs" "length bs < 16 * ?k + 16" unfolding D(3) by simp_all
  let ?d' = "put_sect 0 (enc_dir ?r) d"
  let ?b' = "b\<lparr>lfdblock := replicate LF_BLKSIZ DFILL, lfiblock := mk_ib ns (bs @ [m]) ?k, lfibdirty := True, lfdnum := word_of_nat m, lfbyte := pos mod 512\<rparr>"
  have byt: "unat (lfpos b AND LF_DMASK) = pos mod 512" "unat (drop_bit 9 (lfpos b AND LF_IMASK)) = length bs mod 16"
    using pos_parts [OF pos(2)] pos(1) D(1) by simp_all
  have ib: "(lfiblock b)\<lparr>ib_dba := (ib_dba (lfiblock b))[length bs mod 16 := word_of_nat m]\<rparr> = mk_ib ns (bs @ [m]) ?k"
    using at mk_ib_append(2) [OF k] by (simp add: at_index_def)
  have run: "setup_db c (put s c b d r x) = Ret (put s c ?b' ?d' ?r False)"
    using al(2) [OF i] dn ib by (simp add: setup_db_def LF_DNULL_def Let_def byt del: drop_bit_and)
  have len: "length (enc_dir ?r) = 512" using g(2) by (intro dec_dir_enc(2)) (simp add: dir_ok_def)
  have eq: "?b'\<lparr>lfdbdirty := True\<rparr> = b\<lparr>lfiblock := mk_ib ns (bs @ [m]) ?k, lfdnum := word_of_nat m, lfdblock := replicate LF_BLKSIZ DFILL,
      lfbyte := pos mod 512, lfibdirty := True, lfdbdirty := True\<rparr>" by (cases b) simp
  have "file_inv ds (?b'\<lparr>lfdbdirty := True\<rparr>) ?d' ?r ns (bs @ [m]) ifl l \<and> evolves ds ns bs ifl (m # l) (b, d, r) (?b'\<lparr>lfdbdirty := True\<rparr>, ?d', ?r)"
    unfolding eq using new_data_block [OF inv [unfolded i] clean at k refl refl len refl, of "replicate LF_BLKSIZ DFILL" "pos mod 512"]
    by (simp add: LF_BLKSIZ_def)
  then show "\<exists>b' d' r'. setup_db c (put s c b d r x) = Ret (put s c b' d' r' False) \<and>
      file_inv ds (b'\<lparr>lfdbdirty := True\<rparr>) d' r' ns (bs @ [m]) ifl l \<and>
      evolves ds ns bs ifl dfl (b, d, r) (b'\<lparr>lfdbdirty := True\<rparr>, d', r') \<and> at_byte b' (bs @ [m]) pos"
    using run D i by (intro exI [of _ ?b'] exI [of _ ?d'] exI [of _ ?r]) (simp add: at_byte_def)
qed

end
