(* ===== verification/LfsRefine.thy ===== *)
theory LfsRefine
  imports LfsFile
begin

text \<open>
  The local file system implements files that are byte sequences: the routine that brings the block of the current position into memory (\<open>lfsetup\<close>) with its mutual
  exclusion, the byte operations on top of it, and the sequences of operations that an owner of the file performs.
\<close>

section \<open>Mutual exclusion\<close>

definition mutex_free :: "int \<Rightarrow> kernel \<Rightarrow> bool" where
  "mutex_free sem k \<longleftrightarrow> \<not> isbadsem sem \<and> sstate (semtab k sem) \<noteq> S_FREE \<and> scount (semtab k sem) = 1"

lemma mutex_free_other [simp]: "sem \<noteq> sem' \<Longrightarrow> mutex_free sem (set_scount sem' n k) = mutex_free sem k"
  by (simp add: mutex_free_def)

lemma lf_wait_free: "mutex_free sem (lkern s) \<Longrightarrow> lf_wait sem s = Ret (True, s\<lparr>lkern := set_scount sem 0 (lkern s)\<rparr>)"
  by (simp add: lf_wait_def wait_def mutex_free_def Let_def)

lemma set_scount_back: "scount (semtab k sem) = 1 \<Longrightarrow> set_scount sem 1 (set_scount sem 0 k) = k"
proof -
  assume "scount (semtab k sem) = 1"
  then have "(semtab k sem)\<lparr>scount := 1\<rparr> = semtab k sem" by simp
  then show ?thesis by (simp add: set_scount_def upd_sem_def)
qed

lemma lf_signal_taken: "mutex_free sem k \<Longrightarrow> lkern s = set_scount sem 0 k \<Longrightarrow> lf_signal sem s = Ret (s\<lparr>lkern := k\<rparr>)"
  by (simp add: lf_signal_def signal_def signal_one_def mutex_free_def Let_def set_scount_back wrap32_id)

section \<open>The blocks of the current position\<close>

definition setup_blocks :: "nat \<Rightarrow> lfs \<Rightarrow> lfs result" where
  "setup_blocks c s =
    rbind (if lfibdirty (lfltab s c) \<or> lfdbdirty (lfltab s c) then rbind (lfflush c s) (\<lambda>(_, s). Ret s) else Ret s) (\<lambda>s.
    rbind (index_stage c s) (setup_db c))"

lemma lfsetup_rest_blocks: "lfsetup_rest c s = rbind (setup_blocks c s) (\<lambda>s. lf_signal (lf_mutex s) s)"
  by (simp add: lfsetup_rest_def setup_blocks_def index_stage_def rbind_assoc)

text \<open>The directory on the disk is the one in memory unless that one is marked.\<close>

definition dir_synced :: "bool \<Rightarrow> disk \<Rightarrow> lfdir \<Rightarrow> bool" where
  "dir_synced x d r \<longleftrightarrow> x \<or> sect d 0 = enc_dir r"

lemma flush_stage:
  assumes inv: "file_inv ds b d r ns bs ifl dfl"
  obtains b' d' x' where "(if lfibdirty b \<or> lfdbdirty b then rbind (lfflush c (put s c b d r x)) (\<lambda>(_, s). Ret s) else Ret (put s c b d r x)) =
      Ret (put s c b' d' r x')"
    "file_inv ds b' d' r ns bs ifl dfl" "evolves ds ns bs ifl dfl (b, d, r) (b', d', r)" "\<not> lfibdirty b'" "\<not> lfdbdirty b'"
    "dir_synced x d r \<longrightarrow> dir_synced x' d' r"
proof (cases "lfibdirty b \<or> lfdbdirty b")
  case True
  obtain d' where "lfflush c (put s c b d r x) = Ret (OK, put s c (b\<lparr>lfdbdirty := False, lfibdirty := False\<rparr>) d' r False)"
    "file_inv ds (b\<lparr>lfdbdirty := False, lfibdirty := False\<rparr>) d' r ns bs ifl dfl"
    "evolves ds ns bs ifl dfl (b, d, r) (b\<lparr>lfdbdirty := False, lfibdirty := False\<rparr>, d', r)"
    "x \<Longrightarrow> sect d' 0 = enc_dir r" "\<not> x \<Longrightarrow> sect d' 0 = sect d 0"
    using lfflush_run [OF inv] by metis
  with True show ?thesis by (intro that [of "b\<lparr>lfdbdirty := False, lfibdirty := False\<rparr>" d' False]; cases x) (auto simp: dir_synced_def)
next
  case False
  then show ?thesis by (intro that [of b d x]) (auto intro: inv evolves_refl)
qed

text \<open>The position is in a block of the file.\<close>

lemma setup_keep:
  assumes inv: "file_inv ds b d r ns bs ifl dfl" and pos: "lfpos b = word_of_nat pos" "pos < 4294967296" "pos div 512 < length bs"
  shows "\<exists>b' d' x'. setup_blocks c (put s c b d r x) = Ret (put s c b' d' r x') \<and> file_inv ds b' d' r ns bs ifl dfl \<and>
    evolves ds ns bs ifl dfl (b, d, r) (b', d', r) \<and> at_byte b' bs pos \<and> (dir_synced x d r \<longrightarrow> dir_synced x' d' r)"
proof -
  obtain b1 d1 x1 where 1: "(if lfibdirty b \<or> lfdbdirty b then rbind (lfflush c (put s c b d r x)) (\<lambda>(_, s). Ret s) else Ret (put s c b d r x)) =
      Ret (put s c b1 d1 r x1)" "file_inv ds b1 d1 r ns bs ifl dfl" "evolves ds ns bs ifl dfl (b, d, r) (b1, d1, r)" "\<not> lfibdirty b1" "\<not> lfdbdirty b1"
    "dir_synced x d r \<longrightarrow> dir_synced x1 d1 r"
    using flush_stage [OF inv] .
  have p1: "lfpos b1 = word_of_nat pos" using 1(3) pos(1) by (simp add: evolves_def)
  have "length bs \<le> 16 * length ns" using inv by (simp add: file_inv_def)
  then have "pos div 8192 < length ns" using pos(3) div_mult2_eq [of pos 512 16] by simp
  then obtain b2 where 2: "index_stage c (put s c b1 d1 r x1) = Ret (put s c b2 d1 r x1)" "file_inv ds b2 d1 r ns bs ifl dfl"
    "evolves ds ns bs ifl dfl (b1, d1, r) (b2, d1, r)" "at_index b2 ns bs (pos div 8192)" "\<not> lfdbdirty b2"
    using index_keep [OF 1(2,4,5) p1 pos(2)] by blast
  have p2: "lfpos b2 = word_of_nat pos" using 2(3) p1 by (simp add: evolves_def)
  obtain b3 where 3: "setup_db c (put s c b2 d1 r x1) = Ret (put s c b3 d1 r x1)" "file_inv ds b3 d1 r ns bs ifl dfl"
    "evolves ds ns bs ifl dfl (b2, d1, r) (b3, d1, r)" "at_byte b3 bs pos"
    using setup_db_keep [OF 2(2,5,4) p2 pos(2,3)] by blast
  have "setup_blocks c (put s c b d r x) = Ret (put s c b3 d1 r x1)" using 1(1) 2(1) 3(1) by (simp add: setup_blocks_def)
  then show ?thesis using 3 evolves_trans [OF 1(3) evolves_trans [OF 2(3) 3(3)]] 1(6) by blast
qed

text \<open>The position is behind the last block, which is full.\<close>

definition room :: "nat list \<Rightarrow> nat list \<Rightarrow> nat list \<Rightarrow> nat list \<Rightarrow> bool" where
  "room ns bs ifl dfl \<longleftrightarrow> dfl \<noteq> [] \<and> (length bs = 16 * length ns \<longrightarrow> ifl \<noteq> [])"

definition ns_next :: "nat list \<Rightarrow> nat list \<Rightarrow> nat list \<Rightarrow> nat list" where
  "ns_next ns bs ifl = (if length bs = 16 * length ns then ns @ [hd ifl] else ns)"

definition ifl_next :: "nat list \<Rightarrow> nat list \<Rightarrow> nat list \<Rightarrow> nat list" where
  "ifl_next ns bs ifl = (if length bs = 16 * length ns then tl ifl else ifl)"

lemma index_grow:
  assumes inv: "file_inv ds b d r ns bs ifl dfl" and clean: "\<not> lfibdirty b" "\<not> lfdbdirty b"
    and pos: "lfpos b = word_of_nat (512 * length bs)"
  shows "length bs = 16 * length ns \<and> ifl = [] \<Longrightarrow> index_stage c (put s c b d r x) = Halted"
    and "\<not> (length bs = 16 * length ns \<and> ifl = []) \<Longrightarrow> \<exists>b' d' r' x'. index_stage c (put s c b d r x) = Ret (put s c b' d' r' x') \<and>
      file_inv ds b' d' r' (ns_next ns bs ifl) bs (ifl_next ns bs ifl) dfl \<and> evolves ds ns bs ifl dfl (b, d, r) (b', d', r') \<and>
      at_index b' (ns_next ns bs ifl) bs (512 * length bs div 8192) \<and> \<not> lfdbdirty b'"
proof -
  have g: "length bs \<le> 200" "length bs \<le> 16 * length ns" using inv geometry_bounds by (auto simp: file_inv_def)
  then have small: "512 * length bs < 4294967296" by simp
  have D: "512 * length bs div 8192 = length bs div 16" using div_mult2_eq [of "512 * length bs" 512 16] by simp
  have ext: "grown ds c s ns bs ifl dfl (b, d, r) (index_stage c (put s c b d r x))" if "length bs = 16 * length ns"
    using index_extend [OF inv clean pos small _ that] D that by simp
  show "length bs = 16 * length ns \<and> ifl = [] \<Longrightarrow> index_stage c (put s c b d r x) = Halted"
    using ext by (auto simp: grown_def)
  show "\<exists>b' d' r' x'. index_stage c (put s c b d r x) = Ret (put s c b' d' r' x') \<and>
      file_inv ds b' d' r' (ns_next ns bs ifl) bs (ifl_next ns bs ifl) dfl \<and> evolves ds ns bs ifl dfl (b, d, r) (b', d', r') \<and>
      at_index b' (ns_next ns bs ifl) bs (512 * length bs div 8192) \<and> \<not> lfdbdirty b'" if more: "\<not> (length bs = 16 * length ns \<and> ifl = [])"
  proof (cases "length bs = 16 * length ns")
    case True
    with more obtain n l where i: "ifl = n # l" by (cases ifl) auto
    then show ?thesis using ext [OF True] True unfolding D by (auto simp: grown_def ns_next_def ifl_next_def)
  next
    case False
    then have "512 * length bs div 8192 < length ns" using g(2) D by simp
    from index_keep [OF inv clean pos small this, of c s x] show ?thesis using False by (simp add: ns_next_def ifl_next_def) blast
  qed
qed

lemma setup_grow:
  assumes inv: "file_inv ds b d r ns bs ifl dfl" and pos: "lfpos b = word_of_nat (512 * length bs)"
  shows "\<not> room ns bs ifl dfl \<Longrightarrow> setup_blocks c (put s c b d r x) = Halted"
    and "room ns bs ifl dfl \<Longrightarrow> \<exists>b' d' r'. setup_blocks c (put s c b d r x) = Ret (put s c b' d' r' False) \<and>
      file_inv ds (b'\<lparr>lfdbdirty := True\<rparr>) d' r' (ns_next ns bs ifl) (bs @ [hd dfl]) (ifl_next ns bs ifl) (tl dfl) \<and>
      evolves ds ns bs ifl dfl (b, d, r) (b'\<lparr>lfdbdirty := True\<rparr>, d', r') \<and> at_byte b' (bs @ [hd dfl]) (512 * length bs)"
proof -
  let ?ns = "ns_next ns bs ifl" and ?il = "ifl_next ns bs ifl"
  obtain b1 d1 x1 where 1: "(if lfibdirty b \<or> lfdbdirty b then rbind (lfflush c (put s c b d r x)) (\<lambda>(_, s). Ret s) else Ret (put s c b d r x)) =
      Ret (put s c b1 d1 r x1)" "file_inv ds b1 d1 r ns bs ifl dfl" "evolves ds ns bs ifl dfl (b, d, r) (b1, d1, r)" "\<not> lfibdirty b1" "\<not> lfdbdirty b1"
    "dir_synced x d r \<longrightarrow> dir_synced x1 d1 r"
    using flush_stage [OF inv] .
  have p1: "lfpos b1 = word_of_nat (512 * length bs)" using 1(3) pos by (simp add: evolves_def)
  have small: "512 * length bs < 4294967296" using geometry_bounds(1) [of ds ns bs ifl dfl] inv by (simp add: file_inv_def)
  have run: "setup_blocks c (put s c b d r x) = rbind (index_stage c (put s c b1 d1 r x1)) (setup_db c)" using 1(1) by (simp add: setup_blocks_def)
  note ig = index_grow [OF 1(2,4,5) p1, where c = c and s = s and x = x1]
  have stage: "(dfl = [] \<longrightarrow> setup_blocks c (put s c b d r x) = Halted) \<and> (dfl \<noteq> [] \<longrightarrow> (\<exists>b' d' r'. setup_blocks c (put s c b d r x) = Ret (put s c b' d' r' False) \<and>
      file_inv ds (b'\<lparr>lfdbdirty := True\<rparr>) d' r' ?ns (bs @ [hd dfl]) ?il (tl dfl) \<and>
      evolves ds ns bs ifl dfl (b, d, r) (b'\<lparr>lfdbdirty := True\<rparr>, d', r') \<and> at_byte b' (bs @ [hd dfl]) (512 * length bs)))"
    if more: "\<not> (length bs = 16 * length ns \<and> ifl = [])"
  proof -
    obtain b2 d2 r2 x2 where 2: "index_stage c (put s c b1 d1 r x1) = Ret (put s c b2 d2 r2 x2)" "file_inv ds b2 d2 r2 ?ns bs ?il dfl"
      "evolves ds ns bs ifl dfl (b1, d1, r) (b2, d2, r2)" "at_index b2 ?ns bs (512 * length bs div 8192)" "\<not> lfdbdirty b2"
      using ig(2) [OF more] by blast
    have p2: "lfpos b2 = word_of_nat (512 * length bs)" using 2(3) p1 by (simp add: evolves_def)
    have sets: "set ?ns \<union> set ?il = set ns \<union> set ifl" using more by (cases ifl) (auto simp: ns_next_def ifl_next_def)
    note e = setup_db_extend [OF 2(2,5,4) p2 small refl, where c = c and s = s and x = x2]
    show ?thesis
    proof (cases dfl)
      case Nil
      then show ?thesis using e(1) run 2(1) by simp
    next
      case (Cons m l)
      from e(2) [OF Cons] obtain b3 d3 r3 where 3: "setup_db c (put s c b2 d2 r2 x2) = Ret (put s c b3 d3 r3 False)"
        "file_inv ds (b3\<lparr>lfdbdirty := True\<rparr>) d3 r3 ?ns (bs @ [m]) ?il l"
        "evolves ds ?ns bs ?il dfl (b2, d2, r2) (b3\<lparr>lfdbdirty := True\<rparr>, d3, r3)" "at_byte b3 (bs @ [m]) (512 * length bs)" by blast
      have "evolves ds ns bs ifl dfl (b, d, r) (b3\<lparr>lfdbdirty := True\<rparr>, d3, r3)"
        using evolves_trans [OF evolves_trans [OF 1(3) 2(3)] 3(3)] sets by simp
      then show ?thesis using 3 run 2(1) Cons by auto
    qed
  qed
  show "\<not> room ns bs ifl dfl \<Longrightarrow> setup_blocks c (put s c b d r x) = Halted" using stage ig(1) run by (cases "length bs = 16 * length ns \<and> ifl = []") (auto simp: room_def)
  show "room ns bs ifl dfl \<Longrightarrow> \<exists>b' d' r'. setup_blocks c (put s c b d r x) = Ret (put s c b' d' r' False) \<and>
      file_inv ds (b'\<lparr>lfdbdirty := True\<rparr>) d' r' ?ns (bs @ [hd dfl]) ?il (tl dfl) \<and>
      evolves ds ns bs ifl dfl (b, d, r) (b'\<lparr>lfdbdirty := True\<rparr>, d', r') \<and> at_byte b' (bs @ [hd dfl]) (512 * length bs)"
    using stage by (auto simp: room_def)
qed

section \<open>A file as a sequence of bytes\<close>

definition holds :: "lflcblk \<Rightarrow> disk \<Rightarrow> nat list \<Rightarrow> u8 list \<Rightarrow> bool" where
  "holds b d bs dat \<longleftrightarrow> (\<forall>p < length dat. dat ! p = dbv b d (bs ! (p div 512)) ! (p mod 512))"

definition file_rep :: "nat \<Rightarrow> lflcblk \<Rightarrow> disk \<Rightarrow> lfdir \<Rightarrow> nat list \<Rightarrow> nat list \<Rightarrow> nat list \<Rightarrow> nat list \<Rightarrow> u8 list \<Rightarrow> nat \<Rightarrow> bool" where
  "file_rep ds b d r ns bs ifl dfl dat pos \<longleftrightarrow> file_inv ds b d r ns bs ifl dfl \<and> length ns = (length bs + 15) div 16 \<and>
    length bs = (length dat + 511) div 512 \<and> ld_size (lfd_files r ! lfdirptr b) = word_of_nat (length dat) \<and> holds b d bs dat \<and>
    lfpos b = word_of_nat pos \<and> pos \<le> length dat \<and> (lfbyte b = LF_BLKSIZ \<or> at_byte b bs pos)"

text \<open>Bounds that every file meets.\<close>

lemma rep_bounds:
  assumes "file_rep ds b d r ns bs ifl dfl dat pos"
  shows "length dat \<le> 512 * length bs" and "length dat < 1000000" and "pos < 4294967296" and "length bs \<le> 200" and "pos < length dat \<Longrightarrow> pos div 512 < length bs"
proof -
  have l: "length bs = (length dat + 511) div 512" "pos \<le> length dat" using assms by (simp_all add: file_rep_def)
  show bs: "length bs \<le> 200" using geometry_bounds(1) [of ds ns bs ifl dfl] assms by (simp add: file_rep_def file_inv_def)
  show *: "length dat \<le> 512 * length bs" unfolding l(1) by simp
  then show **: "length dat < 1000000" using bs by simp
  then show "pos < 4294967296" using l(2) by simp
  show "pos < length dat \<Longrightarrow> pos div 512 < length bs" using * by (simp add: div_less_iff_less_mult)
qed

lemma rep_sizes:
  assumes "file_rep ds b d r ns bs ifl dfl dat pos"
  shows "unat (ld_size (lfd_files r ! lfdirptr b)) = length dat" and "unat (lfpos b) = pos"
  using assms rep_bounds(2,3) [OF assms] by (simp_all add: file_rep_def unat_of_nat_small)

lemma evolves_holds:
  assumes "holds b d bs dat" "evolves ds ns bs ifl dfl (b, d, r) (b', d', r')" "length dat \<le> 512 * length bs"
  shows "holds b' d' (bs @ xs) dat"
proof -
  have "bs ! (p div 512) \<in> set bs" "p div 512 < length bs" if "p < length dat" for p using that assms(3) by (auto simp: div_less_iff_less_mult)
  then show ?thesis using assms(1,2) by (simp add: holds_def evolves_def nth_append)
qed

text \<open>The size in the directory entry does not matter to the blocks.\<close>

lemma file_inv_size:
  assumes inv: "file_inv ds b d r ns bs ifl dfl"
  shows "file_inv ds b d (r\<lparr>lfd_files := (lfd_files r)[lfdirptr b := (lfd_files r ! lfdirptr b)\<lparr>ld_size := z\<rparr>]\<rparr>) ns bs ifl dfl"
proof -
  have l: "lfdirptr b < length (lfd_files r)" "dir_ok r" using inv by (auto simp: file_inv_def dir_ok_def)
  then have "dir_ok (r\<lparr>lfd_files := (lfd_files r)[lfdirptr b := (lfd_files r ! lfdirptr b)\<lparr>ld_size := z\<rparr>]\<rparr>)"
    by (auto simp: dir_ok_def dest!: set_update_subset_insert [THEN subsetD])
  then show ?thesis using inv l(1) by (simp add: file_inv_def)
qed

text \<open>Placing one byte in the block in memory.\<close>

lemma store_byte:
  assumes inv: "file_inv ds (b\<lparr>lfdbdirty := True\<rparr>) d r ns bs ifl dfl" and at: "at_byte b bs pos"
    and b': "b' = b\<lparr>lfpos := w, lfdblock := (lfdblock b)[lfbyte b := ch], lfbyte := y, lfdbdirty := True\<rparr>"
  shows "file_inv ds b' d r ns bs ifl dfl" and "dbv b' d (bs ! (pos div 512)) = (dbv b d (bs ! (pos div 512)))[pos mod 512 := ch]"
    and "j < length bs \<Longrightarrow> j \<noteq> pos div 512 \<Longrightarrow> dbv b' d (bs ! j) = dbv b d (bs ! j)"
proof -
  have g: "geometry ds ns bs ifl dfl" using inv by (simp add: file_inv_def)
  have a: "pos div 512 < length bs" "lfdnum b = word_of_nat (bs ! (pos div 512))" "lfbyte b = pos mod 512" using at by (simp_all add: at_byte_def)
  have "cached b' d ns bs" using inv a(1,2) by (auto simp: file_inv_def cached_def b')
  moreover have "ibv b' d n = ibv (b\<lparr>lfdbdirty := True\<rparr>) d n" for n by (simp add: ibv_def b')
  ultimately show "file_inv ds b' d r ns bs ifl dfl" using inv by (simp add: file_inv_def b')
  show "dbv b' d (bs ! (pos div 512)) = (dbv b d (bs ! (pos div 512)))[pos mod 512 := ch]" using a by (simp add: dbv_def b')
  assume j: "j < length bs" "j \<noteq> pos div 512"
  then have "bs ! j \<noteq> bs ! (pos div 512)" using g a(1) by (simp add: geometry_def nth_eq_iff_index_eq)
  then have "(word_of_nat (bs ! j) :: u32) \<noteq> word_of_nat (bs ! (pos div 512))"
    using geometry_data(1) [OF g, of "bs ! j"] geometry_data(1) [OF g, of "bs ! (pos div 512)"] j(1) a(1) by simp
  then show "dbv b' d (bs ! j) = dbv b d (bs ! j)" using a(2) by (auto simp: dbv_def b')
qed

lemma block_length:
  assumes inv: "file_inv ds b d r ns bs ifl dfl" and at: "at_byte b bs pos"
  shows "length (dbv b d (bs ! (pos div 512))) = 512" and "dbv b d (bs ! (pos div 512)) = lfdblock b"
  using assms by (auto simp: file_inv_def cached_def at_byte_def dbv_def)

lemma store_holds:
  assumes inv: "file_inv ds (b\<lparr>lfdbdirty := True\<rparr>) d r ns bs ifl dfl" and at: "at_byte b bs pos" and h: "holds b d bs dat"
    and b': "b' = b\<lparr>lfpos := w, lfdblock := (lfdblock b)[lfbyte b := ch], lfbyte := y, lfdbdirty := True\<rparr>"
    and len: "length dat' \<le> 512 * length bs" "pos < length dat'"
    and new: "dat' ! pos = ch" "\<And>p. p < length dat' \<Longrightarrow> p \<noteq> pos \<Longrightarrow> p < length dat \<and> dat' ! p = dat ! p"
  shows "holds b' d bs dat'"
proof -
  note s = store_byte [OF inv at b']
  have bl: "length (dbv b d (bs ! (pos div 512))) = 512" using inv at by (auto simp: file_inv_def cached_def at_byte_def dbv_def)
  have "dat' ! p = dbv b' d (bs ! (p div 512)) ! (p mod 512)" if p: "p < length dat'" for p
  proof -
    have j: "p div 512 < length bs" using p len(1) by (simp add: div_less_iff_less_mult)
    consider "p = pos" | "p \<noteq> pos" "p div 512 = pos div 512" "p mod 512 \<noteq> pos mod 512" | "p div 512 \<noteq> pos div 512"
      using div_mult_mod_eq [of p 512] div_mult_mod_eq [of pos 512] by metis
    then show ?thesis
    proof cases
      case 1
      then show ?thesis using s(2) bl new(1) by simp
    next
      case 2
      then have "dat ! p = dbv b d (bs ! (p div 512)) ! (p mod 512)" using h new(2) [OF p] by (simp add: holds_def)
      then show ?thesis using s(2) new(2) [OF p 2(1)] 2 by simp
    next
      case 3
      then have "p \<noteq> pos" by auto
      then have "dat ! p = dbv b d (bs ! (p div 512)) ! (p mod 512)" using h new(2) [OF p] by (simp add: holds_def)
      then show ?thesis using s(3) [OF j 3] new(2) [OF p \<open>p \<noteq> pos\<close>] by simp
    qed
  qed
  then show ?thesis by (simp add: holds_def)
qed

section \<open>The block of the position in memory\<close>

lemma lfsetup_run:
  assumes "mutex_free (lf_mutex s) (lkern s)" and t: "t = s\<lparr>lkern := set_scount (lf_mutex s) 0 (lkern s)\<rparr>"
  shows "setup_blocks c (put t c b d r x) = Ret (put t c b' d' r' x') \<Longrightarrow> lfsetup c (put s c b d r x) = Ret (True, put s c b' d' r' x')"
    and "setup_blocks c (put t c b d r x) = Halted \<Longrightarrow> lfsetup c (put s c b d r x) = Halted"
proof -
  have w: "lf_wait (lf_mutex s) (put s c b d r x) = Ret (True, put t c b d r x)" using lf_wait_free [of "lf_mutex s" "put s c b d r x"] assms by simp
  show "lfsetup c (put s c b d r x) = Halted" if "setup_blocks c (put t c b d r x) = Halted"
    using w that by (simp add: lfsetup_def lfsetup_rest_blocks)
  assume r: "setup_blocks c (put t c b d r x) = Ret (put t c b' d' r' x')"
  have "lf_signal (lf_mutex s) (put t c b' d' r' x') = Ret (put s c b' d' r' x')"
    using lf_signal_taken [OF assms(1), of "put t c b' d' r' x'"] by (simp add: t)
  then show "lfsetup c (put s c b d r x) = Ret (True, put s c b' d' r' x')" using w r by (simp add: lfsetup_def lfsetup_rest_blocks t)
qed

lemma block_ready:
  assumes rep: "file_rep ds b d r ns bs ifl dfl dat pos" and pos: "pos div 512 < length bs" and m: "mutex_free (lf_mutex s) (lkern s)"
  shows "\<exists>b' d' x'. with_block rest c (put s c b d r x) = rest c (put s c b' d' r x') \<and> file_rep ds b' d' r ns bs ifl dfl dat pos \<and>
    evolves ds ns bs ifl dfl (b, d, r) (b', d', r) \<and> at_byte b' bs pos \<and> (dir_synced x d r \<longrightarrow> dir_synced x' d' r)"
proof (cases "lfbyte b \<ge> LF_BLKSIZ")
  case True
  have inv: "file_inv ds b d r ns bs ifl dfl" and p: "lfpos b = word_of_nat pos" using rep by (simp_all add: file_rep_def)
  obtain b' d' x' where 1: "setup_blocks c (put (s\<lparr>lkern := set_scount (lf_mutex s) 0 (lkern s)\<rparr>) c b d r x) =
      Ret (put (s\<lparr>lkern := set_scount (lf_mutex s) 0 (lkern s)\<rparr>) c b' d' r x')"
    "file_inv ds b' d' r ns bs ifl dfl" "evolves ds ns bs ifl dfl (b, d, r) (b', d', r)" "at_byte b' bs pos" "dir_synced x d r \<longrightarrow> dir_synced x' d' r"
    using setup_keep [OF inv p rep_bounds(3) [OF rep] pos] by blast
  have "holds b' d' bs dat" using evolves_holds [OF _ 1(3) rep_bounds(1) [OF rep], of "[]"] rep by (simp add: file_rep_def)
  moreover have "lfdirptr b' = lfdirptr b" "lfpos b' = lfpos b" using 1(3) by (simp_all add: evolves_def)
  ultimately have "file_rep ds b' d' r ns bs ifl dfl dat pos" using rep 1 by (simp add: file_rep_def)
  then show ?thesis using True lfsetup_run(1) [OF m refl 1(1)] 1(3-5) by (auto simp: with_block_def)
next
  case False
  then have "at_byte b bs pos" using rep by (auto simp: file_rep_def)
  then show ?thesis using False rep by (intro exI [of _ b] exI [of _ d] exI [of _ x]) (simp add: with_block_def evolves_refl)
qed

lemma block_grow:
  assumes rep: "file_rep ds b d r ns bs ifl dfl dat pos" and pos: "pos = 512 * length bs" and m: "mutex_free (lf_mutex s) (lkern s)"
  shows "\<not> room ns bs ifl dfl \<Longrightarrow> with_block rest c (put s c b d r x) = Halted"
    and "room ns bs ifl dfl \<Longrightarrow> \<exists>b' d' r'. with_block rest c (put s c b d r x) = rest c (put s c b' d' r' False) \<and>
      file_inv ds (b'\<lparr>lfdbdirty := True\<rparr>) d' r' (ns_next ns bs ifl) (bs @ [hd dfl]) (ifl_next ns bs ifl) (tl dfl) \<and>
      evolves ds ns bs ifl dfl (b, d, r) (b'\<lparr>lfdbdirty := True\<rparr>, d', r') \<and> at_byte b' (bs @ [hd dfl]) pos"
proof -
  have inv: "file_inv ds b d r ns bs ifl dfl" and p: "lfpos b = word_of_nat (512 * length bs)" and "lfbyte b = LF_BLKSIZ"
    using rep pos by (auto simp: file_rep_def at_byte_def)
  then have wb: "with_block rest c (put s c b d r x) = rbind (lfsetup c (put s c b d r x)) (\<lambda>(runs, s). if runs then rest c s else Ret (None, s))"
    by (simp add: with_block_def)
  note g = setup_grow [OF inv p, where c = c and s = "s\<lparr>lkern := set_scount (lf_mutex s) 0 (lkern s)\<rparr>" and x = x]
  show "\<not> room ns bs ifl dfl \<Longrightarrow> with_block rest c (put s c b d r x) = Halted"
    using g(1) lfsetup_run(2) [OF m refl] wb by simp
  assume "room ns bs ifl dfl"
  from g(2) [OF this] obtain b' d' r' where 1: "setup_blocks c (put (s\<lparr>lkern := set_scount (lf_mutex s) 0 (lkern s)\<rparr>) c b d r x) =
      Ret (put (s\<lparr>lkern := set_scount (lf_mutex s) 0 (lkern s)\<rparr>) c b' d' r' False)"
    "file_inv ds (b'\<lparr>lfdbdirty := True\<rparr>) d' r' (ns_next ns bs ifl) (bs @ [hd dfl]) (ifl_next ns bs ifl) (tl dfl)"
    "evolves ds ns bs ifl dfl (b, d, r) (b'\<lparr>lfdbdirty := True\<rparr>, d', r')" "at_byte b' (bs @ [hd dfl]) (512 * length bs)" by blast
  show "\<exists>b' d' r'. with_block rest c (put s c b d r x) = rest c (put s c b' d' r' False) \<and>
      file_inv ds (b'\<lparr>lfdbdirty := True\<rparr>) d' r' (ns_next ns bs ifl) (bs @ [hd dfl]) (ifl_next ns bs ifl) (tl dfl) \<and>
      evolves ds ns bs ifl dfl (b, d, r) (b'\<lparr>lfdbdirty := True\<rparr>, d', r') \<and> at_byte b' (bs @ [hd dfl]) pos"
    using 1(2-4) lfsetup_run(1) [OF m refl 1(1)] wb pos by (intro exI [of _ b'] exI [of _ d'] exI [of _ r']) simp
qed

section \<open>Open files\<close>

definition capacity :: "nat set \<Rightarrow> nat set \<Rightarrow> nat" where
  "capacity I B = 512 * min (card B) (16 * card I)"

text \<open>File \<open>c\<close> is open, holds \<open>dat\<close> and is at \<open>pos\<close>; \<open>I\<close> and \<open>B\<close> are its index and data blocks with the free ones.\<close>

definition ready_mutexes :: "nat \<Rightarrow> lfs \<Rightarrow> bool" where
  "ready_mutexes c s \<longleftrightarrow> mutex_free (lfmutex (lfltab s c)) (lkern s) \<and> mutex_free (lf_mutex s) (lkern s) \<and> lfmutex (lfltab s c) \<noteq> lf_mutex s"

definition file_at :: "nat \<Rightarrow> nat \<Rightarrow> nat set \<Rightarrow> nat set \<Rightarrow> lfs \<Rightarrow> u8 list \<Rightarrow> nat \<Rightarrow> bool" where
  "file_at ds c I B s dat pos \<longleftrightarrow> ready_mutexes c s \<and> dir_synced (lf_dirdirty s) (Ram s) (lf_dir s) \<and> (\<exists>ns bs ifl dfl. file_rep ds (lfltab s c) (Ram s) (lf_dir s) ns bs ifl dfl dat pos \<and>
    I = set ns \<union> set ifl \<and> B = set bs \<union> set dfl)"

text \<open>What the operations on file \<open>c\<close> leave alone.\<close>

definition dir_others :: "nat \<Rightarrow> lfdir \<Rightarrow> lfdir \<Rightarrow> bool" where
  "dir_others f r r' \<longleftrightarrow> dir_head r' = dir_head r \<and> (\<forall>g. g \<noteq> f \<longrightarrow> lfd_files r' ! g = lfd_files r ! g) \<and>
    ld_name (lfd_files r' ! f) = ld_name (lfd_files r ! f)"

definition keeps :: "nat \<Rightarrow> nat \<Rightarrow> nat set \<Rightarrow> nat set \<Rightarrow> lfs \<Rightarrow> lfs \<Rightarrow> bool" where
  "keeps ds c I B s s' \<longleftrightarrow> lkern s' = lkern s \<and> lf_mutex s' = lf_mutex s \<and> lf_dirpresent s' = lf_dirpresent s \<and>
    (\<forall>i. i \<noteq> c \<longrightarrow> lfltab s' i = lfltab s i) \<and> disk_frame ds I B (Ram s) (Ram s') \<and> dir_others (lfdirptr (lfltab s c)) (lf_dir s) (lf_dir s') \<and>
    lfdirptr (lfltab s' c) = lfdirptr (lfltab s c) \<and> lfmutex (lfltab s' c) = lfmutex (lfltab s c) \<and>
    lfdev (lfltab s' c) = lfdev (lfltab s c) \<and> lfname (lfltab s' c) = lfname (lfltab s c)"

lemma keeps_refl: "keeps ds c I B s s"
  by (simp add: keeps_def disk_frame_def dir_others_def)

lemma keeps_trans: "keeps ds c I B s t \<Longrightarrow> keeps ds c I B t u \<Longrightarrow> keeps ds c I B s u"
  by (simp add: keeps_def disk_frame_def dir_others_def)

lemma evolves_dir_others: "evolves ds ns bs ifl dfl (b, d, r) (b', d', r') \<Longrightarrow> dir_others (lfdirptr b) r r'"
  by (simp add: evolves_def dir_frame_def dir_others_def)

lemma rep_capacity:
  assumes "file_rep ds b d r ns bs ifl dfl dat pos"
  shows "capacity (set ns \<union> set ifl) (set bs \<union> set dfl) = 512 * min (length bs + length dfl) (16 * (length ns + length ifl))"
    and "512 * length bs \<le> capacity (set ns \<union> set ifl) (set bs \<union> set dfl)"
    and "room ns bs ifl dfl \<longleftrightarrow> 512 * length bs < capacity (set ns \<union> set ifl) (set bs \<union> set dfl)"
proof -
  have g: "distinct (ns @ ifl)" "distinct (bs @ dfl)" and l: "length bs \<le> 16 * length ns"
    using assms by (auto simp: file_rep_def file_inv_def geometry_def)
  have "card (set ns \<union> set ifl) = length ns + length ifl" "card (set bs \<union> set dfl) = length bs + length dfl"
    using distinct_card [OF g(1)] distinct_card [OF g(2)] by simp_all
  then show c: "capacity (set ns \<union> set ifl) (set bs \<union> set dfl) = 512 * min (length bs + length dfl) (16 * (length ns + length ifl))"
    by (simp add: capacity_def)
  show "512 * length bs \<le> capacity (set ns \<union> set ifl) (set bs \<union> set dfl)" unfolding c using l by simp
  have "length bs < min (length bs + length dfl) (16 * (length ns + length ifl)) \<longleftrightarrow> dfl \<noteq> [] \<and> (length bs = 16 * length ns \<longrightarrow> ifl \<noteq> [])"
    using l by (cases dfl; cases ifl) auto
  then show "room ns bs ifl dfl \<longleftrightarrow> 512 * length bs < capacity (set ns \<union> set ifl) (set bs \<union> set dfl)" unfolding c room_def by simp
qed

section \<open>Bytes\<close>

definition overwrite :: "nat \<Rightarrow> 'a list \<Rightarrow> 'a list \<Rightarrow> 'a list" where
  "overwrite pos xs dat = take pos dat @ xs @ drop (pos + length xs) dat"

lemma overwrite_one:
  assumes "pos \<le> length dat"
  shows "length (overwrite pos [ch] dat) = max (length dat) (pos + 1)" and "overwrite pos [ch] dat ! pos = ch"
    and "p < length (overwrite pos [ch] dat) \<Longrightarrow> p \<noteq> pos \<Longrightarrow> p < length dat \<and> overwrite pos [ch] dat ! p = dat ! p"
proof -
  show l: "length (overwrite pos [ch] dat) = max (length dat) (pos + 1)" using assms by (simp add: overwrite_def)
  show "overwrite pos [ch] dat ! pos = ch" using assms by (simp add: overwrite_def nth_append)
  show "p < length (overwrite pos [ch] dat) \<Longrightarrow> p \<noteq> pos \<Longrightarrow> p < length dat \<and> overwrite pos [ch] dat ! p = dat ! p"
    unfolding l using assms by (cases "p < pos") (auto simp: overwrite_def nth_append nth_Cons')
qed

text \<open>The state inside an operation, with the mutex of the file taken.\<close>

lemma with_mutex_run:
  "mutex_free (lfmutex (lfltab s c)) (lkern s) \<Longrightarrow> with_mutex rest c s = rest c (s\<lparr>lkern := set_scount (lfmutex (lfltab s c)) 0 (lkern s)\<rparr>)"
  by (simp add: with_mutex_def lf_wait_free)

lemma lf_return_taken:
  "mutex_free m k \<Longrightarrow> lkern s = set_scount m 0 k \<Longrightarrow> lf_return m v s = Ret (Some v, s\<lparr>lkern := k\<rparr>)"
  by (simp add: lf_return_def lf_signal_taken)

text \<open>The byte operations on a file whose block is in memory.\<close>

lemma next_byte:
  assumes "at_byte b bs pos" "lfdnum b' = lfdnum b" "lfbyte b' = lfbyte b + 1"
  shows "lfbyte b' = LF_BLKSIZ \<or> at_byte b' bs (pos + 1)"
proof (cases "pos mod 512 = 511")
  case True
  then show ?thesis using assms by (simp add: at_byte_def LF_BLKSIZ_def)
next
  case False
  then have "(pos + 1) mod 512 = pos mod 512 + 1" "(pos + 1) div 512 = pos div 512" by (simp_all add: mod_Suc div_Suc)
  then show ?thesis using assms by (simp add: at_byte_def)
qed

lemma cursor_simps [simp]:
  "file_inv ds (b\<lparr>lfpos := w, lfbyte := y\<rparr>) d r ns bs ifl dfl = file_inv ds b d r ns bs ifl dfl"
  "holds (b\<lparr>lfpos := w, lfbyte := y\<rparr>) d bs dat = holds b d bs dat"
  by (simp_all add: file_inv_def cached_def ibv_def holds_def dbv_def)

lemma rep_advance:
  assumes rep: "file_rep ds b d r ns bs ifl dfl dat pos" and at: "at_byte b bs pos" and pos: "pos < length dat"
  shows "file_rep ds (b\<lparr>lfpos := lfpos b + 1, lfbyte := lfbyte b + 1\<rparr>) d r ns bs ifl dfl dat (pos + 1)"
    and "lfdblock b ! lfbyte b = dat ! pos"
proof -
  let ?b = "b\<lparr>lfpos := lfpos b + 1, lfbyte := lfbyte b + 1\<rparr>"
  have inv: "file_inv ds b d r ns bs ifl dfl" using rep by (simp add: file_rep_def)
  have "lfbyte ?b = LF_BLKSIZ \<or> at_byte ?b bs (pos + 1)" by (rule next_byte [OF at]) simp_all
  then show "file_rep ds ?b d r ns bs ifl dfl dat (pos + 1)" using rep pos by (simp add: file_rep_def)
  show "lfdblock b ! lfbyte b = dat ! pos"
    using rep pos block_length(2) [OF inv at] at by (simp add: file_rep_def holds_def at_byte_def)
qed

definition same_file_block :: "lflcblk \<Rightarrow> lflcblk \<Rightarrow> bool" where
  "same_file_block b b' \<longleftrightarrow> lfdirptr b' = lfdirptr b \<and> lfmutex b' = lfmutex b \<and> lfdev b' = lfdev b \<and> lfname b' = lfname b"

lemma round_up: "n \<le> 512 * ((n + 511) div 512)" for n :: nat
  by linarith

lemma put_stored:
  assumes inv: "file_inv ds (b\<lparr>lfdbdirty := True\<rparr>) d r ns bs ifl dfl" and at: "at_byte b bs pos" and h: "holds b d bs dat"
    and pos: "pos \<le> length dat" "lfpos b = word_of_nat pos" and size: "ld_size (lfd_files r ! lfdirptr b) = word_of_nat (length dat)"
    and len: "length ns = (length bs + 15) div 16" "length bs = (max (length dat) (pos + 1) + 511) div 512"
    and mut: "mutex_free (lfmutex b) k" "lkern s = set_scount (lfmutex b) 0 k"
  shows "\<exists>b' r' x'. lflputc_byte ch c (put s c b d r x) = Ret (Some OK, put (s\<lparr>lkern := k\<rparr>) c b' d r' x') \<and>
    file_rep ds b' d r' ns bs ifl dfl (overwrite pos [ch] dat) (pos + 1) \<and> dir_others (lfdirptr b) r r' \<and> same_file_block b b' \<and>
    (length dat \<le> pos \<or> dir_synced x d r \<longrightarrow> dir_synced x' d r')"
proof -
  let ?f = "lfdirptr b" and ?dat = "overwrite pos [ch] dat"
  define b' where "b' = b\<lparr>lfpos := lfpos b + 1, lfdblock := (lfdblock b)[lfbyte b := ch], lfbyte := lfbyte b + 1, lfdbdirty := True\<rparr>"
  define r' where "r' = (if pos < length dat then r else r\<lparr>lfd_files := (lfd_files r)[?f := (lfd_files r ! ?f)\<lparr>ld_size := ld_size (lfd_files r ! ?f) + 1\<rparr>]\<rparr>)"
  have "length bs \<le> 200" using geometry_bounds(1) [of ds ns bs ifl dfl] inv by (simp add: file_inv_def)
  moreover have cap: "max (length dat) (pos + 1) \<le> 512 * length bs" unfolding len(2) by (rule round_up)
  ultimately have small: "length dat < 4294967296" "pos < 4294967296" by simp_all
  have le: "ld_size (lfd_files r ! ?f) \<le> lfpos b \<longleftrightarrow> length dat \<le> pos"
    unfolding size pos(2) word_le_nat_alt using small by (simp add: unat_of_nat_small)
  have run: "lflputc_byte ch c (put s c b d r x) = Ret (Some OK, put (s\<lparr>lkern := k\<rparr>) c b' d r' (if pos < length dat then x else True))"
    using le mut lf_return_taken [OF mut(1)] by (simp add: lflputc_byte_def Let_def b'_def r'_def)
  have inv1: "file_inv ds b' d r ns bs ifl dfl" by (rule store_byte(1) [OF inv at b'_def])
  have f: "lfdirptr b' = ?f" "?f < length (lfd_files r)" using inv by (auto simp: b'_def file_inv_def dir_ok_def)
  have inv2: "file_inv ds b' d r' ns bs ifl dfl" using inv1 file_inv_size [OF inv1] f(1) by (simp add: r'_def)
  have "holds b' d bs ?dat"
    by (rule store_holds [OF inv at h b'_def]) (use overwrite_one [OF pos(1)] cap in auto)
  moreover have "ld_size (lfd_files r' ! ?f) = word_of_nat (length ?dat)"
  proof -
    have "length ?dat = (if pos < length dat then length dat else Suc (length dat))" using pos(1) by (auto simp: overwrite_one(1) [OF pos(1)])
    then show ?thesis using size f(2) by (simp add: r'_def)
  qed
  moreover have "lfbyte b' = LF_BLKSIZ \<or> at_byte b' bs (pos + 1)" by (rule next_byte [OF at]) (simp_all add: b'_def)
  ultimately have "file_rep ds b' d r' ns bs ifl dfl ?dat (pos + 1)"
    using inv2 len f(1) pos(2) by (simp add: file_rep_def overwrite_one(1) [OF pos(1)] b'_def)
  moreover have "dir_others ?f r r'" using f(2) by (simp add: dir_others_def r'_def)
  moreover have "length dat \<le> pos \<or> dir_synced x d r \<longrightarrow> dir_synced (if pos < length dat then x else True) d r'"
    by (auto simp: dir_synced_def r'_def)
  ultimately show ?thesis using run by (intro exI [of _ b'] exI [of _ r'] exI [of _ "if pos < length dat then x else True"]) (simp add: b'_def same_file_block_def)
qed

lemma at_locked:
  assumes "file_at ds c I B s dat pos" and b: "b = lfltab s c" and k: "k = lkern s"
  obtains ns bs ifl dfl where "file_rep ds b (Ram s) (lf_dir s) ns bs ifl dfl dat pos" "I = set ns \<union> set ifl" "B = set bs \<union> set dfl"
    "mutex_free (lfmutex b) k" "mutex_free (lf_mutex s) (set_scount (lfmutex b) 0 k)"
    "\<forall>rest. with_mutex rest c s = rest c (put (s\<lparr>lkern := set_scount (lfmutex b) 0 k\<rparr>) c b (Ram s) (lf_dir s) (lf_dirdirty s))"
proof -
  have m: "mutex_free (lfmutex b) k" "mutex_free (lf_mutex s) k" "lfmutex b \<noteq> lf_mutex s"
    using assms by (simp_all add: file_at_def ready_mutexes_def)
  have e: "put (s\<lparr>lkern := z\<rparr>) c b (Ram s) (lf_dir s) (lf_dirdirty s) = s\<lparr>lkern := z\<rparr>" for z unfolding b put_def by simp
  show ?thesis using assms(1) m that with_mutex_run [of s c] b k unfolding e by (auto simp: file_at_def)
qed

text \<open>Back from the parts to the state.\<close>

lemma at_released:
  assumes "file_at ds c I B s dat pos" "file_rep ds b' d' r' ns bs ifl dfl dat' pos'" "I = set ns \<union> set ifl" "B = set bs \<union> set dfl"
    "disk_frame ds I B (Ram s) d'" "dir_others (lfdirptr (lfltab s c)) (lf_dir s) r'" "same_file_block (lfltab s c) b'" "dir_synced x d' r'"
  shows "file_at ds c I B (put s c b' d' r' x) dat' pos' \<and> keeps ds c I B s (put s c b' d' r' x)"
  using assms by (auto simp: file_at_def ready_mutexes_def keeps_def same_file_block_def)

lemma at_synced: "file_at ds c I B s dat pos \<Longrightarrow> dir_synced (lf_dirdirty s) (Ram s) (lf_dir s)"
  by (simp add: file_at_def)

lemma evolves_same: "evolves ds ns bs ifl dfl (b, d, r) (b', d', r') \<Longrightarrow> same_file_block b b' \<and> disk_frame ds (set ns \<union> set ifl) (set bs \<union> set dfl) d d'"
  by (simp add: evolves_def same_file_block_def)

lemma dir_others_trans: "dir_others f r r' \<Longrightarrow> dir_others f r' r'' \<Longrightarrow> dir_others f r r''"
  by (simp add: dir_others_def)

section \<open>The operations implement those on the sequence\<close>

lemma lflgetc_at:
  assumes at: "file_at ds c I B s dat pos"
  shows "length dat \<le> pos \<Longrightarrow> lflgetc c s = Ret (Some EOF, s)"
    and "pos < length dat \<Longrightarrow> \<exists>s'. lflgetc c s = Ret (Some (uint (dat ! pos)), s') \<and> file_at ds c I B s' dat (pos + 1) \<and> keeps ds c I B s s'"
proof -
  define b k where "b = lfltab s c" and "k = lkern s"
  obtain ns bs ifl dfl where o: "file_rep ds b (Ram s) (lf_dir s) ns bs ifl dfl dat pos" "I = set ns \<union> set ifl" "B = set bs \<union> set dfl"
    "mutex_free (lfmutex b) k" "mutex_free (lf_mutex s) (set_scount (lfmutex b) 0 k)"
    "\<forall>rest. with_mutex rest c s = rest c (put (s\<lparr>lkern := set_scount (lfmutex b) 0 k\<rparr>) c b (Ram s) (lf_dir s) (lf_dirdirty s))"
    using at_locked [OF at b_def k_def] .
  let ?t = "s\<lparr>lkern := set_scount (lfmutex b) 0 k\<rparr>"
  have used: "lfstate b = LF_USED" using o(1) by (simp add: file_rep_def file_inv_def)
  have le: "ld_size (lfd_files (lf_dir s) ! lfdirptr b) \<le> lfpos b \<longleftrightarrow> length dat \<le> pos"
    unfolding word_le_nat_alt rep_sizes [OF o(1)] ..
  have bk: "(put ?t c b' d' r' x')\<lparr>lkern := k\<rparr> = put s c b' d' r' x'" for b' d' r' x' by (simp add: put_def k_def)
  have same: "put s c b (Ram s) (lf_dir s) (lf_dirdirty s) = s" using put_id [of s c] b_def by simp
  show "lflgetc c s = Ret (Some EOF, s)" if "length dat \<le> pos"
    using that le used lf_return_taken [OF o(4), of "put ?t c b (Ram s) (lf_dir s) (lf_dirdirty s)"] same
    by (simp add: lflgetc_def o(6) lflgetc_rest_def Let_def k_def)
  assume pos: "pos < length dat"
  have o5: "mutex_free (lf_mutex ?t) (lkern ?t)" using o(5) by simp
  obtain b1 d1 x1 where 1: "with_block lflgetc_byte c (put ?t c b (Ram s) (lf_dir s) (lf_dirdirty s)) = lflgetc_byte c (put ?t c b1 d1 (lf_dir s) x1)"
    "file_rep ds b1 d1 (lf_dir s) ns bs ifl dfl dat pos" "evolves ds ns bs ifl dfl (b, Ram s, lf_dir s) (b1, d1, lf_dir s)" "at_byte b1 bs pos"
    "dir_synced (lf_dirdirty s) (Ram s) (lf_dir s) \<longrightarrow> dir_synced x1 d1 (lf_dir s)"
    using block_ready [OF o(1) rep_bounds(5) [OF o(1) pos] o5, of lflgetc_byte c "lf_dirdirty s"] by blast
  let ?b = "b1\<lparr>lfpos := lfpos b1 + 1, lfbyte := lfbyte b1 + 1\<rparr>"
  have mb: "lfmutex b1 = lfmutex b" using 1(3) by (simp add: evolves_def)
  note adv = rep_advance [OF 1(2,4) pos]
  have "lflgetc c s = Ret (Some (uint (dat ! pos)), put s c ?b d1 (lf_dir s) x1)"
    using pos le used lf_return_taken [OF o(4), of "put ?t c ?b d1 (lf_dir s) x1"] bk
    by (simp add: lflgetc_def o(6) lflgetc_rest_def 1(1) lflgetc_byte_def Let_def mb adv(2))
  moreover have "file_at ds c I B (put s c ?b d1 (lf_dir s) x1) dat (pos + 1) \<and> keeps ds c I B s (put s c ?b d1 (lf_dir s) x1)"
    by (rule at_released [OF at adv(1) o(2,3)])
      (use evolves_same [OF 1(3)] evolves_dir_others [OF 1(3)] o(2,3) b_def 1(5) at_synced [OF at] in \<open>auto simp: same_file_block_def\<close>)
  ultimately show "\<exists>s'. lflgetc c s = Ret (Some (uint (dat ! pos)), s') \<and> file_at ds c I B s' dat (pos + 1) \<and> keeps ds c I B s s'" by blast
qed

lemma lflseek_at:
  assumes at: "file_at ds c I B s dat pos"
  shows "length dat < unat offset \<Longrightarrow> lflseek offset c s = Ret (Some SYSERR, s)"
    and "unat offset \<le> length dat \<Longrightarrow> \<exists>s'. lflseek offset c s = Ret (Some OK, s') \<and> file_at ds c I B s' dat (unat offset) \<and> keeps ds c I B s s'"
proof -
  define b k where "b = lfltab s c" and "k = lkern s"
  obtain ns bs ifl dfl where o: "file_rep ds b (Ram s) (lf_dir s) ns bs ifl dfl dat pos" "I = set ns \<union> set ifl" "B = set bs \<union> set dfl"
    "mutex_free (lfmutex b) k" "mutex_free (lf_mutex s) (set_scount (lfmutex b) 0 k)"
    "\<forall>rest. with_mutex rest c s = rest c (put (s\<lparr>lkern := set_scount (lfmutex b) 0 k\<rparr>) c b (Ram s) (lf_dir s) (lf_dirdirty s))"
    using at_locked [OF at b_def k_def] .
  let ?t = "s\<lparr>lkern := set_scount (lfmutex b) 0 k\<rparr>" and ?b = "b\<lparr>lfpos := offset, lfbyte := LF_BLKSIZ\<rparr>"
  have used: "lfstate b = LF_USED" using o(1) by (simp add: file_rep_def file_inv_def)
  have le: "ld_size (lfd_files (lf_dir s) ! lfdirptr b) < offset \<longleftrightarrow> length dat < unat offset"
    unfolding word_less_nat_alt rep_sizes [OF o(1)] ..
  have bk: "(put ?t c b' d' r' x')\<lparr>lkern := k\<rparr> = put s c b' d' r' x'" for b' d' r' x' by (simp add: put_def k_def)
  have same: "put s c b (Ram s) (lf_dir s) (lf_dirdirty s) = s" using put_id [of s c] b_def by simp
  show "lflseek offset c s = Ret (Some SYSERR, s)" if "length dat < unat offset"
    using that le used lf_return_taken [OF o(4), of "put ?t c b (Ram s) (lf_dir s) (lf_dirdirty s)"] same
    by (simp add: lflseek_def o(6) lflseek_rest_def Let_def k_def)
  assume pos: "unat offset \<le> length dat"
  have "lflseek offset c s = Ret (Some OK, put s c ?b (Ram s) (lf_dir s) (lf_dirdirty s))"
    using pos le used lf_return_taken [OF o(4), of "put ?t c ?b (Ram s) (lf_dir s) (lf_dirdirty s)"] bk
    by (simp add: lflseek_def o(6) lflseek_rest_def Let_def)
  moreover have "file_rep ds ?b (Ram s) (lf_dir s) ns bs ifl dfl dat (unat offset)"
    using o(1) pos by (simp add: file_rep_def)
  then have "file_at ds c I B (put s c ?b (Ram s) (lf_dir s) (lf_dirdirty s)) dat (unat offset) \<and>
      keeps ds c I B s (put s c ?b (Ram s) (lf_dir s) (lf_dirdirty s))"
    by (rule at_released [OF at _ o(2,3)]) (use b_def at_synced [OF at] in \<open>auto simp: same_file_block_def disk_frame_def dir_others_def\<close>)
  ultimately show "\<exists>s'. lflseek offset c s = Ret (Some OK, s') \<and> file_at ds c I B s' dat (unat offset) \<and> keeps ds c I B s s'" by blast
qed

text \<open>Storing a byte behind the last block: the file grows by a block.\<close>

lemma next_lengths:
  assumes "length ns = (length bs + 15) div 16" "room ns bs ifl dfl"
  shows "length (ns_next ns bs ifl) = (length (bs @ [m]) + 15) div 16" and "set (ns_next ns bs ifl) \<union> set (ifl_next ns bs ifl) = set ns \<union> set ifl"
    and "set (bs @ [hd dfl]) \<union> set (tl dfl) = set bs \<union> set dfl"
proof -
  show "set (ns_next ns bs ifl) \<union> set (ifl_next ns bs ifl) = set ns \<union> set ifl"
    using assms(2) by (cases ifl) (auto simp: ns_next_def ifl_next_def room_def)
  show "set (bs @ [hd dfl]) \<union> set (tl dfl) = set bs \<union> set dfl" using assms(2) by (cases dfl) (auto simp: room_def)
  show "length (ns_next ns bs ifl) = (length (bs @ [m]) + 15) div 16"
  proof (cases "length bs = 16 * length ns")
    case True
    then show ?thesis by (simp add: ns_next_def)
  next
    case False
    then have "16 * length ns \<ge> length bs + 1" "16 * length ns \<le> length bs + 15" using assms(1) by linarith+
    then show ?thesis using False by (simp add: ns_next_def)
  qed
qed

lemma put_keep:
  assumes rep: "file_rep ds b d r ns bs ifl dfl dat pos" and pos: "pos < 512 * length bs" and m: "mutex_free (lf_mutex s) (lkern s)"
    and mut: "mutex_free (lfmutex b) k" "lkern s = set_scount (lfmutex b) 0 k"
  shows "\<exists>b' d' r' x'. with_block (lflputc_byte ch) c (put s c b d r x) = Ret (Some OK, put (s\<lparr>lkern := k\<rparr>) c b' d' r' x') \<and>
    file_rep ds b' d' r' ns bs ifl dfl (overwrite pos [ch] dat) (pos + 1) \<and> dir_others (lfdirptr b) r r' \<and> same_file_block b b' \<and>
    disk_frame ds (set ns \<union> set ifl) (set bs \<union> set dfl) d d' \<and> (dir_synced x d r \<longrightarrow> dir_synced x' d' r')"
proof -
  have "pos div 512 < length bs" using pos by (simp add: div_less_iff_less_mult)
  from block_ready [OF rep this m, of "lflputc_byte ch" c x] obtain b1 d1 x1 where
    1: "with_block (lflputc_byte ch) c (put s c b d r x) = lflputc_byte ch c (put s c b1 d1 r x1)" "file_rep ds b1 d1 r ns bs ifl dfl dat pos"
    "evolves ds ns bs ifl dfl (b, d, r) (b1, d1, r)" "at_byte b1 bs pos" "dir_synced x d r \<longrightarrow> dir_synced x1 d1 r" by blast
  have f: "lfdirptr b1 = lfdirptr b" "lfmutex b1 = lfmutex b" using 1(3) by (simp_all add: evolves_def)
  have r1: "file_inv ds b1 d1 r ns bs ifl dfl" "holds b1 d1 bs dat" "pos \<le> length dat" "lfpos b1 = word_of_nat pos"
    "ld_size (lfd_files r ! lfdirptr b1) = word_of_nat (length dat)" "length ns = (length bs + 15) div 16" "length bs = (length dat + 511) div 512"
    using 1(2) by (simp_all add: file_rep_def)
  have 2: "file_inv ds (b1\<lparr>lfdbdirty := True\<rparr>) d1 r ns bs ifl dfl"
    using r1(1) 1(4) by (auto simp: file_inv_def cached_def ibv_def at_byte_def)
  have 3: "length bs = (max (length dat) (pos + 1) + 511) div 512"
  proof (cases "pos < length dat")
    case True
    then have "max (length dat) (pos + 1) = length dat" by simp
    then show ?thesis using r1(7) by simp
  next
    case False
    then have "max (length dat) (pos + 1) = pos + 1" "pos = length dat" using r1(3) by simp_all
    then show ?thesis using r1(7) pos by linarith
  qed
  obtain b' r' x' where "lflputc_byte ch c (put s c b1 d1 r x1) = Ret (Some OK, put (s\<lparr>lkern := k\<rparr>) c b' d1 r' x')"
    "file_rep ds b' d1 r' ns bs ifl dfl (overwrite pos [ch] dat) (pos + 1)" "dir_others (lfdirptr b1) r r'" "same_file_block b1 b'" "dir_synced x1 d1 r \<longrightarrow> dir_synced x' d1 r'"
    using put_stored [OF 2 1(4) r1(2-6) 3 mut [folded f(2)], of ch c x1] by blast
  then show ?thesis using 1(1,5) evolves_same [OF 1(3)] f by (auto simp: same_file_block_def)
qed

lemma put_grow:
  assumes rep: "file_rep ds b d r ns bs ifl dfl dat pos" and pos: "pos = 512 * length bs" and m: "mutex_free (lf_mutex s) (lkern s)"
    and mut: "mutex_free (lfmutex b) k" "lkern s = set_scount (lfmutex b) 0 k" and rm: "room ns bs ifl dfl"
  shows "\<exists>b' d' r' x'. with_block (lflputc_byte ch) c (put s c b d r x) = Ret (Some OK, put (s\<lparr>lkern := k\<rparr>) c b' d' r' x') \<and>
    file_rep ds b' d' r' (ns_next ns bs ifl) (bs @ [hd dfl]) (ifl_next ns bs ifl) (tl dfl) (overwrite pos [ch] dat) (pos + 1) \<and>
    dir_others (lfdirptr b) r r' \<and> same_file_block b b' \<and> disk_frame ds (set ns \<union> set ifl) (set bs \<union> set dfl) d d' \<and> dir_synced x' d' r'"
proof -
  from block_grow(2) [OF rep pos m rm, of "lflputc_byte ch" c x] obtain b1 d1 r1 where
    1: "with_block (lflputc_byte ch) c (put s c b d r x) = lflputc_byte ch c (put s c b1 d1 r1 False)"
    "file_inv ds (b1\<lparr>lfdbdirty := True\<rparr>) d1 r1 (ns_next ns bs ifl) (bs @ [hd dfl]) (ifl_next ns bs ifl) (tl dfl)"
    "evolves ds ns bs ifl dfl (b, d, r) (b1\<lparr>lfdbdirty := True\<rparr>, d1, r1)" "at_byte b1 (bs @ [hd dfl]) pos" by blast
  have f: "lfdirptr b1 = lfdirptr b" "lfmutex b1 = lfmutex b" "lfpos b1 = lfpos b" using 1(3) by (simp_all add: evolves_def)
  have r: "holds b d bs dat" "pos \<le> length dat" "lfpos b = word_of_nat pos" "length ns = (length bs + 15) div 16"
    "length bs = (length dat + 511) div 512" "ld_size (lfd_files r ! lfdirptr b) = word_of_nat (length dat)"
    using rep by (simp_all add: file_rep_def)
  have l: "length dat = pos" using r(2) rep_bounds(1) [OF rep] pos by simp
  have "holds (b1\<lparr>lfdbdirty := True\<rparr>) d1 (bs @ [hd dfl]) dat" by (rule evolves_holds [OF r(1) 1(3) rep_bounds(1) [OF rep]])
  then have h: "holds b1 d1 (bs @ [hd dfl]) dat" by (simp add: holds_def dbv_def)
  have size: "ld_size (lfd_files r1 ! lfdirptr b1) = word_of_nat (length dat)" using r(6) 1(3) by (simp add: evolves_def dir_frame_def)
  have lb: "length (bs @ [hd dfl]) = (max (length dat) (pos + 1) + 511) div 512" unfolding l pos by simp
  obtain b' r' x' where 2: "lflputc_byte ch c (put s c b1 d1 r1 False) = Ret (Some OK, put (s\<lparr>lkern := k\<rparr>) c b' d1 r' x')"
    "file_rep ds b' d1 r' (ns_next ns bs ifl) (bs @ [hd dfl]) (ifl_next ns bs ifl) (tl dfl) (overwrite pos [ch] dat) (pos + 1)"
    "dir_others (lfdirptr b1) r1 r'" "same_file_block b1 b'" "dir_synced x' d1 r'"
    using l put_stored [OF 1(2,4) h r(2) r(3) [folded f(3)] size next_lengths(1) [OF r(4) rm] lb mut [folded f(2)], of ch c False] by blast
  have "dir_others (lfdirptr b) r r'" using dir_others_trans [OF evolves_dir_others [OF 1(3)]] 2(3) f(1) by simp
  then show ?thesis using 1(1) 2 evolves_same [OF 1(3)] by (auto simp: same_file_block_def)
qed

lemma lflputc_at:
  assumes at: "file_at ds c I B s dat pos"
  shows "capacity I B \<le> pos \<Longrightarrow> lflputc ch c s = Halted"
    and "pos < capacity I B \<Longrightarrow> \<exists>s'. lflputc ch c s = Ret (Some OK, s') \<and> file_at ds c I B s' (overwrite pos [ch] dat) (pos + 1) \<and> keeps ds c I B s s'"
proof -
  define b k where "b = lfltab s c" and "k = lkern s"
  obtain ns bs ifl dfl where o: "file_rep ds b (Ram s) (lf_dir s) ns bs ifl dfl dat pos" "I = set ns \<union> set ifl" "B = set bs \<union> set dfl"
    "mutex_free (lfmutex b) k" "mutex_free (lf_mutex s) (set_scount (lfmutex b) 0 k)"
    "\<forall>rest. with_mutex rest c s = rest c (put (s\<lparr>lkern := set_scount (lfmutex b) 0 k\<rparr>) c b (Ram s) (lf_dir s) (lf_dirdirty s))"
    using at_locked [OF at b_def k_def] .
  let ?t = "s\<lparr>lkern := set_scount (lfmutex b) 0 k\<rparr>"
  have o5: "mutex_free (lf_mutex ?t) (lkern ?t)" "lkern ?t = set_scount (lfmutex b) 0 k" using o(5) by simp_all
  have used: "lfstate b = LF_USED" and le: "pos \<le> length dat" using o(1) by (simp_all add: file_rep_def file_inv_def)
  have "\<not> lfpos b > ld_size (lfd_files (lf_dir s) ! lfdirptr b)" using le unfolding word_less_nat_alt rep_sizes [OF o(1)] by simp
  then have run: "lflputc ch c s = with_block (lflputc_byte ch) c (put ?t c b (Ram s) (lf_dir s) (lf_dirdirty s))"
    using used by (simp add: lflputc_def o(6) lflputc_rest_def Let_def)
  have bk: "put (?t\<lparr>lkern := k\<rparr>) c b' d' r' x' = put s c b' d' r' x'" for b' d' r' x' by (simp add: put_def k_def)
  note cap = rep_capacity [OF o(1), folded o(2,3)] and lb = rep_bounds(1) [OF o(1)]
  show "lflputc ch c s = Halted" if "capacity I B \<le> pos"
  proof -
    have "pos = 512 * length bs" "\<not> room ns bs ifl dfl" using that cap(2,3) le lb by linarith+
    from block_grow(1) [OF o(1) this(1) o5(1) this(2)] show ?thesis using run by simp
  qed
  show "\<exists>s'. lflputc ch c s = Ret (Some OK, s') \<and> file_at ds c I B s' (overwrite pos [ch] dat) (pos + 1) \<and> keeps ds c I B s s'"
    if pos: "pos < capacity I B"
  proof (cases "pos < 512 * length bs")
    case True
    from put_keep [OF o(1) this o5(1) o(4) o5(2), of ch c "lf_dirdirty s"] obtain b' d' r' x' where
      1: "lflputc ch c s = Ret (Some OK, put s c b' d' r' x')" "file_rep ds b' d' r' ns bs ifl dfl (overwrite pos [ch] dat) (pos + 1)"
      "dir_others (lfdirptr b) (lf_dir s) r'" "same_file_block b b'" "disk_frame ds I B (Ram s) d'" "dir_synced x' d' r'" using at_synced [OF at] unfolding run bk o(2,3) by blast
    show ?thesis using 1(1) at_released [OF at 1(2) o(2,3) 1(5)] 1(3,4,6) b_def by blast
  next
    case False
    then have p: "pos = 512 * length bs" using le lb by simp
    then have rm: "room ns bs ifl dfl" using cap(3) pos by simp
    from put_grow [OF o(1) p o5(1) o(4) o5(2) rm, of ch c "lf_dirdirty s"] obtain b' d' r' x' where
      1: "lflputc ch c s = Ret (Some OK, put s c b' d' r' x')"
      "file_rep ds b' d' r' (ns_next ns bs ifl) (bs @ [hd dfl]) (ifl_next ns bs ifl) (tl dfl) (overwrite pos [ch] dat) (pos + 1)"
      "dir_others (lfdirptr b) (lf_dir s) r'" "same_file_block b b'" "disk_frame ds I B (Ram s) d'" "dir_synced x' d' r'" using at_synced [OF at] unfolding run bk o(2,3) by blast
    have "length ns = (length bs + 15) div 16" using o(1) by (simp add: file_rep_def)
    note nl = next_lengths(2,3) [OF this rm, folded o(2,3)]
    show ?thesis using 1(1) at_released [OF at 1(2) nl [symmetric] 1(5)] 1(3,4,6) b_def by blast
  qed
qed

section \<open>Several bytes\<close>

lemma overwrite_snoc: "pos \<le> length dat \<Longrightarrow> overwrite (pos + 1) xs (overwrite pos [x] dat) = overwrite pos (x # xs) dat"
  by (simp add: overwrite_def add.commute add.left_commute)

lemma lflread_loop_at:
  assumes "file_at ds c I B s dat pos"
  shows "\<exists>s'. lflread_loop n acc c s = Ret (Some (if 0 < n \<and> acc @ take n (drop pos dat) = [] then EOF else int (length (acc @ take n (drop pos dat)))),
      acc @ take n (drop pos dat), s') \<and> file_at ds c I B s' dat (pos + length (take n (drop pos dat))) \<and> keeps ds c I B s s'"
  using assms
proof (induction n arbitrary: acc s pos)
  case 0
  then show ?case using keeps_refl by (intro exI [of _ s]) simp
next
  case (Suc n)
  note g = lflgetc_at [OF Suc.prems]
  show ?case
  proof (cases "pos < length dat")
    case False
    then show ?thesis using g(1) Suc.prems keeps_refl by (intro exI [of _ s]) (simp add: EOF_def SYSERR_def)
  next
    case True
    then obtain s1 where 1: "lflgetc c s = Ret (Some (uint (dat ! pos)), s1)" "file_at ds c I B s1 dat (pos + 1)" "keeps ds c I B s s1" using g(2) by blast
    have b: "uint (dat ! pos) \<noteq> SYSERR" "uint (dat ! pos) \<noteq> EOF" using uint_ge_0 [of "dat ! pos"] unfolding EOF_def SYSERR_def by linarith+
    have t: "take (Suc n) (drop pos dat) = dat ! pos # take n (drop (pos + 1) dat)" using True Cons_nth_drop_Suc [OF True, symmetric] by simp
    from Suc.IH [OF 1(2), of "acc @ [dat ! pos]"] obtain s2 where
      "lflread_loop n (acc @ [dat ! pos]) c s1 = Ret (Some (int (length (acc @ take (Suc n) (drop pos dat)))), acc @ take (Suc n) (drop pos dat), s2)"
      "file_at ds c I B s2 dat (pos + length (take (Suc n) (drop pos dat)))" "keeps ds c I B s1 s2" unfolding t by auto
    then show ?thesis using 1(1) b keeps_trans [OF 1(3)] t by (intro exI [of _ s2]) simp
  qed
qed

lemma lflwrite_loop_at:
  assumes "file_at ds c I B s dat pos" "pos \<le> capacity I B"
  shows "capacity I B < pos + n \<Longrightarrow> lflwrite_loop n i buff c s = Halted"
    and "pos + n \<le> capacity I B \<Longrightarrow> \<exists>s'. lflwrite_loop n i buff c s = Ret (Some (int (i + n)), s') \<and>
      file_at ds c I B s' (overwrite pos (map buff [i..<i + n]) dat) (pos + n) \<and> keeps ds c I B s s'"
  using assms
proof (induction n arbitrary: i s pos dat)
  case 0
  case 1 then show ?case by simp
next
  case 0
  case 2 then show ?case using keeps_refl by (intro exI [of _ s]) (simp add: overwrite_def)
next
  case (Suc n)
  {
    case 1
    show ?case
    proof (cases "pos < capacity I B")
      case True
      then obtain s1 where s1: "lflputc (buff i) c s = Ret (Some OK, s1)" "file_at ds c I B s1 (overwrite pos [buff i] dat) (pos + 1)"
        using lflputc_at(2) [OF 1(2)] by blast
      then show ?thesis using Suc.IH(1) [OF _ s1(2), of "i + 1"] 1(1) True by (simp add: OK_def SYSERR_def)
    next
      case False
      then show ?thesis using lflputc_at(1) [OF 1(2)] by simp
    qed
  next
    case 2
    then obtain s1 where s1: "lflputc (buff i) c s = Ret (Some OK, s1)" "file_at ds c I B s1 (overwrite pos [buff i] dat) (pos + 1)" "keeps ds c I B s s1"
      using lflputc_at(2) [OF 2(2), of "buff i"] by auto
    obtain s2 where s2: "lflwrite_loop n (i + 1) buff c s1 = Ret (Some (int (i + 1 + n)), s2)"
      "file_at ds c I B s2 (overwrite (pos + 1) (map buff [i + 1..<i + 1 + n]) (overwrite pos [buff i] dat)) (pos + 1 + n)" "keeps ds c I B s1 s2"
      using Suc.IH(2) [OF _ s1(2), of "i + 1"] 2(1) by auto
    have "pos \<le> length dat" using 2(2) by (auto simp: file_at_def file_rep_def)
    moreover have "[i..<i + Suc n] = i # [i + 1..<i + 1 + n]" by (simp add: upt_conv_Cons)
    ultimately have "overwrite (pos + 1) (map buff [i + 1..<i + 1 + n]) (overwrite pos [buff i] dat) = overwrite pos (map buff [i..<i + Suc n]) dat"
      by (simp only: overwrite_snoc list.map)
    then show ?case using s1(1) s2 keeps_trans [OF s1(3) s2(3)] by (intro exI [of _ s2]) (simp add: OK_def SYSERR_def)
  }
qed

section \<open>Sequences of operations\<close>

datatype fop = Getc | Putc u8 | Seek u32 | Reads int | Writes buf int

fun fop_run :: "fop \<Rightarrow> nat \<Rightarrow> lfs \<Rightarrow> ((int option \<times> u8 list) \<times> lfs) result" where
  "fop_run Getc c s = rbind (lflgetc c s) (\<lambda>(v, s). Ret ((v, []), s))"
| "fop_run (Putc ch) c s = rbind (lflputc ch c s) (\<lambda>(v, s). Ret ((v, []), s))"
| "fop_run (Seek off) c s = rbind (lflseek off c s) (\<lambda>(v, s). Ret ((v, []), s))"
| "fop_run (Reads cnt) c s = rbind (lflread cnt c s) (\<lambda>(v, xs, s). Ret ((v, xs), s))"
| "fop_run (Writes buff cnt) c s = rbind (lflwrite buff cnt c s) (\<lambda>(v, s). Ret ((v, []), s))"

fun run_fops :: "fop list \<Rightarrow> nat \<Rightarrow> lfs \<Rightarrow> ((int option \<times> u8 list) list \<times> lfs) result" where
  "run_fops [] c s = Ret ([], s)"
| "run_fops (p # ps) c s = rbind (fop_run p c s) (\<lambda>(v, s). rbind (run_fops ps c s) (\<lambda>(vs, s). Ret (v # vs, s)))"

text \<open>The same operations on a byte sequence with a position, of at most \<open>cap\<close> bytes; the machine halts on a write beyond.\<close>

fun fop_spec :: "nat \<Rightarrow> fop \<Rightarrow> u8 list \<times> nat \<Rightarrow> ((int option \<times> u8 list) \<times> u8 list \<times> nat) option" where
  "fop_spec cap Getc (dat, pos) =
    Some (if pos < length dat then ((Some (uint (dat ! pos)), []), dat, pos + 1) else ((Some EOF, []), dat, pos))"
| "fop_spec cap (Putc ch) (dat, pos) = (if pos < cap then Some ((Some OK, []), overwrite pos [ch] dat, pos + 1) else None)"
| "fop_spec cap (Seek off) (dat, pos) =
    Some (if unat off \<le> length dat then ((Some OK, []), dat, unat off) else ((Some SYSERR, []), dat, pos))"
| "fop_spec cap (Reads cnt) (dat, pos) =
    Some (let xs = take (nat cnt) (drop pos dat) in
      if cnt < 0 then ((Some SYSERR, []), dat, pos)
      else ((Some (if 0 < cnt \<and> xs = [] then EOF else int (length xs)), xs), dat, pos + length xs))"
| "fop_spec cap (Writes buff cnt) (dat, pos) =
    (if cnt < 0 then Some ((Some SYSERR, []), dat, pos)
     else if pos + nat cnt \<le> cap then Some ((Some cnt, []), overwrite pos (map buff [0..<nat cnt]) dat, pos + nat cnt)
     else None)"

fun spec_fops :: "nat \<Rightarrow> fop list \<Rightarrow> u8 list \<times> nat \<Rightarrow> ((int option \<times> u8 list) list \<times> u8 list \<times> nat) option" where
  "spec_fops cap [] a = Some ([], a)"
| "spec_fops cap (p # ps) a =
    (case fop_spec cap p a of
       None \<Rightarrow> None
     | Some (v, a) \<Rightarrow> (case spec_fops cap ps a of None \<Rightarrow> None | Some (vs, a) \<Rightarrow> Some (v # vs, a)))"

lemma file_at_capacity: "file_at ds c I B s dat pos \<Longrightarrow> pos \<le> capacity I B"
  using rep_capacity(2) rep_bounds(1) by (fastforce simp: file_at_def file_rep_def)

lemma fop_refines:
  assumes "file_at ds c I B s dat pos"
  shows "case fop_spec (capacity I B) p (dat, pos) of None \<Rightarrow> fop_run p c s = Halted
    | Some (v, dat', pos') \<Rightarrow> \<exists>s'. fop_run p c s = Ret (v, s') \<and> file_at ds c I B s' dat' pos' \<and> keeps ds c I B s s'"
proof (cases p)
  case Getc
  then show ?thesis using lflgetc_at [OF assms] assms keeps_refl by (cases "pos < length dat") auto
next
  case (Putc ch)
  then show ?thesis using lflputc_at [OF assms, of ch] by (cases "pos < capacity I B") auto
next
  case (Seek off)
  then show ?thesis using lflseek_at [OF assms, of off] assms keeps_refl by (cases "unat off \<le> length dat") auto
next
  case (Reads cnt)
  then show ?thesis using lflread_loop_at [OF assms, of "nat cnt" "[]"] assms keeps_refl
    by (cases "cnt < 0") (auto simp: lflread_def Let_def)
next
  case (Writes buff cnt)
  then show ?thesis using lflwrite_loop_at [OF assms file_at_capacity [OF assms], of "nat cnt" 0 buff] assms keeps_refl
    by (cases "cnt < 0"; cases "pos + nat cnt \<le> capacity I B") (auto simp: lflwrite_def)
qed

section \<open>Properties\<close>

text \<open>
  C6: an open file of the local file system is a byte sequence with a position. Whatever sequence of \<open>lflgetc\<close>, \<open>lflputc\<close>, \<open>lflseek\<close>, \<open>lflread\<close> and \<open>lflwrite\<close> calls
  its owner makes, the results and the bytes read are those of the sequence: reading returns the bytes at the position or end of file, writing overwrites or
  appends, seeking past the end is refused; the machine halts exactly on a write that needs a block when the free list is empty. The file keeps its
  representation by index and data blocks (no block is used twice, the free lists stay linked), and blocks of other files, other directory entries, other open
  files and the kernel are not touched.
\<close>

theorem lfs_file_refines:
  assumes "file_at ds c I B s dat pos"
  shows "case spec_fops (capacity I B) ps (dat, pos) of None \<Rightarrow> run_fops ps c s = Halted
    | Some (vs, dat', pos') \<Rightarrow> \<exists>s'. run_fops ps c s = Ret (vs, s') \<and> file_at ds c I B s' dat' pos' \<and> keeps ds c I B s s'"
  using assms
proof (induction ps arbitrary: s dat pos)
  case Nil
  then show ?case using keeps_refl by auto
next
  case (Cons p ps)
  show ?case
  proof (cases "fop_spec (capacity I B) p (dat, pos)")
    case None
    then show ?thesis using fop_refines [OF Cons.prems, of p] by simp
  next
    case (Some a)
    then obtain v dat1 pos1 where a: "fop_spec (capacity I B) p (dat, pos) = Some (v, dat1, pos1)" by (cases a) auto
    then obtain s1 where s1: "fop_run p c s = Ret (v, s1)" "file_at ds c I B s1 dat1 pos1" "keeps ds c I B s s1"
      using fop_refines [OF Cons.prems, of p] by auto
    note ih = Cons.IH [OF s1(2)]
    show ?thesis
    proof (cases "spec_fops (capacity I B) ps (dat1, pos1)")
      case None
      then show ?thesis using ih a s1(1) by simp
    next
      case (Some q)
      then obtain vs dat2 pos2 where q: "spec_fops (capacity I B) ps (dat1, pos1) = Some (vs, dat2, pos2)" by (cases q) auto
      then obtain s2 where "run_fops ps c s1 = Ret (vs, s2)" "file_at ds c I B s2 dat2 pos2" "keeps ds c I B s1 s2" using ih by auto
      then show ?thesis using a q s1 keeps_trans [OF s1(3)] by auto
    qed
  qed
qed

text \<open>An empty file in the first slot, with one index block and one data block free on a disk of ones.\<close>

definition lfs1 :: lfs where
  "lfs1 = \<lparr>lkern = kernel1\<lparr>semtab := \<lambda>_. \<lparr>sstate = S_USED, scount = 1, squeue = 0\<rparr>\<rparr>, lf_mutex = 0,
    lf_dir = zero_dir\<lparr>lfd_fsysid := LFS_ID, lfd_vers := 1, lfd_subvers := 1, lfd_allones := -1, lfd_dfree := 5, lfd_ifree := 0, lfd_nfiles := 1,
      lfd_files := (replicate LF_NUM_DIR_ENT zero_entry)[0 := \<lparr>ld_size = 0, ld_ilist = LF_INULL, ld_name = 97 # replicate 15 0\<rparr>], lfd_revid := 0x756E6958\<rparr>,
    lf_dirpresent = True, lf_dirdirty = True,
    lfltab = \<lambda>i. \<lparr>lfstate = if i = 0 then LF_USED else LF_FREE, lfdev = 20 + int i, lfmutex = 1 + int i, lfdirptr = 0, lfmode = LF_MODE_RW, lfpos = 0,
      lfname = 97 # replicate 15 0, lfinum = LF_INULL, lfiblock = lfibclear 0, lfdnum = LF_DNULL, lfdblock = replicate 512 0, lfbyte = LF_BLKSIZ,
      lfibdirty = False, lfdbdirty = False\<rparr>,
    Ram = \<lambda>_. 255\<rparr>"

lemma dec32_ones: "dec32 (replicate n 255) = -1" if "4 \<le> n"
proof -
  have "dec32 (replicate n 255) = (ucast (255 :: u8) OR push_bit 8 (ucast (255 :: u8)) OR push_bit 16 (ucast (255 :: u8)) OR push_bit 24 (ucast (255 :: u8)) :: u32)"
    using that by (simp add: dec32_def)
  also have "\<dots> = -1" by code_simp
  finally show ?thesis .
qed

lemma lfs1_file: "file_at 2 0 {0} {5} lfs1 [] 0"
proof -
  have sect: "sect (\<lambda>_. 255) m = replicate 512 255" for m by (simp add: sect_def map_replicate_const)
  have "disk_ib (\<lambda>_. 255) 0 = dec_ib (replicate 512 255)" by (simp add: disk_ib_def sect)
  then have "ib_next (disk_ib (\<lambda>_. 255) 0) = -1" by (simp add: dec_ib_def dec32_ones)
  moreover have "dir_ok (lf_dir lfs1)" by (auto simp: dir_ok_def lfs1_def zero_dir_def zero_entry_def LF_NUM_DIR_ENT_def LF_NAME_LEN_def
        dest!: set_update_subset_insert [THEN subsetD])
  ultimately have "file_rep 2 (lfltab lfs1 0) (Ram lfs1) (lf_dir lfs1) [] [] [0] [5] [] 0"
    by (simp add: file_rep_def file_inv_def geometry_def cached_def holds_def sect dec32_ones lfs1_def RM_BLKS_def LF_INULL_def LF_DNULL_def
        LF_NUM_DIR_ENT_def)
  moreover have "ready_mutexes 0 lfs1" "dir_synced (lf_dirdirty lfs1) (Ram lfs1) (lf_dir lfs1)"
    by (simp_all add: ready_mutexes_def mutex_free_def dir_synced_def lfs1_def isbadsem_def layout_defs)
  ultimately show ?thesis unfolding file_at_def by (intro conjI exI [of _ "[]"] exI [of _ "[0]"] exI [of _ "[5]"]) simp_all
qed

theorem lfs_file_refines_witness:
  "(\<exists>s'. run_fops [Putc 7, Putc 8, Seek 0, Reads 5, Getc, Seek 3] 0 lfs1 =
      Ret ([(Some OK, []), (Some OK, []), (Some OK, []), (Some 2, [7, 8]), (Some EOF, []), (Some SYSERR, [])], s') \<and>
      file_at 2 0 {0} {5} s' [7, 8] 2) \<and>
    run_fops [Writes (\<lambda>_. 1) 513] 0 lfs1 = Halted"
proof -
  have c: "capacity {0} {5} = 512" by (simp add: capacity_def)
  have "spec_fops 512 [Putc 7, Putc 8, Seek 0, Reads 5, Getc, Seek 3] ([], 0) =
      Some ([(Some OK, []), (Some OK, []), (Some OK, []), (Some 2, [7, 8]), (Some EOF, []), (Some SYSERR, [])], [7, 8], 2)"
    by (simp add: overwrite_def Let_def)
  moreover have "spec_fops 512 [Writes (\<lambda>_. 1) 513] ([], 0) = None" by simp
  ultimately show ?thesis
    using lfs_file_refines [OF lfs1_file, of "[Putc 7, Putc 8, Seek 0, Reads 5, Getc, Seek 3]"] lfs_file_refines [OF lfs1_file, of "[Writes (\<lambda>_. 1) 513]"]
    unfolding c by auto
qed

end
