(* ===== verification/LfsDurable.thy ===== *)
theory LfsDurable
  imports LfsRefine
begin

text \<open>
  What remains of a file: \<open>lflclose\<close> leaves its bytes and the directory on the disk, so that \<open>lfsopen\<close> finds them again, also after a restart that kept nothing
  but the disk; \<open>lflcontrol\<close> with \<open>LF_CTL_TRUNC\<close> empties an open file and gives its blocks back.
\<close>

section \<open>A closed file\<close>

text \<open>The control block \<open>lfsopen\<close> leaves for directory entry \<open>f\<close>.\<close>

definition just_opened :: "nat \<Rightarrow> lflcblk \<Rightarrow> bool" where
  "just_opened f b \<longleftrightarrow> lfstate b = LF_USED \<and> lfdirptr b = f \<and> lfpos b = 0 \<and> lfinum b = LF_INULL \<and> lfdnum b = LF_DNULL \<and> lfbyte b = LF_BLKSIZ \<and>
    \<not> lfibdirty b \<and> \<not> lfdbdirty b \<and> length (lfdblock b) = 512"

definition stored :: "nat \<Rightarrow> nat \<Rightarrow> nat set \<Rightarrow> nat set \<Rightarrow> disk \<Rightarrow> lfdir \<Rightarrow> u8 list \<Rightarrow> bool" where
  "stored ds f I B d r dat \<longleftrightarrow> sect d 0 = enc_dir r \<and> dir_ok r \<and> (\<exists>ns bs ifl dfl. I = set ns \<union> set ifl \<and> B = set bs \<union> set dfl \<and>
    (\<forall>b. just_opened f b \<longrightarrow> file_rep ds b d r ns bs ifl dfl dat 0))"

lemma clean_stored:
  assumes rep: "file_rep ds b d r ns bs ifl dfl dat pos" and clean: "\<not> lfibdirty b" "\<not> lfdbdirty b" and b': "just_opened (lfdirptr b) b'"
  shows "file_rep ds b' d r ns bs ifl dfl dat 0"
proof -
  have inv: "file_inv ds b d r ns bs ifl dfl" using rep by (simp add: file_rep_def)
  have g: "geometry ds ns bs ifl dfl" using inv by (simp add: file_inv_def)
  have i: "ibv b' d n = ibv b d n" if "n \<in> set ns" for n
    using clean_ib [OF inv clean(1) that] b' geometry_index(1) [OF g, of n] that by (simp add: ibv_def just_opened_def LF_INULL_def)
  have m: "dbv b' d k = dbv b d k" if "k \<in> set bs" for k
    using clean_db [OF inv clean(2) that] b' geometry_data(1) [OF g, of k] that by (simp add: dbv_def just_opened_def LF_DNULL_def)
  have "holds b' d bs dat" using rep m rep_bounds(1) [OF rep] by (simp add: file_rep_def holds_def div_less_iff_less_mult)
  moreover have "cached b' d ns bs" using b' by (simp add: cached_def just_opened_def LF_INULL_def LF_DNULL_def)
  ultimately show ?thesis using rep b' i by (simp add: file_rep_def file_inv_def just_opened_def)
qed

lemma lflclose_at:
  assumes at: "file_at ds c I B s dat pos"
  shows "\<exists>s'. lflclose c s = Ret (Some OK, s') \<and> stored ds (lfdirptr (lfltab s c)) I B (Ram s') (lf_dir s') dat \<and> lf_dir s' = lf_dir s \<and>
    lfstate (lfltab s' c) = LF_FREE \<and> keeps ds c I B s s'"
proof -
  define b k where "b = lfltab s c" and "k = lkern s"
  obtain ns bs ifl dfl where o: "file_rep ds b (Ram s) (lf_dir s) ns bs ifl dfl dat pos" "I = set ns \<union> set ifl" "B = set bs \<union> set dfl"
    "mutex_free (lfmutex b) k" "mutex_free (lf_mutex s) (set_scount (lfmutex b) 0 k)"
    "\<forall>rest. with_mutex rest c s = rest c (put (s\<lparr>lkern := set_scount (lfmutex b) 0 k\<rparr>) c b (Ram s) (lf_dir s) (lf_dirdirty s))"
    using at_locked [OF at b_def k_def] .
  let ?t = "s\<lparr>lkern := set_scount (lfmutex b) 0 k\<rparr>" and ?r = "lf_dir s" and ?x = "lf_dirdirty s"
  have inv: "file_inv ds b (Ram s) ?r ns bs ifl dfl" and used: "lfstate b = LF_USED" using o(1) by (simp_all add: file_rep_def file_inv_def)
  have sync: "\<not> ?x \<Longrightarrow> sect (Ram s) 0 = enc_dir ?r" using at_synced [OF at] by (simp add: dir_synced_def)
  obtain b1 d1 where 1: "(if ?x \<or> lfdbdirty b \<or> lfibdirty b then rbind (lfflush c (put ?t c b (Ram s) ?r ?x)) (\<lambda>(_, s). Ret s)
        else Ret (put ?t c b (Ram s) ?r ?x)) = Ret (put ?t c b1 d1 ?r False)"
    "file_inv ds b1 d1 ?r ns bs ifl dfl" "evolves ds ns bs ifl dfl (b, Ram s, ?r) (b1, d1, ?r)" "\<not> lfibdirty b1" "\<not> lfdbdirty b1"
    "sect d1 0 = enc_dir ?r" "lfbyte b1 = lfbyte b" "lfdnum b1 = lfdnum b"
  proof (cases "?x \<or> lfdbdirty b \<or> lfibdirty b")
    case True
    obtain d' where d': "lfflush c (put ?t c b (Ram s) ?r ?x) = Ret (OK, put ?t c (b\<lparr>lfdbdirty := False, lfibdirty := False\<rparr>) d' ?r False)"
      "file_inv ds (b\<lparr>lfdbdirty := False, lfibdirty := False\<rparr>) d' ?r ns bs ifl dfl"
      "evolves ds ns bs ifl dfl (b, Ram s, ?r) (b\<lparr>lfdbdirty := False, lfibdirty := False\<rparr>, d', ?r)"
      "?x \<Longrightarrow> sect d' 0 = enc_dir ?r" "\<not> ?x \<Longrightarrow> sect d' 0 = sect (Ram s) 0"
      using lfflush_run [OF inv] by metis
    then have "sect d' 0 = enc_dir ?r" using sync by metis
    with True d' show ?thesis by (intro that [of "b\<lparr>lfdbdirty := False, lfibdirty := False\<rparr>" d']) simp_all
  next
    case False
    then show ?thesis using sync inv evolves_refl by (intro that [of b "Ram s"]) simp_all
  qed
  have m: "lfmutex b1 = lfmutex b" "lfdirptr b1 = lfdirptr b" "lfpos b1 = lfpos b" using 1(3) by (simp_all add: evolves_def)
  have "holds b1 d1 bs dat" using evolves_holds [OF _ 1(3) rep_bounds(1) [OF o(1)], of "[]"] o(1) by (simp add: file_rep_def)
  moreover have "at_byte b1 bs pos = at_byte b bs pos" by (simp add: at_byte_def 1(7,8))
  ultimately have rep: "file_rep ds b1 d1 ?r ns bs ifl dfl dat pos" using o(1) 1(2,7,8) m by (simp add: file_rep_def)
  let ?b = "b1\<lparr>lfstate := LF_FREE\<rparr>" and ?s = "put s c (b1\<lparr>lfstate := LF_FREE\<rparr>) d1 ?r False"
  have "lflclose c s = rbind (if ?x \<or> lfdbdirty b \<or> lfibdirty b then rbind (lfflush c (put ?t c b (Ram s) ?r ?x)) (\<lambda>(_, s). Ret s)
        else Ret (put ?t c b (Ram s) ?r ?x)) (\<lambda>s. lf_return (lfmutex b) OK (upd_lf c (\<lambda>b. b\<lparr>lfstate := LF_FREE\<rparr>) s))"
    using used by (simp add: lflclose_def o(6) lflclose_rest_def Let_def)
  also have "\<dots> = lf_return (lfmutex b) OK (put ?t c ?b d1 ?r False)" unfolding 1(1) by simp
  also have "\<dots> = Ret (Some OK, ?s)"
    using lf_return_taken [OF o(4), of "put ?t c ?b d1 ?r False"] by (simp add: put_def k_def)
  finally have "lflclose c s = Ret (Some OK, ?s)" .
  moreover have "stored ds (lfdirptr b) I B d1 ?r dat" unfolding stored_def using clean_stored [OF rep 1(4,5)] m(2) 1(2,6) o(2,3)
    by (auto simp: file_inv_def)
  moreover have "keeps ds c I B s ?s"
    using evolves_same [OF 1(3)] evolves_dir_others [OF 1(3)] b_def o(2,3) by (simp add: keeps_def same_file_block_def)
  ultimately show ?thesis by (intro exI [of _ ?s]) (simp add: b_def)
qed

section \<open>Opening\<close>

text \<open>The name is that of entry \<open>f\<close> and of no entry before it.\<close>

definition names_file :: "buf \<Rightarrow> nat \<Rightarrow> lfdir \<Rightarrow> bool" where
  "names_file name f r \<longleftrightarrow> f < nat (sint (lfd_nfiles r)) \<and> nat (sint (lfd_nfiles r)) \<le> LF_NUM_DIR_ENT \<and>
    same_file name (ld_name (lfd_files r ! f)) 0 = Some True \<and> (\<forall>i < f. same_file name (ld_name (lfd_files r ! i)) 0 = Some False)"

lemma find_file_run:
  assumes "same_file name (ld_name (lfd_files r ! f)) 0 = Some True" "\<And>j. i \<le> j \<Longrightarrow> j < f \<Longrightarrow> same_file name (ld_name (lfd_files r ! j)) 0 = Some False"
    "i \<le> f" "f < i + n" "f < LF_NUM_DIR_ENT"
  shows "find_file n i name r = Ret (Some f)"
  using assms
proof (induction n arbitrary: i)
  case (Suc n)
  show ?case
  proof (cases "i = f")
    case True
    then show ?thesis using Suc.prems by (simp add: of_loop_def)
  next
    case False
    then show ?thesis using Suc.IH [of "i + 1"] Suc.prems by (simp add: of_loop_def)
  qed
qed simp

text \<open>The open file table has a free slot and no open file of that name.\<close>

definition can_open :: "buf \<Rightarrow> lfs \<Rightarrow> bool" where
  "can_open name s \<longleftrightarrow> name_length LF_NAME_LEN 0 name < LF_NAME_LEN \<and> (\<exists>i < Nlfl. lfstate (lfltab s i) = LF_FREE) \<and>
    (\<forall>i < Nlfl. ready_mutexes i s \<and> length (lfdblock (lfltab s i)) = 512 \<and>
      (lfstate (lfltab s i) = LF_FREE \<or> same_file name (lfname (lfltab s i)) 0 = Some False))"

lemma scan_open_run:
  assumes "\<And>j. i \<le> j \<Longrightarrow> j < i + n \<Longrightarrow> lfstate (lfltab s j) = LF_FREE \<or> same_file name (lfname (lfltab s j)) 0 = Some False"
  shows "scan_open n i name v s = Ret (Some (if v \<noteq> SYSERR \<or> (\<forall>j. i \<le> j \<and> j < i + n \<longrightarrow> lfstate (lfltab s j) \<noteq> LF_FREE) then v
    else int (LEAST j. i \<le> j \<and> lfstate (lfltab s j) = LF_FREE)))"
  using assms
proof (induction n arbitrary: i v)
  case 0
  then show ?case by auto
next
  case (Suc n)
  show ?case
  proof (cases "lfstate (lfltab s i) = LF_FREE")
    case True
    have "(LEAST j. i \<le> j \<and> lfstate (lfltab s j) = LF_FREE) = i" by (rule Least_equality) (use True in auto)
    then show ?thesis using Suc.IH [of "i + 1"] Suc.prems True by (auto simp: SYSERR_def)
  next
    case False
    let ?P = "\<lambda>j. lfstate (lfltab s j) = LF_FREE"
    have L: "(\<lambda>j. i + 1 \<le> j \<and> ?P j) = (\<lambda>j. i \<le> j \<and> ?P j)" using False by (auto simp: fun_eq_iff less_eq_Suc_le [symmetric] le_less)
    have A: "(\<forall>j. i + 1 \<le> j \<and> j < i + 1 + n \<longrightarrow> \<not> ?P j) = (\<forall>j. i \<le> j \<and> j < i + Suc n \<longrightarrow> \<not> ?P j)"
      using False by (metis Suc_eq_plus1 Suc_leI add_Suc add_Suc_right le_neq_implies_less Suc_leD)
    have "scan_open n (i + 1) name v s = Ret (Some (if v \<noteq> SYSERR \<or> (\<forall>j. i \<le> j \<and> j < i + Suc n \<longrightarrow> \<not> ?P j) then v
        else int (LEAST j. i \<le> j \<and> ?P j)))"
      using Suc.IH [of "i + 1" v, unfolded L A] Suc.prems by simp
    then show ?thesis using Suc.prems [of i] False by (simp add: of_loop_def)
  qed
qed

lemma lfsopen_slot:
  assumes "can_open name s"
  obtains c where "c < Nlfl" "lfstate (lfltab s c) = LF_FREE" "scan_open Nlfl 0 name SYSERR s = Ret (Some (int c))"
proof -
  let ?P = "\<lambda>j. lfstate (lfltab s j) = LF_FREE"
  obtain i where i: "i < Nlfl" "?P i" using assms by (auto simp: can_open_def)
  have "scan_open Nlfl 0 name SYSERR s = Ret (Some (int (LEAST j. ?P j)))"
    using scan_open_run [of 0 Nlfl s name SYSERR] assms i by (auto simp: can_open_def)
  then show ?thesis using that [of "LEAST j. ?P j"] LeastI [of ?P i] Least_le [of ?P i] i by simp
qed

text \<open>Opening an existing file, when the directory is in memory or only on the disk.\<close>

lemma lfsopen_at:
  assumes st: "stored ds f I B (Ram s) r dat" and dir: "lf_dirpresent s \<Longrightarrow> lf_dir s = r" "lfscheck r = OK" "names_file name f r"
    and op: "can_open name s" and mode: "lfgetmode mode = Some mbits" "mbits AND LF_MODE_N = 0"
  shows "\<exists>c s'. lfsopen name mode s = Ret (Some (lfdev (lfltab s c)), s') \<and> c < Nlfl \<and> lfstate (lfltab s c) = LF_FREE \<and> file_at ds c I B s' dat 0 \<and>
    lfdirptr (lfltab s' c) = f \<and> lkern s' = lkern s \<and> Ram s' = Ram s"
proof -
  obtain c where c: "c < Nlfl" "lfstate (lfltab s c) = LF_FREE" "scan_open Nlfl 0 name SYSERR s = Ret (Some (int c))"
    by (rule lfsopen_slot [OF op])
  have rd: "ready_mutexes c s" "length (lfdblock (lfltab s c)) = 512" "name_length LF_NAME_LEN 0 name < LF_NAME_LEN" using op c(1) by (simp_all add: can_open_def)
  have m: "mutex_free (lf_mutex s) (lkern s)" using rd(1) by (simp add: ready_mutexes_def)
  have mb: "mbits \<noteq> SYSERR" using mode(2) by (auto simp: SYSERR_def LF_MODE_N_def)
  let ?t = "s\<lparr>lkern := set_scount (lf_mutex s) 0 (lkern s)\<rparr>"
  let ?u = "?t\<lparr>lf_dir := r, lf_dirpresent := True\<rparr>"
  have find: "find_file (nat (sint (lfd_nfiles r))) 0 name r = Ret (Some f)"
    by (rule find_file_run) (use dir(3) in \<open>auto simp: names_file_def\<close>)
  have dk: "dir_ok r" "sect (Ram s) 0 = enc_dir r" using st by (auto simp: stored_def)
  have "ramread LF_AREA_DIR (Ram s) = Ret (OK, enc_dir r)"
    using ramread_ok [of LF_AREA_DIR 0 "Ram s"] dk(2) by (simp add: LF_AREA_DIR_def on_disk_def RM_BLKS_def)
  moreover have "?u = ?t" if "lf_dirpresent s" using that dir(1) by simp
  ultimately have "lfsopen_rest name mbits c ?t = lfsopen_search name mbits c ?u"
    using dir(2) dec_dir_enc(1) [OF dk(1)] by (simp add: lfsopen_rest_def Let_def OK_def SYSERR_def)
  also have "\<dots> = open_slot c f mbits name ?u" using find mode(2) by (simp add: lfsopen_search_def)
  finally have "lfsopen name mode s = open_slot c f mbits name ?u"
    using rd(3) c(3) mb mode(1) lf_wait_free [OF m] by (simp add: lfsopen_def of_loop_def SYSERR_def)
  moreover define s' where "s' = upd_lf c (\<lambda>b. b\<lparr>lfstate := LF_USED, lfdirptr := f, lfmode := mbits AND LF_MODE_RW, lfpos := 0,
           lfname := copy_name LF_NAME_LEN 0 name (lfname b), lfinum := LF_INULL, lfdnum := LF_DNULL, lfbyte := LF_BLKSIZ,
           lfibdirty := False, lfdbdirty := False\<rparr>) (s\<lparr>lf_dir := r, lf_dirpresent := True\<rparr>)"
  ultimately have run: "lfsopen name mode s = Ret (Some (lfdev (lfltab s c)), s')"
    using lf_signal_taken [OF m] by (simp add: open_slot_def Let_def upd_lf_def)
  have jo: "just_opened f (lfltab s' c)" using rd(2) by (simp add: just_opened_def s'_def upd_lf_def)
  have "ready_mutexes c s'" using rd(1) by (simp add: ready_mutexes_def s'_def upd_lf_def)
  moreover have "dir_synced (lf_dirdirty s') (Ram s') (lf_dir s')" using dk(2) by (simp add: dir_synced_def s'_def upd_lf_def)
  moreover have "\<exists>ns bs ifl dfl. file_rep ds (lfltab s' c) (Ram s') (lf_dir s') ns bs ifl dfl dat 0 \<and> I = set ns \<union> set ifl \<and> B = set bs \<union> set dfl"
  proof -
    obtain ns bs ifl dfl where "I = set ns \<union> set ifl" "B = set bs \<union> set dfl" "\<forall>b. just_opened f b \<longrightarrow> file_rep ds b (Ram s) r ns bs ifl dfl dat 0"
      using st by (auto simp: stored_def)
    moreover have "Ram s' = Ram s" "lf_dir s' = r" by (simp_all add: s'_def upd_lf_def)
    ultimately show ?thesis using jo by (intro exI [of _ ns] exI [of _ bs] exI [of _ ifl] exI [of _ dfl]) simp
  qed
  ultimately have "file_at ds c I B s' dat 0" by (simp add: file_at_def)
  then show ?thesis using run c(1,2) jo by (intro exI [of _ c] exI [of _ s']) (simp add: just_opened_def, simp add: s'_def upd_lf_def)
qed

text \<open>
  C7: a closed file is on the disk. After \<open>lflclose\<close>, \<open>lfsopen\<close> with the name of the file finds its bytes again at position zero: in the same system, and in
  any other system started on that disk, whatever its memory holds, as long as its directory is the one on the disk or not yet read, the open file table has a
  free slot and the mode does not ask for a new file. The directory block read from the disk must be one that \<open>lfscheck\<close> accepts.
\<close>

theorem lfs_file_survives_restart:
  assumes "file_at ds c I B s dat pos" "lfscheck (lf_dir s) = OK" "names_file name (lfdirptr (lfltab s c)) (lf_dir s)"
  shows "\<exists>s'. lflclose c s = Ret (Some OK, s') \<and> keeps ds c I B s s' \<and>
    (\<forall>t mode mbits. Ram t = Ram s' \<longrightarrow> (lf_dirpresent t \<longrightarrow> lf_dir t = lf_dir s') \<longrightarrow> can_open name t \<longrightarrow>
      lfgetmode mode = Some mbits \<longrightarrow> mbits AND LF_MODE_N = 0 \<longrightarrow>
      (\<exists>i t'. lfsopen name mode t = Ret (Some (lfdev (lfltab t i)), t') \<and> file_at ds i I B t' dat 0))"
proof -
  obtain s' where s': "lflclose c s = Ret (Some OK, s')" "stored ds (lfdirptr (lfltab s c)) I B (Ram s') (lf_dir s') dat" "lf_dir s' = lf_dir s"
    "keeps ds c I B s s'" using lflclose_at [OF assms(1)] by blast
  have "\<exists>i t'. lfsopen name mode t = Ret (Some (lfdev (lfltab t i)), t') \<and> file_at ds i I B t' dat 0"
    if "Ram t = Ram s'" "lf_dirpresent t \<longrightarrow> lf_dir t = lf_dir s'" "can_open name t" "lfgetmode mode = Some mbits" "mbits AND LF_MODE_N = 0" for t mode mbits
    using lfsopen_at [of ds "lfdirptr (lfltab s c)" I B t "lf_dir s'" dat name mode mbits] that s' assms(2,3) by auto
  then show ?thesis using s'(1,4) by blast
qed

lemma lfs1_entry: "names_file (\<lambda>i. if i = 0 then 97 else 0) 0 r" "lfscheck r = OK"
  if "dir_head r = dir_head (lf_dir lfs1)" "ld_name (lfd_files r ! 0) = 97 # replicate 15 0" for r
proof -
  have r: "lfd_fsysid r = LFS_ID" "lfd_nfiles r = 1" "lfd_allzeros r = 0" "lfd_allones r = -1" "lfd_revid r = 0x756E6958"
    using that(1) by (simp_all add: dir_head_def lfs1_def zero_dir_def)
  have "same_file (\<lambda>i. if i = 0 then 97 else 0) (97 # replicate 15 0) 0 = Some True"
    by (subst same_file.simps, subst same_file.simps) simp
  then show "names_file (\<lambda>i. if i = 0 then 97 else 0) 0 r" using that(2) r(2) by (simp add: names_file_def LF_NUM_DIR_ENT_def)
  have "(drop_bit 24 LFS_ID AND 0x000000ff) OR (drop_bit 8 LFS_ID AND 0x0000ff00) OR
           (push_bit 8 LFS_ID AND 0x00ff0000) OR (push_bit 24 LFS_ID AND 0xff000000) = 0x756E6958" by code_simp
  then show "lfscheck r = OK" using r by (simp add: lfscheck_def)
qed

theorem lfs_file_survives_restart_witness:
  "\<exists>s s' i t'. lflputc 7 0 lfs1 = Ret (Some OK, s) \<and> lflclose 0 s = Ret (Some OK, s') \<and>
    lfsopen (\<lambda>i. if i = 0 then 97 else 0) (\<lambda>i. if i = 0 then 114 else 0)
      (lfs1\<lparr>Ram := Ram s', lf_dirpresent := False, lfltab := \<lambda>i. (lfltab lfs1 i)\<lparr>lfstate := LF_FREE\<rparr>\<rparr>) = Ret (Some (20 + int i), t') \<and>
    file_at 2 i {0} {5} t' [7] 0"
proof -
  let ?name = "\<lambda>i. if i = 0 then 97 else 0 :: u8" and ?mode = "\<lambda>i. if i = 0 then 114 else 0 :: u8"
  obtain s where s: "lflputc 7 0 lfs1 = Ret (Some OK, s)" "file_at 2 0 {0} {5} s [7] 1" "keeps 2 0 {0} {5} lfs1 s"
    using lflputc_at(2) [OF lfs1_file, of 7] by (auto simp: capacity_def overwrite_def)
  have ptr: "lfdirptr (lfltab s 0) = 0" "dir_head (lf_dir s) = dir_head (lf_dir lfs1)" "ld_name (lfd_files (lf_dir s) ! 0) = 97 # replicate 15 0"
    using s(3) by (simp_all add: keeps_def dir_others_def lfs1_def LF_NUM_DIR_ENT_def)
  note e = lfs1_entry [OF ptr(2,3)]
  obtain s' where s': "lflclose 0 s = Ret (Some OK, s')"
    "\<forall>t mode mbits. Ram t = Ram s' \<longrightarrow> (lf_dirpresent t \<longrightarrow> lf_dir t = lf_dir s') \<longrightarrow> can_open ?name t \<longrightarrow>
      lfgetmode mode = Some mbits \<longrightarrow> mbits AND LF_MODE_N = 0 \<longrightarrow>
      (\<exists>i t'. lfsopen ?name mode t = Ret (Some (lfdev (lfltab t i)), t') \<and> file_at 2 i {0} {5} t' [7] 0)"
    using lfs_file_survives_restart [OF s(2) e(2), of ?name] e(1) ptr(1) by auto
  let ?t = "lfs1\<lparr>Ram := Ram s', lf_dirpresent := False, lfltab := \<lambda>i. (lfltab lfs1 i)\<lparr>lfstate := LF_FREE\<rparr>\<rparr>"
  have len: "LF_NAME_LEN = Suc (Suc 14)" by (simp add: LF_NAME_LEN_def)
  have "name_length LF_NAME_LEN 0 ?name = 1" unfolding len name_length.simps by simp
  moreover have "ready_mutexes i ?t" if "i < Nlfl" for i using that
    by (auto simp: ready_mutexes_def mutex_free_def lfs1_def isbadsem_def layout_defs Nlfl_def)
  ultimately have co: "can_open ?name ?t" by (auto simp: can_open_def len Nlfl_def lfs1_def intro: exI [of _ 0])
  have gm: "lfgetmode ?mode = Some 1" unfolding lfgetmode_def
    by (subst getmode_loop.simps, subst getmode_loop.simps) (simp add: LF_MODE_R_def LF_MODE_RW_def Let_def)
  have an: "1 AND LF_MODE_N = (0 :: int)" by (simp add: LF_MODE_N_def)
  have "\<exists>i t'. lfsopen ?name ?mode ?t = Ret (Some (lfdev (lfltab ?t i)), t') \<and> file_at 2 i {0} {5} t' [7] 0"
    by (rule s'(2) [rule_format, OF _ _ co gm an]) simp_all
  then obtain i t' where o: "lfsopen ?name ?mode ?t = Ret (Some (lfdev (lfltab ?t i)), t')" "file_at 2 i {0} {5} t' [7] 0"
    by blast
  have dev: "lfdev (lfltab ?t i) = 20 + int i" by (simp add: lfs1_def)
  show ?thesis using s(1) s'(1) o(1) [unfolded dev] o(2) by blast
qed

section \<open>Truncation\<close>

text \<open>One data block goes to the head of the free list.\<close>

lemma lfdbfree_run:
  assumes m: "ds \<le> m" "m < RM_BLKS" "1 \<le> ds" "ds \<le> RM_BLKS" and r: "dir_ok r" and j: "length junk = 508"
  obtains d' where "lfdbfree junk (word_of_nat m) (put s c b d r x) = Ret (put s c b d' (r\<lparr>lfd_dfree := word_of_nat m\<rparr>) x)"
    "dec32 (sect d' m) = lfd_dfree r" "\<And>k. ds \<le> k \<Longrightarrow> k \<noteq> m \<Longrightarrow> sect d' k = sect d k" "\<And>n. n < 7 * (ds - 1) \<Longrightarrow> disk_ib d' n = disk_ib d n"
proof -
  let ?z = "enc32 (lfd_dfree r) @ junk" and ?r = "r\<lparr>lfd_dfree := word_of_nat m\<rparr>"
  have z: "length ?z = 512" using j by simp
  have u: "unat (word_of_nat m :: u32) = m" "on_disk m" using m by (simp_all add: unat_of_nat_small RM_BLKS_def on_disk_def)
  have r': "dir_ok ?r" using r by (simp add: dir_ok_def)
  let ?d = "put_sect 0 (enc_dir ?r) (put_sect m ?z d)"
  note w = put_dir_sector [OF r' m(3)]
  have g: "geometry ds [] [m] [] []" using m by (simp add: geometry_def)
  note v = put_data_sector [OF g _ z, of m]
  show ?thesis
  proof (rule that [of ?d])
    show "lfdbfree junk (word_of_nat m) (put s c b d r x) = Ret (put s c b ?d ?r x)"
      using ramwrite_ok [OF u] write_dir_put [OF r'] by (simp add: lfdbfree_def lf_write_def Let_def)
    show "dec32 (sect ?d m) = lfd_dfree r" using w(2) m(1) v(2) by simp
    show "sect ?d k = sect d k" if "ds \<le> k" "k \<noteq> m" for k using w(2) that v(2) by simp
    show "disk_ib ?d n = disk_ib d n" if "n < 7 * (ds - 1)" for n using w(1) v(1) that by simp
  qed
qed

lemma free_dbs_run:
  assumes "set ms \<subseteq> {ds..<RM_BLKS}" "distinct (ms @ dfl)" "set dfl \<subseteq> {ds..<RM_BLKS}" "1 \<le> ds" "ds \<le> RM_BLKS" "length junk = 508"
    and "dir_ok r" "lfd_dfree r = first dfl" "linked (\<lambda>m. dec32 (sect d m)) dfl"
  shows "\<exists>d'. free_dbs junk (map word_of_nat ms @ replicate k LF_DNULL) (put s c b d r x) = Ret (put s c b d' (r\<lparr>lfd_dfree := first (rev ms @ dfl)\<rparr>) x) \<and>
    linked (\<lambda>m. dec32 (sect d' m)) (rev ms @ dfl) \<and> (\<forall>i. ds \<le> i \<and> i \<notin> set ms \<longrightarrow> sect d' i = sect d i) \<and>
    (\<forall>n < 7 * (ds - 1). disk_ib d' n = disk_ib d n)"
  using assms
proof (induction ms arbitrary: d r dfl)
  case Nil
  have "free_dbs junk (replicate k LF_DNULL) (put s c b d r x) = Ret (put s c b d r x)" by (induction k) simp_all
  moreover have "r\<lparr>lfd_dfree := first dfl\<rparr> = r" using Nil.prems(8) by simp
  ultimately show ?case using Nil.prems by (intro exI [of _ d]) simp
next
  case (Cons m ms)
  have m: "ds \<le> m" "m < RM_BLKS" using Cons.prems(1) by auto
  obtain d1 where 1: "lfdbfree junk (word_of_nat m) (put s c b d r x) = Ret (put s c b d1 (r\<lparr>lfd_dfree := word_of_nat m\<rparr>) x)"
    "dec32 (sect d1 m) = lfd_dfree r" "\<And>k. ds \<le> k \<Longrightarrow> k \<noteq> m \<Longrightarrow> sect d1 k = sect d k" "\<And>n. n < 7 * (ds - 1) \<Longrightarrow> disk_ib d1 n = disk_ib d n"
    using lfdbfree_run [OF m Cons.prems(4,5,7,6)] by metis
  have "linked (\<lambda>k. dec32 (sect d1 k)) dfl = linked (\<lambda>k. dec32 (sect d k)) dfl"
  proof (rule linked_cong)
    fix k assume "k \<in> set dfl"
    then have "ds \<le> k" "k \<noteq> m" using Cons.prems(2,3) by (auto simp: subset_iff)
    then show "dec32 (sect d1 k) = dec32 (sect d k)" using 1(3) by simp
  qed
  then have l: "linked (\<lambda>k. dec32 (sect d1 k)) (m # dfl)" using Cons.prems(8,9) 1(2) by simp
  obtain d2 where 2: "free_dbs junk (map word_of_nat ms @ replicate k LF_DNULL) (put s c b d1 (r\<lparr>lfd_dfree := word_of_nat m\<rparr>) x) =
      Ret (put s c b d2 (r\<lparr>lfd_dfree := first (rev ms @ m # dfl)\<rparr>) x)" "linked (\<lambda>m. dec32 (sect d2 m)) (rev ms @ m # dfl)"
    "\<forall>i. ds \<le> i \<and> i \<notin> set ms \<longrightarrow> sect d2 i = sect d1 i" "\<forall>n < 7 * (ds - 1). disk_ib d2 n = disk_ib d1 n"
    using Cons.IH [of "m # dfl" "r\<lparr>lfd_dfree := word_of_nat m\<rparr>" d1] Cons.prems l by (auto simp: dir_ok_def)
  have "(word_of_nat m :: u32) \<noteq> LF_DNULL" using m by (simp add: LF_DNULL_def RM_BLKS_def)
  then show ?case using 1 2 by (intro exI [of _ d2]) simp
qed

text \<open>The entries of an index block.\<close>

lemma mk_ib_entries:
  "ib_dba (mk_ib ns bs j) = map word_of_nat (take 16 (drop (16 * j) bs)) @ replicate (16 - length (take 16 (drop (16 * j) bs))) LF_DNULL"
  by (rule nth_equalityI) (auto simp: mk_ib_def LF_IBLEN_def nth_append)

text \<open>One index block of the file.\<close>

lemma trunc_ib_run:
  assumes g: "geometry ds ns bs ifl dfl" and j: "j < length ns" and ib: "disk_ib d (ns ! j) = mk_ib ns bs j"
    and r: "dir_ok r" "lfd_dfree r = first (rev (take (16 * j) bs) @ dfl)" "linked (\<lambda>m. dec32 (sect d m)) (rev (take (16 * j) bs) @ dfl)"
    and junk: "length junk = 508"
  shows "\<exists>d'. trunc_ib junk (first ifl) (word_of_nat (ns ! j)) (put s c b d r x) =
      Ret (first (drop (Suc j) ns @ ifl), put s c b d' (r\<lparr>lfd_dfree := first (rev (take (16 * Suc j) bs) @ dfl)\<rparr>) x) \<and>
    linked (\<lambda>m. dec32 (sect d' m)) (rev (take (16 * Suc j) bs) @ dfl) \<and> ib_next (disk_ib d' (ns ! j)) = first (drop (Suc j) ns @ ifl) \<and>
    (\<forall>i. ds \<le> i \<and> i \<notin> set bs \<longrightarrow> sect d' i = sect d i) \<and> (\<forall>n < 7 * (ds - 1). n \<noteq> ns ! j \<longrightarrow> disk_ib d' n = disk_ib d n)"
proof -
  let ?ms = "take 16 (drop (16 * j) bs)"
  have n: "ns ! j \<in> set ns \<union> set ifl" using j by simp
  note gn = geometry_index [OF g n]
  have tk: "take (16 * Suc j) bs = take (16 * j) bs @ ?ms" by (simp add: take_add [symmetric] add.commute)
  have sub: "set ?ms \<subseteq> set bs" "set (take (16 * j) bs) \<subseteq> set bs" by (meson set_take_subset set_drop_subset subset_trans)+
  have sets: "set ?ms \<subseteq> {ds..<RM_BLKS}" "set (rev (take (16 * j) bs) @ dfl) \<subseteq> {ds..<RM_BLKS}" "1 \<le> ds" "ds \<le> RM_BLKS"
    using g sub by (auto simp: geometry_def)
  have "distinct (take (16 * Suc j) bs)" "set (take (16 * Suc j) bs) \<inter> set dfl = {}"
    using g by (auto simp: geometry_def dest: in_set_takeD)
  then have dis: "distinct (?ms @ rev (take (16 * j) bs) @ dfl)" using g unfolding tk by (auto simp: geometry_def)
  obtain d1 where 1: "free_dbs junk (ib_dba (mk_ib ns bs j)) (put s c b d r x) =
      Ret (put s c b d1 (r\<lparr>lfd_dfree := first (rev (take (16 * Suc j) bs) @ dfl)\<rparr>) x)"
    "linked (\<lambda>m. dec32 (sect d1 m)) (rev (take (16 * Suc j) bs) @ dfl)" "\<forall>i. ds \<le> i \<and> i \<notin> set ?ms \<longrightarrow> sect d1 i = sect d i"
    "\<forall>n < 7 * (ds - 1). disk_ib d1 n = disk_ib d n"
    using free_dbs_run [OF sets(1) dis sets(2-4) junk r, of "16 - length ?ms" s c b x] unfolding mk_ib_entries tk by auto
  let ?ib = "(mk_ib ns bs j)\<lparr>ib_dba := replicate LF_IBLEN LF_DNULL, ib_offset := 0\<rparr>"
  define ib' where "ib' = (if ib_next ?ib = LF_INULL then ?ib\<lparr>ib_next := first ifl\<rparr> else ?ib)"
  have len: "length (ib_dba ib') = LF_IBLEN" by (simp add: ib'_def)
  have nx: "ib_next ib' = first (drop (Suc j) ns @ ifl)"
  proof (cases "Suc j < length ns")
    case True
    then have "first (drop (Suc j) ns @ ifl) = word_of_nat (ns ! Suc j)" by (simp add: Cons_nth_drop_Suc [symmetric])
    moreover have "(word_of_nat (ns ! Suc j) :: u32) \<noteq> LF_INULL" using geometry_index(1) [OF g, of "ns ! Suc j"] True by (simp add: LF_INULL_def)
    ultimately show ?thesis using drop_first [OF True] by (simp add: ib'_def mk_ib_def)
  qed (simp add: ib'_def mk_ib_def LF_INULL_def)
  note w = put_index_block [OF g n len]
  let ?d = "put_ib (ns ! j) ib' d1"
  have "trunc_ib junk (first ifl) (word_of_nat (ns ! j)) (put s c b d r x) =
      Ret (ib_next ib', put s c b ?d (r\<lparr>lfd_dfree := first (rev (take (16 * Suc j) bs) @ dfl)\<rparr>) x)"
    using lfibget_ok [OF gn(2,3), of d] ib 1(1) lfibput_ok [OF gn(2,3), of ib' d1]
    by (cases "ib_next (mk_ib ns bs j) = LF_INULL") (simp_all add: trunc_ib_def Let_def ib'_def)
  moreover have "linked (\<lambda>m. dec32 (sect ?d m)) (rev (take (16 * Suc j) bs) @ dfl) = linked (\<lambda>m. dec32 (sect d1 m)) (rev (take (16 * Suc j) bs) @ dfl)"
  proof (rule linked_cong)
    fix k assume "k \<in> set (rev (take (16 * Suc j) bs) @ dfl)"
    then have "ds \<le> k" using g by (auto simp: geometry_def dest: in_set_takeD)
    then show "dec32 (sect ?d k) = dec32 (sect d1 k)" by (simp add: w(2))
  qed
  ultimately show ?thesis using 1(2-4) nx w sub by (intro exI [of _ ?d]) (auto simp: subset_iff)
qed

lemma trunc_loop_run:
  assumes g: "geometry ds ns bs ifl dfl" and j: "j \<le> length ns" and junk: "length junk = 508" and len: "length bs \<le> 16 * length ns"
    and ib: "\<And>i. j \<le> i \<Longrightarrow> i < length ns \<Longrightarrow> disk_ib d (ns ! i) = mk_ib ns bs i"
    and r: "dir_ok r" "lfd_dfree r = first (rev (take (16 * j) bs) @ dfl)" "linked (\<lambda>m. dec32 (sect d m)) (rev (take (16 * j) bs) @ dfl)"
  shows "\<exists>d'. trunc_loop junk (first ifl) (first (drop j ns @ ifl)) (put s c b d r x) = Some (Ret (put s c b d' (r\<lparr>lfd_dfree := first (rev bs @ dfl)\<rparr>) x)) \<and>
    linked (\<lambda>m. dec32 (sect d' m)) (rev bs @ dfl) \<and> (\<forall>i. j \<le> i \<and> i < length ns \<longrightarrow> ib_next (disk_ib d' (ns ! i)) = first (drop (Suc i) ns @ ifl)) \<and>
    (\<forall>i. ds \<le> i \<and> i \<notin> set bs \<longrightarrow> sect d' i = sect d i) \<and> (\<forall>n < 7 * (ds - 1). n \<notin> set (drop j ns) \<longrightarrow> disk_ib d' n = disk_ib d n)"
  using j ib r
proof (induction "length ns - j" arbitrary: j d r)
  case 0
  then have e: "j = length ns" "take (16 * j) bs = bs" using len by simp_all
  have "r\<lparr>lfd_dfree := first (rev bs @ dfl)\<rparr> = r" using 0(5) e(2) by simp
  moreover have "trunc_loop junk (first ifl) (first ifl) (put s c b d r x) = Some (Ret (put s c b d r x))" by (subst trunc_loop.simps) simp
  ultimately show ?case using 0(6) e by (intro exI [of _ d]) auto
next
  case (Suc k)
  then have j: "j < length ns" by simp
  obtain d1 where 1: "trunc_ib junk (first ifl) (word_of_nat (ns ! j)) (put s c b d r x) =
      Ret (first (drop (Suc j) ns @ ifl), put s c b d1 (r\<lparr>lfd_dfree := first (rev (take (16 * Suc j) bs) @ dfl)\<rparr>) x)"
    "linked (\<lambda>m. dec32 (sect d1 m)) (rev (take (16 * Suc j) bs) @ dfl)" "ib_next (disk_ib d1 (ns ! j)) = first (drop (Suc j) ns @ ifl)"
    "\<forall>i. ds \<le> i \<and> i \<notin> set bs \<longrightarrow> sect d1 i = sect d i" "\<forall>n < 7 * (ds - 1). n \<noteq> ns ! j \<longrightarrow> disk_ib d1 n = disk_ib d n"
    using trunc_ib_run [OF g j Suc.prems(2) [OF order_refl j] Suc.prems(3-5) junk, of s c b x] by blast
  have "ns ! j \<in> set ns" using j by simp
  then have dis: "distinct ns" "ns ! j \<notin> set ifl" using g by (auto simp: geometry_def)
  have other: "ns ! i \<noteq> ns ! j \<and> ns ! i < 7 * (ds - 1)" if "i < length ns" "i \<noteq> j" for i
    using that dis(1) j geometry_index(5) [OF g, of "ns ! i"] by (simp add: nth_eq_iff_index_eq)
  define r1 where "r1 = r\<lparr>lfd_dfree := first (rev (take (16 * Suc j) bs) @ dfl)\<rparr>"
  have r1: "dir_ok r1" "lfd_dfree r1 = first (rev (take (16 * Suc j) bs) @ dfl)" "r1\<lparr>lfd_dfree := w\<rparr> = r\<lparr>lfd_dfree := w\<rparr>" for w
    using Suc.prems(3) by (simp_all add: r1_def dir_ok_def)
  obtain d2 where 2: "trunc_loop junk (first ifl) (first (drop (Suc j) ns @ ifl)) (put s c b d1 r1 x) =
      Some (Ret (put s c b d2 (r\<lparr>lfd_dfree := first (rev bs @ dfl)\<rparr>) x))" "linked (\<lambda>m. dec32 (sect d2 m)) (rev bs @ dfl)"
    "\<forall>i. Suc j \<le> i \<and> i < length ns \<longrightarrow> ib_next (disk_ib d2 (ns ! i)) = first (drop (Suc i) ns @ ifl)"
    "\<forall>i. ds \<le> i \<and> i \<notin> set bs \<longrightarrow> sect d2 i = sect d1 i" "\<forall>n < 7 * (ds - 1). n \<notin> set (drop (Suc j) ns) \<longrightarrow> disk_ib d2 n = disk_ib d1 n"
  proof -
    have "k = length ns - Suc j" "Suc j \<le> length ns" using Suc.hyps(2) j by simp_all
    moreover have "disk_ib d1 (ns ! i) = mk_ib ns bs i" if "Suc j \<le> i" "i < length ns" for i
      using 1(5) other [of i] that Suc.prems(2) [of i] by simp
    ultimately show ?thesis using Suc.hyps(1) [of "Suc j" d1 r1] r1 1(2) that by metis
  qed
  have f: "first (drop j ns @ ifl) = word_of_nat (ns ! j)" using j by (simp add: Cons_nth_drop_Suc [symmetric])
  have lt: "ns ! j < 4294967295" "ns ! j < 7 * (ds - 1)" using geometry_index(1,5) [OF g, of "ns ! j"] j by simp_all
  have ne: "word_of_nat (ns ! j) \<noteq> first ifl"
  proof (cases ifl)
    case (Cons n l)
    then have "n \<noteq> ns ! j" "n < 4294967295" using dis(2) geometry_index(1) [OF g, of n] by auto
    then show ?thesis using Cons lt(1) by simp
  qed (simp add: lt(1))
  have run: "trunc_loop junk (first ifl) (word_of_nat (ns ! j)) (put s c b d r x) = Some (Ret (put s c b d2 (r\<lparr>lfd_dfree := first (rev bs @ dfl)\<rparr>) x))"
    using ne 1(1) 2(1) by (subst trunc_loop.simps) (simp add: r1_def)
  have "ns ! j \<notin> set (drop (Suc j) ns)" using dis(1) j by (auto simp: in_set_conv_nth nth_eq_iff_index_eq)
  then have at: "ib_next (disk_ib d2 (ns ! j)) = first (drop (Suc j) ns @ ifl)" using 2(5) lt(2) 1(3) by simp
  have nx: "ib_next (disk_ib d2 (ns ! i)) = first (drop (Suc i) ns @ ifl)" if "j \<le> i" "i < length ns" for i
    using at 2(3) that by (cases "i = j") simp_all
  have "disk_ib d2 n = disk_ib d n" if "n < 7 * (ds - 1)" "n \<notin> set (drop j ns)" for n
    using that 2(5) 1(5) j by (simp add: Cons_nth_drop_Suc [symmetric])
  then show ?case unfolding f using run 2(2,4) 1(4) nx by (intro exI [of _ d2]) simp
qed

lemma linked_nth: "linked nx (ns @ l) \<longleftrightarrow> linked nx l \<and> (\<forall>i < length ns. nx (ns ! i) = first (drop (Suc i) ns @ l))"
  by (induction ns) (auto simp: All_less_Suc2)

text \<open>The whole file.\<close>

lemma lftruncate_run:
  assumes rep: "file_rep ds b d r ns bs ifl dfl dat pos" and junk: "length junk = 508" and ne: "dat \<noteq> []"
  shows "\<exists>b' d' r'. lftruncate junk c (put s c b d r x) = Ret (OK, put s c b' d' r' True) \<and> file_rep ds b' d' r' [] [] (ns @ ifl) (rev bs @ dfl) [] 0 \<and>
    disk_frame ds (set ns \<union> set ifl) (set bs \<union> set dfl) d d' \<and> dir_others (lfdirptr b) r r' \<and> same_file_block b b'"
proof -
  let ?f = "lfdirptr b"
  have inv: "file_inv ds b d r ns bs ifl dfl" using rep by (simp add: file_rep_def)
  obtain b1 d1 x1 where 1: "(if lfibdirty b \<or> lfdbdirty b then rbind (lfflush c (put s c b d r x)) (\<lambda>(_, s). Ret s) else Ret (put s c b d r x)) =
      Ret (put s c b1 d1 r x1)" "file_inv ds b1 d1 r ns bs ifl dfl" "evolves ds ns bs ifl dfl (b, d, r) (b1, d1, r)" "\<not> lfibdirty b1" "\<not> lfdbdirty b1"
    using flush_stage [OF inv] by metis
  have i1: "geometry ds ns bs ifl dfl" "dir_ok r" "ld_ilist (lfd_files r ! ?f) = first ns" "length bs \<le> 16 * length ns" "lfd_ifree r = first ifl"
    "linked (\<lambda>n. ib_next (disk_ib d1 n)) ifl" "lfd_dfree r = first dfl" "linked (\<lambda>m. dec32 (sect d1 m)) dfl" "?f < LF_NUM_DIR_ENT"
    using 1(2) inv by (simp_all add: file_inv_def)
  have ib: "disk_ib d1 (ns ! i) = mk_ib ns bs i" if "i < length ns" for i
    using clean_ib [OF 1(2,4), of "ns ! i"] 1(2) that by (simp add: file_inv_def)
  have fl: "?f < length (lfd_files r)" using i1(2,9) by (simp add: dir_ok_def)
  define b2 where "b2 = b1\<lparr>lfpos := 0, lfinum := LF_INULL, lfdnum := LF_DNULL, lfbyte := LF_BLKSIZ\<rparr>"
  define r2 where "r2 = r\<lparr>lfd_files := (lfd_files r)[?f := (lfd_files r ! ?f)\<lparr>ld_size := 0, ld_ilist := LF_INULL\<rparr>]\<rparr>"
  have r2: "dir_ok r2" "lfd_dfree r2 = first (rev (take (16 * 0) bs) @ dfl)" using i1(2,7,9) fl
    by (auto simp: r2_def dir_ok_def dest!: set_update_subset_insert [THEN subsetD])
  obtain d3 where 3: "trunc_loop junk (first ifl) (first (drop 0 ns @ ifl)) (put s c b2 d1 r2 True) =
      Some (Ret (put s c b2 d3 (r2\<lparr>lfd_dfree := first (rev bs @ dfl)\<rparr>) True))" "linked (\<lambda>m. dec32 (sect d3 m)) (rev bs @ dfl)"
    "\<forall>i. 0 \<le> i \<and> i < length ns \<longrightarrow> ib_next (disk_ib d3 (ns ! i)) = first (drop (Suc i) ns @ ifl)"
    "\<forall>i. ds \<le> i \<and> i \<notin> set bs \<longrightarrow> sect d3 i = sect d1 i" "\<forall>n < 7 * (ds - 1). n \<notin> set (drop 0 ns) \<longrightarrow> disk_ib d3 n = disk_ib d1 n"
    using trunc_loop_run [OF i1(1) _ junk i1(4) _ r2, of d1 s c b2 True] ib i1(8) by auto
  have nsne: "ns \<noteq> []" using ne i1(4) rep_bounds(1) [OF rep] by (cases ns) simp_all
  have ilist: "first (drop 0 ns @ ifl) = first ns" using nsne by (cases ns) simp_all
  define r3 where "r3 = r2\<lparr>lfd_dfree := first (rev bs @ dfl), lfd_ifree := first ns\<rparr>"
  have m: "lfdirptr b1 = ?f" using 1(3) by (simp add: evolves_def)
  have "unat (ld_size (lfd_files r ! ?f)) \<noteq> 0" using rep_sizes(1) [OF rep] ne by simp
  then have size: "ld_size (lfd_files r ! ?f) \<noteq> 0" by auto
  have run: "lftruncate junk c (put s c b d r x) = Ret (OK, put s c b2 d3 r3 True)"
  proof -
    have "lftruncate junk c (put s c b d r x) = rbind (if lfibdirty b \<or> lfdbdirty b then rbind (lfflush c (put s c b d r x)) (\<lambda>(_, s). Ret s) else Ret (put s c b d r x))
        (\<lambda>s. let s = upd_lf c (\<lambda>b. b\<lparr>lfpos := 0, lfinum := LF_INULL, lfdnum := LF_DNULL, lfbyte := LF_BLKSIZ\<rparr>) s;
           ifree = lfd_ifree (lf_dir s);
           firstib = ld_ilist (dir_entry s ?f);
           s = (upd_ld ?f (\<lambda>e. e\<lparr>ld_size := 0, ld_ilist := LF_INULL\<rparr>) s)\<lparr>lf_dirdirty := True\<rparr> in
       rbind (rjoin (of_loop (trunc_loop junk ifree firstib s))) (\<lambda>s.
       Ret (OK, s\<lparr>lf_dir := (lf_dir s)\<lparr>lfd_ifree := firstib\<rparr>, lf_dirdirty := True\<rparr>)))"
      using size by (simp add: lftruncate_def Let_def)
    also have "\<dots> = rbind (rjoin (of_loop (trunc_loop junk (first ifl) (first ns) (put s c b2 d1 r2 True)))) (\<lambda>s.
       Ret (OK, s\<lparr>lf_dir := (lf_dir s)\<lparr>lfd_ifree := first ns\<rparr>, lf_dirdirty := True\<rparr>))"
      unfolding 1(1) using i1(3,5) by (simp add: Let_def b2_def [symmetric] r2_def [symmetric])
    also have "\<dots> = Ret (OK, put s c b2 d3 r3 True)" using 3(1) unfolding ilist by (simp add: of_loop_def r3_def)
    finally show ?thesis .
  qed
  have "linked (\<lambda>n. ib_next (disk_ib d3 n)) ifl = linked (\<lambda>n. ib_next (disk_ib d1 n)) ifl"
  proof (rule linked_cong)
    fix n assume "n \<in> set ifl"
    then have "n < 7 * (ds - 1)" "n \<notin> set (drop 0 ns)" using geometry_index(5) [OF i1(1), of n] i1(1) by (auto simp: geometry_def)
    then show "ib_next (disk_ib d3 n) = ib_next (disk_ib d1 n)" using 3(5) by simp
  qed
  then have "linked (\<lambda>n. ib_next (disk_ib d3 n)) (ns @ ifl)" unfolding linked_nth using 3(3) i1(6) by simp
  moreover have "geometry ds [] [] (ns @ ifl) (rev bs @ dfl)" using i1(1) by (auto simp: geometry_def)
  moreover have "first (ns @ ifl) = first ns" using ilist by simp
  moreover have "cached b2 d3 [] []" using 1(2,4,5) by (simp add: b2_def cached_def file_inv_def LF_INULL_def LF_DNULL_def)
  moreover have "lfd_files r3 ! ?f = (lfd_files r ! ?f)\<lparr>ld_size := 0, ld_ilist := LF_INULL\<rparr>" using fl by (simp add: r3_def r2_def)
  moreover have "dir_ok r3" using r2(1) by (simp add: r3_def dir_ok_def)
  ultimately have rep': "file_rep ds b2 d3 r3 [] [] (ns @ ifl) (rev bs @ dfl) [] 0"
    using 3(2) 1(2) m i1(9) by (simp add: file_rep_def file_inv_def holds_def b2_def r3_def LF_INULL_def)
  have "disk_frame ds (set ns \<union> set ifl) (set bs \<union> set dfl) d1 d3" using 3(4,5) by (auto simp: disk_frame_def)
  then have fr: "disk_frame ds (set ns \<union> set ifl) (set bs \<union> set dfl) d d3" using evolves_same [OF 1(3)] by (simp add: disk_frame_def)
  have "dir_others ?f r r3" using fl by (simp add: dir_others_def r3_def r2_def)
  then show ?thesis using run rep' fr evolves_same [OF 1(3)] by (intro exI [of _ b2] exI [of _ d3] exI [of _ r3]) (simp add: b2_def same_file_block_def)
qed

text \<open>
  C8: truncating a file. \<open>lflcontrol\<close> with \<open>LF_CTL_TRUNC\<close> on an open file returns \<open>OK\<close> and leaves the file empty at position zero; its index and data blocks are
  all on the free lists again, so that everything written before can be written anew, and each block is there once. Blocks of other files, other directory
  entries, other open files and the kernel are not touched, whatever the stack left in the freed blocks.
\<close>

theorem lfs_truncate_empties:
  assumes at: "file_at ds c I B s dat pos" and junk: "length junk = 508"
  shows "\<exists>s'. lflcontrol junk LF_CTL_TRUNC c s = Ret (Some OK, s') \<and> file_at ds c I B s' [] 0 \<and> keeps ds c I B s s'"
proof -
  define b k where "b = lfltab s c" and "k = lkern s"
  obtain ns bs ifl dfl where o: "file_rep ds b (Ram s) (lf_dir s) ns bs ifl dfl dat pos" "I = set ns \<union> set ifl" "B = set bs \<union> set dfl"
    "mutex_free (lfmutex b) k" "mutex_free (lf_mutex s) (set_scount (lfmutex b) 0 k)"
    "\<forall>rest. with_mutex rest c s = rest c (put (s\<lparr>lkern := set_scount (lfmutex b) 0 k\<rparr>) c b (Ram s) (lf_dir s) (lf_dirdirty s))"
    using at_locked [OF at b_def k_def] .
  let ?k = "set_scount (lfmutex b) 0 k"
  let ?t = "s\<lparr>lkern := set_scount (lf_mutex s) 0 ?k\<rparr>"
  have used: "lfstate b = LF_USED" using o(1) by (simp add: file_rep_def file_inv_def)
  obtain b' d' r' x' where 1: "lftruncate junk c (put ?t c b (Ram s) (lf_dir s) (lf_dirdirty s)) = Ret (OK, put ?t c b' d' r' x')"
    "file_at ds c I B (put s c b' d' r' x') [] 0 \<and> keeps ds c I B s (put s c b' d' r' x')" "lfmutex b' = lfmutex b"
  proof (cases "dat = []")
    case True
    have size: "unat (ld_size (dir_entry s (lfdirptr b))) = 0" using rep_sizes(1) [OF o(1)] True by simp
    have "ld_size (dir_entry s (lfdirptr b)) = 0" by (metis size unat_eq_zero)
    then have "lftruncate junk c (put ?t c b (Ram s) (lf_dir s) (lf_dirdirty s)) = Ret (OK, put ?t c b (Ram s) (lf_dir s) (lf_dirdirty s))"
      by (simp add: lftruncate_def Let_def)
    moreover have "pos = 0" using o(1) True by (simp add: file_rep_def)
    ultimately show ?thesis using that [of b "Ram s" "lf_dir s" "lf_dirdirty s"] at keeps_refl True put_id [of s c] b_def by simp
  next
    case False
    from lftruncate_run [OF o(1) junk False, of c ?t "lf_dirdirty s"] obtain b' d' r' where
      2: "lftruncate junk c (put ?t c b (Ram s) (lf_dir s) (lf_dirdirty s)) = Ret (OK, put ?t c b' d' r' True)"
      "file_rep ds b' d' r' [] [] (ns @ ifl) (rev bs @ dfl) [] 0" "disk_frame ds I B (Ram s) d'" "dir_others (lfdirptr b) (lf_dir s) r'"
      "same_file_block b b'" unfolding o(2,3) by blast
    have "I = set [] \<union> set (ns @ ifl)" "B = set [] \<union> set (rev bs @ dfl)" using o(2,3) by auto
    from at_released [OF at 2(2) this 2(3), of True] 2(4,5) show ?thesis
      using that [OF 2(1)] by (simp add: b_def dir_synced_def same_file_block_def)
  qed
  let ?s' = "put s c b' d' r' x'"
  have w: "lf_wait (lf_mutex s) (put (s\<lparr>lkern := ?k\<rparr>) c b (Ram s) (lf_dir s) (lf_dirdirty s)) = Ret (True, put ?t c b (Ram s) (lf_dir s) (lf_dirdirty s))"
    using lf_wait_free [of "lf_mutex s" "put (s\<lparr>lkern := ?k\<rparr>) c b (Ram s) (lf_dir s) (lf_dirdirty s)"] o(5) by simp
  have "lf_signal (lf_mutex s) (put ?t c b' d' r' x') = Ret (put (s\<lparr>lkern := ?k\<rparr>) c b' d' r' x')"
    using lf_signal_taken [OF o(5), of "put ?t c b' d' r' x'"] by simp
  moreover have "lf_return (lfmutex b) OK (put (s\<lparr>lkern := ?k\<rparr>) c b' d' r' x') = Ret (Some OK, ?s')"
    using lf_return_taken [OF o(4), of "put (s\<lparr>lkern := ?k\<rparr>) c b' d' r' x'"] by (simp add: put_def k_def)
  ultimately have "lflcontrol junk LF_CTL_TRUNC c s = Ret (Some OK, ?s')"
    using used w 1(1,3) by (simp add: lflcontrol_def o(6) lflcontrol_rest_def trunc_locked_def)
  then show ?thesis using 1(2) by blast
qed

theorem lfs_truncate_empties_witness:
  "\<exists>s s'. lflputc 7 0 lfs1 = Ret (Some OK, s) \<and> lflcontrol (replicate 508 9) LF_CTL_TRUNC 0 s = Ret (Some OK, s') \<and> file_at 2 0 {0} {5} s' [] 0"
proof -
  obtain s where s: "lflputc 7 0 lfs1 = Ret (Some OK, s)" "file_at 2 0 {0} {5} s (overwrite 0 [7] []) (0 + 1)"
    using lflputc_at(2) [OF lfs1_file, of 7] by (auto simp: capacity_def)
  then show ?thesis using lfs_truncate_empties [OF s(2), of "replicate 508 9"] by auto
qed

end
