(* ===== verification/Ether.thy ===== *)
theory Ether
  imports Semaphores
begin

text \<open>
  The Ethernet driver: \<open>device/eth/ethread.c\<close>, \<open>ethwrite.c\<close>, \<open>ethhandler.c\<close>, \<open>ethcontrol.c\<close>, \<open>include/ether.h\<close> and the descriptors of \<open>include/e1000e.h\<close>.

  The descriptors and their buffers are in memory that the card shares; what the card does to them happens between the steps. The registers are those that the
  routines write; a write of the interrupt mask has no counterpart. A caller of \<open>ethread\<close> or \<open>ethwrite\<close> that waits goes on with the \<open>_rest\<close> routine.
\<close>

section \<open>State\<close>

definition ETH_HDR_LEN :: int where "ETH_HDR_LEN = 14"
definition ETH_MAX_PKT_LEN :: int where "ETH_MAX_PKT_LEN = 1518"
definition ETH_BUF_SIZE :: nat where "ETH_BUF_SIZE = 2048"
definition E1000_RING_BOUNDARY :: u32 where "E1000_RING_BOUNDARY = 16"
definition E1000_RXD_STAT_DD :: u8 where "E1000_RXD_STAT_DD = 1"
definition E1000_TXD_STAT_DD :: u32 where "E1000_TXD_STAT_DD = 1"
definition TXD_COMMAND :: u32 where "TXD_COMMAND = 0x80000000 OR 0x08000000 OR 0x02000000 OR 0x01000000"

datatype eth_state = ETH_STATE_FREE | ETH_STATE_DOWN | ETH_STATE_UP

record eth_rx_desc =
  rx_length :: u16
  rx_csum :: u16
  rx_status :: u8
  rx_errors :: u8
  rx_special :: u16
  rx_buffer :: "u8 list"

record eth_tx_desc =
  tx_lower :: u32
  tx_upper :: u32
  tx_buffer :: "u8 list"

record ethcblk =
  ethstate :: eth_state
  rxRing :: "nat \<Rightarrow> eth_rx_desc"
  rxHead :: u32
  rxTail :: u32
  rxRingSize :: u32
  rxIrq :: u32
  txRing :: "nat \<Rightarrow> eth_tx_desc"
  txHead :: u32
  txTail :: u32
  txRingSize :: u32
  txIrq :: u32
  devAddress :: "u8 list"
  isem :: int
  osem :: int
  reg_rdt :: u32
  reg_tdt :: u32
  reg_ral :: "int \<Rightarrow> u32"
  reg_rah :: "int \<Rightarrow> u32"

definition upd_rx :: "u32 \<Rightarrow> (eth_rx_desc \<Rightarrow> eth_rx_desc) \<Rightarrow> ethcblk \<Rightarrow> ethcblk" where
  "upd_rx i f e = e\<lparr>rxRing := (rxRing e)(unat i := f (rxRing e (unat i)))\<rparr>"

definition upd_tx :: "u32 \<Rightarrow> (eth_tx_desc \<Rightarrow> eth_tx_desc) \<Rightarrow> ethcblk \<Rightarrow> ethcblk" where
  "upd_tx i f e = e\<lparr>txRing := (txRing e)(unat i := f (txRing e (unat i)))\<rparr>"

text \<open>\<open>wait\<close>; the first result says whether the caller still has the processor.\<close>

definition wait_run :: "int \<Rightarrow> kernel \<Rightarrow> (bool \<times> kernel) result" where
  "wait_run sem k = rbind (wait sem k) (\<lambda>(_, k'). Ret (currpid k' = currpid k, k'))"

section \<open>Reading\<close>

text \<open>The bytes are those copied to the caller; their number does not depend on the length of its buffer.\<close>

definition ethread_rest :: "ethcblk \<Rightarrow> int \<times> u8 list \<times> ethcblk" where
  "ethread_rest e =
    (let head = rxHead e; d = rxRing e (unat head); ok = rx_status d AND E1000_RXD_STAT_DD \<noteq> 0;
         retval = (if ok then uint (rx_length d) else SYSERR);
         bytes = (if ok then take (unat (rx_length d)) (rx_buffer d) else []);
         e = upd_rx head (\<lambda>d. d\<lparr>rx_length := 0, rx_csum := 0, rx_status := 0, rx_errors := 0, rx_special := 0, rx_buffer := replicate ETH_BUF_SIZE 0\<rparr>) e;
         e = (if rxHead e mod E1000_RING_BOUNDARY = 0 then e\<lparr>reg_rdt := (reg_rdt e + E1000_RING_BOUNDARY) mod rxRingSize e\<rparr> else e)
     in (retval, bytes, e\<lparr>rxHead := (rxHead e + 1) mod rxRingSize e\<rparr>))"

definition ethread :: "u32 \<Rightarrow> ethcblk \<times> kernel \<Rightarrow> ((int \<times> u8 list) option \<times> ethcblk \<times> kernel) result" where
  "ethread len ek = (case ek of (e, k) \<Rightarrow>
    if ethstate e \<noteq> ETH_STATE_UP \<or> uint len < ETH_HDR_LEN then Ret (Some (SYSERR, []), e, k)
    else
      rbind (wait_run (isem e) k) (\<lambda>(runs, k).
      if runs then case ethread_rest e of (r, bs, e) \<Rightarrow> Ret (Some (r, bs), e, k) else Ret (None, e, k)))"

section \<open>Writing\<close>

text \<open>Copying behind the end of the packet is a \<open>Fault\<close>.\<close>

definition ethwrite_rest :: "u8 list \<Rightarrow> u32 \<Rightarrow> ethcblk \<Rightarrow> (int \<times> ethcblk) result" where
  "ethwrite_rest buf len e =
    (if unat len > length buf then Fault
     else
       let tail = txTail e;
           e = upd_tx tail (\<lambda>d. d\<lparr>tx_buffer := take (unat len) buf @ drop (unat len) (tx_buffer d)\<rparr>) e;
           e = upd_tx tail (\<lambda>d. d\<lparr>tx_lower := TXD_COMMAND OR len, tx_upper := 0\<rparr>) e;
           e = e\<lparr>reg_tdt := (reg_tdt e + 1) mod txRingSize e\<rparr>
       in Ret (uint len, e\<lparr>txTail := (txTail e + 1) mod txRingSize e\<rparr>))"

definition ethwrite :: "u8 list \<Rightarrow> u32 \<Rightarrow> ethcblk \<times> kernel \<Rightarrow> (int option \<times> ethcblk \<times> kernel) result" where
  "ethwrite buf len ek = (case ek of (e, k) \<Rightarrow>
    if ethstate e \<noteq> ETH_STATE_UP \<or> uint len < ETH_HDR_LEN \<or> uint len > ETH_MAX_PKT_LEN then Ret (Some SYSERR, e, k)
    else if uint len < 17 then Ret (Some SYSERR, e, k)
    else
      rbind (wait_run (osem e) k) (\<lambda>(runs, k).
      if runs then rbind (ethwrite_rest buf len e) (\<lambda>(r, e). Ret (Some r, e, k)) else Ret (None, e, k)))"

section \<open>Interrupts\<close>

fun rx_count :: "nat \<Rightarrow> int \<Rightarrow> ethcblk \<Rightarrow> int \<times> ethcblk" where
  "rx_count 0 numdesc e = (numdesc, e)"
| "rx_count (Suc n) numdesc e =
    (if rx_status (rxRing e (unat (rxTail e))) = 0 then (numdesc, e)
     else rx_count n (numdesc + 1) (e\<lparr>rxTail := (rxTail e + 1) mod rxRingSize e\<rparr>))"

definition eth_rxPackets :: "ethcblk \<times> kernel \<Rightarrow> (ethcblk \<times> kernel) result" where
  "eth_rxPackets ek = (case ek of (e, k) \<Rightarrow>
    case rx_count (unat (rxRingSize e)) 0 e of (numdesc, e) \<Rightarrow>
    rbind (signaln (isem e) numdesc k) (\<lambda>(_, k). Ret (e, k)))"

fun tx_reclaim :: "nat \<Rightarrow> int \<Rightarrow> ethcblk \<Rightarrow> int \<times> ethcblk" where
  "tx_reclaim 0 numdesc e = (numdesc, e)"
| "tx_reclaim (Suc n) numdesc e =
    (let head = txHead e in
     if tx_upper (txRing e (unat head)) AND E1000_TXD_STAT_DD = 0 then (numdesc, e)
     else
       let e = upd_tx head (\<lambda>d. d\<lparr>tx_lower := 0, tx_upper := 0, tx_buffer := replicate ETH_BUF_SIZE 0\<rparr>) e
       in tx_reclaim n (numdesc + 1) (e\<lparr>txHead := (txHead e + 1) mod txRingSize e\<rparr>))"

definition eth_txPackets :: "ethcblk \<times> kernel \<Rightarrow> (ethcblk \<times> kernel) result" where
  "eth_txPackets ek = (case ek of (e, k) \<Rightarrow>
    case tx_reclaim (unat (txRingSize e)) 0 e of (numdesc, e) \<Rightarrow>
    rbind (signaln (osem e) numdesc k) (\<lambda>(_, k). Ret (e, k)))"

definition E1000_ICR_RXT0 :: u32 where "E1000_ICR_RXT0 = 0x80"
definition E1000_ICR_TXDW :: u32 where "E1000_ICR_TXDW = 1"

text \<open>\<open>status\<close> is what the card has in its interrupt cause register.\<close>

definition ethhandler :: "u32 \<Rightarrow> ethcblk \<times> kernel \<Rightarrow> (ethcblk \<times> kernel) result" where
  "ethhandler status ek = (case ek of (e, k) \<Rightarrow>
    if status = 0 then Ret (e, k)
    else
      rbind (resched_cntl DEFER_START k) (\<lambda>(_, k).
      rbind (if status AND E1000_ICR_RXT0 \<noteq> 0 then eth_rxPackets (e\<lparr>rxIrq := rxIrq e + 1\<rparr>, k) else Ret (e, k)) (\<lambda>(e, k).
      rbind (if status AND E1000_ICR_TXDW \<noteq> 0 then eth_txPackets (e\<lparr>txIrq := txIrq e + 1\<rparr>, k) else Ret (e, k)) (\<lambda>(e, k).
      rbind (resched_cntl DEFER_STOP k) (\<lambda>(_, k).
      Ret (e, k))))))"

section \<open>Control\<close>

datatype eth_control = ETH_CTRL_GET_MAC | ETH_CTRL_SET_MAC "u8 list" int | ETH_CTRL_OTHER int

definition E1000_RAH_AV :: u32 where "E1000_RAH_AV = 0x80000000"

text \<open>The bytes are those stored through the first argument of \<open>ETH_CTRL_GET_MAC\<close>.\<close>

definition ethcontrol :: "eth_control \<Rightarrow> ethcblk \<Rightarrow> int \<times> u8 list \<times> ethcblk" where
  "ethcontrol func e =
    (case func of
       ETH_CTRL_GET_MAC \<Rightarrow> (OK, take 6 (devAddress e), e)
     | ETH_CTRL_SET_MAC adr i \<Rightarrow>
         let rar_low = ucast (adr ! 0) OR push_bit 8 (ucast (adr ! 1)) OR push_bit 16 (ucast (adr ! 2)) OR push_bit 24 (ucast (adr ! 3));
             rar_high = ucast (adr ! 4) OR push_bit 8 (ucast (adr ! 5));
             rar_high = (if rar_low \<noteq> 0 \<or> rar_high \<noteq> 0 then rar_high OR E1000_RAH_AV else rar_high)
         in (OK, [], e\<lparr>reg_ral := (reg_ral e)(i := rar_low), reg_rah := (reg_rah e)(i := rar_high)\<rparr>)
     | ETH_CTRL_OTHER _ \<Rightarrow> (SYSERR, [], e))"

end
