(* ===== verification/Net.thy ===== *)
theory Net
  imports BufPool LfsDisk Ether
begin

text \<open>
  The data of the network stack and its routines on single packets: \<open>include/net.h\<close>, \<open>arp.h\<close>, \<open>ip.h\<close>, \<open>udp.h\<close>, \<open>icmp.h\<close>, the byte order macros of
  \<open>include/prototypes.h\<close>, the conversions and checksums of \<open>net/ip.c\<close>, \<open>net/icmp.c\<close>, \<open>net/udp.c\<close>, \<open>net/arp.c\<close> and \<open>net/net.c\<close>, and \<open>net/dot2ip.c\<close>.

  A packet is the bytes of its buffer, so that the headers of the different protocols overlay each other as in the union of the source. The buffers belong to the
  pool \<open>netbufpool\<close>; their contents are kept apart from the words of the free list, which lie in front of them.
\<close>

section \<open>Packets\<close>

type_synonym packet = "u8 list"

definition PACKLEN :: nat where "PACKLEN = 1514"

definition field :: "nat \<Rightarrow> nat \<Rightarrow> packet \<Rightarrow> u8 list" where
  "field i n p = take n (drop i p)"

definition set_field :: "nat \<Rightarrow> u8 list \<Rightarrow> packet \<Rightarrow> packet" where
  "set_field i bs p = take i p @ bs @ drop (i + length bs) p"

definition get8 :: "nat \<Rightarrow> packet \<Rightarrow> u8" where "get8 i p = p ! i"
definition get16 :: "nat \<Rightarrow> packet \<Rightarrow> u16" where "get16 i p = dec16 (field i 2 p)"
definition get32 :: "nat \<Rightarrow> packet \<Rightarrow> u32" where "get32 i p = dec32 (field i 4 p)"
definition put8 :: "nat \<Rightarrow> u8 \<Rightarrow> packet \<Rightarrow> packet" where "put8 i w = set_field i [w]"
definition put16 :: "nat \<Rightarrow> u16 \<Rightarrow> packet \<Rightarrow> packet" where "put16 i w = set_field i (enc16 w)"
definition put32 :: "nat \<Rightarrow> u32 \<Rightarrow> packet \<Rightarrow> packet" where "put32 i w = set_field i (enc32 w)"

text \<open>The places of the fields of \<open>struct netpacket\<close> and \<open>struct arppacket\<close>.\<close>

definition net_ethdst :: nat where "net_ethdst = 0"
definition net_ethsrc :: nat where "net_ethsrc = 6"
definition net_ethtype :: nat where "net_ethtype = 12"
definition net_ipvh :: nat where "net_ipvh = 14"
definition net_iptos :: nat where "net_iptos = 15"
definition net_iplen :: nat where "net_iplen = 16"
definition net_ipid :: nat where "net_ipid = 18"
definition net_ipfrag :: nat where "net_ipfrag = 20"
definition net_ipttl :: nat where "net_ipttl = 22"
definition net_ipproto :: nat where "net_ipproto = 23"
definition net_ipcksum :: nat where "net_ipcksum = 24"
definition net_ipsrc :: nat where "net_ipsrc = 26"
definition net_ipdst :: nat where "net_ipdst = 30"
definition net_udpsport :: nat where "net_udpsport = 34"
definition net_udpdport :: nat where "net_udpdport = 36"
definition net_udplen :: nat where "net_udplen = 38"
definition net_udpcksum :: nat where "net_udpcksum = 40"
definition net_udpdata :: nat where "net_udpdata = 42"
definition net_ictype :: nat where "net_ictype = 34"
definition net_iccode :: nat where "net_iccode = 35"
definition net_iccksum :: nat where "net_iccksum = 36"
definition net_icident :: nat where "net_icident = 38"
definition net_icseq :: nat where "net_icseq = 40"
definition net_icdata :: nat where "net_icdata = 42"

lemmas net_offsets = net_ethdst_def net_ethsrc_def net_ethtype_def net_ipvh_def net_iptos_def net_iplen_def net_ipid_def net_ipfrag_def net_ipttl_def
  net_ipproto_def net_ipcksum_def net_ipsrc_def net_ipdst_def net_udpsport_def net_udpdport_def net_udplen_def net_udpcksum_def net_udpdata_def
  net_ictype_def net_iccode_def net_iccksum_def net_icident_def net_icseq_def net_icdata_def

definition arp_ethdst :: nat where "arp_ethdst = 0"
definition arp_ethsrc :: nat where "arp_ethsrc = 6"
definition arp_ethtype :: nat where "arp_ethtype = 12"
definition arp_htype :: nat where "arp_htype = 14"
definition arp_ptype :: nat where "arp_ptype = 16"
definition arp_hlen :: nat where "arp_hlen = 18"
definition arp_plen :: nat where "arp_plen = 19"
definition arp_op :: nat where "arp_op = 20"
definition arp_sndha :: nat where "arp_sndha = 22"
definition arp_sndpa :: nat where "arp_sndpa = 28"
definition arp_tarha :: nat where "arp_tarha = 32"
definition arp_tarpa :: nat where "arp_tarpa = 38"
definition ARP_LEN :: nat where "ARP_LEN = 42"

lemmas arp_offsets = arp_ethdst_def arp_ethsrc_def arp_ethtype_def arp_htype_def arp_ptype_def arp_hlen_def arp_plen_def arp_op_def
  arp_sndha_def arp_sndpa_def arp_tarha_def arp_tarpa_def ARP_LEN_def

section \<open>Byte order\<close>

definition htons :: "u16 \<Rightarrow> u16" where
  "htons x = (0xff AND drop_bit 8 x) OR push_bit 8 (0xff AND x)"

definition htonl :: "u32 \<Rightarrow> u32" where
  "htonl x = (drop_bit 24 x AND 0x000000ff) OR (drop_bit 8 x AND 0x0000ff00) OR (push_bit 8 x AND 0x00ff0000) OR (push_bit 24 x AND 0xff000000)"

abbreviation ntohs :: "u16 \<Rightarrow> u16" where "ntohs \<equiv> htons"
abbreviation ntohl :: "u32 \<Rightarrow> u32" where "ntohl \<equiv> htonl"

definition swap16 :: "nat \<Rightarrow> packet \<Rightarrow> packet" where "swap16 i p = put16 i (htons (get16 i p)) p"
definition swap32 :: "nat \<Rightarrow> packet \<Rightarrow> packet" where "swap32 i p = put32 i (htonl (get32 i p)) p"

definition eth_hton :: "packet \<Rightarrow> packet" where "eth_hton = swap16 net_ethtype"
definition eth_ntoh :: "packet \<Rightarrow> packet" where "eth_ntoh = swap16 net_ethtype"

definition ip_ntoh :: "packet \<Rightarrow> packet" where
  "ip_ntoh p = swap32 net_ipdst (swap32 net_ipsrc (swap16 net_ipfrag (swap16 net_ipid (swap16 net_iplen p))))"

definition ip_hton :: "packet \<Rightarrow> packet" where
  "ip_hton p = swap32 net_ipdst (swap32 net_ipsrc (swap16 net_ipfrag (swap16 net_ipid (swap16 net_iplen p))))"

definition udp_ntoh :: "packet \<Rightarrow> packet" where
  "udp_ntoh p = swap16 net_udplen (swap16 net_udpdport (swap16 net_udpsport p))"

definition udp_hton :: "packet \<Rightarrow> packet" where
  "udp_hton p = swap16 net_udplen (swap16 net_udpdport (swap16 net_udpsport p))"

definition icmp_hton :: "packet \<Rightarrow> packet" where
  "icmp_hton p = swap16 net_icseq (swap16 net_icident (swap16 net_iccksum p))"

definition icmp_ntoh :: "packet \<Rightarrow> packet" where
  "icmp_ntoh p = swap16 net_icseq (swap16 net_icident (swap16 net_iccksum p))"

definition arp_ntoh :: "packet \<Rightarrow> packet" where
  "arp_ntoh p = swap32 arp_tarpa (swap32 arp_sndpa (swap16 arp_op (swap16 arp_ptype (swap16 arp_htype p))))"

definition arp_hton :: "packet \<Rightarrow> packet" where
  "arp_hton p = swap32 arp_tarpa (swap32 arp_sndpa (swap16 arp_op (swap16 arp_ptype (swap16 arp_htype p))))"

section \<open>Checksums\<close>

text \<open>The sum of the next \<open>n\<close> 16-bit values.\<close>

fun sum16 :: "nat \<Rightarrow> nat \<Rightarrow> u32 \<Rightarrow> packet \<Rightarrow> u32" where
  "sum16 0 i cksum p = cksum"
| "sum16 (Suc n) i cksum p = sum16 n (i + 2) (cksum + ucast (htons (get16 i p))) p"

definition ipcksum :: "packet \<Rightarrow> u16" where
  "ipcksum p =
    (let cksum = sum16 10 net_ipvh 0 p;
         cksum = cksum + drop_bit 16 cksum;
         cksum = 0xffff AND NOT cksum;
         cksum = (if cksum = 0xffff then 0 else cksum)
     in ucast (0xffff AND cksum))"

text \<open>\<open>buf\<close> is the place of the message in the packet; reading behind the packet is a \<open>Fault\<close>.\<close>

definition icmp_cksum :: "nat \<Rightarrow> int \<Rightarrow> packet \<Rightarrow> u16 result" where
  "icmp_cksum buf buflen p =
    (let scount = nat (drop_bit 1 buflen) in
     if buf + 2 * scount + (if buflen AND 1 \<noteq> 0 then 1 else 0) > length p then Fault
     else
       let cksum = sum16 scount buf 0 p;
           cksum = (if buflen AND 1 \<noteq> 0 then cksum + (0xffff AND push_bit 8 (ucast (p ! (buf + 2 * scount)))) else cksum);
           cksum = cksum + drop_bit 16 cksum;
           cksum = 0xffff AND NOT cksum
       in Ret (ucast (0xffff AND cksum)))"

section \<open>Dotted decimal\<close>

text \<open>The characters of one segment from character \<open>nch\<close> on: the value, the character it ends with and the place behind it; none for an error.\<close>

function dot_segment :: "nat \<Rightarrow> int \<Rightarrow> nat \<Rightarrow> buf \<Rightarrow> (int \<times> u8 \<times> nat) option" where
  "dot_segment nch val i dotted =
    (if nch \<ge> 4 then None
     else
       let ch = dotted i in
       if ch = 0 \<or> ch = 46 then if nch = 0 then None else Some (val, ch, i + 1)
       else if nch \<ge> 3 \<or> ch < 48 \<or> ch > 57 then None
       else dot_segment (nch + 1) (10 * val + (uint ch - 48)) (i + 1) dotted)"
  by pat_completeness auto
termination by (relation "measure (\<lambda>(nch, _). 4 - nch)") auto

declare dot_segment.simps [simp del]

fun dot_loop :: "nat \<Rightarrow> nat \<Rightarrow> u32 \<Rightarrow> buf \<Rightarrow> u32 option" where
  "dot_loop 0 i ipaddr dotted = None"
| "dot_loop (Suc n) i ipaddr dotted =
    (case dot_segment 0 0 i dotted of
       None \<Rightarrow> None
     | Some (val, ch, i) \<Rightarrow>
         if val > 255 then None
         else
           let ipaddr = push_bit 8 ipaddr OR word_of_int val in
           if ch = 0 then Some ipaddr else dot_loop n i ipaddr dotted)"

text \<open>The address, none for \<open>SYSERR\<close>.\<close>

definition dot2ip :: "buf \<Rightarrow> u32 option" where
  "dot2ip dotted = dot_loop 4 0 0 dotted"

end
