(* ===== verification/NetStack.thy ===== *)
theory NetStack
  imports Net
begin

text \<open>
  The routines of the network stack: \<open>net/arp.c\<close>, \<open>net/udp.c\<close>, \<open>net/icmp.c\<close>, \<open>net/ip.c\<close>, \<open>net/net.c\<close>.

  The value of a routine that may wait (for a message, a buffer or a place in the transmit ring) is \<open>None\<close> when its caller has lost the processor. What is left to
  do is the second argument of \<open>nseq\<close>, which gets the value when the process runs again.
\<close>

section \<open>State\<close>

definition ARP_SIZ :: nat where "ARP_SIZ = 16"
definition ARP_RETRY :: nat where "ARP_RETRY = 3"
definition ARP_TIMEOUT :: int where "ARP_TIMEOUT = 300"
definition ARP_HTYPE :: u16 where "ARP_HTYPE = 1"
definition ARP_PTYPE :: u16 where "ARP_PTYPE = 0x0800"
definition ARP_OP_REQ :: u16 where "ARP_OP_REQ = 1"
definition ARP_OP_RPLY :: u16 where "ARP_OP_RPLY = 2"
definition ETH_ARP :: u16 where "ETH_ARP = 0x0806"
definition ETH_IP :: u16 where "ETH_IP = 0x0800"
definition IP_BCAST :: u32 where "IP_BCAST = 0xffffffff"
definition IP_ICMP :: u8 where "IP_ICMP = 1"
definition IP_UDP :: u8 where "IP_UDP = 17"
definition IP_HDR_LEN :: int where "IP_HDR_LEN = 20"
definition IP_OQSIZ :: int where "IP_OQSIZ = 8"
definition UDP_SLOTS :: int where "UDP_SLOTS = 6"
definition UDP_QSIZ :: int where "UDP_QSIZ = 8"
definition UDP_HDR_LEN :: int where "UDP_HDR_LEN = 8"
definition ICMP_SLOTS :: int where "ICMP_SLOTS = 10"
definition ICMP_QSIZ :: int where "ICMP_QSIZ = 8"
definition ICMP_HDR_LEN :: int where "ICMP_HDR_LEN = 8"
definition ICMP_ECHOREPLY :: u8 where "ICMP_ECHOREPLY = 0"
definition ICMP_ECHOREQST :: u8 where "ICMP_ECHOREQST = 8"

datatype ar_state = AR_FREE | AR_PENDING | AR_RESOLVED
datatype ep_state = EP_FREE | EP_USED | EP_RECV

record arpentry =
  arstate :: ar_state
  arpaddr :: u32
  arpid :: int
  arhaddr :: "u8 list"

record udpentry =
  udstate :: ep_state
  udremip :: u32
  udremport :: u16
  udlocport :: u16
  udhead :: int
  udtail :: int
  udcount :: int
  udpid :: int
  udqueue :: "addr list"

record icmpentry =
  icstate :: ep_state
  icremip :: u32
  ichead :: int
  ictail :: int
  iccount :: int
  icpid :: int
  icqueue :: "addr list"

record iqentry =
  iqhead :: int
  iqtail :: int
  iqsem :: int
  iqbuf :: "addr list"

record network =
  ipucast :: u32
  ipbcast :: u32
  ipmask :: u32
  ipprefix :: u32
  iprouter :: u32
  bootserver :: u32
  dnsserver :: u32
  ntpserver :: u32
  ipvalid :: bool
  ethucast :: "u8 list"
  ethbcast :: "u8 list"
  bootfile :: "u8 list"

record net =
  nbufs :: bufs
  neth :: ethcblk
  pkts :: "addr \<Rightarrow> packet"
  netbufpool :: int
  NetData :: network
  netportseed :: "64 word"
  arpcache :: "nat \<Rightarrow> arpentry"
  udptab :: "int \<Rightarrow> udpentry"
  icmptab :: "int \<Rightarrow> icmpentry"
  ipoqueue :: iqentry
  send_ident :: u16
  sendto_ident :: u16
  ipident :: u32

abbreviation nkern :: "net \<Rightarrow> kernel" where "nkern s \<equiv> bkern (nbufs s)"

definition set_nkern :: "kernel \<Rightarrow> net \<Rightarrow> net" where "set_nkern k s = s\<lparr>nbufs := (nbufs s)\<lparr>bkern := k\<rparr>\<rparr>"
definition upd_pkt :: "addr \<Rightarrow> (packet \<Rightarrow> packet) \<Rightarrow> net \<Rightarrow> net" where "upd_pkt a f s = s\<lparr>pkts := (pkts s)(a := f (pkts s a))\<rparr>"
definition upd_arp :: "nat \<Rightarrow> (arpentry \<Rightarrow> arpentry) \<Rightarrow> net \<Rightarrow> net" where "upd_arp i f s = s\<lparr>arpcache := (arpcache s)(i := f (arpcache s i))\<rparr>"
definition upd_udp :: "int \<Rightarrow> (udpentry \<Rightarrow> udpentry) \<Rightarrow> net \<Rightarrow> net" where "upd_udp i f s = s\<lparr>udptab := (udptab s)(i := f (udptab s i))\<rparr>"
definition upd_icmp :: "int \<Rightarrow> (icmpentry \<Rightarrow> icmpentry) \<Rightarrow> net \<Rightarrow> net" where "upd_icmp i f s = s\<lparr>icmptab := (icmptab s)(i := f (icmptab s i))\<rparr>"

text \<open>Arrays of the tables, read and written out of bounds with \<open>Fault\<close>.\<close>

definition aget :: "'a list \<Rightarrow> int \<Rightarrow> 'a result" where
  "aget xs i = (if 0 \<le> i \<and> i < int (length xs) then Ret (xs ! nat i) else Fault)"

definition aset :: "'a list \<Rightarrow> int \<Rightarrow> 'a \<Rightarrow> 'a list result" where
  "aset xs i x = (if 0 \<le> i \<and> i < int (length xs) then Ret (xs[nat i := x]) else Fault)"

section \<open>Calls of the kernel\<close>

definition nseq :: "('a option \<times> 's) result \<Rightarrow> ('a \<Rightarrow> 's \<Rightarrow> ('b option \<times> 's) result) \<Rightarrow> ('b option \<times> 's) result" where
  "nseq r f = rbind r (\<lambda>(x, s). case x of None \<Rightarrow> Ret (None, s) | Some x \<Rightarrow> f x s)"

definition nret :: "'a \<Rightarrow> 's \<Rightarrow> ('a option \<times> 's) result" where "nret x s = Ret (Some x, s)"

definition n_getbuf :: "net \<Rightarrow> (addr option \<times> net) result" where
  "n_getbuf s = rbind (getbuf (netbufpool s) (nbufs s)) (\<lambda>(a, b). Ret (a, s\<lparr>nbufs := b\<rparr>))"

text \<open>\<open>freebuf\<close>, \<open>send\<close> and \<open>signal\<close> can make a process ready that takes the processor at once.\<close>

definition still :: "net \<Rightarrow> net \<Rightarrow> (unit option \<times> net) result" where
  "still s s' = Ret (if currpid (nkern s') = currpid (nkern s) then Some () else None, s')"

definition n_freebuf :: "addr \<Rightarrow> net \<Rightarrow> (unit option \<times> net) result" where
  "n_freebuf a s = rbind (freebuf a (nbufs s)) (\<lambda>(_, b). still s (s\<lparr>nbufs := b\<rparr>))"

definition n_send :: "int \<Rightarrow> net \<Rightarrow> (unit option \<times> net) result" where
  "n_send pid s = rbind (send pid (word_of_int OK) (nkern s)) (\<lambda>(_, k). still s (set_nkern k s))"

definition n_signal :: "int \<Rightarrow> net \<Rightarrow> (unit option \<times> net) result" where
  "n_signal sem s = rbind (signal sem (nkern s)) (\<lambda>(_, k). still s (set_nkern k s))"

definition n_recvclr :: "net \<Rightarrow> net result" where
  "n_recvclr s = rbind (recvclr (nkern s)) (\<lambda>(_, k). Ret (set_nkern k s))"

definition n_recvtime :: "int \<Rightarrow> net \<Rightarrow> (u32 option \<times> net) result" where
  "n_recvtime maxwait s = rbind (recvtime maxwait (nkern s)) (\<lambda>(m, k). Ret (m, set_nkern k s))"

text \<open>\<open>write(ETHER0, ...)\<close>\<close>

definition n_write :: "packet \<Rightarrow> int \<Rightarrow> net \<Rightarrow> (int option \<times> net) result" where
  "n_write p len s = rbind (ethwrite p (word_of_int len) (neth s, nkern s)) (\<lambda>(r, e, k). Ret (r, set_nkern k (s\<lparr>neth := e\<rparr>)))"

text \<open>Give the packet back and return.\<close>

definition n_free_ret :: "addr \<Rightarrow> 'a \<Rightarrow> net \<Rightarrow> ('a option \<times> net) result" where
  "n_free_ret a x s = nseq (n_freebuf a s) (\<lambda>_. nret x)"

definition n_resched_cntl :: "int \<Rightarrow> net \<Rightarrow> net result" where
  "n_resched_cntl d s = rbind (resched_cntl d (nkern s)) (\<lambda>(_, k). Ret (set_nkern k s))"

section \<open>ARP\<close>

definition arp_init :: "net \<Rightarrow> net" where
  "arp_init s = s\<lparr>arpcache := \<lambda>i. if 1 \<le> i \<and> i < ARP_SIZ then (arpcache s i)\<lparr>arstate := AR_FREE\<rparr> else arpcache s i\<rparr>"

definition zero_arp :: arpentry where
  "zero_arp = \<lparr>arstate = AR_FREE, arpaddr = 0, arpid = 0, arhaddr = replicate 6 0\<rparr>"

definition arp_alloc :: "net \<Rightarrow> int \<times> net" where
  "arp_alloc s =
    (case find (\<lambda>i. arstate (arpcache s i) = AR_FREE) [0..<ARP_SIZ] of
       Some i \<Rightarrow> (int i, upd_arp i (\<lambda>_. zero_arp) s)
     | None \<Rightarrow>
         (case find (\<lambda>i. arstate (arpcache s i) = AR_RESOLVED) [0..<ARP_SIZ] of
            Some i \<Rightarrow> (int i, upd_arp i (\<lambda>_. zero_arp) s)
          | None \<Rightarrow> (SYSERR, s)))"

text \<open>The entry of an address that is in use.\<close>

definition arp_find :: "u32 \<Rightarrow> net \<Rightarrow> nat option" where
  "arp_find a s = find (\<lambda>i. arstate (arpcache s i) \<noteq> AR_FREE \<and> arpaddr (arpcache s i) = a) [0..<ARP_SIZ]"

text \<open>A packet from the addresses of this machine; every byte is set.\<close>

definition arp_packet :: "u16 \<Rightarrow> u8 list \<Rightarrow> u8 list \<Rightarrow> u32 \<Rightarrow> net \<Rightarrow> packet" where
  "arp_packet op dst tarha tarpa s =
    (let p = replicate ARP_LEN 0;
         p = set_field arp_ethdst dst p;
         p = set_field arp_ethsrc (ethucast (NetData s)) p;
         p = put16 arp_ethtype ETH_ARP p;
         p = put16 arp_htype ARP_HTYPE p;
         p = put16 arp_ptype ARP_PTYPE p;
         p = put8 arp_hlen 6 p;
         p = put8 arp_plen 4 p;
         p = put16 arp_op op p;
         p = set_field arp_sndha (ethucast (NetData s)) p;
         p = put32 arp_sndpa (ipucast (NetData s)) p;
         p = set_field arp_tarha tarha p;
         p = put32 arp_tarpa tarpa p
     in eth_hton (arp_hton p))"

text \<open>The result is the status and the Ethernet address stored for the caller.\<close>

definition arp_done :: "nat \<Rightarrow> int \<Rightarrow> net \<Rightarrow> ((int \<times> u8 list) option \<times> net) result" where
  "arp_done sl msg s =
    (if msg = TIMEOUT then nret (TIMEOUT, []) (upd_arp sl (\<lambda>e. e\<lparr>arstate := AR_FREE\<rparr>) s)
     else nret (OK, arhaddr (arpcache s sl)) s)"

fun arp_try :: "nat \<Rightarrow> nat \<Rightarrow> packet \<Rightarrow> int \<Rightarrow> net \<Rightarrow> ((int \<times> u8 list) option \<times> net) result" where
  "arp_try 0 sl apkt msg s = arp_done sl msg s"
| "arp_try (Suc n) sl apkt msg s =
    nseq (n_write apkt (int ARP_LEN) s) (\<lambda>_ s.
    nseq (n_recvtime ARP_TIMEOUT s) (\<lambda>m s.
    let msg = sint m in
    if msg = TIMEOUT then arp_try n sl apkt msg s
    else if msg = SYSERR then nret (SYSERR, []) s
    else arp_done sl msg s))"

definition arp_request :: "u32 \<Rightarrow> net \<Rightarrow> ((int \<times> u8 list) option \<times> net) result" where
  "arp_request nxthop s =
    (case arp_alloc s of (sl, s) \<Rightarrow>
     if sl = SYSERR then nret (SYSERR, []) s
     else
       let sl = nat sl;
           s = upd_arp sl (\<lambda>e. e\<lparr>arstate := AR_PENDING, arpaddr := nxthop, arpid := currpid (nkern s)\<rparr>) s;
           apkt = arp_packet ARP_OP_REQ (ethbcast (NetData s)) (replicate 6 0) nxthop s in
       rbind (recvclr (nkern s)) (\<lambda>(m, k).
       arp_try ARP_RETRY sl apkt (sint m) (set_nkern k s)))"

definition arp_resolve :: "u32 \<Rightarrow> net \<Rightarrow> ((int \<times> u8 list) option \<times> net) result" where
  "arp_resolve nxthop s =
    (if nxthop = IP_BCAST then nret (OK, ethbcast (NetData s)) s
     else if nxthop = ipbcast (NetData s) then nret (OK, ethbcast (NetData s)) s
     else
       (case arp_find nxthop s of
          Some i \<Rightarrow>
            (case arstate (arpcache s i) of
               AR_RESOLVED \<Rightarrow> nret (OK, arhaddr (arpcache s i)) s
             | AR_PENDING \<Rightarrow> nret (SYSERR, []) s
             | AR_FREE \<Rightarrow> arp_request nxthop s)
        | None \<Rightarrow> arp_request nxthop s))"

definition arp_learn :: "nat \<Rightarrow> u8 list \<Rightarrow> net \<Rightarrow> (unit option \<times> net) result" where
  "arp_learn i ha s =
    (let s = upd_arp i (\<lambda>e. e\<lparr>arhaddr := ha\<rparr>) s in
     if arstate (arpcache s i) = AR_PENDING then n_send (arpid (arpcache s i)) (upd_arp i (\<lambda>e. e\<lparr>arstate := AR_RESOLVED\<rparr>) s)
     else nret () s)"

text \<open>The answer to a request for the address of this machine.\<close>

definition arp_reply :: "addr \<Rightarrow> net \<Rightarrow> (unit option \<times> net) result" where
  "arp_reply a s =
    (let p = pkts s a;
         apkt = arp_packet ARP_OP_RPLY (field arp_sndha 6 p) (field arp_sndha 6 p) (get32 arp_sndpa p) s in
     nseq (n_write apkt (int ARP_LEN) s) (\<lambda>_ s.
     n_free_ret a () s))"

definition arp_in :: "addr \<Rightarrow> net \<Rightarrow> (unit option \<times> net) result" where
  "arp_in a s =
    (let s = upd_pkt a arp_ntoh s; p = pkts s a in
     if get16 arp_htype p \<noteq> ARP_HTYPE \<or> get16 arp_ptype p \<noteq> ARP_PTYPE then n_free_ret a () s
     else
       let found = arp_find (get32 arp_sndpa p) s in
       nseq (case found of None \<Rightarrow> nret () s | Some i \<Rightarrow> arp_learn i (field arp_sndha 6 p) s) (\<lambda>_ s.
       if get16 arp_op p = ARP_OP_RPLY then n_free_ret a () s
       else if \<not> ipvalid (NetData s) \<or> get32 arp_tarpa p \<noteq> ipucast (NetData s) then n_free_ret a () s
       else
         case found of
           Some _ \<Rightarrow> arp_reply a s
         | None \<Rightarrow>
             (case arp_alloc s of (sl, s) \<Rightarrow>
              if sl = SYSERR then n_free_ret a () s
              else arp_reply a (upd_arp (nat sl) (\<lambda>e. e\<lparr>arpaddr := get32 arp_sndpa p, arhaddr := field arp_sndha 6 p, arstate := AR_RESOLVED\<rparr>) s))))"

section \<open>UDP endpoints\<close>

definition udp_init :: "net \<Rightarrow> net" where
  "udp_init s = s\<lparr>udptab := \<lambda>i. if 0 \<le> i \<and> i < UDP_SLOTS then (udptab s i)\<lparr>udstate := EP_FREE\<rparr> else udptab s i\<rparr>"

definition udp_match :: "udpentry \<Rightarrow> packet \<Rightarrow> bool" where
  "udp_match e p \<longleftrightarrow> get16 net_udpdport p = udlocport e \<and> (udremport e = 0 \<or> get16 net_udpsport p = udremport e) \<and>
    (udremip e = 0 \<or> get32 net_ipsrc p = udremip e)"

definition udp_deposit :: "int \<Rightarrow> addr \<Rightarrow> net \<Rightarrow> (unit option \<times> net) result" where
  "udp_deposit i a s =
    (let e = udptab s i in
     rbind (aset (udqueue e) (udtail e) a) (\<lambda>q.
     let tail = (if udtail e + 1 \<ge> UDP_QSIZ then 0 else udtail e + 1);
         s = upd_udp i (\<lambda>e. e\<lparr>udcount := udcount e + 1, udqueue := q, udtail := tail\<rparr>) s in
     if udstate e = EP_RECV then n_send (udpid e) (upd_udp i (\<lambda>e. e\<lparr>udstate := EP_USED\<rparr>) s)
     else nret () s))"

fun udp_in_loop :: "nat \<Rightarrow> int \<Rightarrow> addr \<Rightarrow> net \<Rightarrow> (unit option \<times> net) result" where
  "udp_in_loop 0 i a s = n_free_ret a () s"
| "udp_in_loop (Suc n) i a s =
    (let e = udptab s i in
     if udstate e = EP_FREE then udp_in_loop n (i + 1) a s
     else if udp_match e (pkts s a) \<and> udcount e < UDP_QSIZ then udp_deposit i a s
     else udp_in_loop n (i + 1) a s)"

definition udp_in :: "addr \<Rightarrow> net \<Rightarrow> (unit option \<times> net) result" where
  "udp_in a s = udp_in_loop (nat UDP_SLOTS) 0 a s"

definition udp_register :: "u32 \<Rightarrow> u16 \<Rightarrow> u16 \<Rightarrow> net \<Rightarrow> int \<times> net" where
  "udp_register remip remport locport s =
    (if \<exists>i \<in> set [0..UDP_SLOTS - 1]. udstate (udptab s i) \<noteq> EP_FREE \<and> udremport (udptab s i) = remport \<and>
          udlocport (udptab s i) = locport \<and> udremip (udptab s i) = remip then (SYSERR, s)
     else
       (case find (\<lambda>i. udstate (udptab s i) = EP_FREE) [0..UDP_SLOTS - 1] of
          None \<Rightarrow> (SYSERR, s)
        | Some i \<Rightarrow> (i, upd_udp i (\<lambda>e. e\<lparr>udlocport := locport, udremport := remport, udremip := remip, udcount := 0, udhead := 0, udtail := 0,
            udpid := -1, udstate := EP_USED\<rparr>) s)))"

text \<open>Taking the first packet of an endpoint.\<close>

definition udp_dequeue :: "int \<Rightarrow> net \<Rightarrow> (addr \<times> net) result" where
  "udp_dequeue i s =
    (let e = udptab s i in
     rbind (aget (udqueue e) (udhead e)) (\<lambda>pkt.
     let head = (if udhead e + 1 \<ge> UDP_QSIZ then 0 else udhead e + 1)
     in Ret (pkt, upd_udp i (\<lambda>e. e\<lparr>udhead := head, udcount := udcount e - 1\<rparr>) s)))"

text \<open>What the caller gets: the number of bytes, the bytes stored, the address and port of the sender. Reading behind the packet is a \<open>Fault\<close>.\<close>

definition udp_take :: "int \<Rightarrow> int \<Rightarrow> net \<Rightarrow> ((int \<times> u8 list \<times> u32 \<times> u16) option \<times> net) result" where
  "udp_take i len s =
    rbind (udp_dequeue i s) (\<lambda>(pkt, s).
    let p = pkts s pkt;
        msglen = uint (get16 net_udplen p) - UDP_HDR_LEN;
        msglen = (if len < msglen then len else msglen) in
    if nat msglen + net_udpdata > length p then Fault
    else n_free_ret pkt (msglen, field net_udpdata (nat msglen) p, get32 net_ipsrc p, get16 net_udpsport p) s)"

definition udp_recvaddr :: "int \<Rightarrow> int \<Rightarrow> u32 \<Rightarrow> net \<Rightarrow> ((int \<times> u8 list \<times> u32 \<times> u16) option \<times> net) result" where
  "udp_recvaddr i len timeout s =
    (if i < 0 \<or> i \<ge> UDP_SLOTS then nret (SYSERR, [], 0, 0) s
     else if udstate (udptab s i) \<noteq> EP_USED then nret (SYSERR, [], 0, 0) s
     else if udcount (udptab s i) = 0 then
       let s = upd_udp i (\<lambda>e. e\<lparr>udstate := EP_RECV, udpid := currpid (nkern s)\<rparr>) s in
       rbind (n_recvclr s) (\<lambda>s.
       nseq (n_recvtime (sint timeout) s) (\<lambda>msg s.
       let s = upd_udp i (\<lambda>e. e\<lparr>udstate := EP_USED\<rparr>) s in
       if msg = word_of_int TIMEOUT then nret (TIMEOUT, [], 0, 0) s
       else if msg \<noteq> word_of_int OK then nret (SYSERR, [], 0, 0) s
       else udp_take i len s))
     else udp_take i len s)"

definition udp_recv :: "int \<Rightarrow> int \<Rightarrow> u32 \<Rightarrow> net \<Rightarrow> ((int \<times> u8 list) option \<times> net) result" where
  "udp_recv i len timeout s = nseq (udp_recvaddr i len timeout s) (\<lambda>(n, bs, _, _). nret (n, bs))"

text \<open>The header of a datagram from this machine; data behind the end of the buffer is a \<open>Fault\<close>.\<close>

definition udp_packet :: "u16 \<Rightarrow> u32 \<Rightarrow> u16 \<Rightarrow> u16 \<Rightarrow> u8 list \<Rightarrow> int \<Rightarrow> network \<Rightarrow> packet \<Rightarrow> packet result" where
  "udp_packet ident remip remport locport bts len nd p =
    (let pktlen = int net_udpdata + len;
         p = set_field net_ethsrc (ethucast nd) p;
         p = put16 net_ethtype 0x0800 p;
         p = put8 net_ipvh 0x45 p;
         p = put8 net_iptos 0 p;
         p = put16 net_iplen (word_of_int (pktlen - ETH_HDR_LEN)) p;
         p = put16 net_ipid ident p;
         p = put16 net_ipfrag 0 p;
         p = put8 net_ipttl 0xff p;
         p = put8 net_ipproto IP_UDP p;
         p = put16 net_ipcksum 0 p;
         p = put32 net_ipsrc (ipucast nd) p;
         p = put32 net_ipdst remip p;
         p = put16 net_udpsport locport p;
         p = put16 net_udpdport remport p;
         p = put16 net_udplen (word_of_int (UDP_HDR_LEN + len)) p;
         p = put16 net_udpcksum 0 p in
     if net_udpdata + length bts > length p then Fault else Ret (set_field net_udpdata bts p))"

fun udp_drain :: "nat \<Rightarrow> int \<Rightarrow> net \<Rightarrow> net result" where
  "udp_drain 0 i s = Ret s"
| "udp_drain (Suc n) i s =
    (let e = udptab s i in
     rbind (aget (udqueue e) (udhead e)) (\<lambda>pkt.
     let head = (if udhead e + 1 \<ge> UDP_QSIZ then 0 else udhead e + 1);
         s = upd_udp i (\<lambda>e. e\<lparr>udhead := head\<rparr>) s in
     rbind (n_freebuf pkt s) (\<lambda>(_, s).
     udp_drain n i (upd_udp i (\<lambda>e. e\<lparr>udcount := udcount e - 1\<rparr>) s))))"

text \<open>No process switch happens while the packets are given back.\<close>

definition udp_release :: "int \<Rightarrow> net \<Rightarrow> (int option \<times> net) result" where
  "udp_release i s =
    (if i < 0 \<or> i \<ge> UDP_SLOTS then nret SYSERR s
     else if udstate (udptab s i) = EP_FREE then nret SYSERR s
     else
       rbind (n_resched_cntl DEFER_START s) (\<lambda>s.
       rbind (udp_drain (nat (udcount (udptab s i))) i s) (\<lambda>s.
       let s = upd_udp i (\<lambda>e. e\<lparr>udstate := EP_FREE\<rparr>) s in
       rbind (n_resched_cntl DEFER_STOP s) (\<lambda>s'.
       nseq (still s s') (\<lambda>_. nret OK)))))"

section \<open>ICMP\<close>

definition icmp_init :: "net \<Rightarrow> net" where
  "icmp_init s = s\<lparr>icmptab := \<lambda>i. if 0 \<le> i \<and> i < ICMP_SLOTS then (icmptab s i)\<lparr>icstate := EP_FREE\<rparr> else icmptab s i\<rparr>"

text \<open>The data is copied from the buffer \<open>bts\<close>; \<open>memcpy\<close> with a negative length copies nothing.\<close>

definition icmp_packet :: "u32 \<Rightarrow> u16 \<Rightarrow> u16 \<Rightarrow> u16 \<Rightarrow> u8 list \<Rightarrow> int \<Rightarrow> u32 \<Rightarrow> network \<Rightarrow> packet \<Rightarrow> packet result" where
  "icmp_packet remip type ident sq bts len ipid nd p =
    (let p = set_field net_ethsrc (ethucast nd) p;
         p = put16 net_ethtype 0x0800 p;
         p = put8 net_ipvh 0x45 p;
         p = put8 net_iptos 0 p;
         p = put16 net_iplen (word_of_int (IP_HDR_LEN + ICMP_HDR_LEN + len)) p;
         p = put16 net_ipid (ucast ipid) p;
         p = put16 net_ipfrag 0 p;
         p = put8 net_ipttl 0xff p;
         p = put8 net_ipproto IP_ICMP p;
         p = put16 net_ipcksum 0 p;
         p = put32 net_ipsrc (ipucast nd) p;
         p = put32 net_ipdst remip p;
         p = put8 net_ictype (ucast type) p;
         p = put8 net_iccode 0 p;
         p = put16 net_iccksum 0 p;
         p = put16 net_icident ident p;
         p = put16 net_icseq sq p in
     if nat len > length bts \<or> net_icdata + nat len > length p then Fault else Ret (set_field net_icdata (take (nat len) bts) p))"

definition icmp_mkpkt :: "u32 \<Rightarrow> u16 \<Rightarrow> u16 \<Rightarrow> u16 \<Rightarrow> u8 list \<Rightarrow> int \<Rightarrow> net \<Rightarrow> (addr option \<times> net) result" where
  "icmp_mkpkt remip type ident sq bts len s =
    nseq (n_getbuf s) (\<lambda>pkt s.
    if pkt = USYSERR then Halted
    else
      rbind (icmp_packet remip type ident sq bts len (ipident s) (NetData s) (pkts s pkt)) (\<lambda>p.
      nret pkt ((upd_pkt pkt (\<lambda>_. p) s)\<lparr>ipident := ipident s + 1\<rparr>)))"

definition ip_enqueue :: "addr \<Rightarrow> net \<Rightarrow> (int option \<times> net) result" where
  "ip_enqueue a s =
    (let q = ipoqueue s in
     if semcount (iqsem q) (nkern s) \<ge> IP_OQSIZ then n_free_ret a SYSERR s
     else
       rbind (aset (iqbuf q) (iqtail q) a) (\<lambda>b.
       let tail = (if iqtail q + 1 \<ge> IP_OQSIZ then 0 else iqtail q + 1);
           s = s\<lparr>ipoqueue := q\<lparr>iqbuf := b, iqtail := tail\<rparr>\<rparr> in
       nseq (n_signal (iqsem q) s) (\<lambda>_. nret OK)))"

definition icmp_echo :: "addr \<Rightarrow> net \<Rightarrow> (unit option \<times> net) result" where
  "icmp_echo a s =
    (let p = pkts s a in
     nseq (icmp_mkpkt (get32 net_ipsrc p) (ucast ICMP_ECHOREPLY) (get16 net_icident p) (get16 net_icseq p) (drop net_icdata p)
       (uint (get16 net_iplen p) - IP_HDR_LEN - ICMP_HDR_LEN) s) (\<lambda>replypkt s.
     nseq (if replypkt \<noteq> USYSERR then ip_enqueue replypkt s else nret SYSERR s) (\<lambda>_ s.
     n_free_ret a () s)))"

definition icmp_deposit :: "int \<Rightarrow> addr \<Rightarrow> net \<Rightarrow> (unit option \<times> net) result" where
  "icmp_deposit i a s =
    (let e = icmptab s i in
     rbind (aset (icqueue e) (ictail e) a) (\<lambda>q.
     let tail = (if ictail e + 1 \<ge> ICMP_QSIZ then 0 else ictail e + 1);
         s = upd_icmp i (\<lambda>e. e\<lparr>iccount := iccount e + 1, icqueue := q, ictail := tail\<rparr>) s in
     if icstate e = EP_RECV then n_send (icpid e) (upd_icmp i (\<lambda>e. e\<lparr>icstate := EP_USED\<rparr>) s)
     else nret () s))"

definition icmp_in :: "addr \<Rightarrow> net \<Rightarrow> (unit option \<times> net) result" where
  "icmp_in a s =
    (let p = pkts s a; i = uint (get16 net_icident p) in
     if get8 net_ictype p \<noteq> ICMP_ECHOREPLY \<and> get8 net_ictype p \<noteq> ICMP_ECHOREQST then n_free_ret a () s
     else if get8 net_ictype p = ICMP_ECHOREQST then icmp_echo a s
     else if i < 0 \<or> i \<ge> ICMP_SLOTS then n_free_ret a () s
     else if icstate (icmptab s i) = EP_FREE \<or> get32 net_ipsrc p \<noteq> icremip (icmptab s i) then n_free_ret a () s
     else icmp_deposit i a s)"

fun icmp_scan :: "nat \<Rightarrow> int \<Rightarrow> int \<Rightarrow> u32 \<Rightarrow> net \<Rightarrow> int" where
  "icmp_scan 0 i freeslot remip s = freeslot"
| "icmp_scan (Suc n) i freeslot remip s =
    (if icstate (icmptab s i) = EP_FREE then icmp_scan n (i + 1) (if freeslot = -1 then i else freeslot) remip s
     else if icremip (icmptab s i) = remip then -1
     else icmp_scan n (i + 1) freeslot remip s)"

definition icmp_register :: "u32 \<Rightarrow> net \<Rightarrow> int \<times> net" where
  "icmp_register remip s =
    (let i = icmp_scan (nat ICMP_SLOTS) 0 (-1) remip s in
     if i = -1 then (SYSERR, s)
     else (i, upd_icmp i (\<lambda>e. e\<lparr>icstate := EP_USED, icremip := remip, iccount := 0, ichead := 0, ictail := 0, icpid := -1\<rparr>) s))"

definition icmp_dequeue :: "int \<Rightarrow> net \<Rightarrow> (addr \<times> net) result" where
  "icmp_dequeue i s =
    (let e = icmptab s i in
     rbind (aget (icqueue e) (ichead e)) (\<lambda>pkt.
     let head = (if ichead e + 1 \<ge> ICMP_SLOTS then 0 else ichead e + 1)
     in Ret (pkt, upd_icmp i (\<lambda>e. e\<lparr>ichead := head, iccount := iccount e - 1\<rparr>) s)))"

definition icmp_take :: "int \<Rightarrow> int \<Rightarrow> net \<Rightarrow> ((int \<times> u8 list) option \<times> net) result" where
  "icmp_take i len s =
    rbind (icmp_dequeue i s) (\<lambda>(pkt, s).
    let p = pkts s pkt;
        datalen = uint (get16 net_iplen p) - IP_HDR_LEN - ICMP_HDR_LEN;
        n = nat (min datalen len) in
    if n + net_icdata > length p then Fault
    else n_free_ret pkt (int n, field net_icdata n p) s)"

definition icmp_recv :: "int \<Rightarrow> int \<Rightarrow> u32 \<Rightarrow> net \<Rightarrow> ((int \<times> u8 list) option \<times> net) result" where
  "icmp_recv i len timeout s =
    (if i < 0 \<or> i \<ge> ICMP_SLOTS then nret (SYSERR, []) s
     else if icstate (icmptab s i) \<noteq> EP_USED then nret (SYSERR, []) s
     else if iccount (icmptab s i) = 0 then
       let s = upd_icmp i (\<lambda>e. e\<lparr>icstate := EP_RECV, icpid := currpid (nkern s)\<rparr>) s in
       rbind (n_recvclr s) (\<lambda>s.
       nseq (n_recvtime (sint timeout) s) (\<lambda>msg s.
       let s = upd_icmp i (\<lambda>e. e\<lparr>icstate := EP_USED\<rparr>) s in
       if msg = word_of_int TIMEOUT then nret (TIMEOUT, []) s
       else if msg \<noteq> word_of_int OK then nret (SYSERR, []) s
       else icmp_take i len s))
     else icmp_take i len s)"

fun icmp_drain :: "nat \<Rightarrow> int \<Rightarrow> net \<Rightarrow> net result" where
  "icmp_drain 0 i s = Ret s"
| "icmp_drain (Suc n) i s =
    (let e = icmptab s i in
     rbind (aget (icqueue e) (ichead e)) (\<lambda>pkt.
     let head = (if ichead e + 1 \<ge> ICMP_SLOTS then 0 else ichead e + 1);
         s = upd_icmp i (\<lambda>e. e\<lparr>ichead := head\<rparr>) s in
     rbind (n_freebuf pkt s) (\<lambda>(_, s).
     icmp_drain n i (upd_icmp i (\<lambda>e. e\<lparr>iccount := iccount e - 1\<rparr>) s))))"

definition icmp_release :: "int \<Rightarrow> net \<Rightarrow> (int option \<times> net) result" where
  "icmp_release i s =
    (if i < 0 \<or> i \<ge> ICMP_SLOTS then nret SYSERR s
     else if icstate (icmptab s i) \<noteq> EP_USED then nret SYSERR s
     else
       rbind (n_resched_cntl DEFER_START s) (\<lambda>s.
       rbind (icmp_drain (nat (iccount (icmptab s i))) i s) (\<lambda>s.
       let s = upd_icmp i (\<lambda>e. e\<lparr>icstate := EP_FREE\<rparr>) s in
       rbind (n_resched_cntl DEFER_STOP s) (\<lambda>s'.
       nseq (still s s') (\<lambda>_. nret OK)))))"

section \<open>IP\<close>

definition ip_local :: "addr \<Rightarrow> net \<Rightarrow> (unit option \<times> net) result" where
  "ip_local a s =
    (if get8 net_ipproto (pkts s a) = IP_UDP then udp_in a s
     else if get8 net_ipproto (pkts s a) = IP_ICMP then icmp_in a s
     else n_free_ret a () s)"

text \<open>The packet as it goes over the wire.\<close>

definition ip_wire :: "packet \<Rightarrow> packet result" where
  "ip_wire p =
    rbind (if get8 net_ipproto p = IP_UDP then Ret (udp_hton (put16 net_udpcksum 0 p))
           else if get8 net_ipproto p = IP_ICMP then
             let q = put16 net_iccksum 0 (icmp_hton p) in
             rbind (icmp_cksum net_ictype (uint (get16 net_iplen p) - IP_HDR_LEN) q) (\<lambda>cksum.
             Ret (put16 net_iccksum (0xffff AND htons cksum) q))
           else Ret p) (\<lambda>p.
    let p = put16 net_ipcksum 0 (ip_hton p);
        p = put16 net_ipcksum (0xffff AND htons (ipcksum p)) p
    in Ret (eth_hton p))"

definition ip_out :: "addr \<Rightarrow> net \<Rightarrow> (int option \<times> net) result" where
  "ip_out a s =
    (let pktlen = uint (get16 net_iplen (pkts s a)) + ETH_HDR_LEN in
     rbind (ip_wire (pkts s a)) (\<lambda>p.
     nseq (n_write p pktlen (upd_pkt a (\<lambda>_. p) s)) (\<lambda>retval s.
     n_free_ret a (if retval = SYSERR then SYSERR else OK) s)))"

definition next_hop :: "u32 \<Rightarrow> network \<Rightarrow> u32" where
  "next_hop dest nd = (if dest AND ipmask nd = ipprefix nd then dest else iprouter nd)"

definition ip_send :: "addr \<Rightarrow> net \<Rightarrow> (int option \<times> net) result" where
  "ip_send a s =
    (let dest = get32 net_ipdst (pkts s a); nd = NetData s in
     if dest AND 0xff000000 = 0x7f000000 then nseq (ip_local a s) (\<lambda>_. nret OK)
     else if dest = ipucast nd then nseq (ip_local a s) (\<lambda>_. nret OK)
     else if dest = IP_BCAST \<or> dest = ipbcast nd then ip_out a (upd_pkt a (set_field net_ethdst (ethbcast nd)) s)
     else
       let nxthop = next_hop dest nd in
       if nxthop = 0 then n_free_ret a SYSERR s
       else
         nseq (arp_resolve nxthop s) (\<lambda>(retval, mac) s.
         if retval \<noteq> OK then n_free_ret a SYSERR s
         else ip_out a (upd_pkt a (set_field net_ethdst mac) s)))"

definition ip_in :: "addr \<Rightarrow> net \<Rightarrow> (unit option \<times> net) result" where
  "ip_in a s =
    (if ipcksum (pkts s a) \<noteq> 0 then n_free_ret a () s
     else
       let s = upd_pkt a ip_ntoh s; p = pkts s a; proto = get8 net_ipproto p; dst = get32 net_ipdst p in
       if get8 net_ipvh p \<noteq> 0x45 then n_free_ret a () s
       else
         rbind (if proto = IP_UDP then Ret (Some (upd_pkt a udp_ntoh s))
                else if proto = IP_ICMP then
                  rbind (icmp_cksum net_ictype (uint (get16 net_iplen p) - IP_HDR_LEN) p) (\<lambda>cksum.
                  Ret (if cksum \<noteq> 0 then None else Some (upd_pkt a icmp_ntoh s)))
                else Ret (Some s)) (\<lambda>r.
         case r of
           None \<Rightarrow> n_free_ret a () s
         | Some s \<Rightarrow>
             if dst = IP_BCAST then ip_local a s
             else if \<not> ipvalid (NetData s) then if proto = IP_UDP then ip_local a s else n_free_ret a () s
             else if dst = ipucast (NetData s) \<or> dst = ipbcast (NetData s) \<or> dst = IP_BCAST then ip_local a s
             else n_free_ret a () s))"

text \<open>The process that sends the packets of the output queue: one round of its loop.\<close>

definition ipout_send :: "addr \<Rightarrow> net \<Rightarrow> (unit option \<times> net) result" where
  "ipout_send a s =
    (let s = upd_pkt a (set_field net_ethsrc (ethucast (NetData s))) s; nd = NetData s; destip = get32 net_ipdst (pkts s a) in
     if destip = IP_BCAST \<or> destip = ipbcast nd then n_free_ret a () s
     else if destip = ipucast nd then ip_local a s
     else
       let nxthop = next_hop destip nd in
       if nxthop = 0 then n_free_ret a () s
       else
         nseq (arp_resolve nxthop s) (\<lambda>(retval, mac) s.
         if retval \<noteq> OK then n_free_ret a () s
         else nseq (ip_out a (upd_pkt a (set_field net_ethdst mac) s)) (\<lambda>_. nret ())))"

definition ipout_take :: "net \<Rightarrow> (addr \<times> net) result" where
  "ipout_take s =
    (let q = ipoqueue s in
     rbind (aget (iqbuf q) (iqhead q)) (\<lambda>a.
     let head = (if iqhead q + 1 \<ge> IP_OQSIZ then 0 else iqhead q + 1)
     in Ret (a, s\<lparr>ipoqueue := q\<lparr>iqhead := head\<rparr>\<rparr>)))"

definition ipout_round :: "net \<Rightarrow> (unit option \<times> net) result" where
  "ipout_round s =
    rbind (wait_run (iqsem (ipoqueue s)) (nkern s)) (\<lambda>(runs, k).
    let s = set_nkern k s in
    if runs then rbind (ipout_take s) (\<lambda>(a, s). ipout_send a s) else Ret (None, s))"

definition udp_send_packet :: "u16 \<Rightarrow> (net \<Rightarrow> net) \<Rightarrow> u32 \<Rightarrow> u16 \<Rightarrow> u16 \<Rightarrow> buf \<Rightarrow> int \<Rightarrow> net \<Rightarrow> (int option \<times> net) result" where
  "udp_send_packet ident next_ident remip remport locport buff len s =
    nseq (n_getbuf s) (\<lambda>pkt s.
    if pkt = USYSERR then nret SYSERR s
    else
      rbind (udp_packet ident remip remport locport (map buff [0..<nat len]) len (NetData s) (pkts s pkt)) (\<lambda>p.
      nseq (ip_send pkt (next_ident (upd_pkt pkt (\<lambda>_. p) s))) (\<lambda>_. nret OK)))"

definition udp_send :: "int \<Rightarrow> buf \<Rightarrow> int \<Rightarrow> net \<Rightarrow> (int option \<times> net) result" where
  "udp_send i buff len s =
    (if i < 0 \<or> i \<ge> UDP_SLOTS then nret SYSERR s
     else if udstate (udptab s i) = EP_FREE then nret SYSERR s
     else
       let e = udptab s i in
       if udremip e = 0 then nret SYSERR s
       else udp_send_packet (send_ident s) (\<lambda>s. s\<lparr>send_ident := send_ident s + 1\<rparr>) (udremip e) (udremport e) (udlocport e) buff len s)"

definition udp_sendto :: "int \<Rightarrow> u32 \<Rightarrow> u16 \<Rightarrow> buf \<Rightarrow> int \<Rightarrow> net \<Rightarrow> (int option \<times> net) result" where
  "udp_sendto i remip remport buff len s =
    (if i < 0 \<or> i \<ge> UDP_SLOTS then nret SYSERR s
     else if udstate (udptab s i) = EP_FREE then nret SYSERR s
     else udp_send_packet (sendto_ident s) (\<lambda>s. s\<lparr>sendto_ident := sendto_ident s + 1\<rparr>) remip remport (udlocport (udptab s i)) buff len s)"

definition icmp_send :: "u32 \<Rightarrow> u16 \<Rightarrow> u16 \<Rightarrow> u16 \<Rightarrow> u8 list \<Rightarrow> int \<Rightarrow> net \<Rightarrow> (int option \<times> net) result" where
  "icmp_send remip type ident sq bts len s =
    nseq (icmp_mkpkt remip type ident sq bts len s) (\<lambda>pkt s.
    if pkt = USYSERR then nret SYSERR s else ip_send pkt s)"

section \<open>The network process\<close>

text \<open>A frame is stored at the start of the buffer, whatever its length.\<close>

definition netin_dispatch :: "addr \<Rightarrow> net \<Rightarrow> (unit option \<times> net) result" where
  "netin_dispatch a s =
    (let s = upd_pkt a eth_ntoh s; t = get16 net_ethtype (pkts s a) in
     if t = ETH_ARP then arp_in a s
     else if t = ETH_IP then ip_in a s
     else n_free_ret a () s)"

definition netin_round :: "net \<Rightarrow> (unit option \<times> net) result" where
  "netin_round s =
    nseq (n_getbuf s) (\<lambda>a s.
    nseq (rbind (ethread (word_of_nat PACKLEN) (neth s, nkern s)) (\<lambda>(r, e, k). Ret (r, set_nkern k (s\<lparr>neth := e\<rparr>)))) (\<lambda>(retval, bts) s.
    if retval = SYSERR then Halted
    else if length bts > length (pkts s a) then Fault
    else netin_dispatch a (upd_pkt a (set_field 0 bts) s)))"

definition getport :: "net \<Rightarrow> u16 \<times> net" where
  "getport s =
    (let seed = 6364136223846793005 * netportseed s + 1
     in (50000 + (ucast (drop_bit 48 seed) :: u16) mod 15535, s\<lparr>netportseed := seed\<rparr>))"

text \<open>\<open>ticks\<close> is the value of \<open>getticks\<close>; \<open>initret\<close>, \<open>ipout\<close> and \<open>netin\<close> are the addresses of \<open>userret\<close> and of the two processes.\<close>

definition start_process :: "addr \<Rightarrow> addr \<Rightarrow> string \<Rightarrow> net \<Rightarrow> net result" where
  "start_process initret funcaddr name s =
    rbind (create initret funcaddr 8192 500 name [] (nkern s)) (\<lambda>(pid, k).
    rbind (resume pid k) (\<lambda>(_, k). Ret (set_nkern k s)))"

definition zero_network :: network where
  "zero_network = \<lparr>ipucast = 0, ipbcast = 0, ipmask = 0, ipprefix = 0, iprouter = 0, bootserver = 0, dnsserver = 0, ntpserver = 0, ipvalid = False,
    ethucast = replicate 6 0, ethbcast = replicate 6 0, bootfile = replicate 128 0\<rparr>"

definition net_init :: "64 word \<Rightarrow> addr \<Rightarrow> addr \<Rightarrow> addr \<Rightarrow> net \<Rightarrow> net result" where
  "net_init ticks initret ipout netin s =
    (case ethcontrol ETH_CTRL_GET_MAC (neth s) of (_, mac, e) \<Rightarrow>
     let s = s\<lparr>NetData := zero_network\<lparr>ethucast := mac, ethbcast := replicate 6 0xff\<rparr>, neth := e, netportseed := ticks\<rparr>;
         n = UDP_SLOTS * UDP_QSIZ + ICMP_SLOTS * ICMP_QSIZ + 1 in
     rbind (mkbufpool (int PACKLEN) n (nbufs s)) (\<lambda>(p, b).
     let s = icmp_init (udp_init (arp_init (s\<lparr>netbufpool := p, nbufs := b\<rparr>))) in
     case semcreate 0 (nkern s) of (sem, k) \<Rightarrow>
     let s = (set_nkern k s)\<lparr>ipoqueue := (ipoqueue s)\<lparr>iqhead := 0, iqtail := 0, iqsem := sem\<rparr>\<rparr> in
     if sem = SYSERR then Halted
     else rbind (start_process initret ipout ''ipout'' s) (start_process initret netin ''netin'')))"

end
