(* ===== verification/NetPackets.thy ===== *)
theory NetPackets
  imports NetStack
begin

text \<open>
  Properties of single packets: the headers that \<open>ip_out\<close> sends are read back by \<open>ip_in\<close> of the receiver, and what the two checksum routines compute compared
  with the Internet checksum.
\<close>

section \<open>Fields\<close>

lemma nth_set_field:
  "i + length bs \<le> length p \<Longrightarrow> k < length p \<Longrightarrow> set_field i bs p ! k = (if i \<le> k \<and> k < i + length bs then bs ! (k - i) else p ! k)"
  by (auto simp: set_field_def nth_append min_def)

lemma length_set_field [simp]: "i + length bs \<le> length p \<Longrightarrow> length (set_field i bs p) = length p"
  by (simp add: set_field_def)

lemma length_field [simp]: "i + n \<le> length p \<Longrightarrow> length (field i n p) = n"
  by (simp add: field_def)

lemma nth_field: "k < n \<Longrightarrow> i + n \<le> length p \<Longrightarrow> field i n p ! k = p ! (i + k)"
  by (simp add: field_def)

lemma field_same [simp]: "length bs = n \<Longrightarrow> i + n \<le> length p \<Longrightarrow> field i n (set_field i bs p) = bs"
  by (intro nth_equalityI) (auto simp: nth_field nth_set_field)

lemma field_other [simp]:
  "i + length bs \<le> length p \<Longrightarrow> j + n \<le> i \<or> i + length bs \<le> j \<Longrightarrow> j + n \<le> length p \<Longrightarrow> field j n (set_field i bs p) = field j n p"
  by (intro nth_equalityI) (auto simp: nth_field nth_set_field)

lemma set_field_twice [simp]:
  "length bs = length bs' \<Longrightarrow> i + length bs \<le> length p \<Longrightarrow> set_field i bs' (set_field i bs p) = set_field i bs' p"
  by (intro nth_equalityI) (auto simp: nth_set_field)

lemma set_field_commute:
  "i + length bs \<le> j \<or> j + length bs' \<le> i \<Longrightarrow> i + length bs \<le> length p \<Longrightarrow> j + length bs' \<le> length p \<Longrightarrow>
    set_field j bs' (set_field i bs p) = set_field i bs (set_field j bs' p)"
  by (intro nth_equalityI) (auto simp: nth_set_field)

lemma set_field_own [simp]: "i + n \<le> length p \<Longrightarrow> set_field i (field i n p) p = p"
  by (intro nth_equalityI) (auto simp: nth_set_field nth_field)

lemma dec_enc [simp]: "dec16 (enc16 w) = w" "dec32 (enc32 v) = v"
  using dec16_enc16 [of w "[]"] dec32_enc32 [of v "[]"] by simp_all

lemma enc_dec: "length bs = 2 \<Longrightarrow> enc16 (dec16 bs) = bs" "length cs = 4 \<Longrightarrow> enc32 (dec32 cs) = cs"
proof -
  assume "length bs = 2"
  then obtain x y where b: "bs = [x, y]" by (auto simp: length_Suc_conv numeral_2_eq_2)
  have "ucast (ucast x OR push_bit 8 (ucast y) :: u16) = x" "ucast (drop_bit 8 (ucast x OR push_bit 8 (ucast y) :: u16)) = y"
    by (rule bit_word_eqI; auto simp: bit_simps dest: bit_imp_le_length)+
  then show "enc16 (dec16 bs) = bs" by (simp add: b enc16_def dec16_def)
next
  assume "length cs = 4"
  then obtain x y z w where c: "cs = [x, y, z, w]" by (auto simp: length_Suc_conv eval_nat_numeral)
  let ?v = "ucast x OR push_bit 8 (ucast y) OR push_bit 16 (ucast z) OR push_bit 24 (ucast w) :: u32"
  have "ucast ?v = x" "ucast (drop_bit 8 ?v) = y" "ucast (drop_bit 16 ?v) = z" "ucast (drop_bit 24 ?v) = w"
    by (rule bit_word_eqI; auto simp: bit_simps dest: bit_imp_le_length)+
  then show "enc32 (dec32 cs) = cs" by (simp add: c enc32_def dec32_def)
qed

section \<open>Byte order\<close>

lemma htons_alt: "htons x = (mask 8 AND drop_bit 8 x) OR push_bit 8 (mask 8 AND x)"
  by (simp add: htons_def mask_eq_exp_minus_1)

lemma htonl_alt: "htonl x = (drop_bit 24 x AND mask 8) OR (drop_bit 8 x AND push_bit 8 (mask 8)) OR (push_bit 8 x AND push_bit 16 (mask 8)) OR
    (push_bit 24 x AND push_bit 24 (mask 8))"
  by (simp add: htonl_def mask_eq_exp_minus_1 push_bit_eq_mult)

lemma htons_htons [simp]: "htons (htons x) = x"
proof (rule bit_word_eqI)
  fix n assume "n < LENGTH(16)"
  then consider "n < 8" | "8 \<le> n" "n < 16" by force
  then show "bit (htons (htons x)) n = bit x n" by cases (auto simp: htons_alt bit_simps)
qed

lemma bit_htonl:
  "n < 8 \<Longrightarrow> bit (htonl x) n = bit x (n + 24)" "8 \<le> n \<Longrightarrow> n < 16 \<Longrightarrow> bit (htonl x) n = bit x (n + 8)"
  "16 \<le> n \<Longrightarrow> n < 24 \<Longrightarrow> bit (htonl x) n = bit x (n - 8)" "24 \<le> n \<Longrightarrow> n < 32 \<Longrightarrow> bit (htonl x) n = bit x (n - 24)"
  by (auto simp: htonl_alt bit_simps add.commute)

lemma htonl_htonl [simp]: "htonl (htonl x) = x"
proof (rule bit_word_eqI)
  fix n assume "n < LENGTH(32)"
  then consider "n < 8" | "8 \<le> n" "n < 16" | "16 \<le> n" "n < 24" | "24 \<le> n" "n < 32" by force
  then show "bit (htonl (htonl x)) n = bit x n" by cases (simp_all add: bit_htonl)
qed

lemma swap_length [simp]: "i + 2 \<le> length p \<Longrightarrow> length (swap16 i p) = length p" "i + 4 \<le> length p \<Longrightarrow> length (swap32 i p) = length p"
  by (simp_all add: swap16_def swap32_def put16_def put32_def)

lemma swap_swap [simp]: "i + 2 \<le> length p \<Longrightarrow> swap16 i (swap16 i p) = p" "i + 4 \<le> length p \<Longrightarrow> swap32 i (swap32 i p) = p"
  by (simp_all add: swap16_def swap32_def put16_def put32_def get16_def get32_def enc_dec)

lemma swap_put:
  "i + length bs \<le> j \<or> j + 2 \<le> i \<Longrightarrow> i + length bs \<le> length p \<Longrightarrow> j + 2 \<le> length p \<Longrightarrow> swap16 j (set_field i bs p) = set_field i bs (swap16 j p)"
  "i + length bs \<le> j \<or> j + 4 \<le> i \<Longrightarrow> i + length bs \<le> length p \<Longrightarrow> j + 4 \<le> length p \<Longrightarrow> swap32 j (set_field i bs p) = set_field i bs (swap32 j p)"
  unfolding swap16_def swap32_def put16_def put32_def get16_def get32_def by (subst set_field_commute; auto)+

lemma swap_order:
  "i + 2 \<le> j \<or> j + 2 \<le> i \<Longrightarrow> i + 2 \<le> length p \<Longrightarrow> j + 2 \<le> length p \<Longrightarrow> swap16 j (swap16 i p) = swap16 i (swap16 j p)"
  "i + 2 \<le> j \<or> j + 4 \<le> i \<Longrightarrow> i + 2 \<le> length p \<Longrightarrow> j + 4 \<le> length p \<Longrightarrow> swap32 j (swap16 i p) = swap16 i (swap32 j p)"
  "i + 4 \<le> j \<or> j + 4 \<le> i \<Longrightarrow> i + 4 \<le> length p \<Longrightarrow> j + 4 \<le> length p \<Longrightarrow> swap32 j (swap32 i p) = swap32 i (swap32 j p)"
  unfolding swap16_def [of i] swap32_def [of i] put16_def put32_def get16_def get32_def
  by (subst swap_put; auto simp: swap16_def swap32_def put16_def put32_def)+

lemma field_swap [simp]:
  "j + n \<le> i \<or> i + 2 \<le> j \<Longrightarrow> i + 2 \<le> length p \<Longrightarrow> j + n \<le> length p \<Longrightarrow> field j n (swap16 i p) = field j n p"
  "j + n \<le> i \<or> i + 4 \<le> j \<Longrightarrow> i + 4 \<le> length p \<Longrightarrow> j + n \<le> length p \<Longrightarrow> field j n (swap32 i p) = field j n p"
  by (simp_all add: swap16_def swap32_def put16_def put32_def)

lemma enc_length [simp]: "length (enc16 w) = 2" "length (enc32 v) = 4"
  by (simp_all add: enc16_def enc32_def)

section \<open>What goes over the wire\<close>

definition host_packet :: "packet \<Rightarrow> packet" where
  "host_packet q = udp_ntoh (ip_ntoh (eth_ntoh q))"

lemma udp_wire:
  assumes len: "50 \<le> length p" and proto: "get8 net_ipproto p = IP_UDP"
  obtains q c where "ip_wire p = Ret q" "length q = length p" "host_packet q = put16 net_ipcksum c (put16 net_udpcksum 0 p)"
proof -
  let ?p = "ip_hton (udp_hton (put16 net_udpcksum 0 p))"
  define c where "c = 0xffff AND htons (ipcksum (put16 net_ipcksum 0 ?p))"
  have w: "ip_wire p = Ret (eth_hton (put16 net_ipcksum c ?p))"
    using proto len by (simp add: ip_wire_def Let_def c_def put16_def ip_hton_def udp_hton_def net_offsets)
  have "host_packet (eth_hton (put16 net_ipcksum c ?p)) = put16 net_ipcksum c (put16 net_udpcksum 0 p)"
    using len by (simp add: host_packet_def eth_ntoh_def eth_hton_def ip_ntoh_def udp_ntoh_def ip_hton_def udp_hton_def net_offsets put16_def swap_put swap_order)
  moreover have "length (eth_hton (put16 net_ipcksum c ?p)) = length p"
    using len by (simp add: eth_hton_def ip_hton_def udp_hton_def net_offsets put16_def)
  ultimately show ?thesis using that w by blast
qed

section \<open>Checksums\<close>

definition words :: "nat \<Rightarrow> nat \<Rightarrow> packet \<Rightarrow> nat list" where
  "words n i p = map (\<lambda>k. unat (htons (get16 (i + 2 * k) p))) [0..<n]"

lemma words_length [simp]: "length (words n i p) = n"
  by (simp add: words_def)

lemma unat_u16: "unat (x :: u16) \<le> 65535"
  using unsigned_less [of x, where 'a = nat] by simp

lemma sum_words_bound: "sum_list (words n i p) \<le> 65535 * n"
proof -
  have "sum_list (map f xs) \<le> 65535 * length xs" if "\<And>k. f k \<le> 65535" for f :: "nat \<Rightarrow> nat" and xs
    using that by (induction xs) (simp_all add: add_mono)
  from this [of "\<lambda>k. unat (htons (get16 (i + 2 * k) p))" "[0..<n]"] show ?thesis by (simp add: words_def unat_u16)
qed

lemma unat_sum16:
  "unat c + 65535 * n < 4294967296 \<Longrightarrow> unat (sum16 n i c p) = unat c + sum_list (words n i p)"
proof (induction n arbitrary: i c)
  case (Suc n)
  let ?w = "htons (get16 i p)"
  have w: "unat (ucast ?w :: u32) = unat ?w" using unat_u16 [of ?w] by (simp add: unsigned_ucast_eq take_bit_nat_eq_self)
  have "unat (c + ucast ?w) = unat c + unat ?w" using Suc.prems unat_u16 [of ?w] w by (subst unat_add_lem [THEN iffD1]) simp_all
  moreover have "words (Suc n) i p = unat ?w # words n (i + 2) p"
    by (simp add: words_def upt_conv_Cons map_Suc_upt [symmetric] del: upt_Suc)
  ultimately show ?case using Suc.IH [of "c + ucast ?w" "i + 2"] Suc.prems unat_u16 [of ?w] by simp
qed (simp add: words_def)

lemma words_put:
  assumes "i + 2 * n \<le> length p" "j < n"
  shows "words n i (put16 (i + 2 * j) w p) = (words n i p)[j := unat (htons w)]"
proof (rule nth_equalityI)
  fix k assume "k < length (words n i (put16 (i + 2 * j) w p))"
  then have k: "k < n" by simp
  consider "k = j" | "k < j" | "j < k" by linarith
  then show "words n i (put16 (i + 2 * j) w p) ! k = (words n i p)[j := unat (htons w)] ! k"
    by cases (use k assms in \<open>simp_all add: words_def get16_def put16_def\<close>)
qed simp

text \<open>What the two routines make of a sum, and the Internet checksum (RFC 1071).\<close>

definition folded :: "nat \<Rightarrow> nat" where
  "folded s = 65535 - (s + s div 65536) mod 65536"

lemma fold_less: "\<not> s < 65536 \<Longrightarrow> s div 65536 + s mod 65536 < s" for s :: nat
proof -
  assume "\<not> s < 65536"
  then have "1 \<le> s div 65536" by (simp add: less_eq_div_iff_mult_less_eq)
  moreover have "s = 65536 * (s div 65536) + s mod 65536" by simp
  ultimately show ?thesis by linarith
qed

function ones_sum :: "nat \<Rightarrow> nat" where
  "ones_sum s = (if s < 65536 then s else ones_sum (s div 65536 + s mod 65536))"
  by pat_completeness auto
termination by (relation "measure (\<lambda>s. s)") (simp_all add: fold_less)

declare ones_sum.simps [simp del]

definition internet_cksum :: "nat \<Rightarrow> nat" where
  "internet_cksum s = 65535 - ones_sum s"

text \<open>The carry of the second addition, which the routines do not add.\<close>

definition carries_twice :: "nat \<Rightarrow> bool" where
  "carries_twice s \<longleftrightarrow> 65536 \<le> s mod 65536 + s div 65536"

lemma folded_cksum:
  assumes "s < 65536 * 65535"
  shows "folded s = internet_cksum s + (if carries_twice s then 1 else 0)"
proof -
  let ?hi = "s div 65536" and ?lo = "s mod 65536"
  have s: "s = 65536 * ?hi + ?lo" "?lo < 65536" by simp_all
  have hi: "?hi < 65535" using assms by (simp add: div_less_iff_less_mult)
  have f: "(s + ?hi) mod 65536 = (?lo + ?hi) mod 65536" by (simp only: mod_add_left_eq)
  show ?thesis
  proof (cases "carries_twice s")
    case True
    define r where "r = ?lo + ?hi - 65536"
    have r: "?lo + ?hi = 65536 + r" "r < 65534" using True s(2) hi by (simp_all add: carries_twice_def r_def)
    then have "(?lo + ?hi) mod 65536 = r" "(?lo + ?hi) div 65536 = 1" by simp_all
    then have "folded s = 65535 - r" unfolding folded_def f by simp
    moreover have "ones_sum s = 1 + r"
    proof -
      have "\<not> s < 65536" using r hi s by (metis add.right_neutral div_less mod_less not_add_less1 leI)
      then have "ones_sum s = ones_sum (?hi + ?lo)" by (subst ones_sum.simps) simp
      also have "\<dots> = ones_sum (65536 + r)" using r(1) by (simp add: add.commute)
      also have "\<dots> = ones_sum (1 + r)"
      proof -
        have "(65536 + r) div 65536 = 1" "(65536 + r) mod 65536 = r" using r(2) by simp_all
        then show ?thesis by (subst ones_sum.simps) (simp only: add_less_same_cancel1 not_less_zero if_False)
      qed
      also have "\<dots> = 1 + r" using r by (subst ones_sum.simps) simp
      finally show ?thesis .
    qed
    ultimately show ?thesis using True r by (simp add: internet_cksum_def)
  next
    case False
    then have l: "?lo + ?hi < 65536" by (simp add: carries_twice_def)
    have "ones_sum s = ?lo + ?hi"
    proof (cases "s < 65536")
      case True
      then show ?thesis by (subst ones_sum.simps) simp
    next
      case False
      have "ones_sum s = ones_sum (?hi + ?lo)" using False by (subst ones_sum.simps) simp
      also have "\<dots> = ?hi + ?lo" using l by (subst ones_sum.simps) simp
      finally show ?thesis by simp
    qed
    then show ?thesis using False l by (simp add: folded_def f internet_cksum_def)
  qed
qed

text \<open>The sum with its checksum added, checked again.\<close>

lemma folded_step: "(65536 * a + b) + (65536 * a + b) div 65536 = 65536 * a + (b + a)" if "b < 65536" for a b :: nat
  using that by simp

lemma folded_again:
  assumes "s < 65536 * 65535"
  shows "folded (s + folded s) = (if carries_twice s then 65535 else 0)"
proof -
  define hi lo where "hi = s div 65536" and "lo = s mod 65536"
  have s: "s = 65536 * hi + lo" "lo < 65536" by (simp_all add: hi_def lo_def)
  have hi: "hi < 65535" using assms by (simp add: hi_def div_less_iff_less_mult)
  have f: "folded s = 65535 - (lo + hi) mod 65536" by (simp only: folded_def mod_add_left_eq hi_def lo_def)
  obtain b where b: "b + hi = 65535" using hi by (metis le_add_diff_inverse2 less_imp_le)
  show ?thesis
  proof (cases "carries_twice s")
    case True
    then obtain r where r: "lo + hi = 65536 + r" by (auto simp: carries_twice_def hi_def lo_def le_iff_add)
    then have "r < 65536" using s(2) hi by linarith
    then have "folded s + r = 65535" by (simp add: f r)
    then have "lo + folded s = 65536 + b" using r b by linarith
    then have t: "s + folded s = 65536 * (hi + 1) + b" using s(1) by (simp add: algebra_simps)
    have "s + folded s + (s + folded s) div 65536 = 65536 * (hi + 1) + (b + (hi + 1))" unfolding t using b by (intro folded_step) linarith
    also have "\<dots> = 65536 * (hi + 2)" using b by (simp add: algebra_simps)
    finally show ?thesis using True by (simp add: folded_def [of "s + folded s"])
  next
    case False
    then have l: "lo + hi < 65536" by (simp add: carries_twice_def hi_def lo_def)
    then have "folded s + (lo + hi) = 65535" by (simp add: f)
    then have "lo + folded s = b" using b by linarith
    then have t: "s + folded s = 65536 * hi + b" using s(1) by (simp add: algebra_simps)
    have "s + folded s + (s + folded s) div 65536 = 65536 * hi + (b + hi)" unfolding t using b by (intro folded_step) linarith
    also have "\<dots> = 65536 * hi + 65535" using b by simp
    finally show ?thesis using False by (simp add: folded_def [of "s + folded s"])
  qed
qed


lemma folded_conforming:
  assumes "s < 65536 * 65535"
  shows "folded (s + internet_cksum s) = 0"
proof (cases "carries_twice s")
  case False
  then show ?thesis using folded_cksum [OF assms] folded_again [OF assms] by simp
next
  case True
  define hi lo where "hi = s div 65536" and "lo = s mod 65536"
  have s: "s = 65536 * hi + lo" "lo < 65536" by (simp_all add: hi_def lo_def)
  have hi: "hi < 65535" using assms by (simp add: hi_def div_less_iff_less_mult)
  obtain b where b: "b + hi = 65534" using that [of "65534 - hi"] hi by simp
  obtain r where r: "lo + hi = 65536 + r" using True by (auto simp: carries_twice_def hi_def lo_def le_iff_add)
  then have "r < 65536" using s(2) hi by linarith
  then have "folded s + r = 65535" by (simp add: folded_def mod_add_left_eq [of s, symmetric] r hi_def [symmetric] lo_def [symmetric])
  then have "internet_cksum s + r = 65534" using folded_cksum [OF assms] True by simp
  then have "lo + internet_cksum s = 65536 + b" using r b by linarith
  then have t: "s + internet_cksum s = 65536 * (hi + 1) + b" using s(1) by (simp add: algebra_simps)
  have "s + internet_cksum s + (s + internet_cksum s) div 65536 = 65536 * (hi + 1) + (b + (hi + 1))" unfolding t using b by (intro folded_step) linarith
  also have "\<dots> = 65536 * (hi + 1) + 65535" using b by simp
  finally show ?thesis by (simp add: folded_def [of "s + internet_cksum s"])
qed

end
