(* ===== verification/Checksums.thy ===== *)
theory Checksums
  imports NetPackets
begin

text \<open>
  The checksums of the network stack compared with the Internet checksum of RFC 1071, at the level of the packets that \<open>ip_out\<close> sends and \<open>ip_in\<close> reads:
  \<open>ipcksum\<close> of \<open>net/ip.c\<close> and \<open>icmp_cksum\<close> of \<open>net/icmp.c\<close>.
\<close>

section \<open>The IP header\<close>

definition header_sum :: "packet \<Rightarrow> nat" where
  "header_sum p = sum_list (words 10 net_ipvh (put16 net_ipcksum 0 p))"

lemma unat_complement: "unat (0xffff AND NOT x) = 65535 - unat x mod 65536" for x :: u32
proof -
  have m: "(0xffff :: u32) = mask 16" by (simp add: mask_eq_exp_minus_1)
  have t: "unat (take_bit 16 x) = unat x mod 65536" by (simp add: take_bit_eq_mod unat_mod)
  have "0xffff AND NOT x = 0xffff - take_bit 16 x"
    unfolding m by (metis and.commute take_bit_eq_mask take_bit_not_eq_mask_diff)
  moreover have "take_bit 16 x \<le> 0xffff" unfolding word_le_nat_alt t by simp
  ultimately show ?thesis by (simp add: unat_sub t)
qed

lemma unat_fold32:
  fixes c :: u32
  assumes "unat c < 65536 * 65535"
  shows "unat (0xffff AND NOT (c + drop_bit 16 c)) = folded (unat c)"
proof -
  have d: "unat (drop_bit 16 c) = unat c div 65536" by (simp add: drop_bit_eq_div unat_div)
  have "unat c div 65536 < 65536" using assms by (simp add: less_mult_imp_div_less)
  then have "unat (c + drop_bit 16 c) = unat c + unat c div 65536" using assms d by (subst unat_add_lem [THEN iffD1]) simp_all
  then show ?thesis by (simp add: unat_complement folded_def)
qed

lemma ucast_low [simp]: "unat (ucast (0xffff AND x) :: u16) = unat x mod 65536" for x :: u32
proof -
  have m: "(0xffff :: u32) = mask 16" by (simp add: mask_eq_exp_minus_1)
  have "(ucast (0xffff AND x) :: u16) = ucast x" unfolding m by (rule bit_word_eqI) (auto simp: bit_simps)
  then show ?thesis by (simp add: unsigned_ucast_eq take_bit_eq_mod)
qed

lemma folded_le: "folded s \<le> 65535"
  by (simp add: folded_def)

lemma unat_ipcksum: "unat (ipcksum p) = (let f = folded (sum_list (words 10 net_ipvh p)) in if f = 65535 then 0 else f)"
proof -
  let ?c = "sum16 10 net_ipvh 0 p"
  have u: "unat ?c = sum_list (words 10 net_ipvh p)" using unat_sum16 [of 0 10] by simp
  then have "unat ?c < 65536 * 65535" using sum_words_bound [of 10 net_ipvh p] by simp
  note f = unat_fold32 [OF this]
  define d where "d = 0xffff AND NOT (?c + drop_bit 16 ?c)"
  have "d = 0xffff \<longleftrightarrow> unat d = 65535" by (simp add: word_unat_eq_iff)
  then show ?thesis using f folded_le [of "unat ?c"] by (simp add: ipcksum_def Let_def d_def [symmetric] u)
qed

text \<open>Storing a value in the checksum field adds it to the sum.\<close>

lemma sum_put_word:
  assumes "i + 2 * n \<le> length p" "j < n"
  shows "sum_list (words n i (put16 (i + 2 * j) (htons w) p)) = sum_list (words n i (put16 (i + 2 * j) 0 p)) + unat w"
proof -
  have "htons 0 = 0" by (simp add: htons_def)
  moreover have "words n i p ! j \<le> sum_list (words n i p)" using assms by (intro elem_le_sum_list) simp
  ultimately show ?thesis using assms by (simp add: words_put sum_list_update)
qed

lemma header_sum_put: "34 \<le> length p \<Longrightarrow> sum_list (words 10 net_ipvh (put16 net_ipcksum (htons w) p)) = header_sum p + unat w"
  using sum_put_word [of net_ipvh 10 p 5 w] by (simp add: header_sum_def net_offsets)


lemma header_sum_bounds: "header_sum p \<le> 655350" "34 \<le> length p \<Longrightarrow> get8 net_ipvh p = 0x45 \<Longrightarrow> 0 < header_sum p"
proof -
  show "header_sum p \<le> 655350" using sum_words_bound [of 10 net_ipvh] by (simp add: header_sum_def)
  assume l: "34 \<le> length p" and v: "get8 net_ipvh p = 0x45"
  let ?q = "put16 net_ipcksum 0 p"
  obtain x where x: "field net_ipvh 2 ?q = [0x45, x]"
    using l v by (auto simp: field_def get8_def put16_def set_field_def net_offsets take_Suc_conv_app_nth numeral_2_eq_2 nth_append)
  have "unat (htons (get16 net_ipvh ?q)) \<le> sum_list (words 10 net_ipvh ?q)"
    using elem_le_sum_list [of 0 "words 10 net_ipvh ?q"] by (simp add: words_def)
  moreover have "htons (get16 net_ipvh ?q) \<noteq> 0"
  proof
    assume "htons (get16 net_ipvh ?q) = 0"
    then have "get16 net_ipvh ?q = htons 0" by (metis htons_htons)
    then have "\<not> bit (get16 net_ipvh ?q) 0" by (simp add: htons_def)
    then show False by (simp add: get16_def x dec16_def bit_simps)
  qed
  ultimately show "0 < header_sum p" unfolding header_sum_def by (metis less_le_trans unat_gt_0)
qed

lemma ones_sum_le: "ones_sum s \<le> 65535"
  by (induction s rule: ones_sum.induct) (subst ones_sum.simps, auto)

lemma unat_cksum_word: "n \<le> 65535 \<Longrightarrow> unat (word_of_nat n :: u16) = n"
  by (simp add: unsigned_of_nat take_bit_nat_eq_self)

lemma unat_ipcksum_put:
  "34 \<le> length p \<Longrightarrow> unat (ipcksum (put16 net_ipcksum (htons w) p)) = (if folded (header_sum p + unat w) = 65535 then 0 else folded (header_sum p + unat w))"
  by (simp add: unat_ipcksum header_sum_put Let_def)

lemma unat_ipcksum_new: "unat (ipcksum (put16 net_ipcksum 0 p)) = (if folded (header_sum p) = 65535 then 0 else folded (header_sum p))"
  by (simp add: unat_ipcksum header_sum_def Let_def)

lemma ipcksum_accepts:
  assumes "34 \<le> length p" and "get8 net_ipvh p = 0x45"
  shows "ipcksum (put16 net_ipcksum (htons (ipcksum (put16 net_ipcksum 0 p))) p) = 0"
proof -
  have "header_sum p < 65536 * 65535" using header_sum_bounds(1) [of p] by simp
  from folded_again [OF this]
  have "unat (ipcksum (put16 net_ipcksum (htons (ipcksum (put16 net_ipcksum 0 p))) p)) = 0"
    unfolding unat_ipcksum_put [OF assms(1)] unat_ipcksum_new by simp
  then show ?thesis by (simp only: unat_eq_zero)
qed

text \<open>
  C11: What \<open>ip_out\<close> stores in the checksum field of a header is the Internet checksum of RFC 1071 exactly when adding the carry of the sum does not carry again:
  \<open>ipcksum\<close> adds the carry once only. The receiver's test \<open>ipcksum (...) = 0\<close> of \<open>ip_in\<close> accepts every header that \<open>ip_out\<close> has sent, and every header with the
  Internet checksum; a wrong one is then rejected by other machines only.
\<close>

theorem ipcksum_rfc1071:
  assumes "34 \<le> length p" and "get8 net_ipvh p = 0x45"
  shows "ipcksum (put16 net_ipcksum (htons (ipcksum (put16 net_ipcksum 0 p))) p) = 0 \<and>
    ipcksum (put16 net_ipcksum (htons (word_of_nat (internet_cksum (header_sum p)))) p) = 0 \<and>
    (unat (ipcksum (put16 net_ipcksum 0 p)) = internet_cksum (header_sum p) \<longleftrightarrow> \<not> carries_twice (header_sum p))"
proof -
  let ?s = "header_sum p" and ?c = "ipcksum (put16 net_ipcksum 0 p)"
  have s: "?s < 65536 * 65535" "0 < ?s" using header_sum_bounds [of p] assms by simp_all
  note c = unat_ipcksum_new [of p]
  have "unat (ipcksum (put16 net_ipcksum (htons (word_of_nat (internet_cksum ?s))) p)) = 0"
    using folded_conforming [OF s(1)] unfolding unat_ipcksum_put [OF assms(1)] by (simp add: unat_cksum_word internet_cksum_def)
  moreover have "carries_twice ?s" if "folded ?s = 65535"
  proof (rule ccontr)
    assume "\<not> carries_twice ?s"
    then have l: "?s mod 65536 + ?s div 65536 < 65536" by (simp add: carries_twice_def)
    moreover have "(?s mod 65536 + ?s div 65536) mod 65536 = 0" using that by (simp add: folded_def mod_add_left_eq)
    ultimately have "?s mod 65536 + ?s div 65536 = 0" by simp
    then show False using s(2) div_mult_mod_eq [of ?s 65536] by (simp only: add_is_0)
  qed
  moreover have "unat ?c = internet_cksum ?s \<longleftrightarrow> \<not> carries_twice ?s" if "folded ?s = 65535 \<Longrightarrow> carries_twice ?s"
  proof (cases "carries_twice ?s")
    case True
    then have "folded ?s = internet_cksum ?s + 1" using folded_cksum [OF s(1)] by simp
    then have "unat ?c \<noteq> internet_cksum ?s" unfolding c by (simp split: if_split)
    then show ?thesis using True by blast
  next
    case False
    then have "folded ?s = internet_cksum ?s" using folded_cksum [OF s(1)] by simp
    moreover have "folded ?s \<noteq> 65535" using that False by blast
    ultimately have "unat ?c = internet_cksum ?s" unfolding c by simp
    then show ?thesis using False by blast
  qed
  ultimately show ?thesis using ipcksum_accepts [OF assms] unfolding unat_eq_zero by blast
qed

lemma unat_network_order: "unat (htons (dec16 [x, y])) = 256 * unat x + unat y"
proof -
  have o: "htons (dec16 [x, y]) = push_bit 8 (ucast x) OR ucast y"
    by (rule bit_word_eqI) (auto simp: htons_alt dec16_def bit_simps dest: bit_imp_le_length)
  have u: "htons (dec16 [x, y]) = push_bit 8 (ucast x) + ucast y"
    unfolding o by (rule disjunctive_add [symmetric]) (auto simp: bit_simps dest: bit_imp_le_length)
  have z: "unat (ucast z :: u16) = unat z" "unat z < 256" for z :: u8
    using unsigned_less [of z, where 'a = nat] by (simp_all add: unsigned_ucast_eq take_bit_nat_eq_self)
  have x: "unat (push_bit 8 (ucast x :: u16)) = 256 * unat x"
    using z [of x] by (simp add: push_bit_eq_mult unat_mult_lem [THEN iffD1] mult.commute)
  have "unat (push_bit 8 (ucast x :: u16)) + unat (ucast y :: u16) < 2 ^ LENGTH(16)" using x z [of x] z [of y] by simp
  then show ?thesis unfolding u by (subst unat_add_lem [THEN iffD1]) (simp_all add: x z)
qed

text \<open>A header whose second carry is lost: 28 bytes from 192.168.1.100 to 192.168.1.101 with the identification 0x37b9.\<close>

definition header1 :: packet where
  "header1 = replicate 14 0 @ [0x45, 0, 0, 28, 55, 185, 0, 0, 0xff, 17, 0, 0, 192, 168, 1, 100, 192, 168, 1, 101]"

theorem ipcksum_rfc1071_witness:
  "ipcksum (put16 net_ipcksum (htons (ipcksum (put16 net_ipcksum 0 header1))) header1) = 0 \<and>
    unat (ipcksum (put16 net_ipcksum 0 header1)) \<noteq> internet_cksum (header_sum header1)"
proof -
  have "34 \<le> length header1" "get8 net_ipvh header1 = 0x45" by (simp_all add: header1_def get8_def net_offsets nth_append)
  moreover have "carries_twice (header_sum header1)"
    by (simp add: carries_twice_def header_sum_def words_def get16_def field_def put16_def set_field_def enc16_def header1_def net_offsets upt_rec unat_network_order)
  ultimately show ?thesis using ipcksum_rfc1071 [of header1] by blast
qed

end
