(* ===== verification/NetDelivery.thy ===== *)
theory NetDelivery
  imports Checksums
begin

text \<open>
  What one machine sends and another one receives: the packets that \<open>ip_out\<close> writes, read by \<open>netin\<close>; the queues of the UDP and ICMP endpoints.
\<close>

section \<open>Packets on the wire\<close>

lemma upd_pkt_twice [simp]: "upd_pkt a f (upd_pkt a g s) = upd_pkt a (f \<circ> g) s" "pkts (upd_pkt a f s) a = f (pkts s a)"
  by (simp_all add: upd_pkt_def)

lemma upd_pkt_fields [simp]:
  "NetData (upd_pkt a f s) = NetData s" "udptab (upd_pkt a f s) = udptab s" "icmptab (upd_pkt a f s) = icmptab s" "nbufs (upd_pkt a f s) = nbufs s"
  by (simp_all add: upd_pkt_def)

lemma get_put_other [simp]:
  "i + 2 \<le> j \<or> j + 2 \<le> i \<Longrightarrow> i + 2 \<le> length p \<Longrightarrow> j + 2 \<le> length p \<Longrightarrow> get16 i (put16 j w p) = get16 i p"
  "i + 4 \<le> j \<or> j + 2 \<le> i \<Longrightarrow> i + 4 \<le> length p \<Longrightarrow> j + 2 \<le> length p \<Longrightarrow> get32 i (put16 j w p) = get32 i p"
  "i < j \<or> j + 2 \<le> i \<Longrightarrow> i < length p \<Longrightarrow> j + 2 \<le> length p \<Longrightarrow> get8 i (put16 j w p) = get8 i p"
  by (auto simp: get16_def get32_def get8_def put16_def nth_set_field)

lemma put16_length [simp]: "i + 2 \<le> length p \<Longrightarrow> length (put16 i w p) = length p"
  by (simp add: put16_def)

lemma get_swap_other [simp]:
  "i + 2 \<le> j \<or> j + 2 \<le> i \<Longrightarrow> i + 2 \<le> length p \<Longrightarrow> j + 2 \<le> length p \<Longrightarrow> get16 i (swap16 j p) = get16 i p"
  "i + 2 \<le> j \<or> j + 4 \<le> i \<Longrightarrow> i + 2 \<le> length p \<Longrightarrow> j + 4 \<le> length p \<Longrightarrow> get16 i (swap32 j p) = get16 i p"
  "i < j \<or> j + 2 \<le> i \<Longrightarrow> i < length p \<Longrightarrow> j + 2 \<le> length p \<Longrightarrow> get8 i (swap16 j p) = get8 i p"
  "i < j \<or> j + 4 \<le> i \<Longrightarrow> i < length p \<Longrightarrow> j + 4 \<le> length p \<Longrightarrow> get8 i (swap32 j p) = get8 i p"
  by (auto simp: get16_def get8_def swap16_def swap32_def put16_def put32_def nth_set_field)

lemma all_ones16 [simp]: "(0xffff :: u16) AND w = w"
proof -
  have m: "(0xffff :: u16) = mask 16" by (simp add: mask_eq_exp_minus_1)
  show ?thesis unfolding m by (rule bit_word_eqI) (auto simp: bit_simps)
qed

text \<open>The header as \<open>ip_out\<close> leaves it.\<close>

definition sent_header :: "packet \<Rightarrow> packet" where
  "sent_header m = put16 net_ipcksum (htons (ipcksum (put16 net_ipcksum 0 (ip_hton m)))) (put16 net_ipcksum 0 (ip_hton m))"

lemma ip_hton_fields:
  assumes "34 \<le> length m"
  shows "length (ip_hton m) = length m" "get16 net_ethtype (ip_hton m) = get16 net_ethtype m" "get8 net_ipvh (ip_hton m) = get8 net_ipvh m"
  using assms by (simp_all add: ip_hton_def net_offsets)

lemma sent_header:
  assumes "34 \<le> length m" and "get8 net_ipvh m = 0x45"
  shows "length (sent_header m) = length m" "get16 net_ethtype (sent_header m) = get16 net_ethtype m" "ipcksum (sent_header m) = 0"
    "\<exists>c. ip_ntoh (sent_header m) = put16 net_ipcksum c m"
proof -
  note f = ip_hton_fields [OF assms(1)]
  show "length (sent_header m) = length m" "get16 net_ethtype (sent_header m) = get16 net_ethtype m"
    using assms f by (simp_all add: sent_header_def net_offsets)
  have h: "34 \<le> length (ip_hton m)" "get8 net_ipvh (ip_hton m) = 0x45" using assms f by simp_all
  have "sent_header m = put16 net_ipcksum (htons (ipcksum (put16 net_ipcksum 0 (ip_hton m)))) (ip_hton m)"
    using h(1) by (simp add: sent_header_def put16_def net_offsets)
  then show "ipcksum (sent_header m) = 0" using ipcksum_accepts [OF h] by simp
  show "\<exists>c. ip_ntoh (sent_header m) = put16 net_ipcksum c m"
    using assms(1) by (intro exI [of _ "htons (ipcksum (put16 net_ipcksum 0 (ip_hton m)))"])
      (simp add: sent_header_def ip_ntoh_def ip_hton_def net_offsets put16_def swap_put swap_order)
qed

lemma netin_ip:
  assumes "34 \<le> length m" "get16 net_ethtype m = ETH_IP" "get8 net_ipvh m = 0x45"
  shows "netin_dispatch a (upd_pkt a (\<lambda>_. eth_hton (sent_header m)) s) = ip_in a (upd_pkt a (\<lambda>_. sent_header m) s)"
proof -
  have "eth_ntoh (eth_hton (sent_header m)) = sent_header m" using assms sent_header by (simp add: eth_ntoh_def eth_hton_def net_offsets)
  then show ?thesis using sent_header(2) [OF assms(1,3)] assms(2)
    by (simp add: netin_dispatch_def Let_def comp_def ETH_IP_def ETH_ARP_def)
qed

section \<open>ICMP messages\<close>

definition message_sum :: "nat \<Rightarrow> nat \<Rightarrow> packet \<Rightarrow> nat" where
  "message_sum i n p = sum_list (words (n div 2) i p) + (if odd n then 256 * unat (p ! (i + n - 1)) else 0)"

lemma unat_odd_byte: "unat (0xffff AND push_bit 8 (ucast b) :: u32) = 256 * unat b" for b :: u8
proof -
  have b: "unat b < 256" using unsigned_less [of b, where 'a = nat] by simp
  have m: "(0xffff :: u32) = mask 16" by (simp add: mask_eq_exp_minus_1)
  have "(0xffff AND push_bit 8 (ucast b) :: u32) = push_bit 8 (ucast b)"
    unfolding m by (rule bit_word_eqI) (auto simp: bit_simps dest: bit_imp_le_length)
  moreover have "unat (ucast b :: u32) = unat b" using b by (simp add: unsigned_ucast_eq take_bit_nat_eq_self)
  ultimately show ?thesis using b by (simp add: push_bit_eq_mult unat_mult_lem [THEN iffD1] mult.commute)
qed

lemma message_sum_bound:
  assumes "n \<le> 65535"
  shows "sum_list (words (n div 2) i p) \<le> 65535 * 32767" "message_sum i n p < 65536 * 65535"
proof -
  have "n div 2 \<le> 32767" using assms by simp
  then have "65535 * (n div 2) \<le> 65535 * 32767" by (rule mult_le_mono2)
  then show w: "sum_list (words (n div 2) i p) \<le> 65535 * 32767" using sum_words_bound [of "n div 2" i p] by (rule le_trans [rotated])
  have "unat (p ! (i + n - 1)) < 256" using unsigned_less [of "p ! (i + n - 1)", where 'a = nat] by simp
  then show "message_sum i n p < 65536 * 65535" using w by (simp add: message_sum_def)
qed

lemma icmp_cksum_folded:
  assumes "i + n \<le> length p" and "n \<le> 65535"
  shows "\<exists>c. icmp_cksum i (int n) p = Ret c \<and> unat c = folded (message_sum i n p)"
proof -
  have sc: "nat (drop_bit 1 (int n)) = n div 2" by (simp add: drop_bit_eq_div)
  have od: "int n AND 1 \<noteq> 0 \<longleftrightarrow> odd n" by (simp add: and_one_eq odd_iff_mod_2_eq_one) presburger
  have ix: "i + 2 * (n div 2) = i + n - 1" if "odd n" using that by (simp add: odd_two_times_div_two_nat) presburger
  define c where "c = (if odd n then sum16 (n div 2) i 0 p + (0xffff AND push_bit 8 (ucast (p ! (i + n - 1)))) else sum16 (n div 2) i 0 p)"
  have u: "unat (sum16 (n div 2) i 0 p) = sum_list (words (n div 2) i p)" using unat_sum16 [of 0 "n div 2" i p] assms(2) by simp
  have b: "unat (p ! (i + n - 1)) < 256" using unsigned_less [of "p ! (i + n - 1)", where 'a = nat] by simp
  have c: "unat c = message_sum i n p"
    using message_sum_bound(1) [OF assms(2), of i p] b u by (simp add: c_def message_sum_def unat_add_lem [THEN iffD1] unat_odd_byte)
  have "unat c < 65536 * 65535" using message_sum_bound(2) [OF assms(2), of i p] by (simp add: c)
  then have f: "unat (0xffff AND NOT (c + drop_bit 16 c)) = folded (unat c)" by (rule unat_fold32)
  define d where "d = 0xffff AND NOT (c + drop_bit 16 c)"
  have "icmp_cksum i (int n) p = Ret (ucast (0xffff AND d))"
    using assms(1) ix unfolding icmp_cksum_def Let_def sc od c_def d_def by (auto simp: not_less dest: odd_pos)
  moreover have "unat (ucast (0xffff AND d) :: u16) = folded (message_sum i n p)"
    using f folded_le [of "unat c"] unfolding ucast_low d_def c by simp
  ultimately show ?thesis by blast
qed

lemma message_sum_put:
  assumes "4 \<le> n" and "i + n \<le> length p"
  shows "message_sum i n (put16 (i + 2) (htons w) p) = message_sum i n (put16 (i + 2) 0 p) + unat w"
proof -
  have "p' ! (i + n - 1) = p ! (i + n - 1)" if "p' = put16 (i + 2) v p" "odd n" for p' v
  proof -
    have "n \<noteq> 4" using that(2) by auto
    then show ?thesis using assms that by (auto simp: put16_def nth_set_field)
  qed
  moreover have "i + 2 * (n div 2) \<le> length p" "1 < n div 2" using assms by linarith+
  ultimately show ?thesis using sum_put_word [of i "n div 2" p 1 w] by (simp add: message_sum_def)
qed

lemma message_sum_frame:
  assumes "j + length bs \<le> i" and "i + n \<le> length p"
  shows "message_sum i n (set_field j bs p) = message_sum i n p"
proof -
  have "i + 2 * k + 2 \<le> length p" if "k < n div 2" for k using that assms(2) by linarith
  then have "words (n div 2) i (set_field j bs p) = words (n div 2) i p"
    using assms by (auto simp: words_def get16_def)
  moreover have "set_field j bs p ! (i + n - 1) = p ! (i + n - 1)" if "odd n"
    using assms odd_pos [OF that] by (auto simp: nth_set_field)
  ultimately show ?thesis by (auto simp: message_sum_def)
qed

lemma swap_put_same [simp]: "i + 2 \<le> length p \<Longrightarrow> swap16 i (put16 i w p) = put16 i (htons w) p"
  by (simp add: swap16_def put16_def get16_def)

lemma put_swap_same [simp]: "i + 2 \<le> length p \<Longrightarrow> put16 i w (swap16 i p) = put16 i w p"
  by (simp add: swap16_def put16_def)

lemma icmp_hton_fields:
  assumes "42 \<le> length p"
  shows "length (icmp_hton p) = length p" "get16 net_ethtype (icmp_hton p) = get16 net_ethtype p" "get8 net_ipvh (icmp_hton p) = get8 net_ipvh p"
    "get8 net_ipproto (icmp_hton p) = get8 net_ipproto p" "get16 net_iplen (icmp_hton p) = get16 net_iplen p" "get32 net_ipdst (icmp_hton p) = get32 net_ipdst p"
  using assms by (simp_all add: icmp_hton_def net_offsets get32_def)

lemma swap_put16:
  "i + 2 \<le> j \<or> j + 2 \<le> i \<Longrightarrow> i + 2 \<le> length p \<Longrightarrow> j + 2 \<le> length p \<Longrightarrow> swap16 j (put16 i w p) = put16 i w (swap16 j p)"
  by (simp add: put16_def swap_put)

lemma icmp_ntoh_sent:
  assumes "42 \<le> length p"
  shows "icmp_ntoh (put16 net_ipcksum h (put16 net_iccksum w (icmp_hton p))) = put16 net_ipcksum h (put16 net_iccksum (htons w) p)"
  using assms by (simp add: icmp_ntoh_def icmp_hton_def net_offsets swap_put16 swap_order)

lemma icmp_wire:
  assumes "uint (get16 net_iplen p) = IP_HDR_LEN + int n" and "8 \<le> n" and "net_ictype + n \<le> length p" and "get8 net_ipproto p = IP_ICMP"
  obtains c where "ip_wire p = Ret (eth_hton (sent_header (put16 net_iccksum (htons c) (icmp_hton p))))"
    "unat c = folded (message_sum net_ictype n (put16 net_iccksum 0 (icmp_hton p)))"
proof -
  let ?q = "put16 net_iccksum 0 (icmp_hton p)"
  have l: "42 \<le> length p" using assms by (simp add: net_offsets)
  have n: "n \<le> 65535" using assms(1) uint_bounded [of "get16 net_iplen p"] by (simp add: IP_HDR_LEN_def)
  have "net_ictype + n \<le> length ?q" using assms(3) l icmp_hton_fields [OF l] by (simp add: net_offsets)
  from icmp_cksum_folded [OF this n] obtain c where c: "icmp_cksum net_ictype (int n) ?q = Ret c" "unat c = folded (message_sum net_ictype n ?q)" by blast
  have "put16 net_iccksum (htons c) ?q = put16 net_iccksum (htons c) (icmp_hton p)"
    using l icmp_hton_fields [OF l] by (simp add: put16_def net_offsets)
  then have "ip_wire p = Ret (eth_hton (sent_header (put16 net_iccksum (htons c) (icmp_hton p))))"
    using assms(1,4) c(1) by (simp add: ip_wire_def Let_def sent_header_def IP_ICMP_def IP_UDP_def)
  then show ?thesis using c(2) that by blast
qed

lemma icmp_message_in:
  assumes "uint (get16 net_iplen p) = IP_HDR_LEN + int n" and "8 \<le> n" and "net_ictype + n \<le> length p" and "get8 net_ipproto p = IP_ICMP"
    and "get8 net_ipvh p = 0x45" and "ipvalid (NetData s)" and "get32 net_ipdst p = ipucast (NetData s)"
    and c: "unat c = folded (message_sum net_ictype n (put16 net_iccksum 0 (icmp_hton p)))"
  shows "\<exists>h t. ip_in a (upd_pkt a (\<lambda>_. sent_header (put16 net_iccksum (htons c) (icmp_hton p))) s) =
    (if carries_twice (message_sum net_ictype n (put16 net_iccksum 0 (icmp_hton p))) then n_free_ret a () (upd_pkt a (\<lambda>_. t) s)
     else icmp_in a (upd_pkt a (\<lambda>_. put16 net_ipcksum h (put16 net_iccksum c p)) s))"
proof -
  let ?q = "put16 net_iccksum 0 (icmp_hton p)" and ?m = "put16 net_iccksum (htons c) (icmp_hton p)"
  have l: "42 \<le> length p" using assms(2,3) by (simp add: net_offsets)
  note f = icmp_hton_fields [OF l]
  have m: "34 \<le> length ?m" "get8 net_ipvh ?m = 0x45" "get8 net_ipproto ?m = IP_ICMP" "get16 net_iplen ?m = get16 net_iplen p"
      "get32 net_ipdst ?m = get32 net_ipdst p" "length ?m = length p"
    using l f assms(4,5) by (simp_all add: net_offsets)
  obtain h where h: "ip_ntoh (sent_header ?m) = put16 net_ipcksum h ?m" using sent_header(4) [OF m(1,2)] by blast
  let ?r = "put16 net_ipcksum h ?m"
  have r: "get8 net_ipvh ?r = 0x45" "get8 net_ipproto ?r = IP_ICMP" "get16 net_iplen ?r = get16 net_iplen p" "get32 net_ipdst ?r = get32 net_ipdst p"
      "length ?r = length p"
    using m l by (simp_all add: net_offsets)
  have n: "n \<le> 65535" using assms(1) uint_bounded [of "get16 net_iplen p"] by (simp add: IP_HDR_LEN_def)
  have "net_ictype + n \<le> length ?r" using r(5) assms(3) by simp
  then obtain d where d: "icmp_cksum net_ictype (int n) ?r = Ret d" "unat d = folded (message_sum net_ictype n ?r)"
    using icmp_cksum_folded [OF _ n] by blast
  have "message_sum net_ictype n ?r = message_sum net_ictype n ?m"
    using assms(3) f(1) m(6) unfolding put16_def [of net_ipcksum] by (intro message_sum_frame) (simp_all add: net_offsets)
  also have "\<dots> = message_sum net_ictype n ?q + unat c"
    using message_sum_put [of n net_ictype "icmp_hton p" c] assms(2,3) f(1) by (simp add: net_offsets)
  finally have "unat d = (if carries_twice (message_sum net_ictype n ?q) then 65535 else 0)"
    unfolding d(2) c by (simp add: folded_again [OF message_sum_bound(2) [OF n]])
  then have d0: "d = 0 \<longleftrightarrow> \<not> carries_twice (message_sum net_ictype n ?q)" by (auto simp flip: unat_eq_zero)
  have i: "icmp_ntoh ?r = put16 net_ipcksum h (put16 net_iccksum c p)" using icmp_ntoh_sent [OF l, of h "htons c"] by simp
  have pr: "get8 net_ipproto (put16 net_ipcksum h (put16 net_iccksum c p)) = IP_ICMP" using l assms(4) by (simp add: net_offsets)
  have "ip_in a (upd_pkt a (\<lambda>_. sent_header ?m) s) =
    (if d \<noteq> 0 then n_free_ret a () (upd_pkt a (\<lambda>_. ?r) s) else icmp_in a (upd_pkt a (\<lambda>_. put16 net_ipcksum h (put16 net_iccksum c p)) s))"
    using sent_header(3) [OF m(1,2)] r assms(1,6,7) d(1)
    by (simp add: ip_in_def Let_def comp_def h i ip_local_def pr IP_ICMP_def IP_UDP_def split: if_split)
  then show ?thesis using d0 by (auto intro: exI [of _ h] exI [of _ ?r])
qed

text \<open>
  C12: An ICMP message that \<open>ip_out\<close> sends to another machine of this system reaches \<open>icmp_in\<close> there with every field and byte but the two checksums as it was, unless
  adding the carry of its checksum carries again. Then \<open>icmp_cksum\<close>, which adds the carry once only, does not accept its own checksum and \<open>ip_in\<close> drops the message.
\<close>

theorem icmp_over_the_wire:
  assumes "uint (get16 net_iplen p) = IP_HDR_LEN + int n" and "8 \<le> n" and "net_ictype + n \<le> length p" and "get8 net_ipproto p = IP_ICMP"
    and "get8 net_ipvh p = 0x45" and "get16 net_ethtype p = ETH_IP" and "ipvalid (NetData s)" and "get32 net_ipdst p = ipucast (NetData s)"
  shows "\<exists>q c h t. ip_wire p = Ret q \<and> netin_dispatch a (upd_pkt a (\<lambda>_. q) s) =
    (if carries_twice (message_sum net_ictype n (put16 net_iccksum 0 (icmp_hton p))) then n_free_ret a () (upd_pkt a (\<lambda>_. t) s)
     else icmp_in a (upd_pkt a (\<lambda>_. put16 net_ipcksum h (put16 net_iccksum c p)) s))"
proof -
  have l: "42 \<le> length p" using assms(2,3) by (simp add: net_offsets)
  obtain c where c: "ip_wire p = Ret (eth_hton (sent_header (put16 net_iccksum (htons c) (icmp_hton p))))"
      "unat c = folded (message_sum net_ictype n (put16 net_iccksum 0 (icmp_hton p)))"
    by (rule icmp_wire [OF assms(1-4)])
  have m: "34 \<le> length (put16 net_iccksum (htons c) (icmp_hton p))" "get16 net_ethtype (put16 net_iccksum (htons c) (icmp_hton p)) = ETH_IP"
      "get8 net_ipvh (put16 net_iccksum (htons c) (icmp_hton p)) = 0x45"
    using l icmp_hton_fields [OF l] assms(5,6) by (simp_all add: net_offsets)
  obtain h t where "ip_in a (upd_pkt a (\<lambda>_. sent_header (put16 net_iccksum (htons c) (icmp_hton p))) s) =
    (if carries_twice (message_sum net_ictype n (put16 net_iccksum 0 (icmp_hton p))) then n_free_ret a () (upd_pkt a (\<lambda>_. t) s)
     else icmp_in a (upd_pkt a (\<lambda>_. put16 net_ipcksum h (put16 net_iccksum c p)) s))"
    using icmp_message_in [OF assms(1-5,7,8) c(2), of a] by blast
  then show ?thesis using c(1) netin_ip [OF m, of a s] by metis
qed

section \<open>UDP datagrams\<close>

lemma udp_hton_fields:
  assumes "42 \<le> length p"
  shows "length (udp_hton p) = length p" "get16 net_ethtype (udp_hton p) = get16 net_ethtype p" "get8 net_ipvh (udp_hton p) = get8 net_ipvh p"
    "get8 net_ipproto (udp_hton p) = get8 net_ipproto p" "get32 net_ipdst (udp_hton p) = get32 net_ipdst p"
  using assms by (simp_all add: udp_hton_def net_offsets get32_def)

lemma udp_ntoh_sent:
  assumes "42 \<le> length p"
  shows "udp_ntoh (put16 net_ipcksum h (udp_hton p)) = put16 net_ipcksum h p"
  using assms by (simp add: udp_ntoh_def udp_hton_def net_offsets swap_put16 swap_order)

text \<open>The datagram arrives with its two checksum fields changed.\<close>

lemma udp_over_the_wire:
  assumes "42 \<le> length p" and "get8 net_ipproto p = IP_UDP" and "get8 net_ipvh p = 0x45" and "get16 net_ethtype p = ETH_IP"
    and "ipvalid (NetData s)" and "get32 net_ipdst p = ipucast (NetData s)"
  shows "\<exists>q h. ip_wire p = Ret q \<and> netin_dispatch a (upd_pkt a (\<lambda>_. q) s) = udp_in a (upd_pkt a (\<lambda>_. put16 net_ipcksum h (put16 net_udpcksum 0 p)) s)"
proof -
  let ?p = "put16 net_udpcksum 0 p"
  let ?m = "udp_hton ?p"
  have p: "42 \<le> length ?p" "get8 net_ipproto ?p = IP_UDP" "get8 net_ipvh ?p = 0x45" "get16 net_ethtype ?p = ETH_IP" "get32 net_ipdst ?p = ipucast (NetData s)"
    using assms by (simp_all add: net_offsets)
  note f = udp_hton_fields [OF p(1)]
  have m: "34 \<le> length ?m" "get16 net_ethtype ?m = ETH_IP" "get8 net_ipvh ?m = 0x45" using f p by simp_all
  obtain h where h: "ip_ntoh (sent_header ?m) = put16 net_ipcksum h ?m" using sent_header(4) [OF m(1,3)] by blast
  let ?r = "put16 net_ipcksum h ?m"
  have r: "get8 net_ipvh ?r = 0x45" "get8 net_ipproto ?r = IP_UDP" "get32 net_ipdst ?r = ipucast (NetData s)"
    using f p m by (simp_all add: net_offsets)
  have pr: "get8 net_ipproto (put16 net_ipcksum h ?p) = IP_UDP" using p by (simp add: net_offsets)
  have "ip_wire p = Ret (eth_hton (sent_header ?m))" using assms(2) by (simp add: ip_wire_def Let_def sent_header_def)
  moreover have "ip_in a (upd_pkt a (\<lambda>_. sent_header ?m) s) = udp_in a (upd_pkt a (\<lambda>_. put16 net_ipcksum h ?p) s)"
    using sent_header(3) [OF m(1,3)] r assms(5) by (simp add: ip_in_def Let_def comp_def h udp_ntoh_sent [OF p(1)] ip_local_def pr)
  ultimately show ?thesis using netin_ip [OF m, of a s] by metis
qed

lemma get_put_same [simp]:
  "i + 2 \<le> length p \<Longrightarrow> get16 i (put16 i w p) = w" "i + 4 \<le> length p \<Longrightarrow> get32 i (put32 i v p) = v" "i < length p \<Longrightarrow> get8 i (put8 i b p) = b"
  by (simp_all add: get16_def get32_def get8_def put16_def put32_def put8_def nth_set_field)

lemma get_set_other [simp]:
  "i + 2 \<le> j \<or> j + length bs \<le> i \<Longrightarrow> i + 2 \<le> length p \<Longrightarrow> j + length bs \<le> length p \<Longrightarrow> get16 i (set_field j bs p) = get16 i p"
  "i + 4 \<le> j \<or> j + length bs \<le> i \<Longrightarrow> i + 4 \<le> length p \<Longrightarrow> j + length bs \<le> length p \<Longrightarrow> get32 i (set_field j bs p) = get32 i p"
  "i < j \<or> j + length bs \<le> i \<Longrightarrow> i < length p \<Longrightarrow> j + length bs \<le> length p \<Longrightarrow> get8 i (set_field j bs p) = get8 i p"
  by (auto simp: get16_def get32_def get8_def nth_set_field)

lemma get_put8_32_other [simp]:
  "i + 2 \<le> j \<or> j + 4 \<le> i \<Longrightarrow> i + 2 \<le> length p \<Longrightarrow> j + 4 \<le> length p \<Longrightarrow> get16 i (put32 j w p) = get16 i p"
  "i + 4 \<le> j \<or> j + 4 \<le> i \<Longrightarrow> i + 4 \<le> length p \<Longrightarrow> j + 4 \<le> length p \<Longrightarrow> get32 i (put32 j w p) = get32 i p"
  "i < j \<or> j + 4 \<le> i \<Longrightarrow> i < length p \<Longrightarrow> j + 4 \<le> length p \<Longrightarrow> get8 i (put32 j w p) = get8 i p"
  "i + 2 \<le> j \<or> j < i \<Longrightarrow> i + 2 \<le> length p \<Longrightarrow> j < length p \<Longrightarrow> get16 i (put8 j b p) = get16 i p"
  "i + 4 \<le> j \<or> j < i \<Longrightarrow> i + 4 \<le> length p \<Longrightarrow> j < length p \<Longrightarrow> get32 i (put8 j b p) = get32 i p"
  "i \<noteq> j \<Longrightarrow> i < length p \<Longrightarrow> j < length p \<Longrightarrow> get8 i (put8 j b p) = get8 i p"
  "i + 4 \<le> length p \<Longrightarrow> length (put32 i w p) = length p" "i < length p \<Longrightarrow> length (put8 i b p) = length p"
  by (auto simp: put32_def put8_def get16_def get32_def get8_def nth_set_field)

text \<open>The same rules for packets of the full length, whose conditions are cheap.\<close>

definition full :: "packet \<Rightarrow> bool" where
  "full p \<longleftrightarrow> length p = 1514"

lemma full_put:
  "i + 2 \<le> 1514 \<Longrightarrow> full p \<Longrightarrow> full (put16 i w p)" "i + 4 \<le> 1514 \<Longrightarrow> full p \<Longrightarrow> full (put32 i v p)" "i < 1514 \<Longrightarrow> full p \<Longrightarrow> full (put8 i b p)"
  "i + length bs \<le> 1514 \<Longrightarrow> full p \<Longrightarrow> full (set_field i bs p)"
  by (simp_all add: full_def)

lemma full_get:
  "i + 2 \<le> 1514 \<Longrightarrow> full p \<Longrightarrow> get16 i (put16 i w p) = w" "i + 4 \<le> 1514 \<Longrightarrow> full p \<Longrightarrow> get32 i (put32 i v p) = v"
  "i < 1514 \<Longrightarrow> full p \<Longrightarrow> get8 i (put8 i b p) = b"
  "i + 2 \<le> j \<or> j + 2 \<le> i \<Longrightarrow> i + 2 \<le> 1514 \<and> j + 2 \<le> 1514 \<Longrightarrow> full p \<Longrightarrow> get16 i (put16 j w p) = get16 i p"
  "i + 4 \<le> j \<or> j + 2 \<le> i \<Longrightarrow> i + 4 \<le> 1514 \<and> j + 2 \<le> 1514 \<Longrightarrow> full p \<Longrightarrow> get32 i (put16 j w p) = get32 i p"
  "i < j \<or> j + 2 \<le> i \<Longrightarrow> i < 1514 \<and> j + 2 \<le> 1514 \<Longrightarrow> full p \<Longrightarrow> get8 i (put16 j w p) = get8 i p"
  "i + 2 \<le> j \<or> j + 4 \<le> i \<Longrightarrow> i + 2 \<le> 1514 \<and> j + 4 \<le> 1514 \<Longrightarrow> full p \<Longrightarrow> get16 i (put32 j v p) = get16 i p"
  "i + 4 \<le> j \<or> j + 4 \<le> i \<Longrightarrow> i + 4 \<le> 1514 \<and> j + 4 \<le> 1514 \<Longrightarrow> full p \<Longrightarrow> get32 i (put32 j v p) = get32 i p"
  "i < j \<or> j + 4 \<le> i \<Longrightarrow> i < 1514 \<and> j + 4 \<le> 1514 \<Longrightarrow> full p \<Longrightarrow> get8 i (put32 j v p) = get8 i p"
  "i + 2 \<le> j \<or> j < i \<Longrightarrow> i + 2 \<le> 1514 \<and> j < 1514 \<Longrightarrow> full p \<Longrightarrow> get16 i (put8 j b p) = get16 i p"
  "i + 4 \<le> j \<or> j < i \<Longrightarrow> i + 4 \<le> 1514 \<and> j < 1514 \<Longrightarrow> full p \<Longrightarrow> get32 i (put8 j b p) = get32 i p"
  "i \<noteq> j \<Longrightarrow> i < 1514 \<and> j < 1514 \<Longrightarrow> full p \<Longrightarrow> get8 i (put8 j b p) = get8 i p"
  "i + 2 \<le> j \<or> j + length bs \<le> i \<Longrightarrow> i + 2 \<le> 1514 \<and> j + length bs \<le> 1514 \<Longrightarrow> full p \<Longrightarrow> get16 i (set_field j bs p) = get16 i p"
  "i + 4 \<le> j \<or> j + length bs \<le> i \<Longrightarrow> i + 4 \<le> 1514 \<and> j + length bs \<le> 1514 \<Longrightarrow> full p \<Longrightarrow> get32 i (set_field j bs p) = get32 i p"
  "i < j \<or> j + length bs \<le> i \<Longrightarrow> i < 1514 \<and> j + length bs \<le> 1514 \<Longrightarrow> full p \<Longrightarrow> get8 i (set_field j bs p) = get8 i p"
  "i + length bs \<le> 1514 \<Longrightarrow> full p \<Longrightarrow> field i (length bs) (set_field i bs p) = bs"
  by (simp_all add: full_def)

lemmas slow_get = get_put_other get_put_same get_set_other get_put8_32_other put16_length length_set_field

text \<open>The bytes behind the headers do not matter for what \<open>ip_wire\<close> does to a datagram, so it sends the first bytes of the packet as it would send the whole of it.\<close>

lemma set_field_append: "i + length bs \<le> length x \<Longrightarrow> set_field i bs (x @ y) = set_field i bs x @ y"
  by (simp add: set_field_def)

lemma field_append: "i + n \<le> length x \<Longrightarrow> field i n (x @ y) = field i n x"
  by (simp add: field_def)

lemma put16_append: "i + 2 \<le> length x \<Longrightarrow> put16 i w (x @ y) = put16 i w x @ y"
  by (simp add: put16_def set_field_append)

lemma get16_append: "i + 2 \<le> length x \<Longrightarrow> get16 i (x @ y) = get16 i x"
  by (simp add: get16_def field_append)

lemma get8_append: "i < length x \<Longrightarrow> get8 i (x @ y) = get8 i x"
  by (simp add: get8_def nth_append)

lemma get32_append: "i + 4 \<le> length x \<Longrightarrow> get32 i (x @ y) = get32 i x"
  by (simp add: get32_def field_append)

lemma swap_append:
  "i + 2 \<le> length x \<Longrightarrow> swap16 i (x @ y) = swap16 i x @ y" "i + 4 \<le> length x \<Longrightarrow> swap32 i (x @ y) = swap32 i x @ y"
  by (simp_all add: swap16_def swap32_def put16_append put32_def set_field_append get16_append get32_append)

lemma ipcksum_append: "34 \<le> length x \<Longrightarrow> ipcksum (x @ y) = ipcksum x"
proof -
  have "sum16 n i c (x @ y) = sum16 n i c x" if "i + 2 * n \<le> length x" for n i c
    using that by (induction n arbitrary: i c) (simp_all add: get16_append)
  then show "34 \<le> length x \<Longrightarrow> ipcksum (x @ y) = ipcksum x" by (simp add: ipcksum_def net_offsets)
qed

lemma ip_wire_udp_append:
  assumes "42 \<le> length x" and "get8 net_ipproto x = IP_UDP"
  shows "\<exists>r. length r = length x \<and> (\<forall>y. ip_wire (x @ y) = Ret (r @ y))"
proof -
  define h where "h = put16 net_ipcksum 0 (ip_hton (udp_hton (put16 net_udpcksum 0 x)))"
  have l: "length h = length x" "34 \<le> length h" using assms(1) by (simp_all add: h_def ip_hton_def udp_hton_def net_offsets)
  have w: "ip_wire (x @ y) = Ret (eth_hton (put16 net_ipcksum (0xffff AND htons (ipcksum h)) h) @ y)" for y
  proof -
    have "put16 net_ipcksum 0 (ip_hton (udp_hton (put16 net_udpcksum 0 (x @ y)))) = h @ y"
      using assms(1) by (simp add: h_def ip_hton_def udp_hton_def net_offsets put16_append swap_append)
    then show ?thesis
      using assms l by (simp add: ip_wire_def Let_def get8_append net_offsets put16_append ipcksum_append eth_hton_def swap_append)
  qed
  then show ?thesis using l by (intro exI [of _ "eth_hton (put16 net_ipcksum (0xffff AND htons (ipcksum h)) h)"]) (simp add: eth_hton_def net_offsets)
qed

lemma ip_wire_frame:
  assumes "ip_wire p = Ret q" and "get8 net_ipproto p = IP_UDP" and "42 \<le> n" and "n \<le> length p"
  shows "ip_wire (take n p @ pad) = Ret (take n q @ pad)"
proof -
  have l: "42 \<le> length (take n p)" "get8 net_ipproto (take n p) = IP_UDP" using assms(2-4) by (simp_all add: get8_def net_offsets)
  from ip_wire_udp_append [OF this] obtain r where r: "length r = length (take n p)" "\<And>y. ip_wire (take n p @ y) = Ret (r @ y)" by blast
  then have "r @ drop n p = q" using assms(1) r(2) [of "drop n p"] by simp
  then have "take n q = r" using r(1) assms(4) by (auto simp: min_def)
  then show ?thesis using r(2) by simp
qed

text \<open>What \<open>udp_send\<close> writes into a packet.\<close>

definition udp_header :: "u16 \<Rightarrow> u32 \<Rightarrow> u16 \<Rightarrow> u16 \<Rightarrow> nat \<Rightarrow> network \<Rightarrow> packet \<Rightarrow> packet" where
  "udp_header ident remip remport locport n nd p0 =
    put16 net_udpcksum 0 (put16 net_udplen (word_of_int (8 + int n)) (put16 net_udpdport remport (put16 net_udpsport locport
    (put32 net_ipdst remip (put32 net_ipsrc (ipucast nd) (put16 net_ipcksum 0 (put8 net_ipproto IP_UDP (put8 net_ipttl 0xff (put16 net_ipfrag 0 (put16 net_ipid ident
    (put16 net_iplen (word_of_int (28 + int n)) (put8 net_iptos 0 (put8 net_ipvh 0x45 (put16 net_ethtype 0x0800 (set_field net_ethsrc (ethucast nd) p0)))))))))))))))"

lemma udp_packet_eq:
  assumes "length p0 = PACKLEN" and "length (ethucast nd) = 6"
  shows "full (udp_header ident remip remport locport n nd p0)"
    "udp_packet ident remip remport locport bts (int (length bts)) nd p0 =
      (if length bts \<le> 1472 then Ret (set_field net_udpdata bts (udp_header ident remip remport locport (length bts) nd p0)) else Fault)"
proof -
  have f0: "full p0" using assms(1) by (simp add: full_def PACKLEN_def)
  have f: "full (udp_header ident remip remport locport n nd p0)" for n unfolding udp_header_def net_offsets by (intro full_put) (simp_all add: f0 assms(2))
  then show "full (udp_header ident remip remport locport n nd p0)" .
  have "udp_packet ident remip remport locport bts (int (length bts)) nd p0 =
      (if net_udpdata + length bts > length (udp_header ident remip remport locport (length bts) nd p0) then Fault
       else Ret (set_field net_udpdata bts (udp_header ident remip remport locport (length bts) nd p0)))"
    unfolding udp_packet_def Let_def udp_header_def UDP_HDR_LEN_def ETH_HDR_LEN_def net_udpdata_def by (simp del: slow_get add: add.commute)
  then show "udp_packet ident remip remport locport bts (int (length bts)) nd p0 =
      (if length bts \<le> 1472 then Ret (set_field net_udpdata bts (udp_header ident remip remport locport (length bts) nd p0)) else Fault)"
    using f [of "length bts"] by (auto simp: full_def net_offsets)
qed

lemma udp_packet_fields:
  assumes "udp_packet ident remip remport locport bts (int (length bts)) nd p0 = Ret p" and "length p0 = PACKLEN" and "length (ethucast nd) = 6"
  shows "length p = PACKLEN" "length bts \<le> 1472" "get8 net_ipproto p = IP_UDP" "get8 net_ipvh p = 0x45" "get16 net_ethtype p = ETH_IP" "get32 net_ipdst p = remip"
    "get32 net_ipsrc p = ipucast nd" "get16 net_udpsport p = locport" "get16 net_udpdport p = remport" "get16 net_udplen p = word_of_int (8 + int (length bts))"
    "field net_udpdata (length bts) p = bts" "get16 net_iplen p = word_of_int (28 + int (length bts))"
proof -
  define h where "h = udp_header ident remip remport locport (length bts) nd p0"
  have h: "full h" unfolding h_def by (rule udp_packet_eq [OF assms(2,3)])
  have p: "p = set_field net_udpdata bts h" "length bts \<le> 1472"
    using assms(1) unfolding udp_packet_eq(2) [OF assms(2,3)] h_def by (auto split: if_splits)
  show "length bts \<le> 1472" by fact
  have "full p" unfolding p using h p(2) by (intro full_put) (simp_all add: net_offsets)
  then show "length p = PACKLEN" by (simp add: full_def PACKLEN_def)
  have fs: "full (set_field net_ethsrc (ethucast nd) p0)" using assms(2,3) by (simp add: full_def net_offsets PACKLEN_def)
  have hf: "get8 net_ipproto h = IP_UDP" "get8 net_ipvh h = 0x45" "get16 net_ethtype h = ETH_IP" "get32 net_ipdst h = remip"
    "get32 net_ipsrc h = ipucast nd" "get16 net_udpsport h = locport" "get16 net_udpdport h = remport" "get16 net_udplen h = word_of_int (8 + int (length bts))"
    "get16 net_iplen h = word_of_int (28 + int (length bts))"
    unfolding h_def udp_header_def ETH_IP_def net_offsets by (simp_all del: slow_get add: full_get full_put fs [unfolded net_offsets])
  show "get8 net_ipproto p = IP_UDP" "get8 net_ipvh p = 0x45" "get16 net_ethtype p = ETH_IP" "get32 net_ipdst p = remip"
    "get32 net_ipsrc p = ipucast nd" "get16 net_udpsport p = locport" "get16 net_udpdport p = remport" "get16 net_udplen p = word_of_int (8 + int (length bts))"
    "field net_udpdata (length bts) p = bts" "get16 net_iplen p = word_of_int (28 + int (length bts))"
    unfolding p(1) using hf h p(2) by (simp_all del: slow_get add: net_offsets full_get)
qed

section \<open>The queue of an endpoint\<close>

definition ring :: "'a list \<Rightarrow> nat \<Rightarrow> nat \<Rightarrow> 'a list" where
  "ring q h c = map (\<lambda>k. q ! ((h + k) mod length q)) [0..<c]"

lemma ring_place: "k < c \<Longrightarrow> c < n \<Longrightarrow> (h + k) mod n \<noteq> (h + c) mod n" for n :: nat
proof
  assume "k < c" "c < n" "(h + k) mod n = (h + c) mod n"
  then have "n dvd (h + c) - (h + k)" by (metis mod_eq_dvd_iff_nat add_le_cancel_left less_imp_le)
  with \<open>k < c\<close> \<open>c < n\<close> show False by (auto dest: dvd_imp_le)
qed

lemma ring_push: "c < length q \<Longrightarrow> ring (q[(h + c) mod length q := a]) h (Suc c) = ring q h c @ [a]"
proof -
  assume c: "c < length q"
  then have "0 < length q" by linarith
  then have "(h + c) mod length q < length q" by (rule mod_less_divisor)
  then have "q[(h + c) mod length q := a] ! ((h + c) mod length q) = a" by (rule nth_list_update_eq)
  moreover have "(h + c) mod length q \<noteq> (h + k) mod length q" if "k < c" for k using ring_place [OF that c, of h] by simp
  ultimately show ?thesis by (simp add: ring_def)
qed

lemma wrap_next: "0 \<le> x \<Longrightarrow> x < 8 \<Longrightarrow> (if x + 1 \<ge> UDP_QSIZ then 0 else x + 1) = (x + 1) mod 8"
  by (cases "x = 7") (auto simp: UDP_QSIZ_def)

lemma ring_pop: "c \<le> length q \<Longrightarrow> h < length q \<Longrightarrow> ring q h (Suc c) = q ! h # ring q (Suc h mod length q) c"
  by (simp add: ring_def upt_conv_Cons map_Suc_upt [symmetric] mod_add_left_eq del: upt_Suc)

definition udp_wf :: "udpentry \<Rightarrow> bool" where
  "udp_wf e \<longleftrightarrow> int (length (udqueue e)) = UDP_QSIZ \<and> 0 \<le> udhead e \<and> udhead e < UDP_QSIZ \<and> 0 \<le> udcount e \<and> udcount e \<le> UDP_QSIZ \<and>
    udtail e = (udhead e + udcount e) mod UDP_QSIZ"

definition udp_waiting :: "udpentry \<Rightarrow> addr list" where
  "udp_waiting e = ring (udqueue e) (nat (udhead e)) (nat (udcount e))"

lemma udp_deposit_queue:
  assumes "udp_wf (udptab s i)" and "udcount (udptab s i) < UDP_QSIZ"
  shows "\<exists>e. udp_wf e \<and> udstate e = udstate (udptab s i) \<and> udpid e = udpid (udptab s i) \<and> udp_waiting e = udp_waiting (udptab s i) @ [a] \<and> udp_deposit i a s =
    (if udstate (udptab s i) = EP_RECV then n_send (udpid e) (upd_udp i (\<lambda>_. e\<lparr>udstate := EP_USED\<rparr>) s) else nret () (upd_udp i (\<lambda>_. e) s))"
proof -
  let ?e = "udptab s i"
  let ?t = "if udtail ?e + 1 \<ge> UDP_QSIZ then 0 else udtail ?e + 1" and ?q = "(udqueue ?e)[nat (udtail ?e) := a]"
  let ?n = "?e\<lparr>udcount := udcount ?e + 1, udqueue := ?q, udtail := ?t\<rparr>"
  have l: "length (udqueue ?e) = 8" and h: "0 \<le> udhead ?e" "udhead ?e < 8" and c: "0 \<le> udcount ?e" "udcount ?e < 8"
    and t: "udtail ?e = (udhead ?e + udcount ?e) mod 8"
    using assms by (simp_all add: udp_wf_def UDP_QSIZ_def)
  have t8: "0 \<le> udtail ?e" "udtail ?e < 8" unfolding t by simp_all
  have tn: "nat (udtail ?e) = (nat (udhead ?e) + nat (udcount ?e)) mod 8" unfolding t using h c by (simp add: nat_mod_distrib nat_add_distrib)
  have t1: "?t = (udhead ?e + (udcount ?e + 1)) mod 8"
  proof -
    have "(udhead ?e + (udcount ?e + 1)) mod 8 = (udtail ?e + 1) mod 8" unfolding t by (simp add: mod_add_left_eq add.assoc [symmetric])
    then show ?thesis using wrap_next [OF t8] by (simp only:)
  qed
  have "udp_wf ?n" using l h c t1 by (simp add: udp_wf_def UDP_QSIZ_def)
  moreover have "udp_waiting ?n = udp_waiting ?e @ [a]"
    using ring_push [of "nat (udcount ?e)" "udqueue ?e" "nat (udhead ?e)" a] c l by (simp add: udp_waiting_def tn Suc_nat_eq_nat_zadd1 add.commute)
  moreover have "aset (udqueue ?e) (udtail ?e) a = Ret ?q" using t8 l by (simp add: aset_def)
  ultimately show ?thesis by (intro exI [of _ ?n]) (simp add: udp_deposit_def Let_def upd_udp_def)
qed

lemma udp_dequeue_queue:
  assumes "udp_wf (udptab s i)" and "udp_waiting (udptab s i) = a # as"
  shows "\<exists>e. udp_wf e \<and> udp_waiting e = as \<and> udstate e = udstate (udptab s i) \<and> udp_dequeue i s = Ret (a, upd_udp i (\<lambda>_. e) s)"
proof -
  let ?e = "udptab s i"
  let ?h = "if udhead ?e + 1 \<ge> UDP_QSIZ then 0 else udhead ?e + 1"
  let ?n = "?e\<lparr>udhead := ?h, udcount := udcount ?e - 1\<rparr>"
  have l: "length (udqueue ?e) = 8" and h: "0 \<le> udhead ?e" "udhead ?e < 8" and c: "0 \<le> udcount ?e" "udcount ?e \<le> 8"
    and t: "udtail ?e = (udhead ?e + udcount ?e) mod 8"
    using assms by (simp_all add: udp_wf_def UDP_QSIZ_def)
  have "udcount ?e \<noteq> 0" using assms(2) by (auto simp: udp_waiting_def ring_def)
  then obtain m where m: "nat (udcount ?e) = Suc m" "udcount ?e = int m + 1" using c by (metis add.commute int_nat_eq nat_0_iff not0_implies_Suc of_nat_Suc order_antisym)
  have h1: "?h = (udhead ?e + 1) mod 8" by (rule wrap_next [OF h])
  have hn: "nat ?h = Suc (nat (udhead ?e)) mod 8" unfolding h1 using h by (simp add: nat_mod_distrib nat_add_distrib)
  have r: "udqueue ?e ! nat (udhead ?e) # ring (udqueue ?e) (Suc (nat (udhead ?e)) mod 8) m = a # as"
    using ring_pop [of m "udqueue ?e" "nat (udhead ?e)"] assms(2) l h c m by (simp add: udp_waiting_def)
  have "udp_wf ?n" using l h c t m h1 by (simp add: udp_wf_def UDP_QSIZ_def mod_add_right_eq algebra_simps)
  moreover have "udp_waiting ?n = as" using r m hn by (simp add: udp_waiting_def)
  moreover have "aget (udqueue ?e) (udhead ?e) = Ret a" using r h l by (simp add: aget_def)
  ultimately show ?thesis by (intro exI [of _ ?n]) (simp add: udp_dequeue_def Let_def upd_udp_def)
qed

lemma udp_register_queue:
  assumes "udp_register remip remport locport s = (i, s')" and "i \<noteq> SYSERR" and "\<And>j. 0 \<le> j \<Longrightarrow> j < UDP_SLOTS \<Longrightarrow> int (length (udqueue (udptab s j))) = UDP_QSIZ"
  shows "0 \<le> i \<and> i < UDP_SLOTS \<and> udstate (udptab s i) = EP_FREE \<and> udstate (udptab s' i) = EP_USED \<and> udp_wf (udptab s' i) \<and> udp_waiting (udptab s' i) = []"
proof -
  obtain j where j: "find (\<lambda>i. udstate (udptab s i) = EP_FREE) [0..UDP_SLOTS - 1] = Some j" "i = j"
      "s' = upd_udp j (\<lambda>e. e\<lparr>udlocport := locport, udremport := remport, udremip := remip, udcount := 0, udhead := 0, udtail := 0, udpid := -1, udstate := EP_USED\<rparr>) s"
    using assms(1,2) by (auto simp: udp_register_def split: if_splits option.splits)
  then have "0 \<le> j" "j < UDP_SLOTS" "udstate (udptab s j) = EP_FREE" by (auto simp: find_Some_iff set_conv_nth dest: nth_mem)
  then show ?thesis using j(2,3) assms(3) [of j] by (simp add: upd_udp_def udp_wf_def udp_waiting_def ring_def UDP_QSIZ_def)
qed

section \<open>From \<open>udp_send\<close> to \<open>udp_recv\<close>\<close>

lemma udp_in_finds:
  assumes "0 \<le> i" "i < UDP_SLOTS" "udstate (udptab s i) \<noteq> EP_FREE" "udp_match (udptab s i) (pkts s a)" "udcount (udptab s i) < UDP_QSIZ"
    and "\<And>j. 0 \<le> j \<Longrightarrow> j < i \<Longrightarrow> udstate (udptab s j) = EP_FREE \<or> \<not> udp_match (udptab s j) (pkts s a)"
  shows "udp_in a s = udp_deposit i a s"
proof -
  have "udp_in_loop n j a s = udp_deposit i a s" if "int n = UDP_SLOTS - j" "0 \<le> j" "j \<le> i" for n j
    using that
  proof (induction n arbitrary: j)
    case 0
    then show ?case using assms(2) by simp
  next
    case (Suc n)
    show ?case
    proof (cases "j = i")
      case True
      then show ?thesis using assms(3-5) by (simp add: Let_def)
    next
      case False
      then have "j < i" using Suc.prems by simp
      then show ?thesis using assms(6) [of j] Suc by (auto simp: Let_def)
    qed
  qed
  then show ?thesis using assms(1,2) by (simp add: udp_in_def)
qed

definition udp_message :: "packet \<Rightarrow> u8 list \<times> u32 \<times> u16" where
  "udp_message p = (field net_udpdata (nat (uint (get16 net_udplen p) - UDP_HDR_LEN)) p, get32 net_ipsrc p, get16 net_udpsport p)"

text \<open>The endpoint that a datagram for a port reaches, when it has room; a process may be blocked in it (\<open>EP_RECV\<close>).\<close>

definition udp_listener :: "int \<Rightarrow> u16 \<Rightarrow> u32 \<Rightarrow> u16 \<Rightarrow> net \<Rightarrow> bool" where
  "udp_listener i port srcip srcport s \<longleftrightarrow> 0 \<le> i \<and> i < UDP_SLOTS \<and> udstate (udptab s i) \<noteq> EP_FREE \<and> udp_wf (udptab s i) \<and> udcount (udptab s i) < UDP_QSIZ \<and>
    udlocport (udptab s i) = port \<and> udremport (udptab s i) \<in> {0, srcport} \<and> udremip (udptab s i) \<in> {0, srcip} \<and>
    list_all (\<lambda>j. udstate (udptab s j) = EP_FREE \<or> udlocport (udptab s j) \<noteq> port) [0..i - 1]"

text \<open>A packet \<open>p\<close> from \<open>udp_packet\<close> with the Ethernet address of the next hop, its first bytes sent, and read into a buffer with \<open>pad\<close> behind them.\<close>

lemma udp_sent_fields:
  assumes "udp_packet ident remip port srcport bts (int (length bts)) nd p0 = Ret p" and "length p0 = PACKLEN" and "length (ethucast nd) = 6"
    and "length mac = 6" and "length pad = PACKLEN - (42 + length bts)"
  defines "f \<equiv> take (42 + length bts) (set_field net_ethdst mac p) @ pad"
  shows "length f = PACKLEN" "get8 net_ipproto f = IP_UDP" "get8 net_ipvh f = 0x45" "get16 net_ethtype f = ETH_IP" "get32 net_ipdst f = remip"
    "get32 net_ipsrc f = ipucast nd" "get16 net_udpsport f = srcport" "get16 net_udpdport f = port" "get16 net_udplen f = word_of_int (8 + int (length bts))"
    "field net_udpdata (length bts) f = bts"
proof -
  note g = udp_packet_fields [OF assms(1-3)]
  define x where "x = set_field net_ethdst mac p"
  have f: "f = take (42 + length bts) x @ pad" by (simp add: f_def x_def)
  have fp: "full p" using g(1) by (simp add: full_def PACKLEN_def)
  then have lx: "length x = 1514" using assms(4) by (simp add: x_def full_def net_offsets)
  have t: "length (take (42 + length bts) x) = 42 + length bts" using lx g(2) by simp
  show "length f = PACKLEN" using t assms(5) g(2) by (simp add: f PACKLEN_def)
  have g16: "get16 i f = get16 i x" if "i + 2 \<le> 42" for i
    using that lx g(2) unfolding f by (subst get16_append) (simp_all add: get16_def field_def take_drop min_def)
  have g32: "get32 i f = get32 i x" if "i + 4 \<le> 42" for i
    using that lx g(2) unfolding f by (subst get32_append) (simp_all add: get32_def field_def take_drop min_def)
  have g8: "get8 i f = get8 i x" if "i < 42" for i
    using that lx g(2) unfolding f by (subst get8_append) (simp_all add: get8_def)
  have d: "field net_udpdata (length bts) f = field net_udpdata (length bts) x"
    using t unfolding f by (subst field_append) (simp_all add: net_offsets field_def drop_take)
  have x: "get8 net_ipproto x = IP_UDP" "get8 net_ipvh x = 0x45" "get16 net_ethtype x = ETH_IP" "get32 net_ipdst x = remip"
    "get32 net_ipsrc x = ipucast nd" "get16 net_udpsport x = srcport" "get16 net_udpdport x = port" "get16 net_udplen x = word_of_int (8 + int (length bts))"
    using g(3-10) assms(4) fp unfolding x_def by (simp_all del: slow_get add: net_offsets full_get)
  have "field net_udpdata (length bts) x = bts"
    using g(2,11) assms(4) fp unfolding x_def by (simp add: net_offsets full_def)
  then show "field net_udpdata (length bts) f = bts" by (simp only: d)
  show "get8 net_ipproto f = IP_UDP" "get8 net_ipvh f = 0x45" "get16 net_ethtype f = ETH_IP" "get32 net_ipdst f = remip"
    "get32 net_ipsrc f = ipucast nd" "get16 net_udpsport f = srcport" "get16 net_udpdport f = port" "get16 net_udplen f = word_of_int (8 + int (length bts))"
    using x by (simp_all add: g8 g16 g32 net_offsets)
qed

lemma udp_ip_out:
  assumes "udp_packet ident remip port srcport bts (int (length bts)) nd p0 = Ret p" and "length p0 = PACKLEN" and "length (ethucast nd) = 6"
    and "length mac = 6" and "pkts sb b = set_field net_ethdst mac p"
  obtains q where "ip_wire (set_field net_ethdst mac p) = Ret q"
    "ip_out b sb = nseq (n_write q (int (42 + length bts)) (upd_pkt b (\<lambda>_. q) sb)) (\<lambda>retval. n_free_ret b (if retval = SYSERR then SYSERR else OK))"
    "\<And>pad. ip_wire (take (42 + length bts) (set_field net_ethdst mac p) @ pad) = Ret (take (42 + length bts) q @ pad)"
proof -
  note g = udp_packet_fields [OF assms(1-3)]
  let ?x = "set_field net_ethdst mac p"
  have fp: "full p" using g(1) by (simp add: full_def PACKLEN_def)
  have x: "42 \<le> length ?x" "length ?x = 1514" "get8 net_ipproto ?x = IP_UDP" "get16 net_iplen ?x = word_of_int (28 + int (length bts))"
    using g(3,12) assms(4) fp by (simp_all del: slow_get add: net_offsets full_get) (use fp assms(4) in \<open>simp_all add: full_def\<close>)
  from ip_wire_udp_append [OF x(1,3)] obtain q where q: "ip_wire ?x = Ret q" by (metis append_Nil2)
  have "uint (get16 net_iplen ?x) + ETH_HDR_LEN = int (42 + length bts)"
    unfolding x(4) uint_word_of_int ETH_HDR_LEN_def using g(2) by simp
  then have "ip_out b sb = nseq (n_write q (int (42 + length bts)) (upd_pkt b (\<lambda>_. q) sb)) (\<lambda>retval. n_free_ret b (if retval = SYSERR then SYSERR else OK))"
    by (simp add: ip_out_def Let_def assms(5) q)
  moreover have "ip_wire (take (42 + length bts) ?x @ pad) = Ret (take (42 + length bts) q @ pad)" for pad
    by (rule ip_wire_frame [OF q x(3)]) (use x(2) g(2) in simp_all)
  ultimately show ?thesis using q that by blast
qed

definition udp_wake :: "int \<Rightarrow> net \<Rightarrow> net \<Rightarrow> (unit option \<times> net) result" where
  "udp_wake i s s' = (if udstate (udptab s i) = EP_RECV then n_send (udpid (udptab s i)) s' else nret () s')"

lemma udp_delivered:
  assumes f: "42 \<le> length f" "get8 net_ipproto f = IP_UDP" "get8 net_ipvh f = 0x45" "get16 net_ethtype f = ETH_IP" "get32 net_ipdst f = ipucast (NetData s)"
      "get32 net_ipsrc f = srcip" "get16 net_udpsport f = srcport" "get16 net_udpdport f = port" "get16 net_udplen f = word_of_int (8 + int (length bts))"
      "field net_udpdata (length bts) f = bts" "length f = PACKLEN"
    and b: "length bts \<le> 1472" and w: "ip_wire f = Ret q"
    and l: "udp_listener i port srcip srcport s" "ipvalid (NetData s)"
  obtains e m where "netin_dispatch a (upd_pkt a (\<lambda>_. q) s) = udp_wake i s (upd_udp i (\<lambda>_. e) (upd_pkt a (\<lambda>_. m) s))"
    "udp_wf e" "udp_waiting e = udp_waiting (udptab s i) @ [a]" "udp_message m = (bts, srcip, srcport)" "length m = PACKLEN"
    "get16 net_udplen m = word_of_int (8 + int (length bts))" "udstate e = EP_USED"
proof -
  obtain h where q: "netin_dispatch a (upd_pkt a (\<lambda>_. q) s) = udp_in a (upd_pkt a (\<lambda>_. put16 net_ipcksum h (put16 net_udpcksum 0 f)) s)"
    using udp_over_the_wire [OF f(1-4) l(2) f(5), of a] w by auto
  let ?m = "put16 net_ipcksum h (put16 net_udpcksum 0 f)"
  let ?s = "upd_pkt a (\<lambda>_. ?m) s"
  have m: "length ?m = PACKLEN" "get32 net_ipsrc ?m = srcip" "get16 net_udpsport ?m = srcport" "get16 net_udpdport ?m = port"
      "get16 net_udplen ?m = word_of_int (8 + int (length bts))"
    using f(6-9,11) by (simp_all add: net_offsets PACKLEN_def)
  have bd: "field net_udpdata (length bts) ?m = bts"
    using f(10,11) b by (simp add: net_offsets PACKLEN_def put16_def)
  have ul: "uint (get16 net_udplen ?m) - UDP_HDR_LEN = int (length bts)"
    unfolding m(5) uint_word_of_int UDP_HDR_LEN_def using b by simp
  have dep: "udp_in a ?s = udp_deposit i a ?s"
    using l(1) m by (intro udp_in_finds) (auto simp: udp_listener_def udp_match_def list_all_iff)
  obtain e where e: "udp_wf e" "udstate e = udstate (udptab s i)" "udpid e = udpid (udptab s i)" "udp_waiting e = udp_waiting (udptab s i) @ [a]"
      "udp_deposit i a ?s = (if udstate (udptab s i) = EP_RECV then n_send (udpid e) (upd_udp i (\<lambda>_. e\<lparr>udstate := EP_USED\<rparr>) ?s) else nret () (upd_udp i (\<lambda>_. e) ?s))"
    using udp_deposit_queue [of ?s i a] l(1) by (auto simp: udp_listener_def)
  have "e\<lparr>udstate := EP_USED\<rparr> = e" if "udstate (udptab s i) \<noteq> EP_RECV"
    using that e(2) l(1) by (cases "udstate e"; cases e) (auto simp: udp_listener_def)
  then have "udp_deposit i a ?s = udp_wake i s (upd_udp i (\<lambda>_. e\<lparr>udstate := EP_USED\<rparr>) ?s)"
    using e(3,5) by (simp add: udp_wake_def)
  moreover have "udp_wf (e\<lparr>udstate := EP_USED\<rparr>)" "udp_waiting (e\<lparr>udstate := EP_USED\<rparr>) = udp_waiting (udptab s i) @ [a]"
    using e(1,4) by (simp_all add: udp_wf_def udp_waiting_def)
  moreover have "udp_message ?m = (bts, srcip, srcport)" using ul bd m by (simp add: udp_message_def)
  ultimately show ?thesis using that [of "e\<lparr>udstate := EP_USED\<rparr>" ?m] q m(1,5) dep by simp
qed

text \<open>
  C9: A datagram that \<open>udp_send\<close> or \<open>udp_sendto\<close> builds, with the Ethernet address of the next hop stored in it, is written by \<open>ip_out\<close> to the network with the length of its
  headers and data. When these bytes, with anything behind them in the buffer, come in on a machine where an endpoint with room listens on its port, the packet is put behind the packets that
  wait there, and a process that is blocked in the endpoint gets the message that wakes it up. The receiver finds the data, the address and the port of the sender as they were given,
  and, when no packet was waiting before, what the process woken up does (\<open>udp_take\<close>) and a call of \<open>udp_recvaddr\<close> return them at once, with at most as many bytes as the caller has room for.
\<close>

theorem udp_delivery:
  assumes "udp_packet ident (ipucast (NetData s)) port srcport bts (int (length bts)) nd p0 = Ret p" and "length p0 = PACKLEN" and "length (ethucast nd) = 6"
    and "length mac = 6" and "pkts sb b = set_field net_ethdst mac p" and "length pad = PACKLEN - (42 + length bts)"
    and "udp_listener i port (ipucast nd) srcport s" and "ipvalid (NetData s)" and "0 \<le> room"
  shows "\<exists>q s'. ip_out b sb = nseq (n_write q (int (42 + length bts)) (upd_pkt b (\<lambda>_. q) sb)) (\<lambda>retval. n_free_ret b (if retval = SYSERR then SYSERR else OK)) \<and>
    netin_dispatch a (upd_pkt a (\<lambda>_. take (42 + length bts) q @ pad) s) =
      (if udstate (udptab s i) = EP_RECV then n_send (udpid (udptab s i)) s' else nret () s') \<and>
    udstate (udptab s' i) = EP_USED \<and> udp_waiting (udptab s' i) = udp_waiting (udptab s i) @ [a] \<and> udp_message (pkts s' a) = (bts, ipucast nd, srcport) \<and>
    (udp_waiting (udptab s i) \<noteq> [] \<or>
      (\<exists>s''. udp_waiting (udptab s'' i) = [] \<and> udp_recvaddr i room timeout s' = udp_take i room s' \<and>
        udp_take i room s' = n_free_ret a (min room (int (length bts)), take (nat room) bts, ipucast nd, srcport) s''))"
proof -
  note sf = udp_sent_fields [OF assms(1-4,6)]
  have b: "length bts \<le> 1472" by (rule udp_packet_fields(2) [OF assms(1-3)])
  obtain q where q: "ip_out b sb = nseq (n_write q (int (42 + length bts)) (upd_pkt b (\<lambda>_. q) sb)) (\<lambda>retval. n_free_ret b (if retval = SYSERR then SYSERR else OK))"
      "ip_wire (take (42 + length bts) (set_field net_ethdst mac p) @ pad) = Ret (take (42 + length bts) q @ pad)"
    using udp_ip_out [OF assms(1-5)] by metis
  have "42 \<le> length (take (42 + length bts) (set_field net_ethdst mac p) @ pad)" using sf(1) by (simp add: PACKLEN_def)
  from udp_delivered [OF this sf(2-10,1) b q(2) assms(7,8)] obtain e m where
    d: "netin_dispatch a (upd_pkt a (\<lambda>_. take (42 + length bts) q @ pad) s) = udp_wake i s (upd_udp i (\<lambda>_. e) (upd_pkt a (\<lambda>_. m) s))"
      "udp_wf e" "udp_waiting e = udp_waiting (udptab s i) @ [a]" "udp_message m = (bts, ipucast nd, srcport)" "length m = PACKLEN"
      "get16 net_udplen m = word_of_int (8 + int (length bts))" "udstate e = EP_USED"
    by metis
  let ?s = "upd_udp i (\<lambda>_. e) (upd_pkt a (\<lambda>_. m) s)"
  have ul: "uint (get16 net_udplen m) - UDP_HDR_LEN = int (length bts)"
    unfolding d(6) uint_word_of_int UDP_HDR_LEN_def using b by simp
  have e: "udptab ?s i = e" "pkts ?s a = m" by (simp_all add: upd_udp_def)
  have t: "\<exists>s''. udp_waiting (udptab s'' i) = [] \<and> udp_recvaddr i room timeout ?s = udp_take i room ?s \<and>
      udp_take i room ?s = n_free_ret a (min room (int (length bts)), take (nat room) bts, ipucast nd, srcport) s''"
    if w: "udp_waiting (udptab s i) = []"
  proof -
    obtain e' where e': "udp_wf e'" "udp_waiting e' = []" "udp_dequeue i ?s = Ret (a, upd_udp i (\<lambda>_. e') ?s)"
      using udp_dequeue_queue [of ?s i a "[]"] d(2,3) w e(1) by auto
    let ?t = "upd_udp i (\<lambda>_. e') ?s"
    have t: "pkts ?t a = m" "udptab ?t i = e'" by (simp_all add: upd_udp_def)
    have c: "udcount e \<noteq> 0" "0 \<le> i" "i < UDP_SLOTS" using d(3) w assms(7) by (auto simp: udp_waiting_def ring_def udp_listener_def)
    have "field net_udpdata (nat room) m = take (nat room) bts" if r: "room < int (length bts)"
    proof -
      have "field net_udpdata (nat room) m = take (nat room) (field net_udpdata (length bts) m)" using r by (simp add: field_def min_def)
      then show ?thesis using d(4) ul by (simp add: udp_message_def)
    qed
    moreover have l: "length bts + net_udpdata \<le> length m" using d(5) b by (simp add: net_offsets PACKLEN_def)
    then have "nat room + net_udpdata \<le> length m" if "room < int (length bts)" using that by linarith
    ultimately have "udp_take i room ?s = n_free_ret a (min room (int (length bts)), take (nat room) bts, ipucast nd, srcport) ?t"
      using d(4) l by (cases "room < int (length bts)") (simp_all add: udp_take_def e' t Let_def ul min_def udp_message_def)
    moreover have "udp_recvaddr i room timeout ?s = udp_take i room ?s" using c d(7) by (simp add: udp_recvaddr_def e)
    ultimately show ?thesis using e'(2) t(2) by metis
  qed
  show ?thesis using q(1) d(1,3,4,7) e t by (intro exI [of _ q] exI [of _ ?s]) (auto simp: udp_wake_def)
qed

section \<open>The queue of an ICMP endpoint\<close>

text \<open>Replies that arrive and receives that find one, in any order.\<close>

datatype icmp_op = Arrives addr | Received

fun icmp_run :: "int \<Rightarrow> icmp_op list \<Rightarrow> net \<Rightarrow> (addr list \<times> net) result" where
  "icmp_run i [] s = Ret ([], s)"
| "icmp_run i (Arrives a # ops) s = rbind (icmp_deposit i a s) (\<lambda>(_, s). icmp_run i ops s)"
| "icmp_run i (Received # ops) s =
    rbind (icmp_dequeue i s) (\<lambda>(b, s).
    rbind (icmp_run i ops s) (\<lambda>(bs, s). Ret (b # bs, s)))"

text \<open>What a queue with eight places returns; \<open>None\<close> when a reply finds it full or a receive finds it empty.\<close>

fun fifo_run :: "icmp_op list \<Rightarrow> addr list \<Rightarrow> addr list option" where
  "fifo_run [] w = Some []"
| "fifo_run (Arrives a # ops) w = (if length w < 8 then fifo_run ops (w @ [a]) else None)"
| "fifo_run (Received # ops) [] = None"
| "fifo_run (Received # ops) (b # w) = map_option ((#) b) (fifo_run ops w)"

text \<open>An endpoint from which \<open>k\<close> replies have been taken and in which \<open>w\<close> wait.\<close>

definition icmp_queue :: "nat \<Rightarrow> addr list \<Rightarrow> icmpentry \<Rightarrow> bool" where
  "icmp_queue k w e \<longleftrightarrow> icstate e = EP_USED \<and> iccount e = int (length w) \<and> length (icqueue e) = 8 \<and> ichead e = int k \<and>
    ictail e = int ((k + length w) mod 8) \<and> ring (icqueue e) k (length w) = w"

lemma icmp_arrives:
  assumes "icmp_queue k w (icmptab s i)" and "length w < 8"
  shows "\<exists>s'. icmp_deposit i a s = Ret (Some (), s') \<and> icmp_queue k (w @ [a]) (icmptab s' i)"
proof -
  let ?e = "icmptab s i"
  let ?t = "if ictail ?e + 1 \<ge> ICMP_QSIZ then 0 else ictail ?e + 1" and ?q = "(icqueue ?e)[nat (ictail ?e) := a]"
  have e: "icstate ?e = EP_USED" "iccount ?e = int (length w)" "length (icqueue ?e) = 8" "ichead ?e = int k"
      "ictail ?e = int ((k + length w) mod 8)" "ring (icqueue ?e) k (length w) = w"
    using assms(1) by (simp_all add: icmp_queue_def)
  have t8: "(k + length w) mod 8 < 8" by simp
  have t: "?t = int ((k + length (w @ [a])) mod 8)"
    using t8 unfolding e(5) by (cases "(k + length w) mod 8 = 7") (auto simp: ICMP_QSIZ_def mod_Suc)
  have r: "ring ?q k (Suc (length w)) = w @ [a]" using ring_push [of "length w" "icqueue ?e" k a] e(3,5,6) assms(2) by simp
  have "aset (icqueue ?e) (ictail ?e) a = Ret ?q" using e(3,5) t8 by (simp add: aset_def)
  then have "icmp_deposit i a s = Ret (Some (), upd_icmp i (\<lambda>e. e\<lparr>iccount := iccount e + 1, icqueue := ?q, ictail := ?t\<rparr>) s)"
    using e(1) by (simp add: icmp_deposit_def Let_def nret_def)
  moreover have "icmp_queue k (w @ [a]) (?e\<lparr>iccount := iccount ?e + 1, icqueue := ?q, ictail := ?t\<rparr>)"
    using e(1-4) t r by (simp add: icmp_queue_def)
  ultimately show ?thesis by (simp add: upd_icmp_def)
qed

lemma icmp_received:
  assumes "icmp_queue k (b # w) (icmptab s i)" and "k < 8"
  shows "\<exists>s'. icmp_dequeue i s = Ret (b, s') \<and> icmp_queue (Suc k) w (icmptab s' i)"
proof -
  let ?e = "icmptab s i"
  have e: "icstate ?e = EP_USED" "iccount ?e = int (Suc (length w))" "length (icqueue ?e) = 8" "ichead ?e = int k"
      "ictail ?e = int ((k + Suc (length w)) mod 8)" "ring (icqueue ?e) k (Suc (length w)) = b # w"
    using assms(1) by (simp_all add: icmp_queue_def)
  have "ring (icqueue ?e) k (Suc (length w)) = icqueue ?e ! k # ring (icqueue ?e) (Suc k) (length w)"
    using assms(2) e(3) by (simp add: ring_def upt_conv_Cons map_Suc_upt [symmetric] del: upt_Suc)
  then have r: "icqueue ?e ! k = b" "ring (icqueue ?e) (Suc k) (length w) = w" using e(6) by simp_all
  have "aget (icqueue ?e) (ichead ?e) = Ret b" using e(3,4) r(1) assms(2) by (simp add: aget_def)
  moreover have "(if ichead ?e + 1 \<ge> ICMP_SLOTS then 0 else ichead ?e + 1) = int (Suc k)" using e(4) assms(2) by (simp add: ICMP_SLOTS_def)
  ultimately have "icmp_dequeue i s = Ret (b, upd_icmp i (\<lambda>e. e\<lparr>ichead := int (Suc k), iccount := iccount e - 1\<rparr>) s)"
    by (simp add: icmp_dequeue_def Let_def)
  moreover have "icmp_queue (Suc k) w (?e\<lparr>ichead := int (Suc k), iccount := iccount ?e - 1\<rparr>)"
    using e r(2) by (simp add: icmp_queue_def)
  ultimately show ?thesis by (simp add: upd_icmp_def)
qed

lemma icmp_received_9: "icmp_queue 8 w (icmptab s i) \<Longrightarrow> icmp_dequeue i s = Fault"
  by (simp add: icmp_queue_def icmp_dequeue_def aget_def Let_def)

lemma icmp_run_fifo:
  "icmp_queue k w (icmptab s i) \<Longrightarrow> k \<le> 8 \<Longrightarrow> fifo_run ops w = Some bs \<Longrightarrow>
    (if k + length bs \<le> 8 then \<exists>s'. icmp_run i ops s = Ret (bs, s') else icmp_run i ops s = Fault)"
proof (induction ops w arbitrary: k s bs rule: fifo_run.induct)
  case (2 a ops w)
  then have w: "length w < 8" "fifo_run ops (w @ [a]) = Some bs" by (auto split: if_splits)
  obtain s' where "icmp_deposit i a s = Ret (Some (), s')" "icmp_queue k (w @ [a]) (icmptab s' i)" using icmp_arrives [OF 2(2) w(1)] by blast
  then show ?case using 2(1) [OF w(1) _ 2(3) w(2)] by simp
next
  case (4 ops b w)
  then obtain bs' where bs: "bs = b # bs'" "fifo_run ops w = Some bs'" by auto
  show ?case
  proof (cases "k = 8")
    case True
    then show ?thesis using icmp_received_9 4(2) bs(1) by simp
  next
    case False
    then have k: "k < 8" using 4(3) by simp
    from icmp_received [OF 4(2) k] obtain s' where "icmp_dequeue i s = Ret (b, s')" "icmp_queue (Suc k) w (icmptab s' i)" by blast
    with 4(1) [OF this(2) _ bs(2)] k bs(1) show ?thesis by (cases "k + length bs \<le> 8") auto
  qed
qed (auto split: if_splits)

text \<open>A reply that finds the queue full is stored over the first one.\<close>

lemma icmp_overrun:
  assumes "icmp_queue k w (icmptab s i)" and "length w = 8" and "k < 8"
  shows "\<exists>s' s''. icmp_deposit i a s = Ret (Some (), s') \<and> icmp_dequeue i s' = Ret (a, s'')"
proof -
  let ?e = "icmptab s i"
  have e: "icstate ?e = EP_USED" "length (icqueue ?e) = 8" "ichead ?e = int k" "ictail ?e = int k"
    using assms by (simp_all add: icmp_queue_def)
  then show ?thesis using assms(3)
    by (simp add: icmp_deposit_def icmp_dequeue_def aset_def aget_def upd_icmp_def nret_def Let_def)
qed

lemma icmp_fills:
  "icmp_queue k w (icmptab s i) \<Longrightarrow> length w + length as \<le> 8 \<Longrightarrow>
    \<exists>s'. icmp_queue k (w @ as) (icmptab s' i) \<and> (\<forall>ops. icmp_run i (map Arrives as @ ops) s = icmp_run i ops s')"
proof (induction as arbitrary: w s)
  case (Cons a as)
  then obtain s1 where s1: "icmp_deposit i a s = Ret (Some (), s1)" "icmp_queue k (w @ [a]) (icmptab s1 i)" using icmp_arrives [OF Cons.prems(1), of a] by auto
  then show ?case using Cons.IH [OF s1(2)] Cons.prems(2) by auto
qed auto

lemma icmp_scan_free:
  "icmp_scan n i f remip s = j \<Longrightarrow> j \<noteq> -1 \<Longrightarrow> j = f \<or> i \<le> j \<and> j < i + int n \<and> icstate (icmptab s j) = EP_FREE"
  by (induction n arbitrary: i f) (fastforce split: if_splits)+

lemma icmp_register_queue:
  assumes "icmp_register remip s = (i, s')" and "i \<noteq> SYSERR" and "list_all (\<lambda>j. int (length (icqueue (icmptab s j))) = ICMP_QSIZ) [0..ICMP_SLOTS - 1]"
  shows "icmp_queue 0 [] (icmptab s' i)"
proof -
  let ?j = "icmp_scan (nat ICMP_SLOTS) 0 (-1) remip s"
  have j: "?j \<noteq> -1" "i = ?j"
    "s' = upd_icmp i (\<lambda>e. e\<lparr>icstate := EP_USED, icremip := remip, iccount := 0, ichead := 0, ictail := 0, icpid := -1\<rparr>) s"
    using assms(1,2) by (auto simp: icmp_register_def Let_def split: if_splits)
  then have "0 \<le> i" "i < ICMP_SLOTS" using icmp_scan_free [OF refl j(1)] by (auto simp: ICMP_SLOTS_def)
  then have "length (icqueue (icmptab s i)) = 8" using assms(3) by (auto simp: list_all_iff ICMP_QSIZ_def ICMP_SLOTS_def)
  then show ?thesis using j(3) by (simp add: icmp_queue_def upd_icmp_def ring_def)
qed

text \<open>
  C13: The queue of a new ICMP endpoint. For replies that arrive and are received in any order, such that never more than eight wait and no receive finds the queue empty: the first eight
  receives return the replies in the order of their arrival, and the ninth one faults, because \<open>icmp_recv\<close> wraps the head of the queue at \<open>ICMP_SLOTS\<close>, the number of endpoints, and
  not at \<open>ICMP_QSIZ\<close> as \<open>icmp_in\<close> does, and reads behind the end of the array. When nine replies arrive before the first receive, \<open>icmp_in\<close> does not notice that the queue
  is full: the ninth reply is stored over the first, and the receive returns it.
\<close>

theorem icmp_ninth_reply:
  assumes "icmp_register remip s = (i, s')" and "i \<noteq> SYSERR" and "list_all (\<lambda>j. int (length (icqueue (icmptab s j))) = ICMP_QSIZ) [0..ICMP_SLOTS - 1]"
    and "fifo_run ops [] = Some bs" and "length as = 8"
  shows "(if length bs \<le> 8 then \<exists>s''. icmp_run i ops s' = Ret (bs, s'') else icmp_run i ops s' = Fault) \<and>
    (\<exists>s''. icmp_run i (map Arrives as @ [Arrives a, Received]) s' = Ret ([a], s''))"
proof
  have q: "icmp_queue 0 [] (icmptab s' i)" by (rule icmp_register_queue [OF assms(1-3)])
  show "if length bs \<le> 8 then \<exists>s''. icmp_run i ops s' = Ret (bs, s'') else icmp_run i ops s' = Fault"
    using icmp_run_fifo [OF q _ assms(4)] by simp
  obtain s1 where s1: "icmp_queue 0 as (icmptab s1 i)" "\<forall>ops. icmp_run i (map Arrives as @ ops) s' = icmp_run i ops s1"
    using icmp_fills [OF q, of as] assms(5) by auto
  then show "\<exists>s''. icmp_run i (map Arrives as @ [Arrives a, Received]) s' = Ret ([a], s'')"
    using icmp_overrun [OF s1(1) assms(5), of a] by auto
qed

section \<open>Examples\<close>

text \<open>A machine with the address 10.0.0.2 whose UDP endpoint 0 listens on port 7 and whose ICMP endpoints are free.\<close>

definition net1 :: net where
  "net1 = \<lparr>nbufs = \<lparr>bkern = kernel2 PR_SUSP, buftab = \<lambda>_. \<lparr>bpnext = 0, bpsem = 0, bpsize = 0\<rparr>, nbpools = 0\<rparr>,
    neth = \<lparr>ethstate = ETH_STATE_UP, rxRing = \<lambda>_. \<lparr>rx_length = 0, rx_csum = 0, rx_status = 0, rx_errors = 0, rx_special = 0, rx_buffer = []\<rparr>, rxHead = 0, rxTail = 0,
      rxRingSize = 32, rxIrq = 0, txRing = \<lambda>_. \<lparr>tx_lower = 0, tx_upper = 0, tx_buffer = []\<rparr>, txHead = 0, txTail = 0, txRingSize = 32, txIrq = 0,
      devAddress = [2, 0, 0, 0, 0, 2], isem = 0, osem = 1, reg_rdt = 0, reg_tdt = 0, reg_ral = \<lambda>_. 0, reg_rah = \<lambda>_. 0\<rparr>,
    pkts = \<lambda>_. replicate PACKLEN 0, netbufpool = 0, NetData = zero_network\<lparr>ipucast := 0x0a000002, ipvalid := True, ethucast := [2, 0, 0, 0, 0, 2], ethbcast := replicate 6 0xff\<rparr>, netportseed = 0, arpcache = \<lambda>_. zero_arp,
    udptab = \<lambda>i. \<lparr>udstate = (if i = 0 then EP_USED else EP_FREE), udremip = 0, udremport = 0, udlocport = 7, udhead = 0, udtail = 0, udcount = 0, udpid = 0,
      udqueue = replicate 8 0\<rparr>,
    icmptab = \<lambda>_. \<lparr>icstate = EP_FREE, icremip = 0, ichead = 0, ictail = 0, iccount = 0, icpid = 0, icqueue = replicate 8 0\<rparr>,
    ipoqueue = \<lparr>iqhead = 0, iqtail = 0, iqsem = 2, iqbuf = replicate 8 0\<rparr>, send_ident = 1, sendto_ident = 1, ipident = 1\<rparr>"

text \<open>The sender has the address 10.0.0.1.\<close>

definition network2 :: network where
  "network2 = zero_network\<lparr>ipucast := 0x0a000001, ipvalid := True, ethucast := [2, 0, 0, 0, 0, 1], ethbcast := replicate 6 0xff\<rparr>"

theorem udp_delivery_witness:
  "\<exists>p q s' s''. udp_packet 1 0x0a000002 7 50000 [104, 105] 2 network2 (replicate PACKLEN 0) = Ret p \<and>
    netin_dispatch 64 (upd_pkt 64 (\<lambda>_. take 44 q @ replicate 1470 0) net1) = nret () s' \<and>
    udp_recvaddr 0 1 5000 s' = n_free_ret 64 (1, [104], 0x0a000001, 50000) s''"
proof -
  let ?p0 = "replicate PACKLEN 0"
  have p0: "length ?p0 = PACKLEN" "length (ethucast network2) = 6" by (simp_all add: network2_def zero_network_def)
  obtain p where p: "udp_packet 1 0x0a000002 7 50000 [104, 105] (int (length ([104, 105] :: u8 list))) network2 ?p0 = Ret p"
    using udp_packet_eq(2) [OF p0, of 1 "0x0a000002" 7 50000 "[104, 105]"] by (simp only: list.size) simp
  let ?sb = "upd_pkt 96 (\<lambda>_. set_field net_ethdst [2, 0, 0, 0, 0, 2] p) net1"
  have n: "ipucast (NetData net1) = 0x0a000002" "ipvalid (NetData net1)" by (simp_all add: net1_def)
  have w: "udp_waiting (udptab net1 0) = []" "udstate (udptab net1 0) = EP_USED" by (simp_all add: net1_def udp_waiting_def ring_def)
  have l: "udp_listener 0 7 (ipucast network2) 50000 net1"
    by (simp add: udp_listener_def net1_def udp_wf_def UDP_SLOTS_def UDP_QSIZ_def)
  from udp_delivery [OF _ p0 _ _ _ l n(2), of 1 "[104, 105]" p "[2, 0, 0, 0, 0, 2]" ?sb 96 "replicate 1470 0" 1 64 5000] show ?thesis
    using p w unfolding n(1) by (auto simp: network2_def PACKLEN_def) (intro exI conjI; assumption)
qed

text \<open>An echo request from 10.0.0.1 with the identification \<open>0xffff\<close> and the sequence number \<open>0xf800\<close>.\<close>

definition echo1 :: packet where
  "echo1 = [2, 0, 0, 0, 0, 2, 2, 0, 0, 0, 0, 1, 0, 8, 0x45, 0, 28, 0, 1, 0, 0, 0, 255, 1, 0, 0, 1, 0, 0, 10, 2, 0, 0, 10, 8, 0, 0, 0, 0xff, 0xff, 0, 0xf8]"

lemma enc16_swapped: "enc16 (htons (dec16 [x, y])) = [y, x]" "enc16 0 = [0, 0]"
  using enc_dec(1) [of "[y, x]"] enc16_def [of 0]
  by (simp_all add: enc16_def)
    (rule conjI; rule bit_word_eqI; auto simp: htons_alt dec16_def bit_simps dest: bit_imp_le_length)

theorem icmp_over_the_wire_witness:
  "\<exists>q t. ip_wire echo1 = Ret q \<and> netin_dispatch 64 (upd_pkt 64 (\<lambda>_. q) net1) = n_free_ret 64 () (upd_pkt 64 (\<lambda>_. t) net1)"
proof -
  have f: "get16 net_iplen echo1 = 28" "get8 net_ipproto echo1 = IP_ICMP" "get8 net_ipvh echo1 = 0x45" "get16 net_ethtype echo1 = ETH_IP" "get32 net_ipdst echo1 = 0x0a000002"
    by (simp_all add: echo1_def get16_def get8_def get32_def field_def net_offsets dec16_def dec32_def IP_ICMP_def ETH_IP_def)
  have c: "carries_twice (message_sum net_ictype 8 (put16 net_iccksum 0 (icmp_hton echo1)))"
    by (simp add: carries_twice_def message_sum_def words_def icmp_hton_def swap16_def get16_def field_def put16_def set_field_def enc16_swapped echo1_def net_offsets upt_rec
        unat_network_order)
  have "uint (get16 net_iplen echo1) = IP_HDR_LEN + int 8" "net_ictype + 8 \<le> length echo1" "ipvalid (NetData net1)" "get32 net_ipdst echo1 = ipucast (NetData net1)"
    using f by (simp_all add: IP_HDR_LEN_def net_offsets echo1_def net1_def)
  from icmp_over_the_wire [OF this(1) _ this(2) f(2-4) this(3,4), of 64] c show ?thesis by auto
qed

theorem icmp_ninth_reply_witness:
  "\<exists>s'. icmp_register 5 net1 = (0, s') \<and> (\<exists>s''. icmp_run 0 [Arrives 64, Arrives 96, Received, Arrives 32, Received, Received] s' = Ret ([64, 96, 32], s'')) \<and>
    (\<exists>s''. icmp_run 0 (map Arrives (replicate 8 64) @ [Arrives 96, Received]) s' = Ret ([96], s''))"
proof -
  obtain s' where r: "icmp_register 5 net1 = (0, s')"
    by (simp add: icmp_register_def ICMP_SLOTS_def net1_def numeral_eq_Suc)
  have q: "list_all (\<lambda>j. int (length (icqueue (icmptab net1 j))) = ICMP_QSIZ) [0..ICMP_SLOTS - 1]"
    by (simp add: net1_def list_all_iff ICMP_QSIZ_def)
  have n: "(0 :: int) \<noteq> SYSERR" "length (replicate 8 (64 :: addr)) = 8" by (simp_all add: SYSERR_def)
  have f: "fifo_run [Arrives 64, Arrives 96, Received, Arrives 32, Received, Received] [] = Some [64, 96, 32]" by simp
  from icmp_ninth_reply [OF r n(1) q f n(2), of 96] show ?thesis using r by auto
qed

end
