(* ===== verification/ArpExchange.thy ===== *)
theory ArpExchange
  imports NetDelivery
begin

text \<open>
  The address resolution protocol of \<open>net/arp.c\<close>: what the packets of \<open>arp_packet\<close> say to the machine that \<open>arp_in\<close> reads them on.
\<close>

section \<open>The packets\<close>

definition arp_bytes :: "u16 \<Rightarrow> u8 list \<Rightarrow> u8 list \<Rightarrow> u32 \<Rightarrow> network \<Rightarrow> packet" where
  "arp_bytes op dst tarha tarpa nd = dst @ ethucast nd @ enc16 ETH_ARP @ enc16 ARP_HTYPE @ enc16 ARP_PTYPE @ [6] @ [4] @ enc16 op @ ethucast nd @ enc32 (ipucast nd) @ tarha @ enc32 tarpa"

lemma set_field_next: "length xs = i \<Longrightarrow> length bs \<le> n \<Longrightarrow> set_field i bs (xs @ replicate n 0) = (xs @ bs) @ replicate (n - length bs) 0"
  by (simp add: set_field_def)

lemma arp_packet_bytes:
  assumes "length dst = 6" "length tarha = 6" "length (ethucast (NetData s)) = 6"
  shows "arp_packet op dst tarha tarpa s = eth_hton (arp_hton (arp_bytes op dst tarha tarpa (NetData s)))"
proof -
  have z: "set_field 0 dst (replicate 42 0) = dst @ replicate 36 0" using assms(1) by (simp add: set_field_def)
  show ?thesis
    unfolding arp_packet_def Let_def put8_def put16_def put32_def arp_offsets arp_bytes_def z by (simp add: set_field_next assms del: append_assoc append_Cons append_Nil flip: append_assoc)
qed

lemma arp_bytes_length: "length dst = 6 \<Longrightarrow> length tarha = 6 \<Longrightarrow> length (ethucast nd) = 6 \<Longrightarrow> length (arp_bytes op dst tarha tarpa nd) = 42"
  by (simp add: arp_bytes_def)

lemma arp_swap_append [simp]:
  "i + 2 \<le> length p \<Longrightarrow> swap16 i (p @ pad) = swap16 i p @ pad" "i + 4 \<le> length p \<Longrightarrow> swap32 i (p @ pad) = swap32 i p @ pad"
  by (simp_all add: swap16_def swap32_def put16_def put32_def get16_def get32_def set_field_def field_def)

lemma get_append: "i + 2 \<le> length p \<Longrightarrow> get16 i (p @ pad) = get16 i p"
  by (simp add: get16_def field_def)

lemma arp_ntoh_sent:
  assumes "length p = 42"
  shows "eth_ntoh (eth_hton (arp_hton p) @ pad) = arp_hton p @ pad" "arp_ntoh (arp_hton p @ pad) = p @ pad"
    "get16 net_ethtype (arp_hton p @ pad) = get16 net_ethtype p"
proof -
  show "eth_ntoh (eth_hton (arp_hton p) @ pad) = arp_hton p @ pad" using assms by (simp add: eth_ntoh_def eth_hton_def arp_hton_def net_offsets arp_offsets)
  show "arp_ntoh (arp_hton p @ pad) = p @ pad"
    using assms by (simp add: arp_ntoh_def arp_hton_def arp_offsets swap_order)
  show "get16 net_ethtype (arp_hton p @ pad) = get16 net_ethtype p"
    using assms by (simp add: arp_hton_def arp_offsets net_offsets get_append)
qed

lemma arp_bytes_fields:
  assumes "length dst = 6" "length tarha = 6" "length (ethucast nd) = 6"
  shows "get16 net_ethtype (arp_bytes op dst tarha tarpa nd) = ETH_ARP" "get16 arp_htype (arp_bytes op dst tarha tarpa nd @ pad) = ARP_HTYPE"
    "get16 arp_ptype (arp_bytes op dst tarha tarpa nd @ pad) = ARP_PTYPE" "get16 arp_op (arp_bytes op dst tarha tarpa nd @ pad) = op"
    "field arp_sndha 6 (arp_bytes op dst tarha tarpa nd @ pad) = ethucast nd" "get32 arp_sndpa (arp_bytes op dst tarha tarpa nd @ pad) = ipucast nd"
    "get32 arp_tarpa (arp_bytes op dst tarha tarpa nd @ pad) = tarpa"
  using assms by (simp_all add: arp_bytes_def get16_def get32_def field_def arp_offsets net_offsets)

lemma netin_arp:
  assumes "length dst = 6" "length tarha = 6" "length (ethucast (NetData sb)) = 6"
  shows "netin_dispatch a (upd_pkt a (\<lambda>_. arp_packet op dst tarha tarpa sb @ pad) s) =
    arp_in a (upd_pkt a (\<lambda>_. arp_hton (arp_bytes op dst tarha tarpa (NetData sb)) @ pad) s)"
  using arp_ntoh_sent [OF arp_bytes_length [OF assms, of op tarpa], of pad] arp_bytes_fields(1) [OF assms, of op tarpa]
  by (simp add: netin_dispatch_def arp_packet_bytes [OF assms] comp_def Let_def)

section \<open>Learning an address\<close>

lemma upd_arp_fields [simp]:
  "NetData (upd_arp i f s) = NetData s" "arpcache (upd_arp i f s) i = f (arpcache s i)" "pkts (upd_arp i f s) = pkts s" "nbufs (upd_arp i f s) = nbufs s"
  by (simp_all add: upd_arp_def)

lemma arpcache_upd_pkt [simp]: "arpcache (upd_pkt a f s) = arpcache s"
  by (simp add: upd_pkt_def)

lemma arp_find_upd_pkt [simp]: "arp_find x (upd_pkt a f s) = arp_find x s"
  by (simp add: arp_find_def)

lemma find_cong_set: "(\<And>x. x \<in> set xs \<Longrightarrow> P x = Q x) \<Longrightarrow> find P xs = find Q xs"
  by (induction xs) auto

text \<open>Changing the entry that is found to one for the same address in use leaves it the one that is found.\<close>

lemma arp_find_again:
  assumes "arp_find x s = Some i" and "arpaddr e = x" and "arstate e \<noteq> AR_FREE"
  shows "arp_find x (upd_arp i (\<lambda>_. e) s) = Some i"
proof -
  have i: "arstate (arpcache s i) \<noteq> AR_FREE" "arpaddr (arpcache s i) = x" using assms(1) by (auto simp: arp_find_def find_Some_iff)
  then have "arp_find x (upd_arp i (\<lambda>_. e) s) = arp_find x s" unfolding arp_find_def using assms(2,3) by (intro find_cong_set) (simp add: upd_arp_def)
  then show ?thesis using assms(1) by simp
qed

definition unicast_for :: "u32 \<Rightarrow> net \<Rightarrow> bool" where
  "unicast_for x s \<longleftrightarrow> x \<noteq> IP_BCAST \<and> x \<noteq> ipbcast (NetData s)"

lemma arp_resolve_known:
  "unicast_for x s \<Longrightarrow> arp_find x s = Some i \<Longrightarrow> arstate (arpcache s i) = AR_RESOLVED \<Longrightarrow> arp_resolve x s = nret (OK, arhaddr (arpcache s i)) s"
  by (simp add: unicast_for_def arp_resolve_def)

text \<open>A new entry for an address that was not there is the one that is found.\<close>

lemma arp_alloc_find:
  assumes "arp_alloc s = (j, t)" and "j \<noteq> SYSERR" and "arp_find x s = None"
  shows "\<exists>k. j = int k \<and> t = upd_arp k (\<lambda>_. zero_arp) s \<and> (\<forall>e. arpaddr e = x \<and> arstate e \<noteq> AR_FREE \<longrightarrow> arp_find x (upd_arp k (\<lambda>_. e) s) = Some k)"
proof -
  obtain k where k: "j = int k" "t = upd_arp k (\<lambda>_. zero_arp) s" "k < ARP_SIZ"
    using assms(1,2) by (auto simp: arp_alloc_def find_Some_iff split: option.splits)
  have n: "\<not> (arstate (arpcache s i) \<noteq> AR_FREE \<and> arpaddr (arpcache s i) = x)" if "i < ARP_SIZ" for i
    using assms(3) that by (auto simp: arp_find_def find_None_iff)
  have "arp_find x (upd_arp k (\<lambda>_. e) s) = Some k" if "arpaddr e = x" "arstate e \<noteq> AR_FREE" for e
    unfolding arp_find_def find_Some_iff
    using k(3) n that by (intro exI [of _ k]) (auto simp: upd_arp_def)
  then show ?thesis using k(1,2) by blast
qed

section \<open>Request and reply\<close>

lemma arp_alloc_upd_pkt: "fst (arp_alloc (upd_pkt a f s)) = fst (arp_alloc s)"
  by (simp add: arp_alloc_def split: option.split)

lemma upd_arp_twice: "upd_arp i f (upd_arp i g s) = upd_arp i (f \<circ> g) s"
  by (simp add: upd_arp_def)

lemma ARP_OPS: "ARP_OP_REQ \<noteq> ARP_OP_RPLY"
  by (simp add: ARP_OP_REQ_def ARP_OP_RPLY_def)

text \<open>
  The state in which \<open>arp_in\<close> of the machine asked sends its reply: the sender is in the cache. When an entry for it was pending, the process that waits for it has been
  sent a message.
\<close>

definition wake_pending :: "nat option \<Rightarrow> net \<Rightarrow> net \<Rightarrow> (unit option \<times> net) result" where
  "wake_pending found s s' =
    (case found of Some j \<Rightarrow> if arstate (arpcache s j) = AR_PENDING then n_send (arpid (arpcache s j)) s' else nret () s' | None \<Rightarrow> nret () s')"

lemma arp_reply_after:
  assumes "pkts s a = p" and "NetData s = nd"
    and "\<And>x s'. r = Ret (x, s') \<Longrightarrow> pkts s' = pkts s \<and> NetData s' = NetData s"
  shows "nseq r (\<lambda>_. arp_reply a) =
    nseq r (\<lambda>_ s'. nseq (n_write (arp_packet ARP_OP_RPLY (field arp_sndha 6 p) (field arp_sndha 6 p) (get32 arp_sndpa p) s) (int ARP_LEN) s') (\<lambda>_. n_free_ret a ()))"
proof (cases r)
  case (Ret y)
  then obtain x s' where y: "r = Ret (x, s')" by (cases y) auto
  have "arp_packet op d h ip s' = arp_packet op d h ip s" for op d h ip using assms(3) [OF y] by (simp add: arp_packet_def)
  then show ?thesis using assms(1) assms(3) [OF y] y by (simp add: nseq_def arp_reply_def Let_def split: option.split)
qed (simp_all add: nseq_def)

lemma n_send_frame: "n_send pid s = Ret (x, s') \<Longrightarrow> pkts s' = pkts s \<and> NetData s' = NetData s"
  by (auto simp: n_send_def still_def set_nkern_def rbind_Ret_iff)

lemma arp_in_request:
  assumes l: "length dst = 6" "length tarha = 6" "length (ethucast (NetData sb)) = 6"
    and "ipvalid (NetData s)" "arp_find (ipucast (NetData sb)) s = None \<longrightarrow> fst (arp_alloc s) \<noteq> SYSERR" "unicast_for (ipucast (NetData sb)) s"
  shows "\<exists>s'. netin_dispatch a (upd_pkt a (\<lambda>_. arp_packet ARP_OP_REQ dst tarha (ipucast (NetData s)) sb @ pad) s) =
      nseq (wake_pending (arp_find (ipucast (NetData sb)) s) s s') (\<lambda>_ s2.
      nseq (n_write (arp_packet ARP_OP_RPLY (ethucast (NetData sb)) (ethucast (NetData sb)) (ipucast (NetData sb)) s') (int ARP_LEN) s2) (\<lambda>_. n_free_ret a ())) \<and>
    NetData s' = NetData s \<and> arp_resolve (ipucast (NetData sb)) s' = nret (OK, ethucast (NetData sb)) s'"
proof -
  let ?ip = "ipucast (NetData sb)" and ?b = "arp_bytes ARP_OP_REQ dst tarha (ipucast (NetData s)) (NetData sb) @ pad"
  let ?s = "upd_pkt a (\<lambda>_. ?b) s"
  note f = arp_bytes_fields [OF l, of ARP_OP_REQ "ipucast (NetData s)"]
  have loc: "netin_dispatch a (upd_pkt a (\<lambda>_. arp_packet ARP_OP_REQ dst tarha (ipucast (NetData s)) sb @ pad) s) =
    nseq (case arp_find ?ip s of None \<Rightarrow> nret () ?s | Some i \<Rightarrow> arp_learn i (ethucast (NetData sb)) ?s) (\<lambda>_ s'.
      if \<not> ipvalid (NetData s') \<or> ipucast (NetData s) \<noteq> ipucast (NetData s') then n_free_ret a () s'
      else case arp_find ?ip s of
          Some _ \<Rightarrow> arp_reply a s'
        | None \<Rightarrow> (case arp_alloc s' of (sl, s') \<Rightarrow>
            if sl = SYSERR then n_free_ret a () s'
            else arp_reply a (upd_arp (nat sl) (\<lambda>e. e\<lparr>arpaddr := ?ip, arhaddr := ethucast (NetData sb), arstate := AR_RESOLVED\<rparr>) s')))"
    unfolding netin_arp [OF l] using f arp_ntoh_sent(2) [OF arp_bytes_length [OF l]] ARP_OPS
    by (simp add: arp_in_def Let_def comp_def cong: option.case_cong prod.case_cong if_cong)
  show ?thesis
  proof (cases "arp_find ?ip s")
    case None
    then have n: "arp_find ?ip ?s = None" "fst (arp_alloc ?s) \<noteq> SYSERR" using assms(5) by (simp_all add: arp_alloc_upd_pkt)
    then obtain k where k: "arp_alloc ?s = (int k, upd_arp k (\<lambda>_. zero_arp) ?s)" "int k \<noteq> SYSERR"
        "\<And>e. arpaddr e = ?ip \<Longrightarrow> arstate e \<noteq> AR_FREE \<Longrightarrow> arp_find ?ip (upd_arp k (\<lambda>_. e) ?s) = Some k"
      using arp_alloc_find [of ?s _ _ "?ip"] by (metis fst_conv surj_pair)
    define e where "e = zero_arp\<lparr>arpaddr := ?ip, arhaddr := ethucast (NetData sb), arstate := AR_RESOLVED\<rparr>"
    let ?t = "upd_arp k (\<lambda>_. e) ?s"
    have "netin_dispatch a (upd_pkt a (\<lambda>_. arp_packet ARP_OP_REQ dst tarha (ipucast (NetData s)) sb @ pad) s) = arp_reply a ?t"
      unfolding loc using None k(1,2) assms(4) by (simp add: nret_def nseq_def upd_arp_twice e_def comp_def)
    moreover have "arp_resolve ?ip ?t = nret (OK, arhaddr (arpcache ?t k)) ?t"
      using k(3) [of e] assms(6) by (intro arp_resolve_known) (simp_all add: e_def unicast_for_def)
    ultimately show ?thesis using f None by (intro exI [of _ ?t]) (simp add: arp_reply_def Let_def e_def wake_pending_def nret_def nseq_def)
  next
    case (Some j)
    have j: "arpaddr (arpcache s j) = ?ip" "arstate (arpcache s j) \<noteq> AR_FREE" using Some by (auto simp: arp_find_def find_Some_iff)
    define e where "e = (arpcache s j)\<lparr>arhaddr := ethucast (NetData sb), arstate := AR_RESOLVED\<rparr>"
    let ?t = "upd_arp j (\<lambda>_. e) ?s"
    have st: "(arpcache s j)\<lparr>arhaddr := x\<rparr> = (arpcache s j)\<lparr>arhaddr := x, arstate := AR_RESOLVED\<rparr>" if "arstate (arpcache s j) = AR_RESOLVED" for x
      using that by (cases "arpcache s j") simp
    have le: "arp_learn j (ethucast (NetData sb)) ?s = wake_pending (Some j) s ?t"
      using j(2) by (cases "arstate (arpcache s j)") (auto simp: st [symmetric] arp_learn_def wake_pending_def Let_def upd_arp_twice e_def upd_arp_def)
    have fr: "pkts s' = pkts ?t \<and> NetData s' = NetData ?t" if "wake_pending (Some j) s ?t = Ret (x, s')" for x s'
      using that n_send_frame by (auto simp: wake_pending_def nret_def split: if_splits)
    have "netin_dispatch a (upd_pkt a (\<lambda>_. arp_packet ARP_OP_REQ dst tarha (ipucast (NetData s)) sb @ pad) s) = nseq (wake_pending (Some j) s ?t) (\<lambda>_. arp_reply a)"
      unfolding loc Some option.case le using fr assms(4)
      by (cases "wake_pending (Some j) s ?t") (auto simp: nseq_def split: option.split)
    also have "\<dots> = nseq (wake_pending (Some j) s ?t) (\<lambda>_ s2.
      nseq (n_write (arp_packet ARP_OP_RPLY (ethucast (NetData sb)) (ethucast (NetData sb)) ?ip ?t) (int ARP_LEN) s2) (\<lambda>_. n_free_ret a ()))"
      using arp_reply_after [of ?t a ?b "NetData ?t" "wake_pending (Some j) s ?t", OF _ _ fr] f by simp
    moreover have "arp_resolve ?ip ?t = nret (OK, arhaddr (arpcache ?t j)) ?t"
      using arp_find_again [of ?ip ?s j e] Some j assms(6) by (intro arp_resolve_known) (simp_all add: e_def unicast_for_def)
    ultimately show ?thesis unfolding Some by (intro exI [of _ ?t]) (simp add: e_def)
  qed
qed

lemma arp_in_reply:
  assumes l: "length dst = 6" "length tarha = 6" "length (ethucast (NetData sa)) = 6"
    and "arp_find (ipucast (NetData sa)) s = Some i" "arstate (arpcache s i) = AR_PENDING" "unicast_for (ipucast (NetData sa)) s"
  shows "\<exists>s'. netin_dispatch a (upd_pkt a (\<lambda>_. arp_packet ARP_OP_RPLY dst tarha tarpa sa @ pad) s) =
      nseq (n_send (arpid (arpcache s i)) s') (\<lambda>_. n_free_ret a ()) \<and>
    arp_resolve (ipucast (NetData sa)) s' = nret (OK, ethucast (NetData sa)) s'"
proof -
  let ?b = "arp_bytes ARP_OP_RPLY dst tarha tarpa (NetData sa) @ pad"
  let ?s = "upd_pkt a (\<lambda>_. ?b) s" and ?e = "(arpcache s i)\<lparr>arhaddr := ethucast (NetData sa), arstate := AR_RESOLVED\<rparr>"
  let ?t = "upd_arp i (\<lambda>_. ?e) ?s"
  note f = arp_bytes_fields [OF l, of ARP_OP_RPLY tarpa]
  have r: "arp_find (ipucast (NetData sa)) ?s = Some i" "arpaddr (arpcache s i) = ipucast (NetData sa)"
    using assms(4) by (auto simp: arp_find_def find_Some_iff)
  have t: "upd_arp i (\<lambda>e. e\<lparr>arhaddr := ethucast (NetData sa), arstate := AR_RESOLVED\<rparr>) ?s = ?t" by (simp add: upd_arp_def)
  have "netin_dispatch a (upd_pkt a (\<lambda>_. arp_packet ARP_OP_RPLY dst tarha tarpa sa @ pad) s) = nseq (n_send (arpid (arpcache s i)) ?t) (\<lambda>_. n_free_ret a ())"
    unfolding netin_arp [OF l] t [symmetric] using f r assms(5) arp_ntoh_sent(2) [OF arp_bytes_length [OF l]]
    by (simp add: arp_in_def Let_def comp_def arp_learn_def upd_arp_twice)
  moreover have "arp_resolve (ipucast (NetData sa)) ?t = nret (OK, arhaddr (arpcache ?t i)) ?t"
    using arp_find_again [OF r(1), of ?e] r(2) assms(6) by (intro arp_resolve_known) (simp_all add: unicast_for_def)
  ultimately show ?thesis by (intro exI [of _ ?t]) simp
qed

text \<open>
  C10: A machine that asks for the Ethernet address of another one gets it: the request that \<open>arp_resolve\<close> sends makes \<open>arp_in\<close> of the other machine remember the
  sender and write a reply, and that reply makes \<open>arp_in\<close> of the first machine resolve the pending entry and wake up the process that waits for it. From then on
  \<open>arp_resolve\<close> of both machines returns the address of the other one at once. The machine asked may know the sender already, when its address is updated, or be asking for the
  sender's address itself, when the process that waits is woken up first; only when the sender is new must an entry of its cache be free or resolved.
\<close>

theorem arp_exchange:
  assumes "length (ethucast (NetData sa)) = 6" and "length (ethucast (NetData sb)) = 6" and "length (ethbcast (NetData sb)) = 6"
    and "ipvalid (NetData sa)" and "arp_find (ipucast (NetData sb)) sa = None \<longrightarrow> fst (arp_alloc sa) \<noteq> SYSERR" and "unicast_for (ipucast (NetData sb)) sa"
    and "arp_find (ipucast (NetData sa)) sb = Some i" and "arstate (arpcache sb i) = AR_PENDING" and "unicast_for (ipucast (NetData sa)) sb"
  shows "\<exists>reply sa' sb'.
    netin_dispatch a (upd_pkt a (\<lambda>_. arp_packet ARP_OP_REQ (ethbcast (NetData sb)) (replicate 6 0) (ipucast (NetData sa)) sb @ pad) sa) =
      nseq (wake_pending (arp_find (ipucast (NetData sb)) sa) sa sa') (\<lambda>_ s. nseq (n_write reply (int ARP_LEN) s) (\<lambda>_. n_free_ret a ())) \<and>
    arp_resolve (ipucast (NetData sb)) sa' = nret (OK, ethucast (NetData sb)) sa' \<and>
    netin_dispatch b (upd_pkt b (\<lambda>_. reply @ pad) sb) = nseq (n_send (arpid (arpcache sb i)) sb') (\<lambda>_. n_free_ret b ()) \<and>
    arp_resolve (ipucast (NetData sa)) sb' = nret (OK, ethucast (NetData sa)) sb'"
proof -
  obtain sa' where a: "netin_dispatch a (upd_pkt a (\<lambda>_. arp_packet ARP_OP_REQ (ethbcast (NetData sb)) (replicate 6 0) (ipucast (NetData sa)) sb @ pad) sa) =
      nseq (wake_pending (arp_find (ipucast (NetData sb)) sa) sa sa') (\<lambda>_ s.
      nseq (n_write (arp_packet ARP_OP_RPLY (ethucast (NetData sb)) (ethucast (NetData sb)) (ipucast (NetData sb)) sa') (int ARP_LEN) s) (\<lambda>_. n_free_ret a ()))"
      "NetData sa' = NetData sa" "arp_resolve (ipucast (NetData sb)) sa' = nret (OK, ethucast (NetData sb)) sa'"
    using arp_in_request [OF assms(3) _ assms(2,4-6), of "replicate 6 0"] by auto
  have "length (ethucast (NetData sa')) = 6" "arp_find (ipucast (NetData sa')) sb = Some i" "unicast_for (ipucast (NetData sa')) sb"
    using a(2) assms(1,7,9) by simp_all
  from arp_in_reply [OF assms(2,2) this(1,2) assms(8) this(3), of b "ipucast (NetData sb)" pad] show ?thesis using a by auto
qed

definition net2 :: net where
  "net2 = net1\<lparr>NetData := network2, arpcache := (\<lambda>_. zero_arp)(3 := zero_arp\<lparr>arstate := AR_PENDING, arpaddr := 0x0a000002, arpid := 1\<rparr>)\<rparr>"

theorem arp_exchange_witness:
  "\<exists>reply sa' sb'. netin_dispatch 64 (upd_pkt 64 (\<lambda>_. arp_packet ARP_OP_REQ (replicate 6 0xff) (replicate 6 0) 0x0a000002 net2) net1) =
      nseq (nret () sa') (\<lambda>_ s. nseq (n_write reply 42 s) (\<lambda>_. n_free_ret 64 ())) \<and>
    arp_resolve 0x0a000001 sa' = nret (OK, [2, 0, 0, 0, 0, 1]) sa' \<and>
    netin_dispatch 64 (upd_pkt 64 (\<lambda>_. reply) net2) = nseq (n_send 1 sb') (\<lambda>_. n_free_ret 64 ()) \<and>
    arp_resolve 0x0a000002 sb' = nret (OK, [2, 0, 0, 0, 0, 2]) sb'"
proof -
  have d: "NetData net1 = zero_network\<lparr>ipucast := 0x0a000002, ipvalid := True, ethucast := [2, 0, 0, 0, 0, 2], ethbcast := replicate 6 0xff\<rparr>"
      "NetData net2 = zero_network\<lparr>ipucast := 0x0a000001, ipvalid := True, ethucast := [2, 0, 0, 0, 0, 1], ethbcast := replicate 6 0xff\<rparr>"
    by (simp_all add: net1_def net2_def network2_def)
  have c: "arpcache net1 = (\<lambda>_. zero_arp)" by (simp add: net1_def)
  have u: "ARP_SIZ = Suc 15" by (simp add: ARP_SIZ_def)
  have a: "arp_find 0x0a000001 net1 = None" "fst (arp_alloc net1) \<noteq> SYSERR"
    unfolding arp_alloc_def u upt_conv_Cons [OF zero_less_Suc] by (simp_all add: arp_find_def c zero_arp_def find_None_iff SYSERR_def)
  have b: "arp_find 0x0a000002 net2 = Some 3" "arpid (arpcache net2 3) = 1" "arstate (arpcache net2 3) = AR_PENDING"
    by (auto simp: arp_find_def find_Some_iff net2_def ARP_SIZ_def zero_arp_def intro!: exI [of _ 3])
  have n: "unicast_for 0x0a000001 net1" "unicast_for 0x0a000002 net2" by (simp_all add: unicast_for_def d zero_network_def IP_BCAST_def)
  from arp_exchange [of net1 net2 3 64 "[]" 64] show ?thesis using a b n by (simp add: d ARP_LEN_def wake_pending_def)
qed

end
