(* ===== verification/Sorting.thy ===== *)
theory Sorting
  imports Lib "HOL-Library.Multiset"
begin

text \<open>
  \<open>lib/qsort.c\<close>: a quicksort that partitions an array into the elements smaller than the middle one, those equal to it and those greater, in place, for elements of
  any size. The comparison routine is an argument; it reads memory and does not change it.

  The theorem says that the array is sorted and a permutation of what it was. The loop of \<open>qs1\<close> and its recursion have no bound of their own, so both are partial
  functions: \<open>None\<close> is a run that does not end.
\<close>

section \<open>The routines\<close>

text \<open>\<open>qsexc\<close> and \<open>qstexc\<close> are called only for elements of at least one byte.\<close>

fun qsexc_loop :: "nat \<Rightarrow> addr \<Rightarrow> addr \<Rightarrow> bmem \<Rightarrow> bmem" where
  "qsexc_loop 0 ri rj m = m"
| "qsexc_loop (Suc n) ri rj m =
    (let c = m ri; m = m(ri := m rj); m = m(rj := c) in qsexc_loop n (ri + 1) (rj + 1) m)"

definition qsexc :: "u32 \<Rightarrow> addr \<Rightarrow> addr \<Rightarrow> bmem \<Rightarrow> bmem" where
  "qsexc es i j = qsexc_loop (unat es) i j"

fun qstexc_loop :: "nat \<Rightarrow> addr \<Rightarrow> addr \<Rightarrow> addr \<Rightarrow> bmem \<Rightarrow> bmem" where
  "qstexc_loop 0 ri rj rk m = m"
| "qstexc_loop (Suc n) ri rj rk m =
    (let c = m ri; m = m(ri := m rk); m = m(rk := m rj); m = m(rj := c) in qstexc_loop n (ri + 1) (rj + 1) (rk + 1) m)"

definition qstexc :: "u32 \<Rightarrow> addr \<Rightarrow> addr \<Rightarrow> addr \<Rightarrow> bmem \<Rightarrow> bmem" where
  "qstexc es i j k = qstexc_loop (unat es) i j k"

type_synonym compar = "addr \<Rightarrow> addr \<Rightarrow> bmem \<Rightarrow> int"

text \<open>
  The variables of the loop of \<open>qs1\<close>. \<open>up\<close> says that it is at the head of the \<open>for\<close>, not at the label \<open>loop\<close>. A turn of the loop ends it, with the place of the
  elements equal to the middle one, or goes on.
\<close>

record qvars =
  up :: bool
  qi :: addr
  qlp :: addr
  qhp :: addr
  qj :: addr
  qm :: bmem

definition qs_turn :: "compar \<Rightarrow> u32 \<Rightarrow> qvars \<Rightarrow> (addr \<times> addr \<times> bmem) + qvars" where
  "qs_turn fc es s =
    (let i = qi s; lp = qlp s; hp = qhp s; j = qj s; m = qm s in
     if up s \<and> i < lp then
       let c = fc i lp m in
       if c = 0 then Inr (s\<lparr>qlp := lp - es, qm := qsexc es i (lp - es) m\<rparr>)
       else if c < 0 then Inr (s\<lparr>qi := i + es\<rparr>)
       else Inr (s\<lparr>up := False\<rparr>)
     else if j > hp then
       let c = fc hp j m in
       if c = 0 then Inr (s\<lparr>up := False, qhp := hp + es, qm := qsexc es (hp + es) j m\<rparr>)
       else if c > 0 then
         if i = lp then Inr (s\<lparr>up := False, qi := lp + es, qlp := lp + es, qhp := hp + es, qm := qstexc es i (hp + es) j m\<rparr>)
         else Inr (s\<lparr>up := True, qi := i + es, qj := j - es, qm := qsexc es i j m\<rparr>)
       else Inr (s\<lparr>up := False, qj := j - es\<rparr>)
     else if i = lp then Inl (lp, hp, m)
     else Inr (s\<lparr>up := True, qlp := lp - es, qhp := hp - es, qj := hp - es, qm := qstexc es j (lp - es) i m\<rparr>))"

partial_function (option) qs_part :: "compar \<Rightarrow> u32 \<Rightarrow> qvars \<Rightarrow> (addr \<times> addr \<times> bmem) option" where
  "qs_part fc es s = (case qs_turn fc es s of Inl r \<Rightarrow> Some r | Inr s \<Rightarrow> qs_part fc es s)"

text \<open>The shorter part is sorted by a recursive call, the other one by going back to the start.\<close>

partial_function (option) qs1 :: "compar \<Rightarrow> u32 \<Rightarrow> addr \<Rightarrow> addr \<Rightarrow> bmem \<Rightarrow> bmem option" where
  "qs1 fc es a l m =
    (let n = l - a in
     if n \<le> es then Some m
     else
       let n = es * (n div (2 * es)); lp = a + n in
       Option.bind (qs_part fc es \<lparr>up = True, qi = a, qlp = lp, qhp = lp, qj = l - es, qm = m\<rparr>) (\<lambda>(lp, hp, m).
       if sint (lp - a) \<ge> sint (l - hp) then Option.bind (qs1 fc es (hp + es) l m) (\<lambda>m. qs1 fc es a lp m)
       else Option.bind (qs1 fc es a lp m) (\<lambda>m. qs1 fc es (hp + es) l m)))"

definition qsort :: "addr \<Rightarrow> u32 \<Rightarrow> u32 \<Rightarrow> compar \<Rightarrow> bmem \<Rightarrow> bmem option" where
  "qsort a n es fc m = qs1 fc es a (a + n * es) m"

section \<open>Exchanging elements\<close>

definition elem :: "nat \<Rightarrow> addr \<Rightarrow> bmem \<Rightarrow> u8 list" where
  "elem es p m = map (\<lambda>b. m (p + of_nat b)) [0..<es]"

lemma elem_length [simp]: "length (elem es p m) = es"
  by (simp add: elem_def)

lemma elem_eqI: "(\<And>b. b < es \<Longrightarrow> m' (p + of_nat b) = m (q + of_nat b)) \<Longrightarrow> elem es p m' = elem es q m"
  by (simp add: elem_def)

lemma qsexc_loop_self [simp]: "qsexc_loop n p p m = m"
  by (induction n arbitrary: p m) (simp_all add: Let_def)

lemma qstexc_loop_same [simp]: "qstexc_loop n ri rj rj m = qsexc_loop n ri rj m"
proof (induction n arbitrary: ri rj m)
  case (Suc n)
  show ?case by (simp only: qstexc_loop.simps qsexc_loop.simps Let_def fun_upd_triv Suc)
qed simp

definition apart :: "nat \<Rightarrow> addr \<Rightarrow> addr \<Rightarrow> bool" where
  "apart n p q \<longleftrightarrow> (\<forall>u < n. \<forall>v < n. p + of_nat u \<noteq> q + of_nat v)"

lemma apart_Suc: "apart (Suc n) p q \<Longrightarrow> apart n (p + 1) (q + 1)"
  unfolding apart_def by (metis (no_types, lifting) Suc_less_eq add.assoc of_nat_Suc)

lemma apart_first: "apart (Suc n) p q \<Longrightarrow> v < Suc n \<Longrightarrow> p \<noteq> q + of_nat v \<and> q \<noteq> p + of_nat v"
proof -
  assume "apart (Suc n) p q" "v < Suc n"
  then have "p + of_nat 0 \<noteq> q + of_nat v" "p + of_nat v \<noteq> q + of_nat 0" unfolding apart_def by blast+
  then show ?thesis by auto
qed

lemma later_byte: "u < n \<Longrightarrow> Suc n \<le> 2 ^ 32 \<Longrightarrow> p + 1 + of_nat u \<noteq> p" for p :: addr
proof
  assume "u < n" "Suc n \<le> 2 ^ 32" "p + 1 + of_nat u = p"
  then have "(of_nat (Suc u) :: addr) = 0" by (simp add: add.assoc)
  then have "2 ^ 32 dvd Suc u" using word_of_nat_eq_0_iff [where 'a = 32, of "Suc u"] by simp
  then show False using \<open>u < n\<close> \<open>Suc n \<le> 2 ^ 32\<close> by (auto dest: dvd_imp_le)
qed

lemma qsexc_loop_spec:
  assumes "apart n ri rj" and "n < 2 ^ 32"
  shows "u < n \<Longrightarrow> qsexc_loop n ri rj m (ri + of_nat u) = m (rj + of_nat u)" "u < n \<Longrightarrow> qsexc_loop n ri rj m (rj + of_nat u) = m (ri + of_nat u)"
    "(\<And>u. u < n \<Longrightarrow> x \<noteq> ri + of_nat u \<and> x \<noteq> rj + of_nat u) \<Longrightarrow> qsexc_loop n ri rj m x = m x"
proof -
  have "(\<forall>u < n. qsexc_loop n ri rj m (ri + of_nat u) = m (rj + of_nat u) \<and> qsexc_loop n ri rj m (rj + of_nat u) = m (ri + of_nat u)) \<and>
      (\<forall>x. (\<forall>u < n. x \<noteq> ri + of_nat u \<and> x \<noteq> rj + of_nat u) \<longrightarrow> qsexc_loop n ri rj m x = m x)"
    using assms
  proof (induction n arbitrary: ri rj m)
    case (Suc n)
    let ?m = "m(ri := m rj, rj := m ri)"
    let ?r = "qsexc_loop n (ri + 1) (rj + 1) ?m"
    note f = apart_first [OF Suc.prems(1)]
    have n: "n < 2 ^ 32" using Suc.prems(2) by simp
    have ih: "\<And>u. u < n \<Longrightarrow> ?r (ri + 1 + of_nat u) = ?m (rj + 1 + of_nat u) \<and> ?r (rj + 1 + of_nat u) = ?m (ri + 1 + of_nat u)"
        "\<And>x. (\<forall>u < n. x \<noteq> ri + 1 + of_nat u \<and> x \<noteq> rj + 1 + of_nat u) \<Longrightarrow> ?r x = ?m x"
      using Suc.IH [OF apart_Suc [OF Suc.prems(1)] n, of ?m] by blast+
    have p: "ri + 1 + of_nat u = ri + of_nat (Suc u)" "rj + 1 + of_nat u = rj + of_nat (Suc u)" for u by (simp_all add: ac_simps)
    have l: "ri + of_nat (Suc u) \<noteq> ri" "rj + of_nat (Suc u) \<noteq> rj" if "u < n" for u
      using later_byte [OF that, of ri] later_byte [OF that, of rj] Suc.prems(2) unfolding p by simp_all
    have h: "?r ri = m rj" "?r rj = m ri"
    proof -
      have "\<forall>u < n. ri \<noteq> ri + of_nat (Suc u) \<and> ri \<noteq> rj + of_nat (Suc u)" using l f by (metis Suc_less_eq)
      then show "?r ri = m rj" using ih(2) [of ri] f [of 0] unfolding p by simp
      have "\<forall>u < n. rj \<noteq> ri + of_nat (Suc u) \<and> rj \<noteq> rj + of_nat (Suc u)" using l f by (metis Suc_less_eq)
      then show "?r rj = m ri" using ih(2) [of rj] unfolding p by simp
    qed
    have t: "?r (ri + of_nat (Suc u)) = m (rj + of_nat (Suc u))" "?r (rj + of_nat (Suc u)) = m (ri + of_nat (Suc u))" if "u < n" for u
    proof -
      have "Suc u < Suc n" using that by simp
      note g = l [OF that] f [OF this, THEN conjunct1, THEN not_sym] f [OF this, THEN conjunct2, THEN not_sym]
      from g have m: "?m (rj + of_nat (Suc u)) = m (rj + of_nat (Suc u))" "?m (ri + of_nat (Suc u)) = m (ri + of_nat (Suc u))" by (simp_all only: fun_upd_apply if_False)
      show "?r (ri + of_nat (Suc u)) = m (rj + of_nat (Suc u))" "?r (rj + of_nat (Suc u)) = m (ri + of_nat (Suc u))"
        using ih(1) [OF that] unfolding p m by blast+
    qed
    have o: "?r x = m x" if "\<forall>u < Suc n. x \<noteq> ri + of_nat u \<and> x \<noteq> rj + of_nat u" for x
    proof -
      have "\<forall>u < n. x \<noteq> ri + of_nat (Suc u) \<and> x \<noteq> rj + of_nat (Suc u)" using that by blast
      then have "?r x = ?m x" using ih(2) [of x] unfolding p by blast
      moreover have "x \<noteq> ri + of_nat 0 \<and> x \<noteq> rj + of_nat 0" using that by blast
      then have "?m x = m x" by (simp add: fun_upd_apply)
      ultimately show ?thesis by (rule trans)
    qed
    have "qsexc_loop (Suc n) ri rj m = ?r" by (simp add: Let_def)
    moreover have "?r (ri + of_nat u) = m (rj + of_nat u) \<and> ?r (rj + of_nat u) = m (ri + of_nat u)" if "u < Suc n" for u
    proof (cases u)
      case 0
      then show ?thesis using h by simp
    next
      case (Suc w)
      then show ?thesis using t that by simp
    qed
    ultimately show ?case using o by presburger
  qed simp
  then show "u < n \<Longrightarrow> qsexc_loop n ri rj m (ri + of_nat u) = m (rj + of_nat u)" "u < n \<Longrightarrow> qsexc_loop n ri rj m (rj + of_nat u) = m (ri + of_nat u)"
    "(\<And>u. u < n \<Longrightarrow> x \<noteq> ri + of_nat u \<and> x \<noteq> rj + of_nat u) \<Longrightarrow> qsexc_loop n ri rj m x = m x" by blast+
qed

definition beside :: "nat \<Rightarrow> addr \<Rightarrow> addr \<Rightarrow> bool" where
  "beside n x p \<longleftrightarrow> (\<forall>u < n. x \<noteq> p + of_nat u)"

lemma beside_Suc: "beside (Suc n) x p \<Longrightarrow> x \<noteq> p \<and> beside n x (p + 1)"
proof -
  assume b: "beside (Suc n) x p"
  then have "x \<noteq> p + of_nat 0" "\<And>u. u < n \<Longrightarrow> x \<noteq> p + of_nat (Suc u)" unfolding beside_def by blast+
  then show ?thesis by (simp add: beside_def add.assoc)
qed

lemma qsexc_loop_upd: "beside n x p \<Longrightarrow> beside n x q \<Longrightarrow> qsexc_loop n p q (m(x := v)) = (qsexc_loop n p q m)(x := v)"
proof (induction n arbitrary: p q m)
  case (Suc n)
  note b = beside_Suc [OF Suc.prems(1)] beside_Suc [OF Suc.prems(2)]
  have "(m(x := v))(p := (m(x := v)) q, q := (m(x := v)) p) = (m(p := m q, q := m p))(x := v)" using b by (auto simp: fun_eq_iff)
  then show ?case using Suc.IH b by (simp add: Let_def del: fun_upd_apply)
qed simp

lemma qsexc_loop_beside: "beside n x p \<Longrightarrow> beside n x q \<Longrightarrow> qsexc_loop n p q m x = m x"
proof (induction n arbitrary: p q m)
  case (Suc n)
  note b = beside_Suc [OF Suc.prems(1)] beside_Suc [OF Suc.prems(2)]
  then show ?case using Suc.IH by (simp add: Let_def)
qed simp

lemma apart_beside: "apart (Suc n) p q \<Longrightarrow> beside n p (q + 1) \<and> beside n q (p + 1)"
  using beside_Suc [of n p q] beside_Suc [of n q p] apart_first [of n p q] by (simp add: beside_def)

lemma beside_self: "Suc n \<le> 2 ^ 32 \<Longrightarrow> beside n p (p + 1)"
  unfolding beside_def using later_byte [of _ n p] by metis

lemma qstexc_loop_eq:
  assumes "apart n ri rk" "apart n ri rj" "apart n rj rk" "n < 2 ^ 32"
  shows "qstexc_loop n ri rj rk m = qsexc_loop n rk rj (qsexc_loop n ri rk m)"
  using assms
proof (induction n arbitrary: ri rj rk m)
  case (Suc n)
  let ?m = "m(ri := m rk, rk := m ri)"
  let ?q = "qsexc_loop n (ri + 1) (rk + 1)"
  have n: "n < 2 ^ 32" "Suc n \<le> 2 ^ 32" using Suc.prems(4) by simp_all
  have ne: "ri \<noteq> rk" "ri \<noteq> rj" "rj \<noteq> rk"
    using apart_first [OF Suc.prems(1), of 0] apart_first [OF Suc.prems(2), of 0] apart_first [OF Suc.prems(3), of 0] by simp_all
  have b: "beside n rk (ri + 1)" "beside n rk (rk + 1)" "beside n rj (ri + 1)" "beside n rj (rk + 1)"
    using apart_beside [OF Suc.prems(1)] apart_beside [OF Suc.prems(2)] apart_beside [OF Suc.prems(3)] beside_self [OF n(2)] by simp_all
  have "m(ri := m rk, rk := m rj, rj := m ri) = ?m(rk := ?m rj, rj := ?m rk)" using ne by (auto simp: fun_eq_iff)
  then have "qstexc_loop (Suc n) ri rj rk m = qsexc_loop n (rk + 1) (rj + 1) (?q (?m(rk := ?m rj, rj := ?m rk)))"
    using Suc.IH [OF apart_Suc apart_Suc apart_Suc n(1)] Suc.prems by (simp only: qstexc_loop.simps Let_def fun_upd_other [OF ne(2) [symmetric]])
  also have "\<dots> = qsexc_loop n (rk + 1) (rj + 1) ((?q ?m)(rk := ?m rj, rj := ?m rk))"
    by (simp only: qsexc_loop_upd [OF b(1,2)] qsexc_loop_upd [OF b(3,4)])
  also have "\<dots> = qsexc_loop (Suc n) rk rj (qsexc_loop (Suc n) ri rk m)"
    by (simp only: qsexc_loop.simps Let_def qsexc_loop_beside [OF b(1,2)] qsexc_loop_beside [OF b(3,4)])
  finally show ?case .
qed simp

section \<open>The array\<close>

text \<open>An array of \<open>N\<close> elements of \<open>es\<close> bytes at \<open>a\<close>, in memory that does not wrap around.\<close>

definition fits :: "addr \<Rightarrow> nat \<Rightarrow> nat \<Rightarrow> bool" where
  "fits a es N \<longleftrightarrow> 0 < es \<and> es * N < 2 ^ 31 \<and> unat a + es * N < 2 ^ 32"

definition at :: "addr \<Rightarrow> nat \<Rightarrow> nat \<Rightarrow> addr" where
  "at a es k = a + of_nat (es * k)"

definition arr :: "addr \<Rightarrow> nat \<Rightarrow> nat \<Rightarrow> bmem \<Rightarrow> u8 list list" where
  "arr a es N m = map (\<lambda>k. elem es (at a es k) m) [0..<N]"

lemma unat_offset: "fits a es N \<Longrightarrow> q \<le> es * N \<Longrightarrow> unat (a + of_nat q) = unat a + q"
proof -
  assume "fits a es N" "q \<le> es * N"
  then have q: "unat a + q < 2 ^ 32" by (simp add: fits_def)
  then have "unat (of_nat q :: addr) = q" by (simp add: unsigned_of_nat take_bit_nat_eq_self)
  then show ?thesis using q by (subst unat_add_lem [THEN iffD1]) simp_all
qed

lemma unat_at: "fits a es N \<Longrightarrow> k \<le> N \<Longrightarrow> unat (at a es k) = unat a + es * k"
  using unat_offset [of a es N "es * k"] mult_le_mono2 [of k N es] by (simp only: at_def)

lemma byte_at: "fits a es N \<Longrightarrow> k < N \<Longrightarrow> b < es \<Longrightarrow> unat (at a es k + of_nat b) = unat a + (es * k + b)"
proof -
  assume f: "fits a es N" "k < N" "b < es"
  have "es * k + b \<le> es * Suc k" using f(3) by simp
  also have "\<dots> \<le> es * N" using f(2) by (intro mult_le_mono2) simp
  finally have "es * k + b \<le> es * N" .
  from unat_offset [OF f(1) this] show ?thesis by (simp add: at_def add.assoc)
qed

lemma byte_place: "b < es \<Longrightarrow> b' < es \<Longrightarrow> es * k + b = es * k' + b' \<longleftrightarrow> k = k' \<and> b = b'" for es :: nat
proof
  assume b: "b < es" "b' < es" and e: "es * k + b = es * k' + b'"
  have "(es * k + b) div es = k" "(es * k' + b') div es = k'" using b by simp_all
  then have "k = k'" using e by simp
  then show "k = k' \<and> b = b'" using e by simp
qed simp

lemma bytes_eq:
  "fits a es N \<Longrightarrow> k < N \<Longrightarrow> k' < N \<Longrightarrow> b < es \<Longrightarrow> b' < es \<Longrightarrow> at a es k + of_nat b = at a es k' + of_nat b' \<longleftrightarrow> k = k' \<and> b = b'"
proof -
  assume f: "fits a es N" "k < N" "k' < N" "b < es" "b' < es"
  have "at a es k + of_nat b = at a es k' + of_nat b' \<longleftrightarrow> unat (at a es k + of_nat b) = unat (at a es k' + of_nat b')" by (simp only: word_unat_eq_iff)
  also have "\<dots> \<longleftrightarrow> es * k + b = es * k' + b'" using byte_at [OF f(1,2,4)] byte_at [OF f(1,3,5)] by simp
  finally show ?thesis using byte_place [OF f(4,5)] by simp
qed

lemma at_apart: "fits a es N \<Longrightarrow> i < N \<Longrightarrow> j < N \<Longrightarrow> i \<noteq> j \<Longrightarrow> apart es (at a es i) (at a es j)"
  using bytes_eq [of a es N i j] by (simp add: apart_def)

lemma at_less: "fits a es N \<Longrightarrow> i \<le> N \<Longrightarrow> j \<le> N \<Longrightarrow> at a es i < at a es j \<longleftrightarrow> i < j"
  using unat_at [of a es N i] unat_at [of a es N j] by (auto simp: word_less_nat_alt fits_def)

lemma at_eq: "fits a es N \<Longrightarrow> i \<le> N \<Longrightarrow> j \<le> N \<Longrightarrow> at a es i = at a es j \<longleftrightarrow> i = j"
  using unat_at [of a es N i] unat_at [of a es N j] by (auto simp: word_unat_eq_iff fits_def)

lemma at_step: "at a es k + of_nat es = at a es (Suc k)" "0 < k \<Longrightarrow> at a es k - of_nat es = at a es (k - 1)"
proof -
  show s: "at a es k + of_nat es = at a es (Suc k)" for k by (simp add: at_def algebra_simps)
  show "0 < k \<Longrightarrow> at a es k - of_nat es = at a es (k - 1)" using s [of "k - 1"] by (simp add: eq_diff_eq [symmetric] eq_commute)
qed

text \<open>Exchanging elements of the array; nothing else changes.\<close>

definition outside :: "addr \<Rightarrow> nat \<Rightarrow> nat \<Rightarrow> addr \<Rightarrow> bool" where
  "outside a es N x \<longleftrightarrow> \<not> (unat a \<le> unat x \<and> unat x < unat a + es * N)"

lemma outside_byte: "fits a es N \<Longrightarrow> outside a es N x \<Longrightarrow> k < N \<Longrightarrow> b < es \<Longrightarrow> x \<noteq> at a es k + of_nat b"
proof
  assume f: "fits a es N" "k < N" "b < es" and o: "outside a es N x" and x: "x = at a es k + of_nat b"
  have "es * k + b < es * Suc k" using f(3) by simp
  also have "\<dots> \<le> es * N" using f(2) by (intro mult_le_mono2) simp
  finally show False using byte_at [OF f] o by (simp add: outside_def x)
qed

lemma arr_nth [simp]: "k < N \<Longrightarrow> arr a es N m ! k = elem es (at a es k) m"
  by (simp add: arr_def)

lemma arr_length [simp]: "length (arr a es N m) = N"
  by (simp add: arr_def)

lemma fits_size: "fits a es N \<Longrightarrow> 0 < N \<Longrightarrow> es < 2 ^ 32 \<and> unat (of_nat es :: addr) = es"
proof -
  assume f: "fits a es N" "0 < N"
  then have "es \<le> es * N" by (cases N) simp_all
  moreover have "es * N < 2 ^ 31" using f(1) by (simp add: fits_def)
  ultimately have "es < 2 ^ 31" by (rule le_less_trans)
  then have "es < 2 ^ 32" by simp
  then show ?thesis by (simp add: unsigned_of_nat take_bit_nat_eq_self)
qed

lemma qsexc_arr:
  assumes f: "fits a es N" and i: "i < N" and j: "j < N"
  shows "arr a es N (qsexc (of_nat es) (at a es i) (at a es j) m) = (arr a es N m)[i := arr a es N m ! j, j := arr a es N m ! i]"
    "outside a es N x \<Longrightarrow> qsexc (of_nat es) (at a es i) (at a es j) m x = m x"
proof -
  have es: "es < 2 ^ 32" "unat (of_nat es :: addr) = es" using fits_size [OF f] i by auto
  let ?m = "qsexc (of_nat es) (at a es i) (at a es j) m"
  have q: "?m = qsexc_loop es (at a es i) (at a es j) m" by (simp only: qsexc_def es)
  have "arr a es N ?m = (arr a es N m)[i := arr a es N m ! j, j := arr a es N m ! i] \<and> (outside a es N x \<longrightarrow> ?m x = m x)"
  proof (cases "i = j")
    case True
    have "qsexc (of_nat es) (at a es i) (at a es i) m = m" by (simp only: qsexc_def qsexc_loop_self)
    then show ?thesis unfolding True [symmetric] list_update_id by simp
  next
    case False
    note sp = qsexc_loop_spec [OF at_apart [OF f i j False] es(1)]
    have "arr a es N ?m ! k = (arr a es N m)[i := arr a es N m ! j, j := arr a es N m ! i] ! k" if k: "k < N" for k
    proof -
      have "elem es (at a es k) ?m = elem es (at a es (if k = i then j else if k = j then i else k)) m"
      proof (rule elem_eqI)
        fix b assume b: "b < es"
        show "?m (at a es k + of_nat b) = m (at a es (if k = i then j else if k = j then i else k) + of_nat b)"
          using sp(1,2) [OF b, of m] sp(3) [of "at a es k + of_nat b" m] bytes_eq [OF f k i b] bytes_eq [OF f k j b] False by (auto simp: q)
      qed
      then show ?thesis using i j k False by (simp add: nth_list_update)
    qed
    then have "arr a es N ?m = (arr a es N m)[i := arr a es N m ! j, j := arr a es N m ! i]" by (intro nth_equalityI) simp_all
    moreover have "?m x = m x" if "outside a es N x" using sp(3) [of x m] outside_byte [OF f that] i j by (simp add: q)
    ultimately show ?thesis by blast
  qed
  then show "arr a es N ?m = (arr a es N m)[i := arr a es N m ! j, j := arr a es N m ! i]" "outside a es N x \<Longrightarrow> ?m x = m x" by blast+
qed

lemma qstexc_arr:
  assumes f: "fits a es N" and i: "i < N" and j: "j < N" and k: "k < N" and d: "i \<noteq> j" "i \<noteq> k"
  shows "arr a es N (qstexc (of_nat es) (at a es i) (at a es j) (at a es k) m) =
      (arr a es N m)[i := arr a es N m ! k, k := arr a es N m ! j, j := arr a es N m ! i]"
    "outside a es N x \<Longrightarrow> qstexc (of_nat es) (at a es i) (at a es j) (at a es k) m x = m x"
proof -
  have es: "es < 2 ^ 32" "unat (of_nat es :: addr) = es" using fits_size [OF f] i by auto
  have q: "qstexc (of_nat es) (at a es i) (at a es j) (at a es k) m = qsexc (of_nat es) (at a es k) (at a es j) (qsexc (of_nat es) (at a es i) (at a es k) m)"
  proof (cases "j = k")
    case True
    then show ?thesis by (simp add: qstexc_def qsexc_def)
  next
    case False
    then show ?thesis using qstexc_loop_eq [OF at_apart [OF f i k] at_apart [OF f i j] at_apart [OF f j k]] d es by (simp add: qstexc_def qsexc_def)
  qed
  show "arr a es N (qstexc (of_nat es) (at a es i) (at a es j) (at a es k) m) =
      (arr a es N m)[i := arr a es N m ! k, k := arr a es N m ! j, j := arr a es N m ! i]"
    unfolding q qsexc_arr(1) [OF f k j] qsexc_arr(1) [OF f i k] using i j k d
    by (intro nth_equalityI) (auto simp: nth_list_update)
  show "outside a es N x \<Longrightarrow> qstexc (of_nat es) (at a es i) (at a es j) (at a es k) m x = m x"
    unfolding q by (simp add: qsexc_arr(2) [OF f k j] qsexc_arr(2) [OF f i k])
qed

section \<open>Partitioning\<close>

text \<open>A comparison routine for a key of the elements.\<close>

definition compares :: "compar \<Rightarrow> nat \<Rightarrow> (u8 list \<Rightarrow> 'k :: linorder) \<Rightarrow> bool" where
  "compares fc es key \<longleftrightarrow> (\<forall>p q m. (fc p q m < 0 \<longleftrightarrow> key (elem es p m) < key (elem es q m)) \<and> (fc p q m = 0 \<longleftrightarrow> key (elem es p m) = key (elem es q m)))"

text \<open>The elements from \<open>s\<close> up to \<open>l\<close> in another order.\<close>

definition shuffled :: "nat \<Rightarrow> nat \<Rightarrow> 'a list \<Rightarrow> 'a list \<Rightarrow> bool" where
  "shuffled s l xs ys \<longleftrightarrow> length ys = length xs \<and> mset ys = mset xs \<and> (\<forall>k < length xs. k < s \<or> l \<le> k \<longrightarrow> ys ! k = xs ! k)"

lemma shuffled_refl [simp]: "shuffled s l xs xs"
  by (simp add: shuffled_def)

lemma shuffled_trans: "shuffled s l xs ys \<Longrightarrow> shuffled s l ys zs \<Longrightarrow> shuffled s l xs zs"
  by (simp add: shuffled_def)

lemma shuffled_wider: "shuffled s l xs ys \<Longrightarrow> s' \<le> s \<Longrightarrow> l \<le> l' \<Longrightarrow> shuffled s' l' xs ys"
  by (auto simp: shuffled_def)

lemma shuffled_swap: "s \<le> i \<Longrightarrow> i < l \<Longrightarrow> s \<le> j \<Longrightarrow> j < l \<Longrightarrow> l \<le> length xs \<Longrightarrow> shuffled s l xs (xs[i := xs ! j, j := xs ! i])"
  by (auto simp: shuffled_def mset_swap)

lemma shuffled_cycle:
  assumes "s \<le> i" "i < l" "s \<le> j" "j < l" "s \<le> k" "k < l" "l \<le> length xs" "i \<noteq> j" "i \<noteq> k"
  shows "shuffled s l xs (xs[i := xs ! k, k := xs ! j, j := xs ! i])"
proof -
  let ?ys = "xs[i := xs ! k, k := xs ! i]"
  have "?ys[k := ?ys ! j, j := ?ys ! k] = xs[i := xs ! k, k := xs ! j, j := xs ! i]"
    using assms by (intro nth_equalityI) (auto simp: nth_list_update)
  moreover have "shuffled s l xs ?ys" using assms by (intro shuffled_swap) simp_all
  moreover have "shuffled s l ?ys (?ys[k := ?ys ! j, j := ?ys ! k])" using assms by (intro shuffled_swap) simp_all
  ultimately show ?thesis using shuffled_trans by metis
qed

text \<open>What holds at every turn: from \<open>s\<close> up to \<open>i\<close> the keys are smaller than \<open>v\<close>, from \<open>lp\<close> to \<open>hp\<close> equal to it and behind \<open>j\<close> greater.\<close>

definition part_inv :: "('a \<Rightarrow> 'k :: linorder) \<Rightarrow> 'k \<Rightarrow> nat \<Rightarrow> nat \<Rightarrow> bool \<Rightarrow> nat \<Rightarrow> nat \<Rightarrow> nat \<Rightarrow> nat \<Rightarrow> 'a list \<Rightarrow> bool" where
  "part_inv key v s l u i lp hp j xs \<longleftrightarrow> s \<le> i \<and> i \<le> lp \<and> lp \<le> hp \<and> hp \<le> j \<and> j < l \<and> l \<le> length xs \<and>
    (\<forall>k. s \<le> k \<and> k < i \<longrightarrow> key (xs ! k) < v) \<and> (\<forall>k. lp \<le> k \<and> k \<le> hp \<longrightarrow> key (xs ! k) = v) \<and> (\<forall>k. j < k \<and> k < l \<longrightarrow> v < key (xs ! k)) \<and>
    (\<not> u \<and> i < lp \<longrightarrow> v < key (xs ! i))"

lemma part_inv_equal_low:
  assumes "part_inv key v s l u i lp hp j xs" "i < lp" "key (xs ! i) = v"
  shows "part_inv key v s l True i (lp - 1) hp j (xs[i := xs ! (lp - 1), lp - 1 := xs ! i])"
  using assms by (auto simp: part_inv_def nth_list_update)

lemma part_inv_less:
  assumes "part_inv key v s l u i lp hp j xs" "i < lp" "key (xs ! i) < v"
  shows "part_inv key v s l True (Suc i) lp hp j xs"
  using assms by (auto simp: part_inv_def less_Suc_eq)

lemma part_inv_greater:
  assumes "part_inv key v s l u i lp hp j xs" "v < key (xs ! i)"
  shows "part_inv key v s l False i lp hp j xs"
  using assms by (auto simp: part_inv_def)

lemma part_inv_equal_high:
  assumes "part_inv key v s l u i lp hp j xs" "\<not> (u \<and> i < lp)" "hp < j" "key (xs ! j) = v"
  shows "part_inv key v s l False i lp (Suc hp) j (xs[Suc hp := xs ! j, j := xs ! Suc hp])"
  using assms by (auto simp: part_inv_def nth_list_update le_Suc_eq)

lemma part_inv_rotate:
  assumes "part_inv key v s l u i lp hp j xs" "i = lp" "hp < j" "key (xs ! j) < v"
  shows "part_inv key v s l False (Suc lp) (Suc lp) (Suc hp) j (xs[i := xs ! j, j := xs ! Suc hp, Suc hp := xs ! i])"
  using assms by (auto simp: part_inv_def nth_list_update le_Suc_eq less_Suc_eq)

lemma part_inv_swap:
  assumes "part_inv key v s l u i lp hp j xs" "\<not> u" "i < lp" "hp < j" "key (xs ! j) < v"
  shows "part_inv key v s l True (Suc i) lp hp (j - 1) (xs[i := xs ! j, j := xs ! i])"
  using assms by (auto simp: part_inv_def nth_list_update less_Suc_eq)

lemma part_inv_high:
  assumes "part_inv key v s l u i lp hp j xs" "\<not> (u \<and> i < lp)" "hp < j" "v < key (xs ! j)"
  shows "part_inv key v s l False i lp hp (j - 1) xs"
proof -
  have "k = j \<or> j < k" if "j - 1 < k" for k using that by linarith
  then show ?thesis using assms by (auto simp: part_inv_def)
qed

lemma part_inv_shift:
  assumes "part_inv key v s l u i lp hp j xs" "\<not> u" "i < lp" "j = hp"
  shows "part_inv key v s l True i (lp - 1) (hp - 1) (hp - 1) (xs[j := xs ! i, i := xs ! (lp - 1), lp - 1 := xs ! j])"
proof -
  have e: "lp \<le> k \<and> k \<le> hp" if "lp - Suc 0 \<le> k" "k \<le> hp - Suc 0" "lp - Suc 0 \<noteq> k" for k using that by linarith
  show ?thesis using assms by (auto simp: part_inv_def nth_list_update dest!: e)
qed

definition parted :: "('a \<Rightarrow> 'k :: linorder) \<Rightarrow> 'k \<Rightarrow> nat \<Rightarrow> nat \<Rightarrow> nat \<Rightarrow> nat \<Rightarrow> 'a list \<Rightarrow> bool" where
  "parted key v s l lp hp xs \<longleftrightarrow> s \<le> lp \<and> lp \<le> hp \<and> hp < l \<and> l \<le> length xs \<and> (\<forall>k. s \<le> k \<and> k < lp \<longrightarrow> key (xs ! k) < v) \<and>
    (\<forall>k. lp \<le> k \<and> k \<le> hp \<longrightarrow> key (xs ! k) = v) \<and> (\<forall>k. hp < k \<and> k < l \<longrightarrow> v < key (xs ! k))"

lemma part_inv_end: "part_inv key v s l u lp lp hp hp xs \<Longrightarrow> parted key v s l lp hp xs"
  by (simp add: part_inv_def parted_def)

definition vars_at :: "addr \<Rightarrow> nat \<Rightarrow> bool \<Rightarrow> nat \<Rightarrow> nat \<Rightarrow> nat \<Rightarrow> nat \<Rightarrow> bmem \<Rightarrow> qvars" where
  "vars_at a es u i lp hp j m = \<lparr>up = u, qi = at a es i, qlp = at a es lp, qhp = at a es hp, qj = at a es j, qm = m\<rparr>"

text \<open>A turn from a state with the invariant: the loop ends, or the invariant holds again, nearer to the end.\<close>

lemma qs_turn_step:
  assumes f: "fits a es N" and c: "compares fc es key" and inv: "part_inv key v s l u i lp hp j (arr a es N m)" and lN: "l \<le> N"
  shows "(\<exists>u' i' lp' hp' j' m'. qs_turn fc (of_nat es) (vars_at a es u i lp hp j m) = Inr (vars_at a es u' i' lp' hp' j' m') \<and>
      part_inv key v s l u' i' lp' hp' j' (arr a es N m') \<and> shuffled s l (arr a es N m) (arr a es N m') \<and> (\<forall>x. outside a es N x \<longrightarrow> m' x = m x) \<and>
      2 * ((lp' - i') + (j' - hp')) + of_bool u' < 2 * ((lp - i) + (j - hp)) + (of_bool u :: nat)) \<or>
    (i = lp \<and> j = hp \<and> qs_turn fc (of_nat es) (vars_at a es u i lp hp j m) = Inl (at a es lp, at a es hp, m))"
proof -
  let ?xs = "arr a es N m" and ?t = "qs_turn fc (of_nat es) (vars_at a es u i lp hp j m)"
  have o: "s \<le> i" "i \<le> lp" "lp \<le> hp" "hp \<le> j" "j < l" "i < N" "lp < N" "hp < N" "j < N" using inv lN by (auto simp: part_inv_def)
  have v: "key (?xs ! lp) = v" "key (?xs ! hp) = v" using inv o by (simp_all add: part_inv_def)
  have ord: "at a es i < at a es lp \<longleftrightarrow> i < lp" "at a es hp < at a es j \<longleftrightarrow> hp < j" "at a es i = at a es lp \<longleftrightarrow> i = lp"
    using o by (simp_all add: at_less [OF f] at_eq [OF f])
  have ci: "fc (at a es i) (at a es lp) m = 0 \<longleftrightarrow> key (?xs ! i) = v" "fc (at a es i) (at a es lp) m < 0 \<longleftrightarrow> key (?xs ! i) < v"
    using c v(1) o by (simp_all add: compares_def)
  have cj: "fc (at a es hp) (at a es j) m = 0 \<longleftrightarrow> key (?xs ! j) = v" "fc (at a es hp) (at a es j) m < 0 \<longleftrightarrow> v < key (?xs ! j)"
    using c v(2) o by (auto simp: compares_def)
  note st = at_step [where a = a and es = es]
  have nx: ?thesis if "?t = Inr (vars_at a es u' i' lp' hp' j' m')" "part_inv key v s l u' i' lp' hp' j' (arr a es N m')" "shuffled s l ?xs (arr a es N m')"
      "\<And>x. outside a es N x \<Longrightarrow> m' x = m x" "2 * ((lp' - i') + (j' - hp')) + of_bool u' < 2 * ((lp - i) + (j - hp)) + (of_bool u :: nat)" for u' i' lp' hp' j' m'
    using that by blast
  have t: "qs_turn fc (of_nat es) (vars_at a es u i lp hp j m) =
    (if u \<and> i < lp then
       if key (?xs ! i) = v then Inr (vars_at a es u i (lp - 1) hp j (qsexc (of_nat es) (at a es i) (at a es (lp - 1)) m))
       else if key (?xs ! i) < v then Inr (vars_at a es u (Suc i) lp hp j m)
       else Inr (vars_at a es False i lp hp j m)
     else if hp < j then
       if key (?xs ! j) = v then Inr (vars_at a es False i lp (Suc hp) j (qsexc (of_nat es) (at a es (Suc hp)) (at a es j) m))
       else if key (?xs ! j) < v then
         if i = lp then Inr (vars_at a es False (Suc lp) (Suc lp) (Suc hp) j (qstexc (of_nat es) (at a es i) (at a es (Suc hp)) (at a es j) m))
         else Inr (vars_at a es True (Suc i) lp hp (j - 1) (qsexc (of_nat es) (at a es i) (at a es j) m))
       else Inr (vars_at a es False i lp hp (j - 1) m)
     else if i = lp then Inl (at a es lp, at a es hp, m)
     else Inr (vars_at a es True i (lp - 1) (hp - 1) (hp - 1) (qstexc (of_nat es) (at a es j) (at a es (lp - 1)) (at a es i) m)))"
  proof -
    have d: "i < lp \<Longrightarrow> at a es lp - of_nat es = at a es (lp - 1)" "hp < j \<Longrightarrow> at a es j - of_nat es = at a es (j - 1)"
        "i < lp \<Longrightarrow> at a es hp - of_nat es = at a es (hp - 1)" using st(2) o by auto
    have g: "0 < fc (at a es hp) (at a es j) m \<longleftrightarrow> key (?xs ! j) < v" using cj by (metis less_linear not_less_iff_gr_or_eq)
    have l: "i < lp \<or> i = lp" using o by linarith
    show ?thesis
    proof (cases "i < lp")
      case True
      then show ?thesis unfolding qs_turn_def vars_at_def Let_def using ord ci cj g d st(1) by (cases u; cases "hp < j") (simp_all del: arr_nth)
    next
      case False
      then have "i = lp" using o by linarith
      with False show ?thesis unfolding qs_turn_def vars_at_def Let_def using ord cj g d st(1) by (cases "hp < j") (simp_all del: arr_nth)
    qed
  qed
  have lx: "l \<le> length ?xs" using lN by simp
  consider "u" "i < lp" "key (?xs ! i) = v" | "u" "i < lp" "key (?xs ! i) < v" | "u" "i < lp" "v < key (?xs ! i)"
    | "\<not> (u \<and> i < lp)" "hp < j" "key (?xs ! j) = v" | "i = lp" "hp < j" "key (?xs ! j) < v" | "\<not> u" "i < lp" "hp < j" "key (?xs ! j) < v"
    | "\<not> (u \<and> i < lp)" "hp < j" "v < key (?xs ! j)" | "\<not> u" "i < lp" "j = hp" | "i = lp" "j = hp"
    using o by (metis le_neq_implies_less less_linear)
  then show ?thesis
  proof cases
    case 1
    have "lp - 1 < N" using o by simp
    note q = qsexc_arr [OF f o(6) this, where m = m]
    show ?thesis
      by (rule nx [of True i "lp - 1" hp j "qsexc (of_nat es) (at a es i) (at a es (lp - 1)) m"], subst t)
        (use 1 o in \<open>simp_all add: q part_inv_equal_low [OF inv] shuffled_swap lN del: arr_nth One_nat_def\<close>)
  next
    case 2
    show ?thesis by (rule nx [of True "Suc i" lp hp j m], subst t) (use 2 o in \<open>simp_all add: part_inv_less [OF inv] del: arr_nth One_nat_def\<close>)
  next
    case 3
    show ?thesis by (rule nx [of False i lp hp j m], subst t) (use 3 o in \<open>simp_all add: part_inv_greater [OF inv] del: arr_nth One_nat_def\<close>)
  next
    case 4
    have "Suc hp < N" using o 4 by simp
    note q = qsexc_arr [OF f this o(9), where m = m]
    show ?thesis
      by (rule nx [of False i lp "Suc hp" j "qsexc (of_nat es) (at a es (Suc hp)) (at a es j) m"], subst t, subst if_not_P [OF 4(1)])
        (use 4 o in \<open>simp_all add: q part_inv_equal_high [OF inv] shuffled_swap lN del: arr_nth One_nat_def\<close>)
  next
    case 5
    have h: "Suc hp < N" using o 5 by simp
    have ne: "i \<noteq> Suc hp" "i \<noteq> j" using o 5 by simp_all
    note q = qstexc_arr [OF f o(6) h o(9) ne, where m = m]
    show ?thesis
      by (rule nx [of False "Suc lp" "Suc lp" "Suc hp" j "qstexc (of_nat es) (at a es i) (at a es (Suc hp)) (at a es j) m"], subst t)
        (use 5 o in \<open>simp_all add: q [unfolded 5(1)] part_inv_rotate [OF inv, unfolded 5(1)] shuffled_cycle lN del: arr_nth One_nat_def\<close>)
  next
    case 6
    note q = qsexc_arr [OF f o(6,9), where m = m]
    show ?thesis
      by (rule nx [of True "Suc i" lp hp "j - 1" "qsexc (of_nat es) (at a es i) (at a es j) m"], subst t)
        (use 6 o in \<open>simp_all add: q part_inv_swap [OF inv] shuffled_swap lN del: arr_nth One_nat_def\<close>)
  next
    case 7
    show ?thesis by (rule nx [of False i lp hp "j - 1" m], subst t, subst if_not_P [OF 7(1)]) (use 7 o in \<open>simp_all add: part_inv_high [OF inv] del: arr_nth One_nat_def\<close>)
  next
    case 8
    have h: "lp - 1 < N" using o by simp
    have ne: "j \<noteq> lp - 1" "j \<noteq> i" using o 8 by simp_all
    note q = qstexc_arr [OF f o(9) h o(6) ne, where m = m]
    show ?thesis
      by (rule nx [of True i "lp - 1" "hp - 1" "hp - 1" "qstexc (of_nat es) (at a es j) (at a es (lp - 1)) (at a es i) m"], subst t)
        (use 8 o in \<open>simp_all add: q [unfolded 8(3)] part_inv_shift [OF inv, unfolded 8(3)] shuffled_cycle lN del: arr_nth One_nat_def\<close>)
  next
    case 9
    then show ?thesis unfolding t by simp
  qed
qed

lemma qs_part_parts:
  assumes f: "fits a es N" and c: "compares fc es key" and "part_inv key v s l u i lp hp j (arr a es N m)" and lN: "l \<le> N"
  shows "\<exists>lp' hp' m'. qs_part fc (of_nat es) (vars_at a es u i lp hp j m) = Some (at a es lp', at a es hp', m') \<and> parted key v s l lp' hp' (arr a es N m') \<and>
    shuffled s l (arr a es N m) (arr a es N m') \<and> (\<forall>x. outside a es N x \<longrightarrow> m' x = m x)"
  using assms(3)
proof (induction "2 * ((lp - i) + (j - hp)) + (of_bool u :: nat)" arbitrary: u i lp hp j m rule: less_induct)
  case less
  from qs_turn_step [OF f c less.prems lN] show ?case
  proof (elim disjE exE conjE)
    fix u' i' lp' hp' j' m'
    assume t: "qs_turn fc (of_nat es) (vars_at a es u i lp hp j m) = Inr (vars_at a es u' i' lp' hp' j' m')" "part_inv key v s l u' i' lp' hp' j' (arr a es N m')"
      "shuffled s l (arr a es N m) (arr a es N m')" "\<forall>x. outside a es N x \<longrightarrow> m' x = m x"
      "2 * ((lp' - i') + (j' - hp')) + of_bool u' < 2 * ((lp - i) + (j - hp)) + (of_bool u :: nat)"
    from less.hyps [OF t(5,2)] obtain lp'' hp'' m'' where
      r: "qs_part fc (of_nat es) (vars_at a es u' i' lp' hp' j' m') = Some (at a es lp'', at a es hp'', m'')" "parted key v s l lp'' hp'' (arr a es N m'')"
        "shuffled s l (arr a es N m') (arr a es N m'')" "\<forall>x. outside a es N x \<longrightarrow> m'' x = m' x" by blast
    have "qs_part fc (of_nat es) (vars_at a es u i lp hp j m) = Some (at a es lp'', at a es hp'', m'')" by (subst qs_part.simps) (simp add: t(1) r(1))
    then show ?case using r t(4) shuffled_trans [OF t(3) r(3)] by (intro exI [of _ lp''] exI [of _ hp''] exI [of _ m'']) simp
  next
    assume t: "i = lp" "j = hp" "qs_turn fc (of_nat es) (vars_at a es u i lp hp j m) = Inl (at a es lp, at a es hp, m)"
    have "qs_part fc (of_nat es) (vars_at a es u i lp hp j m) = Some (at a es lp, at a es hp, m)" by (subst qs_part.simps) (simp add: t(3))
    moreover have "parted key v s l lp hp (arr a es N m)" using less.prems unfolding t(1,2) by (rule part_inv_end)
    ultimately show ?case by (intro exI [of _ lp] exI [of _ hp] exI [of _ m]) simp
  qed
qed

section \<open>Sorting\<close>

definition sorted_from :: "('a \<Rightarrow> 'k :: linorder) \<Rightarrow> nat \<Rightarrow> nat \<Rightarrow> 'a list \<Rightarrow> bool" where
  "sorted_from key s l xs \<longleftrightarrow> (\<forall>p q. s \<le> p \<and> p \<le> q \<and> q < l \<longrightarrow> key (xs ! p) \<le> key (xs ! q))"

lemma shuffled_segment:
  assumes "shuffled s l xs ys" "s \<le> l" "l \<le> length xs"
  shows "mset (take (l - s) (drop s ys)) = mset (take (l - s) (drop s xs))"
proof -
  have d: "mset zs = mset (take s zs) + mset (take (l - s) (drop s zs)) + mset (drop l zs)" if "length zs = length xs" for zs
  proof -
    have "take s zs @ take (l - s) (drop s zs) @ drop l zs = zs"
      using assms(2) by (metis append_take_drop_id drop_drop le_add_diff_inverse2)
    then show ?thesis by (metis mset_append add.assoc)
  qed
  have n: "length ys = length xs" using assms(1) by (simp add: shuffled_def)
  have "take s ys = take s xs" "drop l ys = drop l xs" using assms by (auto simp: shuffled_def intro!: nth_equalityI)
  then show ?thesis using d [OF n] d [OF refl] assms(1) by (simp add: shuffled_def)
qed

lemma shuffled_keeps:
  assumes "shuffled s l xs ys" "s \<le> l" "l \<le> length xs" "\<forall>k. s \<le> k \<and> k < l \<longrightarrow> P (xs ! k)"
  shows "\<forall>k. s \<le> k \<and> k < l \<longrightarrow> P (ys ! k)"
proof (intro allI impI)
  fix k assume k: "s \<le> k \<and> k < l"
  have n: "length ys = length xs" using assms(1) by (simp add: shuffled_def)
  have "ys ! k \<in> set (take (l - s) (drop s ys))" using k n assms(3) by (auto simp: in_set_conv_nth intro!: exI [of _ "k - s"])
  then have "ys ! k \<in> set (take (l - s) (drop s xs))" using shuffled_segment [OF assms(1-3)] by (metis set_mset_mset)
  then obtain i where "i < l - s" "ys ! k = xs ! (s + i)" using assms(3) by (auto simp: in_set_conv_nth)
  then show "P (ys ! k)" using assms(4) by simp
qed

lemma parted_low:
  assumes p: "parted key v s l lp hp xs" and h: "shuffled s lp xs ys"
  shows "parted key v s l lp hp ys"
proof -
  have "\<forall>k. s \<le> k \<and> k < lp \<longrightarrow> key (ys ! k) < v"
    using shuffled_keeps [OF h, of "\<lambda>x. key x < v"] p by (simp add: parted_def)
  then show ?thesis using p h by (auto simp: parted_def shuffled_def)
qed

lemma parted_high:
  assumes p: "parted key v s l lp hp xs" and h: "shuffled (Suc hp) l xs ys"
  shows "parted key v s l lp hp ys"
proof -
  have "\<forall>k. Suc hp \<le> k \<and> k < l \<longrightarrow> v < key (ys ! k)"
    using shuffled_keeps [OF h, of "\<lambda>x. v < key x"] p by (simp add: parted_def Suc_le_eq)
  then show ?thesis using p h by (auto simp: parted_def shuffled_def)
qed

lemma sorted_elsewhere:
  "sorted_from key s l xs \<Longrightarrow> shuffled s' l' xs ys \<Longrightarrow> l \<le> s' \<or> l' \<le> s \<Longrightarrow> l \<le> length xs \<Longrightarrow> sorted_from key s l ys"
  unfolding sorted_from_def shuffled_def by (metis le_trans less_le_trans le_less_trans)

lemma parted_sorted:
  assumes p: "parted key v s l lp hp xs" and lo: "sorted_from key s lp xs" and hi: "sorted_from key (Suc hp) l xs"
  shows "sorted_from key s l xs"
  unfolding sorted_from_def
proof (intro allI impI)
  fix x y assume xy: "s \<le> x \<and> x \<le> y \<and> y < l"
  have k: "key (xs ! z) < v" if "s \<le> z" "z < lp" for z using p that by (simp add: parted_def)
  have e: "key (xs ! z) = v" if "lp \<le> z" "z \<le> hp" for z using p that by (simp add: parted_def)
  have g: "v < key (xs ! z)" if "hp < z" "z < l" for z using p that by (simp add: parted_def)
  consider "y < lp" | "x < lp" "lp \<le> y" | "lp \<le> x" "x \<le> hp" | "hp < x" by linarith
  then show "key (xs ! x) \<le> key (xs ! y)"
  proof cases
    case 1
    then show ?thesis using lo xy by (simp add: sorted_from_def)
  next
    case 2
    then have "key (xs ! x) < v" using k xy by simp
    moreover have "v \<le> key (xs ! y)" using e [of y] g [of y] 2 xy by (cases "y \<le> hp") auto
    ultimately show ?thesis by simp
  next
    case 3
    then have "key (xs ! x) = v" using e by simp
    moreover have "v \<le> key (xs ! y)" using e [of y] g [of y] 3 xy by (cases "y \<le> hp") auto
    ultimately show ?thesis by simp
  next
    case 4
    then show ?thesis using hi xy by (simp add: sorted_from_def)
  qed
qed

lemma fits_step:
  assumes f: "fits a es N" and s: "s \<le> l" and l: "l \<le> N"
  shows "unat (at a es l - at a es s) = es * (l - s)" "at a es l - at a es s \<le> of_nat es \<longleftrightarrow> l - s \<le> 1"
    "1 < l - s \<Longrightarrow> at a es s + of_nat es * ((at a es l - at a es s) div (2 * of_nat es)) = at a es (s + (l - s) div 2)"
proof -
  have w: "at a es l - at a es s = of_nat (es * (l - s))" using s by (simp add: at_def of_nat_diff algebra_simps flip: of_nat_add of_nat_mult)
  have n: "es * (l - s) \<le> es * N" using l by (intro mult_le_mono2) simp
  moreover have "es * N < 2 ^ 31" using f by (simp add: fits_def)
  ultimately have b: "es * (l - s) < 2 ^ 31" by (rule le_less_trans)
  then show u: "unat (at a es l - at a es s) = es * (l - s)" unfolding w by (simp only: unsigned_of_nat) (simp add: take_bit_nat_eq_self)
  show "at a es l - at a es s \<le> of_nat es \<longleftrightarrow> l - s \<le> 1"
  proof (cases "l = 0")
    case True
    then show ?thesis using s by (simp add: at_def)
  next
    case False
    then have "unat (of_nat es :: addr) = es" "0 < es" using fits_size [OF f] l f by (simp_all add: fits_def)
    then show ?thesis unfolding word_le_nat_alt u by simp
  qed
  assume d: "1 < l - s"
  then have "es * 2 \<le> es * (l - s)" by (intro mult_le_mono2) simp
  then have "es * 2 < 2 ^ 31" using b by (rule le_less_trans)
  then have e: "2 * es < 2 ^ 32" by simp
  have "(2 * of_nat es :: addr) = of_nat (2 * es)" by simp
  then have "unat (2 * of_nat es :: addr) = 2 * es" using e by (simp only: unsigned_of_nat) (simp add: take_bit_nat_eq_self)
  then have "unat ((at a es l - at a es s) div (2 * of_nat es)) = es * (l - s) div (2 * es)" by (simp only: unat_div u)
  also have "\<dots> = (l - s) div 2" using f by (simp add: fits_def mult.commute [of 2])
  finally have h: "unat ((at a es l - at a es s) div (2 * of_nat es)) = (l - s) div 2" .
  have "of_nat (unat w) = w" for w :: addr by simp
  from this [of "(at a es l - at a es s) div (2 * of_nat es)"] have "(at a es l - at a es s) div (2 * of_nat es) = of_nat ((l - s) div 2)"
    unfolding h by (rule sym)
  then show "at a es s + of_nat es * ((at a es l - at a es s) div (2 * of_nat es)) = at a es (s + (l - s) div 2)"
    by (simp add: at_def algebra_simps)
qed

lemma qs1_sorts:
  assumes f: "fits a es N" and c: "compares fc es key"
  shows "s \<le> l \<Longrightarrow> l \<le> N \<Longrightarrow> \<exists>m'. qs1 fc (of_nat es) (at a es s) (at a es l) m = Some m' \<and> sorted_from key s l (arr a es N m') \<and>
    shuffled s l (arr a es N m) (arr a es N m') \<and> (\<forall>x. outside a es N x \<longrightarrow> m' x = m x)"
proof (induction "l - s" arbitrary: s l m rule: less_induct)
  case less
  note st = fits_step [OF f less.prems]
  show ?case
  proof (cases "l - s \<le> 1")
    case True
    then have "qs1 fc (of_nat es) (at a es s) (at a es l) m = Some m" by (subst qs1.simps) (simp add: st(2))
    moreover have "p = q" if "s \<le> p \<and> p \<le> q \<and> q < l" for p q using that True by linarith
    ultimately show ?thesis by (intro exI [of _ m]) (auto simp: sorted_from_def)
  next
    case False
    define k where "k = s + (l - s) div 2"
    have k: "s \<le> k" "k < l" "k \<le> l - 1" using False by (auto simp: k_def)
    let ?v = "key (arr a es N m ! k)"
    have "part_inv key ?v s l True s k k (l - 1) (arr a es N m)" using k less.prems by (auto simp: part_inv_def simp del: arr_nth)
    from qs_part_parts [OF f c this less.prems(2)] obtain lp hp m1 where
      p: "qs_part fc (of_nat es) (vars_at a es True s k k (l - 1) m) = Some (at a es lp, at a es hp, m1)" "parted key ?v s l lp hp (arr a es N m1)"
        "shuffled s l (arr a es N m) (arr a es N m1)" "\<forall>x. outside a es N x \<longrightarrow> m1 x = m x" by blast
    have b: "s \<le> lp" "lp \<le> hp" "hp < l" using p(2) by (simp_all add: parted_def)
    have l1: "at a es l - of_nat es = at a es (l - 1)" using at_step(2) [of l a es] k by simp
    have q: "qs1 fc (of_nat es) (at a es s) (at a es l) m =
      (if sint (at a es lp - at a es s) \<ge> sint (at a es l - at a es hp)
       then Option.bind (qs1 fc (of_nat es) (at a es (Suc hp)) (at a es l) m1) (\<lambda>m. qs1 fc (of_nat es) (at a es s) (at a es lp) m)
       else Option.bind (qs1 fc (of_nat es) (at a es s) (at a es lp) m1) (\<lambda>m. qs1 fc (of_nat es) (at a es (Suc hp)) (at a es l) m))"
      using False p(1) st(3) unfolding k_def vars_at_def
      by (subst qs1.simps) (simp add: st(2) l1 at_step(1) Let_def)
    have low: "\<exists>m'. qs1 fc (of_nat es) (at a es s) (at a es lp) m2 = Some m' \<and> sorted_from key s lp (arr a es N m') \<and>
        shuffled s lp (arr a es N m2) (arr a es N m') \<and> (\<forall>x. outside a es N x \<longrightarrow> m' x = m2 x)" for m2
      using b less.prems by (intro less.hyps) simp_all
    have high: "\<exists>m'. qs1 fc (of_nat es) (at a es (Suc hp)) (at a es l) m2 = Some m' \<and> sorted_from key (Suc hp) l (arr a es N m') \<and>
        shuffled (Suc hp) l (arr a es N m2) (arr a es N m') \<and> (\<forall>x. outside a es N x \<longrightarrow> m' x = m2 x)" for m2
      using b less.prems by (intro less.hyps) simp_all
    show ?thesis
    proof (cases "sint (at a es lp - at a es s) \<ge> sint (at a es l - at a es hp)")
      case True
      from high [of m1] obtain m2 where h: "qs1 fc (of_nat es) (at a es (Suc hp)) (at a es l) m1 = Some m2" "sorted_from key (Suc hp) l (arr a es N m2)"
        "shuffled (Suc hp) l (arr a es N m1) (arr a es N m2)" "\<forall>x. outside a es N x \<longrightarrow> m2 x = m1 x" by blast
      from low [of m2] obtain m3 where w: "qs1 fc (of_nat es) (at a es s) (at a es lp) m2 = Some m3" "sorted_from key s lp (arr a es N m3)"
        "shuffled s lp (arr a es N m2) (arr a es N m3)" "\<forall>x. outside a es N x \<longrightarrow> m3 x = m2 x" by blast
      have "parted key ?v s l lp hp (arr a es N m3)" by (rule parted_low [OF parted_high [OF p(2) h(3)] w(3)])
      moreover have "sorted_from key (Suc hp) l (arr a es N m3)" using sorted_elsewhere [OF h(2) w(3)] b less.prems by simp
      ultimately have "sorted_from key s l (arr a es N m3)" using w(2) parted_sorted by blast
      moreover have "shuffled s l (arr a es N m) (arr a es N m3)"
        using shuffled_trans [OF p(3) shuffled_trans [OF shuffled_wider [OF h(3)] shuffled_wider [OF w(3)]]] b by simp
      ultimately show ?thesis using q True h(1,4) w(1,4) p(4) by (intro exI [of _ m3]) simp
    next
      case False
      from low [of m1] obtain m2 where w: "qs1 fc (of_nat es) (at a es s) (at a es lp) m1 = Some m2" "sorted_from key s lp (arr a es N m2)"
        "shuffled s lp (arr a es N m1) (arr a es N m2)" "\<forall>x. outside a es N x \<longrightarrow> m2 x = m1 x" by blast
      from high [of m2] obtain m3 where h: "qs1 fc (of_nat es) (at a es (Suc hp)) (at a es l) m2 = Some m3" "sorted_from key (Suc hp) l (arr a es N m3)"
        "shuffled (Suc hp) l (arr a es N m2) (arr a es N m3)" "\<forall>x. outside a es N x \<longrightarrow> m3 x = m2 x" by blast
      have "parted key ?v s l lp hp (arr a es N m3)" by (rule parted_high [OF parted_low [OF p(2) w(3)] h(3)])
      moreover have "sorted_from key s lp (arr a es N m3)" using sorted_elsewhere [OF w(2) h(3)] b less.prems by simp
      ultimately have "sorted_from key s l (arr a es N m3)" using h(2) by (rule parted_sorted)
      moreover have "shuffled s l (arr a es N m) (arr a es N m3)"
        using shuffled_trans [OF p(3) shuffled_trans [OF shuffled_wider [OF w(3)] shuffled_wider [OF h(3)]]] b by simp
      ultimately show ?thesis using q False h(1,4) w(1,4) p(4) by (intro exI [of _ m3]) simp
    qed
  qed
qed

text \<open>
  C29: \<open>qsort\<close> ends and sorts. For an array in memory of \<open>N\<close> elements of \<open>es\<close> bytes, of less than \<open>2 ^ 31\<close> bytes in all, and a routine that compares a key of
  the elements, it returns; then the keys do not decrease along the array, the array has the same elements as often as before, and no byte outside the array has changed.
\<close>

theorem qsort_sorts:
  assumes "fits a es N" and "compares fc es key"
  shows "\<exists>m'. qsort a (of_nat N) (of_nat es) fc m = Some m' \<and> sorted (map key (arr a es N m')) \<and> mset (arr a es N m') = mset (arr a es N m) \<and>
    (\<forall>x. outside a es N x \<longrightarrow> m' x = m x)"
proof -
  obtain m' where m': "qs1 fc (of_nat es) (at a es 0) (at a es N) m = Some m'" "sorted_from key 0 N (arr a es N m')"
      "shuffled 0 N (arr a es N m) (arr a es N m')" "\<forall>x. outside a es N x \<longrightarrow> m' x = m x"
    using qs1_sorts [OF assms, of 0 N m] by blast
  have "qsort a (of_nat N) (of_nat es) fc m = Some m'" using m'(1) by (simp add: qsort_def at_def mult.commute)
  moreover have "sorted (map key (arr a es N m'))" using m'(2) by (simp add: sorted_iff_nth_mono sorted_from_def)
  ultimately show ?thesis using m'(3,4) by (auto simp: shuffled_def)
qed

theorem qsort_sorts_witness:
  "\<exists>m'. qsort 16 5 1 (\<lambda>p q m. uint (m p) - uint (m q)) (\<lambda>x. 100 - ucast x) = Some m' \<and> sorted (map m' [16, 17, 18, 19, 20])"
proof -
  have f: "fits 16 1 5" by (simp add: fits_def)
  have c: "compares (\<lambda>p q m. uint (m p) - uint (m q)) 1 hd"
    by (simp add: compares_def elem_def word_less_def word_uint_eq_iff)
  from qsort_sorts [OF f c, of "\<lambda>x. 100 - ucast x"] show ?thesis
    by (auto simp: arr_def elem_def at_def upt_rec)
qed

end
