(* ===== verification/Spec2Isabelle.thy ===== *)
theory Spec2Isabelle
  imports PageFault Ports Initialize Shell LfsDurable ArpExchange Sorting
begin

text \<open>
  A verification of the Xinu kernel with virtual memory, the C code under \<open>src/xinu\<close>.

  \<^bold>\<open>The program.\<close> Xinu is a small operating system kernel. Processes are entries of a table; each is on at most one queue of a table of doubly
  linked lists (ready list, sleep queue, one queue per semaphore). System calls run with interrupts off up to the point where \<open>resched\<close> hands the
  processor to another process. Memory is a heap with a free list in the free blocks themselves, and above it four pools of page frames from
  which page directories, page tables, resident pages and swapped pages are taken. User processes have a page directory of their own; a page
  fault maps a page, brings it back from swap or evicts another. Above these lie buffer pools, message ports, the device switch, the terminal driver, the name space, a file system on a disk in memory,
  the shell, an Ethernet driver and a network stack with ARP, IP, ICMP and UDP.

  \<^bold>\<open>The model.\<close> Every C function that changes state is a HOL function on a record of the globals it touches, with an outcome
  (\<open>result\<close> of theory \<open>Prelude\<close>) for every way it can fail to return: \<open>Halted\<close> (\<open>ASSERT\<close>, \<open>panic\<close>, \<open>halt\<close>), \<open>Fault\<close> (a table
  indexed out of bounds, a store through a bad pointer) and \<open>Loops\<close> (a loop that does not end). Loops without an obvious bound are partial
  functions to \<open>option\<close>, so that not returning is a value, and the theorems prove that they return; counted loops recurse on the count. There is no fuel anywhere. Addresses and unsigned numbers are 32-bit words
  with their wrap-around; signed numbers are integers with \<open>wrap32\<close> or \<open>wrap16\<close> written where they are computed. A routine that blocks is split
  there: the first part ends with another process running, and a definition called \<open>..._rest\<close> is what the caller does when it runs again.

  \<^bold>\<open>Theories and sources\<close> (files under \<open>src/xinu\<close>):
  \<^item> \<open>Prelude\<close>: machine types, outcomes, shared lemmas.
  \<^item> \<open>FreeList\<close> (\<open>system/getmem.c\<close>, \<open>freemem.c\<close>, \<open>getstk.c\<close>, \<open>_getfreemem\<close> and \<open>_freemem\<close> of \<open>paging.c\<close>, \<open>include/memory.h\<close>): memory as words, free lists.
    Refinement of allocation and release on lists of blocks (first fit, full merging), round trips, disjointness; locale \<open>storage_pool\<close>.
  \<^item> \<open>ProcTab\<close> (\<open>include/process.h\<close>), \<open>Queue\<close> (\<open>include/queue.h\<close>, \<open>newqueue.c\<close>, \<open>queue.c\<close>, \<open>getitem.c\<close>, \<open>insert.c\<close>, \<open>insertd.c\<close>): process entries; linked queues represent lists;
    FIFO order, priority order, delta lists; locales \<open>fifo_queues\<close>, \<open>keyed_queue\<close>.
  \<^item> \<open>Paging\<close> (\<open>paging.c\<close>, \<open>meminit.c\<close>, \<open>include/paging.h\<close>): page pools, directories and tables as the words the processor reads; the first directory is the identity map, later ones share its tables.
  \<^item> \<open>Sched\<close> (\<open>resched.c\<close>, \<open>ready.c\<close>, \<open>resume.c\<close>, \<open>suspend.c\<close>, \<open>chprio.c\<close>, \<open>yield.c\<close>, and others): the kernel record, the invariant \<open>kidle\<close> (every process on exactly the
    queue its state names, ready list sorted, one process current, counts equal to queue lengths), highest priority runs.
  \<^item> \<open>Semaphores\<close>, \<open>Clock\<close>, \<open>Messages\<close> (\<open>wait.c\<close>, \<open>signal.c\<close>, and others; \<open>sleep.c\<close>, \<open>unsleep.c\<close>, \<open>wakeup.c\<close>, \<open>clkhandler.c\<close>; \<open>send.c\<close>, \<open>receive.c\<close>, \<open>recvclr.c\<close>, \<open>recvtime.c\<close>): counting semaphores with
    a FIFO queue (locale \<open>counting_semaphore\<close>), alarm clock (locale \<open>alarm_clock\<close>), one-word messages.
  \<^item> \<open>Lib\<close> (\<open>lib/mem*.c\<close>, \<open>lib/str*.c\<close>, \<open>atoi.c\<close>, \<open>atol.c\<close>, \<open>abs.c\<close>, \<open>labs.c\<close>, \<open>rand.c\<close>): byte strings against functions on lists.
  \<^item> \<open>Sorting\<close> (\<open>lib/qsort.c\<close>): the quicksort of the library on an array of bytes in memory, its in-place exchanges and its recursion; it returns and sorts.
  \<^item> \<open>DevSwitch\<close> (\<open>init.c\<close>, \<open>open.c\<close>, and others, \<open>getdev.c\<close>, \<open>conf.c\<close>): dispatch through a device table; \<open>conf_devtab\<close> is the table of the configuration, with the routines
    of the drivers as an argument.
  \<^item> \<open>Process\<close> (\<open>create.c\<close>, \<open>kill.c\<close>, \<open>exit.c\<close>, \<open>userret.c\<close>, \<open>xdone.c\<close>): the stack a new process starts from, the end of a process, create and kill as inverses.
  \<^item> \<open>KernelServices\<close> (\<open>kernel_services.c\<close>, \<open>vmalloc.c\<close>, \<open>vfree.c\<close>, \<open>vcreate.c\<close>) and \<open>PageFault\<close> (\<open>pagefault_handler.c\<close>): reserving pages, also where page tables are missing, and every branch of the fault handler;
    a fault maps or swaps without losing a page's contents.
  \<^item> \<open>BufPool\<close> (\<open>bufinit.c\<close>, \<open>mkbufpool.c\<close>, \<open>getbuf.c\<close>, \<open>freebuf.c\<close>; locale \<open>buffer_stack\<close>) and \<open>Ports\<close> (\<open>pt*.c\<close>; locale \<open>message_ports\<close>): buffers in disjoint memory, ports as bounded mailboxes.
  \<^item> \<open>SysCalls\<close>: all calls of the theories above as one transition system, its invariant \<open>sys_ok\<close>, and what each call leaves alone.
  \<^item> \<open>Initialize\<close> (\<open>initialize.c\<close>, \<open>clkinit.c\<close>): \<open>sysinit\<close> leads from the static data to a kernel that satisfies \<open>sys_ok\<close> and is handed to the drivers.
  \<^item> \<open>Tty\<close> (\<open>device/tty/*.c\<close>, \<open>include/tty.h\<close>): both halves of the terminal driver; cooked input refines a line editor, output is sent in order; locale \<open>signalling\<close>.
  \<^item> \<open>Names\<close> (\<open>device/nam/*.c\<close>): the prefix table and the mapping of names to devices. \<open>Shell\<close> (\<open>shell/lexan.c\<close> and the part of \<open>shell/shell.c\<close> that reads a line): tokens
    and redirections; a line that is written down is read back.
  \<^item> \<open>LfsDisk\<close> (\<open>device/ram/*.c\<close>, the disk part of \<open>device/lfs\<close>): the ram disk, the encodings of directory and index blocks, formatting and checking. \<open>Lfs\<close>: every operation on
    the files of the local file system. \<open>LfsFile\<close>: the representation of a file by index and data blocks, the free lists and the two blocks in memory, and what each step of
    \<open>lfsetup\<close> and \<open>lfflush\<close> does to it. \<open>LfsRefine\<close>: the byte operations refine those on a byte sequence with a position. \<open>LfsDurable\<close>: a closed file is found again, also after
    a restart; truncation returns its blocks.
  \<^item> \<open>Ether\<close> (\<open>device/eth/ethread.c\<close>, \<open>ethwrite.c\<close>, \<open>ethhandler.c\<close>, \<open>ethcontrol.c\<close>): the descriptor rings that the driver shares with the card. \<open>Net\<close> (\<open>include/net.h\<close> and others,
    \<open>net/dot2ip.c\<close>): packets as bytes, conversions of byte order, checksums. \<open>NetStack\<close> (\<open>net/arp.c\<close>, \<open>udp.c\<close>, \<open>icmp.c\<close>, \<open>ip.c\<close>, \<open>net.c\<close>): every operation of the protocols, one round of each
    of the two network processes. \<open>NetPackets\<close>: reading and writing fields; sums and carries. \<open>Checksums\<close>: the IP checksum against RFC 1071. \<open>NetDelivery\<close>: what one machine sends
    with UDP or ICMP is what the other one receives; the queues of the endpoints. \<open>ArpExchange\<close>: request and reply resolve the addresses on both sides.

  The properties that span components are in this theory: in every state that any sequence of calls and clock interrupts reaches, the process
  table and the semaphores are consistent, and every admissible call returns.

  \<^bold>\<open>Assumptions.\<close> The image is linked at 1 MB (\<open>compile/ld.script\<close>); the device table is that of \<open>system/conf.c\<close>, of whose
  drivers nothing is assumed: start-up is followed up to the loop that calls their \<open>init\<close> routines, and the descriptors that \<open>kill\<close> closes are the console, as \<open>create\<close> sets them. Where the code has a defect the theorem either states it (kill of a sleeping process, \<open>getdev\<close>, \<open>vfree\<close>, \<open>meminit\<close>, the end-of-file
  character of the terminal, the ICMP checksum and queue) or excludes exactly that case by a hypothesis.

  \<^bold>\<open>Not modelled\<close>: the machine-dependent assembly and start-up code (\<open>ctxsw.S\<close>, \<open>clkdisp.S\<close>, \<open>intr.S\<close>, \<open>start.S\<close>, \<open>i386.c\<close>, \<open>evec.c\<close>, \<open>pci.c\<close>, \<open>control_reg.c\<close>), whose effect on the state appears as
  the change of \<open>currpid\<close> and \<open>cr3\<close>; the endless loops \<open>nulluser\<close>; console printing (\<open>kprintf.c\<close>, \<open>lib/doprnt.c\<close>, \<open>debug.c\<close>, \<open>stacktrace.c\<close>); the start of the Ethernet card
  (\<open>ethinit.c\<close>, \<open>82545EMInit.c\<close>); DHCP, DNS, TFTP and PXE (\<open>net/dhcp.c\<close> and others) and the remote file and disk systems, which are clients of the network stack; the SD card driver; the main loop of the shell, its argument passing and its commands; the configuration program (\<open>config/\<close>, generated
  parsers); and \<open>src/old-xinu-forwarding-version\<close>, an older copy of the same kernel.
\<close>

section \<open>The kernel under any sequence of calls\<close>

text \<open>For the examples: \<open>kernel1\<close> is a kernel with the null process and one more.\<close>

lemma run1: "\<exists>k. runs devtab2 kernel1 [Sleepms 5, Clock_tick] k"
proof -
  obtain k1 where k1: "exec devtab2 (Sleepms 5) kernel1 = Ret k1" "sys_ok k1"
    using exec_ok [OF sys_ok1 console_plain_conf, of "Sleepms 5"] by (auto simp: kernel1_def NULLPROC_def)
  obtain k2 where k2: "exec devtab2 Clock_tick k1 = Ret k2" using exec_ok [OF k1(2) console_plain_conf, of Clock_tick] by auto
  have "runs devtab2 kernel1 ([] @ [Sleepms 5]) k1" by (rule runs_call [OF runs_none _ k1(1)]) (simp add: kernel1_def NULLPROC_def)
  then have "runs devtab2 kernel1 (([] @ [Sleepms 5]) @ [Clock_tick]) k2" by (rule runs_call [OF _ _ k2]) simp
  then show ?thesis by auto
qed

text \<open>
  C1: the process table and the semaphores in every reachable state. From a consistent kernel, with the device table of the configuration and whatever its drivers do, for
  every sequence of admissible calls in whatever order and whenever the clock interrupts: exactly one process is current, the one \<open>currpid\<close> names; the null process is
  current or ready, so that there is always a process to run; and the negative count of a semaphore is the number of processes that wait for it. A call is \<open>admissible\<close> when
  its arguments fit their C types, the null process does not block, no semaphore is counted past the largest integer, there is memory for the stack of a new process, and the
  victim of \<open>kill\<close> neither sleeps nor has an address space of its own nor is the last process.
\<close>

theorem reachable_kernel_consistent:
  assumes "sys_ok k0" and "runs (conf_devtab drv names) k0 cs k"
  shows "(\<forall>p. pid_ok p \<longrightarrow> (prstate (proctab k p) = PR_CURR \<longleftrightarrow> p = currpid k)) \<and> prstate (proctab k NULLPROC) \<in> {PR_READY, PR_CURR} \<and>
    (\<forall>s \<in> {0..<NSEM}. int (card {p. pid_ok p \<and> prstate (proctab k p) = PR_WAIT \<and> prsem (proctab k p) = s}) = max 0 (- scount (semtab k s)))"
proof -
  obtain Q where q: "kidle k Q" using runs_ok [OF assms(2,1) console_plain_conf] by (auto simp: sys_ok_def)
  then show ?thesis using waiting_count [OF q] by (auto simp: kidle_def kinv_def kbase_def)
qed

theorem reachable_kernel_consistent_witness:
  "\<exists>k. runs devtab2 kernel1 [Sleepms 5, Clock_tick] k \<and> prstate (proctab k (currpid k)) = PR_CURR \<and> prstate (proctab k NULLPROC) \<in> {PR_READY, PR_CURR}"
proof -
  obtain k where r: "runs devtab2 kernel1 [Sleepms 5, Clock_tick] k" using run1 by blast
  have "pid_ok (currpid k)" using runs_ok [OF r sys_ok1 console_plain_conf] by (rule sys_currpid)
  then show ?thesis using reachable_kernel_consistent [OF sys_ok1 r] r by blast
qed

text \<open>
  C2: calls come to an end. In every state reached from a consistent kernel by admissible calls, with the device table of the configuration, every admissible call, and every
  clock interrupt, returns or hands the processor to another process: it does not halt the machine, index a table out of its bounds or loop forever.
\<close>

theorem reachable_calls_return:
  assumes "sys_ok k0" and "runs (conf_devtab drv names) k0 cs k" and "admissible c k"
  shows "\<exists>k'. exec (conf_devtab drv names) c k = Ret k' \<and> runs (conf_devtab drv names) k0 (cs @ [c]) k'"
proof -
  obtain k' where "exec (conf_devtab drv names) c k = Ret k'"
    using exec_ok [OF runs_ok [OF assms(2,1) console_plain_conf] console_plain_conf assms(3)] by blast
  then show ?thesis using runs_call [OF assms(2,3)] by blast
qed

theorem reachable_calls_return_witness:
  "\<exists>k k'. runs devtab2 kernel1 [Sleepms 5, Clock_tick] k \<and> exec devtab2 (Send 1 7) k = Ret k' \<and> runs devtab2 kernel1 ([Sleepms 5, Clock_tick] @ [Send 1 7]) k'"
proof -
  obtain k where r: "runs devtab2 kernel1 [Sleepms 5, Clock_tick] k" using run1 by blast
  show ?thesis using reachable_calls_return [OF sys_ok1 r, of "Send 1 7"] r by auto
qed

end
